(* ===== verification/Prelude.thy ===== *)
theory Prelude
  imports Main "HOL-Library.Word" "HOL-Library.Monad_Syntax"
begin

text \<open>
  Shared vocabulary of the development. The kernel's C functions become functions into
  the option type: \<open>None\<close> is an outcome after which the kernel does not continue
  (a failed \<^verbatim>\<open>assert\<close>, a call of \<^verbatim>\<open>panic\<close>, or an access outside the object C gives it),
  \<open>Some\<close> is a normal return. An \<^verbatim>\<open>int\<close> error code is a value of the sum type
  \<open>errno + 'a\<close>: \<open>Inl e\<close> for a nonzero code, \<open>Inr\<close> for success with what the function
  hands back through its pointer arguments. State is passed explicitly.
\<close>

section \<open>Error codes\<close>

text \<open>The codes of \<^verbatim>\<open>kern/include/kern/errno.h\<close>, in its order.\<close>

datatype errno =
    EINVAL | EFAULT | ENAMETOOLONG | ENOMEM | EIO | ENOENT | ENOTDIR | EISDIR
  | EEXIST | EXDEV | EAGAIN | ESPIPE | EUNIMP | ENXIO | ENODEV | EBUSY | EIOCTL
  | ENOTEMPTY | ERANGE | ENOSPC | EMFILE | ENFILE | ENOSYS | ENOEXEC | E2BIG | EBADF

type_synonym 'a res = "errno + 'a"

section \<open>Assertions and memory accesses\<close>

text \<open>\<^verbatim>\<open>assert\<close> of \<^verbatim>\<open>kern/include/lib.h\<close>: a false condition panics.\<close>

definition kassert :: "bool \<Rightarrow> unit option" where
  "kassert b = (if b then Some () else None)"

text \<open>Reading and writing one element of a C array; outside it there is no behaviour.\<close>

definition rd :: "'a list \<Rightarrow> nat \<Rightarrow> 'a option" where
  "rd xs i = (if i < length xs then Some (xs ! i) else None)"

definition wr :: "'a list \<Rightarrow> nat \<Rightarrow> 'a \<Rightarrow> 'a list option" where
  "wr xs i x = (if i < length xs then Some (xs[i := x]) else None)"

lemma kassert_simps [simp]: "kassert True = Some ()" "kassert False = None"
  by (simp_all add: kassert_def)

lemma kassert_eq_Some [simp]: "kassert b = Some u \<longleftrightarrow> b"
  by (simp add: kassert_def)

lemma kassert_bind [simp]: "Option.bind (kassert b) f = (if b then f () else None)"
  by (simp add: kassert_def)

lemma rd_Some [simp]: "i < length xs \<Longrightarrow> rd xs i = Some (xs ! i)"
  by (simp add: rd_def)

lemma rd_eq_Some: "rd xs i = Some x \<longleftrightarrow> i < length xs \<and> x = xs ! i"
  by (auto simp: rd_def)

lemma wr_Some [simp]: "i < length xs \<Longrightarrow> wr xs i x = Some (xs[i := x])"
  by (simp add: wr_def)

lemma wr_eq_Some: "wr xs i x = Some ys \<longleftrightarrow> i < length xs \<and> ys = xs[i := x]"
  by (auto simp: wr_def)

text \<open>
  The C idiom \<^verbatim>\<open>if (result) return result;\<close> on a call that also changes the state: an error
  ends the computation with the state it left.
\<close>

definition ebind :: "('a res \<times> 's) option \<Rightarrow> ('a \<Rightarrow> 's \<Rightarrow> ('b res \<times> 's) option) \<Rightarrow> ('b res \<times> 's) option" where
  "ebind m f = (case m of None \<Rightarrow> None | Some (Inl e, s) \<Rightarrow> Some (Inl e, s) | Some (Inr x, s) \<Rightarrow> f x s)"

lemma ebind_simps [simp]:
  "ebind None f = None" "ebind (Some (Inl e, s)) f = Some (Inl e, s)" "ebind (Some (Inr x, s)) f = f x s"
  by (simp_all add: ebind_def)

section \<open>C integers\<close>

text \<open>The value a 32-bit signed \<^verbatim>\<open>int\<close> holds after a computation, with wrap-around.\<close>

definition int32 :: "int \<Rightarrow> int" where
  "int32 k = signed_take_bit 31 k"

text \<open>The value a 32-bit \<^verbatim>\<open>size_t\<close> holds after a computation.\<close>

definition size32 :: "nat \<Rightarrow> nat" where
  "size32 n = n mod 2 ^ 32"

lemma int32_id [simp]: "- (2 ^ 31) \<le> k \<Longrightarrow> k < 2 ^ 31 \<Longrightarrow> int32 k = k"
  by (simp add: int32_def signed_take_bit_int_eq_self)

lemma int32_range: "- (2 ^ 31) \<le> int32 k \<and> int32 k < 2 ^ 31"
  unfolding int32_def
  using signed_take_bit_int_greater_eq_minus_exp [of 31 k] signed_take_bit_int_less_exp [of 31 k]
  by simp

lemma size32_id [simp]: "n < 2 ^ 32 \<Longrightarrow> size32 n = n"
  by (simp add: size32_def)

text \<open>Subtraction in a 32-bit unsigned type.\<close>

definition sub32 :: "nat \<Rightarrow> nat \<Rightarrow> nat" where
  "sub32 a b = size32 (a + (2 ^ 32 - b))"

lemma sub32_le [simp]: "b \<le> a \<Longrightarrow> a < 2 ^ 32 \<Longrightarrow> sub32 a b = a - b"
proof -
  assume a: "b \<le> a" "a < 2 ^ 32"
  then have "a + (2 ^ 32 - b) = (a - b) + 2 ^ 32" by simp
  with a show ?thesis unfolding sub32_def size32_def by (metis less_imp_diff_less mod_add_self2 mod_less)
qed

lemma sub32_sub32: "n + k \<le> a \<Longrightarrow> a < 2 ^ 32 \<Longrightarrow> sub32 (sub32 a n) k = sub32 a (n + k)"
proof -
  assume a: "n + k \<le> a" "a < 2 ^ 32"
  then have "k \<le> a - n" "a - n < 2 ^ 32" "n \<le> a" by arith+
  with a show ?thesis by (simp only: sub32_le)
qed

text \<open>
  \<^verbatim>\<open>kmalloc(n * sizeof(void *))\<close> when it succeeds: as many pointer slots as the byte
  count, a 32-bit product, holds. \<open>None\<close> in a slot is memory nobody wrote yet.
\<close>

definition kmalloc_ptrs :: "nat \<Rightarrow> 'a option list" where
  "kmalloc_ptrs n = replicate (size32 (4 * n) div 4) None"

lemma length_kmalloc_ptrs [simp]: "n < 2 ^ 30 \<Longrightarrow> length (kmalloc_ptrs n) = n"
  by (simp add: kmalloc_ptrs_def)

section \<open>Collections and generic lemmas\<close>

named_theorems inv_simps \<open>unfolding rules for the components' invariants\<close>
named_theorems abs_simps \<open>how the abstraction functions act on an operation's result\<close>

lemma upt_shift: "map (\<lambda>k. f (m + k)) [0..<n] = map f [m..<m + n]"
  by (induction n) auto

lemma map_upt_Suc_shift: "map f [0..<Suc n] = f 0 # map (\<lambda>k. f (Suc k)) [0..<n]"
  by (induction n) auto

lemma bind_eq_SomeE:
  assumes "Option.bind m f = Some y"
  obtains x where "m = Some x" and "f x = Some y"
  using assms by (cases m) auto

end
