(* ===== verification/Queue.thy ===== *)
theory Queue
  imports Prelude
begin

text \<open>
  The ring buffer of \<^verbatim>\<open>kern/lib/queue.c\<close>: the struct, every operation, the invariant the
  operations keep and the list of pointers a queue stands for. \<^verbatim>\<open>q_grow\<close> and
  \<^verbatim>\<open>q_addtail\<close> call each other, and \<^verbatim>\<open>q_grow\<close> loops over the old buffer; both take fuel,
  and the lemmas show that the fuel the entry points pass always suffices. The argument
  \<open>mem\<close> is the outcome of the \<^verbatim>\<open>kmalloc\<close> call an operation may make.
\<close>

section \<open>The struct and its operations\<close>

record 'a queue =
  qsize :: nat
  nextwrite :: nat
  nextread :: nat
  data :: "'a option list"

text \<open>The doubling loop of \<^verbatim>\<open>q_grow\<close>, with the assertion that stops an overflow.\<close>

function q_newsize :: "nat \<Rightarrow> nat \<Rightarrow> nat option" where
  "q_newsize targetsize nsize =
     (if nsize < targetsize
      then let n = int32 (int nsize * 2)
           in if n > 0 then q_newsize targetsize (nat n) else None
      else Some nsize)"
  by pat_completeness auto

lemma int32_double:
  assumes "n < 2 ^ 31"
  shows "int32 (int n * 2) > 0 \<longleftrightarrow> 0 < n \<and> n < 2 ^ 30"
proof (cases "n < 2 ^ 30")
  case True
  then have "int32 (int n * 2) = int n * 2" by (intro int32_id) auto
  with True show ?thesis by auto
next
  case False
  define k where "k = int n * 2 - 2 ^ 32"
  have "int32 (int n * 2) = int32 k"
    unfolding k_def int32_def signed_take_bit_int_eq_self by (simp add: signed_take_bit_eq_iff_take_bit_eq take_bit_eq_mod)
  moreover have "int32 k = k" using False assms by (intro int32_id) (auto simp: k_def)
  ultimately show ?thesis using False assms by (auto simp: k_def)
qed

termination q_newsize
proof (relation "measures [\<lambda>(t, n). if n < 2 ^ 31 then 0 else 1, \<lambda>(t, n). t - n]", goal_cases)
  case 1
  show ?case by simp
next
  case (2 t n m)
  have "nat (int32 (int n * 2)) < 2 ^ 31" using int32_range [of "int n * 2"] by auto
  moreover have "n < nat (int32 (int n * 2))" if "n < 2 ^ 31"
    using 2 that int32_double [OF that] by auto
  ultimately show ?case using 2 by auto
qed

declare q_newsize.simps [simp del]

text \<open>\<^verbatim>\<open>q_empty\<close>.\<close>

definition q_empty :: "'a queue \<Rightarrow> bool" where
  "q_empty q = (nextwrite q = nextread q)"

text \<open>
  \<^verbatim>\<open>q_addtail\<close>, \<^verbatim>\<open>q_grow\<close> and the copying loop of \<^verbatim>\<open>q_grow\<close>. \<open>mem\<close> says whether \<^verbatim>\<open>kmalloc\<close>
  hands out the new buffer.
\<close>

fun q_addtail_fuel :: "nat \<Rightarrow> bool \<Rightarrow> 'a queue \<Rightarrow> 'a \<Rightarrow> (unit res \<times> 'a queue) option"
  and q_grow_fuel :: "nat \<Rightarrow> bool \<Rightarrow> 'a queue \<Rightarrow> nat \<Rightarrow> (unit res \<times> 'a queue) option"
  and q_copy_fuel :: "nat \<Rightarrow> bool \<Rightarrow> 'a option list \<Rightarrow> nat \<Rightarrow> nat \<Rightarrow> nat \<Rightarrow> 'a queue \<Rightarrow> 'a queue option"
where
  "q_addtail_fuel 0 mem q ptr = None"
| "q_addtail_fuel (Suc fuel) mem q ptr = do {
     kassert (qsize q > 0);
     if (nextwrite q + 1) mod qsize q = nextread q
     then do {
       (result, q') \<leftarrow> q_grow_fuel fuel mem q (qsize q + 1);
       case result of
         Inl e \<Rightarrow> Some (Inl e, q')
       | Inr _ \<Rightarrow> do {
           d \<leftarrow> wr (data q') (nextwrite q') (Some ptr);
           Some (Inr (), q'\<lparr>data := d, nextwrite := (nextwrite q' + 1) mod qsize q'\<rparr>)
         }
     }
     else do {
       d \<leftarrow> wr (data q) (nextwrite q) (Some ptr);
       Some (Inr (), q\<lparr>data := d, nextwrite := (nextwrite q + 1) mod qsize q\<rparr>)
     }
   }"
| "q_grow_fuel 0 mem q targetsize = None"
| "q_grow_fuel (Suc fuel) mem q targetsize = do {
     nsize \<leftarrow> q_newsize targetsize (qsize q);
     if \<not> mem then Some (Inl ENOMEM, q)
     else do {
       q' \<leftarrow> q_copy_fuel fuel mem (data q) (qsize q) (nextread q) (nextwrite q)
               (q\<lparr>qsize := nsize, data := kmalloc_ptrs nsize, nextread := 0, nextwrite := 0\<rparr>);
       Some (Inr (), q')
     }
   }"
| "q_copy_fuel 0 mem olddata osize i onw q = None"
| "q_copy_fuel (Suc fuel) mem olddata osize i onw q =
     (if i = onw then Some q
      else do {
        slot \<leftarrow> rd olddata i;
        ptr \<leftarrow> slot;
        (result, q') \<leftarrow> q_addtail_fuel fuel mem q ptr;
        kassert (result = Inr ());
        q_copy_fuel fuel mem olddata osize ((i + 1) mod osize) onw q'
      })"

text \<open>The fuel of the entry points: one round per slot of the old buffer, and three calls.\<close>

definition q_fuel :: "'a queue \<Rightarrow> nat" where
  "q_fuel q = qsize q + 3"

definition q_addtail :: "bool \<Rightarrow> 'a queue \<Rightarrow> 'a \<Rightarrow> (unit res \<times> 'a queue) option" where
  "q_addtail mem q ptr = q_addtail_fuel (q_fuel q) mem q ptr"

definition q_grow :: "bool \<Rightarrow> 'a queue \<Rightarrow> nat \<Rightarrow> (unit res \<times> 'a queue) option" where
  "q_grow mem q targetsize = q_grow_fuel (q_fuel q) mem q targetsize"

text \<open>\<^verbatim>\<open>q_create\<close>: \<open>None\<close> as the queue is the \<^verbatim>\<open>NULL\<close> of a failed allocation.\<close>

definition q_create :: "bool \<Rightarrow> bool \<Rightarrow> nat \<Rightarrow> 'a queue option" where
  "q_create mem_struct mem_data sz =
     (if \<not> mem_struct then None
      else if \<not> mem_data then None
      else Some \<lparr>qsize = sz, nextwrite = 0, nextread = 0, data = kmalloc_ptrs sz\<rparr>)"

definition q_preallocate :: "bool \<Rightarrow> 'a queue \<Rightarrow> nat \<Rightarrow> (unit res \<times> 'a queue) option" where
  "q_preallocate mem q sz = do {
     kassert (qsize q > 0);
     if sz > qsize q then q_grow mem q sz else Some (Inr (), q)
   }"

definition q_remhead :: "'a queue \<Rightarrow> ('a \<times> 'a queue) option" where
  "q_remhead q = do {
     kassert (qsize q > 0);
     kassert (\<not> q_empty q);
     slot \<leftarrow> rd (data q) (nextread q);
     ret \<leftarrow> slot;
     Some (ret, q\<lparr>nextread := (nextread q + 1) mod qsize q\<rparr>)
   }"

text \<open>\<^verbatim>\<open>q_destroy\<close> only checks; the two \<^verbatim>\<open>kfree\<close> calls leave nothing to look at.\<close>

definition q_destroy :: "'a queue \<Rightarrow> unit option" where
  "q_destroy q = kassert (q_empty q)"

text \<open>The debugging accessors.\<close>

definition q_getstart :: "'a queue \<Rightarrow> nat" where
  "q_getstart q = nextread q"

definition q_getend :: "'a queue \<Rightarrow> nat" where
  "q_getend q = nextwrite q"

definition q_getsize :: "'a queue \<Rightarrow> nat" where
  "q_getsize q = qsize q"

definition q_getguy :: "'a queue \<Rightarrow> nat \<Rightarrow> 'a option" where
  "q_getguy q index = do {
     kassert (index < qsize q);
     slot \<leftarrow> rd (data q) index;
     slot
   }"

section \<open>Invariant and abstraction\<close>

text \<open>The number of queued pointers, the slot of the \<open>k\<close>-th one, and the list they form.\<close>

definition q_count :: "'a queue \<Rightarrow> nat" where
  "q_count q = (nextwrite q + qsize q - nextread q) mod qsize q"

definition q_slot :: "'a queue \<Rightarrow> nat \<Rightarrow> nat" where
  "q_slot q k = (nextread q + k) mod qsize q"

definition q_list :: "'a queue \<Rightarrow> 'a list" where
  "q_list q = map (\<lambda>k. the (data q ! q_slot q k)) [0..<q_count q]"

definition q_inv :: "'a queue \<Rightarrow> bool" where
  "q_inv q \<longleftrightarrow> 0 < qsize q \<and> qsize q < 2 ^ 30 \<and> length (data q) = qsize q \<and>
     nextread q < qsize q \<and> nextwrite q < qsize q \<and>
     (\<forall>k < q_count q. data q ! q_slot q k \<noteq> None)"

text \<open>Sizes for which the next doubling still fits a C \<^verbatim>\<open>int\<close> and a 32-bit byte count.\<close>

definition q_room :: "'a queue \<Rightarrow> bool" where
  "q_room q \<longleftrightarrow> qsize q < 2 ^ 29"

lemma mod_once: "(a::nat) < n \<Longrightarrow> b < n \<Longrightarrow> (a + b) mod n = (if a + b < n then a + b else a + b - n)"
  by (simp add: mod_if)

lemma q_count_cases:
  "nextread q < qsize q \<Longrightarrow> nextwrite q < qsize q \<Longrightarrow>
   q_count q = (if nextread q \<le> nextwrite q then nextwrite q - nextread q
                else nextwrite q + qsize q - nextread q)"
  by (auto simp: q_count_def mod_if)

lemma q_count_less: "0 < qsize q \<Longrightarrow> q_count q < qsize q"
  by (simp add: q_count_def)

lemma length_q_list [simp]: "length (q_list q) = q_count q"
  by (simp add: q_list_def)

lemma q_empty_iff: "q_inv q \<Longrightarrow> q_empty q \<longleftrightarrow> q_list q = []"
  by (auto simp: q_empty_def q_list_def q_inv_def q_count_cases split: if_splits)

lemma q_slot_nextwrite:
  "nextread q < qsize q \<Longrightarrow> nextwrite q < qsize q \<Longrightarrow> q_slot q (q_count q) = nextwrite q"
  by (auto simp: q_slot_def q_count_cases mod_if)

lemma q_slot_inj:
  assumes "nextread q < qsize q" and "j < qsize q" and "k < qsize q" and "q_slot q j = q_slot q k"
  shows "j = k"
  using assms by (simp add: q_slot_def mod_once split: if_splits)

lemma q_full_iff:
  "nextread q < qsize q \<Longrightarrow> nextwrite q < qsize q \<Longrightarrow>
   (nextwrite q + 1) mod qsize q = nextread q \<longleftrightarrow> q_count q + 1 = qsize q"
  by (auto simp: q_count_cases mod_Suc split: if_splits)

section \<open>Adding without growth\<close>

text \<open>The store at the end of \<^verbatim>\<open>q_addtail\<close>.\<close>

definition q_put :: "'a queue \<Rightarrow> 'a \<Rightarrow> 'a queue" where
  "q_put q x = q\<lparr>data := (data q)[nextwrite q := Some x],
                 nextwrite := (nextwrite q + 1) mod qsize q\<rparr>"

lemma q_put_sel [simp]:
  "qsize (q_put q x) = qsize q" "nextread (q_put q x) = nextread q"
  "length (data (q_put q x)) = length (data q)" "q_slot (q_put q x) k = q_slot q k"
  by (simp_all add: q_put_def q_slot_def)

lemma q_put_nextwrite: "nextwrite (q_put q x) = (nextwrite q + 1) mod qsize q"
  by (simp add: q_put_def)

lemma q_put_count:
  "nextread q < qsize q \<Longrightarrow> nextwrite q < qsize q \<Longrightarrow> q_count q + 1 < qsize q \<Longrightarrow>
   q_count (q_put q x) = q_count q + 1"
  by (auto simp: q_count_def q_put_nextwrite mod_if split: if_splits)

lemma q_put_data:
  assumes "q_inv q" and "q_count q + 1 < qsize q" and "k \<le> q_count q"
  shows "data (q_put q x) ! q_slot q k = (if k = q_count q then Some x else data q ! q_slot q k)"
proof (cases "k = q_count q")
  case True
  with assms show ?thesis by (simp add: q_put_def q_slot_nextwrite q_inv_def)
next
  case False
  have "q_slot q k \<noteq> q_slot q (q_count q)"
    using False assms q_slot_inj [of q k "q_count q"] by (auto simp: q_inv_def)
  with False assms show ?thesis by (simp add: q_put_def q_slot_nextwrite q_inv_def)
qed

lemma q_put_inv:
  assumes "q_inv q" and "q_count q + 1 < qsize q"
  shows "q_inv (q_put q x)"
proof -
  have "data (q_put q x) ! q_slot q k \<noteq> None" if "k < q_count q + 1" for k
    using q_put_data [OF assms, of k x] that assms(1) by (auto simp: q_inv_def)
  with assms show ?thesis by (auto simp: q_inv_def q_put_count q_put_nextwrite)
qed

lemma q_put_list:
  assumes "q_inv q" and "q_count q + 1 < qsize q"
  shows "q_list (q_put q x) = q_list q @ [x]"
proof -
  have "map (\<lambda>k. the (data (q_put q x) ! q_slot q k)) [0..<q_count q] = q_list q"
    unfolding q_list_def using q_put_data [OF assms] by (intro map_cong) auto
  moreover have "data (q_put q x) ! q_slot q (q_count q) = Some x"
    using q_put_data [OF assms order_refl] by simp
  moreover have "q_count (q_put q x) = Suc (q_count q)"
    using assms q_put_count [of q x] by (simp add: q_inv_def)
  ultimately show ?thesis
    unfolding q_list_def [of "q_put q x"] by (simp add: q_list_def)
qed

lemmas q_put_facts = q_put_inv q_put_list

lemma q_addtail_nogrow:
  assumes "q_inv q" and "q_count q + 1 < qsize q"
  shows "q_addtail_fuel (Suc fuel) mem q x = Some (Inr (), q_put q x)"
  using assms q_full_iff [of q] by (auto simp: q_inv_def q_put_def)

section \<open>Growing\<close>

lemma q_newsize_enough:
  "0 < n \<Longrightarrow> n < t \<Longrightarrow> t \<le> 2 ^ 29 \<Longrightarrow> \<exists>m. q_newsize t n = Some m \<and> t \<le> m \<and> m < 2 * t"
proof (induction t n rule: q_newsize.induct)
  case (1 t n)
  have d: "int32 (int n * 2) = int n * 2" using 1 by (intro int32_id) auto
  have u: "q_newsize t n = q_newsize t (2 * n)"
    using 1 d by (subst q_newsize.simps) (simp add: nat_mult_distrib mult.commute)
  show ?case
  proof (cases "2 * n < t")
    case True
    have "nat (int n * 2) = 2 * n" by simp
    with 1 True d have "\<exists>m. q_newsize t (2 * n) = Some m \<and> t \<le> m \<and> m < 2 * t" by auto
    with u show ?thesis by simp
  next
    case False
    then have "q_newsize t (2 * n) = Some (2 * n)" by (subst q_newsize.simps) simp
    with u False 1 show ?thesis by simp
  qed
qed

text \<open>The copying loop: \<open>m\<close> old slots are left, and the new buffer has room for them.\<close>

lemma q_copy_ok:
  assumes "q_inv q" and "0 < osize" and "length old = osize" and "i < osize" and "onw < osize"
    and "m = (onw + osize - i) mod osize" and "q_count q + m < qsize q" and "m + 2 \<le> fuel"
    and "\<forall>k < m. old ! ((i + k) mod osize) \<noteq> None"
  shows "\<exists>q'. q_copy_fuel fuel mem old osize i onw q = Some q' \<and> q_inv q' \<and> qsize q' = qsize q \<and>
     q_list q' = q_list q @ map (\<lambda>k. the (old ! ((i + k) mod osize))) [0..<m]"
  using assms
proof (induction m arbitrary: q i fuel)
  case 0
  then obtain f where "fuel = Suc f" by (cases fuel) auto
  moreover have "i = onw" using 0 by (auto simp: mod_if split: if_splits)
  ultimately show ?case using 0 by auto
next
  case (Suc m)
  then obtain f where f: "fuel = Suc (Suc f)" by (metis add_2_eq_Suc' le_Suc_ex add_Suc_shift add_Suc)
  let ?i = "(i + 1) mod osize"
  have ne: "i \<noteq> onw" using Suc.prems by auto
  obtain x where i0: "old ! i = Some x"
    using Suc.prems(4,9) by (metis add_0_right mod_less option.exhaust zero_less_Suc)
  have m: "m = (onw + osize - ?i) mod osize"
    using Suc.prems(4-6) by (auto simp: mod_if split: if_splits)
  have step: "(?i + k) mod osize = (i + Suc k) mod osize" for k by (simp add: mod_add_left_eq)
  have live: "\<forall>k < m. old ! ((?i + k) mod osize) \<noteq> None"
    unfolding step using Suc.prems(9) by blast
  have add: "q_addtail_fuel (Suc f) mem q x = Some (Inr (), q_put q x)"
    using Suc.prems by (intro q_addtail_nogrow) auto
  have inv: "q_inv (q_put q x)" and lst: "q_list (q_put q x) = q_list q @ [x]"
    using Suc.prems by (auto intro!: q_put_facts)
  have cnt: "q_count (q_put q x) = q_count q + 1"
    using Suc.prems by (intro q_put_count) (auto simp: q_inv_def)
  have "\<exists>q'. q_copy_fuel (Suc f) mem old osize ?i onw (q_put q x) = Some q' \<and> q_inv q' \<and>
      qsize q' = qsize (q_put q x) \<and>
      q_list q' = q_list (q_put q x) @ map (\<lambda>k. the (old ! ((?i + k) mod osize))) [0..<m]"
    using Suc.prems inv m cnt f live by (intro Suc.IH) auto
  moreover have "map (\<lambda>k. the (old ! ((i + k) mod osize))) [0..<Suc m] =
      x # map (\<lambda>k. the (old ! ((?i + k) mod osize))) [0..<m]"
    using Suc.prems(4) i0 by (simp only: map_upt_Suc_shift step) simp
  moreover have "q_copy_fuel fuel mem old osize i onw q =
      q_copy_fuel (Suc f) mem old osize ?i onw (q_put q x)"
    using ne i0 Suc.prems(3,4) add
    by (subst f, subst q_copy_fuel.simps(2)) (simp del: q_addtail_fuel.simps q_copy_fuel.simps)
  ultimately show ?case by (simp add: lst del: q_copy_fuel.simps)
qed

lemma q_grow_ok:
  assumes inv: "q_inv q" and t: "qsize q < t" "t \<le> 2 ^ 29" and fuel: "q_count q + 3 \<le> fuel"
  shows "\<exists>q'. q_grow_fuel fuel True q t = Some (Inr (), q') \<and> q_inv q' \<and>
     t \<le> qsize q' \<and> qsize q' < 2 * t \<and> q_list q' = q_list q"
proof -
  obtain f where f: "fuel = Suc f" "q_count q + 2 \<le> f" using fuel by (cases fuel) auto
  obtain n where n: "q_newsize t (qsize q) = Some n" "t \<le> n" "n < 2 * t"
    using q_newsize_enough inv t unfolding q_inv_def by blast
  let ?q = "q\<lparr>qsize := n, data := kmalloc_ptrs n, nextread := 0, nextwrite := 0\<rparr>"
  have e: "q_inv ?q" "q_count ?q = 0" "q_list ?q = []"
    using inv n t by (auto simp: q_inv_def q_count_def q_list_def)
  have small: "q_count q < n" using inv n t q_count_less [of q] by (simp add: q_inv_def)
  have live: "\<forall>k < q_count q. data q ! ((nextread q + k) mod qsize q) \<noteq> None"
    using inv by (simp add: q_inv_def q_slot_def)
  have "\<exists>q'. q_copy_fuel f True (data q) (qsize q) (nextread q) (nextwrite q) ?q = Some q' \<and>
      q_inv q' \<and> qsize q' = qsize ?q \<and>
      q_list q' = q_list ?q @ map (\<lambda>k. the (data q ! ((nextread q + k) mod qsize q))) [0..<q_count q]"
  proof (rule q_copy_ok [OF e(1)])
    show "q_count q = (nextwrite q + qsize q - nextread q) mod qsize q" by (rule q_count_def)
    show "q_count ?q + q_count q < qsize ?q" using e(2) small by simp
  qed (use inv f live in \<open>auto simp: q_inv_def\<close>)
  then show ?thesis
    using n e f by (auto simp: q_list_def q_slot_def simp del: q_copy_fuel.simps)
qed

lemma q_grow_nomem:
  assumes "q_inv q" and "qsize q < t" "t \<le> 2 ^ 29"
  shows "q_grow_fuel (Suc fuel) False q t = Some (Inl ENOMEM, q)"
  using q_newsize_enough [of "qsize q" t] assms by (auto simp: q_inv_def)

section \<open>The operations against the list they stand for\<close>

lemma q_addtail_room:
  assumes "q_inv q" and "q_count q + 1 < qsize q"
  shows "q_addtail mem q x = Some (Inr (), q_put q x)"
  using assms q_addtail_nogrow [of q _ mem x] by (simp add: q_addtail_def q_fuel_def numeral_3_eq_3)

lemma q_addtail_full:
  assumes inv: "q_inv q" and room: "q_room q" and full: "q_count q + 1 = qsize q"
  shows "q_addtail False q x = Some (Inl ENOMEM, q)"
    and "\<exists>q'. q_addtail True q x = Some (Inr (), q') \<and> q_inv q' \<and>
           q_list q' = q_list q @ [x] \<and> qsize q < qsize q' \<and> qsize q' < 2 * (qsize q + 1)"
proof -
  have fl: "(nextwrite q + 1) mod qsize q = nextread q"
    using inv full q_full_iff [of q] by (simp add: q_inv_def)
  have pos: "0 < qsize q" and sm: "qsize q + 1 \<le> 2 ^ 29"
    using inv room by (auto simp: q_inv_def q_room_def)
  have fu: "q_fuel q = Suc (Suc (qsize q + 1))" by (simp add: q_fuel_def)
  show "q_addtail False q x = Some (Inl ENOMEM, q)"
    using fl pos sm q_grow_nomem [OF inv, of "qsize q + 1"]
    by (simp add: q_addtail_def fu del: q_grow_fuel.simps)
  obtain q' where g: "q_grow_fuel (Suc (qsize q + 1)) True q (qsize q + 1) = Some (Inr (), q')"
    and q': "q_inv q'" "qsize q + 1 \<le> qsize q'" "q_list q' = q_list q" "qsize q' < 2 * (qsize q + 1)"
    using q_grow_ok [OF inv _ sm, of "Suc (qsize q + 1)"] full by auto
  have c: "q_count q' = q_count q" using q'(3) by (metis length_q_list)
  have w: "nextwrite q' < length (data q')" using q'(1) by (simp add: q_inv_def)
  have "q_addtail True q x = Some (Inr (), q_put q' x)"
    using fl pos g w by (simp add: q_addtail_def fu q_put_def del: q_grow_fuel.simps)
  moreover have "q_inv (q_put q' x)" "q_list (q_put q' x) = q_list q' @ [x]"
    using q' c full q_put_inv [of q' x] q_put_list [of q' x] by simp_all
  ultimately show "\<exists>q'. q_addtail True q x = Some (Inr (), q') \<and> q_inv q' \<and>
      q_list q' = q_list q @ [x] \<and> qsize q < qsize q' \<and> qsize q' < 2 * (qsize q + 1)"
    using q' by auto
qed

text \<open>Both branches at once: what \<^verbatim>\<open>q_addtail\<close> returns and does, for every \<^verbatim>\<open>kmalloc\<close> outcome.\<close>

lemma q_addtail_spec:
  assumes inv: "q_inv q" and room: "q_room q"
  shows "\<exists>r q'. q_addtail mem q x = Some (r, q') \<and> q_inv q' \<and>
     (r = Inr () \<and> q_list q' = q_list q @ [x] \<and> qsize q \<le> qsize q' \<and>
        (qsize q' = qsize q \<or> length (q_list q) + 1 = qsize q \<and> qsize q' < 2 * (qsize q + 1)) \<or>
      r = Inl ENOMEM \<and> q' = q \<and> \<not> mem \<and> length (q_list q) + 1 = qsize q)"
proof (cases "q_count q + 1 < qsize q")
  case True
  then show ?thesis using q_addtail_room [OF inv True] q_put_facts [OF inv True] by auto
next
  case False
  then have full: "q_count q + 1 = qsize q"
    using q_count_less [of q] inv by (simp add: q_inv_def)
  then show ?thesis using q_addtail_full [OF inv room full, of x] inv by (cases mem) auto
qed

lemma q_remhead_spec:
  assumes inv: "q_inv q" and ne: "q_list q \<noteq> []"
  shows "\<exists>q'. q_remhead q = Some (hd (q_list q), q') \<and> q_inv q' \<and> q_list q' = tl (q_list q) \<and>
     qsize q' = qsize q"
proof -
  define q1 where "q1 = q\<lparr>nextread := (nextread q + 1) mod qsize q\<rparr>"
  have sel: "qsize q1 = qsize q" "data q1 = data q" "nextwrite q1 = nextwrite q"
    "nextread q1 = (nextread q + 1) mod qsize q"
    by (simp_all add: q1_def)
  have b: "0 < qsize q" "nextread q < qsize q" "nextwrite q < qsize q" "length (data q) = qsize q"
    using inv by (auto simp: q_inv_def)
  have cnt: "q_count q = Suc (q_count q1)"
    using ne b by (auto simp: q_list_def q_count_def sel mod_if split: if_splits)
  have slot: "q_slot q1 k = q_slot q (Suc k)" for k
    by (simp add: q_slot_def sel mod_add_left_eq)
  have live: "\<forall>k < q_count q. data q ! q_slot q k \<noteq> None"
    using inv by (simp add: q_inv_def)
  have s0: "q_slot q 0 = nextread q" using b by (simp add: q_slot_def)
  have lst: "q_list q = the (data q ! nextread q) # q_list q1"
    unfolding q_list_def cnt by (simp only: map_upt_Suc_shift s0 slot sel)
  have "data q ! nextread q \<noteq> None" using live s0 cnt by (metis zero_less_Suc)
  then have "q_remhead q = Some (the (data q ! nextread q), q1)"
    using b ne inv by (auto simp: q_remhead_def q_empty_iff q1_def)
  moreover have "q_inv q1" using inv b live cnt by (auto simp: q_inv_def slot sel)
  ultimately show ?thesis using lst sel by simp
qed

lemma q_remhead_empty: "q_list q = [] \<Longrightarrow> q_inv q \<Longrightarrow> q_remhead q = None"
  by (simp add: q_remhead_def q_empty_iff)

lemma q_create_spec:
  assumes "0 < sz" and "sz < 2 ^ 30" and "q_create a b sz = Some q"
  shows "q_inv q \<and> q_list q = [] \<and> qsize q = sz"
  using assms by (auto simp: q_create_def q_inv_def q_list_def q_count_def split: if_splits)

lemma q_preallocate_spec:
  assumes inv: "q_inv q" and sz: "sz \<le> 2 ^ 29"
  shows "\<exists>r q'. q_preallocate mem q sz = Some (r, q') \<and> q_inv q' \<and> q_list q' = q_list q \<and>
     (r = Inr () \<and> sz \<le> qsize q' \<and> qsize q \<le> qsize q' \<and> (qsize q' = qsize q \<or> qsize q' < 2 * sz) \<or> r = Inl ENOMEM \<and> q' = q \<and> \<not> mem)"
proof (cases "sz > qsize q")
  case True
  have fu: "q_fuel q = Suc (qsize q + 2)" by (simp add: q_fuel_def)
  show ?thesis
    using True q_grow_ok [OF inv True sz, of "q_fuel q"] q_grow_nomem [OF inv True sz, of "qsize q + 2"]
      q_count_less [of q] inv
    by (cases mem) (auto simp: q_preallocate_def q_grow_def fu q_inv_def simp del: q_grow_fuel.simps)
next
  case False
  then show ?thesis using inv by (auto simp: q_preallocate_def q_inv_def)
qed

section \<open>The interface the scheduler relies on\<close>

text \<open>
  A queue with a list of contents and a capacity up to which adding needs no memory. The
  helpers below run a whole sequence of operations through the interface.
\<close>

fun add_all :: "('q \<Rightarrow> 'a \<Rightarrow> (unit res \<times> 'q) option) \<Rightarrow> 'q \<Rightarrow> 'a list \<Rightarrow> 'q option" where
  "add_all add q [] = Some q"
| "add_all add q (x # xs) = do {
     (r, q') \<leftarrow> add q x;
     kassert (r = Inr ());
     add_all add q' xs
   }"

fun rem_n :: "('q \<Rightarrow> ('a \<times> 'q) option) \<Rightarrow> nat \<Rightarrow> 'q \<Rightarrow> ('a list \<times> 'q) option" where
  "rem_n rem 0 q = Some ([], q)"
| "rem_n rem (Suc n) q = do {
     (x, q') \<leftarrow> rem q;
     (xs, q'') \<leftarrow> rem_n rem n q';
     Some (x # xs, q'')
   }"

locale fifo_queue =
  fixes invar :: "'q \<Rightarrow> bool"
    and contents :: "'q \<Rightarrow> 'a list"
    and cap :: "'q \<Rightarrow> nat"
    and addtail :: "bool \<Rightarrow> 'q \<Rightarrow> 'a \<Rightarrow> (unit res \<times> 'q) option"
    and remhead :: "'q \<Rightarrow> ('a \<times> 'q) option"
  assumes addtail_room: "invar q \<Longrightarrow> length (contents q) < cap q \<Longrightarrow>
      \<exists>q'. addtail mem q x = Some (Inr (), q') \<and> invar q' \<and> contents q' = contents q @ [x] \<and>
        cap q' = cap q"
    and remhead_cons: "invar q \<Longrightarrow> contents q = x # xs \<Longrightarrow>
      \<exists>q'. remhead q = Some (x, q') \<and> invar q' \<and> contents q' = xs \<and> cap q' = cap q"
    and remhead_nil: "invar q \<Longrightarrow> contents q = [] \<Longrightarrow> remhead q = None"
begin

lemma add_all_room:
  "invar q \<Longrightarrow> length (contents q) + length xs \<le> cap q \<Longrightarrow>
   \<exists>q'. add_all (addtail mem) q xs = Some q' \<and> invar q' \<and> contents q' = contents q @ xs \<and> cap q' = cap q"
proof (induction xs arbitrary: q)
  case Nil
  then show ?case by simp
next
  case (Cons x xs)
  then obtain q1 where q1: "addtail mem q x = Some (Inr (), q1)" "invar q1"
    "contents q1 = contents q @ [x]" "cap q1 = cap q"
    using addtail_room [of q mem x] by auto
  with Cons.IH [of q1] Cons.prems show ?case by auto
qed

lemma rem_n_prefix:
  "invar q \<Longrightarrow> contents q = xs @ ys \<Longrightarrow>
   \<exists>q'. rem_n remhead (length xs) q = Some (xs, q') \<and> invar q' \<and> contents q' = ys \<and> cap q' = cap q"
proof (induction xs arbitrary: q)
  case Nil
  then show ?case by simp
next
  case (Cons x xs)
  then obtain q1 where "remhead q = Some (x, q1)" "invar q1" "contents q1 = xs @ ys" "cap q1 = cap q"
    using remhead_cons [of q x "xs @ ys"] by auto
  with Cons.IH [of q1] show ?case by auto
qed

lemma fifo_order:
  assumes "invar q" and "contents q = []" and "length xs \<le> cap q"
  shows "\<exists>q1 q2. add_all (addtail mem) q xs = Some q1 \<and> rem_n remhead (length xs) q1 = Some (xs, q2) \<and>
     invar q2 \<and> contents q2 = []"
  using add_all_room [of q xs mem] assms rem_n_prefix [of _ xs "[]"] by fastforce

text \<open>A round-robin turn: the head goes to the tail.\<close>

lemma turn:
  assumes "invar q" and "contents q = x # xs" and "length xs < cap q"
  shows "\<exists>q1 q2. remhead q = Some (x, q1) \<and> addtail mem q1 x = Some (Inr (), q2) \<and> invar q2 \<and>
     contents q2 = xs @ [x] \<and> cap q2 = cap q"
  using remhead_cons [OF assms(1,2)] addtail_room [of _ mem x] assms(3) by metis

end

text \<open>The ring buffer provides the interface; one slot always stays free.\<close>

definition q_cap :: "'a queue \<Rightarrow> nat" where
  "q_cap q = qsize q - 1"

interpretation rq: fifo_queue q_inv q_list q_cap q_addtail q_remhead
proof unfold_locales
  fix q :: "'a queue" and mem x
  assume a: "q_inv q" "length (q_list q) < q_cap q"
  then have "q_count q + 1 < qsize q" by (simp add: q_cap_def)
  with a q_addtail_room [of q mem x] q_put_facts [of q]
  show "\<exists>q'. q_addtail mem q x = Some (Inr (), q') \<and> q_inv q' \<and> q_list q' = q_list q @ [x] \<and>
      q_cap q' = q_cap q"
    by (auto simp: q_cap_def)
next
  fix q :: "'a queue" and x xs
  assume "q_inv q" "q_list q = x # xs"
  with q_remhead_spec [of q]
  show "\<exists>q'. q_remhead q = Some (x, q') \<and> q_inv q' \<and> q_list q' = xs \<and> q_cap q' = q_cap q"
    by (auto simp: q_cap_def)
qed (simp add: q_remhead_empty)

section \<open>Properties\<close>

text \<open>
  \<^verbatim>\<open>q_addtail\<close> appends to the list the ring buffer stands for, growing the buffer when it
  is full, and never aborts; the only failure is \<^verbatim>\<open>ENOMEM\<close>, with the queue unchanged, when
  the buffer is full and \<^verbatim>\<open>kmalloc\<close> fails.
\<close>

theorem q_addtail_refines_append:
  assumes "q_inv q" and "q_room q"
  shows "\<exists>r q'. q_addtail mem q x = Some (r, q') \<and> q_inv q' \<and>
     (r = Inr () \<and> q_list q' = q_list q @ [x] \<and> qsize q \<le> qsize q' \<or>
      r = Inl ENOMEM \<and> q' = q \<and> \<not> mem \<and> length (q_list q) + 1 = qsize q)"
  using q_addtail_spec [OF assms, of mem x] by blast

text \<open>A full ring of two slots that wraps around: adding to it grows it.\<close>

definition sample_queue :: "nat queue" where
  "sample_queue = \<lparr>qsize = 2, nextwrite = 0, nextread = 1, data = [None, Some 7]\<rparr>"

lemma sample_queue_inv: "q_inv sample_queue" and sample_queue_list: "q_list sample_queue = [7]"
  by (simp_all add: q_inv_def q_list_def q_count_def q_slot_def sample_queue_def)

theorem q_addtail_refines_append_witness:
  "q_inv sample_queue \<and> q_room sample_queue \<and>
   (\<exists>r q'. q_addtail True sample_queue 9 = Some (r, q') \<and> q_inv q' \<and> r = Inr () \<and> q_list q' = [7, 9])"
proof -
  have r: "q_room sample_queue" by (simp add: q_room_def sample_queue_def)
  show ?thesis
    using q_addtail_refines_append [OF sample_queue_inv r, of True 9] sample_queue_inv sample_queue_list r
    by auto
qed

text \<open>
  First in, first out: from an empty ring buffer, pointers added up to its capacity
  come back from \<^verbatim>\<open>q_remhead\<close> in the order they were added, whatever the allocator does.
\<close>

theorem queue_fifo:
  assumes "q_inv q" and "q_list q = []" and "length xs < qsize q"
  shows "\<exists>q1 q2. add_all (q_addtail mem) q xs = Some q1 \<and> rem_n q_remhead (length xs) q1 = Some (xs, q2) \<and>
     q_inv q2 \<and> q_list q2 = []"
proof -
  have "length xs \<le> q_cap q" using assms(3) by (simp add: q_cap_def)
  then show ?thesis using rq.fifo_order assms(1,2) by blast
qed

theorem queue_fifo_witness:
  "\<exists>q q1 q2. q_create True True 4 = Some q \<and> add_all (q_addtail False) q [3, 1, 2 :: nat] = Some q1 \<and>
     rem_n q_remhead 3 q1 = Some ([3, 1, 2], q2)"
proof -
  obtain q :: "nat queue" where q: "q_create True True 4 = Some q" by (simp add: q_create_def)
  then have "q_inv q" "q_list q = []" "qsize q = 4" using q_create_spec [of 4 True True q] by auto
  then show ?thesis using queue_fifo [of q "[3, 1, 2]" False] q by (auto simp: numeral_3_eq_3)
qed

end
