(* ===== verification/Ptr_Array.thy ===== *)
theory Ptr_Array
  imports Prelude
begin

text \<open>
  The resizeable pointer array of \<^verbatim>\<open>kern/lib/array.c\<close>, used for the sleepers and zombies
  of the thread system, the vnode table of SFS and the device table of the VFS: the
  struct, every operation, the invariant and the list an array stands for. \<open>mem\<close> is the
  outcome of the one \<^verbatim>\<open>kmalloc\<close> call of \<^verbatim>\<open>array_preallocate\<close>.
\<close>

section \<open>The struct and its operations\<close>

text \<open>\<open>v = None\<close> is the \<^verbatim>\<open>NULL\<close> buffer; a slot that holds \<open>None\<close> was never written.\<close>

record 'a parray =
  num :: nat
  max_slots :: nat
  v :: "'a option list option"

definition array_create :: "bool \<Rightarrow> 'a parray option" where
  "array_create mem = (if mem then Some \<lparr>num = 0, max_slots = 0, v = None\<rparr> else None)"

definition array_getnum :: "'a parray \<Rightarrow> nat" where
  "array_getnum a = num a"

definition array_getguy :: "'a parray \<Rightarrow> nat \<Rightarrow> 'a option" where
  "array_getguy a index = do {
     kassert (num a \<le> max_slots a);
     kassert (index < num a);
     vs \<leftarrow> v a;
     slot \<leftarrow> rd vs index;
     slot
   }"

text \<open>
  The loop that computes the new size, on a C \<^verbatim>\<open>int\<close>: past the largest one it wraps to \<open>-2\<close>,
  which \<open>(newmax + 1) * 2\<close> maps to itself, so for a large enough request it never ends.
\<close>

partial_function (option) array_newmax :: "nat \<Rightarrow> int \<Rightarrow> int option" where
  "array_newmax nguys newmax =
     (if int nguys > newmax then array_newmax nguys (int32 ((newmax + 1) * 2)) else Some newmax)"

text \<open>
  \<^verbatim>\<open>array_preallocate\<close>: a new buffer of \<^verbatim>\<open>newmax\<close> slots, into which the first \<^verbatim>\<open>num\<close> slots are
  copied. The copying loop reads \<^verbatim>\<open>a->v[i]\<close>, so a \<^verbatim>\<open>NULL\<close> buffer is only good when \<^verbatim>\<open>num\<close> is 0.
\<close>

fun array_copy :: "'a option list \<Rightarrow> 'a option list option \<Rightarrow> nat \<Rightarrow> nat \<Rightarrow> 'a option list option" where
  "array_copy newv oldv i 0 = Some newv"
| "array_copy newv oldv i (Suc k) = do {
     vs \<leftarrow> oldv;
     slot \<leftarrow> rd vs i;
     newv' \<leftarrow> wr newv i slot;
     array_copy newv' oldv (i + 1) k
   }"

definition array_preallocate :: "bool \<Rightarrow> 'a parray \<Rightarrow> nat \<Rightarrow> (unit res \<times> 'a parray) option" where
  "array_preallocate mem a nguys = do {
     kassert (num a \<le> max_slots a);
     newmax \<leftarrow> map_option nat (array_newmax nguys (int (max_slots a)));
     if \<not> mem then Some (Inl ENOMEM, a)
     else do {
       newv \<leftarrow> array_copy (kmalloc_ptrs newmax) (v a) 0 (num a);
       Some (Inr (), a\<lparr>max_slots := newmax, v := Some newv\<rparr>)
     }
   }"

definition array_setsize :: "bool \<Rightarrow> 'a parray \<Rightarrow> nat \<Rightarrow> (unit res \<times> 'a parray) option" where
  "array_setsize mem a nguys = do {
     kassert (num a \<le> max_slots a);
     if nguys > max_slots a
     then do {
       (result, a') \<leftarrow> array_preallocate mem a nguys;
       case result of
         Inl e \<Rightarrow> Some (Inl e, a')
       | Inr _ \<Rightarrow> Some (Inr (), a'\<lparr>num := nguys\<rparr>)
     }
     else if nguys = 0 \<and> max_slots a > 16
     then do {
       kassert (v a \<noteq> None);
       Some (Inr (), a\<lparr>v := None, max_slots := 0, num := nguys\<rparr>)
     }
     else Some (Inr (), a\<lparr>num := nguys\<rparr>)
   }"

definition array_setguy :: "'a parray \<Rightarrow> nat \<Rightarrow> 'a \<Rightarrow> 'a parray option" where
  "array_setguy a index ptr = do {
     kassert (num a \<le> max_slots a);
     kassert (index < num a);
     vs \<leftarrow> v a;
     vs' \<leftarrow> wr vs index (Some ptr);
     Some (a\<lparr>v := Some vs'\<rparr>)
   }"

definition array_add :: "bool \<Rightarrow> 'a parray \<Rightarrow> 'a \<Rightarrow> (unit res \<times> 'a parray) option" where
  "array_add mem a guy = do {
     let ix = num a;
     (result, a') \<leftarrow> array_setsize mem a (ix + 1);
     case result of
       Inl e \<Rightarrow> Some (Inl e, a')
     | Inr _ \<Rightarrow> do {
         vs \<leftarrow> v a';
         vs' \<leftarrow> wr vs ix (Some guy);
         Some (Inr (), a'\<lparr>v := Some vs'\<rparr>)
       }
   }"

text \<open>
  \<^verbatim>\<open>memmove(a->v+index, a->v+index+1, nmove * sizeof(void *))\<close>: \<open>nmove\<close> slots move down one
  place and the slots behind them keep what they held.
\<close>

definition memmove_down :: "'a list \<Rightarrow> nat \<Rightarrow> nat \<Rightarrow> 'a list" where
  "memmove_down vs index nmove =
     take index vs @ take nmove (drop (index + 1) vs) @ drop (index + nmove) vs"

definition array_remove :: "'a parray \<Rightarrow> nat \<Rightarrow> 'a parray option" where
  "array_remove a index = do {
     kassert (num a \<le> max_slots a);
     kassert (index < num a);
     let nmove = num a - (index + 1);
     vs \<leftarrow> v a;
     Some (a\<lparr>v := Some (memmove_down vs index nmove), num := num a - 1\<rparr>)
   }"

section \<open>Invariant and abstraction\<close>

text \<open>The slots of an array, and the list the first \<open>num\<close> of them form.\<close>

definition array_slots :: "'a parray \<Rightarrow> 'a option list" where
  "array_slots a = (case v a of None \<Rightarrow> [] | Some vs \<Rightarrow> vs)"

definition array_list :: "'a parray \<Rightarrow> 'a list" where
  "array_list a = map the (take (num a) (array_slots a))"

definition array_inv :: "'a parray \<Rightarrow> bool" where
  "array_inv a \<longleftrightarrow> num a \<le> max_slots a \<and> max_slots a < 2 ^ 30 \<and>
     length (array_slots a) = max_slots a \<and> (max_slots a > 16 \<longrightarrow> v a \<noteq> None) \<and>
     (\<forall>i < num a. array_slots a ! i \<noteq> None)"

lemma array_list_eqI:
  assumes "num a \<le> length (array_slots a)" and "length xs = num a"
    and "\<And>i. i < num a \<Longrightarrow> array_slots a ! i = Some (xs ! i)"
  shows "array_list a = xs"
  using assms by (intro nth_equalityI) (auto simp: array_list_def)

lemma length_array_list: "array_inv a \<Longrightarrow> length (array_list a) = num a"
  by (auto simp: array_list_def array_inv_def)

lemma array_slot_Some: "array_inv a \<Longrightarrow> i < num a \<Longrightarrow> array_slots a ! i = Some (array_list a ! i)"
  by (auto simp: array_list_def array_inv_def)

lemma array_slots_v: "array_inv a \<Longrightarrow> i < max_slots a \<Longrightarrow> v a = Some (array_slots a)"
  by (auto simp: array_inv_def array_slots_def split: option.splits)

lemma array_newmax_bounds:
  "n \<le> 2 ^ 28 \<Longrightarrow> m < 2 ^ 30 \<Longrightarrow>
   \<exists>r. array_newmax n (int m) = Some (int r) \<and> n \<le> r \<and> m \<le> r \<and> r < 2 ^ 30"
proof (induction "n - m" arbitrary: m rule: less_induct)
  case less
  show ?case
  proof (cases "n > m")
    case True
    let ?m = "(m + 1) * 2"
    have lt: "?m < 2 ^ 30" using True less.prems by simp
    then have w: "int32 ((int m + 1) * 2) = int ?m" by (subst int32_id) auto
    have "n - ?m < n - m" using True by simp
    then obtain r where r: "array_newmax n (int ?m) = Some (int r)" "n \<le> r" "?m \<le> r" "r < 2 ^ 30"
      using less.hyps [of ?m] True less.prems lt by auto
    moreover have "array_newmax n (int m) = array_newmax n (int ?m)"
      using True by (subst array_newmax.simps) (simp only: w, simp)
    ultimately show ?thesis by (intro exI [of _ r]) auto
  next
    case False
    with less.prems show ?thesis by (subst array_newmax.simps) auto
  qed
qed

lemma array_copy_spec:
  assumes "i + k \<le> length vs" and "i + k \<le> length newv"
  shows "array_copy newv (Some vs) i k = Some (take i newv @ take k (drop i vs) @ drop (i + k) newv)"
  using assms
proof (induction k arbitrary: newv i)
  case 0
  then show ?case by simp
next
  case (Suc k)
  let ?n = "newv[i := vs ! i]"
  have "array_copy ?n (Some vs) (i + 1) k =
      Some (take (i + 1) ?n @ take k (drop (i + 1) vs) @ drop (i + 1 + k) ?n)"
    using Suc.prems by (intro Suc.IH) auto
  moreover have "take (i + 1) ?n = take i newv @ [vs ! i]"
    using Suc.prems by (simp add: take_Suc_conv_app_nth)
  moreover have "take (Suc k) (drop i vs) = vs ! i # take k (drop (i + 1) vs)"
    using Suc.prems by (simp add: Cons_nth_drop_Suc [symmetric])
  ultimately show ?case using Suc.prems by simp
qed

section \<open>The operations against the list\<close>

lemma array_preallocate_spec:
  assumes inv: "array_inv a" and n: "n \<le> 2 ^ 28"
  shows "\<exists>r a'. array_preallocate mem a n = Some (r, a') \<and> array_inv a' \<and>
     array_list a' = array_list a \<and> num a' = num a \<and> max_slots a \<le> max_slots a' \<and>
     (r = Inr () \<and> mem \<and> n \<le> max_slots a' \<or> r = Inl ENOMEM \<and> \<not> mem \<and> a' = a)"
proof -
  from inv have b: "num a \<le> max_slots a" "max_slots a < 2 ^ 30" "length (array_slots a) = max_slots a"
    by (auto simp: array_inv_def)
  obtain r where r: "array_newmax n (int (max_slots a)) = Some (int r)" "n \<le> r" "max_slots a \<le> r" "r < 2 ^ 30"
    using array_newmax_bounds [OF n b(2)] by auto
  let ?new = "take (num a) (array_slots a) @ drop (num a) (kmalloc_ptrs r)"
  have "array_copy (kmalloc_ptrs r) (v a) 0 (num a) = Some ?new"
  proof (cases "num a")
    case (Suc k)
    then have "v a = Some (array_slots a)" using array_slots_v [OF inv, of 0] b by simp
    then show ?thesis using array_copy_spec [of 0 "num a" "array_slots a" "kmalloc_ptrs r"] b r by simp
  qed simp
  then have run: "array_preallocate True a n = Some (Inr (), a\<lparr>max_slots := r, v := Some ?new\<rparr>)"
    using b r by (simp add: array_preallocate_def)
  have inv': "array_inv (a\<lparr>max_slots := r, v := Some ?new\<rparr>)"
    using inv r b by (auto simp: array_inv_def array_slots_def [of "a\<lparr>max_slots := r, v := _\<rparr>"] nth_append)
  have "array_list (a\<lparr>max_slots := r, v := Some ?new\<rparr>) = array_list a"
    using b r by (simp add: array_list_def array_slots_def [of "a\<lparr>max_slots := r, v := _\<rparr>"])
  with run inv' inv r b show ?thesis
    by (cases mem) (auto simp: array_preallocate_def)
qed

text \<open>\<^verbatim>\<open>array_add\<close> writes one slot past the old end, growing first if that slot is missing.\<close>

definition array_put :: "'a parray \<Rightarrow> 'a \<Rightarrow> 'a parray" where
  "array_put a x = a\<lparr>num := num a + 1, v := Some ((array_slots a)[num a := Some x])\<rparr>"

lemma array_put_sel [simp]:
  "num (array_put a x) = num a + 1" "max_slots (array_put a x) = max_slots a"
  "array_slots (array_put a x) = (array_slots a)[num a := Some x]" "v (array_put a x) \<noteq> None"
  by (simp_all add: array_put_def array_slots_def)

lemma array_put_spec:
  assumes "array_inv a" and "num a < max_slots a"
  shows "array_inv (array_put a x)" and "array_list (array_put a x) = array_list a @ [x]"
  using assms by (auto simp: array_inv_def array_list_def nth_list_update less_Suc_eq take_Suc_conv_app_nth)

lemma array_add_spec:
  assumes inv: "array_inv a" and n: "num a < 2 ^ 28"
  shows "\<exists>r a'. array_add mem a x = Some (r, a') \<and> array_inv a' \<and> max_slots a \<le> max_slots a' \<and>
     (r = Inr () \<and> array_list a' = array_list a @ [x] \<or>
      r = Inl ENOMEM \<and> a' = a \<and> \<not> mem \<and> num a = max_slots a)"
proof (cases "num a < max_slots a")
  case True
  then have "v a = Some (array_slots a)" using array_slots_v [OF inv] by simp
  moreover have "array_setsize mem a (num a + 1) = Some (Inr (), a\<lparr>num := num a + 1\<rparr>)"
    using True by (auto simp: array_setsize_def)
  ultimately have "array_add mem a x =
      Some (Inr (), array_put a x)"
    using True inv by (simp add: array_add_def array_put_def Let_def array_inv_def)
  then show ?thesis using array_put_spec [OF inv True, of x] by auto
next
  case False
  then have full: "num a = max_slots a" using inv by (simp add: array_inv_def)
  obtain r a1 where p: "array_preallocate mem a (num a + 1) = Some (r, a1)" "array_inv a1"
      "array_list a1 = array_list a" "num a1 = num a" "max_slots a \<le> max_slots a1"
      "r = Inr () \<and> mem \<and> num a + 1 \<le> max_slots a1 \<or> r = Inl ENOMEM \<and> \<not> mem \<and> a1 = a"
    using array_preallocate_spec [OF inv, of "num a + 1" mem] n by auto
  show ?thesis
  proof (cases mem)
    case True
    with p have lt: "num a1 < max_slots a1" and r: "r = Inr ()" by auto
    then have "v a1 = Some (array_slots a1)" "length (array_slots a1) = max_slots a1"
      using p(2) array_slots_v [of a1] by (auto simp: array_inv_def)
    then have "array_add mem a x =
        Some (Inr (), array_put a1 x)"
      using p r lt full by (simp add: array_add_def array_put_def Let_def array_setsize_def)
    then show ?thesis using array_put_spec [OF p(2) lt, of x] p by auto
  next
    case False
    with p full show ?thesis by (auto simp: array_add_def array_setsize_def)
  qed
qed

lemma array_getguy_spec: "array_inv a \<Longrightarrow> i < num a \<Longrightarrow> array_getguy a i = Some (array_list a ! i)"
  using array_slots_v [of a i] array_slot_Some [of a i] by (simp add: array_getguy_def array_inv_def)

lemma array_getguy_out: "\<not> i < num a \<Longrightarrow> array_getguy a i = None"
  by (simp add: array_getguy_def)

lemma array_setguy_spec:
  assumes inv: "array_inv a" and i: "i < num a"
  shows "\<exists>a'. array_setguy a i x = Some a' \<and> array_inv a' \<and> array_list a' = (array_list a)[i := x] \<and>
     max_slots a' = max_slots a \<and> num a' = num a"
proof -
  have va: "v a = Some (array_slots a)" "length (array_slots a) = max_slots a" "num a \<le> max_slots a"
    using inv i array_slots_v [OF inv, of i] by (auto simp: array_inv_def)
  let ?a = "a\<lparr>v := Some ((array_slots a)[i := Some x])\<rparr>"
  have s: "array_slots ?a = (array_slots a)[i := Some x]" by (simp add: array_slots_def)
  have "array_setguy a i x = Some ?a" using va i by (simp add: array_setguy_def)
  moreover have "array_inv ?a" using inv i unfolding array_inv_def s by (auto simp: nth_list_update)
  moreover have "array_list ?a = (array_list a)[i := x]"
    unfolding array_list_def s by (simp add: take_update_swap map_update)
  ultimately show ?thesis by auto
qed

text \<open>Removal closes the hole.\<close>

lemma array_remove_spec:
  assumes inv: "array_inv a" and i: "i < num a"
  shows "\<exists>a'. array_remove a i = Some a' \<and> array_inv a' \<and> num a' = num a - 1 \<and>
     max_slots a' = max_slots a \<and>
     array_list a' = take i (array_list a) @ drop (Suc i) (array_list a)"
proof -
  have va: "v a = Some (array_slots a)" "length (array_slots a) = max_slots a" "num a \<le> max_slots a"
    using inv i array_slots_v [OF inv, of i] by (auto simp: array_inv_def)
  let ?vs = "memmove_down (array_slots a) i (num a - (i + 1))"
  let ?a = "a\<lparr>v := Some ?vs, num := num a - 1\<rparr>"
  have s: "array_slots ?a = ?vs" by (simp add: array_slots_def)
  have len: "length ?vs = max_slots a" using va i by (simp add: memmove_down_def)
  have nth: "?vs ! k = array_slots a ! (if k < i then k else Suc k)" if "k < num a - 1" for k
    using that va i by (auto simp: memmove_down_def nth_append)
  have "array_remove a i = Some ?a" using va i by (simp add: array_remove_def)
  moreover have "array_inv ?a" using inv i len nth unfolding array_inv_def s by auto
  moreover have "array_list ?a = take i (array_list a) @ drop (Suc i) (array_list a)"
  proof (rule array_list_eqI)
    fix k assume "k < num ?a"
    then show "array_slots ?a ! k = Some ((take i (array_list a) @ drop (Suc i) (array_list a)) ! k)"
      using nth [of k] i array_slot_Some [OF inv] length_array_list [OF inv] unfolding s
      by (auto simp: nth_append)
  qed (use va i len s length_array_list [OF inv] in auto)
  ultimately show ?thesis by auto
qed

lemma array_setsize_zero:
  assumes "array_inv a"
  shows "\<exists>a'. array_setsize mem a 0 = Some (Inr (), a') \<and> array_inv a' \<and> array_list a' = [] \<and> num a' = 0"
  using assms by (auto simp: array_setsize_def array_inv_def array_list_def array_slots_def)

lemma array_create_spec: "array_create mem = Some a \<Longrightarrow> array_inv a \<and> array_list a = []"
  by (auto simp: array_create_def array_inv_def array_list_def array_slots_def split: if_splits)

section \<open>The interface of the tables built on the array\<close>

text \<open>A table: elements by position, appended at the end, removed from anywhere.\<close>

locale ptr_table =
  fixes invar :: "'t \<Rightarrow> bool"
    and elems :: "'t \<Rightarrow> 'a list"
    and slots :: "'t \<Rightarrow> nat"
    and getguy :: "'t \<Rightarrow> nat \<Rightarrow> 'a option"
    and add :: "bool \<Rightarrow> 't \<Rightarrow> 'a \<Rightarrow> (unit res \<times> 't) option"
    and remove :: "'t \<Rightarrow> nat \<Rightarrow> 't option"
  assumes elems_slots: "invar t \<Longrightarrow> length (elems t) \<le> slots t"
    and getguy_nth: "invar t \<Longrightarrow> i < length (elems t) \<Longrightarrow> getguy t i = Some (elems t ! i)"
    and add_room: "invar t \<Longrightarrow> length (elems t) < slots t \<Longrightarrow> length (elems t) < 2 ^ 28 \<Longrightarrow>
      \<exists>t'. add mem t x = Some (Inr (), t') \<and> invar t' \<and> elems t' = elems t @ [x] \<and> slots t \<le> slots t'"
    and remove_nth: "invar t \<Longrightarrow> i < length (elems t) \<Longrightarrow>
      \<exists>t'. remove t i = Some t' \<and> invar t' \<and> slots t' = slots t \<and>
        elems t' = take i (elems t) @ drop (Suc i) (elems t)"
begin

text \<open>Removing the element just added gives the old table back, as far as its elements go.\<close>

lemma add_remove:
  assumes "invar t" and "length (elems t) < slots t" and "length (elems t) < 2 ^ 28"
  shows "\<exists>t1 t2. add mem t x = Some (Inr (), t1) \<and> remove t1 (length (elems t)) = Some t2 \<and>
     invar t2 \<and> elems t2 = elems t"
proof -
  obtain t1 where t1: "add mem t x = Some (Inr (), t1)" "invar t1" "elems t1 = elems t @ [x]"
    using add_room [OF assms] by blast
  with remove_nth [of t1 "length (elems t)"] show ?thesis by auto
qed

text \<open>A removal keeps every other element, at most one place further down.\<close>

lemma remove_keeps:
  assumes "invar t" and "i < length (elems t)" and "j < length (elems t)" and "i \<noteq> j"
  shows "\<exists>t'. remove t i = Some t' \<and> getguy t' (if j < i then j else j - 1) = Some (elems t ! j)"
proof -
  obtain t' where t': "remove t i = Some t'" "invar t'"
    "elems t' = take i (elems t) @ drop (Suc i) (elems t)"
    using remove_nth [OF assms(1,2)] by blast
  have "getguy t' (if j < i then j else j - 1) = Some (elems t' ! (if j < i then j else j - 1))"
    using t' assms by (intro getguy_nth) auto
  moreover have "elems t' ! (if j < i then j else j - 1) = elems t ! j"
    using t'(3) assms by (auto simp: nth_append)
  ultimately show ?thesis using t'(1) by simp
qed

end

interpretation pa: ptr_table array_inv array_list max_slots array_getguy array_add array_remove
proof unfold_locales
  fix t :: "'a parray" and mem x
  assume a: "array_inv t" "length (array_list t) < max_slots t" "length (array_list t) < 2 ^ 28"
  then show "\<exists>t'. array_add mem t x = Some (Inr (), t') \<and> array_inv t' \<and>
      array_list t' = array_list t @ [x] \<and> max_slots t \<le> max_slots t'"
    using array_add_spec [OF a(1), of mem x] length_array_list [OF a(1)] by auto
next
  fix t :: "'a parray" and i
  assume a: "array_inv t" "i < length (array_list t)"
  then show "\<exists>t'. array_remove t i = Some t' \<and> array_inv t' \<and> max_slots t' = max_slots t \<and>
      array_list t' = take i (array_list t) @ drop (Suc i) (array_list t)"
    using array_remove_spec [OF a(1), of i] length_array_list [OF a(1)] by auto
next
  fix t :: "'a parray"
  assume "array_inv t"
  then show "length (array_list t) \<le> max_slots t"
    using length_array_list [of t] by (simp add: array_inv_def)
next
  fix t :: "'a parray" and i
  assume "array_inv t" "i < length (array_list t)"
  then show "array_getguy t i = Some (array_list t ! i)"
    using array_getguy_spec [of t i] length_array_list [of t] by simp
qed

section \<open>Properties\<close>

text \<open>
  \<^verbatim>\<open>array_remove\<close> at a position in range closes the hole: every other element survives
  in order, the one behind the hole moves down, and the array stays well formed; out of
  range it is an assertion failure.
\<close>

theorem array_remove_refines_delete:
  assumes "array_inv a"
  shows "if i < num a
     then \<exists>a'. array_remove a i = Some a' \<and> array_inv a' \<and>
            array_list a' = take i (array_list a) @ drop (Suc i) (array_list a)
     else array_remove a i = None"
  using array_remove_spec [OF assms, of i] by (auto simp: array_remove_def)

definition sample_array :: "nat parray" where
  "sample_array = \<lparr>num = 3, max_slots = 4, v = Some [Some 5, Some 6, Some 7, None]\<rparr>"

lemma sample_array_facts: "array_inv sample_array" "array_list sample_array = [5, 6, 7]" "num sample_array = 3"
  by (simp_all add: array_inv_def array_list_def array_slots_def sample_array_def less_Suc_eq numeral_3_eq_3)

theorem array_remove_refines_delete_witness:
  "array_inv sample_array \<and>
   (\<exists>a'. array_remove sample_array 1 = Some a' \<and> array_inv a' \<and> array_list a' = [5, 7])"
  using array_remove_refines_delete [OF sample_array_facts(1), of 1] sample_array_facts by simp

text \<open>
  Adding to an array appends to its list and growing it loses nothing; a failing
  \<^verbatim>\<open>kmalloc\<close> is reported as \<^verbatim>\<open>ENOMEM\<close> with the array as it was, and only when every slot is taken.
\<close>

theorem array_add_refines_append:
  assumes "array_inv a" and "num a < 2 ^ 28"
  shows "\<exists>r a'. array_add mem a x = Some (r, a') \<and> array_inv a' \<and>
     (r = Inr () \<and> array_list a' = array_list a @ [x] \<or>
      r = Inl ENOMEM \<and> a' = a \<and> \<not> mem \<and> num a = max_slots a)"
  using array_add_spec [OF assms, of mem x] by blast

theorem array_add_refines_append_witness:
  "\<exists>r a'. array_add False sample_array 8 = Some (r, a') \<and> array_inv a' \<and> r = Inr () \<and>
     array_list a' = [5, 6, 7, 8]"
proof -
  have "num sample_array < 2 ^ 28" "num sample_array \<noteq> max_slots sample_array"
    by (simp_all add: sample_array_def)
  then show ?thesis
    using array_add_refines_append [OF sample_array_facts(1), of False 8] sample_array_facts by auto
qed

end
