(* ===== verification/Bitmap.thy ===== *)
theory Bitmap
  imports Prelude
begin

unbundle bit_operations_syntax

text \<open>
  The bit array of \<^verbatim>\<open>kern/lib/bitmap.c\<close>, which SFS uses as its free block map: the struct,
  every operation on its bytes, and the set of marked indices it stands for.
\<close>

section \<open>The struct and its operations\<close>

type_synonym u8 = "8 word"

record bitmap =
  nbits :: nat
  bv :: "u8 list"

text \<open>\<^verbatim>\<open>DIVROUNDUP\<close> of \<^verbatim>\<open>kern/include/lib.h\<close> on 32-bit unsigned numbers.\<close>

definition DIVROUNDUP :: "nat \<Rightarrow> nat \<Rightarrow> nat" where
  "DIVROUNDUP a b = size32 (a + b - 1) div b"

text \<open>The loop of \<^verbatim>\<open>bitmap_create\<close> that marks the bits behind the last one in use.\<close>

fun mark_over :: "u8 \<Rightarrow> nat \<Rightarrow> nat \<Rightarrow> u8" where
  "mark_over w j 0 = w"
| "mark_over w j (Suc k) = mark_over (w OR push_bit j 1) (j + 1) k"

text \<open>\<open>None\<close> inside the outer \<open>Some\<close> is the \<^verbatim>\<open>NULL\<close> of a failed allocation.\<close>

definition bitmap_create :: "bool \<Rightarrow> bool \<Rightarrow> nat \<Rightarrow> bitmap option option" where
  "bitmap_create mem_struct mem_data n =
     (let words = DIVROUNDUP n 8 in
      if \<not> mem_struct then Some None
      else if \<not> mem_data then Some None
      else let zeroed = replicate words (0 :: u8) in
        if n div 8 < words
        then do {
          let ix = words - 1;
          let overbits = n - ix * 8;
          kassert (n div 8 = words - 1);
          kassert (overbits > 0 \<and> overbits < 8);
          w \<leftarrow> rd zeroed ix;
          vs \<leftarrow> wr zeroed ix (mark_over w overbits (8 - overbits));
          Some (Some \<lparr>nbits = n, bv = vs\<rparr>)
        }
        else Some (Some \<lparr>nbits = n, bv = zeroed\<rparr>))"

definition bitmap_getdata :: "bitmap \<Rightarrow> u8 list" where
  "bitmap_getdata b = bv b"

text \<open>The inner loop of \<^verbatim>\<open>bitmap_alloc\<close>: the first clear bit of one byte, from \<open>offset\<close> on.\<close>

fun clear_bit_from :: "u8 \<Rightarrow> nat \<Rightarrow> nat \<Rightarrow> nat option" where
  "clear_bit_from w offset 0 = None"
| "clear_bit_from w offset (Suc k) =
     (if w AND push_bit offset 1 = 0 then Some offset else clear_bit_from w (offset + 1) k)"

text \<open>The outer loop, over the \<open>k\<close> bytes from \<open>ix\<close> on; falling out of the inner one is \<^verbatim>\<open>assert(0)\<close>.\<close>

fun bitmap_alloc_from :: "bitmap \<Rightarrow> nat \<Rightarrow> nat \<Rightarrow> (nat res \<times> bitmap) option" where
  "bitmap_alloc_from b ix 0 = Some (Inl ENOSPC, b)"
| "bitmap_alloc_from b ix (Suc k) = do {
     w \<leftarrow> rd (bv b) ix;
     if w \<noteq> 0xff
     then do {
       offset \<leftarrow> clear_bit_from w 0 8;
       let b' = b\<lparr>bv := (bv b)[ix := w OR push_bit offset 1]\<rparr>;
       kassert (ix * 8 + offset < nbits b);
       Some (Inr (ix * 8 + offset), b')
     }
     else bitmap_alloc_from b (ix + 1) k
   }"

definition bitmap_alloc :: "bitmap \<Rightarrow> (nat res \<times> bitmap) option" where
  "bitmap_alloc b = bitmap_alloc_from b 0 (DIVROUNDUP (nbits b) 8)"

definition bitmap_translate :: "nat \<Rightarrow> nat \<times> u8" where
  "bitmap_translate bitno = (bitno div 8, push_bit (bitno mod 8) 1)"

definition bitmap_mark :: "bitmap \<Rightarrow> nat \<Rightarrow> bitmap option" where
  "bitmap_mark b index = do {
     kassert (index < nbits b);
     let (ix, mask) = bitmap_translate index;
     w \<leftarrow> rd (bv b) ix;
     kassert (w AND mask = 0);
     Some (b\<lparr>bv := (bv b)[ix := w OR mask]\<rparr>)
   }"

definition bitmap_unmark :: "bitmap \<Rightarrow> nat \<Rightarrow> bitmap option" where
  "bitmap_unmark b index = do {
     kassert (index < nbits b);
     let (ix, mask) = bitmap_translate index;
     w \<leftarrow> rd (bv b) ix;
     kassert (w AND mask \<noteq> 0);
     Some (b\<lparr>bv := (bv b)[ix := w AND NOT mask]\<rparr>)
   }"

text \<open>\<^verbatim>\<open>bitmap_isset\<close> has no range check of its own; the C result is the masked byte.\<close>

definition bitmap_isset :: "bitmap \<Rightarrow> nat \<Rightarrow> bool option" where
  "bitmap_isset b index = do {
     let (ix, mask) = bitmap_translate index;
     w \<leftarrow> rd (bv b) ix;
     Some (w AND mask \<noteq> 0)
   }"

section \<open>Invariant and abstraction\<close>

definition bit_at :: "bitmap \<Rightarrow> nat \<Rightarrow> bool" where
  "bit_at b i = bit (bv b ! (i div 8)) (i mod 8)"

text \<open>The indices marked in use.\<close>

definition bm_used :: "bitmap \<Rightarrow> nat set" where
  "bm_used b = {i. i < nbits b \<and> bit_at b i}"

definition bitmap_inv :: "bitmap \<Rightarrow> bool" where
  "bitmap_inv b \<longleftrightarrow> nbits b < 2 ^ 32 - 8 \<and> length (bv b) = (nbits b + 7) div 8 \<and>
     (\<forall>i < 8 * length (bv b). nbits b \<le> i \<longrightarrow> bit_at b i)"

lemma DIVROUNDUP_8: "n < 2 ^ 32 - 8 \<Longrightarrow> DIVROUNDUP n 8 = (n + 7) div 8"
  by (simp add: DIVROUNDUP_def)

lemma and_mask_iff: "(w :: u8) AND 2 ^ j = 0 \<longleftrightarrow> \<not> bit w j"
  using bit_iff_and_push_bit_not_eq_0 [of w j] by simp

lemma bit_or_mask: "j < 8 \<Longrightarrow> bit ((w :: u8) OR 2 ^ j) i \<longleftrightarrow> bit w i \<or> i = j"
  by (auto simp: bit_simps)

lemma bit_andnot_mask: "j < 8 \<Longrightarrow> bit ((w :: u8) AND NOT (2 ^ j)) i \<longleftrightarrow> bit w i \<and> i \<noteq> j"
  by (auto simp: bit_simps dest: bit_imp_le_length)

lemmas mask_simps = and_mask_iff bit_or_mask bit_andnot_mask

lemma all_bits_set: "(w :: u8) = 0xff \<longleftrightarrow> (\<forall>j < 8. bit w j)"
proof -
  have "(0xff :: u8) = - 1" by simp
  then show ?thesis by (auto simp: bit_eq_iff)
qed

lemma mod_div_8_eq: "(i :: nat) div 8 = j div 8 \<Longrightarrow> i mod 8 = j mod 8 \<Longrightarrow> i = j"
  by (metis div_mult_mod_eq)

lemma bit_at_update:
  assumes "j < 8 * length (bv b)"
  shows "bit_at (b\<lparr>bv := (bv b)[j div 8 := w]\<rparr>) i = (if i div 8 = j div 8 then bit w (i mod 8) else bit_at b i)"
  using assms by (auto simp: bit_at_def nth_list_update)

text \<open>Setting and clearing the bit of an index in range.\<close>

definition bm_set :: "bitmap \<Rightarrow> nat \<Rightarrow> bool \<Rightarrow> bitmap" where
  "bm_set b j val = b\<lparr>bv := (bv b)[j div 8 :=
     if val then bv b ! (j div 8) OR push_bit (j mod 8) 1
     else bv b ! (j div 8) AND NOT (push_bit (j mod 8) 1)]\<rparr>"

lemma bm_set_sel [simp]: "nbits (bm_set b j val) = nbits b" "length (bv (bm_set b j val)) = length (bv b)"
  by (simp_all add: bm_set_def)

lemma bit_at_bm_set:
  assumes "j < 8 * length (bv b)"
  shows "bit_at (bm_set b j val) i = (if i = j then val else bit_at b i)"
  using assms mod_div_8_eq [of i j]
  by (auto simp: bm_set_def bit_at_update mask_simps) (auto simp: bit_at_def)

lemma bm_range: "bitmap_inv b \<Longrightarrow> i < nbits b \<Longrightarrow> i < 8 * length (bv b)"
  by (auto simp: bitmap_inv_def)

lemma bm_set_inv: "bitmap_inv b \<Longrightarrow> j < nbits b \<Longrightarrow> bitmap_inv (bm_set b j val)"
  using bm_range [of b j] by (auto simp: bitmap_inv_def bit_at_bm_set)

lemma bm_used_set:
  assumes "bitmap_inv b" and "j < nbits b"
  shows "bm_used (bm_set b j val) = (if val then insert j (bm_used b) else bm_used b - {j})"
  using bm_range [OF assms] assms by (auto simp: bm_used_def bit_at_bm_set)

section \<open>The operations against the set\<close>

lemma bitmap_mark_spec:
  assumes inv: "bitmap_inv b"
  shows "bitmap_mark b i = (if i < nbits b \<and> i \<notin> bm_used b then Some (bm_set b i True) else None)"
  using bm_range [OF inv, of i]
  by (auto simp: bitmap_mark_def bitmap_translate_def and_mask_iff bm_used_def bit_at_def bm_set_def rd_def)

lemma bitmap_unmark_spec:
  assumes inv: "bitmap_inv b"
  shows "bitmap_unmark b i = (if i \<in> bm_used b then Some (bm_set b i False) else None)"
  using bm_range [OF inv, of i]
  by (auto simp: bitmap_unmark_def bitmap_translate_def and_mask_iff bm_used_def bit_at_def bm_set_def rd_def)

lemma bitmap_isset_spec:
  assumes "bitmap_inv b" and "i < nbits b"
  shows "bitmap_isset b i = Some (i \<in> bm_used b)"
  using bm_range [OF assms] assms(2)
  by (auto simp: bitmap_isset_def bitmap_translate_def and_mask_iff bm_used_def bit_at_def)

lemma clear_bit_from_spec:
  "(case clear_bit_from w off k of
      None \<Rightarrow> (\<forall>j. off \<le> j \<and> j < off + k \<longrightarrow> bit w j)
    | Some r \<Rightarrow> off \<le> r \<and> r < off + k \<and> \<not> bit w r \<and> (\<forall>j. off \<le> j \<and> j < r \<longrightarrow> bit w j))"
proof (induction k arbitrary: off)
  case 0
  then show ?case by auto
next
  case (Suc k)
  show ?case using Suc.IH [of "off + 1"]
    by (auto simp: and_mask_iff split: option.splits) (metis Suc_leI le_neq_implies_less)+
qed

lemma bitmap_alloc_from_spec:
  assumes inv: "bitmap_inv b" and "ix + k = length (bv b)" and "\<forall>i < 8 * ix. bit_at b i"
  shows "bitmap_alloc_from b ix k = Some (Inl ENOSPC, b) \<and> (\<forall>i < 8 * length (bv b). bit_at b i) \<or>
    (\<exists>i. bitmap_alloc_from b ix k = Some (Inr i, bm_set b i True) \<and> i < nbits b \<and> \<not> bit_at b i \<and>
       (\<forall>j < i. bit_at b j))"
  using assms(2,3)
proof (induction k arbitrary: ix)
  case 0
  then show ?case by simp
next
  case (Suc k)
  let ?w = "bv b ! ix"
  have lt: "ix < length (bv b)" using Suc.prems by simp
  show ?case
  proof (cases "?w = 0xff")
    case True
    have "bit_at b i" if "i < 8 * (ix + 1)" for i
    proof (cases "i < 8 * ix")
      case False
      then have "i div 8 = ix" using that by auto
      then show ?thesis using True all_bits_set [of ?w] by (simp add: bit_at_def)
    qed (use Suc.prems in auto)
    then show ?thesis using Suc.IH [of "ix + 1"] Suc.prems(1) True lt by auto
  next
    case False
    then obtain r where r: "clear_bit_from ?w 0 8 = Some r" "r < 8" "\<not> bit ?w r" "\<forall>j < r. bit ?w j"
      using all_bits_set [of ?w] clear_bit_from_spec [where w = ?w and off = 0 and k = 8] by (auto split: option.splits)
    let ?i = "ix * 8 + r"
    have d: "?i div 8 = ix" "?i mod 8 = r" using r by auto
    have nb: "\<not> bit_at b ?i" using r d by (simp add: bit_at_def)
    have "?i < 8 * length (bv b)" using lt r by simp
    then have lt_n: "?i < nbits b" using nb inv unfolding bitmap_inv_def by (meson not_le)
    have low: "bit_at b j" if "j < ?i" for j
    proof (cases "j < 8 * ix")
      case False
      then have dj: "j div 8 = ix" using that r(2) by (intro div_nat_eqI) auto
      then have "j mod 8 < r" using that div_mult_mod_eq [of j 8] by linarith
      then show ?thesis using r dj by (simp add: bit_at_def)
    qed (use Suc.prems in auto)
    have "bitmap_alloc_from b ix (Suc k) = Some (Inr ?i, bm_set b ?i True)"
      using lt False r lt_n d by (simp add: bm_set_def)
    with lt_n nb low show ?thesis by blast
  qed
qed

lemma bitmap_alloc_spec:
  assumes inv: "bitmap_inv b"
  shows "bitmap_alloc b = Some (Inl ENOSPC, b) \<and> bm_used b = {..<nbits b} \<or>
    (\<exists>i. bitmap_alloc b = Some (Inr i, bm_set b i True) \<and> i < nbits b \<and> i \<notin> bm_used b \<and>
       {..<i} \<subseteq> bm_used b)"
proof -
  have "DIVROUNDUP (nbits b) 8 = length (bv b)" using inv by (simp add: bitmap_inv_def DIVROUNDUP_8)
  then have "bitmap_alloc b = bitmap_alloc_from b 0 (length (bv b))" by (simp add: bitmap_alloc_def)
  then show ?thesis
    using bitmap_alloc_from_spec [OF inv, of 0 "length (bv b)"] bm_range [OF inv]
    by (auto simp: bm_used_def)
qed

text \<open>A new bitmap has every index clear and every bit behind the last index set.\<close>

lemma bit_mark_over:
  "j + k \<le> 8 \<Longrightarrow> bit (mark_over w j k) i \<longleftrightarrow> bit w i \<or> (j \<le> i \<and> i < j + k)"
  by (induction k arbitrary: w j) (auto simp: bit_or_mask)

lemma bitmap_create_spec:
  assumes "n < 2 ^ 32 - 8"
  shows "\<exists>b. bitmap_create True True n = Some (Some b) \<and> bitmap_inv b \<and> nbits b = n \<and> bm_used b = {}"
proof (cases "n mod 8 = 0")
  case True
  then have w: "(n + 7) div 8 = n div 8" by (auto elim!: dvdE simp: mod_eq_0_iff_dvd)
  then have "bitmap_create True True n = Some (Some \<lparr>nbits = n, bv = replicate (n div 8) 0\<rparr>)"
    using assms by (simp add: bitmap_create_def DIVROUNDUP_8)
  moreover have "i div 8 < n div 8" if "i < n" for i
    using that True mult_div_mod_eq [of 8 n] by (intro less_mult_imp_div_less) simp
  ultimately show ?thesis using assms w True
    by (auto simp: bitmap_inv_def bm_used_def bit_at_def)
next
  case False
  then have w: "(n + 7) div 8 = Suc (n div 8)"
  proof -
    have "(8 * q + r + 7) div 8 = Suc q" if "1 \<le> r" "r < 8" for q r :: nat
      using that by (intro div_nat_eqI) auto
    from this [of "n mod 8" "n div 8"] False show ?thesis by simp
  qed
  define b where "b = \<lparr>nbits = n, bv = (replicate (Suc (n div 8)) 0)[n div 8 := mark_over 0 (n mod 8) (8 - n mod 8)]\<rparr>"
  have sel: "nbits b = n" "length (bv b) = Suc (n div 8)"
    "bv b ! k = (if k = n div 8 then mark_over 0 (n mod 8) (8 - n mod 8) else 0)" if "k < Suc (n div 8)" for k
    using that by (auto simp: b_def nth_list_update simp del: replicate_Suc)
  note len = sel(1,2) [of 0, simplified]
  have o: "n - n div 8 * 8 = n mod 8" by (simp add: minus_div_mult_eq_mod)
  have "bitmap_create True True n = Some (Some b)"
    using assms False o by (simp add: bitmap_create_def DIVROUNDUP_8 w Let_def b_def del: replicate_Suc)
  moreover have at: "bit_at b i \<longleftrightarrow> n \<le> i" if "i < 8 * Suc (n div 8)" for i
  proof (cases "i div 8 = n div 8")
    case True
    then have "n mod 8 \<le> i mod 8 \<longleftrightarrow> n \<le> i" by (metis div_mult_mod_eq add_le_cancel_left)
    then show ?thesis using True by (simp add: bit_at_def bit_mark_over sel)
  next
    case False
    then have lt: "i div 8 < n div 8" using that less_mult_imp_div_less [of i "Suc (n div 8)" 8] by (simp add: mult.commute)
    then have "i < n" by (meson div_le_mono not_le)
    then show ?thesis using lt by (simp add: bit_at_def sel)
  qed
  moreover have "i < 8 * Suc (n div 8)" if "i < n" for i
    using that dividend_less_times_div [of 8 n] by simp
  ultimately show ?thesis using assms w len by (auto simp: bitmap_inv_def bm_used_def)
qed

section \<open>The interface the block allocator relies on\<close>

text \<open>A finite set of indices with a smallest-free-index allocator.\<close>

locale index_set =
  fixes invar :: "'b \<Rightarrow> bool"
    and limit :: "'b \<Rightarrow> nat"
    and used :: "'b \<Rightarrow> nat set"
    and alloc :: "'b \<Rightarrow> (nat res \<times> 'b) option"
    and unmark :: "'b \<Rightarrow> nat \<Rightarrow> 'b option"
    and isset :: "'b \<Rightarrow> nat \<Rightarrow> bool option"
  assumes used_limit: "invar b \<Longrightarrow> used b \<subseteq> {..<limit b}"
    and alloc_some: "invar b \<Longrightarrow> used b \<noteq> {..<limit b} \<Longrightarrow>
      \<exists>i b'. alloc b = Some (Inr i, b') \<and> invar b' \<and> limit b' = limit b \<and> i < limit b \<and> i \<notin> used b \<and>
        used b' = insert i (used b)"
    and alloc_full: "invar b \<Longrightarrow> used b = {..<limit b} \<Longrightarrow> alloc b = Some (Inl ENOSPC, b)"
    and unmark_used: "invar b \<Longrightarrow> i \<in> used b \<Longrightarrow>
      \<exists>b'. unmark b i = Some b' \<and> invar b' \<and> limit b' = limit b \<and> used b' = used b - {i}"
    and unmark_free: "invar b \<Longrightarrow> i \<notin> used b \<Longrightarrow> unmark b i = None"
    and isset_used: "invar b \<Longrightarrow> i < limit b \<Longrightarrow> isset b i = Some (i \<in> used b)"
begin

text \<open>Allocating and freeing again restores the set; the index was free in between neither time.\<close>

lemma alloc_unmark:
  assumes "invar b" and "alloc b = Some (Inr i, b1)"
  shows "isset b i = Some False \<and> isset b1 i = Some True \<and>
    (\<exists>b2. unmark b1 i = Some b2 \<and> invar b2 \<and> used b2 = used b)"
proof -
  have "used b \<noteq> {..<limit b}" using assms alloc_full by fastforce
  then have i: "invar b1" "limit b1 = limit b" "i < limit b" "i \<notin> used b" "used b1 = insert i (used b)"
    using alloc_some [OF assms(1)] assms(2) by auto
  then show ?thesis using assms(1) isset_used unmark_used [of b1 i] by auto
qed

lemma alloc_card:
  assumes "invar b" and "alloc b = Some (Inr i, b1)"
  shows "card (used b1) = Suc (card (used b)) \<and> card (used b1) \<le> limit b"
proof -
  have "used b \<noteq> {..<limit b}" using assms alloc_full by fastforce
  then have i: "invar b1" "limit b1 = limit b" "i < limit b" "i \<notin> used b" "used b1 = insert i (used b)"
    using alloc_some [OF assms(1)] assms(2) by auto
  have "finite (used b)" using used_limit [OF assms(1)] finite_subset by blast
  moreover have "card (used b1) \<le> card {..<limit b}"
    using used_limit [OF i(1)] i(2) by (intro card_mono) auto
  ultimately show ?thesis using i by simp
qed

lemma alloc_iff_room: "invar b \<Longrightarrow> (\<exists>i b'. alloc b = Some (Inr i, b')) \<longleftrightarrow> used b \<noteq> {..<limit b}"
  using alloc_some alloc_full by fastforce

end

interpretation bm: index_set bitmap_inv nbits bm_used bitmap_alloc bitmap_unmark bitmap_isset
proof unfold_locales
  fix b :: bitmap
  assume inv: "bitmap_inv b" and ne: "bm_used b \<noteq> {..<nbits b}"
  then obtain i where "bitmap_alloc b = Some (Inr i, bm_set b i True)" "i < nbits b" "i \<notin> bm_used b"
    using bitmap_alloc_spec by blast
  then show "\<exists>i b'. bitmap_alloc b = Some (Inr i, b') \<and> bitmap_inv b' \<and> nbits b' = nbits b \<and>
      i < nbits b \<and> i \<notin> bm_used b \<and> bm_used b' = insert i (bm_used b)"
    using bm_set_inv [OF inv] bm_used_set [OF inv] by auto
next
  fix b i
  assume inv: "bitmap_inv b" and i: "i \<in> bm_used b"
  then have "i < nbits b" by (simp add: bm_used_def)
  then show "\<exists>b'. bitmap_unmark b i = Some b' \<and> bitmap_inv b' \<and> nbits b' = nbits b \<and> bm_used b' = bm_used b - {i}"
    using i bitmap_unmark_spec [OF inv] bm_set_inv [OF inv] bm_used_set [OF inv] by auto
next
  fix b
  assume inv: "bitmap_inv b" and "bm_used b = {..<nbits b}"
  then show "bitmap_alloc b = Some (Inl ENOSPC, b)" using bitmap_alloc_spec [OF inv] by auto
qed (auto simp: bm_used_def bitmap_unmark_spec bitmap_isset_spec)

section \<open>Properties\<close>

text \<open>
  C36: \<^verbatim>\<open>bitmap_alloc\<close> marks the smallest free index and nothing else, and reports \<^verbatim>\<open>ENOSPC\<close>
  exactly when every index is in use; its assertions never fail.
\<close>

theorem bitmap_alloc_least_free:
  assumes "bitmap_inv b"
  shows "bitmap_alloc b = Some (Inl ENOSPC, b) \<and> bm_used b = {..<nbits b} \<or>
    (\<exists>i b'. bitmap_alloc b = Some (Inr i, b') \<and> bitmap_inv b' \<and> i < nbits b \<and> i \<notin> bm_used b \<and>
       {..<i} \<subseteq> bm_used b \<and> bm_used b' = insert i (bm_used b))"
  using bitmap_alloc_spec [OF assms] bm_set_inv [OF assms] bm_used_set [OF assms] by auto

text \<open>Sixteen indices, the first nine in use.\<close>

definition sample_bitmap :: bitmap where
  "sample_bitmap = \<lparr>nbits = 16, bv = [0xff, 0x01]\<rparr>"

lemma sample_bitmap_inv: "bitmap_inv sample_bitmap"
  by (simp add: bitmap_inv_def sample_bitmap_def)

theorem bitmap_alloc_least_free_witness:
  "bitmap_inv sample_bitmap \<and> (\<exists>b'. bitmap_alloc sample_bitmap = Some (Inr 9, b') \<and>
     bm_used b' = insert 9 (bm_used sample_bitmap))"
proof -
  have "bitmap_alloc sample_bitmap = Some (Inr 9, \<lparr>nbits = 16, bv = [0xff, 0x03]\<rparr>)"
  proof -
    have c: "clear_bit_from 1 0 8 = Some 1" by (simp add: eval_nat_numeral)
    have "DIVROUNDUP 16 8 = Suc (Suc 0)" by (simp add: DIVROUNDUP_def)
    then show ?thesis by (simp add: bitmap_alloc_def sample_bitmap_def c)
  qed
  then show ?thesis using bitmap_alloc_least_free [OF sample_bitmap_inv] sample_bitmap_inv by auto
qed

end
