(* ===== verification/Cpu.thy ===== *)
theory Cpu
  imports Prelude
begin

unbundle bit_operations_syntax

text \<open>
  Interrupt priority levels, \<^verbatim>\<open>kern/arch/mips/mips/spl.c\<close>: the processor's status register
  (coprocessor 0, register 12), the kernel's idea of the current level, and the functions
  that change both. The other components extend this record with their own state.
\<close>

section \<open>State and operations\<close>

record cpu =
  status :: "32 word"
  curspl :: int

text \<open>\<^verbatim>\<open>CST_IEc\<close>, the interrupt enable bit, and \<^verbatim>\<open>SPL_HIGH\<close>.\<close>

definition CST_IEc :: "32 word" where
  "CST_IEc = 1"

definition SPL_HIGH :: int where
  "SPL_HIGH = 15"

definition interrupts_on :: "'z cpu_scheme \<Rightarrow> 'z cpu_scheme" where
  "interrupts_on c = c\<lparr>status := status c OR CST_IEc\<rparr>"

definition interrupts_off :: "'z cpu_scheme \<Rightarrow> 'z cpu_scheme" where
  "interrupts_off c = c\<lparr>status := status c AND NOT CST_IEc\<rparr>"

text \<open>\<^verbatim>\<open>interrupts_onoff\<close> opens a window for pending interrupts, which run in between.\<close>

definition interrupts_onoff :: "('z cpu_scheme \<Rightarrow> 'z cpu_scheme) \<Rightarrow> 'z cpu_scheme \<Rightarrow> 'z cpu_scheme" where
  "interrupts_onoff pending c =
     (let x = status c;
          c1 = pending (c\<lparr>status := x OR CST_IEc\<rparr>)
      in c1\<lparr>status := x AND NOT CST_IEc\<rparr>)"

definition splx :: "int \<Rightarrow> 'z cpu_scheme \<Rightarrow> int \<times> 'z cpu_scheme" where
  "splx newspl c =
     (let c1 = (if newspl > 0 then interrupts_off c
                else if newspl = 0 then interrupts_on c
                else c)
      in (curspl c1, c1\<lparr>curspl := newspl\<rparr>))"

definition splhigh :: "'z cpu_scheme \<Rightarrow> int \<times> 'z cpu_scheme" where
  "splhigh c = splx SPL_HIGH c"

definition spl0 :: "'z cpu_scheme \<Rightarrow> int \<times> 'z cpu_scheme" where
  "spl0 c = splx 0 c"

text \<open>\<^verbatim>\<open>cpu_idle\<close>: only with interrupts off; the window lets the pending ones in.\<close>

definition cpu_idle :: "('z cpu_scheme \<Rightarrow> 'z cpu_scheme) \<Rightarrow> 'z cpu_scheme \<Rightarrow> 'z cpu_scheme option" where
  "cpu_idle pending c = do {
     kassert (curspl c > 0);
     Some (interrupts_onoff pending c)
   }"

section \<open>Lemmas\<close>

text \<open>The register and the level agree: interrupts are enabled exactly at level 0.\<close>

definition spl_inv :: "'z cpu_scheme \<Rightarrow> bool" where
  "spl_inv c \<longleftrightarrow> 0 \<le> curspl c \<and> (bit (status c) 0 \<longleftrightarrow> curspl c = 0)"

lemma SPL_HIGH_pos [simp]: "0 < SPL_HIGH" "SPL_HIGH \<noteq> 0" "\<not> SPL_HIGH \<le> 0"
  by (simp_all add: SPL_HIGH_def)

lemma splx_sel [simp]: "fst (splx l c) = curspl c" "curspl (snd (splx l c)) = l"
  by (simp_all add: splx_def interrupts_on_def interrupts_off_def Let_def)

lemma splhigh_sel [simp]: "fst (splhigh c) = curspl c" "curspl (snd (splhigh c)) = SPL_HIGH"
  by (simp_all add: splhigh_def)

lemma status_splx: "status (snd (splx l c)) =
    (if l > 0 then status c AND NOT CST_IEc else if l = 0 then status c OR CST_IEc else status c)"
  by (simp add: splx_def interrupts_on_def interrupts_off_def Let_def)

lemma more_splx [simp]: "cpu.more (snd (splx l c)) = cpu.more c"
  by (simp add: splx_def interrupts_on_def interrupts_off_def Let_def)

lemma more_splhigh [simp]: "cpu.more (snd (splhigh c)) = cpu.more c"
  by (simp add: splhigh_def)

lemma splx_inv: "0 \<le> l \<Longrightarrow> spl_inv (snd (splx l c))"
  by (auto simp: spl_inv_def status_splx CST_IEc_def bit_simps)

lemma splhigh_inv: "spl_inv (snd (splhigh c))"
  by (simp add: splhigh_def splx_inv less_imp_le)

text \<open>Raising the level and putting the old one back changes nothing.\<close>

lemma bit_on_off: "bit (s :: 32 word) 0 \<Longrightarrow> (s AND NOT 1) OR 1 = s"
  by (rule bit_eqI) (auto simp: bit_simps)

lemma bit_off_off: "\<not> bit (s :: 32 word) 0 \<Longrightarrow> (s AND NOT 1) AND NOT 1 = s"
  by (rule bit_eqI) (auto simp: bit_simps intro: gr0I)

lemma spl_pair:
  assumes "spl_inv c"
  shows "snd (splx (fst (splhigh c)) (snd (splhigh c))) = c"
proof -
  let ?d = "snd (splx (fst (splhigh c)) (snd (splhigh c)))"
  have "status ?d = status c"
    using assms bit_on_off [of "status c"] bit_off_off [of "status c"]
    by (auto simp: spl_inv_def status_splx splhigh_def CST_IEc_def)
  then show ?thesis by (intro cpu.equality) auto
qed

end
