(* ===== verification/Dumbvm.thy ===== *)
theory Dumbvm
  imports Cpu
begin

unbundle bit_operations_syntax

text \<open>
  Physical memory and address spaces: \<^verbatim>\<open>kern/arch/mips/mips/ram.c\<close> and
  \<^verbatim>\<open>kern/arch/mips/mips/dumbvm.c\<close>. Addresses are natural numbers; every sum the C code
  computes in 32 bits is reduced by \<^verbatim>\<open>size32\<close> where it can exceed them. The machine record
  extends the processor state with the TLB, the allocator's two bounds and the contents of
  physical memory.
\<close>

section \<open>State\<close>

definition PAGE_SIZE :: nat where "PAGE_SIZE = 4096"
definition PAGE_FRAME :: nat where "PAGE_FRAME = 0xfffff000"
definition MIPS_KSEG0 :: nat where "MIPS_KSEG0 = 0x80000000"
definition USERSTACK :: nat where "USERSTACK = MIPS_KSEG0"
definition DUMBVM_STACKPAGES :: nat where "DUMBVM_STACKPAGES = 12"
definition NUM_TLB :: nat where "NUM_TLB = 64"
definition TLBLO_DIRTY :: nat where "TLBLO_DIRTY = 0x400"
definition TLBLO_VALID :: nat where "TLBLO_VALID = 0x200"

definition PADDR_TO_KVADDR :: "nat \<Rightarrow> nat" where
  "PADDR_TO_KVADDR paddr = paddr + MIPS_KSEG0"

definition TLBHI_INVALID :: "nat \<Rightarrow> nat" where
  "TLBHI_INVALID entryno = (0x80000 + entryno) * 4096"

record machine = cpu +
  tlb :: "(nat \<times> nat) list"
  firstpaddr :: nat
  lastpaddr :: nat
  phys :: "nat \<Rightarrow> 8 word"

record addrspace =
  as_vbase1 :: nat
  as_pbase1 :: nat
  as_npages1 :: nat
  as_vbase2 :: nat
  as_pbase2 :: nat
  as_npages2 :: nat
  as_stackpbase :: nat

section \<open>Physical pages\<close>

text \<open>\<^verbatim>\<open>ram_bootstrap\<close>: \<open>ramsize\<close> is what \<^verbatim>\<open>mips_ramsize\<close> reports, \<open>firstfree\<close> what \<^verbatim>\<open>start.S\<close> saved.\<close>

definition ram_bootstrap :: "nat \<Rightarrow> nat \<Rightarrow> machine \<Rightarrow> machine" where
  "ram_bootstrap ramsize firstfree m =
     (let ramsize' = (if ramsize > 508 * 1024 * 1024 then 508 * 1024 * 1024 else ramsize)
      in m\<lparr>lastpaddr := ramsize', firstpaddr := firstfree - MIPS_KSEG0\<rparr>)"

definition ram_stealmem :: "nat \<Rightarrow> machine \<Rightarrow> nat \<times> machine" where
  "ram_stealmem npages m =
     (let sz = size32 (npages * PAGE_SIZE)
      in if size32 (firstpaddr m + sz) > lastpaddr m then (0, m)
         else (firstpaddr m, m\<lparr>firstpaddr := size32 (firstpaddr m + sz)\<rparr>))"

definition ram_getsize :: "machine \<Rightarrow> (nat \<times> nat) \<times> machine" where
  "ram_getsize m = ((firstpaddr m, lastpaddr m), m\<lparr>firstpaddr := 0, lastpaddr := 0\<rparr>)"

definition getppages :: "nat \<Rightarrow> machine \<Rightarrow> nat \<times> machine" where
  "getppages npages m =
     (let (spl, m1) = splhigh m;
          (addr, m2) = ram_stealmem npages m1;
          (_, m3) = splx spl m2
      in (addr, m3))"

definition alloc_kpages :: "nat \<Rightarrow> machine \<Rightarrow> nat \<times> machine" where
  "alloc_kpages npages m =
     (let (pa, m') = getppages npages m
      in if pa = 0 then (0, m') else (PADDR_TO_KVADDR pa, m'))"

text \<open>\<^verbatim>\<open>free_kpages\<close> does nothing: pages never come back.\<close>

definition free_kpages :: "nat \<Rightarrow> machine \<Rightarrow> machine" where
  "free_kpages addr m = m"

section \<open>Faults\<close>

datatype vm_faulttype = VM_FAULT_READ | VM_FAULT_WRITE | VM_FAULT_READONLY | VM_FAULT_OTHER

text \<open>The address arithmetic of \<^verbatim>\<open>vm_fault\<close>: the region the page is in, if any.\<close>

definition vm_translate :: "addrspace \<Rightarrow> nat \<Rightarrow> nat option" where
  "vm_translate as faultaddress =
     (let vbase1 = as_vbase1 as;
          vtop1 = size32 (vbase1 + as_npages1 as * PAGE_SIZE);
          vbase2 = as_vbase2 as;
          vtop2 = size32 (vbase2 + as_npages2 as * PAGE_SIZE);
          stackbase = USERSTACK - DUMBVM_STACKPAGES * PAGE_SIZE;
          stacktop = USERSTACK
      in if faultaddress \<ge> vbase1 \<and> faultaddress < vtop1
         then Some (size32 ((faultaddress - vbase1) + as_pbase1 as))
         else if faultaddress \<ge> vbase2 \<and> faultaddress < vtop2
         then Some (size32 ((faultaddress - vbase2) + as_pbase2 as))
         else if faultaddress \<ge> stackbase \<and> faultaddress < stacktop
         then Some (size32 ((faultaddress - stackbase) + as_stackpbase as))
         else None)"

text \<open>The loop over the TLB: the first entry that is not valid takes the translation.\<close>

fun tlb_insert :: "(nat \<times> nat) list \<Rightarrow> nat \<Rightarrow> nat \<Rightarrow> (nat \<times> nat) list option" where
  "tlb_insert [] ehi elo = None"
| "tlb_insert ((h, l) # es) ehi elo =
     (if l AND TLBLO_VALID \<noteq> 0 then map_option ((#) (h, l)) (tlb_insert es ehi elo)
      else Some ((ehi, elo) # es))"

text \<open>The assertions of \<^verbatim>\<open>vm_fault\<close> on the address space.\<close>

definition as_set_up :: "addrspace \<Rightarrow> bool" where
  "as_set_up as \<longleftrightarrow>
     as_vbase1 as \<noteq> 0 \<and> as_pbase1 as \<noteq> 0 \<and> as_npages1 as \<noteq> 0 \<and>
     as_vbase2 as \<noteq> 0 \<and> as_pbase2 as \<noteq> 0 \<and> as_npages2 as \<noteq> 0 \<and> as_stackpbase as \<noteq> 0 \<and>
     as_vbase1 as AND PAGE_FRAME = as_vbase1 as \<and> as_pbase1 as AND PAGE_FRAME = as_pbase1 as \<and>
     as_vbase2 as AND PAGE_FRAME = as_vbase2 as \<and> as_pbase2 as AND PAGE_FRAME = as_pbase2 as \<and>
     as_stackpbase as AND PAGE_FRAME = as_stackpbase as"

text \<open>
  \<^verbatim>\<open>vm_fault\<close>; the third argument is \<^verbatim>\<open>curthread->t_vmspace\<close>. The branch for a missing address
  space returns without \<^verbatim>\<open>splx\<close>, as the code does.
\<close>

definition vm_fault :: "vm_faulttype \<Rightarrow> nat \<Rightarrow> addrspace option \<Rightarrow> machine \<Rightarrow> (unit res \<times> machine) option" where
  "vm_fault faulttype vaddr vmspace m =
     (let (spl, m1) = splhigh m;
          faultaddress = vaddr AND PAGE_FRAME
      in case faulttype of
           VM_FAULT_READONLY \<Rightarrow> None
         | VM_FAULT_OTHER \<Rightarrow> Some (Inl EINVAL, snd (splx spl m1))
         | _ \<Rightarrow>
           (case vmspace of
              None \<Rightarrow> Some (Inl EFAULT, m1)
            | Some as \<Rightarrow> do {
                kassert (as_set_up as);
                (case vm_translate as faultaddress of
                   None \<Rightarrow> Some (Inl EFAULT, snd (splx spl m1))
                 | Some paddr \<Rightarrow> do {
                     kassert (paddr AND PAGE_FRAME = paddr);
                     (case tlb_insert (tlb m1) faultaddress (paddr OR TLBLO_DIRTY OR TLBLO_VALID) of
                        Some t \<Rightarrow> Some (Inr (), snd (splx spl (m1\<lparr>tlb := t\<rparr>)))
                      | None \<Rightarrow> Some (Inl EFAULT, snd (splx spl m1)))
                   })
              }))"

section \<open>Address spaces\<close>

definition as_create :: "bool \<Rightarrow> addrspace option" where
  "as_create mem = (if \<not> mem then None
     else Some \<lparr>as_vbase1 = 0, as_pbase1 = 0, as_npages1 = 0, as_vbase2 = 0, as_pbase2 = 0,
                as_npages2 = 0, as_stackpbase = 0\<rparr>)"

definition as_activate :: "machine \<Rightarrow> machine" where
  "as_activate m =
     (let (spl, m1) = splhigh m;
          m2 = m1\<lparr>tlb := map (\<lambda>i. (TLBHI_INVALID i, 0)) [0..<NUM_TLB]\<rparr>
      in snd (splx spl m2))"

definition as_define_region :: "addrspace \<Rightarrow> nat \<Rightarrow> nat \<Rightarrow> unit res \<times> addrspace" where
  "as_define_region as vaddr sz =
     (let vaddr' = vaddr AND PAGE_FRAME;
          sz' = size32 (sz + PAGE_SIZE - 1) AND PAGE_FRAME;
          npages = sz' div PAGE_SIZE
      in if as_vbase1 as = 0 then (Inr (), as\<lparr>as_vbase1 := vaddr', as_npages1 := npages\<rparr>)
         else if as_vbase2 as = 0 then (Inr (), as\<lparr>as_vbase2 := vaddr', as_npages2 := npages\<rparr>)
         else (Inl EUNIMP, as))"

definition as_prepare_load :: "addrspace \<Rightarrow> machine \<Rightarrow> (unit res \<times> addrspace \<times> machine) option" where
  "as_prepare_load as m = do {
     kassert (as_pbase1 as = 0);
     kassert (as_pbase2 as = 0);
     kassert (as_stackpbase as = 0);
     let (pa1, m1) = getppages (as_npages1 as) m;
     let as1 = as\<lparr>as_pbase1 := pa1\<rparr>;
     if pa1 = 0 then Some (Inl ENOMEM, as1, m1)
     else do {
       let (pa2, m2) = getppages (as_npages2 as) m1;
       let as2 = as1\<lparr>as_pbase2 := pa2\<rparr>;
       if pa2 = 0 then Some (Inl ENOMEM, as2, m2)
       else do {
         let (pa3, m3) = getppages DUMBVM_STACKPAGES m2;
         let as3 = as2\<lparr>as_stackpbase := pa3\<rparr>;
         if pa3 = 0 then Some (Inl ENOMEM, as3, m3) else Some (Inr (), as3, m3)
       }
     }
   }"

definition as_complete_load :: "addrspace \<Rightarrow> unit res" where
  "as_complete_load as = Inr ()"

definition as_define_stack :: "addrspace \<Rightarrow> nat res option" where
  "as_define_stack as = do {
     kassert (as_stackpbase as \<noteq> 0);
     Some (Inr USERSTACK)
   }"

text \<open>\<^verbatim>\<open>memmove\<close> between physical pages (through their kernel addresses).\<close>

definition move_phys :: "nat \<Rightarrow> nat \<Rightarrow> nat \<Rightarrow> machine \<Rightarrow> machine" where
  "move_phys dst src n m =
     m\<lparr>phys := (\<lambda>a. if dst \<le> a \<and> a < dst + n then phys m (src + (a - dst)) else phys m a)\<rparr>"

definition as_copy :: "bool \<Rightarrow> addrspace \<Rightarrow> machine \<Rightarrow> (addrspace res \<times> machine) option" where
  "as_copy mem old m =
     (case as_create mem of
        None \<Rightarrow> Some (Inl ENOMEM, m)
      | Some new0 \<Rightarrow> do {
          let new1 = new0\<lparr>as_vbase1 := as_vbase1 old, as_npages1 := as_npages1 old,
                          as_vbase2 := as_vbase2 old, as_npages2 := as_npages2 old\<rparr>;
          (r, new, m1) \<leftarrow> as_prepare_load new1 m;
          (case r of
             Inl _ \<Rightarrow> Some (Inl ENOMEM, m1)
           | Inr _ \<Rightarrow> do {
               kassert (as_pbase1 new \<noteq> 0);
               kassert (as_pbase2 new \<noteq> 0);
               kassert (as_stackpbase new \<noteq> 0);
               let m2 = move_phys (as_pbase1 new) (as_pbase1 old) (as_npages1 old * PAGE_SIZE) m1;
               let m3 = move_phys (as_pbase2 new) (as_pbase2 old) (as_npages2 old * PAGE_SIZE) m2;
               let m4 = move_phys (as_stackpbase new) (as_stackpbase old) (DUMBVM_STACKPAGES * PAGE_SIZE) m3;
               Some (Inr new, m4)
             })
        })"

section \<open>Lemmas on pages\<close>

lemmas page_consts = PAGE_SIZE_def PAGE_FRAME_def MIPS_KSEG0_def USERSTACK_def DUMBVM_STACKPAGES_def

lemma and_page_frame: "x < 2 ^ 32 \<Longrightarrow> x AND PAGE_FRAME = x div 4096 * 4096"
proof -
  assume x: "x < 2 ^ 32"
  have pf: "PAGE_FRAME = push_bit 12 (mask 20)" by (simp add: PAGE_FRAME_def mask_eq_exp_minus_1)
  have frame: "bit PAGE_FRAME n \<longleftrightarrow> 12 \<le> n \<and> n < 32" for n
    unfolding pf bit_push_bit_iff bit_mask_iff by auto
  have "take_bit 32 x = x" using x by (simp add: take_bit_nat_eq_self)
  then have small: "bit x n \<Longrightarrow> n < 32" for n by (metis bit_take_bit_iff)
  have "x AND PAGE_FRAME = push_bit 12 (drop_bit 12 x)"
    by (rule bit_eqI) (auto simp: bit_and_iff bit_push_bit_iff bit_drop_bit_eq frame dest: small)
  then show ?thesis by (simp add: push_bit_eq_mult drop_bit_eq_div)
qed

lemma aligned_iff: "x < 2 ^ 32 \<Longrightarrow> x AND PAGE_FRAME = x \<longleftrightarrow> 4096 dvd x"
  by (auto simp: and_page_frame dvd_eq_mod_eq_0 minus_mod_eq_div_mult [symmetric])

text \<open>
  What \<^verbatim>\<open>ram_bootstrap\<close> establishes on a machine whose kernel ends on a page boundary, and
  every allocation keeps.
\<close>

definition ram_inv :: "'z machine_scheme \<Rightarrow> bool" where
  "ram_inv m \<longleftrightarrow> 0 < firstpaddr m \<and> 4096 dvd firstpaddr m \<and> firstpaddr m \<le> lastpaddr m \<and>
     lastpaddr m \<le> 508 * 1024 * 1024 \<and> spl_inv m"

lemma spl_pair_machine:
  "spl_inv m \<Longrightarrow> snd (splx (curspl m) (snd (splhigh m))) = m"
  using spl_pair [of m] by simp

lemma machine_splhigh [simp]:
  "tlb (snd (splhigh m)) = tlb m" "firstpaddr (snd (splhigh m)) = firstpaddr m"
  "lastpaddr (snd (splhigh m)) = lastpaddr m" "phys (snd (splhigh m)) = phys m"
  by (simp_all add: splhigh_def splx_def interrupts_off_def Let_def)

lemma splx_firstpaddr:
  "snd (splx l (m\<lparr>firstpaddr := a\<rparr>)) = (snd (splx l m))\<lparr>firstpaddr := a\<rparr>"
  by (simp add: splx_def interrupts_on_def interrupts_off_def Let_def)

lemma splx_tlb: "snd (splx l (m\<lparr>tlb := t\<rparr>)) = (snd (splx l m))\<lparr>tlb := t\<rparr>"
  by (simp add: splx_def interrupts_on_def interrupts_off_def Let_def)

text \<open>
  A request that fits a machine of at most 512 megabytes is served from the lower end of the
  free memory, or refused when it does not fit.
\<close>

lemma getppages_spec:
  assumes "ram_inv m" and "n \<le> 2 ^ 17"
  shows "getppages n m =
    (if firstpaddr m + n * PAGE_SIZE \<le> lastpaddr m
     then (firstpaddr m, m\<lparr>firstpaddr := firstpaddr m + n * PAGE_SIZE\<rparr>) else (0, m))"
proof -
  have s: "size32 (n * PAGE_SIZE) = n * PAGE_SIZE" "size32 (firstpaddr m + n * PAGE_SIZE) = firstpaddr m + n * PAGE_SIZE"
    using assms by (auto simp: ram_inv_def PAGE_SIZE_def intro!: size32_id)
  have spl: "spl_inv m" using assms by (simp add: ram_inv_def)
  show ?thesis
    using spl_pair_machine [OF spl]
    by (auto simp: getppages_def ram_stealmem_def s case_prod_beta Let_def splx_firstpaddr)
qed

lemma ram_inv_alloc:
  "ram_inv m \<Longrightarrow> firstpaddr m + n * PAGE_SIZE \<le> lastpaddr m \<Longrightarrow>
   ram_inv (m\<lparr>firstpaddr := firstpaddr m + n * PAGE_SIZE\<rparr>)"
  by (auto simp: ram_inv_def PAGE_SIZE_def spl_inv_def)

section \<open>Lemmas on address spaces\<close>

lemma as_prepare_load_spec:
  assumes inv: "ram_inv m" and n: "as_npages1 as \<le> 2 ^ 17" "as_npages2 as \<le> 2 ^ 17"
    and z: "as_pbase1 as = 0" "as_pbase2 as = 0" "as_stackpbase as = 0"
  shows "\<exists>r as' m'. as_prepare_load as m = Some (r, as', m') \<and>
    (r = Inl ENOMEM \<and>
     lastpaddr m < firstpaddr m + as_npages1 as * PAGE_SIZE + as_npages2 as * PAGE_SIZE + DUMBVM_STACKPAGES * PAGE_SIZE \<or>
     r = Inr () \<and>
     as' = as\<lparr>as_pbase1 := firstpaddr m, as_pbase2 := firstpaddr m + as_npages1 as * PAGE_SIZE,
              as_stackpbase := firstpaddr m + as_npages1 as * PAGE_SIZE + as_npages2 as * PAGE_SIZE\<rparr> \<and>
     m' = m\<lparr>firstpaddr := firstpaddr m + as_npages1 as * PAGE_SIZE + as_npages2 as * PAGE_SIZE +
                          DUMBVM_STACKPAGES * PAGE_SIZE\<rparr> \<and> ram_inv m')"
proof -
  let ?f = "firstpaddr m" and ?a = "as_npages1 as * PAGE_SIZE" and ?b = "as_npages2 as * PAGE_SIZE"
  let ?m1 = "m\<lparr>firstpaddr := ?f + ?a\<rparr>" and ?m2 = "m\<lparr>firstpaddr := ?f + ?a + ?b\<rparr>"
  have d: "DUMBVM_STACKPAGES \<le> 2 ^ 17" by (simp add: DUMBVM_STACKPAGES_def)
  show ?thesis
  proof (cases "?f + ?a + ?b + DUMBVM_STACKPAGES * PAGE_SIZE \<le> lastpaddr m")
    case True
    have i1: "ram_inv ?m1" using ram_inv_alloc [OF inv, of "as_npages1 as"] True by simp
    have i2: "ram_inv ?m2" using ram_inv_alloc [OF i1, of "as_npages2 as"] True by simp
    have i3: "ram_inv (m\<lparr>firstpaddr := ?f + ?a + ?b + DUMBVM_STACKPAGES * PAGE_SIZE\<rparr>)"
      using ram_inv_alloc [OF i2, of DUMBVM_STACKPAGES] True by simp
    show ?thesis
      using getppages_spec [OF inv n(1)] getppages_spec [OF i1 n(2)] getppages_spec [OF i2 d] True z inv i3
      by (simp add: as_prepare_load_def ram_inv_def)
  next
    case False
    show ?thesis
    proof (cases "?f + ?a \<le> lastpaddr m")
      case True
      have i1: "ram_inv ?m1" using ram_inv_alloc [OF inv, of "as_npages1 as"] True by simp
      show ?thesis
      proof (cases "?f + ?a + ?b \<le> lastpaddr m")
        case b: True
        have i2: "ram_inv ?m2" using ram_inv_alloc [OF i1, of "as_npages2 as"] b by simp
        show ?thesis
          using getppages_spec [OF inv n(1)] getppages_spec [OF i1 n(2)] getppages_spec [OF i2 d] True b False z inv
          by (simp add: as_prepare_load_def ram_inv_def)
      next
        case False
        then show ?thesis
          using getppages_spec [OF inv n(1)] getppages_spec [OF i1 n(2)] True z inv
          by (simp add: as_prepare_load_def ram_inv_def)
      qed
    next
      case False
      then show ?thesis using getppages_spec [OF inv n(1)] z by (simp add: as_prepare_load_def)
    qed
  qed
qed

text \<open>The frames of an address space, and an address space that lies below the free memory.\<close>

definition as_frames :: "addrspace \<Rightarrow> nat set" where
  "as_frames as =
     {as_pbase1 as ..< as_pbase1 as + as_npages1 as * PAGE_SIZE} \<union>
     {as_pbase2 as ..< as_pbase2 as + as_npages2 as * PAGE_SIZE} \<union>
     {as_stackpbase as ..< as_stackpbase as + DUMBVM_STACKPAGES * PAGE_SIZE}"

definition as_wf :: "addrspace \<Rightarrow> machine \<Rightarrow> bool" where
  "as_wf as m \<longleftrightarrow> as_set_up as \<and> as_npages1 as \<le> 2 ^ 17 \<and> as_npages2 as \<le> 2 ^ 17 \<and>
     as_vbase1 as + as_npages1 as * PAGE_SIZE \<le> MIPS_KSEG0 \<and>
     as_vbase2 as + as_npages2 as * PAGE_SIZE \<le> MIPS_KSEG0 \<and>
     as_frames as \<subseteq> {..< firstpaddr m}"

lemma as_wf_bounds:
  assumes "as_wf as m"
  shows "as_pbase1 as + as_npages1 as * PAGE_SIZE \<le> firstpaddr m"
    and "as_pbase2 as + as_npages2 as * PAGE_SIZE \<le> firstpaddr m"
    and "as_stackpbase as + DUMBVM_STACKPAGES * PAGE_SIZE \<le> firstpaddr m"
proof -
  have sub: "{p ..< p + n * PAGE_SIZE} \<subseteq> {..< firstpaddr m} \<Longrightarrow> n \<noteq> 0 \<Longrightarrow>
      p + n * PAGE_SIZE \<le> firstpaddr m" for p n
  proof -
    assume s: "{p ..< p + n * PAGE_SIZE} \<subseteq> {..< firstpaddr m}" and "n \<noteq> 0"
    then have "p + n * PAGE_SIZE - 1 \<in> {p ..< p + n * PAGE_SIZE}" by (auto simp: PAGE_SIZE_def)
    with s have "p + n * PAGE_SIZE - 1 < firstpaddr m" by blast
    then show ?thesis by simp
  qed
  show "as_pbase1 as + as_npages1 as * PAGE_SIZE \<le> firstpaddr m"
    "as_pbase2 as + as_npages2 as * PAGE_SIZE \<le> firstpaddr m"
    "as_stackpbase as + DUMBVM_STACKPAGES * PAGE_SIZE \<le> firstpaddr m"
    using assms by (auto simp: as_wf_def as_set_up_def as_frames_def DUMBVM_STACKPAGES_def intro!: sub)
qed

lemma phys_move_phys:
  "phys (move_phys dst src n m) a = (if dst \<le> a \<and> a < dst + n then phys m (src + (a - dst)) else phys m a)"
  by (simp add: move_phys_def)

lemma move_phys_sel [simp]: "firstpaddr (move_phys d s n m) = firstpaddr m" "tlb (move_phys d s n m) = tlb m"
  by (simp_all add: move_phys_def)

lemma ram_inv_move_phys [simp]: "ram_inv (move_phys d s n m) = ram_inv m"
  by (simp add: move_phys_def ram_inv_def spl_inv_def)

text \<open>
  A successful \<^verbatim>\<open>as_copy\<close>: the new regions sit in memory that was free, hold what the old ones
  hold, and nothing below the old limit changed.
\<close>

lemma as_copy_spec:
  assumes inv: "ram_inv m" and wf: "as_wf old m"
  shows "\<exists>r m'. as_copy mem old m = Some (r, m') \<and> (r = Inl ENOMEM \<or> (\<exists>new. r = Inr new \<and>
     as_vbase1 new = as_vbase1 old \<and> as_npages1 new = as_npages1 old \<and>
     as_vbase2 new = as_vbase2 old \<and> as_npages2 new = as_npages2 old \<and>
     as_pbase1 new = firstpaddr m \<and>
     as_pbase2 new = firstpaddr m + as_npages1 old * PAGE_SIZE \<and>
     as_stackpbase new = firstpaddr m + as_npages1 old * PAGE_SIZE + as_npages2 old * PAGE_SIZE \<and>
     firstpaddr m' = as_stackpbase new + DUMBVM_STACKPAGES * PAGE_SIZE \<and> ram_inv m' \<and>
     (\<forall>a < firstpaddr m. phys m' a = phys m a) \<and>
     (\<forall>k < as_npages1 old * PAGE_SIZE. phys m' (as_pbase1 new + k) = phys m (as_pbase1 old + k)) \<and>
     (\<forall>k < as_npages2 old * PAGE_SIZE. phys m' (as_pbase2 new + k) = phys m (as_pbase2 old + k)) \<and>
     (\<forall>k < DUMBVM_STACKPAGES * PAGE_SIZE. phys m' (as_stackpbase new + k) = phys m (as_stackpbase old + k))))"
proof (cases mem)
  case False
  then show ?thesis by (simp add: as_copy_def as_create_def)
next
  case True
  define new1 where "new1 = \<lparr>as_vbase1 = as_vbase1 old, as_pbase1 = 0, as_npages1 = as_npages1 old,
    as_vbase2 = as_vbase2 old, as_pbase2 = 0, as_npages2 = as_npages2 old, as_stackpbase = 0\<rparr>"
  have n1: "as_npages1 new1 = as_npages1 old" "as_npages2 new1 = as_npages2 old"
    "as_vbase1 new1 = as_vbase1 old" "as_vbase2 new1 = as_vbase2 old"
    by (simp_all add: new1_def)
  have n: "as_npages1 old \<le> 2 ^ 17" "as_npages2 old \<le> 2 ^ 17" using wf by (simp_all add: as_wf_def)
  obtain r new m1 where run: "as_prepare_load new1 m = Some (r, new, m1)"
    and cases: "r = Inl ENOMEM \<or> r = Inr () \<and>
     new = new1\<lparr>as_pbase1 := firstpaddr m, as_pbase2 := firstpaddr m + as_npages1 old * PAGE_SIZE,
              as_stackpbase := firstpaddr m + as_npages1 old * PAGE_SIZE + as_npages2 old * PAGE_SIZE\<rparr> \<and>
     m1 = m\<lparr>firstpaddr := firstpaddr m + as_npages1 old * PAGE_SIZE + as_npages2 old * PAGE_SIZE +
                          DUMBVM_STACKPAGES * PAGE_SIZE\<rparr> \<and> ram_inv m1"
    using as_prepare_load_spec [OF inv, of new1] n by (auto simp: new1_def)
  have copy: "as_copy mem old m = Option.bind (as_prepare_load new1 m) (\<lambda>(r, new, m1).
     (case r of Inl _ \<Rightarrow> Some (Inl ENOMEM, m1)
      | Inr _ \<Rightarrow> do {
               kassert (as_pbase1 new \<noteq> 0);
               kassert (as_pbase2 new \<noteq> 0);
               kassert (as_stackpbase new \<noteq> 0);
               let m2 = move_phys (as_pbase1 new) (as_pbase1 old) (as_npages1 old * PAGE_SIZE) m1;
               let m3 = move_phys (as_pbase2 new) (as_pbase2 old) (as_npages2 old * PAGE_SIZE) m2;
               let m4 = move_phys (as_stackpbase new) (as_stackpbase old) (DUMBVM_STACKPAGES * PAGE_SIZE) m3;
               Some (Inr new, m4)
             }))"
    using True by (simp add: as_copy_def as_create_def new1_def)
  show ?thesis
  proof (cases "r = Inl ENOMEM")
    case True
    then show ?thesis by (simp add: copy run)
  next
    case False
    with cases have r: "r = Inr ()" and p: "as_pbase1 new = firstpaddr m"
      "as_pbase2 new = firstpaddr m + as_npages1 old * PAGE_SIZE"
      "as_stackpbase new = firstpaddr m + as_npages1 old * PAGE_SIZE + as_npages2 old * PAGE_SIZE"
      and v: "as_vbase1 new = as_vbase1 old" "as_npages1 new = as_npages1 old"
      "as_vbase2 new = as_vbase2 old" "as_npages2 new = as_npages2 old"
      and ph: "phys m1 = phys m" and m1: "ram_inv m1"
        "firstpaddr m1 = as_stackpbase new + DUMBVM_STACKPAGES * PAGE_SIZE"
      using n1 by auto
    have pos: "firstpaddr m \<noteq> 0" using inv by (simp add: ram_inv_def)
    define m4 where "m4 = move_phys (as_stackpbase new) (as_stackpbase old) (DUMBVM_STACKPAGES * PAGE_SIZE)
      (move_phys (as_pbase2 new) (as_pbase2 old) (as_npages2 old * PAGE_SIZE)
      (move_phys (as_pbase1 new) (as_pbase1 old) (as_npages1 old * PAGE_SIZE) m1))"
    have "as_copy mem old m = Some (Inr new, m4)"
      using r p pos by (simp add: copy run m4_def Let_def)
    moreover note b = as_wf_bounds [OF wf]
    have "\<forall>a < firstpaddr m. phys m4 a = phys m a"
      "\<forall>k < as_npages1 old * PAGE_SIZE. phys m4 (as_pbase1 new + k) = phys m (as_pbase1 old + k)"
      "\<forall>k < as_npages2 old * PAGE_SIZE. phys m4 (as_pbase2 new + k) = phys m (as_pbase2 old + k)"
      "\<forall>k < DUMBVM_STACKPAGES * PAGE_SIZE. phys m4 (as_stackpbase new + k) = phys m (as_stackpbase old + k)"
      using b unfolding m4_def by (auto simp: phys_move_phys p ph)
    moreover have "ram_inv m4" "firstpaddr m4 = as_stackpbase new + DUMBVM_STACKPAGES * PAGE_SIZE"
      using m1 by (simp_all add: m4_def)
    ultimately show ?thesis using p v by (intro exI [of _ "Inr new"] exI [of _ m4]) simp
  qed
qed

section \<open>Lemmas on faults\<close>

lemma offset_small:
  fixes vb va n pb f :: nat
  assumes "vb \<le> va" and "va < vb + n" and "pb + n \<le> f" and "f < 2 ^ 30"
  shows "size32 (va - vb + pb) = va - vb + pb"
proof (rule size32_id)
  have "va - vb < n" using assms(1,2) by simp
  then have "va - vb + pb < 2 ^ 30" using assms(3,4) by simp
  then show "va - vb + pb < 2 ^ 32" by simp
qed

lemma stack_top: "USERSTACK - DUMBVM_STACKPAGES * PAGE_SIZE + DUMBVM_STACKPAGES * PAGE_SIZE = USERSTACK"
  by (simp add: page_consts)

lemma vm_translate_wf:
  assumes wf: "as_wf as m" and inv: "ram_inv m"
  shows "vm_translate as va =
    (if as_vbase1 as \<le> va \<and> va < as_vbase1 as + as_npages1 as * PAGE_SIZE
     then Some (va - as_vbase1 as + as_pbase1 as)
     else if as_vbase2 as \<le> va \<and> va < as_vbase2 as + as_npages2 as * PAGE_SIZE
     then Some (va - as_vbase2 as + as_pbase2 as)
     else if USERSTACK - DUMBVM_STACKPAGES * PAGE_SIZE \<le> va \<and> va < USERSTACK
     then Some (va - (USERSTACK - DUMBVM_STACKPAGES * PAGE_SIZE) + as_stackpbase as)
     else None)"
proof -
  note b = as_wf_bounds [OF wf]
  have lim: "firstpaddr m < 2 ^ 30" using inv by (simp add: ram_inv_def)
  have t1: "as_vbase1 as + as_npages1 as * PAGE_SIZE < 2 ^ 32"
    and t2: "as_vbase2 as + as_npages2 as * PAGE_SIZE < 2 ^ 32"
    using wf by (simp_all add: as_wf_def MIPS_KSEG0_def)
  note o1 = offset_small [OF _ _ b(1) lim] and o2 = offset_small [OF _ _ b(2) lim]
    and o3 = offset_small [where vb = "USERSTACK - DUMBVM_STACKPAGES * PAGE_SIZE", OF _ _ b(3) lim, unfolded stack_top]
  show ?thesis
    unfolding vm_translate_def Let_def size32_id [OF t1] size32_id [OF t2]
    by (rule if_cong [OF refl arg_cong [where f = Some] if_cong [OF refl arg_cong [where f = Some]
          if_cong [OF refl arg_cong [where f = Some] refl]]])
       (elim conjE, erule (1) o1, elim conjE, erule (1) o2, elim conjE, erule (1) o3)
qed

text \<open>One region of an address space: where it is in the virtual and the physical memory.\<close>

definition region_hit :: "nat \<Rightarrow> nat \<Rightarrow> nat \<Rightarrow> nat \<Rightarrow> nat \<Rightarrow> bool" where
  "region_hit vb pb n va pa \<longleftrightarrow> vb \<le> va \<and> va < vb + n \<and> pa = va - vb + pb"

lemma region_hit_frame: "region_hit vb pb n va pa \<Longrightarrow> pa \<in> {pb ..< pb + n}"
  by (auto simp: region_hit_def)

lemma region_hit_aligned:
  "region_hit vb pb n va pa \<Longrightarrow> 4096 dvd vb \<Longrightarrow> 4096 dvd pb \<Longrightarrow> 4096 dvd va \<Longrightarrow> 4096 dvd pa"
  by (auto simp: region_hit_def dvd_diff_nat)

lemma vm_translate_hit:
  assumes "as_wf as m" and "ram_inv m" and "vm_translate as va = Some pa"
  shows "region_hit (as_vbase1 as) (as_pbase1 as) (as_npages1 as * PAGE_SIZE) va pa \<or>
    region_hit (as_vbase2 as) (as_pbase2 as) (as_npages2 as * PAGE_SIZE) va pa \<or>
    region_hit (USERSTACK - DUMBVM_STACKPAGES * PAGE_SIZE) (as_stackpbase as) (DUMBVM_STACKPAGES * PAGE_SIZE) va pa"
  using assms(3) unfolding vm_translate_wf [OF assms(1,2)] region_hit_def stack_top
  by (simp only: split: if_split_asm) (simp_all only: option.inject option.distinct simp_thms)

lemma vm_translate_frames:
  assumes wf: "as_wf as m" and inv: "ram_inv m" and t: "vm_translate as va = Some pa"
  shows "pa \<in> as_frames as" and "4096 dvd va \<Longrightarrow> 4096 dvd pa"
proof -
  note b = as_wf_bounds [OF wf]
  have lim: "firstpaddr m < 2 ^ 30" using inv by (simp add: ram_inv_def)
  have w: "as_set_up as" "as_vbase1 as + as_npages1 as * PAGE_SIZE \<le> 2 ^ 31"
    "as_vbase2 as + as_npages2 as * PAGE_SIZE \<le> 2 ^ 31"
    using wf by (simp_all add: as_wf_def MIPS_KSEG0_def)
  have al: "4096 dvd as_pbase1 as" "4096 dvd as_pbase2 as" "4096 dvd as_stackpbase as"
    "4096 dvd as_vbase1 as" "4096 dvd as_vbase2 as"
    using w b lim aligned_iff by (auto simp: as_set_up_def)
  have sb: "4096 dvd USERSTACK - DUMBVM_STACKPAGES * PAGE_SIZE" by (simp add: page_consts)
  note hit = vm_translate_hit [OF assms]
  show "pa \<in> as_frames as"
    using hit unfolding as_frames_def by (blast dest: region_hit_frame)
  show "4096 dvd pa" if "4096 dvd va"
    using hit al sb that by (blast intro: region_hit_aligned)
qed

abbreviation tlb_valid :: "nat \<times> nat \<Rightarrow> bool" where
  "tlb_valid e \<equiv> snd e AND TLBLO_VALID \<noteq> 0"

lemma tlb_insert_spec:
  "(case tlb_insert t h l of
      None \<Rightarrow> \<forall>e \<in> set t. tlb_valid e
    | Some t' \<Rightarrow> \<exists>i < length t. \<not> tlb_valid (t ! i) \<and> (\<forall>j < i. tlb_valid (t ! j)) \<and> t' = t[i := (h, l)])"
proof (induction t)
  case Nil
  then show ?case by simp
next
  case (Cons e t)
  obtain eh el where e: "e = (eh, el)" by (cases e)
  show ?case
  proof (cases "tlb_valid e")
    case False
    then have "tlb_insert (e # t) h l = Some ((e # t)[0 := (h, l)])" by (simp add: e)
    with False show ?thesis by auto
  next
    case True
    show ?thesis
    proof (cases "tlb_insert t h l")
      case None
      with Cons True show ?thesis by (simp add: e)
    next
      case (Some t')
      with Cons obtain i where i: "i < length t" "\<not> tlb_valid (t ! i)" "\<forall>j < i. tlb_valid (t ! j)"
        "t' = t[i := (h, l)]" by auto
      have "tlb_insert (e # t) h l = Some ((e # t)[Suc i := (h, l)])" using True Some i by (simp add: e)
      moreover have "\<forall>j < Suc i. tlb_valid ((e # t) ! j)" using True i(3) by (simp add: less_Suc_eq_0_disj nth_Cons split: nat.split)
      ultimately show ?thesis using i by (auto simp: e intro!: exI [of _ "Suc i"])
    qed
  qed
qed

section \<open>Fault handling\<close>

lemma and_page_frame_dvd: "va < 2 ^ 32 \<Longrightarrow> 4096 dvd va AND PAGE_FRAME"
  by (simp add: and_page_frame)

lemma vm_fault_run:
  assumes wf: "as_wf as m" and inv: "ram_inv m" and va: "va < 2 ^ 32"
    and ft: "ft = VM_FAULT_READ \<or> ft = VM_FAULT_WRITE"
  shows "vm_fault ft va (Some as) m =
    (case vm_translate as (va AND PAGE_FRAME) of
       None \<Rightarrow> Some (Inl EFAULT, m)
     | Some pa \<Rightarrow>
        (case tlb_insert (tlb m) (va AND PAGE_FRAME) (pa OR TLBLO_DIRTY OR TLBLO_VALID) of
           None \<Rightarrow> Some (Inl EFAULT, m)
         | Some t \<Rightarrow> Some (Inr (), m\<lparr>tlb := t\<rparr>)))"
proof -
  have su: "as_set_up as" using wf by (simp add: as_wf_def)
  have si: "spl_inv m" using inv by (simp add: ram_inv_def)
  note restored = spl_pair_machine [OF si]
  have pa: "pa AND PAGE_FRAME = pa" if "vm_translate as (va AND PAGE_FRAME) = Some pa" for pa
  proof -
    have "pa < firstpaddr m" using vm_translate_frames(1) [OF wf inv that] wf by (auto simp: as_wf_def)
    then have "pa < 2 ^ 32" using inv by (simp add: ram_inv_def)
    with vm_translate_frames(2) [OF wf inv that and_page_frame_dvd [OF va]] show ?thesis
      by (simp add: aligned_iff)
  qed
  from ft show ?thesis
    by (elim disjE) (simp_all add: vm_fault_def Let_def case_prod_beta
        su restored splx_tlb pa split: option.split)
qed


text \<open>A small machine with one process, for the concrete instances below.\<close>

definition demo_as :: addrspace where
  "demo_as = \<lparr>as_vbase1 = 0x400000, as_pbase1 = 0x1000, as_npages1 = 1, as_vbase2 = 0x10000000,
     as_pbase2 = 0x2000, as_npages2 = 2, as_stackpbase = 0x4000\<rparr>"

definition demo_machine :: machine where
  "demo_machine = \<lparr>status = CST_IEc, curspl = 0, tlb = [(0, 0)], firstpaddr = 0x10000,
     lastpaddr = 0x80000, phys = (\<lambda>_. 0)\<rparr>"

lemma demo_ok: "as_wf demo_as demo_machine" "ram_inv demo_machine"
proof -
  have "as_set_up demo_as" by (simp add: as_set_up_def demo_as_def aligned_iff)
  then show "as_wf demo_as demo_machine"
    by (simp add: as_wf_def demo_as_def demo_machine_def as_frames_def page_consts
        ivl_subset lessThan_atLeast0)
  show "ram_inv demo_machine"
    by (simp add: ram_inv_def demo_machine_def spl_inv_def CST_IEc_def)
qed


section \<open>Copying an address space\<close>

lemma as_copy_wf:
  assumes wf: "as_wf old m" and inv: "ram_inv m" and run: "as_copy mem old m = Some (Inr new, m')"
  shows "as_wf new m'" and "ram_inv m'" and "as_frames new \<subseteq> {firstpaddr m ..< firstpaddr m'}"
proof -
  from as_copy_spec [OF inv wf, of mem] run
  have new: "as_vbase1 new = as_vbase1 old" "as_npages1 new = as_npages1 old"
     "as_vbase2 new = as_vbase2 old" "as_npages2 new = as_npages2 old"
     "as_pbase1 new = firstpaddr m" "as_pbase2 new = firstpaddr m + as_npages1 old * PAGE_SIZE"
     "as_stackpbase new = firstpaddr m + as_npages1 old * PAGE_SIZE + as_npages2 old * PAGE_SIZE"
     and lim: "firstpaddr m' = as_stackpbase new + DUMBVM_STACKPAGES * PAGE_SIZE" and inv': "ram_inv m'"
    by auto
  show "ram_inv m'" by fact
  show fr: "as_frames new \<subseteq> {firstpaddr m ..< firstpaddr m'}"
    unfolding as_frames_def lim new by auto
  have big: "firstpaddr m' < 2 ^ 32" using inv' by (simp add: ram_inv_def)
  have "4096 dvd firstpaddr m" "0 < firstpaddr m" using inv by (simp_all add: ram_inv_def)
  then have al: "4096 dvd as_pbase1 new" "4096 dvd as_pbase2 new" "4096 dvd as_stackpbase new"
    and nz: "as_pbase1 new \<noteq> 0" "as_pbase2 new \<noteq> 0" "as_stackpbase new \<noteq> 0"
    by (simp_all add: new PAGE_SIZE_def)
  have "as_pbase1 new < 2 ^ 32" "as_pbase2 new < 2 ^ 32" "as_stackpbase new < 2 ^ 32"
    using big lim new by simp_all
  then have "as_set_up new"
    using wf al nz by (simp add: as_wf_def as_set_up_def new(1-4) aligned_iff)
  then show "as_wf new m'"
    using wf fr by (auto simp: as_wf_def new(1-4))
qed

lemma copied_offset:
  "\<forall>k < n. (f :: nat \<Rightarrow> 'b) (pb' + k) = g (pb + k) \<Longrightarrow> vb \<le> va \<Longrightarrow> va < vb + n \<Longrightarrow>
   f (va - vb + pb') = g (va - vb + (pb :: nat))"
  by (drule spec [of _ "va - vb"]) (simp add: less_diff_conv2 add.commute)

lemma three_regions:
  assumes "(if A then Some x else if B then Some y else if C then Some z else None) = Some p"
    and "A \<Longrightarrow> P x x'" and "B \<Longrightarrow> P y y'" and "C \<Longrightarrow> P z z'"
  shows "\<exists>p'. (if A then Some x' else if B then Some y' else if C then Some z' else None) = Some p' \<and> P p p'"
  using assms by (auto split: if_splits)

lemma as_copy_translate:
  assumes wf: "as_wf old m" and inv: "ram_inv m" and run: "as_copy mem old m = Some (Inr new, m')"
    and tr: "vm_translate old va = Some pa"
  shows "\<exists>pa'. vm_translate new va = Some pa' \<and> phys m' pa' = phys m pa \<and> phys m' pa = phys m pa"
proof -
  note wf' = as_copy_wf [OF wf inv run]
  from as_copy_spec [OF inv wf, of mem] run
  have new: "as_vbase1 new = as_vbase1 old" "as_npages1 new = as_npages1 old"
     "as_vbase2 new = as_vbase2 old" "as_npages2 new = as_npages2 old"
     and low: "\<forall>a < firstpaddr m. phys m' a = phys m a"
     and c1: "\<forall>k < as_npages1 old * PAGE_SIZE. phys m' (as_pbase1 new + k) = phys m (as_pbase1 old + k)"
     and c2: "\<forall>k < as_npages2 old * PAGE_SIZE. phys m' (as_pbase2 new + k) = phys m (as_pbase2 old + k)"
     and c3: "\<forall>k < DUMBVM_STACKPAGES * PAGE_SIZE. phys m' (as_stackpbase new + k) = phys m (as_stackpbase old + k)"
    by auto
  have "pa < firstpaddr m" using vm_translate_frames(1) [OF wf inv tr] wf by (auto simp: as_wf_def)
  then have same: "phys m' pa = phys m pa" using low by simp
  note o1 = copied_offset [OF c1] and o2 = copied_offset [OF c2]
    and o3 = copied_offset [where vb = "USERSTACK - DUMBVM_STACKPAGES * PAGE_SIZE", OF c3, unfolded stack_top]
  have "\<exists>pa'. vm_translate new va = Some pa' \<and> phys m' pa' = phys m pa"
    unfolding vm_translate_wf [OF wf'(1,2)] new
    by (rule three_regions [OF tr [unfolded vm_translate_wf [OF wf inv]], where P = "\<lambda>p p'. phys m' p' = phys m p"])
       (elim conjE, erule (1) o1, elim conjE, erule (1) o2, elim conjE, erule (1) o3)
  with same show ?thesis by blast
qed

text \<open>C32: when copying an address space succeeds, the copy is well formed and lies in frames that were
  free and that the original does not use; every address the original maps is mapped in the copy to a
  byte of the same value, and the bytes of the original are untouched.\<close>

theorem as_copy_isolated:
  assumes "as_wf old m" and "ram_inv m" and "as_copy mem old m = Some (Inr new, m')"
  shows "as_wf new m' \<and> ram_inv m' \<and> as_frames new \<inter> as_frames old = {} \<and>
    (\<forall>va pa. vm_translate old va = Some pa \<longrightarrow>
      (\<exists>pa'. vm_translate new va = Some pa' \<and> phys m' pa' = phys m pa \<and> phys m' pa = phys m pa))"
  using as_copy_wf [OF assms] as_copy_translate [OF assms] assms(1) by (fastforce simp: as_wf_def)

lemma as_copy_isolated_witness:
  "\<exists>new m'. as_copy True demo_as demo_machine = Some (Inr new, m') \<and> as_frames new \<inter> as_frames demo_as = {}"
proof -
  have "\<exists>new m'. as_copy True demo_as demo_machine = Some (Inr new, m')"
    by (simp add: as_copy_def as_create_def as_prepare_load_def getppages_def ram_stealmem_def
      splhigh_def splx_def interrupts_off_def interrupts_on_def SPL_HIGH_def Let_def
      size32_def demo_as_def demo_machine_def page_consts)
  then show ?thesis using as_copy_isolated [OF demo_ok] by blast
qed

section \<open>What goes wrong\<close>

text \<open>A fault with no address space (the boot-time case the code guards) returns EFAULT with the
  interrupts still disabled, whatever the level was before: the \<^verbatim>\<open>splx\<close> is missing on that path.\<close>

theorem vm_fault_leaks_spl:
  "vm_fault VM_FAULT_READ va None m = Some (Inl EFAULT, snd (splhigh m)) \<and>
   curspl (snd (splhigh m)) = SPL_HIGH \<and> \<not> bit (status (snd (splhigh m))) 0"
  by (simp add: vm_fault_def Let_def case_prod_beta splhigh_def status_splx CST_IEc_def bit_simps)

text \<open>A request for exactly 4 gigabytes of pages succeeds on any machine and reserves nothing: the
  32-bit product is zero, so the same address is handed out again by the next request.\<close>

theorem ram_stealmem_wraps:
  assumes "ram_inv m"
  shows "ram_stealmem (2 ^ 20) m = (firstpaddr m, m)"
  using assms by (simp add: ram_stealmem_def ram_inv_def size32_def PAGE_SIZE_def)

lemma ram_stealmem_wraps_witness: "ram_stealmem (2 ^ 20) demo_machine = (0x10000, demo_machine)"
  using ram_stealmem_wraps [OF demo_ok(2)] by (simp add: demo_machine_def)

end
