(* ===== verification/Kheap.thy ===== *)
theory Kheap
  imports Dumbvm
begin

unbundle bit_operations_syntax

text \<open>
  The kernel heap, \<^verbatim>\<open>kern/lib/kheap.c\<close>: pages cut into blocks of one size, with the free blocks of a page linked
  through their first words; and whole pages for large requests. The consistency checks that the macros
  \<^verbatim>\<open>SLOW\<close> and \<^verbatim>\<open>SLOWER\<close> would add are off, as in the source.
\<close>

section \<open>State\<close>

definition sizes :: "nat list" where
  "sizes = [16, 32, 64, 128, 256, 512, 1024, 2048]"

definition NSIZES :: nat where "NSIZES = 8"
definition LARGEST_SUBPAGE_SIZE :: nat where "LARGEST_SUBPAGE_SIZE = 2048"
definition INVALID_OFFSET :: nat where "INVALID_OFFSET = 0xffff"
definition NPAGEREFS :: nat where "NPAGEREFS = 256"
definition INUSE_WORDS :: nat where "INUSE_WORDS = 8"

text \<open>Pointers to page references are indices into the array of them.\<close>

record pageref =
  next_samesize :: "nat option"
  next_all :: "nat option"
  pageaddr_and_blocktype :: nat
  freelist_offset :: nat
  nfree :: nat

definition PR_PAGEADDR :: "pageref \<Rightarrow> nat" where
  "PR_PAGEADDR pr = pageaddr_and_blocktype pr AND PAGE_FRAME"

definition PR_BLOCKTYPE :: "pageref \<Rightarrow> nat" where
  "PR_BLOCKTYPE pr = pageaddr_and_blocktype pr AND 0xfff"

definition MKPAB :: "nat \<Rightarrow> nat \<Rightarrow> nat" where
  "MKPAB pa blk = (pa AND PAGE_FRAME) OR (blk AND 0xfff)"

text \<open>
  The static variables, the machine that provides pages, and the words of kernel memory by address. The
  field \<open>bigs\<close> is a history variable: the large blocks handed out and not freed; no function reads it.
\<close>

record kheap =
  hvm :: machine
  pagerefs :: "pageref list"
  pagerefs_inuse :: "32 word list"
  sizebases :: "nat option list"
  allbase :: "nat option"
  kw :: "nat \<Rightarrow> nat"
  bigs :: "(nat \<times> nat) list"

definition hsplhigh :: "kheap \<Rightarrow> int \<times> kheap" where
  "hsplhigh h = (let (spl, m) = splhigh (hvm h) in (spl, h\<lparr>hvm := m\<rparr>))"

definition hsplx :: "int \<Rightarrow> kheap \<Rightarrow> kheap" where
  "hsplx spl h = h\<lparr>hvm := snd (splx spl (hvm h))\<rparr>"

definition fill_deadbeef :: "nat \<Rightarrow> nat \<Rightarrow> (nat \<Rightarrow> nat) \<Rightarrow> nat \<Rightarrow> nat" where
  "fill_deadbeef vptr len m = fold (\<lambda>i m. m(vptr + 4 * i := 0xdeadbeef)) [0..<len div 4] m"

section \<open>Page references\<close>

text \<open>The inner loop of \<^verbatim>\<open>allocpageref\<close>: the first bit that is not set, from \<open>j\<close>, \<open>k\<close> left.\<close>

fun clear_bit_at :: "32 word \<Rightarrow> nat \<Rightarrow> nat \<Rightarrow> nat option" where
  "clear_bit_at w j 0 = None"
| "clear_bit_at w j (Suc k) = (if w AND 2 ^ j = 0 then Some j else clear_bit_at w (j + 1) k)"

fun allocpageref_from :: "nat \<Rightarrow> nat \<Rightarrow> kheap \<Rightarrow> (nat option \<times> kheap) option" where
  "allocpageref_from i 0 h = Some (None, h)"
| "allocpageref_from i (Suc k) h = do {
     w \<leftarrow> rd (pagerefs_inuse h) i;
     if w = 0xffffffff then allocpageref_from (i + 1) k h
     else do {
       j \<leftarrow> clear_bit_at w 0 32;
       Some (Some (i * 32 + j), h\<lparr>pagerefs_inuse := (pagerefs_inuse h)[i := w OR 2 ^ j]\<rparr>)
     }
   }"

definition allocpageref :: "kheap \<Rightarrow> (nat option \<times> kheap) option" where
  "allocpageref h = allocpageref_from 0 INUSE_WORDS h"

definition freepageref :: "nat \<Rightarrow> kheap \<Rightarrow> kheap option" where
  "freepageref j h = do {
     _ \<leftarrow> kassert (j < NPAGEREFS);
     w \<leftarrow> rd (pagerefs_inuse h) (j div 32);
     let k = (2 :: 32 word) ^ (j mod 32);
     _ \<leftarrow> kassert (w AND k \<noteq> 0);
     Some (h\<lparr>pagerefs_inuse := (pagerefs_inuse h)[j div 32 := w AND NOT k]\<rparr>)
   }"

section \<open>The lists of pages\<close>

text \<open>
  The loops of \<^verbatim>\<open>remove_lists\<close>. The pointer \<^verbatim>\<open>guy\<close> is the head of the list or the link of the page reference before;
  the first argument bounds the rounds, and a list that is longer has no outcome.
\<close>

fun remove_samesize :: "nat \<Rightarrow> nat option \<Rightarrow> nat \<Rightarrow> nat \<Rightarrow> kheap \<Rightarrow> kheap option" where
  "remove_samesize 0 prev p t h = None"
| "remove_samesize (Suc n) prev p t h = do {
     guy \<leftarrow> (case prev of
               None \<Rightarrow> rd (sizebases h) t
             | Some q \<Rightarrow> map_option next_samesize (rd (pagerefs h) q));
     (case guy of
        None \<Rightarrow> Some h
      | Some c \<Rightarrow>
          if c = p then do {
            pr \<leftarrow> rd (pagerefs h) p;
            (case prev of
               None \<Rightarrow> Some (h\<lparr>sizebases := (sizebases h)[t := next_samesize pr]\<rparr>)
             | Some q \<Rightarrow> Some (h\<lparr>pagerefs := (pagerefs h)[q := (pagerefs h ! q)\<lparr>next_samesize := next_samesize pr\<rparr>]\<rparr>))
          }
          else remove_samesize n (Some c) p t h)
   }"

fun remove_all :: "nat \<Rightarrow> nat option \<Rightarrow> nat \<Rightarrow> kheap \<Rightarrow> kheap option" where
  "remove_all 0 prev p h = None"
| "remove_all (Suc n) prev p h = do {
     guy \<leftarrow> (case prev of
               None \<Rightarrow> Some (allbase h)
             | Some q \<Rightarrow> map_option next_all (rd (pagerefs h) q));
     (case guy of
        None \<Rightarrow> Some h
      | Some c \<Rightarrow>
          if c = p then do {
            pr \<leftarrow> rd (pagerefs h) p;
            (case prev of
               None \<Rightarrow> Some (h\<lparr>allbase := next_all pr\<rparr>)
             | Some q \<Rightarrow> Some (h\<lparr>pagerefs := (pagerefs h)[q := (pagerefs h ! q)\<lparr>next_all := next_all pr\<rparr>]\<rparr>))
          }
          else remove_all n (Some c) p h)
   }"

text \<open>A list of distinct page references has at most 256 nodes, so that 257 rounds reach its end.\<close>

definition list_fuel :: nat where "list_fuel = NPAGEREFS + 1"

definition remove_lists :: "nat \<Rightarrow> nat \<Rightarrow> kheap \<Rightarrow> kheap option" where
  "remove_lists p blktype h = do {
     _ \<leftarrow> kassert (blktype < NSIZES);
     h1 \<leftarrow> remove_samesize list_fuel None p blktype h;
     remove_all list_fuel None p h1
   }"

section \<open>Allocation\<close>

fun blocktype_from :: "nat \<Rightarrow> nat \<Rightarrow> nat \<Rightarrow> nat option" where
  "blocktype_from sz i 0 = None"
| "blocktype_from sz i (Suc k) = (if sz \<le> sizes ! i then Some i else blocktype_from sz (i + 1) k)"

definition blocktype :: "nat \<Rightarrow> nat option" where
  "blocktype sz = blocktype_from sz 0 NSIZES"

text \<open>The search of \<^verbatim>\<open>subpage_kmalloc\<close> for a page with a free block.\<close>

fun find_free :: "nat \<Rightarrow> nat \<Rightarrow> nat option \<Rightarrow> kheap \<Rightarrow> nat option option" where
  "find_free 0 t pr h = None"
| "find_free (Suc n) t None h = Some None"
| "find_free (Suc n) t (Some p) h = do {
     pr \<leftarrow> rd (pagerefs h) p;
     _ \<leftarrow> kassert (PR_BLOCKTYPE pr = t);
     if nfree pr > 0 then Some (Some p) else find_free n t (next_samesize pr) h
   }"

text \<open>From the label \<^verbatim>\<open>doalloc\<close>: the first free block of a page.\<close>

definition doalloc :: "nat \<Rightarrow> kheap \<Rightarrow> (nat \<times> kheap) option" where
  "doalloc p h = do {
     pr \<leftarrow> rd (pagerefs h) p;
     _ \<leftarrow> kassert (freelist_offset pr < PAGE_SIZE);
     let prpage = PR_PAGEADDR pr;
     let fla = prpage + freelist_offset pr;
     let fl = kw h fla;
     let nf = (nfree pr + 2 ^ 16 - 1) mod 2 ^ 16;
     off \<leftarrow> (if fl \<noteq> 0 then do {
               _ \<leftarrow> kassert (nf > 0);
               _ \<leftarrow> kassert (sub32 fl prpage < PAGE_SIZE);
               Some (sub32 fl prpage)
             }
             else do {
               _ \<leftarrow> kassert (nf = 0);
               Some INVALID_OFFSET
             });
     Some (fla, h\<lparr>pagerefs := (pagerefs h)[p := pr\<lparr>nfree := nf, freelist_offset := off\<rparr>]\<rparr>)
   }"

text \<open>The loop that links the blocks of a new page, from block \<open>i\<close>, \<open>k\<close> left.\<close>

fun link_blocks :: "nat \<Rightarrow> nat \<Rightarrow> nat \<Rightarrow> nat \<Rightarrow> (nat \<Rightarrow> nat) \<Rightarrow> nat \<Rightarrow> nat" where
  "link_blocks fla sz i 0 m = m"
| "link_blocks fla sz i (Suc k) m = link_blocks fla sz (i + 1) k (m(fla + i * sz := fla + (i - 1) * sz))"

text \<open>A fresh page: its reference is filled in, its blocks are linked and it is put at the head of both lists.\<close>

definition new_page :: "nat \<Rightarrow> nat \<Rightarrow> nat \<Rightarrow> kheap \<Rightarrow> kheap option" where
  "new_page p prpage t h = do {
     sz \<leftarrow> rd sizes t;
     pr \<leftarrow> rd (pagerefs h) p;
     base \<leftarrow> rd (sizebases h) t;
     let n = PAGE_SIZE div sz;
     let m = link_blocks prpage sz 1 (n - 1) ((kw h)(prpage := 0));
     let pr1 = pr\<lparr>pageaddr_and_blocktype := MKPAB prpage t, nfree := n, freelist_offset := (n - 1) * sz,
                  next_samesize := base, next_all := allbase h\<rparr>;
     Some (h\<lparr>kw := m, pagerefs := (pagerefs h)[p := pr1], sizebases := (sizebases h)[t := Some p], allbase := Some p\<rparr>)
   }"

definition subpage_kmalloc :: "nat \<Rightarrow> kheap \<Rightarrow> (nat option \<times> kheap) option" where
  "subpage_kmalloc sz h = do {
     t \<leftarrow> blocktype sz;
     let (spl, h1) = hsplhigh h;
     base \<leftarrow> rd (sizebases h1) t;
     hit \<leftarrow> find_free list_fuel t base h1;
     (case hit of
        Some p \<Rightarrow> do {
          (a, h2) \<leftarrow> doalloc p h1;
          Some (Some a, hsplx spl h2)
        }
      | None \<Rightarrow> do {
          (pr, h2) \<leftarrow> allocpageref h1;
          (case pr of
             None \<Rightarrow> Some (None, hsplx spl h2)
           | Some p \<Rightarrow> do {
               let (prpage, m) = alloc_kpages 1 (hvm h2);
               let h3 = h2\<lparr>hvm := m\<rparr>;
               if prpage = 0 then do {
                 h4 \<leftarrow> freepageref p h3;
                 Some (None, hsplx spl h4)
               }
               else do {
                 h4 \<leftarrow> new_page p prpage t h3;
                 (a, h5) \<leftarrow> doalloc p h4;
                 Some (Some a, hsplx spl h5)
               }
             })
        })
   }"

section \<open>Freeing\<close>

fun find_page :: "nat \<Rightarrow> nat \<Rightarrow> nat option \<Rightarrow> kheap \<Rightarrow> nat option option" where
  "find_page 0 ptr pr h = None"
| "find_page (Suc n) ptr None h = Some None"
| "find_page (Suc n) ptr (Some p) h = do {
     pr \<leftarrow> rd (pagerefs h) p;
     _ \<leftarrow> kassert (PR_BLOCKTYPE pr < NSIZES);
     if PR_PAGEADDR pr \<le> ptr \<and> ptr < PR_PAGEADDR pr + PAGE_SIZE then Some (Some p)
     else find_page n ptr (next_all pr) h
   }"

text \<open>\<^verbatim>\<open>subpage_kfree\<close>; the flag tells whether the block was on one of the pages.\<close>

definition subpage_kfree :: "nat \<Rightarrow> kheap \<Rightarrow> (bool \<times> kheap) option" where
  "subpage_kfree ptr h = do {
     let (spl, h1) = hsplhigh h;
     hit \<leftarrow> find_page list_fuel ptr (allbase h1) h1;
     (case hit of
        None \<Rightarrow> Some (False, hsplx spl h1)
      | Some p \<Rightarrow> do {
          pr \<leftarrow> rd (pagerefs h1) p;
          let prpage = PR_PAGEADDR pr;
          let t = PR_BLOCKTYPE pr;
          sz \<leftarrow> rd sizes t;
          let offset = ptr - prpage;
          _ \<leftarrow> kassert (offset < PAGE_SIZE \<and> offset mod sz = 0);
          let m = fill_deadbeef ptr sz (kw h1);
          let next = (if freelist_offset pr = INVALID_OFFSET then 0 else prpage + freelist_offset pr);
          let nf = (nfree pr + 1) mod 2 ^ 16;
          let h2 = h1\<lparr>kw := m(ptr := next), pagerefs := (pagerefs h1)[p := pr\<lparr>freelist_offset := offset, nfree := nf\<rparr>]\<rparr>;
          _ \<leftarrow> kassert (nf \<le> PAGE_SIZE div sz);
          h3 \<leftarrow> (if nf = PAGE_SIZE div sz then do {
                   h4 \<leftarrow> remove_lists p t h2;
                   freepageref p (h4\<lparr>hvm := free_kpages prpage (hvm h4)\<rparr>)
                 }
                 else Some h2);
          Some (True, hsplx spl h3)
        })
   }"

section \<open>The interface\<close>

definition kmalloc :: "nat \<Rightarrow> kheap \<Rightarrow> (nat option \<times> kheap) option" where
  "kmalloc sz h =
     (if sz \<ge> LARGEST_SUBPAGE_SIZE then
        (let npages = size32 (sz + PAGE_SIZE - 1) div PAGE_SIZE;
             (address, m) = alloc_kpages npages (hvm h)
         in if address = 0 then Some (None, h\<lparr>hvm := m\<rparr>)
            else Some (Some address, h\<lparr>hvm := m, bigs := (address, npages * PAGE_SIZE) # bigs h\<rparr>))
      else subpage_kmalloc sz h)"

text \<open>\<open>None\<close> as the argument is the null pointer.\<close>

definition kfree :: "nat option \<Rightarrow> kheap \<Rightarrow> kheap option" where
  "kfree ptr h =
     (case ptr of
        None \<Rightarrow> Some h
      | Some a \<Rightarrow> do {
          (ours, h1) \<leftarrow> subpage_kfree a h;
          if ours then Some h1
          else do {
            _ \<leftarrow> kassert (a mod PAGE_SIZE = 0);
            Some (h1\<lparr>hvm := free_kpages a (hvm h1), bigs := filter (\<lambda>b. fst b \<noteq> a) (bigs h1)\<rparr>)
          }
        })"

section \<open>Arithmetic\<close>

lemma sizes_props:
  assumes "t < NSIZES"
  shows "16 \<le> sizes ! t" and "sizes ! t \<le> 2048" and "4 dvd sizes ! t" and "sizes ! t * (4096 div sizes ! t) = 4096"
    and "2 \<le> 4096 div sizes ! t" and "4096 div sizes ! t \<le> 256" and "t < length sizes"
proof -
  have "t \<in> {0, 1, 2, 3, 4, 5, 6, 7}" using assms unfolding NSIZES_def by auto
  then show "16 \<le> sizes ! t" "sizes ! t \<le> 2048" "4 dvd sizes ! t" "sizes ! t * (4096 div sizes ! t) = 4096"
    "2 \<le> 4096 div sizes ! t" "4096 div sizes ! t \<le> 256" "t < length sizes"
    by (elim insertE emptyE; simp add: sizes_def)+
qed

lemma blocktype_spec: "sz \<le> 2048 \<Longrightarrow> \<exists>t. blocktype sz = Some t \<and> t < NSIZES \<and> sz \<le> sizes ! t"
  by (simp add: blocktype_def NSIZES_def sizes_def numeral_eq_Suc)

lemma and_fff: "(n :: nat) AND 0xfff = n mod 4096"
  using take_bit_eq_mask [of 12 n] by (simp add: take_bit_eq_mod mask_eq_exp_minus_1)

lemma MKPAB_eq:
  assumes "4096 dvd pa" and "pa < 2 ^ 32" and "blk < 4096"
  shows "MKPAB pa blk = pa + blk"
proof -
  have pf: "pa AND PAGE_FRAME = pa" using assms by (simp add: and_page_frame)
  obtain k where k: "pa = push_bit 12 k" using assms(1) by (auto simp: push_bit_eq_mult mult.commute elim!: dvdE)
  have b: "blk = take_bit 12 blk" using assms(3) by (simp add: take_bit_nat_eq_self)
  have "\<not> bit pa n \<or> \<not> bit blk n" for n
    by (subst k, subst b) (auto simp: bit_push_bit_iff bit_take_bit_iff)
  then have "pa + blk = pa OR blk" by (rule disjunctive_add)
  then show ?thesis unfolding MKPAB_def pf and_fff using assms(3) by simp
qed

section \<open>Linked structures\<close>

text \<open>A list of page references, as a relation between its links and the HOL list of its nodes.\<close>

primrec chain :: "('a \<Rightarrow> 'a option) \<Rightarrow> 'a option \<Rightarrow> 'a list \<Rightarrow> bool" where
  "chain nx b [] \<longleftrightarrow> b = None"
| "chain nx b (p # ps) \<longleftrightarrow> b = Some p \<and> chain nx (nx p) ps"

lemma chain_cong: "\<forall>p \<in> set ps. nx p = nx' p \<Longrightarrow> chain nx b ps = chain nx' b ps"
  by (induction ps arbitrary: b) auto

lemma chain_unlink:
  assumes "chain nx b (us @ p # ys)" and "distinct (us @ p # ys)"
  shows "if us = [] then chain nx (nx p) (us @ ys) else chain (nx(last us := nx p)) b (us @ ys)"
  using assms
proof (induction us arbitrary: b)
  case (Cons u us)
  show ?case
  proof (cases "us = []")
    case True
    then have "chain (nx(u := nx p)) (nx p) ys = chain nx (nx p) ys" using Cons.prems by (intro chain_cong) auto
    then show ?thesis using True Cons.prems by simp
  next
    case False
    then have "last us \<noteq> u" using Cons.prems(2) last_in_set [OF False] by auto
    then show ?thesis using Cons.IH [of "nx u"] Cons.prems False by simp
  qed
qed simp

text \<open>The free blocks of a page: linked by their addresses, ended by 0.\<close>

primrec fl_chain :: "(nat \<Rightarrow> nat) \<Rightarrow> nat \<Rightarrow> nat list \<Rightarrow> bool" where
  "fl_chain m a [] \<longleftrightarrow> a = 0"
| "fl_chain m a (x # xs) \<longleftrightarrow> a = x \<and> x \<noteq> 0 \<and> fl_chain m (m x) xs"

lemma fl_chain_cong: "\<forall>x \<in> set xs. m x = m' x \<Longrightarrow> fl_chain m a xs = fl_chain m' a xs"
  by (induction xs arbitrary: a) auto

fun walk :: "nat \<Rightarrow> (nat \<Rightarrow> nat) \<Rightarrow> nat \<Rightarrow> nat list" where
  "walk 0 m a = []"
| "walk (Suc n) m a = a # walk n m (m a)"

lemma walk_chain: "fl_chain m a xs \<Longrightarrow> walk (length xs) m a = xs"
  by (induction xs arbitrary: a) auto

section \<open>Pages\<close>

definition block_size :: "pageref \<Rightarrow> nat" where
  "block_size pr = sizes ! PR_BLOCKTYPE pr"

definition page_blocks :: "pageref \<Rightarrow> nat" where
  "page_blocks pr = 4096 div block_size pr"

definition blocks :: "pageref \<Rightarrow> nat set" where
  "blocks pr = (\<lambda>i. PR_PAGEADDR pr + i * block_size pr) ` {..<page_blocks pr}"

text \<open>\<open>F\<close> is the list of free blocks of the page.\<close>

definition page_free :: "(nat \<Rightarrow> nat) \<Rightarrow> pageref \<Rightarrow> nat list \<Rightarrow> bool" where
  "page_free m pr F \<longleftrightarrow> distinct F \<and> set F \<subseteq> blocks pr \<and> nfree pr = length F \<and>
     (if F = [] then freelist_offset pr = INVALID_OFFSET else PR_PAGEADDR pr + freelist_offset pr = hd F) \<and>
     fl_chain m (if F = [] then 0 else hd F) F"

definition free_of :: "(nat \<Rightarrow> nat) \<Rightarrow> pageref \<Rightarrow> nat set" where
  "free_of m pr = set (walk (nfree pr) m (PR_PAGEADDR pr + freelist_offset pr))"

definition page_ok :: "(nat \<Rightarrow> nat) \<Rightarrow> nat \<Rightarrow> pageref \<Rightarrow> bool" where
  "page_ok m lim pr \<longleftrightarrow> PR_BLOCKTYPE pr < NSIZES \<and> 4096 dvd PR_PAGEADDR pr \<and> MIPS_KSEG0 < PR_PAGEADDR pr \<and>
     PR_PAGEADDR pr + 4096 \<le> MIPS_KSEG0 + lim \<and> (\<exists>F. page_free m pr F)"

lemma pr_links [simp]:
  "PR_PAGEADDR (pr\<lparr>next_samesize := x\<rparr>) = PR_PAGEADDR pr" "PR_PAGEADDR (pr\<lparr>next_all := x\<rparr>) = PR_PAGEADDR pr"
  "PR_BLOCKTYPE (pr\<lparr>next_samesize := x\<rparr>) = PR_BLOCKTYPE pr" "PR_BLOCKTYPE (pr\<lparr>next_all := x\<rparr>) = PR_BLOCKTYPE pr"
  "PR_PAGEADDR (pr\<lparr>nfree := n\<rparr>) = PR_PAGEADDR pr" "PR_PAGEADDR (pr\<lparr>freelist_offset := n\<rparr>) = PR_PAGEADDR pr"
  "PR_BLOCKTYPE (pr\<lparr>nfree := n\<rparr>) = PR_BLOCKTYPE pr" "PR_BLOCKTYPE (pr\<lparr>freelist_offset := n\<rparr>) = PR_BLOCKTYPE pr"
  by (simp_all add: PR_PAGEADDR_def PR_BLOCKTYPE_def)

lemma pr_parts [simp]:
  "block_size (pr\<lparr>next_samesize := x\<rparr>) = block_size pr" "block_size (pr\<lparr>next_all := x\<rparr>) = block_size pr"
  "block_size (pr\<lparr>nfree := n\<rparr>) = block_size pr" "block_size (pr\<lparr>freelist_offset := n\<rparr>) = block_size pr"
  "page_blocks (pr\<lparr>next_samesize := x\<rparr>) = page_blocks pr" "page_blocks (pr\<lparr>next_all := x\<rparr>) = page_blocks pr"
  "page_blocks (pr\<lparr>nfree := n\<rparr>) = page_blocks pr" "page_blocks (pr\<lparr>freelist_offset := n\<rparr>) = page_blocks pr"
  "blocks (pr\<lparr>next_samesize := x\<rparr>) = blocks pr" "blocks (pr\<lparr>next_all := x\<rparr>) = blocks pr"
  "blocks (pr\<lparr>nfree := n\<rparr>) = blocks pr" "blocks (pr\<lparr>freelist_offset := n\<rparr>) = blocks pr"
  "page_free m (pr\<lparr>next_samesize := x\<rparr>) F = page_free m pr F" "page_free m (pr\<lparr>next_all := x\<rparr>) F = page_free m pr F"
  "free_of m (pr\<lparr>next_samesize := x\<rparr>) = free_of m pr" "free_of m (pr\<lparr>next_all := x\<rparr>) = free_of m pr"
  "page_ok m lim (pr\<lparr>next_samesize := x\<rparr>) = page_ok m lim pr" "page_ok m lim (pr\<lparr>next_all := x\<rparr>) = page_ok m lim pr"
  by (simp_all add: block_size_def page_blocks_def blocks_def page_free_def free_of_def page_ok_def)

lemma free_of_page: "page_free m pr F \<Longrightarrow> free_of m pr = set F"
  using walk_chain [of m "hd F" F] by (cases F) (auto simp: page_free_def free_of_def)

lemma page_free_cong:
  "page_free m pr F \<Longrightarrow> \<forall>x \<in> set F. m' x = m x \<Longrightarrow> page_free m' pr F"
  by (simp add: page_free_def fl_chain_cong [of F m' m])

text \<open>A page is made of its blocks, which do not overlap.\<close>

lemma block_dims:
  assumes "PR_BLOCKTYPE pr < NSIZES"
  shows "16 \<le> block_size pr" and "block_size pr \<le> 2048" and "4 dvd block_size pr" and "block_size pr * page_blocks pr = 4096"
    and "2 \<le> page_blocks pr" and "page_blocks pr \<le> 256" and "rd sizes (PR_BLOCKTYPE pr) = Some (block_size pr)"
  using sizes_props [OF assms] by (simp_all add: block_size_def page_blocks_def rd_def)

lemma block_range:
  assumes "PR_BLOCKTYPE pr < NSIZES" and "x \<in> blocks pr"
  shows "PR_PAGEADDR pr \<le> x" and "x + block_size pr \<le> PR_PAGEADDR pr + 4096" and "(x - PR_PAGEADDR pr) mod block_size pr = 0"
    and "x < PR_PAGEADDR pr + 4096"
proof -
  note D = block_dims [OF assms(1)]
  obtain i where i: "i < page_blocks pr" "x = PR_PAGEADDR pr + i * block_size pr" using assms(2) by (auto simp: blocks_def)
  have "Suc i * block_size pr \<le> page_blocks pr * block_size pr" using i(1) by (intro mult_le_mono1) simp
  then show "x + block_size pr \<le> PR_PAGEADDR pr + 4096" using i(2) D(4) by (simp add: mult.commute)
  then show "x < PR_PAGEADDR pr + 4096" using D(1) by simp
  show "PR_PAGEADDR pr \<le> x" "(x - PR_PAGEADDR pr) mod block_size pr = 0" using i(2) by simp_all
qed

lemma blocks_iff:
  assumes "PR_BLOCKTYPE pr < NSIZES"
  shows "x \<in> blocks pr \<longleftrightarrow> PR_PAGEADDR pr \<le> x \<and> x < PR_PAGEADDR pr + 4096 \<and> (x - PR_PAGEADDR pr) mod block_size pr = 0"
proof
  assume a: "PR_PAGEADDR pr \<le> x \<and> x < PR_PAGEADDR pr + 4096 \<and> (x - PR_PAGEADDR pr) mod block_size pr = 0"
  note D = block_dims [OF assms]
  let ?i = "(x - PR_PAGEADDR pr) div block_size pr"
  have "x = PR_PAGEADDR pr + ?i * block_size pr" using a by (metis div_mult_mod_eq add.right_neutral le_add_diff_inverse)
  moreover have "?i < page_blocks pr" using a D(4) by (intro less_mult_imp_div_less) (simp add: mult.commute, linarith)
  ultimately show "x \<in> blocks pr" unfolding blocks_def by blast
qed (use block_range [OF assms] in auto)

lemma blocks_disjoint:
  assumes "PR_BLOCKTYPE pr < NSIZES" and "x \<in> blocks pr" and "y \<in> blocks pr" and "x \<noteq> y"
  shows "x + block_size pr \<le> y \<or> y + block_size pr \<le> x"
proof -
  obtain i j where ij: "x = PR_PAGEADDR pr + i * block_size pr" "y = PR_PAGEADDR pr + j * block_size pr"
    using assms(2,3) by (auto simp: blocks_def)
  have "i < j \<or> j < i" using assms(4) ij by auto
  then show ?thesis
  proof
    assume "i < j"
    then have "Suc i * block_size pr \<le> j * block_size pr" by (intro mult_le_mono1) simp
    then show ?thesis using ij by simp
  next
    assume "j < i"
    then have "Suc j * block_size pr \<le> i * block_size pr" by (intro mult_le_mono1) simp
    then show ?thesis using ij by simp
  qed
qed

lemma card_blocks: "PR_BLOCKTYPE pr < NSIZES \<Longrightarrow> card (blocks pr) = page_blocks pr"
  using block_dims(1) [of pr] by (auto simp: blocks_def card_image inj_on_def)

lemma page_free_length:
  assumes "PR_BLOCKTYPE pr < NSIZES" and "page_free m pr F"
  shows "length F \<le> page_blocks pr" and "length F = page_blocks pr \<longleftrightarrow> set F = blocks pr"
proof -
  have f: "finite (blocks pr)" by (simp add: blocks_def)
  have d: "distinct F" "set F \<subseteq> blocks pr" using assms(2) by (auto simp: page_free_def)
  show "length F \<le> page_blocks pr" using card_mono [OF f d(2)] d(1) card_blocks [OF assms(1)] by (simp add: distinct_card)
  show "length F = page_blocks pr \<longleftrightarrow> set F = blocks pr"
    using card_subset_eq [OF f d(2)] d(1) card_blocks [OF assms(1)] distinct_card by metis
qed

lemma take_block:
  assumes "page_free m pr (x # F)" and t: "PR_BLOCKTYPE pr < NSIZES"
  shows "page_free m (pr\<lparr>nfree := length F, freelist_offset := if F = [] then INVALID_OFFSET else hd F - PR_PAGEADDR pr\<rparr>) F"
    and "x = PR_PAGEADDR pr + freelist_offset pr" and "m x = (if F = [] then 0 else hd F)" and "x \<in> blocks pr" and "x \<notin> set F"
    and "F \<noteq> [] \<Longrightarrow> hd F \<in> blocks pr \<and> hd F \<noteq> 0"
proof -
  note P = assms(1) [unfolded page_free_def]
  show hd: "F \<noteq> [] \<Longrightarrow> hd F \<in> blocks pr \<and> hd F \<noteq> 0" using P by (cases F) auto
  show mx: "m x = (if F = [] then 0 else hd F)" using P by (cases F) auto
  show "x = PR_PAGEADDR pr + freelist_offset pr" "x \<in> blocks pr" "x \<notin> set F" using P by auto
  have "fl_chain m (if F = [] then 0 else hd F) F" using P mx by simp
  moreover have "F \<noteq> [] \<Longrightarrow> PR_PAGEADDR pr \<le> hd F" using hd block_range(1) [OF t] by blast
  ultimately show "page_free m (pr\<lparr>nfree := length F, freelist_offset := if F = [] then INVALID_OFFSET else hd F - PR_PAGEADDR pr\<rparr>) F"
    using P by (simp add: page_free_def)
qed

lemma put_block:
  assumes f: "page_free m pr F" and t: "PR_BLOCKTYPE pr < NSIZES" and x: "x \<in> blocks pr" "x \<notin> set F" "x \<noteq> 0"
    and m': "m' x = (if F = [] then 0 else hd F)" "\<forall>y \<in> set F. m' y = m y"
  shows "page_free m' (pr\<lparr>freelist_offset := x - PR_PAGEADDR pr, nfree := Suc (length F)\<rparr>) (x # F)"
proof -
  have "page_free m' pr F" using page_free_cong [OF f m'(2)] .
  then show ?thesis using x m'(1) block_range(1) [OF t x(1)] by (auto simp: page_free_def)
qed

section \<open>The invariant\<close>

definition used :: "kheap \<Rightarrow> nat set" where
  "used h = {p. p < NPAGEREFS \<and> bit (pagerefs_inuse h ! (p div 32)) (p mod 32)}"

abbreviation pg :: "kheap \<Rightarrow> nat \<Rightarrow> pageref" where
  "pg h p \<equiv> pagerefs h ! p"

text \<open>\<open>P\<close> lists the pages in the order of \<^verbatim>\<open>allbase\<close>; the list of a size has those of that size in the same order.\<close>

definition lists_ok :: "kheap \<Rightarrow> nat list \<Rightarrow> bool" where
  "lists_ok h P \<longleftrightarrow> distinct P \<and> set P = used h \<and> chain (\<lambda>p. next_all (pg h p)) (allbase h) P \<and>
     (\<forall>t < NSIZES. chain (\<lambda>p. next_samesize (pg h p)) (sizebases h ! t) (filter (\<lambda>p. PR_BLOCKTYPE (pg h p) = t) P))"

definition apart :: "nat \<times> nat \<Rightarrow> nat \<times> nat \<Rightarrow> bool" where
  "apart b c \<longleftrightarrow> fst b + snd b \<le> fst c \<or> fst c + snd c \<le> fst b"

definition page_of :: "pageref \<Rightarrow> nat \<times> nat" where
  "page_of pr = (PR_PAGEADDR pr, 4096)"

definition bigs_ok :: "kheap \<Rightarrow> bool" where
  "bigs_ok h \<longleftrightarrow> (\<forall>b \<in> set (bigs h). 4096 dvd fst b \<and> MIPS_KSEG0 < fst b \<and> 0 < snd b \<and>
        fst b + snd b \<le> MIPS_KSEG0 + firstpaddr (hvm h) \<and> (\<forall>p \<in> used h. apart b (page_of (pg h p)))) \<and>
     (\<forall>b \<in> set (bigs h). \<forall>c \<in> set (bigs h). b \<noteq> c \<longrightarrow> apart b c)"

text \<open>Every page but those in \<open>X\<close> has a block in use.\<close>

definition kinv :: "nat set \<Rightarrow> kheap \<Rightarrow> bool" where
  "kinv X h \<longleftrightarrow> ram_inv (hvm h) \<and> length (pagerefs h) = NPAGEREFS \<and> length (pagerefs_inuse h) = INUSE_WORDS \<and>
     length (sizebases h) = NSIZES \<and> (\<exists>P. lists_ok h P) \<and>
     (\<forall>p \<in> used h. page_ok (kw h) (firstpaddr (hvm h)) (pg h p)) \<and>
     (\<forall>p \<in> used h - X. nfree (pg h p) < page_blocks (pg h p)) \<and>
     (\<forall>p \<in> used h. \<forall>q \<in> used h. p \<noteq> q \<longrightarrow> apart (page_of (pg h p)) (page_of (pg h q))) \<and> bigs_ok h"

abbreviation kheap_inv :: "kheap \<Rightarrow> bool" where
  "kheap_inv \<equiv> kinv {}"

text \<open>The blocks handed out and not freed, with their lengths.\<close>

definition page_live :: "(nat \<Rightarrow> nat) \<Rightarrow> pageref \<Rightarrow> (nat \<times> nat) set" where
  "page_live m pr = (\<lambda>x. (x, block_size pr)) ` (blocks pr - free_of m pr)"

definition live :: "kheap \<Rightarrow> (nat \<times> nat) set" where
  "live h = (\<Union>p \<in> used h. page_live (kw h) (pg h p)) \<union> set (bigs h)"

lemma kinvD:
  assumes "kinv X h"
  shows "ram_inv (hvm h)" "length (pagerefs h) = NPAGEREFS" "length (pagerefs_inuse h) = INUSE_WORDS"
    "length (sizebases h) = NSIZES" "\<exists>P. lists_ok h P"
    "\<And>p. p \<in> used h \<Longrightarrow> page_ok (kw h) (firstpaddr (hvm h)) (pg h p)"
    "\<And>p. p \<in> used h \<Longrightarrow> p \<notin> X \<Longrightarrow> nfree (pg h p) < page_blocks (pg h p)"
    "\<And>p q. p \<in> used h \<Longrightarrow> q \<in> used h \<Longrightarrow> p \<noteq> q \<Longrightarrow> apart (page_of (pg h p)) (page_of (pg h q))" "bigs_ok h"
  using assms unfolding kinv_def by blast+

lemma kinvI:
  assumes "ram_inv (hvm h)" "length (pagerefs h) = NPAGEREFS" "length (pagerefs_inuse h) = INUSE_WORDS"
    "length (sizebases h) = NSIZES" "lists_ok h P"
    "\<And>p. p \<in> used h \<Longrightarrow> page_ok (kw h) (firstpaddr (hvm h)) (pg h p)"
    "\<And>p. p \<in> used h \<Longrightarrow> p \<notin> X \<Longrightarrow> nfree (pg h p) < page_blocks (pg h p)"
    "\<And>p q. p \<in> used h \<Longrightarrow> q \<in> used h \<Longrightarrow> p \<noteq> q \<Longrightarrow> apart (page_of (pg h p)) (page_of (pg h q))" "bigs_ok h"
  shows "kinv X h"
  using assms unfolding kinv_def by blast

lemma kinv_mono: "kinv X h \<Longrightarrow> X \<subseteq> Y \<Longrightarrow> kinv Y h"
  unfolding kinv_def by blast

lemma used_less: "p \<in> used h \<Longrightarrow> p < NPAGEREFS"
  by (simp add: used_def)

lemma used_hvm [simp]: "used (h\<lparr>hvm := m\<rparr>) = used h" and live_hvm [simp]: "live (h\<lparr>hvm := m\<rparr>) = live h"
  by (simp_all add: used_def live_def)

lemma kinv_hvm:
  "kinv X h \<Longrightarrow> ram_inv m \<Longrightarrow> firstpaddr m = firstpaddr (hvm h) \<Longrightarrow> kinv X (h\<lparr>hvm := m\<rparr>)"
  unfolding kinv_def lists_ok_def bigs_ok_def by simp

text \<open>Blocks of a page lie in it, so that blocks of different pages are apart.\<close>

lemma page_live_in:
  assumes "page_ok m lim pr" and "b \<in> page_live m pr"
  shows "fst b \<in> blocks pr" "snd b = block_size pr" "PR_PAGEADDR pr \<le> fst b" "fst b + snd b \<le> PR_PAGEADDR pr + 4096"
    "fst b \<notin> free_of m pr"
  using assms block_range [of pr] by (auto simp: page_live_def page_ok_def)

lemma apart_sub:
  "apart (a, n) (b, m) \<Longrightarrow> a \<le> x \<Longrightarrow> x + k \<le> a + n \<Longrightarrow> b \<le> y \<Longrightarrow> y + l \<le> b + m \<Longrightarrow> apart (x, k) (y, l)"
  by (auto simp: apart_def)

lemma apart_sym: "apart b c = apart c b"
  by (auto simp: apart_def)

lemma live_apart:
  assumes inv: "kinv X h" and b: "b \<in> live h" and c: "c \<in> live h" and ne: "b \<noteq> c"
  shows "apart b c"
proof -
  note K = kinvD [OF inv]
  have pp: "apart b c" if "p \<in> used h" "b \<in> page_live (kw h) (pg h p)" "q \<in> used h" "c \<in> page_live (kw h) (pg h q)" "b \<noteq> c" for p q b c
  proof (cases "p = q")
    case True
    note i = page_live_in [OF K(6) [OF that(1)] that(2)] page_live_in [OF K(6) [OF that(3)] that(4)]
    have "fst b \<noteq> fst c" using that(5) i(2,7) True by (auto simp: prod_eq_iff)
    then show ?thesis using blocks_disjoint [of "pg h p" "fst b" "fst c"] i True K(6) [OF that(1)] by (auto simp: apart_def page_ok_def)
  next
    case False
    note i = page_live_in [OF K(6) [OF that(1)] that(2)] page_live_in [OF K(6) [OF that(3)] that(4)]
    show ?thesis using K(8) [OF that(1,3) False] i by (auto simp: apart_def page_of_def)
  qed
  have pb: "apart b c" if "p \<in> used h" "b \<in> page_live (kw h) (pg h p)" "c \<in> set (bigs h)" for p b c
  proof -
    have "apart c (page_of (pg h p))" using K(9) that(1,3) by (auto simp: bigs_ok_def)
    then show ?thesis using page_live_in [OF K(6) [OF that(1)] that(2)] by (auto simp: apart_def page_of_def)
  qed
  from b c show ?thesis
    unfolding live_def
  proof (elim UnE UN_E)
    fix p q assume "p \<in> used h" "b \<in> page_live (kw h) (pg h p)" "q \<in> used h" "c \<in> page_live (kw h) (pg h q)"
    then show ?thesis using pp ne by blast
  next
    fix p assume "p \<in> used h" "b \<in> page_live (kw h) (pg h p)" "c \<in> set (bigs h)"
    then show ?thesis using pb by blast
  next
    fix q assume "b \<in> set (bigs h)" "q \<in> used h" "c \<in> page_live (kw h) (pg h q)"
    then show ?thesis using pb apart_sym by blast
  next
    assume "b \<in> set (bigs h)" "c \<in> set (bigs h)"
    then show ?thesis using K(9) ne by (auto simp: bigs_ok_def)
  qed
qed

text \<open>The heap with another free list for one page.\<close>

definition live_but :: "nat \<Rightarrow> kheap \<Rightarrow> (nat \<times> nat) set" where
  "live_but p h = (\<Union>q \<in> used h - {p}. page_live (kw h) (pg h q)) \<union> set (bigs h)"

definition with_page :: "nat \<Rightarrow> nat \<Rightarrow> nat \<Rightarrow> (nat \<Rightarrow> nat) \<Rightarrow> kheap \<Rightarrow> kheap" where
  "with_page p n off m h = h\<lparr>kw := m, pagerefs := (pagerefs h)[p := (pg h p)\<lparr>nfree := n, freelist_offset := off\<rparr>]\<rparr>"

lemma live_split: "p \<in> used h \<Longrightarrow> live h = live_but p h \<union> page_live (kw h) (pg h p)"
  unfolding live_def live_but_def by blast

lemma with_page_sel [simp]:
  "hvm (with_page p n off m h) = hvm h" "kw (with_page p n off m h) = m" "bigs (with_page p n off m h) = bigs h"
  "sizebases (with_page p n off m h) = sizebases h" "allbase (with_page p n off m h) = allbase h"
  "pagerefs_inuse (with_page p n off m h) = pagerefs_inuse h" "used (with_page p n off m h) = used h"
  "length (pagerefs (with_page p n off m h)) = length (pagerefs h)"
  by (simp_all add: with_page_def used_def)

lemma with_page_pg:
  "p < length (pagerefs h) \<Longrightarrow> pg (with_page p n off m h) q = (if q = p then (pg h p)\<lparr>nfree := n, freelist_offset := off\<rparr> else pg h q)"
  by (simp add: with_page_def)

lemma page_live_cong:
  assumes "page_ok m lim pr" and "\<forall>x \<in> free_of m pr. m' x = m x"
  shows "page_live m' pr = page_live m pr" and "page_ok m' lim pr"
proof -
  obtain F where F: "page_free m pr F" using assms(1) by (auto simp: page_ok_def)
  then have F': "page_free m' pr F" using page_free_cong [OF F] assms(2) free_of_page [OF F] by simp
  show "page_live m' pr = page_live m pr" using free_of_page [OF F] free_of_page [OF F'] by (simp add: page_live_def)
  show "page_ok m' lim pr" using assms(1) F' by (auto simp: page_ok_def)
qed

lemma with_page_inv:
  assumes inv: "kinv X h" and p: "p \<in> used h" and n: "n < page_blocks (pg h p) \<or> p \<in> Y" and X: "X \<subseteq> insert p Y"
    and F: "page_free m ((pg h p)\<lparr>nfree := n, freelist_offset := off\<rparr>) F"
    and m: "\<forall>q \<in> used h - {p}. \<forall>x \<in> free_of (kw h) (pg h q). m x = kw h x"
  shows "kinv Y (with_page p n off m h)"
    and "live (with_page p n off m h) = live_but p h \<union> (\<lambda>x. (x, block_size (pg h p))) ` (blocks (pg h p) - set F)"
proof -
  note K = kinvD [OF inv]
  let ?h = "with_page p n off m h"
  have pl: "p < length (pagerefs h)" using used_less [OF p] K(2) by simp
  note g = with_page_pg [OF pl, of n off m]
  have same: "PR_PAGEADDR (pg ?h q) = PR_PAGEADDR (pg h q)" "PR_BLOCKTYPE (pg ?h q) = PR_BLOCKTYPE (pg h q)"
    "next_all (pg ?h q) = next_all (pg h q)" "next_samesize (pg ?h q) = next_samesize (pg h q)" "page_of (pg ?h q) = page_of (pg h q)" for q
    by (simp_all add: g page_of_def)
  obtain P where "lists_ok h P" using K(5) by blast
  then have lo: "lists_ok ?h P" unfolding lists_ok_def same by simp
  show "kinv Y ?h"
  proof (rule kinvI [OF _ _ _ _ lo])
    fix q assume q: "q \<in> used ?h"
    show "page_ok (kw ?h) (firstpaddr (hvm ?h)) (pg ?h q)"
    proof (cases "q = p")
      case True
      then show ?thesis using K(6) [OF p] F by (auto simp: g page_ok_def)
    next
      case False
      then show ?thesis using page_live_cong(2) [OF K(6)] m q by (simp add: g)
    qed
    show "nfree (pg ?h q) < page_blocks (pg ?h q)" if "q \<notin> Y"
      using n that X K(7) [of q] q by (cases "q = p") (auto simp: g)
    show "apart (page_of (pg ?h q)) (page_of (pg ?h r))" if "r \<in> used ?h" "q \<noteq> r" for r
      using K(8) [of q r] q that by (simp add: same)
  next
    show "bigs_ok ?h" using K(9) unfolding bigs_ok_def same by simp
  qed (use K(1-4) in simp_all)
  have "page_live m (pg ?h q) = page_live (kw h) (pg h q)" if "q \<in> used h" "q \<noteq> p" for q
    using page_live_cong(1) [OF K(6) [OF that(1)], of m] m that by (simp add: g)
  then have "live_but p ?h = live_but p h" by (simp add: live_but_def)
  moreover have "page_live m (pg ?h p) = (\<lambda>x. (x, block_size (pg h p))) ` (blocks (pg h p) - set F)"
    using free_of_page [OF F] by (simp add: g page_live_def)
  ultimately show "live ?h = live_but p h \<union> (\<lambda>x. (x, block_size (pg h p))) ` (blocks (pg h p) - set F)"
    using live_split [of p ?h] p by simp
qed

section \<open>Taking a block\<close>

lemma page_free_of:
  assumes "kinv X h" and "p \<in> used h"
  obtains F where "page_free (kw h) (pg h p) F" and "PR_BLOCKTYPE (pg h p) < NSIZES" and "length F \<le> page_blocks (pg h p)"
    and "length F \<le> 256"
proof -
  from kinvD(6) [OF assms] obtain F where F: "page_free (kw h) (pg h p) F" "PR_BLOCKTYPE (pg h p) < NSIZES"
    by (auto simp: page_ok_def)
  then show thesis using that page_free_length(1) [OF F(2,1)] block_dims(6) [OF F(2)] by fastforce
qed

lemma page_addr_less:
  assumes "kinv X h" and "p \<in> used h"
  shows "PR_PAGEADDR (pg h p) + 4096 < 2 ^ 32" and "MIPS_KSEG0 < PR_PAGEADDR (pg h p)"
  using kinvD(1) [OF assms(1)] kinvD(6) [OF assms] by (auto simp: ram_inv_def page_ok_def MIPS_KSEG0_def)

lemma not_live_but:
  assumes inv: "kinv X h" and p: "p \<in> used h" and x: "x \<in> blocks (pg h p)"
  shows "(x, n) \<notin> live_but p h"
proof
  note K = kinvD [OF inv]
  have t: "PR_BLOCKTYPE (pg h p) < NSIZES" using K(6) [OF p] by (simp add: page_ok_def)
  note B = block_range [OF t x] block_dims(1) [OF t]
  assume "(x, n) \<in> live_but p h"
  then show False
  proof (unfold live_but_def, elim UnE UN_E)
    fix q assume q: "q \<in> used h - {p}" "(x, n) \<in> page_live (kw h) (pg h q)"
    then have "apart (page_of (pg h p)) (page_of (pg h q))" using K(8) [OF p, of q] by auto
    then show False using q page_live_in [OF K(6) q(2)] B block_dims(1) [of "pg h q"] K(6) [of q] by (auto simp: apart_def page_of_def page_ok_def)
  next
    assume "(x, n) \<in> set (bigs h)"
    then have "apart (x, n) (page_of (pg h p))" "0 < n" using K(9) p by (auto simp: bigs_ok_def)
    then show False using B by (auto simp: apart_def page_of_def)
  qed
qed

lemma doalloc_spec:
  assumes inv: "kinv X h" and p: "p \<in> used h" and X: "X \<subseteq> {p}" and nf: "0 < nfree (pg h p)"
  shows "\<exists>a h'. doalloc p h = Some (a, h') \<and> kheap_inv h' \<and> live h' = insert (a, block_size (pg h p)) (live h) \<and>
    (a, block_size (pg h p)) \<notin> live h \<and> a \<in> blocks (pg h p) \<and> kw h' = kw h \<and> hvm h' = hvm h"
proof -
  note K = kinvD [OF inv]
  let ?pr = "pg h p"
  obtain F0 where F0: "page_free (kw h) ?pr F0" "PR_BLOCKTYPE ?pr < NSIZES" "length F0 \<le> page_blocks ?pr" "length F0 \<le> 256"
    using page_free_of [OF inv p] .
  have "nfree ?pr = length F0" using F0(1) by (simp add: page_free_def)
  with nf obtain x F where xF: "F0 = x # F" by (cases F0) auto
  note T = take_block [OF F0(1) [unfolded xF] F0(2)]
  define off where "off = (if F = [] then INVALID_OFFSET else hd F - PR_PAGEADDR ?pr)"
  let ?h = "with_page p (length F) off (kw h) h"
  have pl: "p < length (pagerefs h)" using used_less [OF p] K(2) by simp
  have offl: "freelist_offset ?pr < PAGE_SIZE" using block_range(4) [OF F0(2) T(4)] T(2) by (simp add: PAGE_SIZE_def)
  have n: "(nfree ?pr + 2 ^ 16 - 1) mod 2 ^ 16 = length F" using \<open>nfree ?pr = length F0\<close> F0(4) xF by simp
  have nx: "F \<noteq> [] \<Longrightarrow> sub32 (hd F) (PR_PAGEADDR ?pr) = hd F - PR_PAGEADDR ?pr \<and> hd F - PR_PAGEADDR ?pr < PAGE_SIZE \<and> 0 < length F \<and> hd F \<noteq> 0"
    using block_range(1,4) [OF F0(2), of "hd F"] T(6) page_addr_less(1) [OF inv p] by (auto simp: PAGE_SIZE_def)
  have run: "doalloc p h = Some (x, ?h)"
    unfolding doalloc_def rd_def Let_def using pl offl nx n T(2,3)
    by (cases "F = []") (simp_all add: with_page_def off_def)
  have "set (x # F) \<subseteq> blocks ?pr" using F0(1) xF by (simp add: page_free_def)
  moreover have "length F < page_blocks ?pr" using F0(3) xF by simp
  moreover have "page_free (kw h) (?pr\<lparr>nfree := length F, freelist_offset := off\<rparr>) F" using T(1) by (simp add: off_def)
  ultimately have w: "kheap_inv ?h" "live ?h = live_but p h \<union> (\<lambda>x. (x, block_size ?pr)) ` (blocks ?pr - set F)"
    using with_page_inv [OF inv p, of "length F" "{}" "kw h" off F] X by auto
  have lp: "page_live (kw h) ?pr = (\<lambda>x. (x, block_size ?pr)) ` (blocks ?pr - insert x (set F))"
    using free_of_page [OF F0(1)] xF by (simp add: page_live_def)
  have "live ?h = insert (x, block_size ?pr) (live h)"
    unfolding w(2) live_split [OF p] lp using T(4,5) by blast
  moreover have "(x, block_size ?pr) \<notin> live h"
    using not_live_but [OF inv p T(4)] unfolding live_split [OF p] lp by auto
  ultimately show ?thesis using run w(1) T(4) by (intro exI [of _ x] exI [of _ ?h]) simp
qed

section \<open>Searching the lists\<close>

lemma find_free_spec:
  assumes "chain (\<lambda>p. next_samesize (pg h p)) b xs" and "\<forall>p \<in> set xs. p < length (pagerefs h) \<and> PR_BLOCKTYPE (pg h p) = t"
    and "length xs < n"
  shows "\<exists>r. find_free n t b h = Some r \<and> (\<forall>p. r = Some p \<longrightarrow> p \<in> set xs \<and> 0 < nfree (pg h p))"
  using assms
proof (induction n arbitrary: b xs)
  case (Suc n)
  show ?case
  proof (cases xs)
    case Nil
    then show ?thesis using Suc.prems(1) by simp
  next
    case (Cons p ps)
    then have "\<exists>r. find_free n t (next_samesize (pg h p)) h = Some r \<and> (\<forall>q. r = Some q \<longrightarrow> q \<in> set ps \<and> 0 < nfree (pg h q))"
      using Suc.prems by (intro Suc.IH) auto
    then show ?thesis using Suc.prems Cons by (auto simp: rd_def)
  qed
qed simp

lemma find_page_spec:
  assumes "chain (\<lambda>p. next_all (pg h p)) b xs" and "\<forall>p \<in> set xs. p < length (pagerefs h) \<and> PR_BLOCKTYPE (pg h p) < NSIZES"
    and "length xs < n"
  shows "\<exists>r. find_page n a b h = Some r \<and>
    (case r of
       Some p \<Rightarrow> p \<in> set xs \<and> PR_PAGEADDR (pg h p) \<le> a \<and> a < PR_PAGEADDR (pg h p) + 4096
     | None \<Rightarrow> \<forall>p \<in> set xs. \<not> (PR_PAGEADDR (pg h p) \<le> a \<and> a < PR_PAGEADDR (pg h p) + 4096))"
  using assms
proof (induction n arbitrary: b xs)
  case (Suc n)
  show ?case
  proof (cases xs)
    case Nil
    then show ?thesis using Suc.prems(1) by simp
  next
    case (Cons p ps)
    then have ih: "\<exists>r. find_page n a (next_all (pg h p)) h = Some r \<and>
      (case r of
         Some p \<Rightarrow> p \<in> set ps \<and> PR_PAGEADDR (pg h p) \<le> a \<and> a < PR_PAGEADDR (pg h p) + 4096
       | None \<Rightarrow> \<forall>p \<in> set ps. \<not> (PR_PAGEADDR (pg h p) \<le> a \<and> a < PR_PAGEADDR (pg h p) + 4096))"
      using Suc.prems by (intro Suc.IH) auto
    show ?thesis
    proof (cases "PR_PAGEADDR (pg h p) \<le> a \<and> a < PR_PAGEADDR (pg h p) + 4096")
      case True
      then show ?thesis using Suc.prems Cons by (auto simp: rd_def PAGE_SIZE_def)
    next
      case False
      then have "find_page (Suc n) a b h = find_page n a (next_all (pg h p)) h"
        using Suc.prems Cons by (auto simp: rd_def PAGE_SIZE_def)
      then show ?thesis using ih Cons False by (auto split: option.splits)
    qed
  qed
qed simp

lemma list_length:
  assumes "lists_ok h P"
  shows "length P < list_fuel" and "length (filter Q P) < list_fuel"
proof -
  have "card (set P) \<le> card {..<NPAGEREFS}" using assms used_less by (intro card_mono) (auto simp: lists_ok_def)
  then show l: "length P < list_fuel" using assms distinct_card [of P] by (simp add: lists_ok_def list_fuel_def)
  then show "length (filter Q P) < list_fuel" using length_filter_le [of Q P] by linarith
qed

section \<open>Page references\<close>

lemma clear_bit_at_spec:
  "(\<exists>i. clear_bit_at w j k = Some i \<and> j \<le> i \<and> i < j + k \<and> \<not> bit w i) \<or> clear_bit_at w j k = None \<and> (\<forall>i. j \<le> i \<and> i < j + k \<longrightarrow> bit w i)"
proof (induction k arbitrary: j)
  case (Suc k)
  show ?case
  proof (cases "bit w j")
    case True
    then have "clear_bit_at w j (Suc k) = clear_bit_at w (j + 1) k" by (simp add: and_exp_eq_0_iff_not_bit)
    moreover have "i = j \<or> j + 1 \<le> i" if "j \<le> i" for i using that by auto
    ultimately show ?thesis using Suc [of "j + 1"] True by fastforce
  next
    case False
    then show ?thesis by (auto simp: and_exp_eq_0_iff_not_bit)
  qed
qed auto

lemma all_ones: "(w :: 32 word) \<noteq> 0xffffffff \<Longrightarrow> \<exists>i < 32. \<not> bit w i"
proof (rule ccontr)
  assume "w \<noteq> 0xffffffff" and a: "\<not> (\<exists>i < 32. \<not> bit w i)"
  have "w = mask 32" by (rule bit_word_eqI) (use a in \<open>auto simp: bit_mask_iff\<close>)
  then show False using \<open>w \<noteq> 0xffffffff\<close> by (simp add: mask_eq_exp_minus_1)
qed

lemma div_mod_32: "j < 32 \<Longrightarrow> p div 32 = i \<and> p mod 32 = j \<longleftrightarrow> p = i * 32 + (j :: nat)"
  by auto

lemma allocpageref_from_spec:
  assumes "length (pagerefs_inuse h) = INUSE_WORDS" and "i + k = INUSE_WORDS"
  shows "allocpageref_from i k h = Some (None, h) \<or>
    (\<exists>p w. allocpageref_from i k h = Some (Some p, h\<lparr>pagerefs_inuse := (pagerefs_inuse h)[p div 32 := w]\<rparr>) \<and> p < NPAGEREFS \<and>
       \<not> bit (pagerefs_inuse h ! (p div 32)) (p mod 32) \<and> w = pagerefs_inuse h ! (p div 32) OR 2 ^ (p mod 32))"
  using assms(2)
proof (induction k arbitrary: i)
  case (Suc k)
  let ?w = "pagerefs_inuse h ! i"
  have i: "i < INUSE_WORDS" using Suc.prems by simp
  show ?case
  proof (cases "?w = 0xffffffff")
    case True
    then have "allocpageref_from i (Suc k) h = allocpageref_from (i + 1) k h" using i assms(1) by (simp add: rd_def)
    then show ?thesis using Suc.IH [of "i + 1"] Suc.prems by simp
  next
    case False
    with clear_bit_at_spec [of ?w 0 32] all_ones obtain j where j: "clear_bit_at ?w 0 32 = Some j" "j < 32" "\<not> bit ?w j" by auto
    have "i * 32 + j < NPAGEREFS" using i j(2) by (simp add: NPAGEREFS_def INUSE_WORDS_def)
    then show ?thesis using False i j assms(1) by (intro disjI2 exI [of _ "i * 32 + j"]) (auto simp: rd_def)
  qed
qed simp

lemma used_mark:
  assumes "p < NPAGEREFS" and "length (pagerefs_inuse h) = INUSE_WORDS"
  shows "used (h\<lparr>pagerefs_inuse := (pagerefs_inuse h)[p div 32 := pagerefs_inuse h ! (p div 32) OR 2 ^ (p mod 32)]\<rparr>) = insert p (used h)"
    and "used (h\<lparr>pagerefs_inuse := (pagerefs_inuse h)[p div 32 := pagerefs_inuse h ! (p div 32) AND NOT (2 ^ (p mod 32))]\<rparr>) = used h - {p}"
proof -
  have i: "p div 32 < length (pagerefs_inuse h)" using assms by (simp add: NPAGEREFS_def INUSE_WORDS_def less_mult_imp_div_less)
  have eq: "q div 32 = p div 32 \<Longrightarrow> (q mod 32 = p mod 32) = (q = p)" for q by (metis div_mult_mod_eq)
  have b: "bit ((w :: 32 word) OR 2 ^ (p mod 32)) (q mod 32) \<longleftrightarrow> bit w (q mod 32) \<or> q mod 32 = p mod 32"
    "bit (w AND NOT (2 ^ (p mod 32))) (q mod 32) \<longleftrightarrow> bit w (q mod 32) \<and> q mod 32 \<noteq> p mod 32" for w q
    by (auto simp: bit_or_iff bit_and_iff bit_not_iff bit_exp_iff)
  show "used (h\<lparr>pagerefs_inuse := (pagerefs_inuse h)[p div 32 := pagerefs_inuse h ! (p div 32) OR 2 ^ (p mod 32)]\<rparr>) = insert p (used h)"
    using assms(1) i eq by (auto simp: used_def nth_list_update b)
  show "used (h\<lparr>pagerefs_inuse := (pagerefs_inuse h)[p div 32 := pagerefs_inuse h ! (p div 32) AND NOT (2 ^ (p mod 32))]\<rparr>) = used h - {p}"
    using i eq by (auto simp: used_def nth_list_update b)
qed

lemma allocpageref_spec:
  assumes "length (pagerefs_inuse h) = INUSE_WORDS"
  shows "allocpageref h = Some (None, h) \<or>
    (\<exists>p ws. allocpageref h = Some (Some p, h\<lparr>pagerefs_inuse := ws\<rparr>) \<and> p < NPAGEREFS \<and> p \<notin> used h \<and> length ws = INUSE_WORDS \<and>
      used (h\<lparr>pagerefs_inuse := ws\<rparr>) = insert p (used h))"
  using allocpageref_from_spec [OF assms, of 0 INUSE_WORDS] used_mark(1) [OF _ assms] assms
  unfolding allocpageref_def by (fastforce simp: used_def)

lemma freepageref_spec:
  assumes "length (pagerefs_inuse h) = INUSE_WORDS" and "p \<in> used h"
  shows "\<exists>ws. freepageref p h = Some (h\<lparr>pagerefs_inuse := ws\<rparr>) \<and> length ws = INUSE_WORDS \<and> used (h\<lparr>pagerefs_inuse := ws\<rparr>) = used h - {p}"
proof -
  have p: "p < NPAGEREFS" "bit (pagerefs_inuse h ! (p div 32)) (p mod 32)" using assms(2) by (simp_all add: used_def)
  then have "p div 32 < length (pagerefs_inuse h)" using assms by (simp add: NPAGEREFS_def INUSE_WORDS_def less_mult_imp_div_less)
  then have "freepageref p h = Some (h\<lparr>pagerefs_inuse := (pagerefs_inuse h)[p div 32 := pagerefs_inuse h ! (p div 32) AND NOT (2 ^ (p mod 32))]\<rparr>)"
    using p by (simp add: freepageref_def rd_def and_exp_eq_0_iff_not_bit)
  then show ?thesis using used_mark(2) [OF p(1) assms(1)] assms(1) by (metis length_list_update)
qed

section \<open>A new page\<close>

lemma link_blocks_other: "\<forall>j. i \<le> j \<and> j < i + k \<longrightarrow> x \<noteq> fla + j * sz \<Longrightarrow> link_blocks fla sz i k m x = m x"
proof (induction k arbitrary: i m)
  case (Suc k)
  then have "link_blocks fla sz (i + 1) k (m(fla + i * sz := fla + (i - 1) * sz)) x = (m(fla + i * sz := fla + (i - 1) * sz)) x"
    by (intro Suc.IH) auto
  moreover have "x \<noteq> fla + i * sz" using Suc.prems by auto
  ultimately show ?case by simp
qed simp

lemma link_blocks_at:
  "0 < sz \<Longrightarrow> i \<le> j \<Longrightarrow> j < i + k \<Longrightarrow> link_blocks fla sz i k m (fla + j * sz) = fla + (j - 1) * sz"
proof (induction k arbitrary: i m)
  case (Suc k)
  show ?case
  proof (cases "j = i")
    case True
    have "link_blocks fla sz (i + 1) k (m(fla + i * sz := fla + (i - 1) * sz)) (fla + j * sz) =
        (m(fla + i * sz := fla + (i - 1) * sz)) (fla + j * sz)"
      using Suc.prems True by (intro link_blocks_other) auto
    then show ?thesis using True by simp
  next
    case False
    then show ?thesis using Suc.IH [of "i + 1"] Suc.prems by simp
  qed
qed simp

lemma linked_chain:
  assumes "fla \<noteq> 0" and "m fla = 0" and "\<forall>j. 1 \<le> j \<and> j \<le> k \<longrightarrow> m (fla + j * sz) = fla + (j - 1) * sz"
  shows "fl_chain m (fla + k * sz) (map (\<lambda>j. fla + j * sz) (rev [0..<Suc k]))"
  using assms
proof (induction k)
  case (Suc k)
  then have "m (fla + Suc k * sz) = fla + k * sz" by auto
  then show ?case using Suc by simp
qed simp

lemma alloc_kpages_spec:
  assumes "ram_inv m" and "n \<le> 2 ^ 17"
  shows "alloc_kpages n m = (if firstpaddr m + n * 4096 \<le> lastpaddr m
     then (firstpaddr m + MIPS_KSEG0, m\<lparr>firstpaddr := firstpaddr m + n * 4096\<rparr>) else (0, m))"
  using getppages_spec [OF assms] assms(1)
  by (simp add: alloc_kpages_def PADDR_TO_KVADDR_def PAGE_SIZE_def ram_inv_def)

lemma new_page_inv:
  assumes inv: "kheap_inv h" and p: "p < NPAGEREFS" "p \<notin> used h" and t: "t < NSIZES"
    and ws: "length ws = INUSE_WORDS" "used (h\<lparr>pagerefs_inuse := ws\<rparr>) = insert p (used h)"
    and m: "ram_inv m" "firstpaddr m = firstpaddr (hvm h) + 4096" and a: "a = firstpaddr (hvm h) + MIPS_KSEG0"
  shows "\<exists>h4. new_page p a t (h\<lparr>pagerefs_inuse := ws, hvm := m\<rparr>) = Some h4 \<and> kinv {p} h4 \<and> p \<in> used h4 \<and> live h4 = live h \<and>
    hvm h4 = m \<and> PR_BLOCKTYPE (pg h4 p) = t \<and> PR_PAGEADDR (pg h4 p) = a \<and> 0 < nfree (pg h4 p) \<and>
    (\<forall>x. x < a \<or> a + 4096 \<le> x \<longrightarrow> kw h4 x = kw h x)"
proof -
  note K = kinvD [OF inv]
  let ?s = "sizes ! t" and ?n = "4096 div sizes ! t"
  note S = sizes_props [OF t]
  define mm where "mm = link_blocks a ?s 1 (?n - 1) ((kw h)(a := 0))"
  define pr where "pr = (pg h p)\<lparr>pageaddr_and_blocktype := MKPAB a t, nfree := ?n, freelist_offset := (?n - 1) * ?s,
    next_samesize := sizebases h ! t, next_all := allbase h\<rparr>"
  define h4 where "h4 = h\<lparr>pagerefs_inuse := ws, hvm := m, kw := mm, pagerefs := (pagerefs h)[p := pr],
    sizebases := (sizebases h)[t := Some p], allbase := Some p\<rparr>"
  have al: "4096 dvd a" "a + 4096 < 2 ^ 32" "MIPS_KSEG0 < a" "a \<noteq> 0"
    using K(1) a m by (auto simp: ram_inv_def MIPS_KSEG0_def)
  have mk: "MKPAB a t = a + t" using al t by (intro MKPAB_eq) (simp_all add: NSIZES_def)
  have bt: "PR_BLOCKTYPE pr = t" "PR_PAGEADDR pr = a"
    using al t by (auto simp: pr_def PR_BLOCKTYPE_def PR_PAGEADDR_def mk and_fff and_page_frame NSIZES_def elim!: dvdE)
  then have sz: "block_size pr = ?s" "page_blocks pr = ?n" by (simp_all add: block_size_def page_blocks_def)
  have run: "new_page p a t (h\<lparr>pagerefs_inuse := ws, hvm := m\<rparr>) = Some h4"
    using p(1) t K(2,4) S(7) by (simp add: new_page_def rd_def h4_def mm_def pr_def PAGE_SIZE_def Let_def)
  have u: "used h4 = insert p (used h)" using ws(2) by (simp add: h4_def used_def)
  have g: "pg h4 q = (if q = p then pr else pg h q)" for q using p(1) K(2) by (simp add: h4_def)
  have hs: "kw h4 = mm" "hvm h4 = m" "bigs h4 = bigs h" by (simp_all add: h4_def)
  have out: "mm x = kw h x" if x: "x < a \<or> a + 4096 \<le> x" for x
  proof -
    have "x \<noteq> a + j * ?s" if "j < ?n" for j
    proof -
      have "j * ?s < ?n * ?s" using that S(1) by simp
      then show ?thesis using x S(4) by (auto simp: mult.commute)
    qed
    then show ?thesis unfolding mm_def using x S(5) by (subst link_blocks_other) auto
  qed
  let ?F = "map (\<lambda>j. a + j * ?s) (rev [0..<?n])"
  have hdF: "hd ?F = a + (?n - 1) * ?s" "?F \<noteq> []" using S(5) by (auto simp: hd_map hd_rev last_map)
  have sF: "set ?F = blocks pr" by (auto simp: blocks_def bt sz)
  have ch: "fl_chain mm (a + (?n - 1) * ?s) ?F"
  proof -
    have "fl_chain mm (a + (?n - 1) * ?s) (map (\<lambda>j. a + j * ?s) (rev [0..<Suc (?n - 1)]))"
    proof (rule linked_chain [OF al(4)])
      show "mm a = 0" unfolding mm_def using S(1) by (subst link_blocks_other) auto
      show "\<forall>j. 1 \<le> j \<and> j \<le> ?n - 1 \<longrightarrow> mm (a + j * ?s) = a + (j - 1) * ?s"
        unfolding mm_def using S(1,5) by (intro allI impI link_blocks_at) linarith+
    qed
    then show ?thesis using S(5) by simp
  qed
  have F: "page_free mm pr ?F"
    using hdF sF ch S(1) unfolding page_free_def bt by (auto simp: pr_def distinct_map inj_on_def)
  have oldp: "apart (a, 4096) (page_of (pg h q))" if "q \<in> used h" for q
    using K(6) [OF that] a by (auto simp: page_ok_def apart_def page_of_def)
  have memq: "\<forall>x \<in> free_of (kw h) (pg h q). mm x = kw h x" if q: "q \<in> used h" for q
  proof
    fix x assume "x \<in> free_of (kw h) (pg h q)"
    obtain F' where F': "page_free (kw h) (pg h q) F'" "PR_BLOCKTYPE (pg h q) < NSIZES" using page_free_of [OF inv q] .
    have xb: "x \<in> blocks (pg h q)" using \<open>x \<in> free_of (kw h) (pg h q)\<close> F'(1) free_of_page [OF F'(1)] by (auto simp: page_free_def)
    show "mm x = kw h x" using oldp [OF q] block_range [OF F'(2) xb] by (intro out) (auto simp: apart_def page_of_def)
  qed
  obtain P where P: "lists_ok h P" using K(5) by blast
  have lo: "lists_ok h4 (p # P)"
  proof -
    have nP: "p \<notin> set P" using P p(2) by (auto simp: lists_ok_def)
    have "chain (\<lambda>q. next_all (pg h4 q)) (allbase h) P"
      using P chain_cong [of P "\<lambda>q. next_all (pg h4 q)" "\<lambda>q. next_all (pg h q)"] nP by (auto simp: lists_ok_def g)
    moreover have f: "filter (\<lambda>q. PR_BLOCKTYPE (pg h4 q) = i) P = filter (\<lambda>q. PR_BLOCKTYPE (pg h q) = i) P" for i
      using nP by (intro filter_cong) (auto simp: g)
    moreover have "chain (\<lambda>q. next_samesize (pg h4 q)) (sizebases h ! i) (filter (\<lambda>q. PR_BLOCKTYPE (pg h q) = i) P)" if "i < NSIZES" for i
      using P that chain_cong [of "filter (\<lambda>q. PR_BLOCKTYPE (pg h q) = i) P" "\<lambda>q. next_samesize (pg h4 q)" "\<lambda>q. next_samesize (pg h q)"] nP
      by (auto simp: lists_ok_def g)
    moreover have "next_all pr = allbase h" "next_samesize pr = sizebases h ! t" "allbase h4 = Some p"
      "sizebases h4 ! i = (if i = t then Some p else sizebases h ! i)" for i
      using t K(4) by (simp_all add: pr_def h4_def)
    ultimately show ?thesis using P nP u by (auto simp: lists_ok_def g bt)
  qed
  have "kinv {p} h4"
  proof (rule kinvI [OF _ _ _ _ lo])
    fix q assume q: "q \<in> used h4"
    show "page_ok (kw h4) (firstpaddr (hvm h4)) (pg h4 q)"
    proof (cases "q = p")
      case True
      then show ?thesis using F al(1,3) bt t m(2) a by (auto simp: g hs page_ok_def)
    next
      case False
      then have q': "q \<in> used h" using q u by simp
      have "page_ok mm (firstpaddr (hvm h)) (pg h q)" using page_live_cong(2) [OF K(6) [OF q'] memq [OF q']] .
      then show ?thesis using False m(2) by (auto simp: g hs page_ok_def)
    qed
    show "nfree (pg h4 q) < page_blocks (pg h4 q)" if "q \<notin> {p}" using K(7) [of q] that q u by (simp add: g)
    show "apart (page_of (pg h4 q)) (page_of (pg h4 r))" if "r \<in> used h4" "q \<noteq> r" for r
      using K(8) [of q r] oldp apart_sym q that u by (auto simp: g page_of_def bt)
  next
    have "apart b (a, 4096)" if "b \<in> set (bigs h)" for b using K(9) that a by (auto simp: bigs_ok_def apart_def)
    then show "bigs_ok h4" using K(9) m(2) unfolding bigs_ok_def u by (auto simp: g hs page_of_def bt)
  qed (use m(1) ws(1) K(2,4) in \<open>simp_all add: h4_def\<close>)
  moreover have "live h4 = live h"
  proof -
    have "page_live mm (pg h q) = page_live (kw h) (pg h q)" if "q \<in> used h" for q
      using page_live_cong(1) [OF K(6) [OF that] memq [OF that]] .
    then have "live_but p h4 = live h" using p(2) unfolding live_but_def live_def u by (auto simp: g hs split: if_splits)
    moreover have "page_live mm pr = {}" using free_of_page [OF F] sF by (simp add: page_live_def)
    ultimately show ?thesis using live_split [of p h4] u by (simp add: g hs)
  qed
  ultimately show ?thesis using run u bt out S(5) by (intro exI [of _ h4]) (auto simp: g hs pr_def)
qed

section \<open>Allocation\<close>

lemma hspl:
  assumes "kinv X h"
  shows "kinv X (snd (hsplhigh h))" and "fst (hsplhigh h) = curspl (hvm h)" and "live (snd (hsplhigh h)) = live h"
    and "used (snd (hsplhigh h)) = used h" and "kw (snd (hsplhigh h)) = kw h" and "pagerefs (snd (hsplhigh h)) = pagerefs h"
    and "firstpaddr (hvm (snd (hsplhigh h))) = firstpaddr (hvm h)" and "lastpaddr (hvm (snd (hsplhigh h))) = lastpaddr (hvm h)"
    and "bigs (snd (hsplhigh h)) = bigs h"
proof -
  have "ram_inv (snd (splhigh (hvm h)))" using kinvD(1) [OF assms] splhigh_inv by (simp add: ram_inv_def)
  then show "kinv X (snd (hsplhigh h))" using kinv_hvm [OF assms] by (simp add: hsplhigh_def case_prod_beta)
qed (simp_all add: hsplhigh_def case_prod_beta)

lemma hsplx_keeps:
  assumes "kinv X h" and "0 \<le> l"
  shows "kinv X (hsplx l h)"
proof -
  have s: "firstpaddr (snd (splx l m)) = firstpaddr m" "lastpaddr (snd (splx l m)) = lastpaddr m" for m :: machine
    by (simp_all add: splx_def interrupts_on_def interrupts_off_def Let_def)
  have "ram_inv (snd (splx l (hvm h)))" using kinvD(1) [OF assms(1)] splx_inv [OF assms(2), of "hvm h"] by (simp add: ram_inv_def s)
  then show ?thesis unfolding hsplx_def using assms(1) by (intro kinv_hvm) (simp_all add: s)
qed

lemma hsplx_sel [simp]:
  "live (hsplx l h) = live h" "used (hsplx l h) = used h" "kw (hsplx l h) = kw h" "pagerefs (hsplx l h) = pagerefs h"
  "bigs (hsplx l h) = bigs h"
  "firstpaddr (hvm (hsplx l h)) = firstpaddr (hvm h)" "lastpaddr (hvm (hsplx l h)) = lastpaddr (hvm h)" "curspl (hvm (hsplx l h)) = l"
  by (simp_all add: hsplx_def) (simp_all add: splx_def interrupts_on_def interrupts_off_def Let_def)

lemma live_below:
  assumes "kinv X h" and "b \<in> live h"
  shows "MIPS_KSEG0 < fst b" and "fst b + snd b \<le> MIPS_KSEG0 + firstpaddr (hvm h)" and "0 < snd b"
proof -
  note K = kinvD [OF assms(1)]
  have "MIPS_KSEG0 < fst b \<and> fst b + snd b \<le> MIPS_KSEG0 + firstpaddr (hvm h) \<and> 0 < snd b"
    using assms(2) unfolding live_def
  proof (elim UnE UN_E)
    fix p assume p: "p \<in> used h" "b \<in> page_live (kw h) (pg h p)"
    then show ?thesis using page_live_in [OF K(6) [OF p(1)] p(2)] K(6) [OF p(1)] block_dims(1) [of "pg h p"] by (auto simp: page_ok_def)
  next
    assume "b \<in> set (bigs h)"
    then show ?thesis using K(9) by (auto simp: bigs_ok_def)
  qed
  then show "MIPS_KSEG0 < fst b" "fst b + snd b \<le> MIPS_KSEG0 + firstpaddr (hvm h)" "0 < snd b" by auto
qed

lemma allocpageref_from_full:
  "allocpageref_from i k h = Some (None, h') \<Longrightarrow> \<forall>j. i \<le> j \<and> j < i + k \<longrightarrow> pagerefs_inuse h ! j = 0xffffffff"
proof (induction k arbitrary: i)
  case (Suc k)
  then have "pagerefs_inuse h ! i = 0xffffffff" "allocpageref_from (i + 1) k h = Some (None, h')"
    by (auto simp: rd_def bind_eq_Some_conv split: if_splits)
  then show ?case using Suc.IH [of "i + 1"] by (metis Suc_leI add_Suc_right add_Suc Suc_eq_plus1 le_eq_less_or_eq)
qed auto

lemma allocpageref_full:
  assumes "allocpageref h = Some (None, h')"
  shows "used h = {..<NPAGEREFS}"
proof -
  have "bit (pagerefs_inuse h ! (p div 32)) (p mod 32)" if "p < NPAGEREFS" for p
  proof -
    have "pagerefs_inuse h ! (p div 32) = 0xffffffff"
      using allocpageref_from_full [OF assms [unfolded allocpageref_def]] that by (simp add: NPAGEREFS_def INUSE_WORDS_def less_mult_imp_div_less)
    also have "(0xffffffff :: 32 word) = mask 32" by (simp add: mask_eq_exp_minus_1)
    finally show ?thesis by (simp only: bit_mask_iff) simp
  qed
  then show ?thesis by (auto simp: used_def)
qed

lemma kinv_inuse:
  assumes "kinv X h" and "length ws = INUSE_WORDS" and "used (h\<lparr>pagerefs_inuse := ws\<rparr>) = used h"
  shows "kinv X (h\<lparr>pagerefs_inuse := ws\<rparr>)" and "live (h\<lparr>pagerefs_inuse := ws\<rparr>) = live h"
proof -
  show "kinv X (h\<lparr>pagerefs_inuse := ws\<rparr>)" using assms unfolding kinv_def lists_ok_def bigs_ok_def by simp
  show "live (h\<lparr>pagerefs_inuse := ws\<rparr>) = live h" unfolding live_def assms(3) by simp
qed

lemma used_idem: "pagerefs_inuse h = pagerefs_inuse h' \<Longrightarrow> used h = used h'"
  by (simp add: used_def)

text \<open>
  What a call of \<^verbatim>\<open>kmalloc\<close> may do: hand out a block that was not in use, or find no page (or no page reference)
  left; the blocks in use keep their contents, and the interrupt level is what it was.
\<close>

definition no_room :: "nat \<Rightarrow> kheap \<Rightarrow> bool" where
  "no_room sz h \<longleftrightarrow> lastpaddr (hvm h) < firstpaddr (hvm h) + sz + PAGE_SIZE \<or> used h = {..<NPAGEREFS}"

definition alloc_ok :: "nat \<Rightarrow> kheap \<Rightarrow> nat option \<Rightarrow> kheap \<Rightarrow> bool" where
  "alloc_ok sz h r h' \<longleftrightarrow> kheap_inv h' \<and> curspl (hvm h') = curspl (hvm h) \<and> lastpaddr (hvm h') = lastpaddr (hvm h) \<and>
     (\<forall>(x, n) \<in> live h. \<forall>y. x \<le> y \<and> y < x + n \<longrightarrow> kw h' y = kw h y) \<and>
     (case r of
        None \<Rightarrow> live h' = live h \<and> no_room sz h
      | Some a \<Rightarrow> \<exists>n \<ge> sz. (a, n) \<notin> live h \<and> live h' = insert (a, n) (live h))"

lemma subpage_kmalloc_spec:
  assumes inv: "kheap_inv h" and sz: "sz \<le> 2048"
  shows "\<exists>r h'. subpage_kmalloc sz h = Some (r, h') \<and> alloc_ok sz h r h'"
proof -
  obtain t where t: "blocktype sz = Some t" "t < NSIZES" "sz \<le> sizes ! t" using blocktype_spec [OF sz] by blast
  define h1 where "h1 = snd (hsplhigh h)"
  let ?l = "curspl (hvm h)"
  note H = hspl [OF inv, folded h1_def]
  note K = kinvD [OF H(1)]
  have l: "0 \<le> ?l" using kinvD(1) [OF inv] by (simp add: ram_inv_def spl_inv_def)
  have sp: "hsplhigh h = (?l, h1)" using H(2) by (simp add: h1_def prod_eq_iff)
  obtain P where P: "lists_ok h1 P" using K(5) by blast
  have base: "rd (sizebases h1) t = Some (sizebases h1 ! t)" using K(4) t(2) by (simp add: rd_def)
  obtain hit where hit: "find_free list_fuel t (sizebases h1 ! t) h1 = Some hit"
    "\<And>p. hit = Some p \<Longrightarrow> p \<in> set P \<and> PR_BLOCKTYPE (pg h1 p) = t \<and> 0 < nfree (pg h1 p)"
    using find_free_spec [of h1 "sizebases h1 ! t" "filter (\<lambda>p. PR_BLOCKTYPE (pg h1 p) = t) P" t list_fuel] P t(2) K(2)
      list_length(2) [OF P] used_less by (fastforce simp: lists_ok_def)
  show ?thesis
  proof (cases hit)
    case (Some p)
    then have p: "p \<in> used h1" "PR_BLOCKTYPE (pg h1 p) = t" "0 < nfree (pg h1 p)" using hit(2) P by (auto simp: lists_ok_def)
    obtain a h2 where d: "doalloc p h1 = Some (a, h2)" "kheap_inv h2" "live h2 = insert (a, block_size (pg h1 p)) (live h1)"
      "(a, block_size (pg h1 p)) \<notin> live h1" "kw h2 = kw h1" "hvm h2 = hvm h1" using doalloc_spec [OF H(1) p(1) _ p(3)] by auto
    have "block_size (pg h1 p) = sizes ! t" using p(2) by (simp add: block_size_def)
    then show ?thesis using t d hsplx_keeps [OF d(2) l] H Some hit(1)
      by (auto simp: subpage_kmalloc_def sp base alloc_ok_def)
  next
    case None
    show ?thesis
    proof (cases "\<exists>p ws. allocpageref h1 = Some (Some p, h1\<lparr>pagerefs_inuse := ws\<rparr>) \<and> p < NPAGEREFS \<and> p \<notin> used h1 \<and>
        length ws = INUSE_WORDS \<and> used (h1\<lparr>pagerefs_inuse := ws\<rparr>) = insert p (used h1)")
      case False
      then have f: "allocpageref h1 = Some (None, h1)" using allocpageref_spec [OF K(3)] by blast
      show ?thesis using t f allocpageref_full [OF f] hsplx_keeps [OF H(1) l] H None hit(1)
        by (auto simp: subpage_kmalloc_def sp base alloc_ok_def no_room_def)
    next
      case True
      then obtain p ws where p: "allocpageref h1 = Some (Some p, h1\<lparr>pagerefs_inuse := ws\<rparr>)" "p < NPAGEREFS" "p \<notin> used h1"
        "length ws = INUSE_WORDS" "used (h1\<lparr>pagerefs_inuse := ws\<rparr>) = insert p (used h1)" by blast
      show ?thesis
      proof (cases "firstpaddr (hvm h1) + 4096 \<le> lastpaddr (hvm h1)")
        case False
        then have k: "alloc_kpages 1 (hvm h1) = (0, hvm h1)" using alloc_kpages_spec [OF K(1), of 1] by simp
        let ?h2 = "h1\<lparr>pagerefs_inuse := ws\<rparr>"
        obtain ws' where w: "freepageref p ?h2 = Some (h1\<lparr>pagerefs_inuse := ws'\<rparr>)" "length ws' = INUSE_WORDS"
          "used (h1\<lparr>pagerefs_inuse := ws'\<rparr>) = used h1"
          using freepageref_spec [of ?h2 p] p(3-5) by auto
        note I = kinv_inuse [OF H(1) w(2,3)]
        have "?h2\<lparr>hvm := hvm h1\<rparr> = ?h2" by simp
        then show ?thesis using t p(1) k w(1) hsplx_keeps [OF I(1) l] I(2) H None hit(1) False
          by (auto simp: subpage_kmalloc_def sp base alloc_ok_def no_room_def PAGE_SIZE_def)
      next
        case True
        let ?m = "(hvm h1)\<lparr>firstpaddr := firstpaddr (hvm h1) + 4096\<rparr>" and ?a = "firstpaddr (hvm h1) + MIPS_KSEG0"
        have k: "alloc_kpages 1 (hvm h1) = (?a, ?m)" using alloc_kpages_spec [OF K(1), of 1] True by simp
        have m: "ram_inv ?m" using ram_inv_alloc [OF K(1), of 1] True by (simp add: PAGE_SIZE_def)
        obtain h4 where n: "new_page p ?a t (h1\<lparr>pagerefs_inuse := ws, hvm := ?m\<rparr>) = Some h4" "kinv {p} h4" "p \<in> used h4"
          "live h4 = live h1" "hvm h4 = ?m" "PR_BLOCKTYPE (pg h4 p) = t" "0 < nfree (pg h4 p)"
          "\<forall>x. x < ?a \<or> ?a + 4096 \<le> x \<longrightarrow> kw h4 x = kw h1 x"
          using new_page_inv [OF H(1) p(2,3) t(2) p(4,5) m _ refl] by auto
        obtain a h5 where d: "doalloc p h4 = Some (a, h5)" "kheap_inv h5" "live h5 = insert (a, sizes ! t) (live h1)"
          "(a, sizes ! t) \<notin> live h1" "kw h5 = kw h4" "hvm h5 = ?m" using doalloc_spec [OF n(2,3) _ n(7)] n(4-6) by (auto simp: block_size_def)
        have same: "kw h4 y = kw h y" if "(x, k) \<in> live h" "x \<le> y" "y < x + k" for x k y
          using live_below(2) [OF inv that(1)] that n(8) H(5,7) by auto
        have run: "subpage_kmalloc sz h = Some (Some a, hsplx ?l h5)"
          using t(1) p(1) k n(1) d(1) None hit(1) True by (simp add: subpage_kmalloc_def sp base MIPS_KSEG0_def)
        show ?thesis unfolding run using t(3) d hsplx_keeps [OF d(2) l] H same by (auto simp: alloc_ok_def)
      qed
    qed
  qed
qed

section \<open>Unlinking a page\<close>

lemma chain_at: "chain nx b (vs @ z # zs) \<Longrightarrow> (if vs = [] then b else nx (last vs)) = Some z"
  by (induction vs arbitrary: b) auto

lemma remove_samesize_run:
  assumes "chain (\<lambda>q. next_samesize (pg h q)) (sizebases h ! t) (vs @ ws @ p # ys)" and "distinct (vs @ ws @ p # ys)"
    and "\<forall>q \<in> set (vs @ ws @ p # ys). q < length (pagerefs h)" and "t < length (sizebases h)" and "length ws < n"
  shows "remove_samesize n (if vs = [] then None else Some (last vs)) p t h =
    Some (if vs @ ws = [] then h\<lparr>sizebases := (sizebases h)[t := next_samesize (pg h p)]\<rparr>
          else h\<lparr>pagerefs := (pagerefs h)[last (vs @ ws) := (pg h (last (vs @ ws)))\<lparr>next_samesize := next_samesize (pg h p)\<rparr>]\<rparr>)"
  using assms
proof (induction ws arbitrary: vs n)
  case Nil
  then have l: "vs \<noteq> [] \<Longrightarrow> last vs < length (pagerefs h)" by simp
  obtain k where n: "n = Suc k" using Nil.prems(5) by (cases n) auto
  show ?case using chain_at [OF Nil.prems(1) [simplified]] Nil.prems l by (auto simp: n rd_def)
next
  case (Cons w ws)
  obtain k where n: "n = Suc k" using Cons.prems(5) by (cases n) auto
  have l: "vs \<noteq> [] \<Longrightarrow> last vs < length (pagerefs h)" using Cons.prems(3) by simp
  have "remove_samesize n (if vs = [] then None else Some (last vs)) p t h = remove_samesize k (Some w) p t h"
    using chain_at [of "\<lambda>q. next_samesize (pg h q)" "sizebases h ! t" vs w "ws @ p # ys"] Cons.prems l by (auto simp: n rd_def)
  then show ?case using Cons.IH [of "vs @ [w]" k] Cons.prems n by simp
qed

lemma remove_all_run:
  assumes "chain (\<lambda>q. next_all (pg h q)) (allbase h) (vs @ ws @ p # ys)" and "distinct (vs @ ws @ p # ys)"
    and "\<forall>q \<in> set (vs @ ws @ p # ys). q < length (pagerefs h)" and "length ws < n"
  shows "remove_all n (if vs = [] then None else Some (last vs)) p h =
    Some (if vs @ ws = [] then h\<lparr>allbase := next_all (pg h p)\<rparr>
          else h\<lparr>pagerefs := (pagerefs h)[last (vs @ ws) := (pg h (last (vs @ ws)))\<lparr>next_all := next_all (pg h p)\<rparr>]\<rparr>)"
  using assms
proof (induction ws arbitrary: vs n)
  case Nil
  then have l: "vs \<noteq> [] \<Longrightarrow> last vs < length (pagerefs h)" by simp
  obtain k where n: "n = Suc k" using Nil.prems(4) by (cases n) auto
  show ?case using chain_at [OF Nil.prems(1) [simplified]] Nil.prems l by (auto simp: n rd_def)
next
  case (Cons w ws)
  obtain k where n: "n = Suc k" using Cons.prems(4) by (cases n) auto
  have l: "vs \<noteq> [] \<Longrightarrow> last vs < length (pagerefs h)" using Cons.prems(3) by simp
  have "remove_all n (if vs = [] then None else Some (last vs)) p h = remove_all k (Some w) p h"
    using chain_at [of "\<lambda>q. next_all (pg h q)" "allbase h" vs w "ws @ p # ys"] Cons.prems l by (auto simp: n rd_def)
  then show ?case using Cons.IH [of "vs @ [w]" k] Cons.prems n by simp
qed

lemma unlink_samesize:
  assumes "chain (\<lambda>q. next_samesize (pg h q)) (sizebases h ! t) (us @ p # ys)" and "distinct (us @ p # ys)"
    and "\<forall>q \<in> set (us @ p # ys). q < length (pagerefs h)" and "t < length (sizebases h)" and "length us < n"
  shows "\<exists>h1. remove_samesize n None p t h = Some h1 \<and> chain (\<lambda>q. next_samesize (pg h1 q)) (sizebases h1 ! t) (us @ ys) \<and>
    (\<forall>i. i \<noteq> t \<longrightarrow> sizebases h1 ! i = sizebases h ! i) \<and> (\<forall>q. q \<notin> set us \<longrightarrow> pg h1 q = pg h q) \<and>
    (\<forall>q. \<exists>l. pg h1 q = (pg h q)\<lparr>next_samesize := l\<rparr>) \<and> length (pagerefs h1) = length (pagerefs h) \<and> length (sizebases h1) = length (sizebases h) \<and>
    h1 = h\<lparr>sizebases := sizebases h1, pagerefs := pagerefs h1\<rparr>"
proof -
  note r = remove_samesize_run [of h t "[]" us p ys n, simplified, OF assms(1) _ _ assms(4,5)]
  have same: "\<exists>l. pr = pr\<lparr>next_samesize := l\<rparr>" for pr :: pageref by (rule exI [of _ "next_samesize pr"]) simp
  show ?thesis
  proof (cases "us = []")
    case True
    then show ?thesis using r assms chain_unlink [OF assms(1,2)] same by simp
  next
    case False
    then have l: "last us < length (pagerefs h)" using assms(3) by simp
    let ?h1 = "h\<lparr>pagerefs := (pagerefs h)[last us := (pg h (last us))\<lparr>next_samesize := next_samesize (pg h p)\<rparr>]\<rparr>"
    have g: "pg ?h1 q = (if q = last us then (pg h q)\<lparr>next_samesize := next_samesize (pg h p)\<rparr> else pg h q)" for q using l by simp
    have "(\<lambda>q. next_samesize (pg ?h1 q)) = (\<lambda>q. next_samesize (pg h q))(last us := next_samesize (pg h p))"
      unfolding g by auto
    then have "chain (\<lambda>q. next_samesize (pg ?h1 q)) (sizebases h ! t) (us @ ys)" using chain_unlink [OF assms(1,2)] False by simp
    moreover have "\<exists>l. pg ?h1 q = (pg h q)\<lparr>next_samesize := l\<rparr>" for q unfolding g using same by auto
    moreover have "\<forall>q. q \<notin> set us \<longrightarrow> pg ?h1 q = pg h q" unfolding g using last_in_set [OF False] by auto
    ultimately show ?thesis using r assms False by (intro exI [of _ ?h1]) simp
  qed
qed

lemma unlink_all:
  assumes "chain (\<lambda>q. next_all (pg h q)) (allbase h) (us @ p # ys)" and "distinct (us @ p # ys)"
    and "\<forall>q \<in> set (us @ p # ys). q < length (pagerefs h)" and "length us < n"
  shows "\<exists>h1. remove_all n None p h = Some h1 \<and> chain (\<lambda>q. next_all (pg h1 q)) (allbase h1) (us @ ys) \<and>
    (\<forall>q. \<exists>l. pg h1 q = (pg h q)\<lparr>next_all := l\<rparr>) \<and> length (pagerefs h1) = length (pagerefs h) \<and>
    h1 = h\<lparr>allbase := allbase h1, pagerefs := pagerefs h1\<rparr>"
proof -
  note r = remove_all_run [of h "[]" us p ys n, simplified, OF assms(1) _ _ assms(4)]
  have same: "\<exists>l. pr = pr\<lparr>next_all := l\<rparr>" for pr :: pageref by (rule exI [of _ "next_all pr"]) simp
  show ?thesis
  proof (cases "us = []")
    case True
    then show ?thesis using r assms chain_unlink [OF assms(1,2)] same by simp
  next
    case False
    then have l: "last us < length (pagerefs h)" using assms(3) by simp
    let ?h1 = "h\<lparr>pagerefs := (pagerefs h)[last us := (pg h (last us))\<lparr>next_all := next_all (pg h p)\<rparr>]\<rparr>"
    have g: "pg ?h1 q = (if q = last us then (pg h q)\<lparr>next_all := next_all (pg h p)\<rparr> else pg h q)" for q using l by simp
    have "(\<lambda>q. next_all (pg ?h1 q)) = (\<lambda>q. next_all (pg h q))(last us := next_all (pg h p))"
      unfolding g by auto
    then have "chain (\<lambda>q. next_all (pg ?h1 q)) (allbase h) (us @ ys)" using chain_unlink [OF assms(1,2)] False by simp
    moreover have "\<exists>l. pg ?h1 q = (pg h q)\<lparr>next_all := l\<rparr>" for q unfolding g using same by auto
    ultimately show ?thesis using r assms False by (intro exI [of _ ?h1]) simp
  qed
qed

lemma remove_lists_spec:
  assumes inv: "kinv X h" and p: "p \<in> used h"
  shows "\<exists>h' P. remove_lists p (PR_BLOCKTYPE (pg h p)) h = Some h' \<and> distinct P \<and> set P = used h - {p} \<and>
    chain (\<lambda>q. next_all (pg h' q)) (allbase h') P \<and>
    (\<forall>t < NSIZES. chain (\<lambda>q. next_samesize (pg h' q)) (sizebases h' ! t) (filter (\<lambda>q. PR_BLOCKTYPE (pg h q) = t) P)) \<and>
    (\<forall>q. \<exists>l l'. pg h' q = (pg h q)\<lparr>next_samesize := l, next_all := l'\<rparr>) \<and> length (pagerefs h') = NPAGEREFS \<and>
    length (sizebases h') = NSIZES \<and> h' = h\<lparr>sizebases := sizebases h', allbase := allbase h', pagerefs := pagerefs h'\<rparr>"
proof -
  note K = kinvD [OF inv]
  let ?t = "PR_BLOCKTYPE (pg h p)"
  have t: "?t < NSIZES" using K(6) [OF p] by (simp add: page_ok_def)
  obtain P where P: "lists_ok h P" using K(5) by blast
  then obtain us ys where S: "P = us @ p # ys" using p split_list [of p P] by (auto simp: lists_ok_def)
  have L: "distinct (us @ p # ys)" "set (us @ p # ys) = used h" "chain (\<lambda>q. next_all (pg h q)) (allbase h) (us @ p # ys)"
    and T: "\<And>t. t < NSIZES \<Longrightarrow> chain (\<lambda>q. next_samesize (pg h q)) (sizebases h ! t) (filter (\<lambda>q. PR_BLOCKTYPE (pg h q) = t) (us @ p # ys))"
    using P S by (auto simp: lists_ok_def)
  let ?f = "filter (\<lambda>q. PR_BLOCKTYPE (pg h q) = ?t)"
  have len: "length us < list_fuel" "length (?f us) < list_fuel"
    using list_length(1) [OF P] S le_less_trans [OF length_filter_le, of us list_fuel] by simp_all
  have b: "\<forall>q \<in> set (us @ p # ys). q < length (pagerefs h)" using L(2) used_less K(2) by auto
  obtain h1 where 1: "remove_samesize list_fuel None p ?t h = Some h1"
    "chain (\<lambda>q. next_samesize (pg h1 q)) (sizebases h1 ! ?t) (?f us @ ?f ys)" "\<And>i. i \<noteq> ?t \<Longrightarrow> sizebases h1 ! i = sizebases h ! i"
    "\<And>q. q \<notin> set (?f us) \<Longrightarrow> pg h1 q = pg h q" "\<And>q. \<exists>l. pg h1 q = (pg h q)\<lparr>next_samesize := l\<rparr>"
    "length (pagerefs h1) = length (pagerefs h)" "length (sizebases h1) = length (sizebases h)"
    "h1 = h\<lparr>sizebases := sizebases h1, pagerefs := pagerefs h1\<rparr>"
    using unlink_samesize [of h ?t "?f us" p "?f ys" list_fuel] T [OF t] L(1) b t K(4) len(2) by auto
  have "next_all (pg h1 q) = next_all (pg h q)" for q using 1(5) [of q] by auto
  moreover have "allbase h1 = allbase h" by (subst 1(8)) simp
  ultimately obtain h2 where 2: "remove_all list_fuel None p h1 = Some h2" "chain (\<lambda>q. next_all (pg h2 q)) (allbase h2) (us @ ys)"
    "\<And>q. \<exists>l. pg h2 q = (pg h1 q)\<lparr>next_all := l\<rparr>" "length (pagerefs h2) = length (pagerefs h)"
    "h2 = h1\<lparr>allbase := allbase h2, pagerefs := pagerefs h2\<rparr>"
    using unlink_all [of h1 us p ys list_fuel] L b len(1) 1(6) by auto
  have s: "sizebases h2 = sizebases h1" by (subst 2(5)) simp
  have n: "next_samesize (pg h2 q) = next_samesize (pg h1 q)" for q using 2(3) [of q] by auto
  have "chain (\<lambda>q. next_samesize (pg h2 q)) (sizebases h2 ! i) (filter (\<lambda>q. PR_BLOCKTYPE (pg h q) = i) (us @ ys))" if i: "i < NSIZES" for i
  proof (cases "i = ?t")
    case True
    then show ?thesis using 1(2) by (simp add: n s)
  next
    case False
    let ?g = "filter (\<lambda>q. PR_BLOCKTYPE (pg h q) = i) (us @ ys)"
    have "\<forall>q \<in> set ?g. next_samesize (pg h1 q) = next_samesize (pg h q)" using 1(4) False by auto
    then have "chain (\<lambda>q. next_samesize (pg h1 q)) (sizebases h ! i) ?g = chain (\<lambda>q. next_samesize (pg h q)) (sizebases h ! i) ?g"
      by (rule chain_cong)
    then show ?thesis using T [OF i] False 1(3) [OF False] by (simp add: n s)
  qed
  moreover have "\<exists>l l'. pg h2 q = (pg h q)\<lparr>next_samesize := l, next_all := l'\<rparr>" for q using 1(5) [of q] 2(3) [of q] by fastforce
  moreover have "h2 = h\<lparr>sizebases := sizebases h2, allbase := allbase h2, pagerefs := pagerefs h2\<rparr>"
    by (subst 2(5), subst 1(8)) (simp add: s)
  moreover have "remove_lists p ?t h = Some h2" using 1(1) 2(1) t by (simp add: remove_lists_def)
  ultimately show ?thesis using L(1,2) 1(7) 2(2,4) K(2,4) s by (intro exI [of _ h2] exI [of _ "us @ ys"]) auto
qed

lemma drop_page:
  assumes inv: "kinv {p} h" and p: "p \<in> used h" and full: "nfree (pg h p) = page_blocks (pg h p)"
  shows "\<exists>h4 h'. remove_lists p (PR_BLOCKTYPE (pg h p)) h = Some h4 \<and> freepageref p h4 = Some h' \<and> hvm h4 = hvm h \<and>
    kheap_inv h' \<and> live h' = live h \<and> kw h' = kw h \<and> hvm h' = hvm h"
proof -
  note K = kinvD [OF inv]
  obtain h4 P where R: "remove_lists p (PR_BLOCKTYPE (pg h p)) h = Some h4" "distinct P" "set P = used h - {p}"
    "chain (\<lambda>q. next_all (pg h4 q)) (allbase h4) P"
    "\<forall>t < NSIZES. chain (\<lambda>q. next_samesize (pg h4 q)) (sizebases h4 ! t) (filter (\<lambda>q. PR_BLOCKTYPE (pg h q) = t) P)"
    "\<And>q. \<exists>l l'. pg h4 q = (pg h q)\<lparr>next_samesize := l, next_all := l'\<rparr>" "length (pagerefs h4) = NPAGEREFS"
    "length (sizebases h4) = NSIZES" "h4 = h\<lparr>sizebases := sizebases h4, allbase := allbase h4, pagerefs := pagerefs h4\<rparr>"
    using remove_lists_spec [OF inv p] by metis
  have s: "pagerefs_inuse h4 = pagerefs_inuse h" "hvm h4 = hvm h" "kw h4 = kw h" "bigs h4 = bigs h" by (subst R(9), simp)+
  have u: "used h4 = used h" using used_idem [OF s(1)] .
  obtain ws where W: "freepageref p h4 = Some (h4\<lparr>pagerefs_inuse := ws\<rparr>)" "length ws = INUSE_WORDS"
    "used (h4\<lparr>pagerefs_inuse := ws\<rparr>) = used h - {p}" using freepageref_spec [of h4 p] K(3) p s(1) u by auto
  let ?h = "h4\<lparr>pagerefs_inuse := ws\<rparr>"
  have g: "PR_BLOCKTYPE (pg h4 q) = PR_BLOCKTYPE (pg h q)" "page_of (pg h4 q) = page_of (pg h q)" "nfree (pg h4 q) = nfree (pg h q)"
    "page_blocks (pg h4 q) = page_blocks (pg h q)" "page_ok m lim (pg h4 q) = page_ok m lim (pg h q)" "page_live m (pg h4 q) = page_live m (pg h q)" for q m lim
    using R(6) [of q] by (auto simp: page_of_def page_live_def)
  have lo: "lists_ok ?h P" using R(2-5) W(3) by (simp add: lists_ok_def g)
  have "kheap_inv ?h"
  proof (rule kinvI [OF _ _ _ _ lo])
    show "bigs_ok ?h" using K(9) unfolding bigs_ok_def W(3) by (simp add: g s)
  qed (use K R(7,8) W in \<open>auto simp: g s\<close>)
  moreover have "live ?h = live h"
  proof -
    obtain F where F: "page_free (kw h) (pg h p) F" "PR_BLOCKTYPE (pg h p) < NSIZES" using page_free_of [OF inv p] .
    then have "set F = blocks (pg h p)" using page_free_length(2) [OF F(2,1)] full by (simp add: page_free_def)
    then have "page_live (kw h) (pg h p) = {}" using free_of_page [OF F(1)] by (simp add: page_live_def)
    then show ?thesis unfolding live_split [OF p] by (simp add: live_def live_but_def W(3) g s)
  qed
  ultimately show ?thesis using R(1) W(1) s by (intro exI [of _ h4] exI [of _ ?h]) simp
qed

section \<open>Freeing\<close>

lemma fold_upd_other: "\<forall>i \<in> set xs. x \<noteq> g i \<Longrightarrow> fold (\<lambda>i m. m(g i := c)) xs m x = m x"
  by (induction xs arbitrary: m) auto

lemma fill_deadbeef_other: "y < a \<or> a + n \<le> y \<Longrightarrow> fill_deadbeef a n m y = m y"
  unfolding fill_deadbeef_def by (rule fold_upd_other) (auto simp: less_eq_div_iff_mult_less_eq)

text \<open>What a call of \<^verbatim>\<open>kfree\<close> on a block in use does.\<close>

definition free_ok :: "nat \<times> nat \<Rightarrow> kheap \<Rightarrow> kheap \<Rightarrow> bool" where
  "free_ok b h h' \<longleftrightarrow> kheap_inv h' \<and> curspl (hvm h') = curspl (hvm h) \<and> lastpaddr (hvm h') = lastpaddr (hvm h) \<and>
     live h' = live h - {b} \<and> (\<forall>(x, n) \<in> live h - {b}. \<forall>y. x \<le> y \<and> y < x + n \<longrightarrow> kw h' y = kw h y)"

lemma put_on_page:
  assumes inv: "kheap_inv h" and p: "p \<in> used h" and b: "(a, n) \<in> page_live (kw h) (pg h p)"
    and m: "m a = (if freelist_offset (pg h p) = INVALID_OFFSET then 0 else PR_PAGEADDR (pg h p) + freelist_offset (pg h p))"
      "\<And>y. y < a \<or> a + n \<le> y \<Longrightarrow> m y = kw h y"
  shows "kinv {p} (with_page p (Suc (nfree (pg h p))) (a - PR_PAGEADDR (pg h p)) m h)"
    and "live (with_page p (Suc (nfree (pg h p))) (a - PR_PAGEADDR (pg h p)) m h) = live h - {(a, n)}"
    and "Suc (nfree (pg h p)) \<le> page_blocks (pg h p)" and "n = block_size (pg h p)"
proof -
  note K = kinvD [OF inv]
  let ?pr = "pg h p"
  obtain F where F: "page_free (kw h) ?pr F" "PR_BLOCKTYPE ?pr < NSIZES" using page_free_of [OF inv p] .
  note I = page_live_in [OF K(6) [OF p] b, simplified]
  have aF: "a \<notin> set F" using I(5) free_of_page [OF F(1)] by simp
  have nf: "nfree ?pr = length F" using F(1) by (simp add: page_free_def)
  show n: "n = block_size ?pr" using I(2) .
  note R = block_range [OF F(2)] and D = block_dims [OF F(2)]
  have sF: "set F \<subseteq> blocks ?pr" using F(1) by (simp add: page_free_def)
  have mF: "\<forall>y \<in> set F. m y = kw h y"
  proof
    fix y assume y: "y \<in> set F"
    then have "a + block_size ?pr \<le> y \<or> y + block_size ?pr \<le> a" using blocks_disjoint [OF F(2) I(1), of y] sF aF by blast
    then show "m y = kw h y" using m(2) [of y] n D(1) by linarith
  qed
  have "freelist_offset ?pr \<noteq> INVALID_OFFSET" if "F \<noteq> []"
  proof -
    have "hd F \<in> blocks ?pr" using that sF by auto
    then show ?thesis using R(4) [of "hd F"] F(1) that by (auto simp: page_free_def INVALID_OFFSET_def)
  qed
  then have ma: "m a = (if F = [] then 0 else hd F)" using m(1) F(1) by (auto simp: page_free_def)
  have a0: "a \<noteq> 0" using I(3) page_addr_less(2) [OF inv p] by simp
  note B = put_block [OF F(1,2) I(1) aF a0 ma mF]
  have eq: "?pr\<lparr>freelist_offset := a - PR_PAGEADDR ?pr, nfree := Suc (length F)\<rparr> = ?pr\<lparr>nfree := Suc (nfree ?pr), freelist_offset := a - PR_PAGEADDR ?pr\<rparr>"
    using nf by simp
  note B' = B [unfolded eq]
  show "Suc (nfree ?pr) \<le> page_blocks ?pr" using page_free_length(1) [OF _ B'] F(2) nf by simp
  have others: "\<forall>q \<in> used h - {p}. \<forall>x \<in> free_of (kw h) (pg h q). m x = kw h x"
  proof (intro ballI)
    fix q x assume q: "q \<in> used h - {p}" and x: "x \<in> free_of (kw h) (pg h q)"
    obtain G where G: "page_free (kw h) (pg h q) G" "PR_BLOCKTYPE (pg h q) < NSIZES" using page_free_of [OF inv, of q] q by blast
    have "x \<in> blocks (pg h q)" using x free_of_page [OF G(1)] G(1) by (auto simp: page_free_def)
    note X = block_range [OF G(2) this]
    show "m x = kw h x" using K(8) [OF p, of q] q X I(3,4) by (intro m(2)) (auto simp: apart_def page_of_def)
  qed
  note W = with_page_inv [OF inv p _ _ B' others]
  show "kinv {p} (with_page p (Suc (nfree ?pr)) (a - PR_PAGEADDR ?pr) m h)" by (rule W(1)) auto
  have "(a, n) \<notin> live_but p h" using not_live_but [OF inv p I(1)] .
  then show "live (with_page p (Suc (nfree ?pr)) (a - PR_PAGEADDR ?pr) m h) = live h - {(a, n)}"
    unfolding W(2) [of "{p}", simplified] live_split [OF p] using free_of_page [OF F(1)] n by (auto simp: page_live_def)
qed

lemma find_page_used:
  assumes "kinv X h"
  shows "\<exists>r. find_page list_fuel a (allbase h) h = Some r \<and>
    (case r of
       Some p \<Rightarrow> p \<in> used h \<and> PR_PAGEADDR (pg h p) \<le> a \<and> a < PR_PAGEADDR (pg h p) + 4096
     | None \<Rightarrow> \<forall>p \<in> used h. \<not> (PR_PAGEADDR (pg h p) \<le> a \<and> a < PR_PAGEADDR (pg h p) + 4096))"
proof -
  note K = kinvD [OF assms]
  obtain P where P: "lists_ok h P" using K(5) by blast
  then have "\<forall>p \<in> set P. p < length (pagerefs h) \<and> PR_BLOCKTYPE (pg h p) < NSIZES"
    using K(2,6) used_less by (auto simp: lists_ok_def page_ok_def)
  moreover have "chain (\<lambda>p. next_all (pg h p)) (allbase h) P" and u: "set P = used h" using P by (simp_all add: lists_ok_def)
  ultimately show ?thesis using find_page_spec [OF _ _ list_length(1) [OF P], of h "allbase h" a] unfolding u by blast
qed

lemma find_page_own:
  assumes inv: "kinv X h" and p: "p \<in> used h" and a: "a \<in> blocks (pg h p)"
  shows "find_page list_fuel a (allbase h) h = Some (Some p)"
proof -
  note K = kinvD [OF inv]
  have t: "PR_BLOCKTYPE (pg h p) < NSIZES" using K(6) [OF p] by (simp add: page_ok_def)
  note R = block_range [OF t a]
  have uniq: "q = p" if "q \<in> used h" "PR_PAGEADDR (pg h q) \<le> a" "a < PR_PAGEADDR (pg h q) + 4096" for q
    using K(8) [OF p that(1)] that R by (auto simp: apart_def page_of_def)
  obtain r where r: "find_page list_fuel a (allbase h) h = Some r" and
    c: "case r of
       Some p \<Rightarrow> p \<in> used h \<and> PR_PAGEADDR (pg h p) \<le> a \<and> a < PR_PAGEADDR (pg h p) + 4096
     | None \<Rightarrow> \<forall>p \<in> used h. \<not> (PR_PAGEADDR (pg h p) \<le> a \<and> a < PR_PAGEADDR (pg h p) + 4096)"
    using find_page_used [OF inv, of a] by blast
  show ?thesis
  proof (cases r)
    case None
    then show ?thesis using c p R(1,4) by auto
  next
    case (Some q)
    then have "q = p" using c by (intro uniq) auto
    then show ?thesis using r Some by simp
  qed
qed

text \<open>The end of \<^verbatim>\<open>subpage_kfree\<close>: a page without blocks in use is given back.\<close>

lemma settle_page:
  assumes inv: "kinv {p} h" and p: "p \<in> used h" and n: "nfree (pg h p) \<le> page_blocks (pg h p)"
  shows "\<exists>h'. (if nfree (pg h p) = PAGE_SIZE div block_size (pg h p)
        then do { h4 \<leftarrow> remove_lists p (PR_BLOCKTYPE (pg h p)) h; freepageref p (h4\<lparr>hvm := free_kpages (PR_PAGEADDR (pg h p)) (hvm h4)\<rparr>) }
        else Some h) = Some h' \<and> kheap_inv h' \<and> live h' = live h \<and> kw h' = kw h \<and> hvm h' = hvm h"
proof (cases "nfree (pg h p) = page_blocks (pg h p)")
  case True
  have "free_kpages x mm = mm" for x mm by (simp add: free_kpages_def)
  then show ?thesis using drop_page [OF inv p True] True by (auto simp: page_blocks_def PAGE_SIZE_def)
next
  case False
  then have "kheap_inv h" using n inv unfolding kinv_def by (metis DiffE DiffI le_neq_implies_less singletonD empty_iff)
  then show ?thesis using False by (simp add: page_blocks_def PAGE_SIZE_def)
qed

lemma pageref_swap: "(pr :: pageref)\<lparr>freelist_offset := x, nfree := y\<rparr> = pr\<lparr>nfree := y, freelist_offset := x\<rparr>"
  by simp

lemma subpage_kfree_page:
  assumes inv: "kheap_inv h" and p: "p \<in> used h" and b: "(a, n) \<in> page_live (kw h) (pg h p)"
  shows "\<exists>h'. subpage_kfree a h = Some (True, h') \<and> free_ok (a, n) h h'"
proof -
  define h1 where "h1 = snd (hsplhigh h)"
  let ?l = "curspl (hvm h)"
  note H = hspl [OF inv, folded h1_def]
  note K = kinvD [OF H(1)]
  have l: "0 \<le> ?l" using kinvD(1) [OF inv] by (simp add: ram_inv_def spl_inv_def)
  have sp: "hsplhigh h = (?l, h1)" using H(2) by (simp add: h1_def prod_eq_iff)
  let ?pr = "pg h1 p"
  have p1: "p \<in> used h1" and b1: "(a, n) \<in> page_live (kw h1) ?pr" using p b H(4-6) by simp_all
  note I = page_live_in [OF K(6) [OF p1] b1, simplified]
  have t: "PR_BLOCKTYPE ?pr < NSIZES" using K(6) [OF p1] by (simp add: page_ok_def)
  note R = block_range [OF t I(1)] and D = block_dims [OF t] and fp = find_page_own [OF H(1) p1 I(1)]
  define nx where "nx = (if freelist_offset ?pr = INVALID_OFFSET then 0 else PR_PAGEADDR ?pr + freelist_offset ?pr)"
  define m where "m = (fill_deadbeef a (block_size ?pr) (kw h1))(a := nx)"
  have m: "m a = nx" "\<And>y. y < a \<or> a + n \<le> y \<Longrightarrow> m y = kw h1 y"
    using fill_deadbeef_other [of _ a n] I(2) D(1) by (auto simp: m_def)
  note Q = put_on_page [OF H(1) p1 b1 m(1) [unfolded nx_def] m(2)]
  let ?h2 = "with_page p (Suc (nfree ?pr)) (a - PR_PAGEADDR ?pr) m h1"
  have keep: "m y = kw h y" if "(x, k) \<in> live h - {(a, n)}" "x \<le> y" "y < x + k" for x k y
  proof -
    have "(a, n) \<in> live h1" using p1 b1 by (auto simp: live_def)
    then have "apart (x, k) (a, n)" using live_apart [OF H(1), of "(x, k)" "(a, n)"] that(1) H(3) by auto
    then show ?thesis using that m(2) [of y] H(5) by (auto simp: apart_def)
  qed
  have pl: "p < length (pagerefs h1)" using used_less [OF p1] K(2) by simp
  note g = with_page_pg [OF pl, of "Suc (nfree ?pr)" "a - PR_PAGEADDR ?pr" m p, simplified]
  obtain h3 where h3: "(if Suc (nfree ?pr) = PAGE_SIZE div block_size ?pr
        then do { h4 \<leftarrow> remove_lists p (PR_BLOCKTYPE ?pr) ?h2; freepageref p (h4\<lparr>hvm := free_kpages (PR_PAGEADDR ?pr) (hvm h4)\<rparr>) }
        else Some ?h2) = Some h3" "kheap_inv h3" "live h3 = live h1 - {(a, n)}" "kw h3 = m" "hvm h3 = hvm h1"
    using settle_page [OF Q(1)] p1 Q(2,3) unfolding g pr_links pr_parts by auto
  have off: "a - PR_PAGEADDR ?pr < 4096" using R by auto
  have nf: "(nfree ?pr + 1) mod 2 ^ 16 = Suc (nfree ?pr)" "Suc (nfree ?pr) \<le> PAGE_SIZE div block_size ?pr"
    using Q(3) D(6) by (simp_all add: page_blocks_def PAGE_SIZE_def)
  have "subpage_kfree a h = Some (True, hsplx ?l h3)"
    using fp pl D(7) R(3) off nf h3(1)
    by (simp add: subpage_kfree_def sp rd_def Let_def PAGE_SIZE_def nx_def [symmetric] m_def [symmetric] pageref_swap with_page_def [symmetric])
      (auto simp: bind_eq_Some_conv split: if_splits)
  moreover have "\<forall>(x, k) \<in> live h - {(a, n)}. \<forall>y. x \<le> y \<and> y < x + k \<longrightarrow> m y = kw h y" using keep by blast
  ultimately show ?thesis using h3(2-5) hsplx_keeps [OF h3(2) l] H by (simp add: free_ok_def)
qed

lemma subpage_kfree_big:
  assumes inv: "kheap_inv h" and b: "(a, n) \<in> set (bigs h)"
  shows "subpage_kfree a h = Some (False, h)"
proof -
  have "\<not> (PR_PAGEADDR (pg h p) \<le> a \<and> a < PR_PAGEADDR (pg h p) + 4096)" if "p \<in> used h" for p
    using kinvD(9) [OF inv] b that by (force simp: bigs_ok_def apart_def page_of_def)
  then have "find_page list_fuel a (allbase (snd (hsplhigh h))) (snd (hsplhigh h)) = Some None"
    using find_page_used [OF hspl(1) [OF inv], of a] hspl [OF inv] by (fastforce split: option.splits)
  moreover have "hsplx (curspl (hvm h)) (snd (hsplhigh h)) = h"
    using spl_pair_machine [of "hvm h"] kinvD(1) [OF inv] by (simp add: hsplx_def hsplhigh_def case_prod_beta ram_inv_def)
  moreover have "hsplhigh h = (curspl (hvm h), snd (hsplhigh h))" using hspl(2) [OF inv] by (simp add: prod_eq_iff)
  ultimately show ?thesis unfolding subpage_kfree_def by (metis (no_types, lifting) bind.bind_lunit case_prod_conv option.case(1))
qed

lemma kinv_bigs:
  assumes "kinv X h" and "bigs_ok (h\<lparr>hvm := m, bigs := bs\<rparr>)" and "ram_inv m" and "firstpaddr (hvm h) \<le> firstpaddr m"
  shows "kinv X (h\<lparr>hvm := m, bigs := bs\<rparr>)"
proof -
  note K = kinvD [OF assms(1)]
  let ?h = "h\<lparr>hvm := m, bigs := bs\<rparr>"
  have u: "used ?h = used h" by (simp add: used_def)
  obtain P where "lists_ok h P" using K(5) by blast
  then have lo: "lists_ok ?h P" by (simp add: lists_ok_def u)
  show ?thesis
  proof (rule kinvI [OF _ _ _ _ lo])
    fix p assume p: "p \<in> used ?h"
    then show "page_ok (kw ?h) (firstpaddr (hvm ?h)) (pg ?h p)" using K(6) [of p] assms(4) u by (auto simp: page_ok_def)
  qed (use K assms(2,3) u in auto)
qed

lemma live_bigs: "live (h\<lparr>hvm := m, bigs := bs\<rparr>) = (\<Union>p \<in> used h. page_live (kw h) (pg h p)) \<union> set bs"
  by (simp add: live_def used_def)

lemma kfree_big:
  assumes inv: "kheap_inv h" and b: "(a, n) \<in> set (bigs h)"
  shows "\<exists>h'. kfree (Some a) h = Some h' \<and> free_ok (a, n) h h'"
proof -
  note K = kinvD [OF inv]
  have B: "\<forall>c \<in> set (bigs h). 4096 dvd fst c \<and> 0 < snd c" "\<forall>c \<in> set (bigs h). c \<noteq> (a, n) \<longrightarrow> apart c (a, n)"
    using K(9) b by (auto simp: bigs_ok_def)
  define bs where "bs = filter (\<lambda>c. fst c \<noteq> a) (bigs h)"
  have sb: "set bs = set (bigs h) - {(a, n)}"
  proof -
    have uniq: "c = (a, n)" if "c \<in> set (bigs h)" "fst c = a" for c
    proof (rule ccontr)
      assume "c \<noteq> (a, n)"
      then have "apart c (a, n)" using B(2) that(1) by blast
      moreover have "0 < snd c" "0 < n" using B(1) that(1) b by auto
      ultimately show False using that(2) by (auto simp: apart_def)
    qed
    have "c \<in> set bs \<longleftrightarrow> c \<in> set (bigs h) - {(a, n)}" for c using uniq [of c] by (cases "c = (a, n)") (auto simp: bs_def)
    then show ?thesis by blast
  qed
  let ?h = "h\<lparr>hvm := hvm h, bigs := bs\<rparr>"
  have "used ?h = used h" by (simp add: used_def)
  then have "bigs_ok ?h" using K(9) sb unfolding bigs_ok_def by simp
  then have ki: "kheap_inv ?h" using K(1) by (intro kinv_bigs [OF inv]) simp_all
  have "(a, n) \<notin> page_live (kw h) (pg h p)" if "p \<in> used h" for p
  proof
    assume "(a, n) \<in> page_live (kw h) (pg h p)"
    note I = page_live_in [OF K(6) [OF that] this]
    have "apart (a, n) (page_of (pg h p))" "0 < n" using K(9) b that by (auto simp: bigs_ok_def)
    then show False using I by (auto simp: apart_def page_of_def)
  qed
  then have "live ?h = live h - {(a, n)}" unfolding live_bigs sb by (auto simp: live_def)
  moreover have "kfree (Some a) h = Some ?h"
    using subpage_kfree_big [OF inv b] B(1) b by (auto simp: kfree_def free_kpages_def bs_def PAGE_SIZE_def mod_eq_0_iff_dvd)
  ultimately show ?thesis using ki by (auto simp: free_ok_def)
qed

lemma kfree_spec:
  assumes "kheap_inv h" and "(a, n) \<in> live h"
  shows "\<exists>h'. kfree (Some a) h = Some h' \<and> free_ok (a, n) h h'"
proof (cases "(a, n) \<in> set (bigs h)")
  case True
  then show ?thesis using kfree_big [OF assms(1)] by blast
next
  case False
  then obtain p where "p \<in> used h" "(a, n) \<in> page_live (kw h) (pg h p)" using assms(2) by (auto simp: live_def)
  then show ?thesis using subpage_kfree_page [OF assms(1)] by (fastforce simp: kfree_def)
qed

lemma kmalloc_big:
  assumes inv: "kheap_inv h" and sz: "2048 \<le> sz" "sz \<le> 2 ^ 29"
  shows "\<exists>r h'. kmalloc sz h = Some (r, h') \<and> alloc_ok sz h r h'"
proof -
  note K = kinvD [OF inv]
  define n where "n = (sz + 4095) div 4096"
  define r where "r = (sz + 4095) mod 4096"
  have e: "sz + 4095 = 4096 * n + r" "r < 4096" by (simp_all add: n_def r_def)
  have n: "n \<le> 2 ^ 17" "sz \<le> n * 4096" "n * 4096 < sz + 4096" "0 < n" using e sz by simp_all
  have s: "size32 (sz + PAGE_SIZE - 1) div PAGE_SIZE = n" using sz by (simp add: PAGE_SIZE_def n_def size32_id)
  note A = alloc_kpages_spec [OF K(1) n(1)]
  show ?thesis
  proof (cases "firstpaddr (hvm h) + n * 4096 \<le> lastpaddr (hvm h)")
    case False
    have "h\<lparr>hvm := hvm h\<rparr> = h" by simp
    then have "kmalloc sz h = Some (None, h)" using A False sz by (simp add: kmalloc_def s LARGEST_SUBPAGE_SIZE_def del: One_nat_def)
    then show ?thesis using inv False n by (auto simp: alloc_ok_def no_room_def PAGE_SIZE_def)
  next
    case True
    let ?a = "firstpaddr (hvm h) + MIPS_KSEG0" and ?m = "(hvm h)\<lparr>firstpaddr := firstpaddr (hvm h) + n * 4096\<rparr>"
    let ?h = "h\<lparr>hvm := ?m, bigs := (?a, n * 4096) # bigs h\<rparr>"
    have run: "kmalloc sz h = Some (Some ?a, ?h)" using A True sz 
      by (simp add: kmalloc_def s LARGEST_SUBPAGE_SIZE_def MIPS_KSEG0_def del: One_nat_def) (simp add: PAGE_SIZE_def)
    have below: "fst b + snd b \<le> ?a" "0 < snd b" if "b \<in> live h" for b using live_below [OF inv that] by simp_all
    have fresh: "(?a, n * 4096) \<notin> live h" using below by fastforce
    have u: "used ?h = used h" by (simp add: used_def)
    have pages: "apart (?a, n * 4096) (page_of (pg h p))" if "p \<in> used h" for p
      using K(6) [OF that] by (auto simp: page_ok_def apart_def page_of_def)
    have olds: "apart (?a, n * 4096) c" "apart c (?a, n * 4096)" if "c \<in> set (bigs h)" for c
      using below(1) [of c] that by (auto simp: apart_def live_def)
    have "bigs_ok ?h"
      using K(1,9) n(4) pages olds unfolding bigs_ok_def u by (auto simp: ram_inv_def MIPS_KSEG0_def intro: dvd_add)
    then have "kheap_inv ?h" using ram_inv_alloc [OF K(1), of n] True by (intro kinv_bigs [OF inv]) (simp_all add: PAGE_SIZE_def)
    moreover have "live ?h = insert (?a, n * 4096) (live h)" unfolding live_bigs by (auto simp: live_def)
    ultimately show ?thesis using run fresh n(2) by (auto simp: alloc_ok_def)
  qed
qed

lemma kmalloc_spec:
  assumes "kheap_inv h" and "sz \<le> 2 ^ 29"
  shows "\<exists>r h'. kmalloc sz h = Some (r, h') \<and> alloc_ok sz h r h'"
proof (cases "2048 \<le> sz")
  case True
  then show ?thesis using kmalloc_big [OF assms(1) _ assms(2)] by blast
next
  case False
  then show ?thesis using subpage_kmalloc_spec [OF assms(1), of sz] by (simp add: kmalloc_def LARGEST_SUBPAGE_SIZE_def)
qed

section \<open>Clients\<close>

text \<open>A client writes a word of a block it has been given.\<close>

definition client_store :: "nat \<Rightarrow> nat \<Rightarrow> kheap \<Rightarrow> kheap" where
  "client_store a x h = h\<lparr>kw := (kw h)(a := x)\<rparr>"

lemma live_not_free:
  assumes inv: "kinv X h" and b: "b \<in> live h" and p: "p \<in> used h" and y: "y \<in> free_of (kw h) (pg h p)"
  shows "y < fst b \<or> fst b + snd b \<le> y"
proof -
  note K = kinvD [OF inv]
  obtain F where F: "page_free (kw h) (pg h p) F" "PR_BLOCKTYPE (pg h p) < NSIZES" using page_free_of [OF inv p] .
  have yb: "y \<in> blocks (pg h p)" using y free_of_page [OF F(1)] F(1) by (auto simp: page_free_def)
  note R = block_range [OF F(2) yb]
  from b show ?thesis unfolding live_def
  proof (elim UnE UN_E)
    fix q assume q: "q \<in> used h" "b \<in> page_live (kw h) (pg h q)"
    note I = page_live_in [OF K(6) [OF q(1)] q(2)]
    show ?thesis
    proof (cases "q = p")
      case True
      then have "fst b \<noteq> y" using I(5) y by auto
      then show ?thesis using blocks_disjoint [OF F(2) yb, of "fst b"] I(1,2) True block_dims(1) [OF F(2)] by auto
    next
      case False
      then show ?thesis using K(8) [OF p q(1)] I R by (auto simp: apart_def page_of_def)
    qed
  next
    assume "b \<in> set (bigs h)"
    then have "apart b (page_of (pg h p))" using K(9) p by (auto simp: bigs_ok_def)
    then show ?thesis using R by (auto simp: apart_def page_of_def)
  qed
qed

lemma client_store_spec:
  assumes inv: "kheap_inv h" and b: "(x, n) \<in> live h" and a: "x \<le> a" "a < x + n"
  shows "kheap_inv (client_store a w h)" and "live (client_store a w h) = live h"
proof -
  note K = kinvD [OF inv]
  let ?m = "(kw h)(a := w)" and ?h = "client_store a w h"
  have f: "\<forall>y \<in> free_of (kw h) (pg h p). ?m y = kw h y" if "p \<in> used h" for p using live_not_free [OF inv b that, of a] a by auto
  have pk: "page_ok ?m (firstpaddr (hvm h)) (pg h p)" "page_live ?m (pg h p) = page_live (kw h) (pg h p)" if "p \<in> used h" for p
    using page_live_cong [OF K(6) [OF that] f [OF that]] by blast+
  have u: "used ?h = used h" "pagerefs ?h = pagerefs h" "kw ?h = ?m" "hvm ?h = hvm h" "bigs ?h = bigs h" by (simp_all add: client_store_def used_def)
  obtain P where "lists_ok h P" using K(5) by blast
  then have lo: "lists_ok ?h P" by (simp add: lists_ok_def u) (simp add: client_store_def)
  show "kheap_inv ?h"
  proof (rule kinvI [OF _ _ _ _ lo])
    fix p assume "p \<in> used ?h"
    then show "page_ok (kw ?h) (firstpaddr (hvm ?h)) (pg ?h p)" using pk u by simp
  next
    show "bigs_ok ?h" using K(9) by (simp add: bigs_ok_def u)
  qed (use K u in \<open>auto simp: client_store_def\<close>)
  show "live ?h = live h" using pk(2) by (simp add: live_def u)
qed

text \<open>A client's calls, and the words it wrote last.\<close>

datatype request = Malloc nat | Free nat | Store nat nat

primrec client_run :: "(nat \<Rightarrow> 's \<Rightarrow> (nat option \<times> 's) option) \<Rightarrow> (nat option \<Rightarrow> 's \<Rightarrow> 's option) \<Rightarrow> (nat \<Rightarrow> nat \<Rightarrow> 's \<Rightarrow> 's) \<Rightarrow>
    request list \<Rightarrow> 's \<Rightarrow> 's option" where
  "client_run alloc free store [] s = Some s"
| "client_run alloc free store (r # rs) s =
     (case r of
        Malloc sz \<Rightarrow> do { (_, s1) \<leftarrow> alloc sz s; client_run alloc free store rs s1 }
      | Free a \<Rightarrow> do { s1 \<leftarrow> free (Some a) s; client_run alloc free store rs s1 }
      | Store a x \<Rightarrow> client_run alloc free store rs (store a x s))"

primrec last_store :: "request list \<Rightarrow> nat \<Rightarrow> nat \<Rightarrow> nat" where
  "last_store [] y x = x"
| "last_store (r # rs) y x = last_store rs y (case r of Store a w \<Rightarrow> if a = y then w else x | _ \<Rightarrow> x)"

text \<open>A client that keeps the rules: sizes within bounds, only its blocks are freed and written.\<close>

primrec client_ok :: "(nat \<Rightarrow> 's \<Rightarrow> (nat option \<times> 's) option) \<Rightarrow> (nat option \<Rightarrow> 's \<Rightarrow> 's option) \<Rightarrow> (nat \<Rightarrow> nat \<Rightarrow> 's \<Rightarrow> 's) \<Rightarrow>
    ('s \<Rightarrow> (nat \<times> nat) set) \<Rightarrow> nat \<Rightarrow> request list \<Rightarrow> 's \<Rightarrow> bool" where
  "client_ok alloc free store lv bound [] s \<longleftrightarrow> True"
| "client_ok alloc free store lv bound (r # rs) s \<longleftrightarrow>
     (case r of
        Malloc sz \<Rightarrow> sz \<le> bound \<and> (case alloc sz s of Some (_, s1) \<Rightarrow> client_ok alloc free store lv bound rs s1 | None \<Rightarrow> True)
      | Free a \<Rightarrow> (\<exists>n. (a, n) \<in> lv s) \<and> (case free (Some a) s of Some s1 \<Rightarrow> client_ok alloc free store lv bound rs s1 | None \<Rightarrow> True)
      | Store a x \<Rightarrow> (\<exists>(b, n) \<in> lv s. b \<le> a \<and> a < b + n) \<and> client_ok alloc free store lv bound rs (store a x s))"

locale allocator =
  fixes invar :: "'s \<Rightarrow> bool" and lv :: "'s \<Rightarrow> (nat \<times> nat) set" and wds :: "'s \<Rightarrow> nat \<Rightarrow> nat" and bound :: nat
    and alloc :: "nat \<Rightarrow> 's \<Rightarrow> (nat option \<times> 's) option" and free :: "nat option \<Rightarrow> 's \<Rightarrow> 's option" and store :: "nat \<Rightarrow> nat \<Rightarrow> 's \<Rightarrow> 's"
  assumes lv_apart: "invar s \<Longrightarrow> b \<in> lv s \<Longrightarrow> c \<in> lv s \<Longrightarrow> b \<noteq> c \<Longrightarrow> apart b c"
    and alloc_law: "invar s \<Longrightarrow> sz \<le> bound \<Longrightarrow> \<exists>r s'. alloc sz s = Some (r, s') \<and> invar s' \<and> lv s \<subseteq> lv s' \<and>
      (\<forall>(x, n) \<in> lv s. \<forall>y. x \<le> y \<and> y < x + n \<longrightarrow> wds s' y = wds s y)"
    and free_law: "invar s \<Longrightarrow> (a, k) \<in> lv s \<Longrightarrow> \<exists>s'. free (Some a) s = Some s' \<and> invar s' \<and> lv s' = lv s - {(a, k)} \<and>
      (\<forall>(x, n) \<in> lv s - {(a, k)}. \<forall>y. x \<le> y \<and> y < x + n \<longrightarrow> wds s' y = wds s y)"
    and store_law: "invar s \<Longrightarrow> (x, n) \<in> lv s \<Longrightarrow> x \<le> a \<Longrightarrow> a < x + n \<Longrightarrow> invar (store a w s) \<and> lv (store a w s) = lv s \<and>
      wds (store a w s) = (wds s)(a := w)"
begin

lemma client_run_total:
  assumes "invar s" and "client_ok alloc free store lv bound rs s"
  shows "\<exists>s'. client_run alloc free store rs s = Some s' \<and> invar s' \<and>
    (\<forall>(x, n) \<in> lv s. Free x \<notin> set rs \<longrightarrow> (x, n) \<in> lv s' \<and> (\<forall>y. x \<le> y \<and> y < x + n \<longrightarrow> wds s' y = last_store rs y (wds s y)))"
  using assms
proof (induction rs arbitrary: s)
  case (Cons r rs)
  show ?case
  proof (cases r)
    case (Malloc sz)
    then obtain q s1 where a: "alloc sz s = Some (q, s1)" "invar s1" "lv s \<subseteq> lv s1"
      "\<forall>(x, n) \<in> lv s. \<forall>y. x \<le> y \<and> y < x + n \<longrightarrow> wds s1 y = wds s y" using alloc_law [OF Cons.prems(1), of sz] Cons.prems(2) by auto
    then obtain s' where i: "client_run alloc free store rs s1 = Some s'" "invar s'" "\<forall>(x, n) \<in> lv s1. Free x \<notin> set rs \<longrightarrow>
        (x, n) \<in> lv s' \<and> (\<forall>y. x \<le> y \<and> y < x + n \<longrightarrow> wds s' y = last_store rs y (wds s1 y))"
      using Cons.IH [OF a(2)] Cons.prems(2) Malloc by auto
    have "(x, n) \<in> lv s' \<and> (\<forall>y. x \<le> y \<and> y < x + n \<longrightarrow> wds s' y = last_store rs y (wds s y))"
      if "(x, n) \<in> lv s" "Free x \<notin> set rs" for x n using i(3) a(3,4) that by fastforce
    then show ?thesis using Malloc a(1) i(1,2) by auto
  next
    case (Free a)
    then obtain k where k: "(a, k) \<in> lv s" using Cons.prems(2) by auto
    obtain s1 where a: "free (Some a) s = Some s1" "invar s1" "lv s1 = lv s - {(a, k)}"
      "\<forall>(x, n) \<in> lv s - {(a, k)}. \<forall>y. x \<le> y \<and> y < x + n \<longrightarrow> wds s1 y = wds s y" using free_law [OF Cons.prems(1) k] by auto
    then obtain s' where i: "client_run alloc free store rs s1 = Some s'" "invar s'" "\<forall>(x, n) \<in> lv s1. Free x \<notin> set rs \<longrightarrow>
        (x, n) \<in> lv s' \<and> (\<forall>y. x \<le> y \<and> y < x + n \<longrightarrow> wds s' y = last_store rs y (wds s1 y))"
      using Cons.IH [OF a(2)] Cons.prems(2) Free by auto
    have "(x, n) \<in> lv s' \<and> (\<forall>y. x \<le> y \<and> y < x + n \<longrightarrow> wds s' y = last_store rs y (wds s y))"
      if "(x, n) \<in> lv s" "x \<noteq> a" "Free x \<notin> set rs" for x n using i(3) a(3,4) that by fastforce
    then show ?thesis using Free a(1) i(1,2) by auto
  next
    case (Store a w)
    then obtain x k where k: "(x, k) \<in> lv s" "x \<le> a" "a < x + k" using Cons.prems(2) by auto
    note L = store_law [OF Cons.prems(1) k]
    then obtain s' where i: "client_run alloc free store rs (store a w s) = Some s'" "invar s'" "\<forall>(x, n) \<in> lv s. Free x \<notin> set rs \<longrightarrow>
        (x, n) \<in> lv s' \<and> (\<forall>y. x \<le> y \<and> y < x + n \<longrightarrow> wds s' y = last_store rs y (if y = a then w else wds s y))"
      using Cons.IH [of "store a w s"] Cons.prems(2) Store by auto
    then show ?thesis using Store by (auto simp: eq_commute [of a])
  qed
qed auto

end

interpretation kh: allocator kheap_inv live kw "2 ^ 29" kmalloc kfree client_store
proof
  fix s :: kheap and sz
  assume s: "kheap_inv s"
  show "apart b c" if "b \<in> live s" "c \<in> live s" "b \<noteq> c" for b c using live_apart [OF s that] .
  show "\<exists>r s'. kmalloc sz s = Some (r, s') \<and> kheap_inv s' \<and> live s \<subseteq> live s' \<and>
      (\<forall>(x, n) \<in> live s. \<forall>y. x \<le> y \<and> y < x + n \<longrightarrow> kw s' y = kw s y)" if "sz \<le> 2 ^ 29"
    using kmalloc_spec [OF s that] by (fastforce simp: alloc_ok_def split: option.splits)
  show "\<exists>s'. kfree (Some a) s = Some s' \<and> kheap_inv s' \<and> live s' = live s - {(a, k)} \<and>
      (\<forall>(x, n) \<in> live s - {(a, k)}. \<forall>y. x \<le> y \<and> y < x + n \<longrightarrow> kw s' y = kw s y)" if "(a, k) \<in> live s" for a k
    using kfree_spec [OF s that] unfolding free_ok_def by blast
  show "kheap_inv (client_store a w s) \<and> live (client_store a w s) = live s \<and> kw (client_store a w s) = (kw s)(a := w)"
    if "(x, n) \<in> live s" "x \<le> a" "a < x + n" for x n a w using client_store_spec [OF s that] by (simp add: client_store_def)
qed

section \<open>Properties\<close>

text \<open>The heap at boot: the static variables are zero.\<close>

definition kheap_start :: "machine \<Rightarrow> (nat \<Rightarrow> nat) \<Rightarrow> kheap" where
  "kheap_start m w = \<lparr>hvm = m, pagerefs = replicate NPAGEREFS \<lparr>next_samesize = None, next_all = None, pageaddr_and_blocktype = 0,
       freelist_offset = 0, nfree = 0\<rparr>, pagerefs_inuse = replicate INUSE_WORDS 0, sizebases = replicate NSIZES None, allbase = None,
     kw = w, bigs = []\<rparr>"

lemma used_start: "used (kheap_start m w) = {}"
proof -
  have "p div 32 < INUSE_WORDS" if "p < NPAGEREFS" for p using that by (simp add: NPAGEREFS_def INUSE_WORDS_def less_mult_imp_div_less)
  then show ?thesis by (auto simp: used_def kheap_start_def)
qed

lemma kheap_start_ok:
  assumes "ram_inv m"
  shows "kheap_inv (kheap_start m w)" and "live (kheap_start m w) = {}"
proof -
  let ?h = "kheap_start m w"
  have s: "hvm ?h = m" "bigs ?h = []" by (simp_all add: kheap_start_def)
  have "lists_ok ?h []" by (simp add: lists_ok_def used_start) (simp add: kheap_start_def)
  then show "kheap_inv ?h" by (rule kinvI [rotated 4]) (use assms in \<open>simp_all add: used_start bigs_ok_def s\<close>, simp_all add: kheap_start_def)
  show "live ?h = {}" by (simp add: live_def used_start s)
qed

text \<open>C24: every request of at most 512 megabytes is answered, with the interrupt level as it was and the invariant kept. A pointer
  that is returned is a block of at least the size asked for that overlaps no block in use, and becomes the only new block in
  use; the null pointer is returned only when memory or page references have run out, and changes no block. The
  contents of the blocks in use are what they were.\<close>

theorem kmalloc_fresh:
  assumes "kheap_inv h" and "sz \<le> 2 ^ 29"
  shows "\<exists>r h'. kmalloc sz h = Some (r, h') \<and> kheap_inv h' \<and> curspl (hvm h') = curspl (hvm h) \<and>
    (case r of
       None \<Rightarrow> live h' = live h \<and> (lastpaddr (hvm h) < firstpaddr (hvm h) + sz + PAGE_SIZE \<or> used h = {..<NPAGEREFS})
     | Some a \<Rightarrow> \<exists>n \<ge> sz. live h' = insert (a, n) (live h) \<and> (\<forall>b \<in> live h. apart (a, n) b)) \<and>
    (\<forall>(x, n) \<in> live h. \<forall>y. x \<le> y \<and> y < x + n \<longrightarrow> kw h' y = kw h y)"
proof -
  obtain r h' where r: "kmalloc sz h = Some (r, h')" "alloc_ok sz h r h'" using kmalloc_spec [OF assms] by blast
  then have i: "kheap_inv h'" by (simp add: alloc_ok_def)
  have "\<forall>b \<in> live h. apart (a, n) b" if "(a, n) \<notin> live h" "live h' = insert (a, n) (live h)" for a n
    using live_apart [OF i, of "(a, n)"] that by blast
  then show ?thesis using r by (fastforce simp: alloc_ok_def no_room_def split: option.splits)
qed

text \<open>Freeing a block in use succeeds, with the interrupt level as it was and the invariant kept; exactly that block is no
  longer in use, and the contents of all the others are what they were.\<close>

theorem kfree_live:
  assumes "kheap_inv h" and "(a, n) \<in> live h"
  shows "\<exists>h'. kfree (Some a) h = Some h' \<and> kheap_inv h' \<and> curspl (hvm h') = curspl (hvm h) \<and> live h' = live h - {(a, n)} \<and>
    (\<forall>(x, k) \<in> live h - {(a, n)}. \<forall>y. x \<le> y \<and> y < x + k \<longrightarrow> kw h' y = kw h y)"
  using kfree_spec [OF assms] by (auto simp: free_ok_def)

text \<open>C10: no sequence of calls of \<^verbatim>\<open>kmalloc\<close>, of \<^verbatim>\<open>kfree\<close> on blocks in use and of writes into them trips an assertion of
  the heap; a block that is in use at the start and never freed is in use at the end and holds what was written to it last.\<close>

theorem heap_clients:
  assumes "kheap_inv h" and "client_ok kmalloc kfree client_store live (2 ^ 29) rs h"
  shows "\<exists>h'. client_run kmalloc kfree client_store rs h = Some h' \<and> kheap_inv h' \<and>
    (\<forall>(x, n) \<in> live h. Free x \<notin> set rs \<longrightarrow>
       (x, n) \<in> live h' \<and> (\<forall>y. x \<le> y \<and> y < x + n \<longrightarrow> kw h' y = last_store rs y (kw h y)))"
  using kh.client_run_total [OF assms] .

text \<open>A request within 4095 bytes of the largest size is rounded up to no pages at all: it succeeds and reserves nothing, so
  that the next request for a page is given the same address.\<close>

theorem kmalloc_size_wraps:
  assumes "kheap_inv h" and "2 ^ 32 - 4096 < sz" and "sz < 2 ^ 32" and "firstpaddr (hvm h) + PAGE_SIZE \<le> lastpaddr (hvm h)"
  shows "\<exists>a h1 h2. kmalloc sz h = Some (Some a, h1) \<and> kmalloc PAGE_SIZE h1 = Some (Some a, h2)"
proof -
  have r: "ram_inv (hvm h)" using kinvD(1) [OF assms(1)] .
  define k where "k = sz - (2 ^ 32 - 4095)"
  have k: "sz + 4095 = k + 2 ^ 32" "k < 4096" using assms(2,3) by (simp_all add: k_def)
  have "size32 (sz + 4095) div 4096 = 0" unfolding k(1) size32_def mod_add_self2 using k(2) by simp
  then have s: "size32 (sz + PAGE_SIZE - 1) div PAGE_SIZE = 0" by (simp add: PAGE_SIZE_def add.commute)
  have "alloc_kpages 0 (hvm h) = (firstpaddr (hvm h) + MIPS_KSEG0, hvm h)" using alloc_kpages_spec [OF r, of 0] r by (simp add: ram_inv_def)
  then have "\<exists>bs. kmalloc sz h = Some (Some (firstpaddr (hvm h) + MIPS_KSEG0), h\<lparr>bigs := bs\<rparr>)"
    using assms(2) by (intro exI [of _ "(firstpaddr (hvm h) + MIPS_KSEG0, 0) # bigs h"])
      (simp add: kmalloc_def s LARGEST_SUBPAGE_SIZE_def MIPS_KSEG0_def del: One_nat_def)
  moreover have "\<exists>h2. kmalloc PAGE_SIZE (h\<lparr>bigs := bs\<rparr>) = Some (Some (firstpaddr (hvm h) + MIPS_KSEG0), h2)" for bs
    using alloc_kpages_spec [OF r, of 1] assms(4) by (simp add: kmalloc_def LARGEST_SUBPAGE_SIZE_def PAGE_SIZE_def MIPS_KSEG0_def size32_def)
  ultimately show ?thesis by blast
qed

text \<open>The properties at a heap in use: one large block, \<open>demo_block\<close>, on a machine of 512 kilobytes.\<close>

definition demo_heap :: kheap where
  "demo_heap = snd (the (kmalloc 5000 (kheap_start demo_machine (\<lambda>_. 0))))"

definition demo_block :: nat where "demo_block = 0x80010000"

lemma demo_heap_live: "kheap_inv demo_heap" "(demo_block, 8192) \<in> live demo_heap"
proof -
  note S = kheap_start_ok [OF demo_ok(2), of "\<lambda>_. 0"]
  have m: "hvm (kheap_start demo_machine w) = demo_machine" for w by (simp add: kheap_start_def)
  obtain r h' where r: "kmalloc 5000 (kheap_start demo_machine (\<lambda>_. 0)) = Some (r, h')" "alloc_ok 5000 (kheap_start demo_machine (\<lambda>_. 0)) r h'"
    using kmalloc_spec [OF S(1), of 5000] by auto
  then show "kheap_inv demo_heap" by (simp add: demo_heap_def alloc_ok_def)
  have "alloc_kpages 2 demo_machine = (demo_block, demo_machine\<lparr>firstpaddr := firstpaddr demo_machine + 2 * 4096\<rparr>)"
    using alloc_kpages_spec [OF demo_ok(2), of 2] by (simp add: demo_machine_def demo_block_def MIPS_KSEG0_def)
  then show "(demo_block, 8192) \<in> live demo_heap"
    by (simp add: demo_heap_def kmalloc_def m LARGEST_SUBPAGE_SIZE_def PAGE_SIZE_def size32_def demo_block_def live_def)
qed

lemma kmalloc_fresh_witness: "\<exists>r h'. kmalloc 100 demo_heap = Some (r, h') \<and> kheap_inv h' \<and> kw h' demo_block = kw demo_heap demo_block"
  using kmalloc_fresh [OF demo_heap_live(1), of 100] demo_heap_live(2) by fastforce

lemma kfree_live_witness: "\<exists>h'. kfree (Some demo_block) demo_heap = Some h' \<and> live h' = live demo_heap - {(demo_block, 8192)}"
  using kfree_live [OF demo_heap_live] by blast

lemma heap_clients_witness:
  "\<exists>h'. client_run kmalloc kfree client_store [Store demo_block 7, Malloc 100, Malloc 3000] demo_heap = Some h' \<and> kw h' demo_block = 7"
proof -
  have "client_ok kmalloc kfree client_store live (2 ^ 29) [Store demo_block 7, Malloc 100, Malloc 3000] demo_heap"
    using demo_heap_live(2) by (auto split: option.splits intro!: bexI [of _ "(demo_block, 8192)"])
  from heap_clients [OF demo_heap_live(1) this] demo_heap_live(2) show ?thesis by fastforce
qed

lemma kmalloc_size_wraps_witness:
  "\<exists>a h1 h2. kmalloc 0xfffffff0 (kheap_start demo_machine (\<lambda>_. 0)) = Some (Some a, h1) \<and> kmalloc PAGE_SIZE h1 = Some (Some a, h2)"
  by (rule kmalloc_size_wraps [OF kheap_start_ok(1) [OF demo_ok(2)]]) (simp_all add: kheap_start_def demo_machine_def PAGE_SIZE_def)

end
