(* ===== verification/Copyinout.thy ===== *)
theory Copyinout
  imports Prelude
begin

text \<open>
  \<^verbatim>\<open>kern/lib/copyinout.c\<close>: copying between the kernel and a user process. Memory is a function
  from addresses to bytes that is undefined where an access would fault fatally; the
  \<^verbatim>\<open>setjmp\<close>/\<^verbatim>\<open>longjmp\<close> recovery through \<^verbatim>\<open>copyfail\<close> becomes the result \<^verbatim>\<open>EFAULT\<close> with whatever
  had been copied before the fault.
\<close>

section \<open>Memory\<close>

type_synonym byte = "8 word"
type_synonym memory = "nat \<Rightarrow> byte option"

definition USERTOP :: nat where "USERTOP = 0x80000000"

text \<open>\<^verbatim>\<open>memcpy\<close> from and to memory that may fault: what was copied, and whether all of it was.\<close>

fun memcpy_in :: "memory \<Rightarrow> nat \<Rightarrow> nat \<Rightarrow> byte list \<times> bool" where
  "memcpy_in m a 0 = ([], True)"
| "memcpy_in m a (Suc n) =
     (case m a of
        None \<Rightarrow> ([], False)
      | Some b \<Rightarrow> (let (bs, done) = memcpy_in m (a + 1) n in (b # bs, done)))"

fun memcpy_out :: "memory \<Rightarrow> nat \<Rightarrow> byte list \<Rightarrow> memory \<times> bool" where
  "memcpy_out m a [] = (m, True)"
| "memcpy_out m a (b # bs) =
     (case m a of
        None \<Rightarrow> (m, False)
      | Some _ \<Rightarrow> memcpy_out (m(a \<mapsto> b)) (a + 1) bs)"

section \<open>The functions\<close>

text \<open>\<^verbatim>\<open>copycheck\<close>; on success the value of \<^verbatim>\<open>*stoplen\<close>.\<close>

definition copycheck :: "nat \<Rightarrow> nat \<Rightarrow> nat res" where
  "copycheck userptr len =
     (let bot = userptr;
          top = size32 (bot + len + 2 ^ 32 - 1)
      in if top < bot then Inl EFAULT
         else if bot \<ge> USERTOP then Inl EFAULT
         else if top \<ge> USERTOP then Inr (USERTOP - bot)
         else Inr len)"

text \<open>\<^verbatim>\<open>copyin\<close>: \<open>dest\<close> is the kernel buffer, handed back with the bytes copied into its front.\<close>

definition copyin :: "memory \<Rightarrow> nat \<Rightarrow> byte list \<Rightarrow> nat \<Rightarrow> unit res \<times> byte list" where
  "copyin m usersrc dest len =
     (case copycheck usersrc len of
        Inl e \<Rightarrow> (Inl e, dest)
      | Inr stoplen \<Rightarrow>
          if stoplen \<noteq> len then (Inl EFAULT, dest)
          else (let (bs, done) = memcpy_in m usersrc len;
                    dest' = bs @ drop (length bs) dest
                in (if done then Inr () else Inl EFAULT, dest')))"

definition copyout :: "memory \<Rightarrow> byte list \<Rightarrow> nat \<Rightarrow> nat \<Rightarrow> unit res \<times> memory" where
  "copyout m src userdest len =
     (case copycheck userdest len of
        Inl e \<Rightarrow> (Inl e, m)
      | Inr stoplen \<Rightarrow>
          if stoplen \<noteq> len then (Inl EFAULT, m)
          else (let (m', done) = memcpy_out m userdest (take len src)
                in (if done then Inr () else Inl EFAULT, m')))"

text \<open>
  \<^verbatim>\<open>copystr\<close> between two memories. The argument \<open>k\<close> counts the iterations left, \<open>i\<close> the ones
  done; a fault is \<^verbatim>\<open>EFAULT\<close>. On success the value is the length with its terminator.
\<close>

fun copystr_from :: "memory \<Rightarrow> nat \<Rightarrow> memory \<Rightarrow> nat \<Rightarrow> nat \<Rightarrow> nat \<Rightarrow> nat \<Rightarrow> nat \<Rightarrow> nat res \<times> memory" where
  "copystr_from dm d sm s maxlen stoplen i 0 =
     (if stoplen < maxlen then (Inl EFAULT, dm) else (Inl ENAMETOOLONG, dm))"
| "copystr_from dm d sm s maxlen stoplen i (Suc k) =
     (case (sm (s + i), dm (d + i)) of
        (Some c, Some _) \<Rightarrow>
          (let dm' = dm(d + i \<mapsto> c)
           in if c = 0 then (Inr (i + 1), dm')
              else copystr_from dm' d sm s maxlen stoplen (i + 1) k)
      | _ \<Rightarrow> (Inl EFAULT, dm))"

definition copystr :: "memory \<Rightarrow> nat \<Rightarrow> memory \<Rightarrow> nat \<Rightarrow> nat \<Rightarrow> nat \<Rightarrow> nat res \<times> memory" where
  "copystr dm d sm s maxlen stoplen = copystr_from dm d sm s maxlen stoplen 0 (min maxlen stoplen)"

definition copyinstr :: "memory \<Rightarrow> nat \<Rightarrow> memory \<Rightarrow> nat \<Rightarrow> nat \<Rightarrow> nat res \<times> memory" where
  "copyinstr um usersrc km dest len =
     (case copycheck usersrc len of
        Inl e \<Rightarrow> (Inl e, km)
      | Inr stoplen \<Rightarrow> copystr km dest um usersrc len stoplen)"

definition copyoutstr :: "memory \<Rightarrow> nat \<Rightarrow> memory \<Rightarrow> nat \<Rightarrow> nat \<Rightarrow> nat res \<times> memory" where
  "copyoutstr km src um userdest len =
     (case copycheck userdest len of
        Inl e \<Rightarrow> (Inl e, um)
      | Inr stoplen \<Rightarrow> copystr um userdest km src len stoplen)"

section \<open>Lemmas\<close>

text \<open>What \<^verbatim>\<open>copycheck\<close> accepts lies in user space.\<close>

lemma copycheck_spec:
  assumes "userptr < 2 ^ 32" and "len < 2 ^ 32"
  shows "copycheck userptr len = Inr s \<longleftrightarrow>
    (if len = 0 then userptr = 0 \<and> s = USERTOP
     else userptr + len \<le> 2 ^ 32 \<and> userptr < USERTOP \<and> s = min len (USERTOP - userptr))"
proof -
  have t: "size32 (userptr + len + 2 ^ 32 - 1) =
     (if len = 0 \<and> userptr = 0 then 2 ^ 32 - 1
      else if userptr + len \<le> 2 ^ 32 then userptr + len - 1 else userptr + len - 1 - 2 ^ 32)"
  proof (cases "len = 0 \<and> userptr = 0")
    case False
    then have e: "userptr + len + 2 ^ 32 - 1 = (userptr + len - 1) + 2 ^ 32" by arith
    show ?thesis
    proof (cases "userptr + len \<le> 2 ^ 32")
      case True
      then show ?thesis using False assms unfolding e size32_def mod_add_self2 by simp
    next
      case big: False
      then have "userptr + len - 1 = (userptr + len - 1 - 2 ^ 32) + 2 ^ 32" by simp
      then have "size32 (userptr + len + 2 ^ 32 - 1) = (userptr + len - 1 - 2 ^ 32) mod 2 ^ 32"
        by (metis e mod_add_self2 size32_def)
      moreover have "userptr + len - 1 - 2 ^ 32 < 2 ^ 32" using assms by simp
      ultimately show ?thesis using big False by simp
    qed
  qed (simp add: size32_def)
  show ?thesis
    using assms unfolding copycheck_def Let_def t USERTOP_def by (auto simp: min_def)
qed

lemma copycheck_full:
  "userptr < 2 ^ 32 \<Longrightarrow> len < 2 ^ 32 \<Longrightarrow> copycheck userptr len = Inr len \<longleftrightarrow> 0 < len \<and> userptr + len \<le> USERTOP"
  by (auto simp: copycheck_spec USERTOP_def)

lemma copycheck_err: "copycheck p l = Inl e \<Longrightarrow> e = EFAULT"
  by (auto simp: copycheck_def Let_def split: if_splits)

text \<open>The longest readable prefix.\<close>

definition readable :: "memory \<Rightarrow> nat \<Rightarrow> nat \<Rightarrow> bool" where
  "readable m a n \<longleftrightarrow> (\<forall>i < n. m (a + i) \<noteq> None)"

definition contents :: "memory \<Rightarrow> nat \<Rightarrow> nat \<Rightarrow> byte list" where
  "contents m a n = map (\<lambda>i. the (m (a + i))) [0..<n]"

lemma length_contents [simp]: "length (contents m a n) = n"
  by (simp add: contents_def)

lemma contents_nth [simp]: "i < n \<Longrightarrow> contents m a n ! i = the (m (a + i))"
  by (simp add: contents_def)

lemma readable_0 [simp]: "readable m a 0" by (simp add: readable_def)

lemma readable_Suc: "readable m a (Suc n) \<longleftrightarrow> m a \<noteq> None \<and> readable m (Suc a) n"
  by (auto simp: readable_def less_Suc_eq_0_disj)

lemma contents_0 [simp]: "contents m a 0 = []" by (simp add: contents_def)

lemma contents_Suc: "contents m a (Suc n) = the (m a) # contents m (Suc a) n"
  by (simp add: contents_def map_upt_Suc_shift del: upt_Suc)

lemma memcpy_in_spec:
  "snd (memcpy_in m a n) = readable m a n \<and> (readable m a n \<longrightarrow> fst (memcpy_in m a n) = contents m a n)"
  by (induction n arbitrary: a) (simp_all add: readable_Suc contents_Suc case_prod_beta split: option.split)

lemma memcpy_in_length: "length (fst (memcpy_in m a n)) \<le> n"
  by (induction n arbitrary: a) (simp_all add: case_prod_beta split: option.split)

lemma memcpy_out_frame:
  "x < a \<or> a + length bs \<le> x \<Longrightarrow> fst (memcpy_out m a bs) x = m x"
  by (induction bs arbitrary: m a) (auto split: option.split)

lemma memcpy_out_spec:
  "snd (memcpy_out m a bs) = readable m a (length bs) \<and>
   (readable m a (length bs) \<longrightarrow>
     (\<forall>i < length bs. fst (memcpy_out m a bs) (a + i) = Some (bs ! i)))"
proof (induction bs arbitrary: m a)
  case Nil
  then show ?case by simp
next
  case (Cons b bs)
  show ?case
  proof (cases "m a")
    case None
    then show ?thesis by (simp add: readable_Suc)
  next
    case (Some c)
    have r: "readable (m(a \<mapsto> b)) (Suc a) (length bs) = readable m (Suc a) (length bs)"
      by (auto simp: readable_def)
    have "fst (memcpy_out (m(a \<mapsto> b)) (Suc a) bs) a = Some b" by (simp add: memcpy_out_frame)
    moreover have "snd (memcpy_out (m(a \<mapsto> b)) (Suc a) bs) = readable (m(a \<mapsto> b)) (Suc a) (length bs) \<and>
        (readable (m(a \<mapsto> b)) (Suc a) (length bs) \<longrightarrow>
          (\<forall>i < length bs. fst (memcpy_out (m(a \<mapsto> b)) (Suc a) bs) (Suc a + i) = Some (bs ! i)))"
      by (rule Cons.IH)
    ultimately show ?thesis using Some r by (auto simp: readable_Suc less_Suc_eq_0_disj)
  qed
qed

lemma memcpy_out_dom: "dom (fst (memcpy_out m a bs)) = dom m"
proof (induction bs arbitrary: m a)
  case (Cons b bs)
  show ?case
  proof (cases "m a")
    case (Some c)
    have "dom (fst (memcpy_out (m(a \<mapsto> b)) (Suc a) bs)) = dom (m(a \<mapsto> b))" by (rule Cons.IH)
    also have "\<dots> = dom m" using Some by (auto simp: domI)
    finally show ?thesis using Some by simp
  qed simp
qed simp

text \<open>The specification of \<^verbatim>\<open>copyin\<close> and \<^verbatim>\<open>copyout\<close> on a block of positive length.\<close>

lemma copyin_spec:
  assumes "usersrc < 2 ^ 32" and "len < 2 ^ 32" and "len \<le> length dest"
  shows "copyin m usersrc dest len = (r, dest') \<Longrightarrow>
    length dest' = length dest \<and> drop len dest' = drop len dest \<and>
    (if 0 < len \<and> usersrc + len \<le> USERTOP \<and> readable m usersrc len
     then r = Inr () \<and> dest' = contents m usersrc len @ drop len dest
     else r = Inl EFAULT)"
proof -
  assume run: "copyin m usersrc dest len = (r, dest')"
  show ?thesis
  proof (cases "copycheck usersrc len = Inr len")
    case False
    then have "r = Inl EFAULT \<and> dest' = dest"
      using run copycheck_err by (auto simp: copyin_def split: sum.splits if_splits)
    moreover have "\<not> (0 < len \<and> usersrc + len \<le> USERTOP)" using False copycheck_full assms by blast
    ultimately show ?thesis by auto
  next
    case True
    then have "0 < len \<and> usersrc + len \<le> USERTOP" using copycheck_full assms by blast
    then show ?thesis
      using run True memcpy_in_spec [of m usersrc len] memcpy_in_length [of m usersrc len] assms(3)
      by (auto simp: copyin_def case_prod_beta split: if_splits)
  qed
qed

lemma copyout_spec:
  assumes "userdest < 2 ^ 32" and "len < 2 ^ 32" and "len \<le> length src"
  shows "copyout m src userdest len = (r, m') \<Longrightarrow>
    dom m' = dom m \<and> (\<forall>x. x < userdest \<or> userdest + len \<le> x \<longrightarrow> m' x = m x) \<and> (\<forall>x \<ge> USERTOP. m' x = m x) \<and>
    (if 0 < len \<and> userdest + len \<le> USERTOP \<and> readable m userdest len
     then r = Inr () \<and> contents m' userdest len = take len src
     else r = Inl EFAULT)"
proof -
  assume run: "copyout m src userdest len = (r, m')"
  show ?thesis
  proof (cases "copycheck userdest len = Inr len")
    case False
    then have "r = Inl EFAULT \<and> m' = m"
      using run copycheck_err by (auto simp: copyout_def split: sum.splits if_splits)
    moreover have "\<not> (0 < len \<and> userdest + len \<le> USERTOP)" using False copycheck_full assms by blast
    ultimately show ?thesis by auto
  next
    case True
    then have bnd: "0 < len \<and> userdest + len \<le> USERTOP" using copycheck_full assms by blast
    let ?mo = "memcpy_out m userdest (take len src)"
    have m': "m' = fst ?mo" "r = (if snd ?mo then Inr () else Inl EFAULT)"
      using run True by (auto simp: copyout_def case_prod_beta)
    have fr: "m' x = m x" if "x < userdest \<or> userdest + len \<le> x" for x
      using memcpy_out_frame [where bs = "take len src" and a = userdest] that assms(3) by (simp add: m')
    have ct: "contents m' userdest len = take len src" if "readable m userdest len"
      using memcpy_out_spec [of m userdest "take len src"] that assms(3)
      by (intro nth_equalityI) (auto simp: m' contents_def min_def)
    show ?thesis
      using fr ct bnd memcpy_out_dom memcpy_out_spec [of m userdest "take len src"] assms(3)
      by (auto simp: m' min_def)
  qed
qed

section \<open>Strings\<close>

text \<open>A terminated string of \<open>n\<close> bytes before its null byte.\<close>

definition c_string :: "memory \<Rightarrow> nat \<Rightarrow> nat \<Rightarrow> bool" where
  "c_string m a n \<longleftrightarrow> (\<forall>j < n. m (a + j) \<noteq> None \<and> m (a + j) \<noteq> Some 0) \<and> m (a + n) = Some 0"

lemma c_string_Suc: "c_string m a (Suc n) \<longleftrightarrow> (\<exists>c. m a = Some c \<and> c \<noteq> 0) \<and> c_string m (Suc a) n"
  unfolding c_string_def by (auto simp: less_Suc_eq_0_disj)

lemma copystr_from_ok:
  assumes "c_string sm (s + i) n" and "readable dm (d + i) (Suc n)" and "n < k"
  shows "fst (copystr_from dm d sm s maxlen stoplen i k) = Inr (i + n + 1) \<and>
    (\<forall>x. snd (copystr_from dm d sm s maxlen stoplen i k) x =
      (if d + i \<le> x \<and> x \<le> d + i + n then sm (s + (x - d)) else dm x))"
  using assms
proof (induction k arbitrary: i n dm)
  case 0
  then show ?case by simp
next
  case (Suc k)
  obtain b where b: "dm (d + i) = Some b" using Suc.prems(2) by (auto simp: readable_Suc)
  show ?case
  proof (cases n)
    case 0
    then have "sm (s + i) = Some 0" using Suc.prems(1) by (simp add: c_string_def)
    then show ?thesis using b 0 by auto
  next
    case (Suc n')
    then obtain c where c: "sm (s + i) = Some c" "c \<noteq> 0" "c_string sm (s + Suc i) n'"
      using Suc.prems(1) by (auto simp: c_string_Suc)
    have r: "readable (dm(d + i \<mapsto> c)) (d + Suc i) (Suc n')"
      using Suc.prems(2) Suc by (auto simp: readable_Suc readable_def)
    have "fst (copystr_from (dm(d + i \<mapsto> c)) d sm s maxlen stoplen (Suc i) k) = Inr (Suc i + n' + 1) \<and>
      (\<forall>x. snd (copystr_from (dm(d + i \<mapsto> c)) d sm s maxlen stoplen (Suc i) k) x =
        (if d + Suc i \<le> x \<and> x \<le> d + Suc i + n' then sm (s + (x - d)) else (dm(d + i \<mapsto> c)) x))"
      by (rule Suc.IH [OF c(3) r]) (use Suc.prems(3) Suc in simp)
    then show ?thesis using b c Suc by auto
  qed
qed

section \<open>Properties\<close>

text \<open>C38: copying a block out to a user address never changes memory outside that block or at a kernel
  address, whatever the address and the length; it reports success exactly when the whole block
  lies in accessible user memory, and then all of it has been copied.\<close>

theorem copyout_user_only:
  assumes "userdest < 2 ^ 32" and "len < 2 ^ 32" and "len \<le> length src"
    and "copyout m src userdest len = (r, m')"
  shows "(\<forall>x. x < userdest \<or> userdest + len \<le> x \<or> USERTOP \<le> x \<longrightarrow> m' x = m x) \<and>
    (r = Inr () \<longleftrightarrow> 0 < len \<and> userdest + len \<le> USERTOP \<and> readable m userdest len) \<and>
    (r = Inr () \<longrightarrow> contents m' userdest len = take len src)"
  using copyout_spec [OF assms(1-3), of m r m'] assms(4) by (auto split: if_splits)

lemma copyout_user_only_witness:
  "fst (copyout (\<lambda>a. if a < 16 then Some 0 else None) [1, 2, 3] 4 3) = Inr ()"
proof -
  let ?m = "\<lambda>a. if a < 16 then Some 0 else None :: byte option"
  obtain r m' where run: "copyout ?m [1, 2, 3] 4 3 = (r, m')" by (cases "copyout ?m [1, 2, 3] 4 3")
  have "readable ?m 4 3" by (simp add: readable_def)
  then show ?thesis
    using copyout_user_only [where userdest = 4 and len = 3 and src = "[1, 2, 3]" and m = ?m, OF _ _ _ run] run
    by (simp add: USERTOP_def)
qed

text \<open>\<^verbatim>\<open>copyinstr\<close> of a string that is terminated, accessible and below the user limit, into a
  kernel buffer at least as long, returns its length with the terminator, leaves exactly its bytes at
  the destination and changes nothing else.\<close>

theorem copyinstr_copies:
  assumes "usersrc < 2 ^ 32" and "len < 2 ^ 32" and "usersrc + len \<le> 2 ^ 32"
    and "c_string um usersrc n" and "n < len" and "usersrc + n < USERTOP"
    and "readable km dest len"
  shows "\<exists>km'. copyinstr um usersrc km dest len = (Inr (n + 1), km') \<and>
    (\<forall>j \<le> n. km' (dest + j) = um (usersrc + j)) \<and>
    (\<forall>x. x < dest \<or> dest + n < x \<longrightarrow> km' x = km x)"
proof -
  have chk: "copycheck usersrc len = Inr (min len (USERTOP - usersrc))"
    using assms by (simp add: copycheck_spec)
  have rd: "readable km (dest + 0) (Suc n)" using assms(5,7) by (auto simp: readable_def)
  let ?k = "min len (min len (USERTOP - usersrc))"
  have "n < ?k" using assms(5,6) by auto
  then have "fst (copystr_from km dest um usersrc len (min len (USERTOP - usersrc)) 0 ?k) = Inr (0 + n + 1) \<and>
    (\<forall>x. snd (copystr_from km dest um usersrc len (min len (USERTOP - usersrc)) 0 ?k) x =
      (if dest + 0 \<le> x \<and> x \<le> dest + 0 + n then um (usersrc + (x - dest)) else km x))"
    using assms(4) rd by (intro copystr_from_ok) simp_all
  then show ?thesis
    by (intro exI [of _ "snd (copyinstr um usersrc km dest len)"])
       (simp add: copyinstr_def chk copystr_def prod_eq_iff)
qed

lemma copyinstr_copies_witness:
  "\<exists>km'. copyinstr [4 \<mapsto> 0x61, 5 \<mapsto> 0] 4 (\<lambda>_. Some 7) 100 8 = (Inr 2, km')"
proof -
  have "c_string [4 \<mapsto> 0x61, 5 \<mapsto> 0] 4 1" by (simp add: c_string_def)
  then have "\<exists>km'. copyinstr [4 \<mapsto> 0x61, 5 \<mapsto> 0] 4 (\<lambda>_. Some 7) 100 8 = (Inr (1 + 1), km') \<and>
    (\<forall>j \<le> 1. km' (100 + j) = [4 \<mapsto> 0x61, 5 \<mapsto> 0] (4 + j)) \<and>
    (\<forall>x. x < 100 \<or> 100 + 1 < x \<longrightarrow> km' x = Some 7)"
    by (intro copyinstr_copies) (simp_all add: USERTOP_def readable_def)
  then show ?thesis unfolding one_add_one by blast
qed

end
