(* ===== verification/Uio.thy ===== *)
theory Uio
  imports Copyinout
begin

text \<open>
  \<^verbatim>\<open>kern/userprog/uio.c\<close>: descriptors of pending I/O. The memory a descriptor points into travels
  with it (\<open>uio_mem\<close>): kernel memory for \<^verbatim>\<open>UIO_SYSSPACE\<close>, user memory otherwise. The kernel buffer a
  transfer goes through is a byte list, handed back changed. \<open>cur_space\<close> is the address space of
  the thread that does the I/O. File offsets are natural numbers.
\<close>

section \<open>The struct\<close>

datatype uio_rw = UIO_READ | UIO_WRITE

datatype uio_seg = UIO_USERSPACE | UIO_SYSSPACE | UIO_USERISPACE

record uio =
  uio_mem :: memory
  iov_base :: nat
  iov_len :: nat
  uio_offset :: nat
  uio_resid :: nat
  uio_segflg :: uio_seg
  uio_rw :: uio_rw
  uio_space :: "nat option"
  cur_space :: "nat option"

section \<open>The functions\<close>

text \<open>The updates at the end of each round of \<^verbatim>\<open>uiomove\<close>'s loop.\<close>

definition uio_advance :: "nat \<Rightarrow> uio \<Rightarrow> uio" where
  "uio_advance sz u = u\<lparr>iov_base := iov_base u + sz, iov_len := iov_len u - sz,
     uio_resid := sub32 (uio_resid u) sz, uio_offset := uio_offset u + sz\<rparr>"

text \<open>
  The loop of \<^verbatim>\<open>uiomove\<close>: \<open>p\<close> is how far \<^verbatim>\<open>ptr\<close> has moved into the kernel buffer. An access to kernel
  memory outside what the pointers designate has no outcome.
\<close>

function uiomove_loop :: "byte list \<Rightarrow> nat \<Rightarrow> nat \<Rightarrow> uio \<Rightarrow> (unit res \<times> byte list \<times> uio) option" where
  "uiomove_loop buf p n u =
     (if n > 0 \<and> uio_resid u > 0 then
        (let sz = (if iov_len u > n then n else iov_len u)
         in if sz = 0 then None
            else if length buf < p + sz then None
            else (case uio_segflg u of
                UIO_SYSSPACE \<Rightarrow>
                  if \<not> readable (uio_mem u) (iov_base u) sz then None
                  else if uio_rw u = UIO_READ then
                    uiomove_loop buf (p + sz) (n - sz)
                      (uio_advance sz (u\<lparr>uio_mem := fst (memcpy_out (uio_mem u) (iov_base u) (take sz (drop p buf)))\<rparr>))
                  else
                    uiomove_loop (take p buf @ contents (uio_mem u) (iov_base u) sz @ drop (p + sz) buf)
                      (p + sz) (n - sz) (uio_advance sz u)
              | _ \<Rightarrow>
                  if uio_rw u = UIO_READ then
                    (case copyout (uio_mem u) (drop p buf) (iov_base u) sz of
                       (Inl e, m') \<Rightarrow> Some (Inl e, buf, u\<lparr>uio_mem := m'\<rparr>)
                     | (Inr _, m') \<Rightarrow> uiomove_loop buf (p + sz) (n - sz) (uio_advance sz (u\<lparr>uio_mem := m'\<rparr>)))
                  else
                    (case copyin (uio_mem u) (iov_base u) (drop p buf) sz of
                       (Inl e, d) \<Rightarrow> Some (Inl e, take p buf @ d, u)
                     | (Inr _, d) \<Rightarrow> uiomove_loop (take p buf @ d) (p + sz) (n - sz) (uio_advance sz u))))
      else Some (Inr (), buf, u))"
  by pat_completeness auto
termination
  by (relation "measure (\<lambda>(buf, p, n, u). n)") auto

declare uiomove_loop.simps [simp del]

definition uiomove :: "byte list \<Rightarrow> nat \<Rightarrow> uio \<Rightarrow> (unit res \<times> byte list \<times> uio) option" where
  "uiomove buf n u = do {
     kassert (if uio_segflg u = UIO_SYSSPACE then uio_space u = None else uio_space u = cur_space u);
     uiomove_loop buf 0 n u
   }"

text \<open>\<^verbatim>\<open>uiomovezeros\<close>, sixteen bytes at a time.\<close>

function uiomovezeros_loop :: "nat \<Rightarrow> uio \<Rightarrow> (unit res \<times> uio) option" where
  "uiomovezeros_loop n u =
     (if n > 0 then
        (let amt = (if 16 > n then n else 16)
         in case uiomove (replicate 16 0) amt u of
              None \<Rightarrow> None
            | Some (Inl e, _, u') \<Rightarrow> Some (Inl e, u')
            | Some (Inr _, _, u') \<Rightarrow> uiomovezeros_loop (n - amt) u')
      else Some (Inr (), u))"
  by pat_completeness auto
termination
  by (relation "measure fst") auto

declare uiomovezeros_loop.simps [simp del]

definition uiomovezeros :: "nat \<Rightarrow> uio \<Rightarrow> (unit res \<times> uio) option" where
  "uiomovezeros n u = do {
     kassert (uio_rw u = UIO_READ);
     uiomovezeros_loop n u
   }"

definition mk_kuio :: "memory \<Rightarrow> nat \<Rightarrow> nat \<Rightarrow> nat \<Rightarrow> uio_rw \<Rightarrow> uio" where
  "mk_kuio m kbuf len pos rw =
     \<lparr>uio_mem = m, iov_base = kbuf, iov_len = len, uio_offset = pos, uio_resid = len,
      uio_segflg = UIO_SYSSPACE, uio_rw = rw, uio_space = None, cur_space = None\<rparr>"

section \<open>Lemmas\<close>

text \<open>
  A descriptor in order: its residue fits its buffer, and the bytes the residue stands for are
  accessible, in user space if the buffer is the user's.
\<close>

definition uio_ok :: "uio \<Rightarrow> bool" where
  "uio_ok u \<longleftrightarrow> uio_resid u \<le> iov_len u \<and> iov_base u + iov_len u \<le> USERTOP \<and>
     readable (uio_mem u) (iov_base u) (uio_resid u) \<and>
     (if uio_segflg u = UIO_SYSSPACE then uio_space u = None else uio_space u = cur_space u)"

text \<open>The bytes still to be transferred.\<close>

definition uio_bytes :: "uio \<Rightarrow> byte list" where
  "uio_bytes u = contents (uio_mem u) (iov_base u) (uio_resid u)"

lemma length_uio_bytes [simp]: "length (uio_bytes u) = uio_resid u"
  by (simp add: uio_bytes_def)

lemma uio_advance_sel [simp]:
  "uio_mem (uio_advance n u) = uio_mem u" "iov_base (uio_advance n u) = iov_base u + n"
  "iov_len (uio_advance n u) = iov_len u - n" "uio_offset (uio_advance n u) = uio_offset u + n"
  "uio_resid (uio_advance n u) = sub32 (uio_resid u) n"
  "uio_segflg (uio_advance n u) = uio_segflg u" "uio_rw (uio_advance n u) = uio_rw u"
  "uio_space (uio_advance n u) = uio_space u" "cur_space (uio_advance n u) = cur_space u"
  by (simp_all add: uio_advance_def)

lemma uio_ok_bounds: "uio_ok u \<Longrightarrow> uio_resid u < 2 ^ 32 \<and> iov_base u < 2 ^ 32 \<and> iov_len u < 2 ^ 32"
  by (auto simp: uio_ok_def USERTOP_def)

lemma readable_sub: "readable m a n \<Longrightarrow> i + k \<le> n \<Longrightarrow> readable m (a + i) k"
  unfolding readable_def by (simp add: add.assoc)

lemma readable_mono: "readable m a n \<Longrightarrow> k \<le> n \<Longrightarrow> readable m a k"
  by (auto simp: readable_def)

lemma readable_dom: "dom m' = dom m \<Longrightarrow> readable m' a n = readable m a n"
  by (auto simp: readable_def dom_def)

lemma contents_append: "contents m a (n + k) = contents m a n @ contents m (a + n) k"
  by (rule nth_equalityI) (auto simp: nth_append add.assoc)

text \<open>The memory after a read of \<open>bs\<close> into the front of the buffer.\<close>

definition uio_filled :: "byte list \<Rightarrow> uio \<Rightarrow> uio" where
  "uio_filled bs u = uio_advance (length bs) (u\<lparr>uio_mem := fst (memcpy_out (uio_mem u) (iov_base u) bs)\<rparr>)"

lemma uiomove_0: "uio_ok u \<Longrightarrow> uiomove buf 0 u = Some (Inr (), buf, u)"
  by (simp add: uiomove_def uiomove_loop.simps uio_ok_def)

lemma uiomove_read:
  assumes ok: "uio_ok u" and rw: "uio_rw u = UIO_READ" and n: "n \<le> uio_resid u" "n \<le> length buf" "0 < n"
  shows "uiomove buf n u = Some (Inr (), buf, uio_filled (take n buf) u)"
proof -
  note b = uio_ok_bounds [OF ok]
  have len: "(if iov_len u > n then n else iov_len u) = n" using ok n by (auto simp: uio_ok_def)
  have r: "readable (uio_mem u) (iov_base u) n" using ok n by (auto simp: uio_ok_def intro: readable_mono)
  have stop: "uiomove_loop buf n 0 v = Some (Inr (), buf, v)" for v by (simp add: uiomove_loop.simps)
  have sp: "if uio_segflg u = UIO_SYSSPACE then uio_space u = None else uio_space u = cur_space u"
    using ok by (simp add: uio_ok_def)
  have out: "copyout (uio_mem u) buf (iov_base u) n = (Inr (), fst (memcpy_out (uio_mem u) (iov_base u) (take n buf)))"
  proof -
    have "copycheck (iov_base u) n = Inr n" using ok n b by (auto simp: copycheck_full uio_ok_def)
    then show ?thesis
      using memcpy_out_spec [of "uio_mem u" "iov_base u" "take n buf"] r n
      by (auto simp: copyout_def case_prod_beta min_def)
  qed
  show ?thesis
    unfolding uiomove_def uio_filled_def
    using sp n r rw out by (subst uiomove_loop.simps) (cases "uio_segflg u"; simp add: len stop Let_def)
qed

lemma uiomove_write:
  assumes ok: "uio_ok u" and rw: "uio_rw u = UIO_WRITE" and n: "n \<le> uio_resid u" "n \<le> length buf" "0 < n"
  shows "uiomove buf n u = Some (Inr (), take n (uio_bytes u) @ drop n buf, uio_advance n u)"
proof -
  note b = uio_ok_bounds [OF ok]
  have len: "(if iov_len u > n then n else iov_len u) = n" using ok n by (auto simp: uio_ok_def)
  have r: "readable (uio_mem u) (iov_base u) n" using ok n by (auto simp: uio_ok_def intro: readable_mono)
  have stop: "uiomove_loop buf' n 0 v = Some (Inr (), buf', v)" for v buf' by (simp add: uiomove_loop.simps)
  have sp: "if uio_segflg u = UIO_SYSSPACE then uio_space u = None else uio_space u = cur_space u"
    using ok by (simp add: uio_ok_def)
  have c: "take n (uio_bytes u) = contents (uio_mem u) (iov_base u) n"
    using n(1) by (simp add: uio_bytes_def contents_def take_map)
  have inn: "copyin (uio_mem u) (iov_base u) buf n = (Inr (), contents (uio_mem u) (iov_base u) n @ drop n buf)"
  proof -
    have "copycheck (iov_base u) n = Inr n" using ok n b by (auto simp: copycheck_full uio_ok_def)
    then show ?thesis
      using memcpy_in_spec [of "uio_mem u" "iov_base u" n] r by (auto simp: copyin_def case_prod_beta)
  qed
  show ?thesis
    unfolding uiomove_def c
    using sp n r rw inn by (subst uiomove_loop.simps) (cases "uio_segflg u"; simp add: len stop Let_def)
qed

lemma uio_filled_sel [simp]:
  "iov_base (uio_filled bs u) = iov_base u + length bs"
  "iov_len (uio_filled bs u) = iov_len u - length bs"
  "uio_offset (uio_filled bs u) = uio_offset u + length bs"
  "uio_resid (uio_filled bs u) = sub32 (uio_resid u) (length bs)"
  "uio_segflg (uio_filled bs u) = uio_segflg u" "uio_rw (uio_filled bs u) = uio_rw u"
  "uio_space (uio_filled bs u) = uio_space u" "cur_space (uio_filled bs u) = cur_space u"
  "uio_mem (uio_filled bs u) = fst (memcpy_out (uio_mem u) (iov_base u) bs)"
  by (simp_all add: uio_filled_def)

lemma uio_ok_advance: "uio_ok u \<Longrightarrow> n \<le> uio_resid u \<Longrightarrow> uio_ok (uio_advance n u)"
  using uio_ok_bounds [of u] readable_sub [of "uio_mem u" "iov_base u" "uio_resid u" n "uio_resid u - n"]
  by (auto simp: uio_ok_def)

lemma uio_ok_filled: "uio_ok u \<Longrightarrow> length bs \<le> uio_resid u \<Longrightarrow> uio_ok (uio_filled bs u)"
  using uio_ok_bounds [of u]
    readable_sub [of "uio_mem u" "iov_base u" "uio_resid u" "length bs" "uio_resid u - length bs"]
    readable_dom [OF memcpy_out_dom]
  by (auto simp: uio_ok_def)

lemma uio_bytes_advance: "uio_ok u \<Longrightarrow> n \<le> uio_resid u \<Longrightarrow> uio_bytes (uio_advance n u) = drop n (uio_bytes u)"
  using uio_ok_bounds [of u] by (intro nth_equalityI) (auto simp: uio_bytes_def add.assoc)

lemma memcpy_out_append:
  "readable m a (length bs) \<Longrightarrow>
   memcpy_out (fst (memcpy_out m a bs)) (a + length bs) cs = memcpy_out m a (bs @ cs)"
proof (induction bs arbitrary: m a)
  case (Cons b bs)
  then obtain c where c: "m a = Some c" "readable m (Suc a) (length bs)" by (auto simp: readable_Suc)
  then have "readable (m(a \<mapsto> b)) (Suc a) (length bs)" by (auto simp: readable_def)
  then have "memcpy_out (fst (memcpy_out (m(a \<mapsto> b)) (Suc a) bs)) (Suc a + length bs) cs =
    memcpy_out (m(a \<mapsto> b)) (Suc a) (bs @ cs)" by (rule Cons.IH)
  with c show ?case by simp
qed simp

lemma uio_filled_append:
  assumes "uio_ok u" and "length bs + length cs \<le> uio_resid u"
  shows "uio_filled cs (uio_filled bs u) = uio_filled (bs @ cs) u"
proof -
  have "readable (uio_mem u) (iov_base u) (length bs)"
    using assms by (auto simp: uio_ok_def intro: readable_mono)
  note app = memcpy_out_append [OF this, of cs]
  have "sub32 (sub32 (uio_resid u) (length bs)) (length cs) = sub32 (uio_resid u) (length bs + length cs)"
    using assms uio_ok_bounds [OF assms(1)] by (intro sub32_sub32) auto
  then show ?thesis by (simp add: uio_filled_def uio_advance_def app add.assoc)
qed

lemma uio_filled_Nil: "uio_resid u < 2 ^ 32 \<Longrightarrow> uio_filled [] u = u"
  by (simp add: uio_filled_def uio_advance_def)

lemma uio_advance_add:
  assumes "uio_ok u" and "n + k \<le> uio_resid u"
  shows "uio_advance k (uio_advance n u) = uio_advance (n + k) u"
proof -
  have "sub32 (sub32 (uio_resid u) n) k = sub32 (uio_resid u) (n + k)"
    using assms uio_ok_bounds [OF assms(1)] by (intro sub32_sub32) auto
  then show ?thesis by (simp add: uio_advance_def add.assoc)
qed

lemma uio_advance_0: "uio_resid u < 2 ^ 32 \<Longrightarrow> uio_advance 0 u = u"
  by (simp add: uio_advance_def)

lemma uio_filled_contents:
  assumes "uio_ok u" and "length bs \<le> uio_resid u"
  shows "contents (uio_mem (uio_filled bs u)) (iov_base u) (length bs) = bs"
proof -
  have "readable (uio_mem u) (iov_base u) (length bs)"
    using assms by (auto simp: uio_ok_def intro: readable_mono)
  then show ?thesis
    using memcpy_out_spec [of "uio_mem u" "iov_base u" bs] by (auto intro: nth_equalityI)
qed

lemma uiomovezeros_loop_spec:
  assumes "uio_ok u" and "uio_rw u = UIO_READ" and "n \<le> uio_resid u"
  shows "uiomovezeros_loop n u = Some (Inr (), uio_filled (replicate n 0) u)"
  using assms
proof (induction n arbitrary: u rule: less_induct)
  case (less n)
  show ?case
  proof (cases "n = 0")
    case True
    then show ?thesis using uio_filled_Nil uio_ok_bounds [OF less.prems(1)] by (simp add: uiomovezeros_loop.simps)
  next
    case False
    define k where "k = (if 16 > n then n else 16)"
    let ?v = "uio_filled (replicate k 0) u"
    have k: "k \<le> n" "0 < k" "k \<le> 16" using False by (auto simp: k_def)
    have mv: "uiomove (replicate 16 0) k u = Some (Inr (), replicate 16 0, ?v)"
      using uiomove_read [OF less.prems(1,2), of k "replicate 16 0"] k less.prems(3) by simp
    have ok: "uio_ok ?v" using uio_ok_filled [OF less.prems(1), of "replicate k 0"] k less.prems(3) by simp
    have "uio_resid u < 2 ^ 32" using uio_ok_bounds [OF less.prems(1)] by simp
    then have "uiomovezeros_loop (n - k) ?v = Some (Inr (), uio_filled (replicate (n - k) 0) ?v)"
      using k less.prems ok by (intro less.IH) auto
    moreover have "uio_filled (replicate (n - k) 0) ?v = uio_filled (replicate n 0) u"
      using uio_filled_append [OF less.prems(1), of "replicate k 0" "replicate (n - k) 0"] k less.prems(3)
      by (simp add: replicate_add [symmetric])
    ultimately show ?thesis
      using False mv by (subst uiomovezeros_loop.simps) (simp add: Let_def k_def [symmetric])
  qed
qed

lemma uiomovezeros_spec:
  "uio_ok u \<Longrightarrow> uio_rw u = UIO_READ \<Longrightarrow> n \<le> uio_resid u \<Longrightarrow>
   uiomovezeros n u = Some (Inr (), uio_filled (replicate n 0) u)"
  by (simp add: uiomovezeros_def uiomovezeros_loop_spec)

lemma mk_kuio_sel [simp]:
  "uio_mem (mk_kuio m b l p rw) = m" "iov_base (mk_kuio m b l p rw) = b" "iov_len (mk_kuio m b l p rw) = l"
  "uio_offset (mk_kuio m b l p rw) = p" "uio_resid (mk_kuio m b l p rw) = l"
  "uio_segflg (mk_kuio m b l p rw) = UIO_SYSSPACE" "uio_rw (mk_kuio m b l p rw) = rw"
  "uio_space (mk_kuio m b l p rw) = None"
  by (simp_all add: mk_kuio_def)

lemma uio_ok_kuio: "readable m b l \<Longrightarrow> b + l \<le> USERTOP \<Longrightarrow> uio_ok (mk_kuio m b l p rw)"
  by (simp add: uio_ok_def)

lemma uiomove_writes:
  assumes "uio_ok u" and "uio_rw u = UIO_WRITE" and "n \<le> uio_resid u" and "n \<le> length buf"
  shows "uiomove buf n u = Some (Inr (), take n (uio_bytes u) @ drop n buf, uio_advance n u)"
proof (cases "n = 0")
  case True
  then show ?thesis using uiomove_0 [OF assms(1), of buf] uio_advance_0 uio_ok_bounds [OF assms(1)] by simp
qed (use uiomove_write [OF assms(1,2)] assms(3,4) in simp)

lemma uiomove_reads:
  assumes "uio_ok u" and "uio_rw u = UIO_READ" and "n \<le> uio_resid u" and "n \<le> length buf"
  shows "uiomove buf n u = Some (Inr (), buf, uio_filled (take n buf) u)"
proof (cases "n = 0")
  case True
  then show ?thesis using uiomove_0 [OF assms(1), of buf] uio_filled_Nil uio_ok_bounds [OF assms(1)] by simp
qed (use uiomove_read [OF assms(1,2)] assms(3,4) in simp)

end
