(* ===== verification/Lhd.thy ===== *)
theory Lhd
  imports Uio
begin

unbundle bit_operations_syntax

text \<open>
  \<^verbatim>\<open>kern/dev/lamebus/lhd.c\<close>: the disk driver. The hardware is the environment: the contents of its
  sectors and the status code it reports for each operation (\<open>hw_codes\<close>, an arbitrary sequence)
  are part of the state. The semaphores only serialise callers, and one caller runs at a time
  here; an operation whose completion is never signalled has no outcome.
\<close>

section \<open>State\<close>

definition LHD_SECTSIZE :: nat where "LHD_SECTSIZE = 512"
definition LHD_OK :: nat where "LHD_OK = 4"
definition LHD_INVSECT :: nat where "LHD_INVSECT = 12"
definition LHD_MEDIA :: nat where "LHD_MEDIA = 20"
definition LHD_STATEMASK :: nat where "LHD_STATEMASK = 0x1d"

record lhd_softc =
  d_blocks :: nat
  sectors :: "nat \<Rightarrow> byte list"
  lh_buf :: "byte list"
  lh_result :: "unit res"
  hw_codes :: "nat \<Rightarrow> nat"
  hw_ops :: nat

section \<open>The functions\<close>

definition lhd_code_to_errno :: "nat \<Rightarrow> unit res" where
  "lhd_code_to_errno code =
     (let st = code AND LHD_STATEMASK
      in if st = LHD_OK then Inr ()
         else if st = LHD_INVSECT then Inl EINVAL
         else if st = LHD_MEDIA then Inl EIO
         else Inl EAGAIN)"

definition lhd_iodone :: "unit res \<Rightarrow> lhd_softc \<Rightarrow> lhd_softc" where
  "lhd_iodone err lh = lh\<lparr>lh_result := err\<rparr>"

text \<open>
  \<^verbatim>\<open>lhd_irq\<close> with the status \<open>val\<close> in the register: the result is recorded and the waiter woken,
  or nothing happens and the waiter waits on.
\<close>

definition lhd_irq :: "nat \<Rightarrow> lhd_softc \<Rightarrow> lhd_softc option" where
  "lhd_irq val lh =
     (let st = val AND LHD_STATEMASK
      in if st = LHD_OK \<or> st = LHD_INVSECT \<or> st = LHD_MEDIA
         then Some (lhd_iodone (lhd_code_to_errno val) lh)
         else None)"

text \<open>
  One operation of the hardware on a sector, started by the write to the status register and
  ended by its interrupt.
\<close>

definition hw_operate :: "bool \<Rightarrow> nat \<Rightarrow> lhd_softc \<Rightarrow> lhd_softc option" where
  "hw_operate iswrite sect lh =
     (let val = hw_codes lh (hw_ops lh);
          lh1 = lh\<lparr>hw_ops := hw_ops lh + 1\<rparr>;
          lh2 = (if val AND LHD_STATEMASK \<noteq> LHD_OK then lh1
                 else if iswrite then lh1\<lparr>sectors := (sectors lh1)(sect := lh_buf lh1)\<rparr>
                 else lh1\<lparr>lh_buf := sectors lh1 sect\<rparr>)
      in lhd_irq val lh2)"

text \<open>The loop of \<^verbatim>\<open>lhd_io\<close> over the sectors; \<open>k\<close> counts the rounds left.\<close>

fun lhd_io_loop :: "nat \<Rightarrow> nat \<Rightarrow> uio \<Rightarrow> lhd_softc \<Rightarrow> (unit res \<times> uio \<times> lhd_softc) option" where
  "lhd_io_loop 0 sect u lh = Some (Inr (), u, lh)"
| "lhd_io_loop (Suc k) sect u lh =
     (if uio_rw u = UIO_WRITE then do {
        (r, buf, u1) \<leftarrow> uiomove (lh_buf lh) LHD_SECTSIZE u;
        let lh1 = lh\<lparr>lh_buf := buf\<rparr>;
        (case r of
           Inl e \<Rightarrow> Some (Inl e, u1, lh1)
         | Inr _ \<Rightarrow> do {
             lh2 \<leftarrow> hw_operate True sect lh1;
             (case lh_result lh2 of
                Inl e \<Rightarrow> Some (Inl e, u1, lh2)
              | Inr _ \<Rightarrow> lhd_io_loop k (sect + 1) u1 lh2)
           })
      }
      else do {
        lh2 \<leftarrow> hw_operate False sect lh;
        (case lh_result lh2 of
           Inl e \<Rightarrow> Some (Inl e, u, lh2)
         | Inr _ \<Rightarrow> do {
             (r, _, u1) \<leftarrow> uiomove (lh_buf lh2) LHD_SECTSIZE u;
             (case r of
                Inl e \<Rightarrow> Some (Inl e, u1, lh2)
              | Inr _ \<Rightarrow> lhd_io_loop k (sect + 1) u1 lh2)
           })
      })"

definition lhd_io :: "uio \<Rightarrow> lhd_softc \<Rightarrow> (unit res \<times> uio \<times> lhd_softc) option" where
  "lhd_io u lh =
     (let sector = uio_offset u div LHD_SECTSIZE;
          sectoff = uio_offset u mod LHD_SECTSIZE;
          len = uio_resid u div LHD_SECTSIZE;
          lenoff = uio_resid u mod LHD_SECTSIZE
      in if sectoff \<noteq> 0 \<or> lenoff \<noteq> 0 then Some (Inl EINVAL, u, lh)
         else if size32 (sector + len) > d_blocks lh then Some (Inl EINVAL, u, lh)
         else lhd_io_loop len sector u lh)"

section \<open>Lemmas\<close>

text \<open>A disk without faults ahead, with whole sectors.\<close>

definition disk_ok :: "lhd_softc \<Rightarrow> bool" where
  "disk_ok lh \<longleftrightarrow> d_blocks lh < 2 ^ 31 \<and> length (lh_buf lh) = 512 \<and> (\<forall>s. length (sectors lh s) = 512) \<and>
     (\<forall>k \<ge> hw_ops lh. hw_codes lh k AND LHD_STATEMASK = LHD_OK)"

definition disk_read :: "nat \<Rightarrow> lhd_softc \<Rightarrow> lhd_softc" where
  "disk_read s lh = lh\<lparr>lh_buf := sectors lh s, lh_result := Inr (), hw_ops := hw_ops lh + 1\<rparr>"

definition disk_write :: "nat \<Rightarrow> byte list \<Rightarrow> lhd_softc \<Rightarrow> lhd_softc" where
  "disk_write s bs lh =
     lh\<lparr>sectors := (sectors lh)(s := bs), lh_buf := bs, lh_result := Inr (), hw_ops := hw_ops lh + 1\<rparr>"

lemma disk_sel [simp]:
  "sectors (disk_read s lh) = sectors lh" "d_blocks (disk_read s lh) = d_blocks lh"
  "sectors (disk_write s bs lh) = (sectors lh)(s := bs)" "d_blocks (disk_write s bs lh) = d_blocks lh"
  by (simp_all add: disk_read_def disk_write_def)

lemma disk_ok_read [simp]: "disk_ok lh \<Longrightarrow> disk_ok (disk_read s lh)"
  by (simp add: disk_ok_def disk_read_def)

lemma disk_ok_write [simp]: "disk_ok lh \<Longrightarrow> length bs = 512 \<Longrightarrow> disk_ok (disk_write s bs lh)"
  by (simp add: disk_ok_def disk_write_def)

lemma disk_ok_length [simp]: "disk_ok lh \<Longrightarrow> length (sectors lh s) = 512"
  by (simp add: disk_ok_def)

lemma hw_operate_ok:
  assumes "hw_codes lh (hw_ops lh) AND LHD_STATEMASK = LHD_OK"
  shows "hw_operate False s lh = Some (disk_read s lh)"
    and "hw_operate True s lh = Some (disk_write s (lh_buf lh) lh)"
  using assms by (simp_all add: hw_operate_def lhd_irq_def lhd_iodone_def lhd_code_to_errno_def Let_def
      disk_read_def disk_write_def LHD_OK_def LHD_MEDIA_def LHD_INVSECT_def)

lemma hw_operate_media:
  assumes "hw_codes lh (hw_ops lh) AND LHD_STATEMASK = LHD_MEDIA"
  shows "hw_operate w s lh = Some (lh\<lparr>lh_result := Inl EIO, hw_ops := hw_ops lh + 1\<rparr>)"
  using assms by (simp add: hw_operate_def lhd_irq_def lhd_iodone_def lhd_code_to_errno_def Let_def
      LHD_OK_def LHD_MEDIA_def LHD_INVSECT_def)

text \<open>A descriptor for exactly one sector.\<close>

definition sector_uio :: "uio \<Rightarrow> nat \<Rightarrow> bool" where
  "sector_uio u s \<longleftrightarrow> uio_ok u \<and> uio_resid u = 512 \<and> uio_offset u = s * 512"

lemma lhd_io_read:
  assumes "disk_ok lh" and "sector_uio u s" and "uio_rw u = UIO_READ" and "s < d_blocks lh"
  shows "lhd_io u lh = Some (Inr (), uio_filled (sectors lh s) u, disk_read s lh)"
proof -
  have "size32 (s + 1) \<le> d_blocks lh" using assms by (simp add: disk_ok_def)
  moreover have "lh_result (disk_read s lh) = Inr ()" "lh_buf (disk_read s lh) = sectors lh s"
    by (simp_all add: disk_read_def)
  moreover have "hw_operate False s lh = Some (disk_read s lh)"
    using assms(1) by (intro hw_operate_ok) (simp add: disk_ok_def)
  moreover have "uiomove (sectors lh s) 512 u = Some (Inr (), sectors lh s, uio_filled (sectors lh s) u)"
    using uiomove_read [of u 512 "sectors lh s"] assms by (simp add: sector_uio_def)
  ultimately show ?thesis
    using assms by (simp add: lhd_io_def sector_uio_def LHD_SECTSIZE_def Let_def)
qed

lemma lhd_io_write:
  assumes "disk_ok lh" and "sector_uio u s" and "uio_rw u = UIO_WRITE" and "s < d_blocks lh"
  shows "lhd_io u lh = Some (Inr (), uio_advance 512 u, disk_write s (uio_bytes u) lh)"
proof -
  have "size32 (s + 1) \<le> d_blocks lh" using assms by (simp add: disk_ok_def)
  moreover have "uiomove (lh_buf lh) 512 u = Some (Inr (), uio_bytes u, uio_advance 512 u)"
    using uiomove_write [of u 512 "lh_buf lh"] assms by (simp add: sector_uio_def disk_ok_def)
  moreover have "hw_operate True s (lh\<lparr>lh_buf := uio_bytes u\<rparr>) = Some (disk_write s (uio_bytes u) lh)"
    using assms(1) hw_operate_ok(2) [of "lh\<lparr>lh_buf := uio_bytes u\<rparr>" s] by (simp add: disk_ok_def disk_write_def)
  moreover have "lh_result (disk_write s (uio_bytes u) lh) = Inr ()" by (simp add: disk_write_def)
  ultimately show ?thesis
    using assms by (simp add: lhd_io_def sector_uio_def LHD_SECTSIZE_def Let_def)
qed

text \<open>A media error on a write: the descriptor has been consumed although nothing was stored.\<close>

lemma lhd_io_write_media:
  assumes "hw_codes lh (hw_ops lh) AND LHD_STATEMASK = LHD_MEDIA" and "length (lh_buf lh) = 512"
    and "sector_uio u s" and "uio_rw u = UIO_WRITE" and "s < d_blocks lh" and "d_blocks lh < 2 ^ 31"
  shows "lhd_io u lh = Some (Inl EIO, uio_advance 512 u,
    lh\<lparr>lh_buf := uio_bytes u, lh_result := Inl EIO, hw_ops := hw_ops lh + 1\<rparr>)"
proof -
  have "size32 (s + 1) \<le> d_blocks lh" using assms by simp
  moreover have "uiomove (lh_buf lh) 512 u = Some (Inr (), uio_bytes u, uio_advance 512 u)"
    using uiomove_write [of u 512 "lh_buf lh"] assms by (simp add: sector_uio_def)
  ultimately show ?thesis
    using assms hw_operate_media [of "lh\<lparr>lh_buf := uio_bytes u\<rparr>" True s]
    by (simp add: lhd_io_def sector_uio_def LHD_SECTSIZE_def Let_def)
qed

end
