(* ===== verification/Vnode.thy ===== *)
theory Vnode
  imports Prelude
begin

text \<open>
  \<^verbatim>\<open>kern/fs/vfs/vnode.c\<close>: the counts every vnode carries. The lock around them is left out; each
  function is one critical section. Functions that call back into the file system take the
  callback, and access to the vnode inside the file system's state, as arguments.
\<close>

section \<open>The struct\<close>

text \<open>The operation tables of the kernel: the file system's two and the device layer's.\<close>

datatype vnode_ops = SFS_FILEOPS | SFS_DIROPS | DEV_OPS

record vnode =
  vn_refcount :: int
  vn_opencount :: int
  vn_ops :: "vnode_ops option"

section \<open>The functions\<close>

text \<open>\<^verbatim>\<open>vnode_init\<close>; the flag tells whether \<^verbatim>\<open>lock_create\<close> found memory.\<close>

definition vnode_init :: "bool \<Rightarrow> vnode_ops \<Rightarrow> vnode res" where
  "vnode_init lock_mem ops =
     (if \<not> lock_mem then Inl ENOMEM
      else Inr \<lparr>vn_refcount = 1, vn_opencount = 0, vn_ops = Some ops\<rparr>)"

definition vnode_kill :: "'z vnode_scheme \<Rightarrow> 'z vnode_scheme option" where
  "vnode_kill vn = do {
     kassert (vn_refcount vn = 1);
     kassert (vn_opencount vn = 0);
     Some (vn\<lparr>vn_ops := None, vn_refcount := 0, vn_opencount := 0\<rparr>)
   }"

definition vnode_incref :: "'z vnode_scheme \<Rightarrow> 'z vnode_scheme" where
  "vnode_incref vn = vn\<lparr>vn_refcount := int32 (vn_refcount vn + 1)\<rparr>"

text \<open>
  \<^verbatim>\<open>vnode_decref\<close>: the last reference is not dropped but handed to \<^verbatim>\<open>VOP_RECLAIM\<close>, whose failure is
  only reported.
\<close>

definition vnode_decref ::
  "('s \<Rightarrow> 'z vnode_scheme) \<Rightarrow> ('z vnode_scheme \<Rightarrow> 's \<Rightarrow> 's) \<Rightarrow> ('s \<Rightarrow> (unit res \<times> 's) option) \<Rightarrow> 's \<Rightarrow> 's option" where
  "vnode_decref get put reclaim s = do {
     kassert (vn_refcount (get s) > 0);
     if vn_refcount (get s) > 1
     then Some (put ((get s)\<lparr>vn_refcount := vn_refcount (get s) - 1\<rparr>) s)
     else do {
       (_, s') \<leftarrow> reclaim s;
       Some s'
     }
   }"

definition vnode_incopen :: "'z vnode_scheme \<Rightarrow> 'z vnode_scheme" where
  "vnode_incopen vn = vn\<lparr>vn_opencount := int32 (vn_opencount vn + 1)\<rparr>"

definition vnode_decopen ::
  "('s \<Rightarrow> 'z vnode_scheme) \<Rightarrow> ('z vnode_scheme \<Rightarrow> 's \<Rightarrow> 's) \<Rightarrow> ('s \<Rightarrow> (unit res \<times> 's) option) \<Rightarrow> 's \<Rightarrow> 's option" where
  "vnode_decopen get put close s = do {
     kassert (vn_opencount (get s) > 0);
     let s1 = put ((get s)\<lparr>vn_opencount := vn_opencount (get s) - 1\<rparr>) s;
     if vn_opencount (get s) - 1 > 0 then Some s1
     else do {
       (_, s') \<leftarrow> close s1;
       Some s'
     }
   }"

text \<open>\<^verbatim>\<open>vnode_check\<close>, called before each operation; the flag says the operation is \<^verbatim>\<open>reclaim\<close>.\<close>

definition vnode_check :: "bool \<Rightarrow> 'z vnode_scheme \<Rightarrow> unit option" where
  "vnode_check reclaiming vn = do {
     kassert (vn_ops vn \<noteq> None);
     kassert (\<not> vn_refcount vn < 0);
     kassert (\<not> (vn_refcount vn = 0 \<and> \<not> reclaiming));
     kassert (\<not> vn_opencount vn < 0)
   }"

section \<open>Lemmas\<close>

text \<open>A vnode in use: it has an operation table, somebody refers to it, and the counts are in range.\<close>

definition vnode_inv :: "'z vnode_scheme \<Rightarrow> bool" where
  "vnode_inv vn \<longleftrightarrow> vn_ops vn \<noteq> None \<and> 0 < vn_refcount vn \<and> vn_refcount vn < 2 ^ 31 - 1 \<and>
     0 \<le> vn_opencount vn \<and> vn_opencount vn < 2 ^ 31 - 1"

lemma vnode_check_inv: "vnode_inv vn \<Longrightarrow> vnode_check reclaiming vn = Some ()"
  by (simp add: vnode_inv_def vnode_check_def)

lemma vnode_incref_count: "vnode_inv vn \<Longrightarrow> vn_refcount (vnode_incref vn) = vn_refcount vn + 1"
  by (simp add: vnode_inv_def vnode_incref_def)

lemma vnode_init_inv: "vnode_init True ops = Inr vn \<Longrightarrow> vnode_inv vn \<and> vn_refcount vn = 1"
  by (auto simp: vnode_init_def vnode_inv_def)

text \<open>Taking a reference and dropping it again gives the vnode back and never reclaims it.\<close>

lemma incref_decref:
  assumes "vnode_inv (get s)" and "get (put (vnode_incref (get s)) s) = vnode_incref (get s)"
    and "\<And>v w. put v (put w s) = put v s"
  shows "vnode_decref get put reclaim (put (vnode_incref (get s)) s) = Some (put (get s) s)"
  using assms by (simp add: vnode_decref_def vnode_inv_def vnode_incref_def)

end
