(* ===== verification/Sfs_disk.thy ===== *)
theory Sfs_disk
  imports Lhd Vnode Bitmap Ptr_Array
begin

text \<open>
  The on-disk formats of \<^verbatim>\<open>assignment3/ownSolution/sfs.h\<close> and block I/O
  (\<^verbatim>\<open>kern/fs/sfs/sfs_io.c\<close>) with the space allocation at the head of
  \<^verbatim>\<open>assignment3/ownSolution/sfs_vnode.c\<close>. A block is a list of 512 bytes; the structs that fill
  one are records with a big-endian encoding.
\<close>

section \<open>On-disk structures\<close>

definition SFS_MAGIC :: nat where "SFS_MAGIC = 0xabadf001"
definition SFS_BLOCKSIZE :: nat where "SFS_BLOCKSIZE = 512"
definition SFS_VOLNAME_SIZE :: nat where "SFS_VOLNAME_SIZE = 32"
definition SFS_NDIRECT :: nat where "SFS_NDIRECT = 15"
definition SFS_DBPERIDB :: nat where "SFS_DBPERIDB = 128"
definition SFS_NAMELEN :: nat where "SFS_NAMELEN = 60"
definition SFS_SB_LOCATION :: nat where "SFS_SB_LOCATION = 0"
definition SFS_ROOT_LOCATION :: nat where "SFS_ROOT_LOCATION = 1"
definition SFS_MAP_LOCATION :: nat where "SFS_MAP_LOCATION = 2"
definition SFS_NOINO :: nat where "SFS_NOINO = 0"
definition SFS_TYPE_INVAL :: nat where "SFS_TYPE_INVAL = 0"
definition SFS_TYPE_FILE :: nat where "SFS_TYPE_FILE = 1"
definition SFS_TYPE_DIR :: nat where "SFS_TYPE_DIR = 2"

record sfs_super =
  sp_magic :: nat
  sp_nblocks :: nat
  sp_volname :: "byte list"
  sp_reserved :: "nat list"

record sfs_inode =
  sfi_size :: nat
  sfi_type :: nat
  sfi_linkcount :: nat
  sfi_direct :: "nat list"
  sfi_indirect :: nat
  sfi_doubleindirect :: nat
  sfi_tripleindirect :: nat
  sfi_waste :: "nat list"
  sfi_blocks :: nat

record sfs_dir =
  sfd_ino :: nat
  sfd_name :: "byte list"

text \<open>Integers in memory are big-endian on this machine.\<close>

definition enc16 :: "nat \<Rightarrow> byte list" where
  "enc16 n = [of_nat (n div 2 ^ 8), of_nat n]"

definition enc32 :: "nat \<Rightarrow> byte list" where
  "enc32 n = [of_nat (n div 2 ^ 24), of_nat (n div 2 ^ 16), of_nat (n div 2 ^ 8), of_nat n]"

definition dec16 :: "byte list \<Rightarrow> nat" where
  "dec16 bs = unat (bs ! 0) * 2 ^ 8 + unat (bs ! 1)"

definition dec32 :: "byte list \<Rightarrow> nat" where
  "dec32 bs = unat (bs ! 0) * 2 ^ 24 + unat (bs ! 1) * 2 ^ 16 + unat (bs ! 2) * 2 ^ 8 + unat (bs ! 3)"

text \<open>An array of 32-bit integers at a byte offset.\<close>

definition enc_words :: "nat list \<Rightarrow> byte list" where
  "enc_words ns = concat (map enc32 ns)"

definition word_at :: "byte list \<Rightarrow> nat \<Rightarrow> nat" where
  "word_at bs off = dec32 (take 4 (drop off bs))"

definition words_at :: "byte list \<Rightarrow> nat \<Rightarrow> nat \<Rightarrow> nat list" where
  "words_at bs off n = map (\<lambda>i. word_at bs (off + 4 * i)) [0..<n]"

definition enc_super :: "sfs_super \<Rightarrow> byte list" where
  "enc_super s = enc32 (sp_magic s) @ enc32 (sp_nblocks s) @ sp_volname s @ enc_words (sp_reserved s)"

definition dec_super :: "byte list \<Rightarrow> sfs_super" where
  "dec_super bs = \<lparr>sp_magic = word_at bs 0, sp_nblocks = word_at bs 4,
     sp_volname = take 32 (drop 8 bs), sp_reserved = words_at bs 40 118\<rparr>"

definition enc_inode :: "sfs_inode \<Rightarrow> byte list" where
  "enc_inode i = enc32 (sfi_size i) @ enc16 (sfi_type i) @ enc16 (sfi_linkcount i) @
     enc_words (sfi_direct i) @ enc32 (sfi_indirect i) @ enc32 (sfi_doubleindirect i) @
     enc32 (sfi_tripleindirect i) @ enc_words (sfi_waste i) @ enc32 (sfi_blocks i)"

definition dec_inode :: "byte list \<Rightarrow> sfs_inode" where
  "dec_inode bs = \<lparr>sfi_size = word_at bs 0, sfi_type = dec16 (take 2 (drop 4 bs)),
     sfi_linkcount = dec16 (take 2 (drop 6 bs)), sfi_direct = words_at bs 8 15,
     sfi_indirect = word_at bs 68, sfi_doubleindirect = word_at bs 72, sfi_tripleindirect = word_at bs 76,
     sfi_waste = words_at bs 80 107, sfi_blocks = word_at bs 508\<rparr>"

definition enc_dir :: "sfs_dir \<Rightarrow> byte list" where
  "enc_dir d = enc32 (sfd_ino d) @ sfd_name d"

definition dec_dir :: "byte list \<Rightarrow> sfs_dir" where
  "dec_dir bs = \<lparr>sfd_ino = word_at bs 0, sfd_name = take 60 (drop 4 bs)\<rparr>"

section \<open>Round trips\<close>

lemma dec16_enc16 [simp]: "n < 2 ^ 16 \<Longrightarrow> dec16 (enc16 n) = n"
  by (simp add: dec16_def enc16_def unat_of_nat)

lemma dec32_enc32 [simp]: "n < 2 ^ 32 \<Longrightarrow> dec32 (enc32 n) = n"
proof -
  assume n: "n < 2 ^ 32"
  define a b c where abc: "a = n div 256" "b = a div 256" "c = b div 256"
  have d: "n div 2 ^ 8 = a" "n div 2 ^ 16 = b" "n div 2 ^ 24 = c"
    by (simp_all add: abc div_mult2_eq [symmetric])
  have "c < 256" using n unfolding d(3) [symmetric] by simp
  then have c: "c mod 256 = c" by simp
  have e: "n = a * 256 + n mod 256" "a = b * 256 + a mod 256" "b = c * 256 + b mod 256"
    by (simp_all only: abc div_mult_mod_eq)
  have "c mod 256 * 16777216 + b mod 256 * 65536 + a mod 256 * 256 + n mod 256 = n"
    using e unfolding c by linarith
  then show ?thesis unfolding dec32_def enc32_def d by (simp add: unat_of_nat)
qed

lemma length_enc [simp]: "length (enc16 n) = 2" "length (enc32 n) = 4"
  by (simp_all add: enc16_def enc32_def)

lemma length_enc_words [simp]: "length (enc_words ns) = 4 * length ns"
  by (induction ns) (simp_all add: enc_words_def)

lemma words_at_enc_words:
  assumes "\<forall>n \<in> set ns. n < 2 ^ 32" and "length pre = off"
  shows "words_at (pre @ enc_words ns @ post) off (length ns) = ns"
  using assms
proof (induction ns arbitrary: pre off)
  case Nil
  then show ?case by (simp add: words_at_def)
next
  case (Cons n ns)
  have e: "pre @ enc_words (n # ns) @ post = (pre @ enc32 n) @ enc_words ns @ post"
    by (simp add: enc_words_def)
  have "words_at ((pre @ enc32 n) @ enc_words ns @ post) (off + 4) (length ns) = ns"
    using Cons.prems by (intro Cons.IH) simp_all
  moreover have "word_at ((pre @ enc32 n) @ enc_words ns @ post) off = n"
    using Cons.prems by (simp add: word_at_def)
  ultimately show ?case
    unfolding e by (simp add: words_at_def map_upt_Suc_shift add.assoc del: upt_Suc append_assoc)
qed

lemma words_at_offset:
  "length pre = off \<Longrightarrow> words_at (pre @ bs) (off + k) n = words_at bs k n"
  by (simp add: words_at_def word_at_def)

lemma word_at_enc32 [simp]: "n < 2 ^ 32 \<Longrightarrow> word_at (enc32 n @ bs) 0 = n"
  by (simp add: word_at_def)

text \<open>The structs as C holds them: arrays of their declared lengths, integers in range.\<close>

definition super_ok :: "sfs_super \<Rightarrow> bool" where
  "super_ok s \<longleftrightarrow> sp_magic s < 2 ^ 32 \<and> sp_nblocks s < 2 ^ 32 \<and> length (sp_volname s) = 32 \<and>
     length (sp_reserved s) = 118 \<and> (\<forall>n \<in> set (sp_reserved s). n < 2 ^ 32)"

definition inode_ok :: "sfs_inode \<Rightarrow> bool" where
  "inode_ok i \<longleftrightarrow> sfi_size i < 2 ^ 32 \<and> sfi_type i < 2 ^ 16 \<and> sfi_linkcount i < 2 ^ 16 \<and>
     length (sfi_direct i) = 15 \<and> (\<forall>n \<in> set (sfi_direct i). n < 2 ^ 32) \<and>
     sfi_indirect i < 2 ^ 32 \<and> sfi_doubleindirect i < 2 ^ 32 \<and> sfi_tripleindirect i < 2 ^ 32 \<and>
     length (sfi_waste i) = 107 \<and> (\<forall>n \<in> set (sfi_waste i). n < 2 ^ 32) \<and> sfi_blocks i < 2 ^ 32"

definition dir_ok :: "sfs_dir \<Rightarrow> bool" where
  "dir_ok d \<longleftrightarrow> sfd_ino d < 2 ^ 32 \<and> length (sfd_name d) = 60"

lemma length_enc_inode: "inode_ok i \<Longrightarrow> length (enc_inode i) = 512"
  by (simp add: inode_ok_def enc_inode_def)

lemma length_enc_super: "super_ok s \<Longrightarrow> length (enc_super s) = 512"
  by (simp add: super_ok_def enc_super_def)

lemma length_enc_dir: "dir_ok d \<Longrightarrow> length (enc_dir d) = 64"
  by (simp add: dir_ok_def enc_dir_def)

lemma dec_dir_enc_dir: "dir_ok d \<Longrightarrow> dec_dir (enc_dir d) = d"
  by (simp add: dir_ok_def dec_dir_def enc_dir_def)

lemma dec_super_enc_super:
  assumes "super_ok s"
  shows "dec_super (enc_super s) = s"
proof -
  have "words_at (enc_super s) 40 118 = sp_reserved s"
    using words_at_enc_words [of "sp_reserved s" "enc32 (sp_magic s) @ enc32 (sp_nblocks s) @ sp_volname s" 40 "[]"]
      assms by (simp add: super_ok_def enc_super_def)
  then show ?thesis using assms by (simp add: super_ok_def dec_super_def) (simp add: enc_super_def word_at_def)
qed

lemma dec_inode_enc_inode:
  assumes "inode_ok i"
  shows "dec_inode (enc_inode i) = i"
proof -
  note ok = assms [unfolded inode_ok_def]
  have d: "words_at (enc_inode i) 8 15 = sfi_direct i"
    using words_at_enc_words [of "sfi_direct i" "enc32 (sfi_size i) @ enc16 (sfi_type i) @ enc16 (sfi_linkcount i)" 8]
      ok by (simp add: enc_inode_def)
  have w: "words_at (enc_inode i) 80 107 = sfi_waste i"
    using words_at_enc_words [of "sfi_waste i" "enc32 (sfi_size i) @ enc16 (sfi_type i) @ enc16 (sfi_linkcount i) @
      enc_words (sfi_direct i) @ enc32 (sfi_indirect i) @ enc32 (sfi_doubleindirect i) @ enc32 (sfi_tripleindirect i)" 80]
      ok by (simp add: enc_inode_def)
  show ?thesis
    using ok by (simp add: dec_inode_def d w) (simp add: enc_inode_def word_at_def)
qed

section \<open>The file system object and block I/O\<close>

record sfs_vnode = vnode +
  sv_i :: sfs_inode
  sv_ino :: nat
  sv_dirty :: bool

text \<open>
  \<^verbatim>\<open>struct sfs_fs\<close>. Loaded vnodes live at addresses: \<open>sv_heap\<close> is the memory they are allocated in,
  \<open>sfs_vnodes\<close> the table of their addresses.
\<close>

record sfs_fs =
  sfs_super :: sfs_super
  sfs_superdirty :: bool
  sfs_device :: lhd_softc
  sfs_vnodes :: "nat parray"
  sfs_freemap :: bitmap
  sfs_freemapdirty :: bool
  sv_heap :: "nat \<Rightarrow> sfs_vnode option"

text \<open>
  \<^verbatim>\<open>sfs_rwblock\<close>: up to ten retries after an I/O error, on the same descriptor; \<^verbatim>\<open>EINVAL\<close> panics.
\<close>

fun sfs_retry :: "nat \<Rightarrow> uio \<Rightarrow> lhd_softc \<Rightarrow> (unit res \<times> uio \<times> lhd_softc) option" where
  "sfs_retry left u lh =
     (case lhd_io u lh of
        None \<Rightarrow> None
      | Some (r, u1, lh1) \<Rightarrow>
          if r = Inl EINVAL then None
          else if r = Inl EIO then
            (case left of
               0 \<Rightarrow> Some (r, u1, lh1)
             | Suc left' \<Rightarrow> sfs_retry left' u1 lh1)
          else Some (r, u1, lh1))"

declare sfs_retry.simps [simp del]

definition sfs_rwblock :: "uio \<Rightarrow> sfs_fs \<Rightarrow> (unit res \<times> uio \<times> sfs_fs) option" where
  "sfs_rwblock u fs = do {
     (r, u', lh) \<leftarrow> sfs_retry 10 u (sfs_device fs);
     Some (r, u', fs\<lparr>sfs_device := lh\<rparr>)
   }"

text \<open>A kernel buffer as the memory a descriptor points into, at address 0.\<close>

definition mem_of :: "byte list \<Rightarrow> memory" where
  "mem_of bs = (\<lambda>a. if a < length bs then Some (bs ! a) else None)"

definition sfs_rblock :: "byte list \<Rightarrow> nat \<Rightarrow> sfs_fs \<Rightarrow> (unit res \<times> byte list \<times> sfs_fs) option" where
  "sfs_rblock data block fs = do {
     (r, u, fs') \<leftarrow> sfs_rwblock (mk_kuio (mem_of data) 0 SFS_BLOCKSIZE (block * SFS_BLOCKSIZE) UIO_READ) fs;
     Some (r, contents (uio_mem u) 0 (length data), fs')
   }"

definition sfs_wblock :: "byte list \<Rightarrow> nat \<Rightarrow> sfs_fs \<Rightarrow> (unit res \<times> sfs_fs) option" where
  "sfs_wblock data block fs = do {
     (r, u, fs') \<leftarrow> sfs_rwblock (mk_kuio (mem_of data) 0 SFS_BLOCKSIZE (block * SFS_BLOCKSIZE) UIO_WRITE) fs;
     Some (r, fs')
   }"

definition sfs_clearblock :: "nat \<Rightarrow> sfs_fs \<Rightarrow> (unit res \<times> sfs_fs) option" where
  "sfs_clearblock block fs = sfs_wblock (replicate SFS_BLOCKSIZE 0) block fs"

definition sfs_sync_inode :: "sfs_vnode \<Rightarrow> sfs_fs \<Rightarrow> (unit res \<times> sfs_vnode \<times> sfs_fs) option" where
  "sfs_sync_inode sv fs =
     (if sv_dirty sv then do {
        (r, fs') \<leftarrow> sfs_wblock (enc_inode (sv_i sv)) (sv_ino sv) fs;
        (case r of
           Inl e \<Rightarrow> Some (Inl e, sv, fs')
         | Inr _ \<Rightarrow> Some (Inr (), sv\<lparr>sv_dirty := False\<rparr>, fs'))
      }
      else Some (Inr (), sv, fs))"

section \<open>Space allocation\<close>

text \<open>\<^verbatim>\<open>sfs_balloc\<close>: a failure to clear the block leaves it allocated.\<close>

definition sfs_balloc :: "sfs_fs \<Rightarrow> (nat res \<times> sfs_fs) option" where
  "sfs_balloc fs = do {
     (r, b) \<leftarrow> bitmap_alloc (sfs_freemap fs);
     let fs1 = fs\<lparr>sfs_freemap := b\<rparr>;
     (case r of
        Inl e \<Rightarrow> Some (Inl e, fs1)
      | Inr diskblock \<Rightarrow> do {
          let fs2 = fs1\<lparr>sfs_freemapdirty := True\<rparr>;
          kassert (diskblock < sp_nblocks (sfs_super fs2));
          (r', fs3) \<leftarrow> sfs_clearblock diskblock fs2;
          (case r' of
             Inl e \<Rightarrow> Some (Inl e, fs3)
           | Inr _ \<Rightarrow> Some (Inr diskblock, fs3))
        })
   }"

definition sfs_bfree :: "nat \<Rightarrow> sfs_fs \<Rightarrow> sfs_fs option" where
  "sfs_bfree diskblock fs = do {
     b \<leftarrow> bitmap_unmark (sfs_freemap fs) diskblock;
     Some (fs\<lparr>sfs_freemap := b, sfs_freemapdirty := True\<rparr>)
   }"

definition sfs_bused :: "nat \<Rightarrow> sfs_fs \<Rightarrow> bool option" where
  "sfs_bused diskblock fs = do {
     kassert (diskblock < sp_nblocks (sfs_super fs));
     bitmap_isset (sfs_freemap fs) diskblock
   }"

section \<open>Block I/O on a disk without faults\<close>

lemma readable_mem_of [simp]: "readable (mem_of bs) 0 n \<longleftrightarrow> n \<le> length bs"
  by (auto simp: readable_def mem_of_def)

lemma contents_mem_of [simp]: "n \<le> length bs \<Longrightarrow> contents (mem_of bs) 0 n = take n bs"
  by (rule nth_equalityI) (auto simp: mem_of_def)

text \<open>The contents of a block, and the file system after reading or writing one.\<close>

definition blk :: "sfs_fs \<Rightarrow> nat \<Rightarrow> byte list" where
  "blk fs b = sectors (sfs_device fs) b"

definition fs_read :: "nat \<Rightarrow> sfs_fs \<Rightarrow> sfs_fs" where
  "fs_read b fs = fs\<lparr>sfs_device := disk_read b (sfs_device fs)\<rparr>"

definition fs_write :: "nat \<Rightarrow> byte list \<Rightarrow> sfs_fs \<Rightarrow> sfs_fs" where
  "fs_write b bs fs = fs\<lparr>sfs_device := disk_write b bs (sfs_device fs)\<rparr>"

text \<open>
  The state a mounted file system on a working disk is in. The free map covers at least the
  volume, and what it has beyond it is marked in use, as \<^verbatim>\<open>mksfs\<close> leaves it.
\<close>

definition fs_inv :: "sfs_fs \<Rightarrow> bool" where
  "fs_inv fs \<longleftrightarrow> disk_ok (sfs_device fs) \<and> bitmap_inv (sfs_freemap fs) \<and>
     sp_nblocks (sfs_super fs) \<le> d_blocks (sfs_device fs) \<and>
     sp_nblocks (sfs_super fs) \<le> nbits (sfs_freemap fs) \<and>
     {sp_nblocks (sfs_super fs) ..< nbits (sfs_freemap fs)} \<subseteq> bm_used (sfs_freemap fs) \<and>
     super_ok (sfs_super fs)"

text \<open>The blocks of the volume that are in use.\<close>

definition fs_used :: "sfs_fs \<Rightarrow> nat set" where
  "fs_used fs = bm_used (sfs_freemap fs) \<inter> {..< sp_nblocks (sfs_super fs)}"

abbreviation nblk :: "sfs_fs \<Rightarrow> nat" where
  "nblk fs \<equiv> sp_nblocks (sfs_super fs)"

lemma fs_rw_sel [simp]:
  "sfs_super (fs_read b fs) = sfs_super fs" "sfs_freemap (fs_read b fs) = sfs_freemap fs"
  "sfs_vnodes (fs_read b fs) = sfs_vnodes fs" "sv_heap (fs_read b fs) = sv_heap fs"
  "sfs_super (fs_write b bs fs) = sfs_super fs" "sfs_freemap (fs_write b bs fs) = sfs_freemap fs"
  "sfs_vnodes (fs_write b bs fs) = sfs_vnodes fs" "sv_heap (fs_write b bs fs) = sv_heap fs"
  "sfs_freemapdirty (fs_read b fs) = sfs_freemapdirty fs"
  "sfs_freemapdirty (fs_write b bs fs) = sfs_freemapdirty fs"
  "sfs_superdirty (fs_read b fs) = sfs_superdirty fs" "sfs_superdirty (fs_write b bs fs) = sfs_superdirty fs"
  by (simp_all add: fs_read_def fs_write_def)

lemma blk_rw [simp]:
  "blk (fs_read b fs) c = blk fs c" "blk (fs_write b bs fs) c = (if c = b then bs else blk fs c)"
  by (simp_all add: blk_def fs_read_def fs_write_def)

lemma fs_inv_read [simp]: "fs_inv fs \<Longrightarrow> fs_inv (fs_read b fs)"
  unfolding fs_inv_def by (simp add: fs_read_def)

lemma fs_inv_write [simp]: "fs_inv fs \<Longrightarrow> length bs = 512 \<Longrightarrow> fs_inv (fs_write b bs fs)"
  unfolding fs_inv_def by (simp add: fs_write_def)

lemma fs_used_rw [simp]: "fs_used (fs_read b fs) = fs_used fs" "fs_used (fs_write b bs fs) = fs_used fs"
  by (simp_all add: fs_used_def)

lemma length_blk [simp]: "fs_inv fs \<Longrightarrow> length (blk fs b) = 512"
  by (simp add: fs_inv_def blk_def)

lemma sfs_retry_ok: "lhd_io u lh = Some (Inr (), u', lh') \<Longrightarrow> sfs_retry n u lh = Some (Inr (), u', lh')"
  by (simp add: sfs_retry.simps)

lemma sector_kuio:
  "length data = 512 \<Longrightarrow> sector_uio (mk_kuio (mem_of data) 0 SFS_BLOCKSIZE (b * SFS_BLOCKSIZE) rw) b"
  by (simp add: sector_uio_def uio_ok_kuio SFS_BLOCKSIZE_def USERTOP_def)

lemma sfs_rwblock_read:
  assumes "fs_inv fs" and "sector_uio u b" and "uio_rw u = UIO_READ" and "b < nblk fs"
  shows "sfs_rwblock u fs = Some (Inr (), uio_filled (blk fs b) u, fs_read b fs)"
  using sfs_retry_ok [OF lhd_io_read [OF _ assms(2,3)]] assms
  by (simp add: sfs_rwblock_def fs_inv_def blk_def fs_read_def)

lemma sfs_rwblock_write:
  assumes "fs_inv fs" and "sector_uio u b" and "uio_rw u = UIO_WRITE" and "b < nblk fs"
  shows "sfs_rwblock u fs = Some (Inr (), uio_advance 512 u, fs_write b (uio_bytes u) fs)"
  using sfs_retry_ok [OF lhd_io_write [OF _ assms(2,3)]] assms
  by (simp add: sfs_rwblock_def fs_inv_def fs_write_def)

lemma sfs_rblock_ok:
  assumes "fs_inv fs" and "length data = 512" and "b < nblk fs"
  shows "sfs_rblock data b fs = Some (Inr (), blk fs b, fs_read b fs)"
proof -
  let ?u = "mk_kuio (mem_of data) 0 SFS_BLOCKSIZE (b * SFS_BLOCKSIZE) UIO_READ"
  have s: "sector_uio ?u b" using assms(2) by (rule sector_kuio)
  then have "uio_ok ?u" by (simp add: sector_uio_def)
  from uio_filled_contents [OF this, of "blk fs b"]
  have "contents (fst (memcpy_out (mem_of data) 0 (blk fs b))) 0 512 = blk fs b"
    using assms(1) by (simp add: SFS_BLOCKSIZE_def)
  then show ?thesis using sfs_rwblock_read [OF assms(1) s _ assms(3)] assms(2) by (simp add: sfs_rblock_def)
qed

lemma sfs_wblock_ok:
  assumes "fs_inv fs" and "length data = 512" and "b < nblk fs"
  shows "sfs_wblock data b fs = Some (Inr (), fs_write b data fs)"
proof -
  let ?u = "mk_kuio (mem_of data) 0 SFS_BLOCKSIZE (b * SFS_BLOCKSIZE) UIO_WRITE"
  have "uio_bytes ?u = data" using assms(2) by (simp add: uio_bytes_def SFS_BLOCKSIZE_def)
  then show ?thesis
    using sfs_rwblock_write [OF assms(1) sector_kuio [OF assms(2)] _ assms(3)] by (simp add: sfs_wblock_def)
qed

lemma sfs_bused_ok: "fs_inv fs \<Longrightarrow> b < nblk fs \<Longrightarrow> sfs_bused b fs = Some (b \<in> fs_used fs)"
  by (auto simp: sfs_bused_def fs_inv_def fs_used_def bm.isset_used)

text \<open>The file system with one more block in use.\<close>

definition fs_alloc :: "nat \<Rightarrow> sfs_fs \<Rightarrow> sfs_fs" where
  "fs_alloc b fs = fs_write b (replicate 512 0)
     (fs\<lparr>sfs_freemap := bm_set (sfs_freemap fs) b True, sfs_freemapdirty := True\<rparr>)"

lemma fs_alloc_sel [simp]:
  "sfs_super (fs_alloc b fs) = sfs_super fs" "sfs_vnodes (fs_alloc b fs) = sfs_vnodes fs"
  "sv_heap (fs_alloc b fs) = sv_heap fs"
  "blk (fs_alloc b fs) c = (if c = b then replicate 512 0 else blk fs c)"
  by (simp_all add: fs_alloc_def) (simp add: blk_def)

lemma fs_alloc_inv:
  assumes "fs_inv fs" and "b < nblk fs"
  shows "fs_inv (fs_alloc b fs)" and "fs_used (fs_alloc b fs) = insert b (fs_used fs)"
proof -
  have b: "bitmap_inv (sfs_freemap fs)" "b < nbits (sfs_freemap fs)" using assms by (auto simp: fs_inv_def)
  note bs = bm_set_inv [OF b, of True] bm_used_set [OF b, of True]
  show "fs_inv (fs_alloc b fs)"
    unfolding fs_alloc_def using assms(1) bs by (intro fs_inv_write) (auto simp: fs_inv_def)
  show "fs_used (fs_alloc b fs) = insert b (fs_used fs)"
    using assms(2) bs by (auto simp: fs_alloc_def fs_used_def)
qed

lemma sfs_balloc_ok:
  assumes inv: "fs_inv fs"
  shows "(\<exists>b. sfs_balloc fs = Some (Inr b, fs_alloc b fs) \<and> b < nblk fs \<and> b \<notin> fs_used fs) \<or>
    sfs_balloc fs = Some (Inl ENOSPC, fs) \<and> fs_used fs = {..< nblk fs}"
proof -
  have bm: "bitmap_inv (sfs_freemap fs)" using inv by (simp add: fs_inv_def)
  from bitmap_alloc_spec [OF bm] show ?thesis
  proof (elim disjE exE conjE)
    fix i
    assume a: "bitmap_alloc (sfs_freemap fs) = Some (Inr i, bm_set (sfs_freemap fs) i True)"
      "i < nbits (sfs_freemap fs)" "i \<notin> bm_used (sfs_freemap fs)"
    then have i: "i < nblk fs" using inv unfolding fs_inv_def
      by (meson atLeastLessThan_iff linorder_not_less subsetD)
    let ?fs1 = "fs\<lparr>sfs_freemap := bm_set (sfs_freemap fs) i True, sfs_freemapdirty := True\<rparr>"
    have "fs_inv ?fs1"
      using inv bm_set_inv [OF bm a(2)] bm_used_set [OF bm a(2), of True] by (auto simp: fs_inv_def)
    then have "sfs_wblock (replicate 512 0) i ?fs1 = Some (Inr (), fs_write i (replicate 512 0) ?fs1)"
      using i by (intro sfs_wblock_ok) simp_all
    then have "sfs_balloc fs = Some (Inr i, fs_alloc i fs)"
      using a i by (simp add: sfs_balloc_def sfs_clearblock_def SFS_BLOCKSIZE_def fs_alloc_def Let_def)
    then show ?thesis using a i by (auto simp: fs_used_def)
  next
    assume a: "bitmap_alloc (sfs_freemap fs) = Some (Inl ENOSPC, sfs_freemap fs)"
      "bm_used (sfs_freemap fs) = {..<nbits (sfs_freemap fs)}"
    then show ?thesis using inv by (auto simp: sfs_balloc_def Let_def fs_used_def fs_inv_def)
  qed
qed

section \<open>Properties\<close>

text \<open>A volume of four blocks, the first two in use, for the concrete instances.\<close>

definition demo_fs :: sfs_fs where
  "demo_fs = \<lparr>sfs_super = \<lparr>sp_magic = SFS_MAGIC, sp_nblocks = 4, sp_volname = replicate 32 0,
      sp_reserved = replicate 118 0\<rparr>,
     sfs_superdirty = False,
     sfs_device = \<lparr>d_blocks = 4, sectors = (\<lambda>_. replicate 512 0), lh_buf = replicate 512 0,
       lh_result = Inr (), hw_codes = (\<lambda>_. 4), hw_ops = 0\<rparr>,
     sfs_vnodes = \<lparr>num = 0, max_slots = 0, v = None\<rparr>,
     sfs_freemap = \<lparr>nbits = 4, bv = [0xf3]\<rparr>,
     sfs_freemapdirty = False, sv_heap = Map.empty\<rparr>"

lemma demo_fs_inv: "fs_inv demo_fs"
proof -
  have small: "i < 8 \<Longrightarrow> i = 0 \<or> i = 1 \<or> i = 2 \<or> i = 3 \<or> i = 4 \<or> i = 5 \<or> i = 6 \<or> i = (7::nat)" for i
    by arith
  have "bitmap_inv \<lparr>nbits = 4, bv = [0xf3]\<rparr>"
    by (auto simp: bitmap_inv_def bit_at_def dest!: small)
  then show ?thesis
    by (simp add: fs_inv_def demo_fs_def disk_ok_def super_ok_def LHD_OK_def LHD_STATEMASK_def SFS_MAGIC_def)
qed



text \<open>An inode written back to disk and loaded again is the same inode, field by field, and no
  other block changed.\<close>

theorem inode_sync_roundtrip:
  assumes "fs_inv fs" and "inode_ok (sv_i sv)" and "sv_ino sv < nblk fs" and "sv_dirty sv"
    and "length data = 512"
  shows "\<exists>fs1 fs2 bs. sfs_sync_inode sv fs = Some (Inr (), sv\<lparr>sv_dirty := False\<rparr>, fs1) \<and>
    sfs_rblock data (sv_ino sv) fs1 = Some (Inr (), bs, fs2) \<and> dec_inode bs = sv_i sv \<and>
    (\<forall>c. c \<noteq> sv_ino sv \<longrightarrow> blk fs1 c = blk fs c)"
proof -
  note len = length_enc_inode [OF assms(2)]
  let ?fs1 = "fs_write (sv_ino sv) (enc_inode (sv_i sv)) fs"
  have "sfs_sync_inode sv fs = Some (Inr (), sv\<lparr>sv_dirty := False\<rparr>, ?fs1)"
    using sfs_wblock_ok [OF assms(1) len assms(3)] assms(4) by (simp add: sfs_sync_inode_def)
  moreover have "sfs_rblock data (sv_ino sv) ?fs1 = Some (Inr (), enc_inode (sv_i sv), fs_read (sv_ino sv) ?fs1)"
    using sfs_rblock_ok [of ?fs1 data "sv_ino sv"] assms len by simp
  ultimately show ?thesis using dec_inode_enc_inode [OF assms(2)] by simp
qed

definition demo_inode :: sfs_inode where
  "demo_inode = \<lparr>sfi_size = 700, sfi_type = 1, sfi_linkcount = 1, sfi_direct = replicate 15 0,
     sfi_indirect = 0, sfi_doubleindirect = 0, sfi_tripleindirect = 0, sfi_waste = replicate 107 0,
     sfi_blocks = 0\<rparr>"

definition demo_vnode :: sfs_vnode where
  "demo_vnode = \<lparr>vn_refcount = 1, vn_opencount = 0, vn_ops = Some SFS_FILEOPS,
     sv_i = demo_inode, sv_ino = 1, sv_dirty = True\<rparr>"

lemma demo_inode_ok: "inode_ok demo_inode"
  by (simp add: inode_ok_def demo_inode_def)

lemma inode_sync_roundtrip_witness:
  "\<exists>fs1 fs2 bs. sfs_sync_inode demo_vnode demo_fs = Some (Inr (), demo_vnode\<lparr>sv_dirty := False\<rparr>, fs1) \<and>
    sfs_rblock (replicate 512 7) 1 fs1 = Some (Inr (), bs, fs2) \<and> sfi_size (dec_inode bs) = 700"
proof -
  have v: "sv_i demo_vnode = demo_inode" "sv_ino demo_vnode = 1" "sv_dirty demo_vnode" "1 < nblk demo_fs"
    by (simp_all add: demo_vnode_def demo_fs_def)
  have "sfi_size demo_inode = 700" by (simp add: demo_inode_def)
  with inode_sync_roundtrip [OF demo_fs_inv, of demo_vnode "replicate 512 7", unfolded v(1,2), OF demo_inode_ok v(4,3)]
  show ?thesis by fastforce
qed

text \<open>When the first attempt to write a block meets a media error, the write is reported as a success
  although nothing reached the disk: the driver had already moved the descriptor past the sector, so
  the retry finds nothing left to write.\<close>

theorem sfs_wblock_loses_data:
  assumes "length data = 512" and "b < d_blocks (sfs_device fs)" and "d_blocks (sfs_device fs) < 2 ^ 31"
    and "length (lh_buf (sfs_device fs)) = 512"
    and "hw_codes (sfs_device fs) (hw_ops (sfs_device fs)) AND LHD_STATEMASK = LHD_MEDIA"
  shows "\<exists>fs'. sfs_wblock data b fs = Some (Inr (), fs') \<and> sectors (sfs_device fs') = sectors (sfs_device fs)"
proof -
  let ?u = "mk_kuio (mem_of data) 0 SFS_BLOCKSIZE (b * SFS_BLOCKSIZE) UIO_WRITE"
  let ?lh = "(sfs_device fs)\<lparr>lh_buf := uio_bytes ?u, lh_result := Inl EIO, hw_ops := hw_ops (sfs_device fs) + 1\<rparr>"
  have s: "sector_uio ?u b" using assms(1) by (rule sector_kuio)
  have first: "lhd_io ?u (sfs_device fs) = Some (Inl EIO, uio_advance 512 ?u, ?lh)"
    using lhd_io_write_media [OF assms(5,4) s _ assms(2,3)] by simp
  have "size32 (b + 1) \<le> d_blocks (sfs_device fs)" using assms(2,3) by simp
  then have second: "lhd_io (uio_advance 512 ?u) ?lh = Some (Inr (), uio_advance 512 ?u, ?lh)"
    by (simp add: lhd_io_def LHD_SECTSIZE_def SFS_BLOCKSIZE_def Let_def)
  have "sfs_retry 10 ?u (sfs_device fs) = Some (Inr (), uio_advance 512 ?u, ?lh)"
    using sfs_retry_ok [OF second, of 9] by (subst sfs_retry.simps) (simp add: first numeral_eq_Suc)
  then show ?thesis by (simp add: sfs_wblock_def sfs_rwblock_def)
qed

lemma sfs_wblock_loses_data_witness:
  "\<exists>fs'. sfs_wblock (replicate 512 7) 2
       (demo_fs\<lparr>sfs_device := (sfs_device demo_fs)\<lparr>hw_codes := (\<lambda>k. if k = 0 then 20 else 4)\<rparr>\<rparr>) = Some (Inr (), fs') \<and>
     sectors (sfs_device fs') 2 = replicate 512 0"
  using sfs_wblock_loses_data [of "replicate 512 7" 2
      "demo_fs\<lparr>sfs_device := (sfs_device demo_fs)\<lparr>hw_codes := (\<lambda>k. if k = 0 then 20 else 4)\<rparr>\<rparr>"]
  by (auto simp: demo_fs_def LHD_STATEMASK_def LHD_MEDIA_def)

end
