(* ===== verification/Sfs_bmap.thy ===== *)
theory Sfs_bmap
  imports Sfs_disk
begin

text \<open>
  \<^verbatim>\<open>sfs_bmap\<close> of \<^verbatim>\<open>assignment3/ownSolution/sfs_vnode.c\<close>: from a block of a file to a block of the disk,
  through direct, indirect, double and triple indirect blocks, allocating on the way when asked
  to. The variables the two nested functions share with \<^verbatim>\<open>sfs_bmap\<close> are a record.
\<close>

section \<open>The code\<close>

record bmap_state =
  bm_buf :: "nat list"
  bm_idblock :: nat
  bm_block :: nat
  bm_sv :: sfs_vnode
  bm_fs :: sfs_fs

definition bump_blocks :: "sfs_inode \<Rightarrow> sfs_inode" where
  "bump_blocks i = i\<lparr>sfi_blocks := size32 (sfi_blocks i + 1)\<rparr>"

text \<open>The inode pointer of a level: 1 indirect, 2 double, 3 triple.\<close>

definition set_idptr :: "nat \<Rightarrow> nat \<Rightarrow> sfs_inode \<Rightarrow> sfs_inode" where
  "set_idptr idblevel b i =
     (if idblevel = 1 then i\<lparr>sfi_indirect := b\<rparr>
      else if idblevel = 2 then i\<lparr>sfi_doubleindirect := b\<rparr>
      else if idblevel = 3 then i\<lparr>sfi_tripleindirect := b\<rparr>
      else i)"

definition loadbuffer :: "nat \<Rightarrow> nat \<Rightarrow> nat \<Rightarrow> bmap_state \<Rightarrow> (unit res \<times> bmap_state) option" where
  "loadbuffer idblevel blockarg level s =
     (if blockarg = 0 then
        (case sfs_balloc (bm_fs s) of
           None \<Rightarrow> None
         | Some (Inl e, fs') \<Rightarrow> Some (Inl e, s\<lparr>bm_fs := fs'\<rparr>)
         | Some (Inr b, fs') \<Rightarrow>
             (let i1 = bump_blocks (sv_i (bm_sv s));
                  i2 = (if level = 0 then set_idptr idblevel b i1 else i1)
              in Some (Inr (), s\<lparr>bm_fs := fs', bm_sv := (bm_sv s)\<lparr>sv_i := i2, sv_dirty := True\<rparr>,
                   bm_idblock := b, bm_buf := replicate 128 0\<rparr>)))
      else
        (case sfs_rblock (enc_words (bm_buf s)) blockarg (bm_fs s) of
           None \<Rightarrow> None
         | Some (r, bs, fs') \<Rightarrow> Some (r, s\<lparr>bm_buf := words_at bs 0 128, bm_fs := fs'\<rparr>)))"

definition get_block :: "bool \<Rightarrow> nat \<Rightarrow> bmap_state \<Rightarrow> (unit res \<times> bmap_state) option" where
  "get_block doalloc blockno s = do {
     b \<leftarrow> rd (bm_buf s) blockno;
     if b = 0 \<and> doalloc then
       (case sfs_balloc (bm_fs s) of
          None \<Rightarrow> None
        | Some (Inl e, fs') \<Rightarrow> Some (Inl e, s\<lparr>bm_block := b, bm_fs := fs'\<rparr>)
        | Some (Inr nb, fs') \<Rightarrow> do {
            let buf = (bm_buf s)[blockno := nb];
            (r, fs'') \<leftarrow> sfs_wblock (enc_words buf) (bm_idblock s) fs';
            Some (r, s\<lparr>bm_block := nb, bm_buf := buf, bm_fs := fs'',
                       bm_sv := (bm_sv s)\<lparr>sv_i := bump_blocks (sv_i (bm_sv s))\<rparr>\<rparr>)
          })
     else Some (Inr (), s\<lparr>bm_block := b\<rparr>)
   }"

text \<open>Descending one level: the block just found becomes the current indirect block and is loaded.\<close>

definition descend :: "nat \<Rightarrow> bmap_state \<Rightarrow> (unit res \<times> bmap_state) option" where
  "descend idblevel s = loadbuffer idblevel (bm_block s) 1 (s\<lparr>bm_idblock := bm_block s, bm_buf := replicate 128 0\<rparr>)"

text \<open>The final check and hand-back.\<close>

definition bmap_finish :: "bmap_state \<Rightarrow> (nat res \<times> bmap_state) option" where
  "bmap_finish s = do {
     used \<leftarrow> (if bm_block s \<noteq> 0 then sfs_bused (bm_block s) (bm_fs s) else Some True);
     kassert used;
     Some (Inr (bm_block s), s)
   }"

definition bmap_direct :: "nat \<Rightarrow> bool \<Rightarrow> bmap_state \<Rightarrow> (nat res \<times> bmap_state) option" where
  "bmap_direct fileblock doalloc s = do {
     b \<leftarrow> rd (sfi_direct (sv_i (bm_sv s))) fileblock;
     if b = 0 \<and> doalloc then
       (case sfs_balloc (bm_fs s) of
          None \<Rightarrow> None
        | Some (Inl e, fs') \<Rightarrow> Some (Inl e, s\<lparr>bm_fs := fs'\<rparr>)
        | Some (Inr nb, fs') \<Rightarrow>
            (let i1 = bump_blocks (sv_i (bm_sv s));
                 i2 = i1\<lparr>sfi_direct := (sfi_direct i1)[fileblock := nb]\<rparr>
             in bmap_finish (s\<lparr>bm_block := nb, bm_fs := fs', bm_sv := (bm_sv s)\<lparr>sv_i := i2, sv_dirty := True\<rparr>\<rparr>)))
     else bmap_finish (s\<lparr>bm_block := b\<rparr>)
   }"

definition bmap_indirect :: "nat \<Rightarrow> bool \<Rightarrow> bmap_state \<Rightarrow> (nat res \<times> bmap_state) option" where
  "bmap_indirect fileblock doalloc s =
     (let idblevel = (if fileblock \<ge> SFS_DBPERIDB * SFS_DBPERIDB + SFS_DBPERIDB then 3
                      else if fileblock \<ge> SFS_DBPERIDB then 2 else 1 :: nat);
          i = sv_i (bm_sv s);
          fb = (if idblevel = 1 then fileblock
                else if idblevel = 2 then fileblock - SFS_DBPERIDB
                else fileblock - (SFS_DBPERIDB * SFS_DBPERIDB - SFS_DBPERIDB));
          idb = (if idblevel = 1 then sfi_indirect i
                 else if idblevel = 2 then sfi_doubleindirect i
                 else sfi_tripleindirect i)
      in if idb = 0 \<and> \<not> doalloc then Some (Inr 0, s)
         else
           ebind (loadbuffer idblevel idb 0 (s\<lparr>bm_idblock := idb\<rparr>)) (\<lambda>_ s1.
           ebind (if idblevel = 1 then get_block doalloc (fb mod SFS_DBPERIDB) s1
                  else if idblevel = 2 then
                    ebind (get_block doalloc (fb div SFS_DBPERIDB) s1) (\<lambda>_ s2.
                    ebind (descend idblevel s2) (\<lambda>_ s3.
                    get_block doalloc (fb mod SFS_DBPERIDB) s3))
                  else
                    ebind (get_block doalloc (fb div (SFS_DBPERIDB * SFS_DBPERIDB)) s1) (\<lambda>_ s2.
                    ebind (descend idblevel s2) (\<lambda>_ s3.
                    ebind (get_block doalloc (fb div SFS_DBPERIDB) s3) (\<lambda>_ s4.
                    ebind (descend idblevel s4) (\<lambda>_ s5.
                    get_block doalloc (fb mod SFS_DBPERIDB) s5)))))
           (\<lambda>_ s6. bmap_finish s6)))"

text \<open>\<^verbatim>\<open>sfs_bmap\<close> on the shared variables, and as its callers see it.\<close>

definition bmap_run :: "nat \<Rightarrow> bool \<Rightarrow> bmap_state \<Rightarrow> (nat res \<times> bmap_state) option" where
  "bmap_run fileblock doalloc s =
     (if fileblock < SFS_NDIRECT then bmap_direct fileblock doalloc s
      else
        (let fb = fileblock - SFS_NDIRECT;
             idnum = fb div (SFS_DBPERIDB + SFS_DBPERIDB * SFS_DBPERIDB + SFS_DBPERIDB * SFS_DBPERIDB * SFS_DBPERIDB)
         in if idnum > 0 then Some (Inl EINVAL, s)
            else bmap_indirect fb doalloc s))"

definition sfs_bmap :: "sfs_vnode \<Rightarrow> nat \<Rightarrow> bool \<Rightarrow> sfs_fs \<Rightarrow> (nat res \<times> sfs_vnode \<times> sfs_fs) option" where
  "sfs_bmap sv0 fileblock doalloc fs0 =
     map_option (\<lambda>(r, s). (r, bm_sv s, bm_fs s))
       (bmap_run fileblock doalloc
         \<lparr>bm_buf = replicate 128 0, bm_idblock = 0, bm_block = 0, bm_sv = sv0, bm_fs = fs0\<rparr>)"

section \<open>The tree of block pointers\<close>

text \<open>
  A file's pointers are named by a root in the inode and the path below it, innermost index first.
  A data block is at the end of a path as long as the root's depth.
\<close>

datatype root = Direct nat | Single | Double | Triple

type_synonym slot = "root \<times> nat list"

primrec depth :: "root \<Rightarrow> nat" where
  "depth (Direct _) = 0"
| "depth Single = 1"
| "depth Double = 2"
| "depth Triple = 3"

definition slot_ok :: "slot \<Rightarrow> bool" where
  "slot_ok s \<longleftrightarrow> length (snd s) \<le> depth (fst s) \<and> (\<forall>n \<in> set (snd s). n < 128) \<and>
     (case fst s of Direct n \<Rightarrow> n < 15 | _ \<Rightarrow> True)"

definition leaf :: "slot \<Rightarrow> bool" where
  "leaf s \<longleftrightarrow> length (snd s) = depth (fst s)"

primrec rootptr :: "sfs_inode \<Rightarrow> root \<Rightarrow> nat" where
  "rootptr i (Direct n) = sfi_direct i ! n"
| "rootptr i Single = sfi_indirect i"
| "rootptr i Double = sfi_doubleindirect i"
| "rootptr i Triple = sfi_tripleindirect i"

definition bwords :: "sfs_fs \<Rightarrow> nat \<Rightarrow> nat list" where
  "bwords fs b = words_at (blk fs b) 0 128"

definition child :: "sfs_fs \<Rightarrow> nat \<Rightarrow> nat \<Rightarrow> nat" where
  "child fs p n = (if p = 0 then 0 else bwords fs p ! n)"

primrec pv :: "sfs_inode \<Rightarrow> sfs_fs \<Rightarrow> root \<Rightarrow> nat list \<Rightarrow> nat" where
  "pv i fs r [] = rootptr i r"
| "pv i fs r (n # ns) = child fs (pv i fs r ns) n"

abbreviation ptr :: "sfs_vnode \<Rightarrow> sfs_fs \<Rightarrow> slot \<Rightarrow> nat" where
  "ptr vn fs s \<equiv> pv (sv_i vn) fs (fst s) (snd s)"

text \<open>
  A sound file: its pointers name blocks in use, no block is named twice, and neither the
  superblock nor the inode's own block is among them.
\<close>

definition file_inv :: "sfs_vnode \<Rightarrow> sfs_fs \<Rightarrow> bool" where
  "file_inv vn fs \<longleftrightarrow> fs_inv fs \<and> inode_ok (sv_i vn) \<and> 0 \<in> fs_used fs \<and> sv_ino vn \<in> fs_used fs \<and>
     (\<forall>s. slot_ok s \<longrightarrow> ptr vn fs s \<noteq> 0 \<longrightarrow> ptr vn fs s \<in> fs_used fs \<and> ptr vn fs s \<noteq> sv_ino vn) \<and>
     (\<forall>s t. slot_ok s \<longrightarrow> slot_ok t \<longrightarrow> ptr vn fs s \<noteq> 0 \<longrightarrow> ptr vn fs s = ptr vn fs t \<longrightarrow> s = t)"

definition meta_blocks :: "sfs_vnode \<Rightarrow> sfs_fs \<Rightarrow> nat set" where
  "meta_blocks vn fs = {ptr vn fs s | s. slot_ok s \<and> \<not> leaf s \<and> ptr vn fs s \<noteq> 0}"

section \<open>Pointers in blocks\<close>

lemma dec32_less: "dec32 bs < 2 ^ 32"
proof -
  have u: "unat (b :: byte) \<le> 255" for b
  proof -
    have "unat b < 2 ^ LENGTH(8)" by (rule unsigned_less)
    then show ?thesis by simp
  qed
  show ?thesis
    using u [of "bs ! 0"] u [of "bs ! 1"] u [of "bs ! 2"] u [of "bs ! 3"] unfolding dec32_def by simp
qed

lemma words_at_less: "n \<in> set (words_at bs off k) \<Longrightarrow> n < 2 ^ 32"
  using dec32_less by (auto simp: words_at_def word_at_def)

lemma length_words_at [simp]: "length (words_at bs off k) = k"
  by (simp add: words_at_def)

lemma words_at_enc:
  "length ns = k \<Longrightarrow> \<forall>n \<in> set ns. n < 2 ^ 32 \<Longrightarrow> words_at (enc_words ns) 0 k = ns"
  using words_at_enc_words [of ns "[]" 0 "[]"] by auto

lemma words_at_zero: "4 * k \<le> m \<Longrightarrow> words_at (replicate m 0) 0 k = replicate k 0"
  by (rule nth_equalityI) (auto simp: words_at_def word_at_def dec32_def)

lemma length_bwords [simp]: "length (bwords fs b) = 128"
  by (simp add: bwords_def)

lemma bwords_rw [simp]:
  "bwords (fs_read b fs) q = bwords fs q"
  "bwords (fs_write b bs fs) q = (if q = b then words_at bs 0 128 else bwords fs q)"
  "bwords (fs_alloc b fs) q = (if q = b then replicate 128 0 else bwords fs q)"
  by (simp_all add: bwords_def words_at_zero)

text \<open>The disk after a new block \<open>b\<close> has been entered at place \<open>n\<close> of the pointer block \<open>p\<close>.\<close>

definition link_child :: "nat \<Rightarrow> nat \<Rightarrow> nat \<Rightarrow> sfs_fs \<Rightarrow> sfs_fs" where
  "link_child p n b fs = fs_write p (enc_words ((bwords fs p)[n := b])) (fs_alloc b fs)"

lemma length_enc_link [simp]: "length (enc_words ((bwords fs p)[n := b])) = 512"
  by simp

lemma bwords_link:
  assumes "b < 2 ^ 32"
  shows "bwords (link_child p n b fs) q =
    (if q = p then (bwords fs p)[n := b] else if q = b then replicate 128 0 else bwords fs q)"
proof -
  have "words_at (enc_words ((bwords fs p)[n := b])) 0 128 = (bwords fs p)[n := b]"
    using assms words_at_less [of _ "blk fs p" 0 128]
    by (intro words_at_enc) (auto simp: bwords_def dest!: set_update_subset_insert [THEN subsetD])
  then show ?thesis by (simp add: link_child_def)
qed

section \<open>Adding one pointer\<close>

lemma slot_ok_Cons: "slot_ok (r, n # ns) \<Longrightarrow> slot_ok (r, ns) \<and> \<not> leaf (r, ns) \<and> n < 128"
  by (auto simp: slot_ok_def leaf_def)

lemma file_invD:
  assumes "file_inv vn fs"
  shows "fs_inv fs" and "inode_ok (sv_i vn)" and "0 \<in> fs_used fs"
    and "\<And>r ns. slot_ok (r, ns) \<Longrightarrow> pv (sv_i vn) fs r ns \<noteq> 0 \<Longrightarrow> pv (sv_i vn) fs r ns \<in> fs_used fs"
    and "\<And>r ns r' ns'. slot_ok (r, ns) \<Longrightarrow> slot_ok (r', ns') \<Longrightarrow> pv (sv_i vn) fs r ns \<noteq> 0 \<Longrightarrow>
      pv (sv_i vn) fs r ns = pv (sv_i vn) fs r' ns' \<Longrightarrow> (r, ns) = (r', ns')"
  using assms unfolding file_inv_def by (auto simp: split_paired_all split_paired_All)

lemma fs_used_less: "b \<in> fs_used fs \<Longrightarrow> b < nblk fs"
  by (simp add: fs_used_def)

lemma nblk_less: "fs_inv fs \<Longrightarrow> nblk fs < 2 ^ 32"
  by (simp add: fs_inv_def super_ok_def)

lemma pv_child:
  assumes inv: "file_inv vn fs" and s: "slot_ok (r, n # ns)"
    and p: "pv (sv_i vn) fs r ns = p" "p \<noteq> 0" and z: "pv (sv_i vn) fs r (n # ns) = 0"
    and b: "b < nblk fs" "b \<notin> fs_used fs" and roots: "\<And>r. rootptr i' r = rootptr (sv_i vn) r"
    and t: "slot_ok (r2, ms)"
  shows "pv i' (link_child p n b fs) r2 ms = (if (r2, ms) = (r, n # ns) then b else pv (sv_i vn) fs r2 ms)"
  using t
proof (induction ms)
  case Nil
  then show ?case by (simp add: roots)
next
  case (Cons k ms)
  note d = file_invD [OF inv]
  have sm: "slot_ok (r2, ms)" "k < 128" using slot_ok_Cons [OF Cons.prems] by auto
  note sn = slot_ok_Cons [OF s]
  note IH = Cons.IH [OF sm(1)]
  have b32: "b < 2 ^ 32" using b nblk_less [OF d(1)] by simp
  have pb: "p \<noteq> b" using d(4) [of r ns] sn p b by auto
  let ?q = "pv (sv_i vn) fs r2 ms"
  show ?case
  proof (cases "(r2, ms) = (r, n # ns)")
    case True
    have "b \<noteq> 0" using b d(3) by metis
    then have "child (link_child p n b fs) b k = 0"
      using sm pb by (simp add: child_def bwords_link [OF b32])
    then show ?thesis using True IH z by (auto simp: child_def)
  next
    case False
    then have q: "pv i' (link_child p n b fs) r2 ms = ?q" using IH by auto
    show ?thesis
    proof (cases "?q = 0")
      case True
      then show ?thesis using q p by (auto simp: child_def)
    next
      case nz: False
      show ?thesis
      proof (cases "?q = p")
        case True
        then have "(r2, ms) = (r, ns)" using d(5) [OF sm(1), of r ns] sn p by auto
        then show ?thesis using q nz True sn by (auto simp: child_def bwords_link [OF b32])
      next
        case np: False
        have "?q \<noteq> b" using d(4) [OF sm(1) nz] b by auto
        then show ?thesis using q nz np p by (auto simp: child_def bwords_link [OF b32])
      qed
    qed
  qed
qed

text \<open>A new block at a root pointer of the inode.\<close>

lemma pv_root:
  assumes inv: "file_inv vn fs" and z: "rootptr (sv_i vn) r = 0"
    and b: "b < nblk fs" "b \<notin> fs_used fs"
    and roots: "\<And>r'. slot_ok (r', []) \<Longrightarrow> rootptr i' r' = (if r' = r then b else rootptr (sv_i vn) r')"
    and t: "slot_ok (r2, ms)"
  shows "pv i' (fs_alloc b fs) r2 ms = (if (r2, ms) = (r, []) then b else pv (sv_i vn) fs r2 ms)"
  using t
proof (induction ms)
  case Nil
  then show ?case by (simp add: roots)
next
  case (Cons k ms)
  note d = file_invD [OF inv]
  have sm: "slot_ok (r2, ms)" "k < 128" using slot_ok_Cons [OF Cons.prems] by auto
  note IH = Cons.IH [OF sm(1)]
  show ?case
  proof (cases "(r2, ms) = (r, [])")
    case True
    then show ?thesis using IH z sm by (auto simp: child_def)
  next
    case False
    then have q: "pv i' (fs_alloc b fs) r2 ms = pv (sv_i vn) fs r2 ms" using IH by auto
    show ?thesis
    proof (cases "pv (sv_i vn) fs r2 ms = 0")
      case nz: False
      have "pv (sv_i vn) fs r2 ms \<noteq> b" using d(4) [OF sm(1) nz] b by auto
      then show ?thesis using q by (simp add: child_def)
    qed (use q in \<open>simp add: child_def\<close>)
  qed
qed

section \<open>Growing a file\<close>

text \<open>
  What an allocating lookup may do: only pointers in \<open>S\<close> that were null get a value, a block that
  was free (cleared, if it is a data block); every other pointer, and the contents of every block
  in use other than the file's own pointer blocks, stay.
\<close>

definition same_file :: "sfs_vnode \<Rightarrow> sfs_vnode \<Rightarrow> bool" where
  "same_file vn vn' \<longleftrightarrow> sv_ino vn' = sv_ino vn \<and> vnode.truncate vn' = vnode.truncate vn \<and>
     sfi_size (sv_i vn') = sfi_size (sv_i vn) \<and> sfi_type (sv_i vn') = sfi_type (sv_i vn) \<and>
     sfi_linkcount (sv_i vn') = sfi_linkcount (sv_i vn)"

definition same_fs :: "sfs_fs \<Rightarrow> sfs_fs \<Rightarrow> bool" where
  "same_fs fs fs' \<longleftrightarrow> sfs_super fs' = sfs_super fs \<and> sfs_vnodes fs' = sfs_vnodes fs \<and> sv_heap fs' = sv_heap fs"

definition grows :: "slot set \<Rightarrow> sfs_vnode \<Rightarrow> sfs_fs \<Rightarrow> sfs_vnode \<Rightarrow> sfs_fs \<Rightarrow> bool" where
  "grows S vn fs vn' fs' \<longleftrightarrow> file_inv vn' fs' \<and> same_file vn vn' \<and> same_fs fs fs' \<and>
     fs_used fs \<subseteq> fs_used fs' \<and>
     (\<forall>s. slot_ok s \<longrightarrow> s \<notin> S \<or> ptr vn fs s \<noteq> 0 \<longrightarrow> ptr vn' fs' s = ptr vn fs s) \<and>
     (\<forall>s. slot_ok s \<longrightarrow> ptr vn fs s = 0 \<longrightarrow> ptr vn' fs' s \<noteq> 0 \<longrightarrow>
        ptr vn' fs' s \<notin> fs_used fs \<and> (leaf s \<longrightarrow> blk fs' (ptr vn' fs' s) = replicate 512 0)) \<and>
     (\<forall>c \<in> fs_used fs. c \<notin> meta_blocks vn fs \<longrightarrow> blk fs' c = blk fs c)"

lemma same_file_refl [simp]: "same_file vn vn" by (simp add: same_file_def)
lemma same_fs_refl [simp]: "same_fs fs fs" by (simp add: same_fs_def)

lemma same_trans: "same_file a b \<Longrightarrow> same_file b c \<Longrightarrow> same_file a c"
  "same_fs x y \<Longrightarrow> same_fs y z \<Longrightarrow> same_fs x z"
  by (auto simp: same_file_def same_fs_def)

lemma child_read [simp]: "child (fs_read b fs) p n = child fs p n"
  by (simp add: child_def)

lemma pv_read [simp]: "pv i (fs_read b fs) r ns = pv i fs r ns"
  by (induction ns) simp_all

lemma file_inv_read: "file_inv vn fs \<Longrightarrow> file_inv vn (fs_read b fs)"
  by (simp add: file_inv_def)

lemma same_fs_read [simp]: "same_fs fs (fs_read b fs)"
  by (simp add: same_fs_def)

lemma grows_read: "file_inv vn fs \<Longrightarrow> grows {} vn fs vn (fs_read b fs)"
  by (simp add: grows_def file_inv_read)

lemma growsD:
  assumes "grows S vn fs vn' fs'"
  shows "file_inv vn' fs'" and "same_file vn vn'" and "same_fs fs fs'" and "fs_used fs \<subseteq> fs_used fs'"
    and "\<And>s. slot_ok s \<Longrightarrow> s \<notin> S \<or> ptr vn fs s \<noteq> 0 \<Longrightarrow> ptr vn' fs' s = ptr vn fs s"
    and "\<And>s. slot_ok s \<Longrightarrow> ptr vn fs s = 0 \<Longrightarrow> ptr vn' fs' s \<noteq> 0 \<Longrightarrow> ptr vn' fs' s \<notin> fs_used fs"
    and "\<And>s. slot_ok s \<Longrightarrow> ptr vn fs s = 0 \<Longrightarrow> ptr vn' fs' s \<noteq> 0 \<Longrightarrow> leaf s \<Longrightarrow>
      blk fs' (ptr vn' fs' s) = replicate 512 0"
    and "\<And>c. c \<in> fs_used fs \<Longrightarrow> c \<notin> meta_blocks vn fs \<Longrightarrow> blk fs' c = blk fs c"
  using assms unfolding grows_def by blast+

lemma leaf_not_meta:
  assumes "file_inv vn fs" and "slot_ok s" and "leaf s" and "ptr vn fs s \<noteq> 0"
  shows "ptr vn fs s \<notin> meta_blocks vn fs"
  using assms unfolding file_inv_def meta_blocks_def by (smt (verit) mem_Collect_eq)

lemma meta_grows:
  assumes "grows S vn fs vn' fs'" and "c \<in> fs_used fs" and "c \<notin> meta_blocks vn fs"
  shows "c \<notin> meta_blocks vn' fs'"
proof
  assume "c \<in> meta_blocks vn' fs'"
  then obtain s where s: "slot_ok s" "\<not> leaf s" "ptr vn' fs' s = c" "c \<noteq> 0"
    unfolding meta_blocks_def by blast
  show False
  proof (cases "ptr vn fs s = 0")
    case True
    then show False using growsD(6) [OF assms(1) s(1)] s assms(2) by auto
  next
    case False
    then have "ptr vn fs s = c" using growsD(5) [OF assms(1) s(1)] s by auto
    then show False using s False assms(3) unfolding meta_blocks_def by blast
  qed
qed

lemma grows_trans:
  assumes g1: "grows S vn fs vn1 fs1" and g2: "grows T vn1 fs1 vn2 fs2"
  shows "grows (S \<union> T) vn fs vn2 fs2"
proof -
  note d1 = growsD [OF g1] and d2 = growsD [OF g2]
  have p: "ptr vn2 fs2 s = ptr vn fs s" if "slot_ok s" "s \<notin> S \<union> T \<or> ptr vn fs s \<noteq> 0" for s
    using d1(5) [of s] d2(5) [of s] that by auto
  have f: "ptr vn2 fs2 s \<notin> fs_used fs \<and> (leaf s \<longrightarrow> blk fs2 (ptr vn2 fs2 s) = replicate 512 0)"
    if s: "slot_ok s" "ptr vn fs s = 0" "ptr vn2 fs2 s \<noteq> 0" for s
  proof (cases "ptr vn1 fs1 s = 0")
    case True
    then show ?thesis using d2(6,7) [of s] d1(4) s by auto
  next
    case False
    then have e: "ptr vn2 fs2 s = ptr vn1 fs1 s" using d2(5) [of s] s by auto
    have "ptr vn1 fs1 s \<in> fs_used fs1" using d1(1) s(1) False unfolding file_inv_def by blast
    then show ?thesis
      using e d1(6,7) [of s] s False d2(8) leaf_not_meta [OF d1(1) s(1)] by auto
  qed
  have b: "blk fs2 c = blk fs c" if "c \<in> fs_used fs" "c \<notin> meta_blocks vn fs" for c
    using d1(8) [OF that] d2(8) [of c] d1(4) that meta_grows [OF g1 that] by auto
  show ?thesis
    unfolding grows_def using d1(2-4) d2(1-4) p f b by (blast intro: same_trans)
qed

lemma grows_mono: "grows S vn fs vn' fs' \<Longrightarrow> S \<subseteq> T \<Longrightarrow> grows T vn fs vn' fs'"
  unfolding grows_def by blast

lemma file_inv_inj:
  "file_inv vn fs \<Longrightarrow> slot_ok s \<Longrightarrow> slot_ok t \<Longrightarrow> ptr vn fs s \<noteq> 0 \<Longrightarrow> ptr vn fs s = ptr vn fs t \<Longrightarrow> s = t"
  unfolding file_inv_def by blast

lemma file_inv_used: "file_inv vn fs \<Longrightarrow> slot_ok s \<Longrightarrow> ptr vn fs s \<noteq> 0 \<Longrightarrow> ptr vn fs s \<in> fs_used fs"
  unfolding file_inv_def by blast

text \<open>Adding one pointer, in the inode or in a pointer block, is such a step.\<close>

lemma file_inv_add:
  assumes inv: "file_inv vn fs" and s: "slot_ok s" and b: "b < nblk fs" "b \<notin> fs_used fs"
    and ptrs: "\<And>t. slot_ok t \<Longrightarrow> ptr vn' fs' t = (if t = s then b else ptr vn fs t)"
    and rest: "fs_inv fs'" "inode_ok (sv_i vn')" "fs_used fs' = insert b (fs_used fs)" "sv_ino vn' = sv_ino vn"
  shows "file_inv vn' fs'"
proof -
  have ino: "sv_ino vn \<in> fs_used fs" using inv by (simp add: file_inv_def)
  have one: "ptr vn' fs' t \<in> fs_used fs' \<and> ptr vn' fs' t \<noteq> sv_ino vn'" if "slot_ok t" "ptr vn' fs' t \<noteq> 0" for t
    using that ptrs [of t] inv rest(3,4) b ino unfolding file_inv_def by (cases "t = s") auto
  have two: "t = u" if tu: "slot_ok t" "slot_ok u" "ptr vn' fs' t \<noteq> 0" "ptr vn' fs' t = ptr vn' fs' u" for t u
  proof -
    have old: "ptr vn fs x \<noteq> b" if "slot_ok x" for x
      using inv that b unfolding file_inv_def by metis
    consider "t = s" "u = s" | "t = s" "u \<noteq> s" | "t \<noteq> s" "u = s" | "t \<noteq> s" "u \<noteq> s" by blast
    then show ?thesis
    proof cases
      case 2
      then have "ptr vn fs u = b" using tu ptrs [of t] ptrs [of u] by simp
      then show ?thesis using old [OF tu(2)] by simp
    next
      case 3
      then have "ptr vn fs t = b" using tu ptrs [of t] ptrs [of u] by simp
      then show ?thesis using old [OF tu(1)] by simp
    next
      case 4
      then have "ptr vn fs t \<noteq> 0" "ptr vn fs t = ptr vn fs u" using tu ptrs [of t] ptrs [of u] by simp_all
      then show ?thesis using file_inv_inj [OF inv tu(1,2)] by simp
    qed simp
  qed
  show ?thesis unfolding file_inv_def using inv rest one two by (auto simp: file_inv_def)
qed

lemma grows_add:
  assumes inv: "file_inv vn fs" and s: "slot_ok s" and z: "ptr vn fs s = 0" and b: "b < nblk fs" "b \<notin> fs_used fs"
    and ptrs: "\<And>t. slot_ok t \<Longrightarrow> ptr vn' fs' t = (if t = s then b else ptr vn fs t)"
    and rest: "fs_inv fs'" "inode_ok (sv_i vn')" "fs_used fs' = insert b (fs_used fs)"
    and same: "same_file vn vn'" "same_fs fs fs'"
    and new: "leaf s \<Longrightarrow> blk fs' b = replicate 512 0"
    and old: "\<And>c. c \<in> fs_used fs \<Longrightarrow> c \<notin> meta_blocks vn fs \<Longrightarrow> blk fs' c = blk fs c"
  shows "grows {s} vn fs vn' fs'"
proof -
  have "file_inv vn' fs'"
    using same(1) by (intro file_inv_add [OF inv s b ptrs rest]) (simp_all add: same_file_def)
  moreover have "ptr vn' fs' t \<notin> fs_used fs \<and> (leaf t \<longrightarrow> blk fs' (ptr vn' fs' t) = replicate 512 0)"
    if "slot_ok t" "ptr vn fs t = 0" "ptr vn' fs' t \<noteq> 0" for t
    using that ptrs [of t] new b by (cases "t = s") auto
  ultimately show ?thesis
    unfolding grows_def using same ptrs z rest(3) old by auto
qed

lemma inode_ok_bump [simp]: "inode_ok i \<Longrightarrow> inode_ok (bump_blocks i)"
  by (simp add: inode_ok_def bump_blocks_def size32_def)

lemma rootptr_bump [simp]: "rootptr (bump_blocks i) r = rootptr i r"
  by (cases r) (simp_all add: bump_blocks_def)

lemma link_child_sel [simp]:
  "sfs_super (link_child p n b fs) = sfs_super fs" "sfs_vnodes (link_child p n b fs) = sfs_vnodes fs"
  "sv_heap (link_child p n b fs) = sv_heap fs"
  by (simp_all add: link_child_def)

lemma grows_child:
  assumes inv: "file_inv vn fs" and s: "slot_ok (r, n # ns)"
    and p: "pv (sv_i vn) fs r ns = p" "p \<noteq> 0" and z: "pv (sv_i vn) fs r (n # ns) = 0"
    and b: "b < nblk fs" "b \<notin> fs_used fs"
  shows "grows {(r, n # ns)} vn fs (vn\<lparr>sv_i := bump_blocks (sv_i vn)\<rparr>) (link_child p n b fs)"
proof (rule grows_add [OF inv s _ b])
  note d = file_invD [OF inv]
  have sn: "slot_ok (r, ns)" "\<not> leaf (r, ns)" using slot_ok_Cons [OF s] by auto
  have pu: "p \<in> fs_used fs" using d(4) [OF sn(1)] p by simp
  show "ptr vn fs (r, n # ns) = 0" using z by simp
  show "ptr (vn\<lparr>sv_i := bump_blocks (sv_i vn)\<rparr>) (link_child p n b fs) t =
    (if t = (r, n # ns) then b else ptr vn fs t)" if "slot_ok t" for t
    using pv_child [OF inv s p z b, of "bump_blocks (sv_i vn)" "fst t" "snd t"] that by auto
  show "fs_inv (link_child p n b fs)"
    unfolding link_child_def using fs_alloc_inv [OF d(1) b(1)] by (intro fs_inv_write) simp_all
  show "fs_used (link_child p n b fs) = insert b (fs_used fs)"
    unfolding link_child_def using fs_alloc_inv [OF d(1) b(1)] by simp
  show "inode_ok (sv_i (vn\<lparr>sv_i := bump_blocks (sv_i vn)\<rparr>))" using d(2) by simp
  show "same_file vn (vn\<lparr>sv_i := bump_blocks (sv_i vn)\<rparr>)"
    by (simp add: same_file_def bump_blocks_def vnode.defs)
  show "same_fs fs (link_child p n b fs)" by (simp add: same_fs_def)
  show "blk (link_child p n b fs) b = replicate 512 0"
    using pu b(2) by (auto simp: link_child_def)
  show "blk (link_child p n b fs) c = blk fs c" if c: "c \<in> fs_used fs" "c \<notin> meta_blocks vn fs" for c
  proof -
    have "p \<in> meta_blocks vn fs" unfolding meta_blocks_def using sn p by force
    then show ?thesis using c b(2) by (auto simp: link_child_def)
  qed
qed

lemma grows_root:
  assumes inv: "file_inv vn fs" and s: "slot_ok (r, [])" and z: "rootptr (sv_i vn) r = 0"
    and b: "b < nblk fs" "b \<notin> fs_used fs"
    and roots: "\<And>r'. slot_ok (r', []) \<Longrightarrow> rootptr (sv_i vn') r' = (if r' = r then b else rootptr (sv_i vn) r')"
    and same: "same_file vn vn'" and ok: "inode_ok (sv_i vn')"
  shows "grows {(r, [])} vn fs vn' (fs_alloc b fs)"
proof (rule grows_add [OF inv s _ b])
  note d = file_invD [OF inv]
  show "ptr vn fs (r, []) = 0" using z by simp
  show "ptr vn' (fs_alloc b fs) t = (if t = (r, []) then b else ptr vn fs t)" if "slot_ok t" for t
    using pv_root [OF inv z b roots, of "fst t" "snd t"] that by auto
  show "fs_inv (fs_alloc b fs)" "fs_used (fs_alloc b fs) = insert b (fs_used fs)"
    using fs_alloc_inv [OF d(1) b(1)] by auto
  show "same_fs fs (fs_alloc b fs)" by (simp add: same_fs_def)
  show "blk (fs_alloc b fs) c = blk fs c" if "c \<in> fs_used fs" for c
    using that b(2) by auto
qed (use same ok in simp_all)

section \<open>The allocating lookup\<close>

text \<open>
  An outcome of a step of \<^verbatim>\<open>sfs_bmap\<close> from \<open>s\<close>: the file may have grown at \<open>S\<close>, and either the disk
  is full or the step delivers a result satisfying \<open>Q\<close>.
\<close>

definition walks :: "slot set \<Rightarrow> bmap_state \<Rightarrow> ('a res \<times> bmap_state) option \<Rightarrow> ('a \<Rightarrow> bmap_state \<Rightarrow> bool) \<Rightarrow> bool" where
  "walks S s out Q \<longleftrightarrow> (\<exists>res s'. out = Some (res, s') \<and> grows S (bm_sv s) (bm_fs s) (bm_sv s') (bm_fs s') \<and>
     (res = Inl ENOSPC \<or> (\<exists>x. res = Inr x \<and> Q x s')))"

lemma walks_ret:
  "grows S (bm_sv s) (bm_fs s) (bm_sv s') (bm_fs s') \<Longrightarrow> Q x s' \<Longrightarrow> walks S s (Some (Inr x, s')) Q"
  by (auto simp: walks_def)

lemma walks_bind:
  assumes "walks S s m Q" and "\<And>x s1. Q x s1 \<Longrightarrow> walks T s1 (f x s1) R"
  shows "walks (S \<union> T) s (ebind m f) R"
proof -
  obtain res s1 where m: "m = Some (res, s1)" and g: "grows S (bm_sv s) (bm_fs s) (bm_sv s1) (bm_fs s1)"
    and r: "res = Inl ENOSPC \<or> (\<exists>x. res = Inr x \<and> Q x s1)"
    using assms(1) by (auto simp: walks_def)
  from r show ?thesis
  proof
    assume "res = Inl ENOSPC"
    then show ?thesis using m grows_mono [OF g, of "S \<union> T"] by (simp add: walks_def)
  next
    assume "\<exists>x. res = Inr x \<and> Q x s1"
    then obtain x where x: "res = Inr x" "Q x s1" by blast
    from assms(2) [OF x(2)] show ?thesis using m x grows_trans [OF g] unfolding walks_def by fastforce
  qed
qed

text \<open>The buffer holds the pointer block at a path.\<close>

definition holds :: "root \<Rightarrow> nat list \<Rightarrow> bmap_state \<Rightarrow> bool" where
  "holds r ns s \<longleftrightarrow> file_inv (bm_sv s) (bm_fs s) \<and> slot_ok (r, ns) \<and> \<not> leaf (r, ns) \<and>
     bm_idblock s = pv (sv_i (bm_sv s)) (bm_fs s) r ns \<and> bm_idblock s \<noteq> 0 \<and>
     bm_buf s = bwords (bm_fs s) (bm_idblock s)"

text \<open>A block found at a path.\<close>

definition found :: "root \<Rightarrow> nat list \<Rightarrow> bmap_state \<Rightarrow> bool" where
  "found r ns s \<longleftrightarrow> file_inv (bm_sv s) (bm_fs s) \<and> bm_block s = pv (sv_i (bm_sv s)) (bm_fs s) r ns \<and> bm_block s \<noteq> 0"

lemma grows_refl: "file_inv vn fs \<Longrightarrow> grows {} vn fs vn fs"
  by (simp add: grows_def)

lemma get_block_walks:
  assumes h: "holds r ns s" and n: "n < 128" and sl: "slot_ok (r, n # ns)"
  shows "walks {(r, n # ns)} s (get_block True n s) (\<lambda>_. found r (n # ns))"
proof -
  let ?vn = "bm_sv s" and ?fs = "bm_fs s" and ?p = "bm_idblock s"
  have inv: "file_inv ?vn ?fs" and p: "pv (sv_i ?vn) ?fs r ns = ?p" "?p \<noteq> 0" and buf: "bm_buf s = bwords ?fs ?p"
    using h by (simp_all add: holds_def)
  note d = file_invD [OF inv]
  have entry: "bm_buf s ! n = pv (sv_i ?vn) ?fs r (n # ns)" using p buf by (simp add: child_def)
  show ?thesis
  proof (cases "bm_buf s ! n = 0")
    case False
    have "get_block True n s = Some (Inr (), s\<lparr>bm_block := bm_buf s ! n\<rparr>)"
      using False n buf by (simp add: get_block_def)
    then show ?thesis
      using False entry inv grows_mono [OF grows_refl [OF inv]] by (auto intro!: walks_ret simp: found_def)
  next
    case True
    from sfs_balloc_ok [OF d(1)] show ?thesis
    proof (elim disjE exE conjE)
      fix b
      assume b: "sfs_balloc ?fs = Some (Inr b, fs_alloc b ?fs)" "b < nblk ?fs" "b \<notin> fs_used ?fs"
      have pu: "?p < nblk ?fs" using d(4) [of r ns] slot_ok_Cons [OF sl] p fs_used_less by auto
      let ?s' = "s\<lparr>bm_block := b, bm_buf := (bm_buf s)[n := b], bm_fs := link_child ?p n b ?fs,
        bm_sv := ?vn\<lparr>sv_i := bump_blocks (sv_i ?vn)\<rparr>\<rparr>"
      have "sfs_wblock (enc_words ((bm_buf s)[n := b])) ?p (fs_alloc b ?fs) = Some (Inr (), link_child ?p n b ?fs)"
        unfolding link_child_def buf
        using fs_alloc_inv [OF d(1) b(2)] pu by (intro sfs_wblock_ok) simp_all
      then have run: "get_block True n s = Some (Inr (), ?s')"
        using True n buf b(1) by (simp add: get_block_def Let_def)
      note g = grows_child [OF inv sl p _ b(2,3)]
      have g': "grows {(r, n # ns)} ?vn ?fs (bm_sv ?s') (bm_fs ?s')" using g True entry by simp
      have "b \<noteq> 0" using b(3) d(3) by metis
      moreover have "pv (sv_i (bm_sv ?s')) (bm_fs ?s') r (n # ns) = b"
        using pv_child [OF inv sl p _ b(2,3), of "bump_blocks (sv_i ?vn)" r "n # ns"] True entry sl by simp
      ultimately show ?thesis
        unfolding run using g' growsD(1) [OF g'] by (intro walks_ret) (simp_all add: found_def)
    next
      assume a: "sfs_balloc ?fs = Some (Inl ENOSPC, ?fs)"
      then have "get_block True n s = Some (Inl ENOSPC, s\<lparr>bm_block := 0, bm_fs := ?fs\<rparr>)"
        using True n buf by (simp add: get_block_def)
      then show ?thesis using grows_mono [OF grows_refl [OF inv], of "{(r, n # ns)}"] by (simp add: walks_def)
    qed
  qed
qed

lemma loadbuffer_old:
  assumes inv: "file_inv (bm_sv s) (bm_fs s)" and sl: "slot_ok (r, ns)" "\<not> leaf (r, ns)"
    and p: "p = pv (sv_i (bm_sv s)) (bm_fs s) r ns" "p \<noteq> 0" and idb: "bm_idblock s = p" and len: "length (bm_buf s) = 128"
  shows "loadbuffer lvl p l s = Some (Inr (), s\<lparr>bm_buf := bwords (bm_fs s) p, bm_fs := fs_read p (bm_fs s)\<rparr>)"
    and "holds r ns (s\<lparr>bm_buf := bwords (bm_fs s) p, bm_fs := fs_read p (bm_fs s)\<rparr>)"
proof -
  note d = file_invD [OF inv]
  have "p < nblk (bm_fs s)" using d(4) [OF sl(1)] p fs_used_less by auto
  then have "sfs_rblock (enc_words (bm_buf s)) p (bm_fs s) = Some (Inr (), blk (bm_fs s) p, fs_read p (bm_fs s))"
    using d(1) len by (intro sfs_rblock_ok) simp_all
  then show "loadbuffer lvl p l s = Some (Inr (), s\<lparr>bm_buf := bwords (bm_fs s) p, bm_fs := fs_read p (bm_fs s)\<rparr>)"
    using p by (simp add: loadbuffer_def bwords_def)
  show "holds r ns (s\<lparr>bm_buf := bwords (bm_fs s) p, bm_fs := fs_read p (bm_fs s)\<rparr>)"
    using inv sl p idb by (simp add: holds_def file_inv_read)
qed

lemma descend_walks:
  assumes f: "found r ns s" and sl: "slot_ok (r, ns)" "\<not> leaf (r, ns)"
  shows "walks {} s (descend lvl s) (\<lambda>_. holds r ns)"
proof -
  let ?s = "s\<lparr>bm_idblock := bm_block s, bm_buf := replicate 128 0\<rparr>"
  have inv: "file_inv (bm_sv s) (bm_fs s)" using f by (simp add: found_def)
  have "descend lvl s = Some (Inr (), ?s\<lparr>bm_buf := bwords (bm_fs s) (bm_block s), bm_fs := fs_read (bm_block s) (bm_fs s)\<rparr>)"
    and "holds r ns (?s\<lparr>bm_buf := bwords (bm_fs s) (bm_block s), bm_fs := fs_read (bm_block s) (bm_fs s)\<rparr>)"
    unfolding descend_def
    using loadbuffer_old [of ?s r ns "bm_block s"] f sl inv by (simp_all add: found_def)
  then show ?thesis using grows_read [OF inv] by (auto intro!: walks_ret)
qed

lemma load_root_walks:
  assumes inv: "file_inv (bm_sv s) (bm_fs s)" and len: "length (bm_buf s) = 128"
    and r: "r = Single \<or> r = Double \<or> r = Triple"
  shows "walks {(r, [])} s
    (loadbuffer (depth r) (rootptr (sv_i (bm_sv s)) r) 0 (s\<lparr>bm_idblock := rootptr (sv_i (bm_sv s)) r\<rparr>))
    (\<lambda>_. holds r [])"
proof -
  let ?vn = "bm_sv s" and ?fs = "bm_fs s" and ?p = "rootptr (sv_i (bm_sv s)) r"
  note d = file_invD [OF inv]
  have sl: "slot_ok (r, [])" "\<not> leaf (r, [])" using r by (auto simp: slot_ok_def leaf_def)
  show ?thesis
  proof (cases "?p = 0")
    case False
    then show ?thesis
      using loadbuffer_old [of "s\<lparr>bm_idblock := ?p\<rparr>" r "[]" ?p] inv sl len
        grows_mono [OF grows_read [OF inv]] by (auto intro!: walks_ret)
  next
    case True
    from sfs_balloc_ok [OF d(1)] show ?thesis
    proof (elim disjE exE conjE)
      fix b
      assume b: "sfs_balloc ?fs = Some (Inr b, fs_alloc b ?fs)" "b < nblk ?fs" "b \<notin> fs_used ?fs"
      define vn' where "vn' = ?vn\<lparr>sv_i := set_idptr (depth r) b (bump_blocks (sv_i ?vn)), sv_dirty := True\<rparr>"
      let ?s' = "s\<lparr>bm_fs := fs_alloc b ?fs, bm_sv := vn', bm_idblock := b, bm_buf := replicate 128 0\<rparr>"
      have run: "loadbuffer (depth r) ?p 0 (s\<lparr>bm_idblock := ?p\<rparr>) = Some (Inr (), ?s')"
        using True b(1) by (simp add: loadbuffer_def Let_def vn'_def)
      have b32: "b < 2 ^ 32" using b(2) nblk_less [OF d(1)] by simp
      have roots: "rootptr (sv_i vn') r' = (if r' = r then b else rootptr (sv_i ?vn) r')" for r'
        using r by (cases r') (auto simp: vn'_def set_idptr_def bump_blocks_def)
      have same: "same_file ?vn vn'"
        by (simp add: vn'_def same_file_def set_idptr_def bump_blocks_def vnode.defs)
      have ok: "inode_ok (sv_i vn')"
        using inode_ok_bump [OF d(2)] b32 by (simp add: vn'_def set_idptr_def inode_ok_def)
      have g: "grows {(r, [])} ?vn ?fs vn' (fs_alloc b ?fs)"
        by (rule grows_root [OF inv sl(1) True b(2,3) roots same ok])
      have "b \<noteq> 0" using b(3) d(3) by metis
      then have "holds r [] ?s'" using growsD(1) [OF g] sl roots [of r] by (simp add: holds_def)
      then show ?thesis unfolding run using g by (intro walks_ret) simp_all
    next
      assume "sfs_balloc ?fs = Some (Inl ENOSPC, ?fs)"
      then have "loadbuffer (depth r) ?p 0 (s\<lparr>bm_idblock := ?p\<rparr>) = Some (Inl ENOSPC, s\<lparr>bm_idblock := ?p, bm_fs := ?fs\<rparr>)"
        using True by (simp add: loadbuffer_def)
      then show ?thesis using grows_mono [OF grows_refl [OF inv], of "{(r, [])}"] by (simp add: walks_def)
    qed
  qed
qed

lemma bmap_finish_walks:
  assumes f: "found r ns s" and sl: "slot_ok (r, ns)"
  shows "walks {} s (bmap_finish s) (\<lambda>b s'. b = pv (sv_i (bm_sv s')) (bm_fs s') r ns \<and> b \<noteq> 0)"
proof -
  have inv: "file_inv (bm_sv s) (bm_fs s)" using f by (simp add: found_def)
  note d = file_invD [OF inv]
  have u: "bm_block s \<in> fs_used (bm_fs s)" using d(4) [OF sl] f by (simp add: found_def)
  then have "sfs_bused (bm_block s) (bm_fs s) = Some True" using sfs_bused_ok [OF d(1) fs_used_less] by simp
  then show ?thesis
    using f grows_refl [OF inv] by (auto intro!: walks_ret simp: bmap_finish_def found_def)
qed

text \<open>The direct blocks.\<close>

lemma bmap_direct_walks:
  assumes inv: "file_inv (bm_sv s) (bm_fs s)" and n: "n < 15"
  shows "walks {(Direct n, [])} s (bmap_direct n True s)
    (\<lambda>b s'. b = pv (sv_i (bm_sv s')) (bm_fs s') (Direct n) [] \<and> b \<noteq> 0)"
proof -
  let ?vn = "bm_sv s" and ?fs = "bm_fs s" and ?p = "sfi_direct (sv_i (bm_sv s)) ! n"
  note d = file_invD [OF inv]
  have len: "length (sfi_direct (sv_i ?vn)) = 15" using d(2) by (simp add: inode_ok_def)
  have sl: "slot_ok (Direct n, [])" using n by (simp add: slot_ok_def)
  show ?thesis
  proof (cases "?p = 0")
    case False
    have "found (Direct n) [] (s\<lparr>bm_block := ?p\<rparr>)" using False inv by (simp add: found_def)
    from bmap_finish_walks [OF this sl] have
      "walks {} s (bmap_finish (s\<lparr>bm_block := ?p\<rparr>)) (\<lambda>b s'. b = pv (sv_i (bm_sv s')) (bm_fs s') (Direct n) [] \<and> b \<noteq> 0)"
      by (simp add: walks_def)
    then show ?thesis
      using False n len grows_mono by (fastforce simp: bmap_direct_def walks_def)
  next
    case True
    from sfs_balloc_ok [OF d(1)] show ?thesis
    proof (elim disjE exE conjE)
      fix b
      assume b: "sfs_balloc ?fs = Some (Inr b, fs_alloc b ?fs)" "b < nblk ?fs" "b \<notin> fs_used ?fs"
      define i1 where "i1 = bump_blocks (sv_i ?vn)"
      define vn' where "vn' = ?vn\<lparr>sv_i := i1\<lparr>sfi_direct := (sfi_direct i1)[n := b]\<rparr>, sv_dirty := True\<rparr>"
      let ?s' = "s\<lparr>bm_block := b, bm_fs := fs_alloc b ?fs, bm_sv := vn'\<rparr>"
      have d1: "sfi_direct i1 = sfi_direct (sv_i ?vn)" by (simp add: i1_def bump_blocks_def)
      have run: "bmap_direct n True s = bmap_finish ?s'"
        using True b(1) n len by (simp add: bmap_direct_def Let_def vn'_def i1_def)
      have b32: "b < 2 ^ 32" using b(2) nblk_less [OF d(1)] by simp
      have roots: "rootptr (sv_i vn') r' = (if r' = Direct n then b else rootptr (sv_i ?vn) r')"
        if "slot_ok (r', [])" for r'
        using n len that by (cases r') (auto simp: vn'_def d1 i1_def bump_blocks_def)
      have same: "same_file ?vn vn'"
        by (simp add: vn'_def same_file_def i1_def bump_blocks_def vnode.defs)
      have ok: "inode_ok (sv_i vn')"
        using inode_ok_bump [OF d(2)] b32
        by (auto simp: vn'_def i1_def [symmetric] inode_ok_def dest!: set_update_subset_insert [THEN subsetD])
      have z: "rootptr (sv_i ?vn) (Direct n) = 0" using True by simp
      have g: "grows {(Direct n, [])} ?vn ?fs vn' (fs_alloc b ?fs)"
        by (rule grows_root [OF inv sl z b(2,3) roots same ok])
      have "b \<noteq> 0" using b(3) d(3) by metis
      then have "found (Direct n) [] ?s'" using growsD(1) [OF g] roots [OF sl] by (simp add: found_def)
      from bmap_finish_walks [OF this sl] show ?thesis
        unfolding run walks_def using grows_trans [OF g] by fastforce
    next
      assume "sfs_balloc ?fs = Some (Inl ENOSPC, ?fs)"
      then have "bmap_direct n True s = Some (Inl ENOSPC, s\<lparr>bm_fs := ?fs\<rparr>)"
        using True n len by (simp add: bmap_direct_def)
      then show ?thesis using grows_mono [OF grows_refl [OF inv], of "{(Direct n, [])}"] by (simp add: walks_def)
    qed
  qed
qed

text \<open>
  The pointer the code consults for a file block, for the blocks below \<open>max_fileblock\<close>: up to
  there the indices it computes are inside the pointer blocks.
\<close>

definition bmap_slot :: "nat \<Rightarrow> slot" where
  "bmap_slot n =
     (if n < 15 then (Direct n, [])
      else (let x = n - 15
            in if x < 128 then (Single, [x])
               else if x < 16512 then (Double, [(x - 128) mod 128, (x - 128) div 128])
               else (let y = x - 16256 in (Triple, [y mod 128, y div 128, y div 16384]))))"

definition max_fileblock :: nat where
  "max_fileblock = 15 + 16512 + 16128"

definition above :: "slot \<Rightarrow> slot set" where
  "above s = {(fst s, drop k (snd s)) | k. True}"

lemma bmap_slot_ok:
  assumes "n < max_fileblock"
  shows "slot_ok (bmap_slot n)" and "leaf (bmap_slot n)"
proof -
  have y: "(n - 15 - 16256) div 16384 = 0" "(n - 15 - 16256) div 128 < 128" if "\<not> n - 15 < 16512"
    using assms that by (auto simp: max_fileblock_def)
  show "slot_ok (bmap_slot n)" "leaf (bmap_slot n)"
    using y by (auto simp: bmap_slot_def slot_ok_def leaf_def Let_def)
qed

lemma div_mod_eq: "(a :: nat) mod k = b mod k \<Longrightarrow> a div k = b div k \<Longrightarrow> a = b"
  by (metis div_mult_mod_eq)

lemma bmap_slot_inj:
  assumes "n < max_fileblock" and "m < max_fileblock" and "bmap_slot n = bmap_slot m"
  shows "n = m"
proof -
  have "n - 15 - 128 = m - 15 - 128"
    if "(n - 15 - 128) mod 128 = (m - 15 - 128) mod 128" "(n - 15 - 128) div 128 = (m - 15 - 128) div 128"
    using div_mod_eq that by blast
  moreover have "n - 15 - 16256 = m - 15 - 16256"
    if "(n - 15 - 16256) mod 128 = (m - 15 - 16256) mod 128" "(n - 15 - 16256) div 128 = (m - 15 - 16256) div 128"
    using div_mod_eq that by blast
  ultimately show ?thesis
    using assms(3) by (simp add: bmap_slot_def Let_def split: if_splits)
qed

lemma above_leaf:
  assumes "leaf t" and "leaf s" and "t \<in> above s"
  shows "t = s"
proof -
  obtain k where t: "t = (fst s, drop k (snd s))" using assms(3) by (auto simp: above_def)
  then have "length (snd s) - k = length (snd s)" using assms by (simp add: leaf_def)
  then have "k = 0 \<or> snd s = []" by (cases "snd s") auto
  then show ?thesis using t by (auto simp: prod_eq_iff)
qed

lemma walks_mono: "walks S s out Q \<Longrightarrow> S \<subseteq> T \<Longrightarrow> walks T s out Q"
  unfolding walks_def using grows_mono by blast

lemma walks_seq:
  "walks U s m Q \<Longrightarrow> (\<And>x s1. Q x s1 \<Longrightarrow> walks U s1 (f x s1) R) \<Longrightarrow> walks U s (ebind m f) R"
  using walks_bind [of U s m Q U f R] by simp

text \<open>One level down: find or make the next pointer block, then load it.\<close>

lemma get_descend_walks:
  assumes h: "holds r ns s" and sl: "slot_ok (r, n # ns)" "\<not> leaf (r, n # ns)" and U: "(r, n # ns) \<in> U"
    and k: "\<And>s1. holds r (n # ns) s1 \<Longrightarrow> walks U s1 (f s1) R"
  shows "walks U s (ebind (get_block True n s) (\<lambda>_ s2. ebind (descend lvl s2) (\<lambda>_ s3. f s3))) R"
proof (rule walks_seq)
  show "walks U s (get_block True n s) (\<lambda>_. found r (n # ns))"
    using get_block_walks [OF h _ sl(1)] slot_ok_Cons [OF sl(1)] U by (blast intro: walks_mono)
  show "walks U s1 (ebind (descend lvl s1) (\<lambda>_ s3. f s3)) R" if "found r (n # ns) s1" for s1
    by (rule walks_seq [OF walks_mono [OF descend_walks [OF that sl]]]) (use k in simp_all)
qed

lemma get_finish_walks:
  assumes h: "holds r ns s" and sl: "slot_ok (r, n # ns)" and U: "(r, n # ns) \<in> U"
  shows "walks U s (ebind (get_block True n s) (\<lambda>_ s6. bmap_finish s6))
    (\<lambda>b s'. b = pv (sv_i (bm_sv s')) (bm_fs s') r (n # ns) \<and> b \<noteq> 0)"
proof (rule walks_seq)
  show "walks U s (get_block True n s) (\<lambda>_. found r (n # ns))"
    using get_block_walks [OF h _ sl(1)] slot_ok_Cons [OF sl(1)] U by (blast intro: walks_mono)
  show "walks U s1 (bmap_finish s1) (\<lambda>b s'. b = pv (sv_i (bm_sv s')) (bm_fs s') r (n # ns) \<and> b \<noteq> 0)"
    if "found r (n # ns) s1" for s1
    using walks_mono [OF bmap_finish_walks [OF that sl]] by simp
qed

lemma ebind_assoc: "ebind (ebind m f) g = ebind m (\<lambda>x s. ebind (f x s) g)"
  by (auto simp: ebind_def split: option.split sum.split)

text \<open>The three shapes of an allocating lookup below the inode.\<close>

lemma bmap_indirect_1:
  "x < 128 \<Longrightarrow> bmap_indirect x True s =
     ebind (loadbuffer (depth Single) (rootptr (sv_i (bm_sv s)) Single) 0 (s\<lparr>bm_idblock := rootptr (sv_i (bm_sv s)) Single\<rparr>))
       (\<lambda>_ s1. ebind (get_block True x s1) (\<lambda>_ s6. bmap_finish s6))"
  by (simp add: bmap_indirect_def SFS_DBPERIDB_def Let_def)

lemma bmap_indirect_2:
  "128 \<le> x \<Longrightarrow> x < 16512 \<Longrightarrow> bmap_indirect x True s =
     ebind (loadbuffer (depth Double) (rootptr (sv_i (bm_sv s)) Double) 0 (s\<lparr>bm_idblock := rootptr (sv_i (bm_sv s)) Double\<rparr>))
       (\<lambda>_ s1. ebind (get_block True ((x - 128) div 128) s1) (\<lambda>_ s2. ebind (descend 2 s2) (\<lambda>_ s3.
          ebind (get_block True ((x - 128) mod 128) s3) (\<lambda>_ s6. bmap_finish s6))))"
  by (simp add: bmap_indirect_def SFS_DBPERIDB_def Let_def ebind_assoc numeral_2_eq_2)

lemma bmap_indirect_3:
  "16512 \<le> x \<Longrightarrow> bmap_indirect x True s =
     ebind (loadbuffer (depth Triple) (rootptr (sv_i (bm_sv s)) Triple) 0 (s\<lparr>bm_idblock := rootptr (sv_i (bm_sv s)) Triple\<rparr>))
       (\<lambda>_ s1. ebind (get_block True ((x - 16256) div 16384) s1) (\<lambda>_ s2. ebind (descend 3 s2) (\<lambda>_ s3.
          ebind (get_block True ((x - 16256) div 128) s3) (\<lambda>_ s4. ebind (descend 3 s4) (\<lambda>_ s5.
          ebind (get_block True ((x - 16256) mod 128) s5) (\<lambda>_ s6. bmap_finish s6))))))"
  by (simp add: bmap_indirect_def SFS_DBPERIDB_def Let_def ebind_assoc numeral_3_eq_3)

lemma bmap_indirect_walks:
  assumes inv: "file_inv (bm_sv s) (bm_fs s)" and len: "length (bm_buf s) = 128"
    and n: "15 \<le> n" "n < max_fileblock"
  shows "walks (above (bmap_slot n)) s (bmap_indirect (n - 15) True s)
    (\<lambda>b s'. b = ptr (bm_sv s') (bm_fs s') (bmap_slot n) \<and> b \<noteq> 0)"
proof -
  define x where "x = n - 15"
  define U where "U = above (bmap_slot n)"
  have U: "(fst (bmap_slot n), drop k (snd (bmap_slot n))) \<in> U" for k by (auto simp: U_def above_def)
  note load = walks_mono [OF load_root_walks [OF inv len]]
  consider (one) "x < 128" | (two) "128 \<le> x" "x < 16512" | (three) "16512 \<le> x" by linarith
  then have "walks U s (bmap_indirect x True s) (\<lambda>b s'. b = ptr (bm_sv s') (bm_fs s') (bmap_slot n) \<and> b \<noteq> 0)"
  proof cases
    case one
    have bs: "bmap_slot n = (Single, [x])" using one n by (simp add: bmap_slot_def x_def)
    have sl: "slot_ok (Single, [x])" using one by (simp add: slot_ok_def)
    show ?thesis
      unfolding bmap_indirect_1 [OF one] bs fst_conv snd_conv
      by (rule walks_seq [OF load get_finish_walks]) (use U [of 1] U [of 0] sl bs in simp_all)
  next
    case two
    let ?a = "(x - 128) div 128" and ?b = "(x - 128) mod 128"
    have bs: "bmap_slot n = (Double, [?b, ?a])" using two n by (simp add: bmap_slot_def x_def)
    have "?a < 128" using two by auto
    then have sl: "slot_ok (Double, [?a])" "\<not> leaf (Double, [?a])" "slot_ok (Double, [?b, ?a])"
      by (simp_all add: slot_ok_def leaf_def)
    show ?thesis
      unfolding bmap_indirect_2 [OF two] bs fst_conv snd_conv
      by (rule walks_seq [OF load get_descend_walks [OF _ _ _ _ get_finish_walks]])
         (use U [of 2] U [of 1] U [of 0] sl bs in simp_all)
  next
    case three
    let ?y = "x - 16256"
    let ?a = "?y div 16384" and ?b = "?y div 128" and ?c = "?y mod 128"
    have bs: "bmap_slot n = (Triple, [?c, ?b, ?a])" using three n by (simp add: bmap_slot_def x_def Let_def)
    have "?y < 16384" using n three by (simp add: x_def max_fileblock_def)
    then have "?a < 128" "?b < 128" by auto
    then have sl: "slot_ok (Triple, [?a])" "\<not> leaf (Triple, [?a])" "slot_ok (Triple, [?b, ?a])"
      "\<not> leaf (Triple, [?b, ?a])" "slot_ok (Triple, [?c, ?b, ?a])"
      by (simp_all add: slot_ok_def leaf_def)
    show ?thesis
      unfolding bmap_indirect_3 [OF three] bs fst_conv snd_conv
      by (rule walks_seq [OF load get_descend_walks [OF _ _ _ _ get_descend_walks [OF _ _ _ _ get_finish_walks]]])
         (use U [of 3] U [of 2] U [of 1] U [of 0] sl bs in simp_all)
  qed
  then show ?thesis by (simp add: U_def x_def)
qed

section \<open>The lookup that does not allocate\<close>

text \<open>
  It may allocate all the same: where a pointer block is missing on the way down, \<^verbatim>\<open>loadbuffer\<close> takes a
  new block that nothing will ever refer to. The file itself is not changed by that.
\<close>

lemma pv_orphan:
  assumes inv: "file_inv vn fs" and b: "b \<notin> fs_used fs" and roots: "\<And>r. rootptr i' r = rootptr (sv_i vn) r"
    and t: "slot_ok (r2, ms)"
  shows "pv i' (fs_alloc b fs) r2 ms = pv (sv_i vn) fs r2 ms"
  using t
proof (induction ms)
  case (Cons k ms)
  have sm: "slot_ok (r2, ms)" using slot_ok_Cons [OF Cons.prems] by simp
  have "pv (sv_i vn) fs r2 ms \<noteq> b" if "pv (sv_i vn) fs r2 ms \<noteq> 0"
    using file_invD(4) [OF inv sm that] b by auto
  then show ?case using Cons.IH [OF sm] by (auto simp: child_def)
qed (simp add: roots)

lemma grows_orphan:
  assumes inv: "file_inv vn fs" and b: "b < nblk fs" "b \<notin> fs_used fs"
  shows "grows {} vn fs (vn\<lparr>sv_i := bump_blocks (sv_i vn), sv_dirty := True\<rparr>) (fs_alloc b fs)"
proof -
  note d = file_invD [OF inv]
  let ?vn = "vn\<lparr>sv_i := bump_blocks (sv_i vn), sv_dirty := True\<rparr>"
  have p: "ptr ?vn (fs_alloc b fs) s = ptr vn fs s" if "slot_ok s" for s
    using pv_orphan [OF inv b(2), of "bump_blocks (sv_i vn)" "fst s" "snd s"] that by simp
  have "file_inv ?vn (fs_alloc b fs)"
    using inv p fs_alloc_inv [OF d(1) b(1)] unfolding file_inv_def by simp
  moreover have "same_file vn ?vn" by (simp add: same_file_def bump_blocks_def vnode.defs)
  moreover have "same_fs fs (fs_alloc b fs)" by (simp add: same_fs_def)
  ultimately show ?thesis
    unfolding grows_def using p fs_alloc_inv [OF d(1) b(1)] b by auto
qed

definition reads :: "root \<Rightarrow> nat list \<Rightarrow> bmap_state \<Rightarrow> bool" where
  "reads r ns s \<longleftrightarrow> file_inv (bm_sv s) (bm_fs s) \<and> slot_ok (r, ns) \<and> \<not> leaf (r, ns) \<and> length (bm_buf s) = 128 \<and>
     (\<forall>n < 128. bm_buf s ! n = pv (sv_i (bm_sv s)) (bm_fs s) r (n # ns))"

lemma holds_reads: "holds r ns s \<Longrightarrow> reads r ns s"
  by (simp add: holds_def reads_def child_def)

definition looked :: "root \<Rightarrow> nat list \<Rightarrow> bmap_state \<Rightarrow> bool" where
  "looked r ns s \<longleftrightarrow> file_inv (bm_sv s) (bm_fs s) \<and> bm_block s = pv (sv_i (bm_sv s)) (bm_fs s) r ns"

lemma get_block_read:
  assumes "reads r ns s" and "n < 128"
  shows "walks {} s (get_block False n s) (\<lambda>_. looked r (n # ns))"
  using assms grows_refl [of "bm_sv s" "bm_fs s"]
  by (auto simp: get_block_def reads_def looked_def intro!: walks_ret)

lemma descend_read:
  assumes l: "looked r ns s" and sl: "slot_ok (r, ns)" "\<not> leaf (r, ns)"
  shows "walks {} s (descend lvl s) (\<lambda>_. reads r ns)"
proof (cases "bm_block s = 0")
  case False
  then have "found r ns s" using l by (simp add: looked_def found_def)
  from descend_walks [OF this sl, of lvl] show ?thesis by (auto simp: walks_def intro: holds_reads)
next
  case True
  let ?vn = "bm_sv s" and ?fs = "bm_fs s"
  have inv: "file_inv ?vn ?fs" using l by (simp add: looked_def)
  note d = file_invD [OF inv]
  from sfs_balloc_ok [OF d(1)] show ?thesis
  proof (elim disjE exE conjE)
    fix b
    assume b: "sfs_balloc ?fs = Some (Inr b, fs_alloc b ?fs)" "b < nblk ?fs" "b \<notin> fs_used ?fs"
    let ?s' = "s\<lparr>bm_fs := fs_alloc b ?fs, bm_sv := ?vn\<lparr>sv_i := bump_blocks (sv_i ?vn), sv_dirty := True\<rparr>,
      bm_idblock := b, bm_buf := replicate 128 0\<rparr>"
    have run: "descend lvl s = Some (Inr (), ?s')"
      using True b(1) by (simp add: descend_def loadbuffer_def Let_def)
    note g = grows_orphan [OF inv b(2,3)]
    have z: "pv (bump_blocks (sv_i ?vn)) (fs_alloc b ?fs) r ns = 0"
      using pv_orphan [OF inv b(3), of "bump_blocks (sv_i ?vn)" r ns] l True sl by (simp add: looked_def)
    have "reads r ns ?s'" using growsD(1) [OF g] sl z by (simp add: reads_def child_def)
    then show ?thesis unfolding run using g by (intro walks_ret) simp_all
  next
    assume "sfs_balloc ?fs = Some (Inl ENOSPC, ?fs)"
    then have "descend lvl s = Some (Inl ENOSPC, s\<lparr>bm_idblock := bm_block s, bm_buf := replicate 128 0, bm_fs := ?fs\<rparr>)"
      using True by (simp add: descend_def loadbuffer_def)
    then show ?thesis using grows_refl [OF inv] by (simp add: walks_def)
  qed
qed

lemma finish_read:
  assumes l: "looked r ns s" and sl: "slot_ok (r, ns)"
  shows "walks {} s (bmap_finish s) (\<lambda>b s'. b = pv (sv_i (bm_sv s')) (bm_fs s') r ns)"
proof (cases "bm_block s = 0")
  case False
  then have "found r ns s" using l by (simp add: looked_def found_def)
  from bmap_finish_walks [OF this sl] show ?thesis by (auto simp: walks_def)
next
  case True
  then show ?thesis using l grows_refl [of "bm_sv s" "bm_fs s"]
    by (auto simp: bmap_finish_def looked_def intro!: walks_ret)
qed

lemma get_descend_read:
  assumes h: "reads r ns s" and sl: "slot_ok (r, n # ns)" "\<not> leaf (r, n # ns)"
    and k: "\<And>s1. reads r (n # ns) s1 \<Longrightarrow> walks {} s1 (f s1) R"
  shows "walks {} s (ebind (get_block False n s) (\<lambda>_ s2. ebind (descend lvl s2) (\<lambda>_ s3. f s3))) R"
proof (rule walks_seq [OF get_block_read [OF h]])
  show "n < 128" using slot_ok_Cons [OF sl(1)] by simp
  show "walks {} s1 (ebind (descend lvl s1) (\<lambda>_ s3. f s3)) R" if "looked r (n # ns) s1" for s1
    by (rule walks_seq [OF descend_read [OF that sl]]) (use k in simp_all)
qed

lemma get_finish_read:
  assumes h: "reads r ns s" and sl: "slot_ok (r, n # ns)"
  shows "walks {} s (ebind (get_block False n s) (\<lambda>_ s6. bmap_finish s6))
    (\<lambda>b s'. b = pv (sv_i (bm_sv s')) (bm_fs s') r (n # ns))"
proof (rule walks_seq [OF get_block_read [OF h]])
  show "n < 128" using slot_ok_Cons [OF sl(1)] by simp
qed (use finish_read sl in blast)

lemma load_root_read:
  assumes inv: "file_inv (bm_sv s) (bm_fs s)" and len: "length (bm_buf s) = 128"
    and r: "r = Single \<or> r = Double \<or> r = Triple" and p: "rootptr (sv_i (bm_sv s)) r \<noteq> 0"
  shows "walks {} s
    (loadbuffer (depth r) (rootptr (sv_i (bm_sv s)) r) 0 (s\<lparr>bm_idblock := rootptr (sv_i (bm_sv s)) r\<rparr>))
    (\<lambda>_. reads r [])"
proof -
  have sl: "slot_ok (r, [])" "\<not> leaf (r, [])" using r by (auto simp: slot_ok_def leaf_def)
  show ?thesis
    using loadbuffer_old [of "s\<lparr>bm_idblock := rootptr (sv_i (bm_sv s)) r\<rparr>" r "[]" "rootptr (sv_i (bm_sv s)) r"]
      inv sl len p grows_read [OF inv] by (auto intro!: walks_ret holds_reads)
qed

lemma pv_null: "rootptr i r = 0 \<Longrightarrow> pv i fs r ns = 0"
  by (induction ns) (simp_all add: child_def)

lemma bmap_indirect_read_1:
  "x < 128 \<Longrightarrow> rootptr (sv_i (bm_sv s)) Single \<noteq> 0 \<Longrightarrow> bmap_indirect x False s =
     ebind (loadbuffer (depth Single) (rootptr (sv_i (bm_sv s)) Single) 0 (s\<lparr>bm_idblock := rootptr (sv_i (bm_sv s)) Single\<rparr>))
       (\<lambda>_ s1. ebind (get_block False x s1) (\<lambda>_ s6. bmap_finish s6))"
  by (simp add: bmap_indirect_def SFS_DBPERIDB_def Let_def)

lemma bmap_indirect_read_2:
  "128 \<le> x \<Longrightarrow> x < 16512 \<Longrightarrow> rootptr (sv_i (bm_sv s)) Double \<noteq> 0 \<Longrightarrow> bmap_indirect x False s =
     ebind (loadbuffer (depth Double) (rootptr (sv_i (bm_sv s)) Double) 0 (s\<lparr>bm_idblock := rootptr (sv_i (bm_sv s)) Double\<rparr>))
       (\<lambda>_ s1. ebind (get_block False ((x - 128) div 128) s1) (\<lambda>_ s2. ebind (descend 2 s2) (\<lambda>_ s3.
          ebind (get_block False ((x - 128) mod 128) s3) (\<lambda>_ s6. bmap_finish s6))))"
  by (simp add: bmap_indirect_def SFS_DBPERIDB_def Let_def ebind_assoc numeral_2_eq_2)

lemma bmap_indirect_read_3:
  "16512 \<le> x \<Longrightarrow> rootptr (sv_i (bm_sv s)) Triple \<noteq> 0 \<Longrightarrow> bmap_indirect x False s =
     ebind (loadbuffer (depth Triple) (rootptr (sv_i (bm_sv s)) Triple) 0 (s\<lparr>bm_idblock := rootptr (sv_i (bm_sv s)) Triple\<rparr>))
       (\<lambda>_ s1. ebind (get_block False ((x - 16256) div 16384) s1) (\<lambda>_ s2. ebind (descend 3 s2) (\<lambda>_ s3.
          ebind (get_block False ((x - 16256) div 128) s3) (\<lambda>_ s4. ebind (descend 3 s4) (\<lambda>_ s5.
          ebind (get_block False ((x - 16256) mod 128) s5) (\<lambda>_ s6. bmap_finish s6))))))"
  by (simp add: bmap_indirect_def SFS_DBPERIDB_def Let_def ebind_assoc numeral_3_eq_3)

lemma bmap_indirect_null:
  assumes "rootptr (sv_i (bm_sv s)) (fst (bmap_slot n)) = 0" and "15 \<le> n"
  shows "bmap_indirect (n - 15) False s = Some (Inr 0, s)"
  using assms by (auto simp: bmap_indirect_def SFS_DBPERIDB_def bmap_slot_def Let_def split: if_splits)

lemma bmap_indirect_reads:
  assumes inv: "file_inv (bm_sv s) (bm_fs s)" and len: "length (bm_buf s) = 128"
    and n: "15 \<le> n" "n < max_fileblock"
  shows "walks {} s (bmap_indirect (n - 15) False s) (\<lambda>b s'. b = ptr (bm_sv s') (bm_fs s') (bmap_slot n))"
proof (cases "rootptr (sv_i (bm_sv s)) (fst (bmap_slot n)) = 0")
  case True
  then show ?thesis
    using bmap_indirect_null [OF True n(1)] pv_null [OF True] grows_refl [OF inv] by (auto intro!: walks_ret)
next
  case False
  define x where "x = n - 15"
  note load = load_root_read [OF inv len]
  consider (one) "x < 128" | (two) "128 \<le> x" "x < 16512" | (three) "16512 \<le> x" by linarith
  then have "walks {} s (bmap_indirect x False s) (\<lambda>b s'. b = ptr (bm_sv s') (bm_fs s') (bmap_slot n))"
  proof cases
    case one
    have bs: "bmap_slot n = (Single, [x])" using one n by (simp add: bmap_slot_def x_def)
    have p: "rootptr (sv_i (bm_sv s)) Single \<noteq> 0" using False bs by simp
    have sl: "slot_ok (Single, [x])" using one by (simp add: slot_ok_def)
    show ?thesis
      unfolding bmap_indirect_read_1 [OF one p] bs fst_conv snd_conv
      by (rule walks_seq [OF load get_finish_read]) (use p sl in simp_all)
  next
    case two
    let ?a = "(x - 128) div 128" and ?b = "(x - 128) mod 128"
    have bs: "bmap_slot n = (Double, [?b, ?a])" using two n by (simp add: bmap_slot_def x_def)
    have p: "rootptr (sv_i (bm_sv s)) Double \<noteq> 0" using False bs by simp
    have "?a < 128" using two by auto
    then have sl: "slot_ok (Double, [?a])" "\<not> leaf (Double, [?a])" "slot_ok (Double, [?b, ?a])"
      by (simp_all add: slot_ok_def leaf_def)
    show ?thesis
      unfolding bmap_indirect_read_2 [OF two p] bs fst_conv snd_conv
      by (rule walks_seq [OF load get_descend_read [OF _ _ _ get_finish_read]]) (use p sl in simp_all)
  next
    case three
    let ?y = "x - 16256"
    let ?a = "?y div 16384" and ?b = "?y div 128" and ?c = "?y mod 128"
    have bs: "bmap_slot n = (Triple, [?c, ?b, ?a])" using three n by (simp add: bmap_slot_def x_def Let_def)
    have p: "rootptr (sv_i (bm_sv s)) Triple \<noteq> 0" using False bs by simp
    have "?y < 16384" using n three by (simp add: x_def max_fileblock_def)
    then have "?a < 128" "?b < 128" by auto
    then have sl: "slot_ok (Triple, [?a])" "\<not> leaf (Triple, [?a])" "slot_ok (Triple, [?b, ?a])"
      "\<not> leaf (Triple, [?b, ?a])" "slot_ok (Triple, [?c, ?b, ?a])"
      by (simp_all add: slot_ok_def leaf_def)
    show ?thesis
      unfolding bmap_indirect_read_3 [OF three p] bs fst_conv snd_conv
      by (rule walks_seq [OF load get_descend_read [OF _ _ _ get_descend_read [OF _ _ _ get_finish_read]]])
         (use p sl in simp_all)
  qed
  then show ?thesis by (simp add: x_def)
qed

lemma bmap_direct_reads:
  assumes inv: "file_inv (bm_sv s) (bm_fs s)" and n: "n < 15"
  shows "walks {} s (bmap_direct n False s) (\<lambda>b s'. b = pv (sv_i (bm_sv s')) (bm_fs s') (Direct n) [])"
proof -
  have len: "length (sfi_direct (sv_i (bm_sv s))) = 15" using file_invD(2) [OF inv] by (simp add: inode_ok_def)
  have sl: "slot_ok (Direct n, [])" using n by (simp add: slot_ok_def)
  have "looked (Direct n) [] (s\<lparr>bm_block := sfi_direct (sv_i (bm_sv s)) ! n\<rparr>)" using inv by (simp add: looked_def)
  from finish_read [OF this sl] show ?thesis using n len by (simp add: bmap_direct_def walks_def)
qed

section \<open>The two lookups\<close>

lemma bmap_run_indirect: "15 \<le> n \<Longrightarrow> n < max_fileblock \<Longrightarrow> bmap_run n a s = bmap_indirect (n - 15) a s"
  by (simp add: bmap_run_def SFS_NDIRECT_def SFS_DBPERIDB_def max_fileblock_def)

text \<open>What a caller of \<^verbatim>\<open>sfs_bmap\<close> gets.\<close>

lemma sfs_bmap_alloc:
  assumes "file_inv vn fs" and "n < max_fileblock"
  shows "\<exists>r vn' fs'. sfs_bmap vn n True fs = Some (r, vn', fs') \<and> grows (above (bmap_slot n)) vn fs vn' fs' \<and>
    (r = Inl ENOSPC \<or> (\<exists>b. r = Inr b \<and> b = ptr vn' fs' (bmap_slot n) \<and> b \<noteq> 0))"
proof -
  let ?s = "\<lparr>bm_buf = replicate 128 0, bm_idblock = 0, bm_block = 0, bm_sv = vn, bm_fs = fs\<rparr>"
  have "walks (above (bmap_slot n)) ?s (bmap_run n True ?s)
    (\<lambda>b s'. b = ptr (bm_sv s') (bm_fs s') (bmap_slot n) \<and> b \<noteq> 0)"
  proof (cases "n < 15")
    case True
    then have "bmap_slot n = (Direct n, [])" "bmap_run n True ?s = bmap_direct n True ?s"
      by (simp_all add: bmap_slot_def bmap_run_def SFS_NDIRECT_def)
    then show ?thesis
      using walks_mono [OF bmap_direct_walks [of ?s n], of "above (Direct n, [])"] assms True
      by (auto simp: above_def)
  next
    case False
    then show ?thesis using bmap_indirect_walks [of ?s n] assms bmap_run_indirect by simp
  qed
  then show ?thesis by (force simp: walks_def sfs_bmap_def)
qed

lemma sfs_bmap_read:
  assumes "file_inv vn fs" and "n < max_fileblock"
  shows "\<exists>r vn' fs'. sfs_bmap vn n False fs = Some (r, vn', fs') \<and> grows {} vn fs vn' fs' \<and>
    (r = Inl ENOSPC \<or> r = Inr (ptr vn' fs' (bmap_slot n)))"
proof -
  let ?s = "\<lparr>bm_buf = replicate 128 0, bm_idblock = 0, bm_block = 0, bm_sv = vn, bm_fs = fs\<rparr>"
  have "walks {} ?s (bmap_run n False ?s) (\<lambda>b s'. b = ptr (bm_sv s') (bm_fs s') (bmap_slot n))"
  proof (cases "n < 15")
    case True
    then have "bmap_slot n = (Direct n, [])" "bmap_run n False ?s = bmap_direct n False ?s"
      by (simp_all add: bmap_slot_def bmap_run_def SFS_NDIRECT_def)
    then show ?thesis using bmap_direct_reads [of ?s n] assms True by simp
  next
    case False
    then show ?thesis using bmap_indirect_reads [of ?s n] assms bmap_run_indirect by simp
  qed
  then show ?thesis by (force simp: walks_def sfs_bmap_def)
qed

section \<open>Properties\<close>

text \<open>The disk block that holds a block of the file, 0 for a hole.\<close>

definition file_block :: "sfs_vnode \<Rightarrow> sfs_fs \<Rightarrow> nat \<Rightarrow> nat" where
  "file_block vn fs n = ptr vn fs (bmap_slot n)"

lemma file_block_inj:
  assumes "file_inv vn fs" and "n < max_fileblock" and "m < max_fileblock"
    and "file_block vn fs n \<noteq> 0" and "file_block vn fs n = file_block vn fs m"
  shows "n = m"
  using file_inv_inj [OF assms(1) bmap_slot_ok(1) [OF assms(2)] bmap_slot_ok(1) [OF assms(3)]] assms(4,5)
    bmap_slot_inj [OF assms(2,3)] by (simp add: file_block_def)

lemma grows_file_block:
  assumes g: "grows (above (bmap_slot n)) vn fs vn' fs'" and n: "n < max_fileblock" "m < max_fileblock" "m \<noteq> n"
  shows "file_block vn' fs' m = file_block vn fs m"
proof -
  have "bmap_slot m \<notin> above (bmap_slot n)"
    using above_leaf [OF bmap_slot_ok(2) bmap_slot_ok(2)] bmap_slot_inj n by metis
  then show ?thesis using growsD(5) [OF g bmap_slot_ok(1) [OF n(2)]] by (simp add: file_block_def)
qed

lemma file_block_used:
  "file_inv vn fs \<Longrightarrow> n < max_fileblock \<Longrightarrow> file_block vn fs n \<noteq> 0 \<Longrightarrow>
   file_block vn fs n \<in> fs_used fs \<and> file_block vn fs n \<notin> meta_blocks vn fs"
  using file_inv_used [OF _ bmap_slot_ok(1)] leaf_not_meta [OF _ bmap_slot_ok(1) bmap_slot_ok(2)]
  by (simp add: file_block_def)


text \<open>A file that has only its inode, for the concrete instances.\<close>

lemma empty_ptr:
  assumes "\<And>r. slot_ok (r, []) \<Longrightarrow> rootptr (sv_i vn) r = 0" and "slot_ok s"
  shows "ptr vn fs s = 0"
proof -
  have "slot_ok (fst s, [])" using assms(2) by (auto simp: slot_ok_def)
  then show ?thesis using pv_null assms(1) by blast
qed

lemma file_inv_empty:
  assumes "fs_inv fs" and "inode_ok (sv_i vn)" and "0 \<in> fs_used fs" and "sv_ino vn \<in> fs_used fs"
    and "\<And>r. slot_ok (r, []) \<Longrightarrow> rootptr (sv_i vn) r = 0"
  shows "file_inv vn fs"
  unfolding file_inv_def using assms empty_ptr [OF assms(5)] by auto

lemma demo_roots:
  assumes "slot_ok (r, [])" and "sfi_direct i = replicate 15 0" and "sfi_indirect i = 0"
    and "sfi_doubleindirect i = 0" and "sfi_tripleindirect i = 0"
  shows "rootptr i r = 0"
  using assms by (cases r) (auto simp: slot_ok_def)

lemma demo_used: "0 \<in> fs_used demo_fs" "1 \<in> fs_used demo_fs"
  by (simp_all add: fs_used_def bm_used_def bit_at_def demo_fs_def)

lemma demo_file_inv: "file_inv demo_vnode demo_fs"
  using demo_fs_inv demo_inode_ok demo_used
  by (intro file_inv_empty) (auto simp: demo_vnode_def demo_inode_def intro: demo_roots)


text \<open>
  Above \<open>max_fileblock\<close> the indices leave the buffer.
\<close>

definition overruns :: "('a res \<times> bmap_state) option \<Rightarrow> bool" where
  "overruns out \<longleftrightarrow> out = None \<or> (\<exists>s. out = Some (Inl ENOSPC, s))"

lemma overruns_seq:
  assumes "walks S s m Q" and "\<And>x s1. Q x s1 \<Longrightarrow> overruns (f x s1)"
  shows "overruns (ebind m f)"
  using assms unfolding walks_def overruns_def by fastforce

lemma get_block_overrun: "holds r ns s \<Longrightarrow> 128 \<le> n \<Longrightarrow> overruns (ebind (get_block True n s) f)"
  by (simp add: get_block_def holds_def rd_def overruns_def)

lemma bmap_triple_overruns:
  assumes inv: "file_inv (bm_sv s) (bm_fs s)" and len: "length (bm_buf s) = 128" and x: "16384 + 16256 \<le> x"
  shows "overruns (bmap_indirect x True s)"
proof -
  have x3: "16512 \<le> x" using x by simp
  let ?y = "x - 16256"
  let ?a = "?y div 16384" and ?b = "?y div 128"
  have y: "16384 \<le> ?y" using x by simp
  have b: "128 \<le> ?b" using div_le_mono [OF y, of 128] by simp
  show ?thesis
    unfolding bmap_indirect_3 [OF x3]
  proof (rule overruns_seq [OF load_root_walks [OF inv len]])
    fix s1
    assume h: "holds Triple [] s1"
    show "overruns (ebind (get_block True ?a s1) (\<lambda>_ s2. ebind (descend 3 s2) (\<lambda>_ s3.
          ebind (get_block True ?b s3) (\<lambda>_ s4. ebind (descend 3 s4) (\<lambda>_ s5.
          ebind (get_block True (?y mod 128) s5) (\<lambda>_ s6. bmap_finish s6))))))"
    proof (cases "?a < 128")
      case True
      then have sl: "slot_ok (Triple, [?a])" "\<not> leaf (Triple, [?a])" by (simp_all add: slot_ok_def leaf_def)
      show ?thesis
        by (rule overruns_seq [OF get_block_walks [OF h True sl(1)]],
            rule overruns_seq [OF descend_walks [OF _ sl]], assumption,
            erule get_block_overrun [OF _ b])
    next
      case False
      then show ?thesis by (intro get_block_overrun [OF h]) simp
    qed
  qed simp
qed



text \<open>
  A lookup that was asked not to allocate, in the double indirect range of a file whose level-one
  pointer for that range is null, allocates all the same: it answers that there is a hole, but a block
  that was free is now in use and no pointer of the file refers to it.
\<close>

theorem sfs_bmap_read_leaks:
  assumes inv: "file_inv vn fs" and n: "143 \<le> n" "n < 15 + 16512"
    and root: "sfi_doubleindirect (sv_i vn) \<noteq> 0" and hole: "child fs (sfi_doubleindirect (sv_i vn)) ((n - 143) div 128) = 0"
    and room: "fs_used fs \<noteq> {..< nblk fs}"
  shows "\<exists>b vn' fs'. sfs_bmap vn n False fs = Some (Inr 0, vn', fs') \<and> file_inv vn' fs' \<and>
    b \<notin> fs_used fs \<and> fs_used fs' = insert b (fs_used fs) \<and> (\<forall>s. slot_ok s \<longrightarrow> ptr vn' fs' s \<noteq> b)"
proof -
  let ?s = "\<lparr>bm_buf = replicate 128 0, bm_idblock = 0, bm_block = 0, bm_sv = vn, bm_fs = fs\<rparr>"
  let ?p = "sfi_doubleindirect (sv_i vn)" and ?a = "(n - 143) div 128"
  let ?fs1 = "fs_read ?p fs"
  note d = file_invD [OF inv]
  have a: "?a < 128" using n by auto
  have x: "128 \<le> n - 15" "n - 15 < 16512" "n - 15 - 128 = n - 143" using n by auto
  have inv1: "file_inv vn ?fs1" by (rule file_inv_read [OF inv])
  obtain b where b: "sfs_balloc ?fs1 = Some (Inr b, fs_alloc b ?fs1)" "b < nblk ?fs1" "b \<notin> fs_used ?fs1"
    using sfs_balloc_ok [OF file_invD(1) [OF inv1]] room by auto
  have load: "loadbuffer (depth Double) ?p 0 (?s\<lparr>bm_idblock := ?p\<rparr>) =
      Some (Inr (), ?s\<lparr>bm_idblock := ?p, bm_buf := bwords fs ?p, bm_fs := ?fs1\<rparr>)"
    using loadbuffer_old(1) [of "?s\<lparr>bm_idblock := ?p\<rparr>" Double "[]" ?p] inv root
    by (simp add: slot_ok_def leaf_def)
  have hole': "bwords fs ?p ! ?a = 0" using hole root by (simp add: child_def)
  let ?vn = "vn\<lparr>sv_i := bump_blocks (sv_i vn), sv_dirty := True\<rparr>"
  have "bmap_run n False ?s = Some (Inr 0, ?s\<lparr>bm_idblock := b, bm_buf := replicate 128 0, bm_block := 0,
      bm_fs := fs_alloc b ?fs1, bm_sv := ?vn\<rparr>)"
    using n x a root hole' b(1) load bmap_indirect_read_2 [OF x(1,2), of ?s]
    by (simp add: bmap_run_def SFS_NDIRECT_def SFS_DBPERIDB_def get_block_def descend_def loadbuffer_def
        bmap_finish_def)
  then have run: "sfs_bmap vn n False fs = Some (Inr 0, ?vn, fs_alloc b ?fs1)" by (simp add: sfs_bmap_def)
  note g = grows_orphan [OF inv1 b(2,3)]
  have "b \<noteq> 0" using b(3) d(3) by (metis fs_used_rw(1))
  then have "ptr ?vn (fs_alloc b ?fs1) s \<noteq> b" if "slot_ok s" for s
    using growsD(5) [OF g that] file_inv_used [OF inv1 that] b(3) d(3) by (cases "ptr vn ?fs1 s = 0") auto
  then show ?thesis
    using run growsD(1) [OF g] fs_alloc_inv [OF file_invD(1) [OF inv1] b(2)] b by auto
qed

text \<open>A file whose double indirect block exists and is empty.\<close>

definition demo_sparse :: sfs_vnode where
  "demo_sparse = demo_vnode\<lparr>sv_i := demo_inode\<lparr>sfi_doubleindirect := 2\<rparr>\<rparr>"

lemma demo_unused: "2 \<notin> fs_used demo_fs" "3 \<notin> fs_used demo_fs" "nblk demo_fs = 4"
  by (simp_all add: fs_used_def bm_used_def bit_at_def demo_fs_def)

lemma demo_sparse_inv: "file_inv demo_sparse (fs_alloc 2 demo_fs)"
proof -
  have "grows {(Double, [])} demo_vnode demo_fs demo_sparse (fs_alloc 2 demo_fs)"
  proof (rule grows_root [OF demo_file_inv])
    show "inode_ok (sv_i demo_sparse)" using demo_inode_ok by (simp add: demo_sparse_def inode_ok_def)
    show "same_file demo_vnode demo_sparse"
      by (simp add: same_file_def demo_sparse_def demo_vnode_def vnode.defs)
    show "rootptr (sv_i demo_sparse) r' = (if r' = Double then 2 else rootptr (sv_i demo_vnode) r')" for r'
      by (cases r') (simp_all add: demo_sparse_def demo_vnode_def)
  qed (use demo_unused in \<open>simp_all add: slot_ok_def demo_vnode_def demo_inode_def\<close>)
  then show ?thesis by (rule growsD(1))
qed

lemma sfs_bmap_read_leaks_witness:
  "\<exists>b vn' fs'. sfs_bmap demo_sparse 200 False (fs_alloc 2 demo_fs) = Some (Inr 0, vn', fs') \<and>
     fs_used fs' = insert b (fs_used (fs_alloc 2 demo_fs)) \<and> b \<notin> fs_used (fs_alloc 2 demo_fs)"
proof -
  have d: "sfi_doubleindirect (sv_i demo_sparse) = 2" by (simp add: demo_sparse_def)
  have u: "fs_used (fs_alloc 2 demo_fs) = insert 2 (fs_used demo_fs)"
    using fs_alloc_inv(2) [OF demo_fs_inv] demo_unused by simp
  have "3 \<notin> fs_used (fs_alloc 2 demo_fs)" "3 \<in> {..< nblk (fs_alloc 2 demo_fs)}"
    using demo_unused by (simp_all add: u)
  then have room: "fs_used (fs_alloc 2 demo_fs) \<noteq> {..< nblk (fs_alloc 2 demo_fs)}" by blast
  have "child (fs_alloc 2 demo_fs) 2 ((200 - 143) div 128) = 0" by (simp add: child_def)
  with sfs_bmap_read_leaks [where n = 200, OF demo_sparse_inv _ _ _ _ room] show ?thesis
    unfolding d by fastforce
qed

end
