(* ===== verification/Sfs_file.thy ===== *)
theory Sfs_file
  imports Sfs_bmap
begin

text \<open>
  File-level I/O of \<^verbatim>\<open>assignment3/ownSolution/sfs_vnode.c\<close>: \<^verbatim>\<open>sfs_partialio\<close>, \<^verbatim>\<open>sfs_blockio\<close> and
  \<^verbatim>\<open>sfs_io\<close>, against the bytes a file stands for.
\<close>

section \<open>The code\<close>

type_synonym io_state = "sfs_vnode \<times> uio \<times> sfs_fs"

definition sfs_partialio :: "nat \<Rightarrow> nat \<Rightarrow> io_state \<Rightarrow> (unit res \<times> io_state) option" where
  "sfs_partialio skipstart len = (\<lambda>(vn, u, fs). do {
     let doalloc = (uio_rw u = UIO_WRITE);
     kassert (skipstart + len \<le> SFS_BLOCKSIZE);
     let fileblock = uio_offset u div SFS_BLOCKSIZE;
     (r, vn1, fs1) \<leftarrow> sfs_bmap vn fileblock doalloc fs;
     (case r of
        Inl e \<Rightarrow> Some (Inl e, (vn1, u, fs1))
      | Inr diskblock \<Rightarrow> do {
          (r, iobuf, fs2) \<leftarrow>
            (if diskblock = 0 then do {
               kassert (uio_rw u = UIO_READ);
               Some (Inr (), replicate SFS_BLOCKSIZE 0, fs1)
             }
             else sfs_rblock (replicate SFS_BLOCKSIZE 0) diskblock fs1);
          (case r of
             Inl e \<Rightarrow> Some (Inl e, (vn1, u, fs2))
           | Inr _ \<Rightarrow> do {
               (r, part, u1) \<leftarrow> uiomove (drop skipstart iobuf) len u;
               (case r of
                  Inl e \<Rightarrow> Some (Inl e, (vn1, u1, fs2))
                | Inr _ \<Rightarrow>
                    if uio_rw u1 = UIO_WRITE then do {
                      (r, fs3) \<leftarrow> sfs_wblock (take skipstart iobuf @ part) diskblock fs2;
                      Some (r, (vn1, u1, fs3))
                    }
                    else Some (Inr (), (vn1, u1, fs2)))
             })
        })
   })"

definition sfs_blockio :: "io_state \<Rightarrow> (unit res \<times> io_state) option" where
  "sfs_blockio = (\<lambda>(vn, u, fs). do {
     let doalloc = (uio_rw u = UIO_WRITE);
     let fileblock = uio_offset u div SFS_BLOCKSIZE;
     (r, vn1, fs1) \<leftarrow> sfs_bmap vn fileblock doalloc fs;
     (case r of
        Inl e \<Rightarrow> Some (Inl e, (vn1, u, fs1))
      | Inr diskblock \<Rightarrow>
          if diskblock = 0 then do {
            kassert (uio_rw u = UIO_READ);
            (r, u1) \<leftarrow> uiomovezeros SFS_BLOCKSIZE u;
            Some (r, (vn1, u1, fs1))
          }
          else do {
            let saveoff = uio_offset u;
            let diskoff = diskblock * SFS_BLOCKSIZE;
            kassert (uio_resid u \<ge> SFS_BLOCKSIZE);
            let saveres = uio_resid u;
            (r, u1, fs2) \<leftarrow> sfs_rwblock (u\<lparr>uio_offset := diskoff, uio_resid := SFS_BLOCKSIZE\<rparr>) fs1;
            let u2 = u1\<lparr>uio_offset := (uio_offset u1 - diskoff) + saveoff,
                        uio_resid := saveres + uio_resid u1 - SFS_BLOCKSIZE\<rparr>;
            Some (r, (vn1, u2, fs2))
          })
   })"

text \<open>The loop over the whole blocks.\<close>

fun sfs_io_blocks :: "nat \<Rightarrow> io_state \<Rightarrow> (unit res \<times> io_state) option" where
  "sfs_io_blocks 0 st = Some (Inr (), st)"
| "sfs_io_blocks (Suc k) st = ebind (sfs_blockio st) (\<lambda>_ st1. sfs_io_blocks k st1)"

text \<open>What lies between the check for the end of the file and the label \<^verbatim>\<open>out\<close>.\<close>

definition sfs_io_body :: "io_state \<Rightarrow> (unit res \<times> io_state) option" where
  "sfs_io_body = (\<lambda>(vn, u, fs).
     let blkoff = uio_offset u mod SFS_BLOCKSIZE
     in ebind (if blkoff \<noteq> 0 then
                 (let len = SFS_BLOCKSIZE - blkoff;
                      len = (if len > uio_resid u then uio_resid u else len)
                  in sfs_partialio blkoff len (vn, u, fs))
               else Some (Inr (), (vn, u, fs)))
          (\<lambda>_ (vn1, u1, fs1).
             if uio_resid u1 = 0 then Some (Inr (), (vn1, u1, fs1))
             else do {
               kassert (uio_offset u1 mod SFS_BLOCKSIZE = 0);
               ebind (sfs_io_blocks (uio_resid u1 div SFS_BLOCKSIZE) (vn1, u1, fs1))
                 (\<lambda>_ (vn2, u2, fs2). do {
                    kassert (uio_resid u2 < SFS_BLOCKSIZE);
                    if uio_resid u2 > 0 then sfs_partialio 0 (uio_resid u2) (vn2, u2, fs2)
                    else Some (Inr (), (vn2, u2, fs2))
                  })
             }))"

text \<open>From the label on: the file's length grows with a write, the residue past the end comes back.\<close>

definition sfs_io_out :: "nat \<Rightarrow> unit res \<Rightarrow> io_state \<Rightarrow> (unit res \<times> io_state) option" where
  "sfs_io_out extraresid r = (\<lambda>(vn, u, fs).
     let vn' = (if uio_rw u = UIO_WRITE \<and> uio_offset u > sfi_size (sv_i vn)
                then vn\<lparr>sv_i := (sv_i vn)\<lparr>sfi_size := size32 (uio_offset u)\<rparr>, sv_dirty := True\<rparr>
                else vn)
     in Some (r, (vn', u\<lparr>uio_resid := uio_resid u + extraresid\<rparr>, fs)))"

definition sfs_io :: "io_state \<Rightarrow> (unit res \<times> io_state) option" where
  "sfs_io = (\<lambda>(vn, u, fs).
     let sz = sfi_size (sv_i vn);
         endpos = uio_offset u + uio_resid u
     in if uio_rw u = UIO_READ \<and> uio_offset u \<ge> sz then Some (Inr (), (vn, u, fs))
        else do {
          let extraresid = (if uio_rw u = UIO_READ \<and> endpos > sz then endpos - sz else 0);
          kassert (extraresid = 0 \<or> uio_resid u > extraresid);
          (r, st) \<leftarrow> sfs_io_body (vn, u\<lparr>uio_resid := uio_resid u - extraresid\<rparr>, fs);
          sfs_io_out extraresid r st
        })"

section \<open>The bytes of a file\<close>

definition file_byte :: "sfs_vnode \<Rightarrow> sfs_fs \<Rightarrow> nat \<Rightarrow> byte" where
  "file_byte vn fs x =
     (let b = file_block vn fs (x div 512) in if b = 0 then 0 else blk fs b ! (x mod 512))"

definition file_bytes :: "sfs_vnode \<Rightarrow> sfs_fs \<Rightarrow> nat \<Rightarrow> nat \<Rightarrow> byte list" where
  "file_bytes vn fs off n = map (file_byte vn fs) [off ..< off + n]"

definition max_filesize :: nat where
  "max_filesize = max_fileblock * 512"

definition own_blocks :: "sfs_vnode \<Rightarrow> sfs_fs \<Rightarrow> nat set" where
  "own_blocks vn fs = {ptr vn fs s | s. slot_ok s \<and> ptr vn fs s \<noteq> 0}"

text \<open>
  The file \<open>vn'\<close> on \<open>fs'\<close> is the file \<open>vn\<close> on \<open>fs\<close> with \<open>bs\<close> written at \<open>off\<close>; nothing else
  on the volume has changed, and only free blocks have been taken.
\<close>

definition wrote :: "nat \<Rightarrow> byte list \<Rightarrow> sfs_vnode \<Rightarrow> sfs_fs \<Rightarrow> sfs_vnode \<Rightarrow> sfs_fs \<Rightarrow> bool" where
  "wrote off bs vn fs vn' fs' \<longleftrightarrow> file_inv vn' fs' \<and> same_file vn vn' \<and> same_fs fs fs' \<and>
     fs_used fs \<subseteq> fs_used fs' \<and> own_blocks vn' fs' \<inter> fs_used fs \<subseteq> own_blocks vn fs \<and>
     (\<forall>x < max_filesize. file_byte vn' fs' x =
        (if off \<le> x \<and> x < off + length bs then bs ! (x - off) else file_byte vn fs x)) \<and>
     (\<forall>c \<in> fs_used fs. c \<notin> own_blocks vn fs \<longrightarrow> blk fs' c = blk fs c)"

lemma length_file_bytes [simp]: "length (file_bytes vn fs off n) = n"
  by (simp add: file_bytes_def)

lemma meta_own: "meta_blocks vn fs \<subseteq> own_blocks vn fs"
  by (auto simp: meta_blocks_def own_blocks_def)

lemma ptr_own: "slot_ok s \<Longrightarrow> ptr vn fs s \<noteq> 0 \<Longrightarrow> ptr vn fs s \<in> own_blocks vn fs"
  unfolding own_blocks_def by blast

lemma x_block: "x < max_filesize \<Longrightarrow> x div 512 < max_fileblock"
  by (simp add: max_filesize_def less_mult_imp_div_less)

text \<open>Growing a file does not change its bytes.\<close>

lemma grows_file_byte:
  assumes inv: "file_inv vn fs" and g: "grows S vn fs vn' fs'" and x: "x < max_filesize"
  shows "file_byte vn' fs' x = file_byte vn fs x"
proof -
  let ?n = "x div 512"
  note d = growsD [OF g]
  have n: "?n < max_fileblock" using x by (rule x_block)
  have sl: "slot_ok (bmap_slot ?n)" "leaf (bmap_slot ?n)" using bmap_slot_ok [OF n] by auto
  show ?thesis
  proof (cases "file_block vn fs ?n = 0")
    case False
    then have "file_block vn' fs' ?n = file_block vn fs ?n"
      using d(5) [OF sl(1)] by (simp add: file_block_def)
    moreover have "blk fs' (file_block vn fs ?n) = blk fs (file_block vn fs ?n)"
      using d(8) file_block_used [OF inv n False] by simp
    ultimately show ?thesis by (simp add: file_byte_def Let_def)
  next
    case True
    show ?thesis
    proof (cases "file_block vn' fs' ?n = 0")
      case False
      then have "blk fs' (file_block vn' fs' ?n) = replicate 512 0"
        using d(7) [OF sl(1) _ _ sl(2)] True by (simp add: file_block_def)
      then show ?thesis using True by (simp add: file_byte_def Let_def)
    qed (simp add: file_byte_def True)
  qed
qed

lemma grows_wrote:
  assumes inv: "file_inv vn fs" and g: "grows S vn fs vn' fs'"
  shows "wrote off [] vn fs vn' fs'"
proof -
  note d = growsD [OF g]
  have "own_blocks vn' fs' \<inter> fs_used fs \<subseteq> own_blocks vn fs"
  proof
    fix c
    assume "c \<in> own_blocks vn' fs' \<inter> fs_used fs"
    then obtain s where s: "slot_ok s" "c = ptr vn' fs' s" "c \<noteq> 0" "c \<in> fs_used fs"
      by (auto simp: own_blocks_def)
    then have "ptr vn fs s \<noteq> 0" using d(6) [OF s(1)] by auto
    then have "c = ptr vn fs s" using d(5) [OF s(1)] s by auto
    then show "c \<in> own_blocks vn fs" unfolding own_blocks_def using s by blast
  qed
  then show ?thesis
    unfolding wrote_def using d(1-4) d(8) grows_file_byte [OF inv g] meta_own by fastforce
qed

lemma wrote_refl: "file_inv vn fs \<Longrightarrow> wrote off [] vn fs vn fs"
  using grows_wrote grows_refl by blast

lemma wroteD:
  assumes "wrote off bs vn fs vn' fs'"
  shows "file_inv vn' fs'" and "same_file vn vn'" and "same_fs fs fs'" and "fs_used fs \<subseteq> fs_used fs'"
    and "\<And>x. x < max_filesize \<Longrightarrow> file_byte vn' fs' x =
      (if off \<le> x \<and> x < off + length bs then bs ! (x - off) else file_byte vn fs x)"
    and "\<And>c. c \<in> fs_used fs \<Longrightarrow> c \<notin> own_blocks vn fs \<Longrightarrow> blk fs' c = blk fs c"
    and "own_blocks vn' fs' \<inter> fs_used fs \<subseteq> own_blocks vn fs"
  using assms unfolding wrote_def by blast+

lemma wrote_Nil_offset:
  assumes "wrote off [] vn fs vn' fs'"
  shows "wrote off' [] vn fs vn' fs'"
proof -
  have "file_byte vn' fs' x = file_byte vn fs x" if "x < max_filesize" for x
    using wroteD(5) [OF assms that] by auto
  then show ?thesis using assms unfolding wrote_def by auto
qed

lemma wrote_append:
  assumes w1: "wrote off bs vn fs vn1 fs1" and w2: "wrote (off + length bs) cs vn1 fs1 vn2 fs2"
  shows "wrote off (bs @ cs) vn fs vn2 fs2"
proof -
  note d1 = wroteD [OF w1] and d2 = wroteD [OF w2]
  have own: "c \<notin> own_blocks vn1 fs1" if "c \<in> fs_used fs" "c \<notin> own_blocks vn fs" for c
    using d1(7) that by blast
  have "file_byte vn2 fs2 x = (if off \<le> x \<and> x < off + length (bs @ cs) then (bs @ cs) ! (x - off) else file_byte vn fs x)"
    if x: "x < max_filesize" for x
    using d1(5) [OF x] d2(5) [OF x] by (auto simp: nth_append)
  moreover have "own_blocks vn2 fs2 \<inter> fs_used fs \<subseteq> own_blocks vn fs"
    using d1(4,7) d2(7) by blast
  moreover have "blk fs2 c = blk fs c" if "c \<in> fs_used fs" "c \<notin> own_blocks vn fs" for c
    using d1(6) [OF that] d2(6) [of c] own [OF that] d1(4) that by auto
  ultimately show ?thesis
    unfolding wrote_def using d1(2-4) d2(1-4) by (blast intro: same_trans)
qed

section \<open>Writing into a block of the file\<close>

lemma nth_splice:
  "length xs = n \<Longrightarrow> p + length bs \<le> n \<Longrightarrow> i < n \<Longrightarrow>
   (take p xs @ bs @ drop (p + length bs) xs) ! i = (if p \<le> i \<and> i < p + length bs then bs ! (i - p) else xs ! i)"
  by (auto simp: nth_append)

lemma pv_data_write:
  assumes "b \<notin> meta_blocks vn fs" and "slot_ok (r, ns)"
  shows "pv (sv_i vn) (fs_write b bs fs) r ns = pv (sv_i vn) fs r ns"
  using assms(2)
proof (induction ns)
  case (Cons n ns)
  have sl: "slot_ok (r, ns)" "\<not> leaf (r, ns)" using slot_ok_Cons [OF Cons.prems] by auto
  have "pv (sv_i vn) fs r ns \<noteq> b" if "pv (sv_i vn) fs r ns \<noteq> 0"
  proof
    assume "pv (sv_i vn) fs r ns = b"
    then have "b = ptr vn fs (r, ns)" by simp
    then show False using assms(1) sl that unfolding meta_blocks_def by auto
  qed
  then show ?case using Cons.IH [OF sl(1)] by (auto simp: child_def)
qed simp

lemma data_write_wrote:
  assumes inv: "file_inv vn fs" and n: "n < max_fileblock" and b: "b = file_block vn fs n" "b \<noteq> 0"
    and off: "off div 512 = n" "off mod 512 + length bs \<le> 512"
    and new: "blk' = take (off mod 512) (blk fs b) @ bs @ drop (off mod 512 + length bs) (blk fs b)"
  shows "wrote off bs vn fs vn (fs_write b blk' fs)"
proof -
  let ?fs = "fs_write b blk' fs"
  note d = file_invD [OF inv]
  note u = file_block_used [OF inv n, folded b(1), OF b(2)]
  have p: "ptr vn ?fs s = ptr vn fs s" if "slot_ok s" for s
    using pv_data_write [of b vn fs "fst s" "snd s" blk'] u that by simp
  have len: "length (blk fs b) = 512" using d(1) by simp
  have len': "length blk' = 512" using off(2) len by (simp add: new)
  have inv': "file_inv vn ?fs"
    using inv p len' unfolding file_inv_def by simp
  have own: "own_blocks vn ?fs = own_blocks vn fs"
    unfolding own_blocks_def using p by (metis (no_types, lifting))
  have byte: "file_byte vn ?fs x = (if off \<le> x \<and> x < off + length bs then bs ! (x - off) else file_byte vn fs x)"
    if x: "x < max_filesize" for x
  proof -
    let ?m = "x div 512"
    have m: "?m < max_fileblock" using x by (rule x_block)
    have fb: "file_block vn ?fs ?m = file_block vn fs ?m"
      using p [OF bmap_slot_ok(1) [OF m]] by (simp add: file_block_def)
    have xe: "x = ?m * 512 + x mod 512" and oe: "off = n * 512 + off mod 512" using off by auto
    show ?thesis
    proof (cases "?m = n")
      case True
      have in_range: "off \<le> x \<and> x < off + length bs \<longleftrightarrow> off mod 512 \<le> x mod 512 \<and> x mod 512 < off mod 512 + length bs"
        using xe oe True by linarith
      have "x - off = x mod 512 - off mod 512" using xe oe True by linarith
      moreover have "blk' ! (x mod 512) =
        (if off mod 512 \<le> x mod 512 \<and> x mod 512 < off mod 512 + length bs then bs ! (x mod 512 - off mod 512)
         else blk fs b ! (x mod 512))"
        unfolding new using len off(2) by (rule nth_splice) simp
      ultimately show ?thesis
        using True fb b unfolding in_range by (simp add: file_byte_def Let_def)
    next
      case False
      have "\<not> (off \<le> x \<and> x < off + length bs)"
      proof
        assume a: "off \<le> x \<and> x < off + length bs"
        have "n \<le> ?m" using a off(1) div_le_mono by blast
        moreover have "x < n * 512 + 512" using a oe off(2) by linarith
        then have "?m < n + 1" by (intro less_mult_imp_div_less) simp
        ultimately show False using False by simp
      qed
      moreover have "file_block vn fs ?m \<noteq> b \<or> file_block vn fs ?m = 0"
        using file_block_inj [OF inv m n] False b by auto
      ultimately show ?thesis using fb b by (auto simp: file_byte_def Let_def)
    qed
  qed
  have "b \<in> own_blocks vn fs"
    using ptr_own [OF bmap_slot_ok(1) [OF n], of vn fs] b by (simp add: file_block_def)
  then have "blk ?fs c = blk fs c" if "c \<notin> own_blocks vn fs" for c using that by auto
  then show ?thesis
    unfolding wrote_def using inv' own byte by (auto simp: same_fs_def)
qed

section \<open>One transfer\<close>

text \<open>
  A transfer of \<open>k\<close> bytes has been carried out: written to the file from the descriptor, or read
  from the file into it.
\<close>

definition io_done :: "nat \<Rightarrow> io_state \<Rightarrow> io_state \<Rightarrow> bool" where
  "io_done k = (\<lambda>(vn, u, fs) (vn', u', fs').
     k \<le> uio_resid u \<and>
     (if uio_rw u = UIO_WRITE
      then u' = uio_advance k u \<and> wrote (uio_offset u) (take k (uio_bytes u)) vn fs vn' fs'
      else u' = uio_filled (file_bytes vn fs (uio_offset u) k) u \<and> wrote (uio_offset u) [] vn fs vn' fs'))"

definition io_ok :: "io_state \<Rightarrow> bool" where
  "io_ok = (\<lambda>(vn, u, fs). file_inv vn fs \<and> uio_ok u \<and> uio_offset u + uio_resid u \<le> max_filesize)"

lemma io_done_0: "io_ok st \<Longrightarrow> io_done 0 st st"
  using uio_filled_Nil uio_advance_0 uio_ok_bounds wrote_refl
  by (auto simp: io_done_def io_ok_def file_bytes_def split: prod.split)

lemma io_done_ok:
  assumes "io_ok st" and "io_done k st st'"
  shows "io_ok st'"
proof -
  obtain vn u fs vn' u' fs' where st: "st = (vn, u, fs)" "st' = (vn', u', fs')" by (metis prod_cases3)
  have o: "uio_ok u" "k \<le> uio_resid u" "uio_offset u + uio_resid u \<le> max_filesize"
    using assms by (auto simp: st io_ok_def io_done_def)
  note b = uio_ok_bounds [OF o(1)]
  show ?thesis
    using assms o b uio_ok_advance [OF o(1,2)] uio_ok_filled [OF o(1), of "file_bytes vn fs (uio_offset u) k"]
    by (auto simp: st io_ok_def io_done_def dest: wroteD(1) split: if_splits)
qed

lemma file_bytes_wrote:
  assumes "wrote off [] vn fs vn' fs'" and "a + n \<le> max_filesize"
  shows "file_bytes vn' fs' a n = file_bytes vn fs a n"
proof -
  have "file_byte vn' fs' x = file_byte vn fs x" if "x < max_filesize" for x
    using wroteD(5) [OF assms(1) that] by auto
  then show ?thesis using assms(2) by (simp add: file_bytes_def)
qed

lemma file_bytes_append: "file_bytes vn fs a n @ file_bytes vn fs (a + n) k = file_bytes vn fs a (n + k)"
  by (rule nth_equalityI) (auto simp: file_bytes_def nth_append)

lemma take_drop_append: "take n xs @ take k (drop n xs) = take (n + k) xs"
  by (simp add: take_add)

lemma io_done_trans:
  assumes ok: "io_ok st" and d1: "io_done k st st1" and d2: "io_done j st1 st2"
  shows "io_done (k + j) st st2"
proof -
  obtain vn u fs vn1 u1 fs1 vn2 u2 fs2 where st: "st = (vn, u, fs)" "st1 = (vn1, u1, fs1)" "st2 = (vn2, u2, fs2)"
    by (metis prod_cases3)
  have o: "uio_ok u" "k \<le> uio_resid u" "uio_offset u + uio_resid u \<le> max_filesize"
    using ok d1 by (auto simp: st io_ok_def io_done_def)
  note b = uio_ok_bounds [OF o(1)]
  show ?thesis
  proof (cases "uio_rw u = UIO_WRITE")
    case True
    have 1: "u1 = uio_advance k u" "wrote (uio_offset u) (take k (uio_bytes u)) vn fs vn1 fs1"
      using d1 True by (auto simp: st io_done_def)
    have 2: "u2 = uio_advance j u1" "wrote (uio_offset u1) (take j (uio_bytes u1)) vn1 fs1 vn2 fs2" "j \<le> uio_resid u1"
      using d2 True 1 by (auto simp: st io_done_def)
    have j: "k + j \<le> uio_resid u" using 2(3) o b by (simp add: 1)
    have len: "length (take k (uio_bytes u)) = k" using o by simp
    have "wrote (uio_offset u) (take k (uio_bytes u) @ take j (drop k (uio_bytes u))) vn fs vn2 fs2"
      using wrote_append [OF 1(2), unfolded len] 2(2) o by (simp add: 1(1) uio_bytes_advance)
    then show ?thesis
      using True j 2(1) uio_advance_add [OF o(1) j] by (simp add: st io_done_def 1(1) take_drop_append)
  next
    case False
    have 1: "u1 = uio_filled (file_bytes vn fs (uio_offset u) k) u" "wrote (uio_offset u) [] vn fs vn1 fs1"
      using d1 False by (auto simp: st io_done_def)
    have 2: "u2 = uio_filled (file_bytes vn1 fs1 (uio_offset u1) j) u1" "wrote (uio_offset u1) [] vn1 fs1 vn2 fs2"
      "j \<le> uio_resid u1"
      using d2 False 1 by (auto simp: st io_done_def)
    have j: "k + j \<le> uio_resid u" using 2(3) o b by (simp add: 1)
    have "wrote (uio_offset u) [] vn1 fs1 vn2 fs2" using 2(2) by (rule wrote_Nil_offset)
    then have "wrote (uio_offset u) [] vn fs vn2 fs2"
      using wrote_append [OF 1(2)] by fastforce
    moreover have "file_bytes vn1 fs1 (uio_offset u + k) j = file_bytes vn fs (uio_offset u + k) j"
      using j o by (intro file_bytes_wrote [OF 1(2)]) simp
    ultimately show ?thesis
      using False j 2(1) uio_filled_append [OF o(1), of "file_bytes vn fs (uio_offset u) k" "file_bytes vn fs (uio_offset u + k) j"]
      by (simp add: st io_done_def 1(1) file_bytes_append)
  qed
qed

section \<open>The routines\<close>

lemma io_done_sel:
  assumes "io_ok (vn, u, fs)" and "io_done k (vn, u, fs) (vn', u', fs')"
  shows "uio_offset u' = uio_offset u + k" and "uio_resid u' = uio_resid u - k" and "uio_rw u' = uio_rw u"
    and "k \<le> uio_resid u"
  using assms uio_ok_bounds [of u] by (auto simp: io_done_def io_ok_def split: if_splits)

text \<open>
  The outcome of moving \<open>k\<close> bytes: all of them, or the disk ran full, at the start or at the
  boundary of a block.
\<close>

definition io_stop :: "nat \<Rightarrow> io_state \<Rightarrow> bool" where
  "io_stop j st \<longleftrightarrow> j = 0 \<or> (uio_offset (fst (snd st)) + j) mod 512 = 0"

definition io_result :: "nat \<Rightarrow> io_state \<Rightarrow> (unit res \<times> io_state) option \<Rightarrow> bool" where
  "io_result k st out \<longleftrightarrow> (\<exists>st'. out = Some (Inr (), st') \<and> io_done k st st') \<or>
     (\<exists>j st'. out = Some (Inl ENOSPC, st') \<and> j < k \<and> io_stop j st \<and> io_done j st st')"

lemma io_stop_0 [simp]: "io_stop 0 st"
  by (simp add: io_stop_def)

lemma io_result_full: "io_done j st st' \<Longrightarrow> j < k \<Longrightarrow> io_stop j st \<Longrightarrow> io_result k st (Some (Inl ENOSPC, st'))"
  unfolding io_result_def by blast

lemma io_stop_add:
  assumes "io_ok st" and "io_done k st st1" and "io_stop k st" and "io_stop i st1"
  shows "io_stop (k + i) st"
proof -
  obtain vn u fs vn1 u1 fs1 where st: "st = (vn, u, fs)" "st1 = (vn1, u1, fs1)" by (metis prod_cases3)
  show ?thesis
    using assms io_done_sel(1) [OF assms(1,2) [unfolded st]] by (auto simp: io_stop_def st add.assoc)
qed

lemma io_result_seq:
  assumes ok: "io_ok st" and m: "io_result k st m" and stop: "io_stop k st \<or> j = 0"
    and f: "\<And>st1. io_ok st1 \<Longrightarrow> io_done k st st1 \<Longrightarrow> io_result j st1 (f () st1)"
  shows "io_result (k + j) st (ebind m f)"
proof -
  from m consider (all) st1 where "m = Some (Inr (), st1)" "io_done k st st1"
    | (full) i st1 where "m = Some (Inl ENOSPC, st1)" "i < k" "io_stop i st" "io_done i st st1"
    unfolding io_result_def by blast
  then show ?thesis
  proof cases
    case all
    from f [OF io_done_ok [OF ok all(2)] all(2)] consider (yes) st2 where "f () st1 = Some (Inr (), st2)" "io_done j st1 st2"
      | (no) i st2 where "f () st1 = Some (Inl ENOSPC, st2)" "i < j" "io_stop i st1" "io_done i st1 st2"
      unfolding io_result_def by blast
    then show ?thesis
    proof cases
      case yes
      then show ?thesis using all io_done_trans [OF ok all(2)] unfolding io_result_def by auto
    next
      case no
      then have "io_stop (k + i) st" using stop io_stop_add [OF ok all(2)] by auto
      moreover have "k + i < k + j" using no by simp
      ultimately show ?thesis using io_result_full [OF io_done_trans [OF ok all(2) no(4)]] all no by simp
    qed
  next
    case full
    then have "i < k + j" by simp
    then show ?thesis using full io_result_full [OF full(4)] by simp
  qed
qed

lemma io_result_0: "io_ok st \<Longrightarrow> io_result 0 st (Some (Inr (), st))"
  using io_done_0 by (auto simp: io_result_def)

lemma block_offset:
  assumes "(off :: nat) mod k + i < k"
  shows "(off + i) div k = off div k" and "(off + i) mod k = off mod k + i"
proof -
  have "i < k" using assms by simp
  then show "(off + i) div k = off div k" using assms by (subst div_add1_eq) simp
  show "(off + i) mod k = off mod k + i" using assms by (metis mod_add_left_eq mod_less)
qed

text \<open>What reading a block of the file, or part of one, delivers.\<close>

definition block_image :: "sfs_vnode \<Rightarrow> sfs_fs \<Rightarrow> nat \<Rightarrow> byte list" where
  "block_image vn fs n = (if file_block vn fs n = 0 then replicate 512 0 else blk fs (file_block vn fs n))"

lemma length_block_image [simp]: "fs_inv fs \<Longrightarrow> length (block_image vn fs n) = 512"
  by (simp add: block_image_def)

lemma block_image_bytes:
  assumes "fs_inv fs" and "off mod 512 + len \<le> 512"
  shows "take len (drop (off mod 512) (block_image vn fs (off div 512))) = file_bytes vn fs off len"
proof (rule nth_equalityI)
  fix i
  assume "i < length (take len (drop (off mod 512) (block_image vn fs (off div 512))))"
  then have i: "i < len" using assms by simp
  have lt: "off mod 512 + i < 512" using i assms(2) by simp
  note d = block_offset [OF lt]
  show "take len (drop (off mod 512) (block_image vn fs (off div 512))) ! i = file_bytes vn fs off len ! i"
    using i lt assms by (simp add: file_bytes_def file_byte_def d block_image_def Let_def)
qed (use assms in simp)

lemma sfs_partialio_result:
  assumes ok: "io_ok (vn, u, fs)" and len: "skip = uio_offset u mod 512" "skip + len \<le> 512" "len \<le> uio_resid u" "0 < len"
  shows "io_result len (vn, u, fs) (sfs_partialio skip len (vn, u, fs))"
proof -
  let ?n = "uio_offset u div 512"
  have inv: "file_inv vn fs" and uok: "uio_ok u" and lim: "uio_offset u + uio_resid u \<le> max_filesize"
    using ok by (auto simp: io_ok_def)
  have n: "?n < max_fileblock" using lim len by (intro x_block) simp
  show ?thesis
  proof (cases "uio_rw u = UIO_WRITE")
    case True
    obtain r vn1 fs1 where bm: "sfs_bmap vn ?n True fs = Some (r, vn1, fs1)"
      and g: "grows (above (bmap_slot ?n)) vn fs vn1 fs1"
      and r: "r = Inl ENOSPC \<or> (\<exists>b. r = Inr b \<and> b = file_block vn1 fs1 ?n \<and> b \<noteq> 0)"
      using sfs_bmap_alloc [OF inv n] by (auto simp: file_block_def)
    note w1 = grows_wrote [OF inv g, of "uio_offset u"]
    from r show ?thesis
    proof (elim disjE exE conjE)
      assume "r = Inl ENOSPC"
      then have "sfs_partialio skip len (vn, u, fs) = Some (Inl ENOSPC, (vn1, u, fs1))"
        using True bm len by (simp add: sfs_partialio_def SFS_BLOCKSIZE_def)
      moreover have "io_done 0 (vn, u, fs) (vn1, u, fs1)"
        using True w1 uio_advance_0 uio_ok_bounds [OF uok] by (simp add: io_done_def)
      ultimately show ?thesis using io_result_full [of 0] len by simp
    next
      fix b
      assume b: "r = Inr b" "b = file_block vn1 fs1 ?n" "b \<noteq> 0"
      have inv1: "file_inv vn1 fs1" by (rule growsD(1) [OF g])
      have bu: "b < nblk fs1" using file_block_used [OF inv1 n] b fs_used_less by auto
      let ?fs2 = "fs_read b fs1"
      let ?new = "take skip (blk fs1 b) @ take len (uio_bytes u) @ drop (skip + len) (blk fs1 b)"
      have inv2: "file_inv vn1 ?fs2" by (rule file_inv_read [OF inv1])
      have l1: "length (blk fs1 b) = 512" using file_invD(1) [OF inv1] by simp
      have rd: "sfs_rblock (replicate 512 0) b fs1 = Some (Inr (), blk fs1 b, ?fs2)"
        using file_invD(1) [OF inv1] bu by (intro sfs_rblock_ok) simp_all
      have mv: "uiomove (drop skip (blk fs1 b)) len u =
          Some (Inr (), take len (uio_bytes u) @ drop len (drop skip (blk fs1 b)), uio_advance len u)"
        using uok True len l1 by (intro uiomove_writes) simp_all
      have "sfs_wblock ?new b ?fs2 = Some (Inr (), fs_write b ?new ?fs2)"
        using file_invD(1) [OF inv2] bu len l1 by (intro sfs_wblock_ok) simp_all
      then have run: "sfs_partialio skip len (vn, u, fs) = Some (Inr (), (vn1, uio_advance len u, fs_write b ?new ?fs2))"
        using True bm b(1,3) rd mv len by (simp add: sfs_partialio_def SFS_BLOCKSIZE_def add.commute)
      have fb2: "file_block vn1 ?fs2 ?n = b" using b(2) by (simp add: file_block_def)
      have tl: "length (take len (uio_bytes u)) = len" using len by simp
      have "wrote (uio_offset u) (take len (uio_bytes u)) vn1 ?fs2 vn1 (fs_write b ?new ?fs2)"
        by (rule data_write_wrote [OF inv2 n fb2 [symmetric] b(3)]) (use len tl in simp_all)
      moreover have "wrote (uio_offset u) [] vn fs vn1 ?fs2"
        using grows_wrote [OF inv grows_trans [OF g grows_read [OF inv1]]] .
      ultimately have "wrote (uio_offset u) (take len (uio_bytes u)) vn fs vn1 (fs_write b ?new ?fs2)"
        using wrote_append [of "uio_offset u" "[]"] by fastforce
      then show ?thesis
        unfolding run io_result_def using True len by (simp add: io_done_def)
    qed
  next
    case False
    then have rw: "uio_rw u = UIO_READ" by (cases "uio_rw u") auto
    obtain r vn1 fs1 where bm: "sfs_bmap vn ?n False fs = Some (r, vn1, fs1)"
      and g: "grows {} vn fs vn1 fs1" and r: "r = Inl ENOSPC \<or> r = Inr (file_block vn1 fs1 ?n)"
      using sfs_bmap_read [OF inv n] by (auto simp: file_block_def)
    note w1 = grows_wrote [OF inv g, of "uio_offset u"]
    from r show ?thesis
    proof
      assume "r = Inl ENOSPC"
      then have "sfs_partialio skip len (vn, u, fs) = Some (Inl ENOSPC, (vn1, u, fs1))"
        using rw bm len by (simp add: sfs_partialio_def SFS_BLOCKSIZE_def)
      moreover have "io_done 0 (vn, u, fs) (vn1, u, fs1)"
        using rw w1 uio_filled_Nil uio_ok_bounds [OF uok] by (simp add: io_done_def file_bytes_def)
      ultimately show ?thesis using io_result_full [of 0] len by simp
    next
      assume r: "r = Inr (file_block vn1 fs1 ?n)"
      have inv1: "file_inv vn1 fs1" by (rule growsD(1) [OF g])
      note fi1 = file_invD(1) [OF inv1]
      let ?img = "block_image vn1 fs1 ?n"
      obtain fs2 where fs2: "(if file_block vn1 fs1 ?n = 0 then Some (Inr (), replicate 512 0, fs1)
          else sfs_rblock (replicate 512 0) (file_block vn1 fs1 ?n) fs1) = Some (Inr (), ?img, fs2)"
        "grows {} vn1 fs1 vn1 fs2"
      proof (cases "file_block vn1 fs1 ?n = 0")
        case True
        then show ?thesis using that grows_refl [OF inv1] by (simp add: block_image_def)
      next
        case False
        then have "file_block vn1 fs1 ?n < nblk fs1" using file_block_used [OF inv1 n] fs_used_less by auto
        then show ?thesis
          using that False sfs_rblock_ok [OF fi1, of "replicate 512 0"] grows_read [OF inv1]
          by (simp add: block_image_def)
      qed
      have mv: "uiomove (drop skip ?img) len u =
          Some (Inr (), drop skip ?img, uio_filled (take len (drop skip ?img)) u)"
        using uok rw len fi1 by (intro uiomove_reads) simp_all
      have run: "sfs_partialio skip len (vn, u, fs) =
          Some (Inr (), (vn1, uio_filled (take len (drop skip ?img)) u, fs2))"
      proof (cases "file_block vn1 fs1 ?n = 0")
        case True
        then have img: "?img = replicate 512 0" and "fs2 = fs1" using fs2(1) by (auto simp: block_image_def)
        then show ?thesis
          using rw bm r True mv [unfolded img] img len by (simp add: sfs_partialio_def SFS_BLOCKSIZE_def)
      next
        case False
        then show ?thesis
          using rw bm r fs2(1) mv len by (simp add: sfs_partialio_def SFS_BLOCKSIZE_def)
      qed
      have "take len (drop skip ?img) = file_bytes vn fs (uio_offset u) len"
        using block_image_bytes [OF fi1, of "uio_offset u" len vn1] len lim file_bytes_wrote [OF w1] by simp
      moreover have "wrote (uio_offset u) [] vn fs vn1 fs2"
        using grows_wrote [OF inv grows_trans [OF g fs2(2)]] .
      ultimately show ?thesis
        unfolding run io_result_def using rw len by (simp add: io_done_def)
    qed
  qed
qed

lemma uio_sector:
  assumes "uio_ok u" and "512 \<le> uio_resid u"
  shows "sector_uio (u\<lparr>uio_offset := b * 512, uio_resid := 512\<rparr>) b"
  using assms by (auto simp: sector_uio_def uio_ok_def intro: readable_mono)

lemma sfs_blockio_result:
  assumes ok: "io_ok (vn, u, fs)" and al: "uio_offset u mod 512 = 0" and len: "512 \<le> uio_resid u"
  shows "io_result 512 (vn, u, fs) (sfs_blockio (vn, u, fs))"
proof -
  let ?n = "uio_offset u div 512"
  have inv: "file_inv vn fs" and uok: "uio_ok u" and lim: "uio_offset u + uio_resid u \<le> max_filesize"
    using ok by (auto simp: io_ok_def)
  note ub = uio_ok_bounds [OF uok]
  have n: "?n < max_fileblock" using lim len by (intro x_block) simp
  have sub: "sub32 512 512 = 0" "sub32 (uio_resid u) 512 = uio_resid u - 512" using ub len by simp_all
  show ?thesis
  proof (cases "uio_rw u = UIO_WRITE")
    case True
    obtain r vn1 fs1 where bm: "sfs_bmap vn ?n True fs = Some (r, vn1, fs1)"
      and g: "grows (above (bmap_slot ?n)) vn fs vn1 fs1"
      and r: "r = Inl ENOSPC \<or> (\<exists>b. r = Inr b \<and> b = file_block vn1 fs1 ?n \<and> b \<noteq> 0)"
      using sfs_bmap_alloc [OF inv n] by (auto simp: file_block_def)
    note w1 = grows_wrote [OF inv g, of "uio_offset u"]
    from r show ?thesis
    proof (elim disjE exE conjE)
      assume "r = Inl ENOSPC"
      then have "sfs_blockio (vn, u, fs) = Some (Inl ENOSPC, (vn1, u, fs1))"
        using True bm by (simp add: sfs_blockio_def SFS_BLOCKSIZE_def)
      moreover have "io_done 0 (vn, u, fs) (vn1, u, fs1)"
        using True w1 uio_advance_0 ub by (simp add: io_done_def)
      ultimately show ?thesis using io_result_full [of 0] by simp
    next
      fix b
      assume b: "r = Inr b" "b = file_block vn1 fs1 ?n" "b \<noteq> 0"
      have inv1: "file_inv vn1 fs1" by (rule growsD(1) [OF g])
      have bu: "b < nblk fs1" using file_block_used [OF inv1 n] b fs_used_less by auto
      let ?u = "u\<lparr>uio_offset := b * 512, uio_resid := 512\<rparr>"
      let ?data = "take 512 (uio_bytes u)"
      have ubs: "uio_bytes ?u = ?data" using len by (simp add: uio_bytes_def contents_def take_map)
      have "sfs_rwblock ?u fs1 = Some (Inr (), uio_advance 512 ?u, fs_write b ?data fs1)"
        using sfs_rwblock_write [OF file_invD(1) [OF inv1] uio_sector [OF uok len] _ bu] True ubs by simp
      then have run: "sfs_blockio (vn, u, fs) = Some (Inr (), (vn1, uio_advance 512 u, fs_write b ?data fs1))"
        using True bm b(1,3) len sub by (simp add: sfs_blockio_def SFS_BLOCKSIZE_def Let_def uio_advance_def)
      have l1: "length (blk fs1 b) = 512" using file_invD(1) [OF inv1] by simp
      have tl: "length ?data = 512" using len by simp
      have "wrote (uio_offset u) ?data vn1 fs1 vn1 (fs_write b ?data fs1)"
        by (rule data_write_wrote [OF inv1 n b(2,3)]) (use al tl l1 in simp_all)
      then have "wrote (uio_offset u) ?data vn fs vn1 (fs_write b ?data fs1)"
        using wrote_append [OF w1] by fastforce
      then show ?thesis unfolding run io_result_def using True len by (simp add: io_done_def)
    qed
  next
    case False
    then have rw: "uio_rw u = UIO_READ" by (cases "uio_rw u") auto
    obtain r vn1 fs1 where bm: "sfs_bmap vn ?n False fs = Some (r, vn1, fs1)"
      and g: "grows {} vn fs vn1 fs1" and r: "r = Inl ENOSPC \<or> r = Inr (file_block vn1 fs1 ?n)"
      using sfs_bmap_read [OF inv n] by (auto simp: file_block_def)
    note w1 = grows_wrote [OF inv g, of "uio_offset u"]
    have inv1: "file_inv vn1 fs1" by (rule growsD(1) [OF g])
    note fi1 = file_invD(1) [OF inv1]
    have img: "block_image vn1 fs1 ?n = file_bytes vn fs (uio_offset u) 512"
      using block_image_bytes [OF fi1, of "uio_offset u" 512 vn1] al fi1 len lim file_bytes_wrote [OF w1] by simp
    from r show ?thesis
    proof
      assume "r = Inl ENOSPC"
      then have "sfs_blockio (vn, u, fs) = Some (Inl ENOSPC, (vn1, u, fs1))"
        using rw bm by (simp add: sfs_blockio_def SFS_BLOCKSIZE_def)
      moreover have "io_done 0 (vn, u, fs) (vn1, u, fs1)"
        using rw w1 uio_filled_Nil ub by (simp add: io_done_def file_bytes_def)
      ultimately show ?thesis using io_result_full [of 0] by simp
    next
      assume r: "r = Inr (file_block vn1 fs1 ?n)"
      let ?b = "file_block vn1 fs1 ?n"
      have "\<exists>fs2. sfs_blockio (vn, u, fs) = Some (Inr (), (vn1, uio_filled (block_image vn1 fs1 ?n) u, fs2)) \<and>
        grows {} vn1 fs1 vn1 fs2"
      proof (cases "?b = 0")
        case True
        then show ?thesis
          using rw bm r uiomovezeros_spec [OF uok rw len] grows_refl [OF inv1]
          by (simp add: sfs_blockio_def SFS_BLOCKSIZE_def block_image_def)
      next
        case False
        let ?u = "u\<lparr>uio_offset := ?b * 512, uio_resid := 512\<rparr>"
        have bu: "?b < nblk fs1" using file_block_used [OF inv1 n] False fs_used_less by auto
        have l: "length (blk fs1 ?b) = 512" using fi1 by simp
        have "sfs_rwblock ?u fs1 = Some (Inr (), uio_filled (blk fs1 ?b) ?u, fs_read ?b fs1)"
          using sfs_rwblock_read [OF fi1 uio_sector [OF uok len] _ bu] rw by simp
        then have "sfs_blockio (vn, u, fs) = Some (Inr (), (vn1, uio_filled (blk fs1 ?b) u, fs_read ?b fs1))"
          using rw bm r False len sub l
          by (simp add: sfs_blockio_def SFS_BLOCKSIZE_def Let_def uio_filled_def uio_advance_def)
        then show ?thesis using False grows_read [OF inv1] by (simp add: block_image_def)
      qed
      then obtain fs2 where run: "sfs_blockio (vn, u, fs) = Some (Inr (), (vn1, uio_filled (block_image vn1 fs1 ?n) u, fs2))"
        and g2: "grows {} vn1 fs1 vn1 fs2" by blast
      have "wrote (uio_offset u) [] vn fs vn1 fs2" using grows_wrote [OF inv grows_trans [OF g g2]] .
      then show ?thesis unfolding run io_result_def img using rw len by (simp add: io_done_def)
    qed
  qed
qed

lemma sfs_io_blocks_result:
  assumes "io_ok (vn, u, fs)" and "uio_offset u mod 512 = 0" and "k * 512 \<le> uio_resid u"
  shows "io_result (k * 512) (vn, u, fs) (sfs_io_blocks k (vn, u, fs))"
  using assms
proof (induction k arbitrary: vn u fs)
  case 0
  then show ?case using io_result_0 by simp
next
  case (Suc k)
  have "io_result (512 + k * 512) (vn, u, fs) (ebind (sfs_blockio (vn, u, fs)) (\<lambda>_ st1. sfs_io_blocks k st1))"
  proof (rule io_result_seq [OF Suc.prems(1)])
    show "io_result 512 (vn, u, fs) (sfs_blockio (vn, u, fs))"
      using Suc.prems by (intro sfs_blockio_result) simp_all
    show "io_stop 512 (vn, u, fs) \<or> k * 512 = 0" using Suc.prems(2) by (simp add: io_stop_def)
    fix st1
    assume a: "io_ok st1" "io_done 512 (vn, u, fs) st1"
    obtain vn1 u1 fs1 where st1: "st1 = (vn1, u1, fs1)" by (metis prod_cases3)
    note sel = io_done_sel [OF Suc.prems(1) a(2) [unfolded st1]]
    show "io_result (k * 512) st1 (sfs_io_blocks k st1)"
      unfolding st1 using a(1) Suc.prems sel by (intro Suc.IH) (auto simp: st1)
  qed
  then show ?case by simp
qed

text \<open>The part of \<^verbatim>\<open>sfs_io\<close> after the leading partial block.\<close>

definition sfs_io_rest :: "io_state \<Rightarrow> (unit res \<times> io_state) option" where
  "sfs_io_rest = (\<lambda>(vn1, u1, fs1).
     if uio_resid u1 = 0 then Some (Inr (), (vn1, u1, fs1))
     else do {
       kassert (uio_offset u1 mod SFS_BLOCKSIZE = 0);
       ebind (sfs_io_blocks (uio_resid u1 div SFS_BLOCKSIZE) (vn1, u1, fs1))
         (\<lambda>_ (vn2, u2, fs2). do {
            kassert (uio_resid u2 < SFS_BLOCKSIZE);
            if uio_resid u2 > 0 then sfs_partialio 0 (uio_resid u2) (vn2, u2, fs2)
            else Some (Inr (), (vn2, u2, fs2))
          })
     })"

lemma sfs_io_body_eq: "sfs_io_body (vn, u, fs) =
   ebind (if uio_offset u mod 512 \<noteq> 0 then
            sfs_partialio (uio_offset u mod 512) (min (512 - uio_offset u mod 512) (uio_resid u)) (vn, u, fs)
          else Some (Inr (), (vn, u, fs))) (\<lambda>_. sfs_io_rest)"
  by (simp add: sfs_io_body_def sfs_io_rest_def SFS_BLOCKSIZE_def Let_def min_def)

lemma sfs_io_rest_result:
  assumes ok: "io_ok (vn, u, fs)" and al: "uio_resid u = 0 \<or> uio_offset u mod 512 = 0"
  shows "io_result (uio_resid u) (vn, u, fs) (sfs_io_rest (vn, u, fs))"
proof (cases "uio_resid u = 0")
  case True
  then show ?thesis using io_result_0 [OF ok] by (simp add: sfs_io_rest_def)
next
  case False
  let ?k = "uio_resid u div 512 * 512"
  let ?tail = "\<lambda>(vn2, u2, fs2). do {
            kassert (uio_resid u2 < SFS_BLOCKSIZE);
            if uio_resid u2 > 0 then sfs_partialio 0 (uio_resid u2) (vn2, u2, fs2)
            else Some (Inr (), (vn2, u2, fs2))
          }"
  have "io_result (?k + (uio_resid u - ?k)) (vn, u, fs)
    (ebind (sfs_io_blocks (uio_resid u div 512) (vn, u, fs)) (\<lambda>_. ?tail))"
  proof (rule io_result_seq [OF ok])
    show "io_result ?k (vn, u, fs) (sfs_io_blocks (uio_resid u div 512) (vn, u, fs))"
      using ok al False by (intro sfs_io_blocks_result) simp_all
    show "io_stop ?k (vn, u, fs) \<or> uio_resid u - ?k = 0" using al False by (simp add: io_stop_def)
    fix st1
    assume a: "io_ok st1" "io_done ?k (vn, u, fs) st1"
    obtain vn1 u1 fs1 where st1: "st1 = (vn1, u1, fs1)" by (metis prod_cases3)
    note sel = io_done_sel [OF ok a(2) [unfolded st1]]
    have r: "uio_resid u1 = uio_resid u mod 512" using sel(2) by (simp add: minus_div_mult_eq_mod)
    have o: "uio_offset u1 mod 512 = 0" using sel(1) al False by simp
    show "io_result (uio_resid u - ?k) st1 (?tail st1)"
    proof (cases "uio_resid u1 = 0")
      case True
      then show ?thesis using io_result_0 [OF a(1)] sel(2) by (simp add: st1 SFS_BLOCKSIZE_def)
    next
      case pos: False
      have "uio_resid u1 < 512" using r by simp
      then have "io_result (uio_resid u1) st1 (sfs_partialio 0 (uio_resid u1) (vn1, u1, fs1))"
        unfolding st1 using a(1) o pos by (intro sfs_partialio_result) (simp_all add: st1)
      then show ?thesis using pos sel(2) \<open>uio_resid u1 < 512\<close> by (simp add: st1 SFS_BLOCKSIZE_def)
    qed
  qed
  then show ?thesis using False al by (simp add: sfs_io_rest_def SFS_BLOCKSIZE_def)
qed

lemma next_block: "(x :: nat) + (512 - x mod 512) = (x div 512 + 1) * 512"
proof -
  have "q * 512 + r + (512 - r) = (q + 1) * 512" if "r < 512" for q r :: nat using that by simp
  from this [of "x mod 512" "x div 512"] show ?thesis by simp
qed

lemma sfs_io_body_result:
  assumes ok: "io_ok (vn, u, fs)" and pos: "0 < uio_resid u"
  shows "io_result (uio_resid u) (vn, u, fs) (sfs_io_body (vn, u, fs))"
proof (cases "uio_offset u mod 512 = 0")
  case True
  then show ?thesis using sfs_io_rest_result [OF ok] by (simp add: sfs_io_body_eq)
next
  case False
  let ?o = "uio_offset u mod 512"
  let ?k = "min (512 - ?o) (uio_resid u)"
  have o: "?o < 512" by simp
  have "io_result (?k + (uio_resid u - ?k)) (vn, u, fs) (ebind (sfs_partialio ?o ?k (vn, u, fs)) (\<lambda>_. sfs_io_rest))"
  proof (rule io_result_seq [OF ok])
    show "io_result ?k (vn, u, fs) (sfs_partialio ?o ?k (vn, u, fs))"
      using o pos by (intro sfs_partialio_result [OF ok]) auto
    have "(uio_offset u + (512 - ?o)) mod 512 = 0" by (simp only: next_block) simp
    then show "io_stop ?k (vn, u, fs) \<or> uio_resid u - ?k = 0"
      by (auto simp: io_stop_def min_def)
    fix st1
    assume a: "io_ok st1" "io_done ?k (vn, u, fs) st1"
    obtain vn1 u1 fs1 where st1: "st1 = (vn1, u1, fs1)" by (metis prod_cases3)
    note sel = io_done_sel [OF ok a(2) [unfolded st1]]
    have "uio_resid u1 = 0 \<or> uio_offset u1 mod 512 = 0"
    proof (cases "512 - ?o \<le> uio_resid u")
      case True
      then have "uio_offset u1 = uio_offset u + (512 - ?o)" using sel(1) by (simp add: min_def)
      then have "uio_offset u1 = (uio_offset u div 512 + 1) * 512" by (simp only: next_block)
      then show ?thesis by simp
    next
      case False
      then show ?thesis using sel(2) by (simp add: min_def)
    qed
    then show "io_result (uio_resid u - ?k) st1 (sfs_io_rest st1)"
      using sfs_io_rest_result [OF a(1) [unfolded st1]] sel(2) by (simp add: st1)
  qed
  then show ?thesis using False by (simp add: sfs_io_body_eq)
qed

section \<open>Reading and writing files\<close>

lemma file_byte_size: "file_byte (vn\<lparr>sv_i := (sv_i vn)\<lparr>sfi_size := n\<rparr>, sv_dirty := d\<rparr>) fs x = file_byte vn fs x"
  "own_blocks (vn\<lparr>sv_i := (sv_i vn)\<lparr>sfi_size := n\<rparr>, sv_dirty := d\<rparr>) fs = own_blocks vn fs"
proof -
  have "rootptr ((sv_i vn)\<lparr>sfi_size := n\<rparr>) r = rootptr (sv_i vn) r" for r by (cases r) simp_all
  then have p: "pv ((sv_i vn)\<lparr>sfi_size := n\<rparr>) fs r ns = pv (sv_i vn) fs r ns" for r ns
    by (induction ns) simp_all
  show "file_byte (vn\<lparr>sv_i := (sv_i vn)\<lparr>sfi_size := n\<rparr>, sv_dirty := d\<rparr>) fs x = file_byte vn fs x"
    "own_blocks (vn\<lparr>sv_i := (sv_i vn)\<lparr>sfi_size := n\<rparr>, sv_dirty := d\<rparr>) fs = own_blocks vn fs"
    by (simp_all add: file_byte_def file_block_def own_blocks_def p)
qed

lemma file_inv_size:
  assumes "file_inv vn fs" and "n < 2 ^ 32"
  shows "file_inv (vn\<lparr>sv_i := (sv_i vn)\<lparr>sfi_size := n\<rparr>, sv_dirty := d\<rparr>) fs"
proof -
  have "rootptr ((sv_i vn)\<lparr>sfi_size := n\<rparr>) r = rootptr (sv_i vn) r" for r by (cases r) simp_all
  then have p: "pv ((sv_i vn)\<lparr>sfi_size := n\<rparr>) fs r ns = pv (sv_i vn) fs r ns" for r ns
    by (induction ns) simp_all
  then show ?thesis using assms unfolding file_inv_def by (simp add: inode_ok_def)
qed

lemma sfs_io_write:
  assumes ok: "io_ok (vn, u, fs)" and pos: "0 < uio_resid u" and rw: "uio_rw u = UIO_WRITE"
  shows "\<exists>r k vn' fs'. sfs_io (vn, u, fs) = Some (r, (vn', uio_advance k u, fs')) \<and>
    (r = Inr () \<and> k = uio_resid u \<or> r = Inl ENOSPC \<and> k < uio_resid u \<and> io_stop k (vn, u, fs)) \<and>
    file_inv vn' fs' \<and> sfi_type (sv_i vn') = sfi_type (sv_i vn) \<and> sfi_size (sv_i vn') = max (sfi_size (sv_i vn)) (uio_offset u + k) \<and>
    (\<forall>x < max_filesize. file_byte vn' fs' x =
       (if uio_offset u \<le> x \<and> x < uio_offset u + k then uio_bytes u ! (x - uio_offset u) else file_byte vn fs x)) \<and>
    fs_used fs \<subseteq> fs_used fs' \<and> own_blocks vn' fs' \<inter> fs_used fs \<subseteq> own_blocks vn fs \<and>
    (\<forall>c \<in> fs_used fs. c \<notin> own_blocks vn fs \<longrightarrow> blk fs' c = blk fs c)"
proof -
  have rd: "uio_rw u \<noteq> UIO_READ" using rw by simp
  from sfs_io_body_result [OF ok pos] obtain r k vn1 u1 fs1 where
    body: "sfs_io_body (vn, u, fs) = Some (r, (vn1, u1, fs1))" and d: "io_done k (vn, u, fs) (vn1, u1, fs1)"
    and r: "r = Inr () \<and> k = uio_resid u \<or> r = Inl ENOSPC \<and> k < uio_resid u \<and> io_stop k (vn, u, fs)"
    unfolding io_result_def by (metis prod_cases3)
  have w: "wrote (uio_offset u) (take k (uio_bytes u)) vn fs vn1 fs1" and u1: "u1 = uio_advance k u"
    using d rw by (auto simp: io_done_def)
  note sel = io_done_sel [OF ok d] and wd = wroteD [OF w]
  have lim: "uio_offset u1 < 2 ^ 32"
    using ok sel by (simp add: io_ok_def max_filesize_def max_fileblock_def)
  have sz: "sfi_size (sv_i vn1) = sfi_size (sv_i vn)" using wd(2) by (simp add: same_file_def)
  define vn2 where "vn2 = (if uio_offset u1 > sfi_size (sv_i vn1)
    then vn1\<lparr>sv_i := (sv_i vn1)\<lparr>sfi_size := uio_offset u1\<rparr>, sv_dirty := True\<rparr> else vn1)"
  have run: "sfs_io (vn, u, fs) = Some (r, (vn2, u1, fs1))"
    using rd rw body sel(3) lim by (simp add: sfs_io_def sfs_io_out_def vn2_def Let_def)
  have "file_inv vn2 fs1" using wd(1) file_inv_size [OF wd(1) lim] by (simp add: vn2_def)
  moreover have "sfi_size (sv_i vn2) = max (sfi_size (sv_i vn)) (uio_offset u + k)"
    using sel(1) sz by (auto simp: vn2_def)
  moreover have "sfi_type (sv_i vn2) = sfi_type (sv_i vn)"
    using wd(2) by (simp add: vn2_def same_file_def)
  moreover have "file_byte vn2 fs1 x = file_byte vn1 fs1 x" "own_blocks vn2 fs1 = own_blocks vn1 fs1" for x
    by (simp_all add: vn2_def file_byte_size)
  ultimately show ?thesis
    using run r u1 wd(4-7) sel(4) by (intro exI [of _ r] exI [of _ k] exI [of _ vn2] exI [of _ fs1]) auto
qed

lemma sfs_io_read:
  assumes ok: "io_ok (vn, u, fs)" and rw: "uio_rw u = UIO_READ" and pos: "0 < uio_resid u"
  shows "\<exists>r k vn' u' fs'. sfs_io (vn, u, fs) = Some (r, (vn', u', fs')) \<and> k \<le> uio_resid u \<and>
    (r = Inr () \<and> k = min (uio_resid u) (sfi_size (sv_i vn) - uio_offset u) \<or> r = Inl ENOSPC) \<and>
    uio_offset u' = uio_offset u + k \<and> uio_resid u' = uio_resid u - k \<and>
    contents (uio_mem u') (iov_base u) k = file_bytes vn fs (uio_offset u) k \<and>
    wrote 0 [] vn fs vn' fs'"
proof (cases "sfi_size (sv_i vn) \<le> uio_offset u")
  case True
  then have "sfs_io (vn, u, fs) = Some (Inr (), (vn, u, fs))" using rw by (simp add: sfs_io_def)
  then show ?thesis
    using True wrote_refl ok by (intro exI [of _ "Inr ()"] exI [of _ 0] exI [of _ vn] exI [of _ u] exI [of _ fs])
      (simp add: io_ok_def file_bytes_def)
next
  case False
  define e where "e = (if uio_offset u + uio_resid u > sfi_size (sv_i vn)
    then uio_offset u + uio_resid u - sfi_size (sv_i vn) else 0)"
  define v where "v = u\<lparr>uio_resid := uio_resid u - e\<rparr>"
  have e: "e < uio_resid u" "uio_resid u - e = min (uio_resid u) (sfi_size (sv_i vn) - uio_offset u)"
    using False pos by (auto simp: e_def)
  have vok: "io_ok (vn, v, fs)"
    using ok e(1) by (auto simp: io_ok_def v_def uio_ok_def intro: readable_mono)
  have vpos: "0 < uio_resid v" using e by (simp add: v_def)
  from sfs_io_body_result [OF vok vpos] obtain r k vn1 u1 fs1 where
    body: "sfs_io_body (vn, v, fs) = Some (r, (vn1, u1, fs1))" and d: "io_done k (vn, v, fs) (vn1, u1, fs1)"
    and r: "r = Inr () \<and> k = uio_resid v \<or> r = Inl ENOSPC \<and> k < uio_resid v"
    unfolding io_result_def by (metis prod_cases3)
  have w: "wrote (uio_offset u) [] vn fs vn1 fs1" and u1: "u1 = uio_filled (file_bytes vn fs (uio_offset u) k) v"
    using d rw by (auto simp: io_done_def v_def)
  note sel = io_done_sel [OF vok d]
  have rw1: "uio_rw u1 = UIO_READ" using sel(3) rw by (simp add: v_def)
  have run: "sfs_io (vn, u, fs) = Some (r, (vn1, u1\<lparr>uio_resid := uio_resid u1 + e\<rparr>, fs1))"
    using rw False body e(1) rw1 unfolding sfs_io_def
    by (simp add: e_def [symmetric] v_def [symmetric] sfs_io_out_def Let_def)
  have "uio_ok v" using vok by (simp add: io_ok_def)
  from uio_filled_contents [OF this, of "file_bytes vn fs (uio_offset u) k"]
  have "contents (uio_mem u1) (iov_base u) k = file_bytes vn fs (uio_offset u) k"
    using sel(4) by (simp add: u1 v_def)
  moreover have "uio_resid u1 + e = uio_resid u - k" "k \<le> uio_resid u" "uio_offset u1 = uio_offset u + k"
    using sel e(1) by (simp_all add: v_def)
  moreover have "r = Inr () \<and> k = min (uio_resid u) (sfi_size (sv_i vn) - uio_offset u) \<or> r = Inl ENOSPC"
    using r e(2) by (auto simp: v_def)
  ultimately show ?thesis
    using run w by (intro exI [of _ r] exI [of _ k] exI [of _ vn1] exI [of _ "u1\<lparr>uio_resid := uio_resid u1 + e\<rparr>"] exI [of _ fs1])
      (auto intro: wrote_Nil_offset)
qed

section \<open>Properties\<close>


definition demo_write_uio :: uio where
  "demo_write_uio = mk_kuio (mem_of [1, 2, 3]) 0 3 600 UIO_WRITE"

lemma demo_write_ok: "uio_ok demo_write_uio" "uio_rw demo_write_uio = UIO_WRITE"
  "uio_offset demo_write_uio = 600" "uio_resid demo_write_uio = 3"
  by (simp_all add: demo_write_uio_def uio_ok_kuio USERTOP_def)



definition demo_read_uio :: uio where
  "demo_read_uio = mk_kuio (mem_of [1, 2, 3]) 0 3 600 UIO_READ"

lemma demo_read_ok: "uio_ok demo_read_uio" "uio_rw demo_read_uio = UIO_READ"
  "uio_offset demo_read_uio = 600" "uio_resid demo_read_uio = 3" "iov_base demo_read_uio = 0"
  by (simp_all add: demo_read_uio_def uio_ok_kuio USERTOP_def)


text \<open>
  Together: what a successful write put into a file is what the next successful read of the same range gets.
\<close>

lemma sfs_write_read_roundtrip:
  assumes "file_inv vn fs"
    and "uio_ok w" and "uio_rw w = UIO_WRITE" and "0 < uio_resid w" and "uio_offset w + uio_resid w \<le> max_filesize"
    and "uio_ok u" and "uio_rw u = UIO_READ" and "uio_offset u = uio_offset w" and "uio_resid u = uio_resid w"
    and "sfs_io (vn, w, fs) = Some (Inr (), (vn1, w1, fs1))"
    and "sfs_io (vn1, u, fs1) = Some (Inr (), (vn2, u2, fs2))"
  shows "uio_resid u2 = 0 \<and> contents (uio_mem u2) (iov_base u) (uio_resid u) = uio_bytes w"
proof -
  let ?off = "uio_offset w" and ?n = "uio_resid w"
  have wok: "io_ok (vn, w, fs)" using assms by (simp add: io_ok_def)
  from sfs_io_write [OF wok assms(4,3)] assms(10) have
    inv1: "file_inv vn1 fs1" and sz: "sfi_size (sv_i vn1) = max (sfi_size (sv_i vn)) (?off + ?n)" and
    by1: "\<forall>x < max_filesize. file_byte vn1 fs1 x =
       (if ?off \<le> x \<and> x < ?off + ?n then uio_bytes w ! (x - ?off) else file_byte vn fs x)"
    by auto
  have rok: "io_ok (vn1, u, fs1)" using assms inv1 by (simp add: io_ok_def)
  have "0 < uio_resid u" using assms by simp
  from sfs_io_read [OF rok assms(7) this] assms(11) have
    r: "uio_resid u2 = ?n - ?n" "contents (uio_mem u2) (iov_base u) ?n = file_bytes vn1 fs1 ?off ?n"
    using sz assms(8,9) by (auto simp: max_def split: if_splits)
  have "file_bytes vn1 fs1 ?off ?n = uio_bytes w"
    using by1 assms(5) by (intro nth_equalityI) (auto simp: file_bytes_def)
  then show ?thesis using r assms(9) by simp
qed

end
