(* ===== verification/Sfs_dir.thy ===== *)
theory Sfs_dir
  imports Sfs_file
begin

text \<open>
  Directories of \<^verbatim>\<open>assignment3/ownSolution/sfs_vnode.c\<close>: a file of 64-byte entries. A C string is
  the list of its bytes without the terminator.
\<close>

section \<open>The code\<close>

type_synonym dir_state = "sfs_vnode \<times> sfs_fs"

definition sfs_readdir :: "nat \<Rightarrow> dir_state \<Rightarrow> (sfs_dir res \<times> dir_state) option" where
  "sfs_readdir slot = (\<lambda>(vn, fs). do {
     let actualpos = slot * 64;
     (r, (vn1, ku, fs1)) \<leftarrow> sfs_io (vn, mk_kuio (mem_of (replicate 64 0)) 0 64 actualpos UIO_READ, fs);
     (case r of
        Inl e \<Rightarrow> Some (Inl e, (vn1, fs1))
      | Inr _ \<Rightarrow> do {
          kassert (\<not> uio_resid ku > 0);
          Some (Inr (dec_dir (contents (uio_mem ku) 0 64)), (vn1, fs1))
        })
   })"

definition sfs_writedir :: "sfs_dir \<Rightarrow> nat \<Rightarrow> dir_state \<Rightarrow> (unit res \<times> dir_state) option" where
  "sfs_writedir sd slot = (\<lambda>(vn, fs). do {
     let actualpos = slot * 64;
     (r, (vn1, ku, fs1)) \<leftarrow> sfs_io (vn, mk_kuio (mem_of (enc_dir sd)) 0 64 actualpos UIO_WRITE, fs);
     (case r of
        Inl e \<Rightarrow> Some (Inl e, (vn1, fs1))
      | Inr _ \<Rightarrow> do {
          kassert (\<not> uio_resid ku > 0);
          Some (Inr (), (vn1, fs1))
        })
   })"

definition sfs_dir_nentries :: "sfs_vnode \<Rightarrow> nat option" where
  "sfs_dir_nentries vn = do {
     kassert (sfi_type (sv_i vn) = SFS_TYPE_DIR);
     kassert (sfi_size (sv_i vn) mod 64 = 0);
     Some (sfi_size (sv_i vn) div 64)
   }"

text \<open>The name in an entry, with the last byte forced to be a terminator.\<close>

definition ename :: "sfs_dir \<Rightarrow> byte list" where
  "ename sd = takeWhile (\<lambda>c. c \<noteq> 0) ((sfd_name sd)[59 := 0])"

text \<open>
  The loop of \<^verbatim>\<open>sfs_dir_findname\<close> from slot \<open>i\<close>, \<open>k\<close> slots left; what was found and the last empty slot
  seen are handed on.
\<close>

fun sfs_findname_from :: "byte list \<Rightarrow> nat \<Rightarrow> nat \<Rightarrow> (nat \<times> nat) option \<Rightarrow> nat option \<Rightarrow> dir_state \<Rightarrow>
    (((nat \<times> nat) option \<times> nat option) res \<times> dir_state) option" where
  "sfs_findname_from name i 0 hit emptyslot st = Some (Inr (hit, emptyslot), st)"
| "sfs_findname_from name i (Suc k) hit emptyslot st =
     ebind (sfs_readdir i st) (\<lambda>tsd st1.
       if sfd_ino tsd = SFS_NOINO then sfs_findname_from name (i + 1) k hit (Some i) st1
       else if ename tsd = name then do {
         kassert (hit = None);
         sfs_findname_from name (i + 1) k (Some (sfd_ino tsd, i)) emptyslot st1
       }
       else sfs_findname_from name (i + 1) k hit emptyslot st1)"

text \<open>
  \<^verbatim>\<open>sfs_dir_findname\<close>: the inode number and slot, or \<open>None\<close> for \<^verbatim>\<open>ENOENT\<close>, with the empty slot.
\<close>

definition sfs_dir_findname :: "byte list \<Rightarrow> dir_state \<Rightarrow>
    (((nat \<times> nat) option \<times> nat option) res \<times> dir_state) option" where
  "sfs_dir_findname name st = do {
     nentries \<leftarrow> sfs_dir_nentries (fst st);
     sfs_findname_from name 0 nentries None None st
   }"

text \<open>A name as \<^verbatim>\<open>strcpy\<close> puts it into a cleared entry.\<close>

definition pad_name :: "byte list \<Rightarrow> byte list" where
  "pad_name name = name @ replicate (60 - length name) 0"

definition sfs_dir_link :: "byte list \<Rightarrow> nat \<Rightarrow> dir_state \<Rightarrow> (nat res \<times> dir_state) option" where
  "sfs_dir_link name ino st =
     ebind (sfs_dir_findname name st) (\<lambda>(hit, emptyslot) st1.
       if hit \<noteq> None then Some (Inl EEXIST, st1)
       else if length name + 1 > SFS_NAMELEN then Some (Inl ENAMETOOLONG, st1)
       else do {
         slot \<leftarrow> (case emptyslot of Some e \<Rightarrow> Some e | None \<Rightarrow> sfs_dir_nentries (fst st1));
         ebind (sfs_writedir \<lparr>sfd_ino = ino, sfd_name = pad_name name\<rparr> slot st1) (\<lambda>_ st2.
           Some (Inr slot, st2))
       })"

definition sfs_dir_unlink :: "nat \<Rightarrow> dir_state \<Rightarrow> (unit res \<times> dir_state) option" where
  "sfs_dir_unlink slot st = sfs_writedir \<lparr>sfd_ino = SFS_NOINO, sfd_name = replicate 60 0\<rparr> slot st"

section \<open>What a directory stands for\<close>

definition dir_entry :: "sfs_vnode \<Rightarrow> sfs_fs \<Rightarrow> nat \<Rightarrow> sfs_dir" where
  "dir_entry vn fs i = dec_dir (file_bytes vn fs (i * 64) 64)"

definition dir_entries :: "sfs_vnode \<Rightarrow> sfs_fs \<Rightarrow> sfs_dir list" where
  "dir_entries vn fs = map (dir_entry vn fs) [0 ..< sfi_size (sv_i vn) div 64]"

definition live :: "sfs_dir \<Rightarrow> bool" where
  "live e \<longleftrightarrow> sfd_ino e \<noteq> SFS_NOINO"

text \<open>No name occurs in two live entries.\<close>

definition names_unique :: "sfs_dir list \<Rightarrow> bool" where
  "names_unique es \<longleftrightarrow> (\<forall>i < length es. \<forall>j < length es.
     live (es ! i) \<longrightarrow> live (es ! j) \<longrightarrow> ename (es ! i) = ename (es ! j) \<longrightarrow> i = j)"

text \<open>The directory as a map from names to inode numbers.\<close>

fun dir_map :: "sfs_dir list \<Rightarrow> byte list \<Rightarrow> nat option" where
  "dir_map [] name = None"
| "dir_map (e # es) name = (if live e \<and> ename e = name then Some (sfd_ino e) else dir_map es name)"

text \<open>A sound directory: a sound file of whole entries in which no live name occurs twice.\<close>

definition dir_base :: "sfs_vnode \<Rightarrow> sfs_fs \<Rightarrow> bool" where
  "dir_base vn fs \<longleftrightarrow> file_inv vn fs \<and> sfi_type (sv_i vn) = SFS_TYPE_DIR \<and> sfi_size (sv_i vn) mod 64 = 0 \<and>
     sfi_size (sv_i vn) \<le> max_filesize"

definition dir_inv :: "sfs_vnode \<Rightarrow> sfs_fs \<Rightarrow> bool" where
  "dir_inv vn fs \<longleftrightarrow> dir_base vn fs \<and> names_unique (dir_entries vn fs)"

text \<open>Nothing outside the file has changed.\<close>

definition file_frame :: "sfs_vnode \<Rightarrow> sfs_fs \<Rightarrow> sfs_vnode \<Rightarrow> sfs_fs \<Rightarrow> bool" where
  "file_frame vn fs vn' fs' \<longleftrightarrow> fs_used fs \<subseteq> fs_used fs' \<and> own_blocks vn' fs' \<inter> fs_used fs \<subseteq> own_blocks vn fs \<and>
     (\<forall>c \<in> fs_used fs. c \<notin> own_blocks vn fs \<longrightarrow> blk fs' c = blk fs c)"

lemma file_frame_refl: "file_frame vn fs vn fs"
  by (auto simp: file_frame_def)

lemma file_frame_trans:
  assumes "file_frame vn fs vn1 fs1" and "file_frame vn1 fs1 vn2 fs2"
  shows "file_frame vn fs vn2 fs2"
proof -
  have "blk fs2 c = blk fs c" if "c \<in> fs_used fs" "c \<notin> own_blocks vn fs" for c
  proof -
    have "c \<notin> own_blocks vn1 fs1" "c \<in> fs_used fs1" using assms(1) that by (auto simp: file_frame_def)
    then show ?thesis using assms that by (simp add: file_frame_def)
  qed
  then show ?thesis using assms by (auto simp: file_frame_def)
qed

lemma wrote_frame: "wrote off bs vn fs vn' fs' \<Longrightarrow> file_frame vn fs vn' fs'"
  unfolding wrote_def file_frame_def by blast

section \<open>Entries\<close>

lemma length_dir_entries [simp]: "length (dir_entries vn fs) = sfi_size (sv_i vn) div 64"
  by (simp add: dir_entries_def)

lemma dir_entries_nth [simp]: "i < sfi_size (sv_i vn) div 64 \<Longrightarrow> dir_entries vn fs ! i = dir_entry vn fs i"
  by (simp add: dir_entries_def)

lemma entry_range: "(i :: nat) < n div 64 \<Longrightarrow> i * 64 + 64 \<le> n"
proof -
  assume "i < n div 64"
  then have "(i + 1) * 64 \<le> n div 64 * 64" by (intro mult_le_mono1) simp
  then show ?thesis using div_times_less_eq_dividend [of n 64] by simp
qed

text \<open>Reading leaves the entries as they are.\<close>

lemma wrote_Nil_dir:
  assumes "dir_base vn fs" and "wrote off [] vn fs vn' fs'"
  shows "dir_base vn' fs'" and "dir_entries vn' fs' = dir_entries vn fs"
proof -
  have sz: "sfi_size (sv_i vn') = sfi_size (sv_i vn)" "sfi_type (sv_i vn') = sfi_type (sv_i vn)"
    using wroteD(2) [OF assms(2)] by (auto simp: same_file_def)
  then show "dir_base vn' fs'" using assms wroteD(1) [OF assms(2)] by (simp add: dir_base_def)
  have "dir_entry vn' fs' i = dir_entry vn fs i" if "i < sfi_size (sv_i vn) div 64" for i
    using file_bytes_wrote [OF assms(2)] entry_range [OF that] assms(1)
    by (simp add: dir_entry_def dir_base_def)
  then show "dir_entries vn' fs' = dir_entries vn fs"
    by (intro nth_equalityI) (simp_all add: sz)
qed

lemma dir_uio_ok: "length bs = 64 \<Longrightarrow> uio_ok (mk_kuio (mem_of bs) 0 64 pos rw)"
  by (intro uio_ok_kuio) (simp_all add: USERTOP_def)

lemma sfs_readdir_spec:
  assumes "dir_base vn fs" and "i < sfi_size (sv_i vn) div 64"
  shows "\<exists>r vn' fs'. sfs_readdir i (vn, fs) = Some (r, (vn', fs')) \<and>
    (r = Inr (dir_entry vn fs i) \<or> r = Inl ENOSPC) \<and> wrote 0 [] vn fs vn' fs'"
proof -
  let ?u = "mk_kuio (mem_of (replicate 64 0)) 0 64 (i * 64) UIO_READ"
  have e: "i * 64 + 64 \<le> sfi_size (sv_i vn)" using entry_range [OF assms(2)] .
  have ok: "io_ok (vn, ?u, fs)"
    using assms(1) e dir_uio_ok by (simp add: io_ok_def dir_base_def)
  have pos: "uio_rw ?u = UIO_READ" "0 < uio_resid ?u" by simp_all
  obtain r k vn' u' fs' where run: "sfs_io (vn, ?u, fs) = Some (r, (vn', u', fs'))" "k \<le> 64"
    "r = Inr () \<and> k = min 64 (sfi_size (sv_i vn) - i * 64) \<or> r = Inl ENOSPC"
    "uio_resid u' = 64 - k" "contents (uio_mem u') 0 k = file_bytes vn fs (i * 64) k" "wrote 0 [] vn fs vn' fs'"
    using sfs_io_read [OF ok pos] unfolding mk_kuio_sel by (elim exE conjE) (rule that)
  from run(3) show ?thesis
  proof
    assume r: "r = Inr () \<and> k = min 64 (sfi_size (sv_i vn) - i * 64)"
    then have "k = 64" using e by simp
    then have "sfs_readdir i (vn, fs) = Some (Inr (dir_entry vn fs i), (vn', fs'))"
      using run r by (simp add: sfs_readdir_def Let_def dir_entry_def)
    then show ?thesis using run(6) by blast
  next
    assume "r = Inl ENOSPC"
    then have "sfs_readdir i (vn, fs) = Some (Inl ENOSPC, (vn', fs'))"
      using run by (simp add: sfs_readdir_def Let_def)
    then show ?thesis using run(6) by blast
  qed
qed

text \<open>Writing an entry: the list of entries with that one replaced or added, or a full disk.\<close>

definition put_entry :: "sfs_dir list \<Rightarrow> nat \<Rightarrow> sfs_dir \<Rightarrow> sfs_dir list" where
  "put_entry es i e = (if i < length es then es[i := e] else es @ [e])"

lemma entry_stop: "j < 64 \<Longrightarrow> (i * 64 + j) mod 512 = 0 \<Longrightarrow> j = (0 :: nat)"
proof -
  assume j: "j < 64" and "(i * 64 + j) mod 512 = 0"
  then have "(i * 64 + j) mod 512 mod 64 = 0" by simp
  then have "(i * 64 + j) mod 64 = 0" by (simp add: mod_mod_cancel)
  then show "j = 0" using j by simp
qed

lemma file_bytes_eqI:
  "(\<And>x. off \<le> x \<Longrightarrow> x < off + n \<Longrightarrow> file_byte vn fs x = bs ! (x - off)) \<Longrightarrow> length bs = n \<Longrightarrow> file_bytes vn fs off n = bs"
  by (rule nth_equalityI) (auto simp: file_bytes_def)

lemma sfs_writedir_spec:
  assumes base: "dir_base vn fs" and sd: "dir_ok sd"
    and i: "i \<le> sfi_size (sv_i vn) div 64" "i * 64 + 64 \<le> max_filesize"
  shows "\<exists>r vn' fs'. sfs_writedir sd i (vn, fs) = Some (r, (vn', fs')) \<and> dir_base vn' fs' \<and> file_frame vn fs vn' fs' \<and>
    (r = Inr () \<and> dir_entries vn' fs' = put_entry (dir_entries vn fs) i sd \<or>
     r = Inl ENOSPC \<and> dir_entries vn' fs' = dir_entries vn fs)"
proof -
  let ?u = "mk_kuio (mem_of (enc_dir sd)) 0 64 (i * 64) UIO_WRITE"
  define n where "n = sfi_size (sv_i vn) div 64"
  have sz: "sfi_size (sv_i vn) = n * 64" using base by (auto simp: dir_base_def n_def)
  note len = length_enc_dir [OF sd]
  have ok: "io_ok (vn, ?u, fs)" using base i dir_uio_ok [OF len] by (simp add: io_ok_def dir_base_def)
  have ub: "uio_bytes ?u = enc_dir sd" using len by (simp add: uio_bytes_def)
  have pos: "0 < uio_resid ?u" "uio_rw ?u = UIO_WRITE" by simp_all
  obtain r k vn' fs' where run: "sfs_io (vn, ?u, fs) = Some (r, (vn', uio_advance k ?u, fs'))"
    and r: "r = Inr () \<and> k = 64 \<or> r = Inl ENOSPC \<and> k < 64 \<and> io_stop k (vn, ?u, fs)"
    and inv: "file_inv vn' fs'" "sfi_type (sv_i vn') = sfi_type (sv_i vn)"
    and size: "sfi_size (sv_i vn') = max (n * 64) (i * 64 + k)"
    and byte: "\<forall>x < max_filesize. file_byte vn' fs' x =
       (if i * 64 \<le> x \<and> x < i * 64 + k then enc_dir sd ! (x - i * 64) else file_byte vn fs x)"
    and frame: "file_frame vn fs vn' fs'"
    using sfs_io_write [OF ok pos] unfolding file_frame_def ub by (auto simp: sz)
  have lim: "n * 64 \<le> max_filesize" using base by (simp add: dir_base_def sz)
  have other: "dir_entry vn' fs' j = dir_entry vn fs j" if "j < n" "j \<noteq> i \<or> k = 0" "k \<le> 64" for j
  proof -
    have j: "j * 64 + 64 \<le> n * 64" using entry_range [of j "n * 64"] that(1) by simp
    have "file_byte vn' fs' x = file_byte vn fs x" if x: "j * 64 \<le> x" "x < j * 64 + 64" for x
    proof -
      have "\<not> (i * 64 \<le> x \<and> x < i * 64 + k)"
        using x \<open>j \<noteq> i \<or> k = 0\<close> \<open>k \<le> 64\<close> by (cases "j < i"; cases "i < j") auto
      then show ?thesis using byte x j lim by auto
    qed
    then have "map (file_byte vn' fs') [j * 64..<j * 64 + 64] = map (file_byte vn fs) [j * 64..<j * 64 + 64]"
      by (intro map_cong) auto
    then show ?thesis by (simp only: dir_entry_def file_bytes_def)
  qed
  have i': "i \<le> n" using i by (simp add: n_def)
  from r show ?thesis
  proof
    assume r: "r = Inr () \<and> k = 64"
    have "file_bytes vn' fs' (i * 64) 64 = enc_dir sd"
      using byte r i(2) len by (intro file_bytes_eqI) auto
    then have new: "dir_entry vn' fs' i = sd" by (simp add: dir_entry_def dec_dir_enc_dir [OF sd])
    have size': "sfi_size (sv_i vn') = (if i < n then n else n + 1) * 64" using size r i' by (auto simp: max_def)
    have "dir_entries vn' fs' = put_entry (dir_entries vn fs) i sd"
      by (rule nth_equalityI) (use i' other r new in \<open>auto simp: size' sz put_entry_def nth_list_update nth_append less_Suc_eq\<close>)
    moreover have "dir_base vn' fs'"
      using inv base size' i(2) lim i' by (auto simp: dir_base_def)
    moreover have "sfs_writedir sd i (vn, fs) = Some (Inr (), (vn', fs'))"
      using run r by (simp add: sfs_writedir_def Let_def uio_advance_def)
    ultimately show ?thesis using frame by blast
  next
    assume r: "r = Inl ENOSPC \<and> k < 64 \<and> io_stop k (vn, ?u, fs)"
    then have k: "k = 0" using entry_stop [of k i] by (auto simp: io_stop_def mod_eq_0_iff_dvd)
    have size': "sfi_size (sv_i vn') = n * 64" using size k i' by (simp add: max_def)
    have "dir_entries vn' fs' = dir_entries vn fs"
      by (rule nth_equalityI) (use other k in \<open>auto simp: size' sz\<close>)
    moreover have "dir_base vn' fs'" using inv base size' lim by (simp add: dir_base_def)
    moreover have "sfs_writedir sd i (vn, fs) = Some (Inl ENOSPC, (vn', fs'))"
      using run r by (simp add: sfs_writedir_def Let_def)
    ultimately show ?thesis using frame by blast
  qed
qed

section \<open>The directory as a map\<close>

lemma dir_map_None: "dir_map es name = None \<longleftrightarrow> (\<forall>e \<in> set es. live e \<longrightarrow> ename e \<noteq> name)"
  by (induction es) auto

lemma dir_map_SomeI:
  assumes "names_unique es" and "i < length es" and "live (es ! i)" and "ename (es ! i) = name"
  shows "dir_map es name = Some (sfd_ino (es ! i))"
  using assms
proof (induction es arbitrary: i)
  case (Cons e es)
  have u: "names_unique es" using Cons.prems(1) unfolding names_unique_def by fastforce
  show ?case
  proof (cases i)
    case (Suc j)
    then have "\<not> (live e \<and> ename e = name)"
      using Cons.prems unfolding names_unique_def by (metis Suc_not_Zero length_greater_0_conv list.discI nth_Cons_0)
    then show ?thesis using Cons.IH [OF u, of j] Cons.prems Suc by auto
  qed (use Cons.prems in simp)
qed simp

lemma dir_map_SomeE:
  assumes "dir_map es name = Some ino"
  shows "\<exists>i < length es. live (es ! i) \<and> ename (es ! i) = name \<and> sfd_ino (es ! i) = ino"
  using assms
proof (induction es)
  case (Cons e es)
  show ?case
  proof (cases "live e \<and> ename e = name")
    case True
    then show ?thesis using Cons.prems by (intro exI [of _ 0]) simp
  next
    case False
    then obtain i where "i < length es" "live (es ! i)" "ename (es ! i) = name" "sfd_ino (es ! i) = ino"
      using Cons by auto
    then show ?thesis by (intro exI [of _ "Suc i"]) simp
  qed
qed simp

lemma names_uniqueD:
  "names_unique es \<Longrightarrow> i < length es \<Longrightarrow> j < length es \<Longrightarrow> live (es ! i) \<Longrightarrow> live (es ! j) \<Longrightarrow>
   ename (es ! i) = ename (es ! j) \<Longrightarrow> i = j"
  unfolding names_unique_def by blast

text \<open>What a search over the first \<open>n\<close> slots hands back.\<close>

definition found_at :: "byte list \<Rightarrow> sfs_dir list \<Rightarrow> nat \<Rightarrow> (nat \<times> nat) option \<Rightarrow> bool" where
  "found_at name es n hit \<longleftrightarrow>
     (case hit of None \<Rightarrow> \<forall>i < n. live (es ! i) \<longrightarrow> ename (es ! i) \<noteq> name
      | Some (ino, i) \<Rightarrow> i < n \<and> live (es ! i) \<and> ename (es ! i) = name \<and> ino = sfd_ino (es ! i))"

definition empty_at :: "sfs_dir list \<Rightarrow> nat \<Rightarrow> nat option \<Rightarrow> bool" where
  "empty_at es n slot \<longleftrightarrow> (case slot of None \<Rightarrow> True | Some i \<Rightarrow> i < n \<and> \<not> live (es ! i))"

definition find_result :: "byte list \<Rightarrow> sfs_vnode \<Rightarrow> sfs_fs \<Rightarrow>
    (((nat \<times> nat) option \<times> nat option) res \<times> dir_state) option \<Rightarrow> bool" where
  "find_result name vn fs out \<longleftrightarrow> (\<exists>r vn' fs'. out = Some (r, (vn', fs')) \<and> wrote 0 [] vn fs vn' fs' \<and>
     (r = Inl ENOSPC \<or> (\<exists>hit slot. r = Inr (hit, slot) \<and>
        found_at name (dir_entries vn fs) (length (dir_entries vn fs)) hit \<and>
        empty_at (dir_entries vn fs) (length (dir_entries vn fs)) slot)))"

lemma find_result_after:
  assumes "dir_base vn fs" and w: "wrote 0 [] vn fs vn1 fs1" and "find_result name vn1 fs1 out"
  shows "find_result name vn fs out"
proof -
  have es: "dir_entries vn1 fs1 = dir_entries vn fs" using wrote_Nil_dir [OF assms(1) w] by simp
  obtain r vn2 fs2 where out: "out = Some (r, (vn2, fs2))" and w2: "wrote 0 [] vn1 fs1 vn2 fs2"
    and r: "r = Inl ENOSPC \<or> (\<exists>hit slot. r = Inr (hit, slot) \<and>
        found_at name (dir_entries vn fs) (length (dir_entries vn fs)) hit \<and>
        empty_at (dir_entries vn fs) (length (dir_entries vn fs)) slot)"
    using assms(3) unfolding find_result_def es by blast
  have "wrote 0 [] vn fs vn2 fs2" using wrote_append [OF w] w2 by fastforce
  then show ?thesis using out r unfolding find_result_def by blast
qed

lemma found_at_Suc:
  assumes "names_unique es" and "i < length es" and "found_at name es i hit"
  shows "live (es ! i) \<Longrightarrow> ename (es ! i) = name \<Longrightarrow> hit = None \<and> found_at name es (Suc i) (Some (sfd_ino (es ! i), i))"
    and "\<not> (live (es ! i) \<and> ename (es ! i) = name) \<Longrightarrow> found_at name es (Suc i) hit"
proof -
  assume a: "live (es ! i)" "ename (es ! i) = name"
  have "hit = None"
  proof (cases hit)
    case (Some p)
    then obtain j where "j < i" "live (es ! j)" "ename (es ! j) = name"
      using assms(3) by (auto simp: found_at_def split: prod.splits)
    then show ?thesis using names_uniqueD [OF assms(1), of i j] assms(2) a by simp
  qed simp
  then show "hit = None \<and> found_at name es (Suc i) (Some (sfd_ino (es ! i), i))"
    using a by (simp add: found_at_def)
qed (use assms(3) in \<open>auto simp: found_at_def less_Suc_eq split: option.splits\<close>)

lemma sfs_findname_from_spec:
  assumes "dir_inv vn fs" and "i + k = length (dir_entries vn fs)"
    and "found_at name (dir_entries vn fs) i hit" and "empty_at (dir_entries vn fs) i slot"
  shows "find_result name vn fs (sfs_findname_from name i k hit slot (vn, fs))"
  using assms
proof (induction k arbitrary: i hit slot vn fs)
  case 0
  then have "wrote 0 [] vn fs vn fs" by (intro wrote_refl) (simp add: dir_inv_def dir_base_def)
  then show ?case using 0 by (simp add: find_result_def)
next
  case (Suc k)
  let ?es = "dir_entries vn fs"
  have base: "dir_base vn fs" and uniq: "names_unique ?es" using Suc.prems(1) by (auto simp: dir_inv_def)
  have i: "i < length ?es" using Suc.prems(2) by simp
  then have i': "i < sfi_size (sv_i vn) div 64" by simp
  obtain r vn1 fs1 where rd: "sfs_readdir i (vn, fs) = Some (r, (vn1, fs1))"
    "r = Inr (?es ! i) \<or> r = Inl ENOSPC" and w: "wrote 0 [] vn fs vn1 fs1"
    using sfs_readdir_spec [OF base i'] i' by auto
  note nx = wrote_Nil_dir [OF base w]
  have step: "find_result name vn fs (sfs_findname_from name (i + 1) k hit' slot' (vn1, fs1))"
    if "found_at name ?es (Suc i) hit'" "empty_at ?es (Suc i) slot'" for hit' slot'
  proof -
    have "find_result name vn1 fs1 (sfs_findname_from name (i + 1) k hit' slot' (vn1, fs1))"
      using that nx uniq Suc.prems(2) by (intro Suc.IH) (auto simp only: dir_inv_def nx Suc_eq_plus1 add_Suc_shift)
    then show ?thesis by (rule find_result_after [OF base w])
  qed
  have sl: "empty_at ?es (Suc i) slot" using Suc.prems(4) by (auto simp: empty_at_def split: option.splits)
  note fa = found_at_Suc [OF uniq i Suc.prems(3)]
  show ?case
  proof (cases "r = Inl ENOSPC")
    case True
    then show ?thesis using rd w by (auto simp: find_result_def)
  next
    case False
    then have rd': "sfs_readdir i (vn, fs) = Some (Inr (?es ! i), (vn1, fs1))" using rd by simp
    consider "\<not> live (?es ! i)" | "live (?es ! i)" "ename (?es ! i) = name" | "live (?es ! i)" "ename (?es ! i) \<noteq> name"
      by blast
    then show ?thesis
    proof cases
      case 1
      then have "empty_at ?es (Suc i) (Some i)" by (simp add: empty_at_def)
      then show ?thesis using rd' 1 step fa(2) by (simp add: live_def)
    next
      case 2
      then show ?thesis using rd' step sl fa(1) by (simp add: live_def)
    next
      case 3
      then show ?thesis using rd' step sl fa(2) by (simp add: live_def)
    qed
  qed
qed

lemma sfs_dir_findname_spec:
  assumes "dir_inv vn fs"
  shows "find_result name vn fs (sfs_dir_findname name (vn, fs))"
proof -
  have "sfs_dir_nentries vn = Some (length (dir_entries vn fs))"
    using assms by (simp add: sfs_dir_nentries_def dir_inv_def dir_base_def)
  then show ?thesis
    using sfs_findname_from_spec [OF assms, of 0 _ name None None]
    by (simp add: sfs_dir_findname_def found_at_def empty_at_def)
qed

lemma found_at_map:
  assumes "names_unique es" and "found_at name es (length es) hit"
  shows "map_option fst hit = dir_map es name"
proof (cases hit)
  case None
  then show ?thesis using assms(2) dir_map_None [of es name]
    by (auto simp: found_at_def in_set_conv_nth)
next
  case (Some p)
  then show ?thesis using assms dir_map_SomeI [OF assms(1)]
    by (auto simp: found_at_def split: prod.splits)
qed

section \<open>Linking and unlinking\<close>

lemma dir_map_iff:
  "names_unique es \<Longrightarrow> dir_map es name = Some ino \<longleftrightarrow>
   (\<exists>i < length es. live (es ! i) \<and> ename (es ! i) = name \<and> sfd_ino (es ! i) = ino)"
  using dir_map_SomeI dir_map_SomeE by blast

lemma length_put_entry [simp]: "length (put_entry es i e) = (if i < length es then length es else Suc (length es))"
  by (simp add: put_entry_def)

lemma put_entry_nth:
  "i \<le> length es \<Longrightarrow> j < length (put_entry es i e) \<Longrightarrow> put_entry es i e ! j = (if j = i then e else es ! j)"
  by (auto simp: put_entry_def nth_append less_Suc_eq)

lemma option_eqI: "(\<And>y. a = Some y \<longleftrightarrow> b = Some y) \<Longrightarrow> a = b"
  by (cases a; cases b) auto

text \<open>A live entry with a new name goes into an empty slot, or behind the last one.\<close>

lemma put_live:
  assumes uniq: "names_unique es" and new: "dir_map es (ename e) = None" and e: "live e"
    and i: "i \<le> length es" "i < length es \<Longrightarrow> \<not> live (es ! i)"
  shows "names_unique (put_entry es i e)" and "dir_map (put_entry es i e) = (dir_map es)(ename e \<mapsto> sfd_ino e)"
proof -
  let ?ns = "put_entry es i e"
  have other: "ename (es ! j) \<noteq> ename e" if "j < length es" "live (es ! j)" for j
    using new that unfolding dir_map_None by auto
  have old: "j < length es" if "j < length ?ns" "j \<noteq> i" for j using that i(1) by (auto split: if_splits)
  show u: "names_unique ?ns"
    unfolding names_unique_def
  proof (intro allI impI)
    fix j k
    assume a: "j < length ?ns" "k < length ?ns" "live (?ns ! j)" "live (?ns ! k)" "ename (?ns ! j) = ename (?ns ! k)"
    show "j = k"
      using a names_uniqueD [OF uniq, of j k] other old
      by (cases "j = i"; cases "k = i") (metis put_entry_nth [OF i(1)])+
  qed
  show "dir_map ?ns = (dir_map es)(ename e \<mapsto> sfd_ino e)"
  proof
    fix name
    show "dir_map ?ns name = ((dir_map es)(ename e \<mapsto> sfd_ino e)) name"
    proof (cases "name = ename e")
      case True
      have "i < length ?ns" using i(1) by simp
      then show ?thesis using dir_map_SomeI [OF u, of i] e True by (simp add: put_entry_nth [OF i(1)])
    next
      case False
      have "dir_map ?ns name = Some y \<longleftrightarrow> dir_map es name = Some y" for y
      proof
        assume "dir_map ?ns name = Some y"
        then obtain j where j: "j < length ?ns" "live (?ns ! j)" "ename (?ns ! j) = name" "sfd_ino (?ns ! j) = y"
          using dir_map_SomeE by blast
        have "j \<noteq> i" using j False by (auto simp: put_entry_nth [OF i(1)])
        then show "dir_map es name = Some y"
          using j old [of j] dir_map_SomeI [OF uniq, of j name] by (simp add: put_entry_nth [OF i(1)])
      next
        assume "dir_map es name = Some y"
        then obtain j where j: "j < length es" "live (es ! j)" "ename (es ! j) = name" "sfd_ino (es ! j) = y"
          using dir_map_SomeE by blast
        have "j \<noteq> i" "j < length ?ns" using j i(2) by auto
        then show "dir_map ?ns name = Some y"
          using j dir_map_SomeI [OF u, of j name] by (simp add: put_entry_nth [OF i(1)])
      qed
      then show ?thesis using False option_eqI [of "dir_map ?ns name" "dir_map es name"] by simp
    qed
  qed
qed

text \<open>A dead entry takes the place of a live one.\<close>

lemma put_dead:
  assumes uniq: "names_unique es" and i: "i < length es" "live (es ! i)" and e: "\<not> live e"
  shows "names_unique (put_entry es i e)" and "dir_map (put_entry es i e) = (dir_map es)(ename (es ! i) := None)"
proof -
  let ?ns = "put_entry es i e"
  have nth: "?ns ! j = (if j = i then e else es ! j)" if "j < length es" for j
    using put_entry_nth [of i es j e] i that by simp
  have len: "length ?ns = length es" using i by simp
  show u: "names_unique ?ns"
    unfolding names_unique_def len
  proof (intro allI impI)
    fix j k
    assume a: "j < length es" "k < length es" "live (?ns ! j)" "live (?ns ! k)" "ename (?ns ! j) = ename (?ns ! k)"
    show "j = k"
      using a names_uniqueD [OF uniq, of j k] e by (cases "j = i"; cases "k = i") (simp_all add: nth)
  qed
  show "dir_map ?ns = (dir_map es)(ename (es ! i) := None)"
  proof
    fix name
    have "dir_map ?ns name = Some y \<longleftrightarrow> name \<noteq> ename (es ! i) \<and> dir_map es name = Some y" for y
    proof
      assume "dir_map ?ns name = Some y"
      then obtain j where j: "j < length es" "live (?ns ! j)" "ename (?ns ! j) = name" "sfd_ino (?ns ! j) = y"
        using dir_map_SomeE len by fastforce
      have "j \<noteq> i" using j e by (auto simp: nth)
      then show "name \<noteq> ename (es ! i) \<and> dir_map es name = Some y"
        using j dir_map_SomeI [OF uniq, of j name] names_uniqueD [OF uniq, of j i] i by (auto simp: nth)
    next
      assume a: "name \<noteq> ename (es ! i) \<and> dir_map es name = Some y"
      then obtain j where j: "j < length es" "live (es ! j)" "ename (es ! j) = name" "sfd_ino (es ! j) = y"
        using dir_map_SomeE by blast
      have "j \<noteq> i" using j a by auto
      then show "dir_map ?ns name = Some y"
        using j dir_map_SomeI [OF u, of j name] len by (simp add: nth)
    qed
    then show "dir_map ?ns name = ((dir_map es)(ename (es ! i) := None)) name"
      by (intro option_eqI) auto
  qed
qed

lemma ename_pad:
  assumes "0 \<notin> set name" and "length name < 60"
  shows "ename \<lparr>sfd_ino = ino, sfd_name = pad_name name\<rparr> = name"
proof -
  obtain n where n: "60 - length name = Suc n" "length name + n = 59" using assms(2) by (intro that [of "59 - length name"]) auto
  have "(name @ replicate (Suc n) 0) ! 59 = (0 :: byte)"
    using n nth_replicate [of n "Suc n" "0 :: byte"] by (simp add: nth_append del: replicate_Suc)
  then have "(pad_name name)[59 := 0] = name @ replicate (Suc n) 0"
    unfolding pad_name_def n(1) by (metis list_update_id)
  moreover have "takeWhile (\<lambda>c. c \<noteq> 0) (name @ replicate (Suc n) 0) = name"
    using assms(1) by (subst takeWhile_append2) auto
  ultimately show ?thesis by (simp add: ename_def del: replicate_Suc)
qed

text \<open>The outcome of an operation on a directory that stands for the map \<open>d\<close>.\<close>

definition dir_after :: "sfs_vnode \<Rightarrow> sfs_fs \<Rightarrow> (byte list \<rightharpoonup> nat) \<Rightarrow> sfs_vnode \<Rightarrow> sfs_fs \<Rightarrow> bool" where
  "dir_after vn fs d vn' fs' \<longleftrightarrow> dir_inv vn' fs' \<and> file_frame vn fs vn' fs' \<and> dir_map (dir_entries vn' fs') = d"

lemma find_after:
  assumes "dir_inv vn fs" and "wrote 0 [] vn fs vn' fs'"
  shows "dir_after vn fs (dir_map (dir_entries vn fs)) vn' fs'"
  using assms wrote_Nil_dir [of vn fs 0] wrote_frame [OF assms(2)] by (simp add: dir_after_def dir_inv_def)

lemma sfs_dir_link_spec:
  assumes inv: "dir_inv vn fs" and name: "0 \<notin> set name" and ino: "ino \<noteq> SFS_NOINO" "ino < 2 ^ 32"
    and room: "sfi_size (sv_i vn) + 64 \<le> max_filesize"
  shows "\<exists>r vn' fs'. sfs_dir_link name ino (vn, fs) = Some (r, (vn', fs')) \<and>
    (case r of
       Inr slot \<Rightarrow> dir_map (dir_entries vn fs) name = None \<and>
         dir_after vn fs ((dir_map (dir_entries vn fs))(name \<mapsto> ino)) vn' fs'
     | Inl err \<Rightarrow> dir_after vn fs (dir_map (dir_entries vn fs)) vn' fs' \<and>
         (err = ENOSPC \<or> err = EEXIST \<and> dir_map (dir_entries vn fs) name \<noteq> None \<or>
          err = ENAMETOOLONG \<and> dir_map (dir_entries vn fs) name = None \<and> 60 \<le> length name))"
proof -
  let ?es = "dir_entries vn fs" and ?sd = "\<lparr>sfd_ino = ino, sfd_name = pad_name name\<rparr>"
  have uniq: "names_unique ?es" and base: "dir_base vn fs" using inv by (auto simp: dir_inv_def)
  obtain r vn1 fs1 where fd: "sfs_dir_findname name (vn, fs) = Some (r, (vn1, fs1))" and w: "wrote 0 [] vn fs vn1 fs1"
    and r: "r = Inl ENOSPC \<or> (\<exists>hit slot. r = Inr (hit, slot) \<and> found_at name ?es (length ?es) hit \<and> empty_at ?es (length ?es) slot)"
    using sfs_dir_findname_spec [OF inv, of name] unfolding find_result_def by blast
  note nx = wrote_Nil_dir [OF base w] and after = find_after [OF inv w]
  have sz: "sfi_size (sv_i vn1) = sfi_size (sv_i vn)" using wroteD(2) [OF w] by (simp add: same_file_def)
  from r show ?thesis
  proof (elim disjE exE conjE)
    assume "r = Inl ENOSPC"
    then show ?thesis using fd after by (simp add: sfs_dir_link_def)
  next
    fix hit slot
    assume r: "r = Inr (hit, slot)" and hit: "found_at name ?es (length ?es) hit" and slot: "empty_at ?es (length ?es) slot"
    have m: "map_option fst hit = dir_map ?es name" by (rule found_at_map [OF uniq hit])
    define i where "i = (case slot of Some e \<Rightarrow> e | None \<Rightarrow> length ?es)"
    have i: "i \<le> length ?es" "i < length ?es \<Longrightarrow> \<not> live (?es ! i)"
      using slot by (auto simp: i_def empty_at_def split: option.splits)
    have slot': "(case slot of Some e \<Rightarrow> Some e | None \<Rightarrow> sfs_dir_nentries vn1) = Some i"
      using nx by (simp add: i_def sfs_dir_nentries_def dir_base_def sz split: option.split)
    show ?thesis
    proof (cases "hit = None \<and> length name < 60")
      case False
      then show ?thesis
        using fd r m [symmetric] after by (cases hit) (auto simp: sfs_dir_link_def SFS_NAMELEN_def)
    next
      case True
      have d: "dir_map ?es name = None" using m True by simp
      have ok: "dir_ok ?sd" using ino True by (simp add: dir_ok_def pad_name_def)
      have en: "ename ?sd = name" using ename_pad name True by simp
      have "i * 64 + 64 \<le> max_filesize"
        using i(1) room div_times_less_eq_dividend [of "sfi_size (sv_i vn)" 64] by simp
      then obtain q vn2 fs2 where wd: "sfs_writedir ?sd i (vn1, fs1) = Some (q, (vn2, fs2))" "dir_base vn2 fs2"
        "file_frame vn1 fs1 vn2 fs2"
        "q = Inr () \<and> dir_entries vn2 fs2 = put_entry ?es i ?sd \<or> q = Inl ENOSPC \<and> dir_entries vn2 fs2 = ?es"
        using sfs_writedir_spec [OF nx(1) ok, of i] i(1) nx(2) sz by auto
      have fr: "file_frame vn fs vn2 fs2" using file_frame_trans [OF wrote_frame [OF w] wd(3)] .
      have link: "sfs_dir_link name ino (vn, fs) = ebind (sfs_writedir ?sd i (vn1, fs1)) (\<lambda>_ st2. Some (Inr i, st2))"
        using fd r True slot' by (cases slot) (simp_all add: sfs_dir_link_def SFS_NAMELEN_def)
      have put: "names_unique (put_entry ?es i ?sd)" "dir_map (put_entry ?es i ?sd) = (dir_map ?es)(name \<mapsto> ino)"
        using put_live [OF uniq, of ?sd i] d en i ino(1) by (simp_all add: live_def)
      from wd(4) show ?thesis
      proof
        assume "q = Inr () \<and> dir_entries vn2 fs2 = put_entry ?es i ?sd"
        then show ?thesis using link wd fr put d by (simp add: dir_after_def dir_inv_def)
      next
        assume "q = Inl ENOSPC \<and> dir_entries vn2 fs2 = ?es"
        then show ?thesis using link wd fr uniq by (simp add: dir_after_def dir_inv_def)
      qed
    qed
  qed
qed

lemma sfs_dir_unlink_spec:
  assumes inv: "dir_inv vn fs" and i: "i < length (dir_entries vn fs)" "live (dir_entries vn fs ! i)"
  shows "\<exists>r vn' fs'. sfs_dir_unlink i (vn, fs) = Some (r, (vn', fs')) \<and>
    (r = Inr () \<and> dir_after vn fs ((dir_map (dir_entries vn fs))(ename (dir_entries vn fs ! i) := None)) vn' fs' \<or>
     r = Inl ENOSPC \<and> dir_after vn fs (dir_map (dir_entries vn fs)) vn' fs')"
proof -
  let ?es = "dir_entries vn fs" and ?sd = "\<lparr>sfd_ino = SFS_NOINO, sfd_name = replicate 60 0\<rparr>"
  have uniq: "names_unique ?es" and base: "dir_base vn fs" using inv by (auto simp: dir_inv_def)
  have ok: "dir_ok ?sd" by (simp add: dir_ok_def SFS_NOINO_def)
  have "i * 64 + 64 \<le> max_filesize"
    using entry_range [of i "sfi_size (sv_i vn)"] i(1) base by (simp add: dir_base_def)
  then obtain r vn' fs' where wd: "sfs_writedir ?sd i (vn, fs) = Some (r, (vn', fs'))" "dir_base vn' fs'"
    "file_frame vn fs vn' fs'"
    "r = Inr () \<and> dir_entries vn' fs' = put_entry ?es i ?sd \<or> r = Inl ENOSPC \<and> dir_entries vn' fs' = ?es"
    using sfs_writedir_spec [OF base ok, of i] i(1) by auto
  have put: "names_unique (put_entry ?es i ?sd)" "dir_map (put_entry ?es i ?sd) = (dir_map ?es)(ename (?es ! i) := None)"
    using put_dead [OF uniq i, of ?sd] by (simp_all add: live_def)
  show ?thesis using wd put uniq unfolding sfs_dir_unlink_def dir_after_def dir_inv_def by auto
qed

section \<open>The contract of a directory\<close>

text \<open>
  What the operations on names rely on: a finite map from names to inode numbers, searched, extended
  and cut down. A call that reports an error leaves the map alone.
\<close>

locale name_table =
  fixes inv :: "'s \<Rightarrow> bool" and names :: "'s \<Rightarrow> 'n \<rightharpoonup> 'i" and legal :: "'n \<Rightarrow> 'i \<Rightarrow> 's \<Rightarrow> bool"
    and find :: "'n \<Rightarrow> 's \<Rightarrow> ((('i \<times> 'k) option \<times> 'k option) res \<times> 's) option"
    and link :: "'n \<Rightarrow> 'i \<Rightarrow> 's \<Rightarrow> ('k res \<times> 's) option"
    and unlink :: "'k \<Rightarrow> 's \<Rightarrow> (unit res \<times> 's) option"
  assumes find_law: "inv s \<Longrightarrow> find n s = Some (r, s') \<Longrightarrow> inv s' \<and> names s' = names s \<and>
      (\<forall>hit e. r = Inr (hit, e) \<longrightarrow> map_option fst hit = names s n)"
    and link_law: "inv s \<Longrightarrow> legal n i s \<Longrightarrow> link n i s = Some (q, s') \<Longrightarrow> inv s' \<and>
      names s' = (case q of Inr _ \<Rightarrow> (names s)(n \<mapsto> i) | Inl _ \<Rightarrow> names s)"
    and unlink_law: "inv s \<Longrightarrow> find n s = Some (Inr (Some (i, k), e), s1) \<Longrightarrow> unlink k s1 = Some (w, s') \<Longrightarrow> inv s' \<and>
      names s' = (case w of Inr _ \<Rightarrow> (names s)(n := None) | Inl _ \<Rightarrow> names s)"
begin

lemma find_after_link:
  assumes "inv s" and "legal n i s" and "link n i s = Some (Inr k, s1)" and "find n s1 = Some (Inr (hit, e), s2)"
  shows "map_option fst hit = Some i"
  using link_law [OF assms(1-3)] find_law [OF _ assms(4)] by simp

lemma find_after_unlink:
  assumes "inv s" and "find n s = Some (Inr (Some (i, k), e), s1)" and "unlink k s1 = Some (Inr u, s2)"
    and "find n s2 = Some (Inr (hit, e'), s3)"
  shows "hit = None"
  using unlink_law [OF assms(1-3)] find_law [OF _ assms(4)] by simp

text \<open>A name moved: linked under the new name and unlinked under the old, as a rename does it.\<close>

lemma move_name:
  assumes "inv s" and "legal m i s" and "n \<noteq> m" and "names s n = Some i"
    and "link m i s = Some (Inr k, s1)" and "find n s1 = Some (Inr (Some (j, l), e), s2)"
    and "unlink l s2 = Some (Inr u, s3)"
  shows "names s3 = (names s)(m \<mapsto> i, n := None)"
  using link_law [OF assms(1,2,5)] unlink_law [OF _ assms(6,7)] by simp

end

definition dir_legal :: "byte list \<Rightarrow> nat \<Rightarrow> dir_state \<Rightarrow> bool" where
  "dir_legal name ino = (\<lambda>(vn, fs). 0 \<notin> set name \<and> ino \<noteq> SFS_NOINO \<and> ino < 2 ^ 32 \<and>
     sfi_size (sv_i vn) + 64 \<le> max_filesize)"

definition dir_names :: "dir_state \<Rightarrow> byte list \<rightharpoonup> nat" where
  "dir_names = (\<lambda>(vn, fs). dir_map (dir_entries vn fs))"

lemma findname_found:
  assumes "dir_inv vn fs" and "sfs_dir_findname name (vn, fs) = Some (r, (vn', fs'))"
  shows "dir_after vn fs (dir_map (dir_entries vn fs)) vn' fs'" and "dir_entries vn' fs' = dir_entries vn fs"
    and "\<And>hit e. r = Inr (hit, e) \<Longrightarrow> found_at name (dir_entries vn fs) (length (dir_entries vn fs)) hit"
proof -
  have fr: "wrote 0 [] vn fs vn' fs' \<and> (r = Inl ENOSPC \<or> (\<exists>hit slot. r = Inr (hit, slot) \<and>
     found_at name (dir_entries vn fs) (length (dir_entries vn fs)) hit))"
    using sfs_dir_findname_spec [OF assms(1), of name] assms(2) unfolding find_result_def by auto
  then show "dir_after vn fs (dir_map (dir_entries vn fs)) vn' fs'" "dir_entries vn' fs' = dir_entries vn fs"
    using find_after [OF assms(1)] wrote_Nil_dir [of vn fs 0] assms(1) by (auto simp: dir_inv_def)
  show "found_at name (dir_entries vn fs) (length (dir_entries vn fs)) hit" if "r = Inr (hit, e)" for hit e
    using fr that by auto
qed

lemma findname_unlink:
  assumes "dir_inv vn fs" and "sfs_dir_findname name (vn, fs) = Some (Inr (Some (ino, i), e), (vn1, fs1))"
  shows "\<exists>r vn' fs'. sfs_dir_unlink i (vn1, fs1) = Some (r, (vn', fs')) \<and>
    (r = Inr () \<and> dir_after vn fs ((dir_map (dir_entries vn fs))(name := None)) vn' fs' \<or>
     r = Inl ENOSPC \<and> dir_after vn fs (dir_map (dir_entries vn fs)) vn' fs')"
proof -
  note f = findname_found [OF assms]
  let ?es = "dir_entries vn fs"
  have inv1: "dir_inv vn1 fs1" and fr: "file_frame vn fs vn1 fs1" using f(1) by (auto simp: dir_after_def)
  have i: "i < length ?es" "live (?es ! i)" "ename (?es ! i) = name" using f(3) [OF refl] by (auto simp: found_at_def)
  have trans: "dir_after vn1 fs1 d vn' fs' \<Longrightarrow> dir_after vn fs d vn' fs'" for d vn' fs'
    using file_frame_trans [OF fr] by (auto simp: dir_after_def)
  show ?thesis
    using sfs_dir_unlink_spec [OF inv1, of i] i trans unfolding f(2) by blast
qed

interpretation dt: name_table "\<lambda>(vn, fs). dir_inv vn fs" dir_names dir_legal sfs_dir_findname sfs_dir_link sfs_dir_unlink
proof
  fix s s' :: dir_state and n r
  assume "case s of (vn, fs) \<Rightarrow> dir_inv vn fs" and run: "sfs_dir_findname n s = Some (r, s')"
  moreover obtain vn fs vn' fs' where s: "s = (vn, fs)" "s' = (vn', fs')" by fastforce
  ultimately have inv: "dir_inv vn fs" by simp
  note f = findname_found [OF inv run [unfolded s]]
  show "(case s' of (vn, fs) \<Rightarrow> dir_inv vn fs) \<and> dir_names s' = dir_names s \<and>
      (\<forall>hit e. r = Inr (hit, e) \<longrightarrow> map_option fst hit = dir_names s n)"
    using f found_at_map inv by (auto simp: s dir_names_def dir_after_def dir_inv_def)
next
  fix s s' :: dir_state and n i r
  assume a: "case s of (vn, fs) \<Rightarrow> dir_inv vn fs" "dir_legal n i s" and run: "sfs_dir_link n i s = Some (r, s')"
  obtain vn fs vn' fs' where s: "s = (vn, fs)" "s' = (vn', fs')" by fastforce
  have inv: "dir_inv vn fs" using a(1) by (simp add: s)
  have "case r of Inr slot \<Rightarrow> dir_after vn fs ((dir_map (dir_entries vn fs))(n \<mapsto> i)) vn' fs'
     | Inl err \<Rightarrow> dir_after vn fs (dir_map (dir_entries vn fs)) vn' fs'"
    using sfs_dir_link_spec [OF inv, of n i] a(2) run by (auto simp: s dir_legal_def split: sum.splits)
  then show "(case s' of (vn, fs) \<Rightarrow> dir_inv vn fs) \<and>
      dir_names s' = (case r of Inr _ \<Rightarrow> (dir_names s)(n \<mapsto> i) | Inl _ \<Rightarrow> dir_names s)"
    by (auto simp: s dir_names_def dir_after_def split: sum.splits)
next
  fix s s1 s' :: dir_state and n i k e r
  assume a: "case s of (vn, fs) \<Rightarrow> dir_inv vn fs" and run: "sfs_dir_findname n s = Some (Inr (Some (i, k), e), s1)"
    "sfs_dir_unlink k s1 = Some (r, s')"
  obtain vn fs vn1 fs1 vn' fs' where s: "s = (vn, fs)" "s1 = (vn1, fs1)" "s' = (vn', fs')" by fastforce
  have inv: "dir_inv vn fs" using a by (simp add: s)
  from findname_unlink [OF inv run(1) [unfolded s]] run(2)
  show "(case s' of (vn, fs) \<Rightarrow> dir_inv vn fs) \<and>
      dir_names s' = (case r of Inr _ \<Rightarrow> (dir_names s)(n := None) | Inl _ \<Rightarrow> dir_names s)"
    by (auto simp: s dir_names_def dir_after_def)
qed

section \<open>Properties\<close>

text \<open>A directory of one entry, the name with the byte 97 for inode 3, in block 2.\<close>

definition demo_entry :: sfs_dir where
  "demo_entry = \<lparr>sfd_ino = 3, sfd_name = pad_name [97]\<rparr>"

definition demo_dir0 :: sfs_vnode where
  "demo_dir0 = demo_vnode\<lparr>sv_i := demo_inode\<lparr>sfi_type := SFS_TYPE_DIR, sfi_size := 64\<rparr>\<rparr>"

definition demo_dir :: sfs_vnode where
  "demo_dir = demo_vnode\<lparr>sv_i := demo_inode\<lparr>sfi_type := SFS_TYPE_DIR, sfi_size := 64, sfi_direct := 2 # replicate 14 0\<rparr>\<rparr>"

definition demo_dir_fs :: sfs_fs where
  "demo_dir_fs = fs_write 2 (enc_dir demo_entry @ replicate 448 0) (fs_alloc 2 demo_fs)"

lemma demo_entry_ok: "dir_ok demo_entry" "live demo_entry" "ename demo_entry = [97]" "sfd_ino demo_entry = 3"
  using ename_pad [of "[97]" 3]
  by (simp_all add: demo_entry_def dir_ok_def pad_name_def live_def SFS_NOINO_def)

lemma demo_dir0_inv: "file_inv demo_dir0 demo_fs"
  using demo_fs_inv demo_inode_ok demo_used
  by (intro file_inv_empty)
    (auto simp: demo_dir0_def demo_vnode_def demo_inode_def SFS_TYPE_DIR_def inode_ok_def intro: demo_roots)

lemma demo_dir_grown: "file_inv demo_dir (fs_alloc 2 demo_fs)"
proof -
  have "grows {(Direct 0, [])} demo_dir0 demo_fs demo_dir (fs_alloc 2 demo_fs)"
  proof (rule grows_root [OF demo_dir0_inv])
    show "inode_ok (sv_i demo_dir)" using demo_inode_ok by (simp add: demo_dir_def inode_ok_def SFS_TYPE_DIR_def)
    show "same_file demo_dir0 demo_dir"
      by (simp add: same_file_def demo_dir_def demo_dir0_def demo_vnode_def vnode.defs)
    show "rootptr (sv_i demo_dir) r' = (if r' = Direct 0 then 2 else rootptr (sv_i demo_dir0) r')"
      if "slot_ok (r', [])" for r'
      using that by (cases r') (auto simp: demo_dir_def demo_dir0_def demo_inode_def slot_ok_def nth_Cons')
  qed (use demo_unused in \<open>simp_all add: slot_ok_def demo_dir0_def demo_inode_def\<close>)
  then show ?thesis by (rule growsD(1))
qed

lemma demo_dir_inv: "dir_inv demo_dir demo_dir_fs" "dir_entries demo_dir demo_dir_fs = [demo_entry]"
proof -
  note len = length_enc_dir [OF demo_entry_ok(1)]
  have fb: "file_block demo_dir (fs_alloc 2 demo_fs) 0 = 2"
    by (simp add: file_block_def bmap_slot_def demo_dir_def)
  have w: "wrote 0 (enc_dir demo_entry) demo_dir (fs_alloc 2 demo_fs) demo_dir demo_dir_fs"
    unfolding demo_dir_fs_def
    by (rule data_write_wrote [OF demo_dir_grown, of 0]) (simp_all add: fb len max_fileblock_def)
  have sz: "sfi_size (sv_i demo_dir) = 64" "sfi_type (sv_i demo_dir) = SFS_TYPE_DIR" by (simp_all add: demo_dir_def)
  have "file_bytes demo_dir demo_dir_fs 0 64 = enc_dir demo_entry"
    using wroteD(5) [OF w] len by (intro file_bytes_eqI) (auto simp: max_filesize_def max_fileblock_def)
  then have "dir_entry demo_dir demo_dir_fs 0 = demo_entry"
    using dec_dir_enc_dir [OF demo_entry_ok(1)] by (simp add: dir_entry_def)
  then show es: "dir_entries demo_dir demo_dir_fs = [demo_entry]"
    by (intro nth_equalityI) (simp_all add: sz)
  then show "dir_inv demo_dir demo_dir_fs"
    using wroteD(1) [OF w] sz by (simp add: dir_inv_def dir_base_def names_unique_def max_filesize_def max_fileblock_def)
qed

text \<open>
  Looking a name up in a sound directory never panics; unless the disk is full it hands back the
  inode number the directory's map has for the name, or reports that there is none, and it changes
  neither the map nor any block of another file.
\<close>

theorem sfs_dir_findname_lookup:
  assumes "dir_inv vn fs"
  shows "\<exists>r vn' fs'. sfs_dir_findname name (vn, fs) = Some (r, (vn', fs')) \<and>
    dir_inv vn' fs' \<and> file_frame vn fs vn' fs' \<and> dir_map (dir_entries vn' fs') = dir_map (dir_entries vn fs) \<and>
    (r = Inl ENOSPC \<or> (\<exists>hit slot. r = Inr (hit, slot) \<and> map_option fst hit = dir_map (dir_entries vn fs) name))"
proof -
  obtain r vn' fs' where run: "sfs_dir_findname name (vn, fs) = Some (r, (vn', fs'))"
    and r: "r = Inl ENOSPC \<or> (\<exists>hit slot. r = Inr (hit, slot))"
    using sfs_dir_findname_spec [OF assms, of name] unfolding find_result_def by blast
  note f = findname_found [OF assms run]
  show ?thesis
    using run r f found_at_map [of "dir_entries vn fs" name] assms unfolding dir_after_def dir_inv_def by blast
qed

lemma sfs_dir_findname_lookup_witness:
  "\<exists>r vn' fs'. sfs_dir_findname [97] (demo_dir, demo_dir_fs) = Some (r, (vn', fs')) \<and>
     (r = Inl ENOSPC \<or> (\<exists>i slot. r = Inr (Some (3, i), slot)))"
  using sfs_dir_findname_lookup [OF demo_dir_inv(1), of "[97]"] unfolding demo_dir_inv(2)
  by (fastforce simp: demo_entry_ok)





end
