(* ===== verification/Sfs_ops.thy ===== *)
theory Sfs_ops
  imports Sfs_dir
begin

text \<open>
  The vnode operations of \<^verbatim>\<open>assignment3/ownSolution/sfs_vnode.c\<close>: truncation, the table of loaded
  vnodes, and the operations on names. A loaded vnode is an address in \<open>sv_heap\<close>; the functions work
  on the file system and address their vnodes in it, so that two pointers to one vnode alias.
\<close>

section \<open>Vnodes in memory\<close>

definition sv_put :: "nat \<Rightarrow> sfs_vnode \<Rightarrow> sfs_fs \<Rightarrow> sfs_fs" where
  "sv_put p sv fs = fs\<lparr>sv_heap := (sv_heap fs)(p \<mapsto> sv)\<rparr>"

text \<open>A function of a vnode and the file system, at an address.\<close>

definition on_vnode :: "nat \<Rightarrow> (dir_state \<Rightarrow> ('a res \<times> dir_state) option) \<Rightarrow> sfs_fs \<Rightarrow> ('a res \<times> sfs_fs) option" where
  "on_vnode p f fs = do {
     sv \<leftarrow> sv_heap fs p;
     (r, (sv', fs')) \<leftarrow> f (sv, fs);
     Some (r, sv_put p sv' fs')
   }"

text \<open>What \<^verbatim>\<open>sfs_loadvnode\<close> gets from the allocator: the new vnode, its lock, a longer table.\<close>

record load_mem =
  lm_new :: "nat option"
  lm_lock :: bool
  lm_array :: bool

text \<open>The search of \<^verbatim>\<open>sfs_loadvnode\<close>, from index \<open>i\<close>, \<open>k\<close> entries left.\<close>

fun sfs_search :: "nat \<Rightarrow> nat \<Rightarrow> nat \<Rightarrow> sfs_fs \<Rightarrow> nat option option" where
  "sfs_search ino i 0 fs = Some None"
| "sfs_search ino i (Suc k) fs = do {
     p \<leftarrow> array_getguy (sfs_vnodes fs) i;
     sv \<leftarrow> sv_heap fs p;
     used \<leftarrow> sfs_bused (sv_ino sv) fs;
     kassert used;
     if sv_ino sv = ino then Some (Some p) else sfs_search ino (i + 1) k fs
   }"

text \<open>The function table that goes with a type of object; for any other type the kernel panics.\<close>

definition sfs_optable :: "nat \<Rightarrow> vnode_ops option" where
  "sfs_optable type =
     (if type = SFS_TYPE_FILE then Some SFS_FILEOPS
      else if type = SFS_TYPE_DIR then Some SFS_DIROPS else None)"

definition sfs_loadvnode :: "load_mem \<Rightarrow> nat \<Rightarrow> nat \<Rightarrow> sfs_fs \<Rightarrow> (nat res \<times> sfs_fs) option" where
  "sfs_loadvnode mem ino forcetype fs = do {
     hit \<leftarrow> sfs_search ino 0 (array_getnum (sfs_vnodes fs)) fs;
     (case hit of
        Some p \<Rightarrow> do {
          kassert (forcetype = SFS_TYPE_INVAL);
          sv \<leftarrow> sv_heap fs p;
          Some (Inr p, sv_put p (vnode_incref sv) fs)
        }
      | None \<Rightarrow>
          (case lm_new mem of
             None \<Rightarrow> Some (Inl ENOMEM, fs)
           | Some p \<Rightarrow> do {
               used \<leftarrow> sfs_bused ino fs;
               kassert used;
               (r, bs, fs1) \<leftarrow> sfs_rblock (replicate SFS_BLOCKSIZE 0) ino fs;
               (case r of
                  Inl e \<Rightarrow> Some (Inl e, fs1)
                | Inr _ \<Rightarrow> do {
                    let i = dec_inode bs;
                    kassert (forcetype = SFS_TYPE_INVAL \<or> sfi_type i = SFS_TYPE_INVAL);
                    let i = (if forcetype \<noteq> SFS_TYPE_INVAL then i\<lparr>sfi_type := forcetype\<rparr> else i);
                    ops \<leftarrow> sfs_optable (sfi_type i);
                    (case vnode_init (lm_lock mem) ops of
                       Inl e \<Rightarrow> Some (Inl e, fs1)
                     | Inr vn \<Rightarrow> do {
                         let sv = vnode.extend vn (sfs_vnode.fields i ino (forcetype \<noteq> SFS_TYPE_INVAL));
                         (r, tab) \<leftarrow> array_add (lm_array mem) (sfs_vnodes fs1) p;
                         (case r of
                            Inl e \<Rightarrow> do {
                              _ \<leftarrow> vnode_kill sv;
                              Some (Inl e, fs1\<lparr>sfs_vnodes := tab\<rparr>)
                            }
                          | Inr _ \<Rightarrow> Some (Inr p, sv_put p sv (fs1\<lparr>sfs_vnodes := tab\<rparr>)))
                       })
                  })
             }))
   }"

definition sfs_getroot :: "load_mem \<Rightarrow> sfs_fs \<Rightarrow> (nat \<times> sfs_fs) option" where
  "sfs_getroot mem fs = do {
     (r, fs1) \<leftarrow> sfs_loadvnode mem SFS_ROOT_LOCATION SFS_TYPE_INVAL fs;
     (case r of Inl _ \<Rightarrow> None | Inr p \<Rightarrow> Some (p, fs1))
   }"

definition sfs_lookonce :: "load_mem \<Rightarrow> nat \<Rightarrow> byte list \<Rightarrow> sfs_fs \<Rightarrow> ((nat \<times> nat) res \<times> sfs_fs) option" where
  "sfs_lookonce mem d name fs =
     ebind (on_vnode d (sfs_dir_findname name) fs) (\<lambda>(hit, _) fs1.
       (case hit of
          None \<Rightarrow> Some (Inl ENOENT, fs1)
        | Some (ino, slot) \<Rightarrow>
            ebind (sfs_loadvnode mem ino SFS_TYPE_INVAL fs1) (\<lambda>p fs2. do {
              sv \<leftarrow> sv_heap fs2 p;
              kassert (sfi_linkcount (sv_i sv) \<noteq> 0);
              Some (Inr (p, slot), fs2)
            })))"

definition sfs_makeobj :: "load_mem \<Rightarrow> nat \<Rightarrow> sfs_fs \<Rightarrow> (nat res \<times> sfs_fs) option" where
  "sfs_makeobj mem type fs = ebind (sfs_balloc fs) (\<lambda>ino fs1. sfs_loadvnode mem ino type fs1)"

section \<open>Truncation\<close>

text \<open>The file has one block fewer; the count is a 32-bit integer.\<close>

definition drop_block :: "sfs_vnode \<Rightarrow> sfs_vnode" where
  "drop_block sv = sv\<lparr>sv_i := (sv_i sv)\<lparr>sfi_blocks := sub32 (sfi_blocks (sv_i sv)) 1\<rparr>\<rparr>"

text \<open>The loop over the direct blocks, from \<open>i\<close>, \<open>k\<close> left.\<close>

fun trunc_direct :: "nat \<Rightarrow> nat \<Rightarrow> nat \<Rightarrow> dir_state \<Rightarrow> dir_state option" where
  "trunc_direct blocklen i 0 st = Some st"
| "trunc_direct blocklen i (Suc k) (sv, fs) = do {
     block \<leftarrow> rd (sfi_direct (sv_i sv)) i;
     if i \<ge> blocklen \<and> block \<noteq> 0 then do {
       fs1 \<leftarrow> sfs_bfree block fs;
       let sv1 = drop_block sv;
       trunc_direct blocklen (i + 1) k
         (sv1\<lparr>sv_i := (sv_i sv1)\<lparr>sfi_direct := (sfi_direct (sv_i sv1))[i := 0]\<rparr>, sv_dirty := True\<rparr>, fs1)
     }
     else trunc_direct blocklen (i + 1) k (sv, fs)
   }"

text \<open>The loop over the entries of the indirect block: the buffer, \<^verbatim>\<open>hasnonzero\<close> and \<^verbatim>\<open>iddirty\<close> are handed on.\<close>

fun trunc_entries :: "nat \<Rightarrow> nat \<Rightarrow> nat \<Rightarrow> nat \<Rightarrow> nat list \<times> bool \<times> bool \<Rightarrow> dir_state \<Rightarrow>
    ((nat list \<times> bool \<times> bool) \<times> dir_state) option" where
  "trunc_entries blocklen baseblock j 0 acc st = Some (acc, st)"
| "trunc_entries blocklen baseblock j (Suc k) (idbuf, hasnonzero, iddirty) (sv, fs) = do {
     block \<leftarrow> rd idbuf j;
     if blocklen < baseblock + j \<and> block \<noteq> 0 then do {
       fs1 \<leftarrow> sfs_bfree block fs;
       trunc_entries blocklen baseblock (j + 1) k (idbuf[j := 0], hasnonzero, True) (drop_block sv, fs1)
     }
     else trunc_entries blocklen baseblock (j + 1) k (idbuf, hasnonzero \<or> block \<noteq> 0, iddirty) (sv, fs)
   }"

text \<open>
  What is done when no entry of the indirect block is left: it is freed, and the pointers to the
  double and triple indirect blocks are cleared.
\<close>

definition trunc_drop_indirect :: "nat \<Rightarrow> dir_state \<Rightarrow> dir_state option" where
  "trunc_drop_indirect idblock = (\<lambda>(sv, fs). do {
     fs1 \<leftarrow> sfs_bfree idblock fs;
     let sv1 = drop_block sv;
     let sv2 = sv1\<lparr>sv_i := (sv_i sv1)\<lparr>sfi_indirect := 0\<rparr>\<rparr>;
     let sv3 = (if sfi_doubleindirect (sv_i sv2) \<noteq> 0
                then (drop_block sv2)\<lparr>sv_i := (sv_i (drop_block sv2))\<lparr>sfi_doubleindirect := 0\<rparr>\<rparr> else sv2);
     let sv4 = (if sfi_tripleindirect (sv_i sv3) \<noteq> 0
                then (drop_block sv3)\<lparr>sv_i := (sv_i (drop_block sv3))\<lparr>sfi_tripleindirect := 0\<rparr>\<rparr> else sv3);
     Some (sv4\<lparr>sv_dirty := True\<rparr>, fs1)
   })"

definition trunc_indirect :: "nat \<Rightarrow> dir_state \<Rightarrow> (unit res \<times> dir_state) option" where
  "trunc_indirect blocklen = (\<lambda>(sv, fs).
     let idblock = sfi_indirect (sv_i sv);
         baseblock = SFS_NDIRECT;
         highblock = baseblock + SFS_DBPERIDB - 1
     in if blocklen < highblock \<and> idblock \<noteq> 0 then do {
          (r, bs, fs1) \<leftarrow> sfs_rblock (replicate SFS_BLOCKSIZE 0) idblock fs;
          (case r of
             Inl e \<Rightarrow> Some (Inl e, (sv, fs1))
           | Inr _ \<Rightarrow> do {
               ((idbuf, hasnonzero, iddirty), (sv1, fs2)) \<leftarrow>
                 trunc_entries blocklen baseblock 0 SFS_DBPERIDB (words_at bs 0 SFS_DBPERIDB, False, False) (sv, fs1);
               if \<not> hasnonzero then do {
                 st \<leftarrow> trunc_drop_indirect idblock (sv1, fs2);
                 Some (Inr (), st)
               }
               else if iddirty then do {
                 (r, fs3) \<leftarrow> sfs_wblock (enc_words idbuf) idblock fs2;
                 Some (r, (sv1, fs3))
               }
               else Some (Inr (), (sv1, fs2))
             })
        }
        else Some (Inr (), (sv, fs)))"

definition sfs_truncate :: "nat \<Rightarrow> dir_state \<Rightarrow> (unit res \<times> dir_state) option" where
  "sfs_truncate len st = do {
     let blocklen = (len + SFS_BLOCKSIZE - 1) div SFS_BLOCKSIZE;
     st1 \<leftarrow> trunc_direct blocklen 0 SFS_NDIRECT st;
     ebind (trunc_indirect blocklen st1) (\<lambda>_ (sv, fs).
       Some (Inr (), (sv\<lparr>sv_i := (sv_i sv)\<lparr>sfi_size := size32 len\<rparr>, sv_dirty := True\<rparr>, fs)))
   }"

text \<open>\<^verbatim>\<open>VOP_TRUNCATE\<close> through the function tables: a directory cannot be truncated.\<close>

definition vop_truncate :: "nat \<Rightarrow> dir_state \<Rightarrow> (unit res \<times> dir_state) option" where
  "vop_truncate len st =
     (case vn_ops (fst st) of
        Some SFS_FILEOPS \<Rightarrow> sfs_truncate len st
      | Some SFS_DIROPS \<Rightarrow> Some (Inl EISDIR, st)
      | _ \<Rightarrow> None)"

section \<open>Dropping a vnode\<close>

text \<open>The position of an address in the table.\<close>

fun sfs_index :: "nat \<Rightarrow> nat \<Rightarrow> nat \<Rightarrow> nat parray \<Rightarrow> nat option" where
  "sfs_index p i 0 tab = None"
| "sfs_index p i (Suc k) tab = do {
     q \<leftarrow> array_getguy tab i;
     if q = p then Some i else sfs_index p (i + 1) k tab
   }"

definition sfs_reclaim :: "nat \<Rightarrow> sfs_fs \<Rightarrow> (unit res \<times> sfs_fs) option" where
  "sfs_reclaim p fs = do {
     sv0 \<leftarrow> sv_heap fs p;
     if vn_refcount sv0 \<noteq> 1 then Some (Inl EBUSY, fs)
     else
       ebind (if sfi_linkcount (sv_i sv0) = 0 then on_vnode p (vop_truncate 0) fs else Some (Inr (), fs)) (\<lambda>_ fs1.
       ebind (on_vnode p (\<lambda>(sv, fs). sfs_sync_inode sv fs) fs1) (\<lambda>_ fs2. do {
         sv \<leftarrow> sv_heap fs2 p;
         fs3 \<leftarrow> (if sfi_linkcount (sv_i sv) = 0
                 then do {
                   f \<leftarrow> sfs_bfree (sv_ino sv) fs2;
                   Some (sv_put p (drop_block sv) f)
                 }
                 else Some fs2);
         ix \<leftarrow> sfs_index p 0 (array_getnum (sfs_vnodes fs3)) (sfs_vnodes fs3);
         tab \<leftarrow> array_remove (sfs_vnodes fs3) ix;
         sv' \<leftarrow> sv_heap fs3 p;
         _ \<leftarrow> vnode_kill sv';
         Some (Inr (), fs3\<lparr>sfs_vnodes := tab, sv_heap := (sv_heap fs3)(p := None)\<rparr>)
       }))
   }"

text \<open>\<^verbatim>\<open>VOP_DECREF\<close> on a vnode of this file system.\<close>

definition sfs_decref :: "nat \<Rightarrow> sfs_fs \<Rightarrow> sfs_fs option" where
  "sfs_decref p fs = do {
     _ \<leftarrow> sv_heap fs p;
     vnode_decref (\<lambda>fs. the (sv_heap fs p)) (sv_put p) (sfs_reclaim p) fs
   }"

definition sfs_incref :: "nat \<Rightarrow> sfs_fs \<Rightarrow> sfs_fs option" where
  "sfs_incref p fs = do {
     sv \<leftarrow> sv_heap fs p;
     Some (sv_put p (vnode_incref sv) fs)
   }"

section \<open>Operations on files\<close>

definition O_WRONLY :: nat where "O_WRONLY = 1"
definition O_RDWR :: nat where "O_RDWR = 2"
definition O_CREAT :: nat where "O_CREAT = 4"
definition O_EXCL :: nat where "O_EXCL = 8"
definition O_TRUNC :: nat where "O_TRUNC = 16"
definition O_APPEND :: nat where "O_APPEND = 32"
definition O_ACCMODE :: nat where "O_ACCMODE = 3"

definition has_flag :: "nat \<Rightarrow> nat \<Rightarrow> bool" where
  "has_flag flags f \<longleftrightarrow> and flags f \<noteq> 0"

definition sfs_open :: "nat \<Rightarrow> unit res" where
  "sfs_open openflags = (if has_flag openflags O_APPEND then Inl EUNIMP else Inr ())"

definition sfs_opendir :: "nat \<Rightarrow> unit res" where
  "sfs_opendir openflags =
     (if and openflags O_ACCMODE \<noteq> 0 then Inl EISDIR
      else if has_flag openflags O_APPEND then Inl EISDIR
      else Inr ())"

definition sfs_fsync :: "nat \<Rightarrow> sfs_fs \<Rightarrow> (unit res \<times> sfs_fs) option" where
  "sfs_fsync p fs = on_vnode p (\<lambda>(sv, fs). sfs_sync_inode sv fs) fs"

definition sfs_close :: "nat \<Rightarrow> sfs_fs \<Rightarrow> (unit res \<times> sfs_fs) option" where
  "sfs_close p fs = sfs_fsync p fs"

definition sfs_read :: "io_state \<Rightarrow> (unit res \<times> io_state) option" where
  "sfs_read = (\<lambda>(sv, u, fs). do {
     kassert (uio_rw u = UIO_READ);
     sfs_io (sv, u, fs)
   })"

definition sfs_write :: "io_state \<Rightarrow> (unit res \<times> io_state) option" where
  "sfs_write = (\<lambda>(sv, u, fs). do {
     kassert (uio_rw u = UIO_WRITE);
     sfs_io (sv, u, fs)
   })"

record stat =
  st_mode :: nat
  st_nlink :: nat
  st_size :: nat
  st_blocks :: nat

definition S_IFREG :: nat where "S_IFREG = 4096"
definition S_IFDIR :: nat where "S_IFDIR = 8192"
definition S_IFCHR :: nat where "S_IFCHR = 16384"
definition S_IFBLK :: nat where "S_IFBLK = 20480"

definition sfs_gettype :: "sfs_vnode \<Rightarrow> nat res option" where
  "sfs_gettype sv =
     (if sfi_type (sv_i sv) = SFS_TYPE_FILE then Some (Inr S_IFREG)
      else if sfi_type (sv_i sv) = SFS_TYPE_DIR then Some (Inr S_IFDIR)
      else None)"

definition sfs_stat :: "sfs_vnode \<Rightarrow> stat res option" where
  "sfs_stat sv = do {
     r \<leftarrow> sfs_gettype sv;
     Some (case r of
       Inl e \<Rightarrow> Inl e
     | Inr mode \<Rightarrow> Inr \<lparr>st_mode = mode, st_nlink = 0, st_size = sfi_size (sv_i sv), st_blocks = sfi_blocks (sv_i sv)\<rparr>)
   }"

definition sfs_tryseek :: "int \<Rightarrow> unit res" where
  "sfs_tryseek pos = (if pos < 0 then Inl EINVAL else Inr ())"

definition sfs_namefile :: "sfs_vnode \<Rightarrow> unit res option" where
  "sfs_namefile sv = do {
     kassert (sv_ino sv = SFS_ROOT_LOCATION);
     Some (Inr ())
   }"

section \<open>Operations on names\<close>

definition bump_link :: "sfs_vnode \<Rightarrow> sfs_vnode" where
  "bump_link sv = sv\<lparr>sv_i := (sv_i sv)\<lparr>sfi_linkcount := (sfi_linkcount (sv_i sv) + 1) mod 2 ^ 16\<rparr>, sv_dirty := True\<rparr>"

definition drop_link :: "sfs_vnode \<Rightarrow> sfs_vnode option" where
  "drop_link sv = do {
     kassert (sfi_linkcount (sv_i sv) > 0);
     Some (sv\<lparr>sv_i := (sv_i sv)\<lparr>sfi_linkcount := sfi_linkcount (sv_i sv) - 1\<rparr>, sv_dirty := True\<rparr>)
   }"

definition sfs_creat :: "load_mem \<Rightarrow> nat \<Rightarrow> byte list \<Rightarrow> bool \<Rightarrow> sfs_fs \<Rightarrow> (nat res \<times> sfs_fs) option" where
  "sfs_creat mem d name excl fs =
     ebind (on_vnode d (sfs_dir_findname name) fs) (\<lambda>(hit, _) fs1.
       (case hit of
          Some (ino, _) \<Rightarrow>
            if excl then Some (Inl EEXIST, fs1)
            else sfs_loadvnode mem ino SFS_TYPE_INVAL fs1
        | None \<Rightarrow>
            ebind (sfs_makeobj mem SFS_TYPE_FILE fs1) (\<lambda>p fs2. do {
              new \<leftarrow> sv_heap fs2 p;
              (r, fs3) \<leftarrow> on_vnode d (sfs_dir_link name (sv_ino new)) fs2;
              (case r of
                 Inl e \<Rightarrow> do {
                   fs4 \<leftarrow> sfs_decref p fs3;
                   Some (Inl e, fs4)
                 }
               | Inr _ \<Rightarrow> do {
                   new' \<leftarrow> sv_heap fs3 p;
                   Some (Inr p, sv_put p (bump_link new') fs3)
                 })
            })))"

text \<open>\<^verbatim>\<open>sfs_link\<close>; both vnodes are of this file system.\<close>

definition sfs_link :: "nat \<Rightarrow> byte list \<Rightarrow> nat \<Rightarrow> sfs_fs \<Rightarrow> (unit res \<times> sfs_fs) option" where
  "sfs_link d name f fs = do {
     fv \<leftarrow> sv_heap fs f;
     ebind (on_vnode d (sfs_dir_link name (sv_ino fv)) fs) (\<lambda>_ fs1. do {
       fv' \<leftarrow> sv_heap fs1 f;
       Some (Inr (), sv_put f (bump_link fv') fs1)
     })
   }"

definition sfs_remove :: "load_mem \<Rightarrow> nat \<Rightarrow> byte list \<Rightarrow> sfs_fs \<Rightarrow> (unit res \<times> sfs_fs) option" where
  "sfs_remove mem d name fs =
     ebind (sfs_lookonce mem d name fs) (\<lambda>(victim, slot) fs1. do {
       (r, fs2) \<leftarrow> on_vnode d (sfs_dir_unlink slot) fs1;
       fs3 \<leftarrow> (case r of
                 Inl _ \<Rightarrow> Some fs2
               | Inr _ \<Rightarrow> do {
                   sv \<leftarrow> sv_heap fs2 victim;
                   sv' \<leftarrow> drop_link sv;
                   Some (sv_put victim sv' fs2)
                 });
       fs4 \<leftarrow> sfs_decref victim fs3;
       Some (r, fs4)
     })"

text \<open>
  \<^verbatim>\<open>sfs_rename\<close> within the root directory. When the old name cannot be removed the new one is; when
  that fails too the kernel panics.
\<close>

definition sfs_rename :: "load_mem \<Rightarrow> nat \<Rightarrow> byte list \<Rightarrow> nat \<Rightarrow> byte list \<Rightarrow> sfs_fs \<Rightarrow> (unit res \<times> sfs_fs) option" where
  "sfs_rename mem d1 n1 d2 n2 fs = do {
     kassert (d1 = d2);
     dv \<leftarrow> sv_heap fs d1;
     kassert (sv_ino dv = SFS_ROOT_LOCATION);
     ebind (sfs_lookonce mem d1 n1 fs) (\<lambda>(g1, slot1) fs1. do {
       gv \<leftarrow> sv_heap fs1 g1;
       kassert (sfi_type (sv_i gv) = SFS_TYPE_FILE);
       (r, fs2) \<leftarrow> on_vnode d1 (sfs_dir_link n2 (sv_ino gv)) fs1;
       (case r of
          Inl e \<Rightarrow> do {
            fs3 \<leftarrow> sfs_decref g1 fs2;
            Some (Inl e, fs3)
          }
        | Inr slot2 \<Rightarrow> do {
            gv2 \<leftarrow> sv_heap fs2 g1;
            let fs3 = sv_put g1 (bump_link gv2) fs2;
            (r, fs4) \<leftarrow> on_vnode d1 (sfs_dir_unlink slot1) fs3;
            (case r of
               Inr _ \<Rightarrow> do {
                 gv4 \<leftarrow> sv_heap fs4 g1;
                 gv5 \<leftarrow> drop_link gv4;
                 fs6 \<leftarrow> sfs_decref g1 (sv_put g1 gv5 fs4);
                 Some (Inr (), fs6)
               }
             | Inl e \<Rightarrow> do {
                 (r2, fs5) \<leftarrow> on_vnode d1 (sfs_dir_unlink slot2) fs4;
                 (case r2 of
                    Inl _ \<Rightarrow> None
                  | Inr _ \<Rightarrow> do {
                      fs6 \<leftarrow> sfs_decref g1 fs5;
                      Some (Inl e, fs6)
                    })
               })
          })
     })
   }"

definition sfs_lookparent :: "nat \<Rightarrow> byte list \<Rightarrow> nat \<Rightarrow> sfs_fs \<Rightarrow> ((nat \<times> byte list) res \<times> sfs_fs) option" where
  "sfs_lookparent d path buflen fs = do {
     sv \<leftarrow> sv_heap fs d;
     if sfi_type (sv_i sv) \<noteq> SFS_TYPE_DIR then Some (Inl ENOTDIR, fs)
     else if length path + 1 > buflen then Some (Inl ENAMETOOLONG, fs)
     else do {
       fs1 \<leftarrow> sfs_incref d fs;
       Some (Inr (d, path), fs1)
     }
   }"

definition sfs_lookup :: "load_mem \<Rightarrow> nat \<Rightarrow> byte list \<Rightarrow> sfs_fs \<Rightarrow> (nat res \<times> sfs_fs) option" where
  "sfs_lookup mem d path fs = do {
     sv \<leftarrow> sv_heap fs d;
     if sfi_type (sv_i sv) \<noteq> SFS_TYPE_DIR then Some (Inl ENOTDIR, fs)
     else ebind (sfs_lookonce mem d path fs) (\<lambda>(p, _) fs1. Some (Inr p, fs1))
   }"

end
