(* ===== verification/Sfs_trunc.thy ===== *)
theory Sfs_trunc
  imports Sfs_ops
begin

text \<open>
  What \<^verbatim>\<open>sfs_truncate\<close> does to the tree of a file's blocks: for files within the single indirect block
  it is sound, and its leak for larger ones is exhibited.
\<close>

section \<open>Freeing blocks\<close>

definition freed :: "nat set \<Rightarrow> sfs_fs \<Rightarrow> sfs_fs \<Rightarrow> bool" where
  "freed B fs fs' \<longleftrightarrow> fs_inv fs' \<and> fs_used fs' = fs_used fs - B \<and> (\<forall>c. blk fs' c = blk fs c) \<and> same_fs fs fs'"

lemma freed_refl: "fs_inv fs \<Longrightarrow> freed {} fs fs"
  by (simp add: freed_def)

lemma freed_trans: "freed A fs fs1 \<Longrightarrow> freed B fs1 fs2 \<Longrightarrow> freed (A \<union> B) fs fs2"
  by (auto simp: freed_def same_fs_def)

lemma freedD:
  assumes "freed B fs fs'"
  shows "fs_inv fs'" and "fs_used fs' = fs_used fs - B" and "blk fs' c = blk fs c" and "same_fs fs fs'"
    and "bwords fs' c = bwords fs c" and "nblk fs' = nblk fs"
  using assms by (auto simp: freed_def bwords_def same_fs_def)

lemma sfs_bfree_ok:
  assumes inv: "fs_inv fs" and b: "b \<in> fs_used fs"
  shows "\<exists>fs'. sfs_bfree b fs = Some fs' \<and> freed {b} fs fs'"
proof -
  have bm: "bitmap_inv (sfs_freemap fs)" and used: "b \<in> bm_used (sfs_freemap fs)" and lt: "b < nblk fs"
    using inv b by (auto simp: fs_inv_def fs_used_def)
  have nb: "b < nbits (sfs_freemap fs)" using inv lt by (simp add: fs_inv_def)
  let ?fs = "fs\<lparr>sfs_freemap := bm_set (sfs_freemap fs) b False, sfs_freemapdirty := True\<rparr>"
  have "sfs_bfree b fs = Some ?fs" using bitmap_unmark_spec [OF bm, of b] used by (simp add: sfs_bfree_def)
  moreover have "fs_inv ?fs"
    using inv lt bm_set_inv [OF bm nb, of False] bm_used_set [OF bm nb, of False] by (auto simp: fs_inv_def)
  moreover have "fs_used ?fs = fs_used fs - {b}"
    using bm_used_set [OF bm nb, of False] by (auto simp: fs_used_def)
  ultimately show ?thesis by (simp add: freed_def same_fs_def blk_def)
qed

section \<open>The loops\<close>

text \<open>A list with the entries that satisfy a predicate on the index cleared, from index \<open>i\<close> on.\<close>

definition cleared :: "(nat \<Rightarrow> bool) \<Rightarrow> nat \<Rightarrow> nat list \<Rightarrow> nat list" where
  "cleared P i xs = map (\<lambda>j. if i \<le> j \<and> P j then 0 else xs ! j) [0..<length xs]"

definition lost :: "(nat \<Rightarrow> bool) \<Rightarrow> nat \<Rightarrow> nat list \<Rightarrow> nat set" where
  "lost P i xs = {xs ! j | j. i \<le> j \<and> j < length xs \<and> P j \<and> xs ! j \<noteq> 0}"

lemma length_cleared [simp]: "length (cleared P i xs) = length xs"
  by (simp add: cleared_def)

lemma cleared_nth [simp]: "j < length xs \<Longrightarrow> cleared P i xs ! j = (if i \<le> j \<and> P j then 0 else xs ! j)"
  by (simp add: cleared_def)

lemma cleared_end: "cleared P (length xs) xs = xs"
  by (rule nth_equalityI) auto

lemma lost_end: "lost P (length xs) xs = {}"
  by (auto simp: lost_def)

text \<open>One round, for an entry that goes and for one that stays.\<close>

lemma clear_gone:
  assumes "i < length xs" and "P i"
  shows "cleared P (Suc i) (xs[i := 0]) = cleared P i xs"
    and "xs ! i \<noteq> 0 \<Longrightarrow> lost P i xs = insert (xs ! i) (lost P (Suc i) (xs[i := 0]))"
proof -
  show "cleared P (Suc i) (xs[i := 0]) = cleared P i xs"
    by (rule nth_equalityI) (use assms in \<open>auto simp: nth_list_update Suc_le_eq\<close>)
  assume nz: "xs ! i \<noteq> 0"
  have "x \<in> lost P i xs \<longleftrightarrow> x = xs ! i \<or> x \<in> lost P (Suc i) (xs[i := 0])" for x
  proof
    assume "x \<in> lost P i xs"
    then obtain j where "x = xs ! j" "i \<le> j" "j < length xs" "P j" "xs ! j \<noteq> 0" by (auto simp: lost_def)
    then show "x = xs ! i \<or> x \<in> lost P (Suc i) (xs[i := 0])"
      by (cases "j = i") (auto simp: lost_def intro!: exI [of _ j])
  qed (use assms nz in \<open>auto simp: lost_def intro: exI [of _ i]\<close>)
  then show "lost P i xs = insert (xs ! i) (lost P (Suc i) (xs[i := 0]))" by blast
qed

lemma clear_stays:
  assumes "i < length xs" and "\<not> (P i \<and> xs ! i \<noteq> 0)"
  shows "cleared P (Suc i) xs = cleared P i xs" and "lost P (Suc i) xs = lost P i xs"
proof -
  show "cleared P (Suc i) xs = cleared P i xs"
    by (rule nth_equalityI) (use assms in \<open>auto simp: Suc_le_eq le_less\<close>)
  have "j \<noteq> i" if "P j" "xs ! j \<noteq> 0" for j using assms that by auto
  then show "lost P (Suc i) xs = lost P i xs"
    unfolding lost_def by (metis (no_types, lifting) Suc_leD Suc_leI le_neq_implies_less)
qed

text \<open>The entries from \<open>i\<close> on that go are blocks in use, each named once.\<close>

definition goes_ok :: "(nat \<Rightarrow> bool) \<Rightarrow> nat \<Rightarrow> nat list \<Rightarrow> sfs_fs \<Rightarrow> bool" where
  "goes_ok P i xs fs \<longleftrightarrow> lost P i xs \<subseteq> fs_used fs \<and>
     (\<forall>j k. i \<le> j \<longrightarrow> j < length xs \<longrightarrow> i \<le> k \<longrightarrow> k < length xs \<longrightarrow> xs ! j \<noteq> 0 \<longrightarrow> xs ! j = xs ! k \<longrightarrow> j = k)"

lemma goes_ok_stays: "goes_ok P i xs fs \<Longrightarrow> i < length xs \<Longrightarrow> \<not> (P i \<and> xs ! i \<noteq> 0) \<Longrightarrow> goes_ok P (Suc i) xs fs"
  by (auto simp: goes_ok_def clear_stays)

lemma goes_ok_gone:
  assumes ok: "goes_ok P i xs fs" and i: "i < length xs" "P i" "xs ! i \<noteq> 0" and fr: "freed {xs ! i} fs fs'"
  shows "goes_ok P (Suc i) (xs[i := 0]) fs'" and "xs ! i \<in> fs_used fs"
proof -
  note l = clear_gone(2) [of i xs P, OF i(1,2,3)]
  show "xs ! i \<in> fs_used fs" using ok l by (auto simp: goes_ok_def)
  have "xs ! i \<notin> lost P (Suc i) (xs[i := 0])"
  proof
    assume "xs ! i \<in> lost P (Suc i) (xs[i := 0])"
    then obtain j where "xs ! i = xs ! j" "Suc i \<le> j" "j < length xs" by (auto simp: lost_def)
    then show False using ok i unfolding goes_ok_def by (metis Suc_n_not_le_n Suc_leD order_refl)
  qed
  then have "lost P (Suc i) (xs[i := 0]) \<subseteq> fs_used fs'"
    using ok l freedD(2) [OF fr] unfolding goes_ok_def by blast
  moreover have "j = k" if "Suc i \<le> j" "j < length xs" "Suc i \<le> k" "k < length xs" "xs ! j \<noteq> 0" "xs ! j = xs ! k" for j k
    using ok that unfolding goes_ok_def by (meson Suc_leD)
  ultimately show "goes_ok P (Suc i) (xs[i := 0]) fs'" unfolding goes_ok_def by simp
qed

lemma trunc_direct_spec:
  assumes "fs_inv fs" and "length (sfi_direct (sv_i sv)) = 15" and "i + k = 15" and "sfi_blocks (sv_i sv) < 2 ^ 32"
    and "goes_ok (\<lambda>j. blocklen \<le> j) i (sfi_direct (sv_i sv)) fs"
  shows "\<exists>n d fs'. trunc_direct blocklen i k (sv, fs) =
      Some (sv\<lparr>sv_i := (sv_i sv)\<lparr>sfi_direct := cleared (\<lambda>j. blocklen \<le> j) i (sfi_direct (sv_i sv)), sfi_blocks := n\<rparr>,
               sv_dirty := d\<rparr>, fs') \<and> n < 2 ^ 32 \<and>
    freed (lost (\<lambda>j. blocklen \<le> j) i (sfi_direct (sv_i sv))) fs fs'"
  using assms
proof (induction k arbitrary: i sv fs)
  case 0
  then have "i = length (sfi_direct (sv_i sv))" by simp
  then show ?case
    using 0 freed_refl [of fs] cleared_end [of _ "sfi_direct (sv_i sv)"] lost_end [of _ "sfi_direct (sv_i sv)"]
    by (intro exI [of _ "sfi_blocks (sv_i sv)"] exI [of _ "sv_dirty sv"] exI [of _ fs]) simp
next
  case (Suc k)
  let ?P = "\<lambda>j. blocklen \<le> j" and ?ds = "sfi_direct (sv_i sv)"
  have i: "i < length ?ds" using Suc.prems by simp
  show ?case
  proof (cases "?P i \<and> ?ds ! i \<noteq> 0")
    case True
    then have "?ds ! i \<in> lost ?P i ?ds" using i by (auto simp: lost_def)
    then have "?ds ! i \<in> fs_used fs" using Suc.prems(5) by (auto simp: goes_ok_def)
    from sfs_bfree_ok [OF Suc.prems(1) this] obtain fs1 where fs1: "sfs_bfree (?ds ! i) fs = Some fs1" "freed {?ds ! i} fs fs1"
      by blast
    define sv1 where "sv1 = (drop_block sv)\<lparr>sv_i := (sv_i (drop_block sv))\<lparr>sfi_direct := ?ds[i := 0]\<rparr>, sv_dirty := True\<rparr>"
    have s1: "sfi_direct (sv_i sv1) = ?ds[i := 0]" by (simp add: sv1_def)
    have b1: "sfi_blocks (sv_i sv1) < 2 ^ 32" by (simp add: sv1_def drop_block_def sub32_def size32_def)
    have "goes_ok ?P (Suc i) (sfi_direct (sv_i sv1)) fs1"
      using goes_ok_gone(1) [OF Suc.prems(5) i _ _ fs1(2)] True by (simp add: s1)
    then obtain n d fs' where run: "trunc_direct blocklen (Suc i) k (sv1, fs1) =
      Some (sv1\<lparr>sv_i := (sv_i sv1)\<lparr>sfi_direct := cleared ?P (Suc i) (sfi_direct (sv_i sv1)), sfi_blocks := n\<rparr>,
               sv_dirty := d\<rparr>, fs')" "n < 2 ^ 32" "freed (lost ?P (Suc i) (sfi_direct (sv_i sv1))) fs1 fs'"
      using Suc.IH [of fs1 sv1 "Suc i"] Suc.prems(2,3) freedD(1) [OF fs1(2)] b1 s1 by auto
    have "trunc_direct blocklen i (Suc k) (sv, fs) = trunc_direct blocklen (Suc i) k (sv1, fs1)"
      using True i fs1(1) by (simp add: sv1_def Let_def) (simp add: drop_block_def)
    moreover have "sv1\<lparr>sv_i := (sv_i sv1)\<lparr>sfi_direct := cleared ?P i ?ds, sfi_blocks := n\<rparr>, sv_dirty := d\<rparr> =
      sv\<lparr>sv_i := (sv_i sv)\<lparr>sfi_direct := cleared ?P i ?ds, sfi_blocks := n\<rparr>, sv_dirty := d\<rparr>"
      by (simp add: sv1_def drop_block_def)
    moreover have "freed (lost ?P i ?ds) fs fs'"
      using freed_trans [OF fs1(2) run(3)] clear_gone(2) [of i ?ds ?P] i True by (simp add: s1)
    ultimately show ?thesis using run(1,2) clear_gone(1) [of i ?ds ?P] i True by (auto simp: s1)
  next
    case False
    then have "trunc_direct blocklen i (Suc k) (sv, fs) = trunc_direct blocklen (Suc i) k (sv, fs)"
      using i by (cases "blocklen \<le> i") auto
    moreover have "goes_ok ?P (Suc i) ?ds fs" using goes_ok_stays [OF Suc.prems(5) i] False by simp
    ultimately show ?thesis
      using Suc.IH [of fs sv "Suc i"] Suc.prems(1-4) clear_stays [of i ?ds ?P] i False by simp
  qed
qed

text \<open>A buffer once changed stays marked.\<close>

lemma dirty_stays:
  "trunc_entries blocklen base i k (ws, nz, True) st = Some ((ws', nz', dirty'), st') \<Longrightarrow> dirty'"
proof (induction k arbitrary: i ws nz st)
  case (Suc k)
  obtain sv fs where st: "st = (sv, fs)" by fastforce
  show ?case using Suc.prems Suc.IH by (auto simp: st elim!: bind_eq_SomeE split: if_splits)
qed simp

lemma trunc_entries_spec:
  assumes "fs_inv fs" and "length ws = 128" and "i + k = 128" and "sfi_blocks (sv_i sv) < 2 ^ 32"
    and "goes_ok (\<lambda>j. blocklen < base + j) i ws fs"
  shows "\<exists>n dirty' fs'. trunc_entries blocklen base i k (ws, nz, dirty) (sv, fs) =
      Some ((cleared (\<lambda>j. blocklen < base + j) i ws,
             nz \<or> (\<exists>j. i \<le> j \<and> j < 128 \<and> cleared (\<lambda>j. blocklen < base + j) i ws ! j \<noteq> 0), dirty'),
            (sv\<lparr>sv_i := (sv_i sv)\<lparr>sfi_blocks := n\<rparr>\<rparr>, fs')) \<and> n < 2 ^ 32 \<and>
    (\<not> dirty' \<longrightarrow> cleared (\<lambda>j. blocklen < base + j) i ws = ws) \<and>
    freed (lost (\<lambda>j. blocklen < base + j) i ws) fs fs'"
  using assms
proof (induction k arbitrary: i ws nz dirty sv fs)
  case 0
  then have "i = length ws" by simp
  then show ?case
    using 0 freed_refl [of fs] cleared_end [of _ ws] lost_end [of _ ws]
    by (intro exI [of _ "sfi_blocks (sv_i sv)"] exI [of _ dirty] exI [of _ fs]) auto
next
  case (Suc k)
  let ?P = "\<lambda>j. blocklen < base + j"
  have i: "i < length ws" using Suc.prems by simp
  have ex: "(\<exists>j. i \<le> j \<and> j < 128 \<and> Q j) \<longleftrightarrow> Q i \<or> (\<exists>j. Suc i \<le> j \<and> j < 128 \<and> Q j)" for Q
    using i Suc.prems(2) by (metis Suc_leD Suc_leI le_neq_implies_less order_refl)
  show ?case
  proof (cases "?P i \<and> ws ! i \<noteq> 0")
    case True
    then have "ws ! i \<in> lost ?P i ws" using i by (auto simp: lost_def)
    then have "ws ! i \<in> fs_used fs" using Suc.prems(5) by (auto simp: goes_ok_def)
    from sfs_bfree_ok [OF Suc.prems(1) this] obtain fs1 where fs1: "sfs_bfree (ws ! i) fs = Some fs1" "freed {ws ! i} fs fs1"
      by blast
    have b1: "sfi_blocks (sv_i (drop_block sv)) < 2 ^ 32" by (simp add: drop_block_def sub32_def size32_def)
    note g = goes_ok_gone(1) [OF Suc.prems(5) i _ _ fs1(2)] and c = clear_gone [of i ws ?P, OF i]
    obtain n dirty' fs' where run: "trunc_entries blocklen base (Suc i) k (ws[i := 0], nz, True) (drop_block sv, fs1) =
      Some ((cleared ?P i ws, nz \<or> (\<exists>j. Suc i \<le> j \<and> j < 128 \<and> cleared ?P i ws ! j \<noteq> 0), dirty'),
            ((drop_block sv)\<lparr>sv_i := (sv_i (drop_block sv))\<lparr>sfi_blocks := n\<rparr>\<rparr>, fs'))" "n < 2 ^ 32"
      "\<not> dirty' \<longrightarrow> cleared ?P (Suc i) (ws[i := 0]) = ws[i := 0]" "freed (lost ?P (Suc i) (ws[i := 0])) fs1 fs'"
      using Suc.IH [of fs1 "ws[i := 0]" "Suc i" "drop_block sv" nz True] Suc.prems(2,3) freedD(1) [OF fs1(2)] b1 g True c(1)
      by auto
    have dirty': dirty'
      by (rule dirty_stays [OF run(1)])
    have "trunc_entries blocklen base i (Suc k) (ws, nz, dirty) (sv, fs) =
        trunc_entries blocklen base (Suc i) k (ws[i := 0], nz, True) (drop_block sv, fs1)"
      using True i fs1(1) by simp
    moreover have "(drop_block sv)\<lparr>sv_i := (sv_i (drop_block sv))\<lparr>sfi_blocks := n\<rparr>\<rparr> = sv\<lparr>sv_i := (sv_i sv)\<lparr>sfi_blocks := n\<rparr>\<rparr>"
      by (simp add: drop_block_def)
    moreover have "freed (lost ?P i ws) fs fs'" using freed_trans [OF fs1(2) run(4)] c(2) True by simp
    moreover have "cleared ?P i ws ! i = 0" using i True by simp
    ultimately show ?thesis using run(1,2) dirty' ex by auto
  next
    case False
    have nz': "cleared ?P i ws ! i \<noteq> 0 \<longleftrightarrow> ws ! i \<noteq> 0" using False i by auto
    have "trunc_entries blocklen base i (Suc k) (ws, nz, dirty) (sv, fs) =
        trunc_entries blocklen base (Suc i) k (ws, nz \<or> ws ! i \<noteq> 0, dirty) (sv, fs)"
      using i False by (cases "blocklen < base + i") auto
    moreover have "goes_ok ?P (Suc i) ws fs" using goes_ok_stays [OF Suc.prems(5) i] False by simp
    ultimately show ?thesis
      using Suc.IH [of fs ws "Suc i" sv "nz \<or> ws ! i \<noteq> 0" dirty] Suc.prems(1-4) clear_stays [of i ws ?P] i False ex nz'
      by simp
  qed
qed

section \<open>A file that shrinks\<close>

text \<open>
  The pointers of \<open>vn'\<close> are those of \<open>vn\<close>, some of them cleared, and exactly the blocks they named are no
  longer in use.
\<close>

definition shrinks :: "sfs_vnode \<Rightarrow> sfs_fs \<Rightarrow> sfs_vnode \<Rightarrow> sfs_fs \<Rightarrow> bool" where
  "shrinks vn fs vn' fs' \<longleftrightarrow> (\<forall>s. slot_ok s \<longrightarrow> ptr vn' fs' s = ptr vn fs s \<or> ptr vn' fs' s = 0) \<and>
     fs_used fs' = fs_used fs - {ptr vn fs s | s. slot_ok s \<and> ptr vn fs s \<noteq> 0 \<and> ptr vn' fs' s = 0}"

lemma shrinksD:
  assumes "shrinks vn fs vn' fs'"
  shows "slot_ok s \<Longrightarrow> ptr vn' fs' s = ptr vn fs s \<or> ptr vn' fs' s = 0"
    and "fs_used fs' = fs_used fs - {ptr vn fs s | s. slot_ok s \<and> ptr vn fs s \<noteq> 0 \<and> ptr vn' fs' s = 0}"
  using assms by (simp_all only: shrinks_def)

lemma file_inv_shrinks:
  assumes inv: "file_inv vn fs" and sh: "shrinks vn fs vn' fs'" and "fs_inv fs'" and "inode_ok (sv_i vn')"
    and ino: "sv_ino vn' = sv_ino vn"
  shows "file_inv vn' fs'"
proof -
  let ?gone = "{ptr vn fs s | s. slot_ok s \<and> ptr vn fs s \<noteq> 0 \<and> ptr vn' fs' s = 0}"
  have p: "ptr vn' fs' s = ptr vn fs s" if "slot_ok s" "ptr vn' fs' s \<noteq> 0" for s
    using shrinksD(1) [OF sh that(1)] that(2) by auto
  note used = shrinksD(2) [OF sh]
  have own: "ptr vn fs s \<in> fs_used fs \<and> ptr vn fs s \<noteq> sv_ino vn" if "slot_ok s" "ptr vn fs s \<noteq> 0" for s
    using inv that unfolding file_inv_def by blast
  have "ptr vn' fs' s \<in> fs_used fs'" if s: "slot_ok s" "ptr vn' fs' s \<noteq> 0" for s
  proof -
    have e: "ptr vn' fs' s = ptr vn fs s" using p [OF s] .
    have "ptr vn fs s \<notin> ?gone"
    proof
      assume "ptr vn fs s \<in> ?gone"
      then obtain t where t: "ptr vn fs s = ptr vn fs t" "slot_ok t" "ptr vn' fs' t = 0" by blast
      have "s = t" using file_inv_inj [OF inv s(1) t(2) _ t(1)] s e by simp
      then show False using t s by simp
    qed
    then show ?thesis using own [OF s(1)] s e used by simp
  qed
  moreover have notin: "x \<notin> ?gone" if "\<And>s. slot_ok s \<Longrightarrow> ptr vn fs s \<noteq> 0 \<Longrightarrow> x \<noteq> ptr vn fs s" for x
  proof
    assume "x \<in> ?gone"
    then obtain s where "x = ptr vn fs s" "slot_ok s" "ptr vn fs s \<noteq> 0" by (elim CollectE exE conjE)
    then show False using that by simp
  qed
  have n: "sv_ino vn \<notin> ?gone"
  proof (rule notin)
    show "sv_ino vn \<noteq> ptr vn fs s" if "slot_ok s" "ptr vn fs s \<noteq> 0" for s using own [OF that] by simp
  qed
  have z: "0 \<notin> ?gone" by (rule notin) simp
  have u: "sv_ino vn \<in> fs_used fs" "0 \<in> fs_used fs" using inv by (auto simp: file_inv_def)
  have "0 \<in> fs_used fs'" "sv_ino vn' \<in> fs_used fs'"
    unfolding used ino by (rule DiffI [OF u(2) z], rule DiffI [OF u(1) n])
  moreover have "s = t" if "slot_ok s" "slot_ok t" "ptr vn' fs' s \<noteq> 0" "ptr vn' fs' s = ptr vn' fs' t" for s t
    using file_inv_inj [OF inv that(1,2)] p [OF that(1,3)] p [OF that(2)] that by simp
  moreover have "ptr vn' fs' s \<noteq> sv_ino vn'" if "slot_ok s" "ptr vn' fs' s \<noteq> 0" for s
    using p [OF that] own [OF that(1)] that(2) ino by simp
  ultimately show ?thesis
    unfolding file_inv_def using assms(3,4) by (simp del: split_paired_All)
qed

section \<open>The slots of a file without double and triple indirect blocks\<close>

definition small_file :: "sfs_vnode \<Rightarrow> bool" where
  "small_file vn \<longleftrightarrow> sfi_doubleindirect (sv_i vn) = 0 \<and> sfi_tripleindirect (sv_i vn) = 0"

lemma slot_cases:
  assumes "slot_ok s"
  obtains (direct) n where "s = (Direct n, [])" "n < 15" | (single) "s = (Single, [])"
    | (entry) j where "s = (Single, [j])" "j < 128" | (big) "fst s = Double \<or> fst s = Triple"
proof (cases s)
  case (Pair r ns)
  show ?thesis
  proof (cases r)
    case (Direct n)
    then show ?thesis using assms Pair direct by (auto simp: slot_ok_def)
  next
    case Single
    then show ?thesis using assms Pair single entry by (cases ns) (auto simp: slot_ok_def)
  qed (use Pair big in auto)
qed

lemma small_big: "small_file vn \<Longrightarrow> fst s = Double \<or> fst s = Triple \<Longrightarrow> ptr vn fs s = 0"
  using pv_null [of "sv_i vn" "fst s" fs "snd s"] by (auto simp: small_file_def)

text \<open>
  The general step: the direct pointers and the entries of the indirect block cleared where \<open>P\<close> and \<open>Q\<close>
  say so, the indirect block itself dropped or rewritten.
\<close>

lemma small_shrinks:
  assumes inv: "file_inv vn fs" and small: "small_file vn" "small_file vn'"
    and d: "sfi_direct (sv_i vn') = cleared P 0 (sfi_direct (sv_i vn))"
    and i: "sfi_indirect (sv_i vn') = sfi_indirect (sv_i vn) \<or> sfi_indirect (sv_i vn') = 0"
    and e: "\<And>j. j < 128 \<Longrightarrow> child fs' (sfi_indirect (sv_i vn')) j = (if Q j then 0 else child fs (sfi_indirect (sv_i vn)) j)"
    and used: "fs_used fs' = fs_used fs - (lost P 0 (sfi_direct (sv_i vn)) \<union>
       {child fs (sfi_indirect (sv_i vn)) j | j. j < 128 \<and> Q j} \<union>
       (if sfi_indirect (sv_i vn') = 0 then {sfi_indirect (sv_i vn)} else {}) - {0})"
  shows "shrinks vn fs vn' fs'"
proof -
  have len: "length (sfi_direct (sv_i vn)) = 15" using file_invD(2) [OF inv] by (simp add: inode_ok_def)
  have pd: "ptr vn' fs' (Direct n, []) = (if P n then 0 else ptr vn fs (Direct n, []))" if "n < 15" for n
    using that by (simp add: d len)
  have ps: "ptr vn' fs' (Single, [j]) = (if Q j then 0 else ptr vn fs (Single, [j]))" if "j < 128" for j
    using e [OF that] by simp
  have sub: "ptr vn' fs' s = ptr vn fs s \<or> ptr vn' fs' s = 0" if "slot_ok s" for s
    using that
  proof (cases rule: slot_cases)
    case (direct n)
    then show ?thesis using pd by auto
  next
    case single
    then show ?thesis using i by auto
  next
    case (entry j)
    then show ?thesis using ps by auto
  qed (use small_big [OF small(2)] in auto)
  have "x \<in> {ptr vn fs s | s. slot_ok s \<and> ptr vn fs s \<noteq> 0 \<and> ptr vn' fs' s = 0} \<longleftrightarrow>
    x \<in> lost P 0 (sfi_direct (sv_i vn)) \<union> {child fs (sfi_indirect (sv_i vn)) j | j. j < 128 \<and> Q j} \<union>
       (if sfi_indirect (sv_i vn') = 0 then {sfi_indirect (sv_i vn)} else {}) - {0}" (is "x \<in> ?A \<longleftrightarrow> x \<in> ?B") for x
  proof
    assume "x \<in> ?A"
    then obtain s where s: "x = ptr vn fs s" "slot_ok s" "ptr vn fs s \<noteq> 0" "ptr vn' fs' s = 0" by blast
    from s(2) show "x \<in> ?B"
    proof (cases rule: slot_cases)
      case (direct n)
      then have "P n" using s pd by (auto split: if_splits)
      then show ?thesis using s direct len by (auto simp: lost_def)
    next
      case single
      then show ?thesis using s by auto
    next
      case (entry j)
      show ?thesis
      proof (cases "Q j")
        case False
        then show ?thesis using s ps entry by auto
      qed (use s entry in auto)
    qed (use s small_big [OF small(1)] in auto)
  next
    assume "x \<in> ?B"
    then consider (d) n where "x = sfi_direct (sv_i vn) ! n" "n < 15" "P n" "x \<noteq> 0"
      | (e) j where "x = child fs (sfi_indirect (sv_i vn)) j" "j < 128" "Q j" "x \<noteq> 0"
      | (i) "x = sfi_indirect (sv_i vn)" "sfi_indirect (sv_i vn') = 0" "x \<noteq> 0"
      by (auto simp: lost_def len split: if_splits)
    then show "x \<in> ?A"
    proof cases
      case d
      then show ?thesis using pd [of n] by (intro CollectI exI [of _ "(Direct n, [])"]) (simp add: slot_ok_def)
    next
      case e
      then show ?thesis using ps [of j] by (intro CollectI exI [of _ "(Single, [j])"]) (simp add: slot_ok_def)
    next
      case i
      then show ?thesis by (intro CollectI exI [of _ "(Single, [])"]) (simp add: slot_ok_def)
    qed
  qed
  then have "{ptr vn fs s | s. slot_ok s \<and> ptr vn fs s \<noteq> 0 \<and> ptr vn' fs' s = 0} =
    lost P 0 (sfi_direct (sv_i vn)) \<union> {child fs (sfi_indirect (sv_i vn)) j | j. j < 128 \<and> Q j} \<union>
       (if sfi_indirect (sv_i vn') = 0 then {sfi_indirect (sv_i vn)} else {}) - {0}" by (intro set_eqI)
  then show ?thesis unfolding shrinks_def used using sub by simp
qed

lemma shrinks_own:
  assumes inv: "file_inv vn fs" and sh: "shrinks vn fs vn' fs'"
  shows "own_blocks vn' fs' \<subseteq> own_blocks vn fs" and "fs_used fs' = fs_used fs - (own_blocks vn fs - own_blocks vn' fs')"
proof -
  note p = shrinksD(1) [OF sh]
  show sub: "own_blocks vn' fs' \<subseteq> own_blocks vn fs"
  proof
    fix x
    assume "x \<in> own_blocks vn' fs'"
    then obtain s where s: "slot_ok s" "x = ptr vn' fs' s" "x \<noteq> 0" by (auto simp: own_blocks_def)
    then show "x \<in> own_blocks vn fs" using p [OF s(1)] ptr_own [OF s(1), of vn fs] by auto
  qed
  have "{ptr vn fs s | s. slot_ok s \<and> ptr vn fs s \<noteq> 0 \<and> ptr vn' fs' s = 0} = own_blocks vn fs - own_blocks vn' fs'" (is "?A = ?B")
  proof (intro set_eqI iffI)
    fix x
    assume "x \<in> ?A"
    then obtain s where s: "x = ptr vn fs s" "slot_ok s" "x \<noteq> 0" "ptr vn' fs' s = 0" by blast
    have "x \<notin> own_blocks vn' fs'"
    proof
      assume "x \<in> own_blocks vn' fs'"
      then obtain t where t: "slot_ok t" "x = ptr vn' fs' t" by (auto simp: own_blocks_def)
      then have "x = ptr vn fs t" using p [OF t(1)] s by auto
      then have "s = t" using file_inv_inj [OF inv s(2) t(1)] s by simp
      then show False using s t by simp
    qed
    then show "x \<in> ?B" using s ptr_own [OF s(2), of vn fs] by simp
  next
    fix x
    assume x: "x \<in> ?B"
    then obtain s where s: "x = ptr vn fs s" "slot_ok s" "x \<noteq> 0" by (auto simp: own_blocks_def)
    then have "ptr vn' fs' s = 0" using p [OF s(2)] ptr_own [OF s(2), of vn' fs'] x by auto
    then show "x \<in> ?A" using s by blast
  qed
  then show "fs_used fs' = fs_used fs - (own_blocks vn fs - own_blocks vn' fs')" using shrinksD(2) [OF sh] by simp
qed

section \<open>Truncation of a small file\<close>

text \<open>The file \<open>vn'\<close> is \<open>vn\<close> cut: its first \<open>N\<close> blocks are the same, others may be gone and then are free.\<close>

definition cut :: "nat \<Rightarrow> sfs_vnode \<Rightarrow> sfs_fs \<Rightarrow> sfs_vnode \<Rightarrow> sfs_fs \<Rightarrow> bool" where
  "cut N vn fs vn' fs' \<longleftrightarrow> file_inv vn' fs' \<and> small_file vn' \<and> same_file vn vn' \<and> same_fs fs fs' \<and>
     own_blocks vn' fs' \<subseteq> own_blocks vn fs \<and> fs_used fs' = fs_used fs - (own_blocks vn fs - own_blocks vn' fs') \<and>
     (\<forall>n < N. n < max_fileblock \<longrightarrow> file_block vn' fs' n = file_block vn fs n \<and>
        (file_block vn fs n \<noteq> 0 \<longrightarrow> blk fs' (file_block vn fs n) = blk fs (file_block vn fs n))) \<and>
     (\<forall>c. c \<notin> own_blocks vn fs \<longrightarrow> blk fs' c = blk fs c)"

lemma cut_refl: "file_inv vn fs \<Longrightarrow> small_file vn \<Longrightarrow> cut N vn fs vn fs"
  by (auto simp: cut_def)

lemma cut_trans:
  assumes "cut N vn fs vn1 fs1" and "cut N vn1 fs1 vn2 fs2" and "own_blocks vn fs \<subseteq> fs_used fs"
  shows "cut N vn fs vn2 fs2"
proof -
  have "fs_used fs2 = fs_used fs - (own_blocks vn fs - own_blocks vn2 fs2)"
    using assms unfolding cut_def by blast
  moreover have "blk fs2 c = blk fs c" if "c \<notin> own_blocks vn fs" for c using assms that unfolding cut_def by (metis subsetD)
  ultimately show ?thesis using assms unfolding cut_def by (auto dest: same_trans)
qed

lemma small_file_block:
  "small_file vn \<Longrightarrow> n < max_fileblock \<Longrightarrow> file_block vn fs n =
    (if n < 15 then sfi_direct (sv_i vn) ! n else if n < 143 then child fs (sfi_indirect (sv_i vn)) (n - 15) else 0)"
  using small_big [of vn "bmap_slot n" fs] by (auto simp: file_block_def bmap_slot_def Let_def)

lemma own_used: "file_inv vn fs \<Longrightarrow> own_blocks vn fs \<subseteq> fs_used fs"
  using file_inv_used by (auto simp: own_blocks_def)

text \<open>How a step that shrinks a small file becomes a cut.\<close>

lemma small_cut:
  assumes inv: "file_inv vn fs" and small: "small_file vn" "small_file vn'"
    and sh: "shrinks vn fs vn' fs'" and fi: "fs_inv fs'" "inode_ok (sv_i vn')" and same: "same_file vn vn'" "same_fs fs fs'"
    and d: "\<And>n. n < N \<Longrightarrow> n < 15 \<Longrightarrow> sfi_direct (sv_i vn') ! n = sfi_direct (sv_i vn) ! n"
    and e: "\<And>j. j + 15 < N \<Longrightarrow> j < 128 \<Longrightarrow> child fs' (sfi_indirect (sv_i vn')) j = child fs (sfi_indirect (sv_i vn)) j"
    and b: "\<And>c. c = 0 \<or> c \<noteq> sfi_indirect (sv_i vn) \<Longrightarrow> blk fs' c = blk fs c"
  shows "cut N vn fs vn' fs'"
proof -
  have "sv_ino vn' = sv_ino vn" using same by (simp add: same_file_def)
  note inv' = file_inv_shrinks [OF inv sh fi this]
  have blocks: "file_block vn' fs' n = file_block vn fs n" if "n < N" "n < max_fileblock" for n
    using d [of n] e [of "n - 15"] that by (simp add: small_file_block small)
  have data: "blk fs' (file_block vn fs n) = blk fs (file_block vn fs n)" if "n < max_fileblock" "file_block vn fs n \<noteq> 0" for n
  proof (rule b, rule disjI2, rule notI)
    assume a: "file_block vn fs n = sfi_indirect (sv_i vn)"
    have "bmap_slot n = (Single, [])"
      using file_inv_inj [OF inv bmap_slot_ok(1) [OF that(1)], of "(Single, [])"] that a
      by (simp add: file_block_def slot_ok_def)
    then show False using bmap_slot_ok(2) [OF that(1)] by (simp add: leaf_def)
  qed
  have "blk fs' c = blk fs c" if "c \<notin> own_blocks vn fs" for c
  proof (cases "c = 0")
    case False
    then have "c \<noteq> sfi_indirect (sv_i vn)"
      using ptr_own [of "(Single, [])" vn fs] that by (auto simp: slot_ok_def)
    then show ?thesis using b by simp
  qed (use b in simp)
  then show ?thesis
    unfolding cut_def using inv' small same shrinks_own [OF inv sh] blocks data by simp
qed

lemma cleared_False: "cleared (\<lambda>_. False) i xs = xs" "lost (\<lambda>_. False) i xs = {}"
  by (auto simp: lost_def intro: nth_equalityI)

text \<open>The pointers of a sound file are fit to be freed.\<close>

lemma direct_goes_ok:
  assumes inv: "file_inv vn fs"
  shows "goes_ok P 0 (sfi_direct (sv_i vn)) fs"
  unfolding goes_ok_def
proof (intro conjI allI impI subsetI)
  let ?ds = "sfi_direct (sv_i vn)"
  have len: "length ?ds = 15" using file_invD(2) [OF inv] by (simp add: inode_ok_def)
  have slot: "slot_ok (Direct j, [])" if "j < 15" for j using that by (simp add: slot_ok_def)
  show "x \<in> fs_used fs" if x: "x \<in> lost P 0 ?ds" for x
  proof -
    obtain j where "x = ?ds ! j" "j < 15" "?ds ! j \<noteq> 0" using x len by (auto simp: lost_def)
    then show ?thesis using file_inv_used [OF inv slot, of j] by simp
  qed
  show "j = k" if "j < length ?ds" "k < length ?ds" "?ds ! j \<noteq> 0" "?ds ! j = ?ds ! k" for j k
    using file_inv_inj [OF inv slot slot, of j k] that len by simp
qed

lemma entries_goes_ok:
  assumes inv: "file_inv vn fs" and p: "sfi_indirect (sv_i vn) \<noteq> 0"
  shows "goes_ok Q 0 (bwords fs (sfi_indirect (sv_i vn))) fs"
    and "sfi_indirect (sv_i vn) \<notin> lost Q 0 (bwords fs (sfi_indirect (sv_i vn)))"
proof -
  let ?p = "sfi_indirect (sv_i vn)"
  let ?ws = "bwords fs ?p"
  have sl: "slot_ok (Single, [])" and slot: "\<And>j. j < 128 \<Longrightarrow> slot_ok (Single, [j])" by (simp_all add: slot_ok_def)
  have ent: "child fs ?p j = ?ws ! j" for j using p by (simp add: child_def)
  show "goes_ok Q 0 ?ws fs"
    unfolding goes_ok_def
  proof (intro conjI allI impI subsetI)
    show "x \<in> fs_used fs" if x: "x \<in> lost Q 0 ?ws" for x
    proof -
      obtain j where "x = ?ws ! j" "j < 128" "?ws ! j \<noteq> 0" using x by (auto simp: lost_def)
      then show ?thesis using file_inv_used [OF inv slot, of j] by (simp add: ent)
    qed
    show "j = k" if "j < length ?ws" "k < length ?ws" "?ws ! j \<noteq> 0" "?ws ! j = ?ws ! k" for j k
      using file_inv_inj [OF inv slot slot, of j k] that by (simp add: ent)
  qed
  show "?p \<notin> lost Q 0 ?ws"
  proof
    assume "?p \<in> lost Q 0 ?ws"
    then obtain j where "?p = ?ws ! j" "j < 128" by (auto simp: lost_def)
    then show False using file_inv_inj [OF inv sl slot, of j] p by (simp add: ent)
  qed
qed

lemma goes_ok_read: "goes_ok P i xs (fs_read b fs) = goes_ok P i xs fs"
  by (simp add: goes_ok_def)

lemma trunc_direct_cut:
  assumes inv: "file_inv vn fs" and small: "small_file vn"
  shows "\<exists>vn' fs'. trunc_direct blocklen 0 15 (vn, fs) = Some (vn', fs') \<and> cut blocklen vn fs vn' fs' \<and>
    (\<forall>n < 15. blocklen \<le> n \<longrightarrow> sfi_direct (sv_i vn') ! n = 0)"
proof -
  let ?P = "\<lambda>j. blocklen \<le> j" and ?ds = "sfi_direct (sv_i vn)"
  note ok = file_invD(2) [OF inv, unfolded inode_ok_def]
  note go = direct_goes_ok [OF inv, of ?P]
  obtain n d fs' where run: "trunc_direct blocklen 0 15 (vn, fs) =
      Some (vn\<lparr>sv_i := (sv_i vn)\<lparr>sfi_direct := cleared ?P 0 ?ds, sfi_blocks := n\<rparr>, sv_dirty := d\<rparr>, fs')" "n < 2 ^ 32"
    and fr: "freed (lost ?P 0 ?ds) fs fs'"
    using trunc_direct_spec [OF file_invD(1) [OF inv] _ _ _ go] ok by auto
  define vn' where "vn' = vn\<lparr>sv_i := (sv_i vn)\<lparr>sfi_direct := cleared ?P 0 ?ds, sfi_blocks := n\<rparr>, sv_dirty := d\<rparr>"
  note f = freedD [OF fr]
  have sel: "sfi_direct (sv_i vn') = cleared ?P 0 ?ds" "sfi_indirect (sv_i vn') = sfi_indirect (sv_i vn)"
    "sfi_doubleindirect (sv_i vn') = sfi_doubleindirect (sv_i vn)" "sfi_tripleindirect (sv_i vn') = sfi_tripleindirect (sv_i vn)"
    by (simp_all add: vn'_def)
  have small': "small_file vn'" using small by (simp add: small_file_def sel)
  have ch: "child fs' p j = child fs p j" for p j by (simp add: child_def f(5))
  have zero: "0 \<in> lost ?P 0 ?ds \<Longrightarrow> False" by (auto simp: lost_def)
  have "shrinks vn fs vn' fs'"
  proof (rule small_shrinks [OF inv small small', where P = ?P and Q = "\<lambda>_. False"])
    show "fs_used fs' = fs_used fs - (lost ?P 0 ?ds \<union> {child fs (sfi_indirect (sv_i vn)) j | j. j < 128 \<and> False} \<union>
       (if sfi_indirect (sv_i vn') = 0 then {sfi_indirect (sv_i vn)} else {}) - {0})"
      using f(2) zero by (auto simp: sel)
  qed (simp_all add: sel ch)
  moreover have "inode_ok (sv_i vn')"
  proof -
    have "x < 2 ^ 32" if "x \<in> set (cleared ?P 0 ?ds)" for x using that ok by (auto simp: cleared_def)
    then show ?thesis using ok run(2) by (simp add: vn'_def inode_ok_def)
  qed
  moreover have "same_file vn vn'" by (simp add: vn'_def same_file_def vnode.defs)
  ultimately have "cut blocklen vn fs vn' fs'"
    using ok by (intro small_cut [OF inv small small']) (auto simp: sel ch f)
  then show ?thesis using run(1) ok by (auto simp: vn'_def)
qed

lemma trunc_indirect_cut:
  assumes inv: "file_inv vn fs" and small: "small_file vn"
  shows "\<exists>vn' fs'. trunc_indirect blocklen (vn, fs) = Some (Inr (), (vn', fs')) \<and> cut blocklen vn fs vn' fs' \<and>
    sfi_direct (sv_i vn') = sfi_direct (sv_i vn) \<and> (blocklen = 0 \<longrightarrow> sfi_indirect (sv_i vn') = 0)"
proof (cases "blocklen < 142 \<and> sfi_indirect (sv_i vn) \<noteq> 0")
  case False
  then have "trunc_indirect blocklen (vn, fs) = Some (Inr (), (vn, fs))"
    by (cases "blocklen < 142") (simp_all add: trunc_indirect_def SFS_NDIRECT_def SFS_DBPERIDB_def Let_def)
  then show ?thesis using False cut_refl [OF inv small] by auto
next
  case True
  let ?p = "sfi_indirect (sv_i vn)" and ?Q = "\<lambda>j. blocklen < 15 + j"
  let ?ws = "bwords fs ?p" and ?fs1 = "fs_read ?p fs"
  let ?ws' = "cleared ?Q 0 ?ws"
  note d = file_invD [OF inv]
  note ok = d(2) [unfolded inode_ok_def]
  have p: "?p \<noteq> 0" using True by simp
  have sl: "slot_ok (Single, [])" by (simp add: slot_ok_def)
  have pu: "?p \<in> fs_used fs" using file_inv_used [OF inv sl] p by simp
  have go: "goes_ok ?Q 0 ?ws ?fs1" using entries_goes_ok(1) [OF inv p] by (simp add: goes_ok_read)
  note plost = entries_goes_ok(2) [OF inv p, of ?Q]
  have rd: "sfs_rblock (replicate 512 0) ?p fs = Some (Inr (), blk fs ?p, ?fs1)"
    using d(1) fs_used_less [OF pu] by (intro sfs_rblock_ok) simp_all
  define hn where "hn \<longleftrightarrow> (\<exists>j. 0 \<le> j \<and> j < 128 \<and> ?ws' ! j \<noteq> 0)"
  obtain n dirty fs2 where run: "trunc_entries blocklen 15 0 128 (?ws, False, False) (vn, ?fs1) =
      Some ((?ws', hn, dirty), (vn\<lparr>sv_i := (sv_i vn)\<lparr>sfi_blocks := n\<rparr>\<rparr>, fs2))" "n < 2 ^ 32"
    and dirty: "\<not> dirty \<Longrightarrow> ?ws' = ?ws" and fr: "freed (lost ?Q 0 ?ws) ?fs1 fs2"
    using trunc_entries_spec [OF _ _ _ _ go, of 128 vn False False] d(1) ok unfolding hn_def [symmetric] by auto
  note f = freedD [OF fr]
  let ?vn1 = "vn\<lparr>sv_i := (sv_i vn)\<lparr>sfi_blocks := n\<rparr>\<rparr>"
  have vn1: "inode_ok (sv_i ?vn1)" "same_file vn ?vn1" "small_file ?vn1"
    using d(2) run(2) small by (simp_all add: inode_ok_def same_file_def small_file_def vnode.defs)
  have used2: "fs_used fs2 = fs_used fs - lost ?Q 0 ?ws" using f(2) by simp
  have same2: "same_fs fs fs2" using f(4) by (simp add: same_fs_def)
  have lost: "{child fs ?p j | j. j < 128 \<and> ?Q j} - {0} = lost ?Q 0 ?ws" using p by (auto simp: lost_def child_def)
  have start: "trunc_indirect blocklen (vn, fs) =
      (if \<not> hn then do { st \<leftarrow> trunc_drop_indirect ?p (?vn1, fs2); Some (Inr (), st) }
       else if dirty then do { (r, fs3) \<leftarrow> sfs_wblock (enc_words ?ws') ?p fs2; Some (r, (?vn1, fs3)) }
       else Some (Inr (), (?vn1, fs2)))"
    using True rd run(1) by (simp add: trunc_indirect_def SFS_NDIRECT_def SFS_DBPERIDB_def SFS_BLOCKSIZE_def Let_def bwords_def)
  show ?thesis
  proof (cases hn)
    case False
    have pu2: "?p \<in> fs_used fs2" using pu plost used2 by simp
    obtain fs3 where fs3: "sfs_bfree ?p fs2 = Some fs3" "freed {?p} fs2 fs3" using sfs_bfree_ok [OF f(1) pu2] by blast
    note g = freedD [OF fs3(2)]
    define m where "m = sub32 n 1"
    define vn' where "vn' = vn\<lparr>sv_i := (sv_i vn)\<lparr>sfi_indirect := 0, sfi_blocks := m\<rparr>, sv_dirty := True\<rparr>"
    have "trunc_drop_indirect ?p (?vn1, fs2) = Some (vn', fs3)"
      using fs3(1) small by (simp add: trunc_drop_indirect_def drop_block_def small_file_def vn'_def m_def Let_def)
    then have run': "trunc_indirect blocklen (vn, fs) = Some (Inr (), (vn', fs3))" using start False by simp
    have sel: "sfi_direct (sv_i vn') = sfi_direct (sv_i vn)" "sfi_indirect (sv_i vn') = 0" by (simp_all add: vn'_def)
    have ws0: "?ws ! j = 0" if "j < 128" "\<not> ?Q j" for j using False that by (auto simp: hn_def)
    have small': "small_file vn'" using small by (simp add: vn'_def small_file_def)
    have ind: "child fs3 0 j = (if ?Q j then 0 else child fs ?p j)" if "j < 128" for j
      using ws0 that by (simp add: child_def)
    have lp: "lost ?Q 0 ?ws \<union> {?p} = (lost ?Q 0 ?ws \<union> {?p}) - {0}" using p by (auto simp: lost_def)
    have "shrinks vn fs vn' fs3"
    proof (rule small_shrinks [OF inv small small', where P = "\<lambda>_. False" and Q = ?Q])
      show "fs_used fs3 = fs_used fs - (lost (\<lambda>_. False) 0 (sfi_direct (sv_i vn)) \<union> {child fs ?p j | j. j < 128 \<and> ?Q j} \<union>
         (if sfi_indirect (sv_i vn') = 0 then {?p} else {}) - {0})"
        using g(2) used2 lost p by (auto simp: sel cleared_False)
    qed (use ind in \<open>simp_all add: sel cleared_False\<close>)
    moreover have "inode_ok (sv_i vn')" using d(2) by (simp add: vn'_def inode_ok_def m_def sub32_def size32_def)
    moreover have "same_file vn vn'" by (simp add: vn'_def same_file_def vnode.defs)
    moreover have "same_fs fs fs3" using same2 g(4) by (rule same_trans)
    ultimately have "cut blocklen vn fs vn' fs3"
      using g(1,3) f(3) ind by (intro small_cut [OF inv small small']) (simp_all add: sel)
    then show ?thesis using run' sel by auto
  next
    case nonzero: True
    have Q0: "blocklen \<noteq> 0" using nonzero by (auto simp: hn_def split: if_splits)
    have "\<exists>fs3. trunc_indirect blocklen (vn, fs) = Some (Inr (), (?vn1, fs3)) \<and> fs_inv fs3 \<and> fs_used fs3 = fs_used fs2 \<and>
      same_fs fs fs3 \<and> bwords fs3 ?p = ?ws' \<and> (\<forall>c. c \<noteq> ?p \<longrightarrow> blk fs3 c = blk fs c)"
    proof (cases dirty)
      case dirt: True
      have len: "length (enc_words ?ws') = 512" by simp
      have lt: "?p < nblk fs2" using fs_used_less [OF pu] f(6) by simp
      have "sfs_wblock (enc_words ?ws') ?p fs2 = Some (Inr (), fs_write ?p (enc_words ?ws') fs2)"
        using sfs_wblock_ok [OF f(1) len lt] .
      moreover have "\<forall>x \<in> set ?ws'. x < 2 ^ 32"
        using words_at_less [of _ "blk fs ?p" 0 128] by (auto simp: cleared_def bwords_def)
      then have "words_at (enc_words ?ws') 0 128 = ?ws'" by (intro words_at_enc) simp_all
      ultimately show ?thesis
        using start nonzero dirt f same2 len by (intro exI [of _ "fs_write ?p (enc_words ?ws') fs2"]) (simp add: same_fs_def)
    next
      case clean: False
      then have "trunc_indirect blocklen (vn, fs) = Some (Inr (), (?vn1, fs2))" using start nonzero by simp
      then show ?thesis using dirty [OF clean] f same2 by (intro exI [of _ fs2]) simp
    qed
    then obtain fs3 where run': "trunc_indirect blocklen (vn, fs) = Some (Inr (), (?vn1, fs3))" and g: "fs_inv fs3"
      "fs_used fs3 = fs_used fs2" "same_fs fs fs3" "bwords fs3 ?p = ?ws'" "\<And>c. c \<noteq> ?p \<Longrightarrow> blk fs3 c = blk fs c" by blast
    have ind: "child fs3 ?p j = (if ?Q j then 0 else child fs ?p j)" if "j < 128" for j
      using p that by (simp add: child_def g(4))
    have "shrinks vn fs ?vn1 fs3"
    proof (rule small_shrinks [OF inv small vn1(3), where P = "\<lambda>_. False" and Q = ?Q])
      show "fs_used fs3 = fs_used fs - (lost (\<lambda>_. False) 0 (sfi_direct (sv_i vn)) \<union> {child fs ?p j | j. j < 128 \<and> ?Q j} \<union>
         (if sfi_indirect (sv_i ?vn1) = 0 then {?p} else {}) - {0})"
        using g(2) used2 lost p by (simp add: cleared_False)
    qed (use ind in \<open>simp_all add: cleared_False\<close>)
    then have "cut blocklen vn fs ?vn1 fs3"
      using g(1,3,5) ind vn1 p by (intro small_cut [OF inv small vn1(3)]) auto
    then show ?thesis using run' Q0 by auto
  qed
qed

lemma small_empty:
  assumes "small_file vn" and "\<And>n. n < 15 \<Longrightarrow> sfi_direct (sv_i vn) ! n = 0" and "sfi_indirect (sv_i vn) = 0"
  shows "own_blocks vn fs = {}"
proof -
  have "rootptr (sv_i vn) r = 0" if "slot_ok (r, [])" for r
    using assms that by (cases r) (auto simp: slot_ok_def small_file_def)
  then have "ptr vn fs s = 0" if "slot_ok s" for s by (rule empty_ptr [OF _ that])
  then show ?thesis unfolding own_blocks_def by auto
qed

lemma less_div_block: "x < len \<Longrightarrow> x div 512 < (len + 512 - 1) div (512 :: nat)"
proof -
  assume "x < len"
  then have "(x + 512) div 512 \<le> (len + 512 - 1) div 512" by (intro div_le_mono) simp
  then show ?thesis by simp
qed


lemma demo_dir_small: "small_file demo_dir" "own_blocks demo_dir (fs_alloc 2 demo_fs) = {2}"
proof -
  show small: "small_file demo_dir" by (simp add: small_file_def demo_dir_def demo_inode_def)
  have p: "ptr demo_dir fs s = (if s = (Direct 0, []) then 2 else 0)" if "slot_ok s" for fs s
    using that
  proof (cases rule: slot_cases)
    case (direct n)
    then show ?thesis by (simp add: demo_dir_def nth_Cons')
  qed (use small_big [OF small] in \<open>auto simp: demo_dir_def demo_inode_def child_def\<close>)
  have "slot_ok (Direct 0, [])" by (simp add: slot_ok_def)
  then have "2 \<in> own_blocks demo_dir (fs_alloc 2 demo_fs)"
    using ptr_own [of "(Direct 0, [])" demo_dir "fs_alloc 2 demo_fs"] by (simp add: demo_dir_def)
  moreover have "x = 2" if "x \<in> own_blocks demo_dir (fs_alloc 2 demo_fs)" for x
    using that p unfolding own_blocks_def by (auto split: if_splits)
  ultimately show "own_blocks demo_dir (fs_alloc 2 demo_fs) = {2}" by blast
qed


text \<open>
  A file with a single and a double indirect block truncated to length 0: the pointer to the double
  indirect block is cleared, yet the block stays marked in use; nothing refers to it any more.
\<close>

theorem sfs_truncate_leaks:
  assumes inv: "file_inv vn fs" and p: "sfi_indirect (sv_i vn) \<noteq> 0" and d: "sfi_doubleindirect (sv_i vn) \<noteq> 0"
  shows "\<exists>vn' fs'. sfs_truncate 0 (vn, fs) = Some (Inr (), (vn', fs')) \<and> sfi_doubleindirect (sv_i vn') = 0 \<and>
    sfi_doubleindirect (sv_i vn) \<in> fs_used fs' \<and> sfi_doubleindirect (sv_i vn) \<notin> own_blocks vn' fs'"
proof -
  let ?p = "sfi_indirect (sv_i vn)" and ?d = "sfi_doubleindirect (sv_i vn)" and ?ds = "sfi_direct (sv_i vn)"
  let ?T = "\<lambda>j :: nat. 0 \<le> j" and ?Q = "\<lambda>j :: nat. 0 < 15 + j"
  note ok = file_invD(2) [OF inv, unfolded inode_ok_def]
  have sl: "slot_ok (Single, [])" "slot_ok (Double, [])" by (simp_all add: slot_ok_def)
  have pu: "?p \<in> fs_used fs" "?d \<in> fs_used fs" using file_inv_used [OF inv sl(1)] file_inv_used [OF inv sl(2)] p d by simp_all
  obtain n e fs1 where t1: "trunc_direct 0 0 15 (vn, fs) =
      Some (vn\<lparr>sv_i := (sv_i vn)\<lparr>sfi_direct := cleared ?T 0 ?ds, sfi_blocks := n\<rparr>, sv_dirty := e\<rparr>, fs1)" "n < 2 ^ 32"
    and fr1: "freed (lost ?T 0 ?ds) fs fs1"
    using trunc_direct_spec [OF file_invD(1) [OF inv] _ _ _ direct_goes_ok [OF inv], of 15 0] ok by auto
  define vn1 where "vn1 = vn\<lparr>sv_i := (sv_i vn)\<lparr>sfi_direct := cleared ?T 0 ?ds, sfi_blocks := n\<rparr>, sv_dirty := e\<rparr>"
  note f1 = freedD [OF fr1]
  have notlost: "x \<notin> lost ?T 0 ?ds" if "x = ptr vn fs s" "x \<noteq> 0" "slot_ok s" "\<And>n. s \<noteq> (Direct n, [])" for x s
  proof
    assume "x \<in> lost ?T 0 ?ds"
    then obtain j where j: "x = ptr vn fs (Direct j, [])" "slot_ok (Direct j, [])" using ok by (auto simp: lost_def slot_ok_def)
    then show False using file_inv_inj [OF inv that(3) j(2)] that by metis
  qed
  have pu1: "?p \<in> fs_used fs1" "?d \<in> fs_used fs1"
    using notlost [of ?p "(Single, [])"] notlost [of ?d "(Double, [])"] pu sl p d f1(2) by auto
  let ?ws = "bwords fs ?p" and ?fs2 = "fs_read ?p fs1"
  have go: "goes_ok ?Q 0 ?ws ?fs2"
  proof -
    have "lost ?Q 0 ?ws \<inter> lost ?T 0 ?ds = {}"
    proof (intro equals0I, elim IntE)
      fix x
      assume "x \<in> lost ?Q 0 ?ws" and x: "x \<in> lost ?T 0 ?ds"
      then obtain j where j: "x = ptr vn fs (Single, [j])" "x \<noteq> 0" "slot_ok (Single, [j])"
        using p by (auto simp: lost_def slot_ok_def child_def)
      then show False using notlost [OF j] x by simp
    qed
    then have "fs_used fs1 \<inter> lost ?Q 0 ?ws = fs_used fs \<inter> lost ?Q 0 ?ws" using f1(2) by blast
    then have "lost ?Q 0 ?ws \<subseteq> fs_used fs1" if "lost ?Q 0 ?ws \<subseteq> fs_used fs" using that by blast
    then show ?thesis
      using entries_goes_ok(1) [OF inv p, of ?Q] by (simp add: goes_ok_read goes_ok_def)
  qed
  have rd: "sfs_rblock (replicate 512 0) ?p fs1 = Some (Inr (), blk fs ?p, ?fs2)"
    using sfs_rblock_ok [OF f1(1), of "replicate 512 0" ?p] fs_used_less [OF pu1(1)] f1(3) by simp
  have nzf: "(False \<or> (\<exists>j. 0 \<le> j \<and> j < 128 \<and> cleared ?Q 0 ?ws ! j \<noteq> 0)) = False" by simp
  have pre: "fs_inv ?fs2" "length ?ws = 128" "0 + 128 = (128 :: nat)" "sfi_blocks (sv_i vn1) < 2 ^ 32"
    using f1(1) t1(2) by (simp_all add: vn1_def)
  obtain m dirty fs3 where t2: "trunc_entries 0 15 0 128 (?ws, False, False) (vn1, ?fs2) =
      Some ((cleared ?Q 0 ?ws, False, dirty), (vn1\<lparr>sv_i := (sv_i vn1)\<lparr>sfi_blocks := m\<rparr>\<rparr>, fs3))"
    and fr3: "freed (lost ?Q 0 ?ws) ?fs2 fs3"
    using trunc_entries_spec [OF pre go, of False False] unfolding nzf by auto
  note f3 = freedD [OF fr3]
  have notent: "?d \<notin> lost ?Q 0 ?ws"
  proof
    assume "?d \<in> lost ?Q 0 ?ws"
    then obtain j where j: "?d = ptr vn fs (Single, [j])" "slot_ok (Single, [j])"
      using p by (auto simp: lost_def slot_ok_def child_def)
    then show False using file_inv_inj [OF inv sl(2) j(2)] d by simp
  qed
  have pu3: "?p \<in> fs_used fs3" "?d \<in> fs_used fs3"
    using pu1 entries_goes_ok(2) [OF inv p, of ?Q] notent f3(2) by simp_all
  obtain fs4 where fs4: "sfs_bfree ?p fs3 = Some fs4" "freed {?p} fs3 fs4" using sfs_bfree_ok [OF f3(1) pu3(1)] by blast
  have dp: "?d \<noteq> ?p" using file_inv_inj [OF inv sl(2) sl(1)] d by auto
  have du: "?d \<in> fs_used fs4" using freedD(2) [OF fs4(2)] pu3(2) dp by simp
  obtain vn3 where q: "trunc_drop_indirect ?p (vn1\<lparr>sv_i := (sv_i vn1)\<lparr>sfi_blocks := m\<rparr>\<rparr>, fs3) = Some (vn3, fs4)"
    and sel: "sfi_direct (sv_i vn3) = cleared ?T 0 ?ds" "sfi_indirect (sv_i vn3) = 0" "sfi_doubleindirect (sv_i vn3) = 0"
      "sfi_tripleindirect (sv_i vn3) = 0"
    using fs4(1) d by (cases "sfi_tripleindirect (sv_i vn) = 0")
      (simp_all add: trunc_drop_indirect_def drop_block_def vn1_def Let_def)
  define vn4 where "vn4 = vn3\<lparr>sv_i := (sv_i vn3)\<lparr>sfi_size := 0\<rparr>, sv_dirty := True\<rparr>"
  have "sfi_indirect (sv_i vn1) = ?p" by (simp add: vn1_def)
  then have "trunc_indirect 0 (vn1, fs1) = Some (Inr (), (vn3, fs4))"
    using rd t2 q p by (simp add: trunc_indirect_def SFS_NDIRECT_def SFS_DBPERIDB_def SFS_BLOCKSIZE_def Let_def bwords_def)
  then have run: "sfs_truncate 0 (vn, fs) = Some (Inr (), (vn4, fs4))"
    using t1(1) by (simp add: sfs_truncate_def SFS_BLOCKSIZE_def SFS_NDIRECT_def vn1_def vn4_def Let_def)
  have "own_blocks vn4 fs4 = {}"
    using ok by (intro small_empty) (simp_all add: small_file_def vn4_def sel)
  then show ?thesis using run du by (simp add: vn4_def sel)
qed

text \<open>A file that has both indirect blocks, and nothing in them.\<close>

definition demo_single :: sfs_vnode where
  "demo_single = demo_vnode\<lparr>sv_i := demo_inode\<lparr>sfi_indirect := 2\<rparr>\<rparr>"

definition demo_both :: sfs_vnode where
  "demo_both = demo_vnode\<lparr>sv_i := demo_inode\<lparr>sfi_indirect := 2, sfi_doubleindirect := 3\<rparr>\<rparr>"

lemma demo_both_inv: "file_inv demo_both (fs_alloc 3 (fs_alloc 2 demo_fs))"
proof -
  have "grows {(Single, [])} demo_vnode demo_fs demo_single (fs_alloc 2 demo_fs)"
  proof (rule grows_root [OF demo_file_inv])
    show "inode_ok (sv_i demo_single)" using demo_inode_ok by (simp add: demo_single_def inode_ok_def)
    show "same_file demo_vnode demo_single" by (simp add: same_file_def demo_single_def demo_vnode_def vnode.defs)
    show "rootptr (sv_i demo_single) r = (if r = Single then 2 else rootptr (sv_i demo_vnode) r)" for r
      by (cases r) (simp_all add: demo_single_def demo_vnode_def)
  qed (use demo_unused in \<open>simp_all add: slot_ok_def demo_vnode_def demo_inode_def\<close>)
  then have inv: "file_inv demo_single (fs_alloc 2 demo_fs)" by (rule growsD(1))
  have u: "fs_used (fs_alloc 2 demo_fs) = insert 2 (fs_used demo_fs)"
    using fs_alloc_inv(2) [OF demo_fs_inv] demo_unused by simp
  have "grows {(Double, [])} demo_single (fs_alloc 2 demo_fs) demo_both (fs_alloc 3 (fs_alloc 2 demo_fs))"
  proof (rule grows_root [OF inv])
    show "inode_ok (sv_i demo_both)" using demo_inode_ok by (simp add: demo_both_def inode_ok_def)
    show "same_file demo_single demo_both"
      by (simp add: same_file_def demo_single_def demo_both_def demo_vnode_def vnode.defs)
    show "rootptr (sv_i demo_both) r = (if r = Double then 3 else rootptr (sv_i demo_single) r)" for r
      by (cases r) (simp_all add: demo_single_def demo_both_def)
  qed (use demo_unused u in \<open>simp_all add: slot_ok_def demo_single_def demo_inode_def\<close>)
  then show ?thesis by (rule growsD(1))
qed

lemma sfs_truncate_leaks_witness:
  "\<exists>vn' fs'. sfs_truncate 0 (demo_both, fs_alloc 3 (fs_alloc 2 demo_fs)) = Some (Inr (), (vn', fs')) \<and>
     3 \<in> fs_used fs' \<and> 3 \<notin> own_blocks vn' fs'"
  using sfs_truncate_leaks [OF demo_both_inv] by (auto simp: demo_both_def)

end
