(* ===== verification/Sfs_vol.thy ===== *)
theory Sfs_vol
  imports Sfs_ops
begin

text \<open>
  Volumes: \<^verbatim>\<open>kern/fs/sfs/sfs_fs.c\<close>. Mounting reads the superblock and the free map of a disk, syncing writes back
  what has changed since, unmounting lets go of it. The device a volume lives on is part of the volume's state.
\<close>

section \<open>The functions\<close>

definition SFS_BLOCKBITS :: nat where "SFS_BLOCKBITS = SFS_BLOCKSIZE * 8"

definition SFS_BITMAPSIZE :: "nat \<Rightarrow> nat" where
  "SFS_BITMAPSIZE nblocks = size32 (size32 (nblocks + SFS_BLOCKBITS - 1) div SFS_BLOCKBITS * SFS_BLOCKBITS)"

definition SFS_BITBLOCKS :: "nat \<Rightarrow> nat" where
  "SFS_BITBLOCKS nblocks = SFS_BITMAPSIZE nblocks div SFS_BLOCKBITS"

text \<open>A stretch of the map's data, and the data with a stretch replaced.\<close>

definition map_block :: "sfs_fs \<Rightarrow> nat \<Rightarrow> byte list" where
  "map_block fs j = take SFS_BLOCKSIZE (drop (j * SFS_BLOCKSIZE) (bitmap_getdata (sfs_freemap fs)))"

definition set_map_block :: "nat \<Rightarrow> byte list \<Rightarrow> sfs_fs \<Rightarrow> sfs_fs" where
  "set_map_block j bs fs =
     (let d = bitmap_getdata (sfs_freemap fs)
      in fs\<lparr>sfs_freemap := (sfs_freemap fs)\<lparr>bv := take (j * SFS_BLOCKSIZE) d @ bs @ drop (j * SFS_BLOCKSIZE + SFS_BLOCKSIZE) d\<rparr>\<rparr>)"

text \<open>The loop of \<^verbatim>\<open>sfs_mapio\<close> from sector \<open>j\<close> of the map, \<open>k\<close> left.\<close>

fun sfs_mapio_from :: "uio_rw \<Rightarrow> nat \<Rightarrow> nat \<Rightarrow> sfs_fs \<Rightarrow> (unit res \<times> sfs_fs) option" where
  "sfs_mapio_from rw j 0 fs = Some (Inr (), fs)"
| "sfs_mapio_from rw j (Suc k) fs = do {
     _ \<leftarrow> kassert ((j + 1) * SFS_BLOCKSIZE \<le> length (bitmap_getdata (sfs_freemap fs)));
     (r, fs1) \<leftarrow> (if rw = UIO_READ then do {
                     (r, bs, fs1) \<leftarrow> sfs_rblock (map_block fs j) (SFS_MAP_LOCATION + j) fs;
                     Some (r, set_map_block j bs fs1)
                   }
                   else sfs_wblock (map_block fs j) (SFS_MAP_LOCATION + j) fs);
     (case r of
        Inl e \<Rightarrow> Some (Inl e, fs1)
      | Inr _ \<Rightarrow> sfs_mapio_from rw (j + 1) k fs1)
   }"

definition sfs_mapio :: "uio_rw \<Rightarrow> sfs_fs \<Rightarrow> (unit res \<times> sfs_fs) option" where
  "sfs_mapio rw fs = sfs_mapio_from rw 0 (SFS_BITBLOCKS (sp_nblocks (sfs_super fs))) fs"

text \<open>The loop of \<^verbatim>\<open>sfs_sync\<close> over the loaded vnodes; what \<^verbatim>\<open>VOP_FSYNC\<close> returns is ignored.\<close>

fun sync_vnodes :: "nat \<Rightarrow> nat \<Rightarrow> sfs_fs \<Rightarrow> sfs_fs option" where
  "sync_vnodes i 0 fs = Some fs"
| "sync_vnodes i (Suc k) fs = do {
     p \<leftarrow> array_getguy (sfs_vnodes fs) i;
     sv \<leftarrow> sv_heap fs p;
     _ \<leftarrow> vnode_check False sv;
     (_, fs1) \<leftarrow> sfs_fsync p fs;
     sync_vnodes (i + 1) k fs1
   }"

definition sfs_sync :: "sfs_fs \<Rightarrow> (unit res \<times> sfs_fs) option" where
  "sfs_sync fs = do {
     fs1 \<leftarrow> sync_vnodes 0 (array_getnum (sfs_vnodes fs)) fs;
     ebind (if sfs_freemapdirty fs1
            then ebind (sfs_mapio UIO_WRITE fs1) (\<lambda>_ fs2. Some (Inr (), fs2\<lparr>sfs_freemapdirty := False\<rparr>))
            else Some (Inr (), fs1)) (\<lambda>_ fs3.
       (if sfs_superdirty fs3
        then ebind (sfs_wblock (enc_super (sfs_super fs3)) SFS_SB_LOCATION fs3)
               (\<lambda>_ fs4. Some (Inr (), fs4\<lparr>sfs_superdirty := False\<rparr>))
        else Some (Inr (), fs3)))
   }"

text \<open>The name as the string it is: up to the terminator.\<close>

definition sfs_getvolname :: "sfs_fs \<Rightarrow> byte list" where
  "sfs_getvolname fs = takeWhile (\<lambda>c. c \<noteq> 0) (sp_volname (sfs_super fs))"

text \<open>\<^verbatim>\<open>sfs_unmount\<close>; on success the object is gone and the device is left.\<close>

definition sfs_unmount :: "sfs_fs \<Rightarrow> lhd_softc res option" where
  "sfs_unmount fs =
     (if array_getnum (sfs_vnodes fs) > 0 then Some (Inl EBUSY)
      else do {
        _ \<leftarrow> kassert (\<not> sfs_superdirty fs);
        _ \<leftarrow> kassert (\<not> sfs_freemapdirty fs);
        Some (Inr (sfs_device fs))
      })"

text \<open>The allocations of \<^verbatim>\<open>sfs_domount\<close>: the object, the table of vnodes, the map and its data.\<close>

record mount_mem =
  mm_fs :: bool
  mm_array :: bool
  mm_map :: bool
  mm_data :: bool

text \<open>
  A newly allocated object: what its fields hold before they are set is never used, here it is zero.
\<close>

definition new_fs :: "nat parray \<Rightarrow> lhd_softc \<Rightarrow> sfs_fs" where
  "new_fs vnodes dev = \<lparr>sfs_super = dec_super (replicate 512 0), sfs_superdirty = False, sfs_device = dev, sfs_vnodes = vnodes,
     sfs_freemap = \<lparr>nbits = 0, bv = []\<rparr>, sfs_freemapdirty = False, sv_heap = Map.empty\<rparr>"

text \<open>\<^verbatim>\<open>sfs_domount\<close> on a disk whose sectors have \<open>blocksize\<close> bytes; the device comes back in every case.\<close>

definition sfs_domount :: "mount_mem \<Rightarrow> nat \<Rightarrow> lhd_softc \<Rightarrow> (sfs_fs res \<times> lhd_softc) option" where
  "sfs_domount mem blocksize dev =
     (if blocksize \<noteq> SFS_BLOCKSIZE then Some (Inl ENXIO, dev)
      else if \<not> mm_fs mem then Some (Inl ENOMEM, dev)
      else
        (case array_create (mm_array mem) of
           None \<Rightarrow> Some (Inl ENOMEM, dev)
         | Some vnodes \<Rightarrow> do {
             let fs = new_fs vnodes dev;
             (r, bs, fs1) \<leftarrow> sfs_rblock (enc_super (sfs_super fs)) SFS_SB_LOCATION fs;
             (case r of
                Inl e \<Rightarrow> Some (Inl e, sfs_device fs1)
              | Inr _ \<Rightarrow>
                  let s = dec_super bs
                  in if sp_magic s \<noteq> SFS_MAGIC then Some (Inl EINVAL, sfs_device fs1)
                     else do {
                       let fs2 = fs1\<lparr>sfs_super := s\<lparr>sp_volname := (sp_volname s)[SFS_VOLNAME_SIZE - 1 := 0]\<rparr>\<rparr>;
                       m \<leftarrow> bitmap_create (mm_map mem) (mm_data mem) (SFS_BITMAPSIZE (sp_nblocks (sfs_super fs2)));
                       (case m of
                          None \<Rightarrow> Some (Inl ENOMEM, sfs_device fs2)
                        | Some freemap \<Rightarrow> do {
                            (r, fs3) \<leftarrow> sfs_mapio UIO_READ (fs2\<lparr>sfs_freemap := freemap\<rparr>);
                            (case r of
                               Inl e \<Rightarrow> Some (Inl e, sfs_device fs3)
                             | Inr _ \<Rightarrow>
                                 Some (Inr (fs3\<lparr>sfs_superdirty := False, sfs_freemapdirty := False\<rparr>), sfs_device fs3))
                          })
                     })
           }))"

section \<open>Sizes\<close>

lemma bitblocks_eq: "n < 2 ^ 31 \<Longrightarrow> SFS_BITBLOCKS n = (n + 4095) div 4096"
  and bitmapsize_eq: "n < 2 ^ 31 \<Longrightarrow> SFS_BITMAPSIZE n = (n + 4095) div 4096 * 4096"
proof -
  assume n: "n < 2 ^ 31"
  then have "n < 2147483648" by simp
  then have q: "(n + 4095) div 4096 * 4096 < 4294967296"
    using div_times_less_eq_dividend [of "n + 4095" 4096] by linarith
  have "size32 (n + 4096 - 1) = n + 4095" using n by (simp add: size32_def)
  then show s: "SFS_BITMAPSIZE n = (n + 4095) div 4096 * 4096"
    unfolding SFS_BITMAPSIZE_def SFS_BLOCKBITS_def SFS_BLOCKSIZE_def using q by (simp add: size32_def)
  show "SFS_BITBLOCKS n = (n + 4095) div 4096"
    unfolding SFS_BITBLOCKS_def s by (simp add: SFS_BLOCKBITS_def SFS_BLOCKSIZE_def)
qed

lemma concat_chunks:
  "k * c \<le> length xs \<Longrightarrow> concat (map (\<lambda>i. take c (drop (i * c) xs)) [0..<k]) = take (k * c) xs"
proof (induction k)
  case (Suc k)
  then show ?case by (simp add: take_add add.commute [of c])
qed simp

section \<open>Reading and writing the map\<close>

text \<open>The same volume on a disk that may have changed.\<close>

definition redisk :: "sfs_fs \<Rightarrow> sfs_fs \<Rightarrow> bool" where
  "redisk fs fs' \<longleftrightarrow> fs' = fs\<lparr>sfs_device := sfs_device fs'\<rparr>"

lemma redisk_refl: "redisk fs fs" and redisk_write: "redisk fs (fs_write b bs fs)"
  by (simp_all add: redisk_def fs_write_def)

lemma redisk_trans: "redisk a b \<Longrightarrow> redisk b c \<Longrightarrow> redisk a c"
  unfolding redisk_def by (metis (no_types, lifting) sfs_fs.update_convs(3) sfs_fs.surjective)

lemma mapio_write:
  assumes "fs_inv fs" and "SFS_MAP_LOCATION + j + k \<le> nblk fs" and "(j + k) * 512 \<le> length (bv (sfs_freemap fs))"
  shows "\<exists>fs'. sfs_mapio_from UIO_WRITE j k fs = Some (Inr (), fs') \<and> fs_inv fs' \<and> redisk fs fs' \<and>
    (\<forall>c. blk fs' c = (if SFS_MAP_LOCATION + j \<le> c \<and> c < SFS_MAP_LOCATION + j + k then map_block fs (c - SFS_MAP_LOCATION) else blk fs c))"
  using assms
proof (induction k arbitrary: j fs)
  case 0
  then show ?case by (auto simp: redisk_refl)
next
  case (Suc k)
  let ?b = "SFS_MAP_LOCATION + j" and ?f = "fs_write (SFS_MAP_LOCATION + j) (map_block fs j) fs"
  have len: "length (map_block fs j) = 512" using Suc.prems(3) by (simp add: map_block_def bitmap_getdata_def SFS_BLOCKSIZE_def)
  have w: "sfs_wblock (map_block fs j) ?b fs = Some (Inr (), ?f)"
    using Suc.prems(1,2) len by (intro sfs_wblock_ok) simp_all
  have mb: "map_block ?f = map_block fs" by (simp add: map_block_def fun_eq_iff)
  from Suc.IH [of ?f "j + 1"] Suc.prems len obtain fs' where
    ih: "sfs_mapio_from UIO_WRITE (j + 1) k ?f = Some (Inr (), fs')" "fs_inv fs'" "redisk ?f fs'"
    "\<And>c. blk fs' c = (if ?b + 1 \<le> c \<and> c < ?b + 1 + k then map_block fs (c - SFS_MAP_LOCATION) else blk ?f c)"
    unfolding mb by auto
  have "sfs_mapio_from UIO_WRITE j (Suc k) fs = Some (Inr (), fs')"
    using w ih(1) Suc.prems(3) by (simp add: bitmap_getdata_def SFS_BLOCKSIZE_def)
  moreover have "blk fs' c = (if ?b \<le> c \<and> c < ?b + Suc k then map_block fs (c - SFS_MAP_LOCATION) else blk fs c)" for c
    using ih(4) [of c] by (cases "c = ?b") auto
  ultimately show ?case using ih(2) redisk_trans [OF redisk_write ih(3)] by blast
qed

lemma rblock_disk:
  assumes "disk_ok (sfs_device fs)" and "length data = 512" and "b < d_blocks (sfs_device fs)"
  shows "sfs_rblock data b fs = Some (Inr (), blk fs b, fs_read b fs)"
proof -
  let ?u = "mk_kuio (mem_of data) 0 SFS_BLOCKSIZE (b * SFS_BLOCKSIZE) UIO_READ"
  have s: "sector_uio ?u b" using assms(2) by (rule sector_kuio)
  have "sfs_rwblock ?u fs = Some (Inr (), uio_filled (blk fs b) ?u, fs_read b fs)"
    using sfs_retry_ok [OF lhd_io_read [OF assms(1) s _ assms(3)]] by (simp add: sfs_rwblock_def blk_def fs_read_def)
  moreover have "contents (fst (memcpy_out (mem_of data) 0 (blk fs b))) 0 512 = blk fs b"
    using uio_filled_contents [of ?u "blk fs b"] s assms(1) by (simp add: sector_uio_def SFS_BLOCKSIZE_def blk_def)
  ultimately show ?thesis using assms(2) by (simp add: sfs_rblock_def)
qed

lemma mapio_read:
  assumes "disk_ok (sfs_device fs)" and "SFS_MAP_LOCATION + j + k \<le> d_blocks (sfs_device fs)"
    and "(j + k) * 512 \<le> length (bv (sfs_freemap fs))"
  shows "\<exists>lh. sfs_mapio_from UIO_READ j k fs = Some (Inr (), fs\<lparr>sfs_device := lh, sfs_freemap := (sfs_freemap fs)\<lparr>bv :=
      take (j * 512) (bv (sfs_freemap fs)) @ concat (map (\<lambda>i. blk fs (SFS_MAP_LOCATION + i)) [j..<j + k]) @
      drop ((j + k) * 512) (bv (sfs_freemap fs))\<rparr>\<rparr>) \<and>
    disk_ok lh \<and> sectors lh = sectors (sfs_device fs) \<and> d_blocks lh = d_blocks (sfs_device fs)"
  using assms
proof (induction k arbitrary: j fs)
  case 0
  then show ?case by (intro exI [of _ "sfs_device fs"]) simp
next
  case (Suc k)
  let ?b = "SFS_MAP_LOCATION + j" and ?d = "bv (sfs_freemap fs)"
  define f where "f = set_map_block j (blk fs ?b) (fs_read ?b fs)"
  have len: "length (map_block fs j) = 512" "length (blk fs ?b) = 512"
    using Suc.prems(1,3) by (simp_all add: map_block_def bitmap_getdata_def SFS_BLOCKSIZE_def blk_def)
  have r: "sfs_rblock (map_block fs j) ?b fs = Some (Inr (), blk fs ?b, fs_read ?b fs)"
    using Suc.prems(1,2) len by (intro rblock_disk) simp_all
  have fd: "sfs_device f = disk_read ?b (sfs_device fs)" "blk f = blk fs"
    "bv (sfs_freemap f) = take (j * 512) ?d @ blk fs ?b @ drop ((j + 1) * 512) ?d"
    by (simp_all add: f_def set_map_block_def fs_read_def Let_def bitmap_getdata_def SFS_BLOCKSIZE_def blk_def fun_eq_iff add.commute)
  have pre: "disk_ok (sfs_device f)" "SFS_MAP_LOCATION + (j + 1) + k \<le> d_blocks (sfs_device f)"
    "(j + 1 + k) * 512 \<le> length (bv (sfs_freemap f))"
    using Suc.prems len(2) by (simp_all add: fd min_def)
  from Suc.IH [OF pre] obtain lh where
    ih: "sfs_mapio_from UIO_READ (j + 1) k f = Some (Inr (), f\<lparr>sfs_device := lh, sfs_freemap := (sfs_freemap f)\<lparr>bv :=
      take ((j + 1) * 512) (bv (sfs_freemap f)) @ concat (map (\<lambda>i. blk f (SFS_MAP_LOCATION + i)) [j + 1..<j + 1 + k]) @
      drop ((j + 1 + k) * 512) (bv (sfs_freemap f))\<rparr>\<rparr>)"
    and d: "disk_ok lh" "sectors lh = sectors (sfs_device f)" "d_blocks lh = d_blocks (sfs_device f)"
    by blast
  have t: "take ((j + 1) * 512) (bv (sfs_freemap f)) = take (j * 512) ?d @ blk fs ?b"
    "drop ((j + 1 + k) * 512) (bv (sfs_freemap f)) = drop ((j + Suc k) * 512) ?d"
    using len(2) Suc.prems(3) unfolding fd by (simp_all add: min_def ac_simps)
  have u: "concat (map (\<lambda>i. blk fs (SFS_MAP_LOCATION + i)) [j..<j + Suc k]) =
      blk fs ?b @ concat (map (\<lambda>i. blk fs (SFS_MAP_LOCATION + i)) [j + 1..<j + 1 + k])"
    using upt_conv_Cons [of j "j + Suc k"] by simp
  have "sfs_mapio_from UIO_READ j (Suc k) fs = sfs_mapio_from UIO_READ (j + 1) k f"
    using r Suc.prems(3) by (simp add: f_def bitmap_getdata_def SFS_BLOCKSIZE_def)
  moreover have "f\<lparr>sfs_device := lh, sfs_freemap := (sfs_freemap f)\<lparr>bv := x\<rparr>\<rparr> =
      fs\<lparr>sfs_device := lh, sfs_freemap := (sfs_freemap fs)\<lparr>bv := x\<rparr>\<rparr>" for x
    by (simp add: f_def set_map_block_def fs_read_def Let_def)
  ultimately show ?case using ih d unfolding t u fd(2) by (intro exI [of _ lh]) (simp add: fd)
qed

section \<open>Syncing the vnodes\<close>

text \<open>
  The table of loaded vnodes as the operations keep it: vnodes in use, each for an inode of its own, and
  the inode on disk is the one in memory unless the vnode is marked.
\<close>

definition loaded :: "sfs_fs \<Rightarrow> nat list" where
  "loaded fs = array_list (sfs_vnodes fs)"

definition vnode_of :: "sfs_fs \<Rightarrow> nat \<Rightarrow> sfs_vnode" where
  "vnode_of fs p = the (sv_heap fs p)"

definition vnode_ok :: "sfs_fs \<Rightarrow> nat \<Rightarrow> bool" where
  "vnode_ok fs p \<longleftrightarrow> sv_heap fs p \<noteq> None \<and> vnode_inv (vnode_of fs p) \<and> inode_ok (sv_i (vnode_of fs p)) \<and>
     sv_ino (vnode_of fs p) < nblk fs \<and>
     (\<not> sv_dirty (vnode_of fs p) \<longrightarrow> dec_inode (blk fs (sv_ino (vnode_of fs p))) = sv_i (vnode_of fs p))"

definition tab_inv :: "sfs_fs \<Rightarrow> bool" where
  "tab_inv fs \<longleftrightarrow> fs_inv fs \<and> array_inv (sfs_vnodes fs) \<and> (\<forall>p \<in> set (loaded fs). vnode_ok fs p) \<and>
     inj_on (\<lambda>p. sv_ino (vnode_of fs p)) (set (loaded fs))"

text \<open>The volume after its vnode at \<open>p\<close> was written back.\<close>

definition flushed :: "nat \<Rightarrow> sfs_fs \<Rightarrow> sfs_fs" where
  "flushed p fs = (let sv = vnode_of fs p in
     if sv_dirty sv then sv_put p (sv\<lparr>sv_dirty := False\<rparr>) (fs_write (sv_ino sv) (enc_inode (sv_i sv)) fs) else sv_put p sv fs)"

lemma flushed_sel [simp]:
  "sfs_super (flushed p fs) = sfs_super fs" "sfs_superdirty (flushed p fs) = sfs_superdirty fs"
  "sfs_vnodes (flushed p fs) = sfs_vnodes fs" "sfs_freemap (flushed p fs) = sfs_freemap fs"
  "sfs_freemapdirty (flushed p fs) = sfs_freemapdirty fs" "loaded (flushed p fs) = loaded fs"
  "vnode_of (flushed p fs) q = (if q = p then (vnode_of fs p)\<lparr>sv_dirty := False\<rparr> else vnode_of fs q)"
  "sv_heap (flushed p fs) q = (if q = p then Some ((vnode_of fs p)\<lparr>sv_dirty := False\<rparr>) else sv_heap fs q)"
  "c \<noteq> sv_ino (vnode_of fs p) \<Longrightarrow> blk (flushed p fs) c = blk fs c"
  by (auto simp: flushed_def Let_def sv_put_def loaded_def vnode_of_def blk_def fs_write_def)

lemma fsync_flushed:
  assumes "fs_inv fs" and "vnode_ok fs p"
  shows "sfs_fsync p fs = Some (Inr (), flushed p fs)" and "fs_inv (flushed p fs)"
    and "dec_inode (blk (flushed p fs) (sv_ino (vnode_of fs p))) = sv_i (vnode_of fs p)"
proof -
  let ?sv = "vnode_of fs p"
  have h: "sv_heap fs p = Some ?sv" "inode_ok (sv_i ?sv)" "sv_ino ?sv < nblk fs"
    using assms(2) by (auto simp: vnode_ok_def vnode_of_def)
  have len: "length (enc_inode (sv_i ?sv)) = 512" using length_enc_inode [OF h(2)] .
  show "sfs_fsync p fs = Some (Inr (), flushed p fs)"
    using sfs_wblock_ok [OF assms(1) len h(3)] h(1)
    by (auto simp: sfs_fsync_def on_vnode_def sfs_sync_inode_def flushed_def Let_def)
  have put: "fs_inv (sv_put p sv g) = fs_inv g" "blk (sv_put p sv g) = blk g" for sv g
    by (simp_all add: fs_inv_def sv_put_def blk_def fun_eq_iff)
  show "fs_inv (flushed p fs)" using assms(1) len by (simp add: flushed_def Let_def put)
  show "dec_inode (blk (flushed p fs) (sv_ino ?sv)) = sv_i ?sv"
    using assms(2) dec_inode_enc_inode [OF h(2)] by (auto simp: flushed_def Let_def put vnode_ok_def)
qed

lemma flushed_tab_inv:
  assumes "tab_inv fs" and "p \<in> set (loaded fs)"
  shows "tab_inv (flushed p fs)"
proof -
  note T = assms(1) [unfolded tab_inv_def]
  have p: "vnode_ok fs p" using T assms(2) by blast
  have "vnode_ok (flushed p fs) q" if q: "q \<in> set (loaded fs)" for q
  proof (cases "q = p")
    case True
    then show ?thesis
      using p fsync_flushed(3) [OF _ p] T by (simp add: vnode_ok_def vnode_inv_def)
  next
    case False
    then have "sv_ino (vnode_of fs q) \<noteq> sv_ino (vnode_of fs p)" using T q assms(2) by (auto dest: inj_onD)
    moreover have "vnode_ok fs q" using T q by blast
    ultimately show ?thesis using False by (simp add: vnode_ok_def)
  qed
  moreover have "inj_on (\<lambda>q. sv_ino (vnode_of (flushed p fs) q)) (set (loaded fs))"
  proof -
    have "(\<lambda>q. sv_ino (vnode_of (flushed p fs) q)) = (\<lambda>q. sv_ino (vnode_of fs q))" by (simp add: fun_eq_iff)
    then show ?thesis using T by simp
  qed
  ultimately show ?thesis using T fsync_flushed(2) [OF _ p] by (simp add: tab_inv_def)
qed

text \<open>Nothing but the disk and the marks on vnodes changes; the inodes are those in memory.\<close>

definition synced :: "sfs_fs \<Rightarrow> sfs_fs \<Rightarrow> bool" where
  "synced fs fs' \<longleftrightarrow> sfs_super fs' = sfs_super fs \<and> sfs_superdirty fs' = sfs_superdirty fs \<and> sfs_vnodes fs' = sfs_vnodes fs \<and>
     sfs_freemap fs' = sfs_freemap fs \<and> sfs_freemapdirty fs' = sfs_freemapdirty fs \<and>
     (\<forall>p. sv_i (vnode_of fs' p) = sv_i (vnode_of fs p) \<and> sv_ino (vnode_of fs' p) = sv_ino (vnode_of fs p) \<and>
        (sv_dirty (vnode_of fs' p) \<longrightarrow> sv_dirty (vnode_of fs p))) \<and>
     (\<forall>c. c \<notin> (\<lambda>p. sv_ino (vnode_of fs p)) ` set (loaded fs) \<longrightarrow> blk fs' c = blk fs c)"

lemma sync_vnodes_ok:
  assumes "tab_inv fs" and "i + k = length (loaded fs)"
  shows "\<exists>fs'. sync_vnodes i k fs = Some fs' \<and> tab_inv fs' \<and> synced fs fs' \<and>
    (\<forall>p \<in> set (drop i (loaded fs)). \<not> sv_dirty (vnode_of fs' p))"
  using assms
proof (induction k arbitrary: i fs)
  case 0
  then show ?case by (simp add: synced_def)
next
  case (Suc k)
  note T = Suc.prems(1) [unfolded tab_inv_def]
  let ?p = "loaded fs ! i"
  have i: "i < length (loaded fs)" using Suc.prems(2) by simp
  then have p: "?p \<in> set (loaded fs)" by simp
  then have ok: "vnode_ok fs ?p" using T by blast
  have g: "array_getguy (sfs_vnodes fs) i = Some ?p"
    using array_getguy_spec [of "sfs_vnodes fs" i] T i by (simp add: loaded_def length_array_list)
  have h: "sv_heap fs ?p = Some (vnode_of fs ?p)" "vnode_check False (vnode_of fs ?p) = Some ()"
    using ok by (auto simp: vnode_ok_def vnode_of_def vnode_check_inv)
  have run: "sync_vnodes i (Suc k) fs = sync_vnodes (i + 1) k (flushed ?p fs)"
    using g h fsync_flushed(1) [OF _ ok] T by simp
  from Suc.IH [OF flushed_tab_inv [OF Suc.prems(1) p], of "i + 1"] Suc.prems(2) obtain fs' where
    ih: "sync_vnodes (i + 1) k (flushed ?p fs) = Some fs'" "tab_inv fs'" "synced (flushed ?p fs) fs'"
    "\<forall>q \<in> set (drop (i + 1) (loaded fs)). \<not> sv_dirty (vnode_of fs' q)" by auto
  have "synced fs fs'" using ih(3) p unfolding synced_def by (auto simp: image_iff)
  moreover have "\<not> sv_dirty (vnode_of fs' ?p)" using ih(3) unfolding synced_def by auto
  moreover have "drop i (loaded fs) = ?p # drop (i + 1) (loaded fs)" using i by (simp add: Cons_nth_drop_Suc)
  ultimately show ?case using run ih(1,2,4) by auto
qed

section \<open>Volumes\<close>

text \<open>
  A mounted volume: a map of the size its superblock asks for, after the superblock and the root's inode;
  loaded inodes outside these; and what is not marked as changed is on disk as it is in memory (but for
  the terminator of the name, which mounting puts in).
\<close>

definition terminated :: "sfs_super \<Rightarrow> sfs_super" where
  "terminated s = s\<lparr>sp_volname := (sp_volname s)[31 := 0]\<rparr>"

definition reserved :: "sfs_fs \<Rightarrow> nat set" where
  "reserved fs = insert SFS_SB_LOCATION {SFS_MAP_LOCATION ..< SFS_MAP_LOCATION + SFS_BITBLOCKS (nblk fs)}"

definition vol_inv :: "sfs_fs \<Rightarrow> bool" where
  "vol_inv fs \<longleftrightarrow> tab_inv fs \<and> sp_magic (sfs_super fs) = SFS_MAGIC \<and> terminated (sfs_super fs) = sfs_super fs \<and>
     nbits (sfs_freemap fs) = SFS_BITMAPSIZE (nblk fs) \<and> SFS_MAP_LOCATION + SFS_BITBLOCKS (nblk fs) \<le> nblk fs \<and>
     (\<forall>p \<in> set (loaded fs). sv_ino (vnode_of fs p) \<notin> reserved fs) \<and>
     (\<not> sfs_superdirty fs \<longrightarrow> terminated (dec_super (blk fs SFS_SB_LOCATION)) = sfs_super fs) \<and>
     (\<not> sfs_freemapdirty fs \<longrightarrow> (\<forall>j < SFS_BITBLOCKS (nblk fs). blk fs (SFS_MAP_LOCATION + j) = map_block fs j))"

lemma vol_sizes:
  assumes "vol_inv fs"
  shows "nblk fs < 2 ^ 31" and "nblk fs \<le> d_blocks (sfs_device fs)"
    and "length (bv (sfs_freemap fs)) = SFS_BITBLOCKS (nblk fs) * 512" and "SFS_BITMAPSIZE (nblk fs) < 2 ^ 32 - 8"
proof -
  have f: "disk_ok (sfs_device fs)" "nblk fs \<le> d_blocks (sfs_device fs)" "bitmap_inv (sfs_freemap fs)"
    using assms by (auto simp: vol_inv_def tab_inv_def fs_inv_def)
  then show n: "nblk fs < 2 ^ 31" by (simp add: disk_ok_def)
  show "nblk fs \<le> d_blocks (sfs_device fs)" by fact
  show "length (bv (sfs_freemap fs)) = SFS_BITBLOCKS (nblk fs) * 512"
    using f(3) assms unfolding bitmap_inv_def vol_inv_def bitblocks_eq [OF n] bitmapsize_eq [OF n] by simp
  have "(nblk fs + 4095) div 4096 * 4096 \<le> nblk fs + 4095" by simp
  then show "SFS_BITMAPSIZE (nblk fs) < 2 ^ 32 - 8" using n unfolding bitmapsize_eq [OF n] by simp
qed

lemma map_blocks_concat:
  "length (bv (sfs_freemap fs)) = k * 512 \<Longrightarrow> concat (map (map_block fs) [0..<k]) = bv (sfs_freemap fs)"
  using concat_chunks [of k 512 "bv (sfs_freemap fs)"]
  by (simp add: map_block_def bitmap_getdata_def SFS_BLOCKSIZE_def cong: map_cong)

text \<open>A volume that is all on disk.\<close>

definition on_disk :: "sfs_fs \<Rightarrow> bool" where
  "on_disk fs \<longleftrightarrow> vol_inv fs \<and> \<not> sfs_superdirty fs \<and> \<not> sfs_freemapdirty fs"

lemma tab_inv_cong:
  assumes "tab_inv fs" and "fs_inv fs'" and "sfs_vnodes fs' = sfs_vnodes fs" and "sv_heap fs' = sv_heap fs"
    and "sfs_super fs' = sfs_super fs" and "\<And>p. p \<in> set (loaded fs) \<Longrightarrow> blk fs' (sv_ino (vnode_of fs p)) = blk fs (sv_ino (vnode_of fs p))"
  shows "tab_inv fs'"
  using assms by (simp add: tab_inv_def loaded_def vnode_ok_def vnode_of_def)

lemma flush_map:
  assumes inv: "vol_inv fs" and d: "sfs_freemapdirty fs"
  shows "\<exists>fs'. sfs_mapio UIO_WRITE fs = Some (Inr (), fs') \<and> vol_inv (fs'\<lparr>sfs_freemapdirty := False\<rparr>) \<and>
    redisk fs fs' \<and> (\<forall>c. c \<notin> reserved fs \<longrightarrow> blk fs' c = blk fs c)"
proof -
  note V = inv [unfolded vol_inv_def] and S = vol_sizes [OF inv]
  let ?k = "SFS_BITBLOCKS (nblk fs)"
  have "fs_inv fs" "SFS_MAP_LOCATION + 0 + ?k \<le> nblk fs" "(0 + ?k) * 512 \<le> length (bv (sfs_freemap fs))"
    using V S by (auto simp: tab_inv_def)
  from mapio_write [OF this] obtain fs' where
    r: "sfs_mapio UIO_WRITE fs = Some (Inr (), fs')" "fs_inv fs'" "redisk fs fs'"
    "\<And>c. blk fs' c = (if SFS_MAP_LOCATION \<le> c \<and> c < SFS_MAP_LOCATION + ?k then map_block fs (c - SFS_MAP_LOCATION) else blk fs c)"
    unfolding sfs_mapio_def by auto
  let ?f = "fs'\<lparr>sfs_freemapdirty := False\<rparr>"
  have sel: "sfs_super ?f = sfs_super fs" "sfs_vnodes ?f = sfs_vnodes fs" "sv_heap ?f = sv_heap fs" "sfs_freemap ?f = sfs_freemap fs"
    "sfs_superdirty ?f = sfs_superdirty fs" "blk ?f = blk fs'"
    using r(3) unfolding redisk_def by (auto simp: blk_def fun_eq_iff) (metis sfs_fs.select_convs(1-7) sfs_fs.surjective sfs_fs.update_convs(3))+
  have out: "blk fs' c = blk fs c" if "c \<notin> reserved fs" for c
    using that r(4) [of c] by (auto simp: reserved_def)
  have "tab_inv ?f"
  proof (rule tab_inv_cong [of fs])
    show "fs_inv ?f" using r(2) by (simp add: fs_inv_def)
  qed (use V sel out in auto)
  moreover have "SFS_SB_LOCATION < SFS_MAP_LOCATION" by (simp add: SFS_SB_LOCATION_def SFS_MAP_LOCATION_def)
  ultimately have "vol_inv ?f"
    using V r(4) by (simp add: vol_inv_def sel reserved_def loaded_def vnode_of_def map_block_def)
  then show ?thesis using r(1,3) out by blast
qed

lemma flush_super:
  assumes inv: "vol_inv fs" and d: "sfs_superdirty fs"
  shows "\<exists>fs'. sfs_wblock (enc_super (sfs_super fs)) SFS_SB_LOCATION fs = Some (Inr (), fs') \<and>
    vol_inv (fs'\<lparr>sfs_superdirty := False\<rparr>) \<and> redisk fs fs' \<and> (\<forall>c. c \<notin> reserved fs \<longrightarrow> blk fs' c = blk fs c)"
proof -
  note V = inv [unfolded vol_inv_def]
  have f: "fs_inv fs" "super_ok (sfs_super fs)" "SFS_SB_LOCATION < nblk fs"
    using V by (auto simp: tab_inv_def fs_inv_def SFS_MAP_LOCATION_def SFS_SB_LOCATION_def)
  have len: "length (enc_super (sfs_super fs)) = 512" using length_enc_super [OF f(2)] .
  let ?w = "fs_write SFS_SB_LOCATION (enc_super (sfs_super fs)) fs"
  let ?f = "?w\<lparr>sfs_superdirty := False\<rparr>"
  have b: "blk ?f c = (if c = SFS_SB_LOCATION then enc_super (sfs_super fs) else blk fs c)" for c
    by (simp add: blk_def fs_write_def)
  have sb: "SFS_SB_LOCATION \<in> reserved fs" "SFS_SB_LOCATION < SFS_MAP_LOCATION"
    by (simp_all add: reserved_def SFS_SB_LOCATION_def SFS_MAP_LOCATION_def)
  have "tab_inv ?f"
  proof (rule tab_inv_cong [of fs])
    show "fs_inv ?f" using fs_inv_write [OF f(1) len] by (simp add: fs_inv_def)
    show "blk ?f (sv_ino (vnode_of fs p)) = blk fs (sv_ino (vnode_of fs p))" if "p \<in> set (loaded fs)" for p
      using V that sb(1) b by auto
  qed (use V in simp_all)
  then have "vol_inv ?f"
    using V sb dec_super_enc_super [OF f(2)] b
    by (auto simp: vol_inv_def reserved_def loaded_def vnode_of_def map_block_def)
  moreover have "sfs_wblock (enc_super (sfs_super fs)) SFS_SB_LOCATION fs = Some (Inr (), ?w)"
    using sfs_wblock_ok [OF f(1) len f(3)] .
  moreover have "blk ?w c = blk fs c" if "c \<notin> reserved fs" for c using that sb(1) by auto
  ultimately show ?thesis using redisk_write by blast
qed

lemma synced_vol_inv:
  assumes inv: "vol_inv fs" and t: "tab_inv fs'" and s: "synced fs fs'"
  shows "vol_inv fs'" and "reserved fs' = reserved fs" and "\<And>c. c \<in> reserved fs \<Longrightarrow> blk fs' c = blk fs c"
proof -
  note V = inv [unfolded vol_inv_def] and S = s [unfolded synced_def]
  show res: "reserved fs' = reserved fs" using S by (simp add: reserved_def)
  show r: "blk fs' c = blk fs c" if "c \<in> reserved fs" for c
    using S V that by (metis (no_types, lifting) image_iff)
  have "SFS_MAP_LOCATION + j \<in> reserved fs" if "j < SFS_BITBLOCKS (nblk fs)" for j
    using that by (simp add: reserved_def)
  moreover have "SFS_SB_LOCATION \<in> reserved fs" by (simp add: reserved_def)
  moreover have "loaded fs' = loaded fs" "map_block fs' = map_block fs" using S by (simp_all add: loaded_def map_block_def fun_eq_iff)
  ultimately show "vol_inv fs'" using t V S res r by (simp add: vol_inv_def)
qed

text \<open>The state a sync leaves: everything on disk, the volume the same.\<close>

lemma sfs_sync_ok:
  assumes inv: "vol_inv fs"
  shows "\<exists>fs'. sfs_sync fs = Some (Inr (), fs') \<and> on_disk fs' \<and> sfs_super fs' = sfs_super fs \<and> sfs_freemap fs' = sfs_freemap fs \<and>
    (\<forall>p \<in> set (loaded fs). dec_inode (blk fs' (sv_ino (vnode_of fs p))) = sv_i (vnode_of fs p)) \<and>
    (\<forall>c. c \<notin> reserved fs \<and> c \<notin> (\<lambda>p. sv_ino (vnode_of fs p)) ` set (loaded fs) \<longrightarrow> blk fs' c = blk fs c)"
proof -
  have t: "tab_inv fs" using inv by (simp add: vol_inv_def)
  then have "array_getnum (sfs_vnodes fs) = length (loaded fs)"
    by (simp add: tab_inv_def loaded_def length_array_list array_getnum_def)
  with sync_vnodes_ok [OF t, of 0 "length (loaded fs)"] obtain f1 where
    f1: "sync_vnodes 0 (array_getnum (sfs_vnodes fs)) fs = Some f1" "tab_inv f1" "synced fs f1"
    "\<forall>p \<in> set (loaded fs). \<not> sv_dirty (vnode_of f1 p)" by auto
  note v1 = synced_vol_inv [OF inv f1(2,3)] and S = f1(3) [unfolded synced_def]
  have l1: "loaded f1 = loaded fs" using S by (simp add: loaded_def)
  have ino: "dec_inode (blk f1 (sv_ino (vnode_of fs p))) = sv_i (vnode_of fs p)" "sv_ino (vnode_of fs p) \<notin> reserved fs"
    if p: "p \<in> set (loaded fs)" for p
  proof -
    have "vnode_ok f1 p" using f1(2) p l1 by (simp add: tab_inv_def)
    then show "dec_inode (blk f1 (sv_ino (vnode_of fs p))) = sv_i (vnode_of fs p)" using f1(4) p S by (auto simp: vnode_ok_def)
    show "sv_ino (vnode_of fs p) \<notin> reserved fs" using inv p by (simp add: vol_inv_def)
  qed
  define g where "g f h \<longleftrightarrow> vol_inv h \<and> sfs_super h = sfs_super f \<and> sfs_freemap h = sfs_freemap f \<and> reserved h = reserved f \<and>
    (\<forall>c. c \<notin> reserved f \<longrightarrow> blk h c = blk f c)" for f h :: sfs_fs
  have rd: "sfs_super h = sfs_super f" "sfs_freemap h = sfs_freemap f" "sfs_superdirty h = sfs_superdirty f"
    "sfs_freemapdirty h = sfs_freemapdirty f" if "redisk f h" for f h
    using that unfolding redisk_def by (metis sfs_fs.select_convs sfs_fs.surjective sfs_fs.update_convs(3))+
  have bu: "blk (h\<lparr>sfs_freemapdirty := x\<rparr>) = blk h" "blk (h\<lparr>sfs_superdirty := x\<rparr>) = blk h" for h x
    by (simp_all add: blk_def fun_eq_iff)
  obtain f2 where f2: "(if sfs_freemapdirty f1
      then ebind (sfs_mapio UIO_WRITE f1) (\<lambda>_ f. Some (Inr (), f\<lparr>sfs_freemapdirty := False\<rparr>)) else Some (Inr (), f1)) = Some (Inr (), f2)"
    "g f1 f2" "\<not> sfs_freemapdirty f2"
    using flush_map [OF v1(1)] v1(1) rd bu unfolding g_def
    by (cases "sfs_freemapdirty f1") (auto simp: reserved_def)
  have v2: "vol_inv f2" using f2(2) by (simp add: g_def)
  obtain f3 where f3: "(if sfs_superdirty f2
      then ebind (sfs_wblock (enc_super (sfs_super f2)) SFS_SB_LOCATION f2) (\<lambda>_ f. Some (Inr (), f\<lparr>sfs_superdirty := False\<rparr>))
      else Some (Inr (), f2)) = Some (Inr (), f3)" "g f2 f3" "\<not> sfs_superdirty f3" "\<not> sfs_freemapdirty f3"
    using flush_super [OF v2] v2 rd bu f2(3) unfolding g_def
    by (cases "sfs_superdirty f2") (auto simp: reserved_def)
  have "sfs_sync fs = Some (Inr (), f3)" using f1(1) f2(1) f3(1) by (simp add: sfs_sync_def)
  moreover have b: "blk f3 c = blk f1 c" if "c \<notin> reserved fs" for c
    using that f2(2) f3(2) v1(2) unfolding g_def by metis
  moreover have "on_disk f3" "sfs_super f3 = sfs_super fs" "sfs_freemap f3 = sfs_freemap fs"
    using f2(2) f3(2-4) S unfolding g_def on_disk_def by auto
  ultimately show ?thesis using ino S by (intro exI [of _ f3]) auto
qed

lemma length_enc_dec_super: "length bs = 512 \<Longrightarrow> length (enc_super (dec_super bs)) = 512"
  by (simp add: enc_super_def dec_super_def words_at_def)

definition all_mem :: mount_mem where
  "all_mem = \<lparr>mm_fs = True, mm_array = True, mm_map = True, mm_data = True\<rparr>"

lemma sfs_domount_ok:
  assumes od: "on_disk fs"
  shows "\<exists>fs2. sfs_domount all_mem 512 (sfs_device fs) = Some (Inr fs2, sfs_device fs2) \<and> on_disk fs2 \<and>
    sfs_super fs2 = sfs_super fs \<and> sfs_freemap fs2 = sfs_freemap fs \<and> blk fs2 = blk fs \<and> loaded fs2 = []"
proof -
  have inv: "vol_inv fs" and cl: "\<not> sfs_superdirty fs" "\<not> sfs_freemapdirty fs" using od by (simp_all add: on_disk_def)
  note V = inv [unfolded vol_inv_def] and S = vol_sizes [OF inv]
  let ?k = "SFS_BITBLOCKS (nblk fs)" and ?a = "\<lparr>num = 0, max_slots = 0, v = None\<rparr> :: nat parray"
  let ?n = "new_fs ?a (sfs_device fs)"
  have fi: "fs_inv fs" using V by (simp add: tab_inv_def)
  have d: "disk_ok (sfs_device fs)" using fi by (simp add: fs_inv_def)
  have n: "sfs_device ?n = sfs_device fs" "blk ?n = blk fs" by (simp_all add: new_fs_def blk_def fun_eq_iff)
  have "SFS_SB_LOCATION < d_blocks (sfs_device fs)" using V S(2) by (simp add: SFS_SB_LOCATION_def SFS_MAP_LOCATION_def)
  then have sb: "sfs_rblock (enc_super (sfs_super ?n)) SFS_SB_LOCATION ?n =
      Some (Inr (), blk fs SFS_SB_LOCATION, fs_read SFS_SB_LOCATION ?n)"
    using rblock_disk [of ?n "enc_super (sfs_super ?n)" SFS_SB_LOCATION] d n length_enc_dec_super [of "replicate 512 0"]
    by (simp add: new_fs_def)
  let ?s = "dec_super (blk fs SFS_SB_LOCATION)"
  have sup: "terminated ?s = sfs_super fs" using V cl by blast
  have mg: "sp_magic ?s = SFS_MAGIC" using sup V unfolding terminated_def by (metis sfs_super.select_convs(1) sfs_super.surjective sfs_super.update_convs(3))
  from bitmap_create_spec [OF S(4)] obtain b where
    b: "bitmap_create True True (SFS_BITMAPSIZE (nblk fs)) = Some (Some b)" "bitmap_inv b" "nbits b = SFS_BITMAPSIZE (nblk fs)" by blast
  have lb: "length (bv b) = ?k * 512"
    using b(2,3) unfolding bitmap_inv_def bitblocks_eq [OF S(1)] bitmapsize_eq [OF S(1)] by simp
  define f2 where "f2 = (fs_read SFS_SB_LOCATION ?n)\<lparr>sfs_super := sfs_super fs, sfs_freemap := b\<rparr>"
  have f2: "disk_ok (sfs_device f2)" "d_blocks (sfs_device f2) = d_blocks (sfs_device fs)" "blk f2 = blk fs" "bv (sfs_freemap f2) = bv b"
    "nblk f2 = nblk fs" "sectors (sfs_device f2) = sectors (sfs_device fs)"
    using d by (simp_all add: f2_def fs_read_def new_fs_def blk_def fun_eq_iff)
  have pre: "SFS_MAP_LOCATION + 0 + ?k \<le> d_blocks (sfs_device f2)" "(0 + ?k) * 512 \<le> length (bv (sfs_freemap f2))"
    using V S(2) lb f2 by simp_all
  have "map (\<lambda>i. blk fs (SFS_MAP_LOCATION + i)) [0..<?k] = map (map_block fs) [0..<?k]" using V cl by simp
  then have cc: "concat (map (\<lambda>i. blk fs (SFS_MAP_LOCATION + i)) [0..<?k]) = bv (sfs_freemap fs)"
    using map_blocks_concat [OF S(3)] by (simp only:)
  have bb: "b\<lparr>bv := bv (sfs_freemap fs)\<rparr> = sfs_freemap fs" using b(3) V by (cases b; cases "sfs_freemap fs") simp
  from mapio_read [OF f2(1) pre] cc lb bb obtain lh where
    rd: "sfs_mapio UIO_READ f2 = Some (Inr (), f2\<lparr>sfs_device := lh, sfs_freemap := sfs_freemap fs\<rparr>)"
    and lh: "disk_ok lh" "sectors lh = sectors (sfs_device fs)" "d_blocks lh = d_blocks (sfs_device fs)"
    unfolding sfs_mapio_def f2 by (auto simp: f2_def)
  define r where "r = f2\<lparr>sfs_device := lh, sfs_freemap := sfs_freemap fs, sfs_superdirty := False, sfs_freemapdirty := False\<rparr>"
  have sel: "sfs_super r = sfs_super fs" "sfs_freemap r = sfs_freemap fs" "sfs_device r = lh" "sfs_vnodes r = ?a" "sv_heap r = Map.empty"
    "\<not> sfs_superdirty r" "\<not> sfs_freemapdirty r" "blk r = blk fs"
    using lh(2) by (simp_all add: r_def f2_def new_fs_def blk_def fun_eq_iff)
  have ld: "loaded r = []" by (simp add: loaded_def sel array_list_def)
  have "fs_inv r" using fi lh unfolding fs_inv_def by (simp add: sel)
  then have "on_disk r" using V cl ld sel
    by (simp add: on_disk_def vol_inv_def tab_inv_def array_inv_def array_slots_def map_block_def reserved_def)
  moreover have "sfs_domount all_mem 512 (sfs_device fs) = Some (Inr r, lh)"
  proof -
    have "(fs_read SFS_SB_LOCATION ?n)\<lparr>sfs_super := ?s\<lparr>sp_volname := (sp_volname ?s)[SFS_VOLNAME_SIZE - 1 := 0]\<rparr>, sfs_freemap := b\<rparr> = f2"
      using sup by (simp add: f2_def terminated_def SFS_VOLNAME_SIZE_def)
    moreover have "sp_nblocks ?s = nblk fs"
      using sup unfolding terminated_def by (metis sfs_super.select_convs(2) sfs_super.surjective sfs_super.update_convs(3))
    ultimately show ?thesis
      using sb mg b(1) rd by (simp add: sfs_domount_def all_mem_def SFS_BLOCKSIZE_def array_create_def Let_def r_def)
  qed
  ultimately show ?thesis using sel ld by auto
qed

section \<open>Properties\<close>


text \<open>A volume of four blocks with the root directory's vnode loaded and everything marked as changed.\<close>

definition demo_vol :: sfs_fs where
  "demo_vol = demo_fs\<lparr>sfs_superdirty := True, sfs_freemapdirty := True, sfs_freemap := \<lparr>nbits = 4096, bv = 0xf7 # replicate 511 0xff\<rparr>,
     sfs_vnodes := \<lparr>num = 1, max_slots = 1, v = Some [Some 100]\<rparr>, sv_heap := [100 \<mapsto> demo_vnode]\<rparr>"

lemma demo_vol_used: "{4..<4096} \<subseteq> bm_used \<lparr>nbits = 4096, bv = 0xf7 # replicate 511 0xff\<rparr>"
proof
  fix i :: nat
  assume i: "i \<in> {4..<4096}"
  have ff: "bit (0xff :: u8) j" if "j < 8" for j using that all_bits_set [of "0xff"] by simp
  have f7: "bit (0xf7 :: u8) j" if "4 \<le> j" "j < 8" for j
  proof -
    have "j = 4 \<or> j = 5 \<or> j = 6 \<or> j = 7" using that by arith
    then show ?thesis by auto
  qed
  show "i \<in> bm_used \<lparr>nbits = 4096, bv = 0xf7 # replicate 511 0xff\<rparr>"
  proof (cases "i div 8")
    case 0
    then have "i < 8" by simp
    then show ?thesis using i f7 [of i] by (simp add: bm_used_def bit_at_def)
  next
    case (Suc q)
    moreover have "i div 8 < 512" using i by (simp add: less_mult_imp_div_less)
    ultimately show ?thesis using i ff [of "i mod 8"] by (simp add: bm_used_def bit_at_def)
  qed
qed

lemma demo_vol_inv: "vol_inv demo_vol"
proof -
  have "bitmap_inv \<lparr>nbits = 4096, bv = 0xf7 # replicate 511 0xff\<rparr>" by (simp add: bitmap_inv_def)
  then have "fs_inv demo_vol"
    using demo_fs_inv demo_vol_used unfolding fs_inv_def by (simp add: demo_vol_def demo_fs_def)
  moreover have "loaded demo_vol = [100]" "vnode_of demo_vol 100 = demo_vnode"
    by (simp_all add: loaded_def vnode_of_def demo_vol_def array_list_def array_slots_def)
  moreover have "array_inv (sfs_vnodes demo_vol)" by (simp add: demo_vol_def array_inv_def array_slots_def)
  moreover have "vnode_ok demo_vol 100"
    using demo_inode_ok by (simp add: vnode_ok_def vnode_of_def demo_vol_def demo_vnode_def vnode_inv_def demo_fs_def)
  moreover have "nblk demo_vol = 4" "nbits (sfs_freemap demo_vol) = 4096" "sfs_superdirty demo_vol" "sfs_freemapdirty demo_vol"
    "sp_magic (sfs_super demo_vol) = SFS_MAGIC" "sp_volname (sfs_super demo_vol) = replicate 32 0"
    by (simp_all add: demo_vol_def demo_fs_def)
  moreover have "(replicate 32 (0 :: byte))[31 := 0] = replicate 32 0" by (simp add: list_update_same_conv)
  ultimately show ?thesis
    by (simp add: vol_inv_def tab_inv_def bitblocks_eq bitmapsize_eq reserved_def terminated_def SFS_MAP_LOCATION_def
        SFS_SB_LOCATION_def demo_vnode_def)
qed


end
