(* ===== verification/Threads.thy ===== *)
theory Threads
  imports Cpu Queue Ptr_Array "HOL-Library.Multiset"
begin

text \<open>
  The thread system: \<^verbatim>\<open>kern/thread/thread.c\<close> (with \<^verbatim>\<open>thread_wakeone\<close>, which the solution to assignment 1
  adds to it), \<^verbatim>\<open>scheduler.c\<close> and \<^verbatim>\<open>hardclock.c\<close>. Threads are addresses in \<open>t_heap\<close>. A context switch is a
  change of \<open>curthread\<close>: a function that switches ends in the context of the next thread, and what a
  thread does when it is switched to again is a function of its own (\<open>mi_switch_back\<close>, \<open>mi_threadstart\<close>).
  The flag \<open>mem\<close> tells whether \<^verbatim>\<open>kmalloc\<close> finds memory during the call.
\<close>

section \<open>State\<close>

datatype threadstate = S_RUN | S_READY | S_SLEEP | S_ZOMB

text \<open>Where the saved context of a thread continues: in \<^verbatim>\<open>mi_threadstart\<close>, or inside \<^verbatim>\<open>mi_switch\<close>.\<close>

datatype pcb = PCB_start | PCB_switched

record thread =
  t_pcb :: pcb
  t_sleepaddr :: "nat option"
  t_stack :: "nat list option"
  t_vmspace :: "nat option"
  t_cwd :: "nat option"

text \<open>
  \<open>vn_refs\<close> counts the references to the vnodes that are working directories; \<open>activated\<close> is the address
  space that was last activated.
\<close>

record ksched = cpu +
  curthread :: "nat option"
  t_heap :: "nat \<Rightarrow> thread option"
  sleepers :: "nat parray"
  zombies :: "nat parray"
  numthreads :: nat
  runqueue :: "nat queue"
  in_interrupt :: bool
  vn_refs :: "nat \<Rightarrow> int"
  activated :: "nat option"
  lbolt_counter :: nat

section \<open>The scheduler\<close>

definition scheduler_bootstrap :: "bool \<Rightarrow> bool \<Rightarrow> 'z ksched_scheme \<Rightarrow> 'z ksched_scheme option" where
  "scheduler_bootstrap mem1 mem2 st = do {
     q \<leftarrow> q_create mem1 mem2 32;
     Some (st\<lparr>runqueue := q\<rparr>)
   }"

definition scheduler_preallocate :: "bool \<Rightarrow> nat \<Rightarrow> 'z ksched_scheme \<Rightarrow> (unit res \<times> 'z ksched_scheme) option" where
  "scheduler_preallocate mem nthreads st = do {
     kassert (curspl st > 0);
     (r, q) \<leftarrow> q_preallocate mem (runqueue st) nthreads;
     Some (r, st\<lparr>runqueue := q\<rparr>)
   }"

text \<open>\<^verbatim>\<open>scheduler_killall\<close>: the number of rounds is bounded by the queue's length.\<close>

fun killall_from :: "nat \<Rightarrow> nat queue \<Rightarrow> nat queue option" where
  "killall_from k q =
     (if q_empty q then Some q
      else case k of 0 \<Rightarrow> None
         | Suc k' \<Rightarrow> (case q_remhead q of None \<Rightarrow> None | Some (_, q') \<Rightarrow> killall_from k' q'))"

declare killall_from.simps [simp del]

definition scheduler_killall :: "'z ksched_scheme \<Rightarrow> 'z ksched_scheme option" where
  "scheduler_killall st = do {
     kassert (curspl st > 0);
     q \<leftarrow> killall_from (qsize (runqueue st)) (runqueue st);
     Some (st\<lparr>runqueue := q\<rparr>)
   }"

definition scheduler_shutdown :: "'z ksched_scheme \<Rightarrow> unit option" where
  "scheduler_shutdown st = do {
     st1 \<leftarrow> scheduler_killall st;
     kassert (curspl st1 > 0);
     q_destroy (runqueue st1)
   }"

text \<open>
  \<^verbatim>\<open>scheduler\<close>: while nothing is ready the processor idles; the list gives what the interrupts do at
  each time it idles. When it is used up and nothing is ready, the loop does not end.
\<close>

fun scheduler :: "('z ksched_scheme \<Rightarrow> 'z ksched_scheme) list \<Rightarrow> 'z ksched_scheme \<Rightarrow> (nat \<times> 'z ksched_scheme) option" where
  "scheduler irqs st =
     (if curspl st \<le> 0 then None
      else if q_empty (runqueue st) then
        (case irqs of
           [] \<Rightarrow> None
         | irq # irqs' \<Rightarrow> (case cpu_idle irq st of None \<Rightarrow> None | Some st1 \<Rightarrow> scheduler irqs' st1))
      else (case q_remhead (runqueue st) of None \<Rightarrow> None | Some (t, q) \<Rightarrow> Some (t, st\<lparr>runqueue := q\<rparr>)))"

declare scheduler.simps [simp del]

definition make_runnable :: "bool \<Rightarrow> nat \<Rightarrow> 'z ksched_scheme \<Rightarrow> (unit res \<times> 'z ksched_scheme) option" where
  "make_runnable mem t st = do {
     kassert (curspl st > 0);
     (r, q) \<leftarrow> q_addtail mem (runqueue st) t;
     Some (r, st\<lparr>runqueue := q\<rparr>)
   }"

section \<open>Creating and destroying threads\<close>

text \<open>\<^verbatim>\<open>thread_create\<close> at the address \<^verbatim>\<open>kmalloc\<close> gives, if any.\<close>

definition thread_create :: "nat option \<Rightarrow> bool \<Rightarrow> 'z ksched_scheme \<Rightarrow> (nat \<times> 'z ksched_scheme) option" where
  "thread_create new name_mem st =
     (case new of
        None \<Rightarrow> None
      | Some p \<Rightarrow>
          if \<not> name_mem then None
          else Some (p, st\<lparr>t_heap := (t_heap st)(p \<mapsto>
                 \<lparr>t_pcb = PCB_start, t_sleepaddr = None, t_stack = None, t_vmspace = None, t_cwd = None\<rparr>)\<rparr>))"

definition thread_destroy :: "nat \<Rightarrow> 'z ksched_scheme \<Rightarrow> 'z ksched_scheme option" where
  "thread_destroy t st = do {
     kassert (curthread st \<noteq> Some t);
     th \<leftarrow> t_heap st t;
     kassert (t_vmspace th = None);
     kassert (t_cwd th = None);
     Some (st\<lparr>t_heap := (t_heap st)(t := None)\<rparr>)
   }"

fun exorcise_from :: "nat \<Rightarrow> nat \<Rightarrow> 'z ksched_scheme \<Rightarrow> 'z ksched_scheme option" where
  "exorcise_from i 0 st = Some st"
| "exorcise_from i (Suc k) st = do {
     z \<leftarrow> array_getguy (zombies st) i;
     kassert (curthread st \<noteq> Some z);
     st1 \<leftarrow> thread_destroy z st;
     exorcise_from (i + 1) k st1
   }"

definition exorcise :: "'z ksched_scheme \<Rightarrow> 'z ksched_scheme option" where
  "exorcise st = do {
     kassert (curspl st > 0);
     st1 \<leftarrow> exorcise_from 0 (array_getnum (zombies st)) st;
     (r, a) \<leftarrow> array_setsize True (zombies st1) 0;
     kassert (r = Inr ());
     Some (st1\<lparr>zombies := a\<rparr>)
   }"

definition thread_killall :: "'z ksched_scheme \<Rightarrow> 'z ksched_scheme option" where
  "thread_killall st = do {
     kassert (curspl st > 0);
     (r, a) \<leftarrow> array_setsize True (sleepers st) 0;
     kassert (r = Inr ());
     Some (st\<lparr>sleepers := a\<rparr>)
   }"

definition thread_panic :: "'z ksched_scheme \<Rightarrow> 'z ksched_scheme option" where
  "thread_panic st = do {
     kassert (curspl st > 0);
     st1 \<leftarrow> thread_killall st;
     scheduler_killall st1
   }"

definition thread_bootstrap :: "bool \<Rightarrow> bool \<Rightarrow> nat option \<Rightarrow> bool \<Rightarrow> 'z ksched_scheme \<Rightarrow> (nat \<times> 'z ksched_scheme) option" where
  "thread_bootstrap mem1 mem2 new name_mem st = do {
     sl \<leftarrow> array_create mem1;
     zs \<leftarrow> array_create mem2;
     (me, st1) \<leftarrow> thread_create new name_mem (st\<lparr>sleepers := sl, zombies := zs\<rparr>);
     th \<leftarrow> t_heap st1 me;
     Some (me, st1\<lparr>t_heap := (t_heap st1)(me \<mapsto> th\<lparr>t_pcb := PCB_switched\<rparr>), curthread := Some me, numthreads := 1\<rparr>)
   }"

text \<open>The magic number at the bottom of a stack, and the check made of it.\<close>

definition stack_magic :: "nat list" where
  "stack_magic = [0xae, 0x11, 0xda, 0x33]"

definition stack_check :: "thread \<Rightarrow> unit option" where
  "stack_check th = (case t_stack th of None \<Rightarrow> Some () | Some s \<Rightarrow> kassert (take 4 s = stack_magic))"

text \<open>What \<^verbatim>\<open>thread_fork\<close> gets from the allocator.\<close>

record fork_mem =
  fm_thread :: "nat option"
  fm_name :: bool
  fm_stack :: bool
  fm_sleepers :: bool
  fm_zombies :: bool
  fm_queue :: bool
  fm_runnable :: bool

text \<open>The part with interrupts off: the space for one more thread, and the thread itself.\<close>

definition fork_enter :: "fork_mem \<Rightarrow> nat \<Rightarrow> 'z ksched_scheme \<Rightarrow> (unit res \<times> 'z ksched_scheme) option" where
  "fork_enter fm newguy st = do {
     (r, sl) \<leftarrow> array_preallocate (fm_sleepers fm) (sleepers st) (numthreads st + 1);
     let st1 = st\<lparr>sleepers := sl\<rparr>;
     (case r of Inl e \<Rightarrow> Some (Inl e, st1) | Inr _ \<Rightarrow> do {
       (r, zs) \<leftarrow> array_preallocate (fm_zombies fm) (zombies st1) (numthreads st1 + 1);
       let st2 = st1\<lparr>zombies := zs\<rparr>;
       (case r of Inl e \<Rightarrow> Some (Inl e, st2) | Inr _ \<Rightarrow>
         ebind (scheduler_preallocate (fm_queue fm) (numthreads st2 + 1) st2) (\<lambda>_ st3.
         ebind (make_runnable (fm_runnable fm) newguy st3) (\<lambda>_ st4.
         Some (Inr (), st4\<lparr>numthreads := numthreads st4 + 1\<rparr>))))
     })
   }"

definition thread_fork :: "fork_mem \<Rightarrow> 'z ksched_scheme \<Rightarrow> (nat res \<times> 'z ksched_scheme) option" where
  "thread_fork fm st =
     (case thread_create (fm_thread fm) (fm_name fm) st of
        None \<Rightarrow> Some (Inl ENOMEM, st)
      | Some (newguy, st1) \<Rightarrow>
          if \<not> fm_stack fm then Some (Inl ENOMEM, st1\<lparr>t_heap := (t_heap st1)(newguy := None)\<rparr>)
          else do {
            th \<leftarrow> t_heap st1 newguy;
            cur \<leftarrow> curthread st1;
            curth \<leftarrow> t_heap st1 cur;
            let st2 = (case t_cwd curth of
                         None \<Rightarrow> st1
                       | Some d \<Rightarrow> st1\<lparr>vn_refs := (vn_refs st1)(d := vn_refs st1 d + 1)\<rparr>);
            let st3 = st2\<lparr>t_heap := (t_heap st2)(newguy \<mapsto>
                        th\<lparr>t_stack := Some stack_magic, t_cwd := t_cwd curth, t_pcb := PCB_start\<rparr>)\<rparr>;
            let (s, st4) = splhigh st3;
            (r, st5) \<leftarrow> fork_enter fm newguy st4;
            let st6 = snd (splx s st5);
            (case r of
               Inr _ \<Rightarrow> Some (Inr newguy, st6)
             | Inl e \<Rightarrow>
                 Some (Inl e, (case t_cwd curth of
                         None \<Rightarrow> st6
                       | Some d \<Rightarrow> st6\<lparr>vn_refs := (vn_refs st6)(d := vn_refs st6 d - 1)\<rparr>)
                   \<lparr>t_heap := (t_heap st6)(newguy := None)\<rparr>))
          })"

section \<open>Switching\<close>

text \<open>Stashing the current thread on the list its next state calls for; an error is an assertion failure.\<close>

definition stash :: "bool \<Rightarrow> threadstate \<Rightarrow> nat \<Rightarrow> 'z ksched_scheme \<Rightarrow> 'z ksched_scheme option" where
  "stash mem nextstate cur st =
     (case nextstate of
        S_READY \<Rightarrow> do {
          (r, st1) \<leftarrow> make_runnable mem cur st;
          kassert (r = Inr ());
          Some st1
        }
      | S_SLEEP \<Rightarrow> do {
          (r, a) \<leftarrow> array_add mem (sleepers st) cur;
          kassert (r = Inr ());
          Some (st\<lparr>sleepers := a\<rparr>)
        }
      | S_ZOMB \<Rightarrow> do {
          (r, a) \<leftarrow> array_add mem (zombies st) cur;
          kassert (r = Inr ());
          Some (st\<lparr>zombies := a\<rparr>)
        }
      | S_RUN \<Rightarrow> None)"

text \<open>
  \<^verbatim>\<open>mi_switch\<close> up to the context switch. With no current thread (the scheduler is idling) it does
  nothing.
\<close>

definition mi_switch :: "bool \<Rightarrow> ('z ksched_scheme \<Rightarrow> 'z ksched_scheme) list \<Rightarrow> threadstate \<Rightarrow>
    'z ksched_scheme \<Rightarrow> 'z ksched_scheme option" where
  "mi_switch mem irqs nextstate st = do {
     kassert (curspl st > 0);
     (case curthread st of
        None \<Rightarrow> Some st
      | Some cur \<Rightarrow> do {
          th \<leftarrow> t_heap st cur;
          stack_check th;
          st1 \<leftarrow> stash mem nextstate cur
                   (st\<lparr>curthread := None, t_heap := (t_heap st)(cur \<mapsto> th\<lparr>t_pcb := PCB_switched\<rparr>)\<rparr>);
          (nxt, st2) \<leftarrow> scheduler irqs st1;
          Some (st2\<lparr>curthread := Some nxt\<rparr>)
        })
   }"

text \<open>The rest of \<^verbatim>\<open>mi_switch\<close>, in the context of the thread switched to.\<close>

definition as_activate_cur :: "'z ksched_scheme \<Rightarrow> 'z ksched_scheme option" where
  "as_activate_cur st = do {
     cur \<leftarrow> curthread st;
     th \<leftarrow> t_heap st cur;
     Some (case t_vmspace th of None \<Rightarrow> st | Some as \<Rightarrow> st\<lparr>activated := Some as\<rparr>)
   }"

definition mi_switch_back :: "'z ksched_scheme \<Rightarrow> 'z ksched_scheme option" where
  "mi_switch_back st = do {
     st1 \<leftarrow> exorcise st;
     as_activate_cur st1
   }"

text \<open>\<^verbatim>\<open>mi_threadstart\<close> up to the call of the thread's function.\<close>

definition mi_threadstart :: "'z ksched_scheme \<Rightarrow> 'z ksched_scheme option" where
  "mi_threadstart st = do {
     st1 \<leftarrow> as_activate_cur st;
     Some (snd (spl0 st1))
   }"

definition thread_exit :: "bool \<Rightarrow> ('z ksched_scheme \<Rightarrow> 'z ksched_scheme) list \<Rightarrow> 'z ksched_scheme \<Rightarrow> 'z ksched_scheme option" where
  "thread_exit mem irqs st = do {
     cur \<leftarrow> curthread st;
     th \<leftarrow> t_heap st cur;
     stack_check th;
     let st1 = snd (splhigh st);
     let st2 = (case t_cwd th of
                  None \<Rightarrow> st1
                | Some d \<Rightarrow> st1\<lparr>vn_refs := (vn_refs st1)(d := vn_refs st1 d - 1)\<rparr>);
     let st3 = st2\<lparr>t_heap := (t_heap st2)(cur \<mapsto> th\<lparr>t_vmspace := None, t_cwd := None\<rparr>)\<rparr>;
     kassert (numthreads st3 > 0);
     mi_switch mem irqs S_ZOMB (st3\<lparr>numthreads := numthreads st3 - 1\<rparr>)
   }"

text \<open>\<^verbatim>\<open>thread_yield\<close>, up to the switch; \<^verbatim>\<open>splx\<close> follows when the thread is switched to again.\<close>

definition thread_yield :: "bool \<Rightarrow> ('z ksched_scheme \<Rightarrow> 'z ksched_scheme) list \<Rightarrow> 'z ksched_scheme \<Rightarrow> 'z ksched_scheme option" where
  "thread_yield mem irqs st = mi_switch mem irqs S_READY (snd (splhigh st))"

definition thread_sleep :: "bool \<Rightarrow> ('z ksched_scheme \<Rightarrow> 'z ksched_scheme) list \<Rightarrow> nat \<Rightarrow> 'z ksched_scheme \<Rightarrow>
    'z ksched_scheme option" where
  "thread_sleep mem irqs addr st = do {
     kassert (\<not> in_interrupt st);
     cur \<leftarrow> curthread st;
     th \<leftarrow> t_heap st cur;
     mi_switch mem irqs S_SLEEP (st\<lparr>t_heap := (t_heap st)(cur \<mapsto> th\<lparr>t_sleepaddr := Some addr\<rparr>)\<rparr>)
   }"

text \<open>What a thread does when it comes back from \<^verbatim>\<open>thread_sleep\<close>.\<close>

definition thread_sleep_back :: "'z ksched_scheme \<Rightarrow> 'z ksched_scheme option" where
  "thread_sleep_back st = do {
     st1 \<leftarrow> mi_switch_back st;
     cur \<leftarrow> curthread st1;
     th \<leftarrow> t_heap st1 cur;
     Some (st1\<lparr>t_heap := (t_heap st1)(cur \<mapsto> th\<lparr>t_sleepaddr := None\<rparr>)\<rparr>)
   }"

section \<open>Waking threads\<close>

text \<open>
  The loop of \<^verbatim>\<open>thread_wakeup\<close>: each round looks at one sleeper, so the number of rounds is the number
  of sleepers; the index stays where it is after a removal.
\<close>

fun wakeup_from :: "bool \<Rightarrow> nat \<Rightarrow> nat \<Rightarrow> nat \<Rightarrow> 'z ksched_scheme \<Rightarrow> 'z ksched_scheme option" where
  "wakeup_from mem addr i 0 st = Some st"
| "wakeup_from mem addr i (Suc k) st = do {
     t \<leftarrow> array_getguy (sleepers st) i;
     th \<leftarrow> t_heap st t;
     if t_sleepaddr th = Some addr then do {
       a \<leftarrow> array_remove (sleepers st) i;
       (r, st1) \<leftarrow> make_runnable mem t (st\<lparr>sleepers := a\<rparr>);
       kassert (r = Inr ());
       wakeup_from mem addr i k st1
     }
     else wakeup_from mem addr (i + 1) k st
   }"

definition thread_wakeup :: "bool \<Rightarrow> nat \<Rightarrow> 'z ksched_scheme \<Rightarrow> 'z ksched_scheme option" where
  "thread_wakeup mem addr st = do {
     kassert (curspl st > 0);
     wakeup_from mem addr 0 (array_getnum (sleepers st)) st
   }"

fun wakeone_from :: "bool \<Rightarrow> nat \<Rightarrow> nat \<Rightarrow> nat \<Rightarrow> 'z ksched_scheme \<Rightarrow> 'z ksched_scheme option" where
  "wakeone_from mem addr i 0 st = Some st"
| "wakeone_from mem addr i (Suc k) st = do {
     t \<leftarrow> array_getguy (sleepers st) i;
     th \<leftarrow> t_heap st t;
     if t_sleepaddr th = Some addr then do {
       a \<leftarrow> array_remove (sleepers st) i;
       (r, st1) \<leftarrow> make_runnable mem t (st\<lparr>sleepers := a\<rparr>);
       kassert (r = Inr ());
       Some st1
     }
     else wakeone_from mem addr (i + 1) k st
   }"

definition thread_wakeone :: "bool \<Rightarrow> nat \<Rightarrow> 'z ksched_scheme \<Rightarrow> 'z ksched_scheme option" where
  "thread_wakeone mem addr st = do {
     kassert (curspl st > 0);
     wakeone_from mem addr 0 (array_getnum (sleepers st)) st
   }"

fun hassleepers_from :: "nat \<Rightarrow> nat \<Rightarrow> nat \<Rightarrow> 'z ksched_scheme \<Rightarrow> bool option" where
  "hassleepers_from addr i 0 st = Some False"
| "hassleepers_from addr i (Suc k) st = do {
     t \<leftarrow> array_getguy (sleepers st) i;
     th \<leftarrow> t_heap st t;
     if t_sleepaddr th = Some addr then Some True else hassleepers_from addr (i + 1) k st
   }"

definition thread_hassleepers :: "nat \<Rightarrow> 'z ksched_scheme \<Rightarrow> bool option" where
  "thread_hassleepers addr st = do {
     kassert (curspl st > 0);
     hassleepers_from addr 0 (array_getnum (sleepers st)) st
   }"

section \<open>The clock\<close>

definition HZ :: nat where "HZ = 100"

text \<open>The address of \<^verbatim>\<open>lbolt\<close>.\<close>

definition lbolt :: nat where "lbolt = 1"

definition hardclock :: "bool \<Rightarrow> ('z ksched_scheme \<Rightarrow> 'z ksched_scheme) list \<Rightarrow> 'z ksched_scheme \<Rightarrow> 'z ksched_scheme option" where
  "hardclock mem irqs st = do {
     let st1 = st\<lparr>lbolt_counter := lbolt_counter st + 1\<rparr>;
     st2 \<leftarrow> (if lbolt_counter st1 \<ge> HZ then thread_wakeup mem lbolt (st1\<lparr>lbolt_counter := 0\<rparr>) else Some st1);
     thread_yield mem irqs st2
   }"

section \<open>The invariant\<close>

text \<open>
  The threads the kernel counts: the running one, those on the run queue and the sleepers.
\<close>

definition live :: "'z ksched_scheme \<Rightarrow> nat list" where
  "live st = (case curthread st of None \<Rightarrow> [] | Some t \<Rightarrow> [t]) @ q_list (runqueue st) @ array_list (sleepers st)"

definition th_ok :: "'z ksched_scheme \<Rightarrow> nat \<Rightarrow> bool" where
  "th_ok st t \<longleftrightarrow> (case t_heap st t of None \<Rightarrow> False | Some th \<Rightarrow> stack_check th = Some ())"

definition th_asleep :: "'z ksched_scheme \<Rightarrow> nat \<Rightarrow> bool" where
  "th_asleep st t \<longleftrightarrow> (case t_heap st t of None \<Rightarrow> False | Some th \<Rightarrow> t_sleepaddr th \<noteq> None)"

definition th_dead :: "'z ksched_scheme \<Rightarrow> nat \<Rightarrow> bool" where
  "th_dead st t \<longleftrightarrow> (case t_heap st t of None \<Rightarrow> False | Some th \<Rightarrow> t_vmspace th = None \<and> t_cwd th = None)"

text \<open>
  What holds between the operations. Every thread is in one place only, the counter is right, and the
  space \<^verbatim>\<open>thread_fork\<close> set aside is there: a sleeper slot for every thread (for the boot thread only
  once there is a second one) and a ring of that many slots. \<open>max_threads\<close> is far beyond what the memory
  of the machine has stacks for; it keeps the sizes computed in C's \<^verbatim>\<open>int\<close> from wrapping.
\<close>

definition max_threads :: nat where
  "max_threads = 2 ^ 27"

definition thread_inv :: "'z ksched_scheme \<Rightarrow> bool" where
  "thread_inv st \<longleftrightarrow>
     array_inv (sleepers st) \<and> array_inv (zombies st) \<and> q_inv (runqueue st) \<and> q_room (runqueue st) \<and>
     distinct (live st @ array_list (zombies st)) \<and>
     (\<forall>t\<in>set (live st). th_ok st t) \<and>
     (\<forall>t\<in>set (array_list (sleepers st)). th_asleep st t) \<and>
     (\<forall>t\<in>set (array_list (zombies st)). th_dead st t) \<and>
     numthreads st = length (live st) \<and> numthreads st \<le> max_threads \<and>
     numthreads st \<le> qsize (runqueue st) \<and> (numthreads st > 1 \<longrightarrow> numthreads st \<le> max_slots (sleepers st))"

lemma max_threads_bounds [simp]: "n \<le> max_threads \<Longrightarrow> n < 2 ^ 28" "n \<le> max_threads \<Longrightarrow> n < 268435456"
  by (simp_all add: max_threads_def)

lemma splx_ksched [simp]:
  "curthread (snd (splx l st)) = curthread st" "t_heap (snd (splx l st)) = t_heap st"
  "sleepers (snd (splx l st)) = sleepers st" "zombies (snd (splx l st)) = zombies st"
  "numthreads (snd (splx l st)) = numthreads st" "runqueue (snd (splx l st)) = runqueue st"
  "in_interrupt (snd (splx l st)) = in_interrupt st" "vn_refs (snd (splx l st)) = vn_refs st"
  "activated (snd (splx l st)) = activated st" "lbolt_counter (snd (splx l st)) = lbolt_counter st"
  "ksched.more (snd (splx l st)) = ksched.more st"
  by (simp_all add: splx_def interrupts_on_def interrupts_off_def Let_def)

lemma splhigh_ksched [simp]:
  "curthread (snd (splhigh st)) = curthread st" "t_heap (snd (splhigh st)) = t_heap st"
  "sleepers (snd (splhigh st)) = sleepers st" "zombies (snd (splhigh st)) = zombies st"
  "numthreads (snd (splhigh st)) = numthreads st" "runqueue (snd (splhigh st)) = runqueue st"
  "in_interrupt (snd (splhigh st)) = in_interrupt st" "vn_refs (snd (splhigh st)) = vn_refs st"
  "activated (snd (splhigh st)) = activated st" "lbolt_counter (snd (splhigh st)) = lbolt_counter st"
  "ksched.more (snd (splhigh st)) = ksched.more st"
  by (simp_all add: splhigh_def)

lemmas place_defs = live_def th_ok_def th_asleep_def th_dead_def

lemma thread_inv_spl [simp]:
  "thread_inv (snd (splx l st)) = thread_inv st" "thread_inv (snd (splhigh st)) = thread_inv st"
  "live (snd (splx l st)) = live st" "live (snd (splhigh st)) = live st"
  by (simp_all add: thread_inv_def place_defs)

lemma thread_inv_other [simp]:
  "thread_inv (st\<lparr>status := x\<rparr>) = thread_inv st" "thread_inv (st\<lparr>curspl := y\<rparr>) = thread_inv st"
  "thread_inv (st\<lparr>vn_refs := r\<rparr>) = thread_inv st" "thread_inv (st\<lparr>activated := a\<rparr>) = thread_inv st"
  "thread_inv (st\<lparr>vn_refs := r, t_heap := h\<rparr>) = thread_inv (st\<lparr>t_heap := h\<rparr>)"
  "thread_inv (st\<lparr>in_interrupt := i\<rparr>) = thread_inv st" "thread_inv (st\<lparr>lbolt_counter := n\<rparr>) = thread_inv st"
  by (simp_all add: thread_inv_def place_defs)

section \<open>The run queue and the table of sleepers\<close>

text \<open>With a free slot in the ring \<^verbatim>\<open>make_runnable\<close> needs no memory.\<close>

lemma make_runnable_room:
  assumes "q_inv (runqueue st)" and "length (q_list (runqueue st)) + 1 < qsize (runqueue st)" and "0 < curspl st"
  shows "\<exists>q. make_runnable mem t st = Some (Inr (), st\<lparr>runqueue := q\<rparr>) \<and> q_inv q \<and>
     q_list q = q_list (runqueue st) @ [t] \<and> qsize q = qsize (runqueue st)"
proof -
  have "length (q_list (runqueue st)) < q_cap (runqueue st)" using assms(2) by (simp add: q_cap_def)
  then obtain q where q: "q_addtail mem (runqueue st) t = Some (Inr (), q)" "q_inv q"
      "q_list q = q_list (runqueue st) @ [t]" "q_cap q = q_cap (runqueue st)"
    using rq.addtail_room [OF assms(1), of mem t] by auto
  moreover have "qsize q = qsize (runqueue st)"
    using q(2,4) assms(1) by (auto simp: q_cap_def q_inv_def)
  ultimately show ?thesis using assms(3) by (auto simp: make_runnable_def)
qed

lemma wakeup_room:
  assumes "thread_inv st" and "curthread st \<noteq> None"
  shows "length (q_list (runqueue st)) + length (array_list (sleepers st)) < qsize (runqueue st)"
  using assms by (auto simp: thread_inv_def live_def)

text \<open>Whether a thread waits on an address.\<close>

definition waits :: "'z ksched_scheme \<Rightarrow> nat \<Rightarrow> nat \<Rightarrow> bool" where
  "waits st addr t = (case t_heap st t of None \<Rightarrow> False | Some th \<Rightarrow> t_sleepaddr th = Some addr)"

lemma waits_update [simp]:
  "waits (st\<lparr>runqueue := q\<rparr>) = waits st" "waits (st\<lparr>sleepers := a\<rparr>) = waits st"
  by (simp_all add: waits_def fun_eq_iff)

text \<open>
  One round of the wakeup loops: the sleeper at \<open>i\<close> leaves the table for the tail of the queue.
\<close>

lemma wake_one:
  assumes inv: "array_inv (sleepers st)" "q_inv (runqueue st)" and i: "i < num (sleepers st)"
    and room: "length (q_list (runqueue st)) + 1 < qsize (runqueue st)" and spl: "0 < curspl st"
  shows "\<exists>a q. array_remove (sleepers st) i = Some a \<and>
     make_runnable mem t (st\<lparr>sleepers := a\<rparr>) = Some (Inr (), st\<lparr>sleepers := a, runqueue := q\<rparr>) \<and>
     array_inv a \<and> num a = num (sleepers st) - 1 \<and> max_slots a = max_slots (sleepers st) \<and>
     array_list a = take i (array_list (sleepers st)) @ drop (Suc i) (array_list (sleepers st)) \<and>
     q_inv q \<and> q_list q = q_list (runqueue st) @ [t] \<and> qsize q = qsize (runqueue st)"
proof -
  obtain a where "array_remove (sleepers st) i = Some a" "array_inv a" "num a = num (sleepers st) - 1"
    "max_slots a = max_slots (sleepers st)"
    "array_list a = take i (array_list (sleepers st)) @ drop (Suc i) (array_list (sleepers st))"
    using array_remove_spec [OF inv(1) i] by auto
  with make_runnable_room [of "st\<lparr>sleepers := a\<rparr>" mem t] inv(2) room spl show ?thesis by auto
qed

lemma wakeup_from_spec:
  assumes "array_inv (sleepers st)" and "q_inv (runqueue st)" and "0 < curspl st"
    and "array_list (sleepers st) = xs @ ys" and "i = length xs" and "k = length ys"
    and "\<forall>t\<in>set ys. t_heap st t \<noteq> None"
    and "length (q_list (runqueue st)) + length (filter (waits st addr) ys) < qsize (runqueue st)"
  shows "\<exists>a q. wakeup_from mem addr i k st = Some (st\<lparr>sleepers := a, runqueue := q\<rparr>) \<and>
     array_inv a \<and> q_inv q \<and> max_slots a = max_slots (sleepers st) \<and> qsize q = qsize (runqueue st) \<and>
     array_list a = xs @ filter (\<lambda>t. \<not> waits st addr t) ys \<and>
     q_list q = q_list (runqueue st) @ filter (waits st addr) ys"
  using assms
proof (induction k arbitrary: i xs ys st)
  case 0
  then show ?case by (intro exI [of _ "sleepers st"] exI [of _ "runqueue st"]) auto
next
  case (Suc k)
  from Suc.prems(6) obtain t zs where ys: "ys = t # zs" by (cases ys) auto
  have i: "i < num (sleepers st)" using Suc.prems ys length_array_list [of "sleepers st"] by auto
  have get: "array_getguy (sleepers st) i = Some t"
    using array_getguy_spec [OF Suc.prems(1) i] Suc.prems(4,5) ys by simp
  obtain th where th: "t_heap st t = Some th" using Suc.prems(7) ys by auto
  show ?case
  proof (cases "waits st addr t")
    case False
    then have "t_sleepaddr th \<noteq> Some addr" using th by (simp add: waits_def)
    with False get th Suc.IH [of st "xs @ [t]" zs "i + 1"] Suc.prems ys show ?thesis by simp
  next
    case True
    then have sa: "t_sleepaddr th = Some addr" using th by (simp add: waits_def)
    have "length (q_list (runqueue st)) + 1 < qsize (runqueue st)" using Suc.prems(8) ys True by simp
    from wake_one [OF Suc.prems(1,2) i this Suc.prems(3), of mem t] obtain a q where
      aq: "array_remove (sleepers st) i = Some a"
        "make_runnable mem t (st\<lparr>sleepers := a\<rparr>) = Some (Inr (), st\<lparr>sleepers := a, runqueue := q\<rparr>)"
        "array_inv a" "max_slots a = max_slots (sleepers st)"
        "array_list a = take i (array_list (sleepers st)) @ drop (Suc i) (array_list (sleepers st))"
        "q_inv q" "q_list q = q_list (runqueue st) @ [t]" "qsize q = qsize (runqueue st)"
      by auto
    have "array_list a = xs @ zs" using aq(5) Suc.prems(4,5) ys by simp
    with Suc.IH [of "st\<lparr>sleepers := a, runqueue := q\<rparr>" xs zs i] aq Suc.prems ys True get th sa
    show ?thesis by auto
  qed
qed

text \<open>Moving threads between the table and the queue keeps the invariant.\<close>

lemma thread_inv_move:
  assumes inv: "thread_inv st" and "array_inv a" "q_inv q" "max_slots a = max_slots (sleepers st)"
    and "qsize q = qsize (runqueue st)"
    and m: "mset (q_list q @ array_list a) = mset (q_list (runqueue st) @ array_list (sleepers st))"
    and sub: "set (array_list a) \<subseteq> set (array_list (sleepers st))"
  shows "thread_inv (st\<lparr>sleepers := a, runqueue := q\<rparr>)"
proof -
  let ?s = "st\<lparr>sleepers := a, runqueue := q\<rparr>"
  have ml: "mset (live ?s) = mset (live st)" using m by (simp add: live_def)
  then have "mset (live ?s @ array_list (zombies st)) = mset (live st @ array_list (zombies st))" by simp
  then have d: "distinct (live ?s @ array_list (zombies st))"
    using inv mset_eq_imp_distinct_iff unfolding thread_inv_def by blast
  have len: "length (live ?s) = length (live st)" and "set (live ?s) = set (live st)"
    using ml by (metis size_mset, metis set_mset_mset)
  then have "\<forall>t\<in>set (live ?s). th_ok ?s t" using inv by (simp add: thread_inv_def th_ok_def)
  moreover have "\<forall>t\<in>set (array_list a). th_asleep ?s t" using inv sub by (auto simp: thread_inv_def th_asleep_def)
  moreover have "\<forall>t\<in>set (array_list (zombies st)). th_dead ?s t" using inv by (simp add: thread_inv_def th_dead_def)
  ultimately show ?thesis using inv assms(2-5) d len by (auto simp: thread_inv_def q_room_def)
qed

lemma sleeper_heap: "thread_inv st \<Longrightarrow> t \<in> set (array_list (sleepers st)) \<Longrightarrow> t_heap st t \<noteq> None"
  by (auto simp: thread_inv_def th_asleep_def split: option.splits)

lemma thread_wakeup_spec:
  assumes inv: "thread_inv st" and spl: "0 < curspl st"
    and room: "length (q_list (runqueue st)) + length (filter (waits st addr) (array_list (sleepers st)))
      < qsize (runqueue st)"
  shows "\<exists>a q. thread_wakeup mem addr st = Some (st\<lparr>sleepers := a, runqueue := q\<rparr>) \<and>
     array_list a = filter (\<lambda>t. \<not> waits st addr t) (array_list (sleepers st)) \<and>
     q_list q = q_list (runqueue st) @ filter (waits st addr) (array_list (sleepers st)) \<and>
     thread_inv (st\<lparr>sleepers := a, runqueue := q\<rparr>)"
proof -
  have ai: "array_inv (sleepers st)" and qi: "q_inv (runqueue st)" using inv by (simp_all add: thread_inv_def)
  obtain a q where aq: "wakeup_from mem addr 0 (num (sleepers st)) st = Some (st\<lparr>sleepers := a, runqueue := q\<rparr>)"
    "array_inv a" "q_inv q" "max_slots a = max_slots (sleepers st)" "qsize q = qsize (runqueue st)"
    "array_list a = filter (\<lambda>t. \<not> waits st addr t) (array_list (sleepers st))"
    "q_list q = q_list (runqueue st) @ filter (waits st addr) (array_list (sleepers st))"
    using wakeup_from_spec [OF ai qi spl, of "[]" "array_list (sleepers st)" 0 "num (sleepers st)" addr mem]
      sleeper_heap [OF inv] room length_array_list [OF ai] by auto
  have "thread_inv (st\<lparr>sleepers := a, runqueue := q\<rparr>)"
    using aq by (intro thread_inv_move [OF inv]) auto
  with aq spl show ?thesis by (auto simp: thread_wakeup_def array_getnum_def)
qed

text \<open>The list without its first element that satisfies a predicate, and that element.\<close>

fun drop_first :: "('a \<Rightarrow> bool) \<Rightarrow> 'a list \<Rightarrow> 'a list" where
  "drop_first p [] = []"
| "drop_first p (x # xs) = (if p x then xs else x # drop_first p xs)"

fun first :: "('a \<Rightarrow> bool) \<Rightarrow> 'a list \<Rightarrow> 'a list" where
  "first p [] = []"
| "first p (x # xs) = (if p x then [x] else first p xs)"

lemma mset_drop_first: "mset (first p xs) + mset (drop_first p xs) = mset xs"
  by (induction xs) auto

lemma set_drop_first: "set (drop_first p xs) \<subseteq> set xs"
  by (induction xs) auto

lemma wakeone_from_spec:
  assumes "array_inv (sleepers st)" and "q_inv (runqueue st)" and "0 < curspl st"
    and "array_list (sleepers st) = xs @ ys" and "i = length xs" and "k = length ys"
    and "\<forall>t\<in>set ys. t_heap st t \<noteq> None"
    and "length (q_list (runqueue st)) + 1 < qsize (runqueue st) \<or> first (waits st addr) ys = []"
  shows "\<exists>a q. wakeone_from mem addr i k st = Some (st\<lparr>sleepers := a, runqueue := q\<rparr>) \<and>
     array_inv a \<and> q_inv q \<and> max_slots a = max_slots (sleepers st) \<and> qsize q = qsize (runqueue st) \<and>
     array_list a = xs @ drop_first (waits st addr) ys \<and>
     q_list q = q_list (runqueue st) @ first (waits st addr) ys"
  using assms
proof (induction k arbitrary: i xs ys)
  case 0
  then show ?case by (intro exI [of _ "sleepers st"] exI [of _ "runqueue st"]) auto
next
  case (Suc k)
  from Suc.prems(6) obtain t zs where ys: "ys = t # zs" by (cases ys) auto
  have i: "i < num (sleepers st)" using Suc.prems ys length_array_list [of "sleepers st"] by auto
  have get: "array_getguy (sleepers st) i = Some t"
    using array_getguy_spec [OF Suc.prems(1) i] Suc.prems(4,5) ys by simp
  obtain th where th: "t_heap st t = Some th" using Suc.prems(7) ys by auto
  show ?case
  proof (cases "waits st addr t")
    case False
    then have "t_sleepaddr th \<noteq> Some addr" using th by (simp add: waits_def)
    with False get th Suc.IH [of "xs @ [t]" zs "i + 1"] Suc.prems ys show ?thesis by simp
  next
    case True
    then have sa: "t_sleepaddr th = Some addr" using th by (simp add: waits_def)
    have "length (q_list (runqueue st)) + 1 < qsize (runqueue st)" using Suc.prems(8) ys True by simp
    from wake_one [OF Suc.prems(1,2) i this Suc.prems(3), of mem t] obtain a q where
      "array_remove (sleepers st) i = Some a"
      "make_runnable mem t (st\<lparr>sleepers := a\<rparr>) = Some (Inr (), st\<lparr>sleepers := a, runqueue := q\<rparr>)"
      "array_inv a" "max_slots a = max_slots (sleepers st)"
      "array_list a = take i (array_list (sleepers st)) @ drop (Suc i) (array_list (sleepers st))"
      "q_inv q" "q_list q = q_list (runqueue st) @ [t]" "qsize q = qsize (runqueue st)"
      by auto
    then show ?thesis
      using get th sa True ys Suc.prems(4,5) by (intro exI [of _ a] exI [of _ q]) simp
  qed
qed

lemma thread_wakeone_spec:
  assumes inv: "thread_inv st" and spl: "0 < curspl st"
    and room: "length (q_list (runqueue st)) + 1 < qsize (runqueue st) \<or>
      first (waits st addr) (array_list (sleepers st)) = []"
  shows "\<exists>a q. thread_wakeone mem addr st = Some (st\<lparr>sleepers := a, runqueue := q\<rparr>) \<and>
     array_list a = drop_first (waits st addr) (array_list (sleepers st)) \<and>
     q_list q = q_list (runqueue st) @ first (waits st addr) (array_list (sleepers st)) \<and>
     thread_inv (st\<lparr>sleepers := a, runqueue := q\<rparr>)"
proof -
  have ai: "array_inv (sleepers st)" and qi: "q_inv (runqueue st)" using inv by (simp_all add: thread_inv_def)
  obtain a q where aq: "wakeone_from mem addr 0 (num (sleepers st)) st = Some (st\<lparr>sleepers := a, runqueue := q\<rparr>)"
    "array_inv a" "q_inv q" "max_slots a = max_slots (sleepers st)" "qsize q = qsize (runqueue st)"
    "array_list a = drop_first (waits st addr) (array_list (sleepers st))"
    "q_list q = q_list (runqueue st) @ first (waits st addr) (array_list (sleepers st))"
    using wakeone_from_spec [OF ai qi spl, of "[]" "array_list (sleepers st)" 0 "num (sleepers st)" addr mem]
      sleeper_heap [OF inv] room length_array_list [OF ai] by auto
  have "thread_inv (st\<lparr>sleepers := a, runqueue := q\<rparr>)"
    using aq mset_drop_first [of "waits st addr" "array_list (sleepers st)"]
      set_drop_first [of "waits st addr" "array_list (sleepers st)"]
    by (intro thread_inv_move [OF inv]) (auto simp: ac_simps)
  with aq spl show ?thesis by (auto simp: thread_wakeone_def array_getnum_def)
qed

lemma hassleepers_from_spec:
  assumes "array_inv (sleepers st)" and "array_list (sleepers st) = xs @ ys" and "i = length xs" and "k = length ys"
    and "\<forall>t\<in>set ys. t_heap st t \<noteq> None"
  shows "hassleepers_from addr i k st = Some (\<exists>t\<in>set ys. waits st addr t)"
  using assms
proof (induction k arbitrary: i xs ys)
  case (Suc k)
  from Suc.prems(4) obtain t zs where ys: "ys = t # zs" by (cases ys) auto
  have i: "i < num (sleepers st)" using Suc.prems ys length_array_list [of "sleepers st"] by auto
  have "array_getguy (sleepers st) i = Some t"
    using array_getguy_spec [OF Suc.prems(1) i] Suc.prems(2,3) ys by simp
  moreover obtain th where "t_heap st t = Some th" using Suc.prems(5) ys by auto
  ultimately show ?case using Suc.IH [of "xs @ [t]" zs "i + 1"] Suc.prems ys by (simp add: waits_def)
qed simp

lemma thread_hassleepers_spec:
  assumes "thread_inv st" and "0 < curspl st"
  shows "thread_hassleepers addr st = Some (\<exists>t\<in>set (array_list (sleepers st)). waits st addr t)"
proof -
  have ai: "array_inv (sleepers st)" using assms by (simp add: thread_inv_def)
  show ?thesis
    using hassleepers_from_spec [OF ai, of "[]" "array_list (sleepers st)"] sleeper_heap [OF assms(1)]
      assms(2) length_array_list [OF ai] by (simp add: thread_hassleepers_def array_getnum_def)
qed

section \<open>The interface of sleeping and waking\<close>

text \<open>
  What the synchronisation primitives rely on: per address a line of sleepers, which \<open>wakeup\<close> moves as a
  whole to the end of the ready threads and \<open>wakeone\<close> one by one from its front. \<open>rep\<close> repeats an operation.
\<close>

fun rep :: "nat \<Rightarrow> ('s \<Rightarrow> 's option) \<Rightarrow> 's \<Rightarrow> 's option" where
  "rep 0 f s = Some s"
| "rep (Suc n) f s = (case f s of None \<Rightarrow> None | Some s' \<Rightarrow> rep n f s')"

locale wait_channel =
  fixes sound :: "'s \<Rightarrow> bool"
    and asleep :: "'s \<Rightarrow> nat \<Rightarrow> nat list"
    and ready :: "'s \<Rightarrow> nat list"
    and wakeup :: "bool \<Rightarrow> nat \<Rightarrow> 's \<Rightarrow> 's option"
    and wakeone :: "bool \<Rightarrow> nat \<Rightarrow> 's \<Rightarrow> 's option"
  assumes wakeup_all: "sound s \<Longrightarrow> \<exists>s'. wakeup mem a s = Some s' \<and> sound s' \<and> ready s' = ready s @ asleep s a \<and>
      asleep s' = (asleep s)(a := [])"
    and wakeone_first: "sound s \<Longrightarrow> \<exists>s'. wakeone mem a s = Some s' \<and> sound s' \<and>
      ready s' = ready s @ take 1 (asleep s a) \<and> asleep s' = (asleep s)(a := tl (asleep s a))"
begin

lemma wakeone_rep:
  assumes "sound s" and "asleep s a = xs @ ys"
  shows "\<exists>s'. rep (length xs) (wakeone mem a) s = Some s' \<and> sound s' \<and> ready s' = ready s @ xs \<and>
     asleep s' = (asleep s)(a := ys)"
  using assms
proof (induction xs arbitrary: s)
  case Nil
  then show ?case by auto
next
  case (Cons x xs)
  obtain s1 where s1: "wakeone mem a s = Some s1" "sound s1" "ready s1 = ready s @ [x]"
    "asleep s1 = (asleep s)(a := xs @ ys)"
    using wakeone_first [OF Cons.prems(1), of mem a] Cons.prems(2) by auto
  with Cons.IH [of s1] show ?case by (auto simp: fun_eq_iff)
qed

text \<open>Waking all is waking one as often as there are sleepers.\<close>

lemma wakeup_is_wakeones:
  assumes "sound s"
  shows "\<exists>s1 s2. wakeup mem a s = Some s1 \<and> rep (length (asleep s a)) (wakeone mem a) s = Some s2 \<and>
     ready s1 = ready s2 \<and> asleep s1 = asleep s2"
  using wakeup_all [OF assms, of mem a] wakeone_rep [OF assms, of a "asleep s a" "[]" mem] by auto

text \<open>A second wakeup finds nobody.\<close>

lemma wakeup_twice:
  assumes "sound s"
  shows "\<exists>s1 s2. wakeup mem a s = Some s1 \<and> wakeup mem a s1 = Some s2 \<and> ready s2 = ready s1 \<and> asleep s2 = asleep s1"
proof -
  obtain s1 where s1: "wakeup mem a s = Some s1" "sound s1" "asleep s1 = (asleep s)(a := [])"
    using wakeup_all [OF assms] by blast
  with wakeup_all [OF s1(2), of mem a] show ?thesis by auto
qed

end

definition line :: "'z ksched_scheme \<Rightarrow> nat \<Rightarrow> nat list" where
  "line st addr = filter (waits st addr) (array_list (sleepers st))"

definition running :: "'z ksched_scheme \<Rightarrow> bool" where
  "running st \<longleftrightarrow> thread_inv st \<and> 0 < curspl st \<and> curthread st \<noteq> None"

lemma waits_unique: "waits st a t \<Longrightarrow> waits st b t \<Longrightarrow> a = b"
  by (auto simp: waits_def split: option.splits)

lemma filter_drop_first:
  "filter p (drop_first p xs) = tl (filter p xs)" "first p xs = take 1 (filter p xs)"
  "(\<And>x. p x \<Longrightarrow> \<not> r x) \<Longrightarrow> filter r (drop_first p xs) = filter r xs"
  by (induction xs) auto

lemma wakeup_room_all:
  assumes "thread_inv st" and "curthread st \<noteq> None"
  shows "length (q_list (runqueue st)) + length (filter (waits st addr) (array_list (sleepers st))) < qsize (runqueue st)"
    and "length (q_list (runqueue st)) + 1 < qsize (runqueue st) \<or> first (waits st addr) (array_list (sleepers st)) = []"
proof -
  have "length (filter (waits st addr) (array_list (sleepers st))) \<le> length (array_list (sleepers st))" by simp
  then show "length (q_list (runqueue st)) + length (filter (waits st addr) (array_list (sleepers st))) < qsize (runqueue st)"
    using wakeup_room [OF assms] by linarith
  show "length (q_list (runqueue st)) + 1 < qsize (runqueue st) \<or> first (waits st addr) (array_list (sleepers st)) = []"
    using wakeup_room [OF assms] by (cases "array_list (sleepers st)") auto
qed

interpretation wc: wait_channel running line "\<lambda>st. q_list (runqueue st)" thread_wakeup thread_wakeone
proof unfold_locales
  fix st :: "'z ksched_scheme" and mem addr
  assume r: "running st"
  then have i: "thread_inv st" "0 < curspl st" "curthread st \<noteq> None" by (simp_all add: running_def)
  from thread_wakeup_spec [OF i(1,2) wakeup_room_all(1) [OF i(1,3)], of mem addr] obtain a q where
    w: "thread_wakeup mem addr st = Some (st\<lparr>sleepers := a, runqueue := q\<rparr>)"
      "array_list a = filter (\<lambda>t. \<not> waits st addr t) (array_list (sleepers st))"
      "q_list q = q_list (runqueue st) @ filter (waits st addr) (array_list (sleepers st))"
      "thread_inv (st\<lparr>sleepers := a, runqueue := q\<rparr>)" by blast
  have l: "line (st\<lparr>sleepers := a, runqueue := q\<rparr>) = (line st)(addr := [])"
    using w(2) by (auto simp: line_def fun_eq_iff intro!: filter_cong dest: waits_unique)
  show "\<exists>s'. thread_wakeup mem addr st = Some s' \<and> running s' \<and>
      q_list (runqueue s') = q_list (runqueue st) @ line st addr \<and> line s' = (line st)(addr := [])"
    using w l i by (intro exI [of _ "st\<lparr>sleepers := a, runqueue := q\<rparr>"]) (simp add: running_def line_def)
  from thread_wakeone_spec [OF i(1,2) wakeup_room_all(2) [OF i(1,3)], of mem addr] obtain b p where
    w1: "thread_wakeone mem addr st = Some (st\<lparr>sleepers := b, runqueue := p\<rparr>)"
      "array_list b = drop_first (waits st addr) (array_list (sleepers st))"
      "q_list p = q_list (runqueue st) @ first (waits st addr) (array_list (sleepers st))"
      "thread_inv (st\<lparr>sleepers := b, runqueue := p\<rparr>)" by blast
  have "line (st\<lparr>sleepers := b, runqueue := p\<rparr>) x = ((line st)(addr := tl (line st addr))) x" for x
  proof (cases "x = addr")
    case True
    then show ?thesis using w1(2) by (simp add: line_def filter_drop_first(1))
  next
    case False
    have "filter (waits st x) (drop_first (waits st addr) (array_list (sleepers st))) =
        filter (waits st x) (array_list (sleepers st))"
      using False by (intro filter_drop_first(3)) (auto dest: waits_unique)
    then show ?thesis using w1(2) False by (simp add: line_def)
  qed
  then have "line (st\<lparr>sleepers := b, runqueue := p\<rparr>) = (line st)(addr := tl (line st addr))" by blast
  then show "\<exists>s'. thread_wakeone mem addr st = Some s' \<and> running s' \<and>
      q_list (runqueue s') = q_list (runqueue st) @ take 1 (line st addr) \<and> line s' = (line st)(addr := tl (line st addr))"
    using w1 i by (intro exI [of _ "st\<lparr>sleepers := b, runqueue := p\<rparr>"])
      (simp add: running_def line_def filter_drop_first(2))
qed

section \<open>Switching threads\<close>

text \<open>The state in which the current thread has been taken off the processor.\<close>

definition off_cpu :: "nat \<Rightarrow> thread \<Rightarrow> 'z ksched_scheme \<Rightarrow> 'z ksched_scheme" where
  "off_cpu cur th st = st\<lparr>curthread := None, t_heap := (t_heap st)(cur \<mapsto> th\<lparr>t_pcb := PCB_switched\<rparr>)\<rparr>"

lemma off_cpu_sel [simp]:
  "curthread (off_cpu cur th st) = None" "sleepers (off_cpu cur th st) = sleepers st"
  "zombies (off_cpu cur th st) = zombies st" "runqueue (off_cpu cur th st) = runqueue st"
  "numthreads (off_cpu cur th st) = numthreads st" "curspl (off_cpu cur th st) = curspl st"
  "t_heap (off_cpu cur th st) = (t_heap st)(cur \<mapsto> th\<lparr>t_pcb := PCB_switched\<rparr>)"
  by (simp_all add: off_cpu_def)

lemma stack_check_pcb [simp]:
  "stack_check (th\<lparr>t_pcb := p\<rparr>) = stack_check th" "stack_check (th\<lparr>t_sleepaddr := s\<rparr>) = stack_check th"
  "stack_check (th\<lparr>t_vmspace := x, t_cwd := y\<rparr>) = stack_check th"
  by (simp_all add: stack_check_def)

lemma cur_facts:
  assumes "thread_inv st" and "curthread st = Some cur"
  shows "\<exists>th. t_heap st cur = Some th \<and> stack_check th = Some ()"
    and "cur \<notin> set (q_list (runqueue st))" and "cur \<notin> set (array_list (sleepers st))"
    and "cur \<notin> set (array_list (zombies st))"
    and "numthreads st = Suc (length (q_list (runqueue st)) + length (array_list (sleepers st)))"
  using assms by (auto simp: thread_inv_def live_def th_ok_def split: option.splits)

text \<open>
  The three ways off the processor. Yielding needs memory only when the ring is full, which it is when
  there are as many threads as slots and nobody sleeps.
\<close>

lemma stash_ready:
  assumes inv: "thread_inv st" and cur: "curthread st = Some cur" and th: "t_heap st cur = Some th"
    and spl: "0 < curspl st"
  shows "(\<exists>q. stash mem S_READY cur (off_cpu cur th st) = Some ((off_cpu cur th st)\<lparr>runqueue := q\<rparr>) \<and>
       thread_inv ((off_cpu cur th st)\<lparr>runqueue := q\<rparr>) \<and> q_list q = q_list (runqueue st) @ [cur] \<and>
       qsize (runqueue st) \<le> qsize q) \<or>
     stash mem S_READY cur (off_cpu cur th st) = None \<and> \<not> mem \<and> array_list (sleepers st) = [] \<and>
       numthreads st = qsize (runqueue st)"
proof -
  let ?s = "off_cpu cur th st"
  have qi: "q_inv (runqueue st)" "q_room (runqueue st)" using inv by (simp_all add: thread_inv_def)
  note cf = cur_facts [OF inv cur]
  obtain r q where q: "q_addtail mem (runqueue st) cur = Some (r, q)" "q_inv q"
    "r = Inr () \<and> q_list q = q_list (runqueue st) @ [cur] \<and> qsize (runqueue st) \<le> qsize q \<and>
       (qsize q = qsize (runqueue st) \<or>
        length (q_list (runqueue st)) + 1 = qsize (runqueue st) \<and> qsize q < 2 * (qsize (runqueue st) + 1)) \<or>
     r = Inl ENOMEM \<and> q = runqueue st \<and> \<not> mem \<and> length (q_list (runqueue st)) + 1 = qsize (runqueue st)"
    using q_addtail_spec [OF qi, of mem cur] by blast
  have nt: "numthreads st \<le> max_threads" "numthreads st \<le> qsize (runqueue st)"
    using inv by (simp_all add: thread_inv_def)
  show ?thesis
  proof (cases "r = Inr ()")
    case True
    have "q_room q" using q(3) True qi(2) nt cf(5) by (auto simp: q_room_def max_threads_def)
    then have "thread_inv (?s\<lparr>runqueue := q\<rparr>)"
      using inv q True cur th cf
      by (auto simp: thread_inv_def place_defs split: option.splits)
    moreover have "stash mem S_READY cur ?s = Some (?s\<lparr>runqueue := q\<rparr>)"
      using q(1) True spl by (simp add: stash_def make_runnable_def)
    ultimately show ?thesis using q(3) True by blast
  next
    case False
    then have "stash mem S_READY cur ?s = None" using q(1) spl by (simp add: stash_def make_runnable_def)
    moreover have "\<not> mem" "length (q_list (runqueue st)) + 1 = qsize (runqueue st)" using q(3) False by auto
    moreover have "length (array_list (sleepers st)) = 0" "numthreads st = qsize (runqueue st)"
      using cf(5) nt(2) calculation(3) by linarith+
    ultimately show ?thesis by simp
  qed
qed

lemma stash_sleep:
  assumes inv: "thread_inv st" and cur: "curthread st = Some cur" and th: "t_heap st cur = Some th"
    and sa: "t_sleepaddr th \<noteq> None"
  shows "(\<exists>a. stash mem S_SLEEP cur (off_cpu cur th st) = Some ((off_cpu cur th st)\<lparr>sleepers := a\<rparr>) \<and>
       thread_inv ((off_cpu cur th st)\<lparr>sleepers := a\<rparr>) \<and> array_list a = array_list (sleepers st) @ [cur]) \<or>
     stash mem S_SLEEP cur (off_cpu cur th st) = None \<and> \<not> mem \<and> numthreads st = 1"
proof -
  let ?s = "off_cpu cur th st"
  have ai: "array_inv (sleepers st)" using inv by (simp add: thread_inv_def)
  note cf = cur_facts [OF inv cur]
  have nt: "numthreads st \<le> max_threads" "numthreads st > 1 \<longrightarrow> numthreads st \<le> max_slots (sleepers st)"
    using inv unfolding thread_inv_def by blast+
  have nm: "num (sleepers st) < numthreads st" using cf(5) length_array_list [OF ai] by simp
  then have "num (sleepers st) < 2 ^ 28" using nt(1) by (simp add: max_threads_def)
  from array_add_spec [OF ai this, of mem cur] obtain r a where
    a: "array_add mem (sleepers st) cur = Some (r, a)" "array_inv a" "max_slots (sleepers st) \<le> max_slots a"
      "r = Inr () \<and> array_list a = array_list (sleepers st) @ [cur] \<or>
       r = Inl ENOMEM \<and> a = sleepers st \<and> \<not> mem \<and> num (sleepers st) = max_slots (sleepers st)"
    by blast
  show ?thesis
  proof (cases "r = Inr ()")
    case True
    have "thread_inv (?s\<lparr>sleepers := a\<rparr>)"
      using inv a True cur th sa cf nt by (auto simp: thread_inv_def place_defs split: option.splits)
    moreover have "stash mem S_SLEEP cur ?s = Some (?s\<lparr>sleepers := a\<rparr>)"
      using a(1) True by (simp add: stash_def)
    ultimately show ?thesis using a(4) True by auto
  next
    case False
    then show ?thesis using a nm nt(2) by (auto simp: stash_def)
  qed
qed

lemma stash_zombie:
  assumes inv: "thread_inv st" and cur: "curthread st = Some cur"
    and th: "t_vmspace th = None" "t_cwd th = None" and few: "num (zombies st) < 2 ^ 28"
  shows "let st1 = off_cpu cur th (st\<lparr>numthreads := numthreads st - 1\<rparr>) in
     (\<exists>a. stash mem S_ZOMB cur st1 = Some (st1\<lparr>zombies := a\<rparr>) \<and>
       thread_inv (st1\<lparr>zombies := a\<rparr>) \<and> array_list a = array_list (zombies st) @ [cur]) \<or>
     stash mem S_ZOMB cur st1 = None \<and> \<not> mem \<and> num (zombies st) = max_slots (zombies st)"
proof -
  let ?s = "off_cpu cur th (st\<lparr>numthreads := numthreads st - 1\<rparr>)"
  have ai: "array_inv (zombies st)" using inv by (simp add: thread_inv_def)
  note cf = cur_facts [OF inv cur]
  from array_add_spec [OF ai few, of mem cur] obtain r a where
    a: "array_add mem (zombies st) cur = Some (r, a)" "array_inv a"
      "r = Inr () \<and> array_list a = array_list (zombies st) @ [cur] \<or>
       r = Inl ENOMEM \<and> a = zombies st \<and> \<not> mem \<and> num (zombies st) = max_slots (zombies st)"
    by blast
  show ?thesis
  proof (cases "r = Inr ()")
    case True
    have "thread_inv (?s\<lparr>zombies := a\<rparr>)"
      using inv a True cur th cf by (auto simp: thread_inv_def place_defs split: option.splits)
    moreover have "stash mem S_ZOMB cur ?s = Some (?s\<lparr>zombies := a\<rparr>)"
      using a(1) True by (simp add: stash_def)
    ultimately show ?thesis using a(3) True by (auto simp: Let_def)
  next
    case False
    then show ?thesis using a by (auto simp: stash_def Let_def)
  qed
qed

text \<open>The scheduler takes the head of the run queue.\<close>

lemma scheduler_head:
  assumes inv: "thread_inv st" and idle: "curthread st = None" and spl: "0 < curspl st"
    and hd: "q_list (runqueue st) = t # ts"
  shows "\<exists>q. scheduler irqs st = Some (t, st\<lparr>runqueue := q\<rparr>) \<and> q_list q = ts \<and> qsize q = qsize (runqueue st) \<and>
     thread_inv (st\<lparr>runqueue := q, curthread := Some t\<rparr>)"
proof -
  have qi: "q_inv (runqueue st)" using inv by (simp add: thread_inv_def)
  obtain q where q: "q_remhead (runqueue st) = Some (t, q)" "q_inv q" "q_list q = ts"
    "qsize q = qsize (runqueue st)"
    using q_remhead_spec [OF qi] hd by auto
  have "thread_inv (st\<lparr>runqueue := q, curthread := Some t\<rparr>)"
    using inv idle hd q by (auto simp: thread_inv_def place_defs q_room_def split: option.splits)
  moreover have "scheduler irqs st = Some (t, st\<lparr>runqueue := q\<rparr>)"
    using q(1) hd spl qi by (subst scheduler.simps) (simp add: q_empty_iff)
  ultimately show ?thesis using q(3,4) by blast
qed

lemma mi_switch_eq:
  assumes "curthread st = Some cur" and "t_heap st cur = Some th" and "stack_check th = Some ()" and "0 < curspl st"
  shows "mi_switch mem irqs ns st = do {
     st1 \<leftarrow> stash mem ns cur (off_cpu cur th st);
     (nxt, st2) \<leftarrow> scheduler irqs st1;
     Some (st2\<lparr>curthread := Some nxt\<rparr>)
   }"
  using assms by (simp add: mi_switch_def off_cpu_def)

text \<open>
  What the idle loop relies on: an interrupt handler that runs while no thread is current keeps the
  invariant, starts no thread and puts the priority level back.
\<close>

definition irq_ok :: "('z ksched_scheme \<Rightarrow> 'z ksched_scheme) \<Rightarrow> bool" where
  "irq_ok irq \<longleftrightarrow> (\<forall>st. thread_inv st \<and> curthread st = None \<and> 0 < curspl st \<longrightarrow>
     thread_inv (irq st) \<and> curthread (irq st) = None \<and> curspl (irq st) = curspl st)"

lemma cpu_idle_ok:
  assumes "irq_ok irq" and "thread_inv st" and "curthread st = None" and "0 < curspl st"
  shows "\<exists>st1. cpu_idle irq st = Some st1 \<and> thread_inv st1 \<and> curthread st1 = None \<and> curspl st1 = curspl st"
proof -
  let ?s = "st\<lparr>status := status st OR CST_IEc\<rparr>"
  have "thread_inv (irq ?s) \<and> curthread (irq ?s) = None \<and> curspl (irq ?s) = curspl ?s"
    using assms by (intro assms(1) [unfolded irq_ok_def, rule_format]) auto
  then show ?thesis using assms(4) by (simp add: cpu_idle_def interrupts_onoff_def Let_def)
qed

lemma scheduler_inv:
  assumes "thread_inv st" and "curthread st = None" and "\<forall>irq\<in>set irqs. irq_ok irq"
    and "scheduler irqs st = Some (t, st')"
  shows "thread_inv (st'\<lparr>curthread := Some t\<rparr>) \<and> curspl st' = curspl st \<and> 0 < curspl st"
  using assms
proof (induction irqs arbitrary: st)
  case Nil
  then have spl: "0 < curspl st" and qi: "q_inv (runqueue st)"
    by (auto simp: scheduler.simps [of "[]"] thread_inv_def split: if_splits)
  with Nil have "q_list (runqueue st) \<noteq> []" by (auto simp: scheduler.simps [of "[]"] q_empty_iff)
  then obtain u us where "q_list (runqueue st) = u # us" by (cases "q_list (runqueue st)") auto
  with scheduler_head [OF Nil.prems(1,2) spl, of u us "[]"] Nil.prems(4) spl show ?case by auto
next
  case (Cons irq irqs)
  then have spl: "0 < curspl st" and qi: "q_inv (runqueue st)"
    by (auto simp: scheduler.simps [of "irq # irqs"] thread_inv_def split: if_splits)
  show ?case
  proof (cases "q_list (runqueue st)")
    case (Cons u us)
    with scheduler_head [OF Cons.prems(1,2) spl, of u us "irq # irqs"] Cons.prems(4) spl show ?thesis by auto
  next
    case Nil
    obtain st1 where st1: "cpu_idle irq st = Some st1" "thread_inv st1" "curthread st1 = None" "curspl st1 = curspl st"
      using cpu_idle_ok [of irq st] Cons.prems spl by auto
    then have "scheduler irqs st1 = Some (t, st')"
      using Cons.prems(4) Nil spl qi by (simp add: scheduler.simps [of "irq # irqs" st] q_empty_iff)
    with Cons.IH [of st1] st1 Cons.prems spl show ?thesis by auto
  qed
qed

text \<open>Whatever way the current thread leaves, the next one is run in a sound state.\<close>

lemma switch_inv:
  assumes "do { (nxt, st2) \<leftarrow> scheduler irqs st1; Some (st2\<lparr>curthread := Some nxt\<rparr>) } = Some st'"
    and "thread_inv st1" and "curthread st1 = None" and "\<forall>irq\<in>set irqs. irq_ok irq"
  shows "thread_inv st' \<and> curthread st' \<noteq> None \<and> curspl st' = curspl st1"
  using assms scheduler_inv [of st1 irqs] by (auto elim!: bind_eq_SomeE split: prod.splits)

text \<open>The state in which the scheduler runs when the current thread yields.\<close>

lemma thread_yield_stash:
  assumes inv: "thread_inv st" and cur: "curthread st = Some cur" and run: "thread_yield mem irqs st = Some st'"
  shows "\<exists>st1. thread_inv st1 \<and> curthread st1 = None \<and> sleepers st1 = sleepers st \<and>
     (\<forall>t. t \<noteq> cur \<longrightarrow> t_heap st1 t = t_heap st t) \<and> ksched.more st1 = ksched.more st \<and>
     do { (nxt, st2) \<leftarrow> scheduler irqs st1; Some (st2\<lparr>curthread := Some nxt\<rparr>) } = Some st'"
proof -
  let ?s = "snd (splhigh st)"
  have i: "thread_inv ?s" "curthread ?s = Some cur" "0 < curspl ?s" using inv cur by simp_all
  obtain th where th: "t_heap ?s cur = Some th" "stack_check th = Some ()" using cur_facts(1) [OF i(1,2)] by auto
  from run have m: "do { st1 \<leftarrow> stash mem S_READY cur (off_cpu cur th ?s);
      (nxt, st2) \<leftarrow> scheduler irqs st1; Some (st2\<lparr>curthread := Some nxt\<rparr>) } = Some st'"
    unfolding thread_yield_def mi_switch_eq [OF i(2) th i(3), of mem irqs S_READY] .
  with stash_ready [OF i(1,2) th(1) i(3), of mem] obtain q where
    q: "stash mem S_READY cur (off_cpu cur th ?s) = Some ((off_cpu cur th ?s)\<lparr>runqueue := q\<rparr>)"
      "thread_inv ((off_cpu cur th ?s)\<lparr>runqueue := q\<rparr>)" by auto
  show ?thesis
    by (rule exI [of _ "(off_cpu cur th ?s)\<lparr>runqueue := q\<rparr>"]) (use q m in \<open>simp add: off_cpu_def\<close>)
qed

lemma thread_yield_inv:
  assumes inv: "thread_inv st" and irqs: "\<forall>irq\<in>set irqs. irq_ok irq"
    and run: "thread_yield mem irqs st = Some st'"
  shows "thread_inv st'"
proof (cases "curthread st")
  case None
  then have "st' = snd (splhigh st)" using run by (simp add: thread_yield_def mi_switch_def)
  then show ?thesis using inv by simp
next
  case (Some cur)
  from thread_yield_stash [OF inv this run] show ?thesis by (auto dest!: switch_inv [OF _ _ _ irqs])
qed

text \<open>Setting a thread's sleep address does not matter to the invariant while it runs.\<close>

lemma thread_inv_cur_heap:
  assumes "thread_inv st" and "curthread st = Some cur" and "t_heap st cur = Some th" and "t_stack th' = t_stack th"
  shows "thread_inv (st\<lparr>t_heap := (t_heap st)(cur \<mapsto> th')\<rparr>)"
  using assms by (auto simp: thread_inv_def place_defs stack_check_def split: option.splits)

lemma thread_sleep_inv:
  assumes inv: "thread_inv st" and irqs: "\<forall>irq\<in>set irqs. irq_ok irq"
    and run: "thread_sleep mem irqs addr st = Some st'"
  shows "thread_inv st'"
proof -
  from run obtain cur th where ct: "curthread st = Some cur" "t_heap st cur = Some th"
    by (auto simp: thread_sleep_def split: if_splits elim!: bind_eq_SomeE)
  let ?th = "th\<lparr>t_sleepaddr := Some addr\<rparr>"
  let ?s = "st\<lparr>t_heap := (t_heap st)(cur \<mapsto> ?th)\<rparr>"
  have i: "thread_inv ?s" "curthread ?s = Some cur" "t_heap ?s cur = Some ?th"
    using ct thread_inv_cur_heap [OF inv ct] by simp_all
  have sc: "stack_check ?th = Some ()" using cur_facts(1) [OF i(1,2)] i(3) by auto
  have sw: "mi_switch mem irqs S_SLEEP ?s = Some st'" using run ct by (simp add: thread_sleep_def split: if_splits)
  then have spl: "0 < curspl ?s" by (simp add: mi_switch_def split: if_splits)
  have sa: "t_sleepaddr ?th \<noteq> None" by simp
  from stash_sleep [OF i sa, of mem] sw show ?thesis
    unfolding mi_switch_eq [OF i(2,3) sc spl, of mem irqs S_SLEEP]
    by (auto dest!: switch_inv [OF _ _ _ irqs])
qed

lemma thread_exit_stash:
  assumes inv: "thread_inv st" and cur: "curthread st = Some cur" and few: "num (zombies st) < 2 ^ 28"
    and run: "thread_exit mem irqs st = Some st'"
  shows "\<exists>st1. thread_inv st1 \<and> curthread st1 = None \<and> sleepers st1 = sleepers st \<and>
     (\<forall>t. t \<noteq> cur \<longrightarrow> t_heap st1 t = t_heap st t) \<and> ksched.more st1 = ksched.more st \<and>
     do { (nxt, st2) \<leftarrow> scheduler irqs st1; Some (st2\<lparr>curthread := Some nxt\<rparr>) } = Some st'"
proof -
  from run cur obtain th where th: "t_heap st cur = Some th" by (auto simp: thread_exit_def elim!: bind_eq_SomeE)
  define th' where "th' = th\<lparr>t_vmspace := None, t_cwd := None\<rparr>"
  define s0 where "s0 = (case t_cwd th of None \<Rightarrow> snd (splhigh st)
     | Some d \<Rightarrow> (snd (splhigh st))\<lparr>vn_refs := (vn_refs st)(d := vn_refs st d - 1)\<rparr>)"
  have s0: "thread_inv s0" "curthread s0 = Some cur" "t_heap s0 = t_heap st" "t_heap s0 cur = Some th"
    "curspl s0 = SPL_HIGH" "zombies s0 = zombies st" "sleepers s0 = sleepers st" "numthreads s0 = numthreads st"
    "ksched.more s0 = ksched.more st"
    using inv cur th by (auto simp: s0_def split: option.splits)
  let ?s1 = "s0\<lparr>t_heap := (t_heap s0)(cur \<mapsto> th')\<rparr>"
  define s where "s = ?s1\<lparr>numthreads := numthreads ?s1 - 1\<rparr>"
  have i: "thread_inv ?s1" "curthread ?s1 = Some cur" "t_heap ?s1 cur = Some th'" "num (zombies ?s1) < 2 ^ 28"
    using thread_inv_cur_heap [OF s0(1,2,4), of th'] s0 few by (simp_all add: th'_def)
  have sc: "stack_check th' = Some ()" using cur_facts(1) [OF i(1,2)] i(3) by auto
  have d: "t_vmspace th' = None" "t_cwd th' = None" by (simp_all add: th'_def)
  have sw: "mi_switch mem irqs S_ZOMB s = Some st'"
    using run cur th s0 sc by (simp add: thread_exit_def s_def s0_def th'_def Let_def split: if_splits option.splits)
  have e: "curthread s = Some cur" "t_heap s cur = Some th'" "0 < curspl s"
    using i s0(5) by (simp_all add: s_def)
  from sw have m: "do { st1 \<leftarrow> stash mem S_ZOMB cur (off_cpu cur th' s);
      (nxt, st2) \<leftarrow> scheduler irqs st1; Some (st2\<lparr>curthread := Some nxt\<rparr>) } = Some st'"
    unfolding mi_switch_eq [OF e(1,2) sc e(3), of mem irqs S_ZOMB] .
  with stash_zombie [OF i(1,2) d i(4), of mem, folded s_def, unfolded Let_def] obtain a where
    a: "stash mem S_ZOMB cur (off_cpu cur th' s) = Some ((off_cpu cur th' s)\<lparr>zombies := a\<rparr>)"
      "thread_inv ((off_cpu cur th' s)\<lparr>zombies := a\<rparr>)" by auto
  show ?thesis
    by (rule exI [of _ "(off_cpu cur th' s)\<lparr>zombies := a\<rparr>"]) (use a m s0 in \<open>simp add: off_cpu_def s_def\<close>)
qed

lemma thread_exit_inv:
  assumes inv: "thread_inv st" and irqs: "\<forall>irq\<in>set irqs. irq_ok irq" and few: "num (zombies st) < 2 ^ 28"
    and run: "thread_exit mem irqs st = Some st'"
  shows "thread_inv st'"
proof -
  from run obtain cur where "curthread st = Some cur" by (auto simp: thread_exit_def elim!: bind_eq_SomeE)
  from thread_exit_stash [OF inv this few run] show ?thesis by (auto dest!: switch_inv [OF _ _ _ irqs])
qed

text \<open>A yield takes the current thread to the end of the queue and runs the one at its head.\<close>

lemma thread_yield_turn:
  assumes inv: "thread_inv st" and cur: "curthread st = Some cur" and th: "t_heap st cur = Some th"
    and room: "mem \<or> array_list (sleepers st) \<noteq> [] \<or> numthreads st < qsize (runqueue st)"
  shows "\<exists>q. thread_yield mem irqs st = Some ((off_cpu cur th (snd (splhigh st)))\<lparr>runqueue := q,
       curthread := Some (hd (q_list (runqueue st) @ [cur]))\<rparr>) \<and>
     thread_inv ((off_cpu cur th (snd (splhigh st)))\<lparr>runqueue := q,
       curthread := Some (hd (q_list (runqueue st) @ [cur]))\<rparr>) \<and>
     q_list q = tl (q_list (runqueue st) @ [cur]) \<and> qsize (runqueue st) \<le> qsize q"
proof -
  define s where "s = snd (splhigh st)"
  have i: "thread_inv s" "curthread s = Some cur" "t_heap s cur = Some th" "0 < curspl s"
    "runqueue s = runqueue st" "sleepers s = sleepers st" "numthreads s = numthreads st"
    using inv cur th by (simp_all add: s_def)
  have sc: "stack_check th = Some ()" using cur_facts(1) [OF i(1,2)] i(3) by auto
  obtain q1 where q1: "stash mem S_READY cur (off_cpu cur th s) = Some ((off_cpu cur th s)\<lparr>runqueue := q1\<rparr>)"
    "thread_inv ((off_cpu cur th s)\<lparr>runqueue := q1\<rparr>)" "q_list q1 = q_list (runqueue st) @ [cur]"
    "qsize (runqueue st) \<le> qsize q1"
    using stash_ready [OF i(1-4), of mem] i(5-7) room by auto
  obtain t ts where ts: "q_list (runqueue st) @ [cur] = t # ts" by (cases "q_list (runqueue st) @ [cur]") auto
  obtain q where q: "scheduler irqs ((off_cpu cur th s)\<lparr>runqueue := q1\<rparr>) =
      Some (t, (off_cpu cur th s)\<lparr>runqueue := q\<rparr>)" "q_list q = ts" "qsize q = qsize q1"
    "thread_inv ((off_cpu cur th s)\<lparr>runqueue := q, curthread := Some t\<rparr>)"
    using scheduler_head [OF q1(2), of t ts irqs] q1(3) ts i(4) by auto
  have "thread_yield mem irqs st = Some ((off_cpu cur th s)\<lparr>runqueue := q, curthread := Some t\<rparr>)"
    using q1(1) q(1)
    by (simp add: thread_yield_def s_def [symmetric] mi_switch_eq [OF i(2,3) sc i(4), of mem irqs S_READY])
  with q ts q1(4) show ?thesis by (auto simp: s_def)
qed

text \<open>Going to sleep with another thread ready: that one runs.\<close>

lemma thread_sleep_turn:
  assumes inv: "thread_inv st" and cur: "curthread st = Some cur" and th: "t_heap st cur = Some th"
    and spl: "0 < curspl st" and ni: "\<not> in_interrupt st" and rq: "q_list (runqueue st) = t # ts"
  shows "\<exists>q a. thread_sleep mem irqs addr st = Some ((off_cpu cur (th\<lparr>t_sleepaddr := Some addr\<rparr>) st)
       \<lparr>sleepers := a, runqueue := q, curthread := Some t\<rparr>) \<and>
     thread_inv ((off_cpu cur (th\<lparr>t_sleepaddr := Some addr\<rparr>) st)\<lparr>sleepers := a, runqueue := q, curthread := Some t\<rparr>) \<and>
     q_list q = ts \<and> array_list a = array_list (sleepers st) @ [cur]"
proof -
  define th' where "th' = th\<lparr>t_sleepaddr := Some addr\<rparr>"
  define s where "s = st\<lparr>t_heap := (t_heap st)(cur \<mapsto> th')\<rparr>"
  have i: "thread_inv s" "curthread s = Some cur" "t_heap s cur = Some th'" "0 < curspl s"
    "runqueue s = runqueue st" "sleepers s = sleepers st" "numthreads s = numthreads st"
    using thread_inv_cur_heap [OF inv cur th, of th'] cur th spl by (simp_all add: s_def th'_def)
  have o: "off_cpu cur th' s = off_cpu cur th' st" by (simp add: off_cpu_def s_def)
  have sc: "stack_check th' = Some ()" using cur_facts(1) [OF i(1,2)] i(3) by auto
  have "numthreads s \<noteq> 1" using cur_facts(5) [OF i(1,2)] rq i(5) by simp
  then obtain a where a: "stash mem S_SLEEP cur (off_cpu cur th' st) = Some ((off_cpu cur th' st)\<lparr>sleepers := a\<rparr>)"
    "thread_inv ((off_cpu cur th' st)\<lparr>sleepers := a\<rparr>)" "array_list a = array_list (sleepers st) @ [cur]"
    using stash_sleep [OF i(1-3), of mem] i(6) o by (auto simp: th'_def)
  obtain q where q: "scheduler irqs ((off_cpu cur th' st)\<lparr>sleepers := a\<rparr>) =
      Some (t, (off_cpu cur th' st)\<lparr>sleepers := a, runqueue := q\<rparr>)" "q_list q = ts"
    "thread_inv ((off_cpu cur th' st)\<lparr>sleepers := a, runqueue := q, curthread := Some t\<rparr>)"
    using scheduler_head [OF a(2), of t ts irqs] rq spl by auto
  have "thread_sleep mem irqs addr st =
      Some ((off_cpu cur th' st)\<lparr>sleepers := a, runqueue := q, curthread := Some t\<rparr>)"
    using a(1) q(1) ni cur th mi_switch_eq [OF i(2,3) sc i(4), of mem irqs S_SLEEP] o
    by (simp add: thread_sleep_def s_def th'_def)
  with q a show ?thesis by (auto simp: th'_def)
qed

section \<open>Back on the processor\<close>

lemma exorcise_from_spec:
  assumes "array_inv (zombies st)" and "array_list (zombies st) = xs @ ys" and "i = length xs" and "k = length ys"
    and "distinct ys" and "\<forall>t\<in>set ys. th_dead st t \<and> curthread st \<noteq> Some t"
  shows "exorcise_from i k st = Some (st\<lparr>t_heap := \<lambda>t. if t \<in> set ys then None else t_heap st t\<rparr>)"
  using assms
proof (induction k arbitrary: i xs ys st)
  case 0
  then show ?case by simp
next
  case (Suc k)
  from Suc.prems(4) obtain z zs where ys: "ys = z # zs" by (cases ys) auto
  have i: "i < num (zombies st)" using Suc.prems ys length_array_list [of "zombies st"] by auto
  have get: "array_getguy (zombies st) i = Some z"
    using array_getguy_spec [OF Suc.prems(1) i] Suc.prems(2,3) ys by simp
  have "th_dead st z" "curthread st \<noteq> Some z" using Suc.prems(6) ys by auto
  then have des: "thread_destroy z st = Some (st\<lparr>t_heap := (t_heap st)(z := None)\<rparr>)"
    by (auto simp: thread_destroy_def th_dead_def split: option.splits)
  let ?s = "st\<lparr>t_heap := (t_heap st)(z := None)\<rparr>"
  have "exorcise_from (i + 1) k ?s = Some (?s\<lparr>t_heap := \<lambda>t. if t \<in> set zs then None else t_heap ?s t\<rparr>)"
    using Suc.prems ys by (intro Suc.IH [of ?s "xs @ [z]"]) (auto simp: th_dead_def)
  moreover have "(\<lambda>t. if t \<in> set zs then None else t_heap ?s t) = (\<lambda>t. if t \<in> set ys then None else t_heap st t)"
    using ys by auto
  ultimately show ?case using get des Suc.prems(6) ys by simp
qed

text \<open>\<^verbatim>\<open>exorcise\<close> frees exactly the zombies.\<close>

lemma exorcise_spec:
  assumes inv: "thread_inv st" and spl: "0 < curspl st"
  shows "\<exists>a. exorcise st = Some (st\<lparr>t_heap := (\<lambda>t. if t \<in> set (array_list (zombies st)) then None else t_heap st t),
       zombies := a\<rparr>) \<and> array_list a = [] \<and>
     thread_inv (st\<lparr>t_heap := (\<lambda>t. if t \<in> set (array_list (zombies st)) then None else t_heap st t), zombies := a\<rparr>)"
proof -
  define h where "h = (\<lambda>t. if t \<in> set (array_list (zombies st)) then None else t_heap st t)"
  have ai: "array_inv (zombies st)" using inv by (simp add: thread_inv_def)
  have disj: "set (live st) \<inter> set (array_list (zombies st)) = {}" using inv by (simp add: thread_inv_def)
  have ex: "exorcise_from 0 (num (zombies st)) st = Some (st\<lparr>t_heap := h\<rparr>)"
    unfolding h_def
  proof (rule exorcise_from_spec [of st "[]"])
    show "\<forall>t\<in>set (array_list (zombies st)). th_dead st t \<and> curthread st \<noteq> Some t"
      using inv disj by (auto simp: thread_inv_def live_def)
  qed (use inv ai length_array_list [OF ai] in \<open>auto simp: thread_inv_def\<close>)
  obtain a where a: "array_setsize True (zombies st) 0 = Some (Inr (), a)" "array_inv a" "array_list a = []"
    using array_setsize_zero [OF ai, of True] by blast
  have h: "\<And>t. t \<in> set (live st) \<Longrightarrow> h t = t_heap st t" using disj by (auto simp: h_def)
  have l: "live (st\<lparr>t_heap := h, zombies := a\<rparr>) = live st" by (simp add: live_def)
  have sl: "\<And>t. t \<in> set (array_list (sleepers st)) \<Longrightarrow> h t = t_heap st t" using h by (simp add: live_def)
  have "thread_inv (st\<lparr>t_heap := h, zombies := a\<rparr>)"
    using inv a h sl unfolding thread_inv_def l by (auto simp: th_ok_def th_asleep_def)
  with ex a spl show ?thesis unfolding h_def [symmetric]
    by (intro exI [of _ a]) (simp add: exorcise_def array_getnum_def)
qed

lemma as_activate_cur_inv:
  "thread_inv st \<Longrightarrow> as_activate_cur st = Some st' \<Longrightarrow> thread_inv st'"
  by (auto simp: as_activate_cur_def elim!: bind_eq_SomeE split: option.splits)

lemma mi_switch_back_spec:
  assumes inv: "thread_inv st" and spl: "0 < curspl st" and cur: "curthread st = Some cur"
  shows "\<exists>st'. mi_switch_back st = Some st' \<and> thread_inv st' \<and> array_list (zombies st') = [] \<and>
     curthread st' = curthread st \<and> runqueue st' = runqueue st \<and> sleepers st' = sleepers st \<and>
     numthreads st' = numthreads st \<and> curspl st' = curspl st \<and> ksched.more st' = ksched.more st \<and>
     t_heap st' = (\<lambda>t. if t \<in> set (array_list (zombies st)) then None else t_heap st t)"
proof -
  define h where "h = (\<lambda>t. if t \<in> set (array_list (zombies st)) then None else t_heap st t)"
  obtain a where a: "exorcise st = Some (st\<lparr>t_heap := h, zombies := a\<rparr>)" "array_list a = []"
    "thread_inv (st\<lparr>t_heap := h, zombies := a\<rparr>)"
    using exorcise_spec [OF inv spl] unfolding h_def by blast
  obtain th where th: "h cur = Some th" using cur_facts(1) [OF a(3)] cur by auto
  show ?thesis
  proof (cases "t_vmspace th")
    case None
    then show ?thesis using a th cur by (simp add: mi_switch_back_def as_activate_cur_def h_def [symmetric])
  next
    case (Some as)
    then show ?thesis using a th cur by (simp add: mi_switch_back_def as_activate_cur_def h_def [symmetric])
  qed
qed

lemma thread_sleep_back_spec:
  assumes inv: "thread_inv st" and spl: "0 < curspl st" and cur: "curthread st = Some cur"
  shows "\<exists>st'. thread_sleep_back st = Some st' \<and> thread_inv st' \<and> array_list (zombies st') = [] \<and>
     curthread st' = curthread st \<and> runqueue st' = runqueue st \<and> sleepers st' = sleepers st \<and> curspl st' = curspl st \<and>
     ksched.more st' = ksched.more st \<and> (\<forall>t\<in>set (array_list (sleepers st)). t_heap st' t = t_heap st t)"
proof -
  from mi_switch_back_spec [OF assms] obtain st1 where st1: "mi_switch_back st = Some st1" "thread_inv st1"
    "array_list (zombies st1) = []" "curthread st1 = curthread st" "runqueue st1 = runqueue st"
    "sleepers st1 = sleepers st" "curspl st1 = curspl st" "ksched.more st1 = ksched.more st"
    "t_heap st1 = (\<lambda>t. if t \<in> set (array_list (zombies st)) then None else t_heap st t)" by auto
  then obtain th where th: "t_heap st1 cur = Some th" using cur_facts(1) [OF st1(2)] cur by auto
  have o: "\<And>t. t \<in> set (array_list (sleepers st)) \<Longrightarrow> t \<noteq> cur \<and> t \<notin> set (array_list (zombies st))"
    using inv cur by (auto simp: thread_inv_def live_def)
  from st1 cur thread_inv_cur_heap [OF st1(2) _ th, of "th\<lparr>t_sleepaddr := None\<rparr>"] th o show ?thesis
    by (simp add: thread_sleep_back_def)
qed

section \<open>Forking\<close>

text \<open>
  Making room and entering the new thread: it succeeds, or one of the three reservations fails. The
  thread itself needs no further memory once the ring is as large as \<^verbatim>\<open>scheduler_preallocate\<close> makes it.
\<close>

lemma fork_enter_spec:
  assumes inv: "thread_inv st" and cur: "curthread st = Some cur" and spl: "0 < curspl st"
    and new: "p \<notin> set (live st)" "p \<notin> set (array_list (zombies st))" "th_ok st p"
    and few: "numthreads st < max_threads"
  shows "\<exists>r sl zs q n. fork_enter fm p st =
       Some (r, st\<lparr>sleepers := sl, zombies := zs, runqueue := q, numthreads := n\<rparr>) \<and>
     thread_inv (st\<lparr>sleepers := sl, zombies := zs, runqueue := q, numthreads := n\<rparr>) \<and>
     array_list sl = array_list (sleepers st) \<and> array_list zs = array_list (zombies st) \<and>
     (r = Inr () \<and> q_list q = q_list (runqueue st) @ [p] \<and> n = numthreads st + 1 \<or>
      r = Inl ENOMEM \<and> q_list q = q_list (runqueue st) \<and> n = numthreads st \<and>
        \<not> (fm_sleepers fm \<and> fm_zombies fm \<and> fm_queue fm))"
proof -
  let ?n = "numthreads st + 1"
  note cf = cur_facts [OF inv cur]
  have b: "?n \<le> 2 ^ 28" "?n \<le> 2 ^ 29" "2 * ?n \<le> 2 ^ 29" using few by (simp_all add: max_threads_def)
  have ai: "array_inv (sleepers st)" "array_inv (zombies st)" and qi: "q_inv (runqueue st)" "q_room (runqueue st)"
    using inv by (simp_all add: thread_inv_def)
  from array_preallocate_spec [OF ai(1) b(1), of "fm_sleepers fm"] obtain r1 sl where
    sl: "array_preallocate (fm_sleepers fm) (sleepers st) ?n = Some (r1, sl)" "array_inv sl"
      "array_list sl = array_list (sleepers st)" "max_slots (sleepers st) \<le> max_slots sl"
      "r1 = Inr () \<and> ?n \<le> max_slots sl \<or> r1 = Inl ENOMEM \<and> \<not> fm_sleepers fm" by blast
  from array_preallocate_spec [OF ai(2) b(1), of "fm_zombies fm"] obtain r2 zs where
    zs: "array_preallocate (fm_zombies fm) (zombies st) ?n = Some (r2, zs)" "array_inv zs"
      "array_list zs = array_list (zombies st)" "r2 = Inr () \<or> r2 = Inl ENOMEM \<and> \<not> fm_zombies fm" by blast
  from q_preallocate_spec [OF qi(1) b(2), of "fm_queue fm"] obtain r3 q where
    q: "q_preallocate (fm_queue fm) (runqueue st) ?n = Some (r3, q)" "q_inv q" "q_list q = q_list (runqueue st)"
      "r3 = Inr () \<and> ?n \<le> qsize q \<and> qsize (runqueue st) \<le> qsize q \<and> (qsize q = qsize (runqueue st) \<or> qsize q < 2 * ?n) \<or>
       r3 = Inl ENOMEM \<and> q = runqueue st \<and> \<not> fm_queue fm" by blast
  have keep: "thread_inv (st\<lparr>sleepers := sl', zombies := zs', runqueue := q', numthreads := numthreads st\<rparr>)"
    if "sl' = sleepers st \<or> sl' = sl" "zs' = zombies st \<or> zs' = zs" "q' = runqueue st" for sl' zs' q'
    using inv that sl(2,3,4) zs(2,3) by (auto simp: thread_inv_def place_defs)
  show ?thesis
  proof (cases "r1 = Inr () \<and> r2 = Inr () \<and> r3 = Inr ()")
    case True
    let ?s = "st\<lparr>sleepers := sl, zombies := zs, runqueue := q\<rparr>"
    have "length (q_list q) + 1 < qsize q" using q(3,4) True cf(5) by auto
    from make_runnable_room [of ?s "fm_runnable fm" p] this q(2) spl obtain q' where
      q': "make_runnable (fm_runnable fm) p ?s = Some (Inr (), ?s\<lparr>runqueue := q'\<rparr>)" "q_inv q'"
        "q_list q' = q_list q @ [p]" "qsize q' = qsize q" by auto
    have "q_room q'" using q'(4) q(4) True qi(2) b(3) by (auto simp: q_room_def)
    then have "thread_inv (st\<lparr>sleepers := sl, zombies := zs, runqueue := q', numthreads := ?n\<rparr>)"
      using inv sl zs q q' True new few by (auto simp: thread_inv_def place_defs)
    moreover have "fork_enter fm p st =
        Some (Inr (), st\<lparr>sleepers := sl, zombies := zs, runqueue := q', numthreads := ?n\<rparr>)"
      using sl(1) zs(1) q(1) q'(1) True spl by (simp add: fork_enter_def scheduler_preallocate_def)
    ultimately show ?thesis using sl(3) zs(3) q(3) q'(3)
      by (intro exI [of _ "Inr ()"] exI [of _ sl] exI [of _ zs] exI [of _ q'] exI [of _ ?n]) simp
  next
    case False
    then consider "r1 = Inl ENOMEM" "\<not> fm_sleepers fm" | "r1 = Inr ()" "r2 = Inl ENOMEM" "\<not> fm_zombies fm"
      | "r1 = Inr ()" "r2 = Inr ()" "r3 = Inl ENOMEM" "\<not> fm_queue fm" "q = runqueue st"
      using sl(5) zs(4) q(4) by blast
    then show ?thesis
    proof cases
      case 1
      then show ?thesis using sl keep [of sl "zombies st" "runqueue st"]
        by (intro exI [of _ "Inl ENOMEM"] exI [of _ sl] exI [of _ "zombies st"] exI [of _ "runqueue st"]
              exI [of _ "numthreads st"]) (simp add: fork_enter_def)
    next
      case 2
      then show ?thesis using sl zs keep [of sl zs "runqueue st"]
        by (intro exI [of _ "Inl ENOMEM"] exI [of _ sl] exI [of _ zs] exI [of _ "runqueue st"]
              exI [of _ "numthreads st"]) (simp add: fork_enter_def)
    next
      case 3
      then show ?thesis using sl zs q(1) spl keep [of sl zs "runqueue st"]
        by (intro exI [of _ "Inl ENOMEM"] exI [of _ sl] exI [of _ zs] exI [of _ "runqueue st"]
              exI [of _ "numthreads st"]) (simp add: fork_enter_def scheduler_preallocate_def)
    qed
  qed
qed

text \<open>A new thread as \<^verbatim>\<open>thread_fork\<close> leaves it, and a reference added to a directory, if there is one.\<close>

definition new_thread :: "nat option \<Rightarrow> thread" where
  "new_thread c = \<lparr>t_pcb = PCB_start, t_sleepaddr = None, t_stack = Some stack_magic, t_vmspace = None, t_cwd = c\<rparr>"

definition add_ref :: "nat option \<Rightarrow> (nat \<Rightarrow> int) \<Rightarrow> nat \<Rightarrow> int" where
  "add_ref d refs = (case d of None \<Rightarrow> refs | Some x \<Rightarrow> refs(x := refs x + 1))"

definition fork_mem_ok :: "fork_mem \<Rightarrow> bool" where
  "fork_mem_ok fm \<longleftrightarrow> fm_thread fm \<noteq> None \<and> fm_name fm \<and> fm_stack fm \<and> fm_sleepers fm \<and> fm_zombies fm \<and> fm_queue fm"

lemma thread_inv_fresh:
  assumes inv: "thread_inv st" and new: "t_heap st p = None"
  shows "p \<notin> set (live st)" and "p \<notin> set (array_list (zombies st))"
    and "thread_inv (st\<lparr>t_heap := (t_heap st)(p \<mapsto> th)\<rparr>)"
proof -
  show l: "p \<notin> set (live st)" and z: "p \<notin> set (array_list (zombies st))"
    using inv new by (auto simp: thread_inv_def th_ok_def th_dead_def)
  then have "\<And>t. t \<in> set (live st) \<union> set (array_list (zombies st)) \<Longrightarrow> t \<noteq> p" by auto
  moreover have "live (st\<lparr>t_heap := (t_heap st)(p \<mapsto> th)\<rparr>) = live st" by (simp add: live_def)
  moreover have "set (array_list (sleepers st)) \<subseteq> set (live st)" by (auto simp: live_def)
  ultimately show "thread_inv (st\<lparr>t_heap := (t_heap st)(p \<mapsto> th)\<rparr>)"
    using inv unfolding thread_inv_def by (auto simp: th_ok_def th_asleep_def th_dead_def)
qed

lemma thread_inv_forget:
  assumes inv: "thread_inv st" and new: "p \<notin> set (live st)" "p \<notin> set (array_list (zombies st))"
  shows "thread_inv (st\<lparr>t_heap := (t_heap st)(p := None)\<rparr>)"
proof -
  have "live (st\<lparr>t_heap := (t_heap st)(p := None)\<rparr>) = live st" by (simp add: live_def)
  moreover have "set (array_list (sleepers st)) \<subseteq> set (live st)" by (auto simp: live_def)
  ultimately show ?thesis using inv new unfolding thread_inv_def by (auto simp: th_ok_def th_asleep_def th_dead_def)
qed

text \<open>\<^verbatim>\<open>thread_fork\<close> once it has a thread and a stack.\<close>

lemma thread_fork_run:
  assumes "fm_thread fm = Some p" "fm_name fm" "fm_stack fm" and "curthread st = Some cur" "t_heap st cur = Some curth"
    and "cur \<noteq> p" and "t_cwd curth = d"
    and "splhigh (st\<lparr>vn_refs := add_ref d (vn_refs st), t_heap := (t_heap st)(p \<mapsto> new_thread d)\<rparr>) = (l, s)"
    and "fork_enter fm p s = Some (r, s')"
  shows "thread_fork fm st = (let t = snd (splx l s') in case r of Inr _ \<Rightarrow> Some (Inr p, t)
     | Inl e \<Rightarrow> Some (Inl e, (case d of None \<Rightarrow> t | Some x \<Rightarrow> t\<lparr>vn_refs := (vn_refs t)(x := vn_refs t x - 1)\<rparr>)
          \<lparr>t_heap := (t_heap t)(p := None)\<rparr>))"
  using assms by (cases d) (simp_all add: thread_fork_def thread_create_def add_ref_def new_thread_def Let_def
      split: sum.splits)

lemma thread_fork_spec:
  assumes inv: "thread_inv st" and cur: "curthread st = Some cur" and th: "t_heap st cur = Some curth"
    and fresh: "\<And>p. fm_thread fm = Some p \<Longrightarrow> t_heap st p = None" and few: "numthreads st < max_threads"
  shows "\<exists>r st'. thread_fork fm st = Some (r, st') \<and> thread_inv st' \<and> curthread st' = curthread st \<and>
     curspl st' = curspl st \<and> array_list (sleepers st') = array_list (sleepers st) \<and>
     array_list (zombies st') = array_list (zombies st) \<and> ksched.more st' = ksched.more st \<and> in_interrupt st' = in_interrupt st \<and>
     ((\<exists>p. r = Inr p \<and> fm_thread fm = Some p \<and> q_list (runqueue st') = q_list (runqueue st) @ [p] \<and>
         numthreads st' = numthreads st + 1 \<and> t_heap st' = (t_heap st)(p \<mapsto> new_thread (t_cwd curth)) \<and>
         vn_refs st' = add_ref (t_cwd curth) (vn_refs st)) \<or>
      r = Inl ENOMEM \<and> \<not> fork_mem_ok fm \<and> q_list (runqueue st') = q_list (runqueue st) \<and>
        numthreads st' = numthreads st \<and> t_heap st' = t_heap st \<and> vn_refs st' = vn_refs st)"
proof (cases "fm_thread fm")
  case None
  then show ?thesis using inv by (simp add: thread_fork_def thread_create_def fork_mem_ok_def)
next
  case (Some p)
  note p = fresh [OF Some] and pf = thread_inv_fresh [OF inv fresh [OF Some]]
  have ne: "cur \<noteq> p" using th p by auto
  show ?thesis
  proof (cases "fm_name fm \<and> fm_stack fm")
    case False
    have u: "(t_heap st)(p := None) = t_heap st" using p by auto
    have "st\<lparr>t_heap := t_heap st\<rparr> = st" by simp
    then show ?thesis using inv False Some u by (auto simp: thread_fork_def thread_create_def fork_mem_ok_def)
  next
    case True
    define d where "d = t_cwd curth"
    define s where "s = snd (splhigh (st\<lparr>vn_refs := add_ref d (vn_refs st), t_heap := (t_heap st)(p \<mapsto> new_thread d)\<rparr>))"
    have sf: "thread_inv s" "curthread s = Some cur" "0 < curspl s" "p \<notin> set (live s)"
      "p \<notin> set (array_list (zombies s))" "th_ok s p" "numthreads s < max_threads" "sleepers s = sleepers st"
      "zombies s = zombies st" "runqueue s = runqueue st" "numthreads s = numthreads st"
      "ksched.more s = ksched.more st" "t_heap s = (t_heap st)(p \<mapsto> new_thread d)" "vn_refs s = add_ref d (vn_refs st)"
      "in_interrupt s = in_interrupt st"
      using thread_inv_fresh(3) [of "st\<lparr>vn_refs := add_ref d (vn_refs st)\<rparr>" p "new_thread d"] inv p pf(1,2) cur few
      by (simp_all add: s_def live_def th_ok_def new_thread_def stack_check_def stack_magic_def)
    obtain r sl zs q n where fe: "fork_enter fm p s =
         Some (r, s\<lparr>sleepers := sl, zombies := zs, runqueue := q, numthreads := n\<rparr>)"
      and ti: "thread_inv (s\<lparr>sleepers := sl, zombies := zs, runqueue := q, numthreads := n\<rparr>)"
      and al: "array_list sl = array_list (sleepers st)" "array_list zs = array_list (zombies st)"
      and rr: "r = Inr () \<and> q_list q = q_list (runqueue st) @ [p] \<and> n = numthreads st + 1 \<or>
        r = Inl ENOMEM \<and> q_list q = q_list (runqueue st) \<and> n = numthreads st \<and>
          \<not> (fm_sleepers fm \<and> fm_zombies fm \<and> fm_queue fm)"
      using fork_enter_spec [OF sf(1-7), of fm] sf(8-11) by auto
    let ?s = "s\<lparr>sleepers := sl, zombies := zs, runqueue := q, numthreads := n\<rparr>"
    let ?t = "snd (splx (curspl st) ?s)"
    have run: "thread_fork fm st = (case r of Inr _ \<Rightarrow> Some (Inr p, ?t)
        | Inl e \<Rightarrow> Some (Inl e, (case d of None \<Rightarrow> ?t | Some x \<Rightarrow> ?t\<lparr>vn_refs := (vn_refs ?t)(x := vn_refs ?t x - 1)\<rparr>)
                          \<lparr>t_heap := (t_heap ?t)(p := None)\<rparr>))"
    proof -
      have "splhigh (st\<lparr>vn_refs := add_ref d (vn_refs st), t_heap := (t_heap st)(p \<mapsto> new_thread d)\<rparr>) = (curspl st, s)"
        by (simp add: s_def prod_eq_iff)
      from thread_fork_run [OF Some _ _ cur th ne d_def [symmetric] this fe] True show ?thesis by (simp only: Let_def simp_thms)
    qed
    show ?thesis
    proof (cases "r = Inr ()")
      case True
      then show ?thesis using run ti al rr sf Some cur by (auto simp: d_def)
    next
      case False
      then have r: "r = Inl ENOMEM" "q_list q = q_list (runqueue st)" "n = numthreads st" "\<not> fork_mem_ok fm"
        using rr by (auto simp: fork_mem_ok_def)
      have l: "p \<notin> set (live ?t)" "p \<notin> set (array_list (zombies ?t))"
        using sf(4,5,8-10) al r(2) by (simp_all add: live_def)
      have h: "(t_heap ?t)(p := None) = t_heap st" using sf(13) p by auto
      have ti': "thread_inv (?t\<lparr>t_heap := (t_heap ?t)(p := None)\<rparr>)" using thread_inv_forget [OF _ l] ti by simp
      let ?u = "(case d of None \<Rightarrow> ?t | Some x \<Rightarrow> ?t\<lparr>vn_refs := (vn_refs ?t)(x := vn_refs ?t x - 1)\<rparr>)
         \<lparr>t_heap := (t_heap ?t)(p := None)\<rparr>"
      have "thread_inv ?u" using ti' by (cases d) simp_all
      moreover have "vn_refs ?u = vn_refs st" using sf(14) by (cases d) (auto simp: add_ref_def)
      moreover have "curthread ?u = curthread st" "curspl ?u = curspl st" "sleepers ?u = sl" "zombies ?u = zs"
        "runqueue ?u = q" "numthreads ?u = n" "t_heap ?u = t_heap st" "ksched.more ?u = ksched.more st"
        "in_interrupt ?u = in_interrupt st" using sf(2,12,15) cur h by (cases d; simp)+
      ultimately show ?thesis using run r al by simp
    qed
  qed
qed

section \<open>Reachable states\<close>

text \<open>
  The steps of the kernel's threads, as \<^verbatim>\<open>thread.c\<close> offers them: what the running thread calls, what it
  does when it is switched to, what interrupts do. Every operation may be called with any argument and
  any outcome of the allocator, in any order.
\<close>

inductive kstep :: "'z ksched_scheme \<Rightarrow> 'z ksched_scheme \<Rightarrow> bool" where
  k_fork: "thread_fork fm st = Some (r, st') \<Longrightarrow> (\<And>p. fm_thread fm = Some p \<Longrightarrow> t_heap st p = None) \<Longrightarrow>
    numthreads st < max_threads \<Longrightarrow> curthread st \<noteq> None \<Longrightarrow> kstep st st'"
| k_yield: "thread_yield mem irqs st = Some st' \<Longrightarrow> \<forall>irq\<in>set irqs. irq_ok irq \<Longrightarrow> kstep st st'"
| k_sleep: "thread_sleep mem irqs addr st = Some st' \<Longrightarrow> \<forall>irq\<in>set irqs. irq_ok irq \<Longrightarrow> kstep st st'"
| k_exit: "thread_exit mem irqs st = Some st' \<Longrightarrow> \<forall>irq\<in>set irqs. irq_ok irq \<Longrightarrow> num (zombies st) < 2 ^ 28 \<Longrightarrow> kstep st st'"
| k_wakeup: "thread_wakeup mem addr st = Some st' \<Longrightarrow> kstep st st'"
| k_wakeone: "thread_wakeone mem addr st = Some st' \<Longrightarrow> kstep st st'"
| k_clock: "hardclock mem irqs st = Some st' \<Longrightarrow> \<forall>irq\<in>set irqs. irq_ok irq \<Longrightarrow> kstep st st'"
| k_back: "mi_switch_back st = Some st' \<Longrightarrow> curthread st \<noteq> None \<Longrightarrow> kstep st st'"
| k_sleep_back: "thread_sleep_back st = Some st' \<Longrightarrow> curthread st \<noteq> None \<Longrightarrow> kstep st st'"
| k_start: "mi_threadstart st = Some st' \<Longrightarrow> kstep st st'"
| k_spl: "kstep st (snd (splx l st))"

inductive_cases kstepE: "kstep st st'"

text \<open>Waking without the assumption of room: the ring may grow, or the kernel panics.\<close>

lemma wake_inv:
  assumes inv: "thread_inv st" and i: "i < num (sleepers st)" and t: "array_list (sleepers st) ! i = t"
    and rm: "array_remove (sleepers st) i = Some a"
    and mk: "make_runnable mem t (st\<lparr>sleepers := a\<rparr>) = Some (Inr (), st1)"
  shows "thread_inv st1 \<and> curthread st1 = curthread st \<and> curspl st1 = curspl st"
proof -
  have ai: "array_inv (sleepers st)" and qi: "q_inv (runqueue st)" "q_room (runqueue st)"
    and nt: "numthreads st \<le> max_threads" using inv by (simp_all add: thread_inv_def)
  from array_remove_spec [OF ai i] rm have a: "array_inv a" "max_slots a = max_slots (sleepers st)"
    "array_list a = take i (array_list (sleepers st)) @ drop (Suc i) (array_list (sleepers st))" by auto
  have il: "i < length (array_list (sleepers st))" using i length_array_list [OF ai] by simp
  have sp: "array_list (sleepers st) = take i (array_list (sleepers st)) @ t # drop (Suc i) (array_list (sleepers st))"
    using id_take_nth_drop [OF il] t by simp
  from q_addtail_spec [OF qi, of mem t] mk obtain q where
    q: "st1 = st\<lparr>sleepers := a, runqueue := q\<rparr>" "q_inv q" "q_list q = q_list (runqueue st) @ [t]"
      "qsize (runqueue st) \<le> qsize q" "qsize q = qsize (runqueue st) \<or>
        length (q_list (runqueue st)) + 1 = qsize (runqueue st) \<and> qsize q < 2 * (qsize (runqueue st) + 1)"
    by (auto simp: make_runnable_def split: if_splits)
  have "length (q_list (runqueue st)) \<le> numthreads st" using inv by (simp add: thread_inv_def live_def)
  then have room: "q_room q" using q(5) qi(2) nt by (auto simp: q_room_def max_threads_def)
  have ms: "mset (array_list (sleepers st)) = mset (t # array_list a)"
    by (subst sp) (simp add: a(3))
  have ml: "mset (live st1) = mset (live st)" unfolding live_def using q(1,3) ms by simp
  have z: "array_list (zombies st1) = array_list (zombies st)" using q(1) by simp
  have "mset (live st1 @ array_list (zombies st1)) = mset (live st @ array_list (zombies st))" using ml z by simp
  then have d: "distinct (live st1 @ array_list (zombies st1))"
    using inv mset_eq_imp_distinct_iff unfolding thread_inv_def by blast
  have len: "length (live st1) = length (live st)" and sets: "set (live st1) = set (live st)"
    using ml by (metis size_mset, metis set_mset_mset)
  have sub: "set (array_list a) \<subseteq> set (array_list (sleepers st))" using arg_cong [OF ms, of set_mset] by auto
  have "\<forall>u\<in>set (live st1). th_ok st1 u" "\<forall>u\<in>set (array_list a). th_asleep st1 u"
    "\<forall>u\<in>set (array_list (zombies st)). th_dead st1 u"
    using inv sub sets q(1) by (auto simp: thread_inv_def th_ok_def th_asleep_def th_dead_def)
  then show ?thesis using inv d len a(1,2) q(1,2,4) room by (auto simp: thread_inv_def)
qed

lemma wakeup_from_inv:
  assumes "thread_inv st" and "wakeup_from mem addr i k st = Some st'"
  shows "thread_inv st' \<and> curthread st' = curthread st \<and> curspl st' = curspl st"
  using assms
proof (induction k arbitrary: i st)
  case (Suc k)
  have ai: "array_inv (sleepers st)" using Suc.prems(1) by (simp add: thread_inv_def)
  from Suc.prems(2) obtain t where t: "array_getguy (sleepers st) i = Some t" by (auto elim!: bind_eq_SomeE)
  then have i: "i < num (sleepers st)" using array_getguy_out by fastforce
  then have tt: "array_list (sleepers st) ! i = t" using array_getguy_spec [OF ai i] t by simp
  show ?case
    using Suc.prems t Suc.IH wake_inv [OF Suc.prems(1) i tt]
    by (auto elim!: bind_eq_SomeE split: if_splits) metis+
qed simp

lemma wakeone_from_inv:
  assumes "thread_inv st" and "wakeone_from mem addr i k st = Some st'"
  shows "thread_inv st' \<and> curthread st' = curthread st \<and> curspl st' = curspl st"
  using assms
proof (induction k arbitrary: i)
  case (Suc k)
  have ai: "array_inv (sleepers st)" using Suc.prems(1) by (simp add: thread_inv_def)
  from Suc.prems(2) obtain t where t: "array_getguy (sleepers st) i = Some t" by (auto elim!: bind_eq_SomeE)
  then have i: "i < num (sleepers st)" using array_getguy_out by fastforce
  then have tt: "array_list (sleepers st) ! i = t" using array_getguy_spec [OF ai i] t by simp
  show ?case
    using Suc.prems t Suc.IH wake_inv [OF Suc.prems(1) i tt]
    by (auto elim!: bind_eq_SomeE split: if_splits)
qed simp

lemma kstep_inv:
  assumes "kstep st st'" and inv: "thread_inv st"
  shows "thread_inv st'"
  using assms(1)
proof cases
  case (k_fork fm r)
  then obtain cur where cur: "curthread st = Some cur" by auto
  then obtain th where "t_heap st cur = Some th" using cur_facts(1) [OF inv cur] by auto
  from thread_fork_spec [OF inv cur this, of fm] k_fork show ?thesis by auto
next
  case (k_yield mem irqs)
  then show ?thesis using thread_yield_inv [OF inv] by blast
next
  case (k_sleep mem irqs addr)
  then show ?thesis using thread_sleep_inv [OF inv] by blast
next
  case (k_exit mem irqs)
  then show ?thesis using thread_exit_inv [OF inv] by blast
next
  case (k_wakeup mem addr)
  then show ?thesis using wakeup_from_inv [OF inv] by (auto simp: thread_wakeup_def split: if_splits)
next
  case (k_wakeone mem addr)
  then show ?thesis using wakeone_from_inv [OF inv] by (auto simp: thread_wakeone_def split: if_splits)
next
  case (k_clock mem irqs)
  then obtain st1 where st1: "thread_yield mem irqs st1 = Some st'"
    "st1 = st\<lparr>lbolt_counter := lbolt_counter st + 1\<rparr> \<or>
     thread_wakeup mem lbolt (st\<lparr>lbolt_counter := 0\<rparr>) = Some st1"
    by (auto simp: hardclock_def Let_def split: if_splits elim!: bind_eq_SomeE)
  have "thread_inv st1"
    using st1(2) inv wakeup_from_inv [of "st\<lparr>lbolt_counter := 0\<rparr>"]
    by (auto simp: thread_wakeup_def split: if_splits)
  then show ?thesis using thread_yield_inv st1(1) k_clock(2) by blast
next
  case k_back
  then have "0 < curspl st" by (auto simp: mi_switch_back_def exorcise_def split: if_splits)
  with k_back mi_switch_back_spec [OF inv] show ?thesis by auto
next
  case k_sleep_back
  then have "0 < curspl st"
    by (auto simp: thread_sleep_back_def mi_switch_back_def exorcise_def split: if_splits)
  with k_sleep_back thread_sleep_back_spec [OF inv] show ?thesis by auto
next
  case k_start
  then show ?thesis using as_activate_cur_inv [OF inv] by (auto simp: mi_threadstart_def spl0_def elim!: bind_eq_SomeE)
next
  case (k_spl l)
  then show ?thesis using inv by simp
qed

lemma boot_inv:
  assumes "scheduler_bootstrap a b st0 = Some st1" and "thread_bootstrap c d new e st1 = Some (me, st2)"
  shows "thread_inv st2 \<and> curthread st2 = Some me \<and> numthreads st2 = 1 \<and> q_list (runqueue st2) = [] \<and>
     array_list (sleepers st2) = []"
proof -
  obtain q where q: "q_create a b 32 = Some q" "st1 = st0\<lparr>runqueue := q\<rparr>"
    using assms(1) by (auto simp: scheduler_bootstrap_def elim!: bind_eq_SomeE)
  have qf: "q_inv q" "q_list q = []" "qsize q = 32" using q_create_spec [OF _ _ q(1)] by auto
  then have "q_count q = 0" by (metis length_q_list list.size(3))
  note qf = qf this
  obtain sl zs :: "nat parray" where a: "array_create c = Some sl" "array_create d = Some zs"
    using assms(2) by (auto simp: thread_bootstrap_def elim!: bind_eq_SomeE)
  note ac = array_create_spec [OF a(1)] array_create_spec [OF a(2)]
  show ?thesis
    using assms(2) a q(2) qf ac
    by (auto simp: thread_bootstrap_def thread_create_def thread_inv_def place_defs stack_check_def q_room_def
        max_threads_def split: option.splits if_splits)
qed

section \<open>Taking turns\<close>

text \<open>
  What a thread does first when it is switched to: come back inside \<^verbatim>\<open>mi_switch\<close>, or start. (After it
  came back it also puts its own priority level back, which the next yield raises again.)
\<close>

definition resume :: "'z ksched_scheme \<Rightarrow> 'z ksched_scheme option" where
  "resume st = do {
     cur \<leftarrow> curthread st;
     th \<leftarrow> t_heap st cur;
     (case t_pcb th of PCB_start \<Rightarrow> mi_threadstart st | PCB_switched \<Rightarrow> mi_switch_back st)
   }"

text \<open>A number of yields, each by the thread that is running then.\<close>

fun turns :: "bool \<Rightarrow> nat \<Rightarrow> 'z ksched_scheme \<Rightarrow> 'z ksched_scheme option" where
  "turns mem 0 st = Some st"
| "turns mem (Suc n) st = do {
     st1 \<leftarrow> thread_yield mem [] st;
     st2 \<leftarrow> resume st1;
     turns mem n st2
   }"

lemma resume_spec:
  assumes inv: "thread_inv st" and cur: "curthread st = Some cur" and spl: "0 < curspl st"
  shows "\<exists>st'. resume st = Some st' \<and> thread_inv st' \<and> curthread st' = Some cur \<and> runqueue st' = runqueue st \<and>
     sleepers st' = sleepers st \<and> numthreads st' = numthreads st"
proof -
  obtain th where th: "t_heap st cur = Some th" using cur_facts(1) [OF inv cur] by auto
  show ?thesis
  proof (cases "t_pcb th")
    case PCB_start
    then show ?thesis using inv cur th
      by (auto simp: resume_def mi_threadstart_def as_activate_cur_def spl0_def split: option.splits)
  next
    case PCB_switched
    then show ?thesis using mi_switch_back_spec [OF inv spl cur] cur th by (auto simp: resume_def)
  qed
qed

lemma turn_spec:
  assumes inv: "thread_inv st" and cur: "curthread st = Some cur"
    and room: "mem \<or> array_list (sleepers st) \<noteq> [] \<or> numthreads st < qsize (runqueue st)"
  shows "\<exists>st1 st2. thread_yield mem [] st = Some st1 \<and> resume st1 = Some st2 \<and> thread_inv st2 \<and>
     curthread st2 = Some (hd (q_list (runqueue st) @ [cur])) \<and>
     q_list (runqueue st2) = tl (q_list (runqueue st) @ [cur]) \<and>
     (mem \<or> array_list (sleepers st2) \<noteq> [] \<or> numthreads st2 < qsize (runqueue st2))"
proof -
  obtain th where th: "t_heap st cur = Some th" using cur_facts(1) [OF inv cur] by auto
  let ?t = "hd (q_list (runqueue st) @ [cur])"
  obtain q where q: "thread_yield mem [] st =
      Some ((off_cpu cur th (snd (splhigh st)))\<lparr>runqueue := q, curthread := Some ?t\<rparr>)"
    "thread_inv ((off_cpu cur th (snd (splhigh st)))\<lparr>runqueue := q, curthread := Some ?t\<rparr>)"
    "q_list q = tl (q_list (runqueue st) @ [cur])" "qsize (runqueue st) \<le> qsize q"
    using thread_yield_turn [OF inv cur th room, of "[]"] by blast
  let ?s = "(off_cpu cur th (snd (splhigh st)))\<lparr>runqueue := q, curthread := Some ?t\<rparr>"
  have "curthread ?s = Some ?t" "0 < curspl ?s" by simp_all
  from resume_spec [OF q(2) this] obtain st2 where
    "resume ?s = Some st2" "thread_inv st2" "curthread st2 = Some ?t" "runqueue st2 = q"
    "sleepers st2 = sleepers st" "numthreads st2 = numthreads st" by auto
  with q room show ?thesis by (intro exI [of _ ?s] exI [of _ st2]) auto
qed

lemma turns_reach:
  assumes "thread_inv st" and "curthread st = Some cur" and "k < length (q_list (runqueue st))"
    and "mem \<or> array_list (sleepers st) \<noteq> [] \<or> numthreads st < qsize (runqueue st)"
  shows "\<exists>st'. turns mem (Suc k) st = Some st' \<and> thread_inv st' \<and> curthread st' = Some (q_list (runqueue st) ! k)"
  using assms
proof (induction k arbitrary: st cur)
  case 0
  with turn_spec [of st cur mem] show ?case by (auto simp: hd_conv_nth nth_append)
next
  case (Suc k)
  from turn_spec [OF Suc.prems(1,2,4)] obtain st1 st2 where
    s: "thread_yield mem [] st = Some st1" "resume st1 = Some st2" "thread_inv st2"
      "curthread st2 = Some (hd (q_list (runqueue st) @ [cur]))"
      "q_list (runqueue st2) = tl (q_list (runqueue st) @ [cur])"
      "mem \<or> array_list (sleepers st2) \<noteq> [] \<or> numthreads st2 < qsize (runqueue st2)"
    by blast
  have "k < length (q_list (runqueue st2))" using s(5) Suc.prems(3) by simp
  from Suc.IH [OF s(3,4) this s(6)] obtain st' where
    st': "turns mem (Suc k) st2 = Some st'" "thread_inv st'" "curthread st' = Some (q_list (runqueue st2) ! k)"
    by blast
  moreover have "q_list (runqueue st2) ! k = q_list (runqueue st) ! Suc k"
    using s(5) Suc.prems(3) by (simp add: nth_tl nth_append)
  moreover have "turns mem (Suc (Suc k)) st = turns mem (Suc k) st2" using s(1,2) by (simp only: turns.simps bind.simps)
  ultimately show ?case by simp
qed

section \<open>Properties\<close>


definition cold_machine :: ksched where
  "cold_machine = \<lparr>status = 0, curspl = 15, curthread = None, t_heap = (\<lambda>_. None),
     sleepers = \<lparr>num = 0, max_slots = 0, v = None\<rparr>, zombies = \<lparr>num = 0, max_slots = 0, v = None\<rparr>, numthreads = 0,
     runqueue = \<lparr>qsize = 0, nextwrite = 0, nextread = 0, data = []\<rparr>, in_interrupt = False, vn_refs = (\<lambda>_. 0),
     activated = None, lbolt_counter = 0\<rparr>"

definition plenty :: "nat \<Rightarrow> fork_mem" where
  "plenty p = \<lparr>fm_thread = Some p, fm_name = True, fm_stack = True, fm_sleepers = True, fm_zombies = True,
     fm_queue = True, fm_runnable = True\<rparr>"

lemma cold_boot:
  "\<exists>st1 st2. scheduler_bootstrap True True cold_machine = Some st1 \<and>
     thread_bootstrap True True (Some 100) True st1 = Some (100, st2) \<and> qsize (runqueue st2) = 32 \<and>
     t_heap st2 200 = None \<and> t_heap st2 100 \<noteq> None \<and> curspl st2 = 15 \<and> \<not> in_interrupt st2"
  by (simp add: scheduler_bootstrap_def thread_bootstrap_def thread_create_def q_create_def array_create_def
      cold_machine_def)

text \<open>The boot, a fork of a second thread, and the first thread going to sleep.\<close>

lemma two_threads:
  assumes "thread_inv st2" "curthread st2 = Some 100" "numthreads st2 = 1" "q_list (runqueue st2) = []"
    "array_list (sleepers st2) = []" "t_heap st2 200 = None" "curspl st2 = 15"
  shows "\<exists>st3. thread_fork (plenty 200) st2 = Some (Inr 200, st3) \<and> thread_inv st3 \<and> curthread st3 = Some 100 \<and>
     q_list (runqueue st3) = [200] \<and> numthreads st3 = 2 \<and> array_list (sleepers st3) = [] \<and> curspl st3 = 15"
proof -
  obtain th where "t_heap st2 100 = Some th" using cur_facts(1) [OF assms(1,2)] by auto
  from thread_fork_spec [OF assms(1,2) this, of "plenty 200"] assms show ?thesis
    by (auto simp: plenty_def fork_mem_ok_def max_threads_def)
qed


text \<open>
  \<^verbatim>\<open>thread_wakeup\<close> called by a running thread moves exactly the threads that sleep on the address to
  the end of the run queue, in the order they went to sleep, leaves the other sleepers in their order, and
  needs no memory: the assertion that \<^verbatim>\<open>make_runnable\<close> succeeded holds whatever the allocator does.
\<close>

theorem thread_wakeup_moves:
  assumes "thread_inv st" and "0 < curspl st" and "curthread st \<noteq> None"
  shows "\<exists>a q. thread_wakeup mem addr st = Some (st\<lparr>sleepers := a, runqueue := q\<rparr>) \<and>
     array_list a = filter (\<lambda>t. \<not> waits st addr t) (array_list (sleepers st)) \<and>
     q_list q = q_list (runqueue st) @ filter (waits st addr) (array_list (sleepers st)) \<and>
     thread_inv (st\<lparr>sleepers := a, runqueue := q\<rparr>)"
  using thread_wakeup_spec [OF assms(1,2) wakeup_room_all(1) [OF assms(1,3)]] .

text \<open>Three threads: 1 runs, 2 and 3 sleep, 3 on the address 64.\<close>

definition sleepy :: ksched where
  "sleepy = cold_machine\<lparr>curthread := Some 1, numthreads := 3,
     t_heap := [1 \<mapsto> new_thread None, 2 \<mapsto> (new_thread None)\<lparr>t_sleepaddr := Some 32\<rparr>,
                3 \<mapsto> (new_thread None)\<lparr>t_sleepaddr := Some 64\<rparr>],
     sleepers := \<lparr>num = 2, max_slots = 6, v = Some [Some 2, Some 3, None, None, None, None]\<rparr>,
     runqueue := \<lparr>qsize = 4, nextwrite = 1, nextread = 1, data = [None, None, None, None]\<rparr>\<rparr>"

lemma sleepy_lists:
  "array_list (sleepers sleepy) = [2, 3]" "q_list (runqueue sleepy) = []" "array_list (zombies sleepy) = []"
  by (simp_all add: sleepy_def cold_machine_def array_list_def array_slots_def q_list_def q_count_def
      numeral_2_eq_2)

lemma sleepy_inv: "thread_inv sleepy"
proof -
  have "array_inv (sleepers sleepy)" "array_inv (zombies sleepy)" "q_inv (runqueue sleepy)" "q_room (runqueue sleepy)"
    by (simp_all add: sleepy_def cold_machine_def array_inv_def array_slots_def q_inv_def q_room_def q_count_def
        less_2_cases_iff)
  moreover have "live sleepy = [1, 2, 3]" using sleepy_lists by (simp add: live_def) (simp add: sleepy_def)
  ultimately show ?thesis using sleepy_lists
    by (simp add: thread_inv_def) (simp add: sleepy_def th_ok_def th_asleep_def new_thread_def stack_check_def
        stack_magic_def max_threads_def)
qed

theorem thread_wakeup_moves_witness:
  "thread_inv sleepy \<and> (\<exists>a q. thread_wakeup False 64 sleepy = Some (sleepy\<lparr>sleepers := a, runqueue := q\<rparr>) \<and>
     array_list a = [2] \<and> q_list q = [3])"
proof -
  have "0 < curspl sleepy" "curthread sleepy \<noteq> None" by (simp_all add: sleepy_def cold_machine_def)
  moreover have "\<not> waits sleepy 64 2" "waits sleepy 64 3" by (simp_all add: waits_def sleepy_def)
  ultimately show ?thesis
    using thread_wakeup_moves [OF sleepy_inv, of False 64] sleepy_inv sleepy_lists by auto
qed

text \<open>
  C34: waking all sleepers on an address is the same as waking one as often as there are sleepers on it: the
  run queue ends up the same, and so does the line of sleepers on every address.
\<close>

theorem thread_wakeup_is_wakeones:
  assumes "thread_inv st" and "0 < curspl st" and "curthread st \<noteq> None"
  shows "\<exists>s1 s2. thread_wakeup mem addr st = Some s1 \<and>
     rep (length (line st addr)) (thread_wakeone mem addr) st = Some s2 \<and>
     q_list (runqueue s1) = q_list (runqueue s2) \<and> line s1 = line s2"
  using wc.wakeup_is_wakeones [of st mem addr] assms by (simp add: running_def)

theorem thread_wakeup_is_wakeones_witness:
  "line sleepy 64 = [3] \<and>
   (\<exists>s1 s2. thread_wakeup False 64 sleepy = Some s1 \<and> rep 1 (thread_wakeone False 64) sleepy = Some s2 \<and>
     q_list (runqueue s1) = q_list (runqueue s2))"
proof -
  have "0 < curspl sleepy" "curthread sleepy \<noteq> None" by (simp_all add: sleepy_def cold_machine_def)
  moreover have "\<not> waits sleepy 64 2" "waits sleepy 64 3" by (simp_all add: waits_def sleepy_def)
  then have "line sleepy 64 = [3]" using sleepy_lists by (simp add: line_def)
  ultimately show ?thesis using thread_wakeup_is_wakeones [OF sleepy_inv, of False 64] by auto
qed

text \<open>
  C35: every ready thread gets its turn: when the threads that run only yield, the thread at position \<open>k\<close> of
  the run queue is running after \<open>k + 1\<close> turns. No memory is needed as long as there is a sleeper or a
  free slot in the ring.
\<close>

theorem yield_round_robin:
  assumes "thread_inv st" and "curthread st = Some cur" and "k < length (q_list (runqueue st))"
    and "mem \<or> array_list (sleepers st) \<noteq> [] \<or> numthreads st < qsize (runqueue st)"
  shows "\<exists>st'. turns mem (Suc k) st = Some st' \<and> thread_inv st' \<and> curthread st' = Some (q_list (runqueue st) ! k)"
  using assms by (rule turns_reach)

theorem yield_round_robin_witness:
  "\<exists>st st'. thread_wakeup False 64 sleepy = Some st \<and> turns False 1 st = Some st' \<and> curthread st' = Some 3"
proof -
  have c: "0 < curspl sleepy" "curthread sleepy = Some 1" by (simp_all add: sleepy_def cold_machine_def)
  have w: "\<not> waits sleepy 64 2" "waits sleepy 64 3" by (simp_all add: waits_def sleepy_def)
  have "length (q_list (runqueue sleepy)) + length (filter (waits sleepy 64) (array_list (sleepers sleepy)))
      < qsize (runqueue sleepy)"
    using w sleepy_lists by (simp add: sleepy_def)
  from thread_wakeup_spec [OF sleepy_inv c(1) this, of False] obtain a q where
    s: "thread_wakeup False 64 sleepy = Some (sleepy\<lparr>sleepers := a, runqueue := q\<rparr>)" "array_list a = [2]"
      "q_list q = [3]" "thread_inv (sleepy\<lparr>sleepers := a, runqueue := q\<rparr>)"
    using w sleepy_lists by auto
  from yield_round_robin [OF s(4), of 1 0 False] s c show ?thesis by auto
qed

text \<open>
  C33: \<^verbatim>\<open>thread_fork\<close> is all or nothing. It never panics; it either enters one new thread at the end of the
  run queue, with the parent's directory and one more reference to it, or, only when the allocator fails,
  returns \<^verbatim>\<open>ENOMEM\<close> with the threads, their structures and the reference counts as they were. The
  priority level is as before in both cases.
\<close>

theorem thread_fork_atomic:
  assumes "thread_inv st" and "curthread st = Some cur" and "t_heap st cur = Some curth"
    and "\<And>p. fm_thread fm = Some p \<Longrightarrow> t_heap st p = None" and "numthreads st < max_threads"
  shows "\<exists>r st'. thread_fork fm st = Some (r, st') \<and> thread_inv st' \<and> curthread st' = curthread st \<and>
     curspl st' = curspl st \<and> array_list (sleepers st') = array_list (sleepers st) \<and>
     array_list (zombies st') = array_list (zombies st) \<and>
     ((\<exists>p. r = Inr p \<and> fm_thread fm = Some p \<and> q_list (runqueue st') = q_list (runqueue st) @ [p] \<and>
         numthreads st' = numthreads st + 1 \<and> t_heap st' = (t_heap st)(p \<mapsto> new_thread (t_cwd curth)) \<and>
         vn_refs st' = add_ref (t_cwd curth) (vn_refs st)) \<or>
      r = Inl ENOMEM \<and> \<not> fork_mem_ok fm \<and> q_list (runqueue st') = q_list (runqueue st) \<and>
        numthreads st' = numthreads st \<and> t_heap st' = t_heap st \<and> vn_refs st' = vn_refs st)"
  using thread_fork_spec [OF assms] by blast

theorem thread_fork_atomic_witness:
  "\<exists>st'. thread_fork (plenty 9) sleepy = Some (Inr 9, st') \<and> thread_inv st' \<and> q_list (runqueue st') = [9] \<and>
     numthreads st' = 4"
proof -
  have h: "t_heap sleepy 1 = Some (new_thread None)" "curthread sleepy = Some 1" "numthreads sleepy < max_threads"
    "numthreads sleepy = 3" "\<And>p. fm_thread (plenty 9) = Some p \<Longrightarrow> t_heap sleepy p = None" "fork_mem_ok (plenty 9)"
    by (simp_all add: sleepy_def plenty_def max_threads_def fork_mem_ok_def)
  have "fm_thread (plenty 9) = Some 9" by (simp add: plenty_def)
  with thread_fork_atomic [OF sleepy_inv h(2,1) _ h(3), of "plenty 9"] h(4-6) sleepy_lists show ?thesis by auto
qed

text \<open>
  The space \<^verbatim>\<open>scheduler_preallocate\<close> reserves is one slot short: a ring of \<open>n\<close> slots holds \<open>n - 1\<close>
  threads. With as many threads as slots, none of them asleep, a yield needs memory, and without it the
  assertion in \<^verbatim>\<open>mi_switch\<close> fails, although the comment there says the preallocation prevents this.
\<close>

theorem thread_yield_needs_memory:
  assumes inv: "thread_inv st" and cur: "curthread st = Some cur" and "array_list (sleepers st) = []"
    and "numthreads st = qsize (runqueue st)"
  shows "thread_yield False irqs st = None"
proof -
  let ?s = "snd (splhigh st)"
  have i: "thread_inv ?s" "curthread ?s = Some cur" "0 < curspl ?s" using inv cur by simp_all
  obtain th where th: "t_heap ?s cur = Some th" "stack_check th = Some ()" using cur_facts(1) [OF i(1,2)] by auto
  have q: "q_inv (runqueue st)" "q_room (runqueue st)" using inv by (simp_all add: thread_inv_def)
  have "q_count (runqueue st) + 1 = qsize (runqueue st)"
    using cur_facts(5) [OF inv cur] assms(3,4) by simp
  from q_addtail_full(1) [OF q this, of cur] show ?thesis
    unfolding thread_yield_def mi_switch_eq [OF i(2) th i(3)] by (simp add: stash_def make_runnable_def)
qed

text \<open>Two threads on a ring of two slots.\<close>

definition crowded :: ksched where
  "crowded = cold_machine\<lparr>curthread := Some 1, numthreads := 2, t_heap := [1 \<mapsto> new_thread None, 2 \<mapsto> new_thread None],
     sleepers := \<lparr>num = 0, max_slots = 2, v = Some [None, None]\<rparr>,
     runqueue := \<lparr>qsize = 2, nextwrite = 1, nextread = 0, data = [Some 2, None]\<rparr>\<rparr>"

lemma crowded_facts:
  "array_list (sleepers crowded) = []" "q_list (runqueue crowded) = [2]" "array_list (zombies crowded) = []"
  "array_inv (sleepers crowded)" "array_inv (zombies crowded)" "q_inv (runqueue crowded)" "q_room (runqueue crowded)"
  by (simp_all add: crowded_def cold_machine_def array_list_def array_slots_def array_inv_def q_list_def q_count_def
      q_inv_def q_room_def q_slot_def)

theorem thread_yield_needs_memory_witness:
  "thread_inv crowded \<and> thread_yield False [] crowded = None"
proof -
  have "live crowded = [1, 2]" using crowded_facts by (simp add: live_def) (simp add: crowded_def)
  then have i: "thread_inv crowded" using crowded_facts
    by (simp add: thread_inv_def) (simp add: crowded_def th_ok_def new_thread_def stack_check_def stack_magic_def
        max_threads_def)
  moreover have "curthread crowded = Some 1" "numthreads crowded = qsize (runqueue crowded)"
    by (simp_all add: crowded_def)
  ultimately show ?thesis using thread_yield_needs_memory [of crowded 1 "[]"] crowded_facts by simp
qed

lemma killall_from_spec:
  assumes "q_inv q" and "length (q_list q) \<le> k"
  shows "\<exists>q'. killall_from k q = Some q' \<and> q_inv q' \<and> q_list q' = []"
  using assms
proof (induction k arbitrary: q)
  case 0
  then show ?case by (subst killall_from.simps) (simp add: q_empty_iff del: length_q_list)
next
  case (Suc k)
  show ?case
  proof (cases "q_list q")
    case Nil
    then show ?thesis using Suc.prems by (subst killall_from.simps) (simp add: q_empty_iff)
  next
    case (Cons t ts)
    then obtain q' where q': "q_remhead q = Some (t, q')" "q_inv q'" "q_list q' = ts"
      using q_remhead_spec [OF Suc.prems(1)] by auto
    have "length (q_list q') \<le> k" using Suc.prems(2) Cons q'(3) by simp
    from Suc.IH [OF q'(2) this] show ?thesis using q'(1) Suc.prems(1) Cons
      by (subst killall_from.simps) (simp add: q_empty_iff)
  qed
qed

text \<open>
  The panic shutdown ends: \<^verbatim>\<open>thread_panic\<close> empties the table of sleepers and the run queue in as many
  rounds as the queue holds threads, and none of its assertions fails.
\<close>

theorem thread_panic_terminates:
  assumes "thread_inv st" and "0 < curspl st"
  shows "\<exists>st'. thread_panic st = Some st' \<and> q_list (runqueue st') = [] \<and> array_list (sleepers st') = [] \<and>
     curthread st' = curthread st"
proof -
  have ai: "array_inv (sleepers st)" and qi: "q_inv (runqueue st)" using assms(1) by (simp_all add: thread_inv_def)
  obtain a where a: "array_setsize True (sleepers st) 0 = Some (Inr (), a)" "array_list a = []"
    using array_setsize_zero [OF ai, of True] by blast
  have "length (q_list (runqueue st)) \<le> qsize (runqueue st)"
    using qi q_count_less [of "runqueue st"] by (simp add: q_inv_def)
  then obtain q where "killall_from (qsize (runqueue st)) (runqueue st) = Some q" "q_list q = []"
    using killall_from_spec [OF qi] by blast
  with a assms(2) show ?thesis by (simp add: thread_panic_def thread_killall_def scheduler_killall_def)
qed

theorem thread_panic_terminates_witness:
  "\<exists>st'. thread_panic sleepy = Some st' \<and> q_list (runqueue st') = [] \<and> array_list (sleepers st') = []"
proof -
  have "0 < curspl sleepy" by (simp add: sleepy_def cold_machine_def)
  with thread_panic_terminates [OF sleepy_inv] show ?thesis by blast
qed

end
