(* ===== verification/Synch.thy ===== *)
theory Synch
  imports Threads
begin

text \<open>
  The synchronisation primitives of the solution to assignment 1 (\<^verbatim>\<open>assignment1/ownSolution/synch.c\<close>):
  semaphores, locks and condition variables, over the thread system. An operation that sleeps ends in the
  context of another thread; what it still has to do when its thread runs again is a frame on that
  thread's kernel stack. The operations that can sleep return whether they are done.
\<close>

section \<open>State\<close>

text \<open>
  The suspended calls, with the priority level each puts back at its end: in the loop of \<^verbatim>\<open>P\<close>, in the loop
  of \<^verbatim>\<open>lock_acquire\<close>, in \<^verbatim>\<open>cv_wait\<close> at \<^verbatim>\<open>thread_sleep\<close> and at \<^verbatim>\<open>lock_acquire\<close>, in \<^verbatim>\<open>thread_yield\<close>, and in a
  \<^verbatim>\<open>thread_sleep\<close> called from elsewhere.
\<close>

datatype frame = F_P nat int | F_acquire nat int | F_wait nat nat int | F_reacquired int | F_yield int | F_sleep

text \<open>
  What the program sees: objects made and destroyed, locks taken and given back by a thread, semaphores
  lowered by a thread and raised. The field \<open>log\<close> is a history variable with the newest event first; no
  operation reads it.
\<close>

datatype event = MkLock nat | RmLock nat | Acq nat nat | Rel nat nat
  | MkSem nat int | RmSem nat | Down nat nat | Up nat

text \<open>
  \<open>sems\<close> has the count of every semaphore, \<open>locks\<close> the owner of every lock, \<open>cvs\<close> the condition variables,
  by address; the names are only for debugging and are left out.
\<close>

record ksync = ksched +
  sems :: "nat \<Rightarrow> int option"
  locks :: "nat \<Rightarrow> nat option option"
  cvs :: "nat \<Rightarrow> bool"
  frames :: "nat \<Rightarrow> frame list"
  log :: "event list"

type_synonym irqs = "(ksync \<Rightarrow> ksync) list"

definition logged :: "event \<Rightarrow> ksync \<Rightarrow> ksync" where
  "logged e st = st\<lparr>log := e # log st\<rparr>"

definition push_frame :: "frame \<Rightarrow> ksync \<Rightarrow> ksync option" where
  "push_frame f st = do {
     cur \<leftarrow> curthread st;
     Some (st\<lparr>frames := (frames st)(cur := f # frames st cur)\<rparr>)
   }"

definition sleep_in :: "bool \<Rightarrow> irqs \<Rightarrow> frame \<Rightarrow> nat \<Rightarrow> ksync \<Rightarrow> ksync option" where
  "sleep_in mem irqs f addr st = do {
     st1 \<leftarrow> push_frame f st;
     thread_sleep mem irqs addr st1
   }"

section \<open>Semaphores\<close>

text \<open>\<^verbatim>\<open>sem_create\<close> at the address \<^verbatim>\<open>kmalloc\<close> gives, if any; \<open>None\<close> as the address is the \<^verbatim>\<open>NULL\<close> it returns.\<close>

definition sem_create :: "nat option \<Rightarrow> bool \<Rightarrow> int \<Rightarrow> ksync \<Rightarrow> nat option \<times> ksync" where
  "sem_create new name_mem initial_count st =
     (case new of
        None \<Rightarrow> (None, st)
      | Some sem \<Rightarrow> 
          if name_mem
          then (Some sem, logged (MkSem sem initial_count) (st\<lparr>sems := (sems st)(sem \<mapsto> initial_count)\<rparr>))
          else (None, st))"

definition sem_destroy :: "nat \<Rightarrow> ksync \<Rightarrow> ksync option" where
  "sem_destroy sem st = do {
     kassert (sems st sem \<noteq> None);
     let (spl, st1) = splhigh st;
     has \<leftarrow> thread_hassleepers sem st1;
     kassert (\<not> has);
     let st2 = snd (splx spl st1);
     Some (logged (RmSem sem) (st2\<lparr>sems := (sems st2)(sem := None)\<rparr>))
   }"

definition P_loop :: "bool \<Rightarrow> irqs \<Rightarrow> nat \<Rightarrow> int \<Rightarrow> ksync \<Rightarrow> (bool \<times> ksync) option" where
  "P_loop mem irqs sem spl st = do {
     c \<leftarrow> sems st sem;
     if c = 0 then do {
       st1 \<leftarrow> sleep_in mem irqs (F_P sem spl) sem st;
       Some (False, st1)
     }
     else do {
       kassert (c > 0);
       cur \<leftarrow> curthread st;
       Some (True, snd (splx spl (logged (Down cur sem) (st\<lparr>sems := (sems st)(sem \<mapsto> c - 1)\<rparr>))))
     }
   }"

definition P :: "bool \<Rightarrow> irqs \<Rightarrow> nat \<Rightarrow> ksync \<Rightarrow> (bool \<times> ksync) option" where
  "P mem irqs sem st = do {
     kassert (\<not> in_interrupt st);
     let (spl, st1) = splhigh st;
     P_loop mem irqs sem spl st1
   }"

definition V :: "bool \<Rightarrow> nat \<Rightarrow> ksync \<Rightarrow> ksync option" where
  "V mem sem st = do {
     let (spl, st1) = splhigh st;
     c \<leftarrow> sems st1 sem;
     let c' = int32 (c + 1);
     kassert (c' > 0);
     st2 \<leftarrow> thread_wakeup mem sem (logged (Up sem) (st1\<lparr>sems := (sems st1)(sem \<mapsto> c')\<rparr>));
     Some (snd (splx spl st2))
   }"

section \<open>Locks\<close>

definition lock_create :: "nat option \<Rightarrow> bool \<Rightarrow> ksync \<Rightarrow> nat option \<times> ksync" where
  "lock_create new name_mem st =
     (case new of
        None \<Rightarrow> (None, st)
      | Some lock \<Rightarrow> 
          if name_mem then (Some lock, logged (MkLock lock) (st\<lparr>locks := (locks st)(lock \<mapsto> None)\<rparr>))
          else (None, st))"

text \<open>
  \<^verbatim>\<open>lock_destroy\<close> calls \<^verbatim>\<open>kfree\<close> on the lock's owner, which is a thread; on \<^verbatim>\<open>NULL\<close> that does nothing.
\<close>

definition lock_destroy :: "nat \<Rightarrow> ksync \<Rightarrow> ksync option" where
  "lock_destroy lock st = do {
     owner \<leftarrow> locks st lock;
     let st1 = (case owner of None \<Rightarrow> st | Some t \<Rightarrow> st\<lparr>t_heap := (t_heap st)(t := None)\<rparr>);
     Some (logged (RmLock lock) (st1\<lparr>locks := (locks st1)(lock := None)\<rparr>))
   }"

definition lock_do_i_hold :: "nat \<Rightarrow> ksync \<Rightarrow> (bool \<times> ksync) option" where
  "lock_do_i_hold lock st = do {
     owner \<leftarrow> locks st lock;
     let (spl, st1) = splhigh st;
     let return_value = (curthread st1 = owner);
     Some (return_value, snd (splx spl st1))
   }"

definition acquire_loop :: "bool \<Rightarrow> irqs \<Rightarrow> nat \<Rightarrow> int \<Rightarrow> ksync \<Rightarrow> (bool \<times> ksync) option" where
  "acquire_loop mem irqs lock spl st = do {
     owner \<leftarrow> locks st lock;
     if owner \<noteq> None then do {
       st1 \<leftarrow> sleep_in mem irqs (F_acquire lock spl) lock st;
       Some (False, st1)
     }
     else do {
       cur \<leftarrow> curthread st;
       Some (True, snd (splx spl (logged (Acq cur lock) (st\<lparr>locks := (locks st)(lock \<mapsto> Some cur)\<rparr>))))
     }
   }"

definition lock_acquire :: "bool \<Rightarrow> irqs \<Rightarrow> nat \<Rightarrow> ksync \<Rightarrow> (bool \<times> ksync) option" where
  "lock_acquire mem irqs lock st = do {
     let (spl, st1) = splhigh st;
     (mine, st2) \<leftarrow> lock_do_i_hold lock st1;
     if mine then None
     else acquire_loop mem irqs lock spl st2
   }"

definition lock_release :: "bool \<Rightarrow> nat \<Rightarrow> ksync \<Rightarrow> ksync option" where
  "lock_release mem lock st = do {
     owner \<leftarrow> locks st lock;
     if owner = curthread st then do {
       cur \<leftarrow> curthread st;
       let (spl, st1) = splhigh st;
       st2 \<leftarrow> thread_wakeup mem lock (logged (Rel cur lock) (st1\<lparr>locks := (locks st1)(lock \<mapsto> None)\<rparr>));
       Some (snd (splx spl st2))
     }
     else None
   }"

section \<open>Condition variables\<close>

definition cv_create :: "nat option \<Rightarrow> bool \<Rightarrow> ksync \<Rightarrow> nat option \<times> ksync" where
  "cv_create new name_mem st =
     (case new of
        None \<Rightarrow> (None, st)
      | Some cv \<Rightarrow> if name_mem then (Some cv, st\<lparr>cvs := (cvs st)(cv := True)\<rparr>) else (None, st))"

definition cv_destroy :: "nat \<Rightarrow> ksync \<Rightarrow> ksync option" where
  "cv_destroy cv st = do {
     kassert (cvs st cv);
     Some (st\<lparr>cvs := (cvs st)(cv := False)\<rparr>)
   }"

text \<open>\<^verbatim>\<open>cv_wait\<close> up to its sleep.\<close>

definition cv_wait :: "bool \<Rightarrow> irqs \<Rightarrow> nat \<Rightarrow> nat \<Rightarrow> ksync \<Rightarrow> ksync option" where
  "cv_wait mem irqs cv lock st = do {
     kassert (cvs st cv);
     let (spl, st1) = splhigh st;
     st2 \<leftarrow> lock_release mem lock st1;
     sleep_in mem irqs (F_wait cv lock spl) cv st2
   }"

definition cv_signal :: "bool \<Rightarrow> nat \<Rightarrow> nat \<Rightarrow> ksync \<Rightarrow> ksync option" where
  "cv_signal mem cv lock st = do {
     kassert (cvs st cv);
     let (spl, st1) = splhigh st;
     (mine, st2) \<leftarrow> lock_do_i_hold lock st1;
     kassert mine;
     st3 \<leftarrow> thread_wakeone mem cv st2;
     Some (snd (splx spl st3))
   }"

definition cv_broadcast :: "bool \<Rightarrow> nat \<Rightarrow> nat \<Rightarrow> ksync \<Rightarrow> ksync option" where
  "cv_broadcast mem cv lock st = do {
     kassert (cvs st cv);
     let (spl, st1) = splhigh st;
     (mine, st2) \<leftarrow> lock_do_i_hold lock st1;
     kassert mine;
     st3 \<leftarrow> thread_wakeup mem cv st2;
     Some (snd (splx spl st3))
   }"

section \<open>Running on\<close>

text \<open>The end of \<^verbatim>\<open>cv_wait\<close>, after \<^verbatim>\<open>lock_acquire\<close> has returned.\<close>

definition wait_end :: "bool \<times> ksync \<Rightarrow> ksync option" where
  "wait_end = (\<lambda>(fin, st).
     if \<not> fin then Some st
     else do {
       cur \<leftarrow> curthread st;
       Some (case frames st cur of
               F_reacquired spl # fs \<Rightarrow> snd (splx spl (st\<lparr>frames := (frames st)(cur := fs)\<rparr>))
             | _ \<Rightarrow> st)
     })"

definition cv_wait_back :: "bool \<Rightarrow> irqs \<Rightarrow> nat \<Rightarrow> nat \<Rightarrow> ksync \<Rightarrow> ksync option" where
  "cv_wait_back mem irqs cv lock st = do {
     r \<leftarrow> lock_acquire mem irqs lock st;
     wait_end r
   }"

text \<open>A thread that is switched to goes on with the call on top of its stack, or starts.\<close>

definition go_on :: "bool \<Rightarrow> irqs \<Rightarrow> nat \<Rightarrow> frame \<Rightarrow> frame list \<Rightarrow> ksync \<Rightarrow> ksync option" where
  "go_on mem irqs cur f fs st =
     (let goto = (\<lambda>s fs'. s\<lparr>frames := (frames s)(cur := fs')\<rparr>) in
      (case f of
         F_P sem spl \<Rightarrow> do {
           st1 \<leftarrow> thread_sleep_back st;
           (fin, st2) \<leftarrow> P_loop mem irqs sem spl (goto st1 fs);
           Some st2
         }
       | F_acquire lock spl \<Rightarrow> do {
           st1 \<leftarrow> thread_sleep_back st;
           r \<leftarrow> acquire_loop mem irqs lock spl (goto st1 fs);
           wait_end r
         }
       | F_wait cv lock spl \<Rightarrow> do {
           st1 \<leftarrow> thread_sleep_back st;
           cv_wait_back mem irqs cv lock (goto st1 (F_reacquired spl # fs))
         }
       | F_yield spl \<Rightarrow> do {
           st1 \<leftarrow> mi_switch_back st;
           Some (snd (splx spl (goto st1 fs)))
         }
       | F_sleep \<Rightarrow> do {
           st1 \<leftarrow> thread_sleep_back st;
           Some (goto st1 fs)
         }
       | F_reacquired spl \<Rightarrow> None))"

definition sync_resume :: "bool \<Rightarrow> irqs \<Rightarrow> ksync \<Rightarrow> ksync option" where
  "sync_resume mem irqs st = do {
     cur \<leftarrow> curthread st;
     th \<leftarrow> t_heap st cur;
     (case t_pcb th of
        PCB_start \<Rightarrow> mi_threadstart st
      | PCB_switched \<Rightarrow> (case frames st cur of [] \<Rightarrow> None | f # fs \<Rightarrow> go_on mem irqs cur f fs st))
   }"

definition sync_yield :: "bool \<Rightarrow> irqs \<Rightarrow> ksync \<Rightarrow> ksync option" where
  "sync_yield mem irqs st = do {
     st1 \<leftarrow> push_frame (F_yield (curspl st)) st;
     thread_yield mem irqs st1
   }"

section \<open>The specification\<close>

text \<open>
  The abstract objects: a lock is free or has an owner, a semaphore has a number. What may happen next:
  only a free lock is taken, only its owner gives it back, only a positive semaphore is lowered.
\<close>

type_synonym objects = "(nat \<Rightarrow> nat option option) \<times> (nat \<Rightarrow> int option)"

fun accept :: "event \<Rightarrow> objects \<Rightarrow> objects option" where
  "accept (MkLock l) (L, S) = Some (L(l \<mapsto> None), S)"
| "accept (RmLock l) (L, S) = Some (L(l := None), S)"
| "accept (Acq t l) (L, S) = (if L l = Some None then Some (L(l \<mapsto> Some t), S) else None)"
| "accept (Rel t l) (L, S) = (if L l = Some (Some t) then Some (L(l \<mapsto> None), S) else None)"
| "accept (MkSem s n) (L, S) = Some (L, S(s \<mapsto> n))"
| "accept (RmSem s) (L, S) = Some (L, S(s := None))"
| "accept (Down t s) (L, S) = (case S s of Some n \<Rightarrow> if n > 0 then Some (L, S(s \<mapsto> n - 1)) else None | None \<Rightarrow> None)"
| "accept (Up s) (L, S) = (case S s of Some n \<Rightarrow> Some (L, S(s \<mapsto> n + 1)) | None \<Rightarrow> None)"

fun accepts :: "event list \<Rightarrow> objects option" where
  "accepts [] = Some (\<lambda>_. None, \<lambda>_. None)"
| "accepts (e # es) = (case accepts es of None \<Rightarrow> None | Some A \<Rightarrow> accept e A)"

section \<open>The invariant\<close>

text \<open>
  A sleeper has a reason to sleep: the call on top of its stack waits on the thread's sleep address, the
  lock is not free, the semaphore is not positive.
\<close>

definition frame_ok :: "frame \<Rightarrow> nat \<Rightarrow> ksync \<Rightarrow> bool" where
  "frame_ok f addr st \<longleftrightarrow>
     (case f of
        F_P s _ \<Rightarrow> s = addr \<and> (case sems st s of None \<Rightarrow> True | Some c \<Rightarrow> c = 0)
      | F_acquire l _ \<Rightarrow> l = addr \<and> locks st l \<noteq> Some None
      | F_wait cv _ _ \<Rightarrow> cv = addr
      | F_sleep \<Rightarrow> True
      | _ \<Rightarrow> False)"

definition has_reason :: "ksync \<Rightarrow> nat \<Rightarrow> bool" where
  "has_reason st t \<longleftrightarrow>
     (case frames st t of [] \<Rightarrow> False | f # _ \<Rightarrow>
        (case t_heap st t of None \<Rightarrow> False | Some th \<Rightarrow>
          (case t_sleepaddr th of None \<Rightarrow> False | Some addr \<Rightarrow> frame_ok f addr st)))"

definition sync_inv :: "ksync \<Rightarrow> bool" where
  "sync_inv st \<longleftrightarrow> thread_inv st \<and> (\<forall>t\<in>set (array_list (sleepers st)). has_reason st t) \<and>
     (\<forall>s c. sems st s = Some c \<longrightarrow> 0 \<le> c \<and> c < 2 ^ 31) \<and>
     accepts (log st) = Some (locks st, sems st)"

lemma splx_ksync [simp]:
  "sems (snd (splx l st)) = sems st" "locks (snd (splx l st)) = locks st" "cvs (snd (splx l st)) = cvs st"
  "frames (snd (splx l st)) = frames st" "log (snd (splx l st)) = log st"
  by (simp_all add: splx_def interrupts_on_def interrupts_off_def Let_def)

lemma splhigh_ksync [simp]:
  "sems (snd (splhigh st)) = sems st" "locks (snd (splhigh st)) = locks st" "cvs (snd (splhigh st)) = cvs st"
  "frames (snd (splhigh st)) = frames st" "log (snd (splhigh st)) = log st"
  by (simp_all add: splhigh_def)

lemma logged_sel [simp]:
  "sems (logged e st) = sems st" "locks (logged e st) = locks st" "frames (logged e st) = frames st"
  "log (logged e st) = e # log st" "curthread (logged e st) = curthread st" "sleepers (logged e st) = sleepers st"
  "runqueue (logged e st) = runqueue st" "t_heap (logged e st) = t_heap st" "curspl (logged e st) = curspl st"
  "zombies (logged e st) = zombies st" "numthreads (logged e st) = numthreads st" "cvs (logged e st) = cvs st"
  by (simp_all add: logged_def)

lemma off_cpu_ksync [simp]:
  "sems (off_cpu c th st) = sems st" "locks (off_cpu c th st) = locks st" "frames (off_cpu c th st) = frames st"
  "log (off_cpu c th st) = log st"
  by (simp_all add: off_cpu_def)

lemma thread_inv_ksync [simp]:
  "thread_inv (st\<lparr>sems := x1\<rparr>) = thread_inv st" "thread_inv (st\<lparr>locks := x2\<rparr>) = thread_inv st"
  "thread_inv (st\<lparr>frames := x3\<rparr>) = thread_inv st" "thread_inv (st\<lparr>cvs := x4\<rparr>) = thread_inv st"
  "thread_inv (logged e st) = thread_inv st"
  by (simp_all add: thread_inv_def place_defs)

lemma waits_ksync [simp]:
  "waits (st\<lparr>sems := x1\<rparr>) = waits st" "waits (st\<lparr>locks := x2\<rparr>) = waits st" "waits (st\<lparr>frames := x3\<rparr>) = waits st"
  "waits (logged e st) = waits st" "waits (snd (splx l st)) = waits st" "waits (snd (splhigh st)) = waits st"
  by (simp_all add: waits_def fun_eq_iff)

text \<open>
  When an operation keeps the thread system sound and adds no sleeper, what is left to show is about the
  objects: the reasons of the sleepers and the events.
\<close>

lemma sync_invI:
  assumes "sync_inv st" and "thread_inv st'" and "set (array_list (sleepers st')) \<subseteq> set (array_list (sleepers st))"
    and "\<And>t. t \<in> set (array_list (sleepers st')) \<Longrightarrow> has_reason st t \<Longrightarrow> has_reason st' t"
    and "\<And>s c. sems st' s = Some c \<Longrightarrow> sems st s = Some c \<or> 0 \<le> c \<and> c < 2 ^ 31"
    and "accepts (log st) = Some (locks st, sems st) \<Longrightarrow> accepts (log st') = Some (locks st', sems st')"
  shows "sync_inv st'"
  using assms unfolding sync_inv_def by blast

lemma sync_invD:
  assumes "sync_inv st"
  shows "thread_inv st" and "\<And>t. t \<in> set (array_list (sleepers st)) \<Longrightarrow> has_reason st t"
    and "\<And>s c. sems st s = Some c \<Longrightarrow> 0 \<le> c \<and> c < 2 ^ 31" and "accepts (log st) = Some (locks st, sems st)"
  using assms unfolding sync_inv_def by blast+

lemma has_reason_cong:
  assumes "frames st' t = frames st t" and "t_heap st' t = t_heap st t" and "sems st' = sems st" and "locks st' = locks st"
  shows "has_reason st' t = has_reason st t"
  using assms by (simp add: has_reason_def frame_ok_def split: list.split option.split frame.split)

text \<open>Steps of the thread system alone.\<close>

lemma sync_inv_threads:
  assumes "sync_inv st" and "thread_inv st'" and "set (array_list (sleepers st')) \<subseteq> set (array_list (sleepers st))"
    and "\<And>t. t \<in> set (array_list (sleepers st')) \<Longrightarrow> t_heap st' t = t_heap st t \<and> frames st' t = frames st t"
    and "sems st' = sems st" and "locks st' = locks st" and "log st' = log st"
  shows "sync_inv st'"
proof (rule sync_invI [OF assms(1-3)])
  fix t assume "t \<in> set (array_list (sleepers st'))" "has_reason st t"
  then show "has_reason st' t" using has_reason_cong [of st' t st] assms(4-6) by auto
qed (use assms(5-7) in auto)

lemma sync_inv_spl [simp]:
  "sync_inv (snd (splx l st)) = sync_inv st" "sync_inv (snd (splhigh st)) = sync_inv st"
  by (simp_all add: sync_inv_def has_reason_cong [of "snd (splx l st)" _ st] has_reason_cong [of "snd (splhigh st)" _ st])

lemma cur_not_asleep: "thread_inv st \<Longrightarrow> curthread st = Some cur \<Longrightarrow> t \<in> set (array_list (sleepers st)) \<Longrightarrow> t \<noteq> cur"
  using cur_facts(3) by blast

lemma sync_inv_frames:
  assumes "sync_inv st" and "curthread st = Some cur"
  shows "sync_inv (st\<lparr>frames := (frames st)(cur := fs)\<rparr>)"
proof (rule sync_inv_threads [OF assms(1)])
  fix t assume "t \<in> set (array_list (sleepers (st\<lparr>frames := (frames st)(cur := fs)\<rparr>)))"
  then have "t \<noteq> cur" using cur_not_asleep [OF sync_invD(1) [OF assms(1)] assms(2)] by simp
  then show "t_heap (st\<lparr>frames := (frames st)(cur := fs)\<rparr>) t = t_heap st t \<and>
     frames (st\<lparr>frames := (frames st)(cur := fs)\<rparr>) t = frames st t" by simp
qed (use sync_invD(1) [OF assms(1)] in auto)

section \<open>Sleeping and waking\<close>

text \<open>Interrupt handlers that run while the processor idles keep the invariant.\<close>

definition sirq_ok :: "(ksync \<Rightarrow> ksync) \<Rightarrow> bool" where
  "sirq_ok irq \<longleftrightarrow> (\<forall>st. sync_inv st \<and> curthread st = None \<and> 0 < curspl st \<longrightarrow>
     sync_inv (irq st) \<and> curthread (irq st) = None \<and> curspl (irq st) = curspl st)"

lemma sync_inv_status [simp]:
  "sync_inv (st\<lparr>status := x\<rparr>) = sync_inv st" "sync_inv (st\<lparr>cvs := y\<rparr>) = sync_inv st"
  by (simp_all add: sync_inv_def has_reason_cong [of "st\<lparr>status := x\<rparr>" _ st] has_reason_cong [of "st\<lparr>cvs := y\<rparr>" _ st])

lemma sync_inv_pop:
  assumes "sync_inv st" and "curthread st = None" and "0 < curspl st" and "q_list (runqueue st) = t # ts"
    and "scheduler irqs st = Some (u, st')"
  shows "sync_inv (st'\<lparr>curthread := Some u\<rparr>)"
proof -
  obtain q where q: "scheduler irqs st = Some (t, st\<lparr>runqueue := q\<rparr>)"
    "thread_inv (st\<lparr>runqueue := q, curthread := Some t\<rparr>)"
    using scheduler_head [OF sync_invD(1) [OF assms(1)] assms(2-4), of irqs] by blast
  then have "st'\<lparr>curthread := Some u\<rparr> = st\<lparr>runqueue := q, curthread := Some t\<rparr>" using assms(5) by simp
  moreover have "sync_inv (st\<lparr>runqueue := q, curthread := Some t\<rparr>)"
    by (rule sync_inv_threads [OF assms(1) q(2)]) auto
  ultimately show ?thesis by simp
qed

lemma scheduler_sync:
  assumes "sync_inv st" and "curthread st = None" and "\<forall>irq\<in>set irqs. sirq_ok irq"
    and "scheduler irqs st = Some (t, st')"
  shows "sync_inv (st'\<lparr>curthread := Some t\<rparr>)"
  using assms
proof (induction irqs arbitrary: st)
  case Nil
  then have spl: "0 < curspl st" "\<not> q_empty (runqueue st)"
    by (auto simp: scheduler.simps [of "[]"] split: if_splits)
  then have "q_list (runqueue st) \<noteq> []"
    using q_empty_iff sync_invD(1) [OF Nil.prems(1)] by (auto simp: thread_inv_def)
  then show ?case using sync_inv_pop [OF Nil.prems(1,2) spl(1)] Nil.prems(4) by (cases "q_list (runqueue st)") auto
next
  case (Cons irq irqs)
  then have spl: "0 < curspl st" by (auto simp: scheduler.simps [of "irq # irqs"] split: if_splits)
  have qi: "q_inv (runqueue st)" using sync_invD(1) [OF Cons.prems(1)] by (simp add: thread_inv_def)
  show ?case
  proof (cases "q_list (runqueue st)")
    case (Cons u us)
    then show ?thesis using sync_inv_pop [OF Cons.prems(1,2) spl] Cons.prems(4) by auto
  next
    case Nil
    let ?s = "st\<lparr>status := status st OR CST_IEc\<rparr>"
    have k: "sync_inv (irq ?s) \<and> curthread (irq ?s) = None \<and> curspl (irq ?s) = curspl ?s"
      using Cons.prems spl by (intro Cons.prems(3) [rule_format, of irq, unfolded sirq_ok_def, rule_format]) auto
    define s1 where "s1 = (irq ?s)\<lparr>status := status st AND NOT CST_IEc\<rparr>"
    have s1: "cpu_idle irq st = Some s1" using spl by (simp add: cpu_idle_def interrupts_onoff_def Let_def s1_def)
    have "scheduler irqs s1 = Some (t, st')"
      using Cons.prems(4) Nil spl qi s1 by (simp add: scheduler.simps [of "irq # irqs" st] q_empty_iff)
    then show ?thesis using Cons.IH [of s1] k Cons.prems(3) by (simp add: s1_def)
  qed
qed

lemma switch_sync:
  assumes "do { (nxt, st2) \<leftarrow> scheduler irqs st1; Some (st2\<lparr>curthread := Some nxt\<rparr>) } = Some st'"
    and "sync_inv st1" and "curthread st1 = None" and "\<forall>irq\<in>set irqs. sirq_ok irq"
  shows "sync_inv st'"
  using assms scheduler_sync [of st1 irqs] by (auto elim!: bind_eq_SomeE split: prod.splits)

text \<open>Going to sleep with a reason.\<close>

lemma thread_sleep_sync:
  assumes inv: "sync_inv st" and irqs: "\<forall>irq\<in>set irqs. sirq_ok irq" and cur: "curthread st = Some cur"
    and f: "frames st cur = f # fs" "frame_ok f addr st" and run: "thread_sleep mem irqs addr st = Some st'"
  shows "sync_inv st'"
proof -
  note ti = sync_invD(1) [OF inv]
  from run cur obtain th where th: "t_heap st cur = Some th"
    by (auto simp: thread_sleep_def split: if_splits elim!: bind_eq_SomeE)
  define th' where "th' = th\<lparr>t_sleepaddr := Some addr\<rparr>"
  define s where "s = st\<lparr>t_heap := (t_heap st)(cur \<mapsto> th')\<rparr>"
  have i: "thread_inv s" "curthread s = Some cur" "t_heap s cur = Some th'" "sleepers s = sleepers st"
    using thread_inv_cur_heap [OF ti cur th, of th'] cur by (simp_all add: s_def th'_def)
  have o: "off_cpu cur th' s = off_cpu cur th' st" by (simp add: off_cpu_def s_def)
  have sc: "stack_check th' = Some ()" using cur_facts(1) [OF i(1,2)] i(3) by auto
  have sw: "mi_switch mem irqs S_SLEEP s = Some st'"
    using run cur th by (simp add: thread_sleep_def s_def th'_def split: if_splits)
  then have spl: "0 < curspl s" by (simp add: mi_switch_def split: if_splits)
  from stash_sleep [OF i(1-3), of mem] sw obtain a where
    a: "stash mem S_SLEEP cur (off_cpu cur th' st) = Some ((off_cpu cur th' st)\<lparr>sleepers := a\<rparr>)"
      "thread_inv ((off_cpu cur th' st)\<lparr>sleepers := a\<rparr>)" "array_list a = array_list (sleepers st) @ [cur]"
    unfolding mi_switch_eq [OF i(2,3) sc spl, of mem irqs S_SLEEP] o i(4) by (auto simp: th'_def)
  let ?s = "(off_cpu cur th' st)\<lparr>sleepers := a\<rparr>"
  have "has_reason ?s t" if t: "t \<in> set (array_list a)" for t
  proof (cases "t = cur")
    case True
    then show ?thesis using f by (simp add: has_reason_def frame_ok_def th'_def split: frame.splits)
  next
    case False
    then have "has_reason st t" using t a(3) sync_invD(2) [OF inv] by simp
    then show ?thesis using False has_reason_cong [of ?s t st] by simp
  qed
  then have si: "sync_inv ?s" using a(2) sync_invD(3,4) [OF inv] by (simp add: sync_inv_def)
  have sch: "do { (nxt, st2) \<leftarrow> scheduler irqs ?s; Some (st2\<lparr>curthread := Some nxt\<rparr>) } = Some st'"
    using sw a(1) unfolding mi_switch_eq [OF i(2,3) sc spl, of mem irqs S_SLEEP] o by simp
  show ?thesis by (rule switch_sync [OF sch si _ irqs]) simp
qed

lemma sleep_in_sync:
  assumes inv: "sync_inv st" and irqs: "\<forall>irq\<in>set irqs. sirq_ok irq" and f: "frame_ok f addr st"
    and run: "sleep_in mem irqs f addr st = Some st'"
  shows "sync_inv st'"
proof -
  from run obtain cur where cur: "curthread st = Some cur"
    by (auto simp: sleep_in_def push_frame_def elim!: bind_eq_SomeE)
  let ?s = "st\<lparr>frames := (frames st)(cur := f # frames st cur)\<rparr>"
  have "frame_ok f addr ?s" using f by (simp add: frame_ok_def split: frame.splits)
  moreover have "thread_sleep mem irqs addr ?s = Some st'" using run cur by (simp add: sleep_in_def push_frame_def)
  ultimately show ?thesis using sync_inv_frames [OF inv cur] cur
    by (intro thread_sleep_sync [of ?s irqs cur f "frames st cur" addr mem st'] irqs) auto
qed

text \<open>
  Waking everybody on an address after a change to the object there: the sleepers that are left wait on
  other addresses, whose objects did not change.
\<close>

lemma has_reason_other:
  assumes "has_reason st t" and "\<not> waits st addr t" and "t_heap st' t = t_heap st t" and "frames st' t = frames st t"
    and "\<And>s. s \<noteq> addr \<Longrightarrow> sems st' s = sems st s \<and> locks st' s = locks st s"
  shows "has_reason st' t"
proof -
  obtain f fs th a where *: "frames st t = f # fs" "t_heap st t = Some th" "t_sleepaddr th = Some a" "frame_ok f a st"
    using assms(1) by (auto simp: has_reason_def split: list.splits option.splits)
  have "a \<noteq> addr" using assms(2) *(2,3) by (simp add: waits_def)
  then have "frame_ok f a st'" using *(4) assms(5) by (auto simp: frame_ok_def split: frame.splits)
  then show ?thesis using * assms(3,4) by (simp add: has_reason_def)
qed

lemma wakeup_sync:
  assumes inv: "sync_inv st0" and cur: "curthread st \<noteq> None" and spl: "0 < curspl st"
    and same: "thread_inv st" "sleepers st = sleepers st0" "t_heap st = t_heap st0" "frames st = frames st0"
    and obj: "\<And>s. s \<noteq> addr \<Longrightarrow> sems st s = sems st0 s \<and> locks st s = locks st0 s"
      "\<And>s c. sems st s = Some c \<Longrightarrow> 0 \<le> c \<and> c < 2 ^ 31" "accepts (log st) = Some (locks st, sems st)"
    and run: "thread_wakeup mem addr st = Some st'"
  shows "sync_inv st' \<and> curthread st' = curthread st"
proof -
  from thread_wakeup_spec [OF same(1) spl wakeup_room_all(1) [OF same(1) cur], of mem addr] run obtain a q where
    st': "st' = st\<lparr>sleepers := a, runqueue := q\<rparr>" "thread_inv st'"
      "array_list a = filter (\<lambda>t. \<not> waits st addr t) (array_list (sleepers st))" by auto
  have "has_reason st' t" if "t \<in> set (array_list a)" for t
  proof (rule has_reason_other [of st0 t addr])
    have t: "t \<in> set (array_list (sleepers st0))" "\<not> waits st addr t" using that st'(3) same(2) by auto
    then show "has_reason st0 t" using sync_invD(2) [OF inv] by blast
    show "\<not> waits st0 addr t" using t(2) same(3) by (simp add: waits_def)
  qed (use st'(1) same obj in auto)
  then show ?thesis using st' obj by (simp add: sync_inv_def)
qed

section \<open>The operations keep the invariant\<close>

lemma P_loop_sync:
  assumes inv: "sync_inv st" and irqs: "\<forall>irq\<in>set irqs. sirq_ok irq"
    and run: "P_loop mem irqs sem spl st = Some (fin, st')"
  shows "sync_inv st'"
proof -
  from run obtain c where c: "sems st sem = Some c" by (auto simp: P_loop_def elim!: bind_eq_SomeE)
  show ?thesis
  proof (cases "c = 0")
    case True
    then obtain st1 where "sleep_in mem irqs (F_P sem spl) sem st = Some st1" "st' = st1"
      using run c by (auto simp: P_loop_def elim!: bind_eq_SomeE)
    then show ?thesis using sleep_in_sync [OF inv irqs, of "F_P sem spl" sem] c True by (simp add: frame_ok_def)
  next
    case False
    then obtain cur where cur: "curthread st = Some cur" "0 < c"
      and st': "st' = snd (splx spl (logged (Down cur sem) (st\<lparr>sems := (sems st)(sem \<mapsto> c - 1)\<rparr>)))"
      using run c by (auto simp: P_loop_def split: if_splits elim!: bind_eq_SomeE)
    let ?s = "logged (Down cur sem) (st\<lparr>sems := (sems st)(sem \<mapsto> c - 1)\<rparr>)"
    have "sync_inv ?s"
    proof (rule sync_invI [OF inv])
      fix t assume "t \<in> set (array_list (sleepers ?s))" "has_reason st t"
      then show "has_reason ?s t" using c cur(2)
        by (auto simp: has_reason_def frame_ok_def split: list.splits option.splits frame.splits)
    next
      fix s n assume "sems ?s s = Some n"
      then show "sems st s = Some n \<or> 0 \<le> n \<and> n < 2 ^ 31"
        using sync_invD(3) [OF inv c] cur(2) by (auto split: if_splits)
    qed (use sync_invD(1) [OF inv] c cur(2) in auto)
    then show ?thesis using st' by simp
  qed
qed

lemma V_sync:
  assumes inv: "sync_inv st" and cur: "curthread st \<noteq> None" and run: "V mem sem st = Some st'"
  shows "sync_inv st'"
proof -
  from run obtain c where c: "sems st sem = Some c" by (auto simp: V_def Let_def split_beta elim!: bind_eq_SomeE)
  let ?s = "logged (Up sem) ((snd (splhigh st))\<lparr>sems := (sems st)(sem \<mapsto> int32 (c + 1))\<rparr>)"
  from run c obtain st2 where st2: "thread_wakeup mem sem ?s = Some st2"
    "st' = snd (splx (curspl st) st2)" and pos: "0 < int32 (c + 1)"
    by (auto simp: V_def Let_def split_beta split: if_splits elim!: bind_eq_SomeE)
  have b: "0 \<le> c" "c < 2 ^ 31" using sync_invD(3) [OF inv c] by auto
  have c1: "c + 1 < 2 ^ 31" "int32 (c + 1) = c + 1"
  proof -
    show "c + 1 < 2 ^ 31"
    proof (rule ccontr)
      assume "\<not> c + 1 < 2 ^ 31"
      then have "c + 1 = 2 ^ 31" using b by simp
      then show False using pos by (simp add: int32_def)
    qed
    then show "int32 (c + 1) = c + 1" using b by simp
  qed
  have "sync_inv st2 \<and> curthread st2 = curthread ?s"
  proof (rule wakeup_sync [OF inv _ _ _ _ _ _ _ _ _ st2(1)])
    show "accepts (log ?s) = Some (locks ?s, sems ?s)" using sync_invD(4) [OF inv] c c1(2) by simp
    show "\<And>s n. sems ?s s = Some n \<Longrightarrow> 0 \<le> n \<and> n < 2 ^ 31"
      using sync_invD(3) [OF inv] b c1 by (auto split: if_splits)
  qed (use cur sync_invD(1) [OF inv] in auto)
  then show ?thesis using st2(2) by simp
qed

lemma acquire_loop_sync:
  assumes inv: "sync_inv st" and irqs: "\<forall>irq\<in>set irqs. sirq_ok irq"
    and run: "acquire_loop mem irqs lock spl st = Some (fin, st')"
  shows "sync_inv st' \<and> (fin \<longrightarrow> curthread st' = curthread st)"
proof -
  from run obtain ow where o: "locks st lock = Some ow" by (auto simp: acquire_loop_def elim!: bind_eq_SomeE)
  show ?thesis
  proof (cases ow)
    case (Some t)
    then obtain st1 where "sleep_in mem irqs (F_acquire lock spl) lock st = Some st1" "st' = st1" "\<not> fin"
      using run o by (auto simp: acquire_loop_def elim!: bind_eq_SomeE)
    then show ?thesis using sleep_in_sync [OF inv irqs, of "F_acquire lock spl" lock] o Some by (simp add: frame_ok_def)
  next
    case None
    then obtain cur where cur: "curthread st = Some cur"
      and st': "st' = snd (splx spl (logged (Acq cur lock) (st\<lparr>locks := (locks st)(lock \<mapsto> Some cur)\<rparr>)))"
      using run o by (auto simp: acquire_loop_def elim!: bind_eq_SomeE)
    let ?s = "logged (Acq cur lock) (st\<lparr>locks := (locks st)(lock \<mapsto> Some cur)\<rparr>)"
    have "sync_inv ?s"
    proof (rule sync_invI [OF inv])
      fix t assume "has_reason st t"
      then show "has_reason ?s t"
        by (auto simp: has_reason_def frame_ok_def split: list.splits option.splits frame.splits)
    qed (use sync_invD(1) [OF inv] o None in auto)
    then show ?thesis using st' by simp
  qed
qed

lemma do_i_hold_state:
  assumes "lock_do_i_hold lock st = Some (mine, st')"
  shows "\<exists>l. st' = snd (splx l (snd (splhigh st)))"
  using assms by (auto simp: lock_do_i_hold_def Let_def split_beta elim!: bind_eq_SomeE)

lemma lock_acquire_sync:
  assumes inv: "sync_inv st" and irqs: "\<forall>irq\<in>set irqs. sirq_ok irq"
    and run: "lock_acquire mem irqs lock st = Some (fin, st')"
  shows "sync_inv st' \<and> (fin \<longrightarrow> curthread st' = curthread st)"
proof -
  from run obtain st2 where st2: "lock_do_i_hold lock (snd (splhigh st)) = Some (False, st2)"
    "acquire_loop mem irqs lock (curspl st) st2 = Some (fin, st')"
    by (auto simp: lock_acquire_def Let_def split_beta split: if_splits elim!: bind_eq_SomeE)
  from do_i_hold_state [OF st2(1)] have "sync_inv st2" "curthread st2 = curthread st" using inv by auto
  then show ?thesis using acquire_loop_sync [OF _ irqs st2(2)] by simp
qed

lemma lock_release_sync:
  assumes inv: "sync_inv st" and cur: "curthread st = Some cur" and run: "lock_release mem lock st = Some st'"
  shows "sync_inv st' \<and> curthread st' = curthread st"
proof -
  from run cur have o: "locks st lock = Some (Some cur)"
    by (auto simp: lock_release_def split: if_splits elim!: bind_eq_SomeE)
  let ?s = "logged (Rel cur lock) ((snd (splhigh st))\<lparr>locks := (locks st)(lock \<mapsto> None)\<rparr>)"
  from run cur o obtain st2 where st2: "thread_wakeup mem lock ?s = Some st2" "st' = snd (splx (curspl st) st2)"
    by (auto simp: lock_release_def Let_def split_beta elim!: bind_eq_SomeE)
  have "sync_inv st2 \<and> curthread st2 = curthread ?s"
  proof (rule wakeup_sync [OF inv _ _ _ _ _ _ _ _ _ st2(1)])
    show "accepts (log ?s) = Some (locks ?s, sems ?s)" using sync_invD(4) [OF inv] o by simp
    show "\<And>s n. sems ?s s = Some n \<Longrightarrow> 0 \<le> n \<and> n < 2 ^ 31" using sync_invD(3) [OF inv] by simp
  qed (use cur sync_invD(1) [OF inv] in auto)
  then show ?thesis using st2(2) by simp
qed

lemma wakeup_only_sync:
  assumes inv: "sync_inv st" and cur: "curthread st \<noteq> None" and run: "thread_wakeup mem addr st = Some st'"
  shows "sync_inv st'"
proof -
  have "0 < curspl st" using run by (simp add: thread_wakeup_def split: if_splits)
  then show ?thesis using wakeup_sync [OF inv cur _ _ _ _ _ _ _ _ run] sync_invD [OF inv] by auto
qed

lemma wakeone_sync:
  assumes inv: "sync_inv st" and cur: "curthread st \<noteq> None" and run: "thread_wakeone mem addr st = Some st'"
  shows "sync_inv st'"
proof -
  note ti = sync_invD(1) [OF inv]
  have spl: "0 < curspl st" using run by (simp add: thread_wakeone_def split: if_splits)
  from thread_wakeone_spec [OF ti spl wakeup_room_all(2) [OF ti cur], of mem addr] run obtain a q where
    st': "st' = st\<lparr>sleepers := a, runqueue := q\<rparr>" "thread_inv st'"
      "array_list a = drop_first (waits st addr) (array_list (sleepers st))" by auto
  show ?thesis
    by (rule sync_inv_threads [OF inv st'(2)])
      (use st' set_drop_first [of "waits st addr" "array_list (sleepers st)"] in auto)
qed

lemma cv_wait_sync:
  assumes inv: "sync_inv st" and irqs: "\<forall>irq\<in>set irqs. sirq_ok irq" and cur: "curthread st = Some cur"
    and run: "cv_wait mem irqs cv lock st = Some st'"
  shows "sync_inv st'"
proof -
  from run obtain st2 where st2: "lock_release mem lock (snd (splhigh st)) = Some st2"
    "sleep_in mem irqs (F_wait cv lock (curspl st)) cv st2 = Some st'"
    by (auto simp: cv_wait_def Let_def split_beta split: if_splits elim!: bind_eq_SomeE)
  have "sync_inv st2" using lock_release_sync [OF _ _ st2(1)] inv cur by simp
  then show ?thesis using sleep_in_sync [OF _ irqs _ st2(2)] by (simp add: frame_ok_def)
qed

lemma cv_signal_sync:
  assumes inv: "sync_inv st" and cur: "curthread st \<noteq> None"
    and run: "cv_signal mem cv lock st = Some st' \<or> cv_broadcast mem cv lock st = Some st'"
  shows "sync_inv st'"
proof -
  from run obtain st2 where st2: "lock_do_i_hold lock (snd (splhigh st)) = Some (True, st2)"
    "do { st3 \<leftarrow> thread_wakeone mem cv st2; Some (snd (splx (curspl st) st3)) } = Some st' \<or>
     do { st3 \<leftarrow> thread_wakeup mem cv st2; Some (snd (splx (curspl st) st3)) } = Some st'"
    by (auto simp: cv_signal_def cv_broadcast_def Let_def split_beta split: if_splits elim!: bind_eq_SomeE)
  from do_i_hold_state [OF st2(1)] have "sync_inv st2" "curthread st2 \<noteq> None" using inv cur by auto
  with st2(2) show ?thesis
    by (auto elim!: bind_eq_SomeE dest: wakeone_sync wakeup_only_sync)
qed

text \<open>Going on with a suspended call.\<close>

lemma more_ksync:
  assumes "ksched.more (st :: ksync) = ksched.more st'"
  shows "sems st = sems st' \<and> locks st = locks st' \<and> frames st = frames st' \<and> log st = log st' \<and> cvs st = cvs st'"
  using assms by (cases st; cases st') simp

lemma back_sync:
  assumes inv: "sync_inv st" and cur: "curthread st = Some cur"
    and run: "thread_sleep_back st = Some st' \<or> mi_switch_back st = Some st'"
  shows "sync_inv st' \<and> curthread st' = Some cur"
proof -
  note ti = sync_invD(1) [OF inv]
  from run have spl: "0 < curspl st"
    by (auto simp: thread_sleep_back_def mi_switch_back_def exorcise_def split: if_splits elim!: bind_eq_SomeE)
  have o: "\<And>t. t \<in> set (array_list (sleepers st)) \<Longrightarrow> t \<notin> set (array_list (zombies st))"
    using ti by (auto simp: thread_inv_def live_def)
  have "thread_inv st' \<and> curthread st' = curthread st \<and> sleepers st' = sleepers st \<and> ksched.more st' = ksched.more st \<and>
      (\<forall>t\<in>set (array_list (sleepers st)). t_heap st' t = t_heap st t)"
    using run thread_sleep_back_spec [OF ti spl cur] mi_switch_back_spec [OF ti spl cur] o by auto
  then show ?thesis using more_ksync [of st' st] cur sync_inv_threads [OF inv, of st'] by auto
qed

lemma wait_end_sync:
  assumes "sync_inv st" and "fin \<longrightarrow> curthread st = Some cur" and "wait_end (fin, st) = Some st'"
  shows "sync_inv st'"
  using assms sync_inv_frames [OF assms(1)]
  by (auto simp: wait_end_def split: if_splits list.splits frame.splits)

lemma go_on_sync:
  assumes inv: "sync_inv st" and irqs: "\<forall>irq\<in>set irqs. sirq_ok irq" and cur: "curthread st = Some cur"
    and run: "go_on mem irqs cur f fs st = Some st'"
  shows "sync_inv st'"
proof -
  have resumed: "sync_inv (st1\<lparr>frames := (frames st1)(cur := fs')\<rparr>) \<and> curthread st1 = Some cur"
    if "thread_sleep_back st = Some st1 \<or> mi_switch_back st = Some st1" for st1 fs'
    using back_sync [OF inv cur that] sync_inv_frames by blast
  show ?thesis
  proof (cases f)
    case (F_P sem spl)
    then obtain st1 fin where s: "thread_sleep_back st = Some st1"
      "P_loop mem irqs sem spl (st1\<lparr>frames := (frames st1)(cur := fs)\<rparr>) = Some (fin, st')"
      using run by (auto simp: go_on_def Let_def elim!: bind_eq_SomeE)
    from P_loop_sync [OF _ irqs s(2)] resumed [of st1 fs] s(1) show ?thesis by simp
  next
    case (F_acquire lock spl)
    then obtain st1 fin st2 where s: "thread_sleep_back st = Some st1" "wait_end (fin, st2) = Some st'"
      "acquire_loop mem irqs lock spl (st1\<lparr>frames := (frames st1)(cur := fs)\<rparr>) = Some (fin, st2)"
      using run by (auto simp: go_on_def Let_def elim!: bind_eq_SomeE)
    from acquire_loop_sync [OF _ irqs s(3)] resumed [of st1 fs] s(1,2) show ?thesis
      by (auto intro: wait_end_sync)
  next
    case (F_wait cv lock spl)
    then obtain st1 fin st2 where s: "thread_sleep_back st = Some st1" "wait_end (fin, st2) = Some st'"
      "lock_acquire mem irqs lock (st1\<lparr>frames := (frames st1)(cur := F_reacquired spl # fs)\<rparr>) = Some (fin, st2)"
      using run by (auto simp: go_on_def cv_wait_back_def Let_def elim!: bind_eq_SomeE)
    from lock_acquire_sync [OF _ irqs s(3)] resumed [of st1 "F_reacquired spl # fs"] s(1,2) show ?thesis
      by (auto intro: wait_end_sync)
  qed (use run resumed in \<open>auto simp: go_on_def Let_def elim!: bind_eq_SomeE\<close>)
qed

lemma sync_resume_sync:
  assumes inv: "sync_inv st" and irqs: "\<forall>irq\<in>set irqs. sirq_ok irq" and run: "sync_resume mem irqs st = Some st'"
  shows "sync_inv st'"
proof -
  from run obtain cur th where ct: "curthread st = Some cur" "t_heap st cur = Some th"
    by (auto simp: sync_resume_def elim!: bind_eq_SomeE)
  show ?thesis
  proof (cases "t_pcb th")
    case PCB_start
    then obtain st1 where st1: "as_activate_cur st = Some st1" "st' = snd (spl0 st1)"
      using run ct by (auto simp: sync_resume_def mi_threadstart_def elim!: bind_eq_SomeE)
    have "sync_inv st1"
      by (rule sync_inv_threads [OF inv as_activate_cur_inv [OF sync_invD(1) [OF inv] st1(1)]])
        (use st1(1) ct in \<open>auto simp: as_activate_cur_def split: option.splits\<close>)
    then show ?thesis using st1(2) by (simp add: spl0_def)
  next
    case PCB_switched
    then show ?thesis using run ct go_on_sync [OF inv irqs ct(1)]
      by (auto simp: sync_resume_def split: list.splits)
  qed
qed

lemma leave_sync:
  assumes inv: "sync_inv st" and irqs: "\<forall>irq\<in>set irqs. sirq_ok irq" and cur: "curthread st = Some cur"
    and run: "thread_yield mem irqs st = Some st' \<or> thread_exit mem irqs st = Some st' \<and> num (zombies st) < 2 ^ 28"
  shows "sync_inv st'"
proof -
  note ti = sync_invD(1) [OF inv]
  obtain st1 where st1: "thread_inv st1" "curthread st1 = None" "sleepers st1 = sleepers st"
    "\<forall>t. t \<noteq> cur \<longrightarrow> t_heap st1 t = t_heap st t" "ksched.more st1 = ksched.more st"
    "do { (nxt, st2) \<leftarrow> scheduler irqs st1; Some (st2\<lparr>curthread := Some nxt\<rparr>) } = Some st'"
    using run thread_yield_stash [OF ti cur, of mem irqs st'] thread_exit_stash [OF ti cur, of mem irqs st'] by blast
  have "sync_inv st1"
    by (rule sync_inv_threads [OF inv st1(1)])
      (use st1(3,4) more_ksync [OF st1(5)] cur_not_asleep [OF ti cur] in auto)
  then show ?thesis by (rule switch_sync [OF st1(6) _ st1(2) irqs])
qed

section \<open>Reachable states\<close>

text \<open>A new thread starts with an empty stack of calls.\<close>

definition sync_fork :: "fork_mem \<Rightarrow> ksync \<Rightarrow> (nat res \<times> ksync) option" where
  "sync_fork fm st = do {
     (r, st1) \<leftarrow> thread_fork fm st;
     Some (r, case r of Inr p \<Rightarrow> st1\<lparr>frames := (frames st1)(p := [])\<rparr> | Inl _ \<Rightarrow> st1)
   }"

text \<open>
  An address that \<^verbatim>\<open>kmalloc\<close> hands out for a new object is one nobody sleeps on.
\<close>

definition unused :: "nat option \<Rightarrow> ksync \<Rightarrow> bool" where
  "unused new st \<longleftrightarrow> (case new of None \<Rightarrow> True | Some a \<Rightarrow> \<forall>t\<in>set (array_list (sleepers st)). \<not> waits st a t)"

inductive sstep :: "ksync \<Rightarrow> ksync \<Rightarrow> bool" where
  s_sem_create: "sem_create new nm n st = (r, st') \<Longrightarrow> unused new st \<Longrightarrow> 0 \<le> n \<Longrightarrow> n < 2 ^ 31 \<Longrightarrow> sstep st st'"
| s_sem_destroy: "sem_destroy sem st = Some st' \<Longrightarrow> sstep st st'"
| s_P: "P mem irqs sem st = Some (fin, st') \<Longrightarrow> \<forall>irq\<in>set irqs. sirq_ok irq \<Longrightarrow> sstep st st'"
| s_V: "V mem sem st = Some st' \<Longrightarrow> curthread st \<noteq> None \<Longrightarrow> sstep st st'"
| s_lock_create: "lock_create new nm st = (r, st') \<Longrightarrow> unused new st \<Longrightarrow> sstep st st'"
| s_lock_destroy: "lock_destroy lock st = Some st' \<Longrightarrow> locks st lock = Some None \<Longrightarrow> sstep st st'"
| s_acquire: "lock_acquire mem irqs lock st = Some (fin, st') \<Longrightarrow> \<forall>irq\<in>set irqs. sirq_ok irq \<Longrightarrow> sstep st st'"
| s_release: "lock_release mem lock st = Some st' \<Longrightarrow> curthread st \<noteq> None \<Longrightarrow> sstep st st'"
| s_cv_create: "cv_create new nm st = (r, st') \<Longrightarrow> sstep st st'"
| s_cv_destroy: "cv_destroy cv st = Some st' \<Longrightarrow> sstep st st'"
| s_wait: "cv_wait mem irqs cv lock st = Some st' \<Longrightarrow> curthread st \<noteq> None \<Longrightarrow> \<forall>irq\<in>set irqs. sirq_ok irq \<Longrightarrow> sstep st st'"
| s_signal: "cv_signal mem cv lock st = Some st' \<Longrightarrow> curthread st \<noteq> None \<Longrightarrow> sstep st st'"
| s_broadcast: "cv_broadcast mem cv lock st = Some st' \<Longrightarrow> curthread st \<noteq> None \<Longrightarrow> sstep st st'"
| s_resume: "sync_resume mem irqs st = Some st' \<Longrightarrow> \<forall>irq\<in>set irqs. sirq_ok irq \<Longrightarrow> sstep st st'"
| s_yield: "sync_yield mem irqs st = Some st' \<Longrightarrow> \<forall>irq\<in>set irqs. sirq_ok irq \<Longrightarrow> sstep st st'"
| s_sleep: "sleep_in mem irqs F_sleep addr st = Some st' \<Longrightarrow> \<forall>irq\<in>set irqs. sirq_ok irq \<Longrightarrow> sstep st st'"
| s_wakeup: "thread_wakeup mem addr st = Some st' \<Longrightarrow> curthread st \<noteq> None \<Longrightarrow> sstep st st'"
| s_fork: "sync_fork fm st = Some (r, st') \<Longrightarrow> (\<And>p. fm_thread fm = Some p \<Longrightarrow> t_heap st p = None) \<Longrightarrow>
    numthreads st < max_threads \<Longrightarrow> curthread st \<noteq> None \<Longrightarrow> sstep st st'"
| s_exit: "thread_exit mem irqs st = Some st' \<Longrightarrow> num (zombies st) < 2 ^ 28 \<Longrightarrow> \<forall>irq\<in>set irqs. sirq_ok irq \<Longrightarrow> sstep st st'"
| s_spl: "sstep st (snd (splx l st))"

text \<open>A change to the object at an address on which nobody sleeps.\<close>

lemma object_sync:
  assumes inv: "sync_inv st" and free: "\<forall>t\<in>set (array_list (sleepers st)). \<not> waits st a t"
    and same: "thread_inv st'" "sleepers st' = sleepers st" "t_heap st' = t_heap st" "frames st' = frames st"
    and obj: "\<And>s. s \<noteq> a \<Longrightarrow> sems st' s = sems st s \<and> locks st' s = locks st s"
      "\<And>s c. sems st' s = Some c \<Longrightarrow> sems st s = Some c \<or> 0 \<le> c \<and> c < 2 ^ 31"
      "accepts (log st') = Some (locks st', sems st')"
  shows "sync_inv st'"
proof (rule sync_invI [OF inv same(1)])
  fix t assume "t \<in> set (array_list (sleepers st'))" "has_reason st t"
  then show "has_reason st' t" using has_reason_other [of st t a st'] free same obj(1) by auto
qed (use same obj in auto)

lemma sem_destroy_sync:
  assumes inv: "sync_inv st" and run: "sem_destroy sem st = Some st'"
  shows "sync_inv st'"
proof -
  let ?s = "snd (splx (curspl st) (snd (splhigh st)))"
  from run obtain has where "thread_hassleepers sem (snd (splhigh st)) = Some has" "\<not> has"
    and st': "st' = logged (RmSem sem) (?s\<lparr>sems := (sems st)(sem := None)\<rparr>)"
    by (auto simp: sem_destroy_def Let_def split_beta split: if_splits elim!: bind_eq_SomeE)
  then have "\<forall>t\<in>set (array_list (sleepers st)). \<not> waits st sem t"
    using thread_hassleepers_spec [of "snd (splhigh st)" sem] sync_invD(1) [OF inv] by auto
  then show ?thesis
    by (rule object_sync [OF inv]) (use st' sync_invD(1,4) [OF inv] in \<open>auto split: if_splits\<close>)
qed

lemma fork_sync:
  assumes inv: "sync_inv st" and cur: "curthread st = Some cur"
    and fresh: "\<And>p. fm_thread fm = Some p \<Longrightarrow> t_heap st p = None" and few: "numthreads st < max_threads"
    and run: "sync_fork fm st = Some (r, st')"
  shows "sync_inv st'"
proof -
  note ti = sync_invD(1) [OF inv]
  obtain th where th: "t_heap st cur = Some th" using cur_facts(1) [OF ti cur] by auto
  from run obtain st1 where st1: "thread_fork fm st = Some (r, st1)"
    "st' = (case r of Inr p \<Rightarrow> st1\<lparr>frames := (frames st1)(p := [])\<rparr> | Inl _ \<Rightarrow> st1)"
    by (auto simp: sync_fork_def elim!: bind_eq_SomeE)
  from thread_fork_spec [OF ti cur th _ few, of fm] fresh st1(1) have
    f: "thread_inv st1" "array_list (sleepers st1) = array_list (sleepers st)" "ksched.more st1 = ksched.more st"
      "(\<exists>p. r = Inr p \<and> fm_thread fm = Some p \<and> t_heap st1 = (t_heap st)(p \<mapsto> new_thread (t_cwd th))) \<or>
       r = Inl ENOMEM \<and> t_heap st1 = t_heap st" by auto
  have np: "p \<notin> set (array_list (sleepers st))" if "fm_thread fm = Some p" for p
    using fresh [OF that] sleeper_heap [OF ti, of p] by auto
  show ?thesis
    by (rule sync_inv_threads [OF inv]) (use f st1(2) more_ksync [OF f(3)] np in \<open>auto split: sum.splits\<close>)
qed

lemma sstep_inv:
  assumes step: "sstep st st'" and inv: "sync_inv st"
  shows "sync_inv st'"
  using step
proof cases
  case (s_sem_create new nm n r)
  show ?thesis
  proof (cases new)
    case (Some a)
    show ?thesis
      by (cases nm, rule object_sync [OF inv, of a])
        (use s_sem_create Some sync_invD(1,4) [OF inv] inv in \<open>auto simp: sem_create_def unused_def split: if_splits\<close>)
  qed (use s_sem_create inv in \<open>simp add: sem_create_def\<close>)
next
  case (s_lock_create new nm r)
  show ?thesis
  proof (cases new)
    case (Some a)
    show ?thesis
      by (cases nm, rule object_sync [OF inv, of a])
        (use s_lock_create Some sync_invD(1,4) [OF inv] inv in \<open>auto simp: lock_create_def unused_def split: if_splits\<close>)
  qed (use s_lock_create inv in \<open>simp add: lock_create_def\<close>)
next
  case (s_lock_destroy lock)
  then have st': "st' = logged (RmLock lock) (st\<lparr>locks := (locks st)(lock := None)\<rparr>)" by (simp add: lock_destroy_def)
  show ?thesis
  proof (rule sync_invI [OF inv])
    fix t assume "has_reason st t"
    then show "has_reason st' t" using st'
      by (auto simp: has_reason_def frame_ok_def split: list.splits option.splits frame.splits)
  qed (use st' sync_invD(1) [OF inv] in auto)
next
  case (s_P mem irqs sem fin)
  then have "P_loop mem irqs sem (curspl st) (snd (splhigh st)) = Some (fin, st')"
    by (simp add: P_def Let_def split_beta split: if_splits)
  from P_loop_sync [OF _ s_P(2) this] inv show ?thesis by simp
next
  case (s_cv_create new nm r)
  then show ?thesis using inv
    by (auto simp: cv_create_def split: option.splits if_splits)
next
  case (s_cv_destroy cv)
  then show ?thesis using inv
    by (auto simp: cv_destroy_def split: if_splits)
next
  case (s_yield mem irqs)
  then obtain cur where cur: "curthread st = Some cur"
    and run: "thread_yield mem irqs (st\<lparr>frames := (frames st)(cur := F_yield (curspl st) # frames st cur)\<rparr>) = Some st'"
    by (auto simp: sync_yield_def push_frame_def elim!: bind_eq_SomeE)
  have "sync_inv (st\<lparr>frames := (frames st)(cur := F_yield (curspl st) # frames st cur)\<rparr>)"
    using sync_inv_frames [OF inv cur] .
  from leave_sync [OF this s_yield(2)] run cur show ?thesis by auto
next
  case (s_exit mem irqs)
  then obtain cur where "curthread st = Some cur" by (auto simp: thread_exit_def elim!: bind_eq_SomeE)
  with s_exit leave_sync [OF inv s_exit(3)] show ?thesis by blast
next
  case (s_sleep mem irqs addr)
  then show ?thesis using sleep_in_sync [OF inv s_sleep(2), of F_sleep addr] by (simp add: frame_ok_def)
next
  case (s_fork fm r)
  then obtain cur where "curthread st = Some cur" by auto
  from fork_sync [OF inv this s_fork(2,3,1)] show ?thesis .
next
  case (s_sem_destroy sem)
  then show ?thesis using sem_destroy_sync [OF inv] by blast
next
  case (s_V mem sem)
  then show ?thesis using V_sync [OF inv] by blast
next
  case (s_acquire mem irqs lock fin)
  then show ?thesis using lock_acquire_sync [OF inv] by blast
next
  case (s_release mem lock)
  then show ?thesis using lock_release_sync [OF inv] by blast
next
  case (s_wait mem irqs cv lock)
  then show ?thesis using cv_wait_sync [OF inv] by blast
next
  case (s_signal mem cv lock)
  then show ?thesis using cv_signal_sync [OF inv] by blast
next
  case (s_broadcast mem cv lock)
  then show ?thesis using cv_signal_sync [OF inv] by blast
next
  case (s_resume mem irqs)
  then show ?thesis using sync_resume_sync [OF inv] by blast
next
  case (s_wakeup mem addr)
  then show ?thesis using wakeup_only_sync [OF inv] by blast
next
  case (s_spl l)
  then show ?thesis using inv by simp
qed

text \<open>The machine after \<^verbatim>\<open>scheduler_bootstrap\<close> and \<^verbatim>\<open>thread_bootstrap\<close>, with no object made yet.\<close>

definition boots :: "ksync \<Rightarrow> bool" where
  "boots st \<longleftrightarrow> (\<exists>a b c d new e st0 st1 me. scheduler_bootstrap a b st0 = Some st1 \<and>
     thread_bootstrap c d new e st1 = Some (me, st) \<and> sems st0 = (\<lambda>_. None) \<and> locks st0 = (\<lambda>_. None) \<and> log st0 = [])"

lemma boots_inv:
  assumes "boots st"
  shows "sync_inv st"
proof -
  from assms obtain a b c d new e st0 st1 me where
    b: "scheduler_bootstrap a b st0 = Some st1" "thread_bootstrap c d new e st1 = Some (me, st)"
      "sems st0 = (\<lambda>_. None)" "locks st0 = (\<lambda>_. None)" "log st0 = []"
    unfolding boots_def by blast
  have "sems st1 = (\<lambda>_. None)" "locks st1 = (\<lambda>_. None)" "log st1 = []"
    using b by (auto simp: scheduler_bootstrap_def elim!: bind_eq_SomeE)
  then have "sems st = (\<lambda>_. None)" "locks st = (\<lambda>_. None)" "log st = []"
    using b(2) by (auto simp: thread_bootstrap_def thread_create_def split: option.splits if_splits elim!: bind_eq_SomeE)
  then show ?thesis using boot_inv [OF b(1,2)] by (simp add: sync_inv_def)
qed

lemma reach_inv:
  assumes "boots st0" and "sstep\<^sup>*\<^sup>* st0 st"
  shows "sync_inv st"
  using assms(2) boots_inv [OF assms(1)] sstep_inv by (induction rule: rtranclp_induct) blast+

section \<open>What the specification guarantees\<close>

lemma accepts_suffix: "accepts (es @ fs) = Some A \<Longrightarrow> \<exists>B. accepts fs = Some B"
  by (induction es arbitrary: A) (auto split: option.splits)

lemma accept_owner:
  assumes "accept e (L, S) = Some (L', S')" and "L l = Some (Some u)" and "e \<noteq> Rel u l" and "e \<noteq> MkLock l" and "e \<noteq> RmLock l"
  shows "L' l = Some (Some u)"
  using assms by (cases e) (auto split: if_splits option.splits)

lemma owner_stays:
  assumes "accepts (es @ Acq u l # fs) = Some (L, S)" and "Rel u l \<notin> set es" and "MkLock l \<notin> set es" and "RmLock l \<notin> set es"
  shows "L l = Some (Some u)"
  using assms
proof (induction es arbitrary: L S)
  case Nil
  then show ?case by (auto split: option.splits if_splits)
next
  case (Cons e es)
  then obtain L1 S1 where a: "accepts (es @ Acq u l # fs) = Some (L1, S1)" "accept e (L1, S1) = Some (L, S)"
    by (auto split: option.splits)
  with Cons.IH [OF a(1)] Cons.prems accept_owner [OF a(2)] show ?case by auto
qed

definition ups :: "nat \<Rightarrow> event list \<Rightarrow> int" where
  "ups s es = int (length (filter (\<lambda>e. e = Up s) es))"

definition downs :: "nat \<Rightarrow> event list \<Rightarrow> int" where
  "downs s es = int (length (filter (\<lambda>e. \<exists>t. e = Down t s) es))"

lemma count_adds:
  assumes "accepts (es @ MkSem s n # fs) = Some (L, S)" and "\<forall>k. MkSem s k \<notin> set es" and "RmSem s \<notin> set es"
  shows "S s = Some (n + ups s es - downs s es)"
  using assms
proof (induction es arbitrary: L S)
  case Nil
  then show ?case by (auto simp: ups_def downs_def split: option.splits)
next
  case (Cons e es)
  then obtain L1 S1 where a: "accepts (es @ MkSem s n # fs) = Some (L1, S1)" "accept e (L1, S1) = Some (L, S)"
    by (auto split: option.splits)
  with Cons.IH [OF a(1)] Cons.prems show ?case
    by (cases e) (auto simp: ups_def downs_def split: if_splits option.splits)
qed

section \<open>Properties\<close>

text \<open>
  C1: the locks and semaphores refine their specification: in every reachable state, whatever the
  interleaving of the threads, the sequence of calls that returned is one the abstract objects allow (only
  a free lock is taken, only its owner gives it back, only a positive semaphore is lowered), and the
  fields in memory are the abstract objects' state after it.
\<close>

theorem synch_refines_spec:
  assumes "boots st0" and "sstep\<^sup>*\<^sup>* st0 st"
  shows "accepts (log st) = Some (locks st, sems st)"
  using sync_invD(4) [OF reach_inv [OF assms]] .

text \<open>
  C2: mutual exclusion: in a history of calls (newest first), between two returns of \<^verbatim>\<open>lock_acquire\<close> on
  the same lock there is a \<^verbatim>\<open>lock_release\<close> by the thread that took it first, unless the lock was destroyed
  or made anew in between.
\<close>

theorem lock_mutual_exclusion:
  assumes "boots st0" and "sstep\<^sup>*\<^sup>* st0 st" and "log st = es @ Acq t l # mid @ Acq u l # old"
    and "MkLock l \<notin> set mid" and "RmLock l \<notin> set mid"
  shows "Rel u l \<in> set mid"
proof (rule ccontr)
  assume r: "Rel u l \<notin> set mid"
  have "accepts (es @ Acq t l # mid @ Acq u l # old) = Some (locks st, sems st)"
    using sync_invD(4) [OF reach_inv [OF assms(1,2)]] assms(3) by simp
  then obtain B where "accepts (Acq t l # mid @ Acq u l # old) = Some B" using accepts_suffix by blast
  then obtain L S where a: "accepts (mid @ Acq u l # old) = Some (L, S)" "L l = Some None"
    by (auto split: option.splits if_splits)
  with owner_stays [OF a(1) r assms(4,5)] show False by simp
qed

text \<open>
  A semaphore counts: since it was made with count \<open>n\<close>, its count is \<open>n\<close> plus the calls of \<^verbatim>\<open>V\<close> minus
  the returns of \<^verbatim>\<open>P\<close>, and that number is never negative: no more threads have passed than were let through.
\<close>

theorem semaphore_counts:
  assumes "boots st0" and "sstep\<^sup>*\<^sup>* st0 st" and "log st = es @ MkSem s n # old"
    and "\<forall>k. MkSem s k \<notin> set es" and "RmSem s \<notin> set es"
  shows "sems st s = Some (n + ups s es - downs s es) \<and> downs s es \<le> n + ups s es"
proof -
  note i = reach_inv [OF assms(1,2)]
  have "sems st s = Some (n + ups s es - downs s es)"
    using count_adds [of es s n old "locks st" "sems st"] sync_invD(4) [OF i] assms(3-5) by simp
  with sync_invD(3) [OF i this] show ?thesis by simp
qed

text \<open>
  C3: no wakeup is lost: a thread asleep inside \<^verbatim>\<open>lock_acquire\<close> sleeps on a lock that is not free, and one
  asleep inside \<^verbatim>\<open>P\<close> on a semaphore whose count is zero, and in both cases its sleep address is the
  object the next \<^verbatim>\<open>lock_release\<close> or \<^verbatim>\<open>V\<close> wakes.
\<close>

theorem no_lost_wakeup:
  assumes "boots st0" and "sstep\<^sup>*\<^sup>* st0 st" and "t \<in> set (array_list (sleepers st))" and "frames st t = f # fs"
  shows "case f of
      F_acquire l _ \<Rightarrow> waits st l t \<and> locks st l \<noteq> Some None
    | F_P s _ \<Rightarrow> waits st s t \<and> sems st s \<in> {None, Some 0}
    | F_wait cv _ _ \<Rightarrow> waits st cv t
    | F_sleep \<Rightarrow> True
    | _ \<Rightarrow> False"
  using sync_invD(2) [OF reach_inv [OF assms(1,2)] assms(3)] assms(4)
  by (auto simp: has_reason_def frame_ok_def waits_def split: option.splits frame.splits)

text \<open>
  \<^verbatim>\<open>cv_signal\<close> by the lock's owner wakes exactly the thread that has waited longest on the condition
  variable, or nobody when none waits: it goes to the end of the run queue, the other sleepers keep their
  places, and neither the locks nor the memory allocator matter.
\<close>

theorem cv_signal_wakes_first:
  assumes "sync_inv st" and "curthread st = Some cur" and "cvs st cv" and "locks st lock = Some (Some cur)"
  shows "\<exists>st'. cv_signal mem cv lock st = Some st' \<and> sync_inv st' \<and> locks st' = locks st \<and> curspl st' = curspl st \<and>
     array_list (sleepers st') = drop_first (waits st cv) (array_list (sleepers st)) \<and>
     q_list (runqueue st') = q_list (runqueue st) @ first (waits st cv) (array_list (sleepers st))"
proof -
  define s where "s = snd (splx SPL_HIGH (snd (splhigh (snd (splhigh st)))))"
  have ti: "thread_inv s" "curthread s \<noteq> None" "0 < curspl s" "sleepers s = sleepers st" "runqueue s = runqueue st"
    "waits s = waits st" "locks s = locks st"
    using sync_invD(1) [OF assms(1)] assms(2) by (simp_all add: s_def)
  have hold: "lock_do_i_hold lock (snd (splhigh st)) = Some (True, s)"
    using assms(2,4) by (simp add: lock_do_i_hold_def Let_def split_beta s_def)
  from thread_wakeone_spec [OF ti(1,3) wakeup_room_all(2) [OF ti(1,2)], of mem cv] obtain a q where
    w: "thread_wakeone mem cv s = Some (s\<lparr>sleepers := a, runqueue := q\<rparr>)"
      "array_list a = drop_first (waits s cv) (array_list (sleepers s))"
      "q_list q = q_list (runqueue s) @ first (waits s cv) (array_list (sleepers s))" by blast
  let ?t = "snd (splx (curspl st) (s\<lparr>sleepers := a, runqueue := q\<rparr>))"
  have run: "cv_signal mem cv lock st = Some ?t" using assms(3) hold w(1) by (simp add: cv_signal_def Let_def split_beta)
  then have "sync_inv ?t" using cv_signal_sync [OF assms(1)] assms(2) by blast
  with run w ti show ?thesis by auto
qed

text \<open>
  \<^verbatim>\<open>lock_destroy\<close> on a lock that is held frees the thread structure of its owner: the call returns, and
  the thread system is left with a running, ready or sleeping thread that does not exist.
\<close>

theorem lock_destroy_frees_owner:
  assumes "sync_inv st" and "locks st lock = Some (Some t)" and "t \<in> set (live st)"
  shows "\<exists>st'. lock_destroy lock st = Some st' \<and> t_heap st' t = None \<and> t \<in> set (live st') \<and> \<not> thread_inv st'"
proof -
  let ?s = "logged (RmLock lock) (st\<lparr>t_heap := (t_heap st)(t := None), locks := (locks st)(lock := None)\<rparr>)"
  have "lock_destroy lock st = Some ?s" using assms(2) by (simp add: lock_destroy_def)
  moreover have l: "t \<in> set (live ?s)" using assms(3) by (simp add: live_def)
  moreover have "\<not> thread_inv ?s"
  proof
    assume "thread_inv ?s"
    then have "th_ok ?s t" using l unfolding thread_inv_def by blast
    then show False by (simp add: th_ok_def)
  qed
  ultimately show ?thesis by auto
qed

section \<open>Runs that meet the hypotheses\<close>

definition cold_sync :: ksync where
  "cold_sync = ksched.extend cold_machine
     \<lparr>sems = (\<lambda>_. None), locks = (\<lambda>_. None), cvs = (\<lambda>_. True), frames = (\<lambda>_. []), log = []\<rparr>"

lemma booted:
  "\<exists>st. boots st \<and> curthread st = Some 100 \<and> numthreads st = 1 \<and> q_list (runqueue st) = [] \<and>
     array_list (sleepers st) = [] \<and> t_heap st 200 = None \<and> \<not> in_interrupt st \<and> log st = [] \<and> cvs st 7"
proof -
  obtain st1 st2 where b: "scheduler_bootstrap True True cold_sync = Some st1"
    "thread_bootstrap True True (Some 100) True st1 = Some (100, st2)"
    "t_heap st2 200 = None" "\<not> in_interrupt st2" "log st2 = []" "cvs st2 7"
    by (simp add: scheduler_bootstrap_def thread_bootstrap_def thread_create_def q_create_def array_create_def
      cold_sync_def cold_machine_def ksched.defs)
  have "boots st2" unfolding boots_def
    by (intro exI conjI) (rule b(1), rule b(2), simp_all add: cold_sync_def cold_machine_def ksched.defs)
  with boot_inv [OF b(1,2)] b show ?thesis by blast
qed

lemma acquire_free:
  assumes "curthread st = Some cur" and "locks st l = Some None"
  shows "\<exists>st'. lock_acquire mem irqs l st = Some (True, st') \<and> log st' = Acq cur l # log st \<and>
     locks st' l = Some (Some cur) \<and> curthread st' = Some cur \<and> cvs st' = cvs st"
  using assms by (simp add: lock_acquire_def lock_do_i_hold_def acquire_loop_def Let_def split_beta)

lemma release_mine:
  assumes inv: "sync_inv st" and "curthread st = Some cur" and "locks st l = Some (Some cur)"
  shows "\<exists>st'. lock_release mem l st = Some st' \<and> log st' = Rel cur l # log st \<and>
     locks st' l = Some None \<and> curthread st' = Some cur"
proof -
  let ?s = "logged (Rel cur l) ((snd (splhigh st))\<lparr>locks := (locks st)(l \<mapsto> None)\<rparr>)"
  have i: "thread_inv ?s" "0 < curspl ?s" "curthread ?s \<noteq> None" using sync_invD(1) [OF inv] assms(2) by simp_all
  from thread_wakeup_spec [OF i(1,2) wakeup_room_all(1) [OF i(1,3)], of mem l] obtain a q where
    "thread_wakeup mem l ?s = Some (?s\<lparr>sleepers := a, runqueue := q\<rparr>)" by blast
  then show ?thesis using assms(2,3) by (simp add: lock_release_def Let_def split_beta)
qed

text \<open>The boot thread makes a lock, takes it, gives it back and takes it again.\<close>

lemma lock_run:
  "\<exists>st0 st2 st4. boots st0 \<and> sstep\<^sup>*\<^sup>* st0 st2 \<and> log st2 = [Acq 100 64, MkLock 64] \<and> curthread st2 = Some 100 \<and>
     locks st2 64 = Some (Some 100) \<and> cvs st2 7 \<and>
     sstep\<^sup>*\<^sup>* st0 st4 \<and> log st4 = [Acq 100 64, Rel 100 64, Acq 100 64, MkLock 64]"
proof -
  obtain st0 where b: "boots st0" "curthread st0 = Some 100" "array_list (sleepers st0) = []" "log st0 = []" "cvs st0 7"
    using booted by auto
  let ?s1 = "logged (MkLock 64) (st0\<lparr>locks := (locks st0)(64 \<mapsto> None)\<rparr>)"
  have s1: "sstep st0 ?s1"
    by (rule s_lock_create [of "Some 64" True st0 "Some 64"]) (use b in \<open>auto simp: lock_create_def unused_def\<close>)
  obtain s2 where s2: "lock_acquire True [] 64 ?s1 = Some (True, s2)" "log s2 = [Acq 100 64, MkLock 64]"
    "locks s2 64 = Some (Some 100)" "curthread s2 = Some 100" "cvs s2 7"
    using acquire_free [of ?s1 100 64 True "[]"] b by auto
  have "sstep ?s1 s2" by (rule s_acquire [OF s2(1)]) simp
  with s1 have r2: "sstep\<^sup>*\<^sup>* st0 s2" by (meson converse_rtranclp_into_rtranclp r_into_rtranclp)
  obtain s3 where s3: "lock_release True 64 s2 = Some s3" "log s3 = [Rel 100 64, Acq 100 64, MkLock 64]"
    "locks s3 64 = Some None" "curthread s3 = Some 100"
    using release_mine [OF reach_inv [OF b(1) r2] s2(4,3), of True] s2 by auto
  obtain s4 where s4: "lock_acquire True [] 64 s3 = Some (True, s4)"
    "log s4 = [Acq 100 64, Rel 100 64, Acq 100 64, MkLock 64]"
    using acquire_free [of s3 100 64 True "[]"] s3 by auto
  have "sstep s2 s3" by (rule s_release [OF s3(1)]) (simp add: s2)
  moreover have "sstep s3 s4" by (rule s_acquire [OF s4(1)]) simp
  ultimately have "sstep\<^sup>*\<^sup>* st0 s4" using r2 by (meson rtranclp.rtrancl_into_rtrancl)
  with b(1,5) r2 s2 s4(2) show ?thesis by blast
qed

text \<open>The boot thread makes a semaphore; it passes when the count is 1, and sleeps when it is 0.\<close>

lemma sem_run:
  assumes "0 \<le> n" and "n < 2 ^ 31"
  shows "\<exists>st0 st2. boots st0 \<and> sstep\<^sup>*\<^sup>* st0 st2 \<and> curthread st2 = Some 100 \<and> q_list (runqueue st2) = [200] \<and>
     array_list (sleepers st2) = [] \<and> sems st2 64 = Some n \<and> log st2 = [MkSem 64 n] \<and> \<not> in_interrupt st2"
proof -
  obtain st0 where b: "boots st0" "curthread st0 = Some 100" "array_list (sleepers st0) = []" "log st0 = []"
    "numthreads st0 = 1" "q_list (runqueue st0) = []" "t_heap st0 200 = None" "\<not> in_interrupt st0"
    using booted by auto
  let ?s1 = "logged (MkSem 64 n) (st0\<lparr>sems := (sems st0)(64 \<mapsto> n)\<rparr>)"
  have s1: "sstep st0 ?s1"
    by (rule s_sem_create [of "Some 64" True n st0 "Some 64"])
      (use b assms in \<open>auto simp: sem_create_def unused_def\<close>)
  have i: "thread_inv ?s1" "curthread ?s1 = Some 100" using sync_invD(1) [OF boots_inv [OF b(1)]] b(2) by simp_all
  obtain th where th: "t_heap ?s1 100 = Some th" using cur_facts(1) [OF i] by auto
  have pl: "fork_mem_ok (plenty 200)" "fm_thread (plenty 200) = Some 200" by (simp_all add: plenty_def fork_mem_ok_def)
  from thread_fork_spec [OF i th, of "plenty 200"] b pl obtain s2 where
    s2: "thread_fork (plenty 200) ?s1 = Some (Inr 200, s2)" "curthread s2 = Some 100"
      "array_list (sleepers s2) = []" "q_list (runqueue s2) = [200]" "ksched.more s2 = ksched.more ?s1"
      "\<not> in_interrupt s2"
    by (auto simp: max_threads_def logged_def)
  let ?s2 = "s2\<lparr>frames := (frames s2)(200 := [])\<rparr>"
  have "sstep ?s1 ?s2"
    by (rule s_fork [of "plenty 200" ?s1 "Inr 200"])
      (use s2(1) b pl in \<open>auto simp: sync_fork_def max_threads_def\<close>)
  with s1 have "sstep\<^sup>*\<^sup>* st0 ?s2" by (meson converse_rtranclp_into_rtranclp r_into_rtranclp)
  moreover have "sems ?s2 64 = Some n" "log ?s2 = [MkSem 64 n]" using more_ksync [OF s2(5)] b(4) by simp_all
  ultimately show ?thesis using b(1) s2 by (intro exI [of _ st0] exI [of _ ?s2]) auto
qed

theorem synch_refines_spec_witness:
  "\<exists>st0 st. boots st0 \<and> sstep\<^sup>*\<^sup>* st0 st \<and> log st = [Acq 100 64, MkLock 64] \<and>
     accepts [Acq 100 64, MkLock 64] = Some (locks st, sems st)"
proof -
  obtain st0 st where r: "boots st0" "sstep\<^sup>*\<^sup>* st0 st" "log st = [Acq 100 64, MkLock 64]" using lock_run by blast
  from synch_refines_spec [OF r(1,2)] r show ?thesis by metis
qed

theorem lock_mutual_exclusion_witness:
  "\<exists>st0 st mid. boots st0 \<and> sstep\<^sup>*\<^sup>* st0 st \<and> log st = [] @ Acq 100 64 # mid @ Acq 100 64 # [MkLock 64] \<and>
     Rel 100 64 \<in> set mid"
proof -
  obtain st0 st where r: "boots st0" "sstep\<^sup>*\<^sup>* st0 st" "log st = [] @ Acq 100 64 # [Rel 100 64] @ Acq 100 64 # [MkLock 64]"
    using lock_run by auto
  have "MkLock 64 \<notin> set [Rel 100 64]" "RmLock 64 \<notin> set [Rel 100 64]" by simp_all
  from lock_mutual_exclusion [OF r this] r show ?thesis by blast
qed

theorem semaphore_counts_witness:
  "\<exists>st0 st. boots st0 \<and> sstep\<^sup>*\<^sup>* st0 st \<and> log st = [Down 100 64, MkSem 64 1] \<and> sems st 64 = Some 0"
proof -
  obtain st0 st2 where r: "boots st0" "sstep\<^sup>*\<^sup>* st0 st2" "curthread st2 = Some 100" "sems st2 64 = Some 1"
    "log st2 = [MkSem 64 1]" "\<not> in_interrupt st2"
    using sem_run [of 1] by auto
  obtain st3 where p: "P True [] 64 st2 = Some (True, st3)" "log st3 = [Down 100 64] @ MkSem 64 1 # []"
    using r by (simp add: P_def P_loop_def Let_def split_beta)
  have "sstep st2 st3" by (rule s_P [OF p(1)]) simp
  with r(2) have s: "sstep\<^sup>*\<^sup>* st0 st3" by simp
  from semaphore_counts [OF r(1) s p(2)] r(1) s p(2) show ?thesis by (auto simp: ups_def downs_def)
qed

theorem no_lost_wakeup_witness:
  "\<exists>st0 st. boots st0 \<and> sstep\<^sup>*\<^sup>* st0 st \<and> 100 \<in> set (array_list (sleepers st)) \<and>
     waits st 64 100 \<and> sems st 64 \<in> {None, Some 0}"
proof -
  obtain st0 st2 where r: "boots st0" "sstep\<^sup>*\<^sup>* st0 st2" "curthread st2 = Some 100" "sems st2 64 = Some 0"
    "q_list (runqueue st2) = [200]" "array_list (sleepers st2) = []" "\<not> in_interrupt st2"
    using sem_run [of 0] by auto
  let ?h = "snd (splhigh st2)"
  let ?s = "?h\<lparr>frames := (frames st2)(100 := F_P 64 (curspl st2) # frames st2 100)\<rparr>"
  have i: "thread_inv ?s" "curthread ?s = Some 100" "0 < curspl ?s" "\<not> in_interrupt ?s" "q_list (runqueue ?s) = 200 # []"
    using sync_invD(1) [OF reach_inv [OF r(1,2)]] r by simp_all
  obtain th where th: "t_heap ?s 100 = Some th" using cur_facts(1) [OF i(1,2)] by auto
  from thread_sleep_turn [OF i(1,2) th i(3-5), of True "[]" 64] obtain st3 where
    t: "thread_sleep True [] 64 ?s = Some st3" "array_list (sleepers st3) = [100]"
      "frames st3 100 = F_P 64 (curspl st2) # frames st2 100" using r(6) by auto
  have p: "P True [] 64 st2 = Some (False, st3)"
    using t(1) r(3,4,7) by (simp add: P_def P_loop_def sleep_in_def push_frame_def Let_def split_beta)
  have "sstep st2 st3" by (rule s_P [OF p]) simp
  with r(2) have s: "sstep\<^sup>*\<^sup>* st0 st3" by simp
  have "100 \<in> set (array_list (sleepers st3))" using t(2) by simp
  from no_lost_wakeup [OF r(1) s this t(3)] this r(1) s show ?thesis by auto
qed

theorem cv_signal_wakes_first_witness:
  "\<exists>st st'. sync_inv st \<and> curthread st = Some 100 \<and> cv_signal False 7 64 st = Some st' \<and> sync_inv st'"
proof -
  obtain st0 st where r: "boots st0" "sstep\<^sup>*\<^sup>* st0 st" "curthread st = Some 100" "locks st 64 = Some (Some 100)" "cvs st 7"
    using lock_run by blast
  from cv_signal_wakes_first [OF reach_inv [OF r(1,2)] r(3,5,4), of False] reach_inv [OF r(1,2)] r(3) show ?thesis by blast
qed

theorem lock_destroy_frees_owner_witness:
  "\<exists>st st'. sync_inv st \<and> curthread st = Some 100 \<and> lock_destroy 64 st = Some st' \<and> \<not> thread_inv st'"
proof -
  obtain st0 st where r: "boots st0" "sstep\<^sup>*\<^sup>* st0 st" "curthread st = Some 100" "locks st 64 = Some (Some 100)"
    using lock_run by blast
  have "100 \<in> set (live st)" using r(3) by (simp add: live_def)
  from lock_destroy_frees_owner [OF reach_inv [OF r(1,2)] r(4) this] reach_inv [OF r(1,2)] r(3) show ?thesis by blast
qed

end
