(* ===== verification/File_table.thy ===== *)
theory File_table
  imports Sfs_ops Copyinout
begin

unbundle bit_operations_syntax

text \<open>
  The open file table and the system calls on files of the solution to assignment 3
  (\<^verbatim>\<open>assignment3/ownSolution/file.c\<close>, \<^verbatim>\<open>file.h\<close> and \<^verbatim>\<open>syscall.c\<close>). The vnode layer below is reached through
  function pointers, so it is a record of functions on a state of its own.
\<close>

section \<open>The vnode layer\<close>

text \<open>
  The functions the system calls use, on vnodes by address and on the layer's state; \<open>VOP_READ\<close> and
  \<open>VOP_WRITE\<close> hand back the descriptor they advanced.
\<close>

record 'w fops =
  vfs_open :: "byte list \<Rightarrow> nat \<Rightarrow> 'w \<Rightarrow> (nat res \<times> 'w) option"
  vfs_close :: "nat \<Rightarrow> 'w \<Rightarrow> 'w option"
  VOP_READ :: "nat \<Rightarrow> uio \<Rightarrow> 'w \<Rightarrow> (unit res \<times> uio \<times> 'w) option"
  VOP_WRITE :: "nat \<Rightarrow> uio \<Rightarrow> 'w \<Rightarrow> (unit res \<times> uio \<times> 'w) option"
  VOP_STAT :: "nat \<Rightarrow> 'w \<Rightarrow> (stat res \<times> 'w) option"
  VOP_TRYSEEK :: "nat \<Rightarrow> int \<Rightarrow> 'w \<Rightarrow> (unit res \<times> 'w) option"
  vfs_sync :: "'w \<Rightarrow> 'w option"

section \<open>State\<close>

definition MAX_OPEN_FILES :: nat where "MAX_OPEN_FILES = 64"
definition MAX_FD :: nat where "MAX_FD = 16"
definition PATH_MAX :: nat where "PATH_MAX = 1024"

text \<open>The \<^verbatim>\<open>vn\<close> field: \<^verbatim>\<open>NULL\<close>, the marker \<^verbatim>\<open>BUSY_OFTE\<close>, or a vnode.\<close>

datatype of_vnode = VN_NULL | BUSY_OFTE | VN nat

record ofte =
  fp :: int
  oflags :: nat
  ocount :: int
  ovn :: of_vnode

text \<open>
  The table of open files, the descriptor table of the current thread (indices into it), the thread's
  address space, the memory (user and kernel) and the state of the vnode layer.
\<close>

record 'w fstate =
  oft :: "ofte list"
  fd :: "nat option list"
  vmspace :: "nat option"
  fmem :: memory
  world :: 'w

definition put_ofte :: "nat \<Rightarrow> ofte \<Rightarrow> 'w fstate \<Rightarrow> 'w fstate" where
  "put_ofte i e st = st\<lparr>oft := (oft st)[i := e]\<rparr>"

section \<open>Helpers\<close>

definition mk_uio :: "'w fstate \<Rightarrow> nat \<Rightarrow> nat \<Rightarrow> int \<Rightarrow> uio_rw \<Rightarrow> uio" where
  "mk_uio st ubuf len pos rw =
     \<lparr>uio_mem = fmem st, iov_base = ubuf, iov_len = len, uio_offset = nat pos, uio_resid = len,
      uio_segflg = UIO_USERSPACE, uio_rw = rw, uio_space = vmspace st, cur_space = vmspace st\<rparr>"

datatype fd_access = F_READ | F_WRITE | F_ANY

text \<open>\<^verbatim>\<open>check_fd_access\<close>; on success the index of the table entry the descriptor stands for.\<close>

definition check_fd_access :: "int \<Rightarrow> fd_access \<Rightarrow> 'w fstate \<Rightarrow> nat res option" where
  "check_fd_access filehandle acc st =
     (if filehandle < 0 \<or> filehandle \<ge> int MAX_FD then Some (Inl EBADF)
      else do {
        p \<leftarrow> rd (fd st) (nat filehandle);
        (case p of
           None \<Rightarrow> Some (Inl EBADF)
         | Some i \<Rightarrow> do {
             e \<leftarrow> rd (oft st) i;
             let mode = oflags e AND O_ACCMODE;
             if mode = 0 then Some (if acc = F_WRITE then Inl EBADF else Inr i)
             else if mode = O_WRONLY then Some (if acc = F_READ then Inl EBADF else Inr i)
             else if mode = O_RDWR then Some (Inr i)
             else None
           })
      })"

fun oft_alloc_from :: "nat \<Rightarrow> nat \<Rightarrow> 'w fstate \<Rightarrow> (nat option \<times> 'w fstate) option" where
  "oft_alloc_from i 0 st = Some (None, st)"
| "oft_alloc_from i (Suc k) st = do {
     e \<leftarrow> rd (oft st) i;
     if ovn e = VN_NULL then Some (Some i, put_ofte i (e\<lparr>ovn := BUSY_OFTE, ocount := 1\<rparr>) st)
     else oft_alloc_from (i + 1) k st
   }"

definition oft_alloc :: "'w fstate \<Rightarrow> (nat option \<times> 'w fstate) option" where
  "oft_alloc st = oft_alloc_from 0 MAX_OPEN_FILES st"

definition oft_free :: "nat \<Rightarrow> 'w fstate \<Rightarrow> (int \<times> 'w fstate) option" where
  "oft_free i st = do {
     e \<leftarrow> rd (oft st) i;
     let c = ocount e - 1;
     Some (c, put_ofte i (if c = 0 then e\<lparr>ocount := c, ovn := VN_NULL\<rparr> else e\<lparr>ocount := c\<rparr>) st)
   }"

definition oft_bootstrap :: "'w fstate \<Rightarrow> 'w fstate" where
  "oft_bootstrap st = st\<lparr>oft := map (\<lambda>e. e\<lparr>ovn := VN_NULL\<rparr>) (oft st)\<rparr>"

section \<open>The system calls\<close>

text \<open>
  The address of the static buffer \<^verbatim>\<open>pathname\<close> of \<^verbatim>\<open>sys_open\<close>, and the string a buffer holds.
\<close>

definition pathname :: nat where "pathname = 0x80030000"

fun c_str :: "memory \<Rightarrow> nat \<Rightarrow> nat \<Rightarrow> byte list" where
  "c_str m a 0 = []"
| "c_str m a (Suc k) = (case m a of None \<Rightarrow> [] | Some b \<Rightarrow> if b = 0 then [] else b # c_str m (a + 1) k)"

fun fd_free_from :: "nat \<Rightarrow> nat \<Rightarrow> 'w fstate \<Rightarrow> nat option option" where
  "fd_free_from i 0 st = Some None"
| "fd_free_from i (Suc k) st = do {
     p \<leftarrow> rd (fd st) i;
     if p = None then Some (Some i) else fd_free_from (i + 1) k st
   }"

text \<open>
  The part \<^verbatim>\<open>sys_open\<close> and \<^verbatim>\<open>sys_kopen\<close> share: a table entry, the vnode, and the descriptor's state. \<open>None\<close>
  as the path is a \<^verbatim>\<open>NULL\<close> pointer, which \<^verbatim>\<open>vfs_open\<close> follows.
\<close>

definition open_entry :: "'w fops \<Rightarrow> byte list option \<Rightarrow> nat \<Rightarrow> nat \<Rightarrow> 'w fstate \<Rightarrow> (nat res \<times> 'w fstate) option" where
  "open_entry ops path flags d st = do {
     (oftp, st1) \<leftarrow> oft_alloc st;
     (case oftp of
        None \<Rightarrow> Some (Inl ENFILE, st1\<lparr>fd := (fd st1)[d := None]\<rparr>)
      | Some i \<Rightarrow> do {
          p \<leftarrow> path;
          (r, w) \<leftarrow> vfs_open ops p flags (world st1);
          let st2 = st1\<lparr>world := w\<rparr>;
          (case r of
             Inl e \<Rightarrow> do {
               (_, st3) \<leftarrow> oft_free i st2;
               Some (Inl e, st3\<lparr>fd := (fd st3)[d := None]\<rparr>)
             }
           | Inr vnret \<Rightarrow> do {
               e \<leftarrow> rd (oft st2) i;
               Some (Inr d, put_ofte i (e\<lparr>ovn := VN vnret, fp := 0, oflags := flags\<rparr>)
                              (st2\<lparr>fd := (fd st2)[d := Some i]\<rparr>))
             })
        })
   }"

definition sys_open :: "'w fops \<Rightarrow> nat \<Rightarrow> nat \<Rightarrow> 'w fstate \<Rightarrow> (nat res \<times> 'w fstate) option" where
  "sys_open ops filename flags st =
     (case copyinstr (fmem st) filename (fmem st) pathname PATH_MAX of
        (Inl e, m) \<Rightarrow> Some (Inl e, st\<lparr>fmem := m\<rparr>)
      | (Inr len, m) \<Rightarrow> do {
          let st1 = st\<lparr>fmem := m\<rparr>;
          d \<leftarrow> fd_free_from 0 MAX_FD st1;
          (case d of
             None \<Rightarrow> Some (Inl EMFILE, st1)
           | Some d \<Rightarrow> open_entry ops (Some (c_str m pathname PATH_MAX)) flags d st1)
        })"

text \<open>\<^verbatim>\<open>sys_kopen\<close>, for the kernel's own use: the descriptor is given; \<open>mem\<close> is the outcome of \<^verbatim>\<open>kstrdup\<close>.\<close>

definition sys_kopen :: "'w fops \<Rightarrow> bool \<Rightarrow> byte list \<Rightarrow> nat \<Rightarrow> nat \<Rightarrow> 'w fstate \<Rightarrow> (nat res \<times> 'w fstate) option" where
  "sys_kopen ops mem filename flags d st = do {
     p \<leftarrow> rd (fd st) d;
     if p \<noteq> None then Some (Inl EMFILE, st)
     else open_entry ops (if mem then Some filename else None) flags d st
   }"

text \<open>
  \<^verbatim>\<open>sys_read\<close> and \<^verbatim>\<open>sys_write\<close> differ in the access they check and the vnode operation they call. The
  position is a signed 32-bit \<^verbatim>\<open>off_t\<close>; a transfer that overflows it is undefined.
\<close>

definition transfer :: "(nat \<Rightarrow> uio \<Rightarrow> 'w \<Rightarrow> (unit res \<times> uio \<times> 'w) option) \<Rightarrow> fd_access \<Rightarrow> uio_rw \<Rightarrow>
    int \<Rightarrow> nat \<Rightarrow> nat \<Rightarrow> 'w fstate \<Rightarrow> (int res \<times> 'w fstate) option" where
  "transfer vop acc rw filehandle buf len st = do {
     r \<leftarrow> check_fd_access filehandle acc st;
     (case r of
        Inl e \<Rightarrow> Some (Inl e, st)
      | Inr i \<Rightarrow> do {
          e \<leftarrow> rd (oft st) i;
          (case ovn e of
             VN vnode \<Rightarrow> do {
               (r, io, w) \<leftarrow> vop vnode (mk_uio st buf len (fp e) rw) (world st);
               _ \<leftarrow> kassert (uio_offset io < 2 ^ 31);
               let st1 = st\<lparr>world := w, fmem := uio_mem io\<rparr>;
               (case r of
                  Inl e \<Rightarrow> Some (Inl e, st1)
                | Inr _ \<Rightarrow> Some (Inr (int (uio_offset io) - fp e), put_ofte i (e\<lparr>fp := int (uio_offset io)\<rparr>) st1))
             }
           | _ \<Rightarrow> None)
        })
   }"

definition sys_read :: "'w fops \<Rightarrow> int \<Rightarrow> nat \<Rightarrow> nat \<Rightarrow> 'w fstate \<Rightarrow> (int res \<times> 'w fstate) option" where
  "sys_read ops = transfer (VOP_READ ops) F_READ UIO_READ"

definition sys_write :: "'w fops \<Rightarrow> int \<Rightarrow> nat \<Rightarrow> nat \<Rightarrow> 'w fstate \<Rightarrow> (int res \<times> 'w fstate) option" where
  "sys_write ops = transfer (VOP_WRITE ops) F_WRITE UIO_WRITE"

definition sys_close :: "'w fops \<Rightarrow> int \<Rightarrow> 'w fstate \<Rightarrow> (unit res \<times> 'w fstate) option" where
  "sys_close ops filehandle st = do {
     r \<leftarrow> check_fd_access filehandle F_ANY st;
     (case r of
        Inl e \<Rightarrow> Some (Inl e, st)
      | Inr i \<Rightarrow> do {
          e \<leftarrow> rd (oft st) i;
          (c, st1) \<leftarrow> oft_free i st;
          st2 \<leftarrow> (if c = 0
                  then (case ovn e of
                          VN vnode \<Rightarrow> do { w \<leftarrow> vfs_close ops vnode (world st1); Some (st1\<lparr>world := w\<rparr>) }
                        | _ \<Rightarrow> None)
                  else Some st1);
          Some (Inr (), st2\<lparr>fd := (fd st2)[nat filehandle := None]\<rparr>)
        })
   }"

definition SEEK_SET :: int where "SEEK_SET = 0"
definition SEEK_CUR :: int where "SEEK_CUR = 1"
definition SEEK_END :: int where "SEEK_END = 2"

text \<open>
  \<^verbatim>\<open>sys_lseek\<close>. The result of \<^verbatim>\<open>VOP_TRYSEEK\<close> is compared with \<open>r < 0\<close>; the error codes are positive, so no
  error is seen.
\<close>

definition sys_lseek :: "'w fops \<Rightarrow> int \<Rightarrow> int \<Rightarrow> int \<Rightarrow> 'w fstate \<Rightarrow> (int res \<times> 'w fstate) option" where
  "sys_lseek ops filehandle pos code st = do {
     r \<leftarrow> check_fd_access filehandle F_ANY st;
     (case r of
        Inl e \<Rightarrow> Some (Inl e, st)
      | Inr i \<Rightarrow> do {
          e \<leftarrow> rd (oft st) i;
          (case ovn e of
             VN vnode \<Rightarrow> do {
               (r, w) \<leftarrow> (if code = SEEK_SET then Some (Inr pos, world st)
                         else if code = SEEK_CUR then Some (Inr (int32 (fp e + pos)), world st)
                         else if code = SEEK_END then do {
                           (r, w) \<leftarrow> VOP_STAT ops vnode (world st);
                           Some (case r of Inl err \<Rightarrow> Inl err | Inr s \<Rightarrow> Inr (int32 (int (st_size s) + pos)), w)
                         }
                         else Some (Inl EINVAL, world st));
               let st1 = st\<lparr>world := w\<rparr>;
               (case r of
                  Inl err \<Rightarrow> Some (Inl err, st1)
                | Inr newfp \<Rightarrow>
                    if newfp < 0 then Some (Inl EINVAL, st1)
                    else do {
                      (_, w) \<leftarrow> VOP_TRYSEEK ops vnode newfp (world st1);
                      Some (Inr newfp, put_ofte i (e\<lparr>fp := newfp\<rparr>) (st1\<lparr>world := w\<rparr>))
                    })
             }
           | _ \<Rightarrow> None)
        })
   }"

text \<open>
  \<^verbatim>\<open>sys_fstat\<close> follows the descriptor without looking at it first: a bad one is a bad pointer. The vnode
  operation stores through the pointer the user gave, with no \<^verbatim>\<open>copyout\<close>: an address that is not mapped is
  a fault in the kernel, one that is mapped is written whoever it belongs to. (A failing \<^verbatim>\<open>VOP_STAT\<close> is
  taken to store nothing.)
\<close>

definition stat_bytes :: "stat \<Rightarrow> byte list" where
  "stat_bytes s = enc_words [st_mode s, st_nlink s, st_size s, st_blocks s]"

definition sys_fstat :: "'w fops \<Rightarrow> int \<Rightarrow> nat \<Rightarrow> 'w fstate \<Rightarrow> (unit res \<times> 'w fstate) option" where
  "sys_fstat ops d statbuf st =
     (if d < 0 then None
      else do {
        p \<leftarrow> rd (fd st) (nat d);
        i \<leftarrow> p;
        e \<leftarrow> rd (oft st) i;
        (case ovn e of
           VN vnode \<Rightarrow> do {
             (r, w) \<leftarrow> VOP_STAT ops vnode (world st);
             let st1 = st\<lparr>world := w\<rparr>;
             (case r of
                Inl err \<Rightarrow> Some (Inl err, st1)
              | Inr s \<Rightarrow> do {
                  let (m, ok) = memcpy_out (fmem st1) statbuf (stat_bytes s);
                  _ \<leftarrow> kassert ok;
                  Some (Inr (), st1\<lparr>fmem := m\<rparr>)
                })
           }
         | _ \<Rightarrow> None)
      })"

definition sys_sync :: "'w fops \<Rightarrow> 'w fstate \<Rightarrow> 'w fstate option" where
  "sys_sync ops st = do { w \<leftarrow> vfs_sync ops (world st); Some (st\<lparr>world := w\<rparr>) }"

section \<open>The system call handler\<close>

text \<open>The registers of the trap frame the handler uses, as unsigned 32-bit values.\<close>

record trapframe =
  tf_v0 :: nat
  tf_a0 :: nat
  tf_a1 :: nat
  tf_a2 :: nat
  tf_a3 :: nat
  tf_epc :: nat

definition errno_code :: "errno \<Rightarrow> int" where
  "errno_code e = (case e of
     EINVAL \<Rightarrow> 1 | EFAULT \<Rightarrow> 2 | ENAMETOOLONG \<Rightarrow> 3 | ENOMEM \<Rightarrow> 4 | EIO \<Rightarrow> 5 | ENOENT \<Rightarrow> 6 | ENOTDIR \<Rightarrow> 7 | EISDIR \<Rightarrow> 8
   | EEXIST \<Rightarrow> 9 | EXDEV \<Rightarrow> 10 | EAGAIN \<Rightarrow> 11 | ESPIPE \<Rightarrow> 12 | EUNIMP \<Rightarrow> 13 | ENXIO \<Rightarrow> 14 | ENODEV \<Rightarrow> 15 | EBUSY \<Rightarrow> 16
   | EIOCTL \<Rightarrow> 17 | ENOTEMPTY \<Rightarrow> 18 | ERANGE \<Rightarrow> 19 | ENOSPC \<Rightarrow> 20 | EMFILE \<Rightarrow> 21 | ENFILE \<Rightarrow> 22 | ENOSYS \<Rightarrow> 23
   | ENOEXEC \<Rightarrow> 24 | E2BIG \<Rightarrow> 25 | EBADF \<Rightarrow> 26)"

definition sreg :: "nat \<Rightarrow> int" where
  "sreg n = int32 (int n)"

definition reg :: "int \<Rightarrow> nat" where
  "reg k = nat (k mod 2 ^ 32)"

text \<open>A call's outcome in the variables \<^verbatim>\<open>err\<close> and \<^verbatim>\<open>retval\<close>.\<close>

definition outcome :: "('a \<Rightarrow> int) \<Rightarrow> ('a res \<times> 'w fstate) option \<Rightarrow> ((int \<times> int) \<times> 'w fstate) option" where
  "outcome f m = do {
     (r, st) \<leftarrow> m;
     Some ((case r of Inl e \<Rightarrow> (errno_code e, 0) | Inr x \<Rightarrow> (0, f x)), st)
   }"

text \<open>
  The choice by call number, up to \<^verbatim>\<open>(err, retval)\<close>. \<open>err0\<close> is what the variable \<^verbatim>\<open>err\<close> happens to hold: the
  handler does not initialise it, and the case of \<^verbatim>\<open>SYS_sync\<close> does not set it. \<^verbatim>\<open>sys_reboot\<close> with a valid
  code does not return.
\<close>

definition syscall_switch :: "'w fops \<Rightarrow> int \<Rightarrow> trapframe \<Rightarrow> 'w fstate \<Rightarrow> ((int \<times> int) \<times> 'w fstate) option" where
  "syscall_switch ops err0 tf st =
     (let callno = tf_v0 tf in
      if callno = 8 then (if sreg (tf_a0 tf) \<in> {0, 1, 2} then None else Some ((errno_code EINVAL, 0), st))
      else if callno = 4 then outcome int (sys_open ops (tf_a0 tf) (tf_a1 tf) st)
      else if callno = 5 then outcome id (sys_read ops (sreg (tf_a0 tf)) (tf_a1 tf) (tf_a2 tf) st)
      else if callno = 6 then outcome id (sys_write ops (sreg (tf_a0 tf)) (tf_a1 tf) (tf_a2 tf) st)
      else if callno = 7 then outcome (\<lambda>_. 0) (sys_close ops (sreg (tf_a0 tf)) st)
      else if callno = 13 then outcome id (sys_lseek ops (sreg (tf_a0 tf)) (sreg (tf_a1 tf)) (sreg (tf_a2 tf)) st)
      else if callno = 16 then outcome (\<lambda>_. 0) (sys_fstat ops (sreg (tf_a0 tf)) (tf_a1 tf) st)
      else if callno = 9 then do { st1 \<leftarrow> sys_sync ops st; Some ((err0, 0), st1) }
      else Some ((errno_code ENOSYS, 0), st))"

definition mips_syscall :: "'w fops \<Rightarrow> int \<Rightarrow> trapframe \<Rightarrow> 'w fstate \<Rightarrow> (trapframe \<times> 'w fstate) option" where
  "mips_syscall ops err0 tf st = do {
     ((err, retval), st1) \<leftarrow> syscall_switch ops err0 tf st;
     let tf1 = (if err \<noteq> 0 then tf\<lparr>tf_v0 := reg err, tf_a3 := 1\<rparr> else tf\<lparr>tf_v0 := reg retval, tf_a3 := 0\<rparr>);
     Some (tf1\<lparr>tf_epc := size32 (tf_epc tf1 + 4)\<rparr>, st1)
   }"

section \<open>The invariant of the tables\<close>

text \<open>
  How many of the current thread's descriptors stand for an entry. The descriptor tables of other threads
  are given by the number \<open>others i\<close> of their descriptors for entry \<open>i\<close>.
\<close>

definition refs :: "'w fstate \<Rightarrow> nat \<Rightarrow> nat" where
  "refs st i = length (filter (\<lambda>p. p = Some i) (fd st))"

definition entry_ok :: "nat \<Rightarrow> ofte \<Rightarrow> bool" where
  "entry_ok n e \<longleftrightarrow>
     (case ovn e of
        VN_NULL \<Rightarrow> n = 0
      | BUSY_OFTE \<Rightarrow> False
      | VN _ \<Rightarrow> 0 < n \<and> ocount e = int n \<and> oflags e AND O_ACCMODE \<noteq> 3 \<and> 0 \<le> fp e)"

definition ft_inv :: "(nat \<Rightarrow> nat) \<Rightarrow> 'w fstate \<Rightarrow> bool" where
  "ft_inv others st \<longleftrightarrow> length (oft st) = MAX_OPEN_FILES \<and> length (fd st) = MAX_FD \<and>
     (\<forall>j < MAX_FD. \<forall>i. fd st ! j = Some i \<longrightarrow> i < MAX_OPEN_FILES) \<and>
     (\<forall>i < MAX_OPEN_FILES. entry_ok (others i + refs st i) (oft st ! i))"

text \<open>What \<^verbatim>\<open>vfs_open\<close> promises (\<^verbatim>\<open>vfspath.c\<close> checks the access mode first): it opens nothing with the mode 3.\<close>

definition ops_ok :: "'w fops \<Rightarrow> bool" where
  "ops_ok ops \<longleftrightarrow> (\<forall>path flags w x w'. vfs_open ops path flags w = Some (Inr x, w') \<longrightarrow> flags AND O_ACCMODE \<noteq> 3)"

lemma put_ofte_sel [simp]:
  "oft (put_ofte i e st) = (oft st)[i := e]" "fd (put_ofte i e st) = fd st" "world (put_ofte i e st) = world st"
  "fmem (put_ofte i e st) = fmem st"
  by (simp_all add: put_ofte_def)

lemma refs_cong [simp]:
  "refs (put_ofte i e st) = refs st" "refs (st\<lparr>world := w\<rparr>) = refs st" "refs (st\<lparr>fmem := m\<rparr>) = refs st"
  by (simp_all add: refs_def fun_eq_iff)

lemma ft_inv_cong [simp]:
  "ft_inv others (st\<lparr>world := w\<rparr>) = ft_inv others st" "ft_inv others (st\<lparr>fmem := m\<rparr>) = ft_inv others st"
  "ft_inv others (st\<lparr>world := w, fmem := m\<rparr>) = ft_inv others st"
  by (simp_all add: ft_inv_def refs_def)

lemma ft_invD:
  assumes "ft_inv others st"
  shows "length (oft st) = MAX_OPEN_FILES" and "length (fd st) = MAX_FD"
    and "\<And>j i. j < MAX_FD \<Longrightarrow> fd st ! j = Some i \<Longrightarrow> i < MAX_OPEN_FILES"
    and "\<And>i. i < MAX_OPEN_FILES \<Longrightarrow> entry_ok (others i + refs st i) (oft st ! i)"
  using assms unfolding ft_inv_def by blast+

text \<open>A descriptor that changes moves one reference.\<close>

lemma length_filter_update:
  "j < length xs \<Longrightarrow> length (filter P (xs[j := y])) + (if P (xs ! j) then 1 else 0) =
     length (filter P xs) + (if P y then 1 else 0)"
proof (induction xs arbitrary: j)
  case (Cons x xs)
  then show ?case by (cases j) auto
qed simp

lemma refs_update:
  "j < length (fd st) \<Longrightarrow> refs (st\<lparr>fd := (fd st)[j := p]\<rparr>) i + (if fd st ! j = Some i then 1 else 0) =
     refs st i + (if p = Some i then 1 else 0)"
  using length_filter_update [of j "fd st" "\<lambda>q. q = Some i" p] by (simp add: refs_def)

lemma check_fd_access_ok:
  assumes inv: "ft_inv others st" and run: "check_fd_access fh acc st = Some (Inr i)"
  shows "0 \<le> fh \<and> nat fh < MAX_FD \<and> fd st ! nat fh = Some i \<and> i < MAX_OPEN_FILES \<and> 0 < refs st i \<and>
     (\<exists>x. ovn (oft st ! i) = VN x)"
proof -
  from run obtain j where j: "fh = int j" "j < MAX_FD" "fd st ! j = Some i"
    using ft_invD(2) [OF inv]
    by (auto simp: check_fd_access_def Let_def rd_eq_Some split: if_splits option.splits elim!: bind_eq_SomeE)
      (metis nat_less_iff zero_le_imp_eq_int not_less nat_int)+
  have i: "i < MAX_OPEN_FILES" using ft_invD(3) [OF inv j(2,3)] .
  have "Some i \<in> set (fd st)" using j(2,3) ft_invD(2) [OF inv] by (metis nth_mem)
  then have "0 < refs st i" unfolding refs_def by (auto simp: filter_empty_conv)
  moreover then have "\<exists>x. ovn (oft st ! i) = VN x"
    using ft_invD(4) [OF inv i] by (auto simp: entry_ok_def split: of_vnode.splits)
  ultimately show ?thesis using j i by simp
qed

text \<open>Changing an entry's position keeps the invariant.\<close>

lemma ft_inv_put:
  assumes "ft_inv others st" and "entry_ok (others i + refs st i) e"
  shows "ft_inv others (put_ofte i e st)"
proof -
  have "entry_ok (others j + refs st j) ((oft st)[i := e] ! j)" if "j < MAX_OPEN_FILES" for j
    using assms that ft_invD(1,4) [OF assms(1)] by (cases "j = i") auto
  then show ?thesis using assms(1) by (simp add: ft_inv_def)
qed

lemma ft_inv_fp:
  assumes inv: "ft_inv others st" and "i < MAX_OPEN_FILES" and "0 \<le> p"
  shows "ft_inv others (put_ofte i ((oft st ! i)\<lparr>fp := p\<rparr>) st)"
  using ft_invD(4) [OF inv assms(2)] assms(3)
  by (intro ft_inv_put [OF inv]) (auto simp: entry_ok_def split: of_vnode.splits)

lemma transfer_inv:
  assumes inv: "ft_inv others st" and run: "transfer vop acc rw fh buf len st = Some (r, st')"
  shows "ft_inv others st'"
proof -
  from run obtain c where c: "check_fd_access fh acc st = Some c" by (auto simp: transfer_def elim!: bind_eq_SomeE)
  show ?thesis
  proof (cases c)
    case (Inl e)
    then show ?thesis using run c inv by (simp add: transfer_def)
  next
    case (Inr i)
    from check_fd_access_ok [OF inv c [unfolded Inr]] obtain x where
      i: "i < MAX_OPEN_FILES" "ovn (oft st ! i) = VN x" by blast
    then obtain r2 io w where v: "vop x (mk_uio st buf len (fp (oft st ! i)) rw) (world st) = Some (r2, io, w)"
      using run c Inr ft_invD(1) [OF inv] by (auto simp: transfer_def elim!: bind_eq_SomeE)
    let ?s = "st\<lparr>world := w, fmem := uio_mem io\<rparr>"
    have "ft_inv others ?s" using inv by simp
    from ft_inv_fp [OF this i(1), of "int (uio_offset io)"] this show ?thesis
      using run c Inr i v ft_invD(1) [OF inv] by (auto simp: transfer_def Let_def split: sum.splits if_splits)
  qed
qed

lemma sys_lseek_inv:
  assumes inv: "ft_inv others st" and run: "sys_lseek ops fh pos code st = Some (r, st')"
  shows "ft_inv others st'"
proof -
  from run obtain c where c: "check_fd_access fh F_ANY st = Some c" by (auto simp: sys_lseek_def elim!: bind_eq_SomeE)
  show ?thesis
  proof (cases c)
    case (Inl e)
    then show ?thesis using run c inv by (simp add: sys_lseek_def)
  next
    case (Inr i)
    from check_fd_access_ok [OF inv c [unfolded Inr]] have i: "i < MAX_OPEN_FILES" by blast
    have "ft_inv others (put_ofte i ((oft st ! i)\<lparr>fp := p\<rparr>) (st\<lparr>world := w\<rparr>))" if "0 \<le> p" for p w
      using ft_inv_fp [of others "st\<lparr>world := w\<rparr>" i p] inv i that by simp
    then show ?thesis
      using run c Inr i inv ft_invD(1) [OF inv]
      by (auto simp: sys_lseek_def Let_def split: if_splits sum.splits of_vnode.splits elim!: bind_eq_SomeE)
  qed
qed

section \<open>Opening and closing\<close>

text \<open>Opening takes the first free entry and the first free descriptor.\<close>

lemma oft_alloc_from_spec:
  assumes "i + k \<le> length (oft st)"
  shows "(\<exists>j. i \<le> j \<and> j < i + k \<and> ovn (oft st ! j) = VN_NULL \<and> (\<forall>m. i \<le> m \<and> m < j \<longrightarrow> ovn (oft st ! m) \<noteq> VN_NULL) \<and>
       oft_alloc_from i k st = Some (Some j, put_ofte j ((oft st ! j)\<lparr>ovn := BUSY_OFTE, ocount := 1\<rparr>) st)) \<or>
     (\<forall>m. i \<le> m \<and> m < i + k \<longrightarrow> ovn (oft st ! m) \<noteq> VN_NULL) \<and> oft_alloc_from i k st = Some (None, st)"
  using assms
proof (induction k arbitrary: i)
  case (Suc k)
  show ?case
  proof (cases "ovn (oft st ! i) = VN_NULL")
    case True
    then show ?thesis using Suc.prems by (intro disjI1 exI [of _ i]) auto
  next
    case False
    then have e: "oft_alloc_from i (Suc k) st = oft_alloc_from (i + 1) k st" using Suc.prems by simp
    have b: "m = i \<or> i + 1 \<le> m" if "i \<le> m" for m using that by auto
    show ?thesis using Suc.IH [of "i + 1"] Suc.prems False b unfolding e by fastforce
  qed
qed auto

lemma fd_free_from_spec:
  assumes "i + k \<le> length (fd st)"
  shows "(\<exists>j. i \<le> j \<and> j < i + k \<and> fd st ! j = None \<and> (\<forall>m. i \<le> m \<and> m < j \<longrightarrow> fd st ! m \<noteq> None) \<and>
       fd_free_from i k st = Some (Some j)) \<or>
     (\<forall>m. i \<le> m \<and> m < i + k \<longrightarrow> fd st ! m \<noteq> None) \<and> fd_free_from i k st = Some None"
  using assms
proof (induction k arbitrary: i)
  case (Suc k)
  show ?case
  proof (cases "fd st ! i = None")
    case True
    then show ?thesis using Suc.prems by (intro disjI1 exI [of _ i]) auto
  next
    case False
    then have e: "fd_free_from i (Suc k) st = fd_free_from (i + 1) k st" using Suc.prems by auto
    have b: "m = i \<or> i + 1 \<le> m" if "i \<le> m" for m using that by auto
    have ih: "(\<exists>j. i + 1 \<le> j \<and> j < i + 1 + k \<and> fd st ! j = None \<and> (\<forall>m. i + 1 \<le> m \<and> m < j \<longrightarrow> fd st ! m \<noteq> None) \<and>
        fd_free_from (i + 1) k st = Some (Some j)) \<or>
      (\<forall>m. i + 1 \<le> m \<and> m < i + 1 + k \<longrightarrow> fd st ! m \<noteq> None) \<and> fd_free_from (i + 1) k st = Some None"
      using Suc.prems by (intro Suc.IH) simp
    then show ?thesis
    proof (elim disjE exE conjE)
      fix j assume j: "i + 1 \<le> j" "j < i + 1 + k" "fd st ! j = None"
        "\<forall>m. i + 1 \<le> m \<and> m < j \<longrightarrow> fd st ! m \<noteq> None" "fd_free_from (i + 1) k st = Some (Some j)"
      have "\<forall>m. i \<le> m \<and> m < j \<longrightarrow> fd st ! m \<noteq> None" using j(4) False b by blast
      then show ?thesis using j e by (intro disjI1 exI [of _ j]) simp
    next
      assume n: "\<forall>m. i + 1 \<le> m \<and> m < i + 1 + k \<longrightarrow> fd st ! m \<noteq> None" "fd_free_from (i + 1) k st = Some None"
      have "\<forall>m. i \<le> m \<and> m < i + Suc k \<longrightarrow> fd st ! m \<noteq> None" using n(1) False b by fastforce
      then show ?thesis using n(2) e by (intro disjI2) simp
    qed
  qed
qed auto

text \<open>An entry that a free descriptor comes to stand for.\<close>

definition opened :: "nat \<Rightarrow> nat \<Rightarrow> nat \<Rightarrow> nat \<Rightarrow> 'w fstate \<Rightarrow> 'w fstate" where
  "opened d i x flags st = st\<lparr>oft := (oft st)[i := (oft st ! i)\<lparr>ocount := 1, ovn := VN x, fp := 0, oflags := flags\<rparr>],
     fd := (fd st)[d := Some i]\<rparr>"

lemma opened_inv:
  assumes inv: "ft_inv others st" and d: "d < MAX_FD" "fd st ! d = None" and i: "i < MAX_OPEN_FILES" "ovn (oft st ! i) = VN_NULL"
    and fl: "flags AND O_ACCMODE \<noteq> 3"
  shows "ft_inv others (opened d i x flags st)"
proof -
  note I = ft_invD [OF inv]
  have free: "others i + refs st i = 0" using I(4) [OF i(1)] i(2) by (simp add: entry_ok_def)
  have r: "refs (opened d i x flags st) j = refs st j + (if j = i then 1 else 0)" for j
    using refs_update [of d st "Some i" j] d I(2) by (simp add: opened_def refs_def)
  have "entry_ok (others j + refs (opened d i x flags st) j) (oft (opened d i x flags st) ! j)" if j: "j < MAX_OPEN_FILES" for j
  proof (cases "j = i")
    case True
    then show ?thesis using free r [of i] fl i(1) I(1) by (simp add: opened_def entry_ok_def)
  next
    case False
    then show ?thesis using I(4) [OF j] r [of j] by (simp add: opened_def)
  qed
  moreover have "k < MAX_OPEN_FILES" if "j < MAX_FD" "fd (opened d i x flags st) ! j = Some k" for j k
    using that I(2,3) i(1) d(1) by (cases "j = d") (auto simp: opened_def)
  ultimately show ?thesis using I(1,2) by (simp add: ft_inv_def opened_def)
qed

text \<open>
  Every outcome of the shared part, for a free descriptor. A failure leaves the entries in use and the
  descriptors alone.
\<close>

lemma open_entry_spec:
  assumes inv: "ft_inv others st" and d: "d < MAX_FD" "fd st ! d = None"
    and vo: "vfs_open ops path flags (world st) = Some (r, w)"
  shows "if \<forall>i < MAX_OPEN_FILES. ovn (oft st ! i) \<noteq> VN_NULL
     then open_entry ops (Some path) flags d st = Some (Inl ENFILE, st)
     else \<exists>i < MAX_OPEN_FILES. ovn (oft st ! i) = VN_NULL \<and> (\<forall>m < i. ovn (oft st ! m) \<noteq> VN_NULL) \<and>
       (case r of
          Inl e \<Rightarrow> open_entry ops (Some path) flags d st =
            Some (Inl e, put_ofte i ((oft st ! i)\<lparr>ocount := 0\<rparr>) (st\<lparr>world := w\<rparr>))
        | Inr x \<Rightarrow> open_entry ops (Some path) flags d st = Some (Inr d, opened d i x flags (st\<lparr>world := w\<rparr>)))"
proof -
  note I = ft_invD [OF inv]
  have fdd: "(fd st)[d := None] = fd st" using d I(2) by (metis list_update_id)
  have ext: "st\<lparr>fd := fd st\<rparr> = st" by simp
  from oft_alloc_from_spec [of 0 MAX_OPEN_FILES st] I(1) consider
    (free) i where "i < MAX_OPEN_FILES" "ovn (oft st ! i) = VN_NULL" "\<forall>m < i. ovn (oft st ! m) \<noteq> VN_NULL"
      "oft_alloc st = Some (Some i, put_ofte i ((oft st ! i)\<lparr>ovn := BUSY_OFTE, ocount := 1\<rparr>) st)"
    | (full) "\<forall>i < MAX_OPEN_FILES. ovn (oft st ! i) \<noteq> VN_NULL" "oft_alloc st = Some (None, st)"
    unfolding oft_alloc_def by auto
  then show ?thesis
  proof cases
    case full
    then show ?thesis using fdd by (simp add: open_entry_def)
  next
    case (free i)
    have eq: "(oft st ! i)\<lparr>ocount := 0, ovn := VN_NULL\<rparr> = (oft st ! i)\<lparr>ocount := 0\<rparr>"
      using free(2) by (cases "oft st ! i") simp
    show ?thesis
    proof (cases r)
      case (Inl e)
      have "open_entry ops (Some path) flags d st =
          Some (Inl e, put_ofte i ((oft st ! i)\<lparr>ocount := 0\<rparr>) (st\<lparr>world := w\<rparr>))"
        using free Inl vo fdd I(1) by (simp add: open_entry_def oft_free_def put_ofte_def Let_def eq)
      then show ?thesis using free Inl by auto
    next
      case (Inr x)
      have "open_entry ops (Some path) flags d st = Some (Inr d, opened d i x flags (st\<lparr>world := w\<rparr>))"
        using free Inr vo I(1) by (simp add: open_entry_def put_ofte_def opened_def Let_def)
      then show ?thesis using free Inr by auto
    qed
  qed
qed

lemma open_entry_inv:
  assumes inv: "ft_inv others st" and ok: "ops_ok ops" and d: "d < MAX_FD" "fd st ! d = None"
    and run: "open_entry ops (Some path) flags d st = Some (r, st')"
  shows "ft_inv others st'"
proof -
  note I = ft_invD [OF inv]
  show ?thesis
  proof (cases "vfs_open ops path flags (world st)")
    case None
    have "oft_alloc st = Some (None, st)"
      using oft_alloc_from_spec [of 0 MAX_OPEN_FILES st] I(1) run None
      by (auto simp: open_entry_def oft_alloc_def put_ofte_def)
    then have "st' = st\<lparr>fd := (fd st)[d := None]\<rparr>" using run by (simp add: open_entry_def)
    moreover have "(fd st)[d := None] = fd st" using d I(2) by (metis list_update_id)
    ultimately show ?thesis using inv by simp
  next
    case (Some rw)
    then obtain vr w where vo: "vfs_open ops path flags (world st) = Some (vr, w)" by (cases rw) auto
    have iw: "ft_inv others (st\<lparr>world := w\<rparr>)" using inv by simp
    have free: "ft_inv others (put_ofte i ((oft st ! i)\<lparr>ocount := 0\<rparr>) (st\<lparr>world := w\<rparr>))"
      if "i < MAX_OPEN_FILES" "ovn (oft st ! i) = VN_NULL" for i
      using I(4) [OF that(1)] that(2) by (intro ft_inv_put [OF iw]) (simp add: entry_ok_def)
    have new: "ft_inv others (opened d i x flags (st\<lparr>world := w\<rparr>))"
      if "i < MAX_OPEN_FILES" "ovn (oft st ! i) = VN_NULL" "vr = Inr x" for i x
    proof (rule opened_inv [OF iw])
      show "flags AND O_ACCMODE \<noteq> 3" using ok vo that(3) unfolding ops_ok_def by blast
    qed (use d that in auto)
    show ?thesis
      using open_entry_spec [OF inv d vo] run free new inv by (cases vr) (auto split: if_splits)
  qed
qed

text \<open>The entry after one descriptor for it is gone.\<close>

definition released :: "nat \<Rightarrow> nat \<Rightarrow> 'w fstate \<Rightarrow> 'w fstate" where
  "released d i st = st\<lparr>oft := (oft st)[i := (let e = oft st ! i; c = ocount e - 1
       in if c = 0 then e\<lparr>ocount := c, ovn := VN_NULL\<rparr> else e\<lparr>ocount := c\<rparr>)], fd := (fd st)[d := None]\<rparr>"

lemma released_inv:
  assumes inv: "ft_inv others st" and d: "d < MAX_FD" "fd st ! d = Some i"
  shows "ft_inv others (released d i st)"
proof -
  note I = ft_invD [OF inv]
  have i: "i < MAX_OPEN_FILES" using I(3) [OF d] .
  have r: "refs (released d i st) j + (if j = i then 1 else 0) = refs st j" for j
    using refs_update [of d st None j] d I(2) by (auto simp: released_def refs_def)
  have "Some i \<in> set (fd st)" using d I(2) by (metis nth_mem)
  then have pos: "0 < refs st i" unfolding refs_def by (auto simp: filter_empty_conv)
  have ei: "entry_ok (others i + refs st i) (oft st ! i)" using I(4) [OF i] .
  have "entry_ok (others j + refs (released d i st) j) (oft (released d i st) ! j)" if j: "j < MAX_OPEN_FILES" for j
  proof (cases "j = i")
    case True
    then show ?thesis using ei pos r [of i] i I(1)
      by (auto simp: released_def entry_ok_def Let_def split: of_vnode.splits)
  next
    case False
    then show ?thesis using I(4) [OF j] r [of j] by (simp add: released_def)
  qed
  moreover have "k < MAX_OPEN_FILES" if "j < MAX_FD" "fd (released d i st) ! j = Some k" for j k
    using that I(2,3) d(1) by (cases "j = d") (auto simp: released_def)
  ultimately show ?thesis using I(1,2) by (simp add: ft_inv_def released_def)
qed

lemma sys_close_inv:
  assumes inv: "ft_inv others st" and run: "sys_close ops fh st = Some (r, st')"
  shows "ft_inv others st'"
proof -
  from run obtain c where c: "check_fd_access fh F_ANY st = Some c" by (auto simp: sys_close_def elim!: bind_eq_SomeE)
  show ?thesis
  proof (cases c)
    case (Inl e)
    then show ?thesis using run c inv by (simp add: sys_close_def)
  next
    case (Inr i)
    from check_fd_access_ok [OF inv c [unfolded Inr]] obtain x where
      i: "nat fh < MAX_FD" "fd st ! nat fh = Some i" "i < MAX_OPEN_FILES" "ovn (oft st ! i) = VN x" by blast
    have "st' = (released (nat fh) i st)\<lparr>world := world st'\<rparr>"
      using run c Inr i ft_invD(1) [OF inv]
      by (auto simp: sys_close_def oft_free_def released_def put_ofte_def Let_def split: if_splits elim!: bind_eq_SomeE)
    then show ?thesis using released_inv [OF inv i(1,2)] by (metis ft_inv_cong(1))
  qed
qed

lemma sys_open_inv:
  assumes inv: "ft_inv others st" and ok: "ops_ok ops" and run: "sys_open ops filename flags st = Some (r, st')"
  shows "ft_inv others st'"
proof -
  obtain c m where cp: "copyinstr (fmem st) filename (fmem st) pathname PATH_MAX = (c, m)" by fastforce
  let ?s = "st\<lparr>fmem := m\<rparr>"
  have si: "ft_inv others ?s" using inv by simp
  show ?thesis
  proof (cases c)
    case (Inl e)
    then show ?thesis using run cp si by (simp add: sys_open_def)
  next
    case (Inr len)
    from fd_free_from_spec [of 0 MAX_FD ?s] ft_invD(2) [OF si] consider
      (free) d where "d < MAX_FD" "fd ?s ! d = None" "fd_free_from 0 MAX_FD ?s = Some (Some d)"
      | (full) "fd_free_from 0 MAX_FD ?s = Some None" by auto
    then show ?thesis
    proof cases
      case free
      then show ?thesis using run cp Inr open_entry_inv [OF si ok free(1,2)] by (simp add: sys_open_def Let_def)
    next
      case full
      then show ?thesis using run cp Inr si by (simp add: sys_open_def Let_def)
    qed
  qed
qed

lemma oft_alloc_world: "oft_alloc st = Some (r, st') \<Longrightarrow> world st' = world st"
proof -
  have "oft_alloc_from i k st = Some (r, st') \<Longrightarrow> world st' = world st" for i k
    by (induction i k st rule: oft_alloc_from.induct) (auto split: if_splits elim!: bind_eq_SomeE)
  then show "oft_alloc st = Some (r, st') \<Longrightarrow> world st' = world st" by (auto simp: oft_alloc_def)
qed

text \<open>A successful open, and the access modes it leaves.\<close>

lemma sys_open_succeeds:
  assumes inv: "ft_inv others st" and ok: "ops_ok ops" and run: "sys_open ops filename flags st = Some (Inr d, st1)"
  shows "\<exists>i x m w. d < MAX_FD \<and> fd st ! d = None \<and> i < MAX_OPEN_FILES \<and> ovn (oft st ! i) = VN_NULL \<and>
     flags AND O_ACCMODE \<noteq> 3 \<and> st1 = opened d i x flags (st\<lparr>fmem := m, world := w\<rparr>)"
proof -
  obtain c m where cp: "copyinstr (fmem st) filename (fmem st) pathname PATH_MAX = (c, m)" by fastforce
  then obtain len where "c = Inr len" using run by (cases c) (auto simp: sys_open_def)
  let ?s = "st\<lparr>fmem := m\<rparr>" and ?p = "c_str m pathname PATH_MAX"
  have si: "ft_inv others ?s" using inv by simp
  from fd_free_from_spec [of 0 MAX_FD ?s] ft_invD(2) [OF si] obtain k where
    k: "k < MAX_FD" "fd st ! k = None" "sys_open ops filename flags st = open_entry ops (Some ?p) flags k ?s"
    using run cp \<open>c = Inr len\<close> by (auto simp: sys_open_def Let_def)
  show ?thesis
  proof (cases "vfs_open ops ?p flags (world st)")
    case None
    then show ?thesis using run unfolding k(3) by (auto simp: open_entry_def oft_alloc_world split: option.splits elim!: bind_eq_SomeE)
  next
    case (Some rw)
    then obtain vr w where vo: "vfs_open ops ?p flags (world ?s) = Some (vr, w)" by (cases rw) auto
    have kk: "fd ?s ! k = None" using k(2) by simp
    from open_entry_spec [OF si k(1) kk vo] run[unfolded k(3)] obtain i x where
      i: "i < MAX_OPEN_FILES" "ovn (oft st ! i) = VN_NULL" "vr = Inr x" "d = k" "st1 = opened d i x flags (?s\<lparr>world := w\<rparr>)"
      by (cases vr) (auto split: if_splits)
    moreover have "flags AND O_ACCMODE \<noteq> 3" using ok vo i(3) unfolding ops_ok_def by blast
    ultimately show ?thesis using k by (intro exI) auto
  qed
qed

lemma fl_cases: "(n :: nat) AND O_ACCMODE \<noteq> 3 \<Longrightarrow> n AND O_ACCMODE \<in> {0, 1, 2}"
proof -
  have "n AND O_ACCMODE = n mod 4" using take_bit_eq_mask [of 2 n] by (simp add: O_ACCMODE_def take_bit_eq_mod mask_eq_exp_minus_1)
  moreover have "n mod 4 < 4" by simp
  ultimately show "n AND O_ACCMODE \<noteq> 3 \<Longrightarrow> n AND O_ACCMODE \<in> {0, 1, 2}" by simp linarith
qed

lemma syscall_switch_inv:
  assumes inv: "ft_inv others st" and ok: "ops_ok ops" and run: "syscall_switch ops err0 tf st = Some (er, st')"
  shows "ft_inv others st'"
proof -
  have ch: "tf_v0 tf \<in> {8, 4, 5, 6, 7, 13, 16, 9} \<or> st' = st"
    using run by (auto simp: syscall_switch_def Let_def split: if_splits)
  have out: "\<exists>r. m = Some (r, st')" if "outcome f m = Some (er, st')" for f and m :: "('c res \<times> 'a fstate) option"
    using that by (auto simp: outcome_def elim!: bind_eq_SomeE)
  show ?thesis
    using ch
  proof (elim disjE insertE)
    assume "tf_v0 tf = 4"
    then show ?thesis using run out sys_open_inv [OF inv ok] by (fastforce simp: syscall_switch_def Let_def)
  next
    assume "tf_v0 tf = 5"
    then show ?thesis using run out transfer_inv [OF inv] by (fastforce simp: syscall_switch_def sys_read_def Let_def)
  next
    assume "tf_v0 tf = 6"
    then show ?thesis using run out transfer_inv [OF inv] by (fastforce simp: syscall_switch_def sys_write_def Let_def)
  next
    assume "tf_v0 tf = 7"
    then show ?thesis using run out sys_close_inv [OF inv] by (fastforce simp: syscall_switch_def Let_def)
  next
    assume "tf_v0 tf = 13"
    then show ?thesis using run out sys_lseek_inv [OF inv] by (fastforce simp: syscall_switch_def Let_def)
  next
    assume "tf_v0 tf = 16"
    then obtain r where "sys_fstat ops (sreg (tf_a0 tf)) (tf_a1 tf) st = Some (r, st')"
      using run out by (fastforce simp: syscall_switch_def Let_def)
    then show ?thesis using inv
      by (auto simp: sys_fstat_def Let_def split: if_splits of_vnode.splits sum.splits prod.splits elim!: bind_eq_SomeE)
  qed (use run inv in \<open>auto simp: syscall_switch_def sys_sync_def Let_def split: if_splits elim!: bind_eq_SomeE\<close>)
qed

section \<open>Properties\<close>

text \<open>
  C7: every system call keeps the file tables well formed: descriptors stand for entries of the table, an
  entry is free exactly when no descriptor of any thread stands for it, its count is the number of those
  that do, its access mode is one \<^verbatim>\<open>check_fd_access\<close> knows, and no entry is left marked busy. The handler
  advances the program counter past the instruction whatever the outcome.
\<close>

theorem mips_syscall_keeps_tables:
  assumes "ops_ok ops" and "ft_inv others st" and "mips_syscall ops err0 tf st = Some (tf', st')"
  shows "ft_inv others st' \<and> tf_epc tf' = size32 (tf_epc tf + 4) \<and> tf_a3 tf' \<in> {0, 1}"
proof -
  from assms(3) obtain e rv where s: "syscall_switch ops err0 tf st = Some ((e, rv), st')"
    by (auto simp: mips_syscall_def Let_def elim!: bind_eq_SomeE)
  then have "tf_epc tf' = size32 (tf_epc tf + 4)" "tf_a3 tf' \<in> {0, 1}"
    using assms(3) by (auto simp: mips_syscall_def Let_def split: if_splits)
  with syscall_switch_inv [OF assms(2,1) s] show ?thesis by simp
qed

text \<open>
  C30: what \<^verbatim>\<open>sys_open\<close> does with a path it could read: \<^verbatim>\<open>EMFILE\<close> exactly when the thread has no free
  descriptor, \<^verbatim>\<open>ENFILE\<close> when there is no free table entry, the vnode layer's error when it has one, each
  time with the descriptors and the entries in use as they were; otherwise the lowest free descriptor, for
  the lowest free entry, which holds the vnode at position 0 with one reference.
\<close>

theorem sys_open_outcomes:
  assumes "ft_inv others st" and "copyinstr (fmem st) filename (fmem st) pathname PATH_MAX = (Inr len, m)"
    and "vfs_open ops (c_str m pathname PATH_MAX) flags (world st) = Some (r, w)"
  shows "\<exists>res st'. sys_open ops filename flags st = Some (res, st') \<and>
     (if \<forall>d < MAX_FD. fd st ! d \<noteq> None then res = Inl EMFILE \<and> st' = st\<lparr>fmem := m\<rparr>
      else if \<forall>i < MAX_OPEN_FILES. ovn (oft st ! i) \<noteq> VN_NULL then res = Inl ENFILE \<and> st' = st\<lparr>fmem := m\<rparr>
      else (case r of
        Inl e \<Rightarrow> res = Inl e \<and> fd st' = fd st \<and> map ovn (oft st') = map ovn (oft st) \<and>
          (\<forall>i. ovn (oft st ! i) \<noteq> VN_NULL \<longrightarrow> oft st' ! i = oft st ! i)
      | Inr x \<Rightarrow> \<exists>d i. res = Inr d \<and> d < MAX_FD \<and> fd st ! d = None \<and> (\<forall>k < d. fd st ! k \<noteq> None) \<and>
          i < MAX_OPEN_FILES \<and> ovn (oft st ! i) = VN_NULL \<and> (\<forall>k < i. ovn (oft st ! k) \<noteq> VN_NULL) \<and>
          st' = opened d i x flags (st\<lparr>fmem := m, world := w\<rparr>)))"
proof -
  let ?s = "st\<lparr>fmem := m\<rparr>"
  have si: "ft_inv others ?s" using assms(1) by simp
  note I = ft_invD [OF assms(1)]
  from fd_free_from_spec [of 0 MAX_FD ?s] I(2) consider
    (free) d where "d < MAX_FD" "fd st ! d = None" "\<forall>k < d. fd st ! k \<noteq> None" "fd_free_from 0 MAX_FD ?s = Some (Some d)"
    | (full) "\<forall>d < MAX_FD. fd st ! d \<noteq> None" "fd_free_from 0 MAX_FD ?s = Some None" by auto
  then show ?thesis
  proof cases
    case full
    then have "sys_open ops filename flags st = Some (Inl EMFILE, ?s)" using assms(2) by (simp add: sys_open_def)
    then show ?thesis using full(1) by auto
  next
    case free
    have nf: "\<not> (\<forall>d < MAX_FD. fd st ! d \<noteq> None)" using free(1,2) by blast
    have so: "sys_open ops filename flags st = open_entry ops (Some (c_str m pathname PATH_MAX)) flags d ?s"
      using assms(2) free(4) by (simp add: sys_open_def Let_def)
    have "vfs_open ops (c_str m pathname PATH_MAX) flags (world ?s) = Some (r, w)" using assms(3) by simp
    note sp = open_entry_spec [OF si _ _ this, of d]
    show ?thesis
    proof (cases "\<forall>i < MAX_OPEN_FILES. ovn (oft st ! i) \<noteq> VN_NULL")
      case True
      then show ?thesis using sp free(1,2) nf so by auto
    next
      case False
      with sp free(1,2) obtain i where i: "i < MAX_OPEN_FILES" "ovn (oft st ! i) = VN_NULL" "\<forall>k < i. ovn (oft st ! k) \<noteq> VN_NULL"
        "case r of Inl e \<Rightarrow> sys_open ops filename flags st =
            Some (Inl e, put_ofte i ((oft st ! i)\<lparr>ocount := 0\<rparr>) (?s\<lparr>world := w\<rparr>))
        | Inr x \<Rightarrow> sys_open ops filename flags st = Some (Inr d, opened d i x flags (?s\<lparr>world := w\<rparr>))"
        unfolding so by (cases r) auto
      show ?thesis
      proof (cases r)
        case (Inl e)
        have "map ovn ((oft st)[i := (oft st ! i)\<lparr>ocount := 0\<rparr>]) = map ovn (oft st)"
          by (simp add: map_update list_update_same_conv)
            (metis i(1) I(1) length_map list_update_id nth_map)
        moreover have "(oft st)[i := (oft st ! i)\<lparr>ocount := 0\<rparr>] ! j = oft st ! j" if "ovn (oft st ! j) \<noteq> VN_NULL" for j
          using that i(2) by (cases "i = j") auto
        ultimately show ?thesis using i Inl nf False by auto
      next
        case (Inr x)
        then show ?thesis using i nf False free by auto
      qed
    qed
  qed
qed

text \<open>
  A concrete layer: one vnode, 5, which every path leads to and which holds nothing; and the tables of a
  thread that has opened nothing, in a memory of zeroes.
\<close>

definition demo_fops :: "nat fops" where
  "demo_fops = \<lparr>vfs_open = \<lambda>path flags w. Some (if flags AND O_ACCMODE = 3 then Inl EINVAL else Inr 5, w + 1),
     vfs_close = \<lambda>x w. Some (w - 1),
     VOP_READ = \<lambda>x u w. Some (Inr (), u, w), VOP_WRITE = \<lambda>x u w. Some (Inl ENOSPC, u, w),
     VOP_STAT = \<lambda>x w. Some (Inr \<lparr>st_mode = 4096, st_nlink = 1, st_size = 0, st_blocks = 0\<rparr>, w),
     VOP_TRYSEEK = \<lambda>x p w. Some (Inl ESPIPE, w), vfs_sync = Some\<rparr>"

definition demo_fstate :: "nat fstate" where
  "demo_fstate = \<lparr>oft = replicate MAX_OPEN_FILES \<lparr>fp = 0, oflags = 0, ocount = 0, ovn = VN_NULL\<rparr>,
     fd = replicate MAX_FD None, vmspace = Some 1, fmem = (\<lambda>_. Some 0), world = 0\<rparr>"

lemma demo_ops_ok: "ops_ok demo_fops"
  by (auto simp: ops_ok_def demo_fops_def)

lemma demo_ft_inv: "ft_inv (\<lambda>_. 0) demo_fstate"
  by (simp add: ft_inv_def demo_fstate_def refs_def entry_ok_def)

lemma limits_Suc: "MAX_FD = Suc 15" "MAX_OPEN_FILES = Suc 63" "PATH_MAX = Suc 1023"
  by (simp_all add: MAX_FD_def MAX_OPEN_FILES_def PATH_MAX_def)

lemma demo_copyinstr: "copyinstr (fmem demo_fstate) 4096 (fmem demo_fstate) pathname PATH_MAX = (Inr 1, fmem demo_fstate)"
proof -
  have "copycheck 4096 PATH_MAX = Inr PATH_MAX" by (simp add: copycheck_full PATH_MAX_def USERTOP_def)
  moreover have "copystr_from (fmem demo_fstate) pathname (fmem demo_fstate) 4096 PATH_MAX PATH_MAX 0 (Suc 1023) = (Inr 1, fmem demo_fstate)"
    by (simp only: copystr_from.simps) (simp add: demo_fstate_def fun_upd_idem)
  ultimately show ?thesis by (simp add: copyinstr_def copystr_def limits_Suc(3))
qed

lemma demo_open:
  "sys_open demo_fops 4096 O_RDWR demo_fstate = Some (Inr 0, opened 0 0 5 O_RDWR (demo_fstate\<lparr>world := 1\<rparr>))"
proof -
  have "demo_fstate\<lparr>fmem := fmem demo_fstate\<rparr> = demo_fstate" by simp
  moreover have "fd_free_from 0 MAX_FD demo_fstate = Some (Some 0)"
    by (simp only: limits_Suc fd_free_from.simps) (simp add: demo_fstate_def limits_Suc)
  moreover have "oft_alloc demo_fstate =
      Some (Some 0, put_ofte 0 ((oft demo_fstate ! 0)\<lparr>ovn := BUSY_OFTE, ocount := 1\<rparr>) demo_fstate)"
    by (simp only: oft_alloc_def limits_Suc oft_alloc_from.simps) (simp add: demo_fstate_def limits_Suc)
  moreover have "length (oft demo_fstate) = Suc 63" "oft demo_fstate ! 0 = \<lparr>fp = 0, oflags = 0, ocount = 0, ovn = VN_NULL\<rparr>"
    "world demo_fstate = 0"
    by (simp_all add: demo_fstate_def limits_Suc)
  moreover have "vfs_open demo_fops p O_RDWR w = Some (Inr 5, w + 1)" for p w
    by (simp add: demo_fops_def O_RDWR_def O_ACCMODE_def)
  ultimately show ?thesis
    by (simp add: sys_open_def demo_copyinstr open_entry_def put_ofte_def opened_def Let_def)
qed

lemma mips_syscall_keeps_tables_witness:
  "\<exists>tf' st'. mips_syscall demo_fops 0 \<lparr>tf_v0 = 4, tf_a0 = 4096, tf_a1 = 2, tf_a2 = 0, tf_a3 = 0, tf_epc = 0\<rparr> demo_fstate = Some (tf', st') \<and>
     ft_inv (\<lambda>_. 0) st' \<and> tf_epc tf' = 4"
proof -
  let ?tf = "\<lparr>tf_v0 = 4, tf_a0 = 4096, tf_a1 = 2, tf_a2 = 0, tf_a3 = 0, tf_epc = 0\<rparr>"
  have run: "mips_syscall demo_fops 0 ?tf demo_fstate =
      Some (?tf\<lparr>tf_v0 := 0, tf_epc := 4\<rparr>, opened 0 0 5 O_RDWR (demo_fstate\<lparr>world := 1\<rparr>))"
    using demo_open by (simp add: mips_syscall_def syscall_switch_def outcome_def O_RDWR_def reg_def size32_def)
  from mips_syscall_keeps_tables [OF demo_ops_ok demo_ft_inv run] run show ?thesis by simp
qed

lemma sys_open_outcomes_witness:
  "\<exists>st'. sys_open demo_fops 4096 O_RDWR demo_fstate = Some (Inr 0, st') \<and>
     st' = opened 0 0 5 O_RDWR (demo_fstate\<lparr>fmem := fmem demo_fstate, world := 1\<rparr>)"
  using sys_open_outcomes [OF demo_ft_inv demo_copyinstr, of demo_fops O_RDWR "Inr 5" 1] demo_open
  by (simp add: demo_fops_def O_RDWR_def O_ACCMODE_def demo_fstate_def)

text \<open>
  C31: closing a descriptor that was just opened puts the tables back: the descriptors are those from before,
  every entry that was in use is as it was, and the free entries are free again. The last reference is
  handed to \<^verbatim>\<open>vfs_close\<close> exactly once.
\<close>

theorem open_close_roundtrip:
  assumes "ft_inv others st" and "ops_ok ops" and "sys_open ops filename flags st = Some (Inr d, st1)"
  shows "\<exists>i x. fd st1 ! d = Some i \<and> ovn (oft st1 ! i) = VN x \<and>
     sys_close ops (int d) st1 = do {
       w \<leftarrow> vfs_close ops x (world st1);
       Some (Inr (), st1\<lparr>oft := (oft st1)[i := (oft st1 ! i)\<lparr>ocount := 0, ovn := VN_NULL\<rparr>], world := w, fd := fd st\<rparr>)
     } \<and>
     map ovn ((oft st1)[i := (oft st1 ! i)\<lparr>ocount := 0, ovn := VN_NULL\<rparr>]) = map ovn (oft st) \<and>
     (\<forall>j. ovn (oft st ! j) \<noteq> VN_NULL \<longrightarrow> j \<noteq> i \<and> oft st1 ! j = oft st ! j)"
proof -
  from sys_open_succeeds [OF assms] obtain i x m w where
    d: "d < MAX_FD" "fd st ! d = None" and i: "i < MAX_OPEN_FILES" "ovn (oft st ! i) = VN_NULL"
    and fl: "flags AND O_ACCMODE \<noteq> 3" and st1: "st1 = opened d i x flags (st\<lparr>fmem := m, world := w\<rparr>)" by blast
  note I = ft_invD [OF assms(1)]
  have e: "oft st1 ! i = (oft st ! i)\<lparr>ocount := 1, ovn := VN x, fp := 0, oflags := flags\<rparr>" "fd st1 ! d = Some i"
    "length (oft st1) = MAX_OPEN_FILES" "length (fd st1) = MAX_FD" "(fd st1)[d := None] = fd st"
    using i d I(1,2) by (auto simp: st1 opened_def list_update_same_conv)
  have ca: "check_fd_access (int d) F_ANY st1 = Some (Inr i)"
    using fl_cases [OF fl] d i e by (auto simp: check_fd_access_def Let_def O_WRONLY_def O_RDWR_def)
  have cl: "sys_close ops (int d) st1 = do {
       w \<leftarrow> vfs_close ops x (world st1);
       Some (Inr (), st1\<lparr>oft := (oft st1)[i := (oft st1 ! i)\<lparr>ocount := 0, ovn := VN_NULL\<rparr>], world := w, fd := fd st\<rparr>)
     }"
    using ca e i by (simp add: sys_close_def oft_free_def put_ofte_def)
  have "map ovn ((oft st1)[i := (oft st1 ! i)\<lparr>ocount := 0, ovn := VN_NULL\<rparr>]) = map ovn (oft st)"
    using i I(1) by (intro nth_equalityI) (auto simp: st1 opened_def nth_list_update)
  moreover have "j \<noteq> i \<and> oft st1 ! j = oft st ! j" if "ovn (oft st ! j) \<noteq> VN_NULL" for j
    using that i by (cases "j = i") (auto simp: st1 opened_def)
  ultimately show ?thesis using e cl by (intro exI [of _ i] exI [of _ x]) auto
qed

lemma open_close_roundtrip_witness:
  "\<exists>st1 i. sys_open demo_fops 4096 O_RDWR demo_fstate = Some (Inr 0, st1) \<and> fd st1 ! 0 = Some i"
  using open_close_roundtrip [OF demo_ft_inv demo_ops_ok demo_open] demo_open by blast



lemma fops_tryseek:
  "VOP_TRYSEEK (ops\<lparr>VOP_TRYSEEK := f\<rparr>) = f" "VOP_STAT (ops\<lparr>VOP_TRYSEEK := f\<rparr>) = VOP_STAT ops"
  by simp_all

text \<open>
  \<^verbatim>\<open>sys_lseek\<close> never learns that an object cannot seek: whatever error \<^verbatim>\<open>VOP_TRYSEEK\<close> gives (\<^verbatim>\<open>ESPIPE\<close> for a
  device such as the console), the call does exactly what it does when the object agrees, because the
  test is \<open>r < 0\<close> and error codes are positive.
\<close>

theorem sys_lseek_ignores_tryseek:
  "sys_lseek (ops\<lparr>VOP_TRYSEEK := \<lambda>x p w. Some (Inl e, w)\<rparr>) fh pos code st =
   sys_lseek (ops\<lparr>VOP_TRYSEEK := \<lambda>x p w. Some (Inr (), w)\<rparr>) fh pos code st \<and> 0 < errno_code e"
proof -
  have "0 < errno_code e" by (cases e) (simp_all add: errno_code_def)
  then show ?thesis
    unfolding sys_lseek_def fops_tryseek Option.bind_lunit prod.case by simp
qed

text \<open>
  Where \<^verbatim>\<open>sys_lseek\<close> goes: to the position, or the position relative to the current one or to the end, as
  a signed 32-bit value; \<^verbatim>\<open>EINVAL\<close> if that is negative or the code is none of the three; nothing else
  changes, and a failure changes nothing at all.
\<close>

theorem sys_lseek_position:
  assumes "ft_inv others st" and "check_fd_access fh F_ANY st = Some (Inr i)"
    and "ovn (oft st ! i) = VN x" and "VOP_STAT ops x (world st) = Some (Inr s, world st)"
    and "\<And>p. VOP_TRYSEEK ops x p (world st) = Some (Inr (), world st)"
  shows "sys_lseek ops fh pos code st =
    (let target = (if code = 0 then Some pos else if code = 1 then Some (int32 (fp (oft st ! i) + pos))
                   else if code = 2 then Some (int32 (int (st_size s) + pos)) else None)
     in case target of
          None \<Rightarrow> Some (Inl EINVAL, st)
        | Some p \<Rightarrow> if p < 0 then Some (Inl EINVAL, st)
            else Some (Inr p, st\<lparr>oft := (oft st)[i := (oft st ! i)\<lparr>fp := p\<rparr>]\<rparr>))"
proof -
  have i: "i < length (oft st)" using check_fd_access_ok [OF assms(1,2)] ft_invD(1) [OF assms(1)] by simp
  have w: "st\<lparr>world := world st\<rparr> = st" by simp
  show ?thesis
    using assms(2-5) i by (simp add: sys_lseek_def SEEK_SET_def SEEK_CUR_def SEEK_END_def put_ofte_def Let_def w)
qed

lemma demo_access:
  "check_fd_access 0 F_ANY (opened 0 0 5 O_RDWR (demo_fstate\<lparr>world := 1\<rparr>)) = Some (Inr 0)"
  by (simp add: check_fd_access_def opened_def demo_fstate_def rd_def limits_Suc(1,2) O_RDWR_def O_ACCMODE_def O_WRONLY_def)

definition demo_seekable :: "nat fops" where
  "demo_seekable = demo_fops\<lparr>VOP_TRYSEEK := \<lambda>x p w. Some (Inr (), w)\<rparr>"

lemma sys_lseek_position_witness:
  "\<exists>st'. sys_lseek demo_seekable 0 7 1 (opened 0 0 5 O_RDWR (demo_fstate\<lparr>world := 1\<rparr>)) = Some (Inr 7, st')"
proof -
  let ?s = "opened 0 0 5 O_RDWR (demo_fstate\<lparr>world := 1\<rparr>)"
  have inv: "ft_inv (\<lambda>_. 0) ?s"
  proof (rule opened_inv)
    show "ft_inv (\<lambda>_. 0) (demo_fstate\<lparr>world := 1\<rparr>)" using demo_ft_inv by (simp only: ft_inv_cong)
  qed (simp_all add: demo_fstate_def limits_Suc(1,2) O_RDWR_def O_ACCMODE_def)
  have e: "oft ?s ! 0 = \<lparr>fp = 0, oflags = O_RDWR, ocount = 1, ovn = VN 5\<rparr>"
    by (simp add: opened_def demo_fstate_def limits_Suc(2))
  have "sys_lseek demo_seekable 0 7 1 ?s = Some (Inr 7, ?s\<lparr>oft := (oft ?s)[0 := (oft ?s ! 0)\<lparr>fp := 7\<rparr>]\<rparr>)"
    by (subst sys_lseek_position [OF inv demo_access, of 5 demo_seekable "\<lparr>st_mode = 4096, st_nlink = 1, st_size = 0, st_blocks = 0\<rparr>"])
      (simp_all add: e demo_seekable_def demo_fops_def int32_def del: One_nat_def)
  then show ?thesis by blast
qed

end
