(* ===== verification/File_on_sfs.thy ===== *)
theory File_on_sfs
  imports File_table Sfs_trunc
begin

unbundle bit_operations_syntax

text \<open>
  The system calls on files of assignment 3 on top of the simple file system: the vnode operations that
  \<^verbatim>\<open>file.c\<close> calls are those of \<^verbatim>\<open>sfs_vnode.c\<close>, on one open file of a volume. How a path becomes a vnode
  (\<^verbatim>\<open>vfs_open\<close> and \<^verbatim>\<open>vfs_close\<close>) is left to the layer \<open>base\<close>.
\<close>

definition sfs_layer :: "(sfs_vnode \<times> sfs_fs) fops \<Rightarrow> (sfs_vnode \<times> sfs_fs) fops" where
  "sfs_layer base = base\<lparr>
     VOP_READ := \<lambda>_ u (sv, fs). do { (r, (sv', u', fs')) \<leftarrow> sfs_read (sv, u, fs); Some (r, u', (sv', fs')) },
     VOP_WRITE := \<lambda>_ u (sv, fs). do { (r, (sv', u', fs')) \<leftarrow> sfs_write (sv, u, fs); Some (r, u', (sv', fs')) },
     VOP_STAT := \<lambda>_ (sv, fs). do { r \<leftarrow> sfs_stat sv; Some (r, (sv, fs)) },
     VOP_TRYSEEK := \<lambda>_ p w. Some (sfs_tryseek p, w)\<rparr>"

lemma sfs_layer_sel:
  "VOP_READ (sfs_layer base) x u (sv, fs) = do { (r, (sv', u', fs')) \<leftarrow> sfs_read (sv, u, fs); Some (r, u', (sv', fs')) }"
  "VOP_WRITE (sfs_layer base) x u (sv, fs) = do { (r, (sv', u', fs')) \<leftarrow> sfs_write (sv, u, fs); Some (r, u', (sv', fs')) }"
  "VOP_TRYSEEK (sfs_layer base) x p w = Some (sfs_tryseek p, w)"
  by (simp_all add: sfs_layer_def)

text \<open>The buffers a process may hand in, and the descriptor the system calls make of one.\<close>

definition user_buf :: "'w fstate \<Rightarrow> nat \<Rightarrow> nat \<Rightarrow> bool" where
  "user_buf st buf len \<longleftrightarrow> 0 < len \<and> buf + len \<le> USERTOP \<and> readable (fmem st) buf len"

lemma mk_uio_sel [simp]:
  "uio_mem (mk_uio st buf len p rw) = fmem st" "uio_offset (mk_uio st buf len p rw) = nat p"
  "uio_resid (mk_uio st buf len p rw) = len" "uio_rw (mk_uio st buf len p d) = d" "iov_base (mk_uio st buf len p rw) = buf"
  by (simp_all add: mk_uio_def)

lemma mk_uio_ok: "user_buf st buf len \<Longrightarrow> uio_ok (mk_uio st buf len p rw)"
  by (simp add: uio_ok_def user_buf_def mk_uio_def)

text \<open>A descriptor open for reading and writing.\<close>

definition open_rdwr :: "int \<Rightarrow> nat \<Rightarrow> 'w fstate \<Rightarrow> bool" where
  "open_rdwr fh i st \<longleftrightarrow> 0 \<le> fh \<and> fh < int MAX_FD \<and> fd st ! nat fh = Some i \<and> oflags (oft st ! i) AND O_ACCMODE = O_RDWR"

lemma open_rdwr_access:
  assumes "ft_inv others st" and "open_rdwr fh i st"
  shows "check_fd_access fh acc st = Some (Inr i)" and "i < MAX_OPEN_FILES"
proof -
  note I = ft_invD [OF assms(1)]
  show i: "i < MAX_OPEN_FILES" using I(3) [of "nat fh" i] assms(2) by (simp add: open_rdwr_def nat_less_iff)
  show "check_fd_access fh acc st = Some (Inr i)"
    using assms(2) i I(1,2) by (simp add: open_rdwr_def check_fd_access_def rd_def nat_less_iff O_RDWR_def O_WRONLY_def)
qed

lemma open_rdwr_pos:
  assumes "ft_inv others st" and "open_rdwr fh i st"
  obtains x where "ovn (oft st ! i) = VN x" and "0 \<le> fp (oft st ! i)"
proof -
  from check_fd_access_ok [OF assms(1) open_rdwr_access(1) [OF assms, of F_ANY]] obtain x where
    i: "i < MAX_OPEN_FILES" "ovn (oft st ! i) = VN x" by blast
  with ft_invD(4) [OF assms(1) i(1)] that show thesis by (simp add: entry_ok_def)
qed

lemma open_rdwr_step:
  assumes "open_rdwr fh i st" and "fd st' = fd st" and "oft st' = (oft st)[i := (oft st ! i)\<lparr>fp := p\<rparr>]"
  shows "open_rdwr fh i st'"
  using assms by (cases "i < length (oft st)") (auto simp: open_rdwr_def list_update_beyond)

text \<open>One write, one read and one seek on an open file.\<close>

lemma sys_write_on_sfs:
  assumes inv: "ft_inv others st" and op: "open_rdwr fh i st" and w: "world st = (vn, fs)" and f: "file_inv vn fs"
    and b: "user_buf st buf len" and lim: "nat (fp (oft st ! i)) + len \<le> max_filesize"
  shows "\<exists>r vn' fs' u. sfs_io (vn, mk_uio st buf len (fp (oft st ! i)) UIO_WRITE, fs) = Some (r, (vn', u, fs')) \<and> file_inv vn' fs' \<and>
    (r = Inl ENOSPC \<and> sys_write (sfs_layer base) fh buf len st = Some (Inl ENOSPC, st\<lparr>world := (vn', fs')\<rparr>) \<or>
     r = Inr () \<and> sys_write (sfs_layer base) fh buf len st =
       Some (Inr (int len), put_ofte i ((oft st ! i)\<lparr>fp := fp (oft st ! i) + int len\<rparr>) (st\<lparr>world := (vn', fs')\<rparr>)))"
proof -
  let ?u = "mk_uio st buf len (fp (oft st ! i)) UIO_WRITE"
  obtain x where x: "ovn (oft st ! i) = VN x" "0 \<le> fp (oft st ! i)" using open_rdwr_pos [OF inv op] .
  have i: "i < length (oft st)" using open_rdwr_access(2) [OF inv op] ft_invD(1) [OF inv] by simp
  have m: "max_filesize < 2 ^ 31" by (simp add: max_filesize_def max_fileblock_def)
  have ok: "io_ok (vn, ?u, fs)" using f mk_uio_ok [OF b] lim by (simp add: io_ok_def)
  have pos: "0 < uio_resid ?u" using b by (simp add: user_buf_def)
  from sfs_io_write [OF ok pos] obtain r k vn' fs' where
    run: "sfs_io (vn, ?u, fs) = Some (r, (vn', uio_advance k ?u, fs'))" "file_inv vn' fs'"
    and rk: "r = Inr () \<and> k = len \<or> r = Inl ENOSPC \<and> k < len" by auto
  have adv: "uio_mem (uio_advance k ?u) = fmem st" "uio_offset (uio_advance k ?u) = nat (fp (oft st ! i)) + k"
    by (simp_all add: uio_advance_def)
  have "nat (fp (oft st ! i)) + k < 2147483648" using rk lim m by auto
  then have "sys_write (sfs_layer base) fh buf len st =
    (case r of Inl e \<Rightarrow> Some (Inl e, st\<lparr>world := (vn', fs')\<rparr>)
     | Inr _ \<Rightarrow> Some (Inr (int k), put_ofte i ((oft st ! i)\<lparr>fp := fp (oft st ! i) + int k\<rparr>) (st\<lparr>world := (vn', fs')\<rparr>)))"
    using run(1) x i adv open_rdwr_access(1) [OF inv op]
    by (simp add: sys_write_def transfer_def sfs_layer_sel w sfs_write_def split: sum.splits)
  then show ?thesis using run rk by auto
qed

lemma sys_read_on_sfs:
  assumes inv: "ft_inv others st" and op: "open_rdwr fh i st" and w: "world st = (vn, fs)" and f: "file_inv vn fs"
    and b: "user_buf st buf len" and lim: "nat (fp (oft st ! i)) + len \<le> max_filesize"
  shows "\<exists>r vn' fs' u st'. sfs_io (vn, mk_uio st buf len (fp (oft st ! i)) UIO_READ, fs) = Some (r, (vn', u, fs')) \<and>
    fmem st' = uio_mem u \<and>
    (r = Inl ENOSPC \<and> sys_read (sfs_layer base) fh buf len st = Some (Inl ENOSPC, st') \<or>
     r = Inr () \<and> sys_read (sfs_layer base) fh buf len st =
       Some (Inr (int (min len (sfi_size (sv_i vn) - nat (fp (oft st ! i))))), st'))"
proof -
  let ?u = "mk_uio st buf len (fp (oft st ! i)) UIO_READ"
  obtain x where x: "ovn (oft st ! i) = VN x" "0 \<le> fp (oft st ! i)" using open_rdwr_pos [OF inv op] .
  have i: "i < length (oft st)" using open_rdwr_access(2) [OF inv op] ft_invD(1) [OF inv] by simp
  have m: "max_filesize < 2 ^ 31" by (simp add: max_filesize_def max_fileblock_def)
  have ok: "io_ok (vn, ?u, fs)" using f mk_uio_ok [OF b] lim by (simp add: io_ok_def)
  have pos: "0 < uio_resid ?u" using b by (simp add: user_buf_def)
  from sfs_io_read [OF ok _ pos] obtain r k vn' u' fs' where
    run: "sfs_io (vn, ?u, fs) = Some (r, (vn', u', fs'))" "k \<le> len" "uio_offset u' = nat (fp (oft st ! i)) + k"
    and rk: "r = Inr () \<and> k = min len (sfi_size (sv_i vn) - nat (fp (oft st ! i))) \<or> r = Inl ENOSPC" by auto
  let ?s = "st\<lparr>world := (vn', fs'), fmem := uio_mem u'\<rparr>"
  have "nat (fp (oft st ! i)) + k < 2147483648" using run(2) lim m by auto
  then have "sys_read (sfs_layer base) fh buf len st =
    (case r of Inl e \<Rightarrow> Some (Inl e, ?s)
     | Inr _ \<Rightarrow> Some (Inr (int k), put_ofte i ((oft st ! i)\<lparr>fp := fp (oft st ! i) + int k\<rparr>) ?s))"
    using run(1,3) x i open_rdwr_access(1) [OF inv op]
    by (simp add: sys_read_def transfer_def sfs_layer_sel w sfs_read_def split: sum.splits)
  then show ?thesis using run(1) rk
    by (elim disjE) (rule exI [of _ r], rule exI [of _ vn'], rule exI [of _ fs'], rule exI [of _ u'], force)+
qed

lemma sys_lseek_on_sfs:
  assumes inv: "ft_inv others st" and op: "open_rdwr fh i st" and "0 \<le> p"
  shows "sys_lseek (sfs_layer base) fh p SEEK_SET st = Some (Inr p, put_ofte i ((oft st ! i)\<lparr>fp := p\<rparr>) st)"
proof -
  obtain x where x: "ovn (oft st ! i) = VN x" using open_rdwr_pos [OF inv op] .
  have i: "i < length (oft st)" using open_rdwr_access(2) [OF inv op] ft_invD(1) [OF inv] by simp
  show ?thesis
    using x i open_rdwr_access(1) [OF inv op] assms(3)
    by (simp add: sys_lseek_def sfs_layer_sel sfs_tryseek_def put_ofte_def)
qed

section \<open>Properties\<close>


definition demo_file_state :: "(sfs_vnode \<times> sfs_fs) fstate" where
  "demo_file_state = \<lparr>oft = \<lparr>fp = 600, oflags = O_RDWR, ocount = 1, ovn = VN 9\<rparr> #
       replicate 63 \<lparr>fp = 0, oflags = 0, ocount = 0, ovn = VN_NULL\<rparr>,
     fd = Some 0 # replicate 15 None, vmspace = Some 1, fmem = mem_of [1, 2, 3, 0, 0, 0], world = (demo_vnode, demo_fs)\<rparr>"

lemma demo_file_ok: "ft_inv (\<lambda>_. 0) demo_file_state" "open_rdwr 0 0 demo_file_state"
  "world demo_file_state = (demo_vnode, demo_fs)" "user_buf demo_file_state 0 3" "user_buf demo_file_state 3 3"
  "fp (oft demo_file_state ! 0) = 600"
proof -
  have "entry_ok (refs demo_file_state i) (oft demo_file_state ! i)" if "i < 64" for i
    using that by (cases i) (auto simp: demo_file_state_def refs_def entry_ok_def O_RDWR_def O_ACCMODE_def)
  moreover have "i < 64" if "j < 16" "fd demo_file_state ! j = Some i" for i j
    using that by (cases j) (auto simp: demo_file_state_def)
  ultimately show "ft_inv (\<lambda>_. 0) demo_file_state"
    unfolding ft_inv_def MAX_OPEN_FILES_def MAX_FD_def by (simp add: demo_file_state_def)
qed (simp_all add: demo_file_state_def open_rdwr_def O_RDWR_def O_ACCMODE_def MAX_FD_def user_buf_def USERTOP_def readable_def mem_of_def)


end
