(* ===== verification/Vfs_list.thy ===== *)
theory Vfs_list
  imports Ptr_Array Copyinout Uio
begin

text \<open>
  The list of named devices, \<^verbatim>\<open>kern/fs/vfs/vfslist.c\<close>. What a vnode or a file system object does lies behind its table of
  functions: the record \<open>vops\<close> has the functions \<^verbatim>\<open>VOP_...\<close> and \<^verbatim>\<open>FSOP_...\<close> on a state \<open>'w\<close> that they share, with
  vnodes of type \<open>'v\<close> and file systems of type \<open>'f\<close>. A lock is a flag that says whether it is held; acquiring
  a lock that is held has no outcome.
\<close>

section \<open>Interfaces\<close>

text \<open>\<^verbatim>\<open>kern/include/vnode.h\<close> and \<^verbatim>\<open>fs.h\<close>; the last two are \<^verbatim>\<open>dev_create_vnode\<close> (with the outcomes of its two allocations) and \<^verbatim>\<open>kfree\<close> of a vnode.\<close>

record ('v, 'f, 'w) vops =
  VOP_INCREF :: "'v \<Rightarrow> 'w \<Rightarrow> 'w option"
  VOP_DECREF :: "'v \<Rightarrow> 'w \<Rightarrow> 'w option"
  VOP_INCOPEN :: "'v \<Rightarrow> 'w \<Rightarrow> 'w option"
  VOP_DECOPEN :: "'v \<Rightarrow> 'w \<Rightarrow> 'w option"
  VOP_OPEN :: "'v \<Rightarrow> nat \<Rightarrow> 'w \<Rightarrow> (unit res \<times> 'w) option"
  VOP_TRUNCATE :: "'v \<Rightarrow> nat \<Rightarrow> 'w \<Rightarrow> (unit res \<times> 'w) option"
  VOP_GETTYPE :: "'v \<Rightarrow> 'w \<Rightarrow> (nat res \<times> 'w) option"
  VOP_READLINK :: "'v \<Rightarrow> uio \<Rightarrow> 'w \<Rightarrow> (unit res \<times> uio \<times> 'w) option"
  VOP_NAMEFILE :: "'v \<Rightarrow> uio \<Rightarrow> 'w \<Rightarrow> (unit res \<times> uio \<times> 'w) option"
  VOP_CREAT :: "'v \<Rightarrow> byte list \<Rightarrow> bool \<Rightarrow> 'w \<Rightarrow> ('v res \<times> 'w) option"
  VOP_SYMLINK :: "'v \<Rightarrow> byte list \<Rightarrow> byte list \<Rightarrow> 'w \<Rightarrow> (unit res \<times> 'w) option"
  VOP_MKDIR :: "'v \<Rightarrow> byte list \<Rightarrow> 'w \<Rightarrow> (unit res \<times> 'w) option"
  VOP_LINK :: "'v \<Rightarrow> byte list \<Rightarrow> 'v \<Rightarrow> 'w \<Rightarrow> (unit res \<times> 'w) option"
  VOP_REMOVE :: "'v \<Rightarrow> byte list \<Rightarrow> 'w \<Rightarrow> (unit res \<times> 'w) option"
  VOP_RMDIR :: "'v \<Rightarrow> byte list \<Rightarrow> 'w \<Rightarrow> (unit res \<times> 'w) option"
  VOP_RENAME :: "'v \<Rightarrow> byte list \<Rightarrow> 'v \<Rightarrow> byte list \<Rightarrow> 'w \<Rightarrow> (unit res \<times> 'w) option"
  VOP_LOOKUP :: "'v \<Rightarrow> byte list \<Rightarrow> 'w \<Rightarrow> ('v res \<times> 'w) option"
  VOP_LOOKPARENT :: "'v \<Rightarrow> byte list \<Rightarrow> nat \<Rightarrow> 'w \<Rightarrow> (('v \<times> byte list) res \<times> 'w) option"
  vn_fs :: "'v \<Rightarrow> 'w \<Rightarrow> 'f option"
  FSOP_SYNC :: "'f \<Rightarrow> 'w \<Rightarrow> (unit res \<times> 'w) option"
  FSOP_GETVOLNAME :: "'f \<Rightarrow> 'w \<Rightarrow> byte list option"
  FSOP_GETROOT :: "'f \<Rightarrow> 'w \<Rightarrow> ('v \<times> 'w) option"
  FSOP_UNMOUNT :: "'f \<Rightarrow> 'w \<Rightarrow> (unit res \<times> 'w) option"
  dev_create_vnode :: "bool \<Rightarrow> bool \<Rightarrow> nat option \<Rightarrow> 'w \<Rightarrow> ('v option \<times> 'w) option"
  kfree_vnode :: "'v \<Rightarrow> 'w \<Rightarrow> 'w"

text \<open>A device; pointers to devices are addresses, \<open>None\<close> is \<^verbatim>\<open>NULL\<close>.\<close>

record ('v, 'f) knowndev =
  kd_name :: "byte list"
  kd_rawname :: "byte list option"
  kd_device :: "nat option"
  kd_vnode :: 'v
  kd_fs :: "'f option"

text \<open>
  The static variables of the VFS layer, the current directory of the current thread, and the state behind the
  tables. The array holds the devices themselves: nothing else points to them.
\<close>

record ('v, 'f, 'w) vfs =
  knowndevs :: "('v, 'f) knowndev parray"
  knowndevs_lock :: bool
  bootfs_vnode :: "'v option"
  bootfs_lock :: bool
  t_cwd :: "'v option"
  world :: 'w

definition acquire_knowndevs :: "('v, 'f, 'w) vfs \<Rightarrow> ('v, 'f, 'w) vfs option" where
  "acquire_knowndevs s = do {
     _ \<leftarrow> kassert (\<not> knowndevs_lock s);
     Some (s\<lparr>knowndevs_lock := True\<rparr>)
   }"

definition release_knowndevs :: "('v, 'f, 'w) vfs \<Rightarrow> ('v, 'f, 'w) vfs option" where
  "release_knowndevs s = do {
     _ \<leftarrow> kassert (knowndevs_lock s);
     Some (s\<lparr>knowndevs_lock := False\<rparr>)
   }"

section \<open>Sync and lookup\<close>

text \<open>The loops go from device \<open>i\<close>, with \<open>k\<close> left.\<close>

fun vfs_sync_from :: "('v, 'f, 'w) vops \<Rightarrow> nat \<Rightarrow> nat \<Rightarrow> ('v, 'f, 'w) vfs \<Rightarrow> ('v, 'f, 'w) vfs option" where
  "vfs_sync_from ops i 0 s = Some s"
| "vfs_sync_from ops i (Suc k) s = do {
     kd \<leftarrow> array_getguy (knowndevs s) i;
     (case kd_fs kd of
        None \<Rightarrow> vfs_sync_from ops (i + 1) k s
      | Some fs \<Rightarrow> do {
          (_, w) \<leftarrow> FSOP_SYNC ops fs (world s);
          vfs_sync_from ops (i + 1) k (s\<lparr>world := w\<rparr>)
        })
   }"

definition vfs_sync :: "('v, 'f, 'w) vops \<Rightarrow> ('v, 'f, 'w) vfs \<Rightarrow> (unit res \<times> ('v, 'f, 'w) vfs) option" where
  "vfs_sync ops s = do {
     s1 \<leftarrow> acquire_knowndevs s;
     s2 \<leftarrow> vfs_sync_from ops 0 (array_getnum (knowndevs s1)) s1;
     s3 \<leftarrow> release_knowndevs s2;
     Some (Inr (), s3)
   }"

text \<open>Handing out the vnode of a device.\<close>

definition give_vnode :: "('v, 'f, 'w) vops \<Rightarrow> ('v, 'f) knowndev \<Rightarrow> ('v, 'f, 'w) vfs \<Rightarrow> ('v res \<times> ('v, 'f, 'w) vfs) option" where
  "give_vnode ops kd s = do {
     _ \<leftarrow> kassert (kd_device kd \<noteq> None);
     w \<leftarrow> VOP_INCREF ops (kd_vnode kd) (world s);
     Some (Inr (kd_vnode kd), s\<lparr>world := w\<rparr>)
   }"

fun getroot_from :: "('v, 'f, 'w) vops \<Rightarrow> byte list \<Rightarrow> nat \<Rightarrow> nat \<Rightarrow> ('v, 'f, 'w) vfs \<Rightarrow> ('v res \<times> ('v, 'f, 'w) vfs) option" where
  "getroot_from ops devname i 0 s = Some (Inl ENODEV, s)"
| "getroot_from ops devname i (Suc k) s = do {
     kd \<leftarrow> array_getguy (knowndevs s) i;
     let rest = (if kd_name kd = devname then do {
                   _ \<leftarrow> kassert (kd_fs kd = None);
                   _ \<leftarrow> kassert (kd_rawname kd = None);
                   give_vnode ops kd s
                 }
                 else if kd_rawname kd = Some devname then give_vnode ops kd s
                 else getroot_from ops devname (i + 1) k s);
     (case kd_fs kd of
        Some fs \<Rightarrow>
          if kd_name kd = devname \<or> FSOP_GETVOLNAME ops fs (world s) = Some devname then do {
            (vn, w) \<leftarrow> FSOP_GETROOT ops fs (world s);
            Some (Inr vn, s\<lparr>world := w\<rparr>)
          }
          else rest
      | None \<Rightarrow>
          if kd_rawname kd \<noteq> None \<and> kd_name kd = devname then Some (Inl ENXIO, s)
          else rest)
   }"

definition vfs_getroot :: "('v, 'f, 'w) vops \<Rightarrow> byte list \<Rightarrow> ('v, 'f, 'w) vfs \<Rightarrow> ('v res \<times> ('v, 'f, 'w) vfs) option" where
  "vfs_getroot ops devname s = do {
     s1 \<leftarrow> acquire_knowndevs s;
     (r, s2) \<leftarrow> getroot_from ops devname 0 (array_getnum (knowndevs s1)) s1;
     s3 \<leftarrow> release_knowndevs s2;
     Some (r, s3)
   }"

fun getdevname_from :: "'f \<Rightarrow> nat \<Rightarrow> nat \<Rightarrow> ('v, 'f, 'w) vfs \<Rightarrow> byte list option option" where
  "getdevname_from fs i 0 s = Some None"
| "getdevname_from fs i (Suc k) s = do {
     kd \<leftarrow> array_getguy (knowndevs s) i;
     if kd_fs kd = Some fs then Some (Some (kd_name kd)) else getdevname_from fs (i + 1) k s
   }"

definition vfs_getdevname :: "'f \<Rightarrow> ('v, 'f, 'w) vfs \<Rightarrow> (byte list option \<times> ('v, 'f, 'w) vfs) option" where
  "vfs_getdevname fs s = do {
     s1 \<leftarrow> acquire_knowndevs s;
     name \<leftarrow> getdevname_from fs 0 (array_getnum (knowndevs s1)) s1;
     s2 \<leftarrow> release_knowndevs s1;
     Some (name, s2)
   }"

section \<open>Adding devices\<close>

definition raw_suffix :: "byte list" where "raw_suffix = [114, 97, 119]"

definition mkrawname :: "bool \<Rightarrow> byte list \<Rightarrow> byte list option" where
  "mkrawname mem name = (if mem then Some (name @ raw_suffix) else None)"

definition samestring :: "byte list option \<Rightarrow> byte list option \<Rightarrow> bool" where
  "samestring a b = (if a = None \<or> b = None then False else a = b)"

definition samestring3 :: "byte list option \<Rightarrow> byte list option \<Rightarrow> byte list option \<Rightarrow> byte list option \<Rightarrow> bool" where
  "samestring3 a b c d \<longleftrightarrow> samestring a b \<or> samestring a c \<or> samestring a d"

fun badnames_from :: "('v, 'f, 'w) vops \<Rightarrow> byte list option \<Rightarrow> byte list option \<Rightarrow> byte list option \<Rightarrow> nat \<Rightarrow> nat \<Rightarrow>
    ('v, 'f, 'w) vfs \<Rightarrow> bool option" where
  "badnames_from ops n1 n2 n3 i 0 s = Some False"
| "badnames_from ops n1 n2 n3 i (Suc k) s = do {
     kd \<leftarrow> array_getguy (knowndevs s) i;
     if (case kd_fs kd of None \<Rightarrow> False | Some fs \<Rightarrow> samestring3 (FSOP_GETVOLNAME ops fs (world s)) n1 n2 n3) then Some True
     else if samestring3 (kd_rawname kd) n1 n2 n3 \<or> samestring3 (Some (kd_name kd)) n1 n2 n3 then Some True
     else badnames_from ops n1 n2 n3 (i + 1) k s
   }"

definition badnames :: "('v, 'f, 'w) vops \<Rightarrow> byte list option \<Rightarrow> byte list option \<Rightarrow> byte list option \<Rightarrow> ('v, 'f, 'w) vfs \<Rightarrow> bool option" where
  "badnames ops n1 n2 n3 s = do {
     _ \<leftarrow> kassert (knowndevs_lock s);
     badnames_from ops n1 n2 n3 0 (array_getnum (knowndevs s)) s
   }"

text \<open>The allocations of \<^verbatim>\<open>vfs_doadd\<close>: both names, the vnode and its lock, the device, a longer array.\<close>

record add_mem =
  am_name :: bool
  am_raw :: bool
  am_vnode :: bool
  am_lock :: bool
  am_kd :: bool
  am_array :: bool

definition vfs_doadd :: "('v, 'f, 'w) vops \<Rightarrow> add_mem \<Rightarrow> byte list \<Rightarrow> bool \<Rightarrow> nat option \<Rightarrow> 'f option \<Rightarrow> ('v, 'f, 'w) vfs \<Rightarrow>
    (unit res \<times> ('v, 'f, 'w) vfs) option" where
  "vfs_doadd ops mem dname mountable dev fs s =
     (if \<not> am_name mem then Some (Inl ENOMEM, s)
      else if mountable \<and> mkrawname (am_raw mem) dname = None then Some (Inl ENOMEM, s)
      else do {
        let rawname = (if mountable then mkrawname (am_raw mem) dname else None);
        (vn, w) \<leftarrow> dev_create_vnode ops (am_vnode mem) (am_lock mem) dev (world s);
        (case vn of
           None \<Rightarrow> Some (Inl ENOMEM, s\<lparr>world := w\<rparr>)
         | Some vnode \<Rightarrow>
             if \<not> am_kd mem then Some (Inl ENOMEM, s\<lparr>world := kfree_vnode ops vnode w\<rparr>)
             else do {
               let kd = \<lparr>kd_name = dname, kd_rawname = rawname, kd_device = dev, kd_vnode = vnode, kd_fs = fs\<rparr>;
               let volname = (case fs of None \<Rightarrow> None | Some f \<Rightarrow> FSOP_GETVOLNAME ops f w);
               s1 \<leftarrow> acquire_knowndevs (s\<lparr>world := w\<rparr>);
               bad \<leftarrow> badnames ops (Some dname) rawname volname s1;
               (r, s2) \<leftarrow> (if \<not> bad then do {
                              (r, a) \<leftarrow> array_add (am_array mem) (knowndevs s1) kd;
                              Some (r, s1\<lparr>knowndevs := a\<rparr>)
                            }
                            else Some (Inl EEXIST, s1));
               s3 \<leftarrow> release_knowndevs s2;
               Some (r, s3)
             })
      })"

definition vfs_adddev :: "('v, 'f, 'w) vops \<Rightarrow> add_mem \<Rightarrow> byte list \<Rightarrow> nat \<Rightarrow> bool \<Rightarrow> ('v, 'f, 'w) vfs \<Rightarrow> (unit res \<times> ('v, 'f, 'w) vfs) option" where
  "vfs_adddev ops mem devname dev mountable s = vfs_doadd ops mem devname mountable (Some dev) None s"

definition vfs_addfs :: "('v, 'f, 'w) vops \<Rightarrow> add_mem \<Rightarrow> byte list \<Rightarrow> 'f \<Rightarrow> ('v, 'f, 'w) vfs \<Rightarrow> (unit res \<times> ('v, 'f, 'w) vfs) option" where
  "vfs_addfs ops mem devname fs s = vfs_doadd ops mem devname False None (Some fs) s"

section \<open>Mounting\<close>

text \<open>\<^verbatim>\<open>findmount\<close> returns the place of the device.\<close>

fun findmount_from :: "byte list \<Rightarrow> nat \<Rightarrow> nat \<Rightarrow> ('v, 'f, 'w) vfs \<Rightarrow> nat res option" where
  "findmount_from devname i 0 s = Some (Inl ENODEV)"
| "findmount_from devname i (Suc k) s = do {
     kd \<leftarrow> array_getguy (knowndevs s) i;
     if kd_rawname kd = None then findmount_from devname (i + 1) k s
     else if devname = kd_name kd then Some (Inr i)
     else findmount_from devname (i + 1) k s
   }"

definition findmount :: "byte list \<Rightarrow> ('v, 'f, 'w) vfs \<Rightarrow> nat res option" where
  "findmount devname s = do {
     _ \<leftarrow> kassert (knowndevs_lock s);
     findmount_from devname 0 (array_getnum (knowndevs s)) s
   }"

definition set_kd_fs :: "nat \<Rightarrow> 'f option \<Rightarrow> ('v, 'f, 'w) vfs \<Rightarrow> ('v, 'f, 'w) vfs option" where
  "set_kd_fs i fs s = do {
     kd \<leftarrow> array_getguy (knowndevs s) i;
     a \<leftarrow> array_setguy (knowndevs s) i (kd\<lparr>kd_fs := fs\<rparr>);
     Some (s\<lparr>knowndevs := a\<rparr>)
   }"

text \<open>\<^verbatim>\<open>vfs_mount\<close>; \<open>mountfunc\<close> is the function it is given, with its data.\<close>

definition vfs_mount :: "byte list \<Rightarrow> (nat \<Rightarrow> 'w \<Rightarrow> ('f res \<times> 'w) option) \<Rightarrow> ('v, 'f, 'w) vfs \<Rightarrow> (unit res \<times> ('v, 'f, 'w) vfs) option" where
  "vfs_mount devname mountfunc s = do {
     s1 \<leftarrow> acquire_knowndevs s;
     hit \<leftarrow> findmount devname s1;
     (r, s2) \<leftarrow> (case hit of
         Inl e \<Rightarrow> Some (Inl e, s1)
       | Inr i \<Rightarrow> do {
           kd \<leftarrow> array_getguy (knowndevs s1) i;
           if kd_fs kd \<noteq> None then Some (Inl EBUSY, s1)
           else do {
             _ \<leftarrow> kassert (kd_rawname kd \<noteq> None);
             dev \<leftarrow> kd_device kd;
             (r, w) \<leftarrow> mountfunc dev (world s1);
             (case r of
                Inl e \<Rightarrow> Some (Inl e, s1\<lparr>world := w\<rparr>)
              | Inr fs \<Rightarrow> do {
                  s2 \<leftarrow> set_kd_fs i (Some fs) (s1\<lparr>world := w\<rparr>);
                  Some (Inr (), s2)
                })
           }
         });
     s3 \<leftarrow> release_knowndevs s2;
     Some (r, s3)
   }"

definition vfs_unmount :: "('v, 'f, 'w) vops \<Rightarrow> byte list \<Rightarrow> ('v, 'f, 'w) vfs \<Rightarrow> (unit res \<times> ('v, 'f, 'w) vfs) option" where
  "vfs_unmount ops devname s = do {
     s1 \<leftarrow> acquire_knowndevs s;
     hit \<leftarrow> findmount devname s1;
     (r, s2) \<leftarrow> (case hit of
         Inl e \<Rightarrow> Some (Inl e, s1)
       | Inr i \<Rightarrow> do {
           kd \<leftarrow> array_getguy (knowndevs s1) i;
           (case kd_fs kd of
              None \<Rightarrow> Some (Inl EINVAL, s1)
            | Some fs \<Rightarrow> do {
                _ \<leftarrow> kassert (kd_rawname kd \<noteq> None);
                _ \<leftarrow> kassert (kd_device kd \<noteq> None);
                (r, w) \<leftarrow> FSOP_SYNC ops fs (world s1);
                (case r of
                   Inl e \<Rightarrow> Some (Inl e, s1\<lparr>world := w\<rparr>)
                 | Inr _ \<Rightarrow> do {
                     (r, w1) \<leftarrow> FSOP_UNMOUNT ops fs w;
                     (case r of
                        Inl e \<Rightarrow> Some (Inl e, s1\<lparr>world := w1\<rparr>)
                      | Inr _ \<Rightarrow> do {
                          s2 \<leftarrow> set_kd_fs i None (s1\<lparr>world := w1\<rparr>);
                          Some (Inr (), s2)
                        })
                   })
              })
         });
     s3 \<leftarrow> release_knowndevs s2;
     Some (r, s3)
   }"

text \<open>One round of \<^verbatim>\<open>vfs_unmountall\<close> on a file system: a second try at syncing; whether it is gone.\<close>

definition unmount_try :: "('v, 'f, 'w) vops \<Rightarrow> 'f \<Rightarrow> 'w \<Rightarrow> (bool \<times> 'w) option" where
  "unmount_try ops fs w = do {
     (r, w1) \<leftarrow> FSOP_SYNC ops fs w;
     (r2, w2) \<leftarrow> (case r of Inl _ \<Rightarrow> FSOP_SYNC ops fs w1 | Inr _ \<Rightarrow> Some (Inr (), w1));
     (case r2 of
        Inl _ \<Rightarrow> Some (False, w2)
      | Inr _ \<Rightarrow> do {
          (r3, w3) \<leftarrow> FSOP_UNMOUNT ops fs w2;
          Some (r3 = Inr (), w3)
        })
   }"

fun unmountall_from :: "('v, 'f, 'w) vops \<Rightarrow> nat \<Rightarrow> nat \<Rightarrow> ('v, 'f, 'w) vfs \<Rightarrow> ('v, 'f, 'w) vfs option" where
  "unmountall_from ops i 0 s = Some s"
| "unmountall_from ops i (Suc k) s = do {
     kd \<leftarrow> array_getguy (knowndevs s) i;
     (case (kd_rawname kd, kd_fs kd) of
        (Some _, Some fs) \<Rightarrow> do {
          (gone, w) \<leftarrow> unmount_try ops fs (world s);
          s1 \<leftarrow> (if gone then set_kd_fs i None (s\<lparr>world := w\<rparr>) else Some (s\<lparr>world := w\<rparr>));
          unmountall_from ops (i + 1) k s1
        }
      | _ \<Rightarrow> unmountall_from ops (i + 1) k s)
   }"

definition vfs_unmountall :: "('v, 'f, 'w) vops \<Rightarrow> ('v, 'f, 'w) vfs \<Rightarrow> (unit res \<times> ('v, 'f, 'w) vfs) option" where
  "vfs_unmountall ops s = do {
     s1 \<leftarrow> acquire_knowndevs s;
     s2 \<leftarrow> unmountall_from ops 0 (array_getnum (knowndevs s1)) s1;
     s3 \<leftarrow> release_knowndevs s2;
     Some (Inr (), s3)
   }"

section \<open>The invariant\<close>

abbreviation devs :: "('v, 'f, 'w) vfs \<Rightarrow> ('v, 'f) knowndev list" where
  "devs s \<equiv> array_list (knowndevs s)"

definition dev_names :: "('v, 'f) knowndev \<Rightarrow> byte list list" where
  "dev_names kd = kd_name kd # (case kd_rawname kd of None \<Rightarrow> [] | Some r \<Rightarrow> [r])"

text \<open>
  What the comment on the struct says of a device: one that can be mounted has a raw name; one without a device object
  is a file system for good.
\<close>

definition kd_ok :: "('v, 'f) knowndev \<Rightarrow> bool" where
  "kd_ok kd \<longleftrightarrow> (kd_device kd = None \<longrightarrow> kd_rawname kd = None \<and> kd_fs kd \<noteq> None) \<and>
     (kd_rawname kd = None \<or> kd_rawname kd = Some (kd_name kd @ raw_suffix))"

text \<open>No two devices share a name.\<close>

definition vfs_inv :: "('v, 'f, 'w) vfs \<Rightarrow> bool" where
  "vfs_inv s \<longleftrightarrow> array_inv (knowndevs s) \<and> \<not> knowndevs_lock s \<and> (\<forall>kd \<in> set (devs s). kd_ok kd) \<and>
     distinct (concat (map dev_names (devs s)))"

text \<open>The same with the lock held, inside the functions.\<close>

abbreviation busy :: "('v, 'f, 'w) vfs \<Rightarrow> ('v, 'f, 'w) vfs" where
  "busy s \<equiv> s\<lparr>knowndevs_lock := True\<rparr>"

lemma acquire_ok: "vfs_inv s \<Longrightarrow> acquire_knowndevs s = Some (busy s)"
  by (simp add: acquire_knowndevs_def vfs_inv_def)

lemma acquire_SomeD: "acquire_knowndevs s = Some s' \<Longrightarrow> \<not> knowndevs_lock s \<and> s' = busy s"
  by (simp add: acquire_knowndevs_def split: if_splits)

lemma release_busy: "knowndevs_lock s \<Longrightarrow> release_knowndevs s = Some (s\<lparr>knowndevs_lock := False\<rparr>)"
  by (simp add: release_knowndevs_def)

lemma release_SomeD: "release_knowndevs s = Some s' \<Longrightarrow> knowndevs_lock s \<and> s' = s\<lparr>knowndevs_lock := False\<rparr>"
  by (simp add: release_knowndevs_def split: if_splits)

lemma unbusy: "\<not> knowndevs_lock s \<Longrightarrow> s\<lparr>knowndevs_lock := False\<rparr> = s"
  and unbusy_world: "\<not> knowndevs_lock s \<Longrightarrow> s\<lparr>world := w, knowndevs_lock := False\<rparr> = s\<lparr>world := w\<rparr>"
  by (cases s; simp)+

lemma vfs_inv_world [simp]: "vfs_inv (s\<lparr>world := w\<rparr>) = vfs_inv s"
  by (simp add: vfs_inv_def)

lemma getguy_devs: "array_inv (knowndevs s) \<Longrightarrow> i < length (devs s) \<Longrightarrow> array_getguy (knowndevs s) i = Some (devs s ! i)"
  using array_getguy_spec [of "knowndevs s" i] length_array_list [of "knowndevs s"] by simp

lemma getnum_devs: "array_inv (knowndevs s) \<Longrightarrow> array_getnum (knowndevs s) = length (devs s)"
  using length_array_list [of "knowndevs s"] by (simp add: array_getnum_def)

lemma drop_devs: "i + Suc k = length xs \<Longrightarrow> drop i xs = xs ! i # drop (i + 1) xs"
  using Cons_nth_drop_Suc [of i xs] by simp

lemma set_kd_fs_spec:
  assumes inv: "array_inv (knowndevs s)" and i: "i < length (devs s)"
  shows "\<exists>a. set_kd_fs i f s = Some (s\<lparr>knowndevs := a\<rparr>) \<and> array_inv a \<and> array_list a = (devs s)[i := (devs s ! i)\<lparr>kd_fs := f\<rparr>] \<and> num a = num (knowndevs s)"
  using array_setguy_spec [OF inv, of i "(devs s ! i)\<lparr>kd_fs := f\<rparr>"] getguy_devs [OF inv i] i length_array_list [OF inv]
  by (auto simp: set_kd_fs_def)

text \<open>What the operations may do to a device: nothing, or give one that can be mounted another file system.\<close>

definition remounted :: "('v, 'f) knowndev \<Rightarrow> ('v, 'f) knowndev \<Rightarrow> bool" where
  "remounted kd kd' \<longleftrightarrow> kd_name kd' = kd_name kd \<and> kd_rawname kd' = kd_rawname kd \<and> kd_device kd' = kd_device kd \<and>
     kd_vnode kd' = kd_vnode kd \<and> (kd_fs kd' = kd_fs kd \<or> kd_rawname kd \<noteq> None)"

abbreviation devs_step :: "('v, 'f) knowndev list \<Rightarrow> ('v, 'f) knowndev list \<Rightarrow> bool" where
  "devs_step \<equiv> list_all2 remounted"

lemma remounted_refl: "remounted kd kd"
  by (simp add: remounted_def)

lemma devs_step_refl: "devs_step xs xs"
  by (simp add: list.rel_refl remounted_refl)

lemma remounted_trans: "remounted x y \<Longrightarrow> remounted y z \<Longrightarrow> remounted x z"
  by (auto simp: remounted_def)

lemma devs_step_trans: "devs_step xs ys \<Longrightarrow> devs_step ys zs \<Longrightarrow> devs_step xs zs"
  using list_all2_trans [of remounted remounted remounted] remounted_trans by blast

lemma devs_step_upd: "kd_rawname (xs ! i) \<noteq> None \<Longrightarrow> devs_step xs (xs[i := (xs ! i)\<lparr>kd_fs := f\<rparr>])"
  using list_all2_update_cong [OF devs_step_refl, of "xs ! i" "(xs ! i)\<lparr>kd_fs := f\<rparr>" xs i] by (auto simp: remounted_def)

lemma devs_step_names: "devs_step xs ys \<Longrightarrow> map dev_names ys = map dev_names xs"
  by (induction rule: list_all2_induct) (auto simp: remounted_def dev_names_def)

lemma remounted_ok: "remounted x y \<Longrightarrow> kd_ok x \<Longrightarrow> kd_ok y"
  unfolding remounted_def kd_ok_def by metis

lemma devs_step_ok: "devs_step xs ys \<Longrightarrow> \<forall>kd \<in> set xs. kd_ok kd \<Longrightarrow> \<forall>kd \<in> set ys. kd_ok kd"
  by (induction rule: list_all2_induct) (simp_all add: remounted_ok)

lemma devs_step_inv:
  assumes "vfs_inv s" and "array_inv a" and "devs_step (devs s) (array_list a)"
  shows "vfs_inv (s\<lparr>world := w, knowndevs := a, knowndevs_lock := False\<rparr>)"
  using assms devs_step_names [OF assms(3)] devs_step_ok [OF assms(3)] by (simp add: vfs_inv_def)

section \<open>The loops\<close>

lemma sync_from_same: "vfs_sync_from ops i k s = Some s' \<Longrightarrow> \<exists>w. s' = s\<lparr>world := w\<rparr>"
proof (induction k arbitrary: i s)
  case 0
  then show ?case by (intro exI [of _ "world s"]) simp
next
  case (Suc k)
  then show ?case by (fastforce simp: bind_eq_Some_conv split: option.splits)
qed

lemma give_vnode_same: "give_vnode ops kd s = Some (r, s') \<Longrightarrow> \<exists>w. s' = s\<lparr>world := w\<rparr>"
  by (auto simp: give_vnode_def bind_eq_Some_conv split: if_splits)

lemma getroot_from_same: "getroot_from ops devname i k s = Some (r, s') \<Longrightarrow> \<exists>w. s' = s\<lparr>world := w\<rparr>"
proof (induction k arbitrary: i)
  case 0
  then show ?case by (intro exI [of _ "world s"]) simp
next
  case (Suc k)
  have same: "\<exists>w. s = s\<lparr>world := w\<rparr>" by (intro exI [of _ "world s"]) simp
  obtain kd where kd: "array_getguy (knowndevs s) i = Some kd" using Suc.prems by (auto simp: bind_eq_Some_conv)
  show ?case using Suc.prems Suc.IH give_vnode_same same
    by (auto simp: kd Let_def bind_eq_Some_conv split: option.splits if_splits)
qed

text \<open>A device whose names, or whose volume, take one of three names.\<close>

definition clash :: "('v, 'f, 'w) vops \<Rightarrow> 'w \<Rightarrow> byte list set \<Rightarrow> ('v, 'f) knowndev \<Rightarrow> bool" where
  "clash ops w ns kd \<longleftrightarrow> set (dev_names kd) \<inter> ns \<noteq> {} \<or> (\<exists>fs n. kd_fs kd = Some fs \<and> FSOP_GETVOLNAME ops fs w = Some n \<and> n \<in> ns)"

lemma samestring3_iff: "samestring3 a b c d \<longleftrightarrow> (\<exists>n. a = Some n \<and> n \<in> Option.these {b, c, d})"
  by (auto simp: samestring3_def samestring_def Option.in_these_eq)

lemma badnames_from_spec:
  assumes "array_inv (knowndevs s)" and "i + k = length (devs s)"
  shows "badnames_from ops n1 n2 n3 i k s = Some (\<exists>kd \<in> set (drop i (devs s)). clash ops (world s) (Option.these {n1, n2, n3}) kd)"
  using assms(2)
proof (induction k arbitrary: i)
  case (Suc k)
  let ?kd = "devs s ! i" and ?ns = "Option.these {n1, n2, n3}"
  have g: "array_getguy (knowndevs s) i = Some ?kd" using getguy_devs [OF assms(1)] Suc.prems by simp
  have c: "((case kd_fs ?kd of None \<Rightarrow> False | Some fs \<Rightarrow> samestring3 (FSOP_GETVOLNAME ops fs (world s)) n1 n2 n3) \<or>
      samestring3 (kd_rawname ?kd) n1 n2 n3 \<or> samestring3 (Some (kd_name ?kd)) n1 n2 n3) = clash ops (world s) ?ns ?kd"
    unfolding samestring3_iff clash_def dev_names_def by (auto split: option.splits)
  have "badnames_from ops n1 n2 n3 i (Suc k) s = (if clash ops (world s) ?ns ?kd then Some True else badnames_from ops n1 n2 n3 (i + 1) k s)"
    unfolding c [symmetric] by (simp add: g)
  then show ?case using Suc.IH [of "i + 1"] Suc.prems by (simp add: drop_devs [OF Suc.prems])
qed simp

lemma findmount_from_spec:
  assumes "array_inv (knowndevs s)" and "i + k = length (devs s)"
  shows "findmount_from devname i k s = Some (Inl ENODEV) \<and> (\<forall>kd \<in> set (drop i (devs s)). kd_rawname kd = None \<or> kd_name kd \<noteq> devname) \<or>
    (\<exists>j < length (devs s). findmount_from devname i k s = Some (Inr j) \<and> kd_rawname (devs s ! j) \<noteq> None \<and> kd_name (devs s ! j) = devname)"
  using assms(2)
proof (induction k arbitrary: i)
  case (Suc k)
  have g: "array_getguy (knowndevs s) i = Some (devs s ! i)" using getguy_devs [OF assms(1)] Suc.prems by simp
  show ?case
  proof (cases "kd_rawname (devs s ! i) \<noteq> None \<and> kd_name (devs s ! i) = devname")
    case True
    then show ?thesis using g Suc.prems by auto
  next
    case False
    then have "findmount_from devname i (Suc k) s = findmount_from devname (i + 1) k s" using g by auto
    then show ?thesis using Suc.IH [of "i + 1"] Suc.prems False by (auto simp: drop_devs [OF Suc.prems])
  qed
qed simp

section \<open>Every operation keeps the invariant\<close>

lemma vfs_sync_keeps:
  assumes "vfs_sync ops s = Some (r, s')"
  shows "\<exists>w. s' = s\<lparr>world := w\<rparr> \<and> \<not> knowndevs_lock s"
proof -
  obtain s1 where s1: "acquire_knowndevs s = Some s1" using assms by (auto simp: vfs_sync_def bind_eq_Some_conv)
  note a = acquire_SomeD [OF s1]
  obtain s2 where s2: "vfs_sync_from ops 0 (array_getnum (knowndevs s1)) s1 = Some s2" "release_knowndevs s2 = Some s'"
    using assms s1 by (auto simp: vfs_sync_def bind_eq_Some_conv)
  obtain w where "s2 = s1\<lparr>world := w\<rparr>" using sync_from_same [OF s2(1)] by blast
  then show ?thesis using a release_SomeD [OF s2(2)] unbusy_world [of s w] by (intro exI [of _ w]) simp
qed

lemma vfs_getroot_keeps:
  assumes "vfs_getroot ops devname s = Some (r, s')"
  shows "\<exists>w. s' = s\<lparr>world := w\<rparr> \<and> \<not> knowndevs_lock s"
proof -
  obtain s1 where s1: "acquire_knowndevs s = Some s1" using assms by (auto simp: vfs_getroot_def bind_eq_Some_conv)
  note a = acquire_SomeD [OF s1]
  obtain s2 where s2: "getroot_from ops devname 0 (array_getnum (knowndevs s1)) s1 = Some (r, s2)" "release_knowndevs s2 = Some s'"
    using assms s1 by (auto simp: vfs_getroot_def bind_eq_Some_conv)
  obtain w where "s2 = s1\<lparr>world := w\<rparr>" using getroot_from_same [OF s2(1)] by blast
  then show ?thesis using a release_SomeD [OF s2(2)] unbusy_world [of s w] by (intro exI [of _ w]) simp
qed

lemma vfs_getdevname_keeps: "vfs_getdevname fs s = Some (r, s') \<Longrightarrow> s' = s"
  by (auto simp: vfs_getdevname_def bind_eq_Some_conv acquire_knowndevs_def release_knowndevs_def split: if_splits)

text \<open>A name is free when no device and no volume has it.\<close>

lemma names_append:
  assumes "distinct (concat (map dev_names ds))" and "\<forall>d \<in> set ds. \<not> clash ops w ns d" and "set (dev_names kd) \<subseteq> ns" and "distinct (dev_names kd)"
  shows "distinct (concat (map dev_names (ds @ [kd])))"
  using assms unfolding clash_def by fastforce

lemma vfs_doadd_keeps:
  assumes inv: "vfs_inv s" and n: "length (devs s) < 2 ^ 28" and d: "dev \<noteq> None \<or> \<not> mountable \<and> fs \<noteq> None"
    and run: "vfs_doadd ops mem dname mountable dev fs s = Some (r, s')"
  shows "vfs_inv s' \<and> (devs s' = devs s \<or> (\<exists>kd. devs s' = devs s @ [kd] \<and> r = Inr () \<and> kd_name kd = dname))"
proof (cases "\<not> am_name mem \<or> mountable \<and> mkrawname (am_raw mem) dname = None")
  case True
  then have "s' = s" using run by (auto simp: vfs_doadd_def split: if_splits)
  then show ?thesis using inv by simp
next
  case False
  let ?raw = "if mountable then mkrawname (am_raw mem) dname else None"
  obtain vn w where c: "dev_create_vnode ops (am_vnode mem) (am_lock mem) dev (world s) = Some (vn, w)"
    using run False by (auto simp: vfs_doadd_def Let_def bind_eq_Some_conv)
  show ?thesis
  proof (cases "vn = None \<or> \<not> am_kd mem")
    case True
    then have "\<exists>w. s' = s\<lparr>world := w\<rparr>" using run False c by (auto simp: vfs_doadd_def Let_def bind_eq_Some_conv split: option.splits)
    then show ?thesis using inv by auto
  next
    case False2: False
    then obtain vnode where vn: "vn = Some vnode" "am_kd mem" by auto
    define kd where "kd = \<lparr>kd_name = dname, kd_rawname = ?raw, kd_device = dev, kd_vnode = vnode, kd_fs = fs\<rparr>"
    define ns where "ns = Option.these {Some dname, ?raw, case fs of None \<Rightarrow> None | Some f \<Rightarrow> FSOP_GETVOLNAME ops f w}"
    let ?s = "busy (s\<lparr>world := w\<rparr>)"
    have inv1: "array_inv (knowndevs s)" "\<not> knowndevs_lock s" using inv by (simp_all add: vfs_inv_def)
    have acq: "acquire_knowndevs (s\<lparr>world := w\<rparr>) = Some ?s" using inv by (intro acquire_ok) simp
    have bad: "badnames ops (Some dname) ?raw (case fs of None \<Rightarrow> None | Some f \<Rightarrow> FSOP_GETVOLNAME ops f w) ?s =
        Some (\<exists>kd \<in> set (devs s). clash ops w ns kd)"
      using badnames_from_spec [of ?s 0 "length (devs s)"] inv1 getnum_devs [OF inv1(1)] by (simp add: badnames_def ns_def)
    have kdn: "set (dev_names kd) \<subseteq> ns" "distinct (dev_names kd)" "kd_ok kd"
      using False d by (auto simp: dev_names_def kd_def ns_def Option.in_these_eq mkrawname_def raw_suffix_def kd_ok_def split: if_splits)
    show ?thesis
    proof (cases "\<exists>kd \<in> set (devs s). clash ops w ns kd")
      case True
      then have "s' = s\<lparr>world := w, knowndevs_lock := False\<rparr>" "r = Inl EEXIST"
        using run False c vn acq bad by (auto simp: vfs_doadd_def Let_def release_knowndevs_def)
      then show ?thesis using inv unbusy_world [OF inv1(2)] by simp
    next
      case free: False
      obtain q a where q: "array_add (am_array mem) (knowndevs s) kd = Some (q, a)" "array_inv a"
        "q = Inr () \<and> array_list a = devs s @ [kd] \<or> q = Inl ENOMEM \<and> a = knowndevs s"
        using array_add_spec [OF inv1(1), of "am_array mem" kd] n length_array_list [OF inv1(1)] by auto
      have s': "s' = s\<lparr>world := w, knowndevs := a, knowndevs_lock := False\<rparr>" "r = q"
        using run False c vn acq bad free q(1) by (auto simp: vfs_doadd_def Let_def release_knowndevs_def kd_def)
      have "distinct (concat (map dev_names (devs s @ [kd])))"
        by (rule names_append [of _ ops w ns]) (use inv free kdn in \<open>simp_all add: vfs_inv_def\<close>)
      then show ?thesis using q(2,3) inv kdn(3) s' by (auto simp: vfs_inv_def kd_def)
    qed
  qed
qed

lemma findmount_spec:
  assumes "vfs_inv s"
  obtains "findmount devname (busy s) = Some (Inl ENODEV)" and "\<forall>kd \<in> set (devs s). kd_rawname kd = None \<or> kd_name kd \<noteq> devname"
  | j where "findmount devname (busy s) = Some (Inr j)" and "j < length (devs s)" and "kd_rawname (devs s ! j) \<noteq> None" and "kd_name (devs s ! j) = devname"
    and "array_getguy (knowndevs s) j = Some (devs s ! j)"
proof -
  have i: "array_inv (knowndevs s)" using assms by (simp add: vfs_inv_def)
  show ?thesis using findmount_from_spec [of "busy s" 0 "length (devs s)" devname] i getnum_devs [OF i] getguy_devs [OF i] that by (auto simp: findmount_def)
qed

text \<open>How a function that works under the lock leaves the state: the lock is free again, and the list has taken a step.\<close>

definition list_step :: "('v, 'f, 'w) vfs \<Rightarrow> ('v, 'f, 'w) vfs \<Rightarrow> bool" where
  "list_step s s' \<longleftrightarrow> (\<exists>a w. s' = s\<lparr>world := w, knowndevs := a, knowndevs_lock := False\<rparr> \<and> array_inv a \<and> devs_step (devs s) (array_list a))"

lemma list_step_inv: "vfs_inv s \<Longrightarrow> list_step s s' \<Longrightarrow> vfs_inv s'"
  by (auto simp: list_step_def devs_step_inv)

lemma list_step_same: "vfs_inv s \<Longrightarrow> list_step s (s\<lparr>world := w, knowndevs_lock := False\<rparr>)"
  unfolding list_step_def by (intro exI [of _ "knowndevs s"] exI [of _ w]) (simp add: vfs_inv_def devs_step_refl)

lemma list_step_fs:
  assumes "vfs_inv s" and "i < length (devs s)" and "kd_rawname (devs s ! i) \<noteq> None"
  shows "\<exists>s1. set_kd_fs i f (busy s\<lparr>world := w\<rparr>) = Some s1 \<and> knowndevs_lock s1 \<and> list_step s (s1\<lparr>knowndevs_lock := False\<rparr>) \<and>
    devs s1 = (devs s)[i := (devs s ! i)\<lparr>kd_fs := f\<rparr>] \<and> world s1 = w"
proof -
  have inv: "array_inv (knowndevs (busy s\<lparr>world := w\<rparr>))" using assms(1) by (simp add: vfs_inv_def)
  obtain a where a: "set_kd_fs i f (busy s\<lparr>world := w\<rparr>) = Some (busy s\<lparr>world := w, knowndevs := a\<rparr>)" "array_inv a"
    "array_list a = (devs s)[i := (devs s ! i)\<lparr>kd_fs := f\<rparr>]"
    using set_kd_fs_spec [OF inv, of i f] assms(2) by auto
  have "list_step s (s\<lparr>world := w, knowndevs := a, knowndevs_lock := False\<rparr>)"
    unfolding list_step_def using a devs_step_upd [OF assms(3)] by (intro exI [of _ a] exI [of _ w]) simp
  then show ?thesis using a by (intro exI [of _ "busy s\<lparr>world := w, knowndevs := a\<rparr>"]) simp
qed

lemma vfs_mount_step:
  assumes inv: "vfs_inv s" and run: "vfs_mount devname mountfunc s = Some (r, s')"
  shows "list_step s s'"
proof (cases rule: findmount_spec [OF inv, of devname])
  case 1
  then show ?thesis using run list_step_same [OF inv, of "world s"] by (auto simp: vfs_mount_def acquire_ok [OF inv] release_knowndevs_def)
next
  case (2 i)
  note U = vfs_mount_def acquire_ok [OF inv] release_knowndevs_def
  show ?thesis
  proof (cases "kd_fs (devs s ! i) = None")
    case False
    then show ?thesis using run list_step_same [OF inv, of "world s"] 2 by (auto simp: U)
  next
    case True
    obtain dev q w where q: "kd_device (devs s ! i) = Some dev" "mountfunc dev (world s) = Some (q, w)"
      using run 2 True by (auto simp: U bind_eq_Some_conv)
    show ?thesis
    proof (cases q)
      case (Inl e)
      then show ?thesis using run list_step_same [OF inv, of w] 2 True q by (auto simp: U)
    next
      case (Inr fs)
      obtain s1 where "set_kd_fs i (Some fs) (busy s\<lparr>world := w\<rparr>) = Some s1" "knowndevs_lock s1" "list_step s (s1\<lparr>knowndevs_lock := False\<rparr>)"
        using list_step_fs [OF inv 2(2,3), of "Some fs" w] by blast
      then show ?thesis using run 2 True q Inr by (auto simp: U)
    qed
  qed
qed

lemma vfs_unmount_step:
  assumes inv: "vfs_inv s" and run: "vfs_unmount ops devname s = Some (r, s')"
  shows "list_step s s'"
proof (cases rule: findmount_spec [OF inv, of devname])
  case 1
  then show ?thesis using run list_step_same [OF inv, of "world s"] by (auto simp: vfs_unmount_def acquire_ok [OF inv] release_knowndevs_def)
next
  case (2 i)
  note U = vfs_unmount_def acquire_ok [OF inv] release_knowndevs_def
  show ?thesis
  proof (cases "kd_fs (devs s ! i)")
    case None
    then show ?thesis using run list_step_same [OF inv, of "world s"] 2 by (auto simp: U)
  next
    case (Some fs)
    obtain q w where q: "FSOP_SYNC ops fs (world s) = Some (q, w)" "kd_device (devs s ! i) \<noteq> None"
      using run 2 Some by (auto simp: U bind_eq_Some_conv split: if_splits)
    show ?thesis
    proof (cases q)
      case (Inl e)
      then show ?thesis using run list_step_same [OF inv, of w] 2 Some q by (auto simp: U)
    next
      case (Inr u)
      obtain q1 w1 where q1: "FSOP_UNMOUNT ops fs w = Some (q1, w1)" using run 2 Some q Inr by (auto simp: U bind_eq_Some_conv)
      obtain s1 where "set_kd_fs i None (busy s\<lparr>world := w1\<rparr>) = Some s1" "knowndevs_lock s1" "list_step s (s1\<lparr>knowndevs_lock := False\<rparr>)"
        using list_step_fs [OF inv 2(2,3), of None w1] by blast
      then show ?thesis using run list_step_same [OF inv, of w1] 2 Some q Inr q1 by (cases q1) (auto simp: U)
    qed
  qed
qed

lemma unmountall_from_step:
  assumes "unmountall_from ops i k s = Some s'" and "array_inv (knowndevs s)" and "i + k = length (devs s)"
  shows "\<exists>a w. s' = s\<lparr>world := w, knowndevs := a\<rparr> \<and> array_inv a \<and> devs_step (devs s) (array_list a)"
  using assms
proof (induction k arbitrary: i s)
  case 0
  then show ?case by (intro exI [of _ "knowndevs s"] exI [of _ "world s"]) (simp add: devs_step_refl)
next
  case (Suc k)
  let ?kd = "devs s ! i"
  have i: "i < length (devs s)" using Suc.prems(3) by simp
  have g: "array_getguy (knowndevs s) i = Some ?kd" using getguy_devs [OF Suc.prems(2) i] .
  show ?case
  proof (cases "kd_rawname ?kd = None \<or> kd_fs ?kd = None")
    case True
    then have "unmountall_from ops (i + 1) k s = Some s'" using Suc.prems(1) g by (auto split: option.splits)
    then show ?thesis using Suc.IH [of "i + 1" s] Suc.prems(2,3) by simp
  next
    case False
    then obtain raw fs where f: "kd_rawname ?kd = Some raw" "kd_fs ?kd = Some fs" by auto
    obtain gone w where u: "unmount_try ops fs (world s) = Some (gone, w)" using Suc.prems(1) g f by (auto simp: bind_eq_Some_conv)
    obtain a where a: "set_kd_fs i None (s\<lparr>world := w\<rparr>) = Some (s\<lparr>world := w, knowndevs := a\<rparr>)" "array_inv a" "array_list a = (devs s)[i := ?kd\<lparr>kd_fs := None\<rparr>]"
      using set_kd_fs_spec [of "s\<lparr>world := w\<rparr>" i None] Suc.prems(2) i by auto
    have st: "devs_step (devs s) (array_list a)" using devs_step_upd [of "devs s" i None] f(1) a(3) by simp
    define s1 where "s1 = (if gone then s\<lparr>world := w, knowndevs := a\<rparr> else s\<lparr>world := w\<rparr>)"
    have "unmountall_from ops (i + 1) k s1 = Some s'" using Suc.prems(1) g f u a(1) by (cases gone) (simp_all add: s1_def)
    moreover have s1: "array_inv (knowndevs s1)" "devs_step (devs s) (devs s1)" "i + 1 + k = length (devs s1)"
      using a Suc.prems(2,3) st devs_step_refl [of "devs s"] by (simp_all add: s1_def)
    ultimately obtain a' w' where "s' = s1\<lparr>world := w', knowndevs := a'\<rparr>" "array_inv a'" "devs_step (devs s1) (array_list a')"
      using Suc.IH [of "i + 1" s1] by auto
    then show ?thesis using devs_step_trans [OF s1(2)] by (intro exI [of _ a'] exI [of _ w']) (simp add: s1_def)
  qed
qed

lemma vfs_unmountall_step:
  assumes inv: "vfs_inv s" and run: "vfs_unmountall ops s = Some (r, s')"
  shows "list_step s s'"
proof -
  have ai: "array_inv (knowndevs s)" using inv by (simp add: vfs_inv_def)
  obtain s2 where s2: "unmountall_from ops 0 (length (devs s)) (busy s) = Some s2" "release_knowndevs s2 = Some s'"
    using run getnum_devs [OF ai] by (auto simp: vfs_unmountall_def acquire_ok [OF inv] bind_eq_Some_conv)
  then obtain a w where "s2 = busy s\<lparr>world := w, knowndevs := a\<rparr>" "array_inv a" "devs_step (devs s) (array_list a)"
    using unmountall_from_step [OF s2(1)] ai by auto
  then show ?thesis using release_SomeD [OF s2(2)] unfolding list_step_def by (intro exI [of _ a] exI [of _ w]) simp
qed

section \<open>Start, and all that can happen to the list\<close>

definition null_name :: "byte list" where "null_name = [110, 117, 108, 108]"

text \<open>\<^verbatim>\<open>devnull_create\<close>: the null device, at the address \<open>dev\<close> if there is memory for it, becomes \<^verbatim>\<open>null:\<close>.\<close>

definition devnull_create :: "('v, 'f, 'w) vops \<Rightarrow> bool \<Rightarrow> add_mem \<Rightarrow> nat \<Rightarrow> ('v, 'f, 'w) vfs \<Rightarrow> ('v, 'f, 'w) vfs option" where
  "devnull_create ops dev_mem mem dev s = do {
     _ \<leftarrow> kassert dev_mem;
     (r, s1) \<leftarrow> vfs_adddev ops mem null_name dev False s;
     (case r of Inl e \<Rightarrow> None | Inr _ \<Rightarrow> Some s1)
   }"

text \<open>\<^verbatim>\<open>vfs_bootstrap\<close> and \<^verbatim>\<open>vfs_initbootfs\<close>; the flags are the array's, the two locks' and the null device's memory.\<close>

definition vfs_bootstrap :: "('v, 'f, 'w) vops \<Rightarrow> bool \<Rightarrow> bool \<Rightarrow> bool \<Rightarrow> bool \<Rightarrow> add_mem \<Rightarrow> nat \<Rightarrow> 'w \<Rightarrow> ('v, 'f, 'w) vfs option" where
  "vfs_bootstrap ops array_mem lock_mem boot_mem dev_mem mem dev w = do {
     a \<leftarrow> array_create array_mem;
     _ \<leftarrow> kassert lock_mem;
     _ \<leftarrow> kassert boot_mem;
     devnull_create ops dev_mem mem dev \<lparr>knowndevs = a, knowndevs_lock = False, bootfs_vnode = None, bootfs_lock = False, t_cwd = None, world = w\<rparr>
   }"

inductive list_op :: "('v, 'f, 'w) vops \<Rightarrow> ('v, 'f, 'w) vfs \<Rightarrow> ('v, 'f, 'w) vfs \<Rightarrow> bool" for ops where
  op_adddev: "length (devs s) < 2 ^ 28 \<Longrightarrow> vfs_adddev ops mem name dev mountable s = Some (r, s') \<Longrightarrow> list_op ops s s'"
| op_addfs: "length (devs s) < 2 ^ 28 \<Longrightarrow> vfs_addfs ops mem name fs s = Some (r, s') \<Longrightarrow> list_op ops s s'"
| op_mount: "vfs_mount name mountfunc s = Some (r, s') \<Longrightarrow> list_op ops s s'"
| op_unmount: "vfs_unmount ops name s = Some (r, s') \<Longrightarrow> list_op ops s s'"
| op_unmountall: "vfs_unmountall ops s = Some (r, s') \<Longrightarrow> list_op ops s s'"
| op_sync: "vfs_sync ops s = Some (r, s') \<Longrightarrow> list_op ops s s'"
| op_getroot: "vfs_getroot ops name s = Some (q, s') \<Longrightarrow> list_op ops s s'"
| op_getdevname: "vfs_getdevname fs s = Some (n, s') \<Longrightarrow> list_op ops s s'"
| op_world: "list_op ops s (s\<lparr>world := w, bootfs_vnode := b, t_cwd := c\<rparr>)"

lemma list_op_inv: "list_op ops s s' \<Longrightarrow> vfs_inv s \<Longrightarrow> vfs_inv s'"
proof (induction rule: list_op.induct)
  case (op_adddev s mem name dev mountable r s')
  then show ?case using vfs_doadd_keeps [of s "Some dev" mountable None ops mem name r s'] by (simp add: vfs_adddev_def)
next
  case (op_addfs s mem name fs r s')
  then show ?case using vfs_doadd_keeps [of s None False "Some fs" ops mem name r s'] by (simp add: vfs_addfs_def)
next
  case (op_mount name mountfunc s r s')
  then show ?case using vfs_mount_step list_step_inv by blast
next
  case (op_unmount name s r s')
  then show ?case using vfs_unmount_step list_step_inv by blast
next
  case (op_unmountall s r s')
  then show ?case using vfs_unmountall_step list_step_inv by blast
next
  case (op_sync s r s')
  then show ?case using vfs_sync_keeps by fastforce
next
  case (op_getroot name s q s')
  then show ?case using vfs_getroot_keeps by fastforce
next
  case (op_getdevname fs s n s')
  then show ?case using vfs_getdevname_keeps [OF op_getdevname.hyps] by simp
next
  case (op_world s w b c)
  then show ?case by (simp add: vfs_inv_def)
qed

lemma vfs_bootstrap_inv:
  assumes "vfs_bootstrap ops am lm bm dm mem dev w = Some s"
  shows "vfs_inv s"
proof -
  obtain a where a: "array_create am = Some a" "devnull_create ops dm mem dev
      \<lparr>knowndevs = a, knowndevs_lock = False, bootfs_vnode = None, bootfs_lock = False, t_cwd = None, world = w\<rparr> = Some s"
    using assms by (auto simp: vfs_bootstrap_def bind_eq_Some_conv split: if_splits)
  let ?s = "\<lparr>knowndevs = a, knowndevs_lock = False, bootfs_vnode = None, bootfs_lock = False, t_cwd = None, world = w\<rparr>"
  have ai: "array_inv a" "array_list a = []" using a(1) by (auto simp: array_create_def array_inv_def array_list_def array_slots_def split: if_splits)
  then have inv: "vfs_inv ?s" by (simp add: vfs_inv_def)
  obtain r s1 where r: "vfs_doadd ops mem null_name False (Some dev) None ?s = Some (r, s1)" "(case r of Inl e \<Rightarrow> None | Inr _ \<Rightarrow> Some s1) = Some s"
    using a(2) by (auto simp: devnull_create_def vfs_adddev_def bind_eq_Some_conv split: if_splits)
  then have "s1 = s" by (cases r) auto
  then show ?thesis using r(1) using vfs_doadd_keeps [OF inv, of "Some dev" False None] ai(2) by auto
qed

section \<open>What a name stands for\<close>

text \<open>
  The comment on the struct, for a device that a name belongs to: its file system if the device or the volume is
  named, nothing if the device is named and has none mounted, else the device itself.
\<close>

definition root_answer :: "('v, 'f, 'w) vops \<Rightarrow> byte list \<Rightarrow> ('v, 'f) knowndev \<Rightarrow> ('v, 'f, 'w) vfs \<Rightarrow> ('v res \<times> ('v, 'f, 'w) vfs) option" where
  "root_answer ops devname kd s =
     (case kd_fs kd of
        Some fs \<Rightarrow>
          if kd_name kd = devname \<or> FSOP_GETVOLNAME ops fs (world s) = Some devname
          then map_option (\<lambda>(vn, w). (Inr vn, s\<lparr>world := w\<rparr>)) (FSOP_GETROOT ops fs (world s))
          else map_option (\<lambda>w. (Inr (kd_vnode kd), s\<lparr>world := w\<rparr>)) (VOP_INCREF ops (kd_vnode kd) (world s))
      | None \<Rightarrow>
          if kd_name kd = devname \<and> kd_rawname kd \<noteq> None then Some (Inl ENXIO, s)
          else map_option (\<lambda>w. (Inr (kd_vnode kd), s\<lparr>world := w\<rparr>)) (VOP_INCREF ops (kd_vnode kd) (world s)))"

lemma clash_one: "clash ops w {devname} kd \<longleftrightarrow> kd_name kd = devname \<or> kd_rawname kd = Some devname \<or>
    (\<exists>fs. kd_fs kd = Some fs \<and> FSOP_GETVOLNAME ops fs w = Some devname)"
  by (auto simp: clash_def dev_names_def split: option.splits)

lemma give_vnode_eq:
  "kd_device kd \<noteq> None \<Longrightarrow> give_vnode ops kd s = map_option (\<lambda>w. (Inr (kd_vnode kd), s\<lparr>world := w\<rparr>)) (VOP_INCREF ops (kd_vnode kd) (world s))"
  by (cases "VOP_INCREF ops (kd_vnode kd) (world s)") (auto simp: give_vnode_def)

lemma getroot_from_skip:
  assumes "array_getguy (knowndevs s) i = Some kd" and "\<not> clash ops (world s) {devname} kd"
  shows "getroot_from ops devname i (Suc k) s = getroot_from ops devname (i + 1) k s"
  using assms by (auto simp: clash_one Let_def split: option.splits)

lemma getroot_from_hit:
  assumes "array_getguy (knowndevs s) i = Some kd" and "clash ops (world s) {devname} kd" and "kd_ok kd"
  shows "getroot_from ops devname i (Suc k) s = root_answer ops devname kd s"
proof (cases "kd_fs kd")
  case None
  then have d: "kd_device kd \<noteq> None" using assms(3) by (auto simp: kd_ok_def)
  show ?thesis using None assms(1,2) by (auto simp: give_vnode_eq [OF d] root_answer_def clash_one)
next
  case (Some fs)
  show ?thesis
  proof (cases "kd_name kd = devname \<or> FSOP_GETVOLNAME ops fs (world s) = Some devname")
    case True
    have "(do { (vn, w) \<leftarrow> FSOP_GETROOT ops fs (world s); Some (Inr vn, s\<lparr>world := w\<rparr>) }) =
        map_option (\<lambda>(vn, w). (Inr vn, s\<lparr>world := w\<rparr>)) (FSOP_GETROOT ops fs (world s))"
      by (cases "FSOP_GETROOT ops fs (world s)") auto
    then show ?thesis using True Some assms(1) by (simp add: root_answer_def)
  next
    case False
    then have raw: "kd_rawname kd = Some devname" using assms(2) Some by (auto simp: clash_one)
    then have d: "kd_device kd \<noteq> None" using assms(3) by (auto simp: kd_ok_def)
    show ?thesis using False Some raw assms(1) by (simp add: give_vnode_eq [OF d] root_answer_def)
  qed
qed

lemma getroot_from_spec:
  assumes "array_inv (knowndevs s)" and "i + k = length (devs s)" and "\<forall>kd \<in> set (devs s). kd_ok kd"
  shows "getroot_from ops devname i k s =
    (case filter (clash ops (world s) {devname}) (drop i (devs s)) of [] \<Rightarrow> Some (Inl ENODEV, s) | kd # _ \<Rightarrow> root_answer ops devname kd s)"
  using assms(2)
proof (induction k arbitrary: i)
  case (Suc k)
  have i: "i < length (devs s)" using Suc.prems by simp
  note g = getguy_devs [OF assms(1) i]
  show ?case
  proof (cases "clash ops (world s) {devname} (devs s ! i)")
    case True
    then show ?thesis using getroot_from_hit [OF g True, of k] assms(3) i by (simp add: drop_devs [OF Suc.prems])
  next
    case False
    then show ?thesis using getroot_from_skip [OF g False, of k] Suc.IH [of "i + 1"] Suc.prems by (simp add: drop_devs [OF Suc.prems])
  qed
qed simp

lemma root_answer_busy:
  "\<not> knowndevs_lock s \<Longrightarrow> (do { (r, s2) \<leftarrow> root_answer ops devname kd (busy s); s3 \<leftarrow> release_knowndevs s2; Some (r, s3) }) = root_answer ops devname kd s"
  by (cases "kd_fs kd"; cases "FSOP_GETROOT ops (the (kd_fs kd)) (world s)"; cases "VOP_INCREF ops (kd_vnode kd) (world s)")
    (auto simp: root_answer_def release_knowndevs_def unbusy unbusy_world)

lemma vfs_getroot_spec:
  assumes "vfs_inv s"
  shows "vfs_getroot ops devname s =
    (case filter (clash ops (world s) {devname}) (devs s) of [] \<Rightarrow> Some (Inl ENODEV, s) | kd # _ \<Rightarrow> root_answer ops devname kd s)"
proof -
  have i: "array_inv (knowndevs s)" "\<not> knowndevs_lock s" "\<forall>kd \<in> set (devs s). kd_ok kd" using assms by (simp_all add: vfs_inv_def)
  have "getroot_from ops devname 0 (array_getnum (knowndevs (busy s))) (busy s) =
      (case filter (clash ops (world s) {devname}) (devs s) of [] \<Rightarrow> Some (Inl ENODEV, busy s) | kd # _ \<Rightarrow> root_answer ops devname kd (busy s))"
    using getroot_from_spec [of "busy s" 0 "length (devs s)" ops devname] i getnum_devs [OF i(1)] by simp
  then show ?thesis using root_answer_busy [OF i(2), of ops devname] i(2)
    by (auto simp: vfs_getroot_def acquire_ok [OF assms] release_knowndevs_def unbusy split: list.splits)
qed

text \<open>A name that no volume has belongs to one device at most.\<close>

lemma distinct_concat_unique:
  "distinct (concat (map f xs)) \<Longrightarrow> x \<in> set xs \<Longrightarrow> y \<in> set xs \<Longrightarrow> n \<in> set (f x) \<Longrightarrow> n \<in> set (f y) \<Longrightarrow> x = y"
  by (induction xs) auto

lemma getroot_unique:
  assumes inv: "vfs_inv s" and kd: "kd \<in> set (devs s)" "devname \<in> set (dev_names kd)"
    and vol: "\<forall>d \<in> set (devs s). \<forall>fs. kd_fs d = Some fs \<and> FSOP_GETVOLNAME ops fs (world s) = Some devname \<longrightarrow> d = kd"
  shows "vfs_getroot ops devname s = root_answer ops devname kd s"
proof -
  have u: "d = kd" if "d \<in> set (devs s)" "clash ops (world s) {devname} d" for d
  proof (cases "devname \<in> set (dev_names d)")
    case True
    then show ?thesis using distinct_concat_unique [of dev_names "devs s" d kd devname] that(1) kd inv by (simp add: vfs_inv_def)
  next
    case False
    then show ?thesis using that vol by (auto simp: clash_def)
  qed
  have m: "kd \<in> set (filter (clash ops (world s) {devname}) (devs s))" using kd by (auto simp: clash_def)
  obtain d ds where f: "filter (clash ops (world s) {devname}) (devs s) = d # ds" using m by (cases "filter (clash ops (world s) {devname}) (devs s)") auto
  then have "d \<in> set (filter (clash ops (world s) {devname}) (devs s))" by simp
  then have "d = kd" using u by simp
  then show ?thesis unfolding vfs_getroot_spec [OF inv] f by simp
qed

end
