(* ===== verification/Vfs_path.thy ===== *)
theory Vfs_path
  imports Vfs_list Sfs_ops "HOL-Library.Multiset"
begin

text \<open>
  Paths: \<^verbatim>\<open>kern/fs/vfs/vfslookup.c\<close>, \<^verbatim>\<open>vfscwd.c\<close> and \<^verbatim>\<open>vfspath.c\<close>, over any table of vnode operations. A path is the string of its bytes;
  that \<^verbatim>\<open>getdevice\<close> cuts the caller's string in two is not visible, since no caller looks at it again.
\<close>

section \<open>The current directory\<close>

definition vfs_getcurdir :: "('v, 'f, 'w) vops \<Rightarrow> ('v, 'f, 'w) vfs \<Rightarrow> ('v res \<times> ('v, 'f, 'w) vfs) option" where
  "vfs_getcurdir ops s =
     (case t_cwd s of
        Some vn \<Rightarrow> do {
          w \<leftarrow> VOP_INCREF ops vn (world s);
          Some (Inr vn, s\<lparr>world := w\<rparr>)
        }
      | None \<Rightarrow> Some (Inl ENOENT, s))"

text \<open>A call on a vnode that changes nothing but the state behind the tables.\<close>

definition on_world :: "('w \<Rightarrow> ('a \<times> 'w) option) \<Rightarrow> ('v, 'f, 'w) vfs \<Rightarrow> ('a \<times> ('v, 'f, 'w) vfs) option" where
  "on_world f s = do {
     (r, w) \<leftarrow> f (world s);
     Some (r, s\<lparr>world := w\<rparr>)
   }"

definition decref :: "('v, 'f, 'w) vops \<Rightarrow> 'v \<Rightarrow> ('v, 'f, 'w) vfs \<Rightarrow> ('v, 'f, 'w) vfs option" where
  "decref ops vn s = do {
     w \<leftarrow> VOP_DECREF ops vn (world s);
     Some (s\<lparr>world := w\<rparr>)
   }"

definition S_IFMT :: nat where "S_IFMT = 28672"

definition vfs_setcurdir :: "('v, 'f, 'w) vops \<Rightarrow> 'v \<Rightarrow> ('v, 'f, 'w) vfs \<Rightarrow> (unit res \<times> ('v, 'f, 'w) vfs) option" where
  "vfs_setcurdir ops dir s =
     ebind (on_world (VOP_GETTYPE ops dir) s) (\<lambda>vtype s1.
       if and vtype S_IFMT \<noteq> S_IFDIR then Some (Inl ENOTDIR, s1)
       else do {
         let s2 = s1\<lparr>t_cwd := Some dir\<rparr>;
         s3 \<leftarrow> (case t_cwd s1 of None \<Rightarrow> Some s2 | Some old \<Rightarrow> decref ops old s2);
         Some (Inr (), s3)
       })"

definition vfs_clearcurdir :: "('v, 'f, 'w) vops \<Rightarrow> ('v, 'f, 'w) vfs \<Rightarrow> (unit res \<times> ('v, 'f, 'w) vfs) option" where
  "vfs_clearcurdir ops s = do {
     let s1 = s\<lparr>t_cwd := None\<rparr>;
     s2 \<leftarrow> (case t_cwd s of None \<Rightarrow> Some s1 | Some old \<Rightarrow> decref ops old s1);
     Some (Inr (), s2)
   }"

section \<open>Where a path starts\<close>

definition colon :: byte where "colon = 58"
definition slash :: byte where "slash = 47"

text \<open>The first colon or slash: the places \<^verbatim>\<open>slash\<close> and \<^verbatim>\<open>colon\<close> of \<^verbatim>\<open>getdevice\<close>, \<open>None\<close> for -1.\<close>

fun find_sep :: "byte list \<Rightarrow> nat \<Rightarrow> nat option \<times> nat option" where
  "find_sep [] i = (None, None)"
| "find_sep (c # cs) i = (if c = colon then (None, Some i) else if c = slash then (Some i, None) else find_sep cs (i + 1))"

fun skip_slashes :: "byte list \<Rightarrow> byte list" where
  "skip_slashes [] = []"
| "skip_slashes (c # cs) = (if c = slash then skip_slashes cs else c # cs)"

definition acquire_bootfs :: "('v, 'f, 'w) vfs \<Rightarrow> ('v, 'f, 'w) vfs option" where
  "acquire_bootfs s = do {
     _ \<leftarrow> kassert (\<not> bootfs_lock s);
     Some (s\<lparr>bootfs_lock := True\<rparr>)
   }"

definition release_bootfs :: "('v, 'f, 'w) vfs \<Rightarrow> ('v, 'f, 'w) vfs option" where
  "release_bootfs s = do {
     _ \<leftarrow> kassert (bootfs_lock s);
     Some (s\<lparr>bootfs_lock := False\<rparr>)
   }"

text \<open>The two cases \<^verbatim>\<open>/path\<close> and \<^verbatim>\<open>:path\<close>.\<close>

definition start_bootfs :: "('v, 'f, 'w) vops \<Rightarrow> ('v, 'f, 'w) vfs \<Rightarrow> ('v res \<times> ('v, 'f, 'w) vfs) option" where
  "start_bootfs ops s = do {
     s1 \<leftarrow> acquire_bootfs s;
     (case bootfs_vnode s1 of
        None \<Rightarrow> do {
          s2 \<leftarrow> release_bootfs s1;
          Some (Inl ENOENT, s2)
        }
      | Some vn \<Rightarrow> do {
          w \<leftarrow> VOP_INCREF ops vn (world s1);
          s2 \<leftarrow> release_bootfs (s1\<lparr>world := w\<rparr>);
          Some (Inr vn, s2)
        })
   }"

definition start_curfs :: "('v, 'f, 'w) vops \<Rightarrow> ('v, 'f, 'w) vfs \<Rightarrow> ('v res \<times> ('v, 'f, 'w) vfs) option" where
  "start_curfs ops s =
     ebind (vfs_getcurdir ops s) (\<lambda>vn s1. do {
       fs \<leftarrow> vn_fs ops vn (world s1);
       (root, s2) \<leftarrow> on_world (FSOP_GETROOT ops fs) s1;
       s3 \<leftarrow> decref ops vn s2;
       Some (Inr root, s3)
     })"

definition getdevice :: "('v, 'f, 'w) vops \<Rightarrow> byte list \<Rightarrow> ('v, 'f, 'w) vfs \<Rightarrow> ((byte list \<times> 'v) res \<times> ('v, 'f, 'w) vfs) option" where
  "getdevice ops path s =
     (case find_sep path 0 of
        (sl, None) \<Rightarrow>
          if sl \<noteq> Some 0 then ebind (vfs_getcurdir ops s) (\<lambda>vn s1. Some (Inr (path, vn), s1))
          else ebind (start_bootfs ops s) (\<lambda>vn s1. Some (Inr (skip_slashes (drop 1 path), vn), s1))
      | (_, Some c) \<Rightarrow>
          if c > 0 then ebind (vfs_getroot ops (take c path) s) (\<lambda>vn s1. Some (Inr (skip_slashes (drop (c + 1) path), vn), s1))
          else ebind (start_curfs ops s) (\<lambda>vn s1. Some (Inr (skip_slashes (drop 1 path), vn), s1)))"

section \<open>Lookup\<close>

definition vfs_lookparent :: "('v, 'f, 'w) vops \<Rightarrow> byte list \<Rightarrow> nat \<Rightarrow> ('v, 'f, 'w) vfs \<Rightarrow> (('v \<times> byte list) res \<times> ('v, 'f, 'w) vfs) option" where
  "vfs_lookparent ops path buflen s =
     ebind (getdevice ops path s) (\<lambda>(sub, startvn) s1. do {
       (r, s2) \<leftarrow> (if length sub = 0 then Some (Inl EINVAL, s1) else on_world (VOP_LOOKPARENT ops startvn sub buflen) s1);
       s3 \<leftarrow> decref ops startvn s2;
       Some (r, s3)
     })"

definition vfs_lookup :: "('v, 'f, 'w) vops \<Rightarrow> byte list \<Rightarrow> ('v, 'f, 'w) vfs \<Rightarrow> ('v res \<times> ('v, 'f, 'w) vfs) option" where
  "vfs_lookup ops path s =
     ebind (getdevice ops path s) (\<lambda>(sub, startvn) s1.
       if length sub = 0 then Some (Inr startvn, s1)
       else do {
         (r, s2) \<leftarrow> on_world (VOP_LOOKUP ops startvn sub) s1;
         s3 \<leftarrow> decref ops startvn s2;
         Some (r, s3)
       })"

definition vfs_chdir :: "('v, 'f, 'w) vops \<Rightarrow> byte list \<Rightarrow> ('v, 'f, 'w) vfs \<Rightarrow> (unit res \<times> ('v, 'f, 'w) vfs) option" where
  "vfs_chdir ops path s =
     ebind (vfs_lookup ops path s) (\<lambda>vn s1. do {
       (r, s2) \<leftarrow> vfs_setcurdir ops vn s1;
       s3 \<leftarrow> (case r of Inl _ \<Rightarrow> decref ops vn s2 | Inr _ \<Rightarrow> Some s2);
       Some (r, s3)
     })"

text \<open>\<^verbatim>\<open>vfs_getcwd\<close>: the volume's or the device's name, a colon and what the file system adds.\<close>

definition vfs_getcwd :: "('v, 'f, 'w) vops \<Rightarrow> uio \<Rightarrow> ('v, 'f, 'w) vfs \<Rightarrow> (unit res \<times> uio \<times> ('v, 'f, 'w) vfs) option" where
  "vfs_getcwd ops u s = do {
     _ \<leftarrow> kassert (uio_rw u = UIO_READ);
     (r, s1) \<leftarrow> vfs_getcurdir ops s;
     (case r of
        Inl e \<Rightarrow> Some (Inl e, u, s1)
      | Inr cwd \<Rightarrow> do {
          fs \<leftarrow> vn_fs ops cwd (world s1);
          (name, s2) \<leftarrow> (case FSOP_GETVOLNAME ops fs (world s1) of
                            Some n \<Rightarrow> Some (Some n, s1)
                          | None \<Rightarrow> vfs_getdevname fs s1);
          n \<leftarrow> name;
          (r1, _, u1) \<leftarrow> uiomove n (length n) u;
          (r2, u2) \<leftarrow> (case r1 of
                          Inl e \<Rightarrow> Some (Inl e, u1)
                        | Inr _ \<Rightarrow> do {
                            (q, _, u2) \<leftarrow> uiomove [colon] 1 u1;
                            Some (q, u2)
                          });
          (r3, u3, w) \<leftarrow> (case r2 of
                             Inl e \<Rightarrow> Some (Inl e, u2, world s2)
                           | Inr _ \<Rightarrow> VOP_NAMEFILE ops cwd u2 (world s2));
          s3 \<leftarrow> decref ops cwd (s2\<lparr>world := w\<rparr>);
          Some (r3, u3, s3)
        })
   }"

section \<open>The boot file system\<close>

definition change_bootfs :: "('v, 'f, 'w) vops \<Rightarrow> 'v option \<Rightarrow> ('v, 'f, 'w) vfs \<Rightarrow> ('v, 'f, 'w) vfs option" where
  "change_bootfs ops newguy s = do {
     s1 \<leftarrow> acquire_bootfs s;
     let oldguy = bootfs_vnode s1;
     s2 \<leftarrow> release_bootfs (s1\<lparr>bootfs_vnode := newguy\<rparr>);
     (case oldguy of None \<Rightarrow> Some s2 | Some old \<Rightarrow> decref ops old s2)
   }"

definition NAME_MAX :: nat where "NAME_MAX = 255"

text \<open>\<^verbatim>\<open>vfs_setbootfs\<close>: the name is cut to fit the buffer; the test of the rest after a colon is the code's.\<close>

definition vfs_setbootfs :: "('v, 'f, 'w) vops \<Rightarrow> byte list \<Rightarrow> ('v, 'f, 'w) vfs \<Rightarrow> (unit res \<times> ('v, 'f, 'w) vfs) option" where
  "vfs_setbootfs ops fsname s =
     (let tmp = take (NAME_MAX - 1) fsname;
          rest = dropWhile (\<lambda>c. c \<noteq> colon) tmp
      in if rest \<noteq> [] \<and> length rest > 0 then Some (Inl EINVAL, s)
         else
           ebind (vfs_chdir ops (if rest \<noteq> [] then tmp else tmp @ [colon]) s) (\<lambda>_ s1.
           ebind (vfs_getcurdir ops s1) (\<lambda>newguy s2. do {
             s3 \<leftarrow> change_bootfs ops (Some newguy) s2;
             Some (Inr (), s3)
           })))"

definition vfs_clearbootfs :: "('v, 'f, 'w) vops \<Rightarrow> ('v, 'f, 'w) vfs \<Rightarrow> ('v, 'f, 'w) vfs option" where
  "vfs_clearbootfs ops s = change_bootfs ops None s"

section \<open>Operations on paths\<close>

text \<open>The end of \<^verbatim>\<open>vfs_open\<close>, with the vnode found or created.\<close>

definition open_vnode :: "('v, 'f, 'w) vops \<Rightarrow> 'v \<Rightarrow> nat \<Rightarrow> ('v, 'f, 'w) vfs \<Rightarrow> ('v res \<times> ('v, 'f, 'w) vfs) option" where
  "open_vnode ops vn openflags s = do {
     (r, s1) \<leftarrow> on_world (VOP_OPEN ops vn openflags) s;
     (case r of
        Inl e \<Rightarrow> do {
          s2 \<leftarrow> decref ops vn s1;
          Some (Inl e, s2)
        }
      | Inr _ \<Rightarrow> do {
          w \<leftarrow> VOP_INCOPEN ops vn (world s1);
          let s2 = s1\<lparr>world := w\<rparr>;
          (r, s3) \<leftarrow> (if has_flag openflags O_TRUNC then
                         (if and openflags O_ACCMODE = 0 then Some (Inl EINVAL, s2) else on_world (VOP_TRUNCATE ops vn 0) s2)
                       else Some (Inr (), s2));
          (case r of
             Inl e \<Rightarrow> do {
               w \<leftarrow> VOP_DECOPEN ops vn (world s3);
               s4 \<leftarrow> decref ops vn (s3\<lparr>world := w\<rparr>);
               Some (Inl e, s4)
             }
           | Inr _ \<Rightarrow> Some (Inr vn, s3))
        })
   }"

definition vfs_open :: "('v, 'f, 'w) vops \<Rightarrow> byte list \<Rightarrow> nat \<Rightarrow> ('v, 'f, 'w) vfs \<Rightarrow> ('v res \<times> ('v, 'f, 'w) vfs) option" where
  "vfs_open ops path openflags s =
     (if and openflags O_ACCMODE = 3 then Some (Inl EINVAL, s)
      else
        ebind (if has_flag openflags O_CREAT then
                 ebind (vfs_lookparent ops path (NAME_MAX + 1) s) (\<lambda>(dir, name) s1. do {
                   (r, s2) \<leftarrow> on_world (VOP_CREAT ops dir name (has_flag openflags O_EXCL)) s1;
                   s3 \<leftarrow> decref ops dir s2;
                   Some (r, s3)
                 })
               else vfs_lookup ops path s)
          (\<lambda>vn s1. open_vnode ops vn openflags s1))"

definition vfs_close :: "('v, 'f, 'w) vops \<Rightarrow> 'v \<Rightarrow> ('v, 'f, 'w) vfs \<Rightarrow> ('v, 'f, 'w) vfs option" where
  "vfs_close ops vn s = do {
     w \<leftarrow> VOP_DECOPEN ops vn (world s);
     decref ops vn (s\<lparr>world := w\<rparr>)
   }"

text \<open>The common shape of \<^verbatim>\<open>vfs_remove\<close>, \<^verbatim>\<open>vfs_symlink\<close>, \<^verbatim>\<open>vfs_mkdir\<close> and \<^verbatim>\<open>vfs_rmdir\<close>: a call on the parent directory.\<close>

definition at_parent :: "('v, 'f, 'w) vops \<Rightarrow> byte list \<Rightarrow> ('v \<Rightarrow> byte list \<Rightarrow> 'w \<Rightarrow> (unit res \<times> 'w) option) \<Rightarrow>
    ('v, 'f, 'w) vfs \<Rightarrow> (unit res \<times> ('v, 'f, 'w) vfs) option" where
  "at_parent ops path f s =
     ebind (vfs_lookparent ops path (NAME_MAX + 1) s) (\<lambda>(dir, name) s1. do {
       (r, s2) \<leftarrow> on_world (f dir name) s1;
       s3 \<leftarrow> decref ops dir s2;
       Some (r, s3)
     })"

definition vfs_remove :: "('v, 'f, 'w) vops \<Rightarrow> byte list \<Rightarrow> ('v, 'f, 'w) vfs \<Rightarrow> (unit res \<times> ('v, 'f, 'w) vfs) option" where
  "vfs_remove ops path s = at_parent ops path (VOP_REMOVE ops) s"

definition vfs_symlink :: "('v, 'f, 'w) vops \<Rightarrow> byte list \<Rightarrow> byte list \<Rightarrow> ('v, 'f, 'w) vfs \<Rightarrow> (unit res \<times> ('v, 'f, 'w) vfs) option" where
  "vfs_symlink ops target path s = at_parent ops path (\<lambda>dir name. VOP_SYMLINK ops dir name target) s"

definition vfs_mkdir :: "('v, 'f, 'w) vops \<Rightarrow> byte list \<Rightarrow> ('v, 'f, 'w) vfs \<Rightarrow> (unit res \<times> ('v, 'f, 'w) vfs) option" where
  "vfs_mkdir ops path s = at_parent ops path (VOP_MKDIR ops) s"

definition vfs_rmdir :: "('v, 'f, 'w) vops \<Rightarrow> byte list \<Rightarrow> ('v, 'f, 'w) vfs \<Rightarrow> (unit res \<times> ('v, 'f, 'w) vfs) option" where
  "vfs_rmdir ops path s = at_parent ops path (VOP_RMDIR ops) s"

text \<open>Two vnodes on one file system.\<close>

definition same_fs_as :: "('v, 'f, 'w) vops \<Rightarrow> 'v \<Rightarrow> 'v \<Rightarrow> 'w \<Rightarrow> bool" where
  "same_fs_as ops a b w \<longleftrightarrow> vn_fs ops a w \<noteq> None \<and> vn_fs ops b w \<noteq> None \<and> vn_fs ops a w = vn_fs ops b w"

definition vfs_rename :: "('v, 'f, 'w) vops \<Rightarrow> byte list \<Rightarrow> byte list \<Rightarrow> ('v, 'f, 'w) vfs \<Rightarrow> (unit res \<times> ('v, 'f, 'w) vfs) option" where
  "vfs_rename ops oldpath newpath s =
     ebind (vfs_lookparent ops oldpath (NAME_MAX + 1) s) (\<lambda>(olddir, oldname) s1. do {
       (r, s2) \<leftarrow> vfs_lookparent ops newpath (NAME_MAX + 1) s1;
       (case r of
          Inl e \<Rightarrow> do {
            s3 \<leftarrow> decref ops olddir s2;
            Some (Inl e, s3)
          }
        | Inr (newdir, newname) \<Rightarrow> do {
            (r, s3) \<leftarrow> (if \<not> same_fs_as ops olddir newdir (world s2) then Some (Inl EXDEV, s2)
                         else on_world (VOP_RENAME ops olddir oldname newdir newname) s2);
            s4 \<leftarrow> decref ops newdir s3;
            s5 \<leftarrow> decref ops olddir s4;
            Some (r, s5)
          })
     })"

definition vfs_link :: "('v, 'f, 'w) vops \<Rightarrow> byte list \<Rightarrow> byte list \<Rightarrow> ('v, 'f, 'w) vfs \<Rightarrow> (unit res \<times> ('v, 'f, 'w) vfs) option" where
  "vfs_link ops oldpath newpath s =
     ebind (vfs_lookup ops oldpath s) (\<lambda>oldfile s1. do {
       (r, s2) \<leftarrow> vfs_lookparent ops newpath (NAME_MAX + 1) s1;
       (case r of
          Inl e \<Rightarrow> do {
            s3 \<leftarrow> decref ops oldfile s2;
            Some (Inl e, s3)
          }
        | Inr (newdir, newname) \<Rightarrow> do {
            (r, s3) \<leftarrow> (if \<not> same_fs_as ops oldfile newdir (world s2) then Some (Inl EXDEV, s2)
                         else on_world (VOP_LINK ops newdir newname oldfile) s2);
            s4 \<leftarrow> decref ops newdir s3;
            s5 \<leftarrow> decref ops oldfile s4;
            Some (r, s5)
          })
     })"

definition vfs_readlink :: "('v, 'f, 'w) vops \<Rightarrow> byte list \<Rightarrow> uio \<Rightarrow> ('v, 'f, 'w) vfs \<Rightarrow> (unit res \<times> uio \<times> ('v, 'f, 'w) vfs) option" where
  "vfs_readlink ops path u s = do {
     (r, s1) \<leftarrow> vfs_lookup ops path s;
     (case r of
        Inl e \<Rightarrow> Some (Inl e, u, s1)
      | Inr vn \<Rightarrow> do {
          (r, u1, w) \<leftarrow> VOP_READLINK ops vn u (world s1);
          s2 \<leftarrow> decref ops vn (s1\<lparr>world := w\<rparr>);
          Some (r, u1, s2)
        })
   }"

section \<open>Counting references\<close>

text \<open>
  How an operation may change the counts \<open>refs\<close> of the vnodes. A vnode that nobody refers to may be loaded on the way and stay
  with a count of 1 when it cannot be reclaimed; a vnode in use changes only as stated.
\<close>

definition quiet :: "('w \<Rightarrow> 'v \<Rightarrow> nat) \<Rightarrow> 'w \<Rightarrow> 'w \<Rightarrow> bool" where
  "quiet refs w w' \<longleftrightarrow> (\<forall>x. if 0 < refs w x then refs w' x = refs w x else refs w' x \<le> 1)"

definition gains :: "('w \<Rightarrow> 'v \<Rightarrow> nat) \<Rightarrow> 'v \<Rightarrow> 'w \<Rightarrow> 'w \<Rightarrow> bool" where
  "gains refs vn w w' \<longleftrightarrow> refs w' vn = refs w vn + 1 \<and> (\<forall>x. x \<noteq> vn \<longrightarrow> (if 0 < refs w x then refs w' x = refs w x else refs w' x \<le> 1))"

definition drops :: "('w \<Rightarrow> 'v \<Rightarrow> nat) \<Rightarrow> 'v \<Rightarrow> 'w \<Rightarrow> 'w \<Rightarrow> bool" where
  "drops refs vn w w' \<longleftrightarrow> (if 1 < refs w vn then refs w' vn = refs w vn - 1 else refs w' vn \<le> 1) \<and> (\<forall>x. x \<noteq> vn \<longrightarrow> refs w' x = refs w x)"

text \<open>What an operation that hands back a vnode does: on success the vnode has one reference more.\<close>

definition hands :: "('w \<Rightarrow> 'v \<Rightarrow> nat) \<Rightarrow> 'v res \<Rightarrow> 'w \<Rightarrow> 'w \<Rightarrow> bool" where
  "hands refs r w w' \<longleftrightarrow> (case r of Inl _ \<Rightarrow> quiet refs w w' | Inr vn \<Rightarrow> gains refs vn w w')"

text \<open>The counts when the references \<open>M\<close> have been taken since \<open>w0\<close> and not given back.\<close>

definition acct :: "('w \<Rightarrow> 'v \<Rightarrow> nat) \<Rightarrow> 'w \<Rightarrow> 'v multiset \<Rightarrow> 'w \<Rightarrow> bool" where
  "acct refs w0 M w \<longleftrightarrow> (\<forall>x. if 0 < refs w0 x then refs w x = refs w0 x + count M x else count M x \<le> refs w x \<and> refs w x \<le> count M x + 1)"

lemma acct_start: "acct refs w {#} w"
  by (simp add: acct_def)

lemma acct_quiet:
  assumes "acct refs w0 M w" and "quiet refs w w'"
  shows "acct refs w0 M w'"
  unfolding acct_def
proof
  fix x
  show "if 0 < refs w0 x then refs w' x = refs w0 x + count M x else count M x \<le> refs w' x \<and> refs w' x \<le> count M x + 1"
    using assms [unfolded acct_def quiet_def, THEN spec, of x] by (auto split: if_splits)
qed

lemma acct_gains:
  assumes "acct refs w0 M w" and "gains refs vn w w'"
  shows "acct refs w0 (add_mset vn M) w'"
  unfolding acct_def
proof
  fix x
  show "if 0 < refs w0 x then refs w' x = refs w0 x + count (add_mset vn M) x
      else count (add_mset vn M) x \<le> refs w' x \<and> refs w' x \<le> count (add_mset vn M) x + 1"
    using assms(1) [unfolded acct_def, THEN spec, of x] assms(2) [unfolded gains_def] by (auto split: if_splits)
qed

lemma acct_drops:
  assumes "acct refs w0 (add_mset vn M) w" and "drops refs vn w w'"
  shows "acct refs w0 M w'"
  unfolding acct_def
proof
  fix x
  show "if 0 < refs w0 x then refs w' x = refs w0 x + count M x else count M x \<le> refs w' x \<and> refs w' x \<le> count M x + 1"
    using assms(1) [unfolded acct_def, THEN spec, of x] assms(2) [unfolded drops_def] by (cases "x = vn") (auto split: if_splits)
qed

lemma acct_hands: "acct refs w0 M w \<Longrightarrow> hands refs r w w' \<Longrightarrow> acct refs w0 (case r of Inl _ \<Rightarrow> M | Inr vn \<Rightarrow> add_mset vn M) w'"
  using acct_quiet acct_gains by (fastforce simp: hands_def split: sum.splits)

text \<open>Counts that an increment does not wrap around.\<close>

definition small :: "('w \<Rightarrow> 'v \<Rightarrow> nat) \<Rightarrow> 'w \<Rightarrow> bool" where
  "small refs w \<longleftrightarrow> (\<forall>x. refs w x < 2 ^ 31 - 1)"

definition roomy :: "('w \<Rightarrow> 'v \<Rightarrow> nat) \<Rightarrow> 'w \<Rightarrow> bool" where
  "roomy refs w \<longleftrightarrow> (\<forall>x. refs w x < 2 ^ 31 - 8)"

lemma acct_small:
  assumes "acct refs w0 M w" and "roomy refs w0" and "size M \<le> 5"
  shows "small refs w"
  unfolding small_def
proof
  fix x
  have "count M x \<le> 5" using count_le_size [of M x] assms(3) by linarith
  then show "refs w x < 2 ^ 31 - 1" using assms(1) [unfolded acct_def, THEN spec, of x] assms(2) [unfolded roomy_def, THEN spec, of x]
    by (auto split: if_splits)
qed

section \<open>Calls\<close>

text \<open>The operations of the VFS layer on paths, and what a call gives the caller: \<^verbatim>\<open>vfs_open\<close> a vnode, the others nothing.\<close>

datatype vfs_call =
    C_open "byte list" nat
  | C_remove "byte list"
  | C_rename "byte list" "byte list"
  | C_link "byte list" "byte list"
  | C_symlink "byte list" "byte list"
  | C_readlink "byte list" uio
  | C_mkdir "byte list"
  | C_rmdir "byte list"
  | C_getcwd uio

definition vfs_call :: "('v, 'f, 'w) vops \<Rightarrow> vfs_call \<Rightarrow> ('v, 'f, 'w) vfs \<Rightarrow> ('v option res \<times> ('v, 'f, 'w) vfs) option" where
  "vfs_call ops c s =
     (let plain = map_option (\<lambda>(r, s'). (map_sum id (\<lambda>_. None) r, s')); with_uio = map_option (\<lambda>(r, u, s'). (map_sum id (\<lambda>_. None) r, s'))
      in case c of
           C_open path flags \<Rightarrow> map_option (\<lambda>(r, s'). (map_sum id Some r, s')) (vfs_open ops path flags s)
         | C_remove path \<Rightarrow> plain (vfs_remove ops path s)
         | C_rename p q \<Rightarrow> plain (vfs_rename ops p q s)
         | C_link p q \<Rightarrow> plain (vfs_link ops p q s)
         | C_symlink target path \<Rightarrow> plain (vfs_symlink ops target path s)
         | C_readlink path u \<Rightarrow> with_uio (vfs_readlink ops path u s)
         | C_mkdir path \<Rightarrow> plain (vfs_mkdir ops path s)
         | C_rmdir path \<Rightarrow> plain (vfs_rmdir ops path s)
         | C_getcwd u \<Rightarrow> with_uio (vfs_getcwd ops u s))"

locale counted_vnodes =
  fixes ops :: "('v, 'f, 'w) vops" and refs :: "'w \<Rightarrow> 'v \<Rightarrow> nat"
  assumes incref_gains: "small refs w \<Longrightarrow> VOP_INCREF ops vn w = Some w' \<Longrightarrow> gains refs vn w w'"
    and decref_drops: "small refs w \<Longrightarrow> VOP_DECREF ops vn w = Some w' \<Longrightarrow> drops refs vn w w'"
    and lookup_hands: "small refs w \<Longrightarrow> VOP_LOOKUP ops vn path w = Some (r, w') \<Longrightarrow> hands refs r w w'"
    and lookparent_hands: "small refs w \<Longrightarrow> VOP_LOOKPARENT ops vn path n w = Some (rn, w') \<Longrightarrow> hands refs (map_sum id fst rn) w w'"
    and creat_hands: "small refs w \<Longrightarrow> VOP_CREAT ops vn name excl w = Some (r, w') \<Longrightarrow> hands refs r w w'"
    and getroot_gains: "small refs w \<Longrightarrow> FSOP_GETROOT ops fs w = Some (vn, w') \<Longrightarrow> gains refs vn w w'"
    and incopen_quiet: "small refs w \<Longrightarrow> VOP_INCOPEN ops vn w = Some w' \<Longrightarrow> quiet refs w w'"
    and decopen_quiet: "small refs w \<Longrightarrow> VOP_DECOPEN ops vn w = Some w' \<Longrightarrow> quiet refs w w'"
    and open_quiet: "small refs w \<Longrightarrow> VOP_OPEN ops vn flags w = Some (u, w') \<Longrightarrow> quiet refs w w'"
    and truncate_quiet: "small refs w \<Longrightarrow> VOP_TRUNCATE ops vn len w = Some (u, w') \<Longrightarrow> quiet refs w w'"
    and gettype_quiet: "small refs w \<Longrightarrow> VOP_GETTYPE ops vn w = Some (t, w') \<Longrightarrow> quiet refs w w'"
    and readlink_quiet: "small refs w \<Longrightarrow> VOP_READLINK ops vn ui w = Some (u, ui', w') \<Longrightarrow> quiet refs w w'"
    and namefile_quiet: "small refs w \<Longrightarrow> VOP_NAMEFILE ops vn ui w = Some (u, ui', w') \<Longrightarrow> quiet refs w w'"
    and symlink_quiet: "small refs w \<Longrightarrow> VOP_SYMLINK ops vn name target w = Some (u, w') \<Longrightarrow> quiet refs w w'"
    and mkdir_quiet: "small refs w \<Longrightarrow> VOP_MKDIR ops vn name w = Some (u, w') \<Longrightarrow> quiet refs w w'"
    and link_quiet: "small refs w \<Longrightarrow> VOP_LINK ops vn name vf w = Some (u, w') \<Longrightarrow> quiet refs w w'"
    and remove_quiet: "small refs w \<Longrightarrow> VOP_REMOVE ops vn name w = Some (u, w') \<Longrightarrow> quiet refs w w'"
    and rmdir_quiet: "small refs w \<Longrightarrow> VOP_RMDIR ops vn name w = Some (u, w') \<Longrightarrow> quiet refs w w'"
    and rename_quiet: "small refs w \<Longrightarrow> VOP_RENAME ops vn name vf name' w = Some (u, w') \<Longrightarrow> quiet refs w w'"
begin

text \<open>The state of a call in progress: it began in \<open>s0\<close> and holds the references \<open>M\<close>; only the state behind the tables has changed.\<close>

definition during :: "('v, 'f, 'w) vfs \<Rightarrow> 'v multiset \<Rightarrow> ('v, 'f, 'w) vfs \<Rightarrow> bool" where
  "during s0 M s \<longleftrightarrow> roomy refs (world s0) \<and> size M \<le> 5 \<and> acct refs (world s0) M (world s) \<and> (\<exists>w. s = s0\<lparr>world := w\<rparr>)"

lemma during_small: "during s0 M s \<Longrightarrow> small refs (world s)"
  using acct_small by (auto simp: during_def)

lemma during_quiet: "during s0 M s \<Longrightarrow> quiet refs (world s) w \<Longrightarrow> during s0 M (s\<lparr>world := w\<rparr>)"
  using acct_quiet by (fastforce simp: during_def)

lemma during_gains: "during s0 M s \<Longrightarrow> size M < 5 \<Longrightarrow> gains refs vn (world s) w \<Longrightarrow> during s0 (add_mset vn M) (s\<lparr>world := w\<rparr>)"
  using acct_gains by (fastforce simp: during_def)

lemma during_hands:
  "during s0 M s \<Longrightarrow> size M < 5 \<Longrightarrow> hands refs r (world s) w \<Longrightarrow> during s0 (case r of Inl _ \<Rightarrow> M | Inr vn \<Rightarrow> add_mset vn M) (s\<lparr>world := w\<rparr>)"
  using during_quiet during_gains by (fastforce simp: hands_def split: sum.splits)

lemma during_decref:
  assumes "during s0 (add_mset vn M) s" and "decref ops vn s = Some s'"
  shows "during s0 M s'"
proof -
  obtain w where w: "VOP_DECREF ops vn (world s) = Some w" "s' = s\<lparr>world := w\<rparr>" using assms(2) by (auto simp: decref_def bind_eq_Some_conv)
  have "drops refs vn (world s) w" using decref_drops [OF during_small [OF assms(1)] w(1)] .
  then show ?thesis using acct_drops assms(1) w(2) by (fastforce simp: during_def)
qed

end

context counted_vnodes
begin

lemma during_world:
  assumes "during s0 M s" and "on_world f s = Some (r, s')" and "\<And>w'. f (world s) = Some (r, w') \<Longrightarrow> quiet refs (world s) w'"
  shows "during s0 M s'"
  using assms during_quiet by (auto simp: on_world_def bind_eq_Some_conv)

lemma getcurdir_during:
  assumes "during s0 M s" and "size M < 5" and "vfs_getcurdir ops s = Some (r, s')"
  shows "during s0 (case r of Inl _ \<Rightarrow> M | Inr vn \<Rightarrow> add_mset vn M) s'"
  using assms incref_gains [OF during_small [OF assms(1)]] during_gains [OF assms(1,2)]
  by (auto simp: vfs_getcurdir_def bind_eq_Some_conv split: option.splits)

lemma getroot_from_during:
  assumes "during s0 M s" and "size M < 5"
  shows "getroot_from ops devname i k s = Some (r, s') \<Longrightarrow> during s0 (case r of Inl _ \<Rightarrow> M | Inr vn \<Rightarrow> add_mset vn M) s'"
proof (induction k arbitrary: i)
  case 0
  then show ?case using assms(1) by auto
next
  case (Suc k)
  note sm = during_small [OF assms(1)]
  obtain kd where kd: "array_getguy (knowndevs s) i = Some kd" using Suc.prems by (auto simp: bind_eq_Some_conv)
  have give: "during s0 (case r of Inl _ \<Rightarrow> M | Inr vn \<Rightarrow> add_mset vn M) s'" if "give_vnode ops kd s = Some (r, s')"
    using that incref_gains [OF sm] during_gains [OF assms] by (auto simp: give_vnode_def bind_eq_Some_conv split: if_splits)
  have root: "during s0 (case r of Inl _ \<Rightarrow> M | Inr vn \<Rightarrow> add_mset vn M) s'"
    if "(do { (vn, w) \<leftarrow> FSOP_GETROOT ops fs (world s); Some (Inr vn, s\<lparr>world := w\<rparr>) }) = Some (r, s')" for fs
    using that getroot_gains [OF sm] during_gains [OF assms] by (auto simp: bind_eq_Some_conv)
  show ?case using Suc.prems Suc.IH give root assms(1)
    by (auto simp: kd Let_def simp del: bind_eq_Some_conv split: option.splits if_splits)
qed

lemma during_lock:
  "\<not> knowndevs_lock s0 \<Longrightarrow> during (busy s0) M s \<Longrightarrow> during s0 M (s\<lparr>knowndevs_lock := False\<rparr>)"
proof -
  assume a: "\<not> knowndevs_lock s0" "during (busy s0) M s"
  then obtain w where w: "s = busy s0\<lparr>world := w\<rparr>" by (auto simp: during_def)
  then have "s\<lparr>knowndevs_lock := False\<rparr> = s0\<lparr>world := w\<rparr>" using unbusy_world [OF a(1)] by simp
  then show ?thesis using a(2) w by (simp add: during_def) blast
qed

lemma during_busy: "during s0 M s \<Longrightarrow> during (busy s0) M (busy s)"
proof -
  assume a: "during s0 M s"
  then obtain w where w: "s = s0\<lparr>world := w\<rparr>" by (auto simp: during_def)
  then have "busy s = busy s0\<lparr>world := w\<rparr>" by simp
  then show ?thesis using a w unfolding during_def by (intro conjI exI [of _ w]) simp_all
qed

lemma during_sel: "during s0 M s \<Longrightarrow> knowndevs_lock s = knowndevs_lock s0 \<and> bootfs_lock s = bootfs_lock s0 \<and> bootfs_vnode s = bootfs_vnode s0 \<and> t_cwd s = t_cwd s0"
  by (auto simp: during_def)

lemma getroot_during:
  assumes "during s0 M s" and "size M < 5" and "vfs_getroot ops devname s = Some (r, s')"
  shows "during s0 (case r of Inl _ \<Rightarrow> M | Inr vn \<Rightarrow> add_mset vn M) s'"
proof -
  obtain s1 s2 where s: "acquire_knowndevs s = Some s1" "getroot_from ops devname 0 (array_getnum (knowndevs s1)) s1 = Some (r, s2)"
    "release_knowndevs s2 = Some s'" using assms(3) by (auto simp: vfs_getroot_def bind_eq_Some_conv)
  note a = acquire_SomeD [OF s(1)]
  have "during (busy s0) (case r of Inl _ \<Rightarrow> M | Inr vn \<Rightarrow> add_mset vn M) s2"
    using getroot_from_during [OF during_busy [OF assms(1)] assms(2)] s(2) a by simp
  then show ?thesis using during_lock a during_sel [OF assms(1)] release_SomeD [OF s(3)] by auto
qed

lemma start_bootfs_during:
  assumes "during s0 M s" and "size M < 5" and "start_bootfs ops s = Some (r, s')"
  shows "during s0 (case r of Inl _ \<Rightarrow> M | Inr vn \<Rightarrow> add_mset vn M) s'"
proof -
  have l: "\<not> bootfs_lock s" using assms(3) by (auto simp: start_bootfs_def acquire_bootfs_def split: if_splits)
  have free: "s\<lparr>bootfs_lock := False\<rparr> = s" "s\<lparr>world := w, bootfs_lock := False\<rparr> = s\<lparr>world := w\<rparr>" for w using l by (cases s; simp)+
  show ?thesis using assms incref_gains [OF during_small [OF assms(1)]] during_gains [OF assms(1,2)] l
    by (auto simp: start_bootfs_def acquire_bootfs_def release_bootfs_def bind_eq_Some_conv free split: option.splits)
qed

lemma start_curfs_during:
  assumes "during s0 M s" and "size M < 4" and "start_curfs ops s = Some (r, s')"
  shows "during s0 (case r of Inl _ \<Rightarrow> M | Inr vn \<Rightarrow> add_mset vn M) s'"
proof -
  obtain q s1 where q: "vfs_getcurdir ops s = Some (q, s1)" using assms(3) by (auto simp: start_curfs_def ebind_def split: option.splits)
  note d = getcurdir_during [OF assms(1) _ q]
  show ?thesis
  proof (cases q)
    case (Inl e)
    then show ?thesis using assms d q by (auto simp: start_curfs_def)
  next
    case (Inr vn)
    have d1: "during s0 (add_mset vn M) s1" using d assms(2) Inr by simp
    obtain fs root s2 where g: "on_world (FSOP_GETROOT ops fs) s1 = Some (root, s2)" "decref ops vn s2 = Some s'" "r = Inr root"
      using assms(3) q Inr by (auto simp: start_curfs_def bind_eq_Some_conv)
    then obtain w where w: "FSOP_GETROOT ops fs (world s1) = Some (root, w)" "s2 = s1\<lparr>world := w\<rparr>" by (auto simp: on_world_def bind_eq_Some_conv)
    have "during s0 (add_mset root (add_mset vn M)) s2"
      using during_gains [OF d1] assms(2) getroot_gains [OF during_small [OF d1] w(1)] w(2) by simp
    then have "during s0 (add_mset vn (add_mset root M)) s2" by (simp add: add_mset_commute)
    then show ?thesis using during_decref g(2,3) by simp
  qed
qed

lemma getdevice_during:
  assumes "during s0 M s" and "size M < 4" and "getdevice ops path s = Some (r, s')"
  shows "during s0 (case r of Inl _ \<Rightarrow> M | Inr (sub, vn) \<Rightarrow> add_mset vn M) s'"
proof -
  have m: "size M < 5" using assms(2) by simp
  show ?thesis
    using assms(3) getcurdir_during [OF assms(1) m] start_bootfs_during [OF assms(1) m] start_curfs_during [OF assms(1,2)] getroot_during [OF assms(1) m]
    by (fastforce simp: getdevice_def ebind_def split: prod.splits option.splits if_splits sum.splits)
qed

end

context counted_vnodes
begin

lemma lookparent_during:
  assumes "during s0 M s" and "size M < 4" and "vfs_lookparent ops path n s = Some (r, s')"
  shows "during s0 (case r of Inl _ \<Rightarrow> M | Inr (vn, name) \<Rightarrow> add_mset vn M) s'"
proof -
  obtain q s1 where q: "getdevice ops path s = Some (q, s1)" using assms(3) by (auto simp: vfs_lookparent_def ebind_def split: option.splits)
  note d = getdevice_during [OF assms(1,2) q]
  show ?thesis
  proof (cases q)
    case (Inl e)
    then show ?thesis using assms(3) d q by (auto simp: vfs_lookparent_def)
  next
    case (Inr p)
    obtain sub vn where p: "p = (sub, vn)" by (cases p)
    have d1: "during s0 (add_mset vn M) s1" using d Inr p by simp
    obtain s2 where s2: "(if length sub = 0 then Some (Inl EINVAL, s1) else on_world (VOP_LOOKPARENT ops vn sub n) s1) = Some (r, s2)"
      "decref ops vn s2 = Some s'" using assms(3) q Inr p by (auto simp: vfs_lookparent_def bind_eq_Some_conv)
    have "during s0 (add_mset vn (case r of Inl _ \<Rightarrow> M | Inr (x, name) \<Rightarrow> add_mset x M)) s2"
    proof (cases "length sub = 0")
      case True
      then show ?thesis using s2(1) d1 by auto
    next
      case False
      then obtain w where w: "VOP_LOOKPARENT ops vn sub n (world s1) = Some (r, w)" "s2 = s1\<lparr>world := w\<rparr>"
        using s2(1) by (auto simp: on_world_def bind_eq_Some_conv)
      show ?thesis using during_hands [OF d1 _ lookparent_hands [OF during_small [OF d1] w(1)]] assms(2) w(2)
        by (cases r) (auto simp: add_mset_commute)
    qed
    then show ?thesis using during_decref s2(2) by blast
  qed
qed

lemma lookup_during:
  assumes "during s0 M s" and "size M < 4" and "vfs_lookup ops path s = Some (r, s')"
  shows "during s0 (case r of Inl _ \<Rightarrow> M | Inr vn \<Rightarrow> add_mset vn M) s'"
proof -
  obtain q s1 where q: "getdevice ops path s = Some (q, s1)" using assms(3) by (auto simp: vfs_lookup_def ebind_def split: option.splits)
  note d = getdevice_during [OF assms(1,2) q]
  show ?thesis
  proof (cases q)
    case (Inl e)
    then show ?thesis using assms(3) d q by (auto simp: vfs_lookup_def)
  next
    case (Inr p)
    obtain sub vn where p: "p = (sub, vn)" by (cases p)
    have d1: "during s0 (add_mset vn M) s1" using d Inr p by simp
    show ?thesis
    proof (cases "length sub = 0")
      case True
      then show ?thesis using assms(3) q Inr p d1 by (auto simp: vfs_lookup_def)
    next
      case False
      then obtain w where w: "VOP_LOOKUP ops vn sub (world s1) = Some (r, w)" "decref ops vn (s1\<lparr>world := w\<rparr>) = Some s'"
        using assms(3) q Inr p by (auto simp: vfs_lookup_def on_world_def bind_eq_Some_conv)
      have "during s0 (add_mset vn (case r of Inl _ \<Rightarrow> M | Inr x \<Rightarrow> add_mset x M)) (s1\<lparr>world := w\<rparr>)"
        using during_hands [OF d1 _ lookup_hands [OF during_small [OF d1] w(1)]] assms(2) by (cases r) (auto simp: add_mset_commute)
      then show ?thesis using during_decref w(2) by blast
    qed
  qed
qed

lemma open_vnode_during:
  assumes d: "during s0 (add_mset vn M) s" and run: "open_vnode ops vn flags s = Some (r, s')"
  shows "during s0 (case r of Inl _ \<Rightarrow> M | Inr x \<Rightarrow> add_mset x M) s'"
proof -
  obtain q s1 where q: "on_world (VOP_OPEN ops vn flags) s = Some (q, s1)" using run by (auto simp: open_vnode_def bind_eq_Some_conv)
  have d1: "during s0 (add_mset vn M) s1" using during_world [OF d q] open_quiet [OF during_small [OF d]] by blast
  show ?thesis
  proof (cases q)
    case (Inl e)
    then show ?thesis using run q during_decref [OF d1] by (auto simp: open_vnode_def bind_eq_Some_conv)
  next
    case (Inr u)
    obtain w where w: "VOP_INCOPEN ops vn (world s1) = Some w" using run q Inr by (auto simp: open_vnode_def bind_eq_Some_conv)
    let ?s2 = "s1\<lparr>world := w\<rparr>"
    have d2: "during s0 (add_mset vn M) ?s2" using during_quiet [OF d1 incopen_quiet [OF during_small [OF d1] w]] .
    obtain q3 s3 where q3: "(if has_flag flags O_TRUNC then
         (if and flags O_ACCMODE = 0 then Some (Inl EINVAL, ?s2) else on_world (VOP_TRUNCATE ops vn 0) ?s2) else Some (Inr (), ?s2)) = Some (q3, s3)"
      using run q Inr w by (auto simp: open_vnode_def Let_def bind_eq_Some_conv)
    have d3: "during s0 (add_mset vn M) s3"
      using q3 d2 during_world [OF d2, of "VOP_TRUNCATE ops vn 0"] truncate_quiet [OF during_small [OF d2]] by (auto split: if_splits)
    show ?thesis
    proof (cases q3)
      case (Inl e)
      obtain w4 where w4: "VOP_DECOPEN ops vn (world s3) = Some w4" "decref ops vn (s3\<lparr>world := w4\<rparr>) = Some s'" "r = Inl e"
        using run q Inr w q3 Inl by (auto simp: open_vnode_def Let_def bind_eq_Some_conv)
      have "during s0 (add_mset vn M) (s3\<lparr>world := w4\<rparr>)" using during_quiet [OF d3 decopen_quiet [OF during_small [OF d3] w4(1)]] .
      then show ?thesis using during_decref w4(2,3) by simp
    next
      case (Inr u')
      then have "r = Inr vn" "s' = s3" using run q \<open>q = Inr u\<close> w q3 by (auto simp: open_vnode_def Let_def)
      then show ?thesis using d3 by simp
    qed
  qed
qed

lemma open_during:
  assumes d: "during s0 M s" "size M < 3" and run: "vfs_open ops path flags s = Some (r, s')"
  shows "during s0 (case r of Inl _ \<Rightarrow> M | Inr x \<Rightarrow> add_mset x M) s'"
proof (cases "and flags O_ACCMODE = 3")
  case True
  then show ?thesis using run d by (auto simp: vfs_open_def)
next
  case False
  define body where "body = (if has_flag flags O_CREAT then
      ebind (vfs_lookparent ops path (NAME_MAX + 1) s) (\<lambda>(dir, name) s1. do {
        (r, s2) \<leftarrow> on_world (VOP_CREAT ops dir name (has_flag flags O_EXCL)) s1;
        s3 \<leftarrow> decref ops dir s2;
        Some (r, s3)
      })
    else vfs_lookup ops path s)"
  have run': "ebind body (\<lambda>vn s1. open_vnode ops vn flags s1) = Some (r, s')" using run False by (simp add: vfs_open_def body_def)
  then obtain q s1 where q: "body = Some (q, s1)" by (auto simp: ebind_def split: option.splits)
  have "during s0 (case q of Inl _ \<Rightarrow> M | Inr x \<Rightarrow> add_mset x M) s1"
  proof (cases "has_flag flags O_CREAT")
    case False
    then show ?thesis using lookup_during [OF d(1)] d(2) q by (simp add: body_def)
  next
    case True
    obtain p s2 where p: "vfs_lookparent ops path (NAME_MAX + 1) s = Some (p, s2)" using q True by (auto simp: body_def ebind_def split: option.splits)
    note dp = lookparent_during [OF d(1) _ p]
    show ?thesis
    proof (cases p)
      case (Inl e)
      then show ?thesis using dp d(2) q True p by (auto simp: body_def)
    next
      case (Inr dn)
      obtain dir name where dn: "dn = (dir, name)" by (cases dn)
      have d2: "during s0 (add_mset dir M) s2" using dp d(2) Inr dn by simp
      obtain w where w: "VOP_CREAT ops dir name (has_flag flags O_EXCL) (world s2) = Some (q, w)" "decref ops dir (s2\<lparr>world := w\<rparr>) = Some s1"
        using q True p Inr dn by (auto simp: body_def on_world_def bind_eq_Some_conv)
      have "during s0 (add_mset dir (case q of Inl _ \<Rightarrow> M | Inr x \<Rightarrow> add_mset x M)) (s2\<lparr>world := w\<rparr>)"
        using during_hands [OF d2 _ creat_hands [OF during_small [OF d2] w(1)]] d(2) by (cases q) (auto simp: add_mset_commute)
      then show ?thesis using during_decref w(2) by blast
    qed
  qed
  then show ?thesis using run' q open_vnode_during by (cases q) auto
qed

end

context counted_vnodes
begin

lemma at_parent_during:
  assumes d: "during s0 M s" "size M < 4" and run: "at_parent ops path f s = Some (r, s')"
    and f: "\<And>dir name w r' w'. small refs w \<Longrightarrow> f dir name w = Some (r', w') \<Longrightarrow> quiet refs w w'"
  shows "during s0 M s'"
proof -
  obtain q s1 where q: "vfs_lookparent ops path (NAME_MAX + 1) s = Some (q, s1)" using run by (auto simp: at_parent_def ebind_def split: option.splits)
  note d1 = lookparent_during [OF d q]
  show ?thesis
  proof (cases q)
    case (Inl e)
    then show ?thesis using d1 run q by (auto simp: at_parent_def)
  next
    case (Inr p)
    obtain dir name where p: "p = (dir, name)" by (cases p)
    have d2: "during s0 (add_mset dir M) s1" using d1 Inr p by simp
    obtain q2 s2 where s2: "on_world (f dir name) s1 = Some (q2, s2)" "decref ops dir s2 = Some s'"
      using run q Inr p by (auto simp: at_parent_def bind_eq_Some_conv)
    show ?thesis using during_decref [OF during_world [OF d2 s2(1) f [OF during_small [OF d2]]] s2(2)] .
  qed
qed

text \<open>The end of \<^verbatim>\<open>vfs_rename\<close> and \<^verbatim>\<open>vfs_link\<close>: an operation on two vnodes, or none across file systems, and both references given back.\<close>

lemma two_vnodes_during:
  assumes d: "during s0 (add_mset a (add_mset b M)) s2"
    and run: "(if \<not> same_fs_as ops x y (world s2) then Some (Inl EXDEV, s2) else on_world f s2) = Some (r, s3)"
    and f: "\<And>r' w'. f (world s2) = Some (r', w') \<Longrightarrow> quiet refs (world s2) w'"
    and dec: "decref ops a s3 = Some s4" "decref ops b s4 = Some s5"
  shows "during s0 M s5"
proof -
  have "during s0 (add_mset a (add_mset b M)) s3" using run d during_world [OF d, of f r s3] f by (auto split: if_splits)
  then show ?thesis using during_decref dec by blast
qed

lemma rename_during:
  assumes d: "during s0 M s" "size M < 3" and run: "vfs_rename ops oldpath newpath s = Some (r, s')"
  shows "during s0 M s'"
proof -
  obtain q s1 where q: "vfs_lookparent ops oldpath (NAME_MAX + 1) s = Some (q, s1)" using run by (auto simp: vfs_rename_def ebind_def split: option.splits)
  have d1: "during s0 (case q of Inl _ \<Rightarrow> M | Inr (x, name) \<Rightarrow> add_mset x M) s1" using lookparent_during [OF d(1) _ q] d(2) by simp
  show ?thesis
  proof (cases q)
    case (Inl e)
    then show ?thesis using d1 run q by (auto simp: vfs_rename_def)
  next
    case (Inr p)
    obtain od on where p: "p = (od, on)" by (cases p)
    have d2: "during s0 (add_mset od M) s1" using d1 Inr p by simp
    obtain q2 s2 where q2: "vfs_lookparent ops newpath (NAME_MAX + 1) s1 = Some (q2, s2)" using run q Inr p by (auto simp: vfs_rename_def bind_eq_Some_conv)
    have d3: "during s0 (case q2 of Inl _ \<Rightarrow> add_mset od M | Inr (x, name) \<Rightarrow> add_mset x (add_mset od M)) s2" using lookparent_during [OF d2 _ q2] d(2) by simp
    show ?thesis
    proof (cases q2)
      case (Inl e)
      then show ?thesis using d3 run q Inr p q2 during_decref by (auto simp: vfs_rename_def bind_eq_Some_conv)
    next
      case i2: (Inr p2)
      obtain nd nn where p2: "p2 = (nd, nn)" by (cases p2)
      have d4: "during s0 (add_mset nd (add_mset od M)) s2" using d3 i2 p2 by simp
      obtain s3 s4 where "(if \<not> same_fs_as ops od nd (world s2) then Some (Inl EXDEV, s2) else on_world (VOP_RENAME ops od on nd nn) s2) = Some (r, s3)"
        "decref ops nd s3 = Some s4" "decref ops od s4 = Some s'" using run q Inr p q2 i2 p2 by (auto simp: vfs_rename_def bind_eq_Some_conv)
      then show ?thesis using two_vnodes_during [OF d4] rename_quiet [OF during_small [OF d4]] by blast
    qed
  qed
qed

lemma link_during:
  assumes d: "during s0 M s" "size M < 3" and run: "vfs_link ops oldpath newpath s = Some (r, s')"
  shows "during s0 M s'"
proof -
  obtain q s1 where q: "vfs_lookup ops oldpath s = Some (q, s1)" using run by (auto simp: vfs_link_def ebind_def split: option.splits)
  have d1: "during s0 (case q of Inl _ \<Rightarrow> M | Inr x \<Rightarrow> add_mset x M) s1" using lookup_during [OF d(1) _ q] d(2) by simp
  show ?thesis
  proof (cases q)
    case (Inl e)
    then show ?thesis using d1 run q by (auto simp: vfs_link_def)
  next
    case (Inr od)
    have d2: "during s0 (add_mset od M) s1" using d1 Inr by simp
    obtain q2 s2 where q2: "vfs_lookparent ops newpath (NAME_MAX + 1) s1 = Some (q2, s2)" using run q Inr by (auto simp: vfs_link_def bind_eq_Some_conv)
    have d3: "during s0 (case q2 of Inl _ \<Rightarrow> add_mset od M | Inr (x, name) \<Rightarrow> add_mset x (add_mset od M)) s2" using lookparent_during [OF d2 _ q2] d(2) by simp
    show ?thesis
    proof (cases q2)
      case (Inl e)
      then show ?thesis using d3 run q Inr q2 during_decref by (auto simp: vfs_link_def bind_eq_Some_conv)
    next
      case i2: (Inr p2)
      obtain nd nn where p2: "p2 = (nd, nn)" by (cases p2)
      have d4: "during s0 (add_mset nd (add_mset od M)) s2" using d3 i2 p2 by simp
      obtain s3 s4 where "(if \<not> same_fs_as ops od nd (world s2) then Some (Inl EXDEV, s2) else on_world (VOP_LINK ops nd nn od) s2) = Some (r, s3)"
        "decref ops nd s3 = Some s4" "decref ops od s4 = Some s'" using run q Inr q2 i2 p2 by (auto simp: vfs_link_def bind_eq_Some_conv)
      then show ?thesis using two_vnodes_during [OF d4] link_quiet [OF during_small [OF d4]] by blast
    qed
  qed
qed

lemma readlink_during:
  assumes d: "during s0 M s" "size M < 4" and run: "vfs_readlink ops path u s = Some (r, u', s')"
  shows "during s0 M s'"
proof -
  obtain q s1 where q: "vfs_lookup ops path s = Some (q, s1)" using run by (auto simp: vfs_readlink_def bind_eq_Some_conv)
  note d1 = lookup_during [OF d q]
  show ?thesis
  proof (cases q)
    case (Inl e)
    then show ?thesis using d1 run q by (auto simp: vfs_readlink_def)
  next
    case (Inr vn)
    have d2: "during s0 (add_mset vn M) s1" using d1 Inr by simp
    obtain w where w: "VOP_READLINK ops vn u (world s1) = Some (r, u', w)" "decref ops vn (s1\<lparr>world := w\<rparr>) = Some s'"
      using run q Inr by (auto simp: vfs_readlink_def bind_eq_Some_conv)
    show ?thesis using during_decref [OF during_quiet [OF d2 readlink_quiet [OF during_small [OF d2] w(1)]] w(2)] .
  qed
qed

lemma quiet_refl: "quiet refs w w"
  by (simp add: quiet_def)

lemma getcwd_during:
  assumes d: "during s0 M s" "size M < 4" and run: "vfs_getcwd ops u s = Some (r, u', s')"
  shows "during s0 M s'"
proof -
  obtain q s1 where q: "vfs_getcurdir ops s = Some (q, s1)" using run by (auto simp: vfs_getcwd_def bind_eq_Some_conv split: if_splits)
  have d1: "during s0 (case q of Inl _ \<Rightarrow> M | Inr x \<Rightarrow> add_mset x M) s1" using getcurdir_during [OF d(1) _ q] d(2) by simp
  show ?thesis
  proof (cases q)
    case (Inl e)
    then show ?thesis using d1 run q by (auto simp: vfs_getcwd_def split: if_splits)
  next
    case (Inr vn)
    have d2: "during s0 (add_mset vn M) s1" using d1 Inr by simp
    obtain fs name s2 u2 w and r2 :: "unit res" where x: "(case FSOP_GETVOLNAME ops fs (world s1) of Some n \<Rightarrow> Some (Some n, s1) | None \<Rightarrow> vfs_getdevname fs s1) = Some (name, s2)"
      "(case r2 of Inl e \<Rightarrow> Some (Inl e, u2, world s2) | Inr _ \<Rightarrow> VOP_NAMEFILE ops vn u2 (world s2)) = Some (r, u', w)"
      "decref ops vn (s2\<lparr>world := w\<rparr>) = Some s'"
      using run q Inr by (auto simp: vfs_getcwd_def bind_eq_Some_conv split: if_splits)
    have s2: "s2 = s1" using x(1) vfs_getdevname_keeps by (auto split: option.splits)
    have "quiet refs (world s1) w" using x(2) namefile_quiet [OF during_small [OF d2]] quiet_refl s2 by (auto split: sum.splits)
    then show ?thesis using during_decref [OF during_quiet [OF d2]] x(3) s2 by blast
  qed
qed

lemma parent_ops_during:
  assumes "during s0 M s" and "size M < 4"
  shows "vfs_remove ops path s = Some (r, s') \<Longrightarrow> during s0 M s'" and "vfs_mkdir ops path s = Some (r, s') \<Longrightarrow> during s0 M s'"
    and "vfs_rmdir ops path s = Some (r, s') \<Longrightarrow> during s0 M s'" and "vfs_symlink ops target path s = Some (r, s') \<Longrightarrow> during s0 M s'"
  unfolding vfs_remove_def vfs_mkdir_def vfs_rmdir_def vfs_symlink_def
  by (erule at_parent_during [OF assms], erule (1) remove_quiet mkdir_quiet rmdir_quiet symlink_quiet)+

lemma no_vnode: "(case map_sum id (\<lambda>_. None) q of Inr (Some vn) \<Rightarrow> {#vn#} | _ \<Rightarrow> {#}) = {#}"
  by (cases q) auto

lemma vfs_call_during:
  assumes "roomy refs (world s)" and "vfs_call ops c s = Some (r, s')"
  shows "during s (case r of Inr (Some vn) \<Rightarrow> {#vn#} | _ \<Rightarrow> {#}) s'"
proof -
  have d: "during s {#} s" using assms(1) acct_start by (fastforce simp: during_def intro: exI [of _ "world s"])
  have "size ({#} :: 'v multiset) < 3" "size ({#} :: 'v multiset) < 4" by simp_all
  note x = this
  show ?thesis
  proof (cases c)
    case (C_open path flags)
    then obtain q where q: "vfs_open ops path flags s = Some (q, s')" "r = map_sum id Some q" using assms(2) by (auto simp: vfs_call_def)
    show ?thesis using open_during [OF d x(1) q(1)] q(2) by (cases q) auto
  next
    case (C_remove path)
    then show ?thesis using assms(2) parent_ops_during(1) [OF d x(2)] by (auto simp: vfs_call_def no_vnode)
  next
    case (C_rename p q)
    then show ?thesis using assms(2) rename_during [OF d x(1)] by (auto simp: vfs_call_def no_vnode)
  next
    case (C_link p q)
    then show ?thesis using assms(2) link_during [OF d x(1)] by (auto simp: vfs_call_def no_vnode)
  next
    case (C_symlink target path)
    then show ?thesis using assms(2) parent_ops_during(4) [OF d x(2)] by (auto simp: vfs_call_def no_vnode)
  next
    case (C_readlink path u)
    then show ?thesis using assms(2) readlink_during [OF d x(2)] by (auto simp: vfs_call_def no_vnode)
  next
    case (C_mkdir path)
    then show ?thesis using assms(2) parent_ops_during(2) [OF d x(2)] by (auto simp: vfs_call_def no_vnode)
  next
    case (C_rmdir path)
    then show ?thesis using assms(2) parent_ops_during(3) [OF d x(2)] by (auto simp: vfs_call_def no_vnode)
  next
    case (C_getcwd u)
    then show ?thesis using assms(2) getcwd_during [OF d x(2)] by (auto simp: vfs_call_def no_vnode)
  qed
qed

end

context counted_vnodes
begin

text \<open>What the state of a call says of the counts, for vnodes that were in use when it began.\<close>

lemma during_start: "roomy refs (world s) \<Longrightarrow> during s {#} s"
  using acct_start by (fastforce simp: during_def intro: exI [of _ "world s"])

lemma during_counts: "during s M s' \<Longrightarrow> 0 < refs (world s) x \<Longrightarrow> refs (world s') x = refs (world s) x + count M x"
  by (auto simp: during_def acct_def)

lemma call_counts:
  assumes "roomy refs (world s)" and "vfs_call ops c s = Some (r, s')"
  shows "(\<forall>x. 0 < refs (world s) x \<longrightarrow> refs (world s') x = refs (world s) x + (if r = Inr (Some x) then 1 else 0)) \<and>
    (\<forall>x. r = Inr (Some x) \<longrightarrow> 0 < refs (world s') x) \<and> (\<exists>w. s' = s\<lparr>world := w\<rparr>)"
proof -
  let ?M = "case r of Inr (Some vn) \<Rightarrow> {#vn#} | _ \<Rightarrow> {#}"
  have d: "during s ?M s'" using vfs_call_during [OF assms] .
  have c: "count ?M x = (if r = Inr (Some x) then 1 else 0)" for x by (auto split: sum.splits option.splits)
  have "count ?M x \<le> refs (world s') x" for x using d by (auto simp: during_def acct_def split: if_splits)
  then have "r = Inr (Some x) \<Longrightarrow> 0 < refs (world s') x" for x using c by (metis less_le_trans zero_less_one)
  then show ?thesis using during_counts [OF d] c d by (auto simp: during_def)
qed

lemma open_close_counts:
  assumes "roomy refs (world s)" and "vfs_open ops path flags s = Some (Inr vn, s1)" and "vfs_close ops vn s1 = Some s2"
  shows "\<forall>x. 0 < refs (world s) x \<longrightarrow> refs (world s2) x = refs (world s) x"
proof -
  have d1: "during s {#vn#} s1" using open_during [OF during_start [OF assms(1)] _ assms(2)] by simp
  obtain w where w: "VOP_DECOPEN ops vn (world s1) = Some w" "decref ops vn (s1\<lparr>world := w\<rparr>) = Some s2"
    using assms(3) by (auto simp: vfs_close_def bind_eq_Some_conv)
  have "during s {#vn#} (s1\<lparr>world := w\<rparr>)" using during_quiet [OF d1 decopen_quiet [OF during_small [OF d1] w(1)]] .
  then have "during s {#} s2" using during_decref w(2) by fastforce
  then show ?thesis using during_counts by fastforce
qed

text \<open>\<^verbatim>\<open>vfs_chdir\<close> moves a reference: the new directory has one more, the old one is given back.\<close>

lemma chdir_counts:
  assumes "roomy refs (world s)" and "vfs_chdir ops path s = Some (r, s')"
  shows "case r of
      Inl e \<Rightarrow> during s {#} s'
    | Inr _ \<Rightarrow> \<exists>vn w1. t_cwd s' = Some vn \<and> acct refs (world s) {#vn#} w1 \<and>
        (case t_cwd s of None \<Rightarrow> world s' = w1 | Some old \<Rightarrow> drops refs old w1 (world s'))"
proof -
  obtain q s1 where q: "vfs_lookup ops path s = Some (q, s1)" using assms(2) by (auto simp: vfs_chdir_def ebind_def split: option.splits)
  have d1: "during s (case q of Inl _ \<Rightarrow> {#} | Inr vn \<Rightarrow> {#vn#}) s1" using lookup_during [OF during_start [OF assms(1)] _ q] by simp
  show ?thesis
  proof (cases q)
    case (Inl e)
    then show ?thesis using assms(2) q d1 by (auto simp: vfs_chdir_def)
  next
    case (Inr vn)
    have d2: "during s {#vn#} s1" using d1 Inr by simp
    obtain r1 s2 where r1: "vfs_setcurdir ops vn s1 = Some (r1, s2)" using assms(2) q Inr by (auto simp: vfs_chdir_def bind_eq_Some_conv)
    obtain t w where t: "VOP_GETTYPE ops vn (world s1) = Some (t, w)" using r1 by (auto simp: vfs_setcurdir_def on_world_def ebind_def bind_eq_Some_conv split: option.splits)
    have d3: "during s {#vn#} (s1\<lparr>world := w\<rparr>)" using during_quiet [OF d2 gettype_quiet [OF during_small [OF d2] t]] .
    show ?thesis
    proof (cases r1)
      case i: (Inl e)
      then have "s2 = s1\<lparr>world := w\<rparr>"
        using r1 t by (cases t) (auto simp: vfs_setcurdir_def on_world_def Let_def bind_eq_Some_conv split: if_splits option.splits)
      then have "decref ops vn (s1\<lparr>world := w\<rparr>) = Some s'" "r = Inl e" using assms(2) q Inr r1 i by (auto simp: vfs_chdir_def bind_eq_Some_conv)
      then show ?thesis using during_decref d3 by auto
    next
      case i: (Inr u)
      have s': "s' = s2" "r = Inr ()" using assms(2) q Inr r1 i by (auto simp: vfs_chdir_def)
      have "t_cwd s' = Some vn \<and> (case t_cwd s1 of None \<Rightarrow> world s' = w | Some old \<Rightarrow> VOP_DECREF ops old w = Some (world s'))"
        using r1 t i s' by (cases t) (auto simp: vfs_setcurdir_def on_world_def decref_def Let_def bind_eq_Some_conv split: if_splits option.splits)
      moreover have "t_cwd s1 = t_cwd s" using during_sel [OF d2] by simp
      moreover have "acct refs (world s) {#vn#} w" "small refs w" using d3 during_small [OF d3] by (simp_all add: during_def)
      ultimately show ?thesis using s'(2) decref_drops by (auto split: option.splits intro!: exI [of _ w])
    qed
  qed
qed

end

context counted_vnodes
begin

lemma chdir_moves:
  assumes room: "roomy refs (world s)" and cwd: "t_cwd s = Some old" and used: "0 < refs (world s) old" and run: "vfs_chdir ops path s = Some (r, s')"
  shows "case r of
      Inl e \<Rightarrow> t_cwd s' = Some old \<and> (\<forall>x. 0 < refs (world s) x \<longrightarrow> refs (world s') x = refs (world s) x)
    | Inr _ \<Rightarrow> \<exists>vn. t_cwd s' = Some vn \<and> 0 < refs (world s') vn \<and>
        (\<forall>x. 0 < refs (world s) x \<longrightarrow>
           (if x = old \<and> x \<noteq> vn \<and> refs (world s) x = 1 then refs (world s') x \<le> 1
            else refs (world s') x + (if x = old then 1 else 0) = refs (world s) x + (if x = vn then 1 else 0)))"
proof (cases r)
  case (Inl e)
  then have d: "during s {#} s'" using chdir_counts [OF room run] by simp
  show ?thesis using Inl during_counts [OF d] during_sel [OF d] cwd by simp
next
  case (Inr u)
  then obtain vn w where vn: "t_cwd s' = Some vn" and a: "acct refs (world s) {#vn#} w" and d: "drops refs old w (world s')"
    using chdir_counts [OF room run] cwd by auto
  have w: "refs w x = refs (world s) x + (if x = vn then 1 else 0)" if "0 < refs (world s) x" for x using a that by (auto simp: acct_def)
  have "1 \<le> refs w vn" using a [unfolded acct_def, THEN spec, of vn] by (auto split: if_splits)
  have o: "x \<noteq> old \<Longrightarrow> refs (world s') x = refs w x" for x using d by (simp add: drops_def)
  have old: "if 1 < refs w old then refs (world s') old = refs w old - 1 else refs (world s') old \<le> 1" using d [unfolded drops_def] by blast
  have "0 < refs (world s') vn" using o [of vn] old w [OF used] used \<open>1 \<le> refs w vn\<close> by (cases "vn = old") auto
  moreover have "if x = old \<and> x \<noteq> vn \<and> refs (world s) x = 1 then refs (world s') x \<le> 1
            else refs (world s') x + (if x = old then 1 else 0) = refs (world s) x + (if x = vn then 1 else 0)" if "0 < refs (world s) x" for x
    using o [of x] old w [OF that] that by (cases "x = old") (auto split: if_splits)
  ultimately show ?thesis unfolding Inr sum.case using vn by blast
qed

end

section \<open>Cutting a path\<close>

text \<open>A name of a device: no colon and no slash, and not empty.\<close>

definition plain_name :: "byte list \<Rightarrow> bool" where
  "plain_name name \<longleftrightarrow> name \<noteq> [] \<and> colon \<notin> set name \<and> slash \<notin> set name"

lemma find_sep_skip: "colon \<notin> set name \<Longrightarrow> slash \<notin> set name \<Longrightarrow> find_sep (name @ rest) i = find_sep rest (i + length name)"
  by (induction name arbitrary: i) auto

lemma skip_slashes_eq: "skip_slashes path = dropWhile (\<lambda>c. c = slash) path"
  by (induction path) auto

end
