(* ===== verification/Sfs_counts.thy ===== *)
theory Sfs_counts
  imports Sfs_ops Vfs_path
begin

text \<open>
  What the operations of the file system do to the reference counts of its loaded vnodes: the facts that the VFS layer
  relies on. They hold whatever the disk answers, and need no invariant of the volume.
\<close>

section \<open>Operations that keep every count\<close>

text \<open>The table of vnodes is not touched, and the vnode worked on keeps its counts and operations.\<close>

definition kept :: "sfs_fs \<Rightarrow> sfs_fs \<Rightarrow> bool" where
  "kept fs fs' \<longleftrightarrow> sv_heap fs' = sv_heap fs"

definition vkept :: "sfs_vnode \<Rightarrow> sfs_vnode \<Rightarrow> bool" where
  "vkept sv sv' \<longleftrightarrow> vn_refcount sv' = vn_refcount sv \<and> vn_opencount sv' = vn_opencount sv \<and> vn_ops sv' = vn_ops sv"

definition keeps :: "dir_state \<Rightarrow> dir_state \<Rightarrow> bool" where
  "keeps st st' \<longleftrightarrow> vkept (fst st) (fst st') \<and> kept (snd st) (snd st')"

lemma kept_refl [simp]: "kept fs fs" and vkept_refl [simp]: "vkept sv sv"
  by (simp_all add: kept_def vkept_def)

lemma kept_trans: "kept a b \<Longrightarrow> kept b c \<Longrightarrow> kept a c" and vkept_trans: "vkept x y \<Longrightarrow> vkept y z \<Longrightarrow> vkept x z"
  by (simp_all add: kept_def vkept_def)

lemma keeps_refl [simp]: "keeps st st"
  by (simp add: keeps_def)

lemma keeps_trans: "keeps a b \<Longrightarrow> keeps b c \<Longrightarrow> keeps a c"
  by (simp add: keeps_def kept_def vkept_def)

lemma keeps_pair [simp]: "keeps (sv, fs) (sv', fs') \<longleftrightarrow> vkept sv sv' \<and> kept fs fs'"
  by (simp add: keeps_def)

lemma vkept_sel [simp]:
  "vkept sv (x\<lparr>sv_i := i\<rparr>) = vkept sv x" "vkept sv (x\<lparr>sv_dirty := d\<rparr>) = vkept sv x"
  by (simp_all add: vkept_def)

lemma kept_sel [simp]:
  "kept fs (x\<lparr>sfs_freemap := b\<rparr>) = kept fs x" "kept fs (x\<lparr>sfs_freemapdirty := d\<rparr>) = kept fs x" "kept fs (x\<lparr>sfs_device := l\<rparr>) = kept fs x"
  by (simp_all add: kept_def)

lemma rwblock_kept: "sfs_rwblock u fs = Some (r, u', fs') \<Longrightarrow> kept fs fs'"
  by (auto simp: sfs_rwblock_def bind_eq_Some_conv)

lemma rblock_kept: "sfs_rblock bs b fs = Some (r, bs', fs') \<Longrightarrow> kept fs fs'"
  using rwblock_kept by (auto simp: sfs_rblock_def bind_eq_Some_conv)

lemma wblock_kept: "sfs_wblock bs b fs = Some (r, fs') \<Longrightarrow> kept fs fs'"
  using rwblock_kept by (auto simp: sfs_wblock_def bind_eq_Some_conv)

lemma sync_inode_keeps: "sfs_sync_inode sv fs = Some (r, sv', fs') \<Longrightarrow> keeps (sv, fs) (sv', fs')"
proof (cases "sv_dirty sv")
  case True
  assume a: "sfs_sync_inode sv fs = Some (r, sv', fs')"
  obtain q fs1 where w: "sfs_wblock (enc_inode (sv_i sv)) (sv_ino sv) fs = Some (q, fs1)" using a True by (auto simp: sfs_sync_inode_def bind_eq_Some_conv)
  show ?thesis using a True w wblock_kept [OF w] by (cases q) (auto simp: sfs_sync_inode_def)
qed (auto simp: sfs_sync_inode_def)

lemma balloc_kept: "sfs_balloc fs = Some (r, fs') \<Longrightarrow> kept fs fs'"
proof -
  assume a: "sfs_balloc fs = Some (r, fs')"
  obtain q b where b: "bitmap_alloc (sfs_freemap fs) = Some (q, b)" using a by (auto simp: sfs_balloc_def bind_eq_Some_conv)
  show ?thesis
  proof (cases q)
    case (Inl e)
    then show ?thesis using a b by (auto simp: sfs_balloc_def Let_def)
  next
    case (Inr n)
    let ?f = "fs\<lparr>sfs_freemap := b, sfs_freemapdirty := True\<rparr>"
    obtain q' fs1 where c: "sfs_clearblock n ?f = Some (q', fs1)" using a b Inr by (auto simp: sfs_balloc_def Let_def bind_eq_Some_conv split: if_splits)
    have "fs' = fs1" using a b Inr c by (cases q') (auto simp: sfs_balloc_def Let_def split: if_splits)
    then show ?thesis using wblock_kept [OF c [unfolded sfs_clearblock_def]] by (simp add: kept_def)
  qed
qed

lemma bfree_kept: "sfs_bfree b fs = Some fs' \<Longrightarrow> kept fs fs'"
  by (auto simp: sfs_bfree_def bind_eq_Some_conv)

section \<open>Blocks of a file\<close>

definition bkeeps :: "bmap_state \<Rightarrow> bmap_state \<Rightarrow> bool" where
  "bkeeps s s' \<longleftrightarrow> vkept (bm_sv s) (bm_sv s') \<and> kept (bm_fs s) (bm_fs s')"

lemma bkeeps_trans: "bkeeps a b \<Longrightarrow> bkeeps b c \<Longrightarrow> bkeeps a c"
  using kept_trans vkept_trans by (auto simp: bkeeps_def)

lemma bkeeps_sel [simp]:
  "bkeeps (s\<lparr>bm_buf := x\<rparr>) s' = bkeeps s s'" "bkeeps (s\<lparr>bm_idblock := n\<rparr>) s' = bkeeps s s'" "bkeeps (s\<lparr>bm_block := n\<rparr>) s' = bkeeps s s'"
  "bkeeps s (s'\<lparr>bm_buf := x\<rparr>) = bkeeps s s'" "bkeeps s (s'\<lparr>bm_idblock := n\<rparr>) = bkeeps s s'" "bkeeps s (s'\<lparr>bm_block := n\<rparr>) = bkeeps s s'"
  "bkeeps s s"
  by (simp_all add: bkeeps_def)

text \<open>Sequences: an error ends them in the state it left.\<close>

lemma ebind_keeps:
  assumes "ebind m f = Some (r, s')" and "\<And>q s1. m = Some (q, s1) \<Longrightarrow> R s s1" and "\<And>x s1. f x s1 = Some (r, s') \<Longrightarrow> R s1 s'"
    and "\<And>a b c. R a b \<Longrightarrow> R b c \<Longrightarrow> R a c"
  shows "R s s'"
proof -
  obtain q s1 where m: "m = Some (q, s1)" using assms(1) by (auto simp: ebind_def split: option.splits)
  show ?thesis
  proof (cases q)
    case (Inl e)
    then show ?thesis using assms(1,2) m by auto
  next
    case (Inr x)
    then have "f x s1 = Some (r, s')" using assms(1) m by simp
    then show ?thesis using assms(2-4) m by blast
  qed
qed

lemma loadbuffer_keeps: "loadbuffer l b n s = Some (r, s') \<Longrightarrow> bkeeps s s'"
  using balloc_kept [of "bm_fs s"] rblock_kept [of "enc_words (bm_buf s)" b "bm_fs s"]
  by (auto simp: loadbuffer_def Let_def bkeeps_def split: if_splits option.splits sum.splits)

lemma get_block_keeps: "get_block d n s = Some (r, s') \<Longrightarrow> bkeeps s s'"
  using balloc_kept [of "bm_fs s"] wblock_kept kept_trans
  by (fastforce simp: get_block_def Let_def bkeeps_def bind_eq_Some_conv split: if_splits option.splits sum.splits)

lemma descend_keeps: "descend l s = Some (r, s') \<Longrightarrow> bkeeps s s'"
  using loadbuffer_keeps by (fastforce simp: descend_def)

lemma bmap_finish_keeps: "bmap_finish s = Some (r, s') \<Longrightarrow> bkeeps s s'"
  by (auto simp: bmap_finish_def bind_eq_Some_conv split: if_splits)

lemma bmap_direct_keeps: "bmap_direct n d s = Some (r, s') \<Longrightarrow> bkeeps s s'"
proof -
  assume a: "bmap_direct n d s = Some (r, s')"
  obtain b where b: "rd (sfi_direct (sv_i (bm_sv s))) n = Some b" using a by (auto simp: bmap_direct_def bind_eq_Some_conv)
  show ?thesis
  proof (cases "b = 0 \<and> d")
    case False
    then show ?thesis using a b bmap_finish_keeps [of "s\<lparr>bm_block := b\<rparr>" r s'] by (auto simp: bmap_direct_def split: if_splits)
  next
    case True
    obtain q fs1 where q: "sfs_balloc (bm_fs s) = Some (q, fs1)" using a b True by (auto simp: bmap_direct_def split: option.splits)
    show ?thesis using a b True q balloc_kept [OF q]
      by (cases q) (auto simp: bmap_direct_def Let_def bkeeps_def kept_def vkept_def dest!: bmap_finish_keeps)
  qed
qed

lemma ebind_bkeeps:
  "ebind m f = Some (r, s') \<Longrightarrow> (\<And>q s1. m = Some (q, s1) \<Longrightarrow> bkeeps s s1) \<Longrightarrow> (\<And>x s1. f x s1 = Some (r, s') \<Longrightarrow> bkeeps s1 s') \<Longrightarrow> bkeeps s s'"
  by (rule ebind_keeps [where R = bkeeps]) (auto intro: bkeeps_trans)

lemma loadbuffer_keeps': "loadbuffer l b n (s\<lparr>bm_idblock := i\<rparr>) = Some (r, s') \<Longrightarrow> bkeeps s s'"
  using loadbuffer_keeps by fastforce

lemmas bmap_keeps = loadbuffer_keeps' get_block_keeps descend_keeps bmap_finish_keeps

text \<open>The three ways through the indirect blocks.\<close>

lemma level2_keeps: "ebind (get_block d a s) (\<lambda>_ s2. ebind (descend l s2) (\<lambda>_ s3. get_block d b s3)) = Some (r, s') \<Longrightarrow> bkeeps s s'"
  by ((erule ebind_bkeeps | erule bmap_keeps)+)

lemma level3_keeps:
  "ebind (get_block d a s) (\<lambda>_ s2. ebind (descend l s2) (\<lambda>_ s3. ebind (get_block d b s3) (\<lambda>_ s4. ebind (descend l s4) (\<lambda>_ s5. get_block d c s5)))) =
   Some (r, s') \<Longrightarrow> bkeeps s s'"
  by ((erule ebind_bkeeps | erule bmap_keeps)+)

lemma bmap_indirect_keeps: "bmap_indirect n d s = Some (r, s') \<Longrightarrow> bkeeps s s'"
  unfolding bmap_indirect_def Let_def
  by (split if_split_asm, simp, erule ebind_bkeeps, erule bmap_keeps, erule ebind_bkeeps)
    (auto split: if_splits intro: level2_keeps level3_keeps bmap_keeps)

lemma bmap_keeps_file: "sfs_bmap sv n d fs = Some (r, sv', fs') \<Longrightarrow> vkept sv sv' \<and> kept fs fs'"
proof -
  assume a: "sfs_bmap sv n d fs = Some (r, sv', fs')"
  let ?s = "\<lparr>bm_buf = replicate 128 0, bm_idblock = 0, bm_block = 0, bm_sv = sv, bm_fs = fs\<rparr>"
  obtain s' where s': "bmap_run n d ?s = Some (r, s')" "sv' = bm_sv s'" "fs' = bm_fs s'" using a by (auto simp: sfs_bmap_def)
  have "bkeeps ?s s'" using s'(1) bmap_direct_keeps bmap_indirect_keeps by (fastforce simp: bmap_run_def Let_def split: if_splits)
  then show ?thesis using s'(2,3) by (simp add: bkeeps_def)
qed

section \<open>Reading and writing\<close>

definition iokeeps :: "io_state \<Rightarrow> io_state \<Rightarrow> bool" where
  "iokeeps = (\<lambda>(sv, u, fs) (sv', u', fs'). vkept sv sv' \<and> kept fs fs')"

lemma iokeeps_pair [simp]: "iokeeps (sv, u, fs) (sv', u', fs') \<longleftrightarrow> vkept sv sv' \<and> kept fs fs'"
  by (simp add: iokeeps_def)

lemma iokeeps_refl [simp]: "iokeeps st st"
  by (cases st) simp

lemma iokeeps_trans: "iokeeps a b \<Longrightarrow> iokeeps b c \<Longrightarrow> iokeeps a c"
  using kept_trans vkept_trans by (cases a; cases b; cases c) auto

text \<open>A property of every outcome of a computation, and how it goes through its parts.\<close>

definition holds :: "('a \<Rightarrow> bool) \<Rightarrow> 'a option \<Rightarrow> bool" where
  "holds P m \<longleftrightarrow> (\<forall>y. m = Some y \<longrightarrow> P y)"

lemma holdsD: "holds P m \<Longrightarrow> m = Some y \<Longrightarrow> P y"
  by (simp add: holds_def)

lemma holds_Some [simp]: "holds P (Some y) = P y" and holds_None [simp]: "holds P None"
  by (simp_all add: holds_def)

lemma holds_bind [intro!]: "(\<And>x. m = Some x \<Longrightarrow> holds P (f x)) \<Longrightarrow> holds P (m \<bind> f)"
  by (auto simp: holds_def bind_eq_Some_conv)

lemma holds_if [intro!]: "(b \<Longrightarrow> holds P x) \<Longrightarrow> (\<not> b \<Longrightarrow> holds P y) \<Longrightarrow> holds P (if b then x else y)"
  by simp

lemma holds_sum [intro!]: "(\<And>e. r = Inl e \<Longrightarrow> holds P (f e)) \<Longrightarrow> (\<And>x. r = Inr x \<Longrightarrow> holds P (g x)) \<Longrightarrow> holds P (case r of Inl e \<Rightarrow> f e | Inr x \<Rightarrow> g x)"
  by (cases r) simp_all

lemma holds_opt [intro!]: "(r = None \<Longrightarrow> holds P m) \<Longrightarrow> (\<And>x. r = Some x \<Longrightarrow> holds P (g x)) \<Longrightarrow> holds P (case r of None \<Rightarrow> m | Some x \<Rightarrow> g x)"
  by (cases r) simp_all

lemma holds_prod [intro!]: "(\<And>x y. p = (x, y) \<Longrightarrow> holds P (f x y)) \<Longrightarrow> holds P (case p of (x, y) \<Rightarrow> f x y)"
  by (cases p) simp

lemma holds_ebind:
  "holds (\<lambda>(r, s). Q s) m \<Longrightarrow> (\<And>x s. Q s \<Longrightarrow> holds (\<lambda>(r, s). Q s) (f x s)) \<Longrightarrow> holds (\<lambda>(r, s). Q s) (ebind m f)"
  by (auto simp: holds_def ebind_def split: option.splits sum.splits)

lemmas io_kept = bmap_keeps_file [unfolded kept_def vkept_def] rblock_kept [unfolded kept_def] wblock_kept [unfolded kept_def] rwblock_kept [unfolded kept_def]

lemma partialio_keeps: "holds (\<lambda>(r, st). iokeeps (sv, u, fs) st) (sfs_partialio k len (sv, u, fs))"
  by (auto simp: sfs_partialio_def Let_def kept_def vkept_def dest!: io_kept split: if_splits)

lemma blockio_keeps: "holds (\<lambda>(r, st). iokeeps (sv, u, fs) st) (sfs_blockio (sv, u, fs))"
  by (auto simp: sfs_blockio_def Let_def kept_def vkept_def dest!: io_kept split: if_splits)

text \<open>Steps that keep the counts from any state they are reached in.\<close>

lemma iokeeps_step:
  "iokeeps st0 st \<Longrightarrow> holds (\<lambda>(r, st'). iokeeps st st') m \<Longrightarrow> holds (\<lambda>(r, st'). iokeeps st0 st') m"
  by (cases m) (auto intro: iokeeps_trans [of st0 st])

lemma partialio_step: "iokeeps st0 (sv, u, fs) \<Longrightarrow> holds (\<lambda>(r, st'). iokeeps st0 st') (sfs_partialio k len (sv, u, fs))"
  by (rule iokeeps_step [OF _ partialio_keeps])

lemma io_blocks_keeps: "iokeeps st0 st \<Longrightarrow> holds (\<lambda>(r, st'). iokeeps st0 st') (sfs_io_blocks k st)"
proof (induction k arbitrary: st)
  case (Suc k)
  obtain sv u fs where st: "st = (sv, u, fs)" by (cases st)
  show ?case unfolding sfs_io_blocks.simps
  proof (rule holds_ebind)
    show "holds (\<lambda>(r, s). iokeeps st0 s) (sfs_blockio st)" using iokeeps_step [OF Suc.prems, of "sfs_blockio st"] blockio_keeps st by simp
  qed (rule Suc.IH)
qed simp

lemma io_body_keeps: "holds (\<lambda>(r, st'). iokeeps (sv, u, fs) st') (sfs_io_body (sv, u, fs))"
  unfolding sfs_io_body_def Let_def prod.case
proof (rule holds_ebind)
  show "holds (\<lambda>(r, s). iokeeps (sv, u, fs) s) (if uio_offset u mod SFS_BLOCKSIZE \<noteq> 0
      then sfs_partialio (uio_offset u mod SFS_BLOCKSIZE) (if uio_resid u < SFS_BLOCKSIZE - uio_offset u mod SFS_BLOCKSIZE then uio_resid u
        else SFS_BLOCKSIZE - uio_offset u mod SFS_BLOCKSIZE) (sv, u, fs) else Some (Inr (), sv, u, fs))"
    using partialio_keeps by auto
  fix x :: unit and s assume s: "iokeeps (sv, u, fs) s"
  obtain sv1 u1 fs1 where st: "s = (sv1, u1, fs1)" by (cases s)
  have tail: "holds (\<lambda>(r, s). iokeeps (sv, u, fs) s) (ebind (sfs_io_blocks n (sv1, u1, fs1)) (\<lambda>_ (vn2, u2, fs2). do {
                    _ \<leftarrow> kassert (uio_resid u2 < SFS_BLOCKSIZE);
                    if uio_resid u2 > 0 then sfs_partialio 0 (uio_resid u2) (vn2, u2, fs2)
                    else Some (Inr (), (vn2, u2, fs2))
                  }))" for n
    using s st io_blocks_keeps partialio_step by (intro holds_ebind) auto
  show "holds (\<lambda>(r, s). iokeeps (sv, u, fs) s) (case s of (vn1, u1, fs1) \<Rightarrow>
      if uio_resid u1 = 0 then Some (Inr (), vn1, u1, fs1)
      else kassert (uio_offset u1 mod SFS_BLOCKSIZE = 0) \<bind> (\<lambda>_. ebind (sfs_io_blocks (uio_resid u1 div SFS_BLOCKSIZE) (vn1, u1, fs1))
        (\<lambda>_ (vn2, u2, fs2). kassert (uio_resid u2 < SFS_BLOCKSIZE) \<bind> (\<lambda>_.
           if 0 < uio_resid u2 then sfs_partialio 0 (uio_resid u2) (vn2, u2, fs2) else Some (Inr (), vn2, u2, fs2)))))"
    using s st tail by auto
qed

lemma io_out_keeps: "iokeeps st0 st \<Longrightarrow> holds (\<lambda>(r, st'). iokeeps st0 st') (sfs_io_out e r st)"
  by (cases st; cases st0) (auto simp: sfs_io_out_def Let_def vkept_def)

lemma io_keeps: "holds (\<lambda>(r, st'). iokeeps (sv, u, fs) st') (sfs_io (sv, u, fs))"
proof -
  have "holds (\<lambda>(r, st'). iokeeps (sv, u, fs) st') (do { (r, st) \<leftarrow> sfs_io_body (sv, u\<lparr>uio_resid := n\<rparr>, fs); sfs_io_out e r st })" for n e
  proof (rule holds_bind, rule holds_prod)
    fix q r st assume "sfs_io_body (sv, u\<lparr>uio_resid := n\<rparr>, fs) = Some q" "q = (r, st)"
    then have "iokeeps (sv, u\<lparr>uio_resid := n\<rparr>, fs) st" using holdsD [OF io_body_keeps] by fastforce
    then have "iokeeps (sv, u, fs) st" by (cases st) simp
    then show "holds (\<lambda>(r, st'). iokeeps (sv, u, fs) st') (sfs_io_out e r st)" by (rule io_out_keeps)
  qed
  then show ?thesis by (auto simp: sfs_io_def Let_def)
qed

section \<open>Directories\<close>

lemma sfs_io_kept: "sfs_io (sv, u, fs) = Some (r, (sv', u', fs')) \<Longrightarrow> vkept sv sv' \<and> kept fs fs'"
  using holdsD [OF io_keeps] by fastforce

lemma readdir_keeps: "holds (\<lambda>(r, st'). keeps st st') (sfs_readdir i st)"
  by (cases st) (auto simp: sfs_readdir_def Let_def dest!: sfs_io_kept)

lemma writedir_keeps: "holds (\<lambda>(r, st'). keeps st st') (sfs_writedir sd i st)"
  by (cases st) (auto simp: sfs_writedir_def Let_def dest!: sfs_io_kept)

lemma keeps_step: "keeps st0 st \<Longrightarrow> holds (\<lambda>(r, st'). keeps st st') m \<Longrightarrow> holds (\<lambda>(r, st'). keeps st0 st') m"
  by (cases m) (auto intro: keeps_trans [of st0 st] simp del: keeps_pair)

lemma findname_from_keeps: "keeps st0 st \<Longrightarrow> holds (\<lambda>(r, st'). keeps st0 st') (sfs_findname_from name i k hit e st)"
proof (induction k arbitrary: i hit e st)
  case (Suc k)
  show ?case unfolding sfs_findname_from.simps
    using Suc.IH keeps_step [OF Suc.prems readdir_keeps] by (intro holds_ebind) auto
qed simp

lemma findname_keeps: "holds (\<lambda>(r, st'). keeps st st') (sfs_dir_findname name st)"
  unfolding sfs_dir_findname_def using findname_from_keeps [of st st] by auto

lemma dir_link_keeps: "holds (\<lambda>(r, st'). keeps st st') (sfs_dir_link name ino st)"
  unfolding sfs_dir_link_def
proof (rule holds_ebind [OF findname_keeps])
  fix x :: "(nat \<times> nat) option \<times> nat option" and s assume s: "keeps st s"
  have w: "holds (\<lambda>(r, st'). keeps st st') (ebind (sfs_writedir sd slot s) (\<lambda>_ st2. Some (Inr slot, st2)))" for sd slot
    using keeps_step [OF s writedir_keeps] by (intro holds_ebind) auto
  obtain hit e where x: "x = (hit, e)" by (cases x)
  show "holds (\<lambda>(r, s). keeps st s) ((case x of (hit, emptyslot) \<Rightarrow> \<lambda>st1.
      if hit \<noteq> None then Some (Inl EEXIST, st1)
      else if SFS_NAMELEN < length name + 1 then Some (Inl ENAMETOOLONG, st1)
      else (case emptyslot of None \<Rightarrow> sfs_dir_nentries (fst st1) | Some e \<Rightarrow> Some e) \<bind>
        (\<lambda>slot. ebind (sfs_writedir \<lparr>sfd_ino = ino, sfd_name = pad_name name\<rparr> slot st1) (\<lambda>_ st2. Some (Inr slot, st2)))) s)"
    using s w x by auto
qed

lemma dir_unlink_keeps: "holds (\<lambda>(r, st'). keeps st st') (sfs_dir_unlink slot st)"
  unfolding sfs_dir_unlink_def by (rule writedir_keeps)

section \<open>Truncation\<close>

lemma drop_block_vkept [simp]: "vkept sv (drop_block sv') = vkept sv sv'"
  by (simp add: drop_block_def)

lemma keeps_next: "keeps st0 (sv, fs) \<Longrightarrow> vkept sv sv' \<Longrightarrow> kept fs fs' \<Longrightarrow> keeps st0 (sv', fs')"
  using keeps_trans [of st0 "(sv, fs)" "(sv', fs')"] by simp

lemma trunc_direct_keeps: "keeps st0 st \<Longrightarrow> holds (keeps st0) (trunc_direct n i k st)"
proof (induction k arbitrary: i st)
  case (Suc k)
  obtain sv fs where st: "st = (sv, fs)" by (cases st)
  show ?case unfolding st trunc_direct.simps Let_def
    by (intro holds_bind holds_if Suc.IH) (use Suc.prems keeps_next bfree_kept in \<open>auto simp: st\<close>)
qed simp

lemma trunc_entries_keeps: "keeps st0 st \<Longrightarrow> holds (\<lambda>(acc, st'). keeps st0 st') (trunc_entries n b j k acc st)"
proof (induction k arbitrary: j acc st)
  case (Suc k)
  obtain sv fs where st: "st = (sv, fs)" by (cases st)
  obtain ib h d where acc: "acc = (ib, h, d)" by (cases acc)
  show ?case unfolding st acc trunc_entries.simps Let_def
    by (intro holds_bind holds_if Suc.IH) (use Suc.prems keeps_next bfree_kept in \<open>auto simp: st\<close>)
qed simp

lemma trunc_drop_keeps: "keeps st0 st \<Longrightarrow> holds (keeps st0) (trunc_drop_indirect b st)"
  by (cases st) (auto simp: trunc_drop_indirect_def Let_def dest!: bfree_kept elim!: keeps_next)

lemma trunc_rest_keeps:
  assumes "keeps st0 st"
  shows "holds (\<lambda>(r, st'). keeps st0 st') (do {
        ((idbuf, hasnonzero, iddirty), (sv1, fs2)) \<leftarrow> trunc_entries n b 0 m acc st;
        if \<not> hasnonzero then do { st \<leftarrow> trunc_drop_indirect i (sv1, fs2); Some (Inr (), st) }
        else if iddirty then do { (r, fs3) \<leftarrow> sfs_wblock (enc_words idbuf) i fs2; Some (r, (sv1, fs3)) }
        else Some (Inr (), (sv1, fs2)) })"
proof (cases "trunc_entries n b 0 m acc st")
  case (Some y)
  obtain idbuf h d sv fs where y: "y = ((idbuf, h, d), sv, fs)" by (cases y) auto
  have k: "keeps st0 (sv, fs)" using holdsD [OF trunc_entries_keeps [OF assms] Some] y by simp
  have d: "holds (\<lambda>(r, st'). keeps st0 st') (do { st \<leftarrow> trunc_drop_indirect i (sv, fs); Some (Inr () :: unit res, st) })"
    using holdsD [OF trunc_drop_keeps [OF k]] by (auto simp del: keeps_pair)
  have w: "holds (\<lambda>(r, st'). keeps st0 st') (do { (r, fs3) \<leftarrow> sfs_wblock bs i fs; Some (r, (sv, fs3)) })" for bs
    using keeps_next [OF k vkept_refl wblock_kept] by (auto simp del: keeps_pair)
  show ?thesis using k d w by (simp add: Some y)
qed simp

lemma trunc_indirect_keeps: "keeps st0 st \<Longrightarrow> holds (\<lambda>(r, st'). keeps st0 st') (trunc_indirect n st)"
proof -
  assume k: "keeps st0 st"
  obtain sv fs where st: "st = (sv, fs)" by (cases st)
  have k1: "keeps st0 (sv, fs1)" if "sfs_rblock bs b fs = Some (r, bs', fs1)" for bs b r bs' fs1
    using keeps_next [of st0 sv fs sv fs1] k that rblock_kept by (simp add: st)
  show ?thesis using k k1 unfolding trunc_indirect_def Let_def st prod.case
    by (intro holds_if holds_bind holds_prod holds_sum trunc_rest_keeps) auto
qed

lemma truncate_keeps: "holds (\<lambda>(r, st'). keeps st st') (sfs_truncate n st)"
proof -
  have "holds (\<lambda>(r, st'). keeps st st') (ebind (trunc_indirect b st1) (\<lambda>_ (sv, fs).
      Some (Inr (), (sv\<lparr>sv_i := (sv_i sv)\<lparr>sfi_size := m\<rparr>, sv_dirty := True\<rparr>, fs))))" if "keeps st st1" for b m st1
    using trunc_indirect_keeps [OF that] by (rule holds_ebind) (auto simp: keeps_def)
  then show ?thesis using holdsD [OF trunc_direct_keeps [OF keeps_refl]] unfolding sfs_truncate_def Let_def by (intro holds_bind) blast
qed

lemma vop_truncate_keeps: "holds (\<lambda>(r, st'). keeps st st') (vop_truncate n st)"
  using truncate_keeps by (auto simp: vop_truncate_def split: option.splits vnode_ops.splits)

section \<open>The counts of the loaded vnodes\<close>

text \<open>The count of the vnode at an address, 0 when none is there; a negative count is taken as one out of range.\<close>

definition cnt :: "sfs_fs \<Rightarrow> nat \<Rightarrow> nat" where
  "cnt fs p = (case sv_heap fs p of None \<Rightarrow> 0 | Some sv \<Rightarrow> if 0 \<le> vn_refcount sv then nat (vn_refcount sv) else 2 ^ 31)"

definition steady :: "sfs_fs \<Rightarrow> sfs_fs \<Rightarrow> bool" where
  "steady fs fs' \<longleftrightarrow> dom (sv_heap fs') = dom (sv_heap fs) \<and> cnt fs' = cnt fs"

lemma steady_refl [simp]: "steady fs fs"
  by (simp add: steady_def)

lemma steady_trans: "steady a b \<Longrightarrow> steady b c \<Longrightarrow> steady a c"
  by (simp add: steady_def)

lemma kept_steady: "kept fs fs' \<Longrightarrow> steady fs fs'"
  by (simp add: kept_def steady_def cnt_def [abs_def])

lemma steady_put: "sv_heap fs p = Some sv \<Longrightarrow> vn_refcount sv' = vn_refcount sv \<Longrightarrow> steady fs (sv_put p sv' fs)"
  by (auto simp: steady_def sv_put_def cnt_def fun_eq_iff)

lemma steady_cong:
  assumes "steady w w1"
  shows "quiet cnt w1 x = quiet cnt w x" and "quiet cnt x w1 = quiet cnt x w" and "gains cnt p w1 x = gains cnt p w x"
    and "gains cnt p x w1 = gains cnt p x w" and "drops cnt p w1 x = drops cnt p w x" and "drops cnt p x w1 = drops cnt p x w"
    and "small cnt w1 = small cnt w"
  using assms by (simp_all add: steady_def quiet_def [abs_def] gains_def [abs_def] drops_def [abs_def] small_def)

lemma steady_quiet: "steady w w' \<Longrightarrow> quiet cnt w w'"
  by (simp add: steady_def quiet_def)

lemma steady_hands: "steady w w1 \<Longrightarrow> hands cnt r w1 w2 = hands cnt r w w2"
  using steady_cong by (cases r) (auto simp: hands_def)

lemma hands_steady: "hands cnt r w w1 \<Longrightarrow> steady w1 w2 \<Longrightarrow> hands cnt r w w2"
  using steady_cong by (cases r) (auto simp: hands_def)

lemma hands_Inl [simp]: "hands refs (Inl e) w w' = quiet refs w w'" and hands_Inr [simp]: "hands refs (Inr p) w w' = gains refs p w w'"
  by (simp_all add: hands_def)

text \<open>A reference taken and given back.\<close>

lemma gains_drops:
  assumes g: "gains refs p w w1" and d: "drops refs p w1 w2"
  shows "quiet refs w w2"
  unfolding quiet_def
proof
  fix x
  have "x \<noteq> p \<Longrightarrow> refs w2 x = refs w1 x" using d by (simp add: drops_def)
  moreover have "x \<noteq> p \<Longrightarrow> if 0 < refs w x then refs w1 x = refs w x else refs w1 x \<le> 1" using g unfolding gains_def by blast
  ultimately show "if 0 < refs w x then refs w2 x = refs w x else refs w2 x \<le> 1"
    using g [unfolded gains_def, THEN conjunct1] d [unfolded drops_def, THEN conjunct1] by (cases "x = p") (auto split: if_splits)
qed

lemma on_vnode_steady:
  assumes "\<And>st. holds (\<lambda>(r, st'). keeps st st') (f st)" and "on_vnode p f fs = Some (r, fs')"
  shows "steady fs fs'"
proof -
  obtain sv sv1 fs1 where a: "sv_heap fs p = Some sv" "f (sv, fs) = Some (r, sv1, fs1)" "fs' = sv_put p sv1 fs1"
    using assms(2) by (auto simp: on_vnode_def bind_eq_Some_conv)
  have k: "keeps (sv, fs) (sv1, fs1)" using holdsD [OF assms(1) a(2)] by simp
  then have "sv_heap fs1 p = Some sv" "vn_refcount sv1 = vn_refcount sv" using a(1) by (auto simp: kept_def vkept_def)
  then show ?thesis using steady_trans [OF kept_steady steady_put] k a(3) by auto
qed

lemma sync_keeps: "holds (\<lambda>(r, st'). keeps st st') ((\<lambda>(sv, fs). sfs_sync_inode sv fs) st)"
  by (cases st) (auto simp: holds_def dest: sync_inode_keeps)

lemmas on_dir_steady =
  on_vnode_steady [of "sfs_dir_findname name" for name, OF findname_keeps]
  on_vnode_steady [of "sfs_dir_link name ino" for name ino, OF dir_link_keeps]
  on_vnode_steady [of "sfs_dir_unlink slot" for slot, OF dir_unlink_keeps]
  on_vnode_steady [of "vop_truncate n" for n, OF vop_truncate_keeps]
  on_vnode_steady [OF sync_keeps]

section \<open>References taken\<close>

lemma incref_gains: "small cnt fs \<Longrightarrow> sfs_incref p fs = Some fs' \<Longrightarrow> gains cnt p fs fs'"
proof -
  assume s: "small cnt fs" and "sfs_incref p fs = Some fs'"
  then obtain sv where sv: "sv_heap fs p = Some sv" "fs' = sv_put p (vnode_incref sv) fs" by (auto simp: sfs_incref_def bind_eq_Some_conv)
  have "cnt fs p < 2 ^ 31 - 1" using s by (simp add: small_def)
  then have "0 \<le> vn_refcount sv" "vn_refcount sv < 2 ^ 31 - 1" using sv(1) by (auto simp: cnt_def split: if_splits)
  then show ?thesis using sv by (auto simp: gains_def cnt_def sv_put_def vnode_incref_def)
qed

text \<open>The allocator hands out addresses that are not in use.\<close>

definition fresh :: "load_mem \<Rightarrow> sfs_fs \<Rightarrow> bool" where
  "fresh mem fs \<longleftrightarrow> (\<forall>p. lm_new mem = Some p \<longrightarrow> sv_heap fs p = None)"

lemma fresh_steady: "steady fs fs' \<Longrightarrow> fresh mem fs' = fresh mem fs"
  by (metis domIff fresh_def steady_def)

lemma new_gains:
  assumes "kept fs fs1" and "sv_heap fs p = None" and "vn_refcount sv = 1"
  shows "gains cnt p fs (sv_put p sv (fs1\<lparr>sfs_vnodes := tab\<rparr>))"
  using assms by (simp add: gains_def cnt_def sv_put_def kept_def)

lemma loadvnode_hands:
  assumes s: "small cnt fs" and f: "fresh mem fs"
  shows "holds (\<lambda>(r, fs'). hands cnt r fs fs') (sfs_loadvnode mem ino t fs)"
proof -
  have hit: "gains cnt p fs (sv_put p (vnode_incref sv) fs)" if "sv_heap fs p = Some sv" for p sv
    using incref_gains [OF s, of p] that by (simp add: sfs_incref_def)
  have err: "quiet cnt fs (fs1\<lparr>sfs_vnodes := tab\<rparr>)" "quiet cnt fs fs1" if "sfs_rblock bs ino fs = Some (q, bs', fs1)" for bs q bs' fs1 tab
    using rblock_kept [OF that] steady_quiet kept_steady by (auto simp: kept_def)
  have new: "gains cnt p fs (sv_put p (vnode.extend vn (sfs_vnode.fields i ino d)) (fs1\<lparr>sfs_vnodes := tab\<rparr>))"
    if "sfs_rblock bs ino fs = Some (q, bs', fs1)" "vnode_init lk ops = Inr vn" "lm_new mem = Some p" for bs q bs' fs1 tab vn i d p lk ops
    using new_gains [OF rblock_kept [OF that(1)]] f that(2,3) by (auto simp: fresh_def vnode_init_def vnode.defs sfs_vnode.defs split: if_splits)
  show ?thesis unfolding sfs_loadvnode_def Let_def
    by (intro holds_bind holds_opt holds_sum holds_prod holds_if) (use hit err new steady_quiet in \<open>auto split del: if_split\<close>)
qed

lemma holds_ebind_cases:
  "(\<And>e s. m = Some (Inl e, s) \<Longrightarrow> P (Inl e, s)) \<Longrightarrow> (\<And>x s. m = Some (Inr x, s) \<Longrightarrow> holds P (f x s)) \<Longrightarrow> holds P (ebind m f)"
  by (auto simp: ebind_def split: option.splits sum.splits)

lemmas loadvnode_handsD = holdsD [OF loadvnode_hands]

lemma getroot_gains:
  assumes "small cnt fs" and "fresh mem fs"
  shows "holds (\<lambda>(p, fs'). gains cnt p fs fs') (sfs_getroot mem fs)"
  unfolding sfs_getroot_def by (intro holds_bind holds_prod holds_sum) (use loadvnode_handsD [OF assms] in fastforce)+

lemma lookonce_hands:
  assumes "small cnt fs" and "fresh mem fs"
  shows "holds (\<lambda>(r, fs'). hands cnt (map_sum id fst r) fs fs') (sfs_lookonce mem d name fs)"
  unfolding sfs_lookonce_def
proof (rule holds_ebind_cases)
  fix e s assume "on_vnode d (sfs_dir_findname name) fs = Some (Inl e, s)"
  then show "case (Inl e, s) of (r, fs') \<Rightarrow> hands cnt (map_sum id fst r) fs fs'" using on_dir_steady(1) steady_quiet by fastforce
next
  fix x fs1 assume a: "on_vnode d (sfs_dir_findname name) fs = Some (Inr x, fs1)"
  have st: "steady fs fs1" using on_dir_steady(1) [OF a] .
  obtain hit em where x: "x = (hit, em)" by (cases x)
  have l: "hands cnt q fs fs2" if "sfs_loadvnode mem ino SFS_TYPE_INVAL fs1 = Some (q, fs2)" for ino q fs2
    using loadvnode_handsD [OF _ _ that] assms st steady_cong(7) fresh_steady steady_hands by auto
  have "holds (\<lambda>(r, fs'). hands cnt (map_sum id fst r) fs fs') (ebind (sfs_loadvnode mem ino SFS_TYPE_INVAL fs1) (\<lambda>p fs2. do {
      sv \<leftarrow> sv_heap fs2 p; _ \<leftarrow> kassert (sfi_linkcount (sv_i sv) \<noteq> 0); Some (Inr (p, slot), fs2) }))" for ino slot
    by (rule holds_ebind_cases) (auto dest!: l)
  then show "holds (\<lambda>(r, fs'). hands cnt (map_sum id fst r) fs fs') ((case x of (hit, uu) \<Rightarrow> \<lambda>fs1. case hit of None \<Rightarrow> Some (Inl ENOENT, fs1)
      | Some (ino, slot) \<Rightarrow> ebind (sfs_loadvnode mem ino SFS_TYPE_INVAL fs1) (\<lambda>p fs2. sv_heap fs2 p \<bind>
          (\<lambda>sv. kassert (sfi_linkcount (sv_i sv) \<noteq> 0) \<bind> (\<lambda>_. Some (Inr (p, slot), fs2))))) fs1)"
    using st steady_quiet x by (auto split: option.splits)
qed

lemma makeobj_hands:
  assumes "small cnt fs" and "fresh mem fs"
  shows "holds (\<lambda>(r, fs'). hands cnt r fs fs') (sfs_makeobj mem t fs)"
  unfolding sfs_makeobj_def
proof (rule holds_ebind_cases)
  fix x fs1 assume "sfs_balloc fs = Some (Inr x, fs1)"
  then have st: "steady fs fs1" using balloc_kept kept_steady by blast
  then show "holds (\<lambda>(r, fs'). hands cnt r fs fs') (sfs_loadvnode mem x t fs1)"
    using loadvnode_hands [of fs1 mem x t] assms steady_cong(7) fresh_steady steady_hands by (simp add: holds_def)
qed (use balloc_kept kept_steady steady_quiet in fastforce)

section \<open>References given back\<close>

lemma on_truncate_steady: "on_vnode p (vop_truncate n) fs = Some (r, fs') \<Longrightarrow> steady fs fs'"
  by (rule on_dir_steady(4))

text \<open>Either the vnode is dropped, or every count is as it was.\<close>

lemma reclaim_counts:
  assumes run: "sfs_reclaim p fs = Some (r, fs')"
  shows "\<exists>fs1. steady fs fs1 \<and> (fs' = fs1 \<or> sv_heap fs' = (sv_heap fs1)(p := None))"
proof -
  obtain sv0 where sv0: "sv_heap fs p = Some sv0" using run by (auto simp: sfs_reclaim_def bind_eq_Some_conv)
  show ?thesis
  proof (cases "vn_refcount sv0 = 1")
    case one: True
    define m where "m = (if sfi_linkcount (sv_i sv0) = 0 then on_vnode p (vop_truncate 0) fs else Some (Inr (), fs))"
    obtain q1 fs1 where q1: "m = Some (q1, fs1)" using run sv0 one by (cases m) (auto simp: sfs_reclaim_def m_def)
    have s1: "steady fs fs1" using q1 on_truncate_steady by (auto simp: m_def split: if_splits)
    show ?thesis
    proof (cases q1)
      case (Inl e)
      then show ?thesis using run sv0 one q1 s1 by (auto simp: sfs_reclaim_def simp flip: m_def)
    next
      case i1: (Inr u)
      obtain q2 fs2 where q2: "on_vnode p (\<lambda>(sv, fs). sfs_sync_inode sv fs) fs1 = Some (q2, fs2)"
        using run sv0 one q1 i1 by (auto simp: sfs_reclaim_def ebind_def simp flip: m_def split: option.splits)
      have s2: "steady fs fs2" using steady_trans [OF s1 on_dir_steady(5) [OF q2]] .
      show ?thesis
      proof (cases q2)
        case (Inl e)
        then show ?thesis using run sv0 one q1 i1 q2 s2 by (auto simp: sfs_reclaim_def simp flip: m_def)
      next
        case (Inr u')
        obtain sv fs3 tab where f: "sv_heap fs2 p = Some sv" "fs' = fs3\<lparr>sfs_vnodes := tab, sv_heap := (sv_heap fs3)(p := None)\<rparr>"
          "(if sfi_linkcount (sv_i sv) = 0 then do { f \<leftarrow> sfs_bfree (sv_ino sv) fs2; Some (sv_put p (drop_block sv) f) } else Some fs2) = Some fs3"
          using run sv0 one q1 i1 q2 Inr by (auto simp: sfs_reclaim_def bind_eq_Some_conv simp flip: m_def)
        have "steady fs2 fs3"
        proof (cases "sfi_linkcount (sv_i sv) = 0")
          case True
          then obtain f1 where f1: "sfs_bfree (sv_ino sv) fs2 = Some f1" "fs3 = sv_put p (drop_block sv) f1" using f(3) by (auto simp: bind_eq_Some_conv)
          then show ?thesis using steady_trans [OF kept_steady [OF bfree_kept [OF f1(1)]] steady_put [of f1 p sv]] bfree_kept [OF f1(1)] f(1)
            by (auto simp: kept_def drop_block_def)
        qed (use f in auto)
        then have "steady fs fs3" using steady_trans [OF s2] by blast
        then show ?thesis using f(2) by auto
      qed
    qed
  qed (use run sv0 in \<open>auto simp: sfs_reclaim_def intro: exI [of _ fs]\<close>)
qed

lemma decref_drops:
  assumes run: "sfs_decref p fs = Some fs'"
  shows "drops cnt p fs fs'"
proof -
  obtain sv where sv: "sv_heap fs p = Some sv" "vn_refcount sv > 0" using run by (auto simp: sfs_decref_def vnode_decref_def bind_eq_Some_conv split: if_splits)
  show ?thesis
  proof (cases "vn_refcount sv > 1")
    case True
    then have "fs' = sv_put p (sv\<lparr>vn_refcount := vn_refcount sv - 1\<rparr>) fs" using run sv by (auto simp: sfs_decref_def vnode_decref_def)
    then show ?thesis using sv True by (auto simp: drops_def cnt_def sv_put_def nat_diff_distrib)
  next
    case False
    then have one: "vn_refcount sv = 1" using sv(2) by simp
    obtain r where "sfs_reclaim p fs = Some (r, fs')" using run sv False by (auto simp: sfs_decref_def vnode_decref_def bind_eq_Some_conv)
    then obtain fs1 where "steady fs fs1" "fs' = fs1 \<or> sv_heap fs' = (sv_heap fs1)(p := None)" using reclaim_counts by blast
    moreover have "cnt fs p = 1" using sv one by (simp add: cnt_def)
    ultimately show ?thesis by (auto simp: drops_def steady_def cnt_def fun_eq_iff)
  qed
qed

section \<open>Operations on names\<close>

lemma refcount_links [simp]: "vn_refcount (bump_link sv) = vn_refcount sv" "drop_link sv = Some sv' \<Longrightarrow> vn_refcount sv' = vn_refcount sv"
  by (auto simp: bump_link_def drop_link_def split: if_splits)

lemma link_steady: "holds (\<lambda>(r, fs'). steady fs fs') (sfs_link d name f fs)"
  unfolding sfs_link_def
proof (rule holds_bind, rule holds_ebind_cases)
  fix fv x fs1 assume "on_vnode d (sfs_dir_link name (sv_ino fv)) fs = Some (Inr x, fs1)"
  then have "steady fs fs1" by (rule on_dir_steady(2))
  then show "holds (\<lambda>(r, fs'). steady fs fs') (sv_heap fs1 f \<bind> (\<lambda>fv'. Some (Inr (), sv_put f (bump_link fv') fs1)))"
    using steady_trans [OF _ steady_put] by auto
qed (use on_dir_steady(2) in auto)

lemma creat_hands:
  assumes "small cnt fs" and "fresh mem fs"
  shows "holds (\<lambda>(r, fs'). hands cnt r fs fs') (sfs_creat mem d name excl fs)"
  unfolding sfs_creat_def
proof (rule holds_ebind_cases)
  fix e s assume "on_vnode d (sfs_dir_findname name) fs = Some (Inl e, s)"
  then show "case (Inl e, s) of (r, fs') \<Rightarrow> hands cnt r fs fs'" using on_dir_steady(1) steady_quiet by fastforce
next
  fix x fs1 assume a: "on_vnode d (sfs_dir_findname name) fs = Some (Inr x, fs1)"
  have st: "steady fs fs1" using on_dir_steady(1) [OF a] .
  have ok: "small cnt fs1" "fresh mem fs1" using assms st steady_cong(7) fresh_steady by auto
  obtain hit em where x: "x = (hit, em)" by (cases x)
  have old: "holds (\<lambda>(r, fs'). hands cnt r fs fs') (sfs_loadvnode mem ino SFS_TYPE_INVAL fs1)" for ino
    using loadvnode_hands [OF ok] st by (simp add: steady_hands)
  have new: "holds (\<lambda>(r, fs'). hands cnt r fs fs') (ebind (sfs_makeobj mem SFS_TYPE_FILE fs1) (\<lambda>p fs2. do {
      new \<leftarrow> sv_heap fs2 p;
      (r, fs3) \<leftarrow> on_vnode d (sfs_dir_link name (sv_ino new)) fs2;
      (case r of Inl e \<Rightarrow> do { fs4 \<leftarrow> sfs_decref p fs3; Some (Inl e, fs4) }
       | Inr _ \<Rightarrow> do { new' \<leftarrow> sv_heap fs3 p; Some (Inr p, sv_put p (bump_link new') fs3) }) }))"
  proof (rule holds_ebind_cases)
    fix e s assume "sfs_makeobj mem SFS_TYPE_FILE fs1 = Some (Inl e, s)"
    then show "case (Inl e, s) of (r, fs') \<Rightarrow> hands cnt r fs fs'" using holdsD [OF makeobj_hands [OF ok]] st by (fastforce simp: steady_cong)
  next
    fix p fs2 assume "sfs_makeobj mem SFS_TYPE_FILE fs1 = Some (Inr p, fs2)"
    then have g: "gains cnt p fs fs2" using holdsD [OF makeobj_hands [OF ok]] st by (fastforce simp: steady_cong)
    have g3: "gains cnt p fs fs3" if "on_vnode d (sfs_dir_link name i) fs2 = Some (r, fs3)" for i r fs3
      using g steady_cong(4) [OF on_dir_steady(2) [OF that]] by simp
    show "holds (\<lambda>(r, fs'). hands cnt r fs fs') (do {
      new \<leftarrow> sv_heap fs2 p;
      (r, fs3) \<leftarrow> on_vnode d (sfs_dir_link name (sv_ino new)) fs2;
      (case r of Inl e \<Rightarrow> do { fs4 \<leftarrow> sfs_decref p fs3; Some (Inl e, fs4) }
       | Inr _ \<Rightarrow> do { new' \<leftarrow> sv_heap fs3 p; Some (Inr p, sv_put p (bump_link new') fs3) }) })"
      by (intro holds_bind holds_prod holds_sum) (use g3 gains_drops [OF g3 decref_drops] steady_cong(4) [OF steady_put] in auto)
  qed
  show "holds (\<lambda>(r, fs'). hands cnt r fs fs') ((case x of (hit, uu) \<Rightarrow> \<lambda>fs1. case hit of
        None \<Rightarrow> ebind (sfs_makeobj mem SFS_TYPE_FILE fs1) (\<lambda>p fs2. sv_heap fs2 p \<bind> (\<lambda>new.
            on_vnode d (sfs_dir_link name (sv_ino new)) fs2 \<bind> (\<lambda>(r, fs3). case r of Inl e \<Rightarrow> sfs_decref p fs3 \<bind> (\<lambda>fs4. Some (Inl e, fs4))
             | Inr x \<Rightarrow> sv_heap fs3 p \<bind> (\<lambda>new'. Some (Inr p, sv_put p (bump_link new') fs3)))))
      | Some (ino, x) \<Rightarrow> if excl then Some (Inl EEXIST, fs1) else sfs_loadvnode mem ino SFS_TYPE_INVAL fs1) fs1)"
    using x old new steady_quiet [OF st] by (auto split: option.splits)
qed

lemma remove_quiet:
  assumes "small cnt fs" and "fresh mem fs"
  shows "holds (\<lambda>(r, fs'). quiet cnt fs fs') (sfs_remove mem d name fs)"
  unfolding sfs_remove_def
proof (rule holds_ebind_cases)
  fix e s assume "sfs_lookonce mem d name fs = Some (Inl e, s)"
  then show "case (Inl e, s) of (r, fs') \<Rightarrow> quiet cnt fs fs'" using holdsD [OF lookonce_hands [OF assms]] by fastforce
next
  fix x fs1 assume a: "sfs_lookonce mem d name fs = Some (Inr x, fs1)"
  obtain vic slot where x: "x = (vic, slot)" by (cases x)
  have g: "gains cnt vic fs fs1" using holdsD [OF lookonce_hands [OF assms] a] x by simp
  have g2: "gains cnt vic fs fs2" if "on_vnode d (sfs_dir_unlink slot) fs1 = Some (r, fs2)" for r fs2
    using g steady_cong(4) [OF on_dir_steady(3) [OF that]] by simp
  have g3: "gains cnt vic fs fs3" if "on_vnode d (sfs_dir_unlink slot) fs1 = Some (r, fs2)"
      "(case r of Inl _ \<Rightarrow> Some fs2 | Inr _ \<Rightarrow> do { sv \<leftarrow> sv_heap fs2 vic; sv' \<leftarrow> drop_link sv; Some (sv_put vic sv' fs2) }) = Some fs3" for r fs2 fs3
    using g2 [OF that(1)] that(2) steady_cong(4) [OF steady_put] by (cases r) (auto simp: bind_eq_Some_conv)
  have "holds (\<lambda>(r, fs'). quiet cnt fs fs') (do {
       (r, fs2) \<leftarrow> on_vnode d (sfs_dir_unlink slot) fs1;
       fs3 \<leftarrow> (case r of Inl _ \<Rightarrow> Some fs2 | Inr _ \<Rightarrow> do { sv \<leftarrow> sv_heap fs2 vic; sv' \<leftarrow> drop_link sv; Some (sv_put vic sv' fs2) });
       fs4 \<leftarrow> sfs_decref vic fs3;
       Some (r, fs4) })"
    by (rule holds_bind, rule holds_prod, rule holds_bind, rule holds_bind) (use gains_drops [OF g3 decref_drops] in auto)
  then show "holds (\<lambda>(r, fs'). quiet cnt fs fs') ((case x of (victim, slot) \<Rightarrow> \<lambda>fs1. on_vnode d (sfs_dir_unlink slot) fs1 \<bind> (\<lambda>(r, fs2).
      (case r of Inl x \<Rightarrow> Some fs2 | Inr x \<Rightarrow> sv_heap fs2 victim \<bind> (\<lambda>sv. drop_link sv \<bind> (\<lambda>sv'. Some (sv_put victim sv' fs2)))) \<bind>
      (\<lambda>fs3. sfs_decref victim fs3 \<bind> (\<lambda>fs4. Some (r, fs4))))) fs1)" using x by simp
qed

lemma lookparent_hands:
  assumes "small cnt fs"
  shows "holds (\<lambda>(r, fs'). hands cnt (map_sum id fst r) fs fs') (sfs_lookparent d path n fs)"
  unfolding sfs_lookparent_def by (intro holds_bind holds_if) (use incref_gains [OF assms] steady_quiet in auto)

lemma lookup_hands:
  assumes "small cnt fs" and "fresh mem fs"
  shows "holds (\<lambda>(r, fs'). hands cnt r fs fs') (sfs_lookup mem d path fs)"
  unfolding sfs_lookup_def
  by (intro holds_bind holds_if holds_ebind_cases) (use holdsD [OF lookonce_hands [OF assms]] steady_quiet in fastforce)+

text \<open>\<^verbatim>\<open>sfs_rename\<close> once the file is found.\<close>

lemma rename_rest_quiet:
  assumes g: "gains cnt g1 fs fs1"
  shows "holds (\<lambda>(r, fs'). quiet cnt fs fs') (do {
       gv \<leftarrow> sv_heap fs1 g1;
       _ \<leftarrow> kassert (sfi_type (sv_i gv) = SFS_TYPE_FILE);
       (r, fs2) \<leftarrow> on_vnode d1 (sfs_dir_link n2 (sv_ino gv)) fs1;
       (case r of
          Inl e \<Rightarrow> do { fs3 \<leftarrow> sfs_decref g1 fs2; Some (Inl e, fs3) }
        | Inr slot2 \<Rightarrow> do {
            gv2 \<leftarrow> sv_heap fs2 g1;
            let fs3 = sv_put g1 (bump_link gv2) fs2;
            (r, fs4) \<leftarrow> on_vnode d1 (sfs_dir_unlink slot1) fs3;
            (case r of
               Inr _ \<Rightarrow> do {
                 gv4 \<leftarrow> sv_heap fs4 g1;
                 gv5 \<leftarrow> drop_link gv4;
                 fs6 \<leftarrow> sfs_decref g1 (sv_put g1 gv5 fs4);
                 Some (Inr (), fs6)
               }
             | Inl e \<Rightarrow> do {
                 (r2, fs5) \<leftarrow> on_vnode d1 (sfs_dir_unlink slot2) fs4;
                 (case r2 of Inl _ \<Rightarrow> None | Inr _ \<Rightarrow> do { fs6 \<leftarrow> sfs_decref g1 fs5; Some (Inl e, fs6) })
               })
          })
     })"
proof -
  have 1: "gains cnt g1 fs fs2" if "on_vnode d1 (sfs_dir_link n2 i) fs1 = Some (r, fs2)" for i r fs2
    using g steady_cong(4) [OF on_dir_steady(2) [OF that]] by simp
  have 2: "gains cnt g1 fs (sv_put g1 (bump_link gv) fs2)" if "gains cnt g1 fs fs2" "sv_heap fs2 g1 = Some gv" for fs2 gv
    using that steady_cong(4) [OF steady_put] by auto
  have 3: "gains cnt g1 fs fs4" if "gains cnt g1 fs fs3" "on_vnode d1 (sfs_dir_unlink sl) fs3 = Some (r, fs4)" for sl fs3 r fs4
    using that(1) steady_cong(4) [OF on_dir_steady(3) [OF that(2)]] by simp
  have 4: "gains cnt g1 fs (sv_put g1 gv' fs2)" if "gains cnt g1 fs fs2" "sv_heap fs2 g1 = Some gv" "drop_link gv = Some gv'" for fs2 gv gv'
    using that steady_cong(4) [OF steady_put] by auto
  note q = gains_drops [OF _ decref_drops]
  show ?thesis unfolding Let_def
    by (intro holds_bind holds_prod holds_sum) (auto intro: q [OF 1] q [OF 3 [OF 3 [OF 2 [OF 1]]]] q [OF 4 [OF 3 [OF 2 [OF 1]]]])
qed

lemma rename_quiet:
  assumes "small cnt fs" and "fresh mem fs"
  shows "holds (\<lambda>(r, fs'). quiet cnt fs fs') (sfs_rename mem d1 n1 d2 n2 fs)"
  unfolding sfs_rename_def
proof (intro holds_bind holds_ebind_cases)
  fix e s assume "sfs_lookonce mem d1 n1 fs = Some (Inl e, s)"
  then show "case (Inl e, s) of (r, fs') \<Rightarrow> quiet cnt fs fs'" using holdsD [OF lookonce_hands [OF assms]] by fastforce
next
  fix x fs1 assume a: "sfs_lookonce mem d1 n1 fs = Some (Inr x, fs1)"
  obtain g1 slot1 where x: "x = (g1, slot1)" by (cases x)
  have g: "gains cnt g1 fs fs1" using holdsD [OF lookonce_hands [OF assms] a] x by simp
  note r = rename_rest_quiet [OF g, of d1 n2 slot1]
  show "holds (\<lambda>(r, fs'). quiet cnt fs fs') ((case x of (g1, slot1) \<Rightarrow> \<lambda>fs1. do {
       gv \<leftarrow> sv_heap fs1 g1;
       _ \<leftarrow> kassert (sfi_type (sv_i gv) = SFS_TYPE_FILE);
       (r, fs2) \<leftarrow> on_vnode d1 (sfs_dir_link n2 (sv_ino gv)) fs1;
       (case r of
          Inl e \<Rightarrow> do { fs3 \<leftarrow> sfs_decref g1 fs2; Some (Inl e, fs3) }
        | Inr slot2 \<Rightarrow> do {
            gv2 \<leftarrow> sv_heap fs2 g1;
            let fs3 = sv_put g1 (bump_link gv2) fs2;
            (r, fs4) \<leftarrow> on_vnode d1 (sfs_dir_unlink slot1) fs3;
            (case r of
               Inl e \<Rightarrow> do {
                 (r2, fs5) \<leftarrow> on_vnode d1 (sfs_dir_unlink slot2) fs4;
                 (case r2 of Inl _ \<Rightarrow> None | Inr _ \<Rightarrow> do { fs6 \<leftarrow> sfs_decref g1 fs5; Some (Inl e, fs6) })
               }
             | Inr _ \<Rightarrow> do {
                 gv4 \<leftarrow> sv_heap fs4 g1;
                 gv5 \<leftarrow> drop_link gv4;
                 fs6 \<leftarrow> sfs_decref g1 (sv_put g1 gv5 fs4);
                 Some (Inr (), fs6)
               })
          })
     }) fs1)" unfolding x prod.case using r .
qed

section \<open>Open counts\<close>

text \<open>\<^verbatim>\<open>VOP_INCOPEN\<close> and \<^verbatim>\<open>VOP_DECOPEN\<close> on a vnode of this file system.\<close>

definition sfs_incopen :: "nat \<Rightarrow> sfs_fs \<Rightarrow> sfs_fs option" where
  "sfs_incopen p fs = do {
     sv \<leftarrow> sv_heap fs p;
     Some (sv_put p (vnode_incopen sv) fs)
   }"

definition sfs_decopen :: "nat \<Rightarrow> sfs_fs \<Rightarrow> sfs_fs option" where
  "sfs_decopen p fs = do {
     _ \<leftarrow> sv_heap fs p;
     vnode_decopen (\<lambda>fs. the (sv_heap fs p)) (sv_put p) (sfs_close p) fs
   }"

lemma incopen_steady: "sfs_incopen p fs = Some fs' \<Longrightarrow> steady fs fs'"
  using steady_put by (auto simp: sfs_incopen_def bind_eq_Some_conv vnode_incopen_def)

lemma decopen_steady:
  assumes "sfs_decopen p fs = Some fs'"
  shows "steady fs fs'"
proof -
  obtain sv where sv: "sv_heap fs p = Some sv" using assms by (auto simp: sfs_decopen_def bind_eq_Some_conv)
  let ?s = "sv_put p (sv\<lparr>vn_opencount := vn_opencount sv - 1\<rparr>) fs"
  have s: "steady fs ?s" using steady_put [OF sv] by simp
  show ?thesis using assms sv s steady_trans [OF s on_dir_steady(5)]
    by (auto simp: sfs_decopen_def vnode_decopen_def Let_def bind_eq_Some_conv sfs_close_def sfs_fsync_def split: if_splits)
qed

end
