(* ===== verification/Device.thy ===== *)
theory Device
  imports Sfs_ops
begin

text \<open>
  The vnode operations of devices, \<^verbatim>\<open>kern/fs/vfs/device.c\<close>, and the null device, \<^verbatim>\<open>devnull.c\<close>. What a device does lies behind
  the functions of its \<^verbatim>\<open>struct device\<close>, here functions on a state \<open>'h\<close> of the hardware.
\<close>

section \<open>Devices\<close>

text \<open>\<^verbatim>\<open>struct device\<close> of \<^verbatim>\<open>dev.h\<close>; what \<^verbatim>\<open>d_data\<close> points to is part of the hardware's state.\<close>

record 'h device =
  d_open :: "nat \<Rightarrow> 'h \<Rightarrow> (unit res \<times> 'h) option"
  d_close :: "'h \<Rightarrow> (unit res \<times> 'h) option"
  d_io :: "uio \<Rightarrow> 'h \<Rightarrow> (unit res \<times> uio \<times> 'h) option"
  d_ioctl :: "nat \<Rightarrow> nat \<Rightarrow> 'h \<Rightarrow> (unit res \<times> 'h) option"
  dev_blocks :: nat
  dev_blocksize :: nat

text \<open>The vnode of a device; its \<^verbatim>\<open>vn_data\<close> is the device's address, \<open>None\<close> for \<^verbatim>\<open>NULL\<close>.\<close>

record dev_vnode = vnode +
  vn_data :: "nat option"

section \<open>Vnode operations\<close>

definition dev_open :: "'h device \<Rightarrow> nat \<Rightarrow> 'h \<Rightarrow> (unit res \<times> 'h) option" where
  "dev_open d flags h =
     (if has_flag flags (or (or O_CREAT O_TRUNC) (or O_EXCL O_APPEND)) then Some (Inl EINVAL, h)
      else d_open d flags h)"

definition dev_close :: "'h device \<Rightarrow> 'h \<Rightarrow> (unit res \<times> 'h) option" where
  "dev_close d h = d_close d h"

definition dev_reclaim :: "'s \<Rightarrow> (unit res \<times> 's) option" where
  "dev_reclaim s = Some (Inr (), s)"

definition dev_read :: "'h device \<Rightarrow> uio \<Rightarrow> 'h \<Rightarrow> (unit res \<times> uio \<times> 'h) option" where
  "dev_read d u h = do {
     _ \<leftarrow> kassert (uio_rw u = UIO_READ);
     d_io d u h
   }"

definition null_io :: "uio \<Rightarrow> unit res" where
  "null_io u = Inl EINVAL"

definition dev_write :: "'h device \<Rightarrow> uio \<Rightarrow> 'h \<Rightarrow> (unit res \<times> uio \<times> 'h) option" where
  "dev_write d u h = do {
     _ \<leftarrow> kassert (uio_rw u = UIO_WRITE);
     d_io d u h
   }"

definition dev_ioctl :: "'h device \<Rightarrow> nat \<Rightarrow> nat \<Rightarrow> 'h \<Rightarrow> (unit res \<times> 'h) option" where
  "dev_ioctl d op data h = d_ioctl d op data h"

definition dev_gettype :: "'h device \<Rightarrow> nat res" where
  "dev_gettype d = Inr (if dev_blocks d > 0 then S_IFBLK else S_IFCHR)"

text \<open>The size is a product of 32-bit integers, stored as a signed one; \<open>st_size\<close> has its 32 bits.\<close>

definition dev_stat :: "'h device \<Rightarrow> stat res" where
  "dev_stat d =
     (case dev_gettype d of
        Inl e \<Rightarrow> Inl e
      | Inr mode \<Rightarrow> Inr \<lparr>st_mode = mode, st_nlink = 1,
          st_size = (if dev_blocks d > 0 then size32 (dev_blocks d * dev_blocksize d) else 0), st_blocks = dev_blocks d\<rparr>)"

text \<open>
  \<^verbatim>\<open>dev_tryseek\<close>: the position is a signed 32-bit integer, but \<^verbatim>\<open>pos % d_blocksize\<close> and \<^verbatim>\<open>pos / d_blocksize\<close> are
  computed on unsigned ones; dividing by 0 is undefined.
\<close>

definition uint32 :: "int \<Rightarrow> nat" where
  "uint32 k = nat (k mod 2 ^ 32)"

definition dev_tryseek :: "'h device \<Rightarrow> int \<Rightarrow> unit res option" where
  "dev_tryseek d pos =
     (if dev_blocks d > 0 then do {
        _ \<leftarrow> kassert (dev_blocksize d \<noteq> 0);
        if uint32 pos mod dev_blocksize d \<noteq> 0 then Some (Inl EINVAL)
        else if pos < 0 then Some (Inl EINVAL)
        else if uint32 pos div dev_blocksize d \<ge> dev_blocks d then Some (Inl EINVAL)
        else Some (Inr ())
      }
      else Some (Inl ESPIPE))"

definition null_fsync :: "unit res" where "null_fsync = Inr ()"

definition dev_mmap :: "unit res" where "dev_mmap = Inl EUNIMP"

definition dev_truncate :: "'h device \<Rightarrow> int \<Rightarrow> unit res" where
  "dev_truncate d len =
     (if dev_blocks d > 0 \<and> int32 (int (dev_blocks d) * int (dev_blocksize d)) = len then Inr () else Inl EINVAL)"

definition dev_namefile :: "unit res" where "dev_namefile = Inr ()"

text \<open>Operations that make no sense on devices.\<close>

definition null_creat :: "'v res" where "null_creat = Inl ENOTDIR"
definition null_symlink :: "unit res" where "null_symlink = Inl ENOTDIR"
definition null_nameop :: "unit res" where "null_nameop = Inl ENOTDIR"
definition null_link :: "unit res" where "null_link = Inl ENOTDIR"
definition null_rename :: "unit res" where "null_rename = Inl ENOTDIR"

text \<open>Lookup on the vnode \<open>dir\<close>; \<open>incref\<close> is \<^verbatim>\<open>VOP_INCREF\<close> on it.\<close>

definition dev_lookup :: "('w \<Rightarrow> 'w option) \<Rightarrow> 'v \<Rightarrow> byte list \<Rightarrow> 'w \<Rightarrow> ('v res \<times> 'w) option" where
  "dev_lookup incref dir pathname w =
     (if length pathname > 0 then Some (Inl ENOENT, w)
      else do {
        w1 \<leftarrow> incref w;
        Some (Inr dir, w1)
      })"

definition dev_lookparent :: "('v \<times> byte list) res" where "dev_lookparent = Inl ENOTDIR"

text \<open>
  \<^verbatim>\<open>dev_create_vnode\<close>, with the outcomes of its allocations: \<open>None\<close> inside is \<^verbatim>\<open>NULL\<close>; without memory for the lock
  the kernel panics.
\<close>

definition create_dev_vnode :: "bool \<Rightarrow> bool \<Rightarrow> nat option \<Rightarrow> dev_vnode option option" where
  "create_dev_vnode vnode_mem lock_mem dev =
     (if \<not> vnode_mem then Some None
      else
        (case vnode_init lock_mem DEV_OPS of
           Inl e \<Rightarrow> None
         | Inr vn \<Rightarrow> Some (Some (vnode.extend vn (dev_vnode.fields dev)))))"

section \<open>The null device\<close>

definition nullopen :: "nat \<Rightarrow> 'h \<Rightarrow> (unit res \<times> 'h) option" where "nullopen openflags h = Some (Inr (), h)"

definition nullclose :: "'h \<Rightarrow> (unit res \<times> 'h) option" where "nullclose h = Some (Inr (), h)"

definition nullio :: "uio \<Rightarrow> 'h \<Rightarrow> (unit res \<times> uio \<times> 'h) option" where
  "nullio u h = Some (Inr (), if uio_rw u = UIO_WRITE then u\<lparr>uio_resid := 0\<rparr> else u, h)"

definition nullioctl :: "nat \<Rightarrow> nat \<Rightarrow> 'h \<Rightarrow> (unit res \<times> 'h) option" where "nullioctl op data h = Some (Inl EINVAL, h)"

definition null_device :: "'h device" where
  "null_device = \<lparr>d_open = nullopen, d_close = nullclose, d_io = nullio, d_ioctl = nullioctl, dev_blocks = 0, dev_blocksize = 1\<rparr>"

section \<open>Lemmas\<close>

lemma uint32_id [simp]: "0 \<le> k \<Longrightarrow> k < 2 ^ 32 \<Longrightarrow> uint32 k = nat k"
  by (simp add: uint32_def)

text \<open>A seek succeeds exactly for the start of a block of the device.\<close>

lemma dev_tryseek_iff:
  assumes "0 < dev_blocks d" and "0 < dev_blocksize d" and "- (2 ^ 31) \<le> pos" and "pos < 2 ^ 31"
  shows "dev_tryseek d pos = Some (Inr ()) \<longleftrightarrow> (\<exists>b < dev_blocks d. pos = int (b * dev_blocksize d))"
proof (cases "0 \<le> pos")
  case True
  let ?n = "nat pos" and ?z = "dev_blocksize d"
  have u: "uint32 pos = ?n" using True assms(4) by simp
  have "?n mod ?z = 0 \<and> ?n div ?z < dev_blocks d \<longleftrightarrow> (\<exists>b < dev_blocks d. ?n = b * ?z)"
  proof
    assume "?n mod ?z = 0 \<and> ?n div ?z < dev_blocks d"
    then show "\<exists>b < dev_blocks d. ?n = b * ?z" using div_mod_decomp [of ?n ?z] by (intro exI [of _ "?n div ?z"]) simp
  qed (use assms(2) in auto)
  moreover have "pos = int (b * ?z) \<longleftrightarrow> ?n = b * ?z" for b using True by linarith
  ultimately show ?thesis using True assms(1,2) u by (auto simp: dev_tryseek_def)
next
  case False
  then show ?thesis using assms(1,2) by (auto simp: dev_tryseek_def)
qed

end
