(* ===== verification/Vfs_kernel.thy ===== *)
theory Vfs_kernel
  imports Sfs_counts Sfs_vol Device
begin

text \<open>
  The kernel's own vnodes behind the VFS layer: the vnodes of devices and those of mounted volumes of the simple file system, with
  the dispatch of the \<^verbatim>\<open>VOP_...\<close> macros of \<^verbatim>\<open>kern/include/vnode.h\<close> through the three function tables. The laws that the VFS
  layer relies on are proved for them.
\<close>

section \<open>Vnodes, volumes, devices\<close>

text \<open>
  A vnode is the one of a device, by its place in the list of those that were ever made, or one of a volume, by the
  device the volume is on and its address there.
\<close>

datatype vnode_id = Dev nat | Sfs nat nat

text \<open>
  What lies behind the tables: the vnodes of devices, the volumes by the device they are on, the disks of devices with no
  volume, what the allocator will hand to \<^verbatim>\<open>sfs_loadvnode\<close>, and the hardware.
\<close>

record 'h kworld =
  w_devvns :: "dev_vnode option list"
  w_vols :: "nat \<Rightarrow> sfs_fs option"
  w_disks :: "nat \<Rightarrow> lhd_softc option"
  w_mem :: "load_mem list"
  w_hw :: 'h

definition dev_at :: "nat \<Rightarrow> 'h kworld \<Rightarrow> dev_vnode option" where
  "dev_at i w = do {
     x \<leftarrow> rd (w_devvns w) i;
     x
   }"

definition put_dev :: "nat \<Rightarrow> dev_vnode \<Rightarrow> 'h kworld \<Rightarrow> 'h kworld" where
  "put_dev i dv w = w\<lparr>w_devvns := (w_devvns w)[i := Some dv]\<rparr>"

definition put_vol :: "nat \<Rightarrow> sfs_fs \<Rightarrow> 'h kworld \<Rightarrow> 'h kworld" where
  "put_vol d fs w = w\<lparr>w_vols := (w_vols w)(d \<mapsto> fs)\<rparr>"

text \<open>A function of the volume on device \<open>d\<close>; one that may load a vnode gets the allocator's next answer, which is never an address in use.\<close>

definition on_vol :: "nat \<Rightarrow> (sfs_fs \<Rightarrow> ('a \<times> sfs_fs) option) \<Rightarrow> 'h kworld \<Rightarrow> ('a \<times> 'h kworld) option" where
  "on_vol d f w = do {
     fs \<leftarrow> w_vols w d;
     (r, fs') \<leftarrow> f fs;
     Some (r, put_vol d fs' w)
   }"

definition fresh_load :: "load_mem \<Rightarrow> sfs_fs \<Rightarrow> load_mem" where
  "fresh_load mem fs =
     (case lm_new mem of
        None \<Rightarrow> mem
      | Some p \<Rightarrow> if sv_heap fs p = None then mem else mem\<lparr>lm_new := None\<rparr>)"

definition next_load :: "'h kworld \<Rightarrow> sfs_fs \<Rightarrow> load_mem" where
  "next_load w fs = (case w_mem w of [] \<Rightarrow> \<lparr>lm_new = None, lm_lock = False, lm_array = False\<rparr> | mem # _ \<Rightarrow> fresh_load mem fs)"

definition on_vol_mem :: "nat \<Rightarrow> (load_mem \<Rightarrow> sfs_fs \<Rightarrow> ('a \<times> sfs_fs) option) \<Rightarrow> 'h kworld \<Rightarrow> ('a \<times> 'h kworld) option" where
  "on_vol_mem d f w = do {
     fs \<leftarrow> w_vols w d;
     (r, fs') \<leftarrow> f (next_load w fs) fs;
     Some (r, (put_vol d fs' w)\<lparr>w_mem := tl (w_mem w)\<rparr>)
   }"

text \<open>The device of a device's vnode; following \<^verbatim>\<open>NULL\<close> has no outcome.\<close>

definition device_of :: "(nat \<Rightarrow> 'h device) \<Rightarrow> nat \<Rightarrow> 'h kworld \<Rightarrow> 'h device option" where
  "device_of dvs i w = do {
     dv \<leftarrow> dev_at i w;
     a \<leftarrow> vn_data dv;
     Some (dvs a)
   }"

definition on_hw :: "('h \<Rightarrow> ('a \<times> 'h) option) \<Rightarrow> 'h kworld \<Rightarrow> ('a \<times> 'h kworld) option" where
  "on_hw f w = do {
     (r, h) \<leftarrow> f (w_hw w);
     Some (r, w\<lparr>w_hw := h\<rparr>)
   }"

section \<open>Dispatch\<close>

text \<open>\<^verbatim>\<open>__VOP\<close>: the vnode is checked, then the table it has is used: the device layer's, the one for files or the one for directories.\<close>

definition vop_table :: "vnode_id \<Rightarrow> 'h kworld \<Rightarrow> vnode_ops option" where
  "vop_table vn w =
     (case vn of
        Dev i \<Rightarrow> do {
          dv \<leftarrow> dev_at i w;
          _ \<leftarrow> vnode_check False dv;
          vn_ops dv
        }
      | Sfs d p \<Rightarrow> do {
          fs \<leftarrow> w_vols w d;
          sv \<leftarrow> sv_heap fs p;
          _ \<leftarrow> vnode_check False sv;
          vn_ops sv
        })"

definition vop :: "vnode_id \<Rightarrow> (nat \<Rightarrow> 'h kworld \<Rightarrow> 'a option) \<Rightarrow> (nat \<Rightarrow> nat \<Rightarrow> 'h kworld \<Rightarrow> 'a option) \<Rightarrow>
    (nat \<Rightarrow> nat \<Rightarrow> 'h kworld \<Rightarrow> 'a option) \<Rightarrow> 'h kworld \<Rightarrow> 'a option" where
  "vop vn dev file dir w = do {
     t \<leftarrow> vop_table vn w;
     (case (t, vn) of
        (DEV_OPS, Dev i) \<Rightarrow> dev i w
      | (SFS_FILEOPS, Sfs d p) \<Rightarrow> file d p w
      | (SFS_DIROPS, Sfs d p) \<Rightarrow> dir d p w
      | _ \<Rightarrow> None)
   }"

text \<open>An entry of a table that only gives an answer.\<close>

definition answer :: "'a \<Rightarrow> 'h kworld \<Rightarrow> ('a \<times> 'h kworld) option" where
  "answer r w = Some (r, w)"

text \<open>The counts: \<^verbatim>\<open>VOP_INCREF\<close>, \<^verbatim>\<open>VOP_DECREF\<close>, \<^verbatim>\<open>VOP_INCOPEN\<close>, \<^verbatim>\<open>VOP_DECOPEN\<close>.\<close>

definition lift_vol :: "nat \<Rightarrow> (sfs_fs \<Rightarrow> sfs_fs option) \<Rightarrow> 'h kworld \<Rightarrow> 'h kworld option" where
  "lift_vol d f w = do {
     fs \<leftarrow> w_vols w d;
     fs' \<leftarrow> f fs;
     Some (put_vol d fs' w)
   }"

definition k_incref :: "vnode_id \<Rightarrow> 'h kworld \<Rightarrow> 'h kworld option" where
  "k_incref vn w =
     (case vn of
        Dev i \<Rightarrow> do {
          dv \<leftarrow> dev_at i w;
          Some (put_dev i (vnode_incref dv) w)
        }
      | Sfs d p \<Rightarrow> lift_vol d (sfs_incref p) w)"

definition k_decref :: "vnode_id \<Rightarrow> 'h kworld \<Rightarrow> 'h kworld option" where
  "k_decref vn w =
     (case vn of
        Dev i \<Rightarrow> do {
          _ \<leftarrow> dev_at i w;
          vnode_decref (\<lambda>w. the (dev_at i w)) (put_dev i) dev_reclaim w
        }
      | Sfs d p \<Rightarrow> lift_vol d (sfs_decref p) w)"

definition k_incopen :: "vnode_id \<Rightarrow> 'h kworld \<Rightarrow> 'h kworld option" where
  "k_incopen vn w =
     (case vn of
        Dev i \<Rightarrow> do {
          dv \<leftarrow> dev_at i w;
          Some (put_dev i (vnode_incopen dv) w)
        }
      | Sfs d p \<Rightarrow> lift_vol d (sfs_incopen p) w)"

definition k_decopen :: "(nat \<Rightarrow> 'h device) \<Rightarrow> vnode_id \<Rightarrow> 'h kworld \<Rightarrow> 'h kworld option" where
  "k_decopen dvs vn w =
     (case vn of
        Dev i \<Rightarrow> do {
          _ \<leftarrow> dev_at i w;
          vnode_decopen (\<lambda>w. the (dev_at i w)) (put_dev i)
            (\<lambda>w. do {
               d \<leftarrow> device_of dvs i w;
               on_hw (dev_close d) w
             }) w
        }
      | Sfs d p \<Rightarrow> lift_vol d (sfs_decopen p) w)"

section \<open>The operations\<close>

definition k_open :: "(nat \<Rightarrow> 'h device) \<Rightarrow> vnode_id \<Rightarrow> nat \<Rightarrow> 'h kworld \<Rightarrow> (unit res \<times> 'h kworld) option" where
  "k_open dvs vn flags w =
     vop vn
       (\<lambda>i w. do {
          d \<leftarrow> device_of dvs i w;
          on_hw (dev_open d flags) w
        })
       (\<lambda>_ _. answer (sfs_open flags))
       (\<lambda>_ _. answer (sfs_opendir flags)) w"

definition k_truncate :: "(nat \<Rightarrow> 'h device) \<Rightarrow> vnode_id \<Rightarrow> nat \<Rightarrow> 'h kworld \<Rightarrow> (unit res \<times> 'h kworld) option" where
  "k_truncate dvs vn len w =
     vop vn
       (\<lambda>i w. do {
          d \<leftarrow> device_of dvs i w;
          answer (dev_truncate d (int len)) w
        })
       (\<lambda>d p. on_vol d (on_vnode p (sfs_truncate len)))
       (\<lambda>_ _. answer (Inl EISDIR)) w"

definition k_gettype :: "(nat \<Rightarrow> 'h device) \<Rightarrow> vnode_id \<Rightarrow> 'h kworld \<Rightarrow> (nat res \<times> 'h kworld) option" where
  "k_gettype dvs vn w =
     (let sfs = (\<lambda>d p w. do {
            fs \<leftarrow> w_vols w d;
            sv \<leftarrow> sv_heap fs p;
            r \<leftarrow> sfs_gettype sv;
            answer r w
          })
      in vop vn
           (\<lambda>i w. do {
              d \<leftarrow> device_of dvs i w;
              answer (dev_gettype d) w
            }) sfs sfs w)"

definition k_readlink :: "vnode_id \<Rightarrow> uio \<Rightarrow> 'h kworld \<Rightarrow> (unit res \<times> uio \<times> 'h kworld) option" where
  "k_readlink vn u w =
     vop vn (\<lambda>_ w. Some (null_io u, u, w)) (\<lambda>_ _ w. Some (Inl ENOTDIR, u, w)) (\<lambda>_ _ w. Some (Inl EISDIR, u, w)) w"

definition k_namefile :: "vnode_id \<Rightarrow> uio \<Rightarrow> 'h kworld \<Rightarrow> (unit res \<times> uio \<times> 'h kworld) option" where
  "k_namefile vn u w =
     vop vn (\<lambda>_ w. Some (dev_namefile, u, w)) (\<lambda>_ _ w. Some (Inl ENOTDIR, u, w))
       (\<lambda>d p w. do {
          fs \<leftarrow> w_vols w d;
          sv \<leftarrow> sv_heap fs p;
          r \<leftarrow> sfs_namefile sv;
          Some (r, u, w)
        }) w"

definition k_creat :: "vnode_id \<Rightarrow> byte list \<Rightarrow> bool \<Rightarrow> 'h kworld \<Rightarrow> (vnode_id res \<times> 'h kworld) option" where
  "k_creat vn name excl w =
     vop vn (\<lambda>_. answer null_creat) (\<lambda>_ _. answer (Inl ENOTDIR))
       (\<lambda>d p w. do {
          (r, w1) \<leftarrow> on_vol_mem d (\<lambda>mem. sfs_creat mem p name excl) w;
          Some (map_sum id (Sfs d) r, w1)
        }) w"

definition k_symlink :: "vnode_id \<Rightarrow> byte list \<Rightarrow> byte list \<Rightarrow> 'h kworld \<Rightarrow> (unit res \<times> 'h kworld) option" where
  "k_symlink vn name target w = vop vn (\<lambda>_. answer null_symlink) (\<lambda>_ _. answer (Inl ENOTDIR)) (\<lambda>_ _. answer (Inl EUNIMP)) w"

definition k_mkdir :: "vnode_id \<Rightarrow> byte list \<Rightarrow> 'h kworld \<Rightarrow> (unit res \<times> 'h kworld) option" where
  "k_mkdir vn name w = vop vn (\<lambda>_. answer null_nameop) (\<lambda>_ _. answer (Inl ENOTDIR)) (\<lambda>_ _. answer (Inl EUNIMP)) w"

definition k_rmdir :: "vnode_id \<Rightarrow> byte list \<Rightarrow> 'h kworld \<Rightarrow> (unit res \<times> 'h kworld) option" where
  "k_rmdir vn name w = vop vn (\<lambda>_. answer null_nameop) (\<lambda>_ _. answer (Inl ENOTDIR)) (\<lambda>_ _. answer (Inl EUNIMP)) w"

text \<open>\<^verbatim>\<open>sfs_link\<close> and \<^verbatim>\<open>sfs_rename\<close> assert that both vnodes are of one volume, the second that they are one vnode.\<close>

definition k_link :: "vnode_id \<Rightarrow> byte list \<Rightarrow> vnode_id \<Rightarrow> 'h kworld \<Rightarrow> (unit res \<times> 'h kworld) option" where
  "k_link vn name f w =
     vop vn (\<lambda>_. answer null_link) (\<lambda>_ _. answer (Inl ENOTDIR))
       (\<lambda>d p w.
          (case f of
             Dev _ \<Rightarrow> None
           | Sfs d' q \<Rightarrow> do {
               _ \<leftarrow> kassert (d' = d);
               on_vol d (sfs_link p name q) w
             })) w"

definition k_remove :: "vnode_id \<Rightarrow> byte list \<Rightarrow> 'h kworld \<Rightarrow> (unit res \<times> 'h kworld) option" where
  "k_remove vn name w =
     vop vn (\<lambda>_. answer null_nameop) (\<lambda>_ _. answer (Inl ENOTDIR)) (\<lambda>d p. on_vol_mem d (\<lambda>mem. sfs_remove mem p name)) w"

definition k_rename :: "vnode_id \<Rightarrow> byte list \<Rightarrow> vnode_id \<Rightarrow> byte list \<Rightarrow> 'h kworld \<Rightarrow> (unit res \<times> 'h kworld) option" where
  "k_rename vn n1 vn2 n2 w =
     vop vn (\<lambda>_. answer null_rename) (\<lambda>_ _. answer (Inl ENOTDIR))
       (\<lambda>d p w.
          (case vn2 of
             Dev _ \<Rightarrow> None
           | Sfs d' q \<Rightarrow> do {
               _ \<leftarrow> kassert (d' = d);
               on_vol_mem d (\<lambda>mem. sfs_rename mem p n1 q n2) w
             })) w"

definition k_lookup :: "vnode_id \<Rightarrow> byte list \<Rightarrow> 'h kworld \<Rightarrow> (vnode_id res \<times> 'h kworld) option" where
  "k_lookup vn path w =
     vop vn (\<lambda>_. dev_lookup (k_incref vn) vn path) (\<lambda>_ _. answer (Inl ENOTDIR))
       (\<lambda>d p w. do {
          (r, w1) \<leftarrow> on_vol_mem d (\<lambda>mem. sfs_lookup mem p path) w;
          Some (map_sum id (Sfs d) r, w1)
        }) w"

definition k_lookparent :: "vnode_id \<Rightarrow> byte list \<Rightarrow> nat \<Rightarrow> 'h kworld \<Rightarrow> ((vnode_id \<times> byte list) res \<times> 'h kworld) option" where
  "k_lookparent vn path buflen w =
     vop vn (\<lambda>_. answer dev_lookparent) (\<lambda>_ _. answer (Inl ENOTDIR))
       (\<lambda>d p w. do {
          (r, w1) \<leftarrow> on_vol d (sfs_lookparent p path buflen) w;
          Some (map_sum id (map_prod (Sfs d) id) r, w1)
        }) w"

section \<open>File systems\<close>

definition k_getroot :: "nat \<Rightarrow> 'h kworld \<Rightarrow> (vnode_id \<times> 'h kworld) option" where
  "k_getroot d w = do {
     (p, w1) \<leftarrow> on_vol_mem d sfs_getroot w;
     Some (Sfs d p, w1)
   }"

definition k_unmount :: "nat \<Rightarrow> 'h kworld \<Rightarrow> (unit res \<times> 'h kworld) option" where
  "k_unmount d w = do {
     fs \<leftarrow> w_vols w d;
     r \<leftarrow> sfs_unmount fs;
     (case r of
        Inl e \<Rightarrow> Some (Inl e, w)
      | Inr disk \<Rightarrow> Some (Inr (), w\<lparr>w_vols := (w_vols w)(d := None), w_disks := (w_disks w)(d \<mapsto> disk)\<rparr>))
   }"

text \<open>\<^verbatim>\<open>sfs_domount\<close> as \<^verbatim>\<open>vfs_mount\<close> calls it for \<^verbatim>\<open>sfs_mount\<close>: the volume takes the disk.\<close>

definition k_domount :: "(nat \<Rightarrow> 'h device) \<Rightarrow> mount_mem \<Rightarrow> nat \<Rightarrow> 'h kworld \<Rightarrow> (nat res \<times> 'h kworld) option" where
  "k_domount dvs mem d w = do {
     disk \<leftarrow> w_disks w d;
     (r, disk') \<leftarrow> sfs_domount mem (dev_blocksize (dvs d)) disk;
     (case r of
        Inl e \<Rightarrow> Some (Inl e, w\<lparr>w_disks := (w_disks w)(d \<mapsto> disk')\<rparr>)
      | Inr fs \<Rightarrow> Some (Inr d, w\<lparr>w_vols := (w_vols w)(d \<mapsto> fs), w_disks := (w_disks w)(d := None)\<rparr>))
   }"

definition k_create_vnode :: "bool \<Rightarrow> bool \<Rightarrow> nat option \<Rightarrow> 'h kworld \<Rightarrow> (vnode_id option \<times> 'h kworld) option" where
  "k_create_vnode vnode_mem lock_mem dev w = do {
     v \<leftarrow> create_dev_vnode vnode_mem lock_mem dev;
     (case v of
        None \<Rightarrow> Some (None, w)
      | Some dv \<Rightarrow> Some (Some (Dev (length (w_devvns w))), w\<lparr>w_devvns := w_devvns w @ [Some dv]\<rparr>))
   }"

definition k_kfree_vnode :: "vnode_id \<Rightarrow> 'h kworld \<Rightarrow> 'h kworld" where
  "k_kfree_vnode vn w = (case vn of Dev i \<Rightarrow> w\<lparr>w_devvns := (w_devvns w)[i := None]\<rparr> | Sfs _ _ \<Rightarrow> w)"

text \<open>The tables of the kernel, over its devices.\<close>

definition kops :: "(nat \<Rightarrow> 'h device) \<Rightarrow> (vnode_id, nat, 'h kworld) vops" where
  "kops dvs = \<lparr>
     VOP_INCREF = k_incref, VOP_DECREF = k_decref, VOP_INCOPEN = k_incopen, VOP_DECOPEN = k_decopen dvs,
     VOP_OPEN = k_open dvs, VOP_TRUNCATE = k_truncate dvs, VOP_GETTYPE = k_gettype dvs, VOP_READLINK = k_readlink,
     VOP_NAMEFILE = k_namefile, VOP_CREAT = k_creat, VOP_SYMLINK = k_symlink, VOP_MKDIR = k_mkdir, VOP_LINK = k_link,
     VOP_REMOVE = k_remove, VOP_RMDIR = k_rmdir, VOP_RENAME = k_rename, VOP_LOOKUP = k_lookup, VOP_LOOKPARENT = k_lookparent,
     vn_fs = (\<lambda>vn _. case vn of Dev _ \<Rightarrow> None | Sfs d _ \<Rightarrow> Some d),
     FSOP_SYNC = (\<lambda>d. on_vol d sfs_sync), FSOP_GETVOLNAME = (\<lambda>d w. map_option sfs_getvolname (w_vols w d)),
     FSOP_GETROOT = k_getroot, FSOP_UNMOUNT = k_unmount,
     dev_create_vnode = k_create_vnode, kfree_vnode = k_kfree_vnode\<rparr>"

section \<open>The counts\<close>

definition dev_cnt :: "dev_vnode \<Rightarrow> nat" where
  "dev_cnt dv = (if 0 \<le> vn_refcount dv then nat (vn_refcount dv) else 2 ^ 31)"

definition krefs :: "'h kworld \<Rightarrow> vnode_id \<Rightarrow> nat" where
  "krefs w vn =
     (case vn of
        Dev i \<Rightarrow> (case dev_at i w of None \<Rightarrow> 0 | Some dv \<Rightarrow> dev_cnt dv)
      | Sfs d p \<Rightarrow> (case w_vols w d of None \<Rightarrow> 0 | Some fs \<Rightarrow> cnt fs p))"

text \<open>A step that only puts another volume in the place of one.\<close>

definition revol :: "nat \<Rightarrow> sfs_fs \<Rightarrow> 'h kworld \<Rightarrow> 'h kworld \<Rightarrow> bool" where
  "revol d fs' w w' \<longleftrightarrow> w_devvns w' = w_devvns w \<and> w_vols w' = (w_vols w)(d \<mapsto> fs')"

lemma revol_simps [simp]: "revol d fs' w (put_vol d fs' w)" "revol d fs' w ((put_vol d fs' w)\<lparr>w_mem := m\<rparr>)"
  by (simp_all add: revol_def put_vol_def)

lemma krefs_revol: "revol d fs' w w' \<Longrightarrow> krefs w' x = (case x of Dev i \<Rightarrow> krefs w x | Sfs d' p \<Rightarrow> if d' = d then cnt fs' p else krefs w x)"
  by (auto simp: krefs_def revol_def dev_at_def split: vnode_id.splits)

lemma krefs_Sfs: "w_vols w d = Some fs \<Longrightarrow> krefs w (Sfs d p) = cnt fs p"
  by (simp add: krefs_def)

lemma quiet_self: "krefs w' = krefs w \<Longrightarrow> quiet krefs w w'"
  by (simp add: quiet_def)

lemma vol_small: "small krefs w \<Longrightarrow> w_vols w d = Some fs \<Longrightarrow> small cnt fs"
  unfolding small_def using krefs_Sfs by metis

lemma vol_quiet:
  assumes "w_vols w d = Some fs" and "revol d fs' w w'" and "quiet cnt fs fs'"
  shows "quiet krefs w w'"
  unfolding quiet_def
proof
  fix x
  show "if 0 < krefs w x then krefs w' x = krefs w x else krefs w' x \<le> 1"
  proof (cases x)
    case (Sfs d' p)
    then show ?thesis using assms(3) [unfolded quiet_def, THEN spec, of p] by (auto simp: krefs_revol [OF assms(2)] krefs_Sfs [OF assms(1)] split: if_splits)
  qed (simp add: krefs_revol [OF assms(2)])
qed

lemma vol_gains:
  assumes "w_vols w d = Some fs" and "revol d fs' w w'" and g: "gains cnt p fs fs'"
  shows "gains krefs (Sfs d p) w w'"
  unfolding gains_def
proof (intro conjI allI impI)
  show "krefs w' (Sfs d p) = krefs w (Sfs d p) + 1" using g by (simp add: gains_def krefs_revol [OF assms(2)] krefs_Sfs [OF assms(1)])
  fix x assume x: "x \<noteq> Sfs d p"
  show "if 0 < krefs w x then krefs w' x = krefs w x else krefs w' x \<le> 1"
  proof (cases x)
    case (Sfs d' q)
    then show ?thesis using x g [unfolded gains_def, THEN conjunct2, THEN spec, of q]
      by (auto simp: krefs_revol [OF assms(2)] krefs_Sfs [OF assms(1)])
  qed (simp add: krefs_revol [OF assms(2)])
qed

lemma vol_drops:
  assumes "w_vols w d = Some fs" and "revol d fs' w w'" and g: "drops cnt p fs fs'"
  shows "drops krefs (Sfs d p) w w'"
  unfolding drops_def
proof (intro conjI allI impI)
  show "if 1 < krefs w (Sfs d p) then krefs w' (Sfs d p) = krefs w (Sfs d p) - 1 else krefs w' (Sfs d p) \<le> 1"
    using g [unfolded drops_def, THEN conjunct1] by (simp add: krefs_revol [OF assms(2)] krefs_Sfs [OF assms(1)] del: One_nat_def)
  fix x assume x: "x \<noteq> Sfs d p"
  show "krefs w' x = krefs w x"
  proof (cases x)
    case (Sfs d' q)
    then show ?thesis using x g [unfolded drops_def, THEN conjunct2, THEN spec, of q]
      by (auto simp: krefs_revol [OF assms(2)] krefs_Sfs [OF assms(1)])
  qed (simp add: krefs_revol [OF assms(2)])
qed

lemma vol_hands:
  "w_vols w d = Some fs \<Longrightarrow> revol d fs' w w' \<Longrightarrow> hands cnt r fs fs' \<Longrightarrow> hands krefs (map_sum id (Sfs d) r) w w'"
  using vol_quiet vol_gains by (cases r) auto

text \<open>The vnode of a device.\<close>

lemma dev_put:
  assumes "dev_at i w = Some dv"
  shows "krefs (put_dev i dv' w) x = (if x = Dev i then dev_cnt dv' else krefs w x)" and "krefs w (Dev i) = dev_cnt dv"
    and "dev_at i (put_dev i dv' w) = Some dv'"
  using assms by (auto simp: krefs_def put_dev_def dev_at_def rd_def bind_eq_Some_conv split: vnode_id.splits if_splits)

lemma dev_incref_gains:
  assumes "small krefs w" and "dev_at i w = Some dv"
  shows "gains krefs (Dev i) w (put_dev i (vnode_incref dv) w)"
proof -
  have "krefs w (Dev i) < 2 ^ 31 - 1" using assms(1) by (simp add: small_def)
  then have "dev_cnt (vnode_incref dv) = dev_cnt dv + 1"
    using dev_put(2) [OF assms(2)] by (auto simp: dev_cnt_def vnode_incref_def split: if_splits)
  then show ?thesis by (simp add: gains_def dev_put [OF assms(2)])
qed

lemma dev_same: "dev_at i w = Some dv \<Longrightarrow> dev_cnt dv' = dev_cnt dv \<Longrightarrow> krefs (put_dev i dv' w) = krefs w"
  by (rule ext) (simp add: dev_put)

lemma krefs_hw [simp]: "krefs (w\<lparr>w_hw := h\<rparr>) = krefs w"
  by (auto simp: krefs_def dev_at_def fun_eq_iff split: vnode_id.splits)

section \<open>The laws\<close>

lemma k_incref_gains:
  assumes "small krefs w"
  shows "holds (gains krefs vn w) (k_incref vn w)"
proof (cases vn)
  case (Dev i)
  then show ?thesis using dev_incref_gains [OF assms] by (auto simp: k_incref_def)
next
  case (Sfs d p)
  then show ?thesis using vol_gains [OF _ revol_simps(1)] Sfs_counts.incref_gains vol_small [OF assms] by (fastforce simp: k_incref_def lift_vol_def)
qed

lemma k_decref_drops: "holds (drops krefs vn w) (k_decref vn w)"
proof (cases vn)
  case (Dev i)
  have "drops krefs (Dev i) w (put_dev i (dv\<lparr>vn_refcount := vn_refcount dv - 1\<rparr>) w)" if "dev_at i w = Some dv" "1 < vn_refcount dv" for dv
    using dev_put [OF that(1)] that(2) by (auto simp: drops_def dev_cnt_def)
  moreover have "drops krefs (Dev i) w w" if "dev_at i w = Some dv" "0 < vn_refcount dv" "\<not> 1 < vn_refcount dv" for dv
    using dev_put(2) [OF that(1)] that(2,3) by (auto simp: drops_def dev_cnt_def)
  ultimately show ?thesis using Dev by (auto simp: k_decref_def vnode_decref_def dev_reclaim_def)
next
  case (Sfs d p)
  then show ?thesis using vol_drops [OF _ revol_simps(1)] Sfs_counts.decref_drops by (fastforce simp: k_decref_def lift_vol_def)
qed

lemma k_incopen_quiet: "holds (quiet krefs w) (k_incopen vn w)"
proof (cases vn)
  case (Dev i)
  have "quiet krefs w (put_dev i (vnode_incopen dv) w)" if "dev_at i w = Some dv" for dv
    using quiet_self [OF dev_same [OF that]] by (simp add: dev_cnt_def vnode_incopen_def)
  then show ?thesis using Dev by (auto simp: k_incopen_def)
next
  case (Sfs d p)
  then show ?thesis using vol_quiet [OF _ revol_simps(1)] steady_quiet incopen_steady by (fastforce simp: k_incopen_def lift_vol_def)
qed

lemma k_decopen_quiet: "holds (quiet krefs w) (k_decopen dvs vn w)"
proof (cases vn)
  case (Dev i)
  have "quiet krefs w (put_dev i (dv\<lparr>vn_opencount := n\<rparr>) w)" "quiet krefs w ((put_dev i (dv\<lparr>vn_opencount := n\<rparr>) w)\<lparr>w_hw := h\<rparr>)"
    if "dev_at i w = Some dv" for dv n h
    using dev_same [OF that, of "dv\<lparr>vn_opencount := n\<rparr>"] by (simp_all add: dev_cnt_def quiet_self)
  then show ?thesis using Dev by (auto simp: k_decopen_def vnode_decopen_def Let_def on_hw_def)
next
  case (Sfs d p)
  then show ?thesis using vol_quiet [OF _ revol_simps(1)] steady_quiet decopen_steady by (fastforce simp: k_decopen_def lift_vol_def)
qed

lemma vop_holds:
  "(\<And>i. vn = Dev i \<Longrightarrow> holds P (dev i w)) \<Longrightarrow> (\<And>d p. vn = Sfs d p \<Longrightarrow> holds P (file d p w)) \<Longrightarrow> (\<And>d p. vn = Sfs d p \<Longrightarrow> holds P (dir d p w)) \<Longrightarrow>
   holds P (vop vn dev file dir w)"
  unfolding vop_def by (rule holds_bind) (auto split: vnode_ops.splits vnode_id.splits)

lemma fresh_next: "fresh (next_load w fs) fs"
  by (auto simp: fresh_def next_load_def fresh_load_def split: list.splits option.splits if_splits)

lemma on_vol_quiet: "(\<And>fs. w_vols w d = Some fs \<Longrightarrow> holds (\<lambda>(r, fs'). quiet cnt fs fs') (f fs)) \<Longrightarrow> holds (\<lambda>(r, w'). quiet krefs w w') (on_vol d f w)"
  unfolding on_vol_def using vol_quiet [OF _ revol_simps(1)] by (auto simp: holds_def bind_eq_Some_conv)

lemma on_vol_hands:
  "(\<And>fs. w_vols w d = Some fs \<Longrightarrow> holds (\<lambda>(r, fs'). hands cnt (g r) fs fs') (f fs)) \<Longrightarrow>
   holds (\<lambda>(r, w'). hands krefs (map_sum id (Sfs d) (g r)) w w') (on_vol d f w)"
  unfolding on_vol_def using vol_hands [OF _ revol_simps(1)] by (auto simp: holds_def bind_eq_Some_conv)

lemma on_vol_mem_quiet:
  "(\<And>fs. w_vols w d = Some fs \<Longrightarrow> holds (\<lambda>(r, fs'). quiet cnt fs fs') (f (next_load w fs) fs)) \<Longrightarrow> holds (\<lambda>(r, w'). quiet krefs w w') (on_vol_mem d f w)"
  unfolding on_vol_mem_def using vol_quiet [OF _ revol_simps(2)] by (auto simp: holds_def bind_eq_Some_conv)

lemma on_vol_mem_hands:
  "(\<And>fs. w_vols w d = Some fs \<Longrightarrow> holds (\<lambda>(r, fs'). hands cnt (g r) fs fs') (f (next_load w fs) fs)) \<Longrightarrow>
   holds (\<lambda>(r, w'). hands krefs (map_sum id (Sfs d) (g r)) w w') (on_vol_mem d f w)"
  unfolding on_vol_mem_def using vol_hands [OF _ revol_simps(2)] by (auto simp: holds_def bind_eq_Some_conv)

lemma answer_quiet [simp]: "holds (\<lambda>(r, w'). quiet krefs w w') (answer r w)"
  by (simp add: answer_def quiet_self)

lemma answer_hands [simp]: "holds (\<lambda>(r, w'). hands krefs r w w') (answer (Inl e) w)"
  by (simp add: answer_def quiet_self)

lemma truncate_steady: "on_vnode p (sfs_truncate n) fs = Some (r, fs') \<Longrightarrow> steady fs fs'"
  by (rule on_vnode_steady [OF truncate_keeps])

lemma k_open_quiet: "holds (\<lambda>(r, w'). quiet krefs w w') (k_open dvs vn flags w)"
  unfolding k_open_def by (rule vop_holds) (auto simp: on_hw_def quiet_self)

lemma k_truncate_quiet: "holds (\<lambda>(r, w'). quiet krefs w w') (k_truncate dvs vn n w)"
proof -
  have "holds (\<lambda>(r, w'). quiet krefs w w') (on_vol d (on_vnode p (sfs_truncate n)) w)" for d p
    using truncate_steady steady_quiet by (intro on_vol_quiet) (fastforce simp: holds_def)
  then show ?thesis unfolding k_truncate_def by (intro vop_holds) auto
qed

lemma k_gettype_quiet: "holds (\<lambda>(r, w'). quiet krefs w w') (k_gettype dvs vn w)"
  unfolding k_gettype_def Let_def by (rule vop_holds) auto

lemma k_readlink_quiet: "holds (\<lambda>(r, u', w'). quiet krefs w w') (k_readlink vn u w)"
  unfolding k_readlink_def by (rule vop_holds) (auto simp: quiet_self)

lemma k_namefile_quiet: "holds (\<lambda>(r, u', w'). quiet krefs w w') (k_namefile vn u w)"
  unfolding k_namefile_def by (rule vop_holds) (auto simp: quiet_self)

lemma k_answers_quiet:
  "holds (\<lambda>(r, w'). quiet krefs w w') (k_symlink vn name target w)" "holds (\<lambda>(r, w'). quiet krefs w w') (k_mkdir vn name w)"
  "holds (\<lambda>(r, w'). quiet krefs w w') (k_rmdir vn name w)"
  unfolding k_symlink_def k_mkdir_def k_rmdir_def by (rule vop_holds; simp)+

lemma k_link_quiet: "holds (\<lambda>(r, w'). quiet krefs w w') (k_link vn name f w)"
proof -
  have "holds (\<lambda>(r, w'). quiet krefs w w') (on_vol d (sfs_link p name q) w)" for d p q
    using link_steady steady_quiet by (intro on_vol_quiet) (fastforce simp: holds_def)
  then show ?thesis unfolding k_link_def by (intro vop_holds) (auto split: vnode_id.splits)
qed

lemma k_remove_quiet: "small krefs w \<Longrightarrow> holds (\<lambda>(r, w'). quiet krefs w w') (k_remove vn name w)"
  unfolding k_remove_def by (rule vop_holds) (auto intro!: on_vol_mem_quiet Sfs_counts.remove_quiet fresh_next vol_small)

lemma k_rename_quiet: "small krefs w \<Longrightarrow> holds (\<lambda>(r, w'). quiet krefs w w') (k_rename vn n1 vn2 n2 w)"
proof -
  assume s: "small krefs w"
  have "holds (\<lambda>(r, w'). quiet krefs w w') (on_vol_mem d (\<lambda>mem. sfs_rename mem p n1 q n2) w)" for d p q
    by (intro on_vol_mem_quiet Sfs_counts.rename_quiet fresh_next vol_small [OF s])
  then show ?thesis unfolding k_rename_def by (intro vop_holds) (auto split: vnode_id.splits)
qed

lemma k_creat_hands:
  assumes s: "small krefs w"
  shows "holds (\<lambda>(r, w'). hands krefs r w w') (k_creat vn name excl w)"
proof -
  have "holds (\<lambda>(r, w'). hands krefs (map_sum id (Sfs d) r) w w') (on_vol_mem d (\<lambda>mem. sfs_creat mem p name excl) w)" for d p
    by (intro on_vol_mem_hands Sfs_counts.creat_hands fresh_next vol_small [OF s])
  then show ?thesis unfolding k_creat_def null_creat_def by (intro vop_holds) (auto simp: holds_def bind_eq_Some_conv answer_def quiet_self)
qed

lemma k_lookup_hands:
  assumes s: "small krefs w"
  shows "holds (\<lambda>(r, w'). hands krefs r w w') (k_lookup vn path w)"
proof -
  have "holds (\<lambda>(r, w'). hands krefs (map_sum id (Sfs d) r) w w') (on_vol_mem d (\<lambda>mem. sfs_lookup mem p path) w)" for d p
    by (intro on_vol_mem_hands Sfs_counts.lookup_hands fresh_next vol_small [OF s])
  then show ?thesis unfolding k_lookup_def using holdsD [OF k_incref_gains [OF s]]
    by (intro vop_holds) (auto simp: holds_def bind_eq_Some_conv answer_def quiet_self dev_lookup_def split: if_splits)
qed

lemma k_lookparent_hands:
  assumes s: "small krefs w"
  shows "holds (\<lambda>(r, w'). hands krefs (map_sum id fst r) w w') (k_lookparent vn path n w)"
proof -
  have "holds (\<lambda>(r, w'). hands krefs (map_sum id (Sfs d) (map_sum id fst r)) w w') (on_vol d (sfs_lookparent p path n) w)" for d p
    by (intro on_vol_hands Sfs_counts.lookparent_hands vol_small [OF s])
  moreover have "map_sum id fst (map_sum id (map_prod (Sfs d) id) r) = map_sum id (Sfs d) (map_sum id fst r)" for d and r :: "(nat \<times> byte list) res"
    by (cases r) auto
  ultimately show ?thesis unfolding k_lookparent_def dev_lookparent_def
    by (intro vop_holds) (auto simp: holds_def bind_eq_Some_conv answer_def quiet_self)
qed

lemma k_getroot_gains:
  assumes s: "small krefs w"
  shows "holds (\<lambda>(vn, w'). gains krefs vn w w') (k_getroot d w)"
  unfolding k_getroot_def on_vol_mem_def
  using holdsD [OF Sfs_counts.getroot_gains [OF vol_small [OF s] fresh_next]] vol_gains [OF _ revol_simps(2)] by (fastforce simp: holds_def bind_eq_Some_conv)

lemma kops_sel [simp]:
  "VOP_INCREF (kops dvs) = k_incref" "VOP_DECREF (kops dvs) = k_decref" "VOP_INCOPEN (kops dvs) = k_incopen" "VOP_DECOPEN (kops dvs) = k_decopen dvs"
  "VOP_OPEN (kops dvs) = k_open dvs" "VOP_TRUNCATE (kops dvs) = k_truncate dvs" "VOP_GETTYPE (kops dvs) = k_gettype dvs" "VOP_READLINK (kops dvs) = k_readlink"
  "VOP_NAMEFILE (kops dvs) = k_namefile" "VOP_CREAT (kops dvs) = k_creat" "VOP_SYMLINK (kops dvs) = k_symlink" "VOP_MKDIR (kops dvs) = k_mkdir"
  "VOP_LINK (kops dvs) = k_link" "VOP_REMOVE (kops dvs) = k_remove" "VOP_RMDIR (kops dvs) = k_rmdir" "VOP_RENAME (kops dvs) = k_rename"
  "VOP_LOOKUP (kops dvs) = k_lookup" "VOP_LOOKPARENT (kops dvs) = k_lookparent" "FSOP_GETROOT (kops dvs) = k_getroot"
  by (simp_all add: kops_def)

text \<open>Every law of the interface, for the kernel's tables.\<close>

interpretation kv: counted_vnodes "kops dvs" krefs
  by unfold_locales
    (auto dest: holdsD [OF k_incref_gains] holdsD [OF k_decref_drops] holdsD [OF k_lookup_hands] holdsD [OF k_lookparent_hands] holdsD [OF k_creat_hands]
      holdsD [OF k_getroot_gains] holdsD [OF k_incopen_quiet] holdsD [OF k_decopen_quiet] holdsD [OF k_open_quiet] holdsD [OF k_truncate_quiet]
      holdsD [OF k_gettype_quiet] holdsD [OF k_readlink_quiet] holdsD [OF k_namefile_quiet] holdsD [OF k_answers_quiet(1)] holdsD [OF k_answers_quiet(2)]
      holdsD [OF k_answers_quiet(3)] holdsD [OF k_link_quiet] holdsD [OF k_remove_quiet] holdsD [OF k_rename_quiet])

end
