(* ===== verification/Vfs_spec.thy ===== *)
theory Vfs_spec
  imports Vfs_kernel
begin

text \<open>
  What the VFS layer promises: the names of devices, what a name stands for, and that no call loses or invents a
  reference to a vnode. The last part is about the kernel's own tables of vnode operations.
\<close>

section \<open>A kernel with two devices\<close>

text \<open>The null device and a disk \<^verbatim>\<open>lhd0\<close> that can be mounted and is not.\<close>

definition plenty :: add_mem where
  "plenty = \<lparr>am_name = True, am_raw = True, am_vnode = True, am_lock = True, am_kd = True, am_array = True\<rparr>"

definition demo_devs :: "nat \<Rightarrow> unit device" where "demo_devs = (\<lambda>_. null_device)"

definition demo_dv :: "nat \<Rightarrow> dev_vnode" where
  "demo_dv a = \<lparr>vn_refcount = 1, vn_opencount = 0, vn_ops = Some DEV_OPS, vn_data = Some a\<rparr>"

definition lhd0_name :: "byte list" where "lhd0_name = [108, 104, 100, 48]"

definition demo_null :: "(vnode_id, nat) knowndev" where
  "demo_null = \<lparr>kd_name = null_name, kd_rawname = None, kd_device = Some 0, kd_vnode = Dev 0, kd_fs = None\<rparr>"

definition demo_lhd0 :: "(vnode_id, nat) knowndev" where
  "demo_lhd0 = \<lparr>kd_name = lhd0_name, kd_rawname = Some (lhd0_name @ raw_suffix), kd_device = Some 1, kd_vnode = Dev 1, kd_fs = None\<rparr>"

definition demo_world :: "nat \<Rightarrow> unit kworld" where
  "demo_world n = \<lparr>w_devvns = map (\<lambda>a. Some (demo_dv a)) [0..<n], w_vols = Map.empty, w_disks = Map.empty, w_mem = [], w_hw = ()\<rparr>"

definition demo_vfs1 :: "(vnode_id, nat, unit kworld) vfs" where
  "demo_vfs1 = \<lparr>knowndevs = \<lparr>num = 1, max_slots = 2, v = Some [Some demo_null, None]\<rparr>, knowndevs_lock = False,
     bootfs_vnode = None, bootfs_lock = False, t_cwd = None, world = demo_world 1\<rparr>"

definition demo_vfs :: "(vnode_id, nat, unit kworld) vfs" where
  "demo_vfs = \<lparr>knowndevs = \<lparr>num = 2, max_slots = 2, v = Some [Some demo_null, Some demo_lhd0]\<rparr>, knowndevs_lock = False,
     bootfs_vnode = None, bootfs_lock = False, t_cwd = None, world = demo_world 2\<rparr>"

lemma kmalloc_ptrs_2: "kmalloc_ptrs 2 = [None, None]"
proof -
  have "size32 (4 * 2) div 4 = 2" by (simp add: size32_def)
  then show ?thesis by (simp add: kmalloc_ptrs_def numeral_2_eq_2)
qed

lemma add_first: "array_add True \<lparr>num = 0, max_slots = 0, v = None\<rparr> x = Some (Inr (), \<lparr>num = 1, max_slots = 2, v = Some [Some x, None]\<rparr>)"
proof -
  have "array_newmax 1 0 = Some 2" by (subst array_newmax.simps, subst array_newmax.simps) (simp add: int32_def)
  then show ?thesis by (simp add: array_add_def array_setsize_def array_preallocate_def wr_def kmalloc_ptrs_2)
qed

lemma demo_bootstrap: "vfs_bootstrap (kops demo_devs) True True True True plenty 0 (demo_world 0) = Some demo_vfs1"
  by (simp add: vfs_bootstrap_def array_create_def devnull_create_def vfs_adddev_def vfs_doadd_def Let_def kops_def k_create_vnode_def create_dev_vnode_def
      vnode_init_def plenty_def demo_world_def acquire_knowndevs_def badnames_def array_getnum_def add_first release_knowndevs_def demo_vfs1_def demo_null_def
      demo_dv_def vnode.defs dev_vnode.defs)

lemma demo_adddev: "vfs_adddev (kops demo_devs) plenty lhd0_name 1 True demo_vfs1 = Some (Inr (), demo_vfs)"
  by (simp add: vfs_adddev_def vfs_doadd_def Let_def kops_def k_create_vnode_def create_dev_vnode_def mkrawname_def lhd0_name_def null_name_def raw_suffix_def
      vnode_init_def plenty_def demo_world_def acquire_knowndevs_def badnames_def array_getnum_def array_getguy_def array_add_def array_setsize_def rd_def
      wr_def release_knowndevs_def demo_vfs1_def demo_vfs_def demo_null_def demo_lhd0_def demo_dv_def vnode.defs dev_vnode.defs numeral_2_eq_2
      samestring3_def samestring_def)

lemma demo_list_op: "list_op (kops demo_devs) demo_vfs1 demo_vfs"
  using op_adddev [OF _ demo_adddev] by (simp add: demo_vfs1_def array_list_def array_slots_def)

lemma demo_vfs_inv: "vfs_inv demo_vfs"
  using list_op_inv [OF demo_list_op] vfs_bootstrap_inv [OF demo_bootstrap] by blast

lemma demo_vfs_devs: "devs demo_vfs = [demo_null, demo_lhd0]"
  by (simp add: demo_vfs_def array_list_def array_slots_def)

section \<open>Names\<close>

text \<open>
  C21: from the moment the VFS layer is started, whatever devices and file systems are added, mounted, unmounted, synced and
  looked up, with whatever outcome, the list of devices is well-formed: no two devices share a name or raw name, a device that can be
  mounted has the raw name that goes with its name, a device without a device object is a file system for good, and
  the list's lock is free.
\<close>

theorem vfs_names_unique:
  assumes "vfs_bootstrap ops array_mem lock_mem boot_mem dev_mem mem dev w = Some s0" and "(list_op ops)\<^sup>*\<^sup>* s0 s"
  shows "vfs_inv s"
  using assms(2) by (induction rule: rtranclp_induct) (use vfs_bootstrap_inv [OF assms(1)] list_op_inv in auto)

lemma vfs_names_unique_witness: "vfs_inv demo_vfs"
  using vfs_names_unique [OF demo_bootstrap] demo_list_op by blast



section \<open>References\<close>

text \<open>Opening \<^verbatim>\<open>null:\<close> in that kernel.\<close>

definition null_path :: "byte list" where "null_path = [110, 117, 108, 108, 58]"

definition demo_opened :: "(vnode_id, nat, unit kworld) vfs" where
  "demo_opened = demo_vfs\<lparr>world := (demo_world 2)\<lparr>w_devvns := [Some ((demo_dv 0)\<lparr>vn_refcount := 2, vn_opencount := 1\<rparr>), Some (demo_dv 1)]\<rparr>\<rparr>"

lemma demo_dev_sel: "d_open (demo_devs a) = nullopen" "d_close (demo_devs a) = nullclose"
  by (simp_all add: demo_devs_def null_device_def)

lemma demo_devvns: "w_devvns (demo_world 2) = [Some (demo_dv 0), Some (demo_dv 1)]"
  by (simp add: demo_world_def numeral_2_eq_2)

lemma demo_krefs: "krefs (demo_world 2) x = (if x = Dev 0 \<or> x = Dev 1 then 1 else 0)"
proof (cases x)
  case (Dev i)
  then show ?thesis by (cases i) (auto simp: krefs_def dev_at_def rd_def demo_devvns dev_cnt_def demo_dv_def less_Suc_eq)
qed (simp add: krefs_def demo_world_def)

lemma demo_roomy: "roomy krefs (world demo_vfs)"
  by (simp add: roomy_def demo_vfs_def demo_krefs)

lemma demo_getroot: "vfs_getroot (kops demo_devs) null_name demo_vfs =
    Some (Inr (Dev 0), demo_vfs\<lparr>world := put_dev 0 ((demo_dv 0)\<lparr>vn_refcount := 2\<rparr>) (demo_world 2)\<rparr>)"
proof -
  have "root_answer (kops demo_devs) null_name demo_null demo_vfs =
      Some (Inr (Dev 0), demo_vfs\<lparr>world := put_dev 0 ((demo_dv 0)\<lparr>vn_refcount := 2\<rparr>) (demo_world 2)\<rparr>)"
    by (simp add: root_answer_def demo_null_def demo_vfs_def k_incref_def dev_at_def rd_def demo_devvns vnode_incref_def demo_dv_def)
  then show ?thesis using getroot_unique [OF demo_vfs_inv, of demo_null null_name "kops demo_devs"]
    by (simp add: demo_vfs_devs dev_names_def demo_null_def demo_lhd0_def)
qed

lemma demo_vfs_open: "vfs_open (kops demo_devs) null_path 0 demo_vfs = Some (Inr (Dev 0), demo_opened)"
proof -
  have "getdevice (kops demo_devs) null_path demo_vfs =
      ebind (vfs_getroot (kops demo_devs) null_name demo_vfs) (\<lambda>vn s1. Some (Inr ([], vn), s1))"
    by (simp add: getdevice_def null_path_def null_name_def colon_def slash_def)
  then show ?thesis
    by (simp add: demo_getroot vfs_open_def vfs_lookup_def has_flag_def open_vnode_def on_world_def k_open_def vop_def vop_table_def dev_at_def put_dev_def rd_def
        demo_devvns demo_dv_def vnode_check_def device_of_def on_hw_def dev_open_def demo_dev_sel nullopen_def k_incopen_def vnode_incopen_def
        demo_opened_def O_ACCMODE_def)
qed

lemma demo_close: "vfs_close (kops demo_devs) (Dev 0) demo_opened = Some demo_vfs"
proof -
  have "vfs_close (kops demo_devs) (Dev 0) demo_opened = Some (demo_vfs\<lparr>world := (demo_world 2)\<lparr>w_hw := (), w_devvns := [Some (demo_dv 0), Some (demo_dv 1)]\<rparr>\<rparr>)"
    by (simp add: vfs_close_def k_decopen_def k_decref_def vnode_decopen_def vnode_decref_def dev_at_def put_dev_def rd_def demo_opened_def demo_dv_def
        device_of_def on_hw_def dev_close_def demo_dev_sel nullclose_def decref_def Let_def)
  then show ?thesis by (simp add: demo_vfs_def demo_world_def numeral_2_eq_2)
qed

text \<open>
  A path is cut as the comment on \<^verbatim>\<open>getdevice\<close> says: \<^verbatim>\<open>device:path\<close> starts at the root of what \<^verbatim>\<open>device\<close> names, \<^verbatim>\<open>/path\<close> at the
  boot file system, \<^verbatim>\<open>:path\<close> at the root of the current file system, each without the leading slashes of \<^verbatim>\<open>path\<close>; a
  path that has no colon before its first slash and does not start with a slash is relative to the current directory, whole.
\<close>

theorem getdevice_splits:
  assumes "plain_name name"
  shows "getdevice ops (name @ colon # rest) s = ebind (vfs_getroot ops name s) (\<lambda>vn s1. Some (Inr (dropWhile (\<lambda>c. c = slash) rest, vn), s1)) \<and>
    getdevice ops (slash # rest) s = ebind (start_bootfs ops s) (\<lambda>vn s1. Some (Inr (dropWhile (\<lambda>c. c = slash) rest, vn), s1)) \<and>
    getdevice ops (colon # rest) s = ebind (start_curfs ops s) (\<lambda>vn s1. Some (Inr (dropWhile (\<lambda>c. c = slash) rest, vn), s1)) \<and>
    getdevice ops name s = ebind (vfs_getcurdir ops s) (\<lambda>vn s1. Some (Inr (name, vn), s1)) \<and>
    getdevice ops (name @ slash # rest) s = ebind (vfs_getcurdir ops s) (\<lambda>vn s1. Some (Inr (name @ slash # rest, vn), s1))"
  using assms find_sep_skip [of name "colon # rest" 0] find_sep_skip [of name "[]" 0] find_sep_skip [of name "slash # rest" 0]
  by (auto simp: getdevice_def plain_name_def skip_slashes_eq colon_def slash_def)

lemma getdevice_splits_witness:
  "getdevice (kops demo_devs) (null_name @ colon # [slash, 97]) demo_vfs =
   Some (Inr ([97], Dev 0), demo_vfs\<lparr>world := put_dev 0 ((demo_dv 0)\<lparr>vn_refcount := 2\<rparr>) (demo_world 2)\<rparr>)"
proof -
  have "plain_name null_name" by (simp add: plain_name_def null_name_def colon_def slash_def)
  then show ?thesis using getdevice_splits [of null_name "kops demo_devs" "[slash, 97]" demo_vfs] demo_getroot by (simp add: slash_def)
qed

text \<open>
  C18: the calls of the VFS layer that take paths neither lose nor invent a reference, on every path through them: in a kernel whose counts are
  not about to overflow, a call that returns, with success or with an error, leaves the count of every vnode in use as it was; only the
  vnode that a successful \<^verbatim>\<open>vfs_open\<close> hands back has one more. Nothing else of the layer's state changes.
\<close>

theorem vfs_call_balance:
  assumes "roomy krefs (world s)" and "vfs_call (kops dvs) c s = Some (r, s')"
  shows "(\<forall>x. 0 < krefs (world s) x \<longrightarrow> krefs (world s') x = krefs (world s) x + (if r = Inr (Some x) then 1 else 0)) \<and>
    (\<forall>x. r = Inr (Some x) \<longrightarrow> 0 < krefs (world s') x) \<and> (\<exists>w. s' = s\<lparr>world := w\<rparr>)"
  by (rule kv.call_counts [OF assms])

lemma vfs_call_balance_witness:
  "vfs_call (kops demo_devs) (C_open null_path 0) demo_vfs = Some (Inr (Some (Dev 0)), demo_opened) \<and>
   krefs (world demo_opened) (Dev 0) = krefs (world demo_vfs) (Dev 0) + 1 \<and> krefs (world demo_opened) (Dev 1) = krefs (world demo_vfs) (Dev 1)"
proof -
  have c: "vfs_call (kops demo_devs) (C_open null_path 0) demo_vfs = Some (Inr (Some (Dev 0)), demo_opened)" by (simp add: vfs_call_def demo_vfs_open)
  have "world demo_vfs = demo_world 2" by (simp add: demo_vfs_def)
  then show ?thesis using c vfs_call_balance [OF demo_roomy c] demo_krefs [of "Dev 0"] demo_krefs [of "Dev 1"] by simp
qed

text \<open>
  Opening a path and closing the vnode gives every count back.
\<close>

theorem vfs_open_close:
  assumes "roomy krefs (world s)" and "vfs_open (kops dvs) path flags s = Some (Inr vn, s1)" and "vfs_close (kops dvs) vn s1 = Some s2"
  shows "\<forall>x. 0 < krefs (world s) x \<longrightarrow> krefs (world s2) x = krefs (world s) x"
  by (rule kv.open_close_counts [OF assms])

lemma vfs_open_close_witness: "\<exists>s1 s2. vfs_open (kops demo_devs) null_path 0 demo_vfs = Some (Inr (Dev 0), s1) \<and> vfs_close (kops demo_devs) (Dev 0) s1 = Some s2 \<and>
    (\<forall>x. 0 < krefs (world demo_vfs) x \<longrightarrow> krefs (world s2) x = krefs (world demo_vfs) x)"
  using demo_vfs_open demo_close vfs_open_close [OF demo_roomy demo_vfs_open demo_close] by blast

end
