(* ===== verification/Vfs_lookup.thy ===== *)
theory Vfs_lookup
  imports Vfs_spec
begin

text \<open>
  A path on a mounted volume, from \<^verbatim>\<open>vfs_lookup\<close> down to the disk: the device's name leads to the root directory of its volume, the
  directory's map gives the inode number, and the table of loaded vnodes or the disk gives the vnode.
\<close>

section \<open>The table of loaded vnodes\<close>

text \<open>A volume whose loaded vnodes are there, on inodes in use.\<close>

definition search_ok :: "sfs_fs \<Rightarrow> bool" where
  "search_ok fs \<longleftrightarrow> fs_inv fs \<and> array_inv (sfs_vnodes fs) \<and> length (loaded fs) < 2 ^ 28 \<and>
     (\<forall>p \<in> set (loaded fs). \<exists>sv. sv_heap fs p = Some sv \<and> sv_ino sv \<in> fs_used fs)"

definition ino_loaded :: "nat \<Rightarrow> sfs_fs \<Rightarrow> bool" where
  "ino_loaded ino fs \<longleftrightarrow> (\<exists>p \<in> set (loaded fs). \<exists>sv. sv_heap fs p = Some sv \<and> sv_ino sv = ino)"

lemma bused_used: "fs_inv fs \<Longrightarrow> b \<in> fs_used fs \<Longrightarrow> sfs_bused b fs = Some True"
  using sfs_bused_ok [of fs b] by (simp add: fs_used_def)

lemma getguy_loaded: "array_inv (sfs_vnodes fs) \<Longrightarrow> i < length (loaded fs) \<Longrightarrow> array_getguy (sfs_vnodes fs) i = Some (loaded fs ! i)"
  using array_getguy_spec [of "sfs_vnodes fs" i] length_array_list [of "sfs_vnodes fs"] by (simp add: loaded_def)

lemma search_from:
  assumes ok: "search_ok fs" and "i + k = length (loaded fs)"
  shows "(\<exists>p sv. sfs_search ino i k fs = Some (Some p) \<and> p \<in> set (drop i (loaded fs)) \<and> sv_heap fs p = Some sv \<and> sv_ino sv = ino) \<or>
    sfs_search ino i k fs = Some None \<and> (\<forall>p \<in> set (drop i (loaded fs)). \<forall>sv. sv_heap fs p = Some sv \<longrightarrow> sv_ino sv \<noteq> ino)"
  using assms(2)
proof (induction k arbitrary: i)
  case (Suc k)
  let ?p = "loaded fs ! i"
  have i: "i < length (loaded fs)" using Suc.prems by simp
  then have "?p \<in> set (loaded fs)" by simp
  then obtain sv where sv: "sv_heap fs ?p = Some sv" "sv_ino sv \<in> fs_used fs" using ok by (auto simp: search_ok_def)
  have "sfs_search ino i (Suc k) fs = (if sv_ino sv = ino then Some (Some ?p) else sfs_search ino (i + 1) k fs)"
    using getguy_loaded [OF _ i] ok sv bused_used [of fs "sv_ino sv"] by (simp add: search_ok_def)
  then show ?case using Suc.IH [of "i + 1"] Suc.prems sv by (auto simp: drop_devs [OF Suc.prems])
qed simp

lemma search_spec:
  assumes "search_ok fs"
  obtains p sv where "sfs_search ino 0 (array_getnum (sfs_vnodes fs)) fs = Some (Some p)" and "p \<in> set (loaded fs)" and "sv_heap fs p = Some sv" and "sv_ino sv = ino"
  | "sfs_search ino 0 (array_getnum (sfs_vnodes fs)) fs = Some None" and "\<not> ino_loaded ino fs"
proof -
  have "array_getnum (sfs_vnodes fs) = length (loaded fs)"
    using assms length_array_list [of "sfs_vnodes fs"] by (simp add: search_ok_def loaded_def array_getnum_def)
  then show thesis using search_from [OF assms, of 0 "length (loaded fs)" ino] that by (auto simp: ino_loaded_def)
qed

section \<open>Loading a vnode\<close>

text \<open>An inode as the operations see it: in memory if it is loaded, else on disk; it is a file or a directory with a name.\<close>

definition linked :: "nat \<Rightarrow> sfs_fs \<Rightarrow> bool" where
  "linked ino fs \<longleftrightarrow> ino \<in> fs_used fs \<and>
     (\<forall>p \<in> set (loaded fs). \<forall>sv. sv_heap fs p = Some sv \<longrightarrow> sv_ino sv = ino \<longrightarrow> sfi_linkcount (sv_i sv) \<noteq> 0) \<and>
     (\<not> ino_loaded ino fs \<longrightarrow> sfi_type (dec_inode (blk fs ino)) \<in> {SFS_TYPE_FILE, SFS_TYPE_DIR} \<and> sfi_linkcount (dec_inode (blk fs ino)) \<noteq> 0)"

lemma loadvnode_finds:
  assumes ok: "search_ok fs" and l: "linked ino fs" and fr: "fresh mem fs"
  shows "\<exists>r fs'. sfs_loadvnode mem ino SFS_TYPE_INVAL fs = Some (r, fs') \<and>
    (r = Inl ENOMEM \<and> \<not> ino_loaded ino fs \<and> sv_heap fs' = sv_heap fs \<or>
     (\<exists>p sv. r = Inr p \<and> sv_heap fs' = (sv_heap fs)(p \<mapsto> sv) \<and> sv_ino sv = ino \<and> sfi_linkcount (sv_i sv) \<noteq> 0 \<and>
        (\<forall>sv0. sv_heap fs p = Some sv0 \<longrightarrow> sv = vnode_incref sv0)))"
proof (cases rule: search_spec [OF ok, of ino])
  case (1 p sv)
  have "sfs_loadvnode mem ino SFS_TYPE_INVAL fs = Some (Inr p, sv_put p (vnode_incref sv) fs)" using 1 by (simp add: sfs_loadvnode_def)
  then show ?thesis using 1 l by (auto simp: sv_put_def linked_def vnode_incref_def)
next
  case 2
  show ?thesis
  proof (cases "lm_new mem")
    case None
    then show ?thesis using 2 by (auto simp: sfs_loadvnode_def)
  next
    case (Some p)
    have n: "sv_heap fs p = None" using fr Some by (simp add: fresh_def)
    have u: "ino \<in> fs_used fs" "fs_inv fs" using l ok by (simp_all add: linked_def search_ok_def)
    have rb: "sfs_rblock (replicate SFS_BLOCKSIZE 0) ino fs = Some (Inr (), blk fs ino, fs_read ino fs)"
      using sfs_rblock_ok [OF u(2) _ fs_used_less [OF u(1)], of "replicate SFS_BLOCKSIZE 0"] by (simp add: SFS_BLOCKSIZE_def)
    let ?i = "dec_inode (blk fs ino)"
    obtain t where t: "sfs_optable (sfi_type ?i) = Some t" "sfi_linkcount ?i \<noteq> 0" using l 2 by (auto simp: linked_def sfs_optable_def SFS_TYPE_FILE_def SFS_TYPE_DIR_def)
    obtain q tab where q: "array_add (lm_array mem) (sfs_vnodes fs) p = Some (q, tab)" "q = Inr () \<or> q = Inl ENOMEM"
      using array_add_spec [of "sfs_vnodes fs" "lm_array mem" p] ok length_array_list [of "sfs_vnodes fs"] by (auto simp: search_ok_def loaded_def)
    note U = sfs_loadvnode_def Let_def vnode_init_def vnode_kill_def vnode.defs sfs_vnode.defs
    show ?thesis
    proof (cases "lm_lock mem")
      case False
      then show ?thesis using 2 Some bused_used [OF u(2,1)] rb t by (auto simp: U)
    next
      case True
      show ?thesis using q(2)
      proof
        assume "q = Inl ENOMEM"
        then show ?thesis using 2 Some bused_used [OF u(2,1)] rb t True q(1) by (auto simp: U)
      next
        assume "q = Inr ()"
        then show ?thesis using 2 Some bused_used [OF u(2,1)] rb t True q(1) n by (auto simp: U sv_put_def)
      qed
    qed
  qed
qed

section \<open>Looking a name up on a volume\<close>

lemma sv_put_sel [simp]:
  "sfs_vnodes (sv_put p sv fs) = sfs_vnodes fs" "loaded (sv_put p sv fs) = loaded fs" "fs_inv (sv_put p sv fs) = fs_inv fs"
  "fs_used (sv_put p sv fs) = fs_used fs" "blk (sv_put p sv fs) b = blk fs b" "sv_heap (sv_put p sv fs) = (sv_heap fs)(p \<mapsto> sv)"
  by (simp_all add: sv_put_def loaded_def fs_inv_def fs_used_def blk_def)

text \<open>The search of the directory leaves the table of vnodes, and what is on disk for other inodes, as it was.\<close>

lemma after_findname:
  assumes ok: "search_ok fs" and p0: "sv_heap fs p0 = Some sv0" and w: "wrote 0 [] sv0 fs vn' fs1"
  shows "search_ok (sv_put p0 vn' fs1)" and "ino_loaded ino (sv_put p0 vn' fs1) = ino_loaded ino fs"
    and "linked ino fs \<Longrightarrow> ino \<notin> own_blocks sv0 fs \<Longrightarrow> linked ino (sv_put p0 vn' fs1)"
proof -
  have fs: "sfs_vnodes fs1 = sfs_vnodes fs" "sv_heap fs1 = sv_heap fs" "fs_used fs \<subseteq> fs_used fs1" "fs_inv fs1"
    and vn: "sv_ino vn' = sv_ino sv0" "sfi_linkcount (sv_i vn') = sfi_linkcount (sv_i sv0)"
    and b: "\<And>c. c \<in> fs_used fs \<Longrightarrow> c \<notin> own_blocks sv0 fs \<Longrightarrow> blk fs1 c = blk fs c"
    using w by (auto simp: wrote_def same_fs_def same_file_def file_inv_def)
  have l: "loaded fs1 = loaded fs" using fs(1) by (simp add: loaded_def)
  show "search_ok (sv_put p0 vn' fs1)" using ok fs vn p0 l unfolding search_ok_def by (auto simp: subset_iff)
  have "(\<exists>sv. sv_heap (sv_put p0 vn' fs1) p = Some sv \<and> sv_ino sv = ino) = (\<exists>sv. sv_heap fs p = Some sv \<and> sv_ino sv = ino)" for p
    using fs(2) vn(1) p0 by auto
  then show il: "ino_loaded ino (sv_put p0 vn' fs1) = ino_loaded ino fs" using l by (simp add: ino_loaded_def)
  show "linked ino (sv_put p0 vn' fs1)" if "linked ino fs" "ino \<notin> own_blocks sv0 fs"
    using that fs vn p0 l b [of ino] unfolding linked_def il by (auto simp: subset_iff)
qed

lemma sfs_lookup_finds:
  assumes ok: "search_ok fs" and p0: "sv_heap fs p0 = Some sv0" and dir: "dir_inv sv0 fs" and fr: "fresh mem fs"
    and l: "\<And>ino. dir_map (dir_entries sv0 fs) name = Some ino \<Longrightarrow> linked ino fs \<and> ino \<notin> own_blocks sv0 fs"
  shows "\<exists>r fs' sv'. sfs_lookup mem p0 name fs = Some (r, fs') \<and> sv_heap fs' p0 = Some sv' \<and>
    vn_refcount sv' \<in> {vn_refcount sv0, int32 (vn_refcount sv0 + 1)} \<and>
    (r = Inl ENOSPC \<or>
     (case dir_map (dir_entries sv0 fs) name of
        None \<Rightarrow> r = Inl ENOENT
      | Some ino \<Rightarrow> r = Inl ENOMEM \<and> \<not> ino_loaded ino fs \<or> (\<exists>p sv. r = Inr p \<and> sv_heap fs' p = Some sv \<and> sv_ino sv = ino)))"
proof -
  obtain q vn' fs1 where f: "sfs_dir_findname name (sv0, fs) = Some (q, (vn', fs1))" "wrote 0 [] sv0 fs vn' fs1"
    and q: "q = Inl ENOSPC \<or> (\<exists>hit slot. q = Inr (hit, slot) \<and> found_at name (dir_entries sv0 fs) (length (dir_entries sv0 fs)) hit)"
    using sfs_dir_findname_spec [OF dir, of name] unfolding find_result_def by blast
  let ?fs = "sv_put p0 vn' fs1"
  have o: "on_vnode p0 (sfs_dir_findname name) fs = Some (q, ?fs)" using f(1) p0 by (simp add: on_vnode_def)
  have t: "sfi_type (sv_i sv0) = SFS_TYPE_DIR" using dir by (simp add: dir_inv_def dir_base_def)
  have rc: "vn_refcount vn' = vn_refcount sv0" using f(2) by (simp add: wrote_def same_file_def vnode.defs)
  note U = sfs_lookup_def p0 t sfs_lookonce_def o
  show ?thesis using q
  proof
    assume "q = Inl ENOSPC"
    then show ?thesis using rc by (simp add: U)
  next
    assume "\<exists>hit slot. q = Inr (hit, slot) \<and> found_at name (dir_entries sv0 fs) (length (dir_entries sv0 fs)) hit"
    then obtain hit em where h: "q = Inr (hit, em)" "map_option fst hit = dir_map (dir_entries sv0 fs) name"
      using found_at_map [of "dir_entries sv0 fs" name] dir by (auto simp: dir_inv_def)
    show ?thesis
    proof (cases hit)
      case None
      then show ?thesis using rc h by (simp add: U)
    next
      case (Some x)
      obtain ino slot where x: "x = (ino, slot)" by (cases x)
      have m: "dir_map (dir_entries sv0 fs) name = Some ino" using h(2) Some x by simp
      note a = after_findname [OF ok p0 f(2)]
      have "fresh mem ?fs" using fr p0 f(2) by (auto simp: fresh_def wrote_def same_fs_def)
      then obtain r fs' where r: "sfs_loadvnode mem ino SFS_TYPE_INVAL ?fs = Some (r, fs')"
        and r': "r = Inl ENOMEM \<and> \<not> ino_loaded ino fs \<and> sv_heap fs' = sv_heap ?fs \<or>
          (\<exists>p sv. r = Inr p \<and> sv_heap fs' = (sv_heap ?fs)(p \<mapsto> sv) \<and> sv_ino sv = ino \<and> sfi_linkcount (sv_i sv) \<noteq> 0 \<and>
            (\<forall>sv1. sv_heap ?fs p = Some sv1 \<longrightarrow> sv = vnode_incref sv1))"
        using loadvnode_finds [OF a(1) a(3), of ino mem] l [OF m] a(2) by blast
      then show ?thesis using rc h Some x m r by (auto simp: U vnode_incref_def)
    qed
  qed
qed

section \<open>A path on a mounted volume\<close>

text \<open>Counting a reference changes nothing of what a vnode is on disk.\<close>

lemma pv_cong: "\<forall>b. blk fs' b = blk fs b \<Longrightarrow> pv i fs' r ns = pv i fs r ns"
  by (induction ns) (simp_all add: child_def bwords_def)

lemma dir_cong:
  assumes i: "sv_i sv' = sv_i sv" "sv_ino sv' = sv_ino sv" and b: "\<forall>b. blk fs' b = blk fs b"
  shows "dir_entries sv' fs' = dir_entries sv fs" and "own_blocks sv' fs' = own_blocks sv fs"
    and "dir_inv sv fs \<Longrightarrow> fs_inv fs' \<Longrightarrow> fs_used fs \<subseteq> fs_used fs' \<Longrightarrow> dir_inv sv' fs'"
proof -
  note p = pv_cong [OF b]
  have "file_byte sv' fs' = file_byte sv fs" using i b by (simp add: fun_eq_iff file_byte_def file_block_def Let_def p)
  then show e: "dir_entries sv' fs' = dir_entries sv fs" using i by (simp add: dir_entries_def dir_entry_def file_bytes_def)
  show "own_blocks sv' fs' = own_blocks sv fs" using i by (simp add: own_blocks_def p)
  show "dir_inv sv' fs'" if "dir_inv sv fs" "fs_inv fs'" "fs_used fs \<subseteq> fs_used fs'"
    using that i unfolding dir_inv_def dir_base_def file_inv_def e p by (auto simp: subset_iff)
qed

lemma incref_sel [simp]:
  "sv_i (vnode_incref sv) = sv_i sv" "sv_ino (vnode_incref sv) = sv_ino sv" "vn_ops (vnode_incref sv) = vn_ops sv" "vn_opencount (vnode_incref sv) = vn_opencount sv"
  by (simp_all add: vnode_incref_def)

lemma counted_dir:
  "dir_entries (vnode_incref sv) (sv_put p x fs) = dir_entries sv fs" "own_blocks (vnode_incref sv) (sv_put p x fs) = own_blocks sv fs"
  "dir_inv sv fs \<Longrightarrow> dir_inv (vnode_incref sv) (sv_put p x fs)"
  using dir_cong [of "vnode_incref sv" sv "sv_put p x fs" fs] by (simp_all add: dir_inv_def dir_base_def file_inv_def)

lemma counted_table:
  assumes p: "sv_heap fs p = Some sv"
  shows "search_ok (sv_put p (vnode_incref sv) fs) = search_ok fs" and "ino_loaded ino (sv_put p (vnode_incref sv) fs) = ino_loaded ino fs"
    and "linked ino (sv_put p (vnode_incref sv) fs) = linked ino fs"
proof -
  have e: "(\<exists>x. sv_heap (sv_put p (vnode_incref sv) fs) q = Some x \<and> P (sv_i x) (sv_ino x)) = (\<exists>x. sv_heap fs q = Some x \<and> P (sv_i x) (sv_ino x))" for q P
    using p by auto
  have a: "(\<forall>x. sv_heap (sv_put p (vnode_incref sv) fs) q = Some x \<longrightarrow> P (sv_i x) (sv_ino x)) = (\<forall>x. sv_heap fs q = Some x \<longrightarrow> P (sv_i x) (sv_ino x))" for q P
    using p by auto
  show "search_ok (sv_put p (vnode_incref sv) fs) = search_ok fs" using e [of _ "\<lambda>_ i. i \<in> fs_used fs"] by (simp add: search_ok_def)
  show l: "ino_loaded ino (sv_put p (vnode_incref sv) fs) = ino_loaded ino fs" using e [of _ "\<lambda>_ i. i = ino"] by (simp add: ino_loaded_def)
  show "linked ino (sv_put p (vnode_incref sv) fs) = linked ino fs"
    using a [of _ "\<lambda>i n. n = ino \<longrightarrow> sfi_linkcount i \<noteq> 0"] unfolding linked_def l by simp
qed

text \<open>A volume whose root directory is loaded, at \<open>p\<close>, and sound.\<close>

definition root_at :: "nat \<Rightarrow> sfs_vnode \<Rightarrow> sfs_fs \<Rightarrow> bool" where
  "root_at p sv fs \<longleftrightarrow> search_ok fs \<and> p \<in> set (loaded fs) \<and> sv_heap fs p = Some sv \<and> sv_ino sv = SFS_ROOT_LOCATION \<and>
     (\<forall>q \<in> set (loaded fs). \<forall>x. sv_heap fs q = Some x \<longrightarrow> sv_ino x = SFS_ROOT_LOCATION \<longrightarrow> q = p) \<and>
     vn_ops sv = Some SFS_DIROPS \<and> 0 < vn_refcount sv \<and> vn_refcount sv < 2 ^ 31 - 2 \<and> 0 \<le> vn_opencount sv \<and> dir_inv sv fs"

lemma getroot_found:
  assumes r: "root_at p sv fs" and v: "w_vols w d = Some fs"
  shows "k_getroot d w = Some (Sfs d p, (put_vol d (sv_put p (vnode_incref sv) fs) w)\<lparr>w_mem := tl (w_mem w)\<rparr>)"
proof -
  have ok: "search_ok fs" using r by (simp add: root_at_def)
  have "sfs_search SFS_ROOT_LOCATION 0 (array_getnum (sfs_vnodes fs)) fs = Some (Some p)"
  proof (cases rule: search_spec [OF ok, of SFS_ROOT_LOCATION])
    case (1 q sv')
    then show ?thesis using r by (auto simp: root_at_def)
  next
    case 2
    then show ?thesis using r by (auto simp: root_at_def ino_loaded_def)
  qed
  then have "sfs_getroot mem fs = Some (p, sv_put p (vnode_incref sv) fs)" for mem
    using r by (simp add: sfs_getroot_def sfs_loadvnode_def root_at_def)
  then show ?thesis using v by (simp add: k_getroot_def on_vol_mem_def)
qed

lemma getdevice_named:
  assumes "plain_name dev" and "name \<noteq> []" and "hd name \<noteq> slash"
  shows "getdevice ops (dev @ colon # name) s = ebind (vfs_getroot ops dev s) (\<lambda>vn s1. Some (Inr (name, vn), s1))"
proof -
  have "skip_slashes name = name" using assms(2,3) by (cases name) auto
  then show ?thesis using assms(1) find_sep_skip [of dev "colon # name" 0] by (auto simp: getdevice_def plain_name_def colon_def slash_def)
qed

text \<open>The root directory is given back: it was in use before.\<close>

lemma decref_root:
  assumes "w_vols w d = Some fs" and "sv_heap fs p = Some sv" and "1 < vn_refcount sv"
  shows "k_decref (Sfs d p) w = Some (put_vol d (sv_put p (sv\<lparr>vn_refcount := vn_refcount sv - 1\<rparr>) fs) w)"
  using assms by (simp add: k_decref_def lift_vol_def sfs_decref_def vnode_decref_def)

lemma k_lookup_finds:
  assumes r: "root_at p0 sv0 fs" and v: "w_vols w d = Some (sv_put p0 (vnode_incref sv0) fs)"
    and l: "\<And>ino. dir_map (dir_entries sv0 fs) name = Some ino \<Longrightarrow> linked ino fs \<and> ino \<notin> own_blocks sv0 fs"
  shows "\<exists>r w' fs' sv'. k_lookup (Sfs d p0) name w = Some (r, w') \<and> w_vols w' d = Some fs' \<and> sv_heap fs' p0 = Some sv' \<and> 1 < vn_refcount sv' \<and>
    (r = Inl ENOSPC \<or>
     (case dir_map (dir_entries sv0 fs) name of
        None \<Rightarrow> r = Inl ENOENT
      | Some ino \<Rightarrow> r = Inl ENOMEM \<and> \<not> ino_loaded ino fs \<or> (\<exists>p sv. r = Inr (Sfs d p) \<and> sv_heap fs' p = Some sv \<and> sv_ino sv = ino)))"
proof -
  let ?fs = "sv_put p0 (vnode_incref sv0) fs" and ?m = "next_load w (sv_put p0 (vnode_incref sv0) fs)"
  have r': "search_ok fs" "sv_heap fs p0 = Some sv0" "dir_inv sv0 fs" "vn_ops sv0 = Some SFS_DIROPS" "0 < vn_refcount sv0" "vn_refcount sv0 < 2 ^ 31 - 2" "0 \<le> vn_opencount sv0"
    using r by (simp_all add: root_at_def)
  have c: "vn_refcount (vnode_incref sv0) = vn_refcount sv0 + 1" using r'(5,6) by (simp add: vnode_incref_def)
  have t: "vop_table (Sfs d p0) w = Some SFS_DIROPS" using v r' c by (simp add: vop_table_def vnode_check_def)
  obtain q fs' sv' where q: "sfs_lookup ?m p0 name ?fs = Some (q, fs')" "sv_heap fs' p0 = Some sv'"
      "vn_refcount sv' \<in> {vn_refcount sv0 + 1, int32 (vn_refcount sv0 + 1 + 1)}"
    and q': "q = Inl ENOSPC \<or> (case dir_map (dir_entries sv0 fs) name of None \<Rightarrow> q = Inl ENOENT
      | Some ino \<Rightarrow> q = Inl ENOMEM \<and> \<not> ino_loaded ino fs \<or> (\<exists>p sv. q = Inr p \<and> sv_heap fs' p = Some sv \<and> sv_ino sv = ino))"
    using sfs_lookup_finds [of ?fs p0 "vnode_incref sv0" ?m name, unfolded counted_dir(1,2) counted_table [OF r'(2)] c, OF r'(1) _ counted_dir(3) [OF r'(3)] fresh_next l] by auto
  have "k_lookup (Sfs d p0) name w = Some (map_sum id (Sfs d) q, (put_vol d fs' w)\<lparr>w_mem := tl (w_mem w)\<rparr>)"
    using t v q(1) by (simp add: k_lookup_def vop_def on_vol_mem_def)
  moreover have "1 < vn_refcount sv'" using q(3) r'(5,6) by auto
  ultimately show ?thesis using q(2) q' by (auto simp: put_vol_def split: option.splits)
qed


text \<open>A volume on \<^verbatim>\<open>lhd0\<close> whose root directory has one file, the name with the byte 97, that is loaded.\<close>

definition demo_root :: sfs_vnode where "demo_root = demo_dir\<lparr>vn_ops := Some SFS_DIROPS\<rparr>"

definition demo_file :: sfs_vnode where
  "demo_file = demo_vnode\<lparr>sv_ino := 3, sv_i := demo_inode\<lparr>sfi_linkcount := 1\<rparr>\<rparr>"

definition demo_lookup_fs :: sfs_fs where
  "demo_lookup_fs = demo_dir_fs\<lparr>sfs_freemap := \<lparr>nbits = 4, bv = [0xff]\<rparr>, sfs_vnodes := \<lparr>num = 2, max_slots = 2, v = Some [Some 7, Some 8]\<rparr>,
     sv_heap := [7 \<mapsto> demo_root, 8 \<mapsto> demo_file]\<rparr>"

definition demo_mounted :: "(vnode_id, nat, unit kworld) vfs" where
  "demo_mounted = demo_vfs\<lparr>knowndevs := \<lparr>num = 2, max_slots = 2, v = Some [Some demo_null, Some (demo_lhd0\<lparr>kd_fs := Some 1\<rparr>)]\<rparr>,
     world := (demo_world 2)\<lparr>w_vols := [1 \<mapsto> demo_lookup_fs]\<rparr>\<rparr>"

lemma demo_lookup_used: "fs_used demo_lookup_fs = {0, 1, 2, 3}"
proof -
  have b: "b < 4 \<Longrightarrow> b = 0 \<or> b = 1 \<or> b = 2 \<or> b = (3 :: nat)" for b by arith
  then show ?thesis by (auto simp: fs_used_def bm_used_def bit_at_def demo_lookup_fs_def demo_dir_fs_def demo_fs_def dest!: b)
qed

lemma demo_lookup_inv: "fs_inv demo_lookup_fs"
proof -
  have small: "i < 8 \<Longrightarrow> i = 0 \<or> i = 1 \<or> i = 2 \<or> i = 3 \<or> i = 4 \<or> i = 5 \<or> i = 6 \<or> i = (7 :: nat)" for i by arith
  have "bitmap_inv \<lparr>nbits = 4, bv = [0xff]\<rparr>" by (auto simp: bitmap_inv_def bit_at_def dest!: small)
  moreover have "fs_inv demo_dir_fs" "nblk demo_dir_fs = 4" using demo_dir_inv(1) by (simp_all add: dir_inv_def dir_base_def file_inv_def demo_dir_fs_def demo_fs_def)
  ultimately show ?thesis by (simp add: fs_inv_def demo_lookup_fs_def)
qed

lemma demo_lookup_dir: "dir_inv demo_root demo_lookup_fs" "dir_entries demo_root demo_lookup_fs = [demo_entry]" "own_blocks demo_root demo_lookup_fs = own_blocks demo_dir demo_dir_fs"
proof -
  have "fs_used demo_dir_fs \<subseteq> {0, 1, 2, 3}" by (auto simp: fs_used_def demo_dir_fs_def demo_fs_def)
  then show "dir_inv demo_root demo_lookup_fs" "dir_entries demo_root demo_lookup_fs = [demo_entry]" "own_blocks demo_root demo_lookup_fs = own_blocks demo_dir demo_dir_fs"
    using dir_cong [of demo_root demo_dir demo_lookup_fs demo_dir_fs] demo_dir_inv demo_lookup_inv demo_lookup_used
    by (simp_all add: demo_root_def demo_lookup_fs_def blk_def)
qed

lemma demo_lookup_loaded: "loaded demo_lookup_fs = [7, 8]" "sv_heap demo_lookup_fs 7 = Some demo_root" "sv_heap demo_lookup_fs 8 = Some demo_file"
  by (simp_all add: loaded_def array_list_def array_slots_def demo_lookup_fs_def)

lemma demo_inos: "sv_ino demo_root = 1" "sv_ino demo_file = 3" "sfi_linkcount (sv_i demo_file) = 1"
  by (simp_all add: demo_root_def demo_dir_def demo_vnode_def demo_file_def)

lemma two_slots: "array_inv \<lparr>num = 2, max_slots = 2, v = Some [Some x, Some y]\<rparr>"
proof -
  have two: "i < 2 \<Longrightarrow> i = 0 \<or> i = (1 :: nat)" for i by arith
  show ?thesis by (auto simp: array_inv_def array_slots_def dest!: two)
qed

lemma demo_lookup_search: "search_ok demo_lookup_fs"
proof -
  have "array_inv (sfs_vnodes demo_lookup_fs)" using two_slots [of 7 8] by (simp add: demo_lookup_fs_def)
  then show ?thesis using demo_lookup_inv by (simp add: search_ok_def demo_lookup_loaded demo_lookup_used demo_inos)
qed

lemma demo_root_at: "root_at 7 demo_root demo_lookup_fs"
  using demo_lookup_search demo_lookup_dir(1)
  by (simp add: root_at_def demo_lookup_loaded demo_inos SFS_ROOT_LOCATION_def) (simp add: demo_root_def demo_dir_def demo_vnode_def)

lemma demo_linked: "linked 3 demo_lookup_fs" "3 \<notin> own_blocks demo_root demo_lookup_fs"
proof -
  show "linked 3 demo_lookup_fs" by (simp add: linked_def ino_loaded_def demo_lookup_loaded demo_lookup_used demo_inos)
  have "own_blocks demo_dir demo_dir_fs \<subseteq> fs_used demo_dir_fs" using demo_dir_inv(1) by (auto simp: own_blocks_def dir_inv_def dir_base_def file_inv_def)
  moreover have "3 \<notin> fs_used demo_dir_fs" using fs_alloc_inv [OF demo_fs_inv, of 2] demo_unused by (simp add: demo_dir_fs_def)
  ultimately show "3 \<notin> own_blocks demo_root demo_lookup_fs" using demo_lookup_dir(3) by blast
qed


section \<open>The current directory\<close>

text \<open>
  C22: \<^verbatim>\<open>vfs_chdir\<close> moves one reference. When it fails the current directory and the count of every vnode in use are as before. When it
  succeeds the new current directory is in use and has one reference more, the old one has one less (or, if that was the last one, is left
  to be reclaimed), and every other vnode in use keeps its count.
\<close>

theorem vfs_chdir_moves:
  assumes "roomy krefs (world s)" and "t_cwd s = Some old" and "0 < krefs (world s) old" and "vfs_chdir (kops dvs) path s = Some (r, s')"
  shows "case r of
      Inl e \<Rightarrow> t_cwd s' = Some old \<and> (\<forall>x. 0 < krefs (world s) x \<longrightarrow> krefs (world s') x = krefs (world s) x)
    | Inr _ \<Rightarrow> \<exists>vn. t_cwd s' = Some vn \<and> 0 < krefs (world s') vn \<and>
        (\<forall>x. 0 < krefs (world s) x \<longrightarrow>
           (if x = old \<and> x \<noteq> vn \<and> krefs (world s) x = 1 then krefs (world s') x \<le> 1
            else krefs (world s') x + (if x = old then 1 else 0) = krefs (world s) x + (if x = vn then 1 else 0)))"
  by (rule kv.chdir_moves [OF assms])

text \<open>A process in the root directory of that volume goes there again, by the empty path.\<close>

definition demo_in_root :: "(vnode_id, nat, unit kworld) vfs" where
  "demo_in_root = demo_mounted\<lparr>t_cwd := Some (Sfs 1 7)\<rparr>"

lemma demo_in_root_sel: "t_cwd demo_in_root = Some (Sfs 1 7)" "w_vols (world demo_in_root) = [1 \<mapsto> demo_lookup_fs]" "w_devvns (world demo_in_root) = w_devvns (demo_world 2)"
  by (simp_all add: demo_in_root_def demo_mounted_def)

lemma demo_in_root_refs: "krefs (world demo_in_root) (Sfs 1 7) = 1" and demo_in_root_roomy: "roomy krefs (world demo_in_root)"
proof -
  have c: "cnt demo_lookup_fs p \<le> 1" for p
    by (simp add: cnt_def demo_lookup_fs_def demo_root_def demo_dir_def demo_vnode_def demo_file_def)
  have d: "dev_at i (world demo_in_root) = dev_at i (demo_world 2)" for i by (simp add: dev_at_def demo_in_root_sel)
  show "krefs (world demo_in_root) (Sfs 1 7) = 1"
    by (simp add: krefs_def demo_in_root_sel cnt_def demo_lookup_loaded) (simp add: demo_root_def demo_dir_def demo_vnode_def)
  have "krefs (world demo_in_root) x \<le> 1" for x
  proof (cases x)
    case (Dev i)
    then show ?thesis using demo_krefs [of x] d by (auto simp: krefs_def)
  next
    case (Sfs a p)
    then show ?thesis using c by (simp add: krefs_def demo_in_root_sel)
  qed
  then have "krefs (world demo_in_root) x < 2 ^ 31 - 8" for x by (rule le_less_trans) simp
  then show "roomy krefs (world demo_in_root)" unfolding roomy_def by blast
qed

lemma demo_root_sel: "vn_refcount demo_root = 1" "vn_opencount demo_root = 0" "vn_ops demo_root = Some SFS_DIROPS" "sfi_type (sv_i demo_root) = SFS_TYPE_DIR"
  by (simp_all add: demo_root_def demo_dir_def demo_vnode_def)

lemma demo_chdir: "\<exists>s'. vfs_chdir (kops demo_devs) [] demo_in_root = Some (Inr (), s')"
proof -
  let ?fs = "sv_put 7 (vnode_incref demo_root) demo_lookup_fs"
  let ?w = "put_vol 1 ?fs (world demo_in_root)"
  have v: "w_vols ?w 1 = Some ?fs" by (simp add: put_vol_def)
  have i: "k_incref (Sfs 1 7) (world demo_in_root) = Some ?w" by (simp add: k_incref_def lift_vol_def demo_in_root_sel sfs_incref_def demo_lookup_loaded)
  have t: "k_gettype demo_devs (Sfs 1 7) ?w = Some (Inr S_IFDIR, ?w)"
    using v by (simp add: k_gettype_def vop_def vop_table_def vnode_check_def demo_root_sel vnode_incref_def sfs_gettype_def SFS_TYPE_DIR_def SFS_TYPE_FILE_def answer_def)
  obtain w2 where d: "k_decref (Sfs 1 7) ?w = Some w2" using decref_root [OF v, of 7 "vnode_incref demo_root"] by (simp add: vnode_incref_def demo_root_sel)
  have m: "and S_IFDIR S_IFMT = S_IFDIR" by (simp add: S_IFDIR_def S_IFMT_def)
  have "vfs_lookup (kops demo_devs) [] demo_in_root = Some (Inr (Sfs 1 7), demo_in_root\<lparr>world := ?w\<rparr>)"
    using i by (simp add: vfs_lookup_def getdevice_def vfs_getcurdir_def demo_in_root_sel)
  then show ?thesis using t d m by (simp add: vfs_chdir_def vfs_setcurdir_def on_world_def decref_def Let_def demo_in_root_sel)
qed

lemma vfs_chdir_moves_witness:
  "\<exists>s' vn. vfs_chdir (kops demo_devs) [] demo_in_root = Some (Inr (), s') \<and> t_cwd s' = Some vn \<and> 0 < krefs (world s') vn"
proof -
  obtain s' where s': "vfs_chdir (kops demo_devs) [] demo_in_root = Some (Inr (), s')" using demo_chdir by blast
  have "0 < krefs (world demo_in_root) (Sfs 1 7)" using demo_in_root_refs by simp
  then show ?thesis using vfs_chdir_moves [OF demo_in_root_roomy demo_in_root_sel(1) _ s'] s' by auto
qed

end
