(* ===== verification/Bar.thy ===== *)
theory Bar
  imports Synch
begin

text \<open>
  The bar of \<^verbatim>\<open>assignment1/ownSolution\<close> (\<^verbatim>\<open>bar.c\<close>, \<^verbatim>\<open>bar_driver.c\<close>, \<^verbatim>\<open>bar.h\<close>): customers submit orders, bartenders fill them, all of them
  threads that share two arrays and meet on semaphores and locks. Each thread is a program counter; a
  step runs a thread from one point where another thread may come in to the next. Such points are every
  \<^verbatim>\<open>lock_acquire\<close>, every \<^verbatim>\<open>P\<close> and \<^verbatim>\<open>V\<close>, and every access to a shared variable outside a critical section; what stands between
  \<^verbatim>\<open>lock_acquire\<close> and \<^verbatim>\<open>lock_release\<close> is one step. The locks and semaphores are the abstract ones that \<^verbatim>\<open>Synch\<close> shows
  the kernel to implement (\<open>bar_objects\<close>). The number of glasses, customers and bartenders, which \<^verbatim>\<open>bar.h\<close> says may be
  changed, is a parameter.
\<close>

section \<open>Outcomes of a step\<close>

text \<open>A thread waits, or the kernel stops (a panic or an access outside an object), or the thread goes on.\<close>

datatype 'a out = Block | Panic | Go 'a

primrec out_map :: "('a \<Rightarrow> 'b) \<Rightarrow> 'a out \<Rightarrow> 'b out" where
  "out_map f Block = Block"
| "out_map f Panic = Panic"
| "out_map f (Go x) = Go (f x)"

definition must :: "'a option \<Rightarrow> ('a \<Rightarrow> 'b out) \<Rightarrow> 'b out" where
  "must m k = (case m of None \<Rightarrow> Panic | Some x \<Rightarrow> k x)"

section \<open>The bar's data\<close>

record bar_glass =
  contents3 :: "nat list"
  gstate :: nat
  gnumber :: nat

text \<open>The glass of an order is the index of a glass in the array, \<open>None\<close> for a null pointer.\<close>

record bar_order =
  ing :: "nat list"
  oglass :: "nat option"
  onumber :: nat
  ostate :: nat

record bar_size =
  NGLASSES :: nat
  NCUSTOMERS :: nat
  NBARTENDERS :: nat

definition NOTHING :: nat where "NOTHING = 0"
definition KAHLUA :: nat where "KAHLUA = 9"
definition BAILEYS :: nat where "BAILEYS = 10"
definition GRAND_MARNIER :: nat where "GRAND_MARNIER = 11"
definition NBOTTLES :: nat where "NBOTTLES = 13"

text \<open>Threads, and where each of them can be.\<close>

datatype tid = Cust nat | Bart nat

datatype submit_pc = S_lock | S_slot | S_ready nat | S_wait nat | S_glass nat | S_number nat nat
  | S_lock3 nat nat | S_set3 nat nat | S_out nat

datatype return_pc = R_lock nat | R_empty nat | R_up nat | R_lock0 nat | R_set0 nat | R_out

text \<open>\<^verbatim>\<open>submit_order\<close> and \<^verbatim>\<open>return_glass\<close> are called in a customer's rounds and in the loop of \<^verbatim>\<open>crawl_home\<close>.\<close>

datatype visit = Round nat | Home nat

datatype cust_pc = C_new | Submit visit submit_pc | Drink nat nat | Return visit return_pc
  | H_lock | H_dec | H_unlock | C_end | C_gone

datatype take_pc = T_wait | T_lock | T_take | T_out nat

datatype fill_pc = F_await | F_lock | F_take | F_set nat | F_pourlock nat | F_pour nat | F_out

datatype bart_pc = B_new | B_check | Take take_pc | Fill nat fill_pc | Serve nat | B_end | B_gone

datatype main_pc = M_bart nat | M_cust nat | M_wait nat | M_close | M_end

record bar =
  orders :: "bar_order list"
  glasses :: "bar_glass list"
  bottles :: "int list"
  ndrinkers :: int
  emptyglasses :: nat
  ordersready :: nat
  ordercomplete :: "nat list"
  alldone :: nat
  orderslock :: "tid option"
  bottleslock :: "tid option"
  glassarraylock :: "tid option"
  ndrinkerslock :: "tid option"
  cust :: "nat \<Rightarrow> cust_pc"
  bart :: "nat \<Rightarrow> bart_pc"
  main_at :: main_pc

text \<open>\<^verbatim>\<open>lock_acquire\<close> and \<^verbatim>\<open>lock_release\<close> as \<^verbatim>\<open>Synch\<close> specifies them, with their panics.\<close>

definition acquire :: "tid \<Rightarrow> tid option \<Rightarrow> 'a \<Rightarrow> 'a out" where
  "acquire t owner k = (if owner = Some t then Panic else if owner \<noteq> None then Block else Go k)"

definition release :: "tid \<Rightarrow> tid option \<Rightarrow> 'a \<Rightarrow> 'a out" where
  "release t owner k = (if owner = Some t then Go k else Panic)"

text \<open>The loops that search an array for the first element with a property; they end at its length if there is none.\<close>

primrec first_with :: "('a \<Rightarrow> bool) \<Rightarrow> 'a list \<Rightarrow> nat" where
  "first_with p [] = 0"
| "first_with p (x # xs) = (if p x then 0 else Suc (first_with p xs))"

section \<open>Pouring\<close>

text \<open>One ingredient: into the glass at place \<open>i\<close>, counted on its bottle; \<^verbatim>\<open>NOTHING\<close> is skipped.\<close>

definition pour_one :: "nat \<Rightarrow> nat \<times> nat list \<times> int list \<Rightarrow> (nat \<times> nat list \<times> int list) option" where
  "pour_one x s = (case s of (i, cs, bs) \<Rightarrow>
     if x = NOTHING then Some s
     else do { cs' \<leftarrow> wr cs i x; d \<leftarrow> rd bs x; bs' \<leftarrow> wr bs x (int32 (d + 1)); Some (Suc i, cs', bs') })"

definition pour :: "nat list \<Rightarrow> nat list \<Rightarrow> int list \<Rightarrow> (nat list \<times> int list) option" where
  "pour xs cs bs = do {
     x1 \<leftarrow> rd xs 0; x2 \<leftarrow> rd xs 1; x3 \<leftarrow> rd xs 2;
     s1 \<leftarrow> pour_one x1 (0, cs, bs);
     s2 \<leftarrow> pour_one x2 s1;
     s3 \<leftarrow> pour_one x3 s2;
     Some (snd s3)
   }"

section \<open>The customer's operations\<close>

text \<open>
  \<^verbatim>\<open>submit_order\<close>: a step from each of its points. If no slot is free, the index runs past the array.
\<close>

definition set_order :: "nat \<Rightarrow> (bar_order \<Rightarrow> bar_order) \<Rightarrow> bar \<Rightarrow> bar option" where
  "set_order i f st = do { o1 \<leftarrow> rd (orders st) i; os \<leftarrow> wr (orders st) i (f o1); Some (st\<lparr>orders := os\<rparr>) }"

definition set_glass :: "nat \<Rightarrow> (bar_glass \<Rightarrow> bar_glass) \<Rightarrow> bar \<Rightarrow> bar option" where
  "set_glass i f st = do { g \<leftarrow> rd (glasses st) i; gs \<leftarrow> wr (glasses st) i (f g); Some (st\<lparr>glasses := gs\<rparr>) }"

fun submit_order :: "tid \<Rightarrow> nat list \<Rightarrow> submit_pc \<Rightarrow> bar \<Rightarrow> (submit_pc \<times> bar) out" where
  "submit_order t xs S_lock st = acquire t (orderslock st) (S_slot, st\<lparr>orderslock := Some t\<rparr>)"
| "submit_order t xs S_slot st =
     (let i = first_with (\<lambda>d. ostate d = 0) (orders st);
          st1 = (if i < length (orders st)
                 then st\<lparr>orders := (orders st)[i := (orders st ! i)\<lparr>ing := xs, ostate := 1, onumber := i\<rparr>]\<rparr> else st)
      in release t (orderslock st) (S_ready i, st1\<lparr>orderslock := None\<rparr>))"
| "submit_order t xs (S_ready i) st = Go (S_wait i, st\<lparr>ordersready := Suc (ordersready st)\<rparr>)"
| "submit_order t xs (S_wait i) st =
     must (rd (ordercomplete st) i) (\<lambda>n. if n = 0 then Block
       else Go (S_glass i, st\<lparr>ordercomplete := (ordercomplete st)[i := n - 1]\<rparr>))"
| "submit_order t xs (S_glass i) st =
     must (rd (orders st) i) (\<lambda>d. must (oglass d) (\<lambda>g. Go (S_number i g, st)))"
| "submit_order t xs (S_number i g) st = must (set_glass g (gnumber_update (\<lambda>_. i)) st) (\<lambda>st'. Go (S_lock3 i g, st'))"
| "submit_order t xs (S_lock3 i g) st = acquire t (orderslock st) (S_set3 i g, st\<lparr>orderslock := Some t\<rparr>)"
| "submit_order t xs (S_set3 i g) st =
     must (set_order i (ostate_update (\<lambda>_. 3)) st) (\<lambda>st'. release t (orderslock st) (S_out g, st'\<lparr>orderslock := None\<rparr>))"
| "submit_order t xs (S_out g) st = Go (S_out g, st)"

fun return_glass :: "tid \<Rightarrow> return_pc \<Rightarrow> bar \<Rightarrow> (return_pc \<times> bar) out" where
  "return_glass t (R_lock g) st = acquire t (glassarraylock st) (R_empty g, st\<lparr>glassarraylock := Some t\<rparr>)"
| "return_glass t (R_empty g) st =
     must (rd (glasses st) g) (\<lambda>gl. must (set_glass g (gstate_update (\<lambda>_. 0)) st)
       (\<lambda>st'. release t (glassarraylock st) (R_up (gnumber gl), st'\<lparr>glassarraylock := None\<rparr>)))"
| "return_glass t (R_up n) st = Go (R_lock0 n, st\<lparr>emptyglasses := Suc (emptyglasses st)\<rparr>)"
| "return_glass t (R_lock0 n) st = acquire t (orderslock st) (R_set0 n, st\<lparr>orderslock := Some t\<rparr>)"
| "return_glass t (R_set0 n) st =
     must (set_order n (ostate_update (\<lambda>_. 0)) st) (\<lambda>st'. release t (orderslock st) (R_out, st'\<lparr>orderslock := None\<rparr>))"
| "return_glass t R_out st = Go (R_out, st)"

text \<open>What a customer orders: \<^verbatim>\<open>customer\<close> in its rounds, \<^verbatim>\<open>crawl_home\<close> nothing three times over.\<close>

fun drink_of :: "nat \<Rightarrow> visit \<Rightarrow> nat list" where
  "drink_of c (Round k) = (if odd c then [KAHLUA, GRAND_MARNIER, BAILEYS] else [BAILEYS, GRAND_MARNIER, KAHLUA])"
| "drink_of c (Home k) = [0, 0, 0]"

text \<open>Where a customer is after \<^verbatim>\<open>submit_order\<close> and after \<^verbatim>\<open>return_glass\<close> returned.\<close>

fun after_submit :: "visit \<Rightarrow> nat \<Rightarrow> cust_pc" where
  "after_submit (Round k) g = Drink k g"
| "after_submit (Home k) g = Return (Home k) (R_lock g)"

fun after_return :: "bar_size \<Rightarrow> visit \<Rightarrow> cust_pc" where
  "after_return z (Round k) = (if Suc k < 5 then Submit (Round (Suc k)) S_lock else H_lock)"
| "after_return z (Home k) = (if Suc k < NBARTENDERS z then Submit (Home (Suc k)) S_lock else H_unlock)"

definition submitted :: "visit \<Rightarrow> submit_pc \<Rightarrow> cust_pc" where
  "submitted v0 s = (case s of S_out g \<Rightarrow> after_submit v0 g | _ \<Rightarrow> Submit v0 s)"

definition returned :: "bar_size \<Rightarrow> visit \<Rightarrow> return_pc \<Rightarrow> cust_pc" where
  "returned z v0 r = (case r of R_out \<Rightarrow> after_return z v0 | _ \<Rightarrow> Return v0 r)"

text \<open>\<^verbatim>\<open>crawl_home\<close> up to its loop and after it.\<close>

definition crawl_home :: "bar_size \<Rightarrow> tid \<Rightarrow> cust_pc \<Rightarrow> bar \<Rightarrow> (cust_pc \<times> bar) out" where
  "crawl_home z t p st = (case p of
     H_lock \<Rightarrow> acquire t (ndrinkerslock st) (H_dec, st\<lparr>ndrinkerslock := Some t\<rparr>)
   | H_dec \<Rightarrow> (let n = int32 (ndrinkers st - 1)
       in Go (if n = 0 \<and> 0 < NBARTENDERS z then Submit (Home 0) S_lock else H_unlock, st\<lparr>ndrinkers := n\<rparr>))
   | H_unlock \<Rightarrow> release t (ndrinkerslock st) (C_end, st\<lparr>ndrinkerslock := None\<rparr>)
   | _ \<Rightarrow> Block)"

definition cust_at :: "nat \<Rightarrow> cust_pc \<times> bar \<Rightarrow> bar" where
  "cust_at c ps = (snd ps)\<lparr>cust := (cust (snd ps))(c := fst ps)\<rparr>"

text \<open>The thread \<^verbatim>\<open>customer\<close>.\<close>

definition customer :: "bar_size \<Rightarrow> nat \<Rightarrow> bar \<Rightarrow> bar out" where
  "customer z c st = (case cust st c of
     C_new \<Rightarrow> Block
   | Submit v0 s \<Rightarrow> out_map (\<lambda>(s', st'). cust_at c (submitted v0 s', st')) (submit_order (Cust c) (drink_of c v0) s st)
   | Drink k g \<Rightarrow> must (set_glass g (contents3_update (\<lambda>_. [0, 0, 0])) st) (\<lambda>st'. Go (cust_at c (Return (Round k) (R_lock g), st')))
   | Return v0 r \<Rightarrow> out_map (\<lambda>(r', st'). cust_at c (returned z v0 r', st')) (return_glass (Cust c) r st)
   | C_end \<Rightarrow> Go (cust_at c (C_gone, st\<lparr>alldone := Suc (alldone st)\<rparr>))
   | C_gone \<Rightarrow> Block
   | p \<Rightarrow> out_map (cust_at c) (crawl_home z (Cust c) p st))"

section \<open>The bartender's operations\<close>

fun take_order :: "tid \<Rightarrow> take_pc \<Rightarrow> bar \<Rightarrow> (take_pc \<times> bar) out" where
  "take_order t T_wait st = (if ordersready st = 0 then Block else Go (T_lock, st\<lparr>ordersready := ordersready st - 1\<rparr>))"
| "take_order t T_lock st = acquire t (orderslock st) (T_take, st\<lparr>orderslock := Some t\<rparr>)"
| "take_order t T_take st =
     (let i = first_with (\<lambda>d. ostate d = 1) (orders st)
      in must (set_order i (ostate_update (\<lambda>_. 2)) st) (\<lambda>st'. release t (orderslock st) (T_out i, st'\<lparr>orderslock := None\<rparr>)))"
| "take_order t (T_out i) st = Go (T_out i, st)"

text \<open>If \<^verbatim>\<open>fill_order\<close> finds no empty glass, its pointer to a glass is not initialised.\<close>

fun fill_order :: "tid \<Rightarrow> nat \<Rightarrow> fill_pc \<Rightarrow> bar \<Rightarrow> (fill_pc \<times> bar) out" where
  "fill_order t d F_await st = (if emptyglasses st = 0 then Block else Go (F_lock, st\<lparr>emptyglasses := emptyglasses st - 1\<rparr>))"
| "fill_order t d F_lock st = acquire t (glassarraylock st) (F_take, st\<lparr>glassarraylock := Some t\<rparr>)"
| "fill_order t d F_take st =
     (let i = first_with (\<lambda>g. gstate g = 0) (glasses st)
      in must (set_glass i (gstate_update (\<lambda>_. 1)) st) (\<lambda>st'. release t (glassarraylock st) (F_set i, st'\<lparr>glassarraylock := None\<rparr>)))"
| "fill_order t d (F_set g) st = must (set_order d (oglass_update (\<lambda>_. Some g)) st) (\<lambda>st'. Go (F_pourlock g, st'))"
| "fill_order t d (F_pourlock g) st = acquire t (bottleslock st) (F_pour g, st\<lparr>bottleslock := Some t\<rparr>)"
| "fill_order t d (F_pour g) st =
     must (rd (orders st) d) (\<lambda>dr. must (rd (glasses st) g) (\<lambda>gl.
       must (pour (ing dr) (contents3 gl) (bottles st)) (\<lambda>(cs, bs).
         release t (bottleslock st)
           (F_out, st\<lparr>glasses := (glasses st)[g := gl\<lparr>contents3 := cs\<rparr>], bottles := bs, bottleslock := None\<rparr>))))"
| "fill_order t d F_out st = Go (F_out, st)"

definition serve_order :: "nat \<Rightarrow> bar \<Rightarrow> bar out" where
  "serve_order d st = must (rd (orders st) d) (\<lambda>dr. must (rd (ordercomplete st) (onumber dr)) (\<lambda>n.
     Go (st\<lparr>ordercomplete := (ordercomplete st)[onumber dr := Suc n]\<rparr>)))"

definition drinkers :: "bar \<Rightarrow> int" where
  "drinkers st = ndrinkers st"

definition bart_at :: "nat \<Rightarrow> bart_pc \<Rightarrow> bar \<Rightarrow> bar" where
  "bart_at b p st = st\<lparr>bart := (bart st)(b := p)\<rparr>"

definition took :: "take_pc \<Rightarrow> bart_pc" where
  "took s = (case s of T_out i \<Rightarrow> Fill i F_await | _ \<Rightarrow> Take s)"

definition filled_pc :: "nat \<Rightarrow> fill_pc \<Rightarrow> bart_pc" where
  "filled_pc d s = (if s = F_out then Serve d else Fill d s)"

text \<open>The thread \<^verbatim>\<open>bartender\<close>; \<^verbatim>\<open>take_order\<close> never returns a null pointer.\<close>

definition bartender :: "nat \<Rightarrow> bar \<Rightarrow> bar out" where
  "bartender b st = (case bart st b of
     B_new \<Rightarrow> Block
   | B_check \<Rightarrow> Go (bart_at b (if drinkers st \<noteq> 0 then Take T_wait else B_end) st)
   | Take s \<Rightarrow> out_map (\<lambda>(s', st'). bart_at b (took s') st') (take_order (Bart b) s st)
   | Fill d s \<Rightarrow> out_map (\<lambda>(s', st'). bart_at b (filled_pc d s') st') (fill_order (Bart b) d s st)
   | Serve d \<Rightarrow> out_map (bart_at b B_check) (serve_order d st)
   | B_end \<Rightarrow> Go (bart_at b B_gone (st\<lparr>alldone := Suc (alldone st)\<rparr>))
   | B_gone \<Rightarrow> Block)"

section \<open>Opening and closing\<close>

text \<open>
  \<^verbatim>\<open>bar_open\<close> panics when an object cannot be created; \<open>mem\<close> says whether there is memory for all of them. The arrays
  are static, so that everything \<^verbatim>\<open>bar_open\<close> and \<^verbatim>\<open>createbar\<close> do not set is zero.
\<close>

definition bar_open :: "bool \<Rightarrow> bar_size \<Rightarrow> bar option" where
  "bar_open mem z = (if \<not> mem then None else Some
     \<lparr>orders = replicate (NCUSTOMERS z) \<lparr>ing = [0, 0, 0], oglass = None, onumber = 0, ostate = 0\<rparr>,
      glasses = replicate (NGLASSES z) \<lparr>contents3 = [0, 0, 0], gstate = 0, gnumber = 0\<rparr>,
      bottles = replicate NBOTTLES 0, ndrinkers = int (NCUSTOMERS z),
      emptyglasses = NGLASSES z, ordersready = 0, ordercomplete = replicate (NCUSTOMERS z) 0, alldone = 0,
      orderslock = None, bottleslock = None, glassarraylock = None, ndrinkerslock = None,
      cust = (\<lambda>_. C_new), bart = (\<lambda>_. B_new), main_at = M_bart 0\<rparr>)"

text \<open>
  \<^verbatim>\<open>bar_close\<close>: destroying a semaphore panics when a thread sleeps on it, destroying a lock that somebody
  owns frees the owner. Nothing may be used afterwards.
\<close>

definition waits_sem :: "bar_size \<Rightarrow> bar \<Rightarrow> bool" where
  "waits_sem z st \<longleftrightarrow>
     (\<exists>c < NCUSTOMERS z. case cust st c of Submit v0 (S_wait i) \<Rightarrow> ordercomplete st ! i = 0 | _ \<Rightarrow> False) \<or>
     (\<exists>b < NBARTENDERS z. case bart st b of Take T_wait \<Rightarrow> ordersready st = 0 | Fill d F_await \<Rightarrow> emptyglasses st = 0 | _ \<Rightarrow> False)"

definition bar_close :: "bar_size \<Rightarrow> bar \<Rightarrow> bar out" where
  "bar_close z st =
     (if waits_sem z st \<or> orderslock st \<noteq> None \<or> bottleslock st \<noteq> None \<or> glassarraylock st \<noteq> None \<or> ndrinkerslock st \<noteq> None
      then Panic else Go st)"

text \<open>\<^verbatim>\<open>createbar\<close>: it starts the bartenders and the customers, waits for each of them and closes the bar.\<close>

definition createbar :: "bool \<Rightarrow> bar_size \<Rightarrow> bar \<Rightarrow> bar out" where
  "createbar ok z st = (case main_at st of
     M_bart i \<Rightarrow> (if NBARTENDERS z \<le> i then Go (st\<lparr>main_at := M_cust 0\<rparr>)
       else if \<not> ok then Panic else Go (bart_at i B_check (st\<lparr>main_at := M_bart (Suc i)\<rparr>)))
   | M_cust i \<Rightarrow> (if NCUSTOMERS z \<le> i then Go (st\<lparr>main_at := M_wait 0\<rparr>)
       else if \<not> ok then Panic else Go (cust_at i (Submit (Round 0) S_lock, st\<lparr>main_at := M_cust (Suc i)\<rparr>)))
   | M_wait i \<Rightarrow> (if NCUSTOMERS z + NBARTENDERS z \<le> i then Go (st\<lparr>main_at := M_close\<rparr>)
       else if alldone st = 0 then Block else Go (st\<lparr>alldone := alldone st - 1, main_at := M_wait (Suc i)\<rparr>))
   | M_close \<Rightarrow> out_map (\<lambda>s. s\<lparr>main_at := M_end\<rparr>) (bar_close z st)
   | M_end \<Rightarrow> Block)"

section \<open>Runs\<close>

text \<open>One step of any thread; \<open>thread_fork\<close> finds memory.\<close>

datatype who = A_cust nat | A_bart nat | A_main

fun turn_of :: "bar_size \<Rightarrow> who \<Rightarrow> bar \<Rightarrow> bar out" where
  "turn_of z (A_cust c) st = (if c < NCUSTOMERS z then customer z c st else Block)"
| "turn_of z (A_bart b) st = (if b < NBARTENDERS z then bartender b st else Block)"
| "turn_of z A_main st = createbar True z st"

inductive bar_reach :: "bar_size \<Rightarrow> bar \<Rightarrow> bool" for z where
  bar_reach_open: "bar_open True z = Some st \<Longrightarrow> bar_reach z st"
| bar_reach_step: "bar_reach z st \<Longrightarrow> turn_of z w st = Go st' \<Longrightarrow> bar_reach z st'"

section \<open>The moves of a thread\<close>

lemma must_simps [simp]: "must None k = Panic" "must (Some x) k = k x"
  by (simp_all add: must_def)

lemma out_map_Go [simp]: "out_map f m = Go y \<longleftrightarrow> (\<exists>x. m = Go x \<and> y = f x)"
  by (cases m) auto

lemma must_Go: "must m k = Go y \<longleftrightarrow> (\<exists>x. m = Some x \<and> k x = Go y)"
  by (cases m) auto

lemma acquire_Go: "acquire t ow k = Go y \<longleftrightarrow> ow = None \<and> y = k"
  by (auto simp: acquire_def)

lemma release_Go: "release t ow k = Go y \<longleftrightarrow> ow = Some t \<and> y = k"
  by (auto simp: release_def)

lemma set_order_Some: "set_order i f st = Some st' \<longleftrightarrow>
    i < length (orders st) \<and> st' = st\<lparr>orders := (orders st)[i := f (orders st ! i)]\<rparr>"
  by (auto simp: set_order_def rd_def wr_def)

lemma set_glass_Some: "set_glass i f st = Some st' \<longleftrightarrow>
    i < length (glasses st) \<and> st' = st\<lparr>glasses := (glasses st)[i := f (glasses st ! i)]\<rparr>"
  by (auto simp: set_glass_def rd_def wr_def)

lemmas go_simps = must_Go acquire_Go release_Go set_order_Some set_glass_Some rd_eq_Some

text \<open>The steps of a customer, with what each needs and what it changes.\<close>

lemma customer_moves:
  assumes "customer z c st = Go st'"
  obtains (s_lock) x where "cust st c = Submit x S_lock" "orderslock st = None"
      "st' = cust_at c (Submit x S_slot, st\<lparr>orderslock := Some (Cust c)\<rparr>)"
  | (s_slot) x i where "cust st c = Submit x S_slot" "orderslock st = Some (Cust c)"
      "i = first_with (\<lambda>d. ostate d = 0) (orders st)" "i < length (orders st)"
      "st' = cust_at c (Submit x (S_ready i), st\<lparr>orders := (orders st)[i := (orders st ! i)\<lparr>ing := drink_of c x, ostate := 1, onumber := i\<rparr>],
         orderslock := None\<rparr>)"
  | (s_lost) x where "cust st c = Submit x S_slot" "orderslock st = Some (Cust c)"
      "first_with (\<lambda>d. ostate d = 0) (orders st) \<ge> length (orders st)"
  | (s_ready) x i where "cust st c = Submit x (S_ready i)"
      "st' = cust_at c (Submit x (S_wait i), st\<lparr>ordersready := Suc (ordersready st)\<rparr>)"
  | (s_wait) x i where "cust st c = Submit x (S_wait i)" "i < length (ordercomplete st)" "ordercomplete st ! i \<noteq> 0"
      "st' = cust_at c (Submit x (S_glass i), st\<lparr>ordercomplete := (ordercomplete st)[i := ordercomplete st ! i - 1]\<rparr>)"
  | (s_glass) x i g where "cust st c = Submit x (S_glass i)" "i < length (orders st)" "oglass (orders st ! i) = Some g"
      "st' = cust_at c (Submit x (S_number i g), st)"
  | (s_number) x i g where "cust st c = Submit x (S_number i g)" "g < length (glasses st)"
      "st' = cust_at c (Submit x (S_lock3 i g), st\<lparr>glasses := (glasses st)[g := (glasses st ! g)\<lparr>gnumber := i\<rparr>]\<rparr>)"
  | (s_lock3) x i g where "cust st c = Submit x (S_lock3 i g)" "orderslock st = None"
      "st' = cust_at c (Submit x (S_set3 i g), st\<lparr>orderslock := Some (Cust c)\<rparr>)"
  | (s_set3) x i g where "cust st c = Submit x (S_set3 i g)" "orderslock st = Some (Cust c)" "i < length (orders st)"
      "st' = cust_at c (after_submit x g, st\<lparr>orders := (orders st)[i := (orders st ! i)\<lparr>ostate := 3\<rparr>], orderslock := None\<rparr>)"
  | (s_out) x g where "cust st c = Submit x (S_out g)"
  | (drink) k g where "cust st c = Drink k g" "g < length (glasses st)"
      "st' = cust_at c (Return (Round k) (R_lock g), st\<lparr>glasses := (glasses st)[g := (glasses st ! g)\<lparr>contents3 := [0, 0, 0]\<rparr>]\<rparr>)"
  | (r_lock) x g where "cust st c = Return x (R_lock g)" "glassarraylock st = None"
      "st' = cust_at c (Return x (R_empty g), st\<lparr>glassarraylock := Some (Cust c)\<rparr>)"
  | (r_empty) x g where "cust st c = Return x (R_empty g)" "glassarraylock st = Some (Cust c)" "g < length (glasses st)"
      "st' = cust_at c (Return x (R_up (gnumber (glasses st ! g))),
         st\<lparr>glasses := (glasses st)[g := (glasses st ! g)\<lparr>gstate := 0\<rparr>], glassarraylock := None\<rparr>)"
  | (r_up) x n where "cust st c = Return x (R_up n)"
      "st' = cust_at c (Return x (R_lock0 n), st\<lparr>emptyglasses := Suc (emptyglasses st)\<rparr>)"
  | (r_lock0) x n where "cust st c = Return x (R_lock0 n)" "orderslock st = None"
      "st' = cust_at c (Return x (R_set0 n), st\<lparr>orderslock := Some (Cust c)\<rparr>)"
  | (r_set0) x n where "cust st c = Return x (R_set0 n)" "orderslock st = Some (Cust c)" "n < length (orders st)"
      "st' = cust_at c (after_return z x, st\<lparr>orders := (orders st)[n := (orders st ! n)\<lparr>ostate := 0\<rparr>], orderslock := None\<rparr>)"
  | (r_out) x where "cust st c = Return x R_out"
  | (h_lock) "cust st c = H_lock" "ndrinkerslock st = None"
      "st' = cust_at c (H_dec, st\<lparr>ndrinkerslock := Some (Cust c)\<rparr>)"
  | (h_dec) "cust st c = H_dec"
      "st' = cust_at c (if int32 (ndrinkers st - 1) = 0 \<and> 0 < NBARTENDERS z then Submit (Home 0) S_lock else H_unlock,
         st\<lparr>ndrinkers := int32 (ndrinkers st - 1)\<rparr>)"
  | (h_unlock) "cust st c = H_unlock" "ndrinkerslock st = Some (Cust c)" "st' = cust_at c (C_end, st\<lparr>ndrinkerslock := None\<rparr>)"
  | (c_end) "cust st c = C_end" "st' = cust_at c (C_gone, st\<lparr>alldone := Suc (alldone st)\<rparr>)"
proof (cases "cust st c")
  case (Submit x s)
  with assms that show thesis
    by (cases s) (auto simp: customer_def go_simps submitted_def Let_def split: if_splits)
next
  case (Return x r)
  with assms that show thesis
    by (cases r) (auto simp: customer_def go_simps returned_def)
qed (use assms that in \<open>auto simp: customer_def crawl_home_def go_simps Let_def\<close>)

text \<open>The steps of a bartender.\<close>

lemma bartender_moves:
  assumes "bartender b st = Go st'"
  obtains (b_check) "bart st b = B_check" "st' = bart_at b (if ndrinkers st \<noteq> 0 then Take T_wait else B_end) st"
  | (t_wait) "bart st b = Take T_wait" "ordersready st \<noteq> 0" "st' = bart_at b (Take T_lock) (st\<lparr>ordersready := ordersready st - 1\<rparr>)"
  | (t_lock) "bart st b = Take T_lock" "orderslock st = None" "st' = bart_at b (Take T_take) (st\<lparr>orderslock := Some (Bart b)\<rparr>)"
  | (t_take) i where "bart st b = Take T_take" "orderslock st = Some (Bart b)"
      "i = first_with (\<lambda>d. ostate d = 1) (orders st)" "i < length (orders st)"
      "st' = bart_at b (Fill i F_await) (st\<lparr>orders := (orders st)[i := (orders st ! i)\<lparr>ostate := 2\<rparr>], orderslock := None\<rparr>)"
  | (t_out) i where "bart st b = Take (T_out i)"
  | (f_wait) d where "bart st b = Fill d F_await" "emptyglasses st \<noteq> 0"
      "st' = bart_at b (Fill d F_lock) (st\<lparr>emptyglasses := emptyglasses st - 1\<rparr>)"
  | (f_lock) d where "bart st b = Fill d F_lock" "glassarraylock st = None"
      "st' = bart_at b (Fill d F_take) (st\<lparr>glassarraylock := Some (Bart b)\<rparr>)"
  | (f_take) d g where "bart st b = Fill d F_take" "glassarraylock st = Some (Bart b)"
      "g = first_with (\<lambda>g. gstate g = 0) (glasses st)" "g < length (glasses st)"
      "st' = bart_at b (Fill d (F_set g)) (st\<lparr>glasses := (glasses st)[g := (glasses st ! g)\<lparr>gstate := 1\<rparr>], glassarraylock := None\<rparr>)"
  | (f_set) d g where "bart st b = Fill d (F_set g)" "d < length (orders st)"
      "st' = bart_at b (Fill d (F_pourlock g)) (st\<lparr>orders := (orders st)[d := (orders st ! d)\<lparr>oglass := Some g\<rparr>]\<rparr>)"
  | (f_pourlock) d g where "bart st b = Fill d (F_pourlock g)" "bottleslock st = None"
      "st' = bart_at b (Fill d (F_pour g)) (st\<lparr>bottleslock := Some (Bart b)\<rparr>)"
  | (f_pour) d g cs bs where "bart st b = Fill d (F_pour g)" "bottleslock st = Some (Bart b)" "d < length (orders st)"
      "g < length (glasses st)" "pour (ing (orders st ! d)) (contents3 (glasses st ! g)) (bottles st) = Some (cs, bs)"
      "st' = bart_at b (Serve d)
        (st\<lparr>glasses := (glasses st)[g := (glasses st ! g)\<lparr>contents3 := cs\<rparr>], bottles := bs, bottleslock := None\<rparr>)"
  | (f_out) d where "bart st b = Fill d F_out"
  | (serve) d n where "bart st b = Serve d" "d < length (orders st)" "n = onumber (orders st ! d)" "n < length (ordercomplete st)"
      "st' = bart_at b B_check (st\<lparr>ordercomplete := (ordercomplete st)[n := Suc (ordercomplete st ! n)]\<rparr>)"
  | (b_end) "bart st b = B_end" "st' = bart_at b B_gone (st\<lparr>alldone := Suc (alldone st)\<rparr>)"
proof (cases "bart st b")
  case (Take s)
  with assms that show thesis
    by (cases s) (auto simp: bartender_def go_simps took_def Let_def split: if_splits)
next
  case (Fill d s)
  with assms that show thesis
    by (cases s) (auto simp: bartender_def go_simps filled_pc_def Let_def split: if_splits prod.splits)
qed (use assms that in \<open>auto simp: bartender_def serve_order_def drinkers_def go_simps\<close>)

section \<open>Counting threads and places\<close>

definition cnt :: "('a \<Rightarrow> bool) \<Rightarrow> nat \<Rightarrow> (nat \<Rightarrow> 'a) \<Rightarrow> int" where
  "cnt p n f = (\<Sum>i<n. of_bool (p (f i)))"

definition cntl :: "('a \<Rightarrow> bool) \<Rightarrow> 'a list \<Rightarrow> int" where
  "cntl p xs = cnt p (length xs) ((!) xs)"

lemma cnt_upd [simp]: "i < n \<Longrightarrow> cnt p n (f(i := x)) = cnt p n f - of_bool (p (f i)) + of_bool (p x)"
proof -
  assume i: "i < n"
  then have fin: "finite {..<n}" "i \<in> {..<n}" by simp_all
  have "(\<Sum>j\<in>{..<n} - {i}. of_bool (p ((f(i := x)) j)) :: int) = (\<Sum>j\<in>{..<n} - {i}. of_bool (p (f j)))" by (rule sum.cong) auto
  then show ?thesis unfolding cnt_def sum.remove [OF fin] by simp
qed

lemma cnt_cong: "(\<And>i. i < n \<Longrightarrow> p (f i) = q (g i)) \<Longrightarrow> cnt p n f = cnt q n g"
  by (simp add: cnt_def)

lemma cntl_upd [simp]: "i < length xs \<Longrightarrow> cntl p (xs[i := x]) = cntl p xs - of_bool (p (xs ! i)) + of_bool (p x)"
proof -
  assume i: "i < length xs"
  have "cntl p (xs[i := x]) = cnt p (length xs) (((!) xs)(i := x))"
    unfolding cntl_def by (simp, rule cnt_cong) (simp add: nth_list_update)
  with i show ?thesis by (simp add: cntl_def)
qed

lemma cnt_card: "cnt p n f = int (card {i. i < n \<and> p (f i)})"
  by (simp add: cnt_def lessThan_def Int_def sum.If_cases of_bool_def conj_commute)

lemma cnt_bounds [simp]: "0 \<le> cnt p n f" "cnt p n f \<le> int n"
  using card_mono [of "{..<n}" "{i. i < n \<and> p (f i)}"] by (auto simp: cnt_card)

lemma cnt_pos: "0 < cnt p n f \<longleftrightarrow> (\<exists>i<n. p (f i))"
  by (auto simp: cnt_card card_gt_0_iff)

lemma cnt_full: "cnt p n f = int n \<longleftrightarrow> (\<forall>i<n. p (f i))"
proof -
  have "cnt p n f = int n \<longleftrightarrow> {i. i < n \<and> p (f i)} = {..<n}"
    using card_subset_eq [of "{..<n}" "{i. i < n \<and> p (f i)}"] unfolding cnt_card of_nat_eq_iff by fastforce
  then show ?thesis by blast
qed

lemma cnt_zero: "cnt p n f = 0 \<longleftrightarrow> (\<forall>i<n. \<not> p (f i))"
  using cnt_pos [of p n f] cnt_bounds(1) [of p n f] by (metis less_le)

lemma first_with_le: "first_with p xs \<le> length xs"
  by (induction xs) auto

lemma first_with_hit: "first_with p xs < length xs \<Longrightarrow> p (xs ! first_with p xs)"
  by (induction xs) (auto split: if_splits)

lemma first_with_finds: "0 < cntl p xs \<Longrightarrow> first_with p xs < length xs"
proof -
  assume "0 < cntl p xs"
  then obtain i where "i < length xs" "p (xs ! i)" by (auto simp: cntl_def cnt_pos)
  then show ?thesis
  proof (induction xs arbitrary: i)
    case (Cons x xs)
    then show ?case by (cases i) auto
  qed simp
qed

section \<open>Who owns what\<close>

text \<open>The slot of the order array a customer has in use, and the glass it holds.\<close>

fun slot :: "bar \<Rightarrow> cust_pc \<Rightarrow> nat option" where
  "slot st (Submit x s) = (case s of S_ready i \<Rightarrow> Some i | S_wait i \<Rightarrow> Some i | S_glass i \<Rightarrow> Some i
     | S_number i g \<Rightarrow> Some i | S_lock3 i g \<Rightarrow> Some i | S_set3 i g \<Rightarrow> Some i | _ \<Rightarrow> None)"
| "slot st (Drink k g) = Some (gnumber (glasses st ! g))"
| "slot st (Return x r) = (case r of R_lock g \<Rightarrow> Some (gnumber (glasses st ! g)) | R_empty g \<Rightarrow> Some (gnumber (glasses st ! g))
     | R_up n \<Rightarrow> Some n | R_lock0 n \<Rightarrow> Some n | R_set0 n \<Rightarrow> Some n | R_out \<Rightarrow> None)"
| "slot st _ = None"

fun waiting :: "cust_pc \<Rightarrow> bool" where
  "waiting (Submit x (S_ready i)) = True"
| "waiting (Submit x (S_wait i)) = True"
| "waiting _ = False"

definition served_glass :: "bar \<Rightarrow> nat \<Rightarrow> nat option" where
  "served_glass st i = (if ordercomplete st ! i \<noteq> 0 then oglass (orders st ! i) else None)"

fun held_c :: "bar \<Rightarrow> cust_pc \<Rightarrow> nat option" where
  "held_c st (Submit x s) = (case s of S_ready i \<Rightarrow> served_glass st i | S_wait i \<Rightarrow> served_glass st i
     | S_glass i \<Rightarrow> oglass (orders st ! i) | S_number i g \<Rightarrow> Some g | S_lock3 i g \<Rightarrow> Some g | S_set3 i g \<Rightarrow> Some g | _ \<Rightarrow> None)"
| "held_c st (Drink k g) = Some g"
| "held_c st (Return x r) = (case r of R_lock g \<Rightarrow> Some g | R_empty g \<Rightarrow> Some g | _ \<Rightarrow> None)"
| "held_c st _ = None"

text \<open>The order a bartender works on, and the glass it holds.\<close>

fun order_b :: "bart_pc \<Rightarrow> nat option" where
  "order_b (Fill d s) = Some d"
| "order_b (Serve d) = Some d"
| "order_b _ = None"

fun held_b :: "bar \<Rightarrow> bart_pc \<Rightarrow> nat option" where
  "held_b st (Fill d s) = (case s of F_set g \<Rightarrow> Some g | F_pourlock g \<Rightarrow> Some g | F_pour g \<Rightarrow> Some g | _ \<Rightarrow> None)"
| "held_b st (Serve d) = oglass (orders st ! d)"
| "held_b st _ = None"

text \<open>A glass in use with the given contents, and what a drink poured into an empty glass is.\<close>

definition has :: "bar \<Rightarrow> nat \<Rightarrow> nat list \<Rightarrow> bool" where
  "has st g cs \<longleftrightarrow> g < length (glasses st) \<and> gstate (glasses st ! g) = 1 \<and> contents3 (glasses st ! g) = cs"

definition poured :: "nat list \<Rightarrow> nat list" where
  "poured xs = take 3 (filter (\<lambda>x. x \<noteq> NOTHING) xs @ [0, 0, 0])"

definition in_slot :: "bar \<Rightarrow> nat \<Rightarrow> nat \<Rightarrow> bool" where
  "in_slot st i s \<longleftrightarrow> i < length (orders st) \<and> ostate (orders st ! i) = s \<and> ordercomplete st ! i = 0"

text \<open>What a thread may rely on at each point.\<close>

fun cust_ok :: "bar \<Rightarrow> nat \<Rightarrow> cust_pc \<Rightarrow> bool" where
  "cust_ok st c (Submit x s) =
     (let cs = poured (drink_of c x);
          w = (\<lambda>i. i < length (orders st) \<and> ostate (orders st ! i) \<in> {1, 2} \<and> ing (orders st ! i) = drink_of c x \<and>
                (ordercomplete st ! i \<noteq> 0 \<longrightarrow> (\<exists>g. oglass (orders st ! i) = Some g \<and> has st g cs)))
      in case s of S_ready i \<Rightarrow> w i | S_wait i \<Rightarrow> w i
       | S_glass i \<Rightarrow> in_slot st i 2 \<and> (\<exists>g. oglass (orders st ! i) = Some g \<and> has st g cs)
       | S_number i g \<Rightarrow> in_slot st i 2 \<and> has st g cs
       | S_lock3 i g \<Rightarrow> in_slot st i 2 \<and> has st g cs \<and> gnumber (glasses st ! g) = i
       | S_set3 i g \<Rightarrow> in_slot st i 2 \<and> has st g cs \<and> gnumber (glasses st ! g) = i
       | S_out g \<Rightarrow> False | _ \<Rightarrow> True)"
| "cust_ok st c (Drink k g) = (has st g (poured (drink_of c (Round k))) \<and> in_slot st (gnumber (glasses st ! g)) 3)"
| "cust_ok st c (Return x r) = (case r of
       R_lock g \<Rightarrow> has st g [0, 0, 0] \<and> in_slot st (gnumber (glasses st ! g)) 3
     | R_empty g \<Rightarrow> has st g [0, 0, 0] \<and> in_slot st (gnumber (glasses st ! g)) 3
     | R_up n \<Rightarrow> in_slot st n 3 | R_lock0 n \<Rightarrow> in_slot st n 3 | R_set0 n \<Rightarrow> in_slot st n 3 | R_out \<Rightarrow> False)"
| "cust_ok st c _ = True"

fun bart_ok :: "bar \<Rightarrow> bart_pc \<Rightarrow> bool" where
  "bart_ok st (Take s) = (case s of T_out i \<Rightarrow> False | _ \<Rightarrow> True)"
| "bart_ok st (Fill d s) = (in_slot st d 2 \<and> (case s of F_set g \<Rightarrow> has st g [0, 0, 0]
     | F_pourlock g \<Rightarrow> has st g [0, 0, 0] \<and> oglass (orders st ! d) = Some g
     | F_pour g \<Rightarrow> has st g [0, 0, 0] \<and> oglass (orders st ! d) = Some g | F_out \<Rightarrow> False | _ \<Rightarrow> True))"
| "bart_ok st (Serve d) = (in_slot st d 2 \<and> (\<exists>g. oglass (orders st ! d) = Some g \<and> has st g (poured (ing (orders st ! d)))))"
| "bart_ok st _ = True"

definition order_ok :: "bar \<Rightarrow> nat \<Rightarrow> bool" where
  "order_ok st i \<longleftrightarrow> ordercomplete st ! i \<le> 1 \<and> (ordercomplete st ! i \<noteq> 0 \<longrightarrow> ostate (orders st ! i) = 2) \<and>
     (ostate (orders st ! i) \<noteq> 0 \<longrightarrow> onumber (orders st ! i) = i \<and> length (ing (orders st ! i)) = 3 \<and>
        (\<forall>x \<in> set (ing (orders st ! i)). x < NBOTTLES))"

definition glass_ok :: "bar \<Rightarrow> nat \<Rightarrow> bool" where
  "glass_ok st g \<longleftrightarrow> (gstate (glasses st ! g) = 0 \<longrightarrow> contents3 (glasses st ! g) = [0, 0, 0])"

fun held :: "bar \<Rightarrow> tid \<Rightarrow> nat option" where
  "held st (Cust c) = held_c st (cust st c)"
| "held st (Bart b) = held_b st (bart st b)"

fun thread_of :: "bar_size \<Rightarrow> tid \<Rightarrow> bool" where
  "thread_of z (Cust c) = (c < NCUSTOMERS z)"
| "thread_of z (Bart b) = (b < NBARTENDERS z)"

definition sizes_ok :: "bar_size \<Rightarrow> bar \<Rightarrow> bool" where
  "sizes_ok z st \<longleftrightarrow> length (orders st) = NCUSTOMERS z \<and> length (ordercomplete st) = NCUSTOMERS z \<and>
     length (glasses st) = NGLASSES z \<and> length (bottles st) = NBOTTLES"

definition own_inv :: "bar_size \<Rightarrow> bar \<Rightarrow> bool" where
  "own_inv z st \<longleftrightarrow> sizes_ok z st \<and>
     (\<forall>c < NCUSTOMERS z. cust_ok st c (cust st c)) \<and> (\<forall>b < NBARTENDERS z. bart_ok st (bart st b)) \<and>
     (\<forall>i < NCUSTOMERS z. order_ok st i) \<and> (\<forall>g < NGLASSES z. glass_ok st g) \<and>
     (\<forall>c < NCUSTOMERS z. \<forall>c' < NCUSTOMERS z. \<forall>i. slot st (cust st c) = Some i \<longrightarrow> slot st (cust st c') = Some i \<longrightarrow> c = c') \<and>
     (\<forall>b < NBARTENDERS z. \<forall>b' < NBARTENDERS z. \<forall>i. order_b (bart st b) = Some i \<longrightarrow> order_b (bart st b') = Some i \<longrightarrow> b = b') \<and>
     (\<forall>c < NCUSTOMERS z. \<forall>b < NBARTENDERS z. \<forall>i. slot st (cust st c) = Some i \<longrightarrow> order_b (bart st b) = Some i \<longrightarrow> waiting (cust st c)) \<and>
     (\<forall>t t' g. thread_of z t \<longrightarrow> thread_of z t' \<longrightarrow> held st t = Some g \<longrightarrow> held st t' = Some g \<longrightarrow> t = t')"

section \<open>One thread's step and the others\<close>

text \<open>Two states that differ, as far as orders and glasses go, at most in the slots \<open>I\<close> and the glasses \<open>G\<close>.\<close>

definition agree :: "nat set \<Rightarrow> nat set \<Rightarrow> bar \<Rightarrow> bar \<Rightarrow> bool" where
  "agree I G st st' \<longleftrightarrow> length (orders st') = length (orders st) \<and> length (ordercomplete st') = length (ordercomplete st) \<and>
     length (glasses st') = length (glasses st) \<and> length (bottles st') = length (bottles st) \<and>
     (\<forall>i. i \<notin> I \<longrightarrow> orders st' ! i = orders st ! i \<and> ordercomplete st' ! i = ordercomplete st ! i) \<and>
     (\<forall>g. g \<notin> G \<longrightarrow> glasses st' ! g = glasses st ! g)"

lemma agreeD:
  assumes "agree I G st st'"
  shows "length (orders st') = length (orders st)" "length (glasses st') = length (glasses st)"
    "i \<notin> I \<Longrightarrow> orders st' ! i = orders st ! i" "i \<notin> I \<Longrightarrow> ordercomplete st' ! i = ordercomplete st ! i"
    "g \<notin> G \<Longrightarrow> glasses st' ! g = glasses st ! g"
  using assms by (simp_all add: agree_def)

lemma agree_sizes: "agree I G st st' \<Longrightarrow> sizes_ok z st' = sizes_ok z st"
  by (simp add: agree_def sizes_ok_def)

lemma has_agree: "agree I G st st' \<Longrightarrow> g \<notin> G \<Longrightarrow> has st' g cs = has st g cs"
  by (simp add: has_def agreeD)

lemma in_slot_agree: "agree I G st st' \<Longrightarrow> i \<notin> I \<Longrightarrow> in_slot st' i s = in_slot st i s"
  by (simp add: in_slot_def agreeD)

lemma order_ok_agree: "agree I G st st' \<Longrightarrow> i \<notin> I \<Longrightarrow> order_ok st' i = order_ok st i"
  by (simp add: order_ok_def agreeD)

lemma glass_ok_agree: "agree I G st st' \<Longrightarrow> g \<notin> G \<Longrightarrow> glass_ok st' g = glass_ok st g"
  by (simp add: glass_ok_def agreeD)

lemmas agree_simps = agreeD has_agree in_slot_agree served_glass_def

lemma slot_agree:
  assumes "agree I G st st'" and "\<And>g. held_c st p = Some g \<Longrightarrow> g \<notin> G"
  shows "slot st' p = slot st p"
proof (cases p)
  case (Return x r)
  with assms show ?thesis by (cases r) (simp_all add: agreeD)
qed (use assms in \<open>simp_all add: agreeD\<close>)

text \<open>A thread whose slot and glass are not touched relies on what it relied on before.\<close>

lemma cust_frame:
  assumes a: "agree I G st st'" and ok: "cust_ok st c p"
    and s: "\<And>i. slot st p = Some i \<Longrightarrow> i \<notin> I" and h: "\<And>g. held_c st p = Some g \<Longrightarrow> g \<notin> G"
  shows "cust_ok st' c p" "slot st' p = slot st p" "held_c st' p = held_c st p"
proof -
  show "slot st' p = slot st p" using slot_agree [OF a h] .
  show "held_c st' p = held_c st p" using assms by (cases p) (auto simp: agree_simps split: submit_pc.splits return_pc.splits)
  show "cust_ok st' c p" 
    using assms by (cases p) (auto simp: agree_simps Let_def split: submit_pc.splits return_pc.splits)
qed

lemma bart_frame:
  assumes a: "agree I G st st'" and ok: "bart_ok st p"
    and s: "\<And>i. order_b p = Some i \<Longrightarrow> i \<notin> I" and h: "\<And>g. held_b st p = Some g \<Longrightarrow> g \<notin> G"
  shows "bart_ok st' p" "held_b st' p = held_b st p"
  using assms by (cases p; auto simp: agree_simps split: fill_pc.splits)+

text \<open>What is owned is in use.\<close>

lemma slot_used: "cust_ok st c p \<Longrightarrow> slot st p = Some i \<Longrightarrow> i < length (orders st) \<and> ostate (orders st ! i) \<noteq> 0"
  by (cases p) (auto simp: in_slot_def Let_def split: submit_pc.splits return_pc.splits)

lemma held_c_used: "cust_ok st c p \<Longrightarrow> held_c st p = Some g \<Longrightarrow> g < length (glasses st) \<and> gstate (glasses st ! g) = 1"
  by (cases p) (auto simp: has_def served_glass_def Let_def split: submit_pc.splits return_pc.splits if_splits)

lemma held_b_used: "bart_ok st p \<Longrightarrow> held_b st p = Some g \<Longrightarrow> g < length (glasses st) \<and> gstate (glasses st ! g) = 1"
  by (cases p) (auto simp: has_def split: fill_pc.splits)

lemma order_b_used: "bart_ok st p \<Longrightarrow> order_b p = Some i \<Longrightarrow> in_slot st i 2"
  by (cases p) auto

lemma own_invD:
  assumes "own_inv z st"
  shows "sizes_ok z st" "c < NCUSTOMERS z \<Longrightarrow> cust_ok st c (cust st c)" "b < NBARTENDERS z \<Longrightarrow> bart_ok st (bart st b)"
    "i < NCUSTOMERS z \<Longrightarrow> order_ok st i" "g < NGLASSES z \<Longrightarrow> glass_ok st g"
    "c < NCUSTOMERS z \<Longrightarrow> c' < NCUSTOMERS z \<Longrightarrow> slot st (cust st c) = Some i \<Longrightarrow> slot st (cust st c') = Some i \<Longrightarrow> c = c'"
    "b < NBARTENDERS z \<Longrightarrow> b' < NBARTENDERS z \<Longrightarrow> order_b (bart st b) = Some i \<Longrightarrow> order_b (bart st b') = Some i \<Longrightarrow> b = b'"
    "c < NCUSTOMERS z \<Longrightarrow> b < NBARTENDERS z \<Longrightarrow> slot st (cust st c) = Some i \<Longrightarrow> order_b (bart st b) = Some i \<Longrightarrow> waiting (cust st c)"
    "thread_of z t \<Longrightarrow> thread_of z t' \<Longrightarrow> held st t = Some g \<Longrightarrow> held st t' = Some g \<Longrightarrow> t = t'"
  using assms unfolding own_inv_def by blast+

text \<open>
  A step of a customer: it changes only its own slot or a free one, and its own glass.
\<close>

lemma own_cust:
  assumes inv: "own_inv z st" and c: "c < NCUSTOMERS z" and a: "agree I G st st'"
    and pcs: "cust st' = (cust st)(c := p)" "bart st' = bart st"
    and I: "\<And>i. i \<in> I \<Longrightarrow> slot st (cust st c) = Some i \<or> ostate (orders st ! i) = 0"
      "\<And>i b. i \<in> I \<Longrightarrow> b < NBARTENDERS z \<Longrightarrow> order_b (bart st b) \<noteq> Some i" "\<And>i. i \<in> I \<Longrightarrow> order_ok st' i"
    and G: "\<And>g. g \<in> G \<Longrightarrow> held_c st (cust st c) = Some g \<and> glass_ok st' g"
    and ok: "cust_ok st' c p"
    and s: "\<And>i. slot st' p = Some i \<Longrightarrow> i \<in> I \<or> slot st (cust st c) = Some i \<and> (waiting (cust st c) \<longrightarrow> waiting p)"
    and h: "\<And>g. held_c st' p = Some g \<Longrightarrow> held_c st (cust st c) = Some g"
  shows "own_inv z st'"
proof -
  have sep: "g \<notin> G" if "thread_of z t" "t \<noteq> Cust c" "held st t = Some g" for t g
    using own_invD(9) [OF inv that(1), of "Cust c" g] that c G by auto
  have oth: "slot st (cust st x) = Some i \<Longrightarrow> i \<notin> I" if "x < NCUSTOMERS z" "x \<noteq> c" for x i
    using I(1) [of i] own_invD(6) [OF inv that(1) c, of i] slot_used [OF own_invD(2) [OF inv that(1)], of i] that by blast
  have C: "cust_ok st' x (cust st x)" "slot st' (cust st x) = slot st (cust st x)" "held_c st' (cust st x) = held_c st (cust st x)"
    if "x < NCUSTOMERS z" "x \<noteq> c" for x
    using cust_frame [OF a own_invD(2) [OF inv that(1)]] oth [OF that] sep [of "Cust x"] that by auto
  have B: "bart_ok st' (bart st b)" "held_b st' (bart st b) = held_b st (bart st b)" if "b < NBARTENDERS z" for b
    using bart_frame [OF a own_invD(3) [OF inv that]] I(2) [OF _ that] sep [of "Bart b"] that by auto
  have H: "held st' t = held st t" if "thread_of z t" "t \<noteq> Cust c" for t
    using that C(3) B(2) pcs by (cases t) auto
  have sl: "x = c \<and> (i \<in> I \<or> slot st (cust st c) = Some i) \<or> x \<noteq> c \<and> slot st (cust st x) = Some i \<and> i \<notin> I"
    if "x < NCUSTOMERS z" "slot st' (cust st' x) = Some i" for x i
    using that C(2) [of x] s [of i] oth [of x i] pcs by (cases "x = c") auto
  have Hc: "held st' (Cust c) = Some g \<Longrightarrow> held st (Cust c) = Some g" for g using h pcs by simp
  show ?thesis unfolding own_inv_def
  proof (intro conjI allI impI)
    show "sizes_ok z st'" using own_invD(1) [OF inv] agree_sizes [OF a] by simp
    show "cust_ok st' x (cust st' x)" if "x < NCUSTOMERS z" for x using C(1) [OF that] ok pcs by simp
    show "bart_ok st' (bart st' b)" if "b < NBARTENDERS z" for b using B(1) [OF that] pcs by simp
    show "order_ok st' i" if "i < NCUSTOMERS z" for i
      using I(3) [of i] order_ok_agree [OF a, of i] own_invD(4) [OF inv that] by blast
    show "glass_ok st' g" if "g < NGLASSES z" for g
      using G [of g] glass_ok_agree [OF a, of g] own_invD(5) [OF inv that] by blast
    show "x = y" if x: "x < NCUSTOMERS z" "y < NCUSTOMERS z" "slot st' (cust st' x) = Some i" "slot st' (cust st' y) = Some i" for x y i
      using own_invD(6) [OF inv x(1,2), of i] sl [OF x(1,3)] sl [OF x(2,4)] by blast
    show "b = b'" if "b < NBARTENDERS z" "b' < NBARTENDERS z" "order_b (bart st' b) = Some i" "order_b (bart st' b') = Some i" for b b' i
      using own_invD(7) [OF inv that(1,2)] that pcs by simp
    show "waiting (cust st' x)" if x: "x < NCUSTOMERS z" "b < NBARTENDERS z" "slot st' (cust st' x) = Some i" "order_b (bart st' b) = Some i"
      for x b i
      using own_invD(8) [OF inv x(1,2), of i] sl [OF x(1,3)] x s [of i] I(2) [of i b] pcs by auto
    show "t = t'" if t: "thread_of z t" "thread_of z t'" "held st' t = Some g" "held st' t' = Some g" for t t' g
      using own_invD(9) [OF inv t(1,2), of g] H [OF t(1)] H [OF t(2)] Hc t by metis
  qed
qed

text \<open>
  A step of a bartender before it serves: it changes its own order or one that waits, and its own glass or an empty one.
\<close>

lemma own_bart:
  assumes inv: "own_inv z st" and b: "b < NBARTENDERS z" and a: "agree I G st st'"
    and pcs: "bart st' = (bart st)(b := p)" "cust st' = cust st"
    and I: "\<And>i. i \<in> I \<Longrightarrow> i < NCUSTOMERS z \<and> (order_b (bart st b) = Some i \<or> ostate (orders st ! i) = 1)"
      "\<And>i. i \<in> I \<Longrightarrow> ostate (orders st' ! i) = 2 \<and> ordercomplete st' ! i = 0 \<and> ordercomplete st ! i = 0 \<and>
        ing (orders st' ! i) = ing (orders st ! i) \<and> onumber (orders st' ! i) = onumber (orders st ! i)"
    and G: "\<And>g. g \<in> G \<Longrightarrow> (held_b st (bart st b) = Some g \<or> gstate (glasses st ! g) = 0) \<and> glass_ok st' g"
    and ok: "bart_ok st' p"
    and s: "\<And>i. order_b p = Some i \<Longrightarrow> i \<in> I \<or> order_b (bart st b) = Some i"
    and h: "\<And>g. held_b st' p = Some g \<Longrightarrow> g \<in> G \<or> held_b st (bart st b) = Some g"
  shows "own_inv z st'"
proof -
  have sz: "length (orders st) = NCUSTOMERS z" using own_invD(1) [OF inv] by (simp add: sizes_ok_def)
  have used: "gstate (glasses st ! g) = 1" if "thread_of z t" "held st t = Some g" for t g
    using that own_invD(2,3) [OF inv] held_c_used held_b_used by (cases t) fastforce+
  have sep: "g \<notin> G" if "thread_of z t" "t \<noteq> Bart b" "held st t = Some g" for t g
    using own_invD(9) [OF inv that(1), of "Bart b" g] that b G [of g] used [OF that(1,3)] by auto
  have wt: "waiting (cust st x)" if x: "x < NCUSTOMERS z" "slot st (cust st x) = Some i" "i \<in> I" for x i
    using own_invD(8) [OF inv x(1) b x(2)] own_invD(2) [OF inv x(1)] I(1) [OF x(3)] x(2)
    by (cases "cust st x") (auto simp: in_slot_def Let_def split: submit_pc.splits return_pc.splits)
  have C: "cust_ok st' x (cust st x) \<and> slot st' (cust st x) = slot st (cust st x) \<and> held_c st' (cust st x) = held_c st (cust st x)"
    if x: "x < NCUSTOMERS z" for x
  proof (cases "\<exists>i \<in> I. slot st (cust st x) = Some i")
    case True
    then obtain i where i: "i \<in> I" "slot st (cust st x) = Some i" by blast
    with wt [OF x i(2,1)] I(2) [OF i(1)] own_invD(2) [OF inv x] agreeD(1) [OF a] show ?thesis
      by (cases "cust st x" rule: waiting.cases) (auto simp: served_glass_def Let_def)
  next
    case False
    then show ?thesis using cust_frame [OF a own_invD(2) [OF inv x]] sep [of "Cust x"] x by auto
  qed
  have oth: "order_b (bart st x) = Some i \<Longrightarrow> i \<notin> I" if "x < NBARTENDERS z" "x \<noteq> b" for x i
    using I(1) [of i] own_invD(7) [OF inv that(1) b, of i] order_b_used [OF own_invD(3) [OF inv that(1)], of i] that
    by (auto simp: in_slot_def)
  have B: "bart_ok st' (bart st x)" "held_b st' (bart st x) = held_b st (bart st x)" if "x < NBARTENDERS z" "x \<noteq> b" for x
    using bart_frame [OF a own_invD(3) [OF inv that(1)]] oth [OF that] sep [of "Bart x"] that by auto
  have H: "held st' t = held st t" if "thread_of z t" "t \<noteq> Bart b" for t
    using that C B(2) pcs by (cases t) auto
  have Hc: "held st' (Bart b) = Some g \<Longrightarrow> g \<in> G \<or> held st (Bart b) = Some g" for g using h pcs by simp
  show ?thesis unfolding own_inv_def
  proof (intro conjI allI impI)
    show "sizes_ok z st'" using own_invD(1) [OF inv] agree_sizes [OF a] by simp
    show "cust_ok st' x (cust st' x)" if "x < NCUSTOMERS z" for x using C [OF that] pcs by simp
    show "bart_ok st' (bart st' x)" if "x < NBARTENDERS z" for x using B(1) [OF that] ok pcs by simp
    show "order_ok st' i" if "i < NCUSTOMERS z" for i
      using I [of i] order_ok_agree [OF a, of i] own_invD(3) [OF inv b] order_b_used [of st "bart st b" i] own_invD(4) [OF inv that]
      by (cases "i \<in> I") (auto simp: order_ok_def in_slot_def)
    show "glass_ok st' g" if "g < NGLASSES z" for g
      using G [of g] glass_ok_agree [OF a, of g] own_invD(5) [OF inv that] by blast
    show "x = y" if x: "x < NCUSTOMERS z" "y < NCUSTOMERS z" "slot st' (cust st' x) = Some i" "slot st' (cust st' y) = Some i" for x y i
      using own_invD(6) [OF inv x(1,2), of i] C [OF x(1)] C [OF x(2)] x pcs by simp
    show "x = y" if x: "x < NBARTENDERS z" "y < NBARTENDERS z" "order_b (bart st' x) = Some i" "order_b (bart st' y) = Some i" for x y i
      using own_invD(7) [OF inv x(1,2), of i] x s [of i] oth [of x i] oth [of y i] pcs by (auto split: if_splits)
    show "waiting (cust st' x)" if x: "x < NCUSTOMERS z" "y < NBARTENDERS z" "slot st' (cust st' x) = Some i" "order_b (bart st' y) = Some i"
      for x y i
      using own_invD(8) [OF inv x(1,2), of i] own_invD(8) [OF inv x(1) b, of i] C [OF x(1)] x s [of i] wt [OF x(1), of i] pcs
      by (auto split: if_splits)
    show "t = t'" if t: "thread_of z t" "thread_of z t'" "held st' t = Some g" "held st' t' = Some g" for t t' g
      using own_invD(9) [OF inv t(1,2), of g] H [OF t(1)] H [OF t(2)] Hc [of g] sep [OF t(1)] sep [OF t(2)] t by metis
  qed
qed

text \<open>Serving hands the bartender's glass to the customer that waits for the order.\<close>

lemma own_serve:
  assumes inv: "own_inv z st" and b: "b < NBARTENDERS z" and p: "bart st b = Serve d"
    and st': "st' = bart_at b B_check (st\<lparr>ordercomplete := (ordercomplete st)[d := Suc (ordercomplete st ! d)]\<rparr>)"
  shows "own_inv z st'"
proof -
  have sz: "length (orders st) = NCUSTOMERS z" "length (ordercomplete st) = NCUSTOMERS z"
    using own_invD(1) [OF inv] by (simp_all add: sizes_ok_def)
  obtain g where g: "in_slot st d 2" "oglass (orders st ! d) = Some g" "has st g (poured (ing (orders st ! d)))"
    using own_invD(3) [OF inv b] p by auto
  then have d: "d < NCUSTOMERS z" "ordercomplete st ! d = 0" "ostate (orders st ! d) = 2" using sz by (simp_all add: in_slot_def)
  have a: "agree {d} {} st st'" by (simp add: agree_def st' bart_at_def)
  have d': "ordercomplete st' ! d = 1" "orders st' = orders st" "glasses st' = glasses st" "cust st' = cust st"
      "bart st' = (bart st)(b := B_check)"
    using d sz by (simp_all add: st' bart_at_def)
  have hb: "held st (Bart b) = Some g" using p g by simp
  have C: "cust_ok st' x (cust st x) \<and> slot st' (cust st x) = slot st (cust st x) \<and>
      (held_c st' (cust st x) = held_c st (cust st x) \<or> slot st (cust st x) = Some d \<and> held_c st' (cust st x) = Some g)"
    if x: "x < NCUSTOMERS z" for x
  proof (cases "slot st (cust st x) = Some d")
    case True
    then have "waiting (cust st x)" using own_invD(8) [OF inv x b] p by simp
    with True own_invD(2) [OF inv x] g d d' show ?thesis
      by (cases "cust st x" rule: waiting.cases) (auto simp: served_glass_def has_def Let_def)
  next
    case False
    then show ?thesis using cust_frame [OF a own_invD(2) [OF inv x]] by auto
  qed
  have B: "bart_ok st' (bart st x) \<and> held_b st' (bart st x) = held_b st (bart st x) \<and> order_b (bart st x) \<noteq> Some d"
    if "x < NBARTENDERS z" "x \<noteq> b" for x
    using bart_frame [OF a own_invD(3) [OF inv that(1)]] own_invD(7) [OF inv that(1) b, of d] that p by auto
  have H: "held st t = Some h \<and> t \<noteq> Bart b \<or> h = g \<and> (\<exists>x < NCUSTOMERS z. t = Cust x \<and> slot st (cust st x) = Some d)"
    if t: "thread_of z t" "held st' t = Some h" for t h
  proof (cases t)
    case (Cust x) with t C [of x] d' show ?thesis by auto
  next
    case (Bart x) with t B [of x] d' show ?thesis by (cases "x = b") auto
  qed
  show ?thesis unfolding own_inv_def
  proof (intro conjI allI impI)
    show "sizes_ok z st'" using own_invD(1) [OF inv] agree_sizes [OF a] by simp
    show "cust_ok st' x (cust st' x)" if "x < NCUSTOMERS z" for x using C [OF that] d' by simp
    show "bart_ok st' (bart st' x)" if "x < NBARTENDERS z" for x using B [OF that] d' by simp
    show "order_ok st' i" if "i < NCUSTOMERS z" for i
      using order_ok_agree [OF a, of i] own_invD(4) [OF inv that] d d' by (cases "i = d") (auto simp: order_ok_def)
    show "glass_ok st' h" if "h < NGLASSES z" for h using glass_ok_agree [OF a, of h] own_invD(5) [OF inv that] by simp
    show "x = y" if x: "x < NCUSTOMERS z" "y < NCUSTOMERS z" "slot st' (cust st' x) = Some i" "slot st' (cust st' y) = Some i" for x y i
      using own_invD(6) [OF inv x(1,2), of i] C [OF x(1)] C [OF x(2)] x d' by simp
    show "x = y" if x: "x < NBARTENDERS z" "y < NBARTENDERS z" "order_b (bart st' x) = Some i" "order_b (bart st' y) = Some i" for x y i
      using own_invD(7) [OF inv x(1,2), of i] x d' by (auto split: if_splits)
    show "waiting (cust st' x)" if x: "x < NCUSTOMERS z" "y < NBARTENDERS z" "slot st' (cust st' x) = Some i" "order_b (bart st' y) = Some i"
      for x y i
      using own_invD(8) [OF inv x(1,2), of i] C [OF x(1)] x d' by (auto split: if_splits)
    show "t = t'" if t: "thread_of z t" "thread_of z t'" "held st' t = Some h" "held st' t' = Some h" for t t' h
      using H [OF t(1,3)] H [OF t(2,4)] own_invD(9) [OF inv t(1,2), of h] own_invD(9) [OF inv t(1), of "Bart b" h]
        own_invD(9) [OF inv t(2), of "Bart b" h] own_invD(6) [OF inv] hb b by auto
  qed
qed

lemma poured_drink [simp]: "poured [0, 0, 0] = [0, 0, 0]" "length (drink_of c x) = 3" "\<forall>y \<in> set (drink_of c x). y < NBOTTLES"
  "poured (drink_of c (Round k)) = drink_of c (Round k)"
  by (cases x; simp add: poured_def NOTHING_def KAHLUA_def BAILEYS_def GRAND_MARNIER_def NBOTTLES_def)+

lemma agree_upd [simp]:
  "agree {i} {} st (st\<lparr>orders := (orders st)[i := d]\<rparr>)" "agree {i} {} st (st\<lparr>ordercomplete := (ordercomplete st)[i := n]\<rparr>)"
  "agree {} {g} st (st\<lparr>glasses := (glasses st)[g := gl]\<rparr>)"
  by (simp_all add: agree_def)

lemma own_quiet_cust:
  assumes inv: "own_inv z st" and c: "c < NCUSTOMERS z" and "cust st' = (cust st)(c := p)" "bart st' = bart st"
    and e: "orders st' = orders st" "glasses st' = glasses st" "ordercomplete st' = ordercomplete st" "bottles st' = bottles st"
    and p: "cust_ok st c (cust st c) \<Longrightarrow> cust_ok st c p" "slot st p = slot st (cust st c)" "held_c st p = held_c st (cust st c)"
      "waiting (cust st c) \<longrightarrow> waiting p"
  shows "own_inv z st'"
proof (rule own_cust [OF inv c, where I = "{}" and G = "{}" and p = p])
  show a: "agree {} {} st st'" using e by (simp add: agree_def)
  have "cust_ok st c p" using p(1) own_invD(2) [OF inv c] .
  from cust_frame [OF a this] p show "cust_ok st' c p"
    "slot st' p = Some i \<Longrightarrow> i \<in> {} \<or> slot st (cust st c) = Some i \<and> (waiting (cust st c) \<longrightarrow> waiting p)"
    "held_c st' p = Some g \<Longrightarrow> held_c st (cust st c) = Some g" for i g by auto
qed (use assms in simp_all)

lemma after_return_free [simp]: "slot st (after_return z x) = None" "held_c st (after_return z x) = None" "cust_ok st c (after_return z x)"
  by (cases x; simp)+

lemma own_customer:
  assumes inv: "own_inv z st" and c: "c < NCUSTOMERS z" and go: "customer z c st = Go st'"
    and free: "\<And>x. cust st c = Submit x S_slot \<Longrightarrow> first_with (\<lambda>d. ostate d = 0) (orders st) < length (orders st)"
  shows "own_inv z st'"
proof -
  have sz: "length (orders st) = NCUSTOMERS z" "length (ordercomplete st) = NCUSTOMERS z" "length (glasses st) = NGLASSES z"
    using own_invD(1) [OF inv] by (simp_all add: sizes_ok_def)
  note me = own_invD(2) [OF inv c]
  have nob: "order_b (bart st b) \<noteq> Some i" if "b < NBARTENDERS z" "slot st (cust st c) = Some i" "\<not> waiting (cust st c)" for b i
    using own_invD(8) [OF inv c that(1)] that by blast
  from go show ?thesis
  proof (cases rule: customer_moves)
    case (s_slot x i)
    have o: "ostate (orders st ! i) = 0" using s_slot first_with_hit [of "\<lambda>d. ostate d = 0" "orders st"] by simp
    then have cm: "ordercomplete st ! i = 0" using own_invD(4) [OF inv, of i] s_slot sz by (auto simp: order_ok_def)
    show ?thesis
      using s_slot(1,4,5) sz o cm order_b_used [OF own_invD(3) [OF inv]]
      by (intro own_cust [OF inv c, where I = "{i}" and G = "{}" and p = "Submit x (S_ready i)"])
        (auto simp: cust_at_def agree_def order_ok_def served_glass_def Let_def in_slot_def)
  next
    case (s_wait x i)
    have cm: "ordercomplete st ! i = 1" "ostate (orders st ! i) = 2" using own_invD(4) [OF inv, of i] s_wait sz by (auto simp: order_ok_def)
    with s_wait sz me own_invD(4) [OF inv, of i] order_b_used [OF own_invD(3) [OF inv]] show ?thesis
      by (intro own_cust [OF inv c, where I = "{i}" and G = "{}" and p = "Submit x (S_glass i)"])
        (auto simp: cust_at_def agree_def order_ok_def served_glass_def Let_def in_slot_def has_def)
  next
    case (s_number x i g)
    with sz me own_invD(5) [OF inv, of g] show ?thesis
      by (intro own_cust [OF inv c, where I = "{}" and G = "{g}" and p = "Submit x (S_lock3 i g)"])
        (auto simp: cust_at_def agree_def glass_ok_def Let_def in_slot_def has_def)
  next
    case (s_set3 x i g)
    with sz me nob [of _ i] own_invD(4) [OF inv, of i] show ?thesis
      by (intro own_cust [OF inv c, where I = "{i}" and G = "{}" and p = "after_submit x g"]; cases x)
        (auto simp: cust_at_def agree_def order_ok_def Let_def in_slot_def has_def)
  next
    case (drink k g)
    with sz me own_invD(5) [OF inv, of g] show ?thesis
      by (intro own_cust [OF inv c, where I = "{}" and G = "{g}" and p = "Return (Round k) (R_lock g)"])
        (auto simp: cust_at_def agree_def glass_ok_def in_slot_def has_def)
  next
    case (r_empty x g)
    with sz me own_invD(5) [OF inv, of g] show ?thesis
      by (intro own_cust [OF inv c, where I = "{}" and G = "{g}" and p = "Return x (R_up (gnumber (glasses st ! g)))"])
        (auto simp: cust_at_def agree_def glass_ok_def in_slot_def has_def)
  next
    case (r_set0 x n)
    with sz me nob [of _ n] own_invD(4) [OF inv, of n] show ?thesis
      by (intro own_cust [OF inv c, where I = "{n}" and G = "{}" and p = "after_return z x"])
        (auto simp: cust_at_def agree_def order_ok_def in_slot_def)
  next
    case (s_lost x) with free show ?thesis by simp
  qed (use me in \<open>auto intro!: own_quiet_cust [OF inv c] simp: cust_at_def Let_def in_slot_def has_def\<close>)
qed

text \<open>\<^verbatim>\<open>pour\<close> into an empty glass.\<close>

lemma pour_spec:
  assumes "length xs = 3" and "\<forall>x \<in> set xs. x < length bs"
  shows "\<exists>bs'. pour xs [0, 0, 0] bs = Some (poured xs, bs') \<and> length bs' = length bs"
proof -
  obtain x1 x2 x3 where xs: "xs = [x1, x2, x3]" using assms(1) by (auto simp: length_Suc_conv numeral_3_eq_3)
  then have b: "x1 < length bs" "x2 < length bs" "x3 < length bs" using assms by simp_all
  then show ?thesis
    by (cases "x1 = NOTHING"; cases "x2 = NOTHING"; cases "x3 = NOTHING")
      (simp_all add: pour_def pour_one_def poured_def xs numeral_3_eq_3 numeral_2_eq_2)
qed

lemma own_quiet_bart:
  assumes inv: "own_inv z st" and b: "b < NBARTENDERS z" and "bart st' = (bart st)(b := p)" "cust st' = cust st"
    and e: "orders st' = orders st" "glasses st' = glasses st" "ordercomplete st' = ordercomplete st" "bottles st' = bottles st"
    and p: "bart_ok st (bart st b) \<Longrightarrow> bart_ok st p" "order_b p = order_b (bart st b)" "held_b st p = held_b st (bart st b)"
  shows "own_inv z st'"
proof (rule own_bart [OF inv b, where I = "{}" and G = "{}" and p = p])
  show a: "agree {} {} st st'" using e by (simp add: agree_def)
  have "bart_ok st p" using p(1) own_invD(3) [OF inv b] .
  from bart_frame [OF a this] p show "bart_ok st' p" "held_b st' p = Some g \<Longrightarrow> g \<in> {} \<or> held_b st (bart st b) = Some g" for g by auto
qed (use assms in simp_all)

lemma own_bartender:
  assumes inv: "own_inv z st" and b: "b < NBARTENDERS z" and go: "bartender b st = Go st'"
  shows "own_inv z st'"
proof -
  have sz: "length (orders st) = NCUSTOMERS z" "length (ordercomplete st) = NCUSTOMERS z" "length (glasses st) = NGLASSES z"
      "length (bottles st) = NBOTTLES"
    using own_invD(1) [OF inv] by (simp_all add: sizes_ok_def)
  note me = own_invD(3) [OF inv b]
  from go show ?thesis
  proof (cases rule: bartender_moves)
    case (t_take i)
    have o: "ostate (orders st ! i) = 1" using t_take first_with_hit [of "\<lambda>d. ostate d = 1" "orders st"] by simp
    then have "ordercomplete st ! i = 0" using own_invD(4) [OF inv, of i] t_take sz by (auto simp: order_ok_def)
    with t_take(1,4,5) sz o show ?thesis
      by (intro own_bart [OF inv b, where I = "{i}" and G = "{}" and p = "Fill i F_await"])
        (auto simp: bart_at_def agree_def in_slot_def)
  next
    case (f_take d g)
    have g: "gstate (glasses st ! g) = 0" using f_take first_with_hit [of "\<lambda>d. gstate d = 0" "glasses st"] by simp
    then have "contents3 (glasses st ! g) = [0, 0, 0]" using own_invD(5) [OF inv, of g] f_take sz by (auto simp: glass_ok_def)
    with f_take(1,4,5) me sz g show ?thesis
      by (intro own_bart [OF inv b, where I = "{}" and G = "{g}" and p = "Fill d (F_set g)"])
        (auto simp: bart_at_def agree_def in_slot_def has_def glass_ok_def)
  next
    case (f_set d g)
    with me sz show ?thesis
      by (intro own_bart [OF inv b, where I = "{d}" and G = "{}" and p = "Fill d (F_pourlock g)"])
        (auto simp: bart_at_def agree_def in_slot_def has_def)
  next
    case (f_pour d g cs bs)
    have h: "contents3 (glasses st ! g) = [0, 0, 0]" using me f_pour by (simp add: has_def)
    have "ostate (orders st ! d) = 2" using me f_pour by (simp add: in_slot_def)
    then have "cs = poured (ing (orders st ! d))" "length bs = NBOTTLES"
      using pour_spec [of "ing (orders st ! d)" "bottles st"] own_invD(4) [OF inv, of d] f_pour sz h by (auto simp: order_ok_def)
    with f_pour(1,3,4,6) me sz show ?thesis
      by (intro own_bart [OF inv b, where I = "{}" and G = "{g}" and p = "Serve d"])
        (auto simp: bart_at_def agree_def in_slot_def has_def glass_ok_def)
  next
    case (serve d n)
    have "n = d" using serve me own_invD(4) [OF inv, of d] sz by (auto simp: order_ok_def in_slot_def)
    with serve show ?thesis by (intro own_serve [OF inv b]) simp_all
  qed (use me in \<open>auto intro!: own_quiet_bart [OF inv b] simp: bart_at_def\<close>)
qed

end
