(* ===== verification/Bar_inv.thy ===== *)
theory Bar_inv
  imports Bar
begin

text \<open>
  The invariant of the bar. \<^verbatim>\<open>Bar\<close> shows that every step keeps the ownership of slots and glasses; here are the counts of the
  semaphores, the owners of the locks, the customers left and the threads that have ended. From them follow that no
  step panics, and what the threads wait for when none of them can go on.
\<close>

section \<open>The semaphores\<close>

fun at_take :: "bart_pc \<Rightarrow> bool" where
  "at_take (Take s) = (s = T_lock \<or> s = T_take)"
| "at_take _ = False"

fun at_fill :: "bart_pc \<Rightarrow> bool" where
  "at_fill (Fill d s) = (s = F_lock \<or> s = F_take)"
| "at_fill _ = False"

fun at_ready :: "cust_pc \<Rightarrow> bool" where
  "at_ready (Submit x (S_ready i)) = True"
| "at_ready _ = False"

fun at_up :: "cust_pc \<Rightarrow> bool" where
  "at_up (Return x (R_up n)) = True"
| "at_up _ = False"

fun has_slot :: "cust_pc \<Rightarrow> bool" where
  "has_slot (Submit x s) = (s \<noteq> S_lock \<and> s \<noteq> S_slot \<and> (\<forall>g. s \<noteq> S_out g))"
| "has_slot (Drink k g) = True"
| "has_slot (Return x r) = (r \<noteq> R_out)"
| "has_slot _ = False"

fun has_glass :: "cust_pc \<Rightarrow> bool" where
  "has_glass (Submit x s) = (case s of S_glass i \<Rightarrow> True | S_number i g \<Rightarrow> True | S_lock3 i g \<Rightarrow> True | S_set3 i g \<Rightarrow> True | _ \<Rightarrow> False)"
| "has_glass (Drink k g) = True"
| "has_glass (Return x r) = (case r of R_lock g \<Rightarrow> True | R_empty g \<Rightarrow> True | _ \<Rightarrow> False)"
| "has_glass _ = False"

fun with_glass :: "bart_pc \<Rightarrow> bool" where
  "with_glass (Fill d s) = (case s of F_set g \<Rightarrow> True | F_pourlock g \<Rightarrow> True | F_pour g \<Rightarrow> True | _ \<Rightarrow> False)"
| "with_glass (Serve d) = True"
| "with_glass _ = False"

fun got_order :: "cust_pc \<Rightarrow> bool" where
  "got_order (Submit x s) = (case s of S_glass i \<Rightarrow> True | S_number i g \<Rightarrow> True | S_lock3 i g \<Rightarrow> True | S_set3 i g \<Rightarrow> True | _ \<Rightarrow> False)"
| "got_order _ = False"

fun with_order :: "bart_pc \<Rightarrow> bool" where
  "with_order (Fill d s) = True"
| "with_order (Serve d) = True"
| "with_order _ = False"

text \<open>
  The count of \<^verbatim>\<open>ordersready\<close> and of \<^verbatim>\<open>emptyglasses\<close>, with the threads that are between the semaphore and the array, is the number of
  submitted orders and of empty glasses; slots, glasses and orders in use are as many as their owners.
\<close>

definition tok_inv :: "bar_size \<Rightarrow> bar \<Rightarrow> bool" where
  "tok_inv z st \<longleftrightarrow>
     int (ordersready st) + cnt at_take (NBARTENDERS z) (bart st) + cnt at_ready (NCUSTOMERS z) (cust st)
       = cntl (\<lambda>d. ostate d = 1) (orders st) \<and>
     int (emptyglasses st) + cnt at_fill (NBARTENDERS z) (bart st) + cnt at_up (NCUSTOMERS z) (cust st)
       = cntl (\<lambda>g. gstate g = 0) (glasses st) \<and>
     cntl (\<lambda>d. ostate d \<noteq> 0) (orders st) = cnt has_slot (NCUSTOMERS z) (cust st) \<and>
     cntl (\<lambda>g. gstate g \<noteq> 0) (glasses st) = cnt has_glass (NCUSTOMERS z) (cust st) + cnt with_glass (NBARTENDERS z) (bart st)
       + cntl (\<lambda>n. n \<noteq> 0) (ordercomplete st) \<and>
     cntl (\<lambda>d. ostate d = 2) (orders st) = cnt got_order (NCUSTOMERS z) (cust st) + cnt with_order (NBARTENDERS z) (bart st)
       + cntl (\<lambda>n. n \<noteq> 0) (ordercomplete st)"

lemma cntl_compl: "cntl p xs + cntl (\<lambda>x. \<not> p x) xs = int (length xs)"
  by (simp add: cntl_def cnt_def of_bool_not_iff sum_subtractf)

lemma after_simps [simp]: "has_slot (after_submit x g)" "has_glass (after_submit x g)" "\<not> at_up (after_submit x g)"
  "\<not> at_ready (after_submit x g)" "\<not> got_order (after_submit x g)" "\<not> got_order (after_return z x)" "\<not> has_slot (after_return z x)" "\<not> has_glass (after_return z x)" "\<not> at_up (after_return z x)"
  "\<not> at_ready (after_return z x)"
  by (cases x; simp)+

text \<open>A customer that searches for a slot finds one: the other customers use at most one each.\<close>

lemma slot_free:
  assumes inv: "own_inv z st" and t: "tok_inv z st" and c: "c < NCUSTOMERS z" "cust st c = Submit x S_slot"
  shows "first_with (\<lambda>d. ostate d = 0) (orders st) < length (orders st)"
proof -
  have "cnt has_slot (NCUSTOMERS z) (cust st) \<noteq> int (NCUSTOMERS z)" using c by (auto simp: cnt_full)
  then have "0 < cntl (\<lambda>d. ostate d = 0) (orders st)"
    using cntl_compl [of "\<lambda>d. ostate d = 0" "orders st"] cnt_bounds(2) [of has_slot "NCUSTOMERS z" "cust st"] own_invD(1) [OF inv] t
    unfolding tok_inv_def sizes_ok_def by linarith
  then show ?thesis by (rule first_with_finds)
qed

lemma tok_customer:
  assumes inv: "own_inv z st" and t: "tok_inv z st" and c: "c < NCUSTOMERS z" and go: "customer z c st = Go st'"
  shows "tok_inv z st'"
proof -
  note me = own_invD(2) [OF inv c]
  from go show ?thesis
  proof (cases rule: customer_moves)
    case (s_slot x i)
    have "ostate (orders st ! i) = 0" using s_slot first_with_hit [of "\<lambda>d. ostate d = 0" "orders st"] by simp
    with s_slot(1,4,5) t c show ?thesis by (simp add: tok_inv_def cust_at_def)
  next
    case (s_lost x) with slot_free [OF inv t c] show ?thesis by simp
  next
    case (s_wait x i)
    have "ordercomplete st ! i = 1" using own_invD(4) [OF inv, of i] own_invD(1) [OF inv] s_wait by (auto simp: order_ok_def sizes_ok_def)
    with s_wait t c show ?thesis by (simp add: tok_inv_def cust_at_def)
  qed (use me t c in \<open>auto simp: tok_inv_def cust_at_def in_slot_def has_def Let_def\<close>)
qed

lemma tok_bartender:
  assumes inv: "own_inv z st" and t: "tok_inv z st" and b: "b < NBARTENDERS z" and go: "bartender b st = Go st'"
  shows "tok_inv z st'"
proof -
  note me = own_invD(3) [OF inv b]
  from go show ?thesis
  proof (cases rule: bartender_moves)
    case (t_take i)
    have "ostate (orders st ! i) = 1" using t_take first_with_hit [of "\<lambda>d. ostate d = 1" "orders st"] by simp
    with t_take(1,4,5) t b show ?thesis by (simp add: tok_inv_def bart_at_def)
  next
    case (f_take d g)
    have "gstate (glasses st ! g) = 0" using f_take first_with_hit [of "\<lambda>d. gstate d = 0" "glasses st"] by simp
    with f_take(1,4,5) t b show ?thesis by (simp add: tok_inv_def bart_at_def)
  next
    case (serve d n)
    have "n = d" using serve me own_invD(1) [OF inv] own_invD(4) [OF inv, of d] by (auto simp: order_ok_def in_slot_def sizes_ok_def)
    with serve me t b show ?thesis by (simp add: tok_inv_def bart_at_def in_slot_def)
  qed (use me t b in \<open>auto simp: tok_inv_def bart_at_def in_slot_def has_def\<close>)
qed

section \<open>The locks\<close>

datatype bar_lock = L_orders | L_glasses | L_bottles | L_drinkers

fun owner_of :: "bar \<Rightarrow> bar_lock \<Rightarrow> tid option" where
  "owner_of st L_orders = orderslock st"
| "owner_of st L_glasses = glassarraylock st"
| "owner_of st L_bottles = bottleslock st"
| "owner_of st L_drinkers = ndrinkerslock st"

primrec home_visit :: "visit \<Rightarrow> nat option" where
  "home_visit (Home k) = Some k"
| "home_visit (Round k) = None"

fun home_at :: "cust_pc \<Rightarrow> nat option" where
  "home_at (Submit x s) = home_visit x"
| "home_at (Return x r) = home_visit x"
| "home_at _ = None"

text \<open>The locks a thread holds at each point.\<close>

fun locks_c :: "cust_pc \<Rightarrow> bar_lock \<Rightarrow> bool" where
  "locks_c p L_orders = ((\<exists>x. p = Submit x S_slot) \<or> (\<exists>x i g. p = Submit x (S_set3 i g)) \<or> (\<exists>x n. p = Return x (R_set0 n)))"
| "locks_c p L_glasses = (\<exists>x g. p = Return x (R_empty g))"
| "locks_c p L_bottles = False"
| "locks_c p L_drinkers = (home_at p \<noteq> None \<or> p = H_dec \<or> p = H_unlock)"

fun locks_b :: "bart_pc \<Rightarrow> bar_lock \<Rightarrow> bool" where
  "locks_b p L_orders = (p = Take T_take)"
| "locks_b p L_glasses = (\<exists>d. p = Fill d F_take)"
| "locks_b p L_bottles = (\<exists>d g. p = Fill d (F_pour g))"
| "locks_b p L_drinkers = False"

definition lock_inv :: "bar_size \<Rightarrow> bar \<Rightarrow> bool" where
  "lock_inv z st \<longleftrightarrow> (\<forall>l c. owner_of st l = Some (Cust c) \<longleftrightarrow> c < NCUSTOMERS z \<and> locks_c (cust st c) l) \<and>
     (\<forall>l b. owner_of st l = Some (Bart b) \<longleftrightarrow> b < NBARTENDERS z \<and> locks_b (bart st b) l)"

lemma all_locks: "(\<forall>l. q l) \<longleftrightarrow> q L_orders \<and> q L_glasses \<and> q L_bottles \<and> q L_drinkers"
  by (metis bar_lock.exhaust)

definition lock_step :: "tid \<Rightarrow> bool \<Rightarrow> bool \<Rightarrow> tid option \<Rightarrow> tid option \<Rightarrow> bool" where
  "lock_step t before after ow ow' \<longleftrightarrow>
     ow' = ow \<and> after = before \<or> ow = None \<and> ow' = Some t \<and> after \<or> ow = Some t \<and> ow' = None \<and> \<not> after"

lemma lock_invD:
  assumes "lock_inv z st"
  shows "owner_of st l = Some (Cust c) \<longleftrightarrow> c < NCUSTOMERS z \<and> locks_c (cust st c) l"
    "owner_of st l = Some (Bart b) \<longleftrightarrow> b < NBARTENDERS z \<and> locks_b (bart st b) l"
  using assms by (auto simp: lock_inv_def)

lemma lock_inv_cust:
  assumes inv: "lock_inv z st" and "c < NCUSTOMERS z" and "cust st' = (cust st)(c := cust st' c)" and "bart st' = bart st"
    and s: "\<forall>l. lock_step (Cust c) (locks_c (cust st c) l) (locks_c (cust st' c) l) (owner_of st l) (owner_of st' l)"
  shows "lock_inv z st'"
  unfolding lock_inv_def
proof (intro conjI allI)
  fix l x
  note at_l = spec [OF s, of l, unfolded lock_step_def] lock_invD(1) [OF inv, of l c] lock_invD(1) [OF inv, of l x] lock_invD(2) [OF inv, of l x]
  show "owner_of st' l = Some (Cust x) \<longleftrightarrow> x < NCUSTOMERS z \<and> locks_c (cust st' x) l"
    using at_l assms(2) fun_cong [OF assms(3), of x] by (cases "x = c") auto
  show "owner_of st' l = Some (Bart x) \<longleftrightarrow> x < NBARTENDERS z \<and> locks_b (bart st' x) l"
    using at_l assms(4) by auto
qed

lemma lock_inv_bart:
  assumes inv: "lock_inv z st" and "b < NBARTENDERS z" and "bart st' = (bart st)(b := bart st' b)" and "cust st' = cust st"
    and s: "\<forall>l. lock_step (Bart b) (locks_b (bart st b) l) (locks_b (bart st' b) l) (owner_of st l) (owner_of st' l)"
  shows "lock_inv z st'"
  unfolding lock_inv_def
proof (intro conjI allI)
  fix l x
  note at_l = spec [OF s, of l, unfolded lock_step_def] lock_invD(2) [OF inv, of l b] lock_invD(2) [OF inv, of l x] lock_invD(1) [OF inv, of l x]
  show "owner_of st' l = Some (Cust x) \<longleftrightarrow> x < NCUSTOMERS z \<and> locks_c (cust st' x) l"
    using at_l assms(4) by auto
  show "owner_of st' l = Some (Bart x) \<longleftrightarrow> x < NBARTENDERS z \<and> locks_b (bart st' x) l"
    using at_l assms(2) fun_cong [OF assms(3), of x] by (cases "x = b") auto
qed

lemma lock_customer:
  assumes inv: "own_inv z st" and t: "tok_inv z st" and l: "lock_inv z st" and c: "c < NCUSTOMERS z" and go: "customer z c st = Go st'"
  shows "lock_inv z st'"
  using go
proof (cases rule: customer_moves)
  case (s_lost x) with slot_free [OF inv t c] show ?thesis by simp
next
  case (s_out x g) with own_invD(2) [OF inv c] show ?thesis by simp
next
  case (r_out x) with own_invD(2) [OF inv c] show ?thesis by simp
next
  case (s_set3 x i g)
  show ?thesis by (rule lock_inv_cust [OF l c]; cases x) (simp_all add: s_set3 cust_at_def lock_step_def all_locks)
next
  case (r_set0 x n)
  show ?thesis by (rule lock_inv_cust [OF l c]; cases x) (simp_all add: r_set0 cust_at_def lock_step_def all_locks)
next
  case (h_dec)
  with c l have "ndrinkerslock st = Some (Cust c)" by (metis lock_inv_def locks_c.simps(4) owner_of.simps(4))
  with h_dec show ?thesis by (intro lock_inv_cust [OF l c]) (auto simp: cust_at_def lock_step_def all_locks split: if_splits)
qed ((rule lock_inv_cust [OF l c]; simp add: cust_at_def lock_step_def all_locks)+)

lemma lock_bartender:
  assumes inv: "own_inv z st" and l: "lock_inv z st" and b: "b < NBARTENDERS z" and go: "bartender b st = Go st'"
  shows "lock_inv z st'"
  using go
proof (cases rule: bartender_moves)
  case (t_out i) with own_invD(3) [OF inv b] show ?thesis by simp
next
  case (f_out i) with own_invD(3) [OF inv b] show ?thesis by simp
qed ((rule lock_inv_bart [OF l b]; simp add: bart_at_def lock_step_def all_locks)+)

section \<open>Customers that are left, and the last one\<close>

text \<open>A customer counts as a drinker until it has run \<^verbatim>\<open>crawl_home\<close>'s decrement.\<close>

fun drinker :: "cust_pc \<Rightarrow> bool" where
  "drinker (Submit x s) = (home_visit x = None)"
| "drinker (Return x r) = (home_visit x = None)"
| "drinker p = (p \<noteq> H_unlock \<and> p \<noteq> C_end \<and> p \<noteq> C_gone)"

text \<open>Whether a bartender took the order that a customer has submitted.\<close>

fun taken :: "bar \<Rightarrow> cust_pc \<Rightarrow> bool" where
  "taken st (Submit x s) = (case s of S_lock \<Rightarrow> False | S_slot \<Rightarrow> False | S_ready i \<Rightarrow> ostate (orders st ! i) \<noteq> 1
     | S_wait i \<Rightarrow> ostate (orders st ! i) \<noteq> 1 | _ \<Rightarrow> True)"
| "taken st _ = True"

fun off_take :: "bart_pc \<Rightarrow> bool" where
  "off_take (Take s) = False"
| "off_take _ = True"

text \<open>
  The orders of the last customer's loop that were taken, at most as many as the bartenders that will not take
  another one; a bartender ends only when no drinker is left.
\<close>

definition home_inv :: "bar_size \<Rightarrow> bar \<Rightarrow> bool" where
  "home_inv z st \<longleftrightarrow> ndrinkers st = cnt drinker (NCUSTOMERS z) (cust st) \<and>
     (\<forall>c < NCUSTOMERS z. \<forall>k. home_at (cust st c) = Some k \<longrightarrow> ndrinkers st = 0 \<and> k < NBARTENDERS z \<and>
        int k + of_bool (taken st (cust st c)) \<le> cnt off_take (NBARTENDERS z) (bart st)) \<and>
     (\<forall>b < NBARTENDERS z. bart st b = B_end \<or> bart st b = B_gone \<longrightarrow> ndrinkers st = 0) \<and>
     (ndrinkers st = 0 \<longrightarrow> (\<forall>c < NCUSTOMERS z. home_at (cust st c) = None) \<longrightarrow> (\<forall>b < NBARTENDERS z. off_take (bart st b)))"

definition bar_ok :: "bar_size \<Rightarrow> bool" where
  "bar_ok z \<longleftrightarrow> 0 < NGLASSES z \<and> 0 < NCUSTOMERS z \<and> 0 < NBARTENDERS z \<and> NCUSTOMERS z < 2 ^ 31"

lemma home_invD:
  assumes "home_inv z st"
  shows "ndrinkers st = cnt drinker (NCUSTOMERS z) (cust st)"
    "c < NCUSTOMERS z \<Longrightarrow> home_at (cust st c) = Some k \<Longrightarrow> ndrinkers st = 0 \<and> k < NBARTENDERS z"
    "c < NCUSTOMERS z \<Longrightarrow> home_at (cust st c) = Some k \<Longrightarrow>
       int k + of_bool (taken st (cust st c)) \<le> cnt off_take (NBARTENDERS z) (bart st)"
    "b < NBARTENDERS z \<Longrightarrow> bart st b = B_end \<or> bart st b = B_gone \<Longrightarrow> ndrinkers st = 0"
    "ndrinkers st = 0 \<Longrightarrow> \<forall>c < NCUSTOMERS z. home_at (cust st c) = None \<Longrightarrow> b < NBARTENDERS z \<Longrightarrow> off_take (bart st b)"
  using assms unfolding home_inv_def by blast+

text \<open>A step of a customer that neither leaves nor ends a visit of the loop.\<close>

lemma home_cust:
  assumes h: "home_inv z st" and c: "c < NCUSTOMERS z" and e: "cust st' = (cust st)(c := cust st' c)" "bart st' = bart st"
    and n: "ndrinkers st' = ndrinkers st"
    and p: "drinker (cust st' c) = drinker (cust st c)" "home_at (cust st' c) = home_at (cust st c)"
    and tk: "taken st' (cust st' c) \<longrightarrow> taken st (cust st c)"
    and oth: "\<And>x. x < NCUSTOMERS z \<Longrightarrow> x \<noteq> c \<Longrightarrow> taken st' (cust st x) = taken st (cust st x)"
  shows "home_inv z st'"
proof -
  have x: "home_at (cust st' x) = home_at (cust st x)" "drinker (cust st' x) = drinker (cust st x)"
      "x < NCUSTOMERS z \<Longrightarrow> taken st' (cust st' x) \<Longrightarrow> taken st (cust st x)" for x
    using fun_cong [OF e(1), of x] p oth [of x] tk by (cases "x = c"; simp)+
  show ?thesis unfolding home_inv_def
  proof (intro conjI allI impI)
    show "ndrinkers st' = cnt drinker (NCUSTOMERS z) (cust st')" using home_invD(1) [OF h] x(2) n by (simp cong: cnt_cong)
    fix y k assume y: "y < NCUSTOMERS z" "home_at (cust st' y) = Some k"
    then have "home_at (cust st y) = Some k" using x by simp
    moreover have "of_bool (taken st' (cust st' y)) \<le> (of_bool (taken st (cust st y)) :: int)" using x(3) [OF y(1)] by simp
    ultimately show "ndrinkers st' = 0" "k < NBARTENDERS z"
      "int k + of_bool (taken st' (cust st' y)) \<le> cnt off_take (NBARTENDERS z) (bart st')"
      using home_invD(2,3) [OF h y(1), of k] n e by (auto simp del: of_bool_less_eq_iff)
  qed (use home_invD(4,5) [OF h] x n e in auto)
qed

lemma taken_orders: "orders st' = orders st \<Longrightarrow> taken st' p = taken st p"
  by (cases p) (auto split: submit_pc.splits)

lemma taken_upd [simp]:
  "taken (st\<lparr>cust := u0\<rparr>) p = taken st p"
  "taken (st\<lparr>bart := u1\<rparr>) p = taken st p"
  "taken (st\<lparr>ordersready := u2\<rparr>) p = taken st p"
  "taken (st\<lparr>emptyglasses := u3\<rparr>) p = taken st p"
  "taken (st\<lparr>ordercomplete := u4\<rparr>) p = taken st p"
  "taken (st\<lparr>alldone := u5\<rparr>) p = taken st p"
  "taken (st\<lparr>glasses := u6\<rparr>) p = taken st p"
  "taken (st\<lparr>bottles := u7\<rparr>) p = taken st p"
  "taken (st\<lparr>orderslock := u8\<rparr>) p = taken st p"
  "taken (st\<lparr>glassarraylock := u9\<rparr>) p = taken st p"
  "taken (st\<lparr>bottleslock := u10\<rparr>) p = taken st p"
  "taken (st\<lparr>ndrinkerslock := u11\<rparr>) p = taken st p"
  by (rule taken_orders; simp)+

lemma taken_slot: "orders st' = (orders st)[i := d] \<Longrightarrow> slot st p \<noteq> Some i \<Longrightarrow> taken st' p = taken st p"
  by (cases p) (auto split: submit_pc.splits)

lemma home_visit_after [simp]: "home_at (after_submit x g) = home_visit x" "taken st (after_submit x g)"
  "drinker (after_submit x g) = (home_visit x = None)" "drinker (after_return z x) = (home_visit x = None)"
  by (cases x; simp)+

text \<open>The last step of a visit; the bar is one order further.\<close>

lemma home_next:
  assumes h: "home_inv z st" and c: "c < NCUSTOMERS z" and me: "cust st c = Return x (R_set0 n)"
    and oth: "\<And>y. y < NCUSTOMERS z \<Longrightarrow> y \<noteq> c \<Longrightarrow> taken st' (cust st y) = taken st (cust st y)"
    and e: "cust st' = (cust st)(c := after_return z x)" "bart st' = bart st" "ndrinkers st' = ndrinkers st"
  shows "home_inv z st'"
proof -
  have full: "off_take (bart st b)" if "home_visit x = Some k" "\<not> Suc k < NBARTENDERS z" "b < NBARTENDERS z" for k b
  proof -
    have "int (NBARTENDERS z) \<le> cnt off_take (NBARTENDERS z) (bart st)" using home_invD(2,3) [OF h c, of k] me that by simp
    then have "cnt off_take (NBARTENDERS z) (bart st) = int (NBARTENDERS z)" by (intro antisym) simp_all
    with that(3) show ?thesis by (simp add: cnt_full)
  qed
  have hm: "home_at (after_return z x) = Some k \<Longrightarrow> \<exists>j. home_visit x = Some j \<and> k = Suc j \<and> k < NBARTENDERS z \<and>
      \<not> taken st' (after_return z x)" for k
    by (cases x) (auto split: if_splits)
  have no: "home_at (after_return z x) = None \<Longrightarrow> home_visit x = None \<or> (\<exists>j. home_visit x = Some j \<and> \<not> Suc j < NBARTENDERS z)"
    by (cases x) (auto split: if_splits)
  show ?thesis unfolding home_inv_def
  proof (intro conjI allI impI)
    show "ndrinkers st' = cnt drinker (NCUSTOMERS z) (cust st')" using home_invD(1) [OF h] e c me by simp
    fix y k assume y: "y < NCUSTOMERS z" "home_at (cust st' y) = Some k"
    show "ndrinkers st' = 0" "k < NBARTENDERS z" "int k + of_bool (taken st' (cust st' y)) \<le> cnt off_take (NBARTENDERS z) (bart st')"
      using home_invD(2,3) [OF h y(1)] y e hm [of k] oth [OF y(1)] me by (cases "y = c"; fastforce)+
  next
    fix b assume b: "b < NBARTENDERS z"
    show "ndrinkers st' = 0" if "bart st' b = B_end \<or> bart st' b = B_gone" using home_invD(4) [OF h b] e that by simp
    show "off_take (bart st' b)" if "ndrinkers st' = 0" "\<forall>c < NCUSTOMERS z. home_at (cust st' c) = None"
    proof -
      have "home_at (after_return z x) = None" using that(2) c e by auto
      from no [OF this] consider "home_visit x = None" | j where "home_visit x = Some j" "\<not> Suc j < NBARTENDERS z"
        by (elim disjE exE conjE)
      then show ?thesis
      proof cases
        case 1
        then have "\<forall>y < NCUSTOMERS z. home_at (cust st y) = None" using that(2) me e by (metis fun_upd_other home_at.simps(2))
        with home_invD(5) [OF h] b e that(1) show ?thesis by simp
      next
        case 2 with full [OF 2 b] e show ?thesis by simp
      qed
    qed
  qed
qed

lemma home_dec:
  assumes z: "bar_ok z" and h: "home_inv z st" and c: "c < NCUSTOMERS z" and me: "cust st c = H_dec"
    and st': "st' = cust_at c (if int32 (ndrinkers st - 1) = 0 \<and> 0 < NBARTENDERS z then Submit (Home 0) S_lock else H_unlock,
         st\<lparr>ndrinkers := int32 (ndrinkers st - 1)\<rparr>)"
  shows "home_inv z st'"
proof -
  let ?n = "ndrinkers st"
  have pos: "0 < ?n" unfolding home_invD(1) [OF h] cnt_pos using c me by auto
  have "?n \<le> int (NCUSTOMERS z)" using home_invD(1) [OF h] by simp
  with pos z have i: "int32 (?n - 1) = ?n - 1" by (intro int32_id) (simp_all add: bar_ok_def)
  have no: "home_at (cust st x) = None" if "x < NCUSTOMERS z" for x
    using home_invD(2) [OF h that] pos by (cases "home_at (cust st x)") auto
  have nb: "bart st b \<noteq> B_end \<and> bart st b \<noteq> B_gone" if "b < NBARTENDERS z" for b using home_invD(4) [OF h that] pos by auto
  have st': "st' = cust_at c (if ?n = 1 then Submit (Home 0) S_lock else H_unlock, st\<lparr>ndrinkers := ?n - 1\<rparr>)"
    using st' i z by (simp add: bar_ok_def)
  show ?thesis unfolding home_inv_def
  proof (intro conjI allI impI)
    show "ndrinkers st' = cnt drinker (NCUSTOMERS z) (cust st')"
      using home_invD(1) [OF h] c me by (simp add: st' cust_at_def)
  next
    fix y k assume y: "y < NCUSTOMERS z" "home_at (cust st' y) = Some k"
    then have "y = c \<and> k = 0 \<and> ?n = 1" using no [of y] by (auto simp: st' cust_at_def split: if_splits)
    then show "ndrinkers st' = 0" "k < NBARTENDERS z" "int k + of_bool (taken st' (cust st' y)) \<le> cnt off_take (NBARTENDERS z) (bart st')"
      using z by (simp_all add: st' cust_at_def bar_ok_def)
  next
    fix b assume "b < NBARTENDERS z"
    then show "ndrinkers st' = 0" if "bart st' b = B_end \<or> bart st' b = B_gone" using nb that by (simp add: st' cust_at_def)
  next
    fix b assume "ndrinkers st' = 0" "\<forall>c < NCUSTOMERS z. home_at (cust st' c) = None"
    then show "off_take (bart st' b)" using c by (auto simp: st' cust_at_def)
  qed
qed

lemma home_customer:
  assumes z: "bar_ok z" and inv: "own_inv z st" and t: "tok_inv z st" and h: "home_inv z st" and c: "c < NCUSTOMERS z"
    and go: "customer z c st = Go st'"
  shows "home_inv z st'"
proof -
  note me = own_invD(2) [OF inv c]
  have mine: "slot st (cust st y) \<noteq> Some i" if "slot st (cust st c) = Some i" "y < NCUSTOMERS z" "y \<noteq> c" for y i
    using own_invD(6) [OF inv c that(2) that(1)] that(3) by blast
  from go show ?thesis
  proof (cases rule: customer_moves)
    case (s_slot x i)
    have "ostate (orders st ! i) = 0" using s_slot first_with_hit [of "\<lambda>d. ostate d = 0" "orders st"] by simp
    then have "slot st (cust st y) \<noteq> Some i" if "y < NCUSTOMERS z" for y using slot_used [OF own_invD(2) [OF inv that], of i] by auto
    with s_slot(1,4,5) show ?thesis
      by (intro home_cust [OF h c]) (auto simp: cust_at_def intro!: taken_slot)
  next
    case (s_lost x) with slot_free [OF inv t c] show ?thesis by simp
  next
    case (s_set3 x i g)
    with mine [of i] show ?thesis by (intro home_cust [OF h c]) (auto simp: cust_at_def intro!: taken_slot)
  next
    case (r_set0 x n)
    with mine [of n] show ?thesis by (intro home_next [OF h c]) (auto simp: cust_at_def intro!: taken_slot)
  next
    case h_dec then show ?thesis by (rule home_dec [OF z h c])
  next
    case (drink k g) then show ?thesis by (intro home_cust [OF h c]) (auto simp: cust_at_def)
  next
    case (s_wait x i)
    have "ostate (orders st ! i) = 2" using own_invD(4) [OF inv, of i] own_invD(1) [OF inv] s_wait by (auto simp: order_ok_def sizes_ok_def)
    with s_wait show ?thesis by (intro home_cust [OF h c]) (auto simp: cust_at_def)
  qed (use me in \<open>auto simp: cust_at_def intro!: home_cust [OF h c]\<close>)
qed

lemma home_bart:
  assumes h: "home_inv z st" and b: "b < NBARTENDERS z" and e: "bart st' = (bart st)(b := bart st' b)" "cust st' = cust st"
    "ndrinkers st' = ndrinkers st"
    and p: "off_take (bart st b) \<longrightarrow> off_take (bart st' b) \<or> ndrinkers st \<noteq> 0"
      "bart st' b = B_end \<or> bart st' b = B_gone \<Longrightarrow> ndrinkers st = 0"
    and tk: "\<And>c. c < NCUSTOMERS z \<Longrightarrow> taken st' (cust st c) \<Longrightarrow>
       taken st (cust st c) \<or> \<not> off_take (bart st b) \<and> off_take (bart st' b)"
  shows "home_inv z st'"
proof -
  have up: "bart st' y = (if y = b then bart st' b else bart st y)" for y using fun_cong [OF e(1), of y] by simp
  have n: "cnt off_take (NBARTENDERS z) (bart st') =
      cnt off_take (NBARTENDERS z) (bart st) - of_bool (off_take (bart st b)) + of_bool (off_take (bart st' b))"
    using cnt_upd [OF b, of off_take "bart st" "bart st' b"] unfolding e(1) [symmetric] .
  show ?thesis unfolding home_inv_def
  proof (intro conjI allI impI)
    show "ndrinkers st' = cnt drinker (NCUSTOMERS z) (cust st')" using home_invD(1) [OF h] e(2,3) by simp
    fix y k assume y: "y < NCUSTOMERS z" "home_at (cust st' y) = Some k"
    then have y': "home_at (cust st y) = Some k" using e(2) by simp
    show "ndrinkers st' = 0" "k < NBARTENDERS z" using home_invD(2) [OF h y(1) y'] e(3) by simp_all
    show "int k + of_bool (taken st' (cust st' y)) \<le> cnt off_take (NBARTENDERS z) (bart st')"
      using home_invD(2,3) [OF h y(1) y'] tk [OF y(1)] p(1) e(2) n by (auto split: if_splits simp: of_bool_def)
  next
    fix y assume y: "y < NBARTENDERS z"
    show "ndrinkers st' = 0" if "bart st' y = B_end \<or> bart st' y = B_gone" using home_invD(4) [OF h y] p(2) e(3) up [of y] that by (auto split: if_splits)
    show "off_take (bart st' y)" if "ndrinkers st' = 0" "\<forall>c < NCUSTOMERS z. home_at (cust st' c) = None"
      using home_invD(5) [OF h _ _ y] home_invD(5) [OF h _ _ b] p(1) e(2,3) up [of y] that by auto
  qed
qed

lemma home_bartender:
  assumes inv: "own_inv z st" and h: "home_inv z st" and b: "b < NBARTENDERS z" and go: "bartender b st = Go st'"
  shows "home_inv z st'"
proof -
  note me = own_invD(3) [OF inv b]
  from go show ?thesis
  proof (cases rule: bartender_moves)
    case (f_set d g)
    have "taken (st\<lparr>orders := (orders st)[d := (orders st ! d)\<lparr>oglass := Some g\<rparr>], bart := B\<rparr>) p \<Longrightarrow> taken st p" for B p
      using f_set by (cases p) (auto simp: nth_list_update split: submit_pc.splits if_splits)
    with f_set show ?thesis by (intro home_bart [OF h b]) (auto simp: bart_at_def)
  next
    case b_end
    with home_invD(4) [OF h b] show ?thesis by (intro home_bart [OF h b]) (auto simp: bart_at_def)
  qed (use me in \<open>auto simp: bart_at_def split: if_splits intro!: home_bart [OF h b]\<close>)
qed

section \<open>Starting and ending\<close>

fun waited :: "bar_size \<Rightarrow> main_pc \<Rightarrow> nat" where
  "waited z (M_bart i) = 0"
| "waited z (M_cust i) = 0"
| "waited z (M_wait i) = i"
| "waited z M_close = NCUSTOMERS z + NBARTENDERS z"
| "waited z M_end = NCUSTOMERS z + NBARTENDERS z"

fun forked :: "bar_size \<Rightarrow> main_pc \<Rightarrow> nat \<times> nat" where
  "forked z (M_bart i) = (i, 0)"
| "forked z (M_cust i) = (NBARTENDERS z, i)"
| "forked z _ = (NBARTENDERS z, NCUSTOMERS z)"

text \<open>Threads that were forked have started; the threads that \<^verbatim>\<open>createbar\<close> has waited for or can wait for are those that ended.\<close>

definition main_inv :: "bar_size \<Rightarrow> bar \<Rightarrow> bool" where
  "main_inv z st \<longleftrightarrow> (\<forall>b < NBARTENDERS z. bart st b = B_new \<longleftrightarrow> fst (forked z (main_at st)) \<le> b) \<and>
     (\<forall>c < NCUSTOMERS z. cust st c = C_new \<longleftrightarrow> snd (forked z (main_at st)) \<le> c) \<and>
     int (alldone st) + int (waited z (main_at st)) =
       cnt (\<lambda>p. p = C_gone) (NCUSTOMERS z) (cust st) + cnt (\<lambda>p. p = B_gone) (NBARTENDERS z) (bart st)"

lemma after_not_new [simp]: "after_submit x g \<noteq> C_new" "after_return z x \<noteq> C_new" "after_submit x g \<noteq> C_gone" "after_return z x \<noteq> C_gone"
  by (cases x; simp)+

lemma main_customer:
  assumes inv: "own_inv z st" and t: "tok_inv z st" and m: "main_inv z st" and c: "c < NCUSTOMERS z" and go: "customer z c st = Go st'"
  shows "main_inv z st'"
  using go
proof (cases rule: customer_moves)
  case (s_lost x) with slot_free [OF inv t c] show ?thesis by simp
next
  case (s_out x g) with own_invD(2) [OF inv c] show ?thesis by simp
next
  case (r_out x) with own_invD(2) [OF inv c] show ?thesis by simp
qed (use m c in \<open>auto simp: main_inv_def cust_at_def\<close>)

lemma main_bartender:
  assumes inv: "own_inv z st" and m: "main_inv z st" and b: "b < NBARTENDERS z" and go: "bartender b st = Go st'"
  shows "main_inv z st'"
  using go
proof (cases rule: bartender_moves)
  case (t_out x) with own_invD(3) [OF inv b] show ?thesis by simp
next
  case (f_out x) with own_invD(3) [OF inv b] show ?thesis by simp
qed (use m b in \<open>auto simp: main_inv_def bart_at_def\<close>)

definition bar_inv :: "bar_size \<Rightarrow> bar \<Rightarrow> bool" where
  "bar_inv z st \<longleftrightarrow> own_inv z st \<and> tok_inv z st \<and> lock_inv z st \<and> home_inv z st \<and> main_inv z st"

lemma bar_invD:
  assumes "bar_inv z st"
  shows "own_inv z st" "tok_inv z st" "lock_inv z st" "home_inv z st" "main_inv z st"
  using assms by (simp_all add: bar_inv_def)

lemma owner_of_upd [simp]: "owner_of (st\<lparr>main_at := m\<rparr>) l = owner_of st l" "owner_of (st\<lparr>alldone := n\<rparr>) l = owner_of st l"
  "owner_of (st\<lparr>cust := f\<rparr>) l = owner_of st l" "owner_of (st\<lparr>bart := g\<rparr>) l = owner_of st l"
  by (cases l; simp)+

lemma taken_main [simp]: "taken (st\<lparr>main_at := m\<rparr>) p = taken st p"
  by (rule taken_orders) simp

text \<open>What \<^verbatim>\<open>createbar\<close> does to its own variables concerns nobody else.\<close>

lemma inv_main:
  assumes z: "bar_ok z" and inv: "own_inv z st" "tok_inv z st" "lock_inv z st" "home_inv z st"
  shows "own_inv z (st\<lparr>main_at := m\<rparr>)" "tok_inv z (st\<lparr>main_at := m\<rparr>)" "lock_inv z (st\<lparr>main_at := m\<rparr>)" "home_inv z (st\<lparr>main_at := m\<rparr>)"
    "own_inv z (st\<lparr>alldone := n, main_at := m\<rparr>)" "tok_inv z (st\<lparr>alldone := n, main_at := m\<rparr>)"
    "lock_inv z (st\<lparr>alldone := n, main_at := m\<rparr>)" "home_inv z (st\<lparr>alldone := n, main_at := m\<rparr>)"
proof -
  have c: "0 < NCUSTOMERS z" using z by (simp add: bar_ok_def)
  show "own_inv z (st\<lparr>main_at := m\<rparr>)" "own_inv z (st\<lparr>alldone := n, main_at := m\<rparr>)"
    by (rule own_quiet_cust [OF inv(1) c, where p = "cust st 0"]; simp)+
  show "home_inv z (st\<lparr>main_at := m\<rparr>)" "home_inv z (st\<lparr>alldone := n, main_at := m\<rparr>)"
    by (rule home_cust [OF inv(4) c]; simp)+
qed (use inv in \<open>simp_all add: tok_inv_def lock_inv_def\<close>)

lemma start_bart:
  assumes inv: "own_inv z st" "tok_inv z st" "lock_inv z st" "home_inv z st" and b: "b < NBARTENDERS z" "bart st b = B_new"
  shows "own_inv z (bart_at b B_check st)" "tok_inv z (bart_at b B_check st)" "lock_inv z (bart_at b B_check st)" "home_inv z (bart_at b B_check st)"
proof -
  show "own_inv z (bart_at b B_check st)" by (rule own_quiet_bart [OF inv(1) b(1), where p = B_check]) (use b in \<open>simp_all add: bart_at_def\<close>)
  show "tok_inv z (bart_at b B_check st)" using inv(2) b by (simp add: tok_inv_def bart_at_def)
  show "lock_inv z (bart_at b B_check st)"
    by (rule lock_inv_bart [OF inv(3) b(1)]) (use b in \<open>simp_all add: bart_at_def lock_step_def all_locks\<close>)
  show "home_inv z (bart_at b B_check st)" by (rule home_bart [OF inv(4) b(1)]) (use b in \<open>simp_all add: bart_at_def\<close>)
qed

lemma start_cust:
  assumes inv: "own_inv z st" "tok_inv z st" "lock_inv z st" "home_inv z st" and c: "c < NCUSTOMERS z" "cust st c = C_new"
  shows "own_inv z (cust_at c (Submit (Round 0) S_lock, st))" "tok_inv z (cust_at c (Submit (Round 0) S_lock, st))"
    "lock_inv z (cust_at c (Submit (Round 0) S_lock, st))" "home_inv z (cust_at c (Submit (Round 0) S_lock, st))"
proof -
  let ?p = "Submit (Round 0) S_lock"
  show "own_inv z (cust_at c (?p, st))" by (rule own_quiet_cust [OF inv(1) c(1), where p = ?p]) (use c in \<open>simp_all add: cust_at_def\<close>)
  show "tok_inv z (cust_at c (?p, st))" using inv(2) c by (simp add: tok_inv_def cust_at_def)
  show "lock_inv z (cust_at c (?p, st))"
    by (rule lock_inv_cust [OF inv(3) c(1)]) (use c in \<open>simp_all add: cust_at_def lock_step_def all_locks\<close>)
  show "home_inv z (cust_at c (?p, st))" by (rule home_cust [OF inv(4) c(1)]) (use c in \<open>simp_all add: cust_at_def\<close>)
qed

lemma bar_inv_main:
  assumes z: "bar_ok z" and inv: "bar_inv z st" and go: "createbar ok z st = Go st'"
  shows "bar_inv z st'"
proof -
  note I = bar_invD [OF inv]
  note same = inv_main [OF z I(1-4)]
  show ?thesis
  proof (cases "main_at st")
    case (M_bart i)
    show ?thesis
    proof (cases "NBARTENDERS z \<le> i")
      case True
      with go M_bart I(5) show ?thesis using same(1-4) by (auto simp: createbar_def bar_inv_def main_inv_def)
    next
      case False
      then have i: "i < NBARTENDERS z" "bart (st\<lparr>main_at := M_bart (Suc i)\<rparr>) i = B_new" using I(5) M_bart by (auto simp: main_inv_def)
      have st': "st' = bart_at i B_check (st\<lparr>main_at := M_bart (Suc i)\<rparr>)" using go M_bart False by (auto simp: createbar_def split: if_splits)
      have "main_inv z st'" using I(5) M_bart i by (auto simp: main_inv_def st' bart_at_def)
      then show ?thesis using start_bart [OF same(1-4) i] by (simp add: bar_inv_def st')
    qed
  next
    case (M_cust i)
    show ?thesis
    proof (cases "NCUSTOMERS z \<le> i")
      case True
      with go M_cust I(5) show ?thesis using same(1-4) by (auto simp: createbar_def bar_inv_def main_inv_def)
    next
      case False
      then have i: "i < NCUSTOMERS z" "cust (st\<lparr>main_at := M_cust (Suc i)\<rparr>) i = C_new" using I(5) M_cust by (auto simp: main_inv_def)
      have st': "st' = cust_at i (Submit (Round 0) S_lock, st\<lparr>main_at := M_cust (Suc i)\<rparr>)"
        using go M_cust False by (auto simp: createbar_def split: if_splits)
      have "main_inv z st'" using I(5) M_cust i by (auto simp: main_inv_def st' cust_at_def)
      then show ?thesis using start_cust [OF same(1-4) i] by (simp add: bar_inv_def st')
    qed
  next
    case (M_wait i)
    show ?thesis
    proof (cases "NCUSTOMERS z + NBARTENDERS z \<le> i")
      case True
      have "cnt (\<lambda>p. p = C_gone) (NCUSTOMERS z) (cust st) + cnt (\<lambda>p. p = B_gone) (NBARTENDERS z) (bart st) \<le> int (NCUSTOMERS z + NBARTENDERS z)"
        using cnt_bounds(2) add_mono by (metis of_nat_add)
      then have "i = NCUSTOMERS z + NBARTENDERS z" using I(5) M_wait True by (simp add: main_inv_def)
      with go M_wait I(5) show ?thesis using same(1-4) by (auto simp: createbar_def bar_inv_def main_inv_def)
    next
      case False
      with go M_wait I(5) show ?thesis using same(5-8) by (auto simp: createbar_def bar_inv_def main_inv_def split: if_splits)
    qed
  next
    case M_close
    with go I(5) show ?thesis using same(1-4) by (auto simp: createbar_def bar_close_def bar_inv_def main_inv_def split: if_splits)
  next
    case M_end with go show ?thesis by (simp add: createbar_def)
  qed
qed

lemma bar_inv_open:
  assumes "bar_open True z = Some st"
  shows "bar_inv z st"
proof -
  have [simp]: "cntl p (replicate n x) = (if p x then int n else 0)" for p n and x :: 'x
    by (auto simp: cntl_def cnt_full cnt_zero)
  have [simp]: "cnt p n (\<lambda>_. x) = (if p x then int n else 0)" for p n and x :: 'x
    by (auto simp: cnt_full cnt_zero)
  have st: "st = the (bar_open True z)" using assms by simp
  have "held st t = None" for t by (cases t) (simp_all add: st bar_open_def)
  then have "own_inv z st"
    by (auto simp: own_inv_def sizes_ok_def order_ok_def glass_ok_def) (auto simp: st bar_open_def)
  moreover have "tok_inv z st" by (simp add: tok_inv_def st bar_open_def)
  moreover have "lock_inv z st" by (simp add: lock_inv_def all_locks st bar_open_def)
  moreover have "home_inv z st" by (simp add: home_inv_def st bar_open_def)
  moreover have "main_inv z st" by (simp add: main_inv_def st bar_open_def)
  ultimately show ?thesis by (simp add: bar_inv_def)
qed

lemma bar_inv_step:
  assumes z: "bar_ok z" and inv: "bar_inv z st" and go: "turn_of z w st = Go st'"
  shows "bar_inv z st'"
proof (cases w)
  case (A_cust c)
  then have c: "c < NCUSTOMERS z" "customer z c st = Go st'" using go by (simp_all split: if_splits)
  note I = bar_invD [OF inv]
  show ?thesis unfolding bar_inv_def
    using own_customer [OF I(1) c slot_free [OF I(1,2) c(1)]] tok_customer [OF I(1,2) c] lock_customer [OF I(1-3) c]
      home_customer [OF z I(1,2,4) c] main_customer [OF I(1,2,5) c] by simp
next
  case (A_bart b)
  then have b: "b < NBARTENDERS z" "bartender b st = Go st'" using go by (simp_all split: if_splits)
  note I = bar_invD [OF inv]
  show ?thesis unfolding bar_inv_def
    using own_bartender [OF I(1) b] tok_bartender [OF I(1,2) b] lock_bartender [OF I(1,3) b]
      home_bartender [OF I(1,4) b] main_bartender [OF I(1,5) b] by simp
next
  case A_main with go show ?thesis using bar_inv_main [OF z inv, of True] by simp
qed

lemma bar_reach_inv:
  assumes "bar_ok z"
  shows "bar_reach z st \<Longrightarrow> bar_inv z st"
  by (induction rule: bar_reach.induct) (auto intro: bar_inv_open bar_inv_step [OF assms])

section \<open>No panic\<close>

lemma must_Panic: "must m k = Panic \<longleftrightarrow> m = None \<or> (\<exists>x. m = Some x \<and> k x = Panic)"
  by (cases m) auto

lemma must_Block: "must m k = Block \<longleftrightarrow> (\<exists>x. m = Some x \<and> k x = Block)"
  by (cases m) auto

lemma out_map_Panic [simp]: "out_map f m = Panic \<longleftrightarrow> m = Panic" "out_map f m = Block \<longleftrightarrow> m = Block"
  by (cases m; simp)+

lemma set_None: "set_order i f st = None \<longleftrightarrow> \<not> i < length (orders st)" "set_glass i h st = None \<longleftrightarrow> \<not> i < length (glasses st)"
  by (simp_all add: set_order_def set_glass_def rd_def wr_def)

lemma lock_Panic: "acquire t ow k = Panic \<longleftrightarrow> ow = Some t" "release t ow k = Panic \<longleftrightarrow> ow \<noteq> Some t" "release t ow k \<noteq> Block"
  "acquire t ow k = Block \<longleftrightarrow> ow \<noteq> None \<and> ow \<noteq> Some t"
  by (auto simp: acquire_def release_def)

lemma rd_None: "rd xs i = None \<longleftrightarrow> \<not> i < length xs"
  by (simp add: rd_def)

lemmas panic_simps = must_Panic set_None lock_Panic set_order_Some set_glass_Some rd_None rd_eq_Some

lemma owner_c:
  assumes "lock_inv z st" and "c < NCUSTOMERS z"
  shows "orderslock st = Some (Cust c) \<longleftrightarrow> locks_c (cust st c) L_orders" "glassarraylock st = Some (Cust c) \<longleftrightarrow> locks_c (cust st c) L_glasses"
    "ndrinkerslock st = Some (Cust c) \<longleftrightarrow> locks_c (cust st c) L_drinkers"
  using lock_invD(1) [OF assms(1), of _ c] assms(2) owner_of.simps by metis+

lemma owner_b:
  assumes "lock_inv z st" and "b < NBARTENDERS z"
  shows "orderslock st = Some (Bart b) \<longleftrightarrow> locks_b (bart st b) L_orders" "glassarraylock st = Some (Bart b) \<longleftrightarrow> locks_b (bart st b) L_glasses"
    "bottleslock st = Some (Bart b) \<longleftrightarrow> locks_b (bart st b) L_bottles"
  using lock_invD(2) [OF assms(1), of _ b] assms(2) owner_of.simps by metis+

lemma customer_safe:
  assumes inv: "bar_inv z st" and c: "c < NCUSTOMERS z"
  shows "customer z c st \<noteq> Panic"
proof -
  have sz: "length (ordercomplete st) = length (orders st)" using own_invD(1) [OF bar_invD(1) [OF inv]] by (simp add: sizes_ok_def)
  note facts = own_invD(2) [OF bar_invD(1) [OF inv] c] owner_c [OF bar_invD(3) [OF inv] c] sz
  show ?thesis
  proof (cases "cust st c")
    case (Submit x s)
    with facts show ?thesis by (cases s) (auto simp: customer_def panic_simps in_slot_def has_def Let_def)
  next
    case (Return x r)
    with facts show ?thesis by (cases r) (auto simp: customer_def panic_simps in_slot_def has_def)
  qed (use facts in \<open>auto simp: customer_def crawl_home_def panic_simps has_def Let_def\<close>)
qed

lemma order_there:
  assumes "tok_inv z st" "b < NBARTENDERS z" "bart st b = Take T_take"
  shows "first_with (\<lambda>d. ostate d = 1) (orders st) < length (orders st)"
proof (rule first_with_finds)
  have "0 < cnt at_take (NBARTENDERS z) (bart st)" using assms(2,3) by (auto simp: cnt_pos)
  with assms(1) cnt_bounds(1) [of at_ready "NCUSTOMERS z" "cust st"] show "0 < cntl (\<lambda>d. ostate d = 1) (orders st)"
    unfolding tok_inv_def by linarith
qed

lemma glass_there:
  assumes "tok_inv z st" "b < NBARTENDERS z" "bart st b = Fill d F_take"
  shows "first_with (\<lambda>g. gstate g = 0) (glasses st) < length (glasses st)"
proof (rule first_with_finds)
  have "0 < cnt at_fill (NBARTENDERS z) (bart st)" using assms(2,3) by (auto simp: cnt_pos)
  with assms(1) cnt_bounds(1) [of at_up "NCUSTOMERS z" "cust st"] show "0 < cntl (\<lambda>g. gstate g = 0) (glasses st)"
    unfolding tok_inv_def by linarith
qed

lemma bartender_safe:
  assumes inv: "bar_inv z st" and b: "b < NBARTENDERS z"
  shows "bartender b st \<noteq> Panic"
proof -
  note I = bar_invD [OF inv]
  have sz: "length (orders st) = NCUSTOMERS z" "length (ordercomplete st) = NCUSTOMERS z" "length (bottles st) = NBOTTLES"
    using own_invD(1) [OF I(1)] by (simp_all add: sizes_ok_def)
  note facts = own_invD(3) [OF I(1) b] owner_b [OF I(3) b] sz
  show ?thesis
  proof (cases "bart st b")
    case (Take s)
    with facts order_there [OF I(2) b] show ?thesis by (cases s) (auto simp: bartender_def panic_simps Let_def)
  next
    case (Fill d s)
    show ?thesis
    proof (cases s)
      case (F_pour g)
      with Fill facts have o: "in_slot st d 2" "has st g [0, 0, 0]" by simp_all
      then obtain bs where "pour (ing (orders st ! d)) [0, 0, 0] (bottles st) = Some (poured (ing (orders st ! d)), bs)"
        using own_invD(4) [OF I(1), of d] sz pour_spec [of "ing (orders st ! d)" "bottles st"] by (auto simp: order_ok_def in_slot_def)
      with Fill F_pour o facts show ?thesis by (auto simp: bartender_def panic_simps in_slot_def has_def)
    qed (use Fill facts glass_there [OF I(2) b] in \<open>auto simp: bartender_def panic_simps Let_def in_slot_def\<close>)
  next
    case (Serve d)
    with facts own_invD(4) [OF I(1), of d] show ?thesis
      by (auto simp: bartender_def serve_order_def panic_simps order_ok_def in_slot_def)
  qed (simp_all add: bartender_def)
qed

text \<open>When \<^verbatim>\<open>createbar\<close> has waited for everybody, everybody is gone.\<close>

lemma all_gone:
  assumes m: "main_inv z st" and w: "waited z (main_at st) \<ge> NCUSTOMERS z + NBARTENDERS z"
  shows "c < NCUSTOMERS z \<Longrightarrow> cust st c = C_gone" "b < NBARTENDERS z \<Longrightarrow> bart st b = B_gone"
proof -
  let ?C = "cnt (\<lambda>p. p = C_gone) (NCUSTOMERS z) (cust st)" and ?B = "cnt (\<lambda>p. p = B_gone) (NBARTENDERS z) (bart st)"
  have "?C \<le> int (NCUSTOMERS z)" "?B \<le> int (NBARTENDERS z)" by simp_all
  moreover have "int (NCUSTOMERS z) + int (NBARTENDERS z) \<le> ?C + ?B" using m w by (simp add: main_inv_def)
  ultimately have "?C = int (NCUSTOMERS z)" "?B = int (NBARTENDERS z)" by linarith+
  then show "c < NCUSTOMERS z \<Longrightarrow> cust st c = C_gone" "b < NBARTENDERS z \<Longrightarrow> bart st b = B_gone" by (simp_all add: cnt_full)
qed

lemma no_owner:
  assumes "lock_inv z st" and "\<And>c. c < NCUSTOMERS z \<Longrightarrow> \<not> locks_c (cust st c) l" and "\<And>b. b < NBARTENDERS z \<Longrightarrow> \<not> locks_b (bart st b) l"
  shows "owner_of st l = None"
proof (rule ccontr)
  assume "owner_of st l \<noteq> None"
  then obtain t where t: "owner_of st l = Some t" by blast
  show False using lock_invD [OF assms(1), of l] assms(2,3) t by (cases t) auto
qed

lemma createbar_safe:
  assumes inv: "bar_inv z st"
  shows "createbar True z st \<noteq> Panic"
proof (cases "main_at st")
  case M_close
  then have g: "cust st c = C_gone" "b < NBARTENDERS z \<Longrightarrow> bart st b = B_gone" if "c < NCUSTOMERS z" for c b
    using all_gone [OF bar_invD(5) [OF inv]] that by simp_all
  have b: "b < NBARTENDERS z \<Longrightarrow> bart st b = B_gone" for b using all_gone(2) [OF bar_invD(5) [OF inv]] M_close by simp
  have "owner_of st l = None" for l by (rule no_owner [OF bar_invD(3) [OF inv]]; cases l; simp add: g b)
  from this [of L_orders] this [of L_glasses] this [of L_bottles] this [of L_drinkers] M_close g b show ?thesis
    by (auto simp: createbar_def bar_close_def waits_sem_def)
qed (simp_all add: createbar_def)

section \<open>Where the bar comes to a halt\<close>

definition halted :: "bar_size \<Rightarrow> bar \<Rightarrow> bool" where
  "halted z st \<longleftrightarrow> (\<forall>w. turn_of z w st = Block)"

lemma haltedD:
  assumes "halted z st"
  shows "c < NCUSTOMERS z \<Longrightarrow> customer z c st = Block" "b < NBARTENDERS z \<Longrightarrow> bartender b st = Block" "createbar True z st = Block"
  using assms unfolding halted_def by (metis turn_of.simps(1), metis turn_of.simps(2), metis turn_of.simps(3))

text \<open>What a thread that cannot go on waits for.\<close>

lemma customer_Block:
  assumes "customer z c st = Block"
  shows "cust st c = C_new \<or> cust st c = C_gone \<or> (\<exists>x i. cust st c = Submit x (S_wait i) \<and> ordercomplete st ! i = 0) \<or>
    orderslock st \<noteq> None \<and> (\<exists>x. cust st c = Submit x S_lock \<or> (\<exists>i g. cust st c = Submit x (S_lock3 i g)) \<or> (\<exists>n. cust st c = Return x (R_lock0 n))) \<or>
    glassarraylock st \<noteq> None \<and> (\<exists>x g. cust st c = Return x (R_lock g)) \<or> ndrinkerslock st \<noteq> None \<and> cust st c = H_lock"
proof (cases "cust st c")
  case (Submit x s)
  with assms show ?thesis by (cases s) (auto simp: customer_def must_Block lock_Panic rd_eq_Some Let_def split: if_splits)
next
  case (Return x r)
  with assms show ?thesis by (cases r) (auto simp: customer_def must_Block lock_Panic rd_eq_Some)
qed (use assms in \<open>auto simp: customer_def crawl_home_def must_Block lock_Panic Let_def\<close>)

lemma bartender_Block:
  assumes "bartender b st = Block"
  shows "bart st b = B_new \<or> bart st b = B_gone \<or> bart st b = Take T_wait \<and> ordersready st = 0 \<or>
    (\<exists>d. bart st b = Fill d F_await) \<and> emptyglasses st = 0 \<or>
    orderslock st \<noteq> None \<and> bart st b = Take T_lock \<or> glassarraylock st \<noteq> None \<and> (\<exists>d. bart st b = Fill d F_lock) \<or>
    bottleslock st \<noteq> None \<and> (\<exists>d g. bart st b = Fill d (F_pourlock g))"
proof (cases "bart st b")
  case (Take s)
  with assms show ?thesis by (cases s) (auto simp: bartender_def must_Block lock_Panic Let_def split: if_splits)
next
  case (Fill d s)
  with assms show ?thesis by (cases s) (auto simp: bartender_def must_Block lock_Panic Let_def split: if_splits prod.splits)
qed (use assms in \<open>auto simp: bartender_def serve_order_def must_Block split: if_splits\<close>)

lemma halted_locks:
  assumes inv: "bar_inv z st" and h: "halted z st"
  shows "orderslock st = None" "glassarraylock st = None" "bottleslock st = None"
proof -
  note c = haltedD(1) [OF h] and b = haltedD(2) [OF h]
  have "owner_of st l = None" if "l \<noteq> L_drinkers" for l
    by (rule no_owner [OF bar_invD(3) [OF inv]]; drule c b; drule customer_Block bartender_Block; use that in \<open>cases l; auto\<close>)
  from this [of L_orders] this [of L_glasses] this [of L_bottles]
  show "orderslock st = None" "glassarraylock st = None" "bottleslock st = None" by simp_all
qed

lemma has_slot_iff: "cust_ok st c p \<Longrightarrow> has_slot p \<longleftrightarrow> slot st p \<noteq> None"
  by (cases p) (auto split: submit_pc.splits return_pc.splits)

text \<open>Every slot in use is somebody's: there are as many owners as slots, and no two owners share one.\<close>

lemma slot_owner:
  assumes inv: "bar_inv z st" and i: "i < NCUSTOMERS z" "ostate (orders st ! i) \<noteq> 0"
  shows "\<exists>c < NCUSTOMERS z. slot st (cust st c) = Some i"
proof -
  note I = bar_invD [OF inv]
  let ?A = "{c. c < NCUSTOMERS z \<and> has_slot (cust st c)}" and ?B = "{i. i < NCUSTOMERS z \<and> ostate (orders st ! i) \<noteq> 0}"
  let ?f = "\<lambda>c. the (slot st (cust st c))"
  have sz: "length (orders st) = NCUSTOMERS z" using own_invD(1) [OF I(1)] by (simp add: sizes_ok_def)
  have s: "slot st (cust st c) = Some (?f c)" if "c \<in> ?A" for c
    using has_slot_iff [OF own_invD(2) [OF I(1), of c]] that by auto
  have "inj_on ?f ?A" using own_invD(6) [OF I(1)] s by (intro inj_onI) (metis (mono_tags, lifting) mem_Collect_eq)
  moreover have "?f ` ?A \<subseteq> ?B" using slot_used [OF own_invD(2) [OF I(1)]] s sz by fastforce
  moreover have "card ?A = card ?B" using I(2) sz unfolding tok_inv_def cntl_def cnt_card by simp
  ultimately have "?f ` ?A = ?B" by (simp add: card_image card_subset_eq)
  then obtain c where "c \<in> ?A" "?f c = i" using i by (metis (mono_tags, lifting) imageE mem_Collect_eq)
  with s [of c] show ?thesis by auto
qed

text \<open>
  When nothing can move, no order is served and not yet fetched, nobody holds a glass and no bartender works on an
  order. What is left are customers that wait for an order nobody took, customers that wait to leave, and
  bartenders that wait for orders.
\<close>

lemma halted_complete:
  assumes inv: "bar_inv z st" and h: "halted z st" and i: "i < NCUSTOMERS z"
  shows "ordercomplete st ! i = 0"
proof (rule ccontr)
  assume o: "ordercomplete st ! i \<noteq> 0"
  note I = bar_invD [OF inv]
  have "ostate (orders st ! i) \<noteq> 0" using own_invD(4) [OF I(1) i] o by (simp add: order_ok_def)
  then obtain x where x: "x < NCUSTOMERS z" "slot st (cust st x) = Some i" using slot_owner [OF inv i] by blast
  from customer_Block [OF haltedD(1) [OF h x(1)]] halted_locks [OF inv h] x(2) o own_invD(2) [OF I(1) x(1)] show False
    by (auto simp: in_slot_def)
qed

lemma halted_counts:
  assumes inv: "bar_inv z st" and z: "bar_ok z" and h: "halted z st"
  shows "0 < emptyglasses st" "cntl (\<lambda>d. ostate d = 1) (orders st) = int (ordersready st)"
    "(\<And>b. b < NBARTENDERS z \<Longrightarrow> \<not> with_order (bart st b)) \<Longrightarrow> cntl (\<lambda>d. ostate d = 2) (orders st) = 0"
proof -
  note I = bar_invD [OF inv] and nol = halted_locks [OF inv h]
  have sz: "length (orders st) = NCUSTOMERS z" "length (ordercomplete st) = NCUSTOMERS z" "length (glasses st) = NGLASSES z"
    using own_invD(1) [OF I(1)] by (simp_all add: sizes_ok_def)
  have nc: "\<not> has_glass (cust st x) \<and> \<not> at_up (cust st x) \<and> \<not> at_ready (cust st x) \<and> \<not> got_order (cust st x)"
    if "x < NCUSTOMERS z" for x
    using customer_Block [OF haltedD(1) [OF h that]] nol by auto
  have nb: "\<not> with_glass (bart st x) \<and> \<not> at_fill (bart st x) \<and> \<not> at_take (bart st x)" if "x < NBARTENDERS z" for x
    using bartender_Block [OF haltedD(2) [OF h that]] nol by auto
  have cm: "cntl (\<lambda>n. n \<noteq> 0) (ordercomplete st) = 0" using halted_complete [OF inv h] by (simp add: cntl_def cnt_zero sz)
  have C: "cnt has_glass (NCUSTOMERS z) (cust st) = 0" "cnt at_up (NCUSTOMERS z) (cust st) = 0"
      "cnt at_ready (NCUSTOMERS z) (cust st) = 0" "cnt got_order (NCUSTOMERS z) (cust st) = 0" using nc by (simp_all add: cnt_zero)
  have B: "cnt with_glass (NBARTENDERS z) (bart st) = 0" "cnt at_fill (NBARTENDERS z) (bart st) = 0"
      "cnt at_take (NBARTENDERS z) (bart st) = 0" using nb by (simp_all add: cnt_zero)
  show "0 < emptyglasses st"
    using I(2) cntl_compl [of "\<lambda>g. gstate g = 0" "glasses st"] sz z cm C B by (simp add: tok_inv_def bar_ok_def)
  show "cntl (\<lambda>d. ostate d = 1) (orders st) = int (ordersready st)" using I(2) C B by (simp add: tok_inv_def)
  assume "\<And>b. b < NBARTENDERS z \<Longrightarrow> \<not> with_order (bart st b)"
  then have "cnt with_order (NBARTENDERS z) (bart st) = 0" by (simp add: cnt_zero)
  then show "cntl (\<lambda>d. ostate d = 2) (orders st) = 0" using I(2) cm C by (simp add: tok_inv_def)
qed

lemma halted_threads:
  assumes inv: "bar_inv z st" and z: "bar_ok z" and h: "halted z st" and e: "main_at st \<noteq> M_end"
  shows "c < NCUSTOMERS z \<Longrightarrow> cust st c = C_gone \<or> (\<exists>x i. cust st c = Submit x (S_wait i)) \<or> ndrinkerslock st \<noteq> None \<and> cust st c = H_lock"
    "b < NBARTENDERS z \<Longrightarrow> bart st b = B_gone \<or> bart st b = Take T_wait \<and> ordersready st = 0"
    "alldone st = 0 \<and> waited z (main_at st) < NCUSTOMERS z + NBARTENDERS z"
proof -
  note m = bar_invD(5) [OF inv] and nol = halted_locks [OF inv h]
  have "createbar True z st = Block" using haltedD(3) [OF h] .
  then obtain i where i: "main_at st = M_wait i" "alldone st = 0" "i < NCUSTOMERS z + NBARTENDERS z"
    using e by (auto simp: createbar_def bar_close_def split: main_pc.splits if_splits)
  then show "alldone st = 0 \<and> waited z (main_at st) < NCUSTOMERS z + NBARTENDERS z" by simp
  show "cust st c = C_gone \<or> (\<exists>x i. cust st c = Submit x (S_wait i)) \<or> ndrinkerslock st \<noteq> None \<and> cust st c = H_lock" if "c < NCUSTOMERS z"
    using customer_Block [OF haltedD(1) [OF h that]] nol m i that by (auto simp: main_inv_def)
  show "bart st b = B_gone \<or> bart st b = Take T_wait \<and> ordersready st = 0" if "b < NBARTENDERS z"
    using bartender_Block [OF haltedD(2) [OF h that]] nol halted_counts(1) [OF inv z h] m i that by (auto simp: main_inv_def)
qed

lemma halted_waiting:
  assumes inv: "bar_inv z st" and z: "bar_ok z" and h: "halted z st" and e: "main_at st \<noteq> M_end"
    and c: "c < NCUSTOMERS z" "cust st c = Submit x (S_wait i)"
  shows "\<forall>b < NBARTENDERS z. bart st b = B_gone"
proof -
  note I = bar_invD [OF inv] and T = halted_threads [OF inv z h e]
  have sz: "length (orders st) = NCUSTOMERS z" using own_invD(1) [OF I(1)] by (simp add: sizes_ok_def)
  have i: "i < length (orders st)" "ostate (orders st ! i) \<in> {1, 2}" using own_invD(2) [OF I(1) c(1)] c(2) by (simp_all add: Let_def)
  have "\<not> with_order (bart st b)" if "b < NBARTENDERS z" for b using T(2) [OF that] by auto
  from halted_counts(3) [OF inv z h this] i have "ostate (orders st ! i) = 1" by (auto simp: cntl_def cnt_zero)
  with i have "0 < cntl (\<lambda>d. ostate d = 1) (orders st)" by (auto simp: cntl_def cnt_pos)
  then have "0 < ordersready st" using halted_counts(2) [OF inv z h] by simp
  with T(2) show ?thesis by auto
qed

lemma halted_last:
  assumes inv: "bar_inv z st" and z: "bar_ok z" and h: "halted z st" and e: "main_at st \<noteq> M_end"
  shows "\<exists>c < NCUSTOMERS z. \<exists>k i. cust st c = Submit (Home k) (S_wait i) \<and> (\<forall>x < NCUSTOMERS z. x \<noteq> c \<longrightarrow> cust st x = C_gone)"
proof -
  note I = bar_invD [OF inv] and T = halted_threads [OF inv z h e]
  have NB: "0 < NBARTENDERS z" using z by (simp add: bar_ok_def)
  show ?thesis
  proof (cases "\<exists>c < NCUSTOMERS z. \<exists>x i. cust st c = Submit x (S_wait i)")
    case True
    then obtain c x i where c: "c < NCUSTOMERS z" "cust st c = Submit x (S_wait i)" by blast
    have "ndrinkers st = 0" using home_invD(4) [OF I(4) NB] halted_waiting [OF inv z h e c] NB by blast
    then have nd: "\<not> drinker (cust st y)" if "y < NCUSTOMERS z" for y using home_invD(1) [OF I(4)] that by (simp add: cnt_zero)
    obtain k where x: "x = Home k" using nd [OF c(1)] c(2) by (cases x) auto
    have "cust st y = C_gone" if y: "y < NCUSTOMERS z" "y \<noteq> c" for y
    proof (rule ccontr)
      assume "cust st y \<noteq> C_gone"
      then obtain x' j where "cust st y = Submit x' (S_wait j)" using T(1) [OF y(1)] nd [OF y(1)] by auto
      then have "locks_c (cust st y) L_drinkers" using nd [OF y(1)] by auto
      moreover have "locks_c (cust st c) L_drinkers" using c x by simp
      ultimately show False using owner_c(3) [OF I(3) y(1)] owner_c(3) [OF I(3) c(1)] y(2) by simp
    qed
    with c x show ?thesis by blast
  next
    case False
    have "owner_of st L_drinkers = None"
      by (rule no_owner [OF I(3)]) (use T(1,2) False in fastforce)+
    then have g: "cust st c = C_gone" if "c < NCUSTOMERS z" for c using T(1) [OF that] False that by auto
    then have "ndrinkers st = 0" using home_invD(1) [OF I(4)] by (simp add: cnt_zero)
    then have "bart st b = B_gone" if "b < NBARTENDERS z" for b using home_invD(5) [OF I(4) _ _ that] g T(2) [OF that] by auto
    with g have "cnt (\<lambda>p. p = C_gone) (NCUSTOMERS z) (cust st) = int (NCUSTOMERS z)"
        "cnt (\<lambda>p. p = B_gone) (NBARTENDERS z) (bart st) = int (NBARTENDERS z)" by (simp_all add: cnt_full)
    with I(5) T(3) show ?thesis by (simp add: main_inv_def)
  qed
qed

end
