(* ===== verification/Bar_spec.thy ===== *)
theory Bar_spec
  imports Bar_inv
begin

text \<open>
  What the bar promises: no panic, the right drink in the right hands, an end to every run, and the one way in
  which it ends without being closed, together with the run that shows it. Every step is a call on the locks and semaphores that
  \<^verbatim>\<open>Synch\<close> specifies.
\<close>

section \<open>Every run ends\<close>

text \<open>
  The steps a thread can still make. An order that was submitted is worth the twelve steps of the bartender that takes it.
\<close>

primrec submit_left :: "submit_pc \<Rightarrow> nat" where
  "submit_left S_lock = 29" | "submit_left S_slot = 28" | "submit_left (S_ready i) = 27" | "submit_left (S_wait i) = 14"
| "submit_left (S_glass i) = 13" | "submit_left (S_number i g) = 12" | "submit_left (S_lock3 i g) = 11"
| "submit_left (S_set3 i g) = 10" | "submit_left (S_out g) = 0"

primrec return_left :: "return_pc \<Rightarrow> nat" where
  "return_left (R_lock g) = 8" | "return_left (R_empty g) = 7" | "return_left (R_up n) = 6" | "return_left (R_lock0 n) = 5"
| "return_left (R_set0 n) = 4" | "return_left R_out = 0"

primrec visits_left :: "bar_size \<Rightarrow> visit \<Rightarrow> nat" where
  "visits_left z (Round k) = 30 * (4 - k) + 30 * NBARTENDERS z + 5"
| "visits_left z (Home k) = 30 * (NBARTENDERS z - Suc k) + 3"

primrec cust_left :: "bar_size \<Rightarrow> cust_pc \<Rightarrow> nat" where
  "cust_left z C_new = 30 * NBARTENDERS z + 155"
| "cust_left z (Submit x s) = submit_left s + visits_left z x"
| "cust_left z (Drink k g) = 9 + visits_left z (Round k)"
| "cust_left z (Return x r) = return_left r + visits_left z x"
| "cust_left z H_lock = 30 * NBARTENDERS z + 5"
| "cust_left z H_dec = 30 * NBARTENDERS z + 4"
| "cust_left z H_unlock = 3"
| "cust_left z C_end = 1"
| "cust_left z C_gone = 0"

primrec take_left :: "take_pc \<Rightarrow> nat" where
  "take_left T_wait = 2" | "take_left T_lock = 13" | "take_left T_take = 12" | "take_left (T_out i) = 0"

primrec fill_left :: "fill_pc \<Rightarrow> nat" where
  "fill_left F_await = 11" | "fill_left F_lock = 10" | "fill_left F_take = 9" | "fill_left (F_set g) = 8"
| "fill_left (F_pourlock g) = 7" | "fill_left (F_pour g) = 6" | "fill_left F_out = 0"

primrec bart_left :: "bart_pc \<Rightarrow> nat" where
  "bart_left B_new = 4" | "bart_left B_check = 3" | "bart_left (Take s) = take_left s" | "bart_left (Fill d s) = fill_left s"
| "bart_left (Serve d) = 5" | "bart_left B_end = 1" | "bart_left B_gone = 0"

primrec main_left :: "bar_size \<Rightarrow> main_pc \<Rightarrow> nat" where
  "main_left z (M_bart i) = 2 * NCUSTOMERS z + NBARTENDERS z + (NBARTENDERS z - i) + 4"
| "main_left z (M_cust i) = NCUSTOMERS z + NBARTENDERS z + (NCUSTOMERS z - i) + 3"
| "main_left z (M_wait i) = (NCUSTOMERS z + NBARTENDERS z - i) + 2"
| "main_left z M_close = 1"
| "main_left z M_end = 0"

definition tot :: "('a \<Rightarrow> nat) \<Rightarrow> nat \<Rightarrow> (nat \<Rightarrow> 'a) \<Rightarrow> int" where
  "tot f n g = (\<Sum>i<n. int (f (g i)))"

definition effort :: "bar_size \<Rightarrow> bar \<Rightarrow> int" where
  "effort z st = tot (cust_left z) (NCUSTOMERS z) (cust st) + tot bart_left (NBARTENDERS z) (bart st) +
     12 * int (ordersready st) + int (main_left z (main_at st))"

lemma tot_upd [simp]: "i < n \<Longrightarrow> tot f n (g(i := x)) = tot f n g - int (f (g i)) + int (f x)"
proof -
  assume i: "i < n"
  then have fin: "finite {..<n}" "i \<in> {..<n}" by simp_all
  have "(\<Sum>j\<in>{..<n} - {i}. int (f ((g(i := x)) j))) = (\<Sum>j\<in>{..<n} - {i}. int (f (g j)))" by (rule sum.cong) auto
  then show ?thesis unfolding tot_def sum.remove [OF fin] by simp
qed

lemma tot_nonneg [simp]: "0 \<le> tot f n g"
  by (simp add: tot_def sum_nonneg)

lemma effort_nonneg [simp]: "0 \<le> effort z st"
  by (simp add: effort_def)

lemma after_left: "cust_left z (after_submit x g) < submit_left (S_set3 i g) + visits_left z x"
  "cust_left z (after_return z x) < return_left (R_set0 n) + visits_left z x"
  by (cases x; auto)+

lemma effort_customer:
  assumes inv: "bar_inv z st" and c: "c < NCUSTOMERS z" and go: "customer z c st = Go st'"
  shows "effort z st' < effort z st"
  using go
proof (cases rule: customer_moves)
  case (s_lost x) with slot_free [OF bar_invD(1,2) [OF inv] c] show ?thesis by simp
next
  case (s_out x g) with own_invD(2) [OF bar_invD(1) [OF inv] c] show ?thesis by simp
next
  case (r_out x) with own_invD(2) [OF bar_invD(1) [OF inv] c] show ?thesis by simp
next
  case (s_set3 x i g) with c after_left(1) [of z x g i] show ?thesis by (simp add: effort_def cust_at_def)
next
  case (r_set0 x n) with c after_left(2) [of z x n] show ?thesis by (simp add: effort_def cust_at_def)
next
  case h_dec with c show ?thesis by (auto simp: effort_def cust_at_def)
qed (use c in \<open>simp_all add: effort_def cust_at_def\<close>)

lemma effort_bartender:
  assumes inv: "bar_inv z st" and b: "b < NBARTENDERS z" and go: "bartender b st = Go st'"
  shows "effort z st' < effort z st"
  using go
proof (cases rule: bartender_moves)
  case (t_out x) with own_invD(3) [OF bar_invD(1) [OF inv] b] show ?thesis by simp
next
  case (f_out x) with own_invD(3) [OF bar_invD(1) [OF inv] b] show ?thesis by simp
qed (use b in \<open>simp_all add: effort_def bart_at_def\<close>)

lemma effort_main:
  assumes inv: "bar_inv z st" and go: "createbar ok z st = Go st'"
  shows "effort z st' < effort z st"
proof -
  have n: "bart st i = B_new" if "main_at st = M_bart i" "i < NBARTENDERS z" for i using bar_invD(5) [OF inv] that by (simp add: main_inv_def)
  have m: "cust st i = C_new" if "main_at st = M_cust i" "i < NCUSTOMERS z" for i using bar_invD(5) [OF inv] that by (simp add: main_inv_def)
  show ?thesis using go n m
    by (cases "main_at st") (auto simp: createbar_def bar_close_def effort_def cust_at_def bart_at_def of_nat_diff split: if_splits)
qed

lemma effort_step:
  assumes "bar_inv z st" and "turn_of z w st = Go st'"
  shows "effort z st' < effort z st"
  using assms effort_customer effort_bartender effort_main by (cases w) (auto split: if_splits)

text \<open>The run of a given schedule: each thread named must be able to go on.\<close>

fun bar_run :: "bar_size \<Rightarrow> who list \<Rightarrow> bar \<Rightarrow> bar option" where
  "bar_run z [] st = Some st"
| "bar_run z (w # ws) st = (case turn_of z w st of Go st' \<Rightarrow> bar_run z ws st' | _ \<Rightarrow> None)"

lemma bar_run_effort:
  assumes z: "bar_ok z"
  shows "bar_inv z st \<Longrightarrow> bar_run z ws st = Some st' \<Longrightarrow> int (length ws) + effort z st' \<le> effort z st"
proof (induction ws arbitrary: st)
  case (Cons w ws)
  then obtain st1 where "turn_of z w st = Go st1" "bar_run z ws st1 = Some st'" by (auto split: out.splits)
  with Cons.IH [OF bar_inv_step [OF z Cons.prems(1)]] effort_step [OF Cons.prems(1)] show ?case by force
qed simp

lemma bar_run_reach: "bar_reach z st \<Longrightarrow> bar_run z ws st = Some st' \<Longrightarrow> bar_reach z st'"
  by (induction ws arbitrary: st) (auto split: out.splits intro: bar_reach_step)

section \<open>The run in which the last customer never leaves\<close>

text \<open>A bar in which nothing goes on: the first slot and the first glass are free.\<close>

definition idle :: "bar \<Rightarrow> bool" where
  "idle st \<longleftrightarrow> (\<exists>d ds g gs. orders st = d # ds \<and> ostate d = 0 \<and> glasses st = g # gs \<and> gstate g = 0 \<and> contents3 g = [0, 0, 0]) \<and>
     (\<exists>ns. ordercomplete st = 0 # ns) \<and> ordersready st = 0 \<and> 0 < emptyglasses st \<and> length (bottles st) = NBOTTLES \<and>
     orderslock st = None \<and> glassarraylock st = None \<and> bottleslock st = None"

text \<open>One customer is served by the first bartender, from one visit to the next.\<close>

definition one_round :: "nat \<Rightarrow> who list" where
  "one_round c = [A_cust c, A_cust c, A_cust c,
     A_bart 0, A_bart 0, A_bart 0, A_bart 0, A_bart 0, A_bart 0, A_bart 0, A_bart 0, A_bart 0, A_bart 0, A_bart 0,
     A_cust c, A_cust c, A_cust c, A_cust c, A_cust c, A_cust c, A_cust c, A_cust c, A_cust c, A_cust c, A_cust c]"

lemma round_runs:
  assumes i: "idle st" and c: "c < NCUSTOMERS z" "cust st c = Submit (Round k) S_lock" and b: "0 < NBARTENDERS z" "bart st 0 = B_check"
    and n: "ndrinkers st \<noteq> 0"
  shows "\<exists>st'. bar_run z (one_round c) st = Some st' \<and> idle st' \<and> cust st' = (cust st)(c := after_return z (Round k)) \<and>
    bart st' = bart st \<and> ndrinkers st' = ndrinkers st \<and> alldone st' = alldone st \<and> main_at st' = main_at st \<and> ndrinkerslock st' = ndrinkerslock st"
proof -
  obtain d ds g gs ns where s: "orders st = d # ds" "ostate d = 0" "glasses st = g # gs" "gstate g = 0" "contents3 g = [0, 0, 0]"
      "ordercomplete st = 0 # ns" "ordersready st = 0" "0 < emptyglasses st" "length (bottles st) = NBOTTLES"
      "orderslock st = None" "glassarraylock st = None" "bottleslock st = None"
    using i unfolding idle_def by blast
  obtain bs where p: "pour (drink_of c (Round k)) [0, 0, 0] (bottles st) = Some (poured (drink_of c (Round k)), bs)" "length bs = NBOTTLES"
    using pour_spec [of "drink_of c (Round k)" "bottles st"] s(9) poured_drink(2,3) [of c "Round k"] by (metis (no_types))
  have [simp]: "(bart st)(0 := B_check) = bart st" using b(2) by auto
  show ?thesis
    unfolding one_round_def
    using s c b n p
    by (simp add: customer_def bartender_def cust_at_def bart_at_def submitted_def returned_def took_def filled_pc_def acquire_def release_def
        set_order_def set_glass_def rd_def wr_def serve_order_def drinkers_def idle_def del: drink_of.simps after_return.simps poured_drink)
qed

lemma bar_run_append: "bar_run z (us @ ws) st = (case bar_run z us st of None \<Rightarrow> None | Some st' \<Rightarrow> bar_run z ws st')"
  by (induction us arbitrary: st) (auto split: out.splits)

text \<open>The rounds that are left to a customer, up to \<^verbatim>\<open>crawl_home\<close>.\<close>

lemma rounds_run:
  assumes "idle st" and c: "c < NCUSTOMERS z" "cust st c = Submit (Round k) S_lock" and b: "0 < NBARTENDERS z" "bart st 0 = B_check"
    and n: "ndrinkers st \<noteq> 0" and k: "k < 5"
  shows "\<exists>ws st'. bar_run z ws st = Some st' \<and> idle st' \<and> cust st' = (cust st)(c := H_lock) \<and>
    bart st' = bart st \<and> ndrinkers st' = ndrinkers st \<and> alldone st' = alldone st \<and> main_at st' = main_at st \<and> ndrinkerslock st' = ndrinkerslock st"
  using assms
proof (induction "4 - k" arbitrary: k st)
  case 0
  then have "after_return z (Round k) = H_lock" by simp
  with round_runs [OF 0(2-7)] show ?case by metis
next
  case (Suc j)
  then have a: "after_return z (Round k) = Submit (Round (Suc k)) S_lock" by simp
  obtain st1 where 1: "bar_run z (one_round c) st = Some st1" "idle st1" "cust st1 = (cust st)(c := Submit (Round (Suc k)) S_lock)"
      "bart st1 = bart st" "ndrinkers st1 = ndrinkers st" "alldone st1 = alldone st" "main_at st1 = main_at st" "ndrinkerslock st1 = ndrinkerslock st"
    using round_runs [OF Suc(3-8)] unfolding a by blast
  have "j = 4 - Suc k" "Suc k < 5" "cust st1 c = Submit (Round (Suc k)) S_lock" using Suc(2) 1(3) by simp_all
  from Suc(1) [OF this(1) 1(2) c(1) this(3) b(1) _ _ this(2)] 1 Suc.prems obtain ws st2 where
    2: "bar_run z ws st1 = Some st2" "idle st2" "cust st2 = (cust st1)(c := H_lock)"
      "bart st2 = bart st" "ndrinkers st2 = ndrinkers st" "alldone st2 = alldone st" "main_at st2 = main_at st" "ndrinkerslock st2 = ndrinkerslock st"
    by auto
  have "bar_run z (one_round c @ ws) st = Some st2" using 1(1) 2(1) by (simp add: bar_run_append)
  with 2 1(3) show ?case by (metis fun_upd_upd)
qed

text \<open>Running on, the bar halts.\<close>

lemma bar_halts:
  assumes z: "bar_ok z" and keep: "\<And>w s s'. q s \<Longrightarrow> turn_of z w s = Go s' \<Longrightarrow> q s'"
  shows "bar_inv z st \<Longrightarrow> q st \<Longrightarrow> \<exists>ws st'. bar_run z ws st = Some st' \<and> halted z st' \<and> q st'"
proof (induction "nat (effort z st)" arbitrary: st rule: less_induct)
  case less
  show ?case
  proof (cases "halted z st")
    case True
    then show ?thesis using less.prems(2) by (metis bar_run.simps(1))
  next
    case False
    then obtain w where "turn_of z w st \<noteq> Block" by (auto simp: halted_def)
    moreover have "turn_of z w st \<noteq> Panic"
      using customer_safe [OF less.prems(1)] bartender_safe [OF less.prems(1)] createbar_safe [OF less.prems(1)] by (cases w) auto
    ultimately obtain st1 where 1: "turn_of z w st = Go st1" by (cases "turn_of z w st") auto
    have "nat (effort z st1) < nat (effort z st)" using effort_step [OF less.prems(1) 1] effort_nonneg [of z st1] by linarith
    from less.hyps [OF this bar_inv_step [OF z less.prems(1) 1] keep [OF less.prems(2) 1]]
    obtain ws st' where "bar_run z ws st1 = Some st'" "halted z st'" "q st'" by blast
    with 1 show ?thesis by (intro exI [of _ "w # ws"] exI [of _ st']) simp
  qed
qed

text \<open>Everybody has been started, the first \<open>n\<close> customers have left.\<close>

definition left_bar :: "bar_size \<Rightarrow> nat \<Rightarrow> bar \<Rightarrow> bool" where
  "left_bar z n st \<longleftrightarrow> bar_reach z st \<and> idle st \<and> ndrinkerslock st = None \<and> ndrinkers st = int (NCUSTOMERS z) - int n \<and>
     (\<forall>c < n. cust st c = C_gone) \<and> (\<forall>c < NCUSTOMERS z. n \<le> c \<longrightarrow> cust st c = Submit (Round 0) S_lock) \<and>
     (\<forall>b < NBARTENDERS z. bart st b = B_check)"

definition starting :: "bar_size \<Rightarrow> main_pc \<Rightarrow> bar \<Rightarrow> bool" where
  "starting z m st \<longleftrightarrow> bar_reach z st \<and> idle st \<and> ndrinkerslock st = None \<and> ndrinkers st = int (NCUSTOMERS z) \<and> main_at st = m \<and>
     (\<forall>b < fst (forked z m). bart st b = B_check) \<and> (\<forall>c < snd (forked z m). cust st c = Submit (Round 0) S_lock)"

lemma idle_same: "idle st \<Longrightarrow> idle (st\<lparr>main_at := m\<rparr>)" "idle st \<Longrightarrow> idle (bart_at b p st)" "idle st \<Longrightarrow> idle (cust_at c (q, st))"
  by (simp_all add: idle_def bart_at_def cust_at_def)

lemma starting_step:
  assumes "starting z m st" and "createbar True z st = Go st'"
    and "idle st'" "ndrinkerslock st' = None" "ndrinkers st' = ndrinkers st" "main_at st' = m'"
    and "\<forall>b < fst (forked z m'). bart st' b = B_check" "\<forall>c < snd (forked z m'). cust st' c = Submit (Round 0) S_lock"
  shows "starting z m' st'"
  using assms bar_reach_step [of z st A_main st'] by (simp add: starting_def)

lemma starting_barts:
  assumes z: "bar_ok z"
  shows "i \<le> NBARTENDERS z \<Longrightarrow> \<exists>st. starting z (M_bart i) st"
proof (induction i)
  case 0
  obtain st where st: "bar_open True z = Some st" by (simp add: bar_open_def)
  then have "starting z (M_bart 0) st"
    using z bar_reach_open [OF st] unfolding starting_def idle_def bar_ok_def
    by (cases "NCUSTOMERS z"; cases "NGLASSES z") (auto simp: bar_open_def)
  then show ?case by blast
next
  case (Suc i)
  then obtain st where o: "starting z (M_bart i) st" by auto
  let ?st = "bart_at i B_check (st\<lparr>main_at := M_bart (Suc i)\<rparr>)"
  have "createbar True z st = Go ?st" using o Suc.prems by (simp add: starting_def createbar_def)
  from starting_step [OF o this, of "M_bart (Suc i)"] o have "starting z (M_bart (Suc i)) ?st"
    using idle_same by (simp add: starting_def) (simp add: bart_at_def less_Suc_eq)
  then show ?case by blast
qed

lemma starting_custs:
  assumes z: "bar_ok z"
  shows "i \<le> NCUSTOMERS z \<Longrightarrow> \<exists>st. starting z (M_cust i) st"
proof (induction i)
  case 0
  obtain st where o: "starting z (M_bart (NBARTENDERS z)) st" using starting_barts [OF z] by blast
  have "createbar True z st = Go (st\<lparr>main_at := M_cust 0\<rparr>)" using o by (simp add: starting_def createbar_def)
  from starting_step [OF o this, of "M_cust 0"] o idle_same(1) have "starting z (M_cust 0) (st\<lparr>main_at := M_cust 0\<rparr>)"
    by (simp add: starting_def)
  then show ?case by blast
next
  case (Suc i)
  then obtain st where o: "starting z (M_cust i) st" by auto
  let ?st = "cust_at i (Submit (Round 0) S_lock, st\<lparr>main_at := M_cust (Suc i)\<rparr>)"
  have "createbar True z st = Go ?st" using o Suc.prems by (simp add: starting_def createbar_def)
  from starting_step [OF o this, of "M_cust (Suc i)"] o have "starting z (M_cust (Suc i)) ?st"
    using idle_same by (simp add: starting_def) (simp add: cust_at_def less_Suc_eq)
  then show ?case by blast
qed

lemma left_none: "bar_ok z \<Longrightarrow> \<exists>st. left_bar z 0 st"
  using starting_custs [of z "NCUSTOMERS z"] by (auto simp: starting_def left_bar_def)

lemma left_round:
  assumes l: "left_bar z n st" and n: "n < NCUSTOMERS z" and z: "bar_ok z"
  shows "\<exists>st'. bar_reach z st' \<and> idle st' \<and> cust st' = (cust st)(n := H_lock) \<and> bart st' = bart st \<and>
    ndrinkers st' = ndrinkers st \<and> ndrinkerslock st' = None"
proof -
  have "idle st" "cust st n = Submit (Round 0) S_lock" "0 < NBARTENDERS z" "bart st 0 = B_check" "ndrinkers st \<noteq> 0"
    using l n z by (auto simp: left_bar_def bar_ok_def)
  from rounds_run [OF this(1) n this(2-5)] l bar_run_reach [of z st] show ?thesis by (auto simp: left_bar_def)
qed

text \<open>A customer that is not the last one leaves.\<close>

lemma left_next:
  assumes l: "left_bar z n st" and n: "Suc n < NCUSTOMERS z" and z: "bar_ok z"
  shows "\<exists>st'. left_bar z (Suc n) st'"
proof -
  obtain st1 where 1: "bar_reach z st1" "idle st1" "cust st1 = (cust st)(n := H_lock)" "bart st1 = bart st"
      "ndrinkers st1 = ndrinkers st" "ndrinkerslock st1 = None"
    using left_round [OF l _ z] n by auto
  have i: "int32 (ndrinkers st - 1) = ndrinkers st - 1" using l n z by (intro int32_id) (simp_all add: left_bar_def bar_ok_def)
  let ?st = "st1\<lparr>ndrinkers := ndrinkers st - 1, ndrinkerslock := None, alldone := Suc (alldone st1), cust := (cust st)(n := C_gone)\<rparr>"
  have "bar_run z [A_cust n, A_cust n, A_cust n, A_cust n] st1 = Some ?st"
    using 1 n l i by (simp add: left_bar_def customer_def crawl_home_def acquire_def release_def cust_at_def Let_def)
  then have "bar_reach z ?st" using bar_run_reach [OF 1(1)] by blast
  moreover have "idle ?st" using 1(2) by (simp add: idle_def)
  ultimately have "left_bar z (Suc n) ?st" using l 1(4,5) by (auto simp: left_bar_def less_Suc_eq)
  then show ?thesis by blast
qed

lemma left_all_but_one: "bar_ok z \<Longrightarrow> n < NCUSTOMERS z \<Longrightarrow> \<exists>st. left_bar z n st"
proof (induction n)
  case (Suc n)
  then show ?case using left_next [of z n] by (meson Suc_lessD)
qed (rule left_none)

text \<open>
  The last customer waits for an empty order while no bartender is going to take another one.
\<close>

definition abandoned :: "bar_size \<Rightarrow> bar \<Rightarrow> bool" where
  "abandoned z st \<longleftrightarrow> (\<exists>c < NCUSTOMERS z. cust st c = Submit (Home 0) (S_wait 0) \<and> (\<forall>x < NCUSTOMERS z. x \<noteq> c \<longrightarrow> cust st x = C_gone)) \<and>
     (\<exists>ns. ordercomplete st = 0 # ns) \<and> ndrinkers st = 0 \<and> (\<forall>b < NBARTENDERS z. bart st b \<in> {B_check, B_end, B_gone})"

lemma abandoned_step:
  assumes z: "bar_ok z" and a: "bar_inv z st" "abandoned z st" and go: "turn_of z w st = Go st'"
  shows "abandoned z st'"
proof -
  obtain c ns where c: "c < NCUSTOMERS z" "cust st c = Submit (Home 0) (S_wait 0)" "\<And>x. x < NCUSTOMERS z \<Longrightarrow> x \<noteq> c \<Longrightarrow> cust st x = C_gone"
      "ordercomplete st = 0 # ns" "ndrinkers st = 0" "\<And>b. b < NBARTENDERS z \<Longrightarrow> bart st b \<in> {B_check, B_end, B_gone}"
    using a(2) unfolding abandoned_def by blast
  show ?thesis
  proof (cases w)
    case (A_cust x)
    with go have x: "x < NCUSTOMERS z" "customer z x st = Go st'" by (simp_all split: if_splits)
    then show ?thesis using c(2,4) c(3) [OF x(1)] by (cases "x = c") (simp_all add: customer_def rd_def)
  next
    case (A_bart b)
    with go have b: "b < NBARTENDERS z" "bartender b st = Go st'" by (simp_all split: if_splits)
    from b(2) c(5) c(6) [OF b(1)] have "(bart st' = (bart st)(b := B_end) \<or> bart st' = (bart st)(b := B_gone)) \<and>
        cust st' = cust st \<and> ordercomplete st' = ordercomplete st \<and> ndrinkers st' = ndrinkers st"
      by (cases rule: bartender_moves) (auto simp: bart_at_def)
    moreover from this have "\<forall>x < NBARTENDERS z. bart st' x \<in> {B_check, B_end, B_gone}" using c(6) by (metis fun_upd_apply insertCI)
    ultimately show ?thesis using a(2) unfolding abandoned_def by auto
  next
    case A_main
    have b: "NBARTENDERS z \<le> i" if "main_at st = M_bart i" for i
    proof (rule ccontr)
      assume "\<not> NBARTENDERS z \<le> i"
      with bar_invD(5) [OF a(1)] that have "bart st i = B_new" "i < NBARTENDERS z" by (simp_all add: main_inv_def)
      with c(6) [of i] show False by simp
    qed
    have d: "NCUSTOMERS z \<le> i" if "main_at st = M_cust i" for i
    proof (rule ccontr)
      assume "\<not> NCUSTOMERS z \<le> i"
      with bar_invD(5) [OF a(1)] that have "cust st i = C_new" "i < NCUSTOMERS z" by (simp_all add: main_inv_def)
      with c(2) c(3) [of i] show False by (cases "i = c") simp_all
    qed
    from b d go A_main have "bart st' = bart st \<and> cust st' = cust st \<and> ordercomplete st' = ordercomplete st \<and> ndrinkers st' = ndrinkers st"
      by (cases "main_at st") (auto simp: createbar_def bar_close_def split: if_splits)
    then show ?thesis using a(2) unfolding abandoned_def by auto
  qed
qed

lemma last_abandoned:
  assumes z: "bar_ok z"
  shows "\<exists>st. bar_reach z st \<and> abandoned z st"
proof -
  let ?n = "NCUSTOMERS z - 1"
  have n: "?n < NCUSTOMERS z" using z by (simp add: bar_ok_def)
  obtain st where l: "left_bar z ?n st" using left_all_but_one [OF z n] by blast
  have nd: "ndrinkers st = 1" using l n by (simp add: left_bar_def of_nat_diff)
  obtain st1 where 1: "bar_reach z st1" "idle st1" "cust st1 = (cust st)(?n := H_lock)" "bart st1 = bart st"
      "ndrinkers st1 = 1" "ndrinkerslock st1 = None"
    using left_round [OF l n z] nd by auto
  obtain d ds g gs ns where s: "orders st1 = d # ds" "ostate d = 0" "ordercomplete st1 = 0 # ns" "orderslock st1 = None"
    using 1(2) unfolding idle_def by blast
  define st2 where "st2 = st1\<lparr>ndrinkers := 0, ndrinkerslock := Some (Cust ?n), orders := d\<lparr>ing := [0, 0, 0], ostate := 1, onumber := 0\<rparr> # ds,
     orderslock := None, ordersready := Suc (ordersready st1), cust := (cust st)(?n := Submit (Home 0) (S_wait 0))\<rparr>"
  have "bar_run z [A_cust ?n, A_cust ?n, A_cust ?n, A_cust ?n, A_cust ?n] st1 = Some st2"
    using 1 s n z by (simp add: st2_def bar_ok_def customer_def crawl_home_def acquire_def release_def cust_at_def submitted_def Let_def)
  then have "bar_reach z st2" using bar_run_reach [OF 1(1)] by blast
  moreover have "abandoned z st2" unfolding abandoned_def
  proof (intro conjI exI [of _ ?n])
    show "\<forall>x < NCUSTOMERS z. x \<noteq> ?n \<longrightarrow> cust st2 x = C_gone" using l n by (auto simp: st2_def left_bar_def)
    show "\<forall>b < NBARTENDERS z. bart st2 b \<in> {B_check, B_end, B_gone}" using l 1(4) by (simp add: st2_def left_bar_def)
  qed (use n s in \<open>simp_all add: st2_def\<close>)
  ultimately show ?thesis by blast
qed

section \<open>The bar on the locks and semaphores of Synch\<close>

text \<open>
  The bar's locks and semaphores as abstract objects of \<^verbatim>\<open>Synch\<close>: locks 0 to 3, the semaphores \<^verbatim>\<open>emptyglasses\<close>, \<^verbatim>\<open>ordersready\<close>, \<^verbatim>\<open>alldone\<close> and one
  for each order. A thread is known there by its address.
\<close>

definition lock_table :: "bar_lock list" where
  "lock_table = [L_orders, L_glasses, L_bottles, L_drinkers]"

primrec who_of :: "tid \<Rightarrow> who" where
  "who_of (Cust c) = A_cust c"
| "who_of (Bart b) = A_bart b"

definition bar_locks :: "(who \<Rightarrow> nat) \<Rightarrow> bar \<Rightarrow> nat \<rightharpoonup> nat option" where
  "bar_locks addr st = (\<lambda>l. if l < 4 then Some (map_option (\<lambda>t. addr (who_of t)) (owner_of st (lock_table ! l))) else None)"

definition bar_sems :: "bar \<Rightarrow> nat \<rightharpoonup> int" where
  "bar_sems st = (\<lambda>s. map_option int (rd (emptyglasses st # ordersready st # alldone st # ordercomplete st) s))"

definition bar_objects :: "(who \<Rightarrow> nat) \<Rightarrow> bar \<Rightarrow> objects" where
  "bar_objects addr st = (bar_locks addr st, bar_sems st)"

text \<open>The calls a thread can make on its own behalf.\<close>

fun call_by :: "nat \<Rightarrow> event \<Rightarrow> bool" where
  "call_by t (Acq u l) = (u = t)"
| "call_by t (Rel u l) = (u = t)"
| "call_by t (Down u s) = (u = t)"
| "call_by t (Up s) = True"
| "call_by t _ = False"

definition one_call :: "nat \<Rightarrow> (who \<Rightarrow> nat) \<Rightarrow> bar \<Rightarrow> bar \<Rightarrow> bool" where
  "one_call a addr st st' \<longleftrightarrow> bar_objects addr st' = bar_objects addr st \<or> (\<exists>e. call_by a e \<and> accept e (bar_objects addr st) = Some (bar_objects addr st'))"

lemma lock_table_inj: "l < 4 \<Longrightarrow> k < 4 \<Longrightarrow> lock_table ! l = lock_table ! k \<longleftrightarrow> l = k"
  by (auto simp: lock_table_def nth_Cons numeral_eq_Suc less_Suc_eq split: nat.splits)

lemma call_acquire:
  assumes "owner_of st l = None" and "owner_of st' = (owner_of st)(l := Some t)" and "bar_sems st' = bar_sems st" and "a = addr (who_of t)"
  shows "one_call a addr st st'"
proof -
  obtain k where k: "k < 4" "l = lock_table ! k" by (cases l) (auto simp: lock_table_def intro: that [of 0] that [of 1] that [of 2] that [of 3])
  then have "bar_locks addr st k = Some None" "bar_locks addr st' = (bar_locks addr st)(k \<mapsto> Some (addr (who_of t)))"
    using assms(1,2) lock_table_inj by (auto simp: bar_locks_def fun_eq_iff)
  then have "accept (Acq (addr (who_of t)) k) (bar_objects addr st) = Some (bar_objects addr st')" using assms(3) by (simp add: bar_objects_def)
  then show ?thesis unfolding one_call_def assms(4) by (metis call_by.simps)
qed

lemma call_release:
  assumes "owner_of st l = Some t" and "owner_of st' = (owner_of st)(l := None)" and "bar_sems st' = bar_sems st" and "a = addr (who_of t)"
  shows "one_call a addr st st'"
proof -
  obtain k where k: "k < 4" "l = lock_table ! k" by (cases l) (auto simp: lock_table_def intro: that [of 0] that [of 1] that [of 2] that [of 3])
  then have "bar_locks addr st k = Some (Some (addr (who_of t)))" "bar_locks addr st' = (bar_locks addr st)(k \<mapsto> None)"
    using assms(1,2) lock_table_inj by (auto simp: bar_locks_def fun_eq_iff)
  then have "accept (Rel (addr (who_of t)) k) (bar_objects addr st) = Some (bar_objects addr st')" using assms(3) by (simp add: bar_objects_def)
  then show ?thesis unfolding one_call_def assms(4) by (metis call_by.simps)
qed

lemma call_sem:
  assumes "bar_sems st s = Some n" and "bar_sems st' = (bar_sems st)(s \<mapsto> n') " and "n' = n + 1 \<or> 0 < n \<and> n' = n - 1"
    and "owner_of st' = owner_of st"
  shows "one_call a addr st st'"
proof -
  have l: "bar_locks addr st' = bar_locks addr st" by (simp only: bar_locks_def assms(4))
  have "accept (Up s) (bar_objects addr st) = Some (bar_objects addr st') \<or> accept (Down a s) (bar_objects addr st) = Some (bar_objects addr st')"
    using assms(1-3) l by (auto simp: bar_objects_def)
  then show ?thesis unfolding one_call_def by (metis call_by.simps)
qed

lemma call_none: "owner_of st' = owner_of st \<Longrightarrow> bar_sems st' = bar_sems st \<Longrightarrow> one_call a addr st st'"
  by (simp only: one_call_def bar_objects_def bar_locks_def simp_thms)

lemma owners_eq: "owner_of st' = f \<longleftrightarrow>
    orderslock st' = f L_orders \<and> glassarraylock st' = f L_glasses \<and> bottleslock st' = f L_bottles \<and> ndrinkerslock st' = f L_drinkers"
  by (auto simp: fun_eq_iff all_locks)

lemma sems_simps [simp]:
  "bar_sems (st\<lparr>emptyglasses := n\<rparr>) = (bar_sems st)(0 \<mapsto> int n)" "bar_sems (st\<lparr>ordersready := n\<rparr>) = (bar_sems st)(1 \<mapsto> int n)"
  "bar_sems (st\<lparr>alldone := n\<rparr>) = (bar_sems st)(2 \<mapsto> int n)"
  "i < length (ordercomplete st) \<Longrightarrow> bar_sems (st\<lparr>ordercomplete := (ordercomplete st)[i := n]\<rparr>) = (bar_sems st)(3 + i \<mapsto> int n)"
  by (auto simp: bar_sems_def rd_def fun_eq_iff nth_Cons numeral_eq_Suc nth_list_update split: nat.splits)

lemma sems_other [simp]:
  "bar_sems (st\<lparr>cust := u0\<rparr>) = bar_sems st"
  "bar_sems (st\<lparr>bart := u1\<rparr>) = bar_sems st"
  "bar_sems (st\<lparr>orders := u2\<rparr>) = bar_sems st"
  "bar_sems (st\<lparr>glasses := u3\<rparr>) = bar_sems st"
  "bar_sems (st\<lparr>bottles := u4\<rparr>) = bar_sems st"
  "bar_sems (st\<lparr>ndrinkers := u5\<rparr>) = bar_sems st"
  "bar_sems (st\<lparr>orderslock := u6\<rparr>) = bar_sems st"
  "bar_sems (st\<lparr>glassarraylock := u7\<rparr>) = bar_sems st"
  "bar_sems (st\<lparr>bottleslock := u8\<rparr>) = bar_sems st"
  "bar_sems (st\<lparr>ndrinkerslock := u9\<rparr>) = bar_sems st"
  "bar_sems (st\<lparr>main_at := u10\<rparr>) = bar_sems st"
  by (simp_all add: bar_sems_def)

lemma sems_at [simp]: "bar_sems st 0 = Some (int (emptyglasses st))" "bar_sems st (Suc 0) = Some (int (ordersready st))"
  "bar_sems st 2 = Some (int (alldone st))" "i < length (ordercomplete st) \<Longrightarrow> bar_sems st (3 + i) = Some (int (ordercomplete st ! i))"
  by (simp_all add: bar_sems_def rd_def numeral_eq_Suc)

lemma call_customer:
  assumes inv: "bar_inv z st" and c: "c < NCUSTOMERS z" and go: "customer z c st = Go st'"
  shows "one_call (addr (A_cust c)) addr st st'"
  using go
proof (cases rule: customer_moves)
  case (s_lock x)
  show ?thesis by (rule call_acquire [of st L_orders _ "Cust c"]) (simp_all add: s_lock cust_at_def owners_eq)
next
  case (s_slot x i)
  show ?thesis by (rule call_release [of st L_orders "Cust c"]) (simp_all add: s_slot cust_at_def owners_eq)
next
  case (s_lost x) with slot_free [OF bar_invD(1,2) [OF inv] c] show ?thesis by simp
next
  case (s_ready x i)
  show ?thesis by (rule call_sem [of st 1 "int (ordersready st)" _ "int (Suc (ordersready st))"]) (simp_all add: s_ready cust_at_def owners_eq)
next
  case (s_wait x i)
  show ?thesis by (rule call_sem [of st "3 + i" "int (ordercomplete st ! i)" _ "int (ordercomplete st ! i - 1)"]) (use s_wait in \<open>auto simp: cust_at_def owners_eq of_nat_diff\<close>)
next
  case (s_lock3 x i g)
  show ?thesis by (rule call_acquire [of st L_orders _ "Cust c"]) (simp_all add: s_lock3 cust_at_def owners_eq)
next
  case (s_set3 x i g)
  show ?thesis by (rule call_release [of st L_orders "Cust c"]) (simp_all add: s_set3 cust_at_def owners_eq)
next
  case (s_out x g) with own_invD(2) [OF bar_invD(1) [OF inv] c] show ?thesis by simp
next
  case (r_out x) with own_invD(2) [OF bar_invD(1) [OF inv] c] show ?thesis by simp
next
  case (r_lock x g)
  show ?thesis by (rule call_acquire [of st L_glasses _ "Cust c"]) (simp_all add: r_lock cust_at_def owners_eq)
next
  case (r_empty x g)
  show ?thesis by (rule call_release [of st L_glasses "Cust c"]) (simp_all add: r_empty cust_at_def owners_eq)
next
  case (r_up x n)
  show ?thesis by (rule call_sem [of st 0 "int (emptyglasses st)" _ "int (Suc (emptyglasses st))"]) (simp_all add: r_up cust_at_def owners_eq)
next
  case (r_lock0 x n)
  show ?thesis by (rule call_acquire [of st L_orders _ "Cust c"]) (simp_all add: r_lock0 cust_at_def owners_eq)
next
  case (r_set0 x n)
  show ?thesis by (rule call_release [of st L_orders "Cust c"]) (simp_all add: r_set0 cust_at_def owners_eq)
next
  case h_lock
  show ?thesis by (rule call_acquire [of st L_drinkers _ "Cust c"]) (simp_all add: h_lock cust_at_def owners_eq)
next
  case h_unlock
  show ?thesis by (rule call_release [of st L_drinkers "Cust c"]) (simp_all add: h_unlock cust_at_def owners_eq)
next
  case c_end
  show ?thesis by (rule call_sem [of st 2 "int (alldone st)" _ "int (Suc (alldone st))"]) (simp_all add: c_end cust_at_def owners_eq)
qed (rule call_none; simp add: cust_at_def owners_eq)+

lemma call_bartender:
  assumes inv: "bar_inv z st" and b: "b < NBARTENDERS z" and go: "bartender b st = Go st'"
  shows "one_call (addr (A_bart b)) addr st st'"
  using go
proof (cases rule: bartender_moves)
  case (t_out i) with own_invD(3) [OF bar_invD(1) [OF inv] b] show ?thesis by simp
next
  case (f_out d) with own_invD(3) [OF bar_invD(1) [OF inv] b] show ?thesis by simp
next
  case t_wait
  show ?thesis by (rule call_sem [of st 1 "int (ordersready st)" _ "int (ordersready st - 1)"]) (use t_wait in \<open>auto simp: bart_at_def owners_eq of_nat_diff\<close>)
next
  case t_lock
  show ?thesis by (rule call_acquire [of st L_orders _ "Bart b"]) (simp_all add: t_lock bart_at_def owners_eq)
next
  case (t_take i)
  show ?thesis by (rule call_release [of st L_orders "Bart b"]) (simp_all add: t_take bart_at_def owners_eq)
next
  case (f_wait d)
  show ?thesis by (rule call_sem [of st 0 "int (emptyglasses st)" _ "int (emptyglasses st - 1)"]) (use f_wait in \<open>auto simp: bart_at_def owners_eq of_nat_diff\<close>)
next
  case (f_lock d)
  show ?thesis by (rule call_acquire [of st L_glasses _ "Bart b"]) (simp_all add: f_lock bart_at_def owners_eq)
next
  case (f_take d g)
  show ?thesis by (rule call_release [of st L_glasses "Bart b"]) (simp_all add: f_take bart_at_def owners_eq)
next
  case (f_pourlock d g)
  show ?thesis by (rule call_acquire [of st L_bottles _ "Bart b"]) (simp_all add: f_pourlock bart_at_def owners_eq)
next
  case (f_pour d g cs bs)
  show ?thesis by (rule call_release [of st L_bottles "Bart b"]) (simp_all add: f_pour bart_at_def owners_eq)
next
  case (serve d n)
  show ?thesis by (rule call_sem [of st "3 + n" "int (ordercomplete st ! n)" _ "int (Suc (ordercomplete st ! n))"]) (simp_all add: serve(4,5) bart_at_def owners_eq)
next
  case b_end
  show ?thesis by (rule call_sem [of st 2 "int (alldone st)" _ "int (Suc (alldone st))"]) (simp_all add: b_end bart_at_def owners_eq)
qed (rule call_none; simp add: bart_at_def owners_eq)+

lemma call_main:
  assumes go: "createbar ok z st = Go st'"
  shows "one_call (addr A_main) addr st st'"
proof (cases "\<exists>i. main_at st = M_wait i \<and> i < NCUSTOMERS z + NBARTENDERS z")
  case True
  with go have st': "alldone st \<noteq> 0" "\<exists>m. st' = st\<lparr>alldone := alldone st - 1, main_at := m\<rparr>"
    by (auto simp: createbar_def split: if_splits)
  show ?thesis by (rule call_sem [of st 2 "int (alldone st)" _ "int (alldone st - 1)"]) (use st' in \<open>auto simp: owners_eq of_nat_diff\<close>)
next
  case False
  with go show ?thesis
    by (intro call_none) (auto simp: createbar_def bar_close_def cust_at_def bart_at_def owners_eq split: main_pc.splits if_splits)
qed

section \<open>The properties\<close>

text \<open>The sizes of \<^verbatim>\<open>bar.h\<close>.\<close>

definition bar_h :: bar_size where
  "bar_h = \<lparr>NGLASSES = 10, NCUSTOMERS = 10, NBARTENDERS = 3\<rparr>"

lemma bar_h_ok: "bar_ok bar_h"
  by (simp add: bar_ok_def bar_h_def)

text \<open>The first customer is started, orders and is served by the first bartender.\<close>

definition first_drink :: "who list" where
  "first_drink = [A_main, A_main, A_main, A_main, A_main, A_cust 0, A_cust 0, A_cust 0,
     A_bart 0, A_bart 0, A_bart 0, A_bart 0, A_bart 0, A_bart 0, A_bart 0, A_bart 0, A_bart 0, A_bart 0, A_bart 0,
     A_cust 0, A_cust 0, A_cust 0, A_cust 0, A_cust 0]"

lemma first_drink_run: "map_option (\<lambda>st. cust st 0) (bar_run bar_h first_drink (the (bar_open True bar_h))) = Some (Drink 0 0)"
  by code_simp

lemma first_drink_reach: "\<exists>st. bar_reach bar_h st \<and> bar_run bar_h first_drink (the (bar_open True bar_h)) = Some st \<and> cust st 0 = Drink 0 0"
proof -
  obtain st where st: "bar_run bar_h first_drink (the (bar_open True bar_h)) = Some st" "cust st 0 = Drink 0 0"
    using first_drink_run by auto
  have "bar_reach bar_h (the (bar_open True bar_h))" by (rule bar_reach_open) (simp add: bar_open_def)
  from bar_run_reach [OF this st(1)] st show ?thesis by blast
qed

text \<open>
  C11: whatever the order in which customers, bartenders and \<^verbatim>\<open>createbar\<close> run, no step of the bar panics or leaves an array: \<^verbatim>\<open>take_order\<close>
  finds an order, \<^verbatim>\<open>submit_order\<close> a slot, \<^verbatim>\<open>fill_order\<close> a glass; no lock is taken twice or released by another thread; and when
  \<^verbatim>\<open>bar_close\<close> is called nobody uses what it destroys.
\<close>

theorem bar_never_panics:
  assumes "bar_ok z" and "bar_reach z st"
  shows "turn_of z w st \<noteq> Panic"
proof -
  have inv: "bar_inv z st" using bar_reach_inv [OF assms] .
  show ?thesis using customer_safe [OF inv] bartender_safe [OF inv] createbar_safe [OF inv] by (cases w) auto
qed

theorem bar_never_panics_witness: "\<exists>st. bar_reach bar_h st \<and> cust st 0 = Drink 0 0 \<and> turn_of bar_h (A_cust 0) st \<noteq> Panic"
  using first_drink_reach bar_never_panics [OF bar_h_ok] by blast

text \<open>
  C12: a customer that drinks has in its glass the three ingredients it ordered, in the order in which it ordered them, and no
  other thread has the glass, a bartender that fills an order and a customer whose order is served included.
\<close>

theorem bar_serves_drink:
  assumes "bar_ok z" and "bar_reach z st" and "c < NCUSTOMERS z" and "cust st c = Drink k g"
  shows "g < NGLASSES z \<and> gstate (glasses st ! g) = 1 \<and> contents3 (glasses st ! g) = drink_of c (Round k) \<and>
    (\<forall>t. thread_of z t \<longrightarrow> t \<noteq> Cust c \<longrightarrow> held st t \<noteq> Some g)"
proof -
  have inv: "own_inv z st" using bar_invD(1) [OF bar_reach_inv [OF assms(1,2)]] .
  have "has st g (drink_of c (Round k))" using own_invD(2) [OF inv assms(3)] assms(4) poured_drink(4) [of c k] by (simp del: drink_of.simps)
  moreover have "held st t \<noteq> Some g" if "thread_of z t" "t \<noteq> Cust c" for t
    using own_invD(9) [OF inv that(1), of "Cust c" g] that(2) assms(3,4) by auto
  ultimately show ?thesis using own_invD(1) [OF inv] unfolding has_def sizes_ok_def by simp
qed

theorem bar_serves_drink_witness:
  "\<exists>st. bar_reach bar_h st \<and> cust st 0 = Drink 0 0 \<and> contents3 (glasses st ! 0) = [BAILEYS, GRAND_MARNIER, KAHLUA]"
  using first_drink_reach bar_serves_drink [OF bar_h_ok, of _ 0 0 0] by (force simp: bar_h_def)


lemma abandoned_halts:
  assumes z: "bar_ok z"
  shows "\<exists>st. bar_reach z st \<and> halted z st \<and> abandoned z st"
proof -
  obtain st where st: "bar_reach z st" "abandoned z st" using last_abandoned [OF z] by blast
  have inv: "bar_inv z st" using bar_reach_inv [OF z st(1)] .
  obtain ws st' where "bar_run z ws st = Some st'" "halted z st'" "bar_inv z st' \<and> abandoned z st'"
    using bar_halts [OF z, of "\<lambda>s. bar_inv z s \<and> abandoned z s", OF _ inv] bar_inv_step [OF z] abandoned_step [OF z] inv st(2) by blast
  with bar_run_reach [OF st(1)] show ?thesis by blast
qed




text \<open>
  C15: for every number of glasses, customers and bartenders there is a run in which the bar never closes: the last customer's \<^verbatim>\<open>crawl_home\<close>
  waits, with \<^verbatim>\<open>ndrinkerslock\<close> held, for an order that nobody will take, because the bartenders have gone home before it was submitted.
\<close>

theorem bar_may_never_close:
  assumes "bar_ok z"
  shows "\<exists>st c. bar_reach z st \<and> halted z st \<and> main_at st \<noteq> M_end \<and> c < NCUSTOMERS z \<and>
    cust st c = Submit (Home 0) (S_wait 0) \<and> ndrinkerslock st = Some (Cust c)"
proof -
  obtain st c where st: "bar_reach z st" "halted z st" "c < NCUSTOMERS z" "cust st c = Submit (Home 0) (S_wait 0)"
    using abandoned_halts [OF assms] unfolding abandoned_def by blast
  have inv: "bar_inv z st" using bar_reach_inv [OF assms st(1)] .
  have "main_at st \<noteq> M_end" using all_gone(1) [OF bar_invD(5) [OF inv] _ st(3)] st(4) by auto
  moreover have "ndrinkerslock st = Some (Cust c)" using owner_c(3) [OF bar_invD(3) [OF inv] st(3)] st(4) by simp
  ultimately show ?thesis using st by blast
qed

theorem bar_may_never_close_witness: "\<exists>st. bar_reach bar_h st \<and> halted bar_h st \<and> main_at st \<noteq> M_end"
  using bar_may_never_close [OF bar_h_ok] by blast

text \<open>The calls that create the objects, the newest first, as \<^verbatim>\<open>createbar\<close> and \<^verbatim>\<open>bar_open\<close> make them.\<close>

definition creations :: "bar_size \<Rightarrow> event list" where
  "creations z = [MkLock 3, MkLock 1, MkLock 2, MkLock 0] @ rev (map (\<lambda>i. MkSem (3 + i) 0) [0..<NCUSTOMERS z]) @
     [MkSem 1 0, MkSem 0 (int (NGLASSES z)), MkSem 2 0]"

lemma created_sems: "accepts (rev (map (\<lambda>i. MkSem (3 + i) 0) [0..<n]) @ [MkSem 1 0, MkSem 0 m, MkSem 2 0]) =
    Some (\<lambda>_. None, \<lambda>s. if s = 0 then Some m else if s < 3 + n then Some 0 else None)"
  by (induction n) (auto simp: fun_eq_iff less_Suc_eq numeral_eq_Suc)

lemma created_objects:
  assumes "bar_open True z = Some st"
  shows "accepts (creations z) = Some (bar_objects addr st)"
proof -
  have "bar_locks addr st = [3 \<mapsto> None, 1 \<mapsto> None, 2 \<mapsto> None, 0 \<mapsto> None]"
    using assms by (auto simp: bar_locks_def bar_open_def lock_table_def fun_eq_iff numeral_eq_Suc less_Suc_eq)
  moreover have "bar_sems st = (\<lambda>s. if s = 0 then Some (int (NGLASSES z)) else if s < 3 + NCUSTOMERS z then Some 0 else None)"
    using assms by (auto simp: bar_sems_def bar_open_def rd_def fun_eq_iff numeral_eq_Suc nth_Cons split: nat.splits)
  ultimately show ?thesis by (simp add: creations_def created_sems bar_objects_def fun_upd_twist del: One_nat_def)
qed



end
