(* ===== verification/Loadelf.thy ===== *)
theory Loadelf
  imports Dumbvm Sfs_ops
begin

unbundle bit_operations_syntax

text \<open>
  \<^verbatim>\<open>kern/userprog/loadelf.c\<close>: loading a program. The executable is read through \<^verbatim>\<open>VOP_READ\<close> of its vnode, an argument of the functions; the
  locale \<open>program_file\<close> says what loading relies on, and it is interpreted by the file system's \<^verbatim>\<open>sfs_read\<close>. From the moment
  \<^verbatim>\<open>as_prepare_load\<close> has found frames for it, user memory is seen through the addresses of the process (\<open>user_mem\<close>); \<^verbatim>\<open>Dumbvm\<close> shows that
  the fault handler maps them so. The first touch of an address space with a region missing panics in \<^verbatim>\<open>vm_fault\<close>; a segment
  of some bytes that is to be loaded there has no outcome. How far a program with more pages than the TLB has entries gets depends on when its thread is
  switched, which empties the TLB; it has no outcome here. A file position of 2 GB or more, which the signed \<^verbatim>\<open>off_t\<close> cannot hold,
  has none either.
\<close>

section \<open>Headers\<close>

record elf_ehdr =
  e_ident :: "byte list"
  e_type :: nat
  e_machine :: nat
  e_version :: nat
  e_entry :: nat
  e_phoff :: nat
  e_shoff :: nat
  e_flags :: nat
  e_ehsize :: nat
  e_phentsize :: nat
  e_phnum :: nat
  e_shentsize :: nat
  e_shnum :: nat
  e_shstrndx :: nat

record elf_phdr =
  p_type :: nat
  p_offset :: nat
  p_vaddr :: nat
  p_paddr :: nat
  p_filesz :: nat
  p_memsz :: nat
  p_flags :: nat
  p_align :: nat

definition EHDR_SIZE :: nat where "EHDR_SIZE = 52"
definition PHDR_SIZE :: nat where "PHDR_SIZE = 32"
definition PT_NULL :: nat where "PT_NULL = 0"
definition PT_LOAD :: nat where "PT_LOAD = 1"
definition PT_PHDR :: nat where "PT_PHDR = 6"
definition PT_MIPS_REGINFO :: nat where "PT_MIPS_REGINFO = 0x70000000"
definition PF_X :: nat where "PF_X = 1"

text \<open>The structures in a buffer, in the byte order of the machine.\<close>

definition half_at :: "byte list \<Rightarrow> nat \<Rightarrow> nat" where
  "half_at bs off = dec16 (take 2 (drop off bs))"

definition dec_ehdr :: "byte list \<Rightarrow> elf_ehdr" where
  "dec_ehdr bs = \<lparr>e_ident = take 16 bs, e_type = half_at bs 16, e_machine = half_at bs 18, e_version = word_at bs 20,
     e_entry = word_at bs 24, e_phoff = word_at bs 28, e_shoff = word_at bs 32, e_flags = word_at bs 36,
     e_ehsize = half_at bs 40, e_phentsize = half_at bs 42, e_phnum = half_at bs 44, e_shentsize = half_at bs 46,
     e_shnum = half_at bs 48, e_shstrndx = half_at bs 50\<rparr>"

definition dec_phdr :: "byte list \<Rightarrow> elf_phdr" where
  "dec_phdr bs = \<lparr>p_type = word_at bs 0, p_offset = word_at bs 4, p_vaddr = word_at bs 8, p_paddr = word_at bs 12,
     p_filesz = word_at bs 16, p_memsz = word_at bs 20, p_flags = word_at bs 24, p_align = word_at bs 28\<rparr>"

text \<open>The checks on the executable's header.\<close>

definition elf_valid :: "elf_ehdr \<Rightarrow> bool" where
  "elf_valid eh \<longleftrightarrow> take 7 (e_ident eh) = [0x7f, 0x45, 0x4c, 0x46, 1, 2, 1] \<and>
     e_version eh = 1 \<and> e_type eh = 2 \<and> e_machine eh = 8"

section \<open>Reading and loading\<close>

type_synonym 'w vread = "uio \<Rightarrow> 'w \<Rightarrow> (unit res \<times> uio \<times> 'w) option"

text \<open>A structure read into a variable of the kernel; a short read is not an executable.\<close>

definition read_struct :: "'w vread \<Rightarrow> nat \<Rightarrow> nat \<Rightarrow> 'w \<Rightarrow> (byte list res \<times> 'w) option" where
  "read_struct vread n offset w = do {
     kassert (offset < 2 ^ 31);
     (r, ku, w1) \<leftarrow> vread (mk_kuio (mem_of (replicate n 0)) 0 n offset UIO_READ) w;
     Some (case r of
       Inl e \<Rightarrow> (Inl e, w1)
     | Inr _ \<Rightarrow> if uio_resid ku \<noteq> 0 then (Inl ENOEXEC, w1) else (Inr (contents (uio_mem ku) 0 n), w1))
   }"

text \<open>The program header \<open>i\<close>, and whether it is one to load: the two loops of \<^verbatim>\<open>load_elf\<close> start alike.\<close>

definition read_phdr :: "'w vread \<Rightarrow> elf_ehdr \<Rightarrow> nat \<Rightarrow> 'w \<Rightarrow> (elf_phdr option res \<times> 'w) option" where
  "read_phdr vread eh i w = do {
     kassert (i * e_phentsize eh < 2 ^ 31);
     ebind (read_struct vread PHDR_SIZE (size32 (e_phoff eh + i * e_phentsize eh)) w) (\<lambda>bs w1.
       let ph = dec_phdr bs
       in if p_type ph = PT_NULL \<or> p_type ph = PT_PHDR \<or> p_type ph = PT_MIPS_REGINFO then Some (Inr None, w1)
          else if p_type ph = PT_LOAD then Some (Inr (Some ph), w1)
          else Some (Inl ENOEXEC, w1))
   }"

text \<open>The first loop; \<open>k\<close> headers are left, from number \<open>i\<close> on.\<close>

fun define_segments :: "'w vread \<Rightarrow> elf_ehdr \<Rightarrow> nat \<Rightarrow> nat \<Rightarrow> addrspace \<times> 'w \<Rightarrow> (unit res \<times> addrspace \<times> 'w) option" where
  "define_segments vread eh 0 i s = Some (Inr (), s)"
| "define_segments vread eh (Suc k) i (as, w) = do {
     (r, w1) \<leftarrow> read_phdr vread eh i w;
     (case r of
        Inl e \<Rightarrow> Some (Inl e, as, w1)
      | Inr None \<Rightarrow> define_segments vread eh k (Suc i) (as, w1)
      | Inr (Some ph) \<Rightarrow>
          (case as_define_region as (p_vaddr ph) (p_memsz ph) of
             (Inl e, as1) \<Rightarrow> Some (Inl e, as1, w1)
           | (Inr _, as1) \<Rightarrow> define_segments vread eh k (Suc i) (as1, w1)))
   }"

definition load_segment :: "'w vread \<Rightarrow> nat \<Rightarrow> nat \<Rightarrow> nat \<Rightarrow> nat \<Rightarrow> nat \<Rightarrow> bool \<Rightarrow> memory \<times> 'w \<Rightarrow> (unit res \<times> memory \<times> 'w) option" where
  "load_segment vread space offset vaddr memsize filesize is_executable s = (case s of (m, w) \<Rightarrow> do {
     kassert (offset < 2 ^ 31);
     let filesize = (if filesize > memsize then memsize else filesize);
     (r, u, w1) \<leftarrow> vread \<lparr>uio_mem = m, iov_base = vaddr, iov_len = memsize, uio_offset = offset, uio_resid = filesize,
        uio_segflg = (if is_executable then UIO_USERISPACE else UIO_USERSPACE), uio_rw = UIO_READ,
        uio_space = Some space, cur_space = Some space\<rparr> w;
     (case r of
        Inl e \<Rightarrow> Some (Inl e, uio_mem u, w1)
      | Inr _ \<Rightarrow>
          if uio_resid u \<noteq> 0 then Some (Inl ENOEXEC, uio_mem u, w1)
          else if memsize - filesize > 0 then do {
            (r2, u2) \<leftarrow> uiomovezeros (memsize - filesize) (u\<lparr>uio_resid := size32 (uio_resid u + (memsize - filesize))\<rparr>);
            Some (r2, uio_mem u2, w1)
          }
          else Some (Inr (), uio_mem u, w1))
   })"

text \<open>The second loop.\<close>

fun load_segments :: "'w vread \<Rightarrow> addrspace \<Rightarrow> nat \<Rightarrow> elf_ehdr \<Rightarrow> nat \<Rightarrow> nat \<Rightarrow> memory \<times> 'w \<Rightarrow> (unit res \<times> memory \<times> 'w) option" where
  "load_segments vread as space eh 0 i s = Some (Inr (), s)"
| "load_segments vread as space eh (Suc k) i (m, w) = do {
     (r, w1) \<leftarrow> read_phdr vread eh i w;
     (case r of
        Inl e \<Rightarrow> Some (Inl e, m, w1)
      | Inr None \<Rightarrow> load_segments vread as space eh k (Suc i) (m, w1)
      | Inr (Some ph) \<Rightarrow> do {
          kassert (p_memsz ph = 0 \<or> as_set_up as \<and> as_npages1 as + as_npages2 as + DUMBVM_STACKPAGES \<le> NUM_TLB);
          ebind (load_segment vread space (p_offset ph) (p_vaddr ph) (p_memsz ph) (p_filesz ph) (p_flags ph AND PF_X \<noteq> 0) (m, w1))
            (\<lambda>_ s. load_segments vread as space eh k (Suc i) s)
        })
   }"

text \<open>The memory of a process by its own addresses.\<close>

definition user_mem :: "addrspace \<Rightarrow> machine \<Rightarrow> memory" where
  "user_mem as m = (\<lambda>va. if va < USERTOP then map_option (\<lambda>pa. phys m (pa + va mod PAGE_SIZE)) (vm_translate as (va AND PAGE_FRAME)) else None)"

text \<open>
  \<^verbatim>\<open>load_elf\<close> into the address space \<open>as\<close>, known by \<open>space\<close>: the entry point or an error, the address space, the machine,
  the user memory, empty as long as there are no frames, and what the file has become.
\<close>

definition load_elf :: "'w vread \<Rightarrow> nat \<Rightarrow> addrspace \<Rightarrow> machine \<Rightarrow> 'w \<Rightarrow> (nat res \<times> addrspace \<times> machine \<times> memory \<times> 'w) option" where
  "load_elf vread space as m w = do {
     (r, w1) \<leftarrow> read_struct vread EHDR_SIZE 0 w;
     (case r of
        Inl e \<Rightarrow> Some (Inl e, as, m, Map.empty, w1)
      | Inr bs \<Rightarrow> do {
          let eh = dec_ehdr bs;
          if \<not> elf_valid eh then Some (Inl ENOEXEC, as, m, Map.empty, w1)
          else do {
            (r2, as2, w2) \<leftarrow> define_segments vread eh (e_phnum eh) 0 (as, w1);
            (case r2 of
               Inl e \<Rightarrow> Some (Inl e, as2, m, Map.empty, w2)
             | Inr _ \<Rightarrow> do {
                 (r3, as3, m3) \<leftarrow> as_prepare_load as2 m;
                 (case r3 of
                    Inl e \<Rightarrow> Some (Inl e, as3, m3, Map.empty, w2)
                  | Inr _ \<Rightarrow> do {
                      (r4, um, w4) \<leftarrow> load_segments vread as3 space eh (e_phnum eh) 0 (user_mem as3 m3, w2);
                      Some (case r4 of
                        Inl e \<Rightarrow> (Inl e, as3, m3, um, w4)
                      | Inr _ \<Rightarrow> (case as_complete_load as3 of
                          Inl e \<Rightarrow> (Inl e, as3, m3, um, w4)
                        | Inr _ \<Rightarrow> (Inr (e_entry eh), as3, m3, um, w4)))
                    })
               })
          }
        })
   }"

section \<open>What loading relies on\<close>

text \<open>
  Reading a range that lies in the file delivers the file's bytes, or fails with an error the vnode can give, and leaves
  the file as it is.
\<close>

locale program_file =
  fixes vread :: "'w vread" and bytes :: "'w \<Rightarrow> byte list" and sound :: "'w \<Rightarrow> bool" and errs :: "errno set"
  assumes reads: "sound w \<Longrightarrow> uio_ok u \<Longrightarrow> uio_rw u = UIO_READ \<Longrightarrow> 0 < uio_resid u \<Longrightarrow>
      uio_offset u + uio_resid u \<le> length (bytes w) \<Longrightarrow>
      \<exists>r u' w'. vread u w = Some (r, u', w') \<and> sound w' \<and> bytes w' = bytes w \<and>
        (r = Inr () \<and> u' = uio_filled (take (uio_resid u) (drop (uio_offset u) (bytes w))) u \<or> (\<exists>e \<in> errs. r = Inl e))"
begin

definition gives :: "'w \<Rightarrow> 'a \<Rightarrow> ('a res \<times> 'w) option \<Rightarrow> bool" where
  "gives w x out \<longleftrightarrow> (\<exists>r w'. out = Some (r, w') \<and> sound w' \<and> bytes w' = bytes w \<and> (r = Inr x \<or> (\<exists>e \<in> errs. r = Inl e)))"

lemma read_struct_gives:
  assumes "sound w" and n: "0 < n" "n \<le> USERTOP" and o: "offset + n \<le> length (bytes w)" "offset < 2 ^ 31"
  shows "gives w (take n (drop offset (bytes w))) (read_struct vread n offset w)"
proof -
  let ?u = "mk_kuio (mem_of (replicate n 0)) 0 n offset UIO_READ" and ?bs = "take n (drop offset (bytes w))"
  have ok: "uio_ok ?u" using n(2) by (intro uio_ok_kuio) (simp_all add: readable_def mem_of_def)
  obtain r u' w' where v: "vread ?u w = Some (r, u', w')" "sound w'" "bytes w' = bytes w"
      "r = Inr () \<and> u' = uio_filled ?bs ?u \<or> (\<exists>e \<in> errs. r = Inl e)"
    using reads [OF assms(1) ok] n o by auto
  have l: "length ?bs = n" using o by simp
  have "contents (uio_mem (uio_filled ?bs ?u)) 0 n = ?bs" using uio_filled_contents [OF ok, of ?bs] l by simp
  moreover have "uio_resid (uio_filled ?bs ?u) = 0" using l n by (simp add: USERTOP_def)
  ultimately show ?thesis using v o(2) by (auto simp: gives_def read_struct_def)
qed

end

section \<open>A well-formed executable\<close>

definition phdr_at :: "byte list \<Rightarrow> elf_ehdr \<Rightarrow> nat \<Rightarrow> elf_phdr" where
  "phdr_at f eh i = dec_phdr (take PHDR_SIZE (drop (e_phoff eh + i * e_phentsize eh) f))"

definition elf_headers :: "byte list \<Rightarrow> elf_ehdr \<Rightarrow> bool" where
  "elf_headers f eh \<longleftrightarrow> EHDR_SIZE \<le> length f \<and> length f < 2 ^ 31 \<and> eh = dec_ehdr (take EHDR_SIZE f) \<and> elf_valid eh \<and>
     (\<forall>i < e_phnum eh. e_phoff eh + i * e_phentsize eh + PHDR_SIZE \<le> length f \<and>
        p_type (phdr_at f eh i) \<in> {PT_NULL, PT_LOAD, PT_PHDR, PT_MIPS_REGINFO})"

text \<open>The segments to load, from header \<open>i\<close> on, and what a segment is in memory.\<close>

definition loads :: "byte list \<Rightarrow> elf_ehdr \<Rightarrow> nat \<Rightarrow> nat \<Rightarrow> elf_phdr list" where
  "loads f eh i k = filter (\<lambda>ph. p_type ph = PT_LOAD) (map (phdr_at f eh) [i..<i + k])"

definition segment_image :: "byte list \<Rightarrow> elf_phdr \<Rightarrow> byte list" where
  "segment_image f ph = take (p_filesz ph) (drop (p_offset ph) f) @ replicate (p_memsz ph - p_filesz ph) 0"

definition segment_ok :: "byte list \<Rightarrow> elf_phdr \<Rightarrow> bool" where
  "segment_ok f ph \<longleftrightarrow> 0 < p_filesz ph \<and> p_filesz ph \<le> p_memsz ph \<and> p_offset ph + p_filesz ph \<le> length f \<and>
     p_vaddr ph + p_memsz ph \<le> USERTOP"

fun define_all :: "addrspace \<Rightarrow> elf_phdr list \<Rightarrow> addrspace option" where
  "define_all as [] = Some as"
| "define_all as (ph # phs) = (case as_define_region as (p_vaddr ph) (p_memsz ph) of (Inl _, _) \<Rightarrow> None | (Inr _, as1) \<Rightarrow> define_all as1 phs)"

fun load_all :: "byte list \<Rightarrow> memory \<Rightarrow> elf_phdr list \<Rightarrow> memory" where
  "load_all f m [] = m"
| "load_all f m (ph # phs) = load_all f (fst (memcpy_out m (p_vaddr ph) (segment_image f ph))) phs"

lemma loads_Suc: "loads f eh i (Suc k) = (if p_type (phdr_at f eh i) = PT_LOAD then [phdr_at f eh i] else []) @ loads f eh (Suc i) k"
  by (simp add: loads_def upt_conv_Cons del: upt_Suc)

lemma segment_image_length: "segment_ok f ph \<Longrightarrow> length (segment_image f ph) = p_memsz ph"
  by (auto simp: segment_ok_def segment_image_def min_def)

context program_file
begin

lemma read_phdr_gives:
  assumes "sound w" and e: "elf_headers (bytes w) eh" and i: "i < e_phnum eh"
  shows "gives w (let ph = phdr_at (bytes w) eh i in if p_type ph = PT_LOAD then Some ph else None) (read_phdr vread eh i w)"
proof -
  have o: "e_phoff eh + i * e_phentsize eh + PHDR_SIZE \<le> length (bytes w)" "length (bytes w) < 2 ^ 31"
      "p_type (phdr_at (bytes w) eh i) \<in> {PT_NULL, PT_LOAD, PT_PHDR, PT_MIPS_REGINFO}"
    using e i unfolding elf_headers_def by blast+
  then have s: "size32 (e_phoff eh + i * e_phentsize eh) = e_phoff eh + i * e_phentsize eh" "i * e_phentsize eh < 2 ^ 31" by simp_all
  have "gives w (take PHDR_SIZE (drop (e_phoff eh + i * e_phentsize eh) (bytes w))) (read_struct vread PHDR_SIZE (e_phoff eh + i * e_phentsize eh) w)"
    using o by (intro read_struct_gives [OF assms(1)]) (simp_all add: PHDR_SIZE_def USERTOP_def)
  then show ?thesis
    using o(3) s by (auto simp: gives_def read_phdr_def phdr_at_def Let_def PT_NULL_def PT_LOAD_def PT_PHDR_def PT_MIPS_REGINFO_def)
qed

lemma define_segments_gives:
  assumes "sound w" and e: "elf_headers (bytes w) eh" and "i + k \<le> e_phnum eh" and "define_all as (loads (bytes w) eh i k) = Some as'"
  shows "\<exists>r as1 w'. define_segments vread eh k i (as, w) = Some (r, as1, w') \<and> sound w' \<and> bytes w' = bytes w \<and>
    (r = Inr () \<and> as1 = as' \<or> (\<exists>e \<in> errs. r = Inl e))"
  using assms
proof (induction k arbitrary: i as w)
  case 0
  then show ?case by (simp add: loads_def)
next
  case (Suc k)
  let ?ph = "phdr_at (bytes w) eh i"
  have "gives w (if p_type ?ph = PT_LOAD then Some ?ph else None) (read_phdr vread eh i w)"
    using read_phdr_gives [OF Suc.prems(1,2), of i] Suc.prems(3) by (simp add: Let_def)
  then obtain r w1 where r: "read_phdr vread eh i w = Some (r, w1)" "sound w1" "bytes w1 = bytes w"
      "r = Inr (if p_type ?ph = PT_LOAD then Some ?ph else None) \<or> (\<exists>e \<in> errs. r = Inl e)"
    unfolding gives_def by blast
  have e1: "elf_headers (bytes w1) eh" using Suc.prems(2) r(3) by simp
  consider e where "e \<in> errs" "r = Inl e" | "r = Inr None" "p_type ?ph \<noteq> PT_LOAD" | "r = Inr (Some ?ph)" "p_type ?ph = PT_LOAD"
    using r(4) by (auto split: if_splits)
  then show ?case
  proof cases
    case 1 with r show ?thesis by simp
  next
    case 2
    with Suc.prems(4) have "define_all as (loads (bytes w1) eh (Suc i) k) = Some as'" by (simp add: loads_Suc r(3))
    from Suc.IH [OF r(2) e1 _ this] Suc.prems(3) 2 r show ?thesis by simp
  next
    case 3
    with Suc.prems(4) obtain as1 where "as_define_region as (p_vaddr ?ph) (p_memsz ?ph) = (Inr (), as1)"
        "define_all as1 (loads (bytes w1) eh (Suc i) k) = Some as'"
      by (auto simp: loads_Suc r(3) split: prod.splits sum.splits)
    with Suc.IH [OF r(2) e1 _ this(2)] Suc.prems(3) 3 r show ?thesis by simp
  qed
qed

lemma load_segment_gives:
  assumes w: "sound w" and s: "segment_ok (bytes w) ph" and o: "length (bytes w) < 2 ^ 31" and m: "readable m (p_vaddr ph) (p_memsz ph)"
  shows "\<exists>r m' w'. load_segment vread space (p_offset ph) (p_vaddr ph) (p_memsz ph) (p_filesz ph) x (m, w) = Some (r, m', w') \<and>
    sound w' \<and> bytes w' = bytes w \<and>
    (r = Inr () \<and> m' = fst (memcpy_out m (p_vaddr ph) (segment_image (bytes w) ph)) \<or> (\<exists>e \<in> errs. r = Inl e))"
proof -
  let ?n = "p_filesz ph" and ?k = "p_memsz ph - p_filesz ph" and ?bs = "take (p_filesz ph) (drop (p_offset ph) (bytes w))"
  define u where "u = \<lparr>uio_mem = m, iov_base = p_vaddr ph, iov_len = p_memsz ph, uio_offset = p_offset ph, uio_resid = ?n,
        uio_segflg = (if x then UIO_USERISPACE else UIO_USERSPACE), uio_rw = UIO_READ, uio_space = Some space, cur_space = Some space\<rparr>"
  have s': "0 < ?n" "?n \<le> p_memsz ph" "p_offset ph + ?n \<le> length (bytes w)" "p_vaddr ph + p_memsz ph \<le> USERTOP" "length ?bs = ?n"
    using s by (auto simp: segment_ok_def min_def)
  have ok: "uio_ok u" using s' m by (auto simp: uio_ok_def u_def intro: readable_mono)
  obtain r u' w' where v: "vread u w = Some (r, u', w')" "sound w'" "bytes w' = bytes w"
      "r = Inr () \<and> u' = uio_filled ?bs u \<or> (\<exists>e \<in> errs. r = Inl e)"
    using reads [OF w ok] s' by (auto simp: u_def)
  have b: "?n < 2 ^ 32" "?k < 2 ^ 32" using s' by (simp_all add: USERTOP_def)
  let ?u = "(uio_filled ?bs u)\<lparr>uio_resid := ?k\<rparr>"
  have "readable (fst (memcpy_out m (p_vaddr ph) ?bs)) (p_vaddr ph + ?n) ?k"
    using readable_sub [OF m, of ?n ?k] readable_dom [OF memcpy_out_dom] s' by simp
  then have "uio_ok ?u" using s' by (simp add: uio_ok_def u_def)
  from uiomovezeros_spec [OF this, of ?k] have z: "uiomovezeros ?k ?u = Some (Inr (), uio_filled (replicate ?k 0) ?u)" by (simp add: u_def)
  have "readable m (p_vaddr ph) (length ?bs)" using m s' by (auto intro: readable_mono)
  from memcpy_out_append [OF this, of "replicate ?k 0"] s'(5)
  have i: "memcpy_out (fst (memcpy_out m (p_vaddr ph) ?bs)) (p_vaddr ph + ?n) (replicate ?k 0) = memcpy_out m (p_vaddr ph) (segment_image (bytes w) ph)"
    by (simp add: segment_image_def)
  have "uio_resid (uio_filled ?bs u) = 0" using b s' by (simp add: u_def)
  then show ?thesis
    using v s' o b z i by (auto simp: load_segment_def u_def [symmetric] Let_def) (auto simp: u_def segment_image_def)
qed

lemma load_segments_gives:
  assumes "sound w" and e: "elf_headers (bytes w) eh" and "i + k \<le> e_phnum eh" and set: "as_set_up as" "as_npages1 as + as_npages2 as + DUMBVM_STACKPAGES \<le> NUM_TLB"
    and "\<forall>ph \<in> set (loads (bytes w) eh i k). segment_ok (bytes w) ph \<and> readable m (p_vaddr ph) (p_memsz ph)"
  shows "\<exists>r m' w'. load_segments vread as space eh k i (m, w) = Some (r, m', w') \<and> sound w' \<and> bytes w' = bytes w \<and>
    (r = Inr () \<and> m' = load_all (bytes w) m (loads (bytes w) eh i k) \<or> (\<exists>e \<in> errs. r = Inl e))"
  using assms(1-3,6)
proof (induction k arbitrary: i m w)
  case 0
  then show ?case by (simp add: loads_def)
next
  case (Suc k)
  let ?ph = "phdr_at (bytes w) eh i"
  have "gives w (if p_type ?ph = PT_LOAD then Some ?ph else None) (read_phdr vread eh i w)"
    using read_phdr_gives [OF Suc.prems(1,2), of i] Suc.prems(3) by (simp add: Let_def)
  then obtain r w1 where r: "read_phdr vread eh i w = Some (r, w1)" "sound w1" "bytes w1 = bytes w"
      "r = Inr (if p_type ?ph = PT_LOAD then Some ?ph else None) \<or> (\<exists>e \<in> errs. r = Inl e)"
    unfolding gives_def by blast
  have e1: "elf_headers (bytes w1) eh" using Suc.prems(2) r(3) by simp
  consider e where "e \<in> errs" "r = Inl e" | "r = Inr None" "p_type ?ph \<noteq> PT_LOAD" | "r = Inr (Some ?ph)" "p_type ?ph = PT_LOAD"
    using r(4) by (auto split: if_splits)
  then show ?case
  proof cases
    case 1 with r show ?thesis by simp
  next
    case 2
    with Suc.prems(4) have "\<forall>ph \<in> set (loads (bytes w1) eh (Suc i) k). segment_ok (bytes w1) ph \<and> readable m (p_vaddr ph) (p_memsz ph)"
      by (simp add: loads_Suc r(3))
    from Suc.IH [OF r(2) e1 _ this] Suc.prems(3) 2 r show ?thesis by (simp add: loads_Suc)
  next
    case 3
    have a: "segment_ok (bytes w1) ?ph" "readable m (p_vaddr ?ph) (p_memsz ?ph)" "length (bytes w1) < 2 ^ 31"
      using Suc.prems(4) 3 e1 by (simp_all add: loads_Suc r(3) elf_headers_def)
    obtain r2 m2 w2 where l: "load_segment vread space (p_offset ?ph) (p_vaddr ?ph) (p_memsz ?ph) (p_filesz ?ph) (p_flags ?ph AND PF_X \<noteq> 0) (m, w1)
        = Some (r2, m2, w2)" "sound w2" "bytes w2 = bytes w"
        "r2 = Inr () \<and> m2 = fst (memcpy_out m (p_vaddr ?ph) (segment_image (bytes w) ?ph)) \<or> (\<exists>e \<in> errs. r2 = Inl e)"
      using load_segment_gives [OF r(2) a(1,3,2)] unfolding r(3) by metis
    from l(4) show ?thesis
    proof
      assume m2: "r2 = Inr () \<and> m2 = fst (memcpy_out m (p_vaddr ?ph) (segment_image (bytes w) ?ph))"
      have "elf_headers (bytes w2) eh" using Suc.prems(2) l(3) by simp
      moreover have "\<forall>ph \<in> set (loads (bytes w2) eh (Suc i) k). segment_ok (bytes w2) ph \<and> readable m2 (p_vaddr ph) (p_memsz ph)"
        using Suc.prems(4) m2 readable_dom [OF memcpy_out_dom] by (simp add: loads_Suc l(3))
      ultimately show ?thesis
        using Suc.IH [OF l(2), of "Suc i" m2] Suc.prems(3) 3 r l m2 set by (simp add: loads_Suc)
    next
      assume "\<exists>e \<in> errs. r2 = Inl e"
      with 3 r l set show ?thesis by auto
    qed
  qed
qed

text \<open>
  All of \<^verbatim>\<open>load_elf\<close>, for an executable whose regions the address space can hold.
\<close>

lemma load_elf_gives:
  assumes w: "sound w" and e: "elf_headers (bytes w) eh" and d: "define_all as (loads (bytes w) eh 0 (e_phnum eh)) = Some as2"
    and p: "as_prepare_load as2 m = Some (r3, as3, m3)"
    and s: "r3 = Inr () \<Longrightarrow> as_set_up as3 \<and> as_npages1 as3 + as_npages2 as3 + DUMBVM_STACKPAGES \<le> NUM_TLB \<and> (\<forall>ph \<in> set (loads (bytes w) eh 0 (e_phnum eh)).
       segment_ok (bytes w) ph \<and> readable (user_mem as3 m3) (p_vaddr ph) (p_memsz ph))"
  shows "\<exists>r as' m' um w'. load_elf vread space as m w = Some (r, as', m', um, w') \<and> sound w' \<and> bytes w' = bytes w \<and>
    ((\<exists>e \<in> errs. r = Inl e) \<or> (\<exists>e. r3 = Inl e \<and> r = Inl e) \<or>
     r3 = Inr () \<and> r = Inr (e_entry eh) \<and> as' = as3 \<and> m' = m3 \<and> um = load_all (bytes w) (user_mem as3 m3) (loads (bytes w) eh 0 (e_phnum eh)))"
proof -
  have l: "0 + EHDR_SIZE \<le> length (bytes w)" "eh = dec_ehdr (take EHDR_SIZE (bytes w))" "elf_valid eh" using e unfolding elf_headers_def add_0 by blast+
  obtain r1 w1 where 1: "read_struct vread EHDR_SIZE 0 w = Some (r1, w1)" "sound w1" "bytes w1 = bytes w"
      "r1 = Inr (take EHDR_SIZE (bytes w)) \<or> (\<exists>e \<in> errs. r1 = Inl e)"
    using read_struct_gives [OF w _ _ l(1)] unfolding gives_def by (auto simp: EHDR_SIZE_def USERTOP_def)
  obtain r2 a2 w2 where 2: "define_segments vread eh (e_phnum eh) 0 (as, w1) = Some (r2, a2, w2)" "sound w2" "bytes w2 = bytes w"
      "r2 = Inr () \<and> a2 = as2 \<or> (\<exists>e \<in> errs. r2 = Inl e)"
    using define_segments_gives [OF 1(2), of eh 0 "e_phnum eh" as as2] e d unfolding 1(3) by auto
  show ?thesis
  proof (cases "r1 = Inr (take EHDR_SIZE (bytes w)) \<and> r2 = Inr () \<and> r3 = Inr ()")
    case True
    then have s': "as_set_up as3" "as_npages1 as3 + as_npages2 as3 + DUMBVM_STACKPAGES \<le> NUM_TLB" "\<forall>ph \<in> set (loads (bytes w2) eh 0 (e_phnum eh)). segment_ok (bytes w2) ph \<and> readable (user_mem as3 m3) (p_vaddr ph) (p_memsz ph)"
      using s 2(3) by simp_all
    obtain r4 um w4 where 4: "load_segments vread as3 space eh (e_phnum eh) 0 (user_mem as3 m3, w2) = Some (r4, um, w4)" "sound w4" "bytes w4 = bytes w"
        "r4 = Inr () \<and> um = load_all (bytes w) (user_mem as3 m3) (loads (bytes w) eh 0 (e_phnum eh)) \<or> (\<exists>e \<in> errs. r4 = Inl e)"
      using load_segments_gives [OF 2(2) _ _ s'(1,2), of eh 0 "e_phnum eh" "user_mem as3 m3" space] s'(3) e unfolding 2(3) by auto
    with True 1 2 p l show ?thesis by (auto simp: load_elf_def as_complete_load_def Let_def)
  next
    case False
    with 1 2 p l show ?thesis by (cases r3) (auto simp: load_elf_def Let_def)
  qed
qed

end

section \<open>Programs on the file system\<close>

definition sfs_vread :: "(sfs_vnode \<times> sfs_fs) vread" where
  "sfs_vread u w = (case w of (sv, fs) \<Rightarrow> do { (r, (sv', u', fs')) \<leftarrow> sfs_read (sv, u, fs); Some (r, u', (sv', fs')) })"

definition sfs_bytes :: "sfs_vnode \<times> sfs_fs \<Rightarrow> byte list" where
  "sfs_bytes w = file_bytes (fst w) (snd w) 0 (sfi_size (sv_i (fst w)))"

definition sfs_sound :: "sfs_vnode \<times> sfs_fs \<Rightarrow> bool" where
  "sfs_sound w \<longleftrightarrow> file_inv (fst w) (snd w) \<and> sfi_size (sv_i (fst w)) \<le> max_filesize"

lemma sfs_read_whole:
  assumes ok: "io_ok (sv, u, fs)" and u: "uio_rw u = UIO_READ" "0 < uio_resid u" "uio_offset u + uio_resid u \<le> sfi_size (sv_i sv)"
  shows "\<exists>r sv' u' fs'. sfs_read (sv, u, fs) = Some (r, (sv', u', fs')) \<and> wrote (uio_offset u) [] sv fs sv' fs' \<and>
    (r = Inr () \<and> u' = uio_filled (file_bytes sv fs (uio_offset u) (uio_resid u)) u \<or> r = Inl ENOSPC)"
proof -
  from sfs_io_body_result [OF ok u(2)] obtain r k sv1 u1 fs1 where
    body: "sfs_io_body (sv, u, fs) = Some (r, (sv1, u1, fs1))" and d: "io_done k (sv, u, fs) (sv1, u1, fs1)"
    and r: "r = Inr () \<and> k = uio_resid u \<or> r = Inl ENOSPC \<and> k < uio_resid u"
    unfolding io_result_def by (metis prod_cases3)
  have u1: "u1 = uio_filled (file_bytes sv fs (uio_offset u) k) u" and w: "wrote (uio_offset u) [] sv fs sv1 fs1"
    using d u(1) by (simp_all add: io_done_def)
  have "\<exists>u'. sfs_io (sv, u, fs) = Some (r, (sv1, u', fs1)) \<and> u' = u1"
    using u body u1 unfolding sfs_io_def by (simp add: sfs_io_out_def Let_def)
  then have "sfs_read (sv, u, fs) = Some (r, (sv1, u1, fs1))" using u(1) by (simp add: sfs_read_def)
  with w r u1 show ?thesis by blast
qed

lemma take_drop_file_bytes: "off + n \<le> k \<Longrightarrow> take n (drop off (file_bytes sv fs 0 k)) = file_bytes sv fs off n"
  by (rule nth_equalityI) (auto simp: file_bytes_def)

interpretation sfs_program: program_file sfs_vread sfs_bytes sfs_sound "{ENOSPC}"
proof
  fix w :: "sfs_vnode \<times> sfs_fs" and u :: uio
  assume a: "sfs_sound w" "uio_ok u" "uio_rw u = UIO_READ" "0 < uio_resid u" "uio_offset u + uio_resid u \<le> length (sfs_bytes w)"
  obtain sv fs where w: "w = (sv, fs)" by (cases w)
  have l: "uio_offset u + uio_resid u \<le> sfi_size (sv_i sv)" using a(5) by (simp add: sfs_bytes_def w)
  have "io_ok (sv, u, fs)" using a l by (simp add: io_ok_def sfs_sound_def w)
  then obtain r sv' u' fs' where r: "sfs_read (sv, u, fs) = Some (r, (sv', u', fs'))" "wrote (uio_offset u) [] sv fs sv' fs'"
      "r = Inr () \<and> u' = uio_filled (file_bytes sv fs (uio_offset u) (uio_resid u)) u \<or> r = Inl ENOSPC"
    using sfs_read_whole a(3,4) l by blast
  note wd = wroteD [OF r(2)]
  have sz: "sfi_size (sv_i sv') = sfi_size (sv_i sv)" using r(2) by (simp add: wrote_def same_file_def)
  have "file_byte sv' fs' x = file_byte sv fs x" if "x < sfi_size (sv_i sv)" for x using wd(5) [of x] a(1) that by (auto simp: sfs_sound_def w)
  then have "sfs_bytes (sv', fs') = sfs_bytes w" by (simp add: sfs_bytes_def w sz file_bytes_def)
  moreover have "sfs_sound (sv', fs')" using wd(1) sz a(1) by (simp add: sfs_sound_def w)
  moreover have "take (uio_resid u) (drop (uio_offset u) (sfs_bytes w)) = file_bytes sv fs (uio_offset u) (uio_resid u)"
    using take_drop_file_bytes [OF l] by (simp add: sfs_bytes_def w)
  ultimately show "\<exists>r u' w'. sfs_vread u w = Some (r, u', w') \<and> sfs_sound w' \<and> sfs_bytes w' = sfs_bytes w \<and>
      (r = Inr () \<and> u' = uio_filled (take (uio_resid u) (drop (uio_offset u) (sfs_bytes w))) u \<or> (\<exists>e \<in> {ENOSPC}. r = Inl e))"
    using r by (auto simp: sfs_vread_def w)
qed

section \<open>Loading an executable\<close>

text \<open>
  An executable this kernel can load: two segments to load, of the pages that \<^verbatim>\<open>as_define_region\<close> counts, which are too few when a
  segment that is not on a page boundary needs one more.
\<close>

definition segment_pages :: "elf_phdr \<Rightarrow> nat" where
  "segment_pages ph = (p_memsz ph + 4095) div 4096"

definition segment_fits :: "byte list \<Rightarrow> elf_phdr \<Rightarrow> bool" where
  "segment_fits f ph \<longleftrightarrow> segment_ok f ph \<and> 4096 \<le> p_vaddr ph \<and> p_vaddr ph mod 4096 + p_memsz ph \<le> segment_pages ph * 4096"

definition executable :: "byte list \<Rightarrow> elf_ehdr \<Rightarrow> elf_phdr \<Rightarrow> elf_phdr \<Rightarrow> bool" where
  "executable f eh s1 s2 \<longleftrightarrow> elf_headers f eh \<and> loads f eh 0 (e_phnum eh) = [s1, s2] \<and> segment_fits f s1 \<and> segment_fits f s2 \<and>
     segment_pages s1 + segment_pages s2 + DUMBVM_STACKPAGES \<le> NUM_TLB \<and>
     (p_vaddr s1 + p_memsz s1 \<le> p_vaddr s2 \<or> p_vaddr s2 + p_memsz s2 \<le> p_vaddr s1)"

text \<open>What two regions defined from nothing look like, and their pages in the process.\<close>

definition two_regions :: "elf_phdr \<Rightarrow> elf_phdr \<Rightarrow> addrspace" where
  "two_regions s1 s2 = \<lparr>as_vbase1 = p_vaddr s1 div 4096 * 4096, as_pbase1 = 0, as_npages1 = segment_pages s1,
     as_vbase2 = p_vaddr s2 div 4096 * 4096, as_pbase2 = 0, as_npages2 = segment_pages s2, as_stackpbase = 0\<rparr>"

lemma segment_fitsD:
  assumes "segment_fits f ph"
  shows "size32 (p_memsz ph + PAGE_SIZE - 1) AND PAGE_FRAME = segment_pages ph * 4096"
    "p_vaddr ph AND PAGE_FRAME = p_vaddr ph div 4096 * 4096" "p_vaddr ph div 4096 * 4096 \<noteq> 0" "segment_pages ph \<noteq> 0"
    "p_vaddr ph div 4096 * 4096 + segment_pages ph * 4096 \<le> MIPS_KSEG0"
    "p_vaddr ph + p_memsz ph \<le> p_vaddr ph div 4096 * 4096 + segment_pages ph * 4096"
proof -
  have b: "0 < p_memsz ph" "p_vaddr ph + p_memsz ph \<le> 0x80000000" "4096 \<le> p_vaddr ph"
      "p_vaddr ph mod 4096 + p_memsz ph \<le> segment_pages ph * 4096"
    using assms by (auto simp: segment_fits_def segment_ok_def USERTOP_def)
  then have s: "size32 (p_memsz ph + PAGE_SIZE - 1) = p_memsz ph + 4095" "p_memsz ph + 4095 < 2 ^ 32" "p_vaddr ph < 2 ^ 32"
    by (simp_all add: size32_def PAGE_SIZE_def)
  show "size32 (p_memsz ph + PAGE_SIZE - 1) AND PAGE_FRAME = segment_pages ph * 4096"
    using and_page_frame [OF s(2)] s(1) by (simp add: segment_pages_def)
  show "p_vaddr ph AND PAGE_FRAME = p_vaddr ph div 4096 * 4096" using and_page_frame [OF s(3)] .
  show "p_vaddr ph div 4096 * 4096 \<noteq> 0" "segment_pages ph \<noteq> 0" using b by (simp_all add: segment_pages_def div_eq_0_iff)
  show "p_vaddr ph div 4096 * 4096 + segment_pages ph * 4096 \<le> MIPS_KSEG0"
  proof -
    have "p_vaddr ph div 4096 * 4096 \<le> p_vaddr ph" "segment_pages ph * 4096 \<le> p_memsz ph + 4095"
      by (simp_all add: segment_pages_def div_times_less_eq_dividend)
    then have "p_vaddr ph div 4096 + segment_pages ph < 524289" using b(2) by linarith
    then show ?thesis by (simp add: MIPS_KSEG0_def)
  qed
  show "p_vaddr ph + p_memsz ph \<le> p_vaddr ph div 4096 * 4096 + segment_pages ph * 4096"
    using b(4) div_mult_mod_eq [of "p_vaddr ph" 4096] by linarith
qed

lemma define_two:
  assumes "segment_fits f s1" "segment_fits f s2" and "as_create True = Some as"
  shows "define_all as [s1, s2] = Some (two_regions s1 s2)"
  using segment_fitsD(1,2,3) [OF assms(1)] segment_fitsD(1,2,3) [OF assms(2)] assms(3)
  by (auto simp: as_create_def as_define_region_def two_regions_def Let_def PAGE_SIZE_def)

text \<open>The address space after its frames have been found.\<close>

definition placed :: "elf_phdr \<Rightarrow> elf_phdr \<Rightarrow> nat \<Rightarrow> addrspace" where
  "placed s1 s2 a = (two_regions s1 s2)\<lparr>as_pbase1 := a, as_pbase2 := a + segment_pages s1 * 4096,
     as_stackpbase := a + segment_pages s1 * 4096 + segment_pages s2 * 4096\<rparr>"

definition program_pages :: "elf_phdr \<Rightarrow> elf_phdr \<Rightarrow> nat" where
  "program_pages s1 s2 = segment_pages s1 + segment_pages s2 + DUMBVM_STACKPAGES"

lemma prepare_two:
  assumes "ram_inv m" and "program_pages s1 s2 \<le> NUM_TLB"
  shows "\<exists>r as' m'. as_prepare_load (two_regions s1 s2) m = Some (r, as', m') \<and>
    (r = Inl ENOMEM \<and> lastpaddr m < firstpaddr m + program_pages s1 s2 * 4096 \<or>
     r = Inr () \<and> as' = placed s1 s2 (firstpaddr m) \<and> m' = m\<lparr>firstpaddr := firstpaddr m + program_pages s1 s2 * 4096\<rparr> \<and> ram_inv m')"
proof -
  have b: "as_npages1 (two_regions s1 s2) \<le> 2 ^ 17" "as_npages2 (two_regions s1 s2) \<le> 2 ^ 17"
    using assms(2) by (simp_all add: two_regions_def program_pages_def NUM_TLB_def)
  from as_prepare_load_spec [OF assms(1) b] show ?thesis
    by (auto simp: two_regions_def placed_def program_pages_def PAGE_SIZE_def DUMBVM_STACKPAGES_def algebra_simps)
qed

lemma placed_wf:
  assumes s: "segment_fits f s1" "segment_fits f s2" and p: "program_pages s1 s2 \<le> NUM_TLB" and m: "ram_inv m"
  shows "as_wf (placed s1 s2 (firstpaddr m)) (m\<lparr>firstpaddr := firstpaddr m + program_pages s1 s2 * 4096\<rparr>)"
proof -
  note d1 = segment_fitsD [OF s(1)] and d2 = segment_fitsD [OF s(2)]
  let ?v1 = "p_vaddr s1 div 4096 * 4096" and ?v2 = "p_vaddr s2 div 4096 * 4096" and ?a = "firstpaddr m"
  have a: "0 < ?a" "4096 dvd ?a" "?a \<le> 0x1fc00000" using m by (auto simp: ram_inv_def)
  have n: "segment_pages s1 \<le> 64" "segment_pages s2 \<le> 64" using p by (simp_all add: program_pages_def NUM_TLB_def)
  have l: "?v1 < 2 ^ 32" "?v2 < 2 ^ 32" "?a < 2 ^ 32" "?a + segment_pages s1 * 4096 < 2 ^ 32" "?a + segment_pages s1 * 4096 + segment_pages s2 * 4096 < 2 ^ 32"
    using d1(5) d2(5) a n by (simp_all add: MIPS_KSEG0_def)
  note al = aligned_iff [OF l(1)] aligned_iff [OF l(2)] aligned_iff [OF l(3)] aligned_iff [OF l(4)] aligned_iff [OF l(5)]
  have "as_set_up (placed s1 s2 ?a)"
    using al d1(3,4) d2(3,4) a unfolding as_set_up_def by (simp add: placed_def two_regions_def)
  then show ?thesis
    using d1(5) d2(5) n by (auto simp: as_wf_def as_frames_def placed_def two_regions_def PAGE_SIZE_def program_pages_def DUMBVM_STACKPAGES_def)
qed

lemma user_mem_readable:
  assumes wf: "as_wf as m" and m: "ram_inv m"
    and r: "as_vbase1 as \<le> va \<and> va + n \<le> as_vbase1 as + as_npages1 as * PAGE_SIZE \<or> as_vbase2 as \<le> va \<and> va + n \<le> as_vbase2 as + as_npages2 as * PAGE_SIZE"
  shows "readable (user_mem as m) va n"
proof -
  have al: "4096 dvd as_vbase1 as" "4096 dvd as_vbase2 as" and k: "as_vbase1 as + as_npages1 as * PAGE_SIZE \<le> USERTOP" "as_vbase2 as + as_npages2 as * PAGE_SIZE \<le> USERTOP"
    using wf by (auto simp: as_wf_def as_set_up_def aligned_iff MIPS_KSEG0_def USERTOP_def)
  have "user_mem as m x \<noteq> None" if x: "va \<le> x" "x < va + n" for x
  proof -
    have t: "x < USERTOP" using r x k by auto
    have x': "x AND PAGE_FRAME = x div 4096 * 4096" using t by (simp add: and_page_frame USERTOP_def)
    have *: "v \<le> x \<Longrightarrow> v \<le> x div 4096 * 4096" if "4096 dvd v" for v using that by (auto elim!: dvdE simp: div_le_mono less_eq_div_iff_mult_less_eq)
    have "vm_translate as (x div 4096 * 4096) \<noteq> None"
      using r x * [OF al(1)] * [OF al(2)] div_times_less_eq_dividend [of x 4096] unfolding vm_translate_wf [OF wf m] by auto
    then show ?thesis using t x' by (simp add: user_mem_def)
  qed
  then show ?thesis by (simp add: readable_def)
qed

lemma memcpy_out_contents:
  "readable m a (length bs) \<Longrightarrow> contents (fst (memcpy_out m a bs)) a (length bs) = bs"
  using memcpy_out_spec [of m a bs] by (intro nth_equalityI) simp_all

lemma memcpy_out_elsewhere:
  "a + n \<le> b \<or> b + length bs \<le> a \<Longrightarrow> contents (fst (memcpy_out m b bs)) a n = contents m a n"
  by (intro nth_equalityI) (auto simp: memcpy_out_frame)

lemma load_all_two:
  assumes s: "segment_ok f s1" "segment_ok f s2" and r: "readable m (p_vaddr s1) (p_memsz s1)" "readable m (p_vaddr s2) (p_memsz s2)"
    and d: "p_vaddr s1 + p_memsz s1 \<le> p_vaddr s2 \<or> p_vaddr s2 + p_memsz s2 \<le> p_vaddr s1"
  shows "contents (load_all f m [s1, s2]) (p_vaddr s1) (p_memsz s1) = segment_image f s1"
    "contents (load_all f m [s1, s2]) (p_vaddr s2) (p_memsz s2) = segment_image f s2"
proof -
  let ?m1 = "fst (memcpy_out m (p_vaddr s1) (segment_image f s1))"
  note l = segment_image_length [OF s(1)] segment_image_length [OF s(2)]
  have "readable ?m1 (p_vaddr s2) (p_memsz s2)" using r(2) readable_dom [OF memcpy_out_dom] by simp
  with memcpy_out_contents [of ?m1 "p_vaddr s2" "segment_image f s2"] memcpy_out_contents [of m "p_vaddr s1" "segment_image f s1"] r(1)
  show "contents (load_all f m [s1, s2]) (p_vaddr s1) (p_memsz s1) = segment_image f s1"
    "contents (load_all f m [s1, s2]) (p_vaddr s2) (p_memsz s2) = segment_image f s2"
    using d by (simp_all add: memcpy_out_elsewhere l)
qed


text \<open>A program of two small segments, in block 2 of the volume.\<close>

definition demo_elf :: "byte list" where
  "demo_elf =
    [127, 69, 76, 70, 1, 2, 1, 0, 0, 0, 0, 0, 0, 0, 0, 0, 0, 2, 0, 8, 0, 0, 0, 1, 0, 64, 0, 0, 0, 0, 0, 52, 0, 0, 0, 0, 0, 0, 0, 0, 0, 52, 0, 32, 0, 2, 0, 0, 0, 0, 0, 0,
     0, 0, 0, 1, 0, 0, 0, 116, 0, 64, 0, 0, 0, 0, 0, 0, 0, 0, 0, 4, 0, 0, 0, 4, 0, 0, 0, 5, 0, 0, 16, 0,
     0, 0, 0, 1, 0, 0, 0, 120, 16, 0, 0, 0, 0, 0, 0, 0, 0, 0, 0, 4, 0, 0, 0, 8, 0, 0, 0, 6, 0, 0, 16, 0,
     1, 2, 3, 4, 5, 6, 7, 8]"

definition demo_prog0 :: sfs_vnode where
  "demo_prog0 = demo_vnode\<lparr>sv_i := demo_inode\<lparr>sfi_size := 124\<rparr>\<rparr>"

definition demo_prog :: sfs_vnode where
  "demo_prog = demo_vnode\<lparr>sv_i := demo_inode\<lparr>sfi_size := 124, sfi_direct := 2 # replicate 14 0\<rparr>\<rparr>"

definition demo_prog_fs :: sfs_fs where
  "demo_prog_fs = fs_write 2 (demo_elf @ replicate 388 0) (fs_alloc 2 demo_fs)"

lemma demo_prog_sound: "sfs_sound (demo_prog, demo_prog_fs)" "sfs_bytes (demo_prog, demo_prog_fs) = demo_elf"
proof -
  have p0: "file_inv demo_prog0 demo_fs"
    using demo_fs_inv demo_inode_ok demo_used
    by (intro file_inv_empty) (auto simp: demo_prog0_def demo_vnode_def demo_inode_def inode_ok_def intro: demo_roots)
  have "grows {(Direct 0, [])} demo_prog0 demo_fs demo_prog (fs_alloc 2 demo_fs)"
  proof (rule grows_root [OF p0])
    show "inode_ok (sv_i demo_prog)" using demo_inode_ok by (simp add: demo_prog_def inode_ok_def)
    show "same_file demo_prog0 demo_prog"
      by (simp add: same_file_def demo_prog_def demo_prog0_def demo_vnode_def vnode.defs)
    show "rootptr (sv_i demo_prog) r' = (if r' = Direct 0 then 2 else rootptr (sv_i demo_prog0) r')"
      if "slot_ok (r', [])" for r'
      using that by (cases r') (auto simp: demo_prog_def demo_prog0_def demo_inode_def slot_ok_def nth_Cons')
  qed (use demo_unused in \<open>simp_all add: slot_ok_def demo_prog0_def demo_inode_def\<close>)
  note inv = growsD(1) [OF this]
  have len: "length demo_elf = 124" by (simp add: demo_elf_def)
  have fb: "file_block demo_prog (fs_alloc 2 demo_fs) 0 = 2"
    by (simp add: file_block_def bmap_slot_def demo_prog_def)
  have w: "wrote 0 demo_elf demo_prog (fs_alloc 2 demo_fs) demo_prog demo_prog_fs"
    unfolding demo_prog_fs_def
    by (rule data_write_wrote [OF inv, of 0]) (simp_all add: fb len max_fileblock_def)
  have sz: "sfi_size (sv_i demo_prog) = 124" by (simp add: demo_prog_def)
  show "sfs_bytes (demo_prog, demo_prog_fs) = demo_elf"
    using wroteD(5) [OF w] len unfolding sfs_bytes_def fst_conv snd_conv sz
    by (intro file_bytes_eqI) (auto simp: max_filesize_def max_fileblock_def)
  show "sfs_sound (demo_prog, demo_prog_fs)"
    using wroteD(1) [OF w] by (simp add: sfs_sound_def sz max_filesize_def max_fileblock_def)
qed

definition demo_ehdr :: elf_ehdr where "demo_ehdr = dec_ehdr (take EHDR_SIZE demo_elf)"

lemma demo_headers:
  "e_phoff demo_ehdr = 52" "e_phentsize demo_ehdr = 32" "e_phnum demo_ehdr = 2" "e_entry demo_ehdr = 0x400000" "elf_valid demo_ehdr"
  by (simp_all add: demo_ehdr_def dec_ehdr_def EHDR_SIZE_def demo_elf_def half_at_def word_at_def dec16_def dec32_def elf_valid_def)

definition demo_text :: elf_phdr where
  "demo_text = \<lparr>p_type = 1, p_offset = 116, p_vaddr = 0x400000, p_paddr = 0, p_filesz = 4, p_memsz = 4, p_flags = 5, p_align = 4096\<rparr>"
definition demo_data :: elf_phdr where
  "demo_data = \<lparr>p_type = 1, p_offset = 120, p_vaddr = 0x10000000, p_paddr = 0, p_filesz = 4, p_memsz = 8, p_flags = 6, p_align = 4096\<rparr>"

lemma demo_phdrs: "phdr_at demo_elf demo_ehdr 0 = demo_text" "phdr_at demo_elf demo_ehdr 1 = demo_data"
  by (simp_all add: phdr_at_def demo_headers dec_phdr_def PHDR_SIZE_def demo_elf_def word_at_def dec32_def demo_text_def demo_data_def)

lemma demo_executable: "executable demo_elf demo_ehdr demo_text demo_data"
proof -
  have len: "length demo_elf = 124" by (simp add: demo_elf_def)
  have "loads demo_elf demo_ehdr 0 2 = [demo_text, demo_data]"
    using demo_phdrs by (simp add: loads_def numeral_2_eq_2 demo_text_def demo_data_def PT_LOAD_def)
  moreover have "elf_headers demo_elf demo_ehdr"
    unfolding elf_headers_def len demo_headers less_2_cases_iff demo_ehdr_def [symmetric]
    using demo_phdrs by (auto simp: EHDR_SIZE_def PHDR_SIZE_def demo_headers(5)) (auto simp: demo_text_def demo_data_def PT_LOAD_def)
  ultimately show ?thesis
    by (simp add: executable_def demo_headers segment_fits_def segment_ok_def segment_pages_def len demo_text_def demo_data_def USERTOP_def
        DUMBVM_STACKPAGES_def NUM_TLB_def)
qed

end
