(* ===== verification/Runprogram.thy ===== *)
theory Runprogram
  imports Loadelf Vfs_spec
begin

text \<open>
  \<^verbatim>\<open>kern/userprog/runprogram.c\<close>: a new thread becomes a user process. The program is opened and closed through the VFS layer and read
  with \<^verbatim>\<open>VOP_READ\<close>; the kernel's \<^verbatim>\<open>VOP_READ\<close> is given here, on the vnodes of \<^verbatim>\<open>Vfs_kernel\<close>. What counts is that the reference
  taken by \<^verbatim>\<open>vfs_open\<close> is given back on every way out.
\<close>

section \<open>Reading through a vnode\<close>

definition k_read :: "(nat \<Rightarrow> 'h device) \<Rightarrow> vnode_id \<Rightarrow> uio \<Rightarrow> 'h kworld \<Rightarrow> (unit res \<times> uio \<times> 'h kworld) option" where
  "k_read dvs vn u w =
     vop vn
       (\<lambda>i w. do {
          d \<leftarrow> device_of dvs i w;
          (r, u', h) \<leftarrow> dev_read d u (w_hw w);
          Some (r, u', w\<lparr>w_hw := h\<rparr>)
        })
       (\<lambda>d p w. do {
          fs \<leftarrow> w_vols w d;
          sv \<leftarrow> sv_heap fs p;
          (r, (sv', u', fs')) \<leftarrow> sfs_read (sv, u, fs);
          Some (r, u', put_vol d (sv_put p sv' fs') w)
        })
       (\<lambda>_ _ w. Some (Inl EISDIR, u, w)) w"

section \<open>Running a program\<close>

text \<open>
  What a call ends with: the errors, or the stack pointer and entry point that \<^verbatim>\<open>md_usermode\<close> is called with, which does not come back;
  then the thread's address space, the machine, the user memory and the VFS layer. \<open>mem\<close> says whether \<^verbatim>\<open>as_create\<close> gets its memory.
\<close>

definition runprogram :: "('v, 'f, 'w) vops \<Rightarrow> ('v \<Rightarrow> 'w vread) \<Rightarrow> bool \<Rightarrow> nat \<Rightarrow> byte list \<Rightarrow> addrspace option \<Rightarrow> machine \<Rightarrow> ('v, 'f, 'w) vfs \<Rightarrow>
    ((nat \<times> nat) res \<times> addrspace option \<times> machine \<times> memory \<times> ('v, 'f, 'w) vfs) option" where
  "runprogram ops vop_read mem space progname vmspace m s = do {
     (r, s1) \<leftarrow> vfs_open ops progname 0 s;
     (case r of
        Inl e \<Rightarrow> Some (Inl e, vmspace, m, Map.empty, s1)
      | Inr vn \<Rightarrow> do {
          kassert (vmspace = None);
          (case as_create mem of
             None \<Rightarrow> do {
               s2 \<leftarrow> vfs_close ops vn s1;
               Some (Inl ENOMEM, None, m, Map.empty, s2)
             }
           | Some as \<Rightarrow> do {
               (r2, as2, m2, um, w) \<leftarrow> load_elf (vop_read vn) space as (as_activate m) (world s1);
               (case r2 of
                  Inl e \<Rightarrow> do {
                    s2 \<leftarrow> vfs_close ops vn (s1\<lparr>world := w\<rparr>);
                    Some (Inl e, Some as2, m2, um, s2)
                  }
                | Inr entrypoint \<Rightarrow> do {
                    s2 \<leftarrow> vfs_close ops vn (s1\<lparr>world := w\<rparr>);
                    r3 \<leftarrow> as_define_stack as2;
                    (case r3 of
                       Inl e \<Rightarrow> Some (Inl e, Some as2, m2, um, s2)
                     | Inr stackptr \<Rightarrow> Some (Inr (stackptr, entrypoint), Some as2, m2, um, s2))
                  })
             })
        })
   }"

section \<open>References\<close>

lemma quiet_trans: "quiet refs a b \<Longrightarrow> quiet refs b c \<Longrightarrow> quiet refs a c"
  unfolding quiet_def by (metis One_nat_def le_Suc_eq le_zero_eq less_Suc0 linorder_neqE_nat not_less_zero)

text \<open>Vnodes whose counts a read leaves alone; loading, made of reads, does too.\<close>

locale vnode_reader = counted_vnodes +
  fixes vop_read :: "'a \<Rightarrow> 'c vread"
  assumes read_quiet: "vop_read vn u w = Some (r, u', w') \<Longrightarrow> quiet refs w w'"
begin

lemma read_struct_quiet: "quiet refs w0 w \<Longrightarrow> holds (\<lambda>(r, w'). quiet refs w0 w') (read_struct (vop_read vn) n off w)"
  unfolding read_struct_def by (auto dest: read_quiet quiet_trans split: sum.splits)

lemma read_phdr_quiet: "quiet refs w0 w \<Longrightarrow> holds (\<lambda>(r, w'). quiet refs w0 w') (read_phdr (vop_read vn) eh i w)"
  unfolding read_phdr_def using read_struct_quiet by (auto simp: Let_def intro!: holds_ebind)

lemma define_segments_quiet:
  "quiet refs w0 (snd st) \<Longrightarrow> holds (\<lambda>(r, as', w'). quiet refs w0 w') (define_segments (vop_read vn) eh k i st)"
proof (induction "vop_read vn" eh k i st rule: define_segments.induct)
  case (2 eh k i as w)
  show ?case
    unfolding define_segments.simps
    using read_phdr_quiet [of w0 w vn eh i] 2 by (auto dest: holdsD split: prod.splits)
qed auto

lemma load_segment_quiet:
  "quiet refs w0 (snd st) \<Longrightarrow> holds (\<lambda>(r, m', w'). quiet refs w0 w') (load_segment (vop_read vn) space off va msz fsz x st)"
  unfolding load_segment_def Let_def by (cases st) (auto dest: read_quiet quiet_trans)

lemma load_segments_quiet:
  "quiet refs w0 (snd st) \<Longrightarrow> holds (\<lambda>(r, m', w'). quiet refs w0 w') (load_segments (vop_read vn) as space eh k i st)"
proof (induction k arbitrary: i st)
  case (Suc k)
  obtain m w where st: "st = (m, w)" by (cases st)
  have w: "quiet refs w0 w" using Suc.prems by (simp add: st)
  have l: "quiet refs w0 w1 \<Longrightarrow> load_segment (vop_read vn) space off va msz fsz x (m, w1) = Some (r, m2, w2) \<Longrightarrow> quiet refs w0 w2" for w1 off va msz fsz x r m2 w2
    using holdsD [OF load_segment_quiet [of w0 "(m, w1)" vn space off va msz fsz x]] by simp
  show ?case
    unfolding st load_segments.simps
    using holdsD [OF read_phdr_quiet [OF w, of vn eh i]] Suc.IH by (auto dest: l intro!: holds_ebind_cases) (metis l)+
qed auto

lemma load_elf_quiet: "holds (\<lambda>(r, as', m', um, w'). quiet refs w w') (load_elf (vop_read vn) space as m w)"
proof -
  have r: "quiet refs w w" by (simp add: quiet_def)
  have d: "quiet refs w w1 \<Longrightarrow> define_segments (vop_read vn) eh k i (a, w1) = Some (q, a2, w2) \<Longrightarrow> quiet refs w w2" for w1 eh k i a q a2 w2
    using holdsD [OF define_segments_quiet [of w "(a, w1)" vn eh k i]] by simp
  have l: "quiet refs w w1 \<Longrightarrow> load_segments (vop_read vn) a space eh k i (um, w1) = Some (q, um2, w2) \<Longrightarrow> quiet refs w w2" for w1 a eh k i um q um2 w2
    using holdsD [OF load_segments_quiet [of w "(um, w1)" vn a space eh k i]] by simp
  have h: "read_struct (vop_read vn) n off w = Some (q, w1) \<Longrightarrow> quiet refs w w1" for n off q w1
    using holdsD [OF read_struct_quiet [OF r, of vn n off]] by simp
  show ?thesis unfolding load_elf_def Let_def by (auto split: sum.splits dest: h) (blast dest: h d l)+
qed

lemma runprogram_during:
  assumes "roomy refs (world s)" and "runprogram ops vop_read mem space path vm m s = Some (r, vm', m', um, s')"
  shows "during s {#} s'"
proof -
  obtain q s1 where o: "vfs_open ops path 0 s = Some (q, s1)" using assms(2) by (auto simp: runprogram_def bind_eq_Some_conv)
  have d1: "during s (case q of Inl _ \<Rightarrow> {#} | Inr vn \<Rightarrow> {#vn#}) s1" using open_during [OF during_start [OF assms(1)] _ o] by simp
  show ?thesis
  proof (cases q)
    case (Inl e)
    then show ?thesis using assms(2) o d1 by (auto simp: runprogram_def)
  next
    case (Inr vn)
    have close: "during s {#} s2" if d: "during s {#vn#} s1'" and c: "vfs_close ops vn s1' = Some s2" for s1' s2
    proof -
      obtain w where w: "VOP_DECOPEN ops vn (world s1') = Some w" "decref ops vn (s1'\<lparr>world := w\<rparr>) = Some s2"
        using c by (auto simp: vfs_close_def bind_eq_Some_conv)
      show ?thesis using during_decref [OF during_quiet [OF d decopen_quiet [OF during_small [OF d] w(1)]] w(2)] .
    qed
    have d: "during s {#vn#} s1" using d1 Inr by simp
    have load: "load_elf (vop_read vn) space as (as_activate m) (world s1) = Some (r2, as2, m2, um2, w) \<Longrightarrow> during s {#vn#} (s1\<lparr>world := w\<rparr>)"
      for as r2 as2 m2 um2 w
      using during_quiet [OF d] holdsD [OF load_elf_quiet] by fastforce
    show ?thesis
    proof -
      have "holds (\<lambda>(_, _, _, _, s'). during s {#} s') (runprogram ops vop_read mem space path vm m s)"
        unfolding runprogram_def o using Inr close [OF d] close [OF load] by auto
      from holdsD [OF this assms(2)] show ?thesis by simp
    qed
  qed
qed

lemma runprogram_counts:
  assumes "roomy refs (world s)" and "runprogram ops vop_read mem space path vm m s = Some (r, vm', m', um, s')"
  shows "(\<forall>x. 0 < refs (world s) x \<longrightarrow> refs (world s') x = refs (world s) x) \<and> (\<exists>w. s' = s\<lparr>world := w\<rparr>)"
  using during_counts [OF runprogram_during [OF assms]] runprogram_during [OF assms] by (auto simp: during_def)

end

lemma k_read_quiet: "holds (\<lambda>(r, u', w'). quiet krefs w w') (k_read dvs vn u w)"
proof -
  have "holds (\<lambda>(r, u', w'). quiet krefs w w') (do {
          fs \<leftarrow> w_vols w d;
          sv \<leftarrow> sv_heap fs p;
          (r, (sv', u', fs')) \<leftarrow> sfs_read (sv, u, fs);
          Some (r, u', put_vol d (sv_put p sv' fs') w)
        })" for d p
  proof (intro holds_bind holds_prod, simp)
    fix fs sv r sv' u' fs'
    assume a: "w_vols w d = Some fs" "sv_heap fs p = Some sv" "sfs_read (sv, u, fs) = Some (r, sv', u', fs')"
    have "vkept sv sv' \<and> kept fs fs'" using sfs_io_kept a(3) by (fastforce simp: sfs_read_def split: if_splits)
    then have "steady fs (sv_put p sv' fs')" using steady_trans [OF kept_steady steady_put] a(2) by (auto simp: kept_def vkept_def)
    then show "quiet krefs w (put_vol d (sv_put p sv' fs') w)" using vol_quiet [OF a(1) revol_simps(1)] steady_quiet by blast
  qed
  then show ?thesis unfolding k_read_def by (intro vop_holds) (auto simp: quiet_self)
qed

interpretation kr: vnode_reader "kops dvs" krefs "k_read dvs"
  by unfold_locales (use holdsD [OF k_read_quiet] in fastforce)

text \<open>
  C20: \<^verbatim>\<open>runprogram\<close> closes what it opens: in a kernel whose counts are not about to overflow, a call that returns with an error or leaves
  for user mode has left the count of every vnode that was in use, and the rest of the VFS layer's state, as they were.
\<close>

theorem runprogram_balance:
  assumes "roomy krefs (world s)" and "runprogram (kops dvs) (k_read dvs) mem space path vm m s = Some (r, vm', m', um, s')"
  shows "(\<forall>x. 0 < krefs (world s) x \<longrightarrow> krefs (world s') x = krefs (world s) x) \<and> (\<exists>w. s' = s\<lparr>world := w\<rparr>)"
  by (rule kr.runprogram_counts [OF assms])

text \<open>Running \<^verbatim>\<open>null:\<close>, which opens and has no header to read.\<close>

lemma demo_run:
  "\<exists>s2. runprogram (kops demo_devs) (k_read demo_devs) True 7 null_path None demo_machine demo_vfs =
     Some (Inl ENOEXEC, as_create True, as_activate demo_machine, Map.empty, s2)"
proof -
  have k: "k_read demo_devs (Dev 0) (mk_kuio (mem_of (replicate 52 0)) 0 52 0 UIO_READ) (world demo_opened) =
      Some (Inr (), mk_kuio (mem_of (replicate 52 0)) 0 52 0 UIO_READ, world demo_opened)"
    by (simp add: k_read_def vop_def vop_table_def dev_at_def rd_def device_of_def dev_read_def demo_devs_def null_device_def nullio_def
        demo_opened_def demo_dv_def vnode_check_def mk_kuio_def)
  then have l: "load_elf (k_read demo_devs (Dev 0)) 7 as m (world demo_opened) = Some (Inl ENOEXEC, as, m, Map.empty, world demo_opened)" for as m
    by (simp add: load_elf_def read_struct_def EHDR_SIZE_def mk_kuio_def)
  obtain s2 where "vfs_close (kops demo_devs) (Dev 0) demo_opened = Some s2" using demo_close by blast
  then show ?thesis using demo_vfs_open l by (simp add: runprogram_def as_create_def)
qed

lemma runprogram_balance_witness:
  "\<exists>s2. runprogram (kops demo_devs) (k_read demo_devs) True 7 null_path None demo_machine demo_vfs =
     Some (Inl ENOEXEC, as_create True, as_activate demo_machine, Map.empty, s2) \<and> krefs (world s2) (Dev 0) = krefs (world demo_vfs) (Dev 0)"
proof -
  obtain s2 where s2: "runprogram (kops demo_devs) (k_read demo_devs) True 7 null_path None demo_machine demo_vfs =
      Some (Inl ENOEXEC, as_create True, as_activate demo_machine, Map.empty, s2)" using demo_run by blast
  have "0 < krefs (world demo_vfs) (Dev 0)" using demo_krefs [of "Dev 0"] by (simp add: demo_vfs_def)
  then show ?thesis using s2 runprogram_balance [OF demo_roomy s2] by blast
qed

end
