(* ===== verification/Spec2Isabelle.thy ===== *)
theory Spec2Isabelle
  imports Queue Ptr_Array Bitmap Kheap Sfs_trunc Sfs_vol Synch File_on_sfs Vfs_lookup Bar_spec Runprogram
begin

text \<open>
  \<^bold>\<open>A verification of the OS/161 kernel of this repository.\<close>

  The repository holds the teaching kernel OS/161 (\<^verbatim>\<open>completeCode/os_161/src/kern\<close>, written \<^verbatim>\<open>kern\<close> here) and the
  solutions to three assignments that change it: synchronisation primitives (\<^verbatim>\<open>assignment1/ownSolution\<close>), system
  calls on files (\<^verbatim>\<open>assignment2/ownSolution\<close>, replaced by \<^verbatim>\<open>assignment3/ownSolution\<close>) and a file system with
  indirect blocks (\<^verbatim>\<open>assignment3/ownSolution\<close>). The theories follow the kernel from the bottom up. Where an
  assignment replaces a file of the base kernel, the assignment's version is the one that is modelled.

  \<^bold>\<open>Conventions\<close> (\<^verbatim>\<open>Prelude\<close>). A C function is a function on an explicit state. \<open>None\<close> is an outcome after which
  the kernel does not continue: a panic, a failed assertion, an access outside an object, a call that does
  not return. An error code is \<open>Inl e\<close> of the type \<open>'a res\<close>, success is \<open>Inr\<close>. Unsigned 32-bit arithmetic is
  \<open>size32\<close> and \<open>sub32\<close>, signed is \<open>int32\<close>; bits and bytes are words. Whether \<^verbatim>\<open>kmalloc\<close> finds memory is a Boolean
  argument (or an optional address) of the operation that calls it, so that a theorem about every value of
  it covers every behaviour of the allocator. A theorem that an operation returns is stated as such: \<open>\<exists>r st'. f st = Some (r, st')\<close>.

  \<^bold>\<open>Data structures.\<close>
    \<^item> \<^verbatim>\<open>Queue\<close>: the ring buffer of \<^verbatim>\<open>kern/lib/queue.c\<close>. \<^verbatim>\<open>q_addtail\<close> and \<^verbatim>\<open>q_grow\<close> call each other; the recursion
      is cut by fuel and \<open>q_fuel\<close> is shown to be enough for every queue in the invariant. The locale \<open>fifo_queue\<close> is what
      the scheduler relies on; it is interpreted by the ring buffer.
    \<^item> \<^verbatim>\<open>Ptr_Array\<close>: the growing array of \<^verbatim>\<open>kern/lib/array.c\<close>, refining lists (locale \<open>ptr_table\<close>).
    \<^item> \<^verbatim>\<open>Bitmap\<close>: the free map of \<^verbatim>\<open>kern/lib/bitmap.c\<close>, refining sets of indices (locale \<open>index_set\<close>).

  \<^bold>\<open>Processor and memory.\<close>
    \<^item> \<^verbatim>\<open>Cpu\<close>: the priority level and the status register (\<^verbatim>\<open>kern/arch/mips/mips/spl.c\<close>).
    \<^item> \<^verbatim>\<open>Dumbvm\<close>: \<^verbatim>\<open>ram.c\<close> and \<^verbatim>\<open>dumbvm.c\<close>: page allocation, the TLB fault handler, address spaces. A fault maps the
      right frame or fails without a change; a copied address space shares no frame with its original.
    \<^item> \<^verbatim>\<open>Kheap\<close>: \<^verbatim>\<open>kern/lib/kheap.c\<close>: the subpage allocator on top of those pages, with its free lists threaded through the
      blocks themselves. The invariant \<open>kinv\<close> relates the page references, both lists of pages and the free lists; \<open>live\<close> is the set of
      blocks handed out. The loops over the lists have a bound of \<open>list_fuel\<close> rounds, one more than there are page references,
      which the invariant shows to be enough. The locale \<open>allocator\<close> is what a client relies on; it is interpreted by
      \<^verbatim>\<open>kmalloc\<close> and \<^verbatim>\<open>kfree\<close>.
    \<^item> \<^verbatim>\<open>Copyinout\<close>, \<^verbatim>\<open>Uio\<close>: copying between kernel and user memory; \<^verbatim>\<open>copyout\<close> never writes a kernel address.

  \<^bold>\<open>Threads and synchronisation.\<close>
    \<^item> \<^verbatim>\<open>Threads\<close>: \<^verbatim>\<open>kern/thread/thread.c\<close>, \<^verbatim>\<open>scheduler.c\<close> and \<^verbatim>\<open>hardclock.c\<close>. The state is one record: threads by address,
      the run queue (a \<open>queue\<close>), sleepers and zombies (\<open>parray\<close>), the current thread. A context switch changes which
      thread is current; the step relation \<open>kstep\<close> lets the current thread perform any operation. The invariant
      \<open>thread_inv\<close> holds in every reachable state: every thread is in exactly one place, and memory for every wakeup is
      reserved in advance. The bounds are \<open>max_threads\<close> threads (2 ^ 27), below which the 32-bit sizes of the queue and the
      arrays cannot overflow, and fewer than 2 ^ 28 zombies. The locale \<open>wait_channel\<close> states what sleeping and waking
      promise; it is interpreted by the thread system.
    \<^item> \<^verbatim>\<open>Synch\<close>: semaphores, locks and condition variables of \<^verbatim>\<open>assignment1/ownSolution/synch.c\<close>. A call that sleeps is a frame on
      its thread's stack of suspended calls and continues when the thread runs again, so every interleaving that the
      scheduler can produce is a run of \<open>sstep\<close>. A history of the calls that returned is kept beside the state; it is
      shown to be a history of the abstract specification \<open>accepts\<close>, and from it follow mutual exclusion,
      the count of a semaphore and the absence of lost wakeups.

    \<^item> \<^verbatim>\<open>Bar\<close>, \<^verbatim>\<open>Bar_inv\<close>, \<^verbatim>\<open>Bar_spec\<close>: the bar of \<^verbatim>\<open>assignment1/ownSolution/bar.c\<close> and \<^verbatim>\<open>bar_driver.c\<close>, a program on those locks and semaphores.
      Customers, bartenders and \<^verbatim>\<open>createbar\<close> are threads with a program counter; \<open>turn_of\<close> is one step of one of them, \<open>bar_reach\<close> is closed under the
      steps in any order. The invariant says which thread owns which slot and which glass (\<open>own_inv\<close>, with a frame rule for
      the threads that do not move), what the semaphores count (\<open>tok_inv\<close>), who holds the locks (\<open>lock_inv\<close>) and who is left (\<open>home_inv\<close>,
      \<open>main_inv\<close>). A step lowers \<open>effort\<close>, so that every run ends; \<open>halted\<close> states are characterised, and one of them is a
      deadlock of the code. The calls of a run are a history that \<open>accepts\<close> of \<^verbatim>\<open>Synch\<close> allows.

  \<^bold>\<open>The file system\<close> (\<^verbatim>\<open>assignment3/ownSolution/sfs_vnode.c\<close>, \<^verbatim>\<open>sfs.h\<close>).
    \<^item> \<^verbatim>\<open>Lhd\<close>: the disk driver, with the hardware as a parameter. \<^verbatim>\<open>Vnode\<close>: the counts of a vnode.
    \<^item> \<^verbatim>\<open>Sfs_disk\<close>: the byte layout of superblock, inode and directory entry, block I/O with its retries, the block allocator.
    \<^item> \<^verbatim>\<open>Sfs_bmap\<close>: from a block of a file to a block of the disk. The tree of a file's pointers is described by slots
      (\<open>ptr\<close>, \<open>slot_ok\<close>); the invariant \<open>file_inv\<close> says that the tree is made of distinct blocks in use. \<open>max_fileblock\<close> is the number of
      file blocks the code can address without running over its buffer.
    \<^item> \<^verbatim>\<open>Sfs_file\<close>: reading and writing, against the abstract contents \<open>file_byte\<close>.
    \<^item> \<^verbatim>\<open>Sfs_dir\<close>: directories refine finite maps from names to inode numbers (locale \<open>name_table\<close>).
    \<^item> \<^verbatim>\<open>Sfs_ops\<close>, \<^verbatim>\<open>Sfs_trunc\<close>: the operations on vnodes, over a heap of loaded vnodes; truncation.
    \<^item> \<^verbatim>\<open>Sfs_vol\<close>: \<^verbatim>\<open>kern/fs/sfs/sfs_fs.c\<close>: mounting, syncing and unmounting a volume. A volume that is synced and mounted
      again from its disk has the superblock, the free map and the inodes it had.

  \<^bold>\<open>The VFS layer\<close> (\<^verbatim>\<open>kern/fs/vfs\<close>).
    \<^item> \<^verbatim>\<open>Vfs_list\<close>: \<^verbatim>\<open>vfslist.c\<close>: the list of known devices, its names, mounting and unmounting. The invariant \<open>vfs_inv\<close> says that
      no two entries answer to one name and that an entry with a raw name is one that can be mounted on; every operation
      that changes the list (\<open>list_op\<close>) keeps it.
    \<^item> \<^verbatim>\<open>Vfs_path\<close>: \<^verbatim>\<open>vfslookup.c\<close>, \<^verbatim>\<open>vfspath.c\<close>, \<^verbatim>\<open>vfscwd.c\<close>: from a path to a starting vnode and the rest of the path, the operations
      on paths and the current directory. They are written over any vnode layer (a record of functions \<open>vops\<close>). The locale
      \<open>counted_vnodes\<close> says what a vnode operation does to the counts of references; from it follows, once for every
      operation on paths, which references a call takes and gives back.
    \<^item> \<^verbatim>\<open>Device\<close>: \<^verbatim>\<open>device.c\<close>, \<^verbatim>\<open>devnull.c\<close> and \<^verbatim>\<open>vfsnull.c\<close>: the vnode of a device.
    \<^item> \<^verbatim>\<open>Sfs_counts\<close>: what each vnode operation of the file system does to the counts of the loaded vnodes.
    \<^item> \<^verbatim>\<open>Vfs_kernel\<close>: the kernel's own vnode layer, a dispatch on the table of the vnode to a device or to a file system; it
      interprets \<open>counted_vnodes\<close>.
    \<^item> \<^verbatim>\<open>Vfs_spec\<close>, \<^verbatim>\<open>Vfs_lookup\<close>: what the layer promises, and the way of a path through all of it: the device list, the root
      of the mounted volume, the directory, the inode.

  \<^bold>\<open>System calls.\<close>
    \<^item> \<^verbatim>\<open>File_table\<close>: the open file table and the handler of \<^verbatim>\<open>assignment3/ownSolution/file.c\<close> and \<^verbatim>\<open>syscall.c\<close>, over any vnode layer (a
      record of functions \<open>fops\<close>). The invariant \<open>ft_inv\<close> ties the count of an entry to the descriptors that stand for it, those
      of other threads included.
    \<^item> \<^verbatim>\<open>File_on_sfs\<close>: the same calls with the vnode operations of the file system: what is written is what is read.

  \<^bold>\<open>Programs.\<close>
    \<^item> \<^verbatim>\<open>Loadelf\<close>: \<^verbatim>\<open>kern/userprog/loadelf.c\<close> on the address spaces of \<^verbatim>\<open>Dumbvm\<close>. The locale \<open>program_file\<close> says what a read of the executable
      delivers; it is interpreted by \<^verbatim>\<open>sfs_read\<close>. An executable that fits (\<open>executable\<close>) ends up in the memory of the process byte for byte.
      Programs have at most as many pages as the TLB has entries, so that no fault of the load fails for want of one.
    \<^item> \<^verbatim>\<open>Runprogram\<close>: \<^verbatim>\<open>runprogram.c\<close>, which opens, loads and closes a program through the VFS layer (locale \<open>vnode_reader\<close>, which
      extends \<open>counted_vnodes\<close>); it gives back every reference.

  \<^bold>\<open>What the theorems show wrong.\<close> Several theorems establish a defect of the code: the TLB handler that returns with
  interrupts off, the block write that reports success without writing, the lookup that leaks a block, the
  triple indirect range that runs over its buffer, the truncation that loses blocks, the scheduler's
  preallocation that is one slot short, the size of a \<^verbatim>\<open>kmalloc\<close> that wraps around, \<^verbatim>\<open>lock_destroy\<close> that frees a thread, \<^verbatim>\<open>sys_fstat\<close> that trusts the user,
  the last customer of the bar that never leaves.

  \<^bold>\<open>Not modelled.\<close> The system calls of assignment 2, which assignment 3 replaces. Trap dispatch,
  memory-mapped devices other than the disk, the menu, the in-kernel tests and the user programs
  are input and output or drivers of the parts above. Locks inside the vnode and file system code are left
  out: each of those operations is modelled as one step of the thread that holds them.
\<close>

end
